(* ===== verification/Numeral_Prelude.thy ===== *)
theory Numeral_Prelude
  imports Complex_Main "HOL-Library.Word" "HOL-Library.Signed_Division"
    "HOL-Library.While_Combinator"
begin

text \<open>
  Shared vocabulary of the development: the machine types of the C++ sources
  (\<open>mpn_digit\<close>, \<open>mpn_double_digit\<close>, \<open>int\<close>, \<open>int64_t\<close>), the result type of operations that
  may throw, the value of a little-endian digit array, and the generic lemmas on words,
  digit arrays and truncating division that the component theories use.
\<close>

unbundle bit_operations_syntax

named_theorems digit_simps \<open>reading fixed-width words as natural numbers\<close>
named_theorems dval_simps \<open>the value of a digit array\<close>

section \<open>Machine types and results\<close>

type_synonym digit = "32 word"
type_synonym double_digit = "64 word"

abbreviation digit_base :: nat where
  "digit_base \<equiv> 4294967296"

text \<open>An operation that can fail returns a fault or a value: an exception the source throws,
  a \<open>VERIFY\<close> or an assertion (\<open>SASSERT\<close>) that fails and ends the program, the undefined behaviour of a C++ operator outside its
  domain, or a loop that does not end.\<close>

datatype fault =
    Division_by_zero
  | Mixing_rational_scientific
  | Exponent_too_big
  | Verify_failed
  | Undefined_behaviour
  | Nontermination
  | Canceled

type_synonym 'a res = "fault + 'a"

fun bind_res :: "'a res \<Rightarrow> ('a \<Rightarrow> 'b res) \<Rightarrow> 'b res" where
  "bind_res (Inl e) f = Inl e"
| "bind_res (Inr x) f = f x"

lemma bind_res_Inr_iff: "bind_res m f = Inr y \<longleftrightarrow> (\<exists>x. m = Inr x \<and> f x = Inr y)"
  by (cases m) auto

text \<open>\<open>yields m Q\<close>: \<open>m\<close> returns without a fault, and its value satisfies \<open>Q\<close>. The rules compute
  the weakest precondition of a sequence of operations.\<close>

definition yields :: "'a res \<Rightarrow> ('a \<Rightarrow> bool) \<Rightarrow> bool" where
  "yields m Q \<longleftrightarrow> (\<exists>x. m = Inr x \<and> Q x)"

lemma yields_Inr [simp]: "yields (Inr x) Q \<longleftrightarrow> Q x"
  by (simp add: yields_def)

lemma yields_Inl [simp]: "\<not> yields (Inl e) Q"
  by (simp add: yields_def)

lemma yields_bind [simp]: "yields (bind_res m f) Q \<longleftrightarrow> yields m (\<lambda>x. yields (f x) Q)"
  by (cases m) simp_all

lemma yields_if [simp]: "yields (if b then m else n) Q \<longleftrightarrow> (if b then yields m Q else yields n Q)"
  by simp

lemma yields_Let [simp]: "yields (let x = a in f x) Q \<longleftrightarrow> (let x = a in yields (f x) Q)"
  by (simp add: Let_def)

lemma yields_mono: "yields m P \<Longrightarrow> (\<And>x. P x \<Longrightarrow> Q x) \<Longrightarrow> yields m Q"
  by (auto simp: yields_def)

lemma yields_conj: "yields m P \<Longrightarrow> (\<And>x. m = Inr x \<Longrightarrow> Q x) \<Longrightarrow> yields m (\<lambda>x. P x \<and> Q x)"
  by (auto simp: yields_def)

lemma yieldsE: "yields m P \<Longrightarrow> (\<And>x. m = Inr x \<Longrightarrow> P x \<Longrightarrow> thesis) \<Longrightarrow> thesis"
  by (auto simp: yields_def)

text \<open>A loop \<open>while (b) c\<close> over a state: total correctness needs an invariant that the body keeps
  without a fault and a measure that it decreases.\<close>

definition while_res :: "('s \<Rightarrow> bool) \<Rightarrow> ('s \<Rightarrow> 's res) \<Rightarrow> 's \<Rightarrow> 's res" where
  "while_res b c s =
     (case while_option (\<lambda>r. case r of Inl e \<Rightarrow> False | Inr t \<Rightarrow> b t) (\<lambda>r. bind_res r c) (Inr s) of
        None \<Rightarrow> Inl Nontermination
      | Some r \<Rightarrow> r)"

lemma while_res_unfold: "while_res b c s = (if b s then bind_res (c s) (while_res b c) else Inr s)"
proof (cases "b s")
  case True
  show ?thesis
  proof (cases "c s")
    case (Inl e)
    with True show ?thesis
      by (simp add: while_res_def while_option_unfold [of _ _ "Inr s"] while_option_unfold [of _ _ "Inl e"])
  next
    case (Inr t)
    with True show ?thesis
      by (simp add: while_res_def while_option_unfold [of _ _ "Inr s"])
  qed
qed (simp add: while_res_def while_option_unfold)

lemma while_res_rule:
  assumes "I s"
    and "\<And>t. I t \<Longrightarrow> b t \<Longrightarrow> \<exists>t'. c t = Inr t' \<and> I t' \<and> (m t' :: nat) < m t"
  obtains t where "while_res b c s = Inr t" "I t" "\<not> b t"
proof -
  have "\<exists>t. while_res b c s = Inr t \<and> I t \<and> \<not> b t"
    using assms(1)
  proof (induction "m s" arbitrary: s rule: less_induct)
    case less
    show ?case
    proof (cases "b s")
      case True
      obtain t' where t': "c s = Inr t'" "I t'" "m t' < m s"
        using assms(2) [OF less.prems True] by blast
      with less.hyps [OF t'(3,2)] True show ?thesis
        by (subst while_res_unfold) simp
    next
      case False
      with less.prems show ?thesis by (subst while_res_unfold) auto
    qed
  qed
  with that show thesis by blast
qed

lemma while_res_partial:
  assumes w: "while_res b c s = Inr t" and "I s"
    and step: "\<And>u v. I u \<Longrightarrow> b u \<Longrightarrow> c u = Inr v \<Longrightarrow> I v"
  shows "I t"
proof -
  have "while_option (\<lambda>r. case r of Inl e \<Rightarrow> False | Inr t \<Rightarrow> b t) (\<lambda>r. bind_res r c) (Inr s) = Some (Inr t)"
    using w by (simp add: while_res_def split: option.splits)
  then have "\<forall>u. (Inr t :: 'a res) = Inr u \<longrightarrow> I u"
    by (rule while_option_rule [rotated, where P = "\<lambda>r. \<forall>u. r = Inr u \<longrightarrow> I u"])
      (use \<open>I s\<close> in \<open>auto dest: step simp: bind_res_Inr_iff split: sum.splits\<close>)
  then show ?thesis by simp
qed

lemma while_res_total:
  assumes "I s"
    and "\<And>t. I t \<Longrightarrow> b t \<Longrightarrow> \<exists>t'. c t = Inr t' \<and> I t' \<and> (m t' :: nat) < m t"
    and "\<And>t. I t \<Longrightarrow> \<not> b t \<Longrightarrow> Q t"
  shows "\<exists>t. while_res b c s = Inr t \<and> Q t"
proof -
  obtain t where "while_res b c s = Inr t" "I t" "\<not> b t"
    by (rule while_res_rule [OF assms(1,2)])
  with assms(3) show ?thesis by blast
qed

definition int_min :: int where "int_min = - 2147483648"
definition int_max :: int where "int_max = 2147483647"

text \<open>Reading a value at the width of an \<open>int64_t\<close> or an \<open>int\<close>: two's complement wrap-around.\<close>

definition wrap_i64 :: "int \<Rightarrow> int" where
  "wrap_i64 x = (x + 2 ^ 63) mod 2 ^ 64 - 2 ^ 63"

definition wrap_int :: "int \<Rightarrow> int" where
  "wrap_int x = (x + 2 ^ 31) mod 2 ^ 32 - 2 ^ 31"

lemma wrap_i64_id: "- (2 ^ 63) \<le> x \<Longrightarrow> x < 2 ^ 63 \<Longrightarrow> wrap_i64 x = x"
  by (simp add: wrap_i64_def)

lemma wrap_int_id: "int_min \<le> x \<Longrightarrow> x \<le> int_max \<Longrightarrow> wrap_int x = x"
  by (simp add: wrap_int_def int_min_def int_max_def)

section \<open>Words as natural numbers\<close>

lemma unat_digit_lt: "unat (d :: digit) < digit_base"
  using unsigned_less [of d] by simp

lemma unat_double_lt: "unat (d :: double_digit) < 18446744073709551616"
  using unsigned_less [of d] by simp

lemma unat_ucast_up [digit_simps]: "unat (ucast (d :: digit) :: double_digit) = unat d"
proof -
  have "unat d < 2 ^ 64"
    by (rule less_trans [OF unat_digit_lt]) simp
  then show ?thesis
    by (simp add: unsigned_ucast_eq take_bit_nat_eq_self)
qed

lemma unat_ucast_down [digit_simps]: "unat (ucast (t :: double_digit) :: digit) = unat t mod digit_base"
  by (simp add: unsigned_ucast_eq take_bit_eq_mod)

lemma unat_drop_bit_32 [digit_simps]: "unat (drop_bit 32 (t :: double_digit)) = unat t div digit_base"
  by (simp only: unat_drop_bit_eq) (simp add: drop_bit_eq_div)

lemma unat_add_digit [digit_simps]: "unat ((x :: digit) + y) = (unat x + unat y) mod digit_base"
  by (simp add: unat_word_ariths)

lemma unat_sub_digit: "unat ((x :: digit) - y) =
    (if unat y \<le> unat x then unat x - unat y else unat x + digit_base - unat y)"
  by (simp add: unat_sub_if_size word_size)

lemma unat_add_double: "unat x + unat y < 18446744073709551616 \<Longrightarrow>
    unat ((x :: double_digit) + y) = unat x + unat y"
  by (simp add: unat_word_ariths)

lemma unat_mult_double: "unat x * unat y < 18446744073709551616 \<Longrightarrow>
    unat ((x :: double_digit) * y) = unat x * unat y"
  by (simp add: unat_word_ariths)

lemma unat_sub_double: "unat y \<le> unat x \<Longrightarrow> unat ((x :: double_digit) - y) = unat x - unat y"
  by (simp add: unat_sub_if_size)

section \<open>Shifts and disjoint disjunctions\<close>

lemma or_eq_add_nat: "(b::nat) < 2 ^ d \<Longrightarrow> a * 2 ^ d OR b = a * 2 ^ d + b"
proof -
  assume "b < 2 ^ d"
  then have b: "take_bit d b = b" by (simp add: take_bit_nat_eq_self)
  have "a * 2 ^ d AND take_bit d b = 0"
    by (intro bit_eqI) (auto simp: bit_simps push_bit_eq_mult [symmetric])
  then show ?thesis unfolding b by (rule disjunctive_add_eq_or [symmetric])
qed

lemma pow2_split: "d \<le> 32 \<Longrightarrow> digit_base = 2 ^ d * 2 ^ (32 - d)"
  by (simp add: power_add [symmetric])

lemma unat_push_bit_digit: "d \<le> 32 \<Longrightarrow> unat (push_bit d (x :: digit)) = (unat x mod 2 ^ (32 - d)) * 2 ^ d"
proof -
  assume d: "d \<le> 32"
  have "unat (push_bit d x) = unat x * 2 ^ d mod digit_base"
    by (simp only: unsigned_push_bit_eq) (simp add: push_bit_eq_mult take_bit_eq_mod)
  also have "digit_base = 2 ^ (32 - d) * 2 ^ d"
    using pow2_split [OF d] by (simp add: mult.commute)
  finally show ?thesis by (simp only: mod_mult_mult2)
qed

lemma unat_drop_bit_digit: "unat (drop_bit d (x :: digit)) = unat x div 2 ^ d"
  by (simp only: unat_drop_bit_eq) (simp add: drop_bit_eq_div)

lemma unat_shift_or:
  assumes "d \<le> 32"
  shows "unat (push_bit d (x :: digit) OR drop_bit (32 - d) y) =
    (unat x mod 2 ^ (32 - d)) * 2 ^ d + unat y div 2 ^ (32 - d)"
proof -
  have "unat y < 2 ^ d * 2 ^ (32 - d)"
    using unat_digit_lt [of y] pow2_split [OF assms] by simp
  then have "unat y div 2 ^ (32 - d) < 2 ^ d"
    by (rule less_mult_imp_div_less)
  then show ?thesis
    by (simp add: unsigned_or_eq unat_push_bit_digit assms unat_drop_bit_digit or_eq_add_nat)
qed

lemma unat_pair_digits:
  "unat (push_bit 32 (ucast (x :: digit)) OR ucast (y :: digit) :: double_digit) = unat x * digit_base + unat y"
proof -
  have "unat x * digit_base < 18446744073709551616"
    using unat_digit_lt [of x] by simp
  then have "unat (push_bit 32 (ucast x) :: double_digit) = unat x * 2 ^ 32"
    by (simp add: push_bit_eq_mult unat_word_ariths unat_ucast_up)
  then show ?thesis
    using or_eq_add_nat [of "unat y" 32 "unat x"] unat_digit_lt [of y]
    by (simp add: unsigned_or_eq unat_ucast_up)
qed
section \<open>Digit arrays\<close>

text \<open>The number a little-endian array of digits stands for, and the read of a digit past
  the end of an array, which the sources replace by zero.\<close>

fun dval :: "digit list \<Rightarrow> nat" where
  "dval [] = 0"
| "dval (d # ds) = unat d + digit_base * dval ds"

definition digit_at :: "digit list \<Rightarrow> nat \<Rightarrow> digit" where
  "digit_at a j = (if j < length a then a ! j else 0)"

fun dval_from :: "digit list \<Rightarrow> nat \<Rightarrow> nat \<Rightarrow> nat" where
  "dval_from a j 0 = 0"
| "dval_from a j (Suc n) = unat (digit_at a j) + digit_base * dval_from a (Suc j) n"

lemma dval_append [dval_simps]: "dval (xs @ ys) = dval xs + digit_base ^ length xs * dval ys"
  by (induction xs) (simp_all add: algebra_simps)

lemma dval_replicate_0 [simp]: "dval (replicate n 0) = 0"
  by (induction n) simp_all

lemma dval_less: "dval xs < digit_base ^ length xs"
proof (induction xs)
  case (Cons d ds)
  have "unat d + digit_base * dval ds < digit_base * (1 + dval ds)"
    using unat_digit_lt [of d] by simp
  also have "\<dots> \<le> digit_base * digit_base ^ length ds"
    using Cons by (intro mult_left_mono) simp_all
  finally show ?case by simp
qed simp

lemma dval_take_drop: "dval xs = dval (take n xs) + digit_base ^ length (take n xs) * dval (drop n xs)"
  using dval_append [of "take n xs" "drop n xs"] by simp

lemma dval_take_Suc: "n < length xs \<Longrightarrow>
    dval (take (Suc n) xs) = dval (take n xs) + digit_base ^ n * unat (xs ! n)"
  by (simp add: take_Suc_conv_app_nth dval_simps)

lemma dval_drop: "n < length xs \<Longrightarrow> dval (drop n xs) = unat (xs ! n) + digit_base * dval (drop (Suc n) xs)"
  by (metis Cons_nth_drop_Suc dval.simps(2))

lemma dval_from_drop: "length a \<le> j + n \<Longrightarrow> dval_from a j n = dval (drop j a)"
proof (induction n arbitrary: j)
  case (Suc n)
  then have IH: "dval_from a (Suc j) n = dval (drop (Suc j) a)" by simp
  show ?case
    by (cases "j < length a") (simp_all add: IH digit_at_def dval_drop)
qed simp

lemma dval_from_0: "length a \<le> n \<Longrightarrow> dval_from a 0 n = dval a"
  by (simp add: dval_from_drop)

lemma dval_from_less: "dval_from a j n < digit_base ^ n"
proof (induction n arbitrary: j)
  case (Suc n)
  have "unat (digit_at a j) + digit_base * dval_from a (Suc j) n < digit_base * (1 + dval_from a (Suc j) n)"
    using unat_digit_lt [of "digit_at a j"] by simp
  also have "\<dots> \<le> digit_base * digit_base ^ n"
    using Suc [of "Suc j"] by (intro mult_left_mono) simp_all
  finally show ?case by simp
qed simp

lemma dval_ge_last: "xs \<noteq> [] \<Longrightarrow> digit_base ^ (length xs - 1) * unat (last xs) \<le> dval xs"
proof -
  assume "xs \<noteq> []"
  then have "dval xs = dval (butlast xs) + digit_base ^ (length xs - 1) * unat (last xs)"
    using dval_append [of "butlast xs" "[last xs]"] by simp
  then show ?thesis by simp
qed

lemma dval_last_bounds:
  assumes "xs \<noteq> []"
  shows "unat (last xs) * digit_base ^ (length xs - 1) \<le> dval xs"
    "dval xs < (unat (last xs) + 1) * digit_base ^ (length xs - 1)"
proof -
  have "dval xs = dval (butlast xs) + digit_base ^ (length xs - 1) * unat (last xs)"
    using dval_append [of "butlast xs" "[last xs]"] assms by simp
  with dval_less [of "butlast xs"]
  show "unat (last xs) * digit_base ^ (length xs - 1) \<le> dval xs"
    "dval xs < (unat (last xs) + 1) * digit_base ^ (length xs - 1)"
    by (simp_all add: algebra_simps)
qed

lemma dval_pos: "xs \<noteq> [] \<Longrightarrow> last xs \<noteq> 0 \<Longrightarrow> 0 < dval xs"
  using dval_ge_last [of xs] by (metis gr0I le_zero_eq mult_is_0 power_not_zero unat_0_iff zero_neq_numeral)

lemma dval_eq_0_iff: "dval xs = 0 \<longleftrightarrow> (\<forall>d \<in> set xs. d = 0)"
  by (induction xs) (auto simp: unat_0_iff)

lemma digit_split_eq: "unat (x :: digit) + digit_base * a = unat y + digit_base * b \<longleftrightarrow> x = y \<and> a = b"
proof
  assume eq: "unat x + digit_base * a = unat y + digit_base * b"
  have "(unat x + digit_base * a) mod digit_base = unat x"
    and "(unat y + digit_base * b) mod digit_base = unat y"
    using unat_digit_lt [of x] unat_digit_lt [of y] by simp_all
  with eq have "unat x = unat y" by simp
  with eq show "x = y \<and> a = b" by (simp add: word_unat_eq_iff)
qed simp

lemma dval_inject: "length xs = length ys \<Longrightarrow> dval xs = dval ys \<longleftrightarrow> xs = ys"
proof (induction xs ys rule: list_induct2)
  case (Cons x xs y ys)
  show ?case
    using Cons.IH by (simp add: digit_split_eq)
qed simp

section \<open>Truncating division of C++ integers\<close>

text \<open>\<open>/\<close> and \<open>%\<close> on C++ integers round towards zero: the library's \<open>sdiv\<close> and \<open>smod\<close>.\<close>

lemma smod_eq_0_iff: "(a :: int) smod b = 0 \<longleftrightarrow> b dvd a"
proof -
  have "(a :: int) smod b = 0 \<longleftrightarrow> \<bar>a\<bar> mod \<bar>b\<bar> = 0"
    by (auto simp: smod_int_alt_def sgn_if)
  also have "\<dots> \<longleftrightarrow> b dvd a"
    by (simp add: mod_eq_0_iff_dvd)
  finally show ?thesis .
qed

lemma sdiv_nonneg: "0 \<le> a \<Longrightarrow> 0 \<le> b \<Longrightarrow> (a :: int) sdiv b = a div b"
  by (auto simp: signed_divide_int_def sgn_if)

lemma sdiv_dvd: "b dvd a \<Longrightarrow> (a :: int) sdiv b = a div b"
  by (simp add: signed_divide_int_eq_divide_int)

lemma sdiv_abs_le: "\<bar>(a :: int) sdiv b\<bar> \<le> \<bar>a\<bar>"
  using sdiv_int_range [of a b] by auto

lemma smod_abs_less: "b \<noteq> 0 \<Longrightarrow> \<bar>(a :: int) smod b\<bar> < \<bar>b\<bar>"
  using smod_int_range [of b a] by auto

lemma smod_abs_le: "\<bar>(a :: int) smod b\<bar> \<le> \<bar>a\<bar>"
proof -
  have "\<bar>a\<bar> mod \<bar>b\<bar> \<le> \<bar>a\<bar>" and "0 \<le> \<bar>a\<bar> mod \<bar>b\<bar>"
    by (cases "b = 0"; simp add: zmod_le_nonneg_dividend)+
  then show ?thesis
    by (cases "0 < a") (auto simp: smod_int_alt_def abs_mult sgn_if)
qed

end
