(* ===== verification/Mpn.thy ===== *)
theory Mpn
  imports Numeral_Prelude
begin

text \<open>
  \<open>mpn_manager\<close> (util/mpn.cpp): comparison, addition, subtraction and multiplication of
  natural numbers stored as little-endian arrays of 32-bit digits. An array is a list of
  digits, a loop over an index is a recursion on the number of iterations left, and a buffer
  that an operation fills in place is an argument whose old contents the theorems quantify
  over. \<open>dval\<close> is the number an array stands for; each operation is proved to compute the
  corresponding operation on it.
\<close>

section \<open>Operations\<close>

fun mpn_compare_loop :: "digit list \<Rightarrow> digit list \<Rightarrow> nat \<Rightarrow> int" where
  "mpn_compare_loop a b 0 = 0"
| "mpn_compare_loop a b (Suc j) =
     (let u = digit_at a j; v = digit_at b j
      in if u > v then 1 else if u < v then - 1 else mpn_compare_loop a b j)"

definition mpn_compare :: "digit list \<Rightarrow> digit list \<Rightarrow> int" where
  "mpn_compare a b = mpn_compare_loop a b (max (length a) (length b))"

text \<open>Knuth's algorithm A. \<open>n\<close> iterations are left; the result is the digits from \<open>c[j]\<close>
  on, the last carry included.\<close>

fun mpn_add_loop :: "digit list \<Rightarrow> digit list \<Rightarrow> nat \<Rightarrow> nat \<Rightarrow> digit \<Rightarrow> digit list" where
  "mpn_add_loop a b j 0 k = [k]"
| "mpn_add_loop a b j (Suc n) k =
     (let u = digit_at a j; v = digit_at b j;
          r = u + v; c1 = r < u;
          c = r + k; c2 = c < r
      in c # mpn_add_loop a b (Suc j) n (of_bool (c1 \<or> c2)))"

text \<open>\<open>for (os = len+1; os > 1 && c[os-1] == 0; ) os--\<close>\<close>

fun mpn_real_size :: "digit list \<Rightarrow> nat \<Rightarrow> nat" where
  "mpn_real_size c 0 = 0"
| "mpn_real_size c (Suc m) = (if 0 < m \<and> c ! m = 0 then mpn_real_size c m else Suc m)"

definition mpn_add :: "digit list \<Rightarrow> digit list \<Rightarrow> digit list \<times> nat" where
  "mpn_add a b =
     (let len = max (length a) (length b);
          c = mpn_add_loop a b 0 len 0
      in (c, mpn_real_size c (len + 1)))"

text \<open>Knuth's algorithm S: the digits of the difference and the final borrow.\<close>

fun mpn_sub_loop :: "digit list \<Rightarrow> digit list \<Rightarrow> nat \<Rightarrow> nat \<Rightarrow> digit \<Rightarrow> digit list \<times> digit" where
  "mpn_sub_loop a b j 0 k = ([], k)"
| "mpn_sub_loop a b j (Suc n) k =
     (let u = digit_at a j; v = digit_at b j;
          r = u - v; c1 = r > u;
          c = r - k; c2 = c > r;
          (cs, borrow) = mpn_sub_loop a b (Suc j) n (of_bool (c1 \<or> c2))
      in (c # cs, borrow))"

definition mpn_sub :: "digit list \<Rightarrow> digit list \<Rightarrow> digit list \<times> digit" where
  "mpn_sub a b = mpn_sub_loop a b 0 (max (length a) (length b)) 0"

text \<open>Knuth's algorithm M. The product is accumulated in the caller's buffer \<open>c\<close>.\<close>

fun mpn_mul_inner :: "digit list \<Rightarrow> digit \<Rightarrow> nat \<Rightarrow> nat \<Rightarrow> nat \<Rightarrow> digit \<Rightarrow> digit list \<Rightarrow> digit list" where
  "mpn_mul_inner a v j i 0 k c = c[j + length a := k]"
| "mpn_mul_inner a v j i (Suc n) k c =
     (let t = (ucast (a ! i) * ucast v + ucast (c ! (i + j)) + ucast k :: double_digit)
      in mpn_mul_inner a v j (Suc i) n (ucast (drop_bit 32 t))
           (c[i + j := ucast (drop_bit 32 (push_bit 32 t))]))"

fun mpn_mul_outer :: "digit list \<Rightarrow> digit list \<Rightarrow> nat \<Rightarrow> nat \<Rightarrow> digit list \<Rightarrow> digit list" where
  "mpn_mul_outer a b j 0 c = c"
| "mpn_mul_outer a b j (Suc n) c =
     (if b ! j = 0 then mpn_mul_outer a b (Suc j) n (c[j + length a := 0])
      else mpn_mul_outer a b (Suc j) n (mpn_mul_inner a (b ! j) j 0 (length a) 0 c))"

definition mpn_mul :: "digit list \<Rightarrow> digit list \<Rightarrow> digit list \<Rightarrow> digit list" where
  "mpn_mul a b c =
     mpn_mul_outer a b 0 (length b) (replicate (length a) 0 @ drop (length a) c)"

section \<open>Comparison\<close>

lemma dval_from_Suc_end:
  "dval_from a 0 (Suc n) = dval_from a 0 n + digit_base ^ n * unat (digit_at a n)"
proof -
  have "dval_from a j (Suc n) = dval_from a j n + digit_base ^ n * unat (digit_at a (j + n))" for j
    by (induction n arbitrary: j) (simp_all add: algebra_simps)
  then show ?thesis by (metis add_0)
qed

lemma top_digit_less:
  assumes "u < v" "x < B ^ n"
  shows "x + B ^ n * u < y + B ^ n * (v :: nat)"
proof -
  have "x + B ^ n * u < B ^ n * (u + 1)" using assms by simp
  also have "\<dots> \<le> B ^ n * v" using assms by (intro mult_le_mono2) simp
  finally show ?thesis by simp
qed

lemma mpn_compare_loop_correct:
  "mpn_compare_loop a b n =
     (if dval_from a 0 n > dval_from b 0 n then 1
      else if dval_from a 0 n < dval_from b 0 n then - 1 else 0)"
proof (induction n)
  case (Suc n)
  let ?u = "unat (digit_at a n)" and ?v = "unat (digit_at b n)"
  consider "?u > ?v" | "?u < ?v" | "?u = ?v" by linarith
  then show ?case
  proof cases
    case 1
    then have "dval_from b 0 (Suc n) < dval_from a 0 (Suc n)"
      unfolding dval_from_Suc_end by (intro top_digit_less dval_from_less)
    with 1 show ?thesis by (simp add: word_less_nat_alt del: dval_from.simps)
  next
    case 2
    then have "dval_from a 0 (Suc n) < dval_from b 0 (Suc n)"
      unfolding dval_from_Suc_end by (intro top_digit_less dval_from_less)
    with 2 show ?thesis by (simp add: word_less_nat_alt del: dval_from.simps)
  next
    case 3
    then show ?thesis
      using Suc by (simp add: word_less_nat_alt dval_from_Suc_end del: dval_from.simps)
  qed
qed simp

lemma mpn_compare_spec:
  "mpn_compare a b = (if dval a > dval b then 1 else if dval a < dval b then - 1 else 0)"
  by (simp add: mpn_compare_def mpn_compare_loop_correct dval_from_0)

section \<open>Addition\<close>

lemma length_mpn_add_loop [simp]: "length (mpn_add_loop a b j n k) = Suc n"
  by (induction n arbitrary: j k) (simp_all add: Let_def)

lemma add_mod_digit:
  "x < digit_base \<Longrightarrow> y < digit_base \<Longrightarrow>
     (x + y) mod digit_base = (if x + y < digit_base then x + y else x + y - digit_base)"
  by (auto simp: le_mod_geq)

lemma add_digit_carry:
  fixes u v k :: digit
  assumes "k \<le> 1"
  defines "r \<equiv> u + v"
  defines "c \<equiv> r + k"
  shows "unat u + unat v + unat k = unat c + digit_base * of_bool (r < u \<or> c < r)"
proof -
  have k: "unat k \<le> 1" using assms(1) by (simp add: word_le_nat_alt)
  have r: "unat r = (if unat u + unat v < digit_base then unat u + unat v
      else unat u + unat v - digit_base)"
    using unat_digit_lt [of u] unat_digit_lt [of v]
    by (simp add: r_def unat_add_digit add_mod_digit)
  have c: "unat c = (if unat r + unat k < digit_base then unat r + unat k
      else unat r + unat k - digit_base)"
    using unat_digit_lt [of r] unat_digit_lt [of k]
    by (simp add: c_def unat_add_digit add_mod_digit)
  show ?thesis
    using r c k unat_digit_lt [of u] unat_digit_lt [of v]
    by (auto simp: word_less_nat_alt split: if_splits)
qed

lemma of_bool_digit [simp]: "of_bool p \<le> (1 :: digit)" "unat (of_bool p :: digit) = of_bool p"
  by (cases p; simp)+

lemma mpn_add_loop_correct:
  "k \<le> 1 \<Longrightarrow> dval (mpn_add_loop a b j n k) = dval_from a j n + dval_from b j n + unat k"
proof (induction n arbitrary: j k)
  case (Suc n)
  let ?u = "digit_at a j" and ?v = "digit_at b j"
  let ?k = "of_bool (?u + ?v < ?u \<or> ?u + ?v + k < ?u + ?v) :: digit"
  have "dval (mpn_add_loop a b j (Suc n) k) =
      unat (?u + ?v + k) + digit_base * (dval_from a (Suc j) n + dval_from b (Suc j) n + unat ?k)"
    by (simp add: Let_def Suc.IH del: of_bool_digit(2))
  also have "\<dots> = (unat (?u + ?v + k) + digit_base * unat ?k)
      + digit_base * dval_from a (Suc j) n + digit_base * dval_from b (Suc j) n"
    by (simp only: add_mult_distrib2 ac_simps)
  also have "unat (?u + ?v + k) + digit_base * unat ?k = unat ?u + unat ?v + unat k"
    using add_digit_carry [OF Suc.prems, of ?u ?v] by (simp only: of_bool_digit(2))
  finally show ?case by simp
qed simp

lemma mpn_real_size_le: "mpn_real_size c m \<le> m"
  by (induction m) (auto intro: le_SucI)

lemma mpn_real_size_pos: "0 < m \<Longrightarrow> 0 < mpn_real_size c m"
  by (induction m) auto

lemma dval_take_real_size: "m \<le> length c \<Longrightarrow> dval (take (mpn_real_size c m) c) = dval (take m c)"
  by (induction m) (simp_all add: dval_take_Suc)

lemma mpn_real_size_top: "mpn_real_size c m = Suc n \<Longrightarrow> 0 < n \<Longrightarrow> c ! n \<noteq> 0"
  by (induction m) (auto split: if_splits)

lemma mpn_add_spec:
  assumes "mpn_add a b = (c, os)"
  shows "dval c = dval a + dval b" "length c = max (length a) (length b) + 1"
    "0 < os" "os \<le> length c" "dval (take os c) = dval a + dval b"
    "1 < os \<Longrightarrow> c ! (os - 1) \<noteq> 0"
proof -
  let ?len = "max (length a) (length b)"
  have c: "c = mpn_add_loop a b 0 ?len 0" and os: "os = mpn_real_size c (?len + 1)"
    using assms by (auto simp: mpn_add_def Let_def)
  show val: "dval c = dval a + dval b" unfolding c
    by (simp add: mpn_add_loop_correct dval_from_0)
  show len: "length c = ?len + 1" by (simp add: c)
  show "0 < os" by (simp add: os mpn_real_size_pos del: mpn_real_size.simps)
  show "os \<le> length c" using mpn_real_size_le [of c "?len + 1"] by (simp add: os len)
  show "dval (take os c) = dval a + dval b"
    using dval_take_real_size [of "?len + 1" c] val by (simp add: os len)
  show "1 < os \<Longrightarrow> c ! (os - 1) \<noteq> 0"
    using mpn_real_size_top [of c "?len + 1" "os - 1"] by (simp add: os)
qed

section \<open>Subtraction\<close>

lemma digit_le_1: "(k :: digit) \<le> 1 \<Longrightarrow> k = 0 \<or> k = 1"
  by (auto simp: word_le_nat_alt word_unat_eq_iff)

lemma sub_digit_borrow:
  fixes u v k :: digit
  assumes "k \<le> 1"
  defines "r \<equiv> u - v"
  defines "c \<equiv> r - k"
  shows "unat u + digit_base * of_bool (r > u \<or> c > r) = unat c + unat v + unat k"
proof -
  have k: "unat k \<le> 1" using assms(1) by (simp add: word_le_nat_alt)
  have r: "unat r = (if unat v \<le> unat u then unat u - unat v else unat u + digit_base - unat v)"
    by (simp add: r_def unat_sub_digit)
  have c: "unat c = (if unat k \<le> unat r then unat r - unat k else unat r + digit_base - unat k)"
    by (simp add: c_def unat_sub_digit)
  have "unat u < digit_base" "unat v < digit_base" by (rule unat_digit_lt)+
  then show ?thesis
    using r c k by (auto simp: word_less_nat_alt split: if_splits)
qed

lemma mpn_sub_loop_correct:
  assumes "k \<le> 1" "mpn_sub_loop a b j n k = (c, borrow)"
  shows "length c = n \<and> borrow \<le> 1 \<and>
    dval_from a j n + digit_base ^ n * unat borrow = dval c + dval_from b j n + unat k"
  using assms
proof (induction n arbitrary: j k c borrow)
  case (Suc n)
  let ?u = "digit_at a j" and ?v = "digit_at b j"
  let ?k = "of_bool (?u - ?v > ?u \<or> ?u - ?v - k > ?u - ?v) :: digit"
  obtain cs where rec: "mpn_sub_loop a b (Suc j) n ?k = (cs, borrow)"
    and c: "c = (?u - ?v - k) # cs"
    using Suc.prems(2) by (auto simp: Let_def split: prod.splits)
  note IH = Suc.IH [OF of_bool_digit(1) rec]
  have "digit_base * (dval_from a (Suc j) n + digit_base ^ n * unat borrow) =
      digit_base * (dval cs + dval_from b (Suc j) n + of_bool (?u - ?v > ?u \<or> ?u - ?v - k > ?u - ?v))"
    using IH by simp
  then have eq: "dval_from a j (Suc n) + digit_base ^ Suc n * unat borrow =
      dval c + dval_from b j (Suc n) + unat k"
    using sub_digit_borrow [OF Suc.prems(1), of ?u ?v] by (simp add: c add_mult_distrib2)
  then show ?case using IH c by simp
qed auto

lemma mpn_sub_spec:
  assumes "mpn_sub a b = (c, borrow)"
  shows "length c = max (length a) (length b)"
    "dval a + digit_base ^ length c * unat borrow = dval c + dval b"
    "borrow = of_bool (dval a < dval b)"
proof -
  let ?len = "max (length a) (length b)"
  have sub: "mpn_sub_loop a b 0 ?len 0 = (c, borrow)" using assms by (simp add: mpn_sub_def)
  note spec = mpn_sub_loop_correct [OF _ sub, simplified]
  show len: "length c = ?len" using spec by simp
  show eq: "dval a + digit_base ^ length c * unat borrow = dval c + dval b"
    using spec by (simp add: dval_from_0 len)
  have "dval c < digit_base ^ length c" by (rule dval_less)
  moreover have "borrow = 0 \<or> borrow = 1"
    using spec by (metis digit_le_1)
  ultimately show "borrow = of_bool (dval a < dval b)"
    using eq by auto
qed

section \<open>Multiplication\<close>

lemma mul_digit_split:
  fixes u v c k :: digit
  defines "t \<equiv> (ucast u * ucast v + ucast c + ucast k :: double_digit)"
  shows "unat u * unat v + unat c + unat k =
    unat (ucast (drop_bit 32 (push_bit 32 t)) :: digit) + digit_base * unat (ucast (drop_bit 32 t) :: digit)"
proof -
  have "unat u * unat v \<le> 4294967295 * 4294967295"
    using unat_digit_lt [of u] unat_digit_lt [of v] by (intro mult_le_mono) linarith+
  then have bound: "unat u * unat v + unat c + unat k < 18446744073709551616"
    using unat_digit_lt [of c] unat_digit_lt [of k] by simp
  then have t: "unat t = unat u * unat v + unat c + unat k"
    unfolding t_def by (simp add: unat_add_double unat_mult_double unat_ucast_up)
  have "unat (push_bit 32 t) = unat t * digit_base mod (digit_base * digit_base)"
    by (simp add: push_bit_eq_mult unat_word_ariths)
  also have "\<dots> = unat t mod digit_base * digit_base"
    by (rule mod_mult_mult2)
  finally have "unat (drop_bit 32 (push_bit 32 t)) = unat t mod digit_base"
    by (simp add: unat_drop_bit_32)
  moreover have "unat t div digit_base < digit_base"
    using unat_double_lt [of t] by (simp add: less_mult_imp_div_less)
  ultimately have "unat (ucast (drop_bit 32 (push_bit 32 t)) :: digit) = unat t mod digit_base"
    and "unat (ucast (drop_bit 32 t) :: digit) = unat t div digit_base"
    by (simp_all add: unat_ucast_down unat_drop_bit_32)
  then show ?thesis unfolding t [symmetric] by simp
qed

lemma length_mpn_mul_inner [simp]: "length (mpn_mul_inner a v j i n k c) = length c"
  by (induction n arbitrary: i k c) (simp_all add: Let_def)

lemma mpn_mul_inner_correct:
  assumes "i + n = length a" "j + length a < length c"
  shows "dval (take (Suc (j + length a)) (mpn_mul_inner a v j i n k c)) =
    dval (take (i + j) c)
      + digit_base ^ (i + j) * (dval (take n (drop (i + j) c)) + unat v * dval (drop i a) + unat k)"
  using assms
proof (induction n arbitrary: i k c)
  case 0
  then have "i = length a" by simp
  with "0.prems" show ?case by (simp add: dval_take_Suc add.commute algebra_simps)
next
  case (Suc n)
  let ?t = "(ucast (a ! i) * ucast v + ucast (c ! (i + j)) + ucast k :: double_digit)"
  let ?lo = "ucast (drop_bit 32 (push_bit 32 ?t)) :: digit" and ?hi = "ucast (drop_bit 32 ?t) :: digit"
  let ?c = "c[i + j := ?lo]"
  have lt: "i + j < length c" "i < length a" using Suc.prems by simp_all
  have "dval (take (Suc (j + length a)) (mpn_mul_inner a v j i (Suc n) k c)) =
      dval (take (Suc i + j) ?c) + digit_base ^ (Suc i + j)
        * (dval (take n (drop (Suc i + j) ?c)) + unat v * dval (drop (Suc i) a) + unat ?hi)"
    using Suc.prems by (simp add: Let_def Suc.IH)
  also have "take n (drop (Suc i + j) ?c) = take n (drop (Suc i + j) c)"
    by (simp add: drop_update_cancel)
  also have "dval (take (Suc i + j) ?c) = dval (take (i + j) c) + digit_base ^ (i + j) * unat ?lo"
    using lt by (simp add: dval_take_Suc)
  finally have "dval (take (Suc (j + length a)) (mpn_mul_inner a v j i (Suc n) k c)) =
      dval (take (i + j) c) + digit_base ^ (i + j) * ((unat ?lo + digit_base * unat ?hi)
        + digit_base * (dval (take n (drop (Suc i + j) c)) + unat v * dval (drop (Suc i) a)))"
    by (simp add: add_mult_distrib2)
  also have "unat ?lo + digit_base * unat ?hi = unat (a ! i) * unat v + unat (c ! (i + j)) + unat k"
    by (rule mul_digit_split [symmetric])
  finally show ?case
    using lt by (simp add: dval_drop [of i] Cons_nth_drop_Suc [symmetric] add_mult_distrib2 ac_simps)
qed

lemma mpn_mul_outer_correct:
  assumes "j + n = length b" "length c = length a + length b"
    "dval (take (length a + j) c) = dval a * dval (take j b)"
  shows "dval (mpn_mul_outer a b j n c) = dval a * dval b \<and>
    length (mpn_mul_outer a b j n c) = length a + length b"
  using assms
proof (induction n arbitrary: j c)
  case (Suc n)
  let ?c = "if b ! j = 0 then c[j + length a := 0] else mpn_mul_inner a (b ! j) j 0 (length a) 0 c"
  have lt: "j < length b" using Suc.prems by simp
  have split: "dval (take (length a + j) c) =
      dval (take j c) + digit_base ^ j * dval (take (length a) (drop j c))"
    using Suc.prems lt by (simp add: take_add [of j] add.commute [of "length a"] dval_simps)
  have inv: "dval (take (length a + Suc j) ?c) = dval a * dval (take (Suc j) b)"
  proof (cases "b ! j = 0")
    case True
    with Suc.prems lt show ?thesis by (simp add: dval_take_Suc add.commute)
  next
    case False
    then show ?thesis
      using mpn_mul_inner_correct [of 0 "length a" a j c "b ! j" 0] Suc.prems lt split
      by (simp add: dval_take_Suc add.commute algebra_simps)
  qed
  have len: "length ?c = length a + length b" using Suc.prems by simp
  have rec: "mpn_mul_outer a b j (Suc n) c = mpn_mul_outer a b (Suc j) n ?c" by simp
  show ?case unfolding rec using Suc.IH [OF _ len inv] Suc.prems by simp
qed simp_all

lemma mpn_mul_spec:
  assumes "length c = length a + length b"
  shows "dval (mpn_mul a b c) = dval a * dval b" "length (mpn_mul a b c) = length a + length b"
  using mpn_mul_outer_correct [of 0 "length b" b "replicate (length a) 0 @ drop (length a) c" a] assms
  by (simp_all add: mpn_mul_def)

end
