(* ===== verification/Mpn_Div.thy ===== *)
theory Mpn_Div
  imports Mpn
begin

text \<open>
  Division of \<open>mpn_manager\<close> (util/mpn.cpp): normalisation of the operands by a left shift,
  division by one digit, Knuth's algorithm D for longer divisors, and the shift back of the
  remainder. The main result is that \<open>div\<close> computes the quotient and the remainder of the
  numbers its arguments stand for, whatever the result buffers held before.
\<close>

unbundle bit_operations_syntax

section \<open>Operations\<close>

definition mask_first :: digit where
  "mask_first = NOT (drop_bit 1 (- 1))"

definition first_bits :: "nat \<Rightarrow> digit \<Rightarrow> digit" where
  "first_bits n x = drop_bit (32 - n) x"

definition last_bits :: "nat \<Rightarrow> digit \<Rightarrow> digit" where
  "last_bits n x = drop_bit (32 - n) (push_bit (32 - n) x)"

text \<open>\<open>while (((denom[lden-1] << d) & MASK_FIRST) == 0) d++\<close>; the loop is left at the latest
  when all 32 bits are shifted out, where the source has the assertion \<open>d < DIGIT_BITS\<close>.\<close>

function mpn_norm_shift :: "digit \<Rightarrow> nat \<Rightarrow> nat" where
  "mpn_norm_shift msd d =
     (if d < 32 \<and> push_bit d msd AND mask_first = 0 then mpn_norm_shift msd (Suc d) else d)"
  by pat_completeness auto
termination by (relation "measure (\<lambda>(msd, d). 32 - d)") auto

declare mpn_norm_shift.simps [simp del]

definition mpn_shl :: "nat \<Rightarrow> digit list \<Rightarrow> digit list" where
  "mpn_shl d ds = map (\<lambda>i. if i = 0 then push_bit d (ds ! 0)
     else push_bit d (ds ! i) OR first_bits d (ds ! (i - 1))) [0..<length ds]"

definition mpn_div_normalize ::
  "digit list \<Rightarrow> digit list \<Rightarrow> nat \<times> digit list \<times> digit list" where
  "mpn_div_normalize numer denom =
     (let d = (if denom = [] then 0 else mpn_norm_shift (last denom) 0)
      in if d = 0 then (d, numer @ [0], denom)
         else if numer \<noteq> [] then
           (d, mpn_shl d numer @ [first_bits d (last numer)], mpn_shl d denom)
         else (0, replicate 1 0, replicate (length denom) 0))"

definition mpn_shr :: "nat \<Rightarrow> digit list \<Rightarrow> digit list" where
  "mpn_shr d ds = map (\<lambda>i. if i = length ds - 1 then drop_bit d (ds ! i)
     else drop_bit d (ds ! i) OR push_bit (32 - d) (last_bits d (ds ! (i + 1)))) [0..<length ds]"

definition mpn_div_unnormalize :: "digit list \<Rightarrow> digit list \<Rightarrow> nat \<Rightarrow> digit list" where
  "mpn_div_unnormalize numer denom d =
     (if d = 0 then take (length denom) numer else mpn_shr d (take (length denom) numer))"

text \<open>Division by one digit; \<open>j\<close> counts down from \<open>numer.size() - 1\<close>.\<close>

fun mpn_div_1 :: "nat \<Rightarrow> digit \<Rightarrow> digit list \<Rightarrow> digit list \<Rightarrow> digit list \<times> digit list" where
  "mpn_div_1 0 denom numer quot = (numer, quot)"
| "mpn_div_1 (Suc i) denom numer quot =
     (let temp = (push_bit 32 (ucast (numer ! Suc i)) OR ucast (numer ! i) :: double_digit);
          q_hat = temp div ucast denom;
          ms = temp - q_hat * ucast denom;
          borrow = ms > temp;
          numer = numer[i := ucast ms, Suc i := ucast (drop_bit 32 ms)];
          quot = quot[i := ucast q_hat]
      in if borrow
         then mpn_div_1 i denom (numer[Suc i := numer ! i + denom]) (quot[i := quot ! i - 1])
         else mpn_div_1 i denom numer quot)"

text \<open>The \<open>recheck\<close> loop of algorithm D, on the estimate \<open>q_hat\<close> and its remainder \<open>r_hat\<close>.\<close>

function mpn_recheck ::
  "digit \<Rightarrow> digit \<Rightarrow> digit \<Rightarrow> double_digit \<Rightarrow> double_digit \<Rightarrow> double_digit \<times> double_digit" where
  "mpn_recheck v1 v2 u2 q_hat r_hat =
     (if q_hat \<ge> push_bit 32 1 \<or> q_hat * ucast v2 > push_bit 32 r_hat + ucast u2
      then (let q_hat = q_hat - 1; r_hat = r_hat + ucast v1
            in if r_hat < push_bit 32 1 then mpn_recheck v1 v2 u2 q_hat r_hat else (q_hat, r_hat))
      else (q_hat, r_hat))"
  by pat_completeness auto
termination
proof (relation "measure (\<lambda>(v1, v2, u2, q_hat, r_hat). unat q_hat)")
  fix v1 v2 u2 :: digit and q_hat r_hat x xa :: double_digit
  assume c: "q_hat \<ge> push_bit 32 1 \<or> q_hat * ucast v2 > push_bit 32 r_hat + ucast u2" "x = q_hat - 1"
  have "q_hat \<noteq> 0"
  proof
    assume "q_hat = 0"
    with c(1) show False by (simp add: push_bit_eq_mult)
  qed
  then show "((v1, v2, u2, x, xa), v1, v2, u2, q_hat, r_hat) \<in> measure (\<lambda>(v1, v2, u2, q_hat, r_hat). unat q_hat)"
    using c(2) by (simp add: measure_unat)
qed simp

declare mpn_recheck.simps [simp del]

text \<open>One iteration of Knuth's algorithm D, at index \<open>j\<close>; \<open>ms\<close> is the product buffer.\<close>

definition mpn_div_n_step ::
  "nat \<Rightarrow> digit list \<Rightarrow> digit list \<Rightarrow> digit list \<Rightarrow> digit list \<Rightarrow> digit list \<times> digit list \<times> digit list" where
  "mpn_div_n_step j numer denom quot ms =
     (let n = length denom;
          temp = (push_bit 32 (ucast (numer ! (j + n))) OR ucast (numer ! (j + n - 1)) :: double_digit);
          (q_hat, r_hat) = mpn_recheck (denom ! (n - 1)) (denom ! (n - 2)) (numer ! (j + n - 2))
             (temp div ucast (denom ! (n - 1))) (temp mod ucast (denom ! (n - 1)));
          q_hat_small = (ucast q_hat :: digit);
          ms = mpn_mul [q_hat_small] denom ms;
          (diff, borrow) = mpn_sub (take (n + 1) (drop j numer)) ms;
          numer = take j numer @ diff @ drop (j + n + 1) numer;
          quot = quot[j := q_hat_small]
      in if borrow \<noteq> 0
         then (let (ab, real_size) = mpn_add denom (take (n + 1) (drop j numer));
                   numer = take j numer @ take (n + 1) ab @ drop (j + n + 1) numer
               in (numer, quot[j := quot ! j - 1], ms))
         else (numer, quot, ms))"

text \<open>The loop of algorithm D: \<open>j\<close> runs from \<open>m - 1\<close> down to 0.\<close>

fun mpn_div_n ::
  "nat \<Rightarrow> digit list \<Rightarrow> digit list \<Rightarrow> digit list \<Rightarrow> digit list \<Rightarrow> digit list \<times> digit list" where
  "mpn_div_n 0 numer denom quot ms = (numer, quot)"
| "mpn_div_n (Suc j) numer denom quot ms =
     (case mpn_div_n_step j numer denom quot ms of
        (numer, quot, ms) \<Rightarrow> mpn_div_n j numer denom quot ms)"

text \<open>\<open>div\<close>: the result buffers \<open>quot\<close> (of at least \<open>lnum - lden + 1\<close> digits) and \<open>rem\<close> (of
  at least \<open>lden\<close> digits) are returned updated. A zero divisor is \<open>UNREACHABLE()\<close> in the
  source, which leaves the buffers as they are.\<close>

definition mpn_div ::
  "digit list \<Rightarrow> digit list \<Rightarrow> digit list \<Rightarrow> digit list \<Rightarrow> digit list \<times> digit list" where
  "mpn_div numer denom quot rem =
     (let lnum = length numer; lden = length denom;
          rem_is = (\<lambda>r. r @ drop lden rem);
          copy = map (digit_at numer) [0..<lden]
      in if lnum < lden then (quot, rem_is copy)
         else if \<forall>d \<in> set denom. d = 0 then (quot, rem)
         else if lnum = 1 \<and> lden = 1 then
           (quot[0 := numer ! 0 div denom ! 0], rem[0 := numer ! 0 mod denom ! 0])
         else if lnum < lden \<or> lnum = lden \<and> numer ! (lnum - 1) < denom ! (lden - 1) then
           (quot[0 := 0], rem_is copy)
         else
           (let (d, u, v) = mpn_div_normalize numer denom;
                (u, quot) = (if lden = 1 then mpn_div_1 (length u - 1) (v ! 0) u quot
                             else mpn_div_n (length u - length v) u v quot (replicate (lden + 1) 0))
            in (quot, rem_is (mpn_div_unnormalize u v d))))"

section \<open>Normalisation\<close>

lemma bit_mask_first: "push_bit d msd AND mask_first = 0 \<longleftrightarrow> unat (push_bit d msd) < 2147483648"
proof -
  have m: "bit mask_first n \<longleftrightarrow> n = 31" for n
    by (auto simp: mask_first_def bit_simps)
  have "push_bit d msd AND mask_first = 0 \<longleftrightarrow> \<not> bit (push_bit d msd) 31"
    by (auto simp: bit_eq_iff [of _ 0] bit_and_iff m dest: spec [of _ 31])
  also have "\<dots> \<longleftrightarrow> unat (push_bit d msd) < 2147483648"
  proof -
    have "bit (unat (push_bit d msd)) 31 \<longleftrightarrow> bit (push_bit d msd) 31"
      by (simp only: bit_unsigned_iff) simp
    then have "bit (push_bit d msd) 31 \<longleftrightarrow> odd (unat (push_bit d msd) div 2 ^ 31)"
      by (simp only: bit_iff_odd)
    moreover have "unat (push_bit d msd) div 2 ^ 31 < 2"
      using unat_digit_lt [of "push_bit d msd"] by (intro less_mult_imp_div_less) simp
    ultimately show ?thesis
      by (auto simp: less_2_cases_iff div_eq_0_iff)
  qed
  finally show ?thesis .
qed

lemma mpn_norm_shift_ge: "d \<le> mpn_norm_shift msd d"
proof (induction msd d rule: mpn_norm_shift.induct)
  case (1 msd d)
  then show ?case by (subst mpn_norm_shift.simps) (auto intro: Suc_leD)
qed

lemma mpn_norm_shift_correct:
  assumes "unat msd * 2 ^ d < digit_base" "msd \<noteq> 0" "d < 32"
  shows "mpn_norm_shift msd d < 32 \<and> 2147483648 \<le> unat msd * 2 ^ mpn_norm_shift msd d
    \<and> unat msd * 2 ^ mpn_norm_shift msd d < digit_base"
  using assms
proof (induction msd d rule: mpn_norm_shift.induct)
  case (1 msd d)
  have "unat msd * 2 ^ d < 2 ^ d * 2 ^ (32 - d)"
    using "1.prems"(1,3) pow2_split [of d] by linarith
  then have "unat msd < 2 ^ (32 - d)" by (simp add: mult.commute)
  then have u: "unat (push_bit d msd) = unat msd * 2 ^ d"
    using "1.prems" by (simp add: unat_push_bit_digit)
  show ?case
  proof (cases "push_bit d msd AND mask_first = 0")
    case True
    then have lt: "unat msd * 2 ^ d < 2147483648" using u by (simp add: bit_mask_first)
    have "d < 31"
    proof (rule ccontr)
      assume "\<not> d < 31"
      with "1.prems" have "d = 31" by simp
      with lt "1.prems"(2) show False by (simp add: unat_0_iff [symmetric])
    qed
    with 1 True lt show ?thesis by (subst (1 2 3) mpn_norm_shift.simps) simp
  next
    case False
    with "1.prems" u show ?thesis
      by (subst (1 2 3) mpn_norm_shift.simps) (simp add: bit_mask_first)
  qed
qed

lemma mpn_shl_snoc:
  "mpn_shl d (ds @ [x]) =
     mpn_shl d ds @ [push_bit d x OR (if ds = [] then 0 else first_bits d (last ds))]"
proof -
  have "mpn_shl d (ds @ [x]) ! i = (mpn_shl d ds @ [push_bit d x OR (if ds = [] then 0 else first_bits d (last ds))]) ! i"
    if "i < length (mpn_shl d (ds @ [x]))" for i
    using that by (cases "ds = []") (auto simp: mpn_shl_def nth_append last_conv_nth less_Suc_eq)
  then show ?thesis
    by (intro nth_equalityI) (auto simp: mpn_shl_def)
qed

lemma mpn_shl_last:
  "ds \<noteq> [] \<Longrightarrow> \<exists>y. mpn_shl d ds ! (length ds - 1) = push_bit d (last ds) OR drop_bit (32 - d) y"
proof (cases ds rule: rev_cases)
  case (snoc xs x)
  have "length (mpn_shl d xs) = length xs" by (simp add: mpn_shl_def)
  then have "mpn_shl d ds ! (length ds - 1) =
      push_bit d (last ds) OR drop_bit (32 - d) (if xs = [] then 0 else last xs)"
    by (simp add: snoc mpn_shl_snoc nth_append first_bits_def)
  then show ?thesis by blast
qed simp

lemma length_mpn_shl [simp]: "length (mpn_shl d ds) = length ds"
  by (simp add: mpn_shl_def)

lemma mpn_shl_correct:
  assumes "d \<le> 32" "ds \<noteq> []"
  shows "dval (mpn_shl d ds) + digit_base ^ length ds * unat (first_bits d (last ds)) = 2 ^ d * dval ds"
  using assms(2)
proof (induction ds rule: rev_induct)
  case (snoc x ds)
  have x: "unat x mod 2 ^ (32 - d) * 2 ^ d + digit_base * (unat x div 2 ^ (32 - d)) = 2 ^ d * unat x"
  proof -
    have "2 ^ d * unat x = 2 ^ d * (2 ^ (32 - d) * (unat x div 2 ^ (32 - d)) + unat x mod 2 ^ (32 - d))"
      by (simp only: mult_div_mod_eq)
    also have "\<dots> = (2 ^ d * 2 ^ (32 - d)) * (unat x div 2 ^ (32 - d)) + unat x mod 2 ^ (32 - d) * 2 ^ d"
      by (simp only: add_mult_distrib2 ac_simps)
    finally show ?thesis using pow2_split [OF assms(1)] by simp
  qed
  show ?case
  proof (cases "ds = []")
    case True
    then show ?thesis using x assms(1)
      by (simp add: mpn_shl_def first_bits_def unat_push_bit_digit unat_drop_bit_digit)
  next
    case False
    then have IH: "dval (mpn_shl d ds) + digit_base ^ length ds * unat (first_bits d (last ds)) = 2 ^ d * dval ds"
      by (rule snoc.IH)
    let ?P = "digit_base ^ length ds"
    have "dval (mpn_shl d (ds @ [x])) + digit_base ^ length (ds @ [x]) * unat (first_bits d x) =
        (dval (mpn_shl d ds) + ?P * unat (first_bits d (last ds)))
        + ?P * (unat x mod 2 ^ (32 - d) * 2 ^ d + digit_base * (unat x div 2 ^ (32 - d)))"
      using False assms(1)
      by (simp add: mpn_shl_snoc dval_simps first_bits_def unat_shift_or unat_drop_bit_digit
          add_mult_distrib2 ac_simps)
    then show ?thesis unfolding x IH by (simp add: dval_simps algebra_simps)
  qed
qed simp

lemma unat_last_bits_shift:
  assumes "d \<le> 32"
  shows "unat (push_bit (32 - d) (last_bits d y)) = (unat y mod 2 ^ d) * 2 ^ (32 - d)"
proof -
  have "unat (last_bits d y) = unat y mod 2 ^ d"
    using assms by (simp add: last_bits_def unat_drop_bit_digit unat_push_bit_digit)
  then show ?thesis using assms by (simp add: unat_push_bit_digit)
qed

lemma unat_shift_right_or:
  assumes "d \<le> 32" "unat z = (unat y mod 2 ^ d) * 2 ^ (32 - d)"
  shows "unat (drop_bit d (x :: digit) OR z) = unat x div 2 ^ d + (unat (y :: digit) mod 2 ^ d) * 2 ^ (32 - d)"
proof -
  have "unat x < 2 ^ (32 - d) * 2 ^ d"
    using unat_digit_lt [of x] pow2_split [OF assms(1)] by (simp add: mult.commute)
  then have "unat x div 2 ^ d < 2 ^ (32 - d)" by (rule less_mult_imp_div_less)
  then show ?thesis
    using assms(2) or_eq_add_nat [of "unat x div 2 ^ d" "32 - d" "unat y mod 2 ^ d"]
    by (simp add: unsigned_or_eq unat_drop_bit_digit or.commute add.commute)
qed

lemma dval_mod_pow2: "d \<le> 32 \<Longrightarrow> dval (y # ys) mod 2 ^ d = unat y mod 2 ^ d"
proof -
  assume "d \<le> 32"
  then have "dval (y # ys) = unat y + 2 ^ d * (2 ^ (32 - d) * dval ys)"
    using pow2_split [of d] by (simp only: dval.simps mult.assoc [symmetric])
  then show ?thesis by (simp only: mod_mult_self2)
qed

lemma mpn_shr_Cons:
  "mpn_shr d [x] = [drop_bit d x]"
  "mpn_shr d (x # y # ys) = (drop_bit d x OR push_bit (32 - d) (last_bits d y)) # mpn_shr d (y # ys)"
proof -
  show "mpn_shr d (x # y # ys) = (drop_bit d x OR push_bit (32 - d) (last_bits d y)) # mpn_shr d (y # ys)"
    by (rule nth_equalityI) (auto simp: mpn_shr_def nth_Cons' nth_append)
qed (simp add: mpn_shr_def)

lemma length_mpn_shr [simp]: "length (mpn_shr d ds) = length ds"
  by (simp add: mpn_shr_def)

lemma digits_shift_right_step:
  assumes "d \<le> 32"
  shows "dval (x # y # ys) div 2 ^ d =
    (unat x div 2 ^ d + (unat y mod 2 ^ d) * 2 ^ (32 - d)) + digit_base * (dval (y # ys) div 2 ^ d)"
proof -
  let ?V = "dval (y # ys)"
  have "dval (x # y # ys) = unat x + 2 ^ d * (2 ^ (32 - d) * ?V)"
    using pow2_split [OF assms] by (simp add: mult.assoc [symmetric] del: dval.simps) simp
  then have "dval (x # y # ys) div 2 ^ d = unat x div 2 ^ d + 2 ^ (32 - d) * ?V"
    by simp
  also have "?V = 2 ^ d * (?V div 2 ^ d) + unat y mod 2 ^ d"
    unfolding dval_mod_pow2 [OF assms, of y ys, symmetric] by simp
  also have "2 ^ (32 - d) * (2 ^ d * (?V div 2 ^ d) + unat y mod 2 ^ d) =
      digit_base * (?V div 2 ^ d) + (unat y mod 2 ^ d) * 2 ^ (32 - d)"
    unfolding pow2_split [OF assms] by (simp only: add_mult_distrib2 ac_simps)
  finally show ?thesis by simp
qed

lemma mpn_shr_correct: "d \<le> 32 \<Longrightarrow> dval (mpn_shr d ds) = dval ds div 2 ^ d"
proof (induction ds rule: induct_list012)
  case (2 x)
  then show ?case by (simp add: mpn_shr_Cons unat_drop_bit_digit)
next
  case (3 x y ys)
  then show ?case
    by (simp add: mpn_shr_Cons digits_shift_right_step unat_last_bits_shift unat_shift_right_or [where y = y]
        del: dval.simps) (simp add: unat_shift_right_or [where y = y] unat_last_bits_shift)
qed (simp add: mpn_shr_def)

section \<open>Division by one digit\<close>

lemma div_1_digit:
  fixes u1 u0 denom :: digit
  defines "temp \<equiv> (push_bit 32 (ucast u1) OR ucast u0 :: double_digit)"
  defines "q_hat \<equiv> temp div ucast denom"
  defines "ms \<equiv> temp - q_hat * ucast denom"
  assumes "unat u1 < unat denom"
  shows "unat (ucast q_hat :: digit) = (unat u1 * digit_base + unat u0) div unat denom"
    "unat (ucast ms :: digit) = (unat u1 * digit_base + unat u0) mod unat denom"
    "\<not> ms > temp"
proof -
  let ?T = "unat u1 * digit_base + unat u0"
  have T: "unat temp = ?T" unfolding temp_def by (rule unat_pair_digits)
  have q: "unat q_hat = ?T div unat denom"
    unfolding q_hat_def by (simp add: unat_div_distrib T unat_ucast_up)
  have "?T < (unat u1 + 1) * digit_base" using unat_digit_lt [of u0] by simp
  also have "\<dots> \<le> digit_base * unat denom" using assms(4) by simp
  finally have lt: "?T div unat denom < digit_base"
    by (rule less_mult_imp_div_less)
  then show "unat (ucast q_hat :: digit) = ?T div unat denom"
    by (simp add: unat_ucast_down q)
  have le: "?T div unat denom * unat denom \<le> ?T" by simp
  have "?T div unat denom * unat denom < 18446744073709551616"
    using le unat_double_lt [of temp] T by linarith
  then have prod: "unat (q_hat * ucast denom) = ?T div unat denom * unat denom"
    by (subst unat_mult_double) (simp_all add: q unat_ucast_up)
  then have ms: "unat ms = ?T mod unat denom"
    unfolding ms_def using le by (subst unat_sub_double) (simp_all add: T modulo_nat_def)
  have "?T mod unat denom < digit_base"
    using assms(4) unat_digit_lt [of denom] by (intro less_trans [OF mod_less_divisor]) linarith+
  then show "unat (ucast ms :: digit) = ?T mod unat denom"
    by (simp add: unat_ucast_down ms)
  show "\<not> ms > temp" by (simp add: word_less_nat_alt ms T not_less mod_less_eq_dividend)
qed

lemma mpn_div_1_correct:
  assumes "j < length numer" "j \<le> length quot" "unat (numer ! j) < unat denom"
    "mpn_div_1 j denom numer quot = (u, q)"
  shows "length u = length numer \<and> length q = length quot \<and> drop j q = drop j quot
    \<and> dval (take j q) * unat denom + unat (u ! 0) = dval (take (Suc j) numer)
    \<and> unat (u ! 0) < unat denom"
  using assms
proof (induction j arbitrary: numer quot)
  case 0
  then show ?case by (auto simp: take_Suc_conv_app_nth)
next
  case (Suc i)
  let ?temp = "push_bit 32 (ucast (numer ! Suc i)) OR ucast (numer ! i) :: double_digit"
  let ?q = "?temp div ucast denom"
  let ?ms = "?temp - ?q * ucast denom"
  let ?T = "unat (numer ! Suc i) * digit_base + unat (numer ! i)"
  let ?numer = "numer[i := ucast ?ms, Suc i := ucast (drop_bit 32 ?ms)]"
  note dig = div_1_digit [OF Suc.prems(3), of "numer ! i"]
  have eq: "mpn_div_1 i denom ?numer (quot[i := ucast ?q]) = (u, q)"
    using Suc.prems(4) dig(3) by (simp add: Let_def)
  have lt: "i < length numer" "i < length quot" using Suc.prems by simp_all
  have "0 < unat denom" using Suc.prems(3) by simp
  then have "unat (?numer ! i) < unat denom" using lt dig(2) by simp
  then have IH: "length u = length numer" "length q = length quot"
      "drop i q = drop i (quot[i := ucast ?q])" "unat (u ! 0) < unat denom"
      "dval (take i q) * unat denom + unat (u ! 0) = dval (take (Suc i) ?numer)"
    using Suc.IH [OF _ _ _ eq] Suc.prems by simp_all
  have qi: "q ! i = ucast ?q" "drop (Suc i) q = drop (Suc i) quot"
    using IH(2,3) lt by (simp_all add: Cons_nth_drop_Suc [symmetric])
  have "dval (take (Suc i) q) * unat denom + unat (u ! 0) =
      dval (take (Suc i) ?numer) + digit_base ^ i * (unat (ucast ?q :: digit) * unat denom)"
    using IH(2,5) lt qi by (simp add: dval_take_Suc algebra_simps)
  also have "dval (take (Suc i) ?numer) = dval (take i numer) + digit_base ^ i * (?T mod unat denom)"
    using lt dig(2) by (simp add: dval_take_Suc)
  also have "unat (ucast ?q :: digit) = ?T div unat denom" by (rule dig(1))
  also have "dval (take i numer) + digit_base ^ i * (?T mod unat denom)
      + digit_base ^ i * (?T div unat denom * unat denom) = dval (take i numer) + digit_base ^ i * ?T"
    by (simp only: add.assoc add_mult_distrib2 [symmetric] mod_div_mult_eq)
  also have "\<dots> = dval (take (Suc (Suc i)) numer)"
    using Suc.prems(1) by (simp add: dval_take_Suc algebra_simps)
  finally show ?case using IH qi by simp
qed

section \<open>Algorithm D\<close>

text \<open>Knuth's bounds on the quotient estimate, for a base \<open>B\<close>, a dividend
  \<open>U = (u0 B + u1) B + u2\<close> followed by \<open>n\<close> further digits, and a divisor
  \<open>V = v1 B + v2\<close> followed by \<open>n\<close> further digits.\<close>

lemma knuth_not_too_small:
  fixes U V B :: nat
  assumes "U < (((u0 * B + u1) * B + u2) + 1) * P" "(v1 * B + v2) * P \<le> V"
    "q * v1 + r = u0 * B + u1" "r * B + u2 < q * v2"
  shows "U < q * V"
proof -
  have "((u0 * B + u1) * B + u2) + 1 \<le> q * (v1 * B + v2)"
    unfolding assms(3) [symmetric] using assms(4) by (simp add: algebra_simps)
  then have "((u0 * B + u1) * B + u2 + 1) * P \<le> q * (v1 * B + v2) * P"
    by (rule mult_le_mono1)
  also have "\<dots> \<le> q * V"
    using assms(2) by (simp add: mult.assoc)
  finally show ?thesis using assms(1) by linarith
qed

lemma knuth_not_too_big:
  fixes U V B :: nat
  assumes "((u0 * B + u1) * B + u2) * P \<le> U" "V < ((v1 * B + v2) + 1) * P"
    "v1 * B * P \<le> V" "0 < v1" "q * v1 + r = u0 * B + u1" "q * v2 \<le> r * B + u2" "q < B" "0 < V"
  shows "q \<le> U div V + 1"
proof (rule ccontr)
  assume "\<not> q \<le> U div V + 1"
  then have q: "U div V + 2 \<le> q" by simp
  have "q * (v1 * B + v2) \<le> (u0 * B + u1) * B + u2"
    unfolding assms(5) [symmetric] using assms(6) by (simp add: algebra_simps)
  then have "q * (v1 * B + v2) * P \<le> ((u0 * B + u1) * B + u2) * P" by (rule mult_le_mono1)
  with assms(1) have a: "q * ((v1 * B + v2) * P) \<le> U" by (metis le_trans mult.assoc)
  have "U < (U div V + 1) * V" using \<open>0 < V\<close> by (simp add: dividend_less_div_times)
  also have "\<dots> \<le> (q - 1) * V" using q by (intro mult_le_mono1) simp
  finally have b: "U + V < q * V" using q by (simp add: diff_mult_distrib)
  have "q * V \<le> q * ((v1 * B + v2) * P + P)" using assms(2) by (intro mult_le_mono2) simp
  also have "\<dots> = q * ((v1 * B + v2) * P) + q * P" by (simp add: add_mult_distrib2)
  finally have "q * V \<le> U + q * P" using a by linarith
  with b have "V < q * P" by linarith
  also have "\<dots> \<le> 1 * B * P" using assms(7) by simp
  also have "\<dots> \<le> v1 * B * P" using assms(4) by (intro mult_le_mono1) simp
  finally show False using assms(3) by simp
qed

lemma unat_base_double: "unat (push_bit 32 1 :: double_digit) = digit_base"
  by (simp add: push_bit_eq_mult)

lemma recheck_test:
  fixes q r :: double_digit and v2 u2 :: digit
  assumes "unat r < digit_base"
  shows "(q \<ge> push_bit 32 1 \<or> q * ucast v2 > push_bit 32 r + ucast u2) \<longleftrightarrow>
    digit_base \<le> unat q \<or> unat r * digit_base + unat u2 < unat q * unat v2"
proof (cases "digit_base \<le> unat q")
  case True
  then show ?thesis by (simp add: word_le_nat_alt unat_base_double)
next
  case False
  have "unat r * digit_base \<le> 4294967295 * digit_base"
    using assms by (intro mult_le_mono1) simp
  then have r: "unat (push_bit 32 r + ucast u2) = unat r * digit_base + unat u2"
    using unat_digit_lt [of u2] by (simp add: push_bit_eq_mult unat_word_ariths unat_ucast_up)
  have "unat q * unat v2 < digit_base * digit_base"
    using False unat_digit_lt [of v2] by (intro mult_strict_mono) simp_all
  then have "unat (q * ucast v2) = unat q * unat v2"
    by (simp add: unat_mult_double unat_ucast_up)
  with r False show ?thesis
    by (simp add: word_le_nat_alt word_less_nat_alt unat_base_double)
qed

lemma mpn_recheck_correct:
  fixes U V :: nat and u0 u1 u2 v1 v2 :: digit
  assumes U: "((unat u0 * digit_base + unat u1) * digit_base + unat u2) * P \<le> U"
      "U < (((unat u0 * digit_base + unat u1) * digit_base + unat u2) + 1) * P"
    and V: "(unat v1 * digit_base + unat v2) * P \<le> V" "V < ((unat v1 * digit_base + unat v2) + 1) * P"
    and UV: "U < V * digit_base" "0 < unat v1" "unat u0 \<le> unat v1" "0 < P"
    and inv: "unat q * unat v1 + unat r = unat u0 * digit_base + unat u1" "unat r < digit_base"
      "U div V \<le> unat q"
    and res: "mpn_recheck v1 v2 u2 q r = (q', r')"
  shows "U div V \<le> unat q' \<and> unat q' \<le> U div V + 1 \<and> unat q' < digit_base"
  using inv res
proof (induction "unat q" arbitrary: q r rule: less_induct)
  case less
  have "v1V": "unat v1 * digit_base * P \<le> V"
    using V(1) by (simp add: add_mult_distrib)
  with UV have Vpos: "0 < V" by (metis gr0I le_zero_eq mult_is_0 zero_neq_numeral)
  have big: "x \<le> U div V + 1"
    if "x * unat v1 + y = unat u0 * digit_base + unat u1" "x * unat v2 \<le> y * digit_base + unat u2"
      "x < digit_base" for x y
    using knuth_not_too_big [OF U(1) V(2) "v1V" UV(2) that Vpos] .
  let ?test = "digit_base \<le> unat q \<or> unat r * digit_base + unat u2 < unat q * unat v2"
  show ?case
  proof (cases ?test)
    case False
    then have "q' = q" using less.prems(4) recheck_test [OF less.prems(2)]
      by (subst (asm) mpn_recheck.simps) simp
    with False big [OF less.prems(1)] less.prems(3) show ?thesis by simp
  next
    case True
    have lt: "U div V < unat q"
    proof (cases "digit_base \<le> unat q")
      case True
      moreover have "U div V < digit_base"
        using UV(1) by (intro less_mult_imp_div_less) (simp add: mult.commute)
      ultimately show ?thesis by simp
    next
      case False
      with True have "U < unat q * V"
        using knuth_not_too_small [OF U(2) V(1) less.prems(1)] by simp
      then show ?thesis by (rule less_mult_imp_div_less)
    qed
    have q1: "unat (q - 1) = unat q - 1" using lt by (subst unat_sub_double) simp_all
    have r1: "unat (r + ucast v1) = unat r + unat v1"
      using less.prems(2) unat_digit_lt [of v1] by (subst unat_add_double) (simp_all add: unat_ucast_up)
    have inv: "unat (q - 1) * unat v1 + unat (r + ucast v1) = unat u0 * digit_base + unat u1"
      unfolding q1 r1 less.prems(1) [symmetric] using lt by (cases "unat q") simp_all
    have eq: "(if r + ucast v1 < push_bit 32 1 then mpn_recheck v1 v2 u2 (q - 1) (r + ucast v1)
        else (q - 1, r + ucast v1)) = (q', r')"
      using less.prems(4) True recheck_test [OF less.prems(2)]
      by (subst (asm) mpn_recheck.simps) (simp add: Let_def)
    show ?thesis
    proof (cases "unat r + unat v1 < digit_base")
      case True
      then have "mpn_recheck v1 v2 u2 (q - 1) (r + ucast v1) = (q', r')"
        using eq by (simp add: word_less_nat_alt r1 unat_base_double)
      then show ?thesis
        using less.hyps [of "q - 1" "r + ucast v1"] inv lt True q1 r1 by simp
    next
      case False
      then have q': "q' = q - 1"
        using eq by (simp add: word_less_nat_alt r1 unat_base_double)
      have small: "unat (q - 1) < digit_base"
      proof (rule ccontr)
        assume "\<not> unat (q - 1) < digit_base"
        then have "digit_base * unat v1 \<le> unat (q - 1) * unat v1" by (intro mult_le_mono1) simp
        moreover have "unat u0 * digit_base \<le> digit_base * unat v1"
          using UV(3) by (simp add: mult.commute)
        ultimately have "unat (r + ucast v1) \<le> unat u1" using inv by linarith
        with False r1 unat_digit_lt [of u1] show False by linarith
      qed
      have "unat (q - 1) * unat v2 \<le> digit_base * digit_base"
        using small unat_digit_lt [of v2] by (intro mult_le_mono) linarith+
      also have "\<dots> \<le> unat (r + ucast v1) * digit_base + unat u2"
        using False r1 by (intro trans_le_add1 mult_le_mono1) simp
      finally have "unat (q - 1) \<le> U div V + 1"
        using big [OF inv] small by blast
      then show ?thesis using q' small lt q1 by simp
    qed
  qed
qed

lemma dval_top2:
  assumes "2 \<le> length v"
  shows "dval v = dval (take (length v - 2) v)
    + digit_base ^ (length v - 2) * (unat (v ! (length v - 1)) * digit_base + unat (v ! (length v - 2)))"
proof -
  obtain k where k: "length v = Suc (Suc k)" using assms by (metis add_2_eq_Suc le_Suc_ex)
  then have "dval v = dval (take (Suc (Suc k)) v)" by simp
  then show ?thesis using k by (simp add: dval_take_Suc algebra_simps del: take_all)
qed

lemma dval_top3:
  assumes "length s = n + 1" "2 \<le> n"
  shows "dval s = dval (take (n - 2) s) + digit_base ^ (n - 2)
    * ((unat (s ! n) * digit_base + unat (s ! (n - 1))) * digit_base + unat (s ! (n - 2)))"
proof -
  obtain k where k: "n = Suc (Suc k)" using assms by (metis add_2_eq_Suc le_Suc_ex)
  then have "dval s = dval (take (Suc (Suc (Suc k))) s)" using assms by simp
  then show ?thesis using k assms by (simp add: dval_take_Suc algebra_simps del: take_all)
qed

lemma dval_take_less: "n \<le> length xs \<Longrightarrow> dval (take n xs) < digit_base ^ n"
  using dval_less [of "take n xs"] by simp

text \<open>The estimate that one iteration starts from, after the \<open>recheck\<close> loop.\<close>

lemma mpn_div_n_estimate:
  fixes s v :: "digit list"
  defines "n \<equiv> length v"
  defines "temp \<equiv> (push_bit 32 (ucast (s ! n)) OR ucast (s ! (n - 1)) :: double_digit)"
  assumes len: "length s = n + 1" "2 \<le> n" and norm: "2147483648 \<le> unat (v ! (n - 1))"
    and lt: "dval s < dval v * digit_base"
    and res: "mpn_recheck (v ! (n - 1)) (v ! (n - 2)) (s ! (n - 2))
      (temp div ucast (v ! (n - 1))) (temp mod ucast (v ! (n - 1))) = (q, r)"
  shows "dval s div dval v \<le> unat q \<and> unat q \<le> dval s div dval v + 1 \<and> unat q < digit_base"
proof -
  let ?P = "digit_base ^ (n - 2)" and ?v1 = "unat (v ! (n - 1))" and ?v2 = "unat (v ! (n - 2))"
  let ?u0 = "unat (s ! n)" and ?u1 = "unat (s ! (n - 1))" and ?u2 = "unat (s ! (n - 2))"
  have S: "dval s = dval (take (n - 2) s) + ?P * ((?u0 * digit_base + ?u1) * digit_base + ?u2)"
    using len by (rule dval_top3)
  have V: "dval v = dval (take (n - 2) v) + ?P * (?v1 * digit_base + ?v2)"
    using len(2) unfolding n_def by (rule dval_top2)
  have ts: "dval (take (n - 2) s) < ?P" and tv: "dval (take (n - 2) v) < ?P"
    using len by (auto intro!: dval_take_less simp: n_def)
  have U: "((?u0 * digit_base + ?u1) * digit_base + ?u2) * ?P \<le> dval s"
    "dval s < ((?u0 * digit_base + ?u1) * digit_base + ?u2 + 1) * ?P"
    unfolding S using ts by (simp_all only: add_mult_distrib mult.commute [of _ ?P]) simp_all
  have Vb: "(?v1 * digit_base + ?v2) * ?P \<le> dval v" "dval v < (?v1 * digit_base + ?v2 + 1) * ?P"
    unfolding V using tv by (simp_all only: add_mult_distrib mult.commute [of _ ?P]) simp_all
  have T: "unat temp = ?u0 * digit_base + ?u1" unfolding temp_def by (rule unat_pair_digits)
  have Ppos: "0 < ?P" by simp
  have u0: "?u0 \<le> ?v1"
  proof (rule ccontr)
    assume "\<not> ?u0 \<le> ?v1"
    then have "(?v1 + 1) * digit_base * digit_base * ?P \<le> ?u0 * digit_base * digit_base * ?P"
      by (intro mult_le_mono1) simp
    also have "\<dots> \<le> ((?u0 * digit_base + ?u1) * digit_base + ?u2) * ?P"
      by (intro mult_le_mono1) (simp add: algebra_simps)
    also have "\<dots> < dval v * digit_base" using U(1) lt by linarith
    also have "\<dots> \<le> (?v1 * digit_base + ?v2 + 1) * ?P * digit_base"
      using Vb(2) by (intro mult_le_mono1) simp
    also have "\<dots> \<le> ((?v1 + 1) * digit_base) * ?P * digit_base"
      using unat_digit_lt [of "v ! (n - 2)"] by (intro mult_le_mono1) simp
    finally show False by (simp add: ac_simps)
  qed
  have v1pos: "0 < ?v1" using norm by simp
  have q0: "unat (temp div ucast (v ! (n - 1))) = (?u0 * digit_base + ?u1) div ?v1"
    by (simp add: unat_div_distrib T unat_ucast_up)
  have r0: "unat (temp mod ucast (v ! (n - 1))) = (?u0 * digit_base + ?u1) mod ?v1"
    by (simp add: unat_mod_distrib T unat_ucast_up)
  have low: "dval s div dval v \<le> unat (temp div ucast (v ! (n - 1)))"
  proof -
    have "dval s div dval v * (?v1 * digit_base * ?P) \<le> dval s div dval v * dval v"
      using Vb(1) by (intro mult_le_mono2) (simp add: add_mult_distrib)
    also have "\<dots> \<le> dval s" by simp
    also have "\<dots> < ((?u0 * digit_base + ?u1) * digit_base + ?u2 + 1) * ?P" by (rule U(2))
    also have "\<dots> \<le> ((?u0 * digit_base + ?u1 + 1) * digit_base) * ?P"
      using unat_digit_lt [of "s ! (n - 2)"] by (intro mult_le_mono1) simp
    finally have "(dval s div dval v * ?v1) * (digit_base * ?P) < (?u0 * digit_base + ?u1 + 1) * (digit_base * ?P)"
      by (simp only: ac_simps)
    then have "dval s div dval v * ?v1 < ?u0 * digit_base + ?u1 + 1"
      by (simp only: mult_less_cancel2)
    then have "dval s div dval v * ?v1 \<le> ?u0 * digit_base + ?u1" by simp
    then show ?thesis using v1pos q0 by (simp add: less_eq_div_iff_mult_less_eq)
  qed
  show ?thesis
  proof (rule mpn_recheck_correct [OF U Vb lt v1pos u0 Ppos _ _ low res])
    show "unat (temp div ucast (v ! (n - 1))) * ?v1 + unat (temp mod ucast (v ! (n - 1))) =
        ?u0 * digit_base + ?u1"
      by (simp only: q0 r0 div_mult_mod_eq)
    show "unat (temp mod ucast (v ! (n - 1))) < digit_base"
      unfolding r0 by (rule less_trans [OF mod_less_divisor [OF v1pos] unat_digit_lt])
  qed
qed

lemma mpn_div_n_step_correct:
  assumes len: "2 \<le> length v" "j + length v < length numer" "j < length quot" "length ms = length v + 1"
    and norm: "2147483648 \<le> unat (v ! (length v - 1))"
    and lt: "dval (take (length v + 1) (drop j numer)) < dval v * digit_base"
    and step: "mpn_div_n_step j numer v quot ms = (numer', quot', ms')"
  shows "length numer' = length numer \<and> length ms' = length v + 1 \<and> take j numer' = take j numer
    \<and> dval (take (length v + 1) (drop j numer')) = dval (take (length v + 1) (drop j numer)) mod dval v
    \<and> (\<exists>q. quot' = quot[j := q] \<and> unat q = dval (take (length v + 1) (drop j numer)) div dval v)"
proof -
  define n where "n = length v"
  define s where "s = take (n + 1) (drop j numer)"
  have ls: "length s = n + 1" and s_nth: "i \<le> n \<Longrightarrow> s ! i = numer ! (j + i)" for i
    using len by (simp_all add: s_def n_def)
  obtain q r where rc: "mpn_recheck (v ! (n - 1)) (v ! (n - 2)) (s ! (n - 2))
      ((push_bit 32 (ucast (s ! n)) OR ucast (s ! (n - 1))) div ucast (v ! (n - 1)))
      ((push_bit 32 (ucast (s ! n)) OR ucast (s ! (n - 1))) mod ucast (v ! (n - 1))) = (q, r)"
    by fastforce
  let ?Q = "ucast q :: digit" and ?U = "dval s" and ?V = "dval v"
  have est: "?U div ?V \<le> unat q" "unat q \<le> ?U div ?V + 1" "unat q < digit_base"
    using mpn_div_n_estimate [OF _ len(1) norm, of s q r] ls lt rc by (simp_all add: n_def s_def)
  then have Q: "unat ?Q = unat q" by (simp add: unat_ucast_down)
  let ?ms = "mpn_mul [?Q] v ms"
  have ms: "dval ?ms = unat q * ?V" "length ?ms = n + 1"
    using mpn_mul_spec [of ms "[?Q]" v] len(4) Q by (simp_all add: n_def)
  obtain diff borrow where sub: "mpn_sub s ?ms = (diff, borrow)" by fastforce
  have diff: "length diff = n + 1" "?U + digit_base ^ (n + 1) * unat borrow = dval diff + unat q * ?V"
    "borrow = of_bool (?U < unat q * ?V)"
    using mpn_sub_spec [OF sub] ms ls by simp_all
  let ?numer = "take j numer @ diff @ drop (j + n + 1) numer"
  have slice: "take (n + 1) (drop j ?numer) = diff" and tk: "take j ?numer = take j numer"
    and dr: "drop (j + n + 1) ?numer = drop (j + n + 1) numer"
    using len diff(1) by (simp_all add: n_def)
  obtain ab sz where add: "mpn_add v diff = (ab, sz)" by fastforce
  have ab: "dval ab = ?V + dval diff" "length ab = n + 2"
    using mpn_add_spec [OF add] diff(1) by (simp_all add: n_def)
  have nth: "numer ! (j + n) = s ! n" "numer ! (j + n - 1) = s ! (n - 1)" "numer ! (j + n - 2) = s ! (n - 2)"
    using s_nth [of n] s_nth [of "n - 1"] s_nth [of "n - 2"] len(1) by (simp_all add: n_def)
  have step': "mpn_div_n_step j numer v quot ms =
      (if borrow \<noteq> 0 then (take j numer @ take (n + 1) ab @ drop (j + n + 1) numer, quot[j := ?Q - 1], ?ms)
       else (?numer, quot[j := ?Q], ?ms))"
    unfolding mpn_div_n_step_def Let_def
    by (simp only: n_def [symmetric] nth rc sub add slice tk dr s_def [symmetric] prod.case
        list_update_overwrite nth_list_update_eq [OF len(3)])
  have Vpos: "0 < ?V" using lt by (metis gr0I mult_0 not_less_zero)
  show ?thesis
  proof (cases "?U < unat q * ?V")
    case False
    then have "unat q \<le> ?U div ?V" using Vpos by (simp add: less_eq_div_iff_mult_less_eq)
    with est have qe: "unat q = ?U div ?V" by simp
    have "dval diff = ?U mod ?V" using diff(2,3) False qe by (simp add: minus_div_mult_eq_mod [symmetric])
    then show ?thesis
      using step step' diff False qe Q slice len ms unfolding n_def [symmetric] s_def [symmetric]
      by (auto simp: n_def)
  next
    case True
    then have "\<not> unat q \<le> ?U div ?V" using Vpos by (simp add: less_eq_div_iff_mult_less_eq)
    with est have qe: "unat q = ?U div ?V + 1" by simp
    have q1: "unat (?Q - 1) = ?U div ?V" using Q qe by (simp add: unat_sub_digit)
    have "dval ab = digit_base ^ (n + 1) + ?U mod ?V"
      using diff(2,3) True qe ab by (simp add: minus_div_mult_eq_mod [symmetric] algebra_simps)
    moreover have "dval ab = dval (take (n + 1) ab) + digit_base ^ (n + 1) * unat (ab ! (n + 1))"
      using ab(2) dval_take_Suc [of "n + 1" ab] by simp
    moreover have "dval (take (n + 1) ab) < digit_base ^ (n + 1)"
      using ab(2) by (intro dval_take_less) simp
    moreover have "?U mod ?V < digit_base ^ (n + 1)"
      using mod_less_divisor [OF Vpos, of ?U] dval_less [of v] power_increasing [of n "n + 1" digit_base]
      unfolding n_def by linarith
    ultimately have "dval (take (n + 1) ab) = ?U mod ?V"
      by (metis mod_less mod_mult_self2 mod_add_self1)
    then show ?thesis
      using step step' diff True q1 len ms ab unfolding n_def [symmetric] s_def [symmetric]
      by (auto simp: n_def)
  qed
qed

lemma mpn_div_n_correct:
  assumes "2 \<le> length v" "j + length v \<le> length numer" "j \<le> length quot" "length ms = length v + 1"
    and "2147483648 \<le> unat (v ! (length v - 1))" "dval (take (length v) (drop j numer)) < dval v"
    and "mpn_div_n j numer v quot ms = (u, q)"
  shows "length u = length numer \<and> length q = length quot \<and> drop j q = drop j quot
    \<and> dval (take j q) * dval v + dval (take (length v) u) = dval (take (j + length v) numer)
    \<and> dval (take (length v) u) < dval v"
  using assms(2-4,6,7)
proof (induction j arbitrary: numer quot ms)
  case (Suc i)
  let ?n = "length v" and ?V = "dval v"
  let ?U = "dval (take (?n + 1) (drop i numer))"
  obtain numer' quot' ms' where step: "mpn_div_n_step i numer v quot ms = (numer', quot', ms')"
    by (metis prod_cases3)
  have U: "?U = unat (numer ! i) + digit_base * dval (take ?n (drop (Suc i) numer))"
    using Suc.prems(1) by (simp add: Cons_nth_drop_Suc [symmetric])
  have "?U < digit_base * (dval (take ?n (drop (Suc i) numer)) + 1)"
    unfolding U using unat_digit_lt [of "numer ! i"] by simp
  also have "\<dots> \<le> ?V * digit_base" using Suc.prems(4) by (simp add: mult.commute)
  finally have lt: "?U < ?V * digit_base" .
  obtain d where post: "length numer' = length numer" "length ms' = ?n + 1" "take i numer' = take i numer"
      "dval (take (?n + 1) (drop i numer')) = ?U mod ?V" "quot' = quot[i := d]" "unat d = ?U div ?V"
    using mpn_div_n_step_correct [OF assms(1) _ _ Suc.prems(3) assms(5) lt step] Suc.prems by auto
  have Vpos: "0 < ?V" using Suc.prems(4) by simp
  have "dval (take (Suc ?n) (drop i numer')) =
      dval (take ?n (drop i numer')) + digit_base ^ ?n * unat (drop i numer' ! ?n)"
    using Suc.prems(1) post(1) by (intro dval_take_Suc) simp
  moreover have "?U mod ?V < digit_base ^ ?n"
    using mod_less_divisor [OF Vpos, of ?U] dval_less [of v] by linarith
  ultimately have hi: "dval (take ?n (drop i numer')) = ?U mod ?V"
    using post(4) by (cases "unat (drop i numer' ! ?n)") simp_all
  have IH: "length u = length numer" "length q = length quot" "drop i q = drop i quot'"
      "dval (take i q) * ?V + dval (take ?n u) = dval (take (i + ?n) numer')"
      "dval (take ?n u) < ?V"
    using Suc.IH [of numer' quot' ms'] Suc.prems step post hi Vpos by simp_all
  have qi: "q ! i = d" "drop (Suc i) q = drop (Suc i) quot"
    using IH(2,3) Suc.prems(2) post(5) by (simp_all add: Cons_nth_drop_Suc [symmetric])
  have "dval (take (i + ?n) numer') = dval (take i numer) + digit_base ^ i * (?U mod ?V)"
    using Suc.prems(1) post hi by (simp add: take_add dval_simps)
  with IH(4) have "dval (take (Suc i) q) * ?V + dval (take ?n u) =
      dval (take i numer) + digit_base ^ i * (?U mod ?V) + digit_base ^ i * (?U div ?V * ?V)"
    using IH(2) Suc.prems(2) qi post(6) by (simp add: dval_take_Suc algebra_simps)
  also have "\<dots> = dval (take i numer) + digit_base ^ i * ?U"
    by (simp only: add.assoc add_mult_distrib2 [symmetric] mod_div_mult_eq)
  also have "\<dots> = dval (take (Suc i + ?n) numer)"
    using Suc.prems(1) take_add [of i "?n + 1" numer] by (simp add: dval_simps)
  finally show ?case using IH qi by simp
qed auto

section \<open>The division\<close>

lemma mpn_div_normalize_correct:
  assumes "denom \<noteq> []" "last denom \<noteq> 0" "numer \<noteq> []" "mpn_div_normalize numer denom = (d, u, v)"
  shows "d < 32" "length u = length numer + 1" "length v = length denom"
    "dval u = 2 ^ d * dval numer" "dval v = 2 ^ d * dval denom"
    "2147483648 \<le> unat (v ! (length v - 1))" "unat (u ! length numer) < 2147483648"
proof -
  let ?d = "mpn_norm_shift (last denom) 0"
  have "?d < 32 \<and> 2147483648 \<le> unat (last denom) * 2 ^ ?d \<and> unat (last denom) * 2 ^ ?d < digit_base"
    using mpn_norm_shift_correct [of "last denom" 0] unat_digit_lt [of "last denom"] assms(2) by simp
  then have d: "?d < 32" and lo: "2147483648 \<le> unat (last denom) * 2 ^ ?d"
    and hi: "unat (last denom) * 2 ^ ?d < digit_base" by blast+
  have def: "d = ?d \<and> (d = 0 \<and> u = numer @ [0] \<and> v = denom
      \<or> d \<noteq> 0 \<and> u = mpn_shl d numer @ [first_bits d (last numer)] \<and> v = mpn_shl d denom)"
    using assms by (auto simp: mpn_div_normalize_def Let_def split: if_splits)
  then have dd: "?d = d" by simp
  have "unat (last denom) * 2 ^ d < 2 ^ d * 2 ^ (32 - d)"
    using hi [unfolded dd] d [unfolded dd] pow2_split [of d] by linarith
  then have small: "unat (last denom) < 2 ^ (32 - d)" by (simp add: mult.commute)
  then have fb: "unat (first_bits d (last denom)) = 0" by (simp add: first_bits_def unat_drop_bit_digit)
  show "d < 32" using d dd by simp
  show "length u = length numer + 1" "length v = length denom" using def by auto
  show "dval u = 2 ^ d * dval numer"
    using def mpn_shl_correct [of d numer] d dd assms(3) by (auto simp: dval_simps)
  show "dval v = 2 ^ d * dval denom"
    using def mpn_shl_correct [of d denom] d dd assms(1) fb by auto
  show "2147483648 \<le> unat (v ! (length v - 1))"
  proof (cases "d = 0")
    case True
    then have "v = denom" using def by blast
    then show ?thesis using True lo dd assms(1) by (simp add: last_conv_nth)
  next
    case False
    have "unat (push_bit d (last denom)) = unat (last denom) * 2 ^ d"
      using small d dd by (simp add: unat_push_bit_digit)
    moreover obtain y where "v ! (length v - 1) = push_bit d (last denom) OR drop_bit (32 - d) y"
      using False def mpn_shl_last [OF assms(1), of d] by auto
    ultimately show ?thesis
      using lo dd d small by (simp add: unat_shift_or)
  qed
  show "unat (u ! length numer) < 2147483648"
  proof (cases "d = 0")
    case True
    then show ?thesis using def by (auto simp: nth_append)
  next
    case False
    have "unat (last numer) < 2 ^ d * 2 ^ (32 - d)"
      using unat_digit_lt [of "last numer"] pow2_split [of d] d dd by simp
    then have "unat (last numer) div 2 ^ (32 - d) < 2 ^ d" by (rule less_mult_imp_div_less)
    moreover have "(2 :: nat) ^ d \<le> 2 ^ 31" using d dd by (intro power_increasing) simp_all
    ultimately have "unat (last numer) div 2 ^ (32 - d) < 2147483648" by simp
    then show ?thesis
      using False def by (auto simp: nth_append first_bits_def unat_drop_bit_digit)
  qed
qed

lemma dval_less_top:
  assumes "length xs = length ys" "ys \<noteq> []" "unat (last xs) < unat (last ys)"
  shows "dval xs < dval ys"
proof -
  have split: "dval zs = dval (butlast zs) + digit_base ^ (length zs - 1) * unat (last zs)" if "zs \<noteq> []" for zs
    using that dval_append [of "butlast zs" "[last zs]"] by simp
  have "xs \<noteq> []" using assms by auto
  then show ?thesis
    unfolding split [OF \<open>xs \<noteq> []\<close>] split [OF assms(2)] assms(1)
    using assms dval_less [of "butlast xs"] by (intro top_digit_less) simp_all
qed

lemma map_digit_at: "map (digit_at xs) [0..<length xs] = xs"
  by (rule nth_equalityI) (simp_all add: digit_at_def)

lemma mpn_div_unnormalize_correct:
  assumes "d < 32" "length v \<le> length u" "dval (take (length v) u) = 2 ^ d * r"
  shows "dval (mpn_div_unnormalize u v d) = r" "length (mpn_div_unnormalize u v d) = length v"
  using assms by (simp_all add: mpn_div_unnormalize_def mpn_shr_correct)

lemma mpn_div_core:
  assumes norm: "denom \<noteq> []" "last denom \<noteq> 0" "length denom \<le> length numer"
      "mpn_div_normalize numer denom = (d, u, v)"
    and quot: "length quot = length numer - length denom + 1"
    and res: "(if length denom = 1 then mpn_div_1 (length u - 1) (v ! 0) u quot
      else mpn_div_n (length u - length v) u v quot (replicate (length denom + 1) 0)) = (u', q)"
  shows "dval q = dval numer div dval denom" "length q = length quot"
    "dval (mpn_div_unnormalize u' v d) = dval numer mod dval denom"
    "length (mpn_div_unnormalize u' v d) = length denom"
proof -
  have ne: "numer \<noteq> []" using norm by auto
  note nrm = mpn_div_normalize_correct [OF norm(1,2) ne norm(4)]
  let ?m = "length numer - length denom + 1"
  have main: "dval q * dval v + dval (take (length v) u') = dval u \<and> dval (take (length v) u') < dval v
      \<and> length q = ?m \<and> length u' = length u"
  proof (cases "length denom = 1")
    case True
    then obtain v0 where v: "v = [v0]" using nrm(3) by (auto simp: length_Suc_conv)
    have lq: "length quot = length numer" using quot True norm(3) by simp
    have "unat (u ! length numer) < unat v0" using nrm(6,7) v by simp
    then have "length u' = length u \<and> length q = length quot
        \<and> dval (take (length numer) q) * unat v0 + unat (u' ! 0) = dval (take (Suc (length numer)) u)
        \<and> unat (u' ! 0) < unat v0"
      using mpn_div_1_correct [of "length numer" u quot v0 u' q] res True nrm(2) lq v by auto
    then show ?thesis using v lq quot nrm(2) by (auto simp: take_Suc_conv_app_nth)
  next
    case False
    then have l2: "2 \<le> length v" using norm(1) nrm(3) by (cases "length denom") auto
    have "length (drop ?m u) = length v" using nrm(2,3) norm(3) by simp
    moreover have "last (drop ?m u) = u ! length numer"
    proof -
      have "?m < length u" using norm(1,3) nrm(2) by (cases denom) auto
      then have "last (drop ?m u) = last u" by (rule last_drop)
      moreover have "u \<noteq> []" using nrm(2) by auto
      then have "last u = u ! length numer" using nrm(2) last_conv_nth [of u] by simp
      ultimately show ?thesis by simp
    qed
    moreover have "last v = v ! (length v - 1)" using l2 by (subst last_conv_nth) auto
    ultimately have "dval (take (length v) (drop ?m u)) < dval v"
      using nrm(6,7) l2 by (intro dval_less_top) auto
    moreover have "length u - length v = ?m" using nrm(2,3) norm(3) by simp
    moreover have "?m + length v = length u" using nrm(2,3) norm(3) by simp
    ultimately show ?thesis
      using mpn_div_n_correct [OF l2, of ?m u quot "replicate (length denom + 1) 0" u' q] res False nrm quot
      by auto
  qed
  have D: "0 < dval denom" using norm(1,2) by (rule dval_pos)
  have dd: "2 ^ d * dval numer div (2 ^ d * dval denom) = dval numer div dval denom"
    by simp
  have "dval q = dval u div dval v"
    using main by (metis add.commute div_mult_self1 div_less add_0 less_nat_zero_code not_gr_zero)
  then show "dval q = dval numer div dval denom" using nrm(4,5) by simp
  show "length q = length quot" using main quot by simp
  have "dval (take (length v) u') = dval u mod dval v"
    using main by (metis add.commute mod_less mod_mult_self1 mult.commute)
  then have "dval (take (length v) u') = 2 ^ d * (dval numer mod dval denom)"
    using nrm(4,5) by (simp add: mod_mult_mult1)
  then show "dval (mpn_div_unnormalize u' v d) = dval numer mod dval denom"
    "length (mpn_div_unnormalize u' v d) = length denom"
    using mpn_div_unnormalize_correct [OF nrm(1), of v u'] main nrm(2,3) norm(3) by simp_all
qed

lemma mpn_div_spec:
  assumes "denom \<noteq> []" "last denom \<noteq> 0" "length denom \<le> length numer"
    "length quot = length numer - length denom + 1" "length rem = length denom"
    "mpn_div numer denom quot rem = (q, r)"
  shows "dval q = dval numer div dval denom" "dval r = dval numer mod dval denom"
    "length q = length quot" "length r = length rem"
proof -
  have nz: "\<not> (\<forall>d \<in> set denom. d = 0)" using assms(1,2) by auto
  have "dval q = dval numer div dval denom \<and> dval r = dval numer mod dval denom
      \<and> length q = length quot \<and> length r = length rem"
  proof (cases "length numer = 1 \<and> length denom = 1")
    case True
    then obtain n0 d0 q0 r0 where "numer = [n0]" "denom = [d0]" "quot = [q0]" "rem = [r0]"
      using assms(4,5) by (auto simp: length_Suc_conv)
    with assms(6) nz show ?thesis
      by (auto simp: mpn_div_def Let_def unat_div_distrib unat_mod_distrib)
  next
    case not1: False
    show ?thesis
    proof (cases "length numer = length denom \<and> numer ! (length numer - 1) < denom ! (length denom - 1)")
      case True
      moreover from True assms(1) have "numer \<noteq> []" by auto
      ultimately have "dval numer < dval denom"
        using assms(1) last_conv_nth [of numer] last_conv_nth [of denom]
        by (intro dval_less_top) (auto simp: word_less_nat_alt)
      moreover obtain q0 where "quot = [q0]" using True assms(4) by (auto simp: length_Suc_conv)
      moreover have "map (digit_at numer) [0..<length denom] = numer" using True map_digit_at by metis
      moreover have "mpn_div numer denom quot rem =
          (quot[0 := 0], map (digit_at numer) [0..<length denom] @ drop (length denom) rem)"
        using True not1 by (auto simp: mpn_div_def Let_def nz)
      ultimately show ?thesis
        using True assms(5,6) by auto
    next
      case False
      obtain d u v where n: "mpn_div_normalize numer denom = (d, u, v)" by (metis prod_cases3)
      obtain u' q' where c: "(if length denom = 1 then mpn_div_1 (length u - 1) (v ! 0) u quot
          else mpn_div_n (length u - length v) u v quot (replicate (length denom + 1) 0)) = (u', q')"
        by fastforce
      have "mpn_div numer denom quot rem = (q', mpn_div_unnormalize u' v d @ drop (length denom) rem)"
        unfolding mpn_div_def Let_def n prod.case c using False not1 nz assms(3) by auto
      then show ?thesis
        using mpn_div_core [OF assms(1-3) n assms(4) c] assms(5,6) by auto
    qed
  qed
  then show "dval q = dval numer div dval denom" "dval r = dval numer mod dval denom"
    "length q = length quot" "length r = length rem" by blast+
qed

end
