(* ===== verification/Numeral_Iface.thy ===== *)
theory Numeral_Iface
  imports Numeral_Prelude
begin

text \<open>
  The interface that the numeral managers of the sources share. \<open>mpz_manager\<close>, \<open>mpq_manager\<close> and
  \<open>mpbq_manager\<close> offer the same operations under the same names, and code written once against them
  (the loop of \<open>power\<close>, which all three repeat, and the templates over a numeral manager)
  relies only on these operations computing in a ring or an ordered ring. The locales state that
  contract over an invariant \<open>ok\<close> and a value function \<open>val\<close>; each manager interprets them in the
  theory that models it.
\<close>

unbundle bit_operations_syntax

section \<open>The loop of power\<close>

text \<open>\<open>while (mask <= p) { if (mask & p) mul(b, power, b); mul(power, power, power); mask <<= 1; }\<close>
  with a 32-bit \<open>mask\<close>.\<close>

record 'a power_state =
  pw_mask :: digit
  pw_power :: 'a
  pw_b :: 'a

definition power_step :: "('a \<Rightarrow> 'a \<Rightarrow> 'a res) \<Rightarrow> digit \<Rightarrow> 'a power_state \<Rightarrow> 'a power_state res" where
  "power_step mul p s =
     bind_res (if pw_mask s AND p \<noteq> 0 then mul (pw_b s) (pw_power s) else Inr (pw_b s)) (\<lambda>b.
     bind_res (mul (pw_power s) (pw_power s)) (\<lambda>power.
       Inr \<lparr>pw_mask = push_bit 1 (pw_mask s), pw_power = power, pw_b = b\<rparr>))"

definition power_loop :: "('a \<Rightarrow> 'a \<Rightarrow> 'a res) \<Rightarrow> digit \<Rightarrow> 'a power_state \<Rightarrow> 'a power_state res" where
  "power_loop mul p = while_res (\<lambda>s. pw_mask s \<le> p) (power_step mul p)"

lemma unat_pow2_digit: "i \<le> 31 \<Longrightarrow> unat (2 ^ i :: digit) = 2 ^ i"
proof -
  assume "i \<le> 31"
  then have "(2 :: nat) ^ i \<le> 2 ^ 31" by (intro power_increasing) simp_all
  moreover have "(2 ^ i :: digit) = of_nat (2 ^ i)" by simp
  ultimately show ?thesis by (simp only: unat_of_nat) (simp add: take_bit_eq_mod)
qed

lemma while_res_diverges:
  assumes "I s" "\<And>t. I t \<Longrightarrow> b t \<and> (\<exists>t'. c t = Inr t' \<and> I t')"
  shows "while_res b c s = Inl Nontermination"
proof -
  have "while_option (\<lambda>r. case r of Inl e \<Rightarrow> False | Inr t \<Rightarrow> b t) (\<lambda>r. bind_res r c) (Inr s) = None"
  proof (rule ccontr)
    assume "\<not> ?thesis"
    then obtain r where r: "while_option (\<lambda>r. case r of Inl e \<Rightarrow> False | Inr t \<Rightarrow> b t) (\<lambda>r. bind_res r c) (Inr s) = Some r"
      by blast
    have "\<exists>t. r = Inr t \<and> I t"
    proof (rule while_option_rule [OF _ r])
      show "\<exists>t. bind_res q c = Inr t \<and> I t" if "\<exists>t. q = Inr t \<and> I t" for q
        using that assms(2) by fastforce
    qed (use assms(1) in simp)
    then show False using while_option_stop [OF r] assms(2) by auto
  qed
  then show ?thesis by (simp add: while_res_def)
qed

section \<open>Contracts\<close>

text \<open>The ring operations return a result: those of \<open>mpq_manager\<close> go through a gcd and divisions.
  On numbers that satisfy the invariant they return without a fault.\<close>

locale numeral_group =
  fixes ok :: "'a \<Rightarrow> bool"
    and val :: "'a \<Rightarrow> 'v :: linordered_idom"
    and add sub :: "'a \<Rightarrow> 'a \<Rightarrow> 'a res"
    and neg :: "'a \<Rightarrow> 'a"
  assumes add_yields: "ok a \<Longrightarrow> ok b \<Longrightarrow> yields (add a b) (\<lambda>c. ok c \<and> val c = val a + val b)"
    and sub_yields: "ok a \<Longrightarrow> ok b \<Longrightarrow> yields (sub a b) (\<lambda>c. ok c \<and> val c = val a - val b)"
    and neg_ok: "ok a \<Longrightarrow> ok (neg a)"
    and neg_val: "ok a \<Longrightarrow> val (neg a) = - val a"

text \<open>The product of two binary rationals is computed with an exponent that wraps around, so
  \<open>mpbq_manager\<close> offers the group without the unconditional ring.\<close>

locale numeral_ring = numeral_group ok val add sub neg
  for ok :: "'a \<Rightarrow> bool" and val :: "'a \<Rightarrow> 'v :: linordered_idom" and add sub neg +
  fixes mul :: "'a \<Rightarrow> 'a \<Rightarrow> 'a res"
  assumes mul_yields: "ok a \<Longrightarrow> ok b \<Longrightarrow> yields (mul a b) (\<lambda>c. ok c \<and> val c = val a * val b)"
begin

text \<open>After \<open>i\<close> iterations the mask is \<open>2^i\<close>, \<open>power\<close> holds \<open>x^(2^i)\<close> and \<open>b\<close> the power for the
  low \<open>i\<close> bits of the exponent.\<close>

definition power_inv :: "digit \<Rightarrow> 'v \<Rightarrow> 'a power_state \<Rightarrow> bool" where
  "power_inv p x s \<longleftrightarrow> ok (pw_power s) \<and> ok (pw_b s) \<and>
     (\<exists>i \<le> 31. pw_mask s = 2 ^ i \<and> val (pw_power s) = x ^ 2 ^ i \<and> val (pw_b s) = x ^ (unat p mod 2 ^ i))"

lemma power_step_yields:
  assumes "ok (pw_power s)" "ok (pw_b s)"
  shows "yields (power_step mul p s) (\<lambda>t. pw_mask t = push_bit 1 (pw_mask s) \<and> ok (pw_power t) \<and> ok (pw_b t)
    \<and> val (pw_power t) = val (pw_power s) * val (pw_power s)
    \<and> val (pw_b t) = (if pw_mask s AND p \<noteq> 0 then val (pw_b s) * val (pw_power s) else val (pw_b s)))"
  using mul_yields [OF assms(2,1)] mul_yields [OF assms(1,1)] assms
  by (auto simp: power_step_def elim!: yields_mono)

lemma power_step_inv:
  assumes "power_inv p x s" "pw_mask s \<le> p" "unat p < 2 ^ 31"
  shows "yields (power_step mul p s) (\<lambda>t. power_inv p x t \<and> unat (pw_mask s) < unat (pw_mask t))"
proof -
  obtain i where ok: "ok (pw_power s)" "ok (pw_b s)" and i: "i \<le> 31" "pw_mask s = 2 ^ i"
    "val (pw_power s) = x ^ 2 ^ i" "val (pw_b s) = x ^ (unat p mod 2 ^ i)"
    using assms(1) by (auto simp: power_inv_def)
  have u: "unat (2 ^ j :: digit) = 2 ^ j" if "j \<le> 31" for j
    using that by (rule unat_pow2_digit)
  have "(2 :: nat) ^ i \<le> unat p" using assms(2) i(1,2) u by (simp add: word_le_nat_alt)
  then have "(2 :: nat) ^ i < 2 ^ 31" using assms(3) by simp
  then have "i < 31" by (simp only: power_strict_increasing_iff)
  have mask: "push_bit 1 (2 ^ i :: digit) = 2 ^ Suc i" by (simp add: push_bit_eq_mult)
  have bit: "2 ^ i AND p \<noteq> 0 \<longleftrightarrow> bit (unat p) i"
    using \<open>i < 31\<close> by (simp add: and.commute [of _ p] and_exp_eq_0_iff_not_bit bit_unsigned_iff)
  have mod: "unat p mod 2 ^ Suc i = of_bool (bit (unat p) i) * 2 ^ i + unat p mod 2 ^ i"
    by (simp only: take_bit_eq_mod [symmetric] take_bit_Suc_from_most mult.commute)
  have sq: "x ^ 2 ^ i * x ^ 2 ^ i = x ^ 2 ^ Suc i" by (simp add: mult_2 flip: power_add)
  have prod: "x ^ (unat p mod 2 ^ i) * x ^ 2 ^ i = x ^ (unat p mod 2 ^ Suc i)" if "bit (unat p) i"
    using that mod by (simp add: power_add [symmetric] add.commute)
  have lt: "unat (2 ^ i :: digit) < unat (2 ^ Suc i :: digit)"
    using u [of i] u [of "Suc i"] \<open>i < 31\<close> by simp
  show ?thesis
    using power_step_yields [OF ok, of p] i bit mod mask sq prod lt \<open>i < 31\<close>
    by (auto simp: power_inv_def mult.commute elim!: yields_mono intro!: exI [of _ "Suc i"])
qed

lemma power_loop_val:
  assumes "ok a" "ok one" "val one = 1" "unat p < 2 ^ 31"
  shows "\<exists>s. power_loop mul p \<lparr>pw_mask = 1, pw_power = a, pw_b = one\<rparr> = Inr s \<and> ok (pw_b s) \<and> val (pw_b s) = val a ^ unat p"
  unfolding power_loop_def
proof (rule while_res_total [where I = "power_inv p (val a)" and m = "\<lambda>s. digit_base - unat (pw_mask s)"])
  show "power_inv p (val a) \<lparr>pw_mask = 1, pw_power = a, pw_b = one\<rparr>"
    using assms by (auto simp: power_inv_def intro!: exI [of _ 0])
next
  fix s assume "power_inv p (val a) s" "pw_mask s \<le> p"
  then obtain t where "power_step mul p s = Inr t" "power_inv p (val a) t" "unat (pw_mask s) < unat (pw_mask t)"
    using power_step_inv [OF _ _ assms(4)] by (auto simp: yields_def)
  then show "\<exists>t. power_step mul p s = Inr t \<and> power_inv p (val a) t
      \<and> digit_base - unat (pw_mask t) < digit_base - unat (pw_mask s)"
    using unat_digit_lt [of "pw_mask t"] by simp
next
  fix s assume inv: "power_inv p (val a) s" and "\<not> pw_mask s \<le> p"
  then obtain i where "i \<le> 31" "pw_mask s = 2 ^ i" "val (pw_b s) = val a ^ (unat p mod 2 ^ i)" "ok (pw_b s)"
    by (auto simp: power_inv_def)
  moreover from this \<open>\<not> pw_mask s \<le> p\<close> have "unat p < 2 ^ i"
    by (simp add: word_le_nat_alt unat_pow2_digit)
  ultimately show "ok (pw_b s) \<and> val (pw_b s) = val a ^ unat p" by simp
qed

text \<open>For an exponent of \<open>2^31\<close> or more the mask wraps around to zero and the loop does not end.\<close>

lemma power_loop_diverges:
  assumes "ok a" "ok b" "2 ^ 31 \<le> unat p"
  shows "power_loop mul p \<lparr>pw_mask = 1, pw_power = a, pw_b = b\<rparr> = Inl Nontermination"
  unfolding power_loop_def
proof (rule while_res_diverges [where
      I = "\<lambda>s. ok (pw_power s) \<and> ok (pw_b s) \<and> (pw_mask s = 0 \<or> (\<exists>i \<le> 31. pw_mask s = 2 ^ i))"])
  fix s :: "'a power_state"
  assume I: "ok (pw_power s) \<and> ok (pw_b s) \<and> (pw_mask s = 0 \<or> (\<exists>i \<le> 31. pw_mask s = 2 ^ i))"
  have "pw_mask s \<le> p"
  proof -
    have "(2 :: nat) ^ i \<le> unat p" if "i \<le> 31" for i
      using power_increasing [OF that, of "2 :: nat"] assms(3) by linarith
    then show ?thesis using I by (auto simp: word_le_nat_alt unat_pow2_digit)
  qed
  moreover have "push_bit 1 (pw_mask s) = 0 \<or> (\<exists>i \<le> 31. push_bit 1 (pw_mask s) = 2 ^ i)"
  proof (cases "pw_mask s = 0")
    case False
    then obtain i where i: "i \<le> 31" "pw_mask s = 2 ^ i" using I by blast
    have "push_bit 1 (2 ^ i :: digit) = 2 ^ Suc i" by (simp add: push_bit_eq_mult)
    moreover have "(2 :: digit) ^ Suc 31 = 0" by simp
    ultimately show ?thesis using i by (cases "i = 31") (auto intro!: exI [of _ "Suc i"])
  qed simp
  ultimately show "pw_mask s \<le> p \<and> (\<exists>t. power_step mul p s = Inr t \<and>
      ok (pw_power t) \<and> ok (pw_b t) \<and> (pw_mask t = 0 \<or> (\<exists>i \<le> 31. pw_mask t = 2 ^ i)))"
    using power_step_yields [of s p] I by (auto simp: yields_def)
qed (use assms in \<open>auto intro!: exI [of _ 0]\<close>)

end

section \<open>Order\<close>

locale numeral_order = numeral_group ok val add sub neg
  for ok :: "'a \<Rightarrow> bool" and val :: "'a \<Rightarrow> 'v :: linordered_idom" and add sub neg +
  fixes eq lt :: "'a \<Rightarrow> 'a \<Rightarrow> bool"
  assumes eq_val: "ok a \<Longrightarrow> ok b \<Longrightarrow> eq a b \<longleftrightarrow> val a = val b"
    and lt_val: "ok a \<Longrightarrow> ok b \<Longrightarrow> lt a b \<longleftrightarrow> val a < val b"
begin

lemma lt_irrefl: "ok a \<Longrightarrow> \<not> lt a a"
  by (simp add: lt_val)

lemma lt_trans: "ok a \<Longrightarrow> ok b \<Longrightarrow> ok c \<Longrightarrow> lt a b \<Longrightarrow> lt b c \<Longrightarrow> lt a c"
  by (simp add: lt_val)

lemma lt_trichotomy: "ok a \<Longrightarrow> ok b \<Longrightarrow> (lt a b \<noteq> (eq a b \<or> lt b a)) \<and> \<not> (eq a b \<and> lt b a)"
  by (auto simp: lt_val eq_val)

text \<open>What a client may compute with the operations: the laws of an ordered group, and of a ring, hold
  up to \<open>eq\<close>.\<close>

lemma add_lt_mono:
  assumes "ok a" "ok b" "ok c"
  shows "yields (add a c) (\<lambda>x. yields (add b c) (\<lambda>y. lt x y \<longleftrightarrow> lt a b))"
  using add_yields [OF assms(1,3)] add_yields [OF assms(2,3)] assms
  by (auto simp: lt_val elim!: yields_mono)

lemma sub_add_cancel:
  assumes "ok a" "ok b"
  shows "yields (sub a b) (\<lambda>d. yields (add d b) (\<lambda>c. eq c a))"
  using sub_yields [OF assms] add_yields [OF _ assms(2)] assms
  by (fastforce simp: eq_val elim!: yields_mono)

end

locale numeral_ordered_ring = numeral_ring ok val add sub neg mul + numeral_order ok val add sub neg eq lt
  for ok :: "'a \<Rightarrow> bool" and val :: "'a \<Rightarrow> 'v :: linordered_idom" and add sub neg mul eq lt
begin

lemma mul_distrib:
  assumes "ok a" "ok b" "ok c"
  shows "yields (add b c) (\<lambda>s. yields (mul a s) (\<lambda>l. yields (mul a b) (\<lambda>x. yields (mul a c) (\<lambda>y.
    yields (add x y) (\<lambda>r. eq l r)))))"
proof -
  obtain s where s: "add b c = Inr s" "ok s" "val s = val b + val c"
    using add_yields [OF assms(2,3)] by (auto simp: yields_def)
  obtain l where l: "mul a s = Inr l" "ok l" "val l = val a * val s"
    using mul_yields [OF assms(1) s(2)] by (auto simp: yields_def)
  obtain x where x: "mul a b = Inr x" "ok x" "val x = val a * val b"
    using mul_yields [OF assms(1,2)] by (auto simp: yields_def)
  obtain y where y: "mul a c = Inr y" "ok y" "val y = val a * val c"
    using mul_yields [OF assms(1,3)] by (auto simp: yields_def)
  show ?thesis
    using add_yields [OF x(2) y(2)] s l x y by (auto simp: eq_val distrib_left elim!: yields_mono)
qed

end

end
