(* ===== verification/Mpz.thy ===== *)
theory Mpz
  imports Mpn_Div Numeral_Iface
begin

text \<open>
  \<open>mpz_manager\<close> (util/mpz.h, util/mpz.cpp, the \<open>_MP_INTERNAL\<close> build with 32-bit digits):
  multi-precision integers. A number is small (its value is \<open>m_val\<close>) or large (\<open>m_val\<close> is its
  sign and the digits of its cell hold the absolute value). Cells are lists of digits: capacity,
  ownership and allocation of the storage have no effect on values and are left out. The theory
  holds the conversions, the comparisons and the ring and division operations, each proved
  against the integer \<open>mpz_val\<close> that a number stands for.
\<close>

unbundle bit_operations_syntax

section \<open>Representation\<close>

datatype mpz_kind = Mpz_small | Mpz_large

record mpz =
  m_val :: int
  m_kind :: mpz_kind
  m_digits :: "digit list"

definition mk_z :: "int \<Rightarrow> mpz" where
  "mk_z v = \<lparr>m_val = v, m_kind = Mpz_small, m_digits = []\<rparr>"

definition mk_large :: "int \<Rightarrow> digit list \<Rightarrow> mpz" where
  "mk_large sign ds = \<lparr>m_val = sign, m_kind = Mpz_large, m_digits = ds\<rparr>"

definition is_small :: "mpz \<Rightarrow> bool" where
  "is_small a \<longleftrightarrow> m_kind a = Mpz_small"

text \<open>The invariant the operations keep, and the integer a number stands for. Small numbers fit
  an \<open>int\<close>; large ones have a sign, no leading zero digit and an absolute value of at least
  \<open>INT_MAX\<close>. The two values \<open>INT_MIN\<close> and \<open>INT_MAX\<close> have a small and a large representation each.\<close>

definition mpz_ok :: "mpz \<Rightarrow> bool" where
  "mpz_ok a \<longleftrightarrow> (if is_small a then int_min \<le> m_val a \<and> m_val a \<le> int_max
     else (m_val a = 1 \<or> m_val a = - 1) \<and> m_digits a \<noteq> [] \<and> last (m_digits a) \<noteq> 0
       \<and> int_max \<le> int (dval (m_digits a)))"

definition mpz_val :: "mpz \<Rightarrow> int" where
  "mpz_val a = (if is_small a then m_val a else m_val a * int (dval (m_digits a)))"

text \<open>The canonical representation: a large number is not in the range of small ones on the
  positive side. Only \<open>set(mpz&, uint64_t)\<close> at \<open>INT_MAX\<close> leaves it; \<open>gcd\<close> relies on it.\<close>

definition mpz_wf :: "mpz \<Rightarrow> bool" where
  "mpz_wf a \<longleftrightarrow> mpz_ok a \<and> (is_small a \<or> int_max < int (dval (m_digits a)))"

section \<open>Operations\<close>

subsection \<open>Signs\<close>

definition mpz_sign :: "mpz \<Rightarrow> int" where "mpz_sign a = m_val a"
definition mpz_is_pos :: "mpz \<Rightarrow> bool" where "mpz_is_pos a \<longleftrightarrow> mpz_sign a > 0"
definition mpz_is_neg :: "mpz \<Rightarrow> bool" where "mpz_is_neg a \<longleftrightarrow> mpz_sign a < 0"
definition mpz_is_zero :: "mpz \<Rightarrow> bool" where "mpz_is_zero a \<longleftrightarrow> mpz_sign a = 0"
definition mpz_is_nonpos :: "mpz \<Rightarrow> bool" where "mpz_is_nonpos a \<longleftrightarrow> \<not> mpz_is_pos a"
definition mpz_is_nonneg :: "mpz \<Rightarrow> bool" where "mpz_is_nonneg a \<longleftrightarrow> \<not> mpz_is_neg a"
definition mpz_is_one :: "mpz \<Rightarrow> bool" where "mpz_is_one a \<longleftrightarrow> is_small a \<and> m_val a = 1"
definition mpz_is_minus_one :: "mpz \<Rightarrow> bool" where
  "mpz_is_minus_one a \<longleftrightarrow> is_small a \<and> m_val a = - 1"

subsection \<open>Conversions from machine integers and digit arrays\<close>

text \<open>The two digits of a 64-bit magnitude, as \<open>set_big_i64\<close> and \<open>set_big_ui64\<close> store them.\<close>

definition big_of_u64 :: "int \<Rightarrow> double_digit \<Rightarrow> mpz" where
  "big_of_u64 sign v =
     (let d0 = ucast v; d1 = ucast (drop_bit 32 v)
      in mk_large sign (if d1 = 0 then [d0] else [d0, d1]))"

definition mpz_set_big_ui64 :: "double_digit \<Rightarrow> mpz" where
  "mpz_set_big_ui64 v = big_of_u64 1 v"

definition mpz_set_ui64 :: "double_digit \<Rightarrow> mpz" where
  "mpz_set_ui64 v = (if uint v < int_max then mk_z (uint v) else mpz_set_big_ui64 v)"

text \<open>\<open>set(mpz&, unsigned)\<close>: a value above \<open>INT_MAX\<close> goes through \<open>set_i64\<close> to
  \<open>set_big_i64\<close>, which stores it as a positive magnitude (\<open>mpz_set_unsigned_i64\<close> below).\<close>

definition mpz_set_unsigned :: "digit \<Rightarrow> mpz" where
  "mpz_set_unsigned v = (if uint v \<le> int_max then mk_z (uint v) else big_of_u64 1 (ucast v))"

fun trim_size :: "digit list \<Rightarrow> nat \<Rightarrow> nat" where
  "trim_size ds 0 = 0"
| "trim_size ds (Suc i) = (if ds ! i = 0 then trim_size ds i else Suc i)"

definition mpz_set_digits :: "nat \<Rightarrow> digit list \<Rightarrow> mpz" where
  "mpz_set_digits sz ds =
     (let sz = trim_size ds sz
      in if sz = 0 then mk_z 0
         else if sz = 1 then mpz_set_unsigned (ds ! 0)
         else mk_large 1 (take sz ds))"

text \<open>\<open>set(mpz_cell& src, mpz& a, int sign, unsigned sz)\<close>\<close>

definition mpz_set_cell :: "digit list \<Rightarrow> int \<Rightarrow> nat \<Rightarrow> mpz" where
  "mpz_set_cell src sign sz =
     (let i = trim_size src sz
      in if i = 0 then mk_z 0
         else if i = 1 \<and> uint (src ! 0) \<le> int_max
         then mk_z (if sign < 0 then - uint (src ! 0) else uint (src ! 0))
         else (mpz_set_digits i src)\<lparr>m_val := sign\<rparr>)"

text \<open>\<open>get_sign_cell\<close>: the sign and the digits of the absolute value; \<open>m_int_min\<close> holds the
  digits of \<open>-INT_MIN\<close>.\<close>

definition get_sign_cell :: "mpz \<Rightarrow> int \<times> digit list" where
  "get_sign_cell a =
     (if is_small a then
        if m_val a = int_min then (- 1, [2147483648])
        else if m_val a < 0 then (- 1, [of_int (- m_val a)])
        else (1, [of_int (m_val a)])
      else (m_val a, m_digits a))"

subsection \<open>Addition and subtraction\<close>

definition big_add_sub :: "bool \<Rightarrow> mpz \<Rightarrow> mpz \<Rightarrow> mpz" where
  "big_add_sub SUB a b =
     (let (sign_a, ca) = get_sign_cell a; (sign_b, cb) = get_sign_cell b;
          sign_b = (if SUB then - sign_b else sign_b)
      in if sign_a = sign_b then
           (let (c, real_sz) = mpn_add ca cb in mpz_set_cell c sign_a real_sz)
         else
           (let r = mpn_compare ca cb
            in if r = 0 then mk_z 0
               else if r < 0 then mpz_set_cell (fst (mpn_sub cb ca)) sign_b (length cb)
               else mpz_set_cell (fst (mpn_sub ca cb)) sign_a (length ca)))"

definition mpz_set_big_i64 :: "int \<Rightarrow> mpz" where
  "mpz_set_big_i64 v =
     (if v = - (2 ^ 63) then
        (let c = big_of_u64 (- 1) (of_int (- (v sdiv 2))) in big_add_sub False c c)
      else if v < 0 then big_of_u64 (- 1) (of_int (- v))
      else big_of_u64 1 (of_int v))"

definition mpz_set_i64 :: "int \<Rightarrow> mpz" where
  "mpz_set_i64 v = (if int_min \<le> v \<and> v \<le> int_max then mk_z v else mpz_set_big_i64 v)"

definition mpz_add :: "mpz \<Rightarrow> mpz \<Rightarrow> mpz" where
  "mpz_add a b = (if is_small a \<and> is_small b then mpz_set_i64 (wrap_i64 (m_val a + m_val b))
     else big_add_sub False a b)"

definition mpz_sub :: "mpz \<Rightarrow> mpz \<Rightarrow> mpz" where
  "mpz_sub a b = (if is_small a \<and> is_small b then mpz_set_i64 (wrap_i64 (m_val a - m_val b))
     else big_add_sub True a b)"

definition mpz_inc :: "mpz \<Rightarrow> mpz" where "mpz_inc a = mpz_add a (mk_z 1)"
definition mpz_dec :: "mpz \<Rightarrow> mpz" where "mpz_dec a = mpz_add a (mk_z (- 1))"

definition mpz_neg :: "mpz \<Rightarrow> mpz" where
  "mpz_neg a = (if is_small a \<and> m_val a = int_min then mpz_set_big_i64 (- int_min)
     else a\<lparr>m_val := - m_val a\<rparr>)"

definition mpz_abs :: "mpz \<Rightarrow> mpz" where
  "mpz_abs a =
     (if is_small a then
        if m_val a < 0 then
          if m_val a = int_min then mpz_set_big_i64 (- int_min) else a\<lparr>m_val := - m_val a\<rparr>
        else a
      else a\<lparr>m_val := 1\<rparr>)"

subsection \<open>Multiplication\<close>

definition big_mul :: "mpz \<Rightarrow> mpz \<Rightarrow> mpz" where
  "big_mul a b =
     (let (sign_a, ca) = get_sign_cell a; (sign_b, cb) = get_sign_cell b;
          sz = length ca + length cb
      in mpz_set_cell (mpn_mul ca cb (replicate sz 0)) (if sign_a = sign_b then 1 else - 1) sz)"

definition mpz_mul :: "mpz \<Rightarrow> mpz \<Rightarrow> mpz" where
  "mpz_mul a b = (if is_small a \<and> is_small b then mpz_set_i64 (wrap_i64 (m_val a * m_val b))
     else big_mul a b)"

definition mpz_addmul :: "mpz \<Rightarrow> mpz \<Rightarrow> mpz \<Rightarrow> mpz" where
  "mpz_addmul a b c =
     (if mpz_is_one b then mpz_add a c
      else if mpz_is_minus_one b then mpz_sub a c
      else mpz_add a (mpz_mul b c))"

definition mpz_submul :: "mpz \<Rightarrow> mpz \<Rightarrow> mpz \<Rightarrow> mpz" where
  "mpz_submul a b c =
     (if mpz_is_one b then mpz_sub a c
      else if mpz_is_minus_one b then mpz_add a c
      else mpz_sub a (mpz_mul b c))"

subsection \<open>Division\<close>

text \<open>\<open>quot_rem_core\<close> in its mode \<open>QUOT_AND_REM\<close>; the modes \<open>QUOT_ONLY\<close> and \<open>REM_ONLY\<close> store
  one of the two results. A zero divisor makes \<open>mpn_manager::div\<close> reach \<open>UNREACHABLE()\<close>.\<close>

definition quot_rem_core :: "mpz \<Rightarrow> mpz \<Rightarrow> (mpz \<times> mpz) res" where
  "quot_rem_core a b =
     (let (sign_a, ca) = get_sign_cell a; (sign_b, cb) = get_sign_cell b
      in if length cb > length ca then Inr (mk_z 0, a)
         else if \<forall>d \<in> set cb. d = 0 then Inl Undefined_behaviour
         else
           (let q_sz = length ca - length cb + 1; r_sz = length cb;
                (q1, r1) = mpn_div ca cb (replicate q_sz 0) (replicate r_sz 0)
            in Inr (mpz_set_cell q1 (if sign_a = sign_b then 1 else - 1) q_sz,
                    mpz_set_cell r1 sign_a r_sz)))"

definition big_div :: "mpz \<Rightarrow> mpz \<Rightarrow> mpz res" where
  "big_div a b = bind_res (quot_rem_core a b) (\<lambda>(q, r). Inr q)"

definition big_rem :: "mpz \<Rightarrow> mpz \<Rightarrow> mpz res" where
  "big_rem a b = bind_res (quot_rem_core a b) (\<lambda>(q, r). Inr r)"

text \<open>Division by zero of the machine integers is undefined; \<open>machine_div\<close> tests for it first.\<close>

definition machine_div_rem :: "mpz \<Rightarrow> mpz \<Rightarrow> (mpz \<times> mpz) res" where
  "machine_div_rem a b =
     (if is_small a \<and> is_small b then
        if m_val b = 0 then Inl Undefined_behaviour
        else Inr (mpz_set_i64 (m_val a sdiv m_val b), mpz_set_i64 (m_val a smod m_val b))
      else quot_rem_core a b)"

definition machine_div :: "mpz \<Rightarrow> mpz \<Rightarrow> mpz res" where
  "machine_div a b =
     (if is_small b \<and> m_val b = 0 then Inl Division_by_zero
      else if is_small a \<and> is_small b then Inr (mpz_set_i64 (m_val a sdiv m_val b))
      else big_div a b)"

definition mpz_rem :: "mpz \<Rightarrow> mpz \<Rightarrow> mpz res" where
  "mpz_rem a b =
     (if is_small a \<and> is_small b then
        if m_val b = 0 then Inl Undefined_behaviour
        else Inr (mpz_set_i64 (m_val a smod m_val b))
      else big_rem a b)"

definition mpz_div_gcd :: "mpz \<Rightarrow> mpz \<Rightarrow> mpz res" where
  "mpz_div_gcd a b = (if mpz_is_one b then Inr a else machine_div a b)"

definition mpz_div :: "mpz \<Rightarrow> mpz \<Rightarrow> mpz res" where
  "mpz_div a b =
     (if mpz_is_one b then Inr a
      else if mpz_is_neg a then
        bind_res (machine_div_rem a b) (\<lambda>(c, tmp).
          if \<not> mpz_is_zero tmp
          then Inr (if mpz_is_neg b then mpz_add c (mk_z 1) else mpz_sub c (mk_z 1))
          else Inr c)
      else machine_div a b)"

definition mpz_mod :: "mpz \<Rightarrow> mpz \<Rightarrow> mpz res" where
  "mpz_mod a b =
     bind_res (mpz_rem a b) (\<lambda>c.
       Inr (if mpz_is_neg c then if mpz_is_pos b then mpz_add c b else mpz_sub c b else c))"

definition mpz_divides :: "mpz \<Rightarrow> mpz \<Rightarrow> bool res" where
  "mpz_divides a b =
     (if mpz_is_zero a then Inr (mpz_is_zero b)
      else bind_res (mpz_rem b a) (\<lambda>tmp. Inr (mpz_is_zero tmp)))"

subsection \<open>Comparison\<close>

definition big_compare :: "mpz \<Rightarrow> mpz \<Rightarrow> int" where
  "big_compare a b =
     (if mpz_sign a > 0 then
        if mpz_sign b > 0 then mpn_compare (snd (get_sign_cell a)) (snd (get_sign_cell b))
        else 1
      else if mpz_sign b > 0 then - 1
      else mpn_compare (snd (get_sign_cell b)) (snd (get_sign_cell a)))"

definition mpz_eq :: "mpz \<Rightarrow> mpz \<Rightarrow> bool" where
  "mpz_eq a b = (if is_small a \<and> is_small b then m_val a = m_val b else big_compare a b = 0)"

definition mpz_lt :: "mpz \<Rightarrow> mpz \<Rightarrow> bool" where
  "mpz_lt a b = (if is_small a \<and> is_small b then m_val a < m_val b else big_compare a b < 0)"

definition mpz_neq :: "mpz \<Rightarrow> mpz \<Rightarrow> bool" where "mpz_neq a b \<longleftrightarrow> \<not> mpz_eq a b"
definition mpz_gt :: "mpz \<Rightarrow> mpz \<Rightarrow> bool" where "mpz_gt a b \<longleftrightarrow> mpz_lt b a"
definition mpz_ge :: "mpz \<Rightarrow> mpz \<Rightarrow> bool" where "mpz_ge a b \<longleftrightarrow> \<not> mpz_lt a b"
definition mpz_le :: "mpz \<Rightarrow> mpz \<Rightarrow> bool" where "mpz_le a b \<longleftrightarrow> \<not> mpz_lt b a"

section \<open>Conversions\<close>

lemma mk_z_simps [simp]:
  "is_small (mk_z v)" "m_val (mk_z v) = v" "mpz_val (mk_z v) = v"
  "mpz_ok (mk_z v) \<longleftrightarrow> int_min \<le> v \<and> v \<le> int_max"
  by (simp_all add: mk_z_def is_small_def mpz_val_def mpz_ok_def)

lemma mk_large_simps [simp]:
  "\<not> is_small (mk_large s ds)" "m_val (mk_large s ds) = s" "mpz_val (mk_large s ds) = s * int (dval ds)"
  "m_digits (mk_large s ds) = ds" "(mk_large s ds)\<lparr>m_val := t\<rparr> = mk_large t ds"
  "mpz_ok (mk_large s ds) \<longleftrightarrow> (s = 1 \<or> s = - 1) \<and> ds \<noteq> [] \<and> last ds \<noteq> 0
     \<and> int_max \<le> int (dval ds)"
  by (simp_all add: mk_large_def is_small_def mpz_val_def mpz_ok_def)

lemma mk_z_wf [simp]: "mpz_wf (mk_z v) \<longleftrightarrow> int_min \<le> v \<and> v \<le> int_max"
  by (simp add: mpz_wf_def)

lemma mpz_wf_ok [simp]: "mpz_wf a \<Longrightarrow> mpz_ok a"
  by (simp add: mpz_wf_def)

lemma mpz_wf_val: "mpz_wf a \<longleftrightarrow> mpz_ok a \<and> (is_small a \<or> int_max < \<bar>mpz_val a\<bar>)"
  by (auto simp: mpz_wf_def mpz_val_def mpz_ok_def abs_mult)

lemma int_limits: "int_min = - 2147483648" "int_max = 2147483647"
  by (simp_all add: int_min_def int_max_def)

lemma big_of_u64_val:
  assumes "s = 1 \<or> s = - 1" "int_max \<le> uint v"
  shows "mpz_val (big_of_u64 s v) = s * uint v" "mpz_ok (big_of_u64 s v)" "\<not> is_small (big_of_u64 s v)"
proof -
  let ?d0 = "ucast v :: digit" and ?d1 = "ucast (drop_bit 32 v) :: digit"
  have "unat v div digit_base < digit_base"
    using unat_double_lt [of v] by (intro less_mult_imp_div_less) simp
  then have hi: "unat ?d1 = unat v div digit_base" and lo: "unat ?d0 = unat v mod digit_base"
    by (simp_all add: unat_ucast_down unat_drop_bit_32)
  have sum: "unat ?d0 + digit_base * unat ?d1 = unat v" unfolding hi lo by simp
  have "dval (if ?d1 = 0 then [?d0] else [?d0, ?d1]) = unat ?d0 + digit_base * unat ?d1"
    by simp
  then have val: "int (dval (if ?d1 = 0 then [?d0] else [?d0, ?d1])) = uint v"
    unfolding sum by (simp only: uint_nat)
  moreover have "?d1 = 0 \<Longrightarrow> ?d0 \<noteq> 0" using val assms(2) int_limits by auto
  ultimately show "mpz_val (big_of_u64 s v) = s * uint v" "mpz_ok (big_of_u64 s v)"
    "\<not> is_small (big_of_u64 s v)"
    using assms by (simp_all add: big_of_u64_def Let_def)
qed

lemma uint_of_int_64: "0 \<le> v \<Longrightarrow> v < 2 ^ 64 \<Longrightarrow> uint (of_int v :: double_digit) = v"
  by (simp add: uint_word_of_int)

lemma uint_of_int_32: "0 \<le> v \<Longrightarrow> v < 2 ^ 32 \<Longrightarrow> uint (of_int v :: digit) = v"
  by (simp add: uint_word_of_int)

lemma mpz_set_unsigned_val [simp]: "mpz_val (mpz_set_unsigned d) = uint d" "mpz_ok (mpz_set_unsigned d)"
proof -
  have u: "uint (ucast d :: double_digit) = uint d"
    by (simp only: uint_nat unat_ucast_up)
  then show "mpz_val (mpz_set_unsigned d) = uint d" "mpz_ok (mpz_set_unsigned d)"
    by (simp_all add: mpz_set_unsigned_def big_of_u64_val int_limits not_le
        order_trans [OF _ uint_ge_0])
qed

lemma mpz_set_unsigned_i64: "mpz_set_unsigned d = mpz_set_i64 (uint d)"
proof -
  have "(of_int (uint d) :: double_digit) = ucast d" by (simp only: ucast_eq)
  moreover have "0 \<le> uint d" by simp
  moreover from this have "uint d \<noteq> - (2 ^ 63)" "\<not> uint d < 0" "int_min \<le> uint d"
    by (linarith | simp add: int_limits)+
  ultimately show ?thesis
    by (simp only: mpz_set_unsigned_def mpz_set_i64_def mpz_set_big_i64_def if_False simp_thms)
qed

lemma trim_size_le: "trim_size ds n \<le> n"
  by (induction n) (auto intro: le_SucI)

lemma trim_size_dval: "n \<le> length ds \<Longrightarrow> dval (take (trim_size ds n) ds) = dval (take n ds)"
  by (induction n) (simp_all add: dval_take_Suc)

lemma trim_size_top: "trim_size ds n = Suc k \<Longrightarrow> ds ! k \<noteq> 0"
  by (induction n) (auto split: if_splits)

lemma trim_size_idem: "trim_size ds (trim_size ds n) = trim_size ds n"
  by (induction n) auto

lemma mpz_set_digits_val:
  assumes "sz \<le> length ds"
  shows "mpz_val (mpz_set_digits sz ds) = int (dval (take sz ds))" (is ?thesis1)
    and "mpz_ok (mpz_set_digits sz ds)" (is ?thesis2)
proof -
  let ?n = "trim_size ds sz"
  have n: "?n \<le> length ds" "dval (take ?n ds) = dval (take sz ds)"
    using trim_size_le [of ds sz] assms by (simp_all add: trim_size_dval)
  consider "?n = 0" | "?n = 1" | k where "?n = Suc (Suc k)"
    by (metis One_nat_def not0_implies_Suc)
  then have "?thesis1 \<and> ?thesis2"
  proof cases
    case 2
    moreover have "dval (take 1 ds) = unat (ds ! 0)" using n 2 by (cases ds) simp_all
    then have "uint (ds ! 0) = int (dval (take sz ds))"
      using n(2) 2 by (simp only: uint_nat)
    ultimately have "mpz_val (mpz_set_digits sz ds) = int (dval (take sz ds))"
      by (simp add: mpz_set_digits_def)
    with 2 show ?thesis by (simp add: mpz_set_digits_def)
  next
    case 3
    have lst: "last (take (Suc (Suc k)) ds) = ds ! Suc k" using n(1) 3 by (simp add: take_Suc_conv_app_nth)
    have "digit_base ^ 1 * 1 \<le> digit_base ^ Suc k * unat (ds ! Suc k)"
      using trim_size_top [OF 3] by (intro mult_le_mono power_increasing) (simp_all add: unat_gt_0 Suc_le_eq)
    also have "\<dots> \<le> dval (take (Suc (Suc k)) ds)" using n(1) 3 by (simp add: dval_take_Suc)
    finally show ?thesis
      using lst 3 n trim_size_top [OF 3] int_limits by (auto simp: mpz_set_digits_def Let_def)
  qed (use n int_limits in \<open>simp add: mpz_set_digits_def\<close>)
  then show ?thesis1 ?thesis2 by blast+
qed

lemma mpz_set_digits_wf:
  assumes "sz \<le> length ds"
  shows "mpz_wf (mpz_set_digits sz ds)"
proof -
  note spec = mpz_set_digits_val [OF assms]
  let ?n = "trim_size ds sz"
  have u: "mpz_wf (mpz_set_unsigned d)" for d
  proof -
    have "0 \<le> uint d" by simp
    then show ?thesis
      using mpz_set_unsigned_val [of d] by (auto simp: mpz_wf_val mpz_set_unsigned_def)
  qed
  have "int_max < \<bar>mpz_val (mpz_set_digits sz ds)\<bar>" if n1: "1 < ?n"
  proof -
    obtain k where k: "?n = Suc (Suc k)" using less_imp_Suc_add [OF n1] by auto
    have n: "?n \<le> length ds" "dval (take ?n ds) = dval (take sz ds)"
      using trim_size_le [of ds sz] assms by (simp_all add: trim_size_dval)
    have "digit_base ^ 1 * 1 \<le> digit_base ^ Suc k * unat (ds ! Suc k)"
      using trim_size_top [OF k] by (intro mult_le_mono power_increasing) (simp_all add: unat_gt_0 Suc_le_eq)
    also have "\<dots> \<le> dval (take sz ds)" using n k by (simp add: dval_take_Suc flip: n(2))
    finally show ?thesis using spec(1) int_limits by simp
  qed
  then show ?thesis
    using spec u [of "ds ! 0"] int_limits by (auto simp: mpz_wf_val mpz_set_digits_def Let_def)
qed

lemma mpz_set_cell_val:
  assumes "sz \<le> length src" "sign = 1 \<or> sign = - 1"
  shows "mpz_val (mpz_set_cell src sign sz) = sign * int (dval (take sz src))"
    "mpz_ok (mpz_set_cell src sign sz)" "mpz_wf (mpz_set_cell src sign sz)"
proof -
  let ?i = "trim_size src sz"
  have i: "?i \<le> length src" "dval (take ?i src) = dval (take sz src)"
    using trim_size_le [of src sz] assms by (simp_all add: trim_size_dval)
  have "mpz_val (mpz_set_cell src sign sz) = sign * int (dval (take sz src)) \<and> mpz_wf (mpz_set_cell src sign sz)"
  proof (cases "?i = 0")
    case True
    then show ?thesis using i int_limits by (simp add: mpz_set_cell_def)
  next
    case nz: False
    have d0: "int (dval (take sz src)) = uint (src ! 0)" if "?i = 1"
    proof -
      have "dval (take 1 src) = unat (src ! 0)" using i that by (cases src) simp_all
      then show ?thesis using i(2) that by (simp only: uint_nat)
    qed
    show ?thesis
    proof (cases "?i = 1 \<and> uint (src ! 0) \<le> int_max")
      case True
      then show ?thesis
        using d0 assms(2) int_limits uint_ge_0 [of "src ! 0"] by (auto simp: mpz_set_cell_def)
    next
      case False
      have "\<not> is_small (mpz_set_digits ?i src)"
        using nz False i
        by (auto simp: mpz_set_digits_def trim_size_idem Let_def mpz_set_unsigned_def big_of_u64_def)
      moreover have "mpz_wf (mpz_set_digits ?i src)" using i(1) by (rule mpz_set_digits_wf)
      ultimately show ?thesis
        using nz False mpz_set_digits_val [OF i(1)] i(2) assms(2)
        by (auto simp: mpz_set_cell_def Let_def mpz_val_def mpz_wf_def mpz_ok_def is_small_def)
    qed
  qed
  then show "mpz_val (mpz_set_cell src sign sz) = sign * int (dval (take sz src))"
    "mpz_ok (mpz_set_cell src sign sz)" "mpz_wf (mpz_set_cell src sign sz)" by (simp_all add: mpz_wf_def)
qed

lemma get_sign_cell_val:
  assumes "mpz_ok a" "get_sign_cell a = (s, ds)"
  shows "mpz_val a = s * int (dval ds)" "s = 1 \<or> s = - 1" "ds \<noteq> []"
    "mpz_val a \<noteq> 0 \<Longrightarrow> last ds \<noteq> 0" "\<bar>mpz_val a\<bar> = int (dval ds)" "s * mpz_val a = int (dval ds)"
proof -
  show val: "mpz_val a = s * int (dval ds)" and s: "s = 1 \<or> s = - 1" and "ds \<noteq> []"
    using assms uint_of_int_32 [of "m_val a"] uint_of_int_32 [of "- m_val a"]
    by (auto simp: get_sign_cell_def mpz_ok_def mpz_val_def int_limits split: if_splits)
  show "mpz_val a \<noteq> 0 \<Longrightarrow> last ds \<noteq> 0"
    using assms val by (auto simp: get_sign_cell_def mpz_ok_def split: if_splits)
  show "\<bar>mpz_val a\<bar> = int (dval ds)" "s * mpz_val a = int (dval ds)"
    using val s by auto
qed

section \<open>Ring operations\<close>

lemma mpz_val_small: "is_small a \<Longrightarrow> mpz_val a = m_val a"
  by (simp add: mpz_val_def)

lemma mpz_ok_small: "is_small a \<Longrightarrow> mpz_ok a \<Longrightarrow> int_min \<le> m_val a \<and> m_val a \<le> int_max"
  by (simp add: mpz_ok_def)

text \<open>The difference of a larger and a smaller number fits the digits of the larger one.\<close>

lemma sub_trimmed:
  assumes "mpn_sub x y = (c, k)" "dval y < dval x"
  shows "dval (take (length x) c) = dval x - dval y"
proof -
  note spec = mpn_sub_spec [OF assms(1)]
  have c: "dval c = dval x - dval y" using spec assms(2) by simp
  then have "dval c < digit_base ^ length x" using dval_less [of x] by simp
  moreover have "dval c = dval (take (length x) c) + digit_base ^ length x * dval (drop (length x) c)"
    using dval_take_drop [of c "length x"] spec(1) by (simp add: min_def)
  ultimately have "dval (drop (length x) c) = 0" by (cases "dval (drop (length x) c)") simp_all
  with \<open>dval c = dval (take (length x) c) + _\<close> c show ?thesis by simp
qed

lemma big_add_sub_val:
  assumes "mpz_ok a" "mpz_ok b"
  shows "mpz_val (big_add_sub SUB a b) = (if SUB then mpz_val a - mpz_val b else mpz_val a + mpz_val b)
    \<and> mpz_ok (big_add_sub SUB a b)"
proof -
  obtain sa ca sb0 cb where gs: "get_sign_cell a = (sa, ca)" "get_sign_cell b = (sb0, cb)" by fastforce
  define sb where "sb = (if SUB then - sb0 else sb0)"
  note a = get_sign_cell_val [OF assms(1) gs(1)] and b = get_sign_cell_val [OF assms(2) gs(2)]
  have sb: "sb = 1 \<or> sb = - 1" using b(2) by (auto simp: sb_def)
  have goal: "(if SUB then mpz_val a - mpz_val b else mpz_val a + mpz_val b) =
      sa * int (dval ca) + sb * int (dval cb)"
    by (simp add: a(1) b(1) sb_def)
  obtain c sz where add: "mpn_add ca cb = (c, sz)" by fastforce
  obtain d1 k1 d2 k2 where sub: "mpn_sub cb ca = (d1, k1)" "mpn_sub ca cb = (d2, k2)" by fastforce
  show ?thesis
  proof (cases "sa = sb")
    case True
    have "mpz_val (mpz_set_cell c sa sz) = sa * int (dval ca + dval cb) \<and> mpz_ok (mpz_set_cell c sa sz)"
      using mpz_set_cell_val [of sz c sa] mpn_add_spec [OF add] a(2) by simp
    then show ?thesis
      unfolding goal using True gs add by (simp add: big_add_sub_def sb_def [symmetric] algebra_simps)
  next
    case False
    then have opp: "sb = - sa" using a(2) sb by auto
    note s1 = mpn_sub_spec [OF sub(1)] and s2 = mpn_sub_spec [OF sub(2)]
    have lt1: "mpz_val (mpz_set_cell d1 sb (length cb)) = sb * (int (dval cb) - int (dval ca))
        \<and> mpz_ok (mpz_set_cell d1 sb (length cb))" if "dval ca < dval cb"
      using sub_trimmed [OF sub(1) that] mpz_set_cell_val [of "length cb" d1 sb] sb s1(1) that by simp
    have lt2: "mpz_val (mpz_set_cell d2 sa (length ca)) = sa * (int (dval ca) - int (dval cb))
        \<and> mpz_ok (mpz_set_cell d2 sa (length ca))" if "dval cb < dval ca"
      using sub_trimmed [OF sub(2) that] mpz_set_cell_val [of "length ca" d2 sa] a(2) s2(1) that by simp
    show ?thesis
      unfolding goal using False gs sub lt1 lt2 opp int_limits
      by (auto simp: big_add_sub_def sb_def [symmetric] mpn_compare_spec algebra_simps)
  qed
qed

lemma mpz_set_big_i64_val:
  assumes "- (2 ^ 63) \<le> v" "v < 2 ^ 63" "int_max \<le> \<bar>v\<bar>"
  shows "mpz_val (mpz_set_big_i64 v) = v \<and> mpz_ok (mpz_set_big_i64 v)"
proof (cases "v = - (2 ^ 63)")
  case True
  let ?c = "big_of_u64 (- 1) (of_int (- (v sdiv 2)))"
  have "- (v sdiv 2) = 4611686018427387904" using True by simp
  then have "mpz_val ?c = - 4611686018427387904" "mpz_ok ?c"
    using big_of_u64_val [of "- 1" "of_int 4611686018427387904"] int_limits by simp_all
  then show ?thesis
    using big_add_sub_val [of ?c ?c False] True by (simp add: mpz_set_big_i64_def Let_def)
next
  case False
  have gen: "mpz_val (big_of_u64 s (of_int w)) = s * w \<and> mpz_ok (big_of_u64 s (of_int w))"
    if "int_max \<le> w" "w < 2 ^ 63" "s = 1 \<or> s = - 1" for w s
    using that big_of_u64_val [OF that(3), of "of_int w"] uint_of_int_64 [of w] int_limits by simp
  show ?thesis
    using gen [of v 1] gen [of "- v" "- 1"] assms False by (auto simp: mpz_set_big_i64_def abs_if split: if_splits)
qed

lemma mpz_set_i64_val:
  assumes "- (2 ^ 63) \<le> v" "v < 2 ^ 63"
  shows "mpz_val (mpz_set_i64 v) = v" "mpz_ok (mpz_set_i64 v)"
  using mpz_set_big_i64_val [OF assms] by (auto simp: mpz_set_i64_def int_limits)

lemma mpz_set_ui64_val [simp]: "mpz_val (mpz_set_ui64 v) = uint v" "mpz_ok (mpz_set_ui64 v)"
proof -
  show "mpz_val (mpz_set_ui64 v) = uint v" "mpz_ok (mpz_set_ui64 v)"
    using big_of_u64_val [of 1 v]
    by (simp_all add: mpz_set_ui64_def mpz_set_big_ui64_def int_limits not_less order_trans [OF _ uint_ge_0])
qed

lemma mpz_add_val [simp]:
  assumes "mpz_ok a" "mpz_ok b"
  shows "mpz_val (mpz_add a b) = mpz_val a + mpz_val b" "mpz_ok (mpz_add a b)"
proof -
  have "mpz_val (mpz_add a b) = mpz_val a + mpz_val b \<and> mpz_ok (mpz_add a b)"
  proof (cases "is_small a \<and> is_small b")
    case True
    then have r: "- (2 ^ 63) \<le> m_val a + m_val b" "m_val a + m_val b < 2 ^ 63"
      using mpz_ok_small [of a] mpz_ok_small [of b] assms int_limits by simp_all
    with True show ?thesis
      by (simp add: mpz_add_def wrap_i64_id mpz_set_i64_val mpz_val_small del: of_int_power)
  qed (use big_add_sub_val [OF assms, of False] in \<open>auto simp: mpz_add_def\<close>)
  then show "mpz_val (mpz_add a b) = mpz_val a + mpz_val b" "mpz_ok (mpz_add a b)" by blast+
qed

lemma mpz_sub_val [simp]:
  assumes "mpz_ok a" "mpz_ok b"
  shows "mpz_val (mpz_sub a b) = mpz_val a - mpz_val b" "mpz_ok (mpz_sub a b)"
proof -
  have "mpz_val (mpz_sub a b) = mpz_val a - mpz_val b \<and> mpz_ok (mpz_sub a b)"
  proof (cases "is_small a \<and> is_small b")
    case True
    then have r: "- (2 ^ 63) \<le> m_val a - m_val b" "m_val a - m_val b < 2 ^ 63"
      using mpz_ok_small [of a] mpz_ok_small [of b] assms int_limits by simp_all
    with True show ?thesis
      by (simp add: mpz_sub_def wrap_i64_id mpz_set_i64_val mpz_val_small)
  qed (use big_add_sub_val [OF assms, of True] in \<open>auto simp: mpz_sub_def\<close>)
  then show "mpz_val (mpz_sub a b) = mpz_val a - mpz_val b" "mpz_ok (mpz_sub a b)" by blast+
qed

lemma mpz_inc_dec_val [simp]:
  assumes "mpz_ok a"
  shows "mpz_val (mpz_inc a) = mpz_val a + 1" "mpz_ok (mpz_inc a)"
    "mpz_val (mpz_dec a) = mpz_val a - 1" "mpz_ok (mpz_dec a)"
  using assms by (simp_all add: mpz_inc_def mpz_dec_def int_limits)

lemma mpz_neg_val [simp]:
  assumes "mpz_ok a"
  shows "mpz_val (mpz_neg a) = - mpz_val a" "mpz_ok (mpz_neg a)"
proof -
  have "mpz_val (mpz_set_big_i64 (- int_min)) = - int_min \<and> mpz_ok (mpz_set_big_i64 (- int_min))"
    by (rule mpz_set_big_i64_val) (simp_all add: int_limits)
  then show "mpz_val (mpz_neg a) = - mpz_val a" "mpz_ok (mpz_neg a)"
    using assms by (auto simp: mpz_neg_def mpz_val_def mpz_ok_def is_small_def int_limits split: if_splits)
qed

lemma mpz_abs_val [simp]:
  assumes "mpz_ok a"
  shows "mpz_val (mpz_abs a) = \<bar>mpz_val a\<bar>" "mpz_ok (mpz_abs a)"
proof -
  have "mpz_val (mpz_set_big_i64 (- int_min)) = - int_min \<and> mpz_ok (mpz_set_big_i64 (- int_min))"
    by (rule mpz_set_big_i64_val) (simp_all add: int_limits)
  then show "mpz_val (mpz_abs a) = \<bar>mpz_val a\<bar>" "mpz_ok (mpz_abs a)"
    using assms
    by (auto simp: mpz_abs_def mpz_val_def mpz_ok_def is_small_def int_limits abs_mult split: if_splits)
qed

lemma big_mul_val:
  assumes "mpz_ok a" "mpz_ok b"
  shows "mpz_val (big_mul a b) = mpz_val a * mpz_val b \<and> mpz_ok (big_mul a b)"
proof -
  obtain sa ca sb cb where gs: "get_sign_cell a = (sa, ca)" "get_sign_cell b = (sb, cb)" by fastforce
  note a = get_sign_cell_val [OF assms(1) gs(1)] and b = get_sign_cell_val [OF assms(2) gs(2)]
  let ?sz = "length ca + length cb" and ?s = "if sa = sb then 1 else - 1 :: int"
  have "mpz_val (mpz_set_cell (mpn_mul ca cb (replicate ?sz 0)) ?s ?sz) = ?s * int (dval ca * dval cb)
      \<and> mpz_ok (mpz_set_cell (mpn_mul ca cb (replicate ?sz 0)) ?s ?sz)"
    using mpz_set_cell_val [of ?sz "mpn_mul ca cb (replicate ?sz 0)" ?s] by (simp add: mpn_mul_spec)
  moreover have "?s = sa * sb" using a(2) b(2) by auto
  ultimately show ?thesis
    using gs by (simp add: big_mul_def Let_def a(1) b(1) algebra_simps)
qed

lemma mpz_mul_val [simp]:
  assumes "mpz_ok a" "mpz_ok b"
  shows "mpz_val (mpz_mul a b) = mpz_val a * mpz_val b" "mpz_ok (mpz_mul a b)"
proof -
  have "mpz_val (mpz_mul a b) = mpz_val a * mpz_val b \<and> mpz_ok (mpz_mul a b)"
  proof (cases "is_small a \<and> is_small b")
    case True
    then have "\<bar>m_val a\<bar> \<le> 2147483648" "\<bar>m_val b\<bar> \<le> 2147483648"
      using mpz_ok_small [of a] mpz_ok_small [of b] assms int_limits by auto
    then have "\<bar>m_val a * m_val b\<bar> \<le> 2147483648 * 2147483648"
      unfolding abs_mult by (intro mult_mono) simp_all
    then have r: "- (2 ^ 63) \<le> m_val a * m_val b" "m_val a * m_val b < 2 ^ 63" by simp_all
    with True show ?thesis
      by (simp add: mpz_mul_def wrap_i64_id mpz_set_i64_val mpz_val_small)
  qed (use big_mul_val [OF assms] in \<open>auto simp: mpz_mul_def\<close>)
  then show "mpz_val (mpz_mul a b) = mpz_val a * mpz_val b" "mpz_ok (mpz_mul a b)" by blast+
qed

section \<open>Signs and comparison\<close>

lemma mpz_sign_val:
  assumes "mpz_ok a"
  shows "0 < mpz_sign a \<longleftrightarrow> 0 < mpz_val a" "mpz_sign a < 0 \<longleftrightarrow> mpz_val a < 0"
    "mpz_sign a = 0 \<longleftrightarrow> mpz_val a = 0"
  using assms dval_pos [of "m_digits a"]
  by (auto simp: mpz_sign_def mpz_val_def mpz_ok_def split: if_splits)

lemma mpz_sign_tests [simp]:
  assumes "mpz_ok a"
  shows "mpz_is_pos a \<longleftrightarrow> 0 < mpz_val a" "mpz_is_neg a \<longleftrightarrow> mpz_val a < 0"
    "mpz_is_zero a \<longleftrightarrow> mpz_val a = 0" "mpz_is_nonpos a \<longleftrightarrow> mpz_val a \<le> 0" "mpz_is_nonneg a \<longleftrightarrow> 0 \<le> mpz_val a"
  using mpz_sign_val [OF assms]
  by (auto simp: mpz_is_pos_def mpz_is_neg_def mpz_is_zero_def mpz_is_nonpos_def mpz_is_nonneg_def)

text \<open>A number outside the range of \<open>int\<close> is large, but not conversely: \<open>is_one\<close> may test only the
  small representation because no large number is 1.\<close>

lemma mpz_large_val:
  assumes "mpz_ok a" "\<not> is_small a"
  shows "int_max \<le> \<bar>mpz_val a\<bar>"
  using assms by (auto simp: mpz_val_def mpz_ok_def abs_mult)

lemma mpz_large_nonneg:
  assumes "mpz_ok a" "\<not> is_small a" "0 \<le> mpz_val a"
  shows "m_val a = 1" "mpz_val a = int (dval (m_digits a))" "m_digits a \<noteq> []" "last (m_digits a) \<noteq> 0"
  using assms dval_pos [of "m_digits a"] by (auto simp: mpz_ok_def mpz_val_def)

lemma mpz_is_one_val [simp]:
  assumes "mpz_ok a"
  shows "mpz_is_one a \<longleftrightarrow> mpz_val a = 1" "mpz_is_minus_one a \<longleftrightarrow> mpz_val a = - 1"
  using mpz_large_val [OF assms] int_limits
  by (cases "is_small a"; auto simp: mpz_is_one_def mpz_is_minus_one_def mpz_val_small)+

lemma mpz_addmul_val [simp]:
  assumes "mpz_ok a" "mpz_ok b" "mpz_ok c"
  shows "mpz_val (mpz_addmul a b c) = mpz_val a + mpz_val b * mpz_val c" "mpz_ok (mpz_addmul a b c)"
    "mpz_val (mpz_submul a b c) = mpz_val a - mpz_val b * mpz_val c" "mpz_ok (mpz_submul a b c)"
  using assms by (simp_all add: mpz_addmul_def mpz_submul_def)

lemma big_compare_val:
  assumes "mpz_ok a" "mpz_ok b"
  shows "big_compare a b =
    (if mpz_val a < mpz_val b then - 1 else if mpz_val a = mpz_val b then 0 else 1)"
proof -
  obtain sa ca sb cb where gs: "get_sign_cell a = (sa, ca)" "get_sign_cell b = (sb, cb)" by fastforce
  have "int (dval ca) = \<bar>mpz_val a\<bar>" "int (dval cb) = \<bar>mpz_val b\<bar>"
    using get_sign_cell_val(5) assms gs by metis+
  then have "mpn_compare ca cb = (if \<bar>mpz_val a\<bar> > \<bar>mpz_val b\<bar> then 1
      else if \<bar>mpz_val a\<bar> < \<bar>mpz_val b\<bar> then - 1 else 0)"
    and "mpn_compare cb ca = (if \<bar>mpz_val b\<bar> > \<bar>mpz_val a\<bar> then 1
      else if \<bar>mpz_val b\<bar> < \<bar>mpz_val a\<bar> then - 1 else 0)"
    by (simp_all add: mpn_compare_spec flip: \<open>int (dval ca) = _\<close> \<open>int (dval cb) = _\<close>)
  then show ?thesis
    using mpz_sign_val [OF assms(1)] mpz_sign_val [OF assms(2)] gs by (auto simp: big_compare_def)
qed

lemma mpz_compare_val [simp]:
  assumes "mpz_ok a" "mpz_ok b"
  shows "mpz_eq a b \<longleftrightarrow> mpz_val a = mpz_val b" "mpz_lt a b \<longleftrightarrow> mpz_val a < mpz_val b"
    "mpz_neq a b \<longleftrightarrow> mpz_val a \<noteq> mpz_val b" "mpz_gt a b \<longleftrightarrow> mpz_val a > mpz_val b"
    "mpz_ge a b \<longleftrightarrow> mpz_val a \<ge> mpz_val b" "mpz_le a b \<longleftrightarrow> mpz_val a \<le> mpz_val b"
  using big_compare_val assms
  by (auto simp: mpz_eq_def mpz_lt_def mpz_neq_def mpz_gt_def mpz_ge_def mpz_le_def mpz_val_small)

section \<open>Canonical results\<close>

text \<open>The ring operations return canonical numbers, also on arguments that are not.\<close>

lemma big_add_sub_wf: "mpz_ok a \<Longrightarrow> mpz_ok b \<Longrightarrow> mpz_wf (big_add_sub SUB a b)"
proof -
  assume ok: "mpz_ok a" "mpz_ok b"
  obtain sa ca sb cb where gs: "get_sign_cell a = (sa, ca)" "get_sign_cell b = (sb, cb)" by fastforce
  note a = get_sign_cell_val [OF ok(1) gs(1)] and b = get_sign_cell_val [OF ok(2) gs(2)]
  obtain c sz where add: "mpn_add ca cb = (c, sz)" by fastforce
  have "length (fst (mpn_sub x y)) = max (length x) (length y)" for x y
    using mpn_sub_spec(1) [of x y] by (cases "mpn_sub x y") simp
  then show ?thesis
    using mpz_set_cell_val(3) mpn_add_spec [OF add] a(2) b(2) gs add int_limits
    by (auto simp: big_add_sub_def Let_def)
qed

lemma mpz_set_i64_wf: "- (2 ^ 63) \<le> v \<Longrightarrow> v < 2 ^ 63 \<Longrightarrow> mpz_wf (mpz_set_i64 v)"
  using mpz_set_i64_val [of v] by (auto simp: mpz_wf_val mpz_set_i64_def int_limits)

lemma small_range:
  assumes "mpz_ok a" "is_small a"
  shows "\<bar>m_val a\<bar> \<le> 2147483648"
  using mpz_ok_small [OF assms(2,1)] int_limits by auto

lemma mpz_ring_wf [simp]:
  assumes "mpz_ok a" "mpz_ok b"
  shows "mpz_wf (mpz_add a b)" "mpz_wf (mpz_sub a b)" "mpz_wf (mpz_mul a b)"
proof -
  have "mpz_wf (big_mul a b)"
  proof -
    obtain sa ca sb cb where "get_sign_cell a = (sa, ca)" "get_sign_cell b = (sb, cb)" by fastforce
    then show ?thesis
      using mpz_set_cell_val(3) by (auto simp: big_mul_def Let_def mpn_mul_spec)
  qed
  moreover have "mpz_wf (mpz_set_i64 (wrap_i64 x))" for x
  proof -
    have "0 \<le> (x + 2 ^ 63) mod 2 ^ 64" "(x + 2 ^ 63) mod 2 ^ 64 < 2 ^ 64" by simp_all
    then have "- (2 ^ 63) \<le> wrap_i64 x" "wrap_i64 x < 2 ^ 63" unfolding wrap_i64_def by simp_all
    then show ?thesis by (rule mpz_set_i64_wf)
  qed
  ultimately show "mpz_wf (mpz_add a b)" "mpz_wf (mpz_sub a b)" "mpz_wf (mpz_mul a b)"
    using big_add_sub_wf assms by (simp_all add: mpz_add_def mpz_sub_def mpz_mul_def)
qed

lemma mpz_inc_dec_wf [simp]: "mpz_ok a \<Longrightarrow> mpz_wf (mpz_inc a)" "mpz_ok a \<Longrightarrow> mpz_wf (mpz_dec a)"
  by (simp_all add: mpz_inc_def mpz_dec_def int_limits)

lemma mpz_addmul_wf [simp]:
  assumes "mpz_ok a" "mpz_ok b" "mpz_ok c"
  shows "mpz_wf (mpz_addmul a b c)" "mpz_wf (mpz_submul a b c)"
  using assms by (simp_all add: mpz_addmul_def mpz_submul_def)

lemma mpz_neg_abs_wf [simp]:
  assumes "mpz_wf a"
  shows "mpz_wf (mpz_neg a)" "mpz_wf (mpz_abs a)"
proof -
  have "mpz_val (mpz_set_big_i64 (- int_min)) = - int_min \<and> mpz_ok (mpz_set_big_i64 (- int_min))"
    by (rule mpz_set_big_i64_val) (simp_all add: int_limits)
  then have "mpz_wf (mpz_set_big_i64 (- int_min))" by (auto simp: mpz_wf_val int_limits)
  then show "mpz_wf (mpz_neg a)" "mpz_wf (mpz_abs a)"
    using assms by (auto simp: mpz_neg_def mpz_abs_def mpz_wf_def mpz_ok_def is_small_def int_limits)
qed

section \<open>Division\<close>

lemma quot_rem_core_val:
  assumes "mpz_ok a" "mpz_ok b" "mpz_val b \<noteq> 0"
  obtains q r where "quot_rem_core a b = Inr (q, r)" "mpz_wf q" "mpz_ok r" "mpz_wf a \<longrightarrow> mpz_wf r"
    "mpz_val q = mpz_val a sdiv mpz_val b" "mpz_val r = mpz_val a smod mpz_val b"
proof -
  obtain sa ca sb cb where gs: "get_sign_cell a = (sa, ca)" "get_sign_cell b = (sb, cb)" by fastforce
  note a = get_sign_cell_val [OF assms(1) gs(1)] and b = get_sign_cell_val [OF assms(2) gs(2)]
  have cb: "cb \<noteq> []" "last cb \<noteq> 0" using b assms(3) by simp_all
  have sq: "mpz_val a sdiv mpz_val b = sa * sb * int (dval ca div dval cb)"
    and sr: "mpz_val a smod mpz_val b = sa * int (dval ca mod dval cb)"
    using a(2) b(2) unfolding a(1) b(1)
    by (auto simp: sdiv_nonneg smod_mod_positive zdiv_int zmod_int)
  show thesis
  proof (cases "length cb > length ca")
    case True
    have "digit_base ^ length ca \<le> digit_base ^ (length cb - 1)"
      using True by (intro power_increasing) simp_all
    then have "dval ca < digit_base ^ (length cb - 1)"
      using dval_less [of ca] by (rule less_le_trans [rotated])
    also have "\<dots> \<le> digit_base ^ (length cb - 1) * unat (last cb)"
      using cb(2) by (simp add: unat_gt_0 Suc_le_eq)
    also have "\<dots> \<le> dval cb" using cb(1) by (rule dval_ge_last)
    finally have lt: "dval ca < dval cb" .
    show thesis
      by (rule that [of "mk_z 0" a]) (use True gs lt assms sq sr a(1) int_limits in \<open>simp_all add: quot_rem_core_def\<close>)
  next
    case False
    let ?q_sz = "length ca - length cb + 1"
    obtain q1 r1 where div: "mpn_div ca cb (replicate ?q_sz 0) (replicate (length cb) 0) = (q1, r1)" by fastforce
    have d: "dval q1 = dval ca div dval cb" "dval r1 = dval ca mod dval cb" "length q1 = ?q_sz" "length r1 = length cb"
      using mpn_div_spec [OF cb _ _ _ div] False by simp_all
    let ?s = "if sa = sb then 1 else - 1 :: int"
    have s: "?s = sa * sb" "sa * sb = 1 \<or> sa * sb = - 1" using a(2) b(2) by auto
    then have q: "mpz_val (mpz_set_cell q1 ?s ?q_sz) = mpz_val a sdiv mpz_val b" "mpz_wf (mpz_set_cell q1 ?s ?q_sz)"
      using mpz_set_cell_val [of ?q_sz q1 "sa * sb"] d(1,3) sq by simp_all
    have r: "mpz_val (mpz_set_cell r1 sa (length cb)) = mpz_val a smod mpz_val b" "mpz_wf (mpz_set_cell r1 sa (length cb))"
      using mpz_set_cell_val [of "length cb" r1 sa] d(2,4) sr a(2) by simp_all
    have nz: "\<not> (\<forall>d \<in> set cb. d = 0)" using cb by auto
    have "quot_rem_core a b = Inr (mpz_set_cell q1 ?s ?q_sz, mpz_set_cell r1 sa (length cb))"
      using False gs div by (simp add: quot_rem_core_def nz Let_def)
    then show thesis using that q r mpz_wf_ok by blast
  qed
qed

lemma big_div_rem_val:
  assumes "mpz_ok a" "mpz_ok b" "mpz_val b \<noteq> 0"
  shows "\<exists>q. big_div a b = Inr q \<and> mpz_wf q \<and> mpz_val q = mpz_val a sdiv mpz_val b"
    "\<exists>r. big_rem a b = Inr r \<and> mpz_ok r \<and> (mpz_wf a \<longrightarrow> mpz_wf r) \<and> mpz_val r = mpz_val a smod mpz_val b"
  using quot_rem_core_val [OF assms] by (fastforce simp: big_div_def big_rem_def)+

lemma small_sdiv_smod:
  assumes "mpz_ok a" "mpz_ok b" "is_small a" "is_small b"
  shows "mpz_val (mpz_set_i64 (m_val a sdiv m_val b)) = mpz_val a sdiv mpz_val b"
    "mpz_wf (mpz_set_i64 (m_val a sdiv m_val b))"
    "mpz_val (mpz_set_i64 (m_val a smod m_val b)) = mpz_val a smod mpz_val b"
    "mpz_wf (mpz_set_i64 (m_val a smod m_val b))"
proof -
  have a: "\<bar>m_val a\<bar> \<le> 2147483648" using mpz_ok_small [of a] assms int_limits by auto
  have "\<bar>m_val a sdiv m_val b\<bar> < 2 ^ 63" "\<bar>m_val a smod m_val b\<bar> < 2 ^ 63"
    using sdiv_abs_le [of "m_val a" "m_val b"] smod_abs_le [of "m_val a" "m_val b"] a by simp_all
  then have "- (2 ^ 63) \<le> m_val a sdiv m_val b" "m_val a sdiv m_val b < 2 ^ 63"
    "- (2 ^ 63) \<le> m_val a smod m_val b" "m_val a smod m_val b < 2 ^ 63" by linarith+
  then show "mpz_val (mpz_set_i64 (m_val a sdiv m_val b)) = mpz_val a sdiv mpz_val b"
    "mpz_wf (mpz_set_i64 (m_val a sdiv m_val b))"
    "mpz_val (mpz_set_i64 (m_val a smod m_val b)) = mpz_val a smod mpz_val b"
    "mpz_wf (mpz_set_i64 (m_val a smod m_val b))"
    using mpz_set_i64_val mpz_set_i64_wf assms(3,4) by (simp_all add: mpz_val_small)
qed

lemma machine_div_rem_val:
  assumes "mpz_ok a" "mpz_ok b" "mpz_val b \<noteq> 0"
  shows "\<exists>q r. machine_div_rem a b = Inr (q, r) \<and> mpz_wf q \<and> mpz_ok r \<and> (mpz_wf a \<longrightarrow> mpz_wf r)
    \<and> mpz_val q = mpz_val a sdiv mpz_val b \<and> mpz_val r = mpz_val a smod mpz_val b"
proof (cases "is_small a \<and> is_small b")
  case True
  then show ?thesis
    using small_sdiv_smod [OF assms(1,2)] assms(3) by (simp add: machine_div_rem_def mpz_val_small)
next
  case False
  moreover obtain q r where "quot_rem_core a b = Inr (q, r)" "mpz_wf q" "mpz_ok r" "mpz_wf a \<longrightarrow> mpz_wf r"
    "mpz_val q = mpz_val a sdiv mpz_val b" "mpz_val r = mpz_val a smod mpz_val b"
    by (rule quot_rem_core_val [OF assms])
  ultimately show ?thesis unfolding machine_div_rem_def by auto
qed

lemma machine_div_val:
  assumes "mpz_ok a" "mpz_ok b" "mpz_val b \<noteq> 0"
  shows "\<exists>q. machine_div a b = Inr q \<and> mpz_wf q \<and> mpz_val q = mpz_val a sdiv mpz_val b"
  using big_div_rem_val [OF assms] small_sdiv_smod [OF assms(1,2)] assms
  by (cases "is_small a \<and> is_small b") (auto simp: machine_div_def mpz_val_small)

lemma mpz_rem_val:
  assumes "mpz_ok a" "mpz_ok b" "mpz_val b \<noteq> 0"
  shows "\<exists>r. mpz_rem a b = Inr r \<and> mpz_ok r \<and> (mpz_wf a \<longrightarrow> mpz_wf r) \<and> mpz_val r = mpz_val a smod mpz_val b"
  using big_div_rem_val [OF assms] small_sdiv_smod [OF assms(1,2)] assms
  by (cases "is_small a \<and> is_small b") (auto simp: mpz_rem_def mpz_val_small)

text \<open>A zero is small, whatever operation produced it, so the tests for it are complete.\<close>

lemma mpz_zero_small: "mpz_ok b \<Longrightarrow> mpz_val b = 0 \<Longrightarrow> is_small b \<and> m_val b = 0"
  using mpz_large_val [of b] int_limits by (cases "is_small b") (auto simp: mpz_val_small)

lemma division_by_zero:
  assumes "mpz_ok a" "mpz_ok b" "mpz_val b = 0"
  shows "machine_div a b = Inl Division_by_zero"
    "mpz_rem a b = Inl Undefined_behaviour" "machine_div_rem a b = Inl Undefined_behaviour"
proof -
  note b = mpz_zero_small [OF assms(2,3)]
  obtain s ds where gs: "get_sign_cell a = (s, ds)" by fastforce
  then have "ds \<noteq> []" using get_sign_cell_val [OF assms(1)] by blast
  then have "\<not> length ds < 1" by (cases ds) simp_all
  then have "quot_rem_core a b = Inl Undefined_behaviour"
    using b gs int_limits by (simp add: quot_rem_core_def get_sign_cell_def)
  then show "machine_div a b = Inl Division_by_zero"
    "mpz_rem a b = Inl Undefined_behaviour" "machine_div_rem a b = Inl Undefined_behaviour"
    using b by (simp_all add: machine_div_def mpz_rem_def machine_div_rem_def big_rem_def)
qed

lemma mpz_div_gcd_val:
  assumes "mpz_ok a" "mpz_ok b" "mpz_val b \<noteq> 0"
  shows "\<exists>q. mpz_div_gcd a b = Inr q \<and> mpz_ok q \<and> (mpz_wf a \<longrightarrow> mpz_wf q) \<and> mpz_val q = mpz_val a sdiv mpz_val b"
  using machine_div_val [OF assms] assms by (auto simp: mpz_div_gcd_def)

text \<open>The Euclidean quotient, with a nonnegative remainder for every sign of the divisor.\<close>

definition ediv :: "int \<Rightarrow> int \<Rightarrow> int" where
  "ediv x y = (if y < 0 then - (x div - y) else x div y)"

definition emod :: "int \<Rightarrow> int \<Rightarrow> int" where
  "emod x y = x mod \<bar>y\<bar>"

lemma ediv_emod: "y * ediv x y + emod x y = x"
  using mult_div_mod_eq [of "- y" x] by (auto simp: ediv_def emod_def)

lemma emod_bounds: "y \<noteq> 0 \<Longrightarrow> 0 \<le> emod x y \<and> emod x y < \<bar>y\<bar>"
  by (simp add: emod_def)

lemma ediv_emod_unique:
  assumes "x = y * q + r" "0 \<le> r" "r < \<bar>y\<bar>"
  shows "ediv x y = q" "emod x y = r"
proof -
  have "y * q + r = r + \<bar>y\<bar> * (sgn y * q)" by (simp add: abs_mult_sgn flip: mult.assoc)
  then have "emod x y = r mod \<bar>y\<bar>" by (simp only: emod_def assms(1) mod_mult_self2)
  then show r: "emod x y = r" using assms(2,3) by simp
  have "y * ediv x y = y * q" using ediv_emod [of y x] assms(1) r by simp
  then show "ediv x y = q" using assms by auto
qed

lemma sdiv_ediv:
  assumes "y \<noteq> 0"
  shows "emod x y = (if x smod y < 0 then x smod y + \<bar>y\<bar> else x smod y)"
    "ediv x y = (if x smod y < 0 then x sdiv y - sgn y else x sdiv y)"
proof -
  have eq: "x = y * (x sdiv y) + x smod y" by (simp add: mult_sdiv_smod_eq)
  have "\<bar>x smod y\<bar> < \<bar>y\<bar>" using assms by (rule smod_abs_less)
  then have "0 \<le> (if x smod y < 0 then x smod y + \<bar>y\<bar> else x smod y)"
    "(if x smod y < 0 then x smod y + \<bar>y\<bar> else x smod y) < \<bar>y\<bar>" by auto
  moreover have "x = y * (if x smod y < 0 then x sdiv y - sgn y else x sdiv y)
      + (if x smod y < 0 then x smod y + \<bar>y\<bar> else x smod y)"
    using eq by (simp add: right_diff_distrib mult_sgn_abs abs_sgn [symmetric] mult.commute)
  ultimately show "emod x y = (if x smod y < 0 then x smod y + \<bar>y\<bar> else x smod y)"
    "ediv x y = (if x smod y < 0 then x sdiv y - sgn y else x sdiv y)"
    using ediv_emod_unique by blast+
qed

lemma smod_sign:
  assumes "y \<noteq> 0"
  shows "(x :: int) smod y < 0 \<longleftrightarrow> x < 0 \<and> x smod y \<noteq> 0"
proof -
  have "0 \<le> \<bar>x\<bar> mod \<bar>y\<bar>" using assms by simp
  moreover have "x smod y = sgn x * (\<bar>x\<bar> mod \<bar>y\<bar>)" by (fact smod_int_alt_def)
  ultimately show ?thesis by (cases "x < 0"; cases "x = 0") (simp_all add: order_less_le)
qed

lemma mpz_div_val:
  assumes "mpz_ok a" "mpz_ok b" "mpz_val b \<noteq> 0"
  shows "\<exists>q. mpz_div a b = Inr q \<and> mpz_ok q \<and> (mpz_wf a \<longrightarrow> mpz_wf q) \<and> mpz_val q = ediv (mpz_val a) (mpz_val b)"
proof -
  obtain c t where dr: "machine_div_rem a b = Inr (c, t)" "mpz_wf c" "mpz_ok t"
    "mpz_val c = mpz_val a sdiv mpz_val b" "mpz_val t = mpz_val a smod mpz_val b"
    using machine_div_rem_val [OF assms] by blast
  obtain q where q: "machine_div a b = Inr q" "mpz_wf q" "mpz_val q = mpz_val a sdiv mpz_val b"
    using machine_div_val [OF assms] by blast
  show ?thesis
  proof (cases "mpz_is_one b")
    case True
    then show ?thesis using assms by (simp add: mpz_div_def ediv_def)
  next
    case False
    then show ?thesis
      using dr q assms int_limits
      by (auto simp: mpz_div_def sdiv_ediv(2) [OF assms(3)] smod_sign [OF assms(3)] sgn_if)
  qed
qed

lemma mpz_mod_val:
  assumes "mpz_ok a" "mpz_ok b" "mpz_val b \<noteq> 0"
  shows "\<exists>r. mpz_mod a b = Inr r \<and> mpz_ok r \<and> (mpz_wf a \<longrightarrow> mpz_wf r) \<and> mpz_val r = emod (mpz_val a) (mpz_val b)"
  using mpz_rem_val [OF assms] assms by (auto simp: mpz_mod_def sdiv_ediv(1))

lemma mpz_divides_val:
  assumes "mpz_ok a" "mpz_ok b"
  shows "mpz_divides a b = Inr (mpz_val a dvd mpz_val b)"
  using mpz_rem_val [OF assms(2,1)] assms
  by (cases "mpz_val a = 0") (auto simp: mpz_divides_def smod_eq_0_iff)

section \<open>The numeral interface\<close>

text \<open>\<open>mpz_manager\<close> as a numeral manager, on all numbers and on the canonical ones.\<close>

interpretation mpz_num: numeral_ordered_ring mpz_ok mpz_val "\<lambda>a b. Inr (mpz_add a b)" "\<lambda>a b. Inr (mpz_sub a b)"
  mpz_neg "\<lambda>a b. Inr (mpz_mul a b)" mpz_eq mpz_lt
  by unfold_locales simp_all

interpretation mpz_canon: numeral_ordered_ring mpz_wf mpz_val "\<lambda>a b. Inr (mpz_add a b)" "\<lambda>a b. Inr (mpz_sub a b)"
  mpz_neg "\<lambda>a b. Inr (mpz_mul a b)" mpz_eq mpz_lt
  by unfold_locales simp_all

end
