(* ===== verification/Mpz_Gcd.thy ===== *)
theory Mpz_Gcd
  imports Mpz
begin

text \<open>
  Greatest common divisors (util/mpz.cpp): the binary algorithms \<open>u_gcd\<close> and \<open>u64_gcd\<close> on machine
  integers, Lehmer's algorithm on multi-precision integers, the gcd of an array, the extended
  Euclidean algorithm and \<open>lcm\<close>. The loops are \<open>while_res\<close> loops; that they end is part of what
  is proved. Signed overflow inside Lehmer's loop is a fault of the model, and the proofs show
  that it does not occur.
\<close>

unbundle bit_operations_syntax

section \<open>Operations\<close>

subsection \<open>Machine integers\<close>

text \<open>\<open>_trailing_zeros32\<close> and \<open>_trailing_zeros64\<close>: the loop \<open>for (; 0 == (x & 1) && r < n; ++r, x >>= 1)\<close>,
  with the number of iterations left.\<close>

fun trailing_zeros_loop :: "nat \<Rightarrow> 'a :: len word \<Rightarrow> nat \<Rightarrow> nat" where
  "trailing_zeros_loop 0 x r = r"
| "trailing_zeros_loop (Suc n) x r = (if x AND 1 = 0 then trailing_zeros_loop n (drop_bit 1 x) (r + 1) else r)"

definition trailing_zeros32 :: "digit \<Rightarrow> nat" where
  "trailing_zeros32 x = trailing_zeros_loop 32 x 0"

definition trailing_zeros64 :: "double_digit \<Rightarrow> nat" where
  "trailing_zeros64 x = trailing_zeros_loop 64 x 0"

text \<open>The body of the loop of \<open>u_gcd\<close>: minimum and absolute difference without a branch, from the
  sign bit of the difference.\<close>

definition u_gcd_step :: "digit \<times> digit \<Rightarrow> digit \<times> digit" where
  "u_gcd_step = (\<lambda>(u, v).
     let v = drop_bit (trailing_zeros32 v) v;
         diff = u - v;
         mdiff = diff AND signed_drop_bit 31 diff
     in (v + mdiff, diff - 2 * mdiff))"

definition u_gcd :: "digit \<Rightarrow> digit \<Rightarrow> digit res" where
  "u_gcd u v =
     (if u = 0 then Inr v
      else if v = 0 then Inr u
      else
        (let shift = trailing_zeros32 (u OR v); u = drop_bit (trailing_zeros32 u) u
         in if u = 1 \<or> v = 1 then Inr (push_bit shift 1)
            else if u = v then Inr (push_bit shift u)
            else bind_res (while_res (\<lambda>(u, v). v \<noteq> 0) (\<lambda>s. Inr (u_gcd_step s)) (u_gcd_step (u, v)))
              (\<lambda>(u, v). Inr (push_bit shift u))))"

definition u64_gcd_step :: "double_digit \<times> double_digit \<Rightarrow> double_digit \<times> double_digit" where
  "u64_gcd_step = (\<lambda>(u, v).
     let v = drop_bit (trailing_zeros64 v) v;
         (u, v) = (if u > v then (v, u) else (u, v))
     in (u, v - u))"

definition u64_gcd :: "double_digit \<Rightarrow> double_digit \<Rightarrow> double_digit res" where
  "u64_gcd u v =
     (if u = 0 then Inr v
      else if v = 0 then Inr u
      else if u = 1 \<or> v = 1 then Inr 1
      else
        (let shift = trailing_zeros64 (u OR v); u = drop_bit (trailing_zeros64 u) u
         in bind_res (while_res (\<lambda>(u, v). v \<noteq> 0) (\<lambda>s. Inr (u64_gcd_step s)) (u64_gcd_step (u, v)))
              (\<lambda>(u, v). Inr (push_bit shift u))))"

subsection \<open>Lehmer's algorithm\<close>

text \<open>The \<open>int64_t\<close> variables of the inner loop. Its guard and its body compute the terms listed by
  \<open>lehmer_sums\<close> and \<open>lehmer_terms\<close>; one that is not an \<open>int64_t\<close> is undefined behaviour.\<close>

record lehmer =
  a_hat :: int
  b_hat :: int
  lA :: int
  lB :: int
  lC :: int
  lD :: int

definition i64_ok :: "int \<Rightarrow> bool" where
  "i64_ok x \<longleftrightarrow> - (2 ^ 63) \<le> x \<and> x < 2 ^ 63"

definition lehmer_sums :: "lehmer \<Rightarrow> int list" where
  "lehmer_sums s = [a_hat s + lA s, a_hat s + lB s, b_hat s + lC s, b_hat s + lD s]"

definition lehmer_terms :: "lehmer \<Rightarrow> int \<Rightarrow> int list" where
  "lehmer_terms s q = [q * lC s, lA s - q * lC s, q * lD s, lB s - q * lD s,
     q * b_hat s, a_hat s - q * b_hat s]"

definition lehmer_continue :: "lehmer \<Rightarrow> bool" where
  "lehmer_continue s \<longleftrightarrow> \<not> list_all i64_ok (lehmer_sums s) \<or>
     \<not> (b_hat s + lC s = 0 \<or> b_hat s + lD s = 0) \<and>
     (a_hat s + lA s) sdiv (b_hat s + lC s) = (a_hat s + lB s) sdiv (b_hat s + lD s)"

definition lehmer_step :: "lehmer \<Rightarrow> lehmer res" where
  "lehmer_step s =
     (let q = (a_hat s + lA s) sdiv (b_hat s + lC s)
      in if list_all i64_ok (lehmer_sums s @ q # lehmer_terms s q)
         then Inr \<lparr>a_hat = b_hat s, b_hat = a_hat s - q * b_hat s,
                lA = lC s, lB = lD s, lC = lA s - q * lC s, lD = lB s - q * lD s\<rparr>
         else Inl Undefined_behaviour)"

text \<open>One iteration of the outer loop on a large \<open>b1\<close>. A small \<open>a1\<close> has no cell: its digits
  are read through a null pointer.\<close>

definition lehmer_reduce :: "mpz \<times> mpz \<Rightarrow> (mpz \<times> mpz) res" where
  "lehmer_reduce = (\<lambda>(a1, b1).
     if is_small a1 then Inl Undefined_behaviour
     else
       (let a_sz = length (m_digits a1); b_sz = length (m_digits b1);
            s0 = \<lparr>a_hat = uint (m_digits a1 ! (a_sz - 1)),
                  b_hat = (if b_sz = a_sz then uint (m_digits b1 ! (b_sz - 1)) else 0),
                  lA = 1, lB = 0, lC = 0, lD = 1\<rparr>
        in bind_res (while_res lehmer_continue lehmer_step s0) (\<lambda>s.
             if lB s = 0 then bind_res (mpz_rem a1 b1) (\<lambda>t. Inr (b1, t))
             else
               (let t = mpz_addmul (mpz_mul a1 (mpz_set_i64 (lA s))) (mpz_set_i64 (lB s)) b1;
                    r = mpz_addmul (mpz_mul a1 (mpz_set_i64 (lC s))) (mpz_set_i64 (lD s)) b1
                in Inr (t, r)))))"

definition euclid_step :: "mpz \<times> mpz \<Rightarrow> (mpz \<times> mpz) res" where
  "euclid_step = (\<lambda>(a1, b1). bind_res (mpz_rem a1 b1) (\<lambda>tmp. Inr (b1, tmp)))"

definition lehmer_gcd :: "mpz \<Rightarrow> mpz \<Rightarrow> mpz res" where
  "lehmer_gcd a b =
     (let a1 = mpz_abs a; b1 = mpz_abs b;
          (a1, b1) = (if mpz_lt a1 b1 then (b1, a1) else (a1, b1))
      in bind_res (while_res (\<lambda>(a1, b1). \<not> is_small b1) lehmer_reduce (a1, b1)) (\<lambda>(a1, b1).
           if is_small a1
           then bind_res (u_gcd (of_int (m_val a1)) (of_int (m_val b1))) (\<lambda>r. Inr (mpz_set_unsigned r))
           else bind_res (while_res (\<lambda>(a1, b1). \<not> mpz_is_zero b1) euclid_step (a1, b1))
             (\<lambda>(a1, b1). Inr a1)))"

definition mpz_gcd :: "mpz \<Rightarrow> mpz \<Rightarrow> mpz res" where
  "mpz_gcd a b =
     (if is_small a \<and> is_small b \<and> m_val a \<noteq> int_min \<and> m_val b \<noteq> int_min
      then bind_res (u_gcd (of_int \<bar>m_val a\<bar>) (of_int \<bar>m_val b\<bar>)) (\<lambda>r. Inr (mpz_set_unsigned r))
      else if mpz_is_zero a then Inr (mpz_abs b)
      else if mpz_is_zero b then Inr (mpz_abs a)
      else lehmer_gcd a b)"

subsection \<open>Arrays, extended gcd, lcm\<close>

fun mpz_gcd_loop :: "mpz \<Rightarrow> mpz list \<Rightarrow> mpz res" where
  "mpz_gcd_loop g [] = Inr g"
| "mpz_gcd_loop g (a # as) = (if mpz_is_one g then Inr g else bind_res (mpz_gcd g a) (\<lambda>g. mpz_gcd_loop g as))"

fun mpz_gcd_array :: "mpz list \<Rightarrow> mpz res" where
  "mpz_gcd_array [] = Inr (mk_z 0)"
| "mpz_gcd_array [a] = Inr (mpz_abs a)"
| "mpz_gcd_array (a # b # as) = bind_res (mpz_gcd a b) (\<lambda>g. mpz_gcd_loop g as)"

record ext_gcd_state =
  eg_tmp1 :: mpz
  eg_tmp2 :: mpz
  eg_a :: mpz
  eg_b :: mpz
  eg_nexta :: mpz
  eg_nextb :: mpz

definition ext_gcd_step :: "ext_gcd_state \<Rightarrow> ext_gcd_state res" where
  "ext_gcd_step s =
     bind_res (machine_div (eg_tmp1 s) (eg_tmp2 s)) (\<lambda>quot.
     bind_res (mpz_rem (eg_tmp1 s) (eg_tmp2 s)) (\<lambda>rem.
       Inr \<lparr>eg_tmp1 = eg_tmp2 s, eg_tmp2 = rem,
            eg_a = eg_nexta s, eg_b = eg_nextb s,
            eg_nexta = mpz_sub (eg_a s) (mpz_mul quot (eg_nexta s)),
            eg_nextb = mpz_sub (eg_b s) (mpz_mul (eg_nextb s) quot)\<rparr>))"

definition ext_gcd_init :: "mpz \<Rightarrow> mpz \<Rightarrow> ext_gcd_state" where
  "ext_gcd_init r1 r2 =
     (let tmp1 = mpz_abs r1; tmp2 = mpz_abs r2
      in if mpz_lt tmp1 tmp2
         then \<lparr>eg_tmp1 = tmp2, eg_tmp2 = tmp1, eg_a = mk_z 0, eg_b = mk_z 1,
               eg_nexta = mk_z 1, eg_nextb = mk_z 0\<rparr>
         else \<lparr>eg_tmp1 = tmp1, eg_tmp2 = tmp2, eg_a = mk_z 1, eg_b = mk_z 0,
               eg_nexta = mk_z 0, eg_nextb = mk_z 1\<rparr>)"

text \<open>\<open>gcd(r1, r2, a, b, r)\<close>: returns \<open>(a, b, r)\<close>.\<close>

definition mpz_ext_gcd :: "mpz \<Rightarrow> mpz \<Rightarrow> (mpz \<times> mpz \<times> mpz) res" where
  "mpz_ext_gcd r1 r2 =
     bind_res (while_res (\<lambda>s. mpz_is_pos (eg_tmp2 s)) ext_gcd_step (ext_gcd_init r1 r2)) (\<lambda>s.
       Inr (if mpz_is_neg r1 then mpz_neg (eg_a s) else eg_a s,
            if mpz_is_neg r2 then mpz_neg (eg_b s) else eg_b s,
            eg_tmp1 s))"

definition mpz_lcm :: "mpz \<Rightarrow> mpz \<Rightarrow> mpz res" where
  "mpz_lcm a b =
     (if mpz_is_one b then Inr a
      else if mpz_is_one a \<or> mpz_eq a b then Inr b
      else bind_res (mpz_gcd a b) (\<lambda>r.
        if mpz_eq r a then Inr b
        else if mpz_eq r b then Inr a
        else bind_res (machine_div a r) (\<lambda>r. Inr (mpz_mul r b))))"

section \<open>Binary gcd\<close>

lemma trailing_zeros_loop_bits:
  assumes "\<exists>i < n. bit x i"
  obtains k where "trailing_zeros_loop n x r = r + k" "k < n" "bit x k" "\<And>i. i < k \<Longrightarrow> \<not> bit x i"
  using assms
proof (induction n arbitrary: x r thesis)
  case (Suc n)
  have odd: "x AND 1 = 0 \<longleftrightarrow> \<not> bit x 0" by (simp add: and_one_eq bit_0 even_iff_mod_2_eq_zero)
  show ?case
  proof (cases "bit x 0")
    case True
    then show ?thesis using odd by (intro Suc.prems(1) [of 0]) simp_all
  next
    case False
    obtain i where "i < Suc n" "bit x i" using Suc.prems(2) by blast
    with False obtain j where "i = Suc j" by (cases i) auto
    then have "j < n" "bit (drop_bit 1 x) j" using \<open>bit x i\<close> \<open>i < Suc n\<close> by (simp_all add: bit_drop_bit_eq)
    then obtain k where k: "trailing_zeros_loop n (drop_bit 1 x) (r + 1) = r + 1 + k" "k < n"
      "bit (drop_bit 1 x) k" "\<And>i. i < k \<Longrightarrow> \<not> bit (drop_bit 1 x) i"
      using Suc.IH [of "drop_bit 1 x" "r + 1"] by blast
    show ?thesis
    proof (rule Suc.prems(1) [of "Suc k"])
      show "\<not> bit x i" if "i < Suc k" for i
        using that False k(4) [of "i - 1"] by (cases i) (simp_all add: bit_drop_bit_eq)
    qed (use odd False k in \<open>simp_all add: bit_drop_bit_eq\<close>)
  qed
qed simp

text \<open>Position of the lowest set bit, as a property both widths share.\<close>

definition lowest_bit :: "'a :: len word \<Rightarrow> nat \<Rightarrow> bool" where
  "lowest_bit x k \<longleftrightarrow> bit x k \<and> (\<forall>i < k. \<not> bit x i)"

lemma word_bit_exists: "(x :: 'a :: len word) \<noteq> 0 \<Longrightarrow> \<exists>i < LENGTH('a). bit x i"
  using bit_word_eqI [of x 0] by auto

lemma trailing_zeros32_lowest: "x \<noteq> 0 \<Longrightarrow> lowest_bit x (trailing_zeros32 x)"
  using word_bit_exists [of x] trailing_zeros_loop_bits [of 32 x 0]
  by (auto simp: trailing_zeros32_def lowest_bit_def)

lemma trailing_zeros64_lowest: "x \<noteq> 0 \<Longrightarrow> lowest_bit x (trailing_zeros64 x)"
  using word_bit_exists [of x] trailing_zeros_loop_bits [of 64 x 0]
  by (auto simp: trailing_zeros64_def lowest_bit_def)

lemma lowest_bit_split:
  assumes "lowest_bit x k"
  shows "unat x = 2 ^ k * unat (drop_bit k x)" "odd (unat (drop_bit k x))"
proof -
  have "take_bit k (unat x) = 0"
    using assms by (auto simp: lowest_bit_def bit_eq_iff bit_take_bit_iff bit_unsigned_iff)
  then have "2 ^ k dvd unat x" by (simp add: take_bit_eq_0_iff)
  then show "unat x = 2 ^ k * unat (drop_bit k x)"
    unfolding unat_drop_bit_eq by (simp add: drop_bit_eq_div)
  show "odd (unat (drop_bit k x))"
    using assms by (simp add: lowest_bit_def unat_drop_bit_eq bit_unsigned_iff flip: bit_iff_odd_drop_bit)
qed

lemma lowest_bit_or:
  assumes "lowest_bit x i" "lowest_bit y j" "lowest_bit (x OR y) k"
  shows "k = min i j"
  using assms unfolding lowest_bit_def bit_or_iff
  by (metis linorder_neqE_nat min.absorb3 min.absorb4 min.idem)

lemma gcd_odd_pow2: "odd (u :: nat) \<Longrightarrow> gcd u (2 ^ j * v) = gcd u v"
  by (rule gcd_mult_right_left_cancel) simp

lemma gcd_pow2_mult:
  assumes "odd (u :: nat)" "odd v"
  shows "gcd (2 ^ i * u) (2 ^ j * v) = 2 ^ min i j * gcd u v"
proof (cases "i \<le> j")
  case True
  then have "gcd (2 ^ i * u) (2 ^ j * v) = gcd (2 ^ i * u) (2 ^ i * (2 ^ (j - i) * v))"
    by (simp add: mult.assoc [symmetric] power_add [symmetric])
  also have "\<dots> = 2 ^ i * gcd u (2 ^ (j - i) * v)" by (simp add: gcd_mult_distrib_nat)
  finally show ?thesis using True gcd_odd_pow2 [OF assms(1)] by (simp add: min_def)
next
  case False
  then have "gcd (2 ^ i * u) (2 ^ j * v) = gcd (2 ^ j * (2 ^ (i - j) * u)) (2 ^ j * v)"
    by (simp add: mult.assoc [symmetric] power_add [symmetric])
  also have "\<dots> = 2 ^ j * gcd (2 ^ (i - j) * u) v" by (simp add: gcd_mult_distrib_nat)
  finally show ?thesis using False gcd_odd_pow2 [OF assms(2), of "i - j" u] by (simp add: min_def gcd.commute)
qed

lemma gcd_diff_nat2: "(u :: nat) \<le> v \<Longrightarrow> gcd u (v - u) = gcd u v"
  by (metis gcd.commute gcd_diff1_nat)

text \<open>One step of either algorithm on an odd \<open>u\<close>: minimum and difference of \<open>u\<close> and the odd part of \<open>v\<close>.\<close>

lemma signed_drop_bit_31: "signed_drop_bit 31 (w :: digit) = (if bit w 31 then - 1 else 0)"
  by (rule bit_word_eqI) (auto simp: bit_signed_drop_bit_iff not_le less_Suc_eq_le dest: bit_imp_le_length)

lemma bit_31_iff: "bit (w :: digit) 31 \<longleftrightarrow> 2147483648 \<le> unat w"
proof -
  have "bit w 31 \<longleftrightarrow> odd (unat w div 2147483648)"
    using bit_iff_odd [of "unat w" 31] by (simp add: bit_unsigned_iff)
  moreover have "unat w div 2147483648 < 2"
    using unat_digit_lt [of w] by (intro less_mult_imp_div_less) simp
  then have "unat w div 2147483648 = 0 \<or> unat w div 2147483648 = 1" by linarith
  ultimately show ?thesis by (auto simp: div_eq_0_iff)
qed

lemma u_gcd_step_val:
  assumes "u_gcd_step (u, v) = (u', v')" "v \<noteq> 0" "unat u < 2 ^ 31" "unat v < 2 ^ 31"
  defines "w \<equiv> drop_bit (trailing_zeros32 v) v"
  shows "unat u' = min (unat u) (unat w)" "unat v' = max (unat u) (unat w) - min (unat u) (unat w)"
proof -
  have "unat v = 2 ^ trailing_zeros32 v * unat w"
    unfolding w_def by (rule lowest_bit_split(1) [OF trailing_zeros32_lowest [OF assms(2)]])
  then have "unat w \<le> unat v" by simp
  then have w: "unat w < 2 ^ 31" using assms(4) by simp
  have u': "u' = w + (u - w AND signed_drop_bit 31 (u - w))"
    and v': "v' = u - w - 2 * (u - w AND signed_drop_bit 31 (u - w))"
    using assms(1) by (simp_all add: u_gcd_step_def Let_def flip: w_def)
  have "unat u' = min (unat u) (unat w) \<and> unat v' = max (unat u) (unat w) - min (unat u) (unat w)"
  proof (cases "unat w \<le> unat u")
    case True
    then have diff: "unat (u - w) = unat u - unat w" by (simp add: unat_sub word_le_nat_alt)
    then have "\<not> bit (u - w) 31" using assms(3) by (simp add: bit_31_iff)
    then have "u' = w" "v' = u - w" by (simp_all add: u' v' signed_drop_bit_31)
    with True diff show ?thesis by simp
  next
    case False
    then have diff: "unat (w - u) = unat w - unat u" by (simp add: unat_sub word_le_nat_alt)
    have "unat (u - w) = unat u + digit_base - unat w"
      using False by (simp add: unat_sub_digit)
    then have "bit (u - w) 31" using w by (simp add: bit_31_iff)
    then have "u' = u" "v' = w - u" by (simp_all add: u' v' signed_drop_bit_31)
    with False diff show ?thesis by simp
  qed
  then show "unat u' = min (unat u) (unat w)" "unat v' = max (unat u) (unat w) - min (unat u) (unat w)"
    by blast+
qed

lemma u64_gcd_step_val:
  assumes "u64_gcd_step (u, v) = (u', v')"
  defines "w \<equiv> drop_bit (trailing_zeros64 v) v"
  shows "unat u' = min (unat u) (unat w)" "unat v' = max (unat u) (unat w) - min (unat u) (unat w)"
  using assms(1)
  by (auto simp: u64_gcd_step_def Let_def unat_sub word_le_nat_alt word_less_nat_alt min_def max_def
      simp flip: w_def split: if_splits)

text \<open>Both loops: \<open>u\<close> stays odd, the gcd stays the same, and the sum decreases.\<close>

lemma binary_gcd_step:
  fixes u v w u' v' :: nat
  assumes "odd u" "0 < v" "v = 2 ^ k * w" "odd w"
    and "u' = min u w" "v' = max u w - min u w"
  shows "odd u'" "gcd u' v' = gcd u v" "u' + v' < u + v" "u' \<le> u" "v' \<le> max u v"
proof -
  have w: "0 < w" "w \<le> v" using assms by (auto simp: odd_pos)
  show "odd u'" "u' \<le> u" "u' + v' < u + v" "v' \<le> max u v"
    using assms(1,4,5,6) w odd_pos [OF assms(1)] by (auto simp: min_def max_def)
  have "gcd u v = gcd u w" unfolding assms(3) using assms(1) by (rule gcd_odd_pow2)
  also have "\<dots> = gcd u' v'"
    using gcd_diff_nat2 [of u w] gcd_diff_nat2 [of w u] assms(5,6)
    by (cases "u \<le> w") (simp_all add: gcd.commute)
  finally show "gcd u' v' = gcd u v" by simp
qed

lemma u_gcd_loop:
  assumes "odd (unat u)" "v \<noteq> 0" "unat u < 2 ^ 31" "unat v < 2 ^ 31"
  shows "\<exists>t. while_res (\<lambda>(u, v). v \<noteq> 0) (\<lambda>s. Inr (u_gcd_step s)) (u_gcd_step (u, v)) = Inr t
    \<and> unat (fst t) = gcd (unat u) (unat v)"
proof -
  define I where "I = (\<lambda>(x :: digit, y :: digit).
    odd (unat x) \<and> unat x < 2 ^ 31 \<and> unat y < 2 ^ 31 \<and> gcd (unat x) (unat y) = gcd (unat u) (unat v))"
  have step: "I (u_gcd_step s) \<and> unat (fst (u_gcd_step s)) + unat (snd (u_gcd_step s)) < unat (fst s) + unat (snd s)"
    if "I s" "snd s \<noteq> 0" for s
  proof -
    obtain x y x' y' where s: "s = (x, y)" "u_gcd_step (x, y) = (x', y')" by fastforce
    have xy: "odd (unat x)" "unat x < 2 ^ 31" "unat y < 2 ^ 31" "y \<noteq> 0"
      using that s(1) by (auto simp: I_def)
    note low = lowest_bit_split [OF trailing_zeros32_lowest [OF xy(4)]]
    note bin = binary_gcd_step [OF xy(1) _ low u_gcd_step_val [OF s(2) xy(4,2,3)]]
    show ?thesis
      using bin that xy s unat_gt_0 [of y] by (auto simp: I_def)
  qed
  have init: "I (u, v)" using assms by (simp add: I_def)
  show ?thesis
  proof (rule while_res_total [where I = I and m = "\<lambda>s. unat (fst s) + unat (snd s)"])
    show "I (u_gcd_step (u, v))" using step [OF init] assms(2) by simp
  next
    show "unat (fst t) = gcd (unat u) (unat v)" if "I t" "\<not> (\<lambda>(u, v). v \<noteq> 0) t" for t
      using that by (auto simp: I_def)
  qed (use step in auto)
qed

lemma u64_gcd_loop:
  assumes "odd (unat u)" "v \<noteq> 0"
  shows "\<exists>t. while_res (\<lambda>(u, v). v \<noteq> 0) (\<lambda>s. Inr (u64_gcd_step s)) (u64_gcd_step (u, v)) = Inr t
    \<and> unat (fst t) = gcd (unat u) (unat v)"
proof -
  define I where "I = (\<lambda>(x :: double_digit, y :: double_digit).
    odd (unat x) \<and> gcd (unat x) (unat y) = gcd (unat u) (unat v))"
  have step: "I (u64_gcd_step s) \<and> unat (fst (u64_gcd_step s)) + unat (snd (u64_gcd_step s)) < unat (fst s) + unat (snd s)"
    if "I s" "snd s \<noteq> 0" for s
  proof -
    obtain x y x' y' where s: "s = (x, y)" "u64_gcd_step (x, y) = (x', y')" by fastforce
    have xy: "odd (unat x)" "y \<noteq> 0" using that s(1) by (auto simp: I_def)
    note low = lowest_bit_split [OF trailing_zeros64_lowest [OF xy(2)]]
    note bin = binary_gcd_step [OF xy(1) _ low u64_gcd_step_val [OF s(2)]]
    show ?thesis
      using bin that xy s unat_gt_0 [of y] by (auto simp: I_def)
  qed
  have init: "I (u, v)" using assms by (simp add: I_def)
  show ?thesis
  proof (rule while_res_total [where I = I and m = "\<lambda>s. unat (fst s) + unat (snd s)"])
    show "I (u64_gcd_step (u, v))" using step [OF init] assms(2) by simp
  next
    show "unat (fst t) = gcd (unat u) (unat v)" if "I t" "\<not> (\<lambda>(u, v). v \<noteq> 0) t" for t
      using that by (auto simp: I_def)
  qed (use step in auto)
qed

text \<open>The common power of two is the one of \<open>u | v\<close>.\<close>

lemma gcd_common_shift:
  assumes "lowest_bit u i" "lowest_bit v j" "lowest_bit (u OR v) k"
  shows "gcd (unat u) (unat v) = 2 ^ k * gcd (unat (drop_bit i u)) (unat v)"
proof -
  note lu = lowest_bit_split [OF assms(1)] and lv = lowest_bit_split [OF assms(2)]
  have "gcd (unat u) (unat v) = 2 ^ min i j * gcd (unat (drop_bit i u)) (unat (drop_bit j v))"
    using gcd_pow2_mult [OF lu(2) lv(2), of i j] lu(1) lv(1) by simp
  also have "gcd (unat (drop_bit i u)) (unat (drop_bit j v)) = gcd (unat (drop_bit i u)) (unat v)"
    using gcd_odd_pow2 [OF lu(2)] lv(1) by metis
  finally show ?thesis using lowest_bit_or [OF assms] by simp
qed

lemma unat_push_bit_fits:
  fixes u :: "'a :: len word"
  assumes "2 ^ k * unat u < 2 ^ LENGTH('a)"
  shows "unat (push_bit k u) = 2 ^ k * unat u"
  using assms unfolding unsigned_push_bit_eq by (simp add: push_bit_eq_mult take_bit_eq_mod mult.commute)

lemma u_gcd_val:
  assumes "unat u < 2 ^ 31" "unat v < 2 ^ 31"
  shows "\<exists>r. u_gcd u v = Inr r \<and> unat r = gcd (unat u) (unat v)"
proof (cases "u = 0 \<or> v = 0")
  case False
  then have nz: "u \<noteq> 0" "v \<noteq> 0" "u OR v \<noteq> 0" by (auto simp: or_eq_0_iff)
  define i where "i = trailing_zeros32 u"
  define k where "k = trailing_zeros32 (u OR v)"
  define w where "w = drop_bit i u"
  note lu = lowest_bit_split [OF trailing_zeros32_lowest [OF nz(1)], folded i_def, folded w_def]
  have g: "gcd (unat u) (unat v) = 2 ^ k * gcd (unat w) (unat v)"
    unfolding k_def w_def i_def
    by (rule gcd_common_shift) (use nz trailing_zeros32_lowest in blast)+
  have small: "unat (push_bit k x) = gcd (unat u) (unat v)" if "unat x = gcd (unat w) (unat v)" for x :: digit
  proof -
    have "gcd (unat u) (unat v) \<le> unat u" using nz(1) by (simp add: gcd_le1_nat unat_eq_0)
    then show ?thesis using that g assms(1) by (subst unat_push_bit_fits) simp_all
  qed
  have "unat w \<le> unat u" using lu(1) by simp
  then have w31: "unat w < 2 ^ 31" using assms(1) by simp
  obtain u' v' where loop: "while_res (\<lambda>(u, v). v \<noteq> 0) (\<lambda>s. Inr (u_gcd_step s)) (u_gcd_step (w, v)) = Inr (u', v')"
    "unat u' = gcd (unat w) (unat v)"
    using u_gcd_loop [OF lu(2) nz(2) w31 assms(2)] by auto
  have ug: "u_gcd u v = (if w = 1 \<or> v = 1 then Inr (push_bit k 1) else if w = v then Inr (push_bit k w)
      else Inr (push_bit k u'))"
    using nz loop(1) unfolding u_gcd_def k_def w_def i_def Let_def by simp
  show ?thesis
    using small [of 1] small [of w] small [of u'] loop(2) unfolding ug by auto
qed (auto simp: u_gcd_def)

lemma u64_gcd_val: "\<exists>r. u64_gcd u v = Inr r \<and> unat r = gcd (unat u) (unat v)"
proof (cases "u = 0 \<or> v = 0 \<or> u = 1 \<or> v = 1")
  case False
  then have nz: "u \<noteq> 0" "v \<noteq> 0" "u OR v \<noteq> 0" by (auto simp: or_eq_0_iff)
  define i where "i = trailing_zeros64 u"
  define k where "k = trailing_zeros64 (u OR v)"
  define w where "w = drop_bit i u"
  note lu = lowest_bit_split [OF trailing_zeros64_lowest [OF nz(1)], folded i_def, folded w_def]
  have g: "gcd (unat u) (unat v) = 2 ^ k * gcd (unat w) (unat v)"
    unfolding k_def w_def i_def
    by (rule gcd_common_shift) (use nz trailing_zeros64_lowest in blast)+
  have small: "unat (push_bit k x) = gcd (unat u) (unat v)" if "unat x = gcd (unat w) (unat v)" for x :: double_digit
  proof -
    have "gcd (unat u) (unat v) \<le> unat u" using nz(1) by (simp add: gcd_le1_nat unat_eq_0)
    then show ?thesis using that g unat_double_lt [of u] by (subst unat_push_bit_fits) simp_all
  qed
  obtain u' v' where loop: "while_res (\<lambda>(u, v). v \<noteq> 0) (\<lambda>s. Inr (u64_gcd_step s)) (u64_gcd_step (w, v)) = Inr (u', v')"
    "unat u' = gcd (unat w) (unat v)"
    using u64_gcd_loop [OF lu(2) nz(2)] by auto
  have ug: "u64_gcd u v = Inr (push_bit k u')"
    using False loop(1) unfolding u64_gcd_def k_def w_def i_def Let_def by simp
  show ?thesis using small [OF loop(2)] unfolding ug by simp
qed (auto simp: u64_gcd_def)

section \<open>Lehmer's algorithm\<close>

text \<open>The quotient of two numbers known up to an interval, when both ends agree on it.\<close>

lemma quotient_squeeze:
  fixes u v W :: int
  assumes "0 < W" "0 < rl" "rl * W \<le> v" "v \<le> rh * W" "pl * W \<le> u" "u \<le> ph * W"
    and "pl div rh = q" "ph div rl = q" "0 \<le> q"
  shows "u div v = q"
proof -
  have "0 < rl * W" using assms(1,2) by simp
  then have v: "0 < v" using assms(3) by linarith
  then have "0 < rh * W" using assms(4) by linarith
  then have rh: "0 < rh" using assms(1) by (simp add: zero_less_mult_iff)
  have "q * rh \<le> pl"
    using mult_div_mod_eq [of rh pl] pos_mod_sign [OF rh, of pl] unfolding assms(7) by (simp add: mult.commute)
  then have "q * rh * W \<le> pl * W" using assms(1) by (intro mult_right_mono) simp_all
  moreover have "q * v \<le> q * (rh * W)" using assms(4,9) by (rule mult_left_mono)
  ultimately have lo: "q * v \<le> u" using assms(5) by (simp add: mult.assoc)
  have "ph < (q + 1) * rl"
    using mult_div_mod_eq [of rl ph] pos_mod_bound [OF assms(2), of ph] unfolding assms(8)
    by (simp add: algebra_simps)
  then have "ph * W < (q + 1) * rl * W" using assms(1) by (rule mult_strict_right_mono)
  moreover have "(q + 1) * (rl * W) \<le> (q + 1) * v" using assms(3,9) by (intro mult_left_mono) simp_all
  ultimately have hi: "u < (q + 1) * v" using assms(6) by (simp add: mult.assoc)
  show ?thesis
    by (rule int_div_pos_eq [of u v q "u - q * v"]) (use lo hi in \<open>simp_all add: algebra_simps\<close>)
qed

lemma cofactor_bounds:
  fixes A B :: int
  assumes "0 \<le> A" "B \<le> 0" "0 \<le> \<alpha>" "\<alpha> \<le> W" "0 \<le> \<beta>" "\<beta> \<le> W"
  shows "B * W \<le> A * \<alpha> + B * \<beta>" "A * \<alpha> + B * \<beta> \<le> A * W"
proof -
  have "0 \<le> A * \<alpha>" "A * \<alpha> \<le> A * W" using assms by (simp_all add: mult_left_mono)
  moreover have "B * W \<le> B * \<beta>" "B * \<beta> \<le> 0" using assms by (simp_all add: mult_left_mono_neg mult_nonpos_nonneg)
  ultimately show "B * W \<le> A * \<alpha> + B * \<beta>" "A * \<alpha> + B * \<beta> \<le> A * W" by linarith+
qed

text \<open>The numbers \<open>a \<ge> b\<close> and their leading digits \<open>h\<close> and \<open>k\<close> at a common weight \<open>W\<close>.\<close>

definition lehmer_top :: "int \<Rightarrow> int \<Rightarrow> int \<Rightarrow> int \<Rightarrow> int \<Rightarrow> bool" where
  "lehmer_top a b W h k \<longleftrightarrow> 0 < W \<and> 0 < b \<and> b \<le> a \<and> 0 \<le> h \<and> h < 2 ^ 32 \<and> 0 \<le> k \<and> k < 2 ^ 32
     \<and> h * W \<le> a \<and> a \<le> (h + 1) * W \<and> k * W \<le> b \<and> b \<le> (k + 1) * W"

definition opposite_signs :: "int \<Rightarrow> int \<Rightarrow> int \<Rightarrow> int \<Rightarrow> bool" where
  "opposite_signs A B C D \<longleftrightarrow> 0 < A \<and> B \<le> 0 \<and> C \<le> 0 \<and> 0 < D \<or> A \<le> 0 \<and> 0 < B \<and> 0 < C \<and> D \<le> 0"

text \<open>The inner loop keeps: the cofactors alternate in sign and give the current pair \<open>(u, v)\<close> from
  \<open>(a, b)\<close> and the current leading parts from \<open>(h, k)\<close>; the four sums are in the range the
  comments of the source state; the matrix of the cofactors is unimodular, and \<open>(u, v)\<close> is reached from
  \<open>(a, b)\<close> by division steps.\<close>

definition lehmer_inv :: "int \<Rightarrow> int \<Rightarrow> int \<Rightarrow> int \<Rightarrow> lehmer \<Rightarrow> bool" where
  "lehmer_inv a b h k s \<longleftrightarrow>
     (let A = lA s; B = lB s; C = lC s; D = lD s; u = A * a + B * b; v = C * a + D * b in
       a_hat s = A * h + B * k \<and> b_hat s = C * h + D * k \<and> opposite_signs A B C D \<and> \<bar>A * D - B * C\<bar> = 1
       \<and> (\<forall>x \<in> set (lehmer_sums s). 0 \<le> x \<and> x \<le> 2 ^ 32)
       \<and> 0 \<le> v \<and> v \<le> u \<and> gcd u v = gcd a b \<and> v \<le> b \<and> (B = 0 \<or> v < b \<and> v < u))"

lemma opposite_signs_step:
  assumes "opposite_signs A B C D" "0 \<le> q"
  shows "opposite_signs C D (A - q * C) (B - q * D)"
proof -
  have "C \<le> 0 \<Longrightarrow> q * C \<le> 0" "0 < C \<Longrightarrow> 0 \<le> q * C" "D \<le> 0 \<Longrightarrow> q * D \<le> 0" "0 < D \<Longrightarrow> 0 \<le> q * D"
    using assms(2) by (simp_all add: mult_nonneg_nonpos)
  with assms(1) show ?thesis unfolding opposite_signs_def by linarith
qed

lemma lehmer_quotient:
  assumes tp: "lehmer_top a b W h k" and s: "opposite_signs A B C D"
    and hat: "x = A * h + B * k" "y = C * h + D * k"
    and r: "0 < y + C" "0 < y + D" and q: "(x + A) div (y + C) = q" "(x + B) div (y + D) = q" "0 \<le> q"
  shows "(A * a + B * b) div (C * a + D * b) = q" "0 < C * a + D * b"
proof -
  define \<alpha> where "\<alpha> = a - h * W"
  define \<beta> where "\<beta> = b - k * W"
  have W: "0 < W" and ab: "0 \<le> \<alpha>" "\<alpha> \<le> W" "0 \<le> \<beta>" "\<beta> \<le> W"
    using tp by (auto simp: lehmer_top_def \<alpha>_def \<beta>_def algebra_simps)
  have u: "A * a + B * b = x * W + (A * \<alpha> + B * \<beta>)" and v: "C * a + D * b = y * W + (C * \<alpha> + D * \<beta>)"
    by (simp_all add: hat \<alpha>_def \<beta>_def algebra_simps)
  have "(A * a + B * b) div (C * a + D * b) = q \<and> 0 < C * a + D * b"
    using s unfolding opposite_signs_def
  proof
    assume sg: "0 < A \<and> B \<le> 0 \<and> C \<le> 0 \<and> 0 < D"
    note bu = cofactor_bounds [of A B \<alpha> W \<beta>, OF _ _ ab] and bv = cofactor_bounds [of D C \<beta> W \<alpha>, OF _ _ ab(3,4,1,2)]
    have "(y + C) * W \<le> C * a + D * b" "C * a + D * b \<le> (y + D) * W"
      "(x + B) * W \<le> A * a + B * b" "A * a + B * b \<le> (x + A) * W"
      using bu bv sg unfolding u v by (simp_all add: algebra_simps)
    moreover have "0 < (y + C) * W" using r(1) W by simp
    ultimately show ?thesis
      using quotient_squeeze [OF W r(1) _ _ _ _ q(2,1,3), of "C * a + D * b" "A * a + B * b"] by linarith
  next
    assume sg: "A \<le> 0 \<and> 0 < B \<and> 0 < C \<and> D \<le> 0"
    note bu = cofactor_bounds [of B A \<beta> W \<alpha>, OF _ _ ab(3,4,1,2)] and bv = cofactor_bounds [of C D \<alpha> W \<beta>, OF _ _ ab]
    have "(y + D) * W \<le> C * a + D * b" "C * a + D * b \<le> (y + C) * W"
      "(x + A) * W \<le> A * a + B * b" "A * a + B * b \<le> (x + B) * W"
      using bu bv sg unfolding u v by (simp_all add: algebra_simps)
    moreover have "0 < (y + D) * W" using r(2) W by simp
    ultimately show ?thesis
      using quotient_squeeze [OF W r(2) _ _ _ _ q(1,2,3), of "C * a + D * b" "A * a + B * b"] by linarith
  qed
  then show "(A * a + B * b) div (C * a + D * b) = q" "0 < C * a + D * b" by blast+
qed

lemma lehmer_range:
  assumes "lehmer_inv a b h k s"
  shows "\<bar>lA s\<bar> \<le> 2 ^ 32" "\<bar>lB s\<bar> \<le> 2 ^ 32" "\<bar>lC s\<bar> \<le> 2 ^ 32" "\<bar>lD s\<bar> \<le> 2 ^ 32"
    "\<bar>a_hat s\<bar> \<le> 2 ^ 32" "\<bar>b_hat s\<bar> \<le> 2 ^ 32"
  using assms by (auto simp: lehmer_inv_def Let_def lehmer_sums_def opposite_signs_def)

lemma lehmer_step_ok:
  assumes tp: "lehmer_top a b W h k" and inv: "lehmer_inv a b h k s" and cont: "lehmer_continue s"
  shows "\<exists>s'. lehmer_step s = Inr s' \<and> lehmer_inv a b h k s' \<and> nat (b_hat s' + lC s') < nat (b_hat s + lC s)"
proof -
  obtain x y A B C D where s: "s = \<lparr>a_hat = x, b_hat = y, lA = A, lB = B, lC = C, lD = D\<rparr>" by (cases s)
  have sums: "0 \<le> x + A" "x + A \<le> 2 ^ 32" "0 \<le> x + B" "x + B \<le> 2 ^ 32"
    "0 \<le> y + C" "y + C \<le> 2 ^ 32" "0 \<le> y + D" "y + D \<le> 2 ^ 32"
    and sg: "opposite_signs A B C D" and hat: "x = A * h + B * k" "y = C * h + D * k"
    and det: "\<bar>A * D - B * C\<bar> = 1"
    and uv: "0 \<le> C * a + D * b" "C * a + D * b \<le> A * a + B * b"
      "gcd (A * a + B * b) (C * a + D * b) = gcd a b" "C * a + D * b \<le> b"
    using inv by (simp_all add: s lehmer_inv_def Let_def lehmer_sums_def)
  have ok: "list_all i64_ok (lehmer_sums s)" using sums by (simp add: s lehmer_sums_def i64_ok_def)
  define q where "q = (x + A) sdiv (y + C)"
  have r: "0 < y + C" "0 < y + D" and q': "(x + B) sdiv (y + D) = q"
    using cont ok sums by (auto simp: lehmer_continue_def s q_def)
  have q: "(x + A) div (y + C) = q" "(x + B) div (y + D) = q"
    using q' sums by (simp_all add: q_def sdiv_nonneg)
  have q0: "0 \<le> q" using q(1) sums(1) pos_imp_zdiv_nonneg_iff [OF r(1), of "x + A"] by simp
  note quot = lehmer_quotient [OF tp sg hat r q q0]
  define s' where "s' = \<lparr>a_hat = y, b_hat = x - q * y, lA = C, lB = D, lC = A - q * C, lD = B - q * D\<rparr>"
  have m1: "x - q * y + (A - q * C) = (x + A) mod (y + C)"
    using mult_div_mod_eq [of "y + C" "x + A"] unfolding q(1) by (simp add: algebra_simps)
  have m2: "x - q * y + (B - q * D) = (x + B) mod (y + D)"
    using mult_div_mod_eq [of "y + D" "x + B"] unfolding q(2) by (simp add: algebra_simps)
  have v': "(A - q * C) * a + (B - q * D) * b = (A * a + B * b) mod (C * a + D * b)"
    using mult_div_mod_eq [of "C * a + D * b" "A * a + B * b"] unfolding quot(1) by (simp add: algebra_simps)
  have sums': "0 \<le> (x + A) mod (y + C)" "(x + A) mod (y + C) < y + C"
    "0 \<le> (x + B) mod (y + D)" "(x + B) mod (y + D) < y + D"
    using r by simp_all
  have v'b: "0 \<le> (A * a + B * b) mod (C * a + D * b)" "(A * a + B * b) mod (C * a + D * b) < C * a + D * b"
    using quot(2) by simp_all
  have sg': "opposite_signs C D (A - q * C) (B - q * D)"
    using sg q0 by (rule opposite_signs_step)
  have "x - q * y = (A - q * C) * h + (B - q * D) * k" by (simp add: hat algebra_simps)
  moreover have "0 \<le> x - q * y + (A - q * C)" "x - q * y + (A - q * C) \<le> 2 ^ 32"
    "0 \<le> x - q * y + (B - q * D)" "x - q * y + (B - q * D) \<le> 2 ^ 32"
    using sums' sums unfolding m1 m2 by linarith+
  moreover have "gcd (C * a + D * b) ((A * a + B * b) mod (C * a + D * b)) = gcd a b"
    using uv(3) by (simp add: gcd_red_int [symmetric] gcd.commute)
  moreover have "\<bar>C * (B - q * D) - D * (A - q * C)\<bar> = 1" using det by (simp add: algebra_simps abs_minus_commute)
  ultimately have inv': "lehmer_inv a b h k s'"
    using sums sg' hat uv v'b by (simp add: s'_def lehmer_inv_def Let_def lehmer_sums_def v')
  have "q \<le> 2 ^ 32"
    using sdiv_abs_le [of "x + A" "y + C"] sums(1,2) by (simp add: q_def)
  moreover note rg = lehmer_range [OF inv] lehmer_range [OF inv']
  ultimately have "list_all i64_ok (q # lehmer_terms s q)"
    using q0 by (simp add: s s'_def lehmer_terms_def i64_ok_def abs_le_iff)
  then have step: "lehmer_step s = Inr s'"
    using ok by (simp add: lehmer_step_def s s'_def q_def [symmetric] Let_def)
  show ?thesis
    using step inv' sums' r m1 by (simp add: s'_def s)
qed

lemma lehmer_loop:
  assumes "lehmer_top a b W h k"
  shows "\<exists>s. while_res lehmer_continue lehmer_step \<lparr>a_hat = h, b_hat = k, lA = 1, lB = 0, lC = 0, lD = 1\<rparr> = Inr s
    \<and> lehmer_inv a b h k s"
proof (rule while_res_total [where I = "lehmer_inv a b h k" and m = "\<lambda>s. nat (b_hat s + lC s)"])
  show "lehmer_inv a b h k \<lparr>a_hat = h, b_hat = k, lA = 1, lB = 0, lC = 0, lD = 1\<rparr>"
    using assms by (simp add: lehmer_inv_def lehmer_top_def Let_def lehmer_sums_def opposite_signs_def)
qed (use lehmer_step_ok [OF assms] in blast)+

text \<open>The leading digits that the outer loop reads, zero for a shorter \<open>b1\<close>.\<close>

lemma lehmer_top_digits:
  assumes ok: "mpz_ok a" "mpz_ok b" and large: "\<not> is_small a" "\<not> is_small b"
    and le: "0 \<le> mpz_val b" "mpz_val b \<le> mpz_val a"
  defines "n \<equiv> length (m_digits a)" and "m \<equiv> length (m_digits b)"
  shows "lehmer_top (mpz_val a) (mpz_val b) (int (digit_base ^ (n - 1))) (uint (m_digits a ! (n - 1)))
    (if m = n then uint (m_digits b ! (m - 1)) else 0)"
proof -
  have a0: "0 \<le> mpz_val a" using le by simp
  note a = mpz_large_nonneg [OF ok(1) large(1) a0] and b = mpz_large_nonneg [OF ok(2) large(2) le(1)]
  let ?W = "digit_base ^ (n - 1)" and ?h = "unat (last (m_digits a))" and ?k = "unat (last (m_digits b))"
  note da = dval_last_bounds [OF a(3), folded n_def] and db = dval_last_bounds [OF b(3), folded m_def]
  have n: "m_digits a ! (n - 1) = last (m_digits a)" "m_digits b ! (m - 1) = last (m_digits b)"
    using a(3) b(3) by (simp_all add: n_def m_def last_conv_nth)
  have kpos: "0 < ?k" using b(4) by (simp add: unat_gt_0)
  have le': "dval (m_digits b) \<le> dval (m_digits a)" using le(2) a(2) b(2) by simp
  have mn: "m \<le> n"
  proof (rule ccontr)
    assume "\<not> m \<le> n"
    then have "digit_base ^ n \<le> digit_base ^ (m - 1)" by (intro power_increasing) simp_all
    also have "\<dots> \<le> ?k * digit_base ^ (m - 1)" using kpos by simp
    finally show False using db(1) le' dval_less [of "m_digits a"] by (simp add: n_def)
  qed
  have short: "dval (m_digits b) < ?W" if "m \<noteq> n"
  proof -
    have "digit_base ^ m \<le> ?W" using that mn by (intro power_increasing) simp_all
    moreover have "dval (m_digits b) < digit_base ^ m" unfolding m_def by (rule dval_less)
    ultimately show ?thesis by (rule less_le_trans [rotated])
  qed
  have bpos: "0 < dval (m_digits b)" using dval_pos [OF b(3,4)] .
  have fit: "?h * ?W \<le> dval (m_digits a)" "dval (m_digits a) \<le> (?h + 1) * ?W"
    "(if m = n then ?k else 0) * ?W \<le> dval (m_digits b)"
    "dval (m_digits b) \<le> ((if m = n then ?k else 0) + 1) * ?W"
    using da db short by (auto simp: less_imp_le)
  have u: "uint (last (m_digits a)) = int ?h" "uint (last (m_digits b)) = int ?k" by (simp_all only: uint_nat)
  have lt: "int ?h < 2 ^ 32" "int ?k < 2 ^ 32"
    using of_nat_less_iff [where 'a = int, THEN iffD2, OF unat_digit_lt [of "last (m_digits a)"]]
      of_nat_less_iff [where 'a = int, THEN iffD2, OF unat_digit_lt [of "last (m_digits b)"]] by simp_all
  show ?thesis
    unfolding n a(2) b(2) u lehmer_top_def using lt bpos le' fit [unfolded of_nat_le_iff [where 'a = int, symmetric]]
    by (auto simp: distrib_right split: if_splits)
qed

lemma lehmer_reduce_val:
  assumes ok: "mpz_ok a" "mpz_ok b" and large: "\<not> is_small a" "\<not> is_small b"
    and le: "0 \<le> mpz_val b" "mpz_val b \<le> mpz_val a"
  shows "\<exists>t r. lehmer_reduce (a, b) = Inr (t, r) \<and> mpz_ok t \<and> mpz_ok r \<and> 0 \<le> mpz_val r \<and> mpz_val r < mpz_val t
    \<and> gcd (mpz_val t) (mpz_val r) = gcd (mpz_val a) (mpz_val b) \<and> mpz_val r < mpz_val b"
proof -
  note tp = lehmer_top_digits [OF assms]
  obtain s where s: "while_res lehmer_continue lehmer_step
      \<lparr>a_hat = uint (m_digits a ! (length (m_digits a) - 1)),
       b_hat = (if length (m_digits b) = length (m_digits a) then uint (m_digits b ! (length (m_digits b) - 1)) else 0),
       lA = 1, lB = 0, lC = 0, lD = 1\<rparr> = Inr s"
    and inv: "lehmer_inv (mpz_val a) (mpz_val b) (uint (m_digits a ! (length (m_digits a) - 1)))
      (if length (m_digits b) = length (m_digits a) then uint (m_digits b ! (length (m_digits b) - 1)) else 0) s"
    using lehmer_loop [OF tp] by blast
  have b0: "0 < mpz_val b" using tp by (simp add: lehmer_top_def)
  show ?thesis
  proof (cases "lB s = 0")
    case True
    obtain r where r: "mpz_rem a b = Inr r" "mpz_ok r" "mpz_val r = mpz_val a mod mpz_val b"
      using mpz_rem_val [OF ok] b0 le by (auto simp: smod_mod_positive)
    have "lehmer_reduce (a, b) = Inr (b, r)"
      using large True s r(1) by (simp add: lehmer_reduce_def Let_def)
    then show ?thesis
      using r ok b0 by (auto simp: gcd_red_int [symmetric] gcd.commute less_imp_le)
  next
    case False
    have i64: "mpz_val (mpz_set_i64 x) = x" "mpz_ok (mpz_set_i64 x)" if "\<bar>x\<bar> \<le> 2 ^ 32" for x
      using that mpz_set_i64_val [of x] by (simp_all add: abs_le_iff)
    note c = i64 [OF lehmer_range(1) [OF inv]] i64 [OF lehmer_range(2) [OF inv]]
      i64 [OF lehmer_range(3) [OF inv]] i64 [OF lehmer_range(4) [OF inv]]
    let ?t = "mpz_addmul (mpz_mul a (mpz_set_i64 (lA s))) (mpz_set_i64 (lB s)) b"
    let ?r = "mpz_addmul (mpz_mul a (mpz_set_i64 (lC s))) (mpz_set_i64 (lD s)) b"
    have "lehmer_reduce (a, b) = Inr (?t, ?r)"
      using large False s by (simp add: lehmer_reduce_def Let_def)
    moreover have "mpz_val ?t = lA s * mpz_val a + lB s * mpz_val b" "mpz_val ?r = lC s * mpz_val a + lD s * mpz_val b"
      using ok c by (simp_all add: mult.commute)
    ultimately show ?thesis
      using inv False ok c by (simp add: lehmer_inv_def Let_def mult.commute)
  qed
qed

text \<open>The final loop, plain division steps on a small \<open>b1\<close>.\<close>

lemma euclid_loop:
  assumes "mpz_ok a" "mpz_ok b" "0 \<le> mpz_val b" "mpz_val b \<le> mpz_val a"
  shows "\<exists>t. while_res (\<lambda>(a1, b1). \<not> mpz_is_zero b1) euclid_step (a, b) = Inr t
    \<and> mpz_ok (fst t) \<and> mpz_val (fst t) = gcd (mpz_val a) (mpz_val b)"
proof (rule while_res_total [where m = "\<lambda>t. nat (mpz_val (snd t))" and I = "\<lambda>t. mpz_ok (fst t) \<and> mpz_ok (snd t)
    \<and> 0 \<le> mpz_val (snd t) \<and> 0 \<le> mpz_val (fst t) \<and> gcd (mpz_val (fst t)) (mpz_val (snd t)) = gcd (mpz_val a) (mpz_val b)"])
  fix t
  assume I: "mpz_ok (fst t) \<and> mpz_ok (snd t) \<and> 0 \<le> mpz_val (snd t) \<and> 0 \<le> mpz_val (fst t)
      \<and> gcd (mpz_val (fst t)) (mpz_val (snd t)) = gcd (mpz_val a) (mpz_val b)"
    and "(\<lambda>(a1, b1). \<not> mpz_is_zero b1) t"
  then have nz: "mpz_val (snd t) \<noteq> 0" by (simp add: case_prod_beta)
  obtain r where "mpz_rem (fst t) (snd t) = Inr r" "mpz_ok r" "mpz_val r = mpz_val (fst t) mod mpz_val (snd t)"
    using mpz_rem_val [of "fst t" "snd t"] I nz by (auto simp: smod_mod_positive)
  then show "\<exists>t'. euclid_step t = Inr t' \<and> (mpz_ok (fst t') \<and> mpz_ok (snd t') \<and> 0 \<le> mpz_val (snd t') \<and> 0 \<le> mpz_val (fst t')
      \<and> gcd (mpz_val (fst t')) (mpz_val (snd t')) = gcd (mpz_val a) (mpz_val b))
      \<and> nat (mpz_val (snd t')) < nat (mpz_val (snd t))"
    using I nz by (simp add: euclid_step_def case_prod_beta gcd_red_int [symmetric] gcd.commute)
qed (use assms in \<open>auto simp: case_prod_beta\<close>)

lemma u_gcd_int:
  assumes "0 \<le> x" "x \<le> int_max" "0 \<le> y" "y \<le> int_max"
  shows "\<exists>r. u_gcd (of_int x) (of_int y) = Inr r \<and> uint r = gcd x y"
proof -
  have u: "uint (of_int z :: digit) = z" if "0 \<le> z" "z \<le> int_max" for z
    using uint_of_int_32 [of z] that int_limits by simp
  then have n: "unat (of_int z :: digit) = nat z" if "0 \<le> z" "z \<le> int_max" for z
    using that by (simp only: unat_eq_nat_uint)
  obtain r where "u_gcd (of_int x) (of_int y) = Inr r" "unat r = gcd (nat x) (nat y)"
    using u_gcd_val [of "of_int x" "of_int y"] n [OF assms(1,2)] n [OF assms(3,4)] assms
    by (auto simp: int_limits nat_less_iff)
  moreover from this(2) have "uint r = gcd x y" using assms by (simp only: uint_nat) (simp add: gcd_int_def)
  ultimately show ?thesis by blast
qed

text \<open>\<open>gcd\<close> reads the cell of \<open>a1\<close> when \<open>b1\<close> is large: they may be equal to \<open>INT_MAX\<close> with only
  \<open>b1\<close> stored as a large number, and then there is none.\<close>

definition gcd_null_cell :: "mpz \<Rightarrow> mpz \<Rightarrow> bool" where
  "gcd_null_cell a b \<longleftrightarrow> is_small a \<and> \<not> is_small b \<and> \<bar>mpz_val a\<bar> = int_max \<and> \<bar>mpz_val b\<bar> = int_max"

lemma lehmer_outer_loop:
  assumes "mpz_ok a" "mpz_ok b" "0 \<le> mpz_val b" "mpz_val b \<le> mpz_val a" "\<not> gcd_null_cell a b"
  shows "\<exists>t. while_res (\<lambda>(a1, b1). \<not> is_small b1) lehmer_reduce (a, b) = Inr t
    \<and> mpz_ok (fst t) \<and> mpz_ok (snd t) \<and> is_small (snd t) \<and> 0 \<le> mpz_val (snd t) \<and> mpz_val (snd t) \<le> mpz_val (fst t)
    \<and> gcd (mpz_val (fst t)) (mpz_val (snd t)) = gcd (mpz_val a) (mpz_val b)"
proof (rule while_res_total [where m = "\<lambda>t. nat (mpz_val (snd t))" and I = "\<lambda>t. mpz_ok (fst t) \<and> mpz_ok (snd t)
    \<and> 0 \<le> mpz_val (snd t) \<and> mpz_val (snd t) \<le> mpz_val (fst t) \<and> \<not> gcd_null_cell (fst t) (snd t)
    \<and> gcd (mpz_val (fst t)) (mpz_val (snd t)) = gcd (mpz_val a) (mpz_val b)"])
  fix t
  assume I: "mpz_ok (fst t) \<and> mpz_ok (snd t) \<and> 0 \<le> mpz_val (snd t) \<and> mpz_val (snd t) \<le> mpz_val (fst t)
      \<and> \<not> gcd_null_cell (fst t) (snd t) \<and> gcd (mpz_val (fst t)) (mpz_val (snd t)) = gcd (mpz_val a) (mpz_val b)"
    and "(\<lambda>(a1, b1). \<not> is_small b1) t"
  then have b: "\<not> is_small (snd t)" by (simp add: case_prod_beta)
  then have max: "int_max \<le> mpz_val (snd t)" using I mpz_large_val [of "snd t"] by simp
  have a: "\<not> is_small (fst t)"
  proof
    assume sm: "is_small (fst t)"
    then have "mpz_val (fst t) \<le> int_max" using I mpz_ok_small [of "fst t"] by (simp add: mpz_val_small)
    then have "mpz_val (fst t) = int_max" "mpz_val (snd t) = int_max" using max I by linarith+
    then show False using I sm b by (simp add: gcd_null_cell_def int_limits)
  qed
  obtain x r where "lehmer_reduce t = Inr (x, r)" "mpz_ok x" "mpz_ok r" "0 \<le> mpz_val r" "mpz_val r < mpz_val x"
    "gcd (mpz_val x) (mpz_val r) = gcd (mpz_val (fst t)) (mpz_val (snd t))" "mpz_val r < mpz_val (snd t)"
    using lehmer_reduce_val [of "fst t" "snd t"] I a b by auto
  with I show "\<exists>t'. lehmer_reduce t = Inr t' \<and> (mpz_ok (fst t') \<and> mpz_ok (snd t') \<and> 0 \<le> mpz_val (snd t')
      \<and> mpz_val (snd t') \<le> mpz_val (fst t') \<and> \<not> gcd_null_cell (fst t') (snd t')
      \<and> gcd (mpz_val (fst t')) (mpz_val (snd t')) = gcd (mpz_val a) (mpz_val b))
      \<and> nat (mpz_val (snd t')) < nat (mpz_val (snd t))"
    by (auto simp: gcd_null_cell_def)
qed (use assms in \<open>auto simp: case_prod_beta\<close>)

lemma mpz_abs_small: "mpz_ok a \<Longrightarrow> is_small (mpz_abs a) \<longleftrightarrow> is_small a \<and> mpz_val a \<noteq> int_min"
proof -
  assume "mpz_ok a"
  have "mpz_val (mpz_set_big_i64 (- int_min)) = - int_min \<and> mpz_ok (mpz_set_big_i64 (- int_min))"
    by (rule mpz_set_big_i64_val) (simp_all add: int_limits)
  then have "\<not> is_small (mpz_set_big_i64 (- int_min))"
    using mpz_ok_small [of "mpz_set_big_i64 (- int_min)"] by (auto simp: mpz_val_small int_limits)
  then show ?thesis by (auto simp: mpz_abs_def is_small_def mpz_val_def int_limits)
qed

lemma lehmer_gcd_val:
  assumes "mpz_ok a" "mpz_ok b" "\<not> gcd_null_cell a b"
  shows "\<exists>c. lehmer_gcd a b = Inr c \<and> mpz_ok c \<and> mpz_val c = gcd (mpz_val a) (mpz_val b)"
proof -
  obtain a1 b1 where swap: "(if mpz_lt (mpz_abs a) (mpz_abs b) then (mpz_abs b, mpz_abs a) else (mpz_abs a, mpz_abs b)) = (a1, b1)"
    by fastforce
  then have ab: "mpz_ok a1" "mpz_ok b1" "0 \<le> mpz_val b1" "mpz_val b1 \<le> mpz_val a1"
    "gcd (mpz_val a1) (mpz_val b1) = gcd (mpz_val a) (mpz_val b)"
    using assms by (auto simp: gcd.commute split: if_splits)
  have "\<not> gcd_null_cell a1 b1"
    using swap assms(3) mpz_abs_small [OF assms(1)] mpz_abs_small [OF assms(2)] assms(1,2)
    by (auto simp: gcd_null_cell_def int_limits split: if_splits)
  obtain t u where t: "while_res (\<lambda>(a1, b1). \<not> is_small b1) lehmer_reduce (a1, b1) = Inr (t, u)"
    "mpz_ok t" "mpz_ok u" "is_small u" "0 \<le> mpz_val u" "mpz_val u \<le> mpz_val t"
    "gcd (mpz_val t) (mpz_val u) = gcd (mpz_val a) (mpz_val b)"
    using lehmer_outer_loop [OF ab(1-4) \<open>\<not> gcd_null_cell a1 b1\<close>] ab(5) by auto
  show ?thesis
  proof (cases "is_small t")
    case True
    obtain r where "u_gcd (of_int (m_val t)) (of_int (m_val u)) = Inr r" "uint r = gcd (m_val t) (m_val u)"
      using u_gcd_int [of "m_val t" "m_val u"] t True mpz_ok_small [of t] mpz_ok_small [of u] by (auto simp: mpz_val_small)
    then show ?thesis
      using t True swap by (simp add: lehmer_gcd_def Let_def mpz_val_small)
  next
    case False
    then show ?thesis
      using t euclid_loop [OF t(2,3,5,6)] swap by (auto simp: lehmer_gcd_def Let_def)
  qed
qed

lemma mpz_gcd_val:
  assumes "mpz_ok a" "mpz_ok b" "\<not> gcd_null_cell a b"
  shows "\<exists>c. mpz_gcd a b = Inr c \<and> mpz_ok c \<and> mpz_val c = gcd (mpz_val a) (mpz_val b)"
proof (cases "is_small a \<and> is_small b \<and> m_val a \<noteq> int_min \<and> m_val b \<noteq> int_min")
  case True
  then obtain r where "u_gcd (of_int \<bar>m_val a\<bar>) (of_int \<bar>m_val b\<bar>) = Inr r" "uint r = gcd (m_val a) (m_val b)"
    using u_gcd_int [of "\<bar>m_val a\<bar>" "\<bar>m_val b\<bar>"] mpz_ok_small [of a] mpz_ok_small [of b] assms
    by (auto simp: int_limits abs_le_iff)
  then show ?thesis using True by (simp add: mpz_gcd_def mpz_val_small)
next
  case False
  then show ?thesis using lehmer_gcd_val [OF assms] assms by (auto simp: mpz_gcd_def)
qed


text \<open>The defect: with \<open>INT_MAX\<close> stored as a large number, the outer loop of Lehmer's algorithm reads
  the digits of a number that has none.\<close>

lemma mpz_gcd_null_cell:
  assumes "mpz_ok a" "mpz_ok b" "gcd_null_cell a b"
  shows "mpz_gcd a b = Inl Undefined_behaviour"
proof -
  have sm: "is_small (mpz_abs a)" "\<not> is_small (mpz_abs b)"
    using assms mpz_abs_small by (auto simp: gcd_null_cell_def int_limits)
  have lt: "\<not> mpz_lt (mpz_abs a) (mpz_abs b)" using assms by (simp add: gcd_null_cell_def)
  have "lehmer_reduce (mpz_abs a, mpz_abs b) = Inl Undefined_behaviour"
    using sm by (simp add: lehmer_reduce_def)
  then have "while_res (\<lambda>(a1, b1). \<not> is_small b1) lehmer_reduce (mpz_abs a, mpz_abs b) = Inl Undefined_behaviour"
    using sm by (subst while_res_unfold) simp
  then have "lehmer_gcd a b = Inl Undefined_behaviour"
    using lt by (simp add: lehmer_gcd_def Let_def)
  then show ?thesis
    using assms int_limits by (auto simp: mpz_gcd_def gcd_null_cell_def)
qed

lemma mpz_wf_gcd: "mpz_wf b \<Longrightarrow> \<not> gcd_null_cell a b"
  by (auto simp: mpz_wf_val gcd_null_cell_def)

lemma mpz_gcd_wf_val:
  assumes "mpz_ok a" "mpz_wf b"
  shows "\<exists>c. mpz_gcd a b = Inr c \<and> mpz_ok c \<and> mpz_val c = gcd (mpz_val a) (mpz_val b)"
  using mpz_gcd_val assms mpz_wf_gcd by simp

section \<open>Canonical results\<close>

text \<open>The gcd of canonical numbers is canonical, so it can be the argument of a further gcd.\<close>

lemma mpz_set_unsigned_wf [simp]: "mpz_wf (mpz_set_unsigned d)"
proof -
  have "uint d < 2 ^ 63" using uint_lt2p [of d] by simp
  moreover have "- (2 ^ 63) \<le> uint d" by (rule order_trans [OF _ unsigned_greater_eq]) simp
  ultimately show ?thesis unfolding mpz_set_unsigned_i64 by (intro mpz_set_i64_wf)
qed

lemma mpz_rem_wf:
  assumes "mpz_wf a" "mpz_wf b" "mpz_rem a b = Inr r"
  shows "mpz_wf r"
  using mpz_rem_val [of a b] division_by_zero(2) [of a b] assms by (cases "mpz_val b = 0") auto

lemma mpz_addmul_i64_wf:
  assumes "mpz_wf a" "mpz_wf b" "i64_ok x" "i64_ok y"
  shows "mpz_wf (mpz_addmul (mpz_mul a (mpz_set_i64 x)) (mpz_set_i64 y) b)"
  using assms mpz_set_i64_wf [of x] mpz_set_i64_wf [of y] by (simp add: i64_ok_def)

lemma lehmer_reduce_wf:
  assumes "mpz_wf a" "mpz_wf b" "lehmer_reduce (a, b) = Inr t"
  shows "mpz_wf (fst t) \<and> mpz_wf (snd t)"
proof -
  let ?s0 = "\<lparr>a_hat = uint (m_digits a ! (length (m_digits a) - 1)),
     b_hat = (if length (m_digits b) = length (m_digits a) then uint (m_digits b ! (length (m_digits b) - 1)) else 0),
     lA = 1, lB = 0, lC = 0, lD = 1\<rparr>"
  obtain s where w: "while_res lehmer_continue lehmer_step ?s0 = Inr s"
    and t: "(if lB s = 0 then bind_res (mpz_rem a b) (\<lambda>t. Inr (b, t))
           else Inr (mpz_addmul (mpz_mul a (mpz_set_i64 (lA s))) (mpz_set_i64 (lB s)) b,
                     mpz_addmul (mpz_mul a (mpz_set_i64 (lC s))) (mpz_set_i64 (lD s)) b)) = Inr t"
    using assms(3) by (auto simp: lehmer_reduce_def Let_def bind_res_Inr_iff split: if_splits)
  have "list_all i64_ok [lA s, lB s, lC s, lD s]"
  proof (rule while_res_partial [OF w, where I = "\<lambda>s. list_all i64_ok [lA s, lB s, lC s, lD s]"])
    show "list_all i64_ok [lA ?s0, lB ?s0, lC ?s0, lD ?s0]" by (simp add: i64_ok_def)
  qed (auto simp: lehmer_step_def lehmer_terms_def Let_def split: if_splits)
  then show ?thesis
    using t assms mpz_rem_wf [OF assms(1,2)] mpz_addmul_i64_wf [OF assms(1,2)]
    by (auto simp: bind_res_Inr_iff split: if_splits)
qed

lemma mpz_gcd_wf:
  assumes wf: "mpz_wf a" "mpz_wf b" and c: "mpz_gcd a b = Inr c"
  shows "mpz_wf c"
proof -
  have "mpz_wf c" if l: "lehmer_gcd a b = Inr c"
  proof -
    let ?p = "if mpz_lt (mpz_abs a) (mpz_abs b) then (mpz_abs b, mpz_abs a) else (mpz_abs a, mpz_abs b)"
    obtain t where w: "while_res (\<lambda>(a1, b1). \<not> is_small b1) lehmer_reduce ?p = Inr t"
      and e: "(\<exists>r. c = mpz_set_unsigned r) \<or> (\<exists>u. while_res (\<lambda>(a1, b1). \<not> mpz_is_zero b1) euclid_step t = Inr u \<and> c = fst u)"
      using l by (auto simp: lehmer_gcd_def Let_def bind_res_Inr_iff case_prod_beta split: if_splits)
    have t: "mpz_wf (fst t) \<and> mpz_wf (snd t)"
    proof (rule while_res_partial [OF w])
      show "mpz_wf (fst ?p) \<and> mpz_wf (snd ?p)" using wf by simp
    qed (metis lehmer_reduce_wf prod.collapse)
    have "mpz_wf (fst u) \<and> mpz_wf (snd u)" if "while_res (\<lambda>(a1, b1). \<not> mpz_is_zero b1) euclid_step t = Inr u" for u
      by (rule while_res_partial [OF that]) (use t in \<open>auto simp: euclid_step_def bind_res_Inr_iff dest: mpz_rem_wf\<close>)
    then show ?thesis using e by auto
  qed
  then show ?thesis using c wf by (auto simp: mpz_gcd_def bind_res_Inr_iff split: if_splits)
qed

lemma mpz_gcd_yields:
  assumes "mpz_wf a" "mpz_wf b"
  shows "yields (mpz_gcd a b) (\<lambda>c. mpz_wf c \<and> mpz_val c = gcd (mpz_val a) (mpz_val b))"
  using mpz_gcd_wf_val [of a b] mpz_gcd_wf [OF assms] assms by (auto simp: yields_def)

lemma mpz_div_yields:
  assumes "mpz_wf a" "mpz_wf b" "mpz_val b \<noteq> 0"
  shows "yields (mpz_div a b) (\<lambda>c. mpz_wf c \<and> mpz_val c = ediv (mpz_val a) (mpz_val b))"
  using mpz_div_val [of a b] assms by (auto simp: yields_def)

section \<open>Arrays, extended gcd, lcm\<close>

lemma mpz_gcd_loop_val:
  assumes "mpz_ok g" "list_all mpz_wf as" "0 \<le> mpz_val g"
  shows "\<exists>c. mpz_gcd_loop g as = Inr c \<and> mpz_ok c \<and> mpz_val c = gcd (mpz_val g) (Gcd (mpz_val ` set as))"
  using assms
proof (induction as arbitrary: g)
  case (Cons a as)
  obtain c where c: "mpz_gcd g a = Inr c" "mpz_ok c" "mpz_val c = gcd (mpz_val g) (mpz_val a)"
    using mpz_gcd_wf_val [of g a] Cons.prems by auto
  show ?case
  proof (cases "mpz_is_one g")
    case True
    then show ?thesis using Cons.prems by simp
  next
    case False
    then show ?thesis using Cons.IH [of c] Cons.prems c by (simp add: gcd.assoc)
  qed
qed simp

lemma mpz_gcd_array_val:
  assumes "list_all mpz_wf as"
  shows "\<exists>c. mpz_gcd_array as = Inr c \<and> mpz_ok c \<and> mpz_val c = Gcd (mpz_val ` set as)"
proof (cases as rule: mpz_gcd_array.cases)
  case (3 a b as')
  then obtain c where "mpz_gcd a b = Inr c" "mpz_ok c" "mpz_val c = gcd (mpz_val a) (mpz_val b)"
    using mpz_gcd_wf_val [of a b] assms by auto
  with mpz_gcd_loop_val [of c as'] 3 assms show ?thesis by (simp add: gcd.assoc)
qed (use assms int_limits in auto)

definition ext_gcd_inv :: "int \<Rightarrow> int \<Rightarrow> ext_gcd_state \<Rightarrow> bool" where
  "ext_gcd_inv x y s \<longleftrightarrow>
     list_all mpz_ok [eg_tmp1 s, eg_tmp2 s, eg_a s, eg_b s, eg_nexta s, eg_nextb s]
     \<and> 0 \<le> mpz_val (eg_tmp1 s) \<and> 0 \<le> mpz_val (eg_tmp2 s)
     \<and> gcd (mpz_val (eg_tmp1 s)) (mpz_val (eg_tmp2 s)) = gcd x y
     \<and> mpz_val (eg_a s) * x + mpz_val (eg_b s) * y = mpz_val (eg_tmp1 s)
     \<and> mpz_val (eg_nexta s) * x + mpz_val (eg_nextb s) * y = mpz_val (eg_tmp2 s)"

lemma ext_gcd_step_inv:
  assumes inv: "ext_gcd_inv x y s" and pos: "0 < mpz_val (eg_tmp2 s)"
  shows "\<exists>s'. ext_gcd_step s = Inr s' \<and> ext_gcd_inv x y s' \<and> nat (mpz_val (eg_tmp2 s')) < nat (mpz_val (eg_tmp2 s))"
proof -
  let ?u = "mpz_val (eg_tmp1 s)" and ?v = "mpz_val (eg_tmp2 s)"
  have ok: "mpz_ok (eg_tmp1 s)" "mpz_ok (eg_tmp2 s)" "mpz_ok (eg_a s)" "mpz_ok (eg_b s)" "mpz_ok (eg_nexta s)" "mpz_ok (eg_nextb s)"
    and u: "0 \<le> ?u" and g: "gcd ?u ?v = gcd x y"
    and lin: "mpz_val (eg_a s) * x + mpz_val (eg_b s) * y = ?u" "mpz_val (eg_nexta s) * x + mpz_val (eg_nextb s) * y = ?v"
    using inv by (simp_all add: ext_gcd_inv_def)
  obtain q where q: "machine_div (eg_tmp1 s) (eg_tmp2 s) = Inr q" "mpz_ok q" "mpz_val q = ?u div ?v"
    using machine_div_val [OF ok(1,2)] pos u by (auto simp: sdiv_nonneg)
  obtain r where r: "mpz_rem (eg_tmp1 s) (eg_tmp2 s) = Inr r" "mpz_ok r" "mpz_val r = ?u mod ?v"
    using mpz_rem_val [OF ok(1,2)] pos u by (auto simp: smod_mod_positive)
  have "(mpz_val (eg_a s) - ?u div ?v * mpz_val (eg_nexta s)) * x + (mpz_val (eg_b s) - mpz_val (eg_nextb s) * (?u div ?v)) * y
      = (mpz_val (eg_a s) * x + mpz_val (eg_b s) * y) - ?u div ?v * (mpz_val (eg_nexta s) * x + mpz_val (eg_nextb s) * y)"
    by (simp add: algebra_simps)
  also have "\<dots> = ?u mod ?v" unfolding lin by (simp add: minus_div_mult_eq_mod)
  finally show ?thesis
    using ok q r pos u g lin by (simp add: ext_gcd_step_def ext_gcd_inv_def gcd_red_int [symmetric] gcd.commute)
qed

lemma mpz_ext_gcd_val:
  assumes "mpz_ok r1" "mpz_ok r2"
  shows "\<exists>a b r. mpz_ext_gcd r1 r2 = Inr (a, b, r) \<and> mpz_ok a \<and> mpz_ok b \<and> mpz_ok r
    \<and> mpz_val r = gcd (mpz_val r1) (mpz_val r2)
    \<and> mpz_val r1 * mpz_val a + mpz_val r2 * mpz_val b = mpz_val r"
proof -
  let ?x = "\<bar>mpz_val r1\<bar>" and ?y = "\<bar>mpz_val r2\<bar>"
  have "\<exists>s. while_res (\<lambda>s. mpz_is_pos (eg_tmp2 s)) ext_gcd_step (ext_gcd_init r1 r2) = Inr s
      \<and> ext_gcd_inv ?x ?y s \<and> mpz_val (eg_tmp2 s) = 0"
  proof (rule while_res_total [where I = "ext_gcd_inv ?x ?y" and m = "\<lambda>s. nat (mpz_val (eg_tmp2 s))"])
    show "ext_gcd_inv ?x ?y (ext_gcd_init r1 r2)"
      using assms int_limits by (auto simp: ext_gcd_inv_def ext_gcd_init_def Let_def gcd.commute)
  next
    show "\<exists>s'. ext_gcd_step s = Inr s' \<and> ext_gcd_inv ?x ?y s' \<and> nat (mpz_val (eg_tmp2 s')) < nat (mpz_val (eg_tmp2 s))"
      if "ext_gcd_inv ?x ?y s" "mpz_is_pos (eg_tmp2 s)" for s
      using that by (intro ext_gcd_step_inv) (simp_all add: ext_gcd_inv_def)
  qed (auto simp: ext_gcd_inv_def)
  then obtain s where s: "while_res (\<lambda>s. mpz_is_pos (eg_tmp2 s)) ext_gcd_step (ext_gcd_init r1 r2) = Inr s"
    "ext_gcd_inv ?x ?y s" "mpz_val (eg_tmp2 s) = 0" by blast
  show ?thesis
    using s assms
    by (auto simp: mpz_ext_gcd_def ext_gcd_inv_def abs_if mult.commute split: if_splits)
qed

lemma mpz_lcm_val:
  assumes "mpz_ok a" "mpz_wf b"
  shows "\<exists>c. mpz_lcm a b = Inr c \<and> mpz_ok c \<and> \<bar>mpz_val c\<bar> = lcm (mpz_val a) (mpz_val b)"
proof -
  obtain r where r: "mpz_gcd a b = Inr r" "mpz_ok r" "mpz_val r = gcd (mpz_val a) (mpz_val b)"
    using mpz_gcd_wf_val [OF assms] by blast
  have ok: "mpz_ok a" "mpz_ok b" using assms by simp_all
  show ?thesis
  proof (cases "mpz_val r = 0")
    case True
    then show ?thesis using r ok by (auto simp: mpz_lcm_def)
  next
    case False
    obtain q where q: "machine_div a r = Inr q" "mpz_wf q" "mpz_val q = mpz_val a sdiv mpz_val r"
      using machine_div_val [OF ok(1) r(2) False] by blast
    have "mpz_val r dvd mpz_val a" using r(3) by simp
    then have q': "mpz_val q = mpz_val a div gcd (mpz_val a) (mpz_val b)" using q(3) r(3) by (simp add: sdiv_dvd)
    have l: "lcm (mpz_val a) (mpz_val b) = \<bar>mpz_val a div gcd (mpz_val a) (mpz_val b) * mpz_val b\<bar>"
      by (metis abs_mult div_mult_swap dvd_div_mult gcd_dvd1 gcd_dvd2 lcm_gcd normalize_int_def normalize_mult)
    have "mpz_val r = mpz_val a \<Longrightarrow> lcm (mpz_val a) (mpz_val b) = \<bar>mpz_val b\<bar>"
      "mpz_val r = mpz_val b \<Longrightarrow> lcm (mpz_val a) (mpz_val b) = \<bar>mpz_val a\<bar>"
      using r(3) by (metis gcd_dvd2 lcm_proj2_if_dvd_int, metis gcd_dvd1 lcm_proj1_if_dvd_int)
    note lr = this
    show ?thesis
    proof (cases "mpz_val a = mpz_val b \<or> mpz_val a = 1 \<or> mpz_val b = 1")
      case True
      then show ?thesis using ok by (auto simp: mpz_lcm_def)
    next
      case False
      then show ?thesis using r(1,2) q(1,2) q' l lr ok by (auto simp: mpz_lcm_def)
    qed
  qed
qed

end
