(* ===== verification/Mpz_Shift.thy ===== *)
theory Mpz_Shift
  imports Mpz
begin

text \<open>
  Operations on the binary representation (util/mpz.cpp, util/util.cpp): \<open>normalize\<close> and
  \<open>ensure_capacity\<close>, multiplication and truncating division by powers of two on the digits,
  the position of the lowest and the highest set bit, the test for powers of two, and \<open>power\<close>.
\<close>

unbundle bit_operations_syntax

section \<open>Operations\<close>

subsection \<open>Normalization and capacity\<close>

definition mpz_normalize :: "mpz \<Rightarrow> mpz" where
  "mpz_normalize a =
     (let ds = m_digits a; i = trim_size ds (length ds)
      in if i = 0 then mk_z 0
         else if i = 1 \<and> uint (ds ! 0) \<le> int_max
         then mk_z (if m_val a < 0 then - uint (ds ! 0) else uint (ds ! 0))
         else a\<lparr>m_digits := take i ds\<rparr>)"

text \<open>\<open>ensure_capacity\<close> turns a small number into a large one whose cell has room for the result.\<close>

definition mpz_ensure_capacity :: "mpz \<Rightarrow> nat \<Rightarrow> mpz" where
  "mpz_ensure_capacity a capacity =
     (if capacity \<le> 1 then a
      else if is_small a then
        if m_val a = int_min then mk_large (- 1) [2147483648]
        else if m_val a < 0 then mk_large (- 1) [of_int (- m_val a)]
        else mk_large 1 [of_int (m_val a)]
      else a)"

subsection \<open>Shifts\<close>

text \<open>The loops of \<open>machine_div2k\<close> write digit \<open>i\<close> from digits \<open>i + digit_shift\<close> and
  \<open>i + digit_shift + 1\<close>, which they have not written before.\<close>

definition div2k_digits :: "nat \<Rightarrow> digit list \<Rightarrow> digit list" where
  "div2k_digits k ds =
     (let digit_shift = k div 32; bit_shift = k mod 32; comp_shift = 32 - bit_shift;
          new_sz = length ds - digit_shift
      in map (\<lambda>i. let j = i + digit_shift in
           if bit_shift = 0 then ds ! j
           else if i < new_sz - 1 then drop_bit bit_shift (ds ! j) OR push_bit comp_shift (ds ! (j + 1))
           else drop_bit bit_shift (ds ! j)) [0..<new_sz])"

definition mpz_machine_div2k :: "mpz \<Rightarrow> nat \<Rightarrow> mpz" where
  "mpz_machine_div2k a k =
     (if k = 0 \<or> mpz_is_zero a then a
      else if is_small a then
        if k < 32 then a\<lparr>m_val := m_val a sdiv 2 ^ k\<rparr> else a\<lparr>m_val := 0\<rparr>
      else if k div 32 \<ge> length (m_digits a) then mk_z 0
      else mpz_normalize (a\<lparr>m_digits := div2k_digits k (m_digits a)\<rparr>))"

fun shl_carry :: "nat \<Rightarrow> digit \<Rightarrow> digit list \<Rightarrow> digit list" where
  "shl_carry bit_shift prev [] = []"
| "shl_carry bit_shift prev (d # ds) =
     (push_bit bit_shift d OR prev) # shl_carry bit_shift (drop_bit (32 - bit_shift) d) ds"

definition mpz_mul2k :: "mpz \<Rightarrow> nat \<Rightarrow> mpz" where
  "mpz_mul2k a k =
     (if k = 0 \<or> mpz_is_zero a then a
      else if is_small a \<and> k < 32 then mpz_set_i64 (wrap_i64 (m_val a * 2 ^ k))
      else
        (let word_shift = k div 32; bit_shift = k mod 32;
             old_sz = (if is_small a then 1 else length (m_digits a));
             new_sz = old_sz + word_shift + 1;
             a = mpz_ensure_capacity a new_sz;
             ds = m_digits a @ [0]
         in mpz_normalize (a\<lparr>m_digits := replicate word_shift 0 @
              (if bit_shift > 0 then shl_carry bit_shift 0 ds else ds)\<rparr>)))"

subsection \<open>Bit positions\<close>

text \<open>\<open>log2(unsigned)\<close>: five masks, each followed by a shift.\<close>

definition log2_stage :: "nat \<Rightarrow> digit \<Rightarrow> digit \<times> nat \<Rightarrow> digit \<times> nat" where
  "log2_stage k msk = (\<lambda>(v, r). if v AND msk \<noteq> 0 then (drop_bit k v, r OR k) else (v, r))"

definition u_log2 :: "digit \<Rightarrow> nat" where
  "u_log2 v = snd (log2_stage 1 0x2 (log2_stage 2 0xC (log2_stage 4 0xF0
     (log2_stage 8 0xFF00 (log2_stage 16 0xFFFF0000 (v, 0))))))"

definition u_is_power_of_two :: "digit \<Rightarrow> bool" where
  "u_is_power_of_two v \<longleftrightarrow> v AND (v - 1) = 0 \<and> v \<noteq> 0"

text \<open>\<open>log2\<close> and \<open>mlog2\<close>; the bit positions are \<open>unsigned\<close>, as are the sizes of the cells.\<close>

definition mpz_log2 :: "mpz \<Rightarrow> nat" where
  "mpz_log2 a =
     (if mpz_is_nonpos a then 0
      else if is_small a then u_log2 (of_int (m_val a))
      else (length (m_digits a) - 1) * 32 + u_log2 (last (m_digits a)))"

definition mpz_mlog2 :: "mpz \<Rightarrow> nat" where
  "mpz_mlog2 a =
     (if mpz_is_nonneg a then 0
      else if is_small a then u_log2 (of_int (- m_val a))
      else (length (m_digits a) - 1) * 32 + u_log2 (last (m_digits a)))"

definition mpz_bitsize :: "mpz \<Rightarrow> nat" where
  "mpz_bitsize a = (if mpz_is_nonneg a then mpz_log2 a + 1 else mpz_mlog2 a + 1)"

text \<open>\<open>is_power_of_two(a, shift)\<close>: \<open>shift\<close> is set only when the result is true.\<close>

definition mpz_is_power_of_two :: "mpz \<Rightarrow> nat option" where
  "mpz_is_power_of_two a =
     (if mpz_is_nonpos a then None
      else if is_small a then
        if u_is_power_of_two (of_int (m_val a)) then Some (u_log2 (of_int (m_val a))) else None
      else
        (let sz = length (m_digits a); v = m_digits a ! (sz - 1)
         in if \<exists>i < sz - 1. m_digits a ! i \<noteq> 0 then None
            else if v AND (v - 1) = 0 \<and> v \<noteq> 0 then Some (mpz_log2 a) else None))"

text \<open>\<open>COUNT_DIGIT_RIGHT_ZEROS\<close>: the stages 16, 8, 4, 2 and 1.\<close>

definition right_zeros_stage :: "nat \<Rightarrow> int \<times> nat \<Rightarrow> int \<times> nat" where
  "right_zeros_stage k = (\<lambda>(v, r). if v smod 2 ^ k = 0 then (v sdiv 2 ^ k, r + k) else (v, r))"

definition count_digit_right_zeros :: "int \<Rightarrow> nat \<Rightarrow> nat" where
  "count_digit_right_zeros v r = snd (right_zeros_stage 1 (right_zeros_stage 2 (right_zeros_stage 4
     (right_zeros_stage 8 (right_zeros_stage 16 (v, r))))))"

fun right_zeros_digits :: "digit list \<Rightarrow> nat \<Rightarrow> nat" where
  "right_zeros_digits [] r = r"
| "right_zeros_digits (d # ds) r =
     (if d \<noteq> 0 then count_digit_right_zeros (uint d) r else right_zeros_digits ds (r + 32))"

definition mpz_power_of_two_multiple :: "mpz \<Rightarrow> nat" where
  "mpz_power_of_two_multiple a =
     (if mpz_is_zero a then 0
      else if is_small a then count_digit_right_zeros (m_val a) 0
      else right_zeros_digits (m_digits a) 0)"

subsection \<open>Powers\<close>

definition mpz_power :: "mpz \<Rightarrow> digit \<Rightarrow> mpz res" where
  "mpz_power a p =
     (if is_small a \<and> m_val a = 2 then
        if unat p < 31 then Inr (mk_z (2 ^ unat p))
        else
          (let sz = unat p div 32 + 1; shift = unat p mod 32
           in Inr (mk_large 1 (replicate (sz - 1) 0 @ [push_bit shift 1])))
      else if is_small a \<and> m_val a = 0 then Inr (mk_z 0)
      else if is_small a \<and> m_val a = 1 then Inr (mk_z 1)
      else bind_res (power_loop (\<lambda>x y. Inr (mpz_mul x y)) p \<lparr>pw_mask = 1, pw_power = a, pw_b = mk_z 1\<rparr>) (\<lambda>s. Inr (pw_b s)))"

section \<open>Shifts\<close>

lemma mpz_normalize_set_cell:
  assumes "s = 1 \<or> s = - 1"
  shows "mpz_normalize (mk_large s ds) = mpz_set_cell ds s (length ds)"
proof -
  let ?i = "trim_size ds (length ds)"
  have le: "?i \<le> length ds" by (rule trim_size_le)
  have big: "mpz_set_digits ?i ds = mk_large 1 (take ?i ds)" if "?i \<noteq> 0" "\<not> (?i = 1 \<and> uint (ds ! 0) \<le> int_max)"
  proof (cases "?i = 1")
    case True
    then have ds: "ds \<noteq> []" by (cases ds) simp_all
    have "drop_bit 32 (ucast (ds ! 0) :: double_digit) = 0"
      by (rule bit_word_eqI) (auto simp: bit_simps dest: bit_imp_le_length)
    moreover have "ucast (ucast (ds ! 0) :: double_digit) = ds ! 0"
      by (rule bit_word_eqI) (auto simp: bit_simps)
    ultimately show ?thesis
      using that True ds trim_size_idem [of ds "length ds"]
      by (simp add: mpz_set_digits_def Let_def mpz_set_unsigned_def big_of_u64_def take_Suc hd_conv_nth)
  next
    case False
    then show ?thesis using that trim_size_idem [of ds "length ds"] by (simp add: mpz_set_digits_def Let_def)
  qed
  have upd: "(mk_large s ds)\<lparr>m_digits := x\<rparr> = mk_large s x" for x by (simp add: mk_large_def)
  show ?thesis
    using big upd by (auto simp: mpz_normalize_def mpz_set_cell_def Let_def)
qed

lemma mpz_normalize_val:
  assumes "s = 1 \<or> s = - 1"
  shows "mpz_val (mpz_normalize (mk_large s ds)) = s * int (dval ds)" "mpz_wf (mpz_normalize (mk_large s ds))"
  using mpz_set_cell_val [of "length ds" ds s] assms by (simp_all add: mpz_normalize_set_cell)

lemma mk_large_cases: "mpz_ok a \<Longrightarrow> \<not> is_small a \<Longrightarrow> \<exists>s ds. a = mk_large s ds \<and> (s = 1 \<or> s = - 1)"
proof -
  assume "mpz_ok a" "\<not> is_small a"
  then have "a = mk_large (m_val a) (m_digits a)" "m_val a = 1 \<or> m_val a = - 1"
    by (cases a; auto simp: mk_large_def is_small_def mpz_ok_def; metis mpz_kind.exhaust)+
  then show ?thesis by metis
qed

lemma push_last_bits: "push_bit (32 - d) (last_bits d y) = push_bit (32 - d) y"
  by (rule bit_word_eqI) (auto simp: last_bits_def bit_simps)

lemma digit_base_pow: "digit_base ^ w = 2 ^ (32 * w)"
  by (simp add: power_mult)

lemma div2k_digits_val:
  assumes "k div 32 < length ds"
  shows "dval (div2k_digits k ds) = dval ds div 2 ^ k"
proof -
  let ?w = "k div 32" and ?b = "k mod 32"
  have len: "length (take ?w ds) = ?w" using assms by simp
  have "dval (take ?w ds) < digit_base ^ ?w" using dval_less [of "take ?w ds"] unfolding len .
  then have "dval (drop ?w ds) = dval ds div digit_base ^ ?w"
    using dval_take_drop [of ds ?w] unfolding len by (metis add.commute div_less div_mult_self4 add_0 power_not_zero zero_neq_numeral)
  moreover have "div2k_digits k ds = (if ?b = 0 then drop ?w ds else mpn_shr ?b (drop ?w ds))"
    by (rule nth_equalityI)
      (auto simp: div2k_digits_def Let_def mpn_shr_def push_last_bits ac_simps)
  ultimately have "dval (div2k_digits k ds) = dval ds div digit_base ^ ?w div 2 ^ ?b"
    using mpn_shr_correct [of ?b "drop ?w ds"] by simp
  also have "\<dots> = dval ds div 2 ^ (32 * ?w + ?b)" by (simp only: digit_base_pow div_mult2_eq power_add)
  finally show ?thesis by simp
qed

lemma sdiv_abs: "\<bar>(a :: int) sdiv b\<bar> = \<bar>a\<bar> div \<bar>b\<bar>"
proof -
  have "0 \<le> \<bar>a\<bar> div \<bar>b\<bar>" by (cases "b = 0") (simp_all add: pos_imp_zdiv_nonneg_iff)
  then show ?thesis by (cases "a = 0"; cases "b = 0") (simp_all add: signed_divide_int_def abs_mult sgn_if)
qed

lemma sdiv_pow2_sign: "s = 1 \<or> s = - 1 \<Longrightarrow> (s * int x) sdiv 2 ^ k = s * int (x div 2 ^ k)"
  by (auto simp: sdiv_nonneg zdiv_int)

lemma mpz_machine_div2k_val [simp]:
  assumes "mpz_ok a"
  shows "mpz_val (mpz_machine_div2k a k) = mpz_val a sdiv 2 ^ k" "mpz_ok (mpz_machine_div2k a k)"
    "mpz_wf a \<Longrightarrow> mpz_wf (mpz_machine_div2k a k)"
proof -
  have "mpz_val (mpz_machine_div2k a k) = mpz_val a sdiv 2 ^ k \<and> mpz_ok (mpz_machine_div2k a k)
    \<and> (mpz_wf a \<longrightarrow> mpz_wf (mpz_machine_div2k a k))"
  proof (cases "k = 0 \<or> mpz_is_zero a")
    case True
    then show ?thesis using assms by (auto simp: mpz_machine_div2k_def)
  next
    case False
    show ?thesis
    proof (cases "is_small a")
      case True
      note range = small_range [OF assms True]
      have "(2 :: int) ^ 1 \<le> 2 ^ k" using False by (intro power_increasing) simp_all
      then have "\<bar>m_val a\<bar> div 2 ^ k \<le> \<bar>m_val a\<bar> div 2" by (intro zdiv_mono2) simp_all
      also have "\<dots> \<le> 1073741824" using range by simp
      finally have lo: "\<bar>m_val a sdiv 2 ^ k\<bar> \<le> 1073741824" by (simp add: sdiv_abs)
      have hi: "m_val a sdiv 2 ^ k = 0" if "32 \<le> k"
      proof -
        have "(2 :: int) ^ 32 \<le> 2 ^ k" using that by (intro power_increasing) simp_all
        then have "\<bar>m_val a\<bar> < 2 ^ k" using range by simp
        then have "\<bar>m_val a sdiv 2 ^ k\<bar> = 0" by (simp add: sdiv_abs)
        then show ?thesis by simp
      qed
      have upd: "mpz_val (a\<lparr>m_val := x\<rparr>) = x" "mpz_wf (a\<lparr>m_val := x\<rparr>) \<longleftrightarrow> int_min \<le> x \<and> x \<le> int_max" for x
        using True by (simp_all add: mpz_val_def mpz_wf_def mpz_ok_def is_small_def)
      show ?thesis
        using True False lo hi int_limits mpz_wf_ok
        by (auto simp: mpz_machine_div2k_def upd mpz_val_small abs_le_iff)
    next
      case large: False
      obtain s ds where a: "a = mk_large s ds" and s: "s = 1 \<or> s = - 1" using mk_large_cases [OF assms large] by blast
      have upd: "(mk_large s ds)\<lparr>m_digits := x\<rparr> = mk_large s x" for x by (simp add: mk_large_def)
      show ?thesis
      proof (cases "k div 32 < length ds")
        case True
        then show ?thesis
          using False large mpz_normalize_val [OF s] s by (simp add: a mpz_machine_div2k_def upd div2k_digits_val sdiv_pow2_sign)
      next
        case short: False
        have "dval ds < digit_base ^ length ds" by (rule dval_less)
        also have "\<dots> \<le> digit_base ^ (k div 32)" using short by (intro power_increasing) simp_all
        also have "\<dots> \<le> 2 ^ k" unfolding digit_base_pow by (intro power_increasing) simp_all
        finally show ?thesis
          using False large short s int_limits by (simp add: a mpz_machine_div2k_def sdiv_pow2_sign)
      qed
    qed
  qed
  then show "mpz_val (mpz_machine_div2k a k) = mpz_val a sdiv 2 ^ k" "mpz_ok (mpz_machine_div2k a k)"
    "mpz_wf a \<Longrightarrow> mpz_wf (mpz_machine_div2k a k)" by blast+
qed

lemma shl_carry_val:
  assumes "0 < b" "b < 32" "unat p < 2 ^ b"
  shows "dval (shl_carry b p (ds @ [0])) = 2 ^ b * dval ds + unat p"
  using assms(3)
proof (induction ds arbitrary: p)
  case (Cons d ds)
  let ?M = "2 ^ (32 - b) :: nat"
  have M: "digit_base = 2 ^ b * ?M" using assms(2) by (intro pow2_split) simp
  have lo: "unat (push_bit b d OR p) = (unat d mod ?M) * 2 ^ b + unat p"
    using assms(2) Cons.prems by (simp add: unsigned_or_eq unat_push_bit_digit or_eq_add_nat)
  have "unat d < 2 ^ b * ?M" using unat_digit_lt [of d] unfolding M .
  then have "unat (drop_bit (32 - b) d) < 2 ^ b"
    unfolding unat_drop_bit_digit by (rule less_mult_imp_div_less)
  then have "dval (shl_carry b p ((d # ds) @ [0])) =
      (unat d mod ?M) * 2 ^ b + unat p + digit_base * (2 ^ b * dval ds + unat d div ?M)"
    using Cons.IH [of "drop_bit (32 - b) d"] lo by (simp add: unat_drop_bit_digit)
  also have "\<dots> = 2 ^ b * (unat d mod ?M + ?M * (unat d div ?M)) + unat p + digit_base * (2 ^ b * dval ds)"
    by (simp only: M distrib_left) (simp add: ac_simps)
  finally show ?case by (simp add: algebra_simps)
qed simp

lemma ensure_capacity_sign_cell:
  assumes "1 < c" "mpz_ok a" "get_sign_cell a = (s, ds)"
  shows "mpz_ensure_capacity a c = mk_large s ds"
proof (cases "is_small a")
  case False
  then obtain s' ds' where "a = mk_large s' ds'" using mk_large_cases [OF assms(2)] by blast
  then show ?thesis using assms by (simp add: mpz_ensure_capacity_def get_sign_cell_def)
qed (use assms in \<open>auto simp: mpz_ensure_capacity_def get_sign_cell_def\<close>)

lemma mpz_mul2k_val [simp]:
  assumes "mpz_ok a"
  shows "mpz_val (mpz_mul2k a k) = mpz_val a * 2 ^ k" "mpz_ok (mpz_mul2k a k)" "mpz_wf a \<Longrightarrow> mpz_wf (mpz_mul2k a k)"
proof -
  have "mpz_val (mpz_mul2k a k) = mpz_val a * 2 ^ k \<and> mpz_ok (mpz_mul2k a k) \<and> (mpz_wf a \<longrightarrow> mpz_wf (mpz_mul2k a k))"
  proof (cases "k = 0 \<or> mpz_is_zero a")
    case True
    then show ?thesis using assms by (auto simp: mpz_mul2k_def)
  next
    case nz: False
    show ?thesis
    proof (cases "is_small a \<and> k < 32")
      case True
      have "(2 :: int) ^ k \<le> 2 ^ 31" using True by (intro power_increasing) simp_all
      then have "\<bar>m_val a\<bar> * 2 ^ k \<le> 2147483648 * 2147483648"
        using small_range [OF assms] True by (intro mult_mono) simp_all
      then have "\<bar>m_val a * 2 ^ k\<bar> < 2 ^ 63" by (simp add: abs_mult)
      then have "- (2 ^ 63) \<le> m_val a * 2 ^ k" "m_val a * 2 ^ k < 2 ^ 63" by linarith+
      then show ?thesis
        using nz True mpz_set_i64_val mpz_set_i64_wf by (simp add: mpz_mul2k_def wrap_i64_id mpz_val_small)
    next
      case False
      obtain s ds where gs: "get_sign_cell a = (s, ds)" by fastforce
      note gv = get_sign_cell_val [OF assms gs]
      let ?w = "k div 32" and ?b = "k mod 32"
      let ?es = "replicate ?w 0 @ (if ?b > 0 then shl_carry ?b 0 (ds @ [0]) else ds @ [0])"
      let ?sz = "(if is_small a then 1 else length (m_digits a)) + ?w + 1"
      have "0 < length (m_digits a)" if "\<not> is_small a" using that assms by (simp add: mpz_ok_def)
      then have "1 < ?sz" by simp
      note cap = ensure_capacity_sign_cell [OF this assms gs]
      have upd: "(mk_large s ds)\<lparr>m_digits := x\<rparr> = mk_large s x" for x by (simp add: mk_large_def)
      have "dval ?es = digit_base ^ ?w * (2 ^ ?b * dval ds)"
        using shl_carry_val [of ?b 0 ds] by (simp add: dval_append)
      also have "\<dots> = 2 ^ (32 * ?w + ?b) * dval ds" by (simp only: digit_base_pow power_add mult.assoc)
      finally have "dval ?es = 2 ^ k * dval ds" by simp
      moreover have "mpz_mul2k a k = mpz_normalize (mk_large s ?es)"
        unfolding mpz_mul2k_def Let_def cap using nz False by (auto simp: upd)
      ultimately show ?thesis
        using mpz_normalize_val [OF gv(2), of ?es] gv(1) by simp
    qed
  qed
  then show "mpz_val (mpz_mul2k a k) = mpz_val a * 2 ^ k" "mpz_ok (mpz_mul2k a k)"
    "mpz_wf a \<Longrightarrow> mpz_wf (mpz_mul2k a k)" by blast+
qed


section \<open>Bit positions\<close>

lemma or_pow2_add: "2 ^ Suc j dvd (r :: nat) \<Longrightarrow> r OR 2 ^ j = r + 2 ^ j"
proof -
  assume "2 ^ Suc j dvd r"
  then obtain c where "r = c * 2 ^ Suc j" by (metis dvdE mult.commute)
  moreover have "(2 :: nat) ^ j < 2 ^ Suc j" by simp
  ultimately show ?thesis by (simp only: or_eq_add_nat)
qed

text \<open>One stage: a number of at most \<open>2 k\<close> bits is cut to at most \<open>k\<close> bits.\<close>

definition log2_inv :: "digit \<Rightarrow> nat \<Rightarrow> digit \<times> nat \<Rightarrow> bool" where
  "log2_inv v0 k = (\<lambda>(v, r). v \<noteq> 0 \<and> unat v < 2 ^ k \<and> unat v = unat v0 div 2 ^ r \<and> k dvd r)"

lemma log2_stage_inv:
  assumes inv: "log2_inv v0 (2 * k) s" and k: "k = 2 ^ j" and m: "m = push_bit k (mask k)"
  shows "log2_inv v0 k (log2_stage k m s)"
proof -
  obtain v r where s: "s = (v, r)" by fastforce
  have v: "v \<noteq> 0" "unat v < 2 ^ (2 * k)" "unat v = unat v0 div 2 ^ r" "2 * k dvd r"
    using inv by (simp_all add: log2_inv_def s)
  have "take_bit (2 * k) (unat v) = unat v" using v(2) by (simp add: take_bit_nat_eq_self_iff)
  then have high: "\<not> bit v n" if "2 * k \<le> n" for n
    using that bit_take_bit_iff [of "2 * k" "unat v" n] by (auto simp: bit_unsigned_iff)
  have "v AND m = 0 \<longleftrightarrow> drop_bit k v = 0"
  proof
    assume "v AND m = 0"
    moreover have "bit (v AND m) n \<longleftrightarrow> bit v n \<and> bit m n" for n by (rule bit_and_iff)
    ultimately have off: "\<not> (bit v n \<and> bit m n)" for n by simp
    have "\<not> bit v (k + n)" for n
      using off [of "k + n"] high [of "k + n"] unfolding m
      by (cases "n < k") (auto simp: bit_simps dest: bit_imp_le_length)
    then show "drop_bit k v = 0" by (auto simp: bit_eq_iff bit_simps)
  next
    assume "drop_bit k v = 0"
    moreover have "bit (drop_bit k v) n \<longleftrightarrow> bit v (k + n)" for n by (simp add: bit_drop_bit_eq)
    ultimately have off: "\<not> bit v (k + n)" for n by simp
    have "\<not> bit v n" if "k \<le> n" for n using off [of "n - k"] that by simp
    then show "v AND m = 0" unfolding m by (auto simp: bit_eq_iff bit_simps)
  qed
  moreover have "drop_bit k v = 0 \<longleftrightarrow> unat v < 2 ^ k"
    by (metis div_eq_0_iff power_not_zero unat_drop_bit_digit unat_eq_0 zero_neq_numeral)
  moreover have "unat (drop_bit k v) < 2 ^ k"
    using v(2) unfolding unat_drop_bit_digit by (intro less_mult_imp_div_less) (simp add: mult_2 power_add)
  moreover have "unat (drop_bit k v) = unat v0 div 2 ^ (r + k)"
    unfolding unat_drop_bit_digit v(3) by (simp add: power_add div_mult2_eq)
  moreover have "r OR k = r + k" using or_pow2_add [of j r] v(4) k by simp
  moreover have "k dvd r" using v(4) by (rule dvd_mult_right)
  ultimately show ?thesis
    using v by (auto simp: s log2_stage_def log2_inv_def)
qed

lemma u_log2_val:
  assumes "v \<noteq> 0"
  shows "2 ^ u_log2 v \<le> unat v" "unat v < 2 ^ Suc (u_log2 v)"
proof -
  have masks: "(0xFFFF0000 :: digit) = push_bit 16 (mask 16)" "(0xFF00 :: digit) = push_bit 8 (mask 8)"
    "(0xF0 :: digit) = push_bit 4 (mask 4)" "(0xC :: digit) = push_bit 2 (mask 2)" "(0x2 :: digit) = push_bit 1 (mask 1)"
    by (simp_all add: mask_eq_exp_minus_1 push_bit_eq_mult)
  have 0: "log2_inv v (2 * 16) (v, 0)" using assms unat_digit_lt [of v] by (simp add: log2_inv_def)
  note 1 = log2_stage_inv [OF 0 _ masks(1), of 4]
  have "log2_inv v (2 * 8) (log2_stage 16 0xFFFF0000 (v, 0))" using 1 by simp
  note 2 = log2_stage_inv [OF this _ masks(2), of 3]
  have "log2_inv v (2 * 4) (log2_stage 8 0xFF00 (log2_stage 16 0xFFFF0000 (v, 0)))" using 2 by simp
  note 3 = log2_stage_inv [OF this _ masks(3), of 2]
  have "log2_inv v (2 * 2) (log2_stage 4 0xF0 (log2_stage 8 0xFF00 (log2_stage 16 0xFFFF0000 (v, 0))))" using 3 by simp
  note 4 = log2_stage_inv [OF this _ masks(4), of 1]
  have "log2_inv v (2 * 1) (log2_stage 2 0xC (log2_stage 4 0xF0 (log2_stage 8 0xFF00 (log2_stage 16 0xFFFF0000 (v, 0)))))"
    using 4 by simp
  note 5 = log2_stage_inv [OF this _ masks(5), of 0]
  obtain w r where wr: "log2_stage 1 0x2 (log2_stage 2 0xC (log2_stage 4 0xF0 (log2_stage 8 0xFF00 (log2_stage 16 0xFFFF0000 (v, 0)))))
      = (w, r)" by fastforce
  have "unat w = 1" using 5 wr unat_gt_0 [of w] by (simp add: log2_inv_def)
  then have "unat v div 2 ^ r = 1" "u_log2 v = r" using 5 wr by (simp_all add: log2_inv_def u_log2_def)
  moreover from this(1) have "unat v = 2 ^ r + unat v mod 2 ^ r" "unat v mod 2 ^ r < 2 ^ r"
    using mult_div_mod_eq [of "2 ^ r" "unat v"] by simp_all
  moreover from this have "2 ^ r \<le> unat v \<and> unat v < 2 * 2 ^ r" by linarith
  ultimately show "2 ^ u_log2 v \<le> unat v" "unat v < 2 ^ Suc (u_log2 v)" by simp_all
qed

lemma digits_log2:
  assumes "ds \<noteq> []" "last ds \<noteq> 0"
  defines "r \<equiv> (length ds - 1) * 32 + u_log2 (last ds)"
  shows "2 ^ r \<le> dval ds" "dval ds < 2 ^ Suc r"
proof -
  let ?W = "digit_base ^ (length ds - 1)" and ?t = "u_log2 (last ds)"
  have r: "(2 :: nat) ^ r = 2 ^ ?t * ?W" by (simp add: r_def digit_base_pow power_add mult.commute)
  note log = u_log2_val [OF assms(2)] and bounds = dval_last_bounds [OF assms(1)]
  have "2 ^ ?t * ?W \<le> unat (last ds) * ?W" using log(1) by (rule mult_right_mono) simp
  then show "2 ^ r \<le> dval ds" using bounds(1) r by linarith
  have "(unat (last ds) + 1) * ?W \<le> 2 ^ Suc ?t * ?W" using log(2) by (intro mult_right_mono) simp_all
  then show "dval ds < 2 ^ Suc r" using bounds(2) r by simp
qed

lemma small_log2:
  assumes "0 < x" "x \<le> 2147483648"
  shows "2 ^ u_log2 (of_int x) \<le> x" "x < 2 ^ Suc (u_log2 (of_int x))"
proof -
  let ?w = "of_int x :: digit"
  have u: "uint ?w = x" using assms by (intro uint_of_int_32) simp_all
  then have nz: "?w \<noteq> 0" using assms by auto
  have n: "int (unat ?w) = x" using u by (simp only: uint_nat)
  have "int (2 ^ u_log2 ?w) \<le> int (unat ?w)" "int (unat ?w) < int (2 ^ Suc (u_log2 ?w))"
    using u_log2_val [OF nz] by (simp_all only: of_nat_le_iff of_nat_less_iff)
  then show "2 ^ u_log2 ?w \<le> x" "x < 2 ^ Suc (u_log2 ?w)" unfolding n by simp_all
qed

lemma mpz_large_cell: "mpz_ok a \<Longrightarrow> \<not> is_small a \<Longrightarrow>
    m_digits a \<noteq> [] \<and> last (m_digits a) \<noteq> 0 \<and> \<bar>mpz_val a\<bar> = int (dval (m_digits a))"
  by (auto simp: mpz_ok_def mpz_val_def abs_mult)

lemma digits_log2_int:
  assumes "mpz_ok a" "\<not> is_small a"
  defines "r \<equiv> (length (m_digits a) - 1) * 32 + u_log2 (last (m_digits a))"
  shows "2 ^ r \<le> \<bar>mpz_val a\<bar>" "\<bar>mpz_val a\<bar> < 2 ^ Suc r"
proof -
  note c = mpz_large_cell [OF assms(1,2)]
  have "int (2 ^ r) \<le> int (dval (m_digits a))" "int (dval (m_digits a)) < int (2 ^ Suc r)"
    unfolding of_nat_le_iff of_nat_less_iff r_def using digits_log2 c by blast+
  with c show "2 ^ r \<le> \<bar>mpz_val a\<bar>" "\<bar>mpz_val a\<bar> < 2 ^ Suc r" by simp_all
qed

lemma mpz_log2_val:
  assumes "mpz_ok a" "0 < mpz_val a"
  shows "2 ^ mpz_log2 a \<le> mpz_val a" "mpz_val a < 2 ^ Suc (mpz_log2 a)"
  using digits_log2_int [OF assms(1)] small_log2 [of "m_val a"] small_range [of a] assms
  by (cases "is_small a"; simp add: mpz_log2_def mpz_val_small)+

lemma mpz_mlog2_val:
  assumes "mpz_ok a" "mpz_val a < 0"
  shows "2 ^ mpz_mlog2 a \<le> - mpz_val a" "- mpz_val a < 2 ^ Suc (mpz_mlog2 a)"
  using digits_log2_int [OF assms(1)] small_log2 [of "- m_val a"] small_range [of a] assms
  by (cases "is_small a"; simp add: mpz_mlog2_def mpz_val_small)+

text \<open>\<open>bitsize\<close> is the number of bits of the absolute value (one for zero).\<close>

lemma mpz_bitsize_val:
  assumes "mpz_ok a" "mpz_val a \<noteq> 0"
  shows "2 ^ (mpz_bitsize a - 1) \<le> \<bar>mpz_val a\<bar>" "\<bar>mpz_val a\<bar> < 2 ^ mpz_bitsize a"
  using mpz_log2_val [OF assms(1)] mpz_mlog2_val [OF assms(1)] assms
  by (cases "0 < mpz_val a"; simp add: mpz_bitsize_def)+

subsection \<open>Powers of two\<close>

lemma and_pred_eq_0_nat: "0 < (x :: nat) \<Longrightarrow> x AND (x - 1) = 0 \<longleftrightarrow> (\<exists>k. x = 2 ^ k)"
proof (induction x rule: less_induct)
  case (less x)
  have rec: "x AND (x - 1) = of_bool (odd x \<and> odd (x - 1)) + 2 * (x div 2 AND (x - 1) div 2)" by (rule and_rec)
  show ?case
  proof (cases "even x")
    case True
    then obtain y where x: "x = 2 * y" by (elim evenE)
    with less.prems have y: "0 < y" "y < x" by simp_all
    then have "(x - 1) div 2 = y - 1" using x by simp
    then have "x AND (x - 1) = 0 \<longleftrightarrow> (\<exists>k. y = 2 ^ k)" using rec x less.IH [OF y(2,1)] by simp
    also have "\<dots> \<longleftrightarrow> (\<exists>k. x = 2 ^ k)"
    proof
      assume "\<exists>k. x = 2 ^ k"
      then obtain k where k: "x = 2 ^ k" by blast
      with True have "k \<noteq> 0" by (metis odd_one power_0)
      with k x show "\<exists>k. y = 2 ^ k" by (cases k) auto
    qed (use x in \<open>auto intro: exI [of _ "Suc _"]\<close>)
    finally show ?thesis .
  next
    case False
    then obtain y where x: "x = 2 * y + 1" by (elim oddE)
    then have "x AND (x - 1) = 2 * y" using rec by simp
    moreover have "(\<exists>k. x = 2 ^ k) \<longleftrightarrow> y = 0"
    proof
      assume "\<exists>k. x = 2 ^ k"
      then obtain k where k: "x = 2 ^ k" by blast
      with False have "k = 0" by (cases k) auto
      with k x show "y = 0" by simp
    qed (use x in \<open>auto intro: exI [of _ 0]\<close>)
    ultimately show ?thesis by simp
  qed
qed

lemma u_is_power_of_two_val: "u_is_power_of_two v \<longleftrightarrow> (\<exists>k. unat v = 2 ^ k)"
proof (cases "v = 0")
  case False
  then have pos: "0 < unat v" by (simp add: unat_gt_0)
  then have "unat (v AND (v - 1)) = unat v AND (unat v - 1)"
    by (simp add: unsigned_and_eq unat_sub word_le_nat_alt)
  then have "v AND (v - 1) = 0 \<longleftrightarrow> unat v AND (unat v - 1) = 0" by (metis unat_eq_0)
  then show ?thesis using False and_pred_eq_0_nat [OF pos] by (simp add: u_is_power_of_two_def)
qed (simp add: u_is_power_of_two_def)

lemma log2_unique: "(2 :: int) ^ r \<le> 2 ^ k \<Longrightarrow> (2 :: int) ^ k < 2 ^ Suc r \<Longrightarrow> r = k"
  using power_strict_increasing_iff [of "2 :: int" k "Suc r"] power_increasing_iff [of "2 :: int" r k] by simp

lemma int_eq_pow2: "int x = 2 ^ k \<longleftrightarrow> x = 2 ^ k"
  using of_nat_eq_iff [of x "2 ^ k", where 'a = int] by simp

lemma dval_low_zero:
  assumes "ds \<noteq> []" "\<forall>i < length ds - 1. ds ! i = 0"
  shows "dval ds = digit_base ^ (length ds - 1) * unat (last ds)"
proof -
  have "\<forall>d \<in> set (butlast ds). d = 0" using assms(2) by (auto simp: in_set_conv_nth nth_butlast)
  then have "dval (butlast ds) = 0" by (simp add: dval_eq_0_iff)
  then show ?thesis using dval_append [of "butlast ds" "[last ds]"] assms(1) by simp
qed

lemma digits_power_of_two:
  assumes "ds \<noteq> []" "last ds \<noteq> 0"
  shows "(\<forall>i < length ds - 1. ds ! i = 0) \<and> u_is_power_of_two (last ds) \<longleftrightarrow> (\<exists>k. dval ds = 2 ^ k)"
proof
  assume "(\<forall>i < length ds - 1. ds ! i = 0) \<and> u_is_power_of_two (last ds)"
  then obtain j where "unat (last ds) = 2 ^ j" "dval ds = digit_base ^ (length ds - 1) * unat (last ds)"
    using dval_low_zero [OF assms(1)] u_is_power_of_two_val by auto
  then have "dval ds = 2 ^ (32 * (length ds - 1) + j)" by (simp add: digit_base_pow power_add)
  then show "\<exists>k. dval ds = 2 ^ k" by blast
next
  assume "\<exists>k. dval ds = 2 ^ k"
  then obtain k where k: "dval ds = 2 ^ k" by blast
  let ?n = "length ds - 1"
  note bounds = dval_last_bounds [OF assms(1)]
  have "32 * ?n \<le> k"
  proof (rule ccontr)
    assume "\<not> 32 * ?n \<le> k"
    then have "(2 :: nat) ^ k < 2 ^ (32 * ?n)" by (intro power_strict_increasing) simp_all
    moreover have "(2 :: nat) ^ (32 * ?n) \<le> unat (last ds) * 2 ^ (32 * ?n)"
      using assms(2) by (simp add: unat_gt_0 Suc_le_eq)
    ultimately show False using bounds(1) unfolding k digit_base_pow by linarith
  qed
  then obtain j where j: "dval ds = 2 ^ j * digit_base ^ ?n"
    using k by (metis digit_base_pow le_add_diff_inverse2 power_add)
  have eq: "dval ds = dval (butlast ds) + digit_base ^ ?n * unat (last ds)"
    using dval_append [of "butlast ds" "[last ds]"] assms(1) by simp
  have lt: "dval (butlast ds) < digit_base ^ ?n" using dval_less [of "butlast ds"] by simp
  have "dval (butlast ds) = dval ds mod digit_base ^ ?n" using eq lt by simp
  also have "\<dots> = 0" unfolding j by simp
  finally have b0: "dval (butlast ds) = 0" .
  then have "unat (last ds) = 2 ^ j" using eq j by simp
  moreover have "\<forall>d \<in> set (butlast ds). d = 0" using b0 by (simp add: dval_eq_0_iff)
  then have "\<forall>i < ?n. ds ! i = 0" by (metis length_butlast nth_butlast nth_mem)
  ultimately show "(\<forall>i < length ds - 1. ds ! i = 0) \<and> u_is_power_of_two (last ds)"
    using u_is_power_of_two_val by auto
qed

lemma mpz_is_power_of_two_val:
  assumes "mpz_ok a"
  shows "mpz_is_power_of_two a = Some k \<longleftrightarrow> mpz_val a = 2 ^ k"
proof (cases "0 < mpz_val a")
  case pos: True
  have "mpz_is_power_of_two a = (if \<exists>k. mpz_val a = 2 ^ k then Some (mpz_log2 a) else None)"
  proof (cases "is_small a")
    case True
    have "uint (of_int (m_val a) :: digit) = m_val a"
      using pos True small_range [OF assms] by (intro uint_of_int_32) (simp_all add: mpz_val_small)
    then have n: "int (unat (of_int (m_val a) :: digit)) = mpz_val a" using True by (simp only: uint_nat mpz_val_small)
    have "(\<exists>k. unat (of_int (m_val a) :: digit) = 2 ^ k) \<longleftrightarrow> (\<exists>k. mpz_val a = 2 ^ k)"
      unfolding n [symmetric] by (simp only: int_eq_pow2)
    then show ?thesis
      using True pos assms by (simp add: mpz_is_power_of_two_def mpz_log2_def u_is_power_of_two_val)
  next
    case False
    note c = mpz_large_cell [OF assms False]
    then have v: "mpz_val a = int (dval (m_digits a))" using pos by simp
    have "(\<exists>k. dval (m_digits a) = 2 ^ k) \<longleftrightarrow> (\<exists>k. mpz_val a = 2 ^ k)"
      unfolding v by (simp only: int_eq_pow2)
    moreover have "m_digits a ! (length (m_digits a) - 1) = last (m_digits a)" using c by (simp add: last_conv_nth)
    ultimately show ?thesis
      using False pos assms digits_power_of_two [of "m_digits a"] c
      by (auto simp: mpz_is_power_of_two_def Let_def u_is_power_of_two_def)
  qed
  moreover have "mpz_log2 a = j" if "mpz_val a = 2 ^ j" for j
    using mpz_log2_val [OF assms pos] that log2_unique by simp
  ultimately show ?thesis by auto
next
  case False
  then have "mpz_val a \<noteq> 2 ^ k" by (metis zero_less_power zero_less_numeral)
  with False assms show ?thesis by (simp add: mpz_is_power_of_two_def)
qed

subsection \<open>Trailing zeros\<close>

definition right_zeros_inv :: "int \<Rightarrow> nat \<Rightarrow> nat \<Rightarrow> int \<times> nat \<Rightarrow> bool" where
  "right_zeros_inv v0 r0 k = (\<lambda>(v, r). r0 \<le> r \<and> v0 = 2 ^ (r - r0) * v \<and> \<not> 2 ^ k dvd v)"

lemma right_zeros_stage_inv:
  assumes "right_zeros_inv v0 r0 (2 * k) s"
  shows "right_zeros_inv v0 r0 k (right_zeros_stage k s)"
proof -
  obtain v r where s: "s = (v, r)" by fastforce
  have v: "r0 \<le> r" "v0 = 2 ^ (r - r0) * v" "\<not> 2 ^ (2 * k) dvd v"
    using assms by (simp_all add: right_zeros_inv_def s)
  show ?thesis
  proof (cases "2 ^ k dvd v")
    case True
    then obtain w where w: "v = 2 ^ k * w" by (elim dvdE)
    then have "\<not> 2 ^ k dvd w" using v(3) by (auto simp: mult_2 power_add mult_dvd_mono)
    moreover have "r + k - r0 = (r - r0) + k" using v(1) by simp
    then have "v0 = 2 ^ (r + k - r0) * w" unfolding v(2) w by (simp only: power_add mult.assoc)
    moreover have "v smod 2 ^ k = 0" "v sdiv 2 ^ k = w" using True w by (simp_all add: smod_eq_0_iff sdiv_dvd)
    ultimately show ?thesis using v(1) by (simp add: s right_zeros_stage_def right_zeros_inv_def)
  next
    case False
    then show ?thesis using v by (simp add: s right_zeros_stage_def right_zeros_inv_def smod_eq_0_iff)
  qed
qed

lemma count_digit_right_zeros_val:
  assumes "v \<noteq> 0" "\<bar>v\<bar> < 2 ^ 32"
  shows "\<exists>j w. count_digit_right_zeros v r = r + j \<and> v = 2 ^ j * w \<and> odd w"
proof -
  have "\<not> 2 ^ 32 dvd v" using assms by (auto dest!: dvd_imp_le_int)
  then have "right_zeros_inv v r (2 * 16) (v, r)" by (simp add: right_zeros_inv_def)
  from right_zeros_stage_inv [OF this] have "right_zeros_inv v r (2 * 8) (right_zeros_stage 16 (v, r))" by simp
  from right_zeros_stage_inv [OF this]
  have "right_zeros_inv v r (2 * 4) (right_zeros_stage 8 (right_zeros_stage 16 (v, r)))" by simp
  from right_zeros_stage_inv [OF this]
  have "right_zeros_inv v r (2 * 2) (right_zeros_stage 4 (right_zeros_stage 8 (right_zeros_stage 16 (v, r))))" by simp
  from right_zeros_stage_inv [OF this]
  have "right_zeros_inv v r (2 * 1) (right_zeros_stage 2 (right_zeros_stage 4 (right_zeros_stage 8 (right_zeros_stage 16 (v, r)))))"
    by simp
  from right_zeros_stage_inv [OF this] obtain w q where
    "right_zeros_stage 1 (right_zeros_stage 2 (right_zeros_stage 4 (right_zeros_stage 8 (right_zeros_stage 16 (v, r))))) = (w, q)"
    "r \<le> q" "v = 2 ^ (q - r) * w" "odd w"
    by (auto simp: right_zeros_inv_def split: prod.splits)
  then show ?thesis by (intro exI [of _ "q - r"] exI [of _ w]) (simp add: count_digit_right_zeros_def)
qed

lemma right_zeros_digits_val:
  assumes "dval ds \<noteq> 0"
  shows "\<exists>j w. right_zeros_digits ds r = r + j \<and> dval ds = 2 ^ j * w \<and> odd w"
  using assms
proof (induction ds arbitrary: r)
  case (Cons d ds)
  show ?case
  proof (cases "d = 0")
    case True
    then obtain j w where "right_zeros_digits ds (r + 32) = r + 32 + j" "dval ds = 2 ^ j * w" "odd w"
      using Cons.IH [of "r + 32"] Cons.prems by auto
    then show ?thesis
      using True by (intro exI [of _ "32 + j"] exI [of _ w]) (simp add: power_add)
  next
    case False
    have "uint d \<noteq> 0" using False by (simp add: uint_0_iff)
    moreover have "uint d = int (unat d)" by (simp only: uint_nat)
    then have "\<bar>uint d\<bar> < 4294967296" using unat_digit_lt [of d] by linarith
    then have "\<bar>uint d\<bar> < 2 ^ 32" by simp
    ultimately obtain j w where j: "count_digit_right_zeros (uint d) r = r + j" "uint d = 2 ^ j * w" "odd w"
      using count_digit_right_zeros_val by blast
    have w0: "0 \<le> w" using j(2) uint_ge_0 [of d] by (simp add: zero_le_mult_iff)
    then obtain n where n: "w = int n" by (metis nonneg_int_cases)
    have "2 ^ j * int n = int (2 ^ j * n)" by simp
    with j(2) \<open>uint d = int (unat d)\<close> have "int (unat d) = int (2 ^ j * n)" unfolding n by linarith
    then have d: "unat d = 2 ^ j * n" "odd n" using j(3) n by (simp only: of_nat_eq_iff, simp)
    have "j < 32"
    proof (rule ccontr)
      assume "\<not> j < 32"
      then have "(2 :: nat) ^ 32 \<le> 2 ^ j" by (intro power_increasing) simp_all
      moreover have "2 ^ j \<le> 2 ^ j * n" using odd_pos [OF d(2)] by simp
      ultimately show False using d(1) unat_digit_lt [of d] by simp
    qed
    then have "digit_base = 2 ^ j * 2 ^ (32 - j)" "even ((2 :: nat) ^ (32 - j))" by (simp_all add: pow2_split)
    then have "dval (d # ds) = 2 ^ j * (n + 2 ^ (32 - j) * dval ds)" "odd (n + 2 ^ (32 - j) * dval ds)"
      using d by (simp_all add: algebra_simps)
    then show ?thesis using False j(1) by auto
  qed
qed simp

text \<open>\<open>power_of_two_multiple(n)\<close>: the largest \<open>k\<close> such that \<open>n\<close> is a multiple of \<open>2^k\<close>.\<close>

lemma mpz_power_of_two_multiple_val:
  assumes "mpz_ok a" "mpz_val a \<noteq> 0"
  shows "\<exists>w. mpz_val a = 2 ^ mpz_power_of_two_multiple a * w \<and> odd w"
proof (cases "is_small a")
  case True
  then have "m_val a \<noteq> 0" "\<bar>m_val a\<bar> < 2 ^ 32" using assms small_range [OF assms(1)] by (simp_all add: mpz_val_small)
  then obtain j w where "count_digit_right_zeros (m_val a) 0 = 0 + j \<and> m_val a = 2 ^ j * w \<and> odd w"
    using count_digit_right_zeros_val by blast
  then show ?thesis using True assms by (auto simp: mpz_power_of_two_multiple_def mpz_val_small)
next
  case False
  note c = mpz_large_cell [OF assms(1) False]
  then have "dval (m_digits a) \<noteq> 0" using assms(2) by auto
  then obtain j w where j: "right_zeros_digits (m_digits a) 0 = 0 + j" "dval (m_digits a) = 2 ^ j * w" "odd w"
    using right_zeros_digits_val by blast
  have s: "m_val a = 1 \<or> m_val a = - 1" "mpz_val a = m_val a * int (dval (m_digits a))"
    using assms(1) False by (simp_all add: mpz_ok_def mpz_val_def)
  then show ?thesis
    using j False assms by (intro exI [of _ "m_val a * int w"]) (auto simp: mpz_power_of_two_multiple_def)
qed

section \<open>Powers\<close>

lemma mpz_power_two:
  assumes "is_small a" "m_val a = 2"
  shows "\<exists>b. mpz_power a p = Inr b \<and> mpz_wf b \<and> mpz_val b = 2 ^ unat p"
proof (cases "unat p < 31")
  case True
  then have "(2 :: int) ^ unat p \<le> 2 ^ 30" by (intro power_increasing) simp_all
  moreover have "int_min \<le> 0" "0 \<le> (2 :: int) ^ unat p" by (simp_all add: int_limits)
  then have "int_min \<le> 2 ^ unat p" by (rule order_trans)
  ultimately show ?thesis using assms True by (simp add: mpz_power_def int_limits(2))
next
  case False
  let ?w = "unat p div 32" and ?s = "unat p mod 32"
  let ?d = "push_bit ?s 1 :: digit" and ?ds = "replicate ?w 0 @ [push_bit ?s 1 :: digit]"
  have "?s < 32" by simp
  then have d: "unat ?d = 2 ^ ?s" using unat_pow2_digit [of ?s] by simp
  then have "dval ?ds = digit_base ^ ?w * 2 ^ ?s" by (simp add: dval_append)
  also have "\<dots> = 2 ^ (32 * ?w + ?s)" by (simp only: digit_base_pow power_add)
  finally have v: "dval ?ds = 2 ^ unat p" by simp
  have "?d \<noteq> 0" using d by (metis power_not_zero unat_0 zero_neq_numeral)
  moreover have "(2 :: int) ^ 31 \<le> 2 ^ unat p" using False by (intro power_increasing) simp_all
  ultimately have "mpz_wf (mk_large 1 ?ds)" using v int_limits by (simp add: mpz_wf_def)
  moreover have "mpz_val (mk_large 1 ?ds) = 2 ^ unat p" using v by simp
  moreover have "mpz_power a p = Inr (mk_large 1 ?ds)" using False assms by (simp add: mpz_power_def Let_def)
  ultimately show ?thesis by blast
qed

lemma mpz_power_val:
  assumes "mpz_ok a" "unat p < 2 ^ 31" "mpz_val a \<noteq> 0 \<or> p \<noteq> 0"
  shows "\<exists>b. mpz_power a p = Inr b \<and> mpz_ok b \<and> (mpz_wf a \<longrightarrow> mpz_wf b) \<and> mpz_val b = mpz_val a ^ unat p"
proof -
  consider (two) "is_small a" "m_val a = 2" | (zero) "is_small a" "m_val a = 0" | (one) "is_small a" "m_val a = 1"
    | (gen) "\<not> (is_small a \<and> (m_val a = 2 \<or> m_val a = 0 \<or> m_val a = 1))" by blast
  then show ?thesis
  proof cases
    case two
    then show ?thesis using mpz_power_two [of a p] by (auto simp: mpz_val_small)
  next
    case gen
    then show ?thesis
      using mpz_num.power_loop_val [of a "mk_z 1" p] mpz_canon.power_loop_val [of a "mk_z 1" p] assms int_limits
      by (auto simp: mpz_power_def)
  next
    case zero
    then show ?thesis using assms int_limits by (simp add: mpz_power_def mpz_val_small unat_gt_0)
  next
    case one
    then show ?thesis using int_limits by (simp add: mpz_power_def mpz_val_small)
  qed
qed

lemma mpz_power_diverges:
  assumes "mpz_ok a" "2 ^ 31 \<le> unat p" "\<not> (is_small a \<and> (m_val a = 2 \<or> m_val a = 0 \<or> m_val a = 1))"
  shows "mpz_power a p = Inl Nontermination"
  using assms(3) mpz_num.power_loop_diverges [OF assms(1) _ assms(2), of "mk_z 1"] int_limits
  by (auto simp: mpz_power_def)

end
