(* ===== verification/Mpz_Bits.thy ===== *)
theory Mpz_Bits
  imports Mpz_Shift
begin

text \<open>
  Conversions to machine integers and bitwise operations (util/mpz.h, util/mpz.cpp): the range
  tests and accessors for \<open>int64_t\<close>, \<open>uint64_t\<close>, \<open>int\<close> and \<open>unsigned\<close>, \<open>decompose\<close>,
  \<open>get_bit\<close>, and \<open>bitwise_or\<close>, \<open>bitwise_and\<close>, \<open>bitwise_xor\<close>, \<open>bitwise_not\<close>, which go through the
  numbers 64 bits at a time.
\<close>

unbundle bit_operations_syntax

section \<open>Operations\<close>

subsection \<open>Machine integers\<close>

definition is_abs_uint64 :: "mpz \<Rightarrow> bool" where
  "is_abs_uint64 a \<longleftrightarrow> is_small a \<or> length (m_digits a) \<le> 2"

definition big_abs_to_uint64 :: "mpz \<Rightarrow> double_digit" where
  "big_abs_to_uint64 a =
     (if length (m_digits a) = 1 then ucast (m_digits a ! 0)
      else push_bit 32 (ucast (m_digits a ! 1)) OR ucast (m_digits a ! 0))"

definition mpz_is_uint64 :: "mpz \<Rightarrow> bool" where
  "mpz_is_uint64 a \<longleftrightarrow> \<not> m_val a < 0 \<and> (is_small a \<or> length (m_digits a) \<le> 2)"

definition mpz_is_int64 :: "mpz \<Rightarrow> bool" where
  "mpz_is_int64 a \<longleftrightarrow> is_small a \<or>
     is_abs_uint64 a \<and>
     (let num = big_abs_to_uint64 a; msb_val = push_bit 63 1 AND num
      in if m_val a \<ge> 0 then 0 = msb_val else 0 = msb_val \<or> msb_val = num)"

definition mpz_get_uint64 :: "mpz \<Rightarrow> double_digit" where
  "mpz_get_uint64 a = (if is_small a then of_int (m_val a) else big_abs_to_uint64 a)"

definition mpz_get_int64 :: "mpz \<Rightarrow> int" where
  "mpz_get_int64 a =
     (if is_small a then m_val a
      else
        (let num = big_abs_to_uint64 a
         in if m_val a < 0 then
              if num \<noteq> 0 \<and> push_bit 1 num = 0 then - (2 ^ 63) else - sint num
            else sint num))"

definition mpz_is_uint :: "mpz \<Rightarrow> bool" where
  "mpz_is_uint a \<longleftrightarrow> mpz_is_uint64 a \<and> uint (mpz_get_uint64 a) < 4294967295"

definition mpz_get_uint :: "mpz \<Rightarrow> digit" where
  "mpz_get_uint a = ucast (mpz_get_uint64 a)"

definition mpz_is_int :: "mpz \<Rightarrow> bool" where
  "mpz_is_int a \<longleftrightarrow> mpz_is_int64 a \<and> int_min < mpz_get_int64 a \<and> mpz_get_int64 a < int_max"

definition mpz_get_int :: "mpz \<Rightarrow> int" where
  "mpz_get_int a = wrap_int (mpz_get_int64 a)"

definition mpz_is_even :: "mpz \<Rightarrow> bool" where
  "mpz_is_even a = (if is_small a then m_val a AND 1 = 0 else 1 AND m_digits a ! 0 = 0)"

definition mpz_is_odd :: "mpz \<Rightarrow> bool" where "mpz_is_odd a \<longleftrightarrow> \<not> mpz_is_even a"

text \<open>\<open>decompose\<close> returns whether the number is negative, and its digits.\<close>

definition mpz_decompose :: "mpz \<Rightarrow> bool \<times> digit list" where
  "mpz_decompose a =
     (if is_small a then
        if m_val a < 0 then (True, [of_int (- m_val a)]) else (False, [of_int (m_val a)])
      else (m_val a < 0, m_digits a))"

definition mpz_get_bit :: "mpz \<Rightarrow> nat \<Rightarrow> bool" where
  "mpz_get_bit a index =
     (if is_small a then index < 32 \<and> m_val a AND 2 ^ index \<noteq> 0
      else index < length (m_digits a) * 32 \<and> m_digits a ! (index div 32) AND 2 ^ (index mod 32) \<noteq> 0)"

subsection \<open>Bitwise operations\<close>

text \<open>\<open>m_two64\<close>, as the constructor of \<open>mpz_manager\<close> computes it.\<close>

definition m_two64 :: mpz where
  "m_two64 = mpz_add (mpz_set_ui64 (- 1)) (mk_z 1)"

record bitwise_state =
  bw_a1 :: mpz
  bw_b1 :: mpz
  bw_m :: mpz
  bw_c :: mpz

definition bitwise_step ::
  "(double_digit \<Rightarrow> double_digit \<Rightarrow> double_digit) \<Rightarrow> bitwise_state \<Rightarrow> bitwise_state res" where
  "bitwise_step f s =
     bind_res (mpz_mod (bw_a1 s) m_two64) (\<lambda>a2.
     bind_res (mpz_mod (bw_b1 s) m_two64) (\<lambda>b2.
       let v = f (mpz_get_uint64 a2) (mpz_get_uint64 b2);
           tmp = mpz_mul (mpz_set_ui64 v) (bw_m s)
       in bind_res (mpz_div (bw_a1 s) m_two64) (\<lambda>a1.
          bind_res (mpz_div (bw_b1 s) m_two64) (\<lambda>b1.
            Inr \<lparr>bw_a1 = a1, bw_b1 = b1, bw_m = mpz_mul (bw_m s) m_two64, bw_c = mpz_add (bw_c s) tmp\<rparr>))))"

definition bitwise_loop ::
  "(double_digit \<Rightarrow> double_digit \<Rightarrow> double_digit) \<Rightarrow> mpz \<Rightarrow> mpz \<Rightarrow> bitwise_state res" where
  "bitwise_loop f a b =
     while_res (\<lambda>s. \<not> mpz_is_zero (bw_a1 s) \<and> \<not> mpz_is_zero (bw_b1 s)) (bitwise_step f)
       \<lparr>bw_a1 = a, bw_b1 = b, bw_m = mk_z 1, bw_c = mk_z 0\<rparr>"

text \<open>The digits left when one of the numbers is exhausted, which \<open>bitwise_or\<close> and \<open>bitwise_xor\<close> add.\<close>

definition bitwise_rest :: "bitwise_state \<Rightarrow> mpz" where
  "bitwise_rest s =
     (let c = (if \<not> mpz_is_zero (bw_a1 s) then mpz_add (bw_c s) (mpz_mul (bw_a1 s) (bw_m s)) else bw_c s)
      in if \<not> mpz_is_zero (bw_b1 s) then mpz_add c (mpz_mul (bw_b1 s) (bw_m s)) else c)"

definition mpz_bitwise_or :: "mpz \<Rightarrow> mpz \<Rightarrow> mpz res" where
  "mpz_bitwise_or a b =
     (if is_small a \<and> is_small b then Inr (mk_z (m_val a OR m_val b))
      else bind_res (bitwise_loop (OR) a b) (\<lambda>s. Inr (bitwise_rest s)))"

definition mpz_bitwise_and :: "mpz \<Rightarrow> mpz \<Rightarrow> mpz res" where
  "mpz_bitwise_and a b =
     (if is_small a \<and> is_small b then Inr (mk_z (m_val a AND m_val b))
      else bind_res (bitwise_loop (AND) a b) (\<lambda>s. Inr (bw_c s)))"

definition mpz_bitwise_xor :: "mpz \<Rightarrow> mpz \<Rightarrow> mpz res" where
  "mpz_bitwise_xor a b =
     (if is_small a \<and> is_small b then Inr (mpz_set_i64 (m_val a XOR m_val b))
      else bind_res (bitwise_loop (XOR) a b) (\<lambda>s. Inr (bitwise_rest s)))"

text \<open>\<open>bitwise_not(sz, a, c)\<close>. On a small number the mask is an \<open>int64_t\<close>: for \<open>sz = 63\<close> the subtraction
  \<open>(1 << 63) - 1\<close> overflows, which is undefined.\<close>

record not_state =
  nt_sz :: nat
  nt_a1 :: mpz
  nt_m :: mpz
  nt_c :: mpz

definition not_step :: "not_state \<Rightarrow> not_state res" where
  "not_step s =
     bind_res (mpz_mod (nt_a1 s) m_two64) (\<lambda>a2.
       let n = mpz_get_uint64 a2;
           v = (if nt_sz s < 64 then (push_bit (nt_sz s) 1 - 1) AND NOT n else NOT n);
           tmp = mpz_mul (mpz_set_ui64 v) (nt_m s)
       in bind_res (mpz_div (nt_a1 s) m_two64) (\<lambda>a1.
            Inr \<lparr>nt_sz = nt_sz s - (if nt_sz s < 64 then nt_sz s else 64), nt_a1 = a1,
                 nt_m = mpz_mul (nt_m s) m_two64, nt_c = mpz_add (nt_c s) tmp\<rparr>))"

definition mpz_bitwise_not :: "nat \<Rightarrow> mpz \<Rightarrow> mpz res" where
  "mpz_bitwise_not sz a =
     (if is_small a \<and> sz \<le> 63 then
        (if sz = 63 then Inl Undefined_behaviour
         else Inr (mpz_set_i64 (NOT (m_val a) AND (2 ^ sz - 1))))
      else bind_res (while_res (\<lambda>s. 0 < nt_sz s) not_step
               \<lparr>nt_sz = sz, nt_a1 = a, nt_m = mk_z 1, nt_c = mk_z 0\<rparr>)
             (\<lambda>s. Inr (nt_c s)))"

section \<open>Machine integers\<close>

lemma big_abs_to_uint64_val:
  assumes "mpz_ok a" "\<not> is_small a" "length (m_digits a) \<le> 2"
  shows "uint (big_abs_to_uint64 a) = \<bar>mpz_val a\<bar>"
proof -
  note c = mpz_large_cell [OF assms(1,2)]
  then consider d where "m_digits a = [d]" | d e where "m_digits a = [d, e]"
    using assms(3) by (cases "m_digits a" rule: remdups_adj.cases) auto
  then have "unat (big_abs_to_uint64 a) = dval (m_digits a)"
  proof cases
    case 1
    then show ?thesis by (simp add: big_abs_to_uint64_def unat_ucast_up)
  next
    case 2
    then show ?thesis
      using unat_pair_digits [of e d] by (simp add: big_abs_to_uint64_def algebra_simps)
  qed
  then have "uint (big_abs_to_uint64 a) = int (dval (m_digits a))" by (simp only: uint_nat)
  with c show ?thesis by simp
qed

lemma mpz_two_digits:
  assumes "mpz_ok a" "\<not> is_small a"
  shows "length (m_digits a) \<le> 2 \<longleftrightarrow> \<bar>mpz_val a\<bar> < 18446744073709551616"
proof -
  note c = mpz_large_cell [OF assms]
  have "dval (m_digits a) < 18446744073709551616" if "length (m_digits a) \<le> 2"
  proof -
    have "digit_base ^ length (m_digits a) \<le> digit_base ^ 2" using that by (intro power_increasing) simp_all
    then show ?thesis using dval_less [of "m_digits a"] by simp
  qed
  moreover have "18446744073709551616 \<le> dval (m_digits a)" if "\<not> length (m_digits a) \<le> 2"
  proof -
    have "digit_base ^ 2 * 1 \<le> digit_base ^ (length (m_digits a) - 1) * unat (last (m_digits a))"
      using that c by (intro mult_le_mono power_increasing) (simp_all add: unat_gt_0 Suc_le_eq)
    then show ?thesis using dval_ge_last [of "m_digits a"] c by simp
  qed
  ultimately show ?thesis using c by (cases "length (m_digits a) \<le> 2") force+
qed

lemma bit_63_iff: "bit (w :: double_digit) 63 \<longleftrightarrow> 9223372036854775808 \<le> uint w"
proof -
  have "bit w 63 \<longleftrightarrow> odd (uint w div 9223372036854775808)"
    using bit_iff_odd [of "uint w" 63] by (simp add: bit_unsigned_iff)
  moreover have "0 \<le> uint w" "uint w < 18446744073709551616" using uint_lt2p [of w] by simp_all
  then have "uint w div 9223372036854775808 = (if 9223372036854775808 \<le> uint w then 1 else 0)"
    by (auto simp: div_pos_pos_trivial int_div_pos_eq [of _ _ 1 "uint w - 9223372036854775808"])
  ultimately show ?thesis by simp
qed

lemma and_one_bit: "push_bit n (1 :: 'a :: len word) AND w = (if bit w n then push_bit n 1 else 0)"
  by (rule bit_word_eqI) (auto simp: bit_simps)

lemma and_msb: "push_bit 63 (1 :: double_digit) AND w = (if 9223372036854775808 \<le> uint w then push_bit 63 1 else 0)"
  unfolding and_one_bit bit_63_iff ..

lemma eq_msb: "w = push_bit 63 (1 :: double_digit) \<longleftrightarrow> uint w = 9223372036854775808"
  by (simp add: word_uint_eq_iff)

lemma shifted_out: "w \<noteq> 0 \<and> push_bit 1 w = 0 \<longleftrightarrow> uint (w :: double_digit) = 9223372036854775808"
proof -
  have "push_bit 1 w = 0 \<longleftrightarrow> uint w * 2 mod 18446744073709551616 = 0"
    by (simp add: word_uint_eq_iff uint_word_ariths)
  moreover have "uint w = 0 \<or> uint w = 9223372036854775808" if "uint w * 2 mod 18446744073709551616 = 0"
  proof -
    obtain c where c: "uint w * 2 = 18446744073709551616 * c" using \<open>_ mod _ = 0\<close> by (auto simp: mod_eq_0_iff_dvd)
    moreover have "0 \<le> uint w" "uint w < 18446744073709551616" using uint_lt2p [of w] by simp_all
    ultimately have "0 \<le> c" "c < 2" by linarith+
    then have "c = 0 \<or> c = 1" by linarith
    with c show ?thesis by auto
  qed
  moreover have "w = 0 \<longleftrightarrow> uint w = 0" by (simp add: uint_0_iff)
  ultimately show ?thesis by auto
qed

lemma mpz_is_uint64_val [simp]:
  assumes "mpz_ok a"
  shows "mpz_is_uint64 a \<longleftrightarrow> 0 \<le> mpz_val a \<and> mpz_val a < 2 ^ 64"
proof (cases "is_small a")
  case True
  then show ?thesis using small_range [OF assms True] by (auto simp: mpz_is_uint64_def mpz_val_small)
next
  case False
  have "m_val a < 0 \<longleftrightarrow> mpz_val a < 0" using mpz_sign_val(2) [OF assms] by (simp add: mpz_sign_def)
  then show ?thesis using False mpz_two_digits [OF assms False] by (auto simp: mpz_is_uint64_def)
qed

lemma mpz_is_int64_val [simp]:
  assumes "mpz_ok a"
  shows "mpz_is_int64 a \<longleftrightarrow> - (2 ^ 63) \<le> mpz_val a \<and> mpz_val a < 2 ^ 63"
proof (cases "is_small a")
  case True
  then show ?thesis using small_range [OF assms True] by (auto simp: mpz_is_int64_def mpz_val_small)
next
  case False
  note two = mpz_two_digits [OF assms False] and num = big_abs_to_uint64_val [OF assms False]
  have sg: "0 \<le> m_val a \<longleftrightarrow> 0 \<le> mpz_val a" using mpz_sign_val(2) [OF assms] by (auto simp: mpz_sign_def)
  have "mpz_val a \<noteq> 0" using mpz_large_val [OF assms False] int_limits by auto
  show ?thesis
  proof (cases "length (m_digits a) \<le> 2")
    case True
    let ?n = "big_abs_to_uint64 a"
    have n: "uint ?n = \<bar>mpz_val a\<bar>" using num True .
    show ?thesis
      unfolding mpz_is_int64_def is_abs_uint64_def Let_def and_msb
      using False True sg n eq_msb [of ?n] by (auto simp: abs_if split: if_splits)
  next
    case long: False
    then show ?thesis using False two by (auto simp: mpz_is_int64_def is_abs_uint64_def)
  qed
qed

lemma mpz_get_uint64_val:
  assumes "mpz_ok a" "0 \<le> mpz_val a" "mpz_val a < 2 ^ 64"
  shows "uint (mpz_get_uint64 a) = mpz_val a"
proof (cases "is_small a")
  case True
  then show ?thesis using assms uint_of_int_64 [of "m_val a"] by (simp add: mpz_get_uint64_def mpz_val_small)
next
  case False
  then have "length (m_digits a) \<le> 2" using mpz_two_digits [OF assms(1) False] assms by simp
  then show ?thesis
    using big_abs_to_uint64_val [OF assms(1) False] assms False by (simp add: mpz_get_uint64_def)
qed

lemma sint_double: "sint (w :: double_digit) =
    (if 9223372036854775808 \<le> uint w then uint w - 18446744073709551616 else uint w)"
proof -
  have "sint w = (if bit w 63 then uint w - 2 ^ 64 else uint w)"
    by (simp add: sint_uint signed_take_bit_eq_take_bit_minus take_bit_word_eq_self bit_uint_iff flip: unsigned_take_bit_eq)
  then show ?thesis by (simp add: bit_63_iff)
qed

lemma mpz_get_int64_val:
  assumes "mpz_ok a" "- (2 ^ 63) \<le> mpz_val a" "mpz_val a < 2 ^ 63"
  shows "mpz_get_int64 a = mpz_val a"
proof (cases "is_small a")
  case True
  then show ?thesis by (simp add: mpz_get_int64_def mpz_val_small)
next
  case False
  let ?n = "big_abs_to_uint64 a"
  have "length (m_digits a) \<le> 2" using mpz_two_digits [OF assms(1) False] assms by simp
  then have n: "uint ?n = \<bar>mpz_val a\<bar>" using big_abs_to_uint64_val [OF assms(1) False] by simp
  have sg: "m_val a < 0 \<longleftrightarrow> mpz_val a < 0" using mpz_sign_val(2) [OF assms(1)] by (auto simp: mpz_sign_def)
  show ?thesis
    unfolding mpz_get_int64_def Let_def shifted_out sint_double
    using False n sg assms by (auto simp: abs_if split: if_splits)
qed

lemma mpz_is_even_val [simp]:
  assumes "mpz_ok a"
  shows "mpz_is_even a \<longleftrightarrow> even (mpz_val a)" "mpz_is_odd a \<longleftrightarrow> odd (mpz_val a)"
proof -
  show even: "mpz_is_even a \<longleftrightarrow> even (mpz_val a)"
  proof (cases "is_small a")
    case True
    then show ?thesis by (simp add: mpz_is_even_def mpz_val_small and_one_eq even_iff_mod_2_eq_zero)
  next
    case False
    then obtain s ds where a: "a = mk_large s ds" "s = 1 \<or> s = - 1" using mk_large_cases [OF assms] by blast
    then obtain d es where ds: "ds = d # es" using assms by (cases ds) auto
    have "even (dval ds) \<longleftrightarrow> even (unat d)" by (simp add: ds)
    also have "\<dots> \<longleftrightarrow> d AND 1 = 0"
      by (metis and_one_eq bit_0 bit_unsigned_iff even_iff_mod_2_eq_zero possible_bit_nat)
    finally have "even (int (dval ds)) \<longleftrightarrow> d AND 1 = 0" by (simp only: even_of_nat)
    then show ?thesis using a by (auto simp: mpz_is_even_def and.commute ds simp del: dval.simps)
  qed
  then show "mpz_is_odd a \<longleftrightarrow> odd (mpz_val a)" by (simp add: mpz_is_odd_def)
qed

lemma mpz_decompose_val:
  assumes "mpz_ok a" "mpz_decompose a = (neg, ds)"
  shows "neg \<longleftrightarrow> mpz_val a < 0" "int (dval ds) = \<bar>mpz_val a\<bar>"
proof -
  have large: "m_val a < 0 \<longleftrightarrow> mpz_val a < 0" using mpz_sign_val(2) [OF assms(1)] by (simp add: mpz_sign_def)
  then show "neg \<longleftrightarrow> mpz_val a < 0" using assms(2) by (auto simp: mpz_decompose_def split: if_splits)
  show "int (dval ds) = \<bar>mpz_val a\<bar>"
  proof (cases "is_small a")
    case True
    then show ?thesis
      using assms small_range [OF assms(1) True] uint_of_int_32 [of "m_val a"] uint_of_int_32 [of "- m_val a"]
      by (auto simp: mpz_decompose_def mpz_val_small split: if_splits)
  next
    case False
    then show ?thesis using assms mpz_large_cell [OF assms(1) False] by (simp add: mpz_decompose_def)
  qed
qed

text \<open>Bit \<open>n\<close> of an array is bit \<open>n mod 32\<close> of digit \<open>n div 32\<close>.\<close>

lemma bit_dval: "bit (dval ds) n \<longleftrightarrow> n < length ds * 32 \<and> bit (ds ! (n div 32)) (n mod 32)"
proof (induction ds arbitrary: n)
  case (Cons d ds)
  have d: "take_bit 32 (unat d) = unat d" using unat_digit_lt [of d] by (simp add: take_bit_nat_eq_self_iff)
  have "dval (d # ds) = push_bit 32 (dval ds) OR unat d"
    using unat_digit_lt [of d] or_eq_add_nat [of "unat d" 32 "dval ds"] by (simp add: push_bit_eq_mult algebra_simps)
  then have split: "bit (dval (d # ds)) n \<longleftrightarrow> 32 \<le> n \<and> bit (dval ds) (n - 32) \<or> bit (unat d) n"
    by (simp add: bit_or_iff bit_push_bit_iff)
  have low: "bit (unat d) n \<longleftrightarrow> n < 32 \<and> bit d n"
    using d bit_take_bit_iff [of 32 "unat d" n] by (auto simp: bit_unsigned_iff)
  show ?case
  proof (cases "n < 32")
    case False
    then obtain m where "n = m + 32" by (metis add.commute le_add_diff_inverse not_less)
    then show ?thesis using Cons.IH [of m] split low by simp
  qed (use split low in simp)
qed simp

lemma mpz_get_bit_val:
  assumes "mpz_ok a" "0 \<le> mpz_val a"
  shows "mpz_get_bit a i \<longleftrightarrow> bit (mpz_val a) i"
proof (cases "is_small a")
  case True
  have "take_bit 31 (m_val a) = m_val a"
    using assms True mpz_ok_small [OF True assms(1)] int_limits by (simp add: take_bit_int_eq_self_iff mpz_val_small)
  then have "bit (m_val a) i \<Longrightarrow> i < 31" using bit_take_bit_iff [of 31 "m_val a" i] by simp
  then show ?thesis
    using True by (auto simp: mpz_get_bit_def mpz_val_small and_exp_eq_0_iff_not_bit)
next
  case False
  note c = mpz_large_nonneg [OF assms(1) False assms(2)]
  have "bit (int (dval (m_digits a))) i \<longleftrightarrow> bit (dval (m_digits a)) i" by (simp add: bit_of_nat_iff_bit)
  moreover have "x AND 2 ^ (i mod 32) \<noteq> 0 \<longleftrightarrow> bit x (i mod 32)" for x :: digit
    by (simp add: and_exp_eq_0_iff_not_bit)
  ultimately show ?thesis
    using False c bit_dval [of "m_digits a" i] by (simp add: mpz_get_bit_def)
qed

section \<open>Bitwise operations\<close>

lemma m_two64_val [simp]: "mpz_val m_two64 = 18446744073709551616" "mpz_ok m_two64"
  by (simp_all add: m_two64_def int_limits unsigned_minus_1_eq_mask mask_eq_exp_minus_1)

lemma mod_two64:
  assumes "mpz_ok a" "0 \<le> mpz_val a"
  shows "\<exists>r. mpz_mod a m_two64 = Inr r \<and> mpz_ok r \<and> mpz_val r = take_bit 64 (mpz_val a)
      \<and> uint (mpz_get_uint64 r) = take_bit 64 (mpz_val a)"
    "\<exists>q. mpz_div a m_two64 = Inr q \<and> mpz_ok q \<and> mpz_val q = drop_bit 64 (mpz_val a) \<and> 0 \<le> mpz_val q"
proof -
  have t: "take_bit 64 (mpz_val a) = mpz_val a mod 18446744073709551616" by (simp add: take_bit_eq_mod)
  obtain r where r: "mpz_mod a m_two64 = Inr r" "mpz_ok r" "mpz_val r = mpz_val a mod 18446744073709551616"
    using mpz_mod_val [OF assms(1) m_two64_val(2)] by (auto simp: emod_def)
  have "uint (mpz_get_uint64 r) = mpz_val r"
    using r by (intro mpz_get_uint64_val) simp_all
  then show "\<exists>r. mpz_mod a m_two64 = Inr r \<and> mpz_ok r \<and> mpz_val r = take_bit 64 (mpz_val a)
      \<and> uint (mpz_get_uint64 r) = take_bit 64 (mpz_val a)"
    using r t by auto
  obtain q where "mpz_div a m_two64 = Inr q" "mpz_ok q" "mpz_val q = mpz_val a div 18446744073709551616"
    using mpz_div_val [OF assms(1) m_two64_val(2)] by (auto simp: ediv_def)
  then show "\<exists>q. mpz_div a m_two64 = Inr q \<and> mpz_ok q \<and> mpz_val q = drop_bit 64 (mpz_val a) \<and> 0 \<le> mpz_val q"
    using assms(2) by (auto simp: drop_bit_eq_div pos_imp_zdiv_nonneg_iff)
qed

text \<open>A bitwise operation on words and the operation on integers it implements: what the shared loop
  needs of \<open>|\<close>, \<open>&\<close> and \<open>^\<close>.\<close>

locale bitwise_op =
  fixes wop :: "double_digit \<Rightarrow> double_digit \<Rightarrow> double_digit"
    and iop :: "int \<Rightarrow> int \<Rightarrow> int"
  assumes uint_wop: "uint (wop x y) = iop (uint x) (uint y)"
    and take_bit_iop: "take_bit n (iop a b) = iop (take_bit n a) (take_bit n b)"
    and drop_bit_iop: "drop_bit n (iop a b) = iop (drop_bit n a) (drop_bit n b)"
begin

definition bitwise_inv :: "int \<Rightarrow> bitwise_state \<Rightarrow> bool" where
  "bitwise_inv r s \<longleftrightarrow> list_all mpz_ok [bw_a1 s, bw_b1 s, bw_m s, bw_c s]
     \<and> 0 \<le> mpz_val (bw_a1 s) \<and> 0 \<le> mpz_val (bw_b1 s)
     \<and> mpz_val (bw_c s) + iop (mpz_val (bw_a1 s)) (mpz_val (bw_b1 s)) * mpz_val (bw_m s) = r"

lemma iop_split: "iop a b = iop (take_bit 64 a) (take_bit 64 b) + 18446744073709551616 * iop (drop_bit 64 a) (drop_bit 64 b)"
  using bits_ident [of 64 "iop a b"] by (simp add: take_bit_iop drop_bit_iop push_bit_eq_mult mult.commute add.commute)

lemma bitwise_step_inv:
  assumes inv: "bitwise_inv r s" and nz: "mpz_val (bw_a1 s) \<noteq> 0"
  shows "\<exists>s'. bitwise_step wop s = Inr s' \<and> bitwise_inv r s' \<and> nat (mpz_val (bw_a1 s')) < nat (mpz_val (bw_a1 s))"
proof -
  let ?a = "mpz_val (bw_a1 s)" and ?b = "mpz_val (bw_b1 s)"
  have ok: "mpz_ok (bw_a1 s)" "mpz_ok (bw_b1 s)" "mpz_ok (bw_m s)" "mpz_ok (bw_c s)" "0 \<le> ?a" "0 \<le> ?b"
    and eq: "mpz_val (bw_c s) + iop ?a ?b * mpz_val (bw_m s) = r"
    using inv by (simp_all add: bitwise_inv_def)
  obtain a2 b2 where m: "mpz_mod (bw_a1 s) m_two64 = Inr a2" "uint (mpz_get_uint64 a2) = take_bit 64 ?a"
    "mpz_mod (bw_b1 s) m_two64 = Inr b2" "uint (mpz_get_uint64 b2) = take_bit 64 ?b"
    using mod_two64(1) ok by meson
  obtain a1 b1 where d: "mpz_div (bw_a1 s) m_two64 = Inr a1" "mpz_ok a1" "mpz_val a1 = drop_bit 64 ?a" "0 \<le> mpz_val a1"
    "mpz_div (bw_b1 s) m_two64 = Inr b1" "mpz_ok b1" "mpz_val b1 = drop_bit 64 ?b" "0 \<le> mpz_val b1"
    using mod_two64(2) ok by meson
  have "drop_bit 64 ?a < ?a"
    using nz ok(5) by (simp add: drop_bit_eq_div int_div_less_self)
  moreover have "mpz_val (bw_c s) + iop (take_bit 64 ?a) (take_bit 64 ?b) * mpz_val (bw_m s)
      + iop (drop_bit 64 ?a) (drop_bit 64 ?b) * (mpz_val (bw_m s) * 18446744073709551616) = r"
    using eq unfolding iop_split [of ?a ?b] by (simp add: algebra_simps)
  ultimately show ?thesis
    using ok m d nz by (simp add: bitwise_step_def Let_def bitwise_inv_def uint_wop)
qed

lemma bitwise_loop_val:
  assumes "mpz_ok a" "mpz_ok b" "0 \<le> mpz_val a" "0 \<le> mpz_val b"
  shows "\<exists>s. bitwise_loop wop a b = Inr s \<and> bitwise_inv (iop (mpz_val a) (mpz_val b)) s
    \<and> (mpz_val (bw_a1 s) = 0 \<or> mpz_val (bw_b1 s) = 0)"
  unfolding bitwise_loop_def
proof (rule while_res_total [where m = "\<lambda>s. nat (mpz_val (bw_a1 s))" and I = "bitwise_inv (iop (mpz_val a) (mpz_val b))"])
  show "\<exists>s'. bitwise_step wop s = Inr s' \<and> bitwise_inv (iop (mpz_val a) (mpz_val b)) s'
      \<and> nat (mpz_val (bw_a1 s')) < nat (mpz_val (bw_a1 s))"
    if "bitwise_inv (iop (mpz_val a) (mpz_val b)) s" "\<not> mpz_is_zero (bw_a1 s) \<and> \<not> mpz_is_zero (bw_b1 s)" for s
    using that by (intro bitwise_step_inv) (simp_all add: bitwise_inv_def)
qed (use assms int_limits in \<open>auto simp: bitwise_inv_def\<close>)

lemma bitwise_rest_val:
  assumes "bitwise_inv r s" "mpz_val (bw_a1 s) = 0 \<or> mpz_val (bw_b1 s) = 0"
    and "\<And>x. iop x 0 = x" "\<And>x. iop 0 x = x"
  shows "mpz_ok (bitwise_rest s) \<and> mpz_val (bitwise_rest s) = r"
  using assms by (auto simp: bitwise_inv_def bitwise_rest_def Let_def)

end

interpretation bitwise_or: bitwise_op "(OR)" "(OR)"
  by unfold_locales (simp_all add: unsigned_or_eq)

interpretation bitwise_and: bitwise_op "(AND)" "(AND)"
  by unfold_locales (simp_all add: unsigned_and_eq)

interpretation bitwise_xor: bitwise_op "(XOR)" "(XOR)"
  by unfold_locales (simp_all add: unsigned_xor_eq)

lemma pow2_numerals: "(2 :: int) ^ 31 = 2147483648" "(2 :: int) ^ 62 = 4611686018427387904"
    "(2 :: int) ^ 63 = 9223372036854775808"
  by simp_all

lemma small_nonneg:
  assumes "mpz_ok a" "0 \<le> mpz_val a" "is_small a"
  shows "0 \<le> m_val a" "m_val a < 2 ^ 31" "mpz_val a = m_val a"
  using assms mpz_ok_small [OF assms(3,1)] int_limits by (simp_all add: mpz_val_small)

lemma mpz_bitwise_or_val:
  assumes "mpz_ok a" "mpz_ok b" "0 \<le> mpz_val a" "0 \<le> mpz_val b"
  shows "\<exists>c. mpz_bitwise_or a b = Inr c \<and> mpz_ok c \<and> mpz_val c = mpz_val a OR mpz_val b"
proof (cases "is_small a \<and> is_small b")
  case True
  note sa = small_nonneg [of a] and sb = small_nonneg [of b]
  have "m_val a OR m_val b < 2 ^ 31" using True assms sa sb by (intro OR_upper) simp_all
  moreover have "0 \<le> m_val a OR m_val b" using True assms sa sb by simp
  ultimately have "int_min \<le> m_val a OR m_val b \<and> m_val a OR m_val b \<le> int_max"
    unfolding int_limits pow2_numerals by linarith
  then show ?thesis using True assms sa sb by (simp add: mpz_bitwise_or_def)
next
  case False
  obtain s where "bitwise_loop (OR) a b = Inr s" "bitwise_or.bitwise_inv (mpz_val a OR mpz_val b) s"
    "mpz_val (bw_a1 s) = 0 \<or> mpz_val (bw_b1 s) = 0"
    using bitwise_or.bitwise_loop_val [OF assms] by blast
  then show ?thesis
    using bitwise_or.bitwise_rest_val [of "mpz_val a OR mpz_val b" s] False by (auto simp: mpz_bitwise_or_def)
qed

lemma mpz_bitwise_xor_val:
  assumes "mpz_ok a" "mpz_ok b" "0 \<le> mpz_val a" "0 \<le> mpz_val b"
  shows "\<exists>c. mpz_bitwise_xor a b = Inr c \<and> mpz_ok c \<and> mpz_val c = mpz_val a XOR mpz_val b"
proof (cases "is_small a \<and> is_small b")
  case True
  note sa = small_nonneg [of a] and sb = small_nonneg [of b]
  have "m_val a XOR m_val b < 2 ^ 31" using True assms sa sb by (intro XOR_upper) simp_all
  moreover have "0 \<le> m_val a XOR m_val b" using True assms sa sb by simp
  ultimately have "- (2 ^ 63) \<le> m_val a XOR m_val b \<and> m_val a XOR m_val b < 2 ^ 63"
    unfolding pow2_numerals by linarith
  then show ?thesis using True assms sa sb mpz_set_i64_val [of "m_val a XOR m_val b"] by (simp add: mpz_bitwise_xor_def)
next
  case False
  obtain s where "bitwise_loop (XOR) a b = Inr s" "bitwise_xor.bitwise_inv (mpz_val a XOR mpz_val b) s"
    "mpz_val (bw_a1 s) = 0 \<or> mpz_val (bw_b1 s) = 0"
    using bitwise_xor.bitwise_loop_val [OF assms] by blast
  then show ?thesis
    using bitwise_xor.bitwise_rest_val [of "mpz_val a XOR mpz_val b" s] False by (auto simp: mpz_bitwise_xor_def)
qed

lemma mpz_bitwise_and_val:
  assumes "mpz_ok a" "mpz_ok b" "0 \<le> mpz_val a" "0 \<le> mpz_val b"
  shows "\<exists>c. mpz_bitwise_and a b = Inr c \<and> mpz_ok c \<and> mpz_val c = mpz_val a AND mpz_val b"
proof (cases "is_small a \<and> is_small b")
  case True
  note sa = small_nonneg [of a] and sb = small_nonneg [of b]
  have "m_val a AND m_val b \<le> m_val a" using True assms sa sb by (intro AND_upper1) simp_all
  moreover have "0 \<le> m_val a AND m_val b" using True assms sa sb by simp
  moreover have "m_val a < 2147483648" using sa(2) assms True by simp
  ultimately have "int_min \<le> m_val a AND m_val b \<and> m_val a AND m_val b \<le> int_max"
    unfolding int_limits by linarith
  then show ?thesis using True assms sa sb by (simp add: mpz_bitwise_and_def)
next
  case False
  obtain s where "bitwise_loop (AND) a b = Inr s" "bitwise_and.bitwise_inv (mpz_val a AND mpz_val b) s"
    "mpz_val (bw_a1 s) = 0 \<or> mpz_val (bw_b1 s) = 0"
    using bitwise_and.bitwise_loop_val [OF assms] by blast
  then show ?thesis using False by (auto simp: mpz_bitwise_and_def bitwise_and.bitwise_inv_def)
qed

text \<open>Complement within \<open>sz\<close> bits.\<close>

definition not_inv :: "int \<Rightarrow> not_state \<Rightarrow> bool" where
  "not_inv r s \<longleftrightarrow> list_all mpz_ok [nt_a1 s, nt_m s, nt_c s] \<and> 0 \<le> mpz_val (nt_a1 s)
     \<and> mpz_val (nt_c s) + take_bit (nt_sz s) (NOT (mpz_val (nt_a1 s))) * mpz_val (nt_m s) = r"

lemma drop_bit_NOT_int: "drop_bit n (NOT (a :: int)) = NOT (drop_bit n a)"
  by (rule bit_eqI) (simp add: bit_simps)

lemma take_bit_NOT_split:
  assumes "64 \<le> sz"
  shows "take_bit sz (NOT (a :: int)) =
    take_bit 64 (NOT a) + 18446744073709551616 * take_bit (sz - 64) (NOT (drop_bit 64 a))"
proof -
  have "take_bit sz (NOT a) = take_bit 64 (take_bit sz (NOT a)) + push_bit 64 (drop_bit 64 (take_bit sz (NOT a)))"
    using bits_ident [of 64 "take_bit sz (NOT a)"] by (simp add: add.commute)
  then show ?thesis
    using assms by (simp add: min_def drop_bit_take_bit drop_bit_NOT_int push_bit_eq_mult mult.commute)
qed

lemma not_step_inv:
  assumes inv: "not_inv r s" and pos: "0 < nt_sz s"
  shows "\<exists>s'. not_step s = Inr s' \<and> not_inv r s' \<and> nt_sz s' < nt_sz s"
proof -
  let ?a = "mpz_val (nt_a1 s)"
  have ok: "mpz_ok (nt_a1 s)" "mpz_ok (nt_m s)" "mpz_ok (nt_c s)" "0 \<le> ?a"
    and eq: "mpz_val (nt_c s) + take_bit (nt_sz s) (NOT ?a) * mpz_val (nt_m s) = r"
    using inv by (simp_all add: not_inv_def)
  obtain a2 where m: "mpz_mod (nt_a1 s) m_two64 = Inr a2" "uint (mpz_get_uint64 a2) = take_bit 64 ?a"
    using mod_two64(1) [OF ok(1,4)] by blast
  obtain a1 where d: "mpz_div (nt_a1 s) m_two64 = Inr a1" "mpz_ok a1" "mpz_val a1 = drop_bit 64 ?a" "0 \<le> mpz_val a1"
    using mod_two64(2) [OF ok(1,4)] by blast
  have v64: "uint (NOT (mpz_get_uint64 a2)) = take_bit 64 (NOT ?a)"
    using m(2) by (simp add: unsigned_not_eq take_bit_not_take_bit)
  have "push_bit n 1 - 1 = (mask n :: double_digit)" for n by (simp add: mask_eq_exp_minus_1 push_bit_eq_mult)
  then have vlow: "uint ((push_bit (nt_sz s) 1 - 1) AND NOT (mpz_get_uint64 a2)) = take_bit (nt_sz s) (NOT ?a)" if "nt_sz s < 64"
    using v64 that by (simp add: and.commute flip: take_bit_eq_mask) (simp add: unsigned_take_bit_eq min_def)
  show ?thesis
  proof (cases "nt_sz s < 64")
    case True
    then show ?thesis using ok m d pos eq vlow by (simp add: not_step_def Let_def not_inv_def)
  next
    case False
    then have "mpz_val (nt_c s) + take_bit 64 (NOT ?a) * mpz_val (nt_m s)
        + take_bit (nt_sz s - 64) (NOT (drop_bit 64 ?a)) * (mpz_val (nt_m s) * 18446744073709551616) = r"
      using eq take_bit_NOT_split [of "nt_sz s" ?a] by (simp add: algebra_simps)
    then show ?thesis using False ok m d v64 by (simp add: not_step_def Let_def not_inv_def)
  qed
qed

lemma mpz_bitwise_not_undefined: "is_small a \<Longrightarrow> mpz_bitwise_not 63 a = Inl Undefined_behaviour"
  by (simp add: mpz_bitwise_not_def)

lemma mpz_bitwise_not_val:
  assumes "mpz_ok a" "0 \<le> mpz_val a" "\<not> (is_small a \<and> sz = 63)"
  shows "\<exists>c. mpz_bitwise_not sz a = Inr c \<and> mpz_ok c \<and> mpz_val c = 2 ^ sz - 1 - mpz_val a mod 2 ^ sz"
proof -
  have not: "take_bit sz (NOT x) = 2 ^ sz - 1 - x mod 2 ^ sz" for x :: int
    unfolding take_bit_not_eq_mask_diff by (simp add: mask_eq_exp_minus_1 take_bit_eq_mod)
  show ?thesis
  proof (cases "is_small a \<and> sz \<le> 63")
    case True
    have v: "NOT (m_val a) AND (2 ^ sz - 1) = take_bit sz (NOT (m_val a))"
      by (simp add: take_bit_eq_mask mask_eq_exp_minus_1)
    have "(2 :: int) ^ sz \<le> 2 ^ 63" using True by (intro power_increasing) simp_all
    moreover have "take_bit sz (NOT (m_val a)) < 2 ^ sz" "0 \<le> take_bit sz (NOT (m_val a))" by simp_all
    ultimately have "- (2 ^ 63) \<le> take_bit sz (NOT (m_val a)) \<and> take_bit sz (NOT (m_val a)) < 2 ^ 63"
      unfolding pow2_numerals by linarith
    then show ?thesis
      using True assms(3) mpz_set_i64_val [of "take_bit sz (NOT (m_val a))"] not [of "m_val a"]
      by (auto simp: mpz_bitwise_not_def v mpz_val_small)
  next
    case False
    have "\<exists>s. while_res (\<lambda>s. 0 < nt_sz s) not_step \<lparr>nt_sz = sz, nt_a1 = a, nt_m = mk_z 1, nt_c = mk_z 0\<rparr> = Inr s
        \<and> mpz_ok (nt_c s) \<and> mpz_val (nt_c s) = take_bit sz (NOT (mpz_val a))"
    proof (rule while_res_total [where m = nt_sz and I = "not_inv (take_bit sz (NOT (mpz_val a)))"])
      show "\<exists>s'. not_step s = Inr s' \<and> not_inv (take_bit sz (NOT (mpz_val a))) s' \<and> nt_sz s' < nt_sz s"
        if "not_inv (take_bit sz (NOT (mpz_val a))) s" "0 < nt_sz s" for s
        using that by (rule not_step_inv)
    qed (use assms int_limits in \<open>auto simp: not_inv_def\<close>)
    then show ?thesis using False not [of "mpz_val a"] by (auto simp: mpz_bitwise_not_def)
  qed
qed

end
