(* ===== verification/Mpz_Root.thy ===== *)
theory Mpz_Root
  imports Mpz_Shift
begin

text \<open>
  Square roots and n-th roots (util/mpz.cpp): \<open>is_perfect_square\<close> and \<open>root\<close>, both by bisection.
  Each returns whether the root is exact, together with the root or the next integer above it.
\<close>

section \<open>Operations\<close>

subsection \<open>Square roots\<close>

record square_state =
  sq_lower :: mpz
  sq_upper :: mpz
  sq_lower_sq :: mpz
  sq_upper_sq :: mpz

definition square_continue :: "mpz \<Rightarrow> square_state \<Rightarrow> bool" where
  "square_continue a s \<longleftrightarrow> \<not> mpz_eq (sq_lower_sq s) a \<and> \<not> mpz_eq (mpz_add (sq_lower s) (mk_z 1)) (sq_upper s)"

definition square_step :: "mpz \<Rightarrow> square_state \<Rightarrow> square_state res" where
  "square_step a s =
     bind_res (mpz_div (mpz_add (sq_upper s) (sq_lower s)) (mk_z 2)) (\<lambda>mid.
       let sq_mid = mpz_mul mid mid
       in Inr (if mpz_gt sq_mid a then s\<lparr>sq_upper := mid, sq_upper_sq := sq_mid\<rparr>
               else s\<lparr>sq_lower := mid, sq_lower_sq := sq_mid\<rparr>))"

text \<open>\<open>is_perfect_square(a, root)\<close>: the result and the new value of \<open>root\<close>.\<close>

definition mpz_is_perfect_square :: "mpz \<Rightarrow> mpz \<Rightarrow> (bool \<times> mpz) res" where
  "mpz_is_perfect_square a root0 =
     (if mpz_is_neg a then Inr (False, root0)
      else if mpz_is_zero a then Inr (True, mk_z 0)
      else if mpz_is_one a then Inr (True, mk_z 1)
      else bind_res (while_res (square_continue a) (square_step a)
             \<lparr>sq_lower = mk_z 1, sq_upper = a, sq_lower_sq = mk_z 1, sq_upper_sq = mpz_mul a a\<rparr>)
             (\<lambda>s. if mpz_eq (sq_lower_sq s) a then Inr (True, sq_lower s) else Inr (False, sq_upper s)))"

subsection \<open>Roots of higher order\<close>

definition div_l :: "nat \<Rightarrow> nat \<Rightarrow> nat" where
  "div_l k n = k div n"

definition div_u :: "nat \<Rightarrow> nat \<Rightarrow> nat" where
  "div_u k n = (if k mod n = 0 then k div n else k div n + 1)"

text \<open>The loop leaves through two breaks; \<open>rt_result\<close> is what they set.\<close>

record root_state =
  rt_lower :: mpz
  rt_upper :: mpz
  rt_result :: "(bool \<times> mpz) option"

definition root_step :: "mpz \<Rightarrow> nat \<Rightarrow> root_state \<Rightarrow> root_state res" where
  "root_step a n s =
     (let mid = mpz_machine_div2k (mpz_add (rt_upper s) (rt_lower s)) 1
      in bind_res (mpz_power mid (of_nat n)) (\<lambda>mid_n.
           Inr (if mpz_eq mid_n a then s\<lparr>rt_result := Some (True, mid)\<rparr>
                else if mpz_eq mid (rt_lower s) \<or> mpz_eq mid (rt_upper s)
                then s\<lparr>rt_result := Some (False, rt_upper s)\<rparr>
                else if mpz_lt mid_n a then s\<lparr>rt_lower := mid\<rparr>
                else s\<lparr>rt_upper := mid\<rparr>)))"

definition root_init :: "mpz \<Rightarrow> nat \<Rightarrow> (mpz \<times> mpz) res" where
  "root_init a n =
     (if mpz_is_pos a then
        (let k = mpz_log2 a
         in bind_res (mpz_power (mk_z 2) (of_nat (div_l k n))) (\<lambda>lower.
            bind_res (mpz_power (mk_z 2) (of_nat (div_u (k + 1) n))) (\<lambda>upper. Inr (lower, upper))))
      else
        (let k = mpz_mlog2 a
         in bind_res (mpz_power (mk_z 2) (of_nat (div_u (k + 1) n))) (\<lambda>lower.
            bind_res (mpz_power (mk_z 2) (of_nat (div_l k n))) (\<lambda>upper. Inr (mpz_neg lower, mpz_neg upper)))))"

definition mpz_root :: "mpz \<Rightarrow> nat \<Rightarrow> (bool \<times> mpz) res" where
  "mpz_root a n =
     (if mpz_is_zero a then Inr (True, a)
      else if n = 0 then Inl Undefined_behaviour
      else bind_res (root_init a n) (\<lambda>(lower, upper).
        if mpz_eq lower upper then Inr (True, lower)
        else bind_res (while_res (\<lambda>s. rt_result s = None) (root_step a n)
               \<lparr>rt_lower = lower, rt_upper = upper, rt_result = None\<rparr>)
             (\<lambda>s. case rt_result s of Some r \<Rightarrow> Inr r | None \<Rightarrow> Inl Nontermination)))"

section \<open>Square roots\<close>

definition square_inv :: "int \<Rightarrow> square_state \<Rightarrow> bool" where
  "square_inv x s \<longleftrightarrow> list_all mpz_ok [sq_lower s, sq_upper s, sq_lower_sq s]
     \<and> mpz_val (sq_lower_sq s) = mpz_val (sq_lower s) * mpz_val (sq_lower s)
     \<and> 0 < mpz_val (sq_lower s) \<and> mpz_val (sq_lower s) < mpz_val (sq_upper s)
     \<and> mpz_val (sq_lower s) * mpz_val (sq_lower s) \<le> x \<and> x < mpz_val (sq_upper s) * mpz_val (sq_upper s)"

lemma square_step_inv:
  assumes "mpz_ok a" "square_inv (mpz_val a) s" "square_continue a s"
  shows "\<exists>s'. square_step a s = Inr s' \<and> square_inv (mpz_val a) s'
    \<and> nat (mpz_val (sq_upper s') - mpz_val (sq_lower s')) < nat (mpz_val (sq_upper s) - mpz_val (sq_lower s))"
proof -
  let ?l = "mpz_val (sq_lower s)" and ?u = "mpz_val (sq_upper s)"
  have ok: "mpz_ok (sq_lower s)" "mpz_ok (sq_upper s)" "mpz_ok (sq_lower_sq s)" and lu: "0 < ?l" "?l < ?u"
    using assms(2) by (simp_all add: square_inv_def)
  have "mpz_ok (mk_z 1)" "mpz_ok (mk_z 2)" by (simp_all add: int_limits)
  then have gap: "?l + 1 \<noteq> ?u" using assms(3) ok by (auto simp: square_continue_def)
  obtain m where m: "mpz_div (mpz_add (sq_upper s) (sq_lower s)) (mk_z 2) = Inr m" "mpz_ok m" "mpz_val m = (?u + ?l) div 2"
    using mpz_div_val [of "mpz_add (sq_upper s) (sq_lower s)" "mk_z 2"] ok \<open>mpz_ok (mk_z 2)\<close> by (auto simp: ediv_def)
  have "?l < mpz_val m" "mpz_val m < ?u" using m(3) lu gap by linarith+
  then show ?thesis
    using assms(1,2) m ok by (auto simp: square_step_def square_inv_def Let_def)
qed

lemma mpz_is_perfect_square_val:
  assumes "mpz_ok a" "0 \<le> mpz_val a"
  shows "\<exists>r root'. mpz_is_perfect_square a root0 = Inr (r, root') \<and> mpz_ok root' \<and> 0 \<le> mpz_val root'
    \<and> (if r then mpz_val root' * mpz_val root' = mpz_val a
       else (mpz_val root' - 1) * (mpz_val root' - 1) < mpz_val a \<and> mpz_val a < mpz_val root' * mpz_val root')"
proof -
  consider "mpz_val a = 0" | "mpz_val a = 1" | "1 < mpz_val a" using assms(2) by linarith
  then show ?thesis
  proof cases
    case 3
    let ?s = "\<lparr>sq_lower = mk_z 1, sq_upper = a, sq_lower_sq = mk_z 1, sq_upper_sq = mpz_mul a a\<rparr>"
    have "mpz_val a < mpz_val a * mpz_val a" using 3 by simp
    then have init: "square_inv (mpz_val a) ?s" using assms 3 int_limits by (simp add: square_inv_def)
    obtain s where s: "while_res (square_continue a) (square_step a) ?s = Inr s" "square_inv (mpz_val a) s" "\<not> square_continue a s"
      by (rule while_res_rule [where I = "square_inv (mpz_val a)" and b = "square_continue a" and c = "square_step a"
          and m = "\<lambda>s. nat (mpz_val (sq_upper s) - mpz_val (sq_lower s))", OF init])
        (use square_step_inv [OF assms(1)] in blast)+
    have ok: "mpz_ok (sq_lower_sq s)" "mpz_ok (sq_lower s)" "mpz_ok (sq_upper s)" "mpz_ok (mk_z 1)"
      using s(2) int_limits by (simp_all add: square_inv_def)
    show ?thesis
    proof (cases "mpz_eq (sq_lower_sq s) a")
      case True
      then show ?thesis
        using s 3 assms ok by (auto simp: mpz_is_perfect_square_def square_inv_def)
    next
      case False
      then have "mpz_val (sq_upper s) - 1 = mpz_val (sq_lower s)"
        using s(3) ok by (simp add: square_continue_def)
      then show ?thesis
        using False s 3 assms ok by (auto simp: mpz_is_perfect_square_def square_inv_def)
    qed
  next
    case 1
    then have "mpz_is_perfect_square a root0 = Inr (True, mk_z 0)" using assms by (simp add: mpz_is_perfect_square_def)
    then show ?thesis using 1 int_limits by auto
  next
    case 2
    then have "mpz_is_perfect_square a root0 = Inr (True, mk_z 1)" using assms by (simp add: mpz_is_perfect_square_def)
    then show ?thesis using 2 int_limits by auto
  qed
qed

section \<open>Roots of higher order\<close>

lemma div_u_ge: "0 < n \<Longrightarrow> k \<le> n * div_u k n"
proof -
  assume n: "0 < n"
  have "n * (k div n) + k mod n = k" "k mod n < n" using n by simp_all
  then have "k \<le> n * (k div n) + n" "k mod n = 0 \<Longrightarrow> k \<le> n * (k div n)" by linarith+
  then show ?thesis by (simp add: div_u_def)
qed

lemma div_u_le: "0 < n \<Longrightarrow> div_u (k + 1) n \<le> k + 1"
proof (cases "n = 1")
  case False
  assume "0 < n"
  then have "(k + 1) div n < k + 1" using False by (intro div_less_dividend) simp_all
  then show ?thesis by (auto simp: div_u_def)
qed (simp add: div_u_def)

lemma div_l_le: "n * div_l k n \<le> k"
  by (simp add: div_l_def)

lemma div_l_less_u: "0 < n \<Longrightarrow> div_l k n < div_u (k + 1) n"
proof -
  assume n: "0 < n"
  have "n * div_l k n < n * div_u (k + 1) n"
    using div_l_le [of n k] div_u_ge [OF n, of "k + 1"] by linarith
  then show ?thesis by simp
qed

text \<open>The bracket: \<open>lower^n \<le> a \<le> upper^n\<close>, strict on the side away from zero.\<close>

definition root_bracket :: "int \<Rightarrow> nat \<Rightarrow> int \<Rightarrow> int \<Rightarrow> bool" where
  "root_bracket x n l u \<longleftrightarrow> l < u \<and> l ^ n \<le> x \<and> x \<le> u ^ n \<and> (0 \<le> l \<and> x < u ^ n \<or> u \<le> 0 \<and> l ^ n < x)"

lemma root_init_val:
  assumes "mpz_ok a" "mpz_val a \<noteq> 0" "0 < n" "odd n \<or> 0 \<le> mpz_val a" "mpz_bitsize a < 2 ^ 32"
  shows "\<exists>l u. root_init a n = Inr (l, u) \<and> mpz_ok l \<and> mpz_ok u \<and> root_bracket (mpz_val a) n (mpz_val l) (mpz_val u)"
proof -
  let ?x = "mpz_val a"
  define k where "k = (if 0 < ?x then mpz_log2 a else mpz_mlog2 a)"
  have k: "2 ^ k \<le> \<bar>?x\<bar>" "\<bar>?x\<bar> < 2 ^ (k + 1)"
    using mpz_log2_val [OF assms(1)] mpz_mlog2_val [OF assms(1)] assms(2) by (auto simp: k_def abs_if)
  have "k + 1 < 2 ^ 32" using assms by (auto simp: k_def mpz_bitsize_def split: if_splits)
  moreover have "div_u (k + 1) n \<le> k + 1" "div_l k n \<le> k" using div_u_le [OF assms(3)] by (simp_all add: div_l_def)
  ultimately have u: "unat (of_nat (div_l k n) :: digit) = div_l k n" "unat (of_nat (div_u (k + 1) n) :: digit) = div_u (k + 1) n"
    by (simp_all add: unat_of_nat take_bit_eq_mod)
  obtain l0 where l0: "mpz_power (mk_z 2) (of_nat (div_l k n)) = Inr l0" "mpz_ok l0" "mpz_val l0 = 2 ^ div_l k n"
    using mpz_power_two [of "mk_z 2" "of_nat (div_l k n)"] u by auto
  obtain u0 where u0: "mpz_power (mk_z 2) (of_nat (div_u (k + 1) n)) = Inr u0" "mpz_ok u0" "mpz_val u0 = 2 ^ div_u (k + 1) n"
    using mpz_power_two [of "mk_z 2" "of_nat (div_u (k + 1) n)"] u by auto
  have "(2 :: int) ^ (n * div_l k n) \<le> 2 ^ k" by (intro power_increasing div_l_le) simp
  then have lo: "((2 :: int) ^ div_l k n) ^ n \<le> \<bar>?x\<bar>"
    using k(1) unfolding power_mult [symmetric] mult.commute [of n] by linarith
  have "(2 :: int) ^ (k + 1) \<le> 2 ^ (n * div_u (k + 1) n)" by (intro power_increasing div_u_ge assms(3)) simp
  then have hi: "\<bar>?x\<bar> < ((2 :: int) ^ div_u (k + 1) n) ^ n"
    using k(2) unfolding power_mult [symmetric] mult.commute [of n] by linarith
  have lt: "(2 :: int) ^ div_l k n < 2 ^ div_u (k + 1) n"
    by (intro power_strict_increasing div_l_less_u assms(3)) simp
  show ?thesis
  proof (cases "0 < ?x")
    case True
    then have "root_init a n = Inr (l0, u0)" using assms(1) l0 u0 by (simp add: root_init_def k_def Let_def)
    then show ?thesis using True l0 u0 lo hi lt by (auto simp: root_bracket_def less_imp_le)
  next
    case False
    then have "odd n" "root_init a n = Inr (mpz_neg u0, mpz_neg l0)"
      using assms l0 u0 by (auto simp: root_init_def k_def Let_def)
    then show ?thesis
      using False l0 u0 lo hi lt by (auto simp: root_bracket_def less_imp_le)
  qed
qed

lemma mid_between:
  assumes "l < (u :: int)"
  shows "0 \<le> l \<Longrightarrow> l \<le> (u + l) sdiv 2 \<and> (u + l) sdiv 2 < u \<and> ((u + l) sdiv 2 = l \<longrightarrow> u = l + 1)"
    "u \<le> 0 \<Longrightarrow> l < (u + l) sdiv 2 \<and> (u + l) sdiv 2 \<le> u \<and> ((u + l) sdiv 2 = u \<longrightarrow> u = l + 1)"
proof -
  show "0 \<le> l \<Longrightarrow> l \<le> (u + l) sdiv 2 \<and> (u + l) sdiv 2 < u \<and> ((u + l) sdiv 2 = l \<longrightarrow> u = l + 1)"
    using assms by (auto simp: sdiv_nonneg)
  have "(u + l) sdiv 2 = - ((- u - l) div 2)" if "u \<le> 0"
    using that assms sdiv_nonneg [of "- u - l" 2] minus_sdiv_eq [of "u + l" 2] by simp
  then show "u \<le> 0 \<Longrightarrow> l < (u + l) sdiv 2 \<and> (u + l) sdiv 2 \<le> u \<and> ((u + l) sdiv 2 = u \<longrightarrow> u = l + 1)"
    using assms by auto
qed

definition root_inv :: "int \<Rightarrow> nat \<Rightarrow> root_state \<Rightarrow> bool" where
  "root_inv x n s \<longleftrightarrow> mpz_ok (rt_lower s) \<and> mpz_ok (rt_upper s)
     \<and> root_bracket x n (mpz_val (rt_lower s)) (mpz_val (rt_upper s))
     \<and> (case rt_result s of None \<Rightarrow> True
        | Some (True, r) \<Rightarrow> mpz_ok r \<and> mpz_val r ^ n = x
        | Some (False, r) \<Rightarrow> mpz_ok r \<and> (mpz_val r - 1) ^ n < x \<and> x < mpz_val r ^ n)"

definition root_measure :: "root_state \<Rightarrow> nat" where
  "root_measure s = nat (mpz_val (rt_upper s) - mpz_val (rt_lower s)) + (if rt_result s = None then 1 else 0)"

lemma root_step_inv:
  assumes ok: "mpz_ok a" and n: "0 < n" "n < 2 ^ 31" and inv: "root_inv (mpz_val a) n s" and none: "rt_result s = None"
  shows "\<exists>s'. root_step a n s = Inr s' \<and> root_inv (mpz_val a) n s' \<and> root_measure s' < root_measure s"
proof -
  let ?l = "mpz_val (rt_lower s)" and ?u = "mpz_val (rt_upper s)"
  define m where "m = mpz_machine_div2k (mpz_add (rt_upper s) (rt_lower s)) 1"
  have okl: "mpz_ok (rt_lower s)" "mpz_ok (rt_upper s)" and br: "root_bracket (mpz_val a) n ?l ?u"
    using inv by (simp_all add: root_inv_def)
  then have m: "mpz_ok m" "mpz_val m = (?u + ?l) sdiv 2" by (simp_all add: m_def)
  have un: "unat (of_nat n :: digit) = n" using n(2) by (simp add: unat_of_nat take_bit_eq_mod)
  then have "(of_nat n :: digit) \<noteq> 0" using n(1) by (metis less_irrefl unat_0)
  then obtain mn where mn: "mpz_power m (of_nat n) = Inr mn" "mpz_ok mn" "mpz_val mn = mpz_val m ^ n"
    using mpz_power_val [OF m(1), of "of_nat n"] n(2) un by auto
  have step: "root_step a n s = Inr (if mpz_eq mn a then s\<lparr>rt_result := Some (True, m)\<rparr>
      else if mpz_eq m (rt_lower s) \<or> mpz_eq m (rt_upper s) then s\<lparr>rt_result := Some (False, rt_upper s)\<rparr>
      else if mpz_lt mn a then s\<lparr>rt_lower := m\<rparr> else s\<lparr>rt_upper := m\<rparr>)"
    using mn(1) unfolding root_step_def m_def [symmetric] Let_def by simp
  have lu: "?l < ?u" using br by (simp add: root_bracket_def)
  note mid = mid_between [OF lu, folded m(2)]
  have range: "?l \<le> mpz_val m" "mpz_val m \<le> ?u" using mid br by (auto simp: root_bracket_def)
  consider (exact) "mpz_val mn = mpz_val a" | (stop) "mpz_val mn \<noteq> mpz_val a" "mpz_val m = ?l \<or> mpz_val m = ?u"
    | (lower) "mpz_val mn < mpz_val a" "?l < mpz_val m" "mpz_val m < ?u"
    | (upper) "mpz_val a < mpz_val mn" "?l < mpz_val m" "mpz_val m < ?u"
    using range by linarith
  then show ?thesis
  proof cases
    case exact
    then show ?thesis
      using step ok mn(2,3) m inv none by (simp add: root_inv_def root_measure_def)
  next
    case stop
    have "?u = ?l + 1 \<and> ?l ^ n < mpz_val a \<and> mpz_val a < ?u ^ n"
      using br mid stop mn(3) lu by (auto simp: root_bracket_def)
    then have "(?u - 1) ^ n < mpz_val a" "mpz_val a < ?u ^ n" by auto
    then show ?thesis
      using step stop ok mn(2) m(1) okl inv none by (simp add: root_inv_def root_measure_def)
  next
    case lower
    have "root_bracket (mpz_val a) n (mpz_val m) ?u"
      using br lower mn(3) mid by (auto simp: root_bracket_def)
    then show ?thesis
      using step lower ok mn(2) m(1) okl none by (simp add: root_inv_def root_measure_def)
  next
    case upper
    have "root_bracket (mpz_val a) n ?l (mpz_val m)"
      using br upper mn(3) mid by (auto simp: root_bracket_def)
    then show ?thesis
      using step upper ok mn(2) m(1) okl none by (simp add: root_inv_def root_measure_def)
  qed
qed

lemma mpz_root_val:
  assumes "mpz_ok a" "0 < n" "n < 2 ^ 31" "odd n \<or> 0 \<le> mpz_val a" "mpz_bitsize a < 2 ^ 32"
  shows "\<exists>r b. mpz_root a n = Inr (r, b) \<and> mpz_ok b
    \<and> (if r then mpz_val b ^ n = mpz_val a else (mpz_val b - 1) ^ n < mpz_val a \<and> mpz_val a < mpz_val b ^ n)"
proof (cases "mpz_val a = 0")
  case True
  then have "mpz_root a n = Inr (True, a)" using assms(1) by (simp add: mpz_root_def)
  then show ?thesis using assms(1,2) True by (auto simp: zero_power)
next
  case False
  obtain l u where lu: "root_init a n = Inr (l, u)" "mpz_ok l" "mpz_ok u" "root_bracket (mpz_val a) n (mpz_val l) (mpz_val u)"
    using root_init_val [OF assms(1) False assms(2,4,5)] by blast
  have "\<exists>s. while_res (\<lambda>s. rt_result s = None) (root_step a n) \<lparr>rt_lower = l, rt_upper = u, rt_result = None\<rparr> = Inr s
      \<and> (root_inv (mpz_val a) n s \<and> rt_result s \<noteq> None)"
  proof (rule while_res_total [where I = "root_inv (mpz_val a) n" and m = root_measure])
    show "\<exists>s'. root_step a n s = Inr s' \<and> root_inv (mpz_val a) n s' \<and> root_measure s' < root_measure s"
      if "root_inv (mpz_val a) n s" "rt_result s = None" for s
      using root_step_inv [OF assms(1-3) that] .
  qed (use lu in \<open>auto simp: root_inv_def\<close>)
  then obtain s r b where s: "while_res (\<lambda>s. rt_result s = None) (root_step a n) \<lparr>rt_lower = l, rt_upper = u, rt_result = None\<rparr> = Inr s"
    "root_inv (mpz_val a) n s" "rt_result s = Some (r, b)" by auto
  have "mpz_val l \<noteq> mpz_val u" using lu(4) by (simp add: root_bracket_def)
  then have "mpz_root a n = Inr (r, b)"
    using False assms(1,2) lu s(1,3) by (simp add: mpz_root_def)
  then show ?thesis
    using s(2,3) by (cases r) (auto simp: root_inv_def)
qed

text \<open>The root of a canonical number is canonical, and that of a non-negative one is not negative.\<close>

lemma mpz_root_wf:
  assumes "mpz_wf a" "mpz_root a n = Inr (r, b)"
  shows "mpz_wf b" "0 \<le> mpz_val a \<Longrightarrow> 0 \<le> mpz_val b"
proof -
  let ?P = "\<lambda>x. mpz_wf x \<and> (0 \<le> mpz_val a \<longrightarrow> 0 \<le> mpz_val x)"
  let ?I = "\<lambda>s. ?P (rt_lower s) \<and> ?P (rt_upper s) \<and> (case rt_result s of None \<Rightarrow> True | Some (_, x) \<Rightarrow> ?P x)"
  have step: "?I t" if "?I s" "root_step a n s = Inr t" for s t
  proof -
    let ?m = "mpz_machine_div2k (mpz_add (rt_upper s) (rt_lower s)) 1"
    have "?P ?m" using that(1) by (auto simp: sdiv_nonneg)
    then show ?thesis using that by (auto simp: root_step_def Let_def bind_res_Inr_iff split: if_splits)
  qed
  have two: "mpz_wf x \<and> 0 \<le> mpz_val x" if "mpz_power (mk_z 2) p = Inr x" for p x
    using mpz_power_two [of "mk_z 2" p] that by auto
  have init: "?P l \<and> ?P u" if "root_init a n = Inr (l, u)" "mpz_val a \<noteq> 0" for l u
    using that assms(1) two by (fastforce simp: root_init_def Let_def bind_res_Inr_iff split: if_splits)
  have "?I s" if "root_init a n = Inr (l, u)" "mpz_val a \<noteq> 0"
    "while_res (\<lambda>s. rt_result s = None) (root_step a n) \<lparr>rt_lower = l, rt_upper = u, rt_result = None\<rparr> = Inr s" for l u s
  proof (rule while_res_partial [OF that(3)])
    show "?I \<lparr>rt_lower = l, rt_upper = u, rt_result = None\<rparr>" using init [OF that(1,2)] by simp
  qed (rule step)
  note loop = this
  have "?P b"
  proof (cases "mpz_val a = 0")
    case False
    then obtain l u where lu: "root_init a n = Inr (l, u)"
      and rest: "mpz_eq l u \<and> b = l \<or> (\<exists>s. while_res (\<lambda>s. rt_result s = None) (root_step a n)
        \<lparr>rt_lower = l, rt_upper = u, rt_result = None\<rparr> = Inr s \<and> rt_result s = Some (r, b))"
      using assms by (auto simp: mpz_root_def bind_res_Inr_iff split: if_splits option.splits)
    then show ?thesis using init [OF lu False] loop [OF lu False] by auto
  qed (use assms in \<open>auto simp: mpz_root_def\<close>)
  then show "mpz_wf b" "0 \<le> mpz_val a \<Longrightarrow> 0 \<le> mpz_val b" by blast+
qed

end
