(* ===== verification/Mpz_String.thy ===== *)
theory Mpz_String
  imports Mpz_Bits
begin

text \<open>
  Text: decimal output (\<open>mpn_manager::to_string\<close> in util/mpn.cpp, \<open>display\<close> and \<open>display_smt2\<close> in
  util/mpz.cpp), decimal input (\<open>set(mpz&, char const*)\<close>), and the hexadecimal and binary
  output of a number of bits. Strings are the characters before the terminating zero.
\<close>

unbundle bit_operations_syntax

section \<open>Operations\<close>

subsection \<open>The standard library\<close>

text \<open>What \<open>snprintf("%u")\<close> and the output operator of integers write, in base 10 and 16, and
  the padding by \<open>setw\<close> and \<open>setfill('0')\<close>, which applies to the next item only.\<close>

definition digit_char :: "nat \<Rightarrow> char" where
  "digit_char n = char_of (if n < 10 then 48 + n else 87 + n)"

fun show_base :: "nat \<Rightarrow> nat \<Rightarrow> string" where
  "show_base b n = (if n < b \<or> b < 2 then [digit_char n] else show_base b (n div b) @ [digit_char (n mod b)])"

declare show_base.simps [simp del]

definition show_int :: "int \<Rightarrow> string" where
  "show_int v = (if v < 0 then ''-'' @ show_base 10 (nat (- v)) else show_base 10 (nat v))"

definition pad0 :: "nat \<Rightarrow> string \<Rightarrow> string" where
  "pad0 w s = replicate (w - length s) (CHR ''0'') @ s"

subsection \<open>Decimal output\<close>

text \<open>One iteration of the loop of \<open>mpn_manager::to_string\<close>: division by ten, and removal of the
  leading zeros of the quotient.\<close>

definition pop_zeros :: "digit list \<Rightarrow> digit list" where
  "pop_zeros ds = rev (dropWhile (\<lambda>d. d = 0) (rev ds))"

definition to_string_step :: "digit list \<times> string \<Rightarrow> digit list \<times> string" where
  "to_string_step = (\<lambda>(temp, buf).
     let (d, t_numer, t_denom) = mpn_div_normalize temp [10];
         (t_numer, temp) = mpn_div_1 (length t_numer - 1) (t_denom ! 0) t_numer temp;
         rem = mpn_div_unnormalize t_numer t_denom d ! 0
     in (pop_zeros temp, buf @ [char_of (48 + unat rem)]))"

text \<open>The loop that reverses the buffer by swapping \<open>buf[i]\<close> and \<open>buf[j - i]\<close>.\<close>

fun swap_loop :: "nat \<Rightarrow> nat \<Rightarrow> string \<Rightarrow> string" where
  "swap_loop j 0 buf = buf"
| "swap_loop j (Suc i) buf =
     (let b = swap_loop j i buf in b[i := b ! (j - i), j - i := b ! i])"

definition mpn_to_string :: "digit list \<Rightarrow> string res" where
  "mpn_to_string a =
     (if length a = 1 then Inr (show_base 10 (unat (a ! 0)))
      else bind_res (while_res (\<lambda>(temp, buf). temp \<noteq> [] \<and> (length temp > 1 \<or> temp ! 0 \<noteq> 0))
               (\<lambda>s. Inr (to_string_step s)) (a, []))
             (\<lambda>(temp, buf).
               let j = length buf - 1; mid = j div 2 + (if j mod 2 \<noteq> 0 then 1 else 0)
               in Inr (swap_loop j mid buf)))"

definition mpz_to_string :: "mpz \<Rightarrow> string res" where
  "mpz_to_string a =
     (if is_small a then Inr (show_int (m_val a))
      else bind_res (mpn_to_string (m_digits a)) (\<lambda>s. Inr (if m_val a < 0 then ''-'' @ s else s)))"

definition mpz_display_smt2 :: "mpz \<Rightarrow> bool \<Rightarrow> string res" where
  "mpz_display_smt2 a decimal =
     (let suffix = (if decimal then ''.0'' else '''')
      in if mpz_is_neg a
         then bind_res (mpz_to_string (mpz_neg a)) (\<lambda>s. Inr (''(- '' @ s @ suffix @ '')''))
         else bind_res (mpz_to_string a) (\<lambda>s. Inr (s @ suffix)))"

subsection \<open>Decimal input\<close>

text \<open>Leading blanks are skipped, a minus sign is recognised only in first place, and every character
  that is not a decimal digit is ignored.\<close>

definition is_decimal :: "char \<Rightarrow> bool" where
  "is_decimal c \<longleftrightarrow> 48 \<le> (of_char c :: nat) \<and> (of_char c :: nat) \<le> 57"

definition mpz_read_char :: "mpz \<Rightarrow> char \<Rightarrow> mpz" where
  "mpz_read_char a c =
     (if is_decimal c then mpz_add (mpz_mul a (mk_z 10)) (mk_z (int (of_char c) - 48)) else a)"

definition mpz_set_string :: "string \<Rightarrow> mpz" where
  "mpz_set_string val =
     (let str = dropWhile (\<lambda>c. c = CHR '' '') val;
          sign = (str \<noteq> [] \<and> hd str = CHR ''-'');
          a = foldl mpz_read_char (mk_z 0) str
      in if sign then mpz_neg a else a)"

subsection \<open>Hexadecimal and binary output\<close>

definition mpz_display_hex :: "mpz \<Rightarrow> nat \<Rightarrow> string" where
  "mpz_display_hex a num_bits =
     (if is_small a then pad0 (num_bits div 4) (show_base 16 (unat (mpz_get_uint64 a)))
      else
        (let ds = m_digits a; sz = length ds; bitSize = sz * 32;
             zeros = (if num_bits \<ge> bitSize then replicate ((num_bits - bitSize) div 4) (CHR ''0'') else '''');
             firstDigitSize = (if num_bits \<ge> bitSize then 8 else num_bits mod 32 div 4)
         in zeros @ pad0 firstDigitSize (show_base 16 (unat (ds ! (sz - 1)))) @
            concat (map (\<lambda>i. pad0 (if i = 1 then 8 else 0) (show_base 16 (unat (ds ! (sz - i - 1))))) [1..<sz])))"

definition display_binary_data :: "double_digit \<Rightarrow> nat \<Rightarrow> string" where
  "display_binary_data v numBits =
     replicate (numBits - 64) (CHR ''0'') @
     map (\<lambda>shift. if v AND push_bit shift 1 \<noteq> 0 then CHR ''1'' else CHR ''0'') (rev [0..<min numBits 64])"

definition mpz_display_bin :: "mpz \<Rightarrow> nat \<Rightarrow> string" where
  "mpz_display_bin a num_bits =
     (if is_small a then display_binary_data (mpz_get_uint64 a) num_bits
      else
        (let ds = m_digits a; sz = length ds; bitSize = sz * 32;
             zeros = (if num_bits > bitSize then replicate (num_bits - bitSize) (CHR ''0'') else '''');
             firstDigitLength = (if num_bits > bitSize then 0 else num_bits mod 32)
         in zeros @ concat (map (\<lambda>i.
              if i = 0 \<and> firstDigitLength \<noteq> 0 then display_binary_data (ucast (ds ! (sz - 1))) firstDigitLength
              else display_binary_data (ucast (ds ! (sz - i - 1))) 32) [0..<sz])))"

section \<open>Decimal strings\<close>

fun read_dec :: "nat \<Rightarrow> string \<Rightarrow> nat" where
  "read_dec n [] = n"
| "read_dec n (c # cs) = read_dec (if is_decimal c then n * 10 + (of_char c - 48) else n) cs"

lemma read_dec_append: "read_dec n (s @ t) = read_dec (read_dec n s) t"
  by (induction s arbitrary: n) simp_all

lemma digit_char_dec: "n < 10 \<Longrightarrow> is_decimal (digit_char n) \<and> (of_char (digit_char n) :: nat) = 48 + n"
  by (simp add: is_decimal_def digit_char_def of_char_of)

lemma read_show_base: "read_dec 0 (show_base 10 n) = n"
proof (induction n rule: less_induct)
  case (less n)
  show ?case
  proof (cases "n < 10")
    case True
    then show ?thesis using digit_char_dec [OF True] by (simp add: show_base.simps)
  next
    case False
    then have "read_dec 0 (show_base 10 (n div 10)) = n div 10" by (intro less) simp
    then show ?thesis
      using False digit_char_dec [of "n mod 10"] by (simp add: show_base.simps [of 10 n] read_dec_append)
  qed
qed

lemma show_base_decimal: "\<forall>c \<in> set (show_base 10 n). is_decimal c"
proof (induction n rule: less_induct)
  case (less n)
  show ?case
  proof (cases "n < 10")
    case True
    then show ?thesis using digit_char_dec [OF True] by (simp add: show_base.simps)
  next
    case False
    then have "\<forall>c \<in> set (show_base 10 (n div 10)). is_decimal c" by (intro less) simp
    then show ?thesis
      using False digit_char_dec [of "n mod 10"] by (auto simp: show_base.simps [of 10 n])
  qed
qed

lemma show_base_not_Nil: "show_base b n \<noteq> []"
  by (subst show_base.simps) simp

lemma length_show_base: "n < 10 ^ Suc k \<Longrightarrow> length (show_base 10 n) \<le> Suc k"
proof (induction k arbitrary: n)
  case (Suc k)
  then show ?case
  proof (cases "n < 10")
    case False
    have "n div 10 < 10 ^ Suc k" using Suc.prems by (intro less_mult_imp_div_less) simp
    then show ?thesis using Suc.IH [of "n div 10"] False by (simp add: show_base.simps [of 10 n])
  qed (simp add: show_base.simps)
qed (simp add: show_base.simps)

section \<open>The loop of to_string\<close>

lemma pop_zeros_val: "dval (pop_zeros ds) = dval ds"
proof (induction ds rule: rev_induct)
  case (snoc d ds)
  then show ?case by (cases "d = 0") (simp_all add: pop_zeros_def dval_append)
qed (simp add: pop_zeros_def)

lemma pop_zeros_last: "pop_zeros ds \<noteq> [] \<Longrightarrow> last (pop_zeros ds) \<noteq> 0"
  by (metis (mono_tags, lifting) hd_dropWhile last_rev pop_zeros_def rev_is_Nil_conv)

lemma to_string_step_val:
  assumes "temp \<noteq> []" "to_string_step (temp, buf) = (temp', buf')"
  shows "dval temp' = dval temp div 10" "buf' = buf @ [digit_char (dval temp mod 10)]"
    "temp' \<noteq> [] \<Longrightarrow> last temp' \<noteq> 0"
proof -
  obtain d u v where n: "mpn_div_normalize temp [10] = (d, u, v)" by (metis prod_cases3)
  obtain u' q where c: "mpn_div_1 (length u - 1) (v ! 0) u temp = (u', q)" by fastforce
  have core: "dval q = dval temp div 10" "dval (mpn_div_unnormalize u' v d) = dval temp mod 10"
    "length (mpn_div_unnormalize u' v d) = 1"
    using mpn_div_core [OF _ _ _ n _, of temp u' q] assms(1) c by (simp_all add: Suc_le_eq)
  then obtain r where r: "mpn_div_unnormalize u' v d = [r]" by (metis length_0_conv length_Suc_conv One_nat_def)
  then have "unat r = dval temp mod 10" using core(2) by simp
  then have "char_of (48 + unat r) = digit_char (dval temp mod 10)" by (simp add: digit_char_def)
  then have res: "temp' = pop_zeros q" "buf' = buf @ [digit_char (dval temp mod 10)]"
    using assms(2) n c r by (auto simp: to_string_step_def Let_def)
  show "dval temp' = dval temp div 10" "buf' = buf @ [digit_char (dval temp mod 10)]"
    "temp' \<noteq> [] \<Longrightarrow> last temp' \<noteq> 0"
    using res core(1) pop_zeros_val pop_zeros_last by auto
qed

lemma length_swap_loop [simp]: "length (swap_loop j i buf) = length buf"
  by (induction i) (simp_all add: Let_def)

lemma swap_loop_nth:
  assumes "length buf = Suc j" "2 * i \<le> j + 1" "x \<le> j"
  shows "swap_loop j i buf ! x = (if x < i \<or> j - x < i then buf ! (j - x) else buf ! x)"
  using assms(2,3)
proof (induction i arbitrary: x)
  case (Suc i)
  have le: "i < j - i" using Suc.prems(1) by simp
  have b: "swap_loop j i buf ! y = (if y < i \<or> j - y < i then buf ! (j - y) else buf ! y)" if "y \<le> j" for y
    using Suc.IH [of y] Suc.prems(1) that by simp
  show ?case
    using Suc.prems le assms(1) b [of x] b [of i] b [of "j - i"]
    by (auto simp: Let_def nth_list_update)
qed simp

lemma swap_loop_rev:
  assumes "buf \<noteq> []" "j = length buf - 1"
  shows "swap_loop j (j div 2 + (if j mod 2 \<noteq> 0 then 1 else 0)) buf = rev buf"
proof (rule nth_equalityI)
  have len: "length buf = Suc j" using assms by (cases buf) simp_all
  fix x assume "x < length (swap_loop j (j div 2 + (if j mod 2 \<noteq> 0 then 1 else 0)) buf)"
  then have x: "x \<le> j" using len by simp
  define mid where "mid = j div 2 + (if j mod 2 \<noteq> 0 then 1 else 0)"
  have mid: "2 * mid \<le> j + 1" "j \<le> 2 * mid" by (auto simp: mid_def mod2_eq_if elim!: oddE)
  have "x < mid \<or> j - x < mid \<or> x = j - x" using x mid(2) by linarith
  then have "swap_loop j mid buf ! x = rev buf ! x"
    using swap_loop_nth [OF len mid(1) x] x len by (auto simp: rev_nth)
  then show "swap_loop j (j div 2 + (if j mod 2 \<noteq> 0 then 1 else 0)) buf ! x = rev buf ! x" unfolding mid_def .
qed simp

lemma to_string_loop:
  assumes "a \<noteq> []" "last a \<noteq> 0"
  shows "\<exists>t. while_res (\<lambda>(temp, buf). temp \<noteq> [] \<and> (length temp > 1 \<or> temp ! 0 \<noteq> 0))
      (\<lambda>s. Inr (to_string_step s)) (a, []) = Inr t \<and> rev (snd t) = show_base 10 (dval a)"
proof (rule while_res_total [where m = "\<lambda>t. dval (fst t)" and I = "\<lambda>t. (fst t \<noteq> [] \<longrightarrow> last (fst t) \<noteq> 0)
    \<and> (if dval (fst t) = 0 then [] else show_base 10 (dval (fst t))) @ rev (snd t) = show_base 10 (dval a)"])
  fix t
  assume I: "(fst t \<noteq> [] \<longrightarrow> last (fst t) \<noteq> 0)
    \<and> (if dval (fst t) = 0 then [] else show_base 10 (dval (fst t))) @ rev (snd t) = show_base 10 (dval a)"
    and "(\<lambda>(temp, buf). temp \<noteq> [] \<and> (length temp > 1 \<or> temp ! 0 \<noteq> 0)) t"
  then have ne: "fst t \<noteq> []" and pos: "0 < dval (fst t)" using dval_pos by (auto simp: case_prod_beta)
  obtain temp' buf' where st: "to_string_step (fst t, snd t) = (temp', buf')" by fastforce
  note v = to_string_step_val [OF ne st]
  have "show_base 10 (dval (fst t)) =
      (if dval (fst t) div 10 = 0 then [] else show_base 10 (dval (fst t) div 10)) @ [digit_char (dval (fst t) mod 10)]"
    by (subst show_base.simps) auto
  then show "\<exists>t'. Inr (to_string_step t) = (Inr t' :: (digit list \<times> string) res) \<and> ((fst t' \<noteq> [] \<longrightarrow> last (fst t') \<noteq> 0)
      \<and> (if dval (fst t') = 0 then [] else show_base 10 (dval (fst t'))) @ rev (snd t') = show_base 10 (dval a))
      \<and> dval (fst t') < dval (fst t)"
    using I v st pos by (cases "dval (fst t) div 10 = 0") auto
next
  fix t
  assume I: "(fst t \<noteq> [] \<longrightarrow> last (fst t) \<noteq> 0)
    \<and> (if dval (fst t) = 0 then [] else show_base 10 (dval (fst t))) @ rev (snd t) = show_base 10 (dval a)"
    and "\<not> (\<lambda>(temp, buf). temp \<noteq> [] \<and> (length temp > 1 \<or> temp ! 0 \<noteq> 0)) t"
  then have "dval (fst t) = 0" by (cases "fst t") (auto simp: case_prod_beta split: if_splits)
  with I show "rev (snd t) = show_base 10 (dval a)" by simp
qed (use assms dval_pos [OF assms] in auto)

lemma mpn_to_string_val:
  assumes "a \<noteq> []" "last a \<noteq> 0"
  shows "mpn_to_string a = Inr (show_base 10 (dval a))"
proof (cases "length a = 1")
  case True
  then obtain d where "a = [d]" by (auto simp: length_Suc_conv)
  then show ?thesis by (simp add: mpn_to_string_def)
next
  case False
  obtain temp buf where t: "while_res (\<lambda>(temp, buf). temp \<noteq> [] \<and> (length temp > 1 \<or> temp ! 0 \<noteq> 0))
      (\<lambda>s. Inr (to_string_step s)) (a, []) = Inr (temp, buf)" "rev buf = show_base 10 (dval a)"
    using to_string_loop [OF assms] by auto
  then have "buf \<noteq> []" using show_base_not_Nil by (metis rev.simps(1))
  note rv = swap_loop_rev [OF this refl]
  show ?thesis
    using False t rv unfolding mpn_to_string_def by (simp add: Let_def)
qed

text \<open>The buffer that \<open>display\<close> passes has 11 characters per digit, enough for the text and its end.\<close>

lemma mpn_to_string_fits:
  assumes "a \<noteq> []"
  shows "length (show_base 10 (dval a)) + 1 \<le> 11 * length a"
proof -
  obtain n where n: "length a = Suc n" using assms by (cases a) simp_all
  have "dval a < digit_base ^ length a" by (rule dval_less)
  also have "\<dots> \<le> (10 ^ 10) ^ length a" by (rule power_mono) simp_all
  also have "\<dots> = 10 ^ Suc (10 * n + 9)" by (simp only: n power_mult [symmetric]) (simp add: algebra_simps)
  finally have "length (show_base 10 (dval a)) \<le> Suc (10 * n + 9)" by (rule length_show_base)
  then show ?thesis using n by simp
qed

lemma mpz_to_string_val:
  assumes "mpz_ok a"
  shows "mpz_to_string a = Inr (show_int (mpz_val a))"
proof (cases "is_small a")
  case False
  note c = mpz_large_cell [OF assms False]
  have "m_val a < 0 \<longleftrightarrow> mpz_val a < 0" using mpz_sign_val(2) [OF assms] by (simp add: mpz_sign_def)
  moreover have "dval (m_digits a) = nat \<bar>mpz_val a\<bar>" using c by simp
  ultimately show ?thesis
    using False c mpn_to_string_val [of "m_digits a"] by (auto simp: mpz_to_string_def show_int_def abs_if)
qed (simp add: mpz_to_string_def mpz_val_small)

section \<open>Decimal input\<close>

lemma mpz_read_char_val:
  assumes "mpz_ok a"
  shows "mpz_ok (mpz_read_char a c)"
    "mpz_val (mpz_read_char a c) = (if is_decimal c then mpz_val a * 10 + int (of_char c - 48) else mpz_val a)"
proof -
  have "mpz_ok (mpz_read_char a c) \<and>
    mpz_val (mpz_read_char a c) = (if is_decimal c then mpz_val a * 10 + int (of_char c - 48) else mpz_val a)"
  proof (cases "is_decimal c")
    case True
    then have k: "int (of_char c) - 48 = int (of_char c - 48)" "(of_char c :: nat) - 48 \<le> 9"
      by (auto simp: is_decimal_def of_nat_diff)
    have "mpz_ok (mk_z (int (of_char c - 48)))" using k(2) unfolding mk_z_simps int_limits by linarith
    then show ?thesis using True assms by (simp add: mpz_read_char_def k(1) int_limits del: of_nat_diff of_nat_diff_if)
  qed (simp add: mpz_read_char_def assms)
  then show "mpz_ok (mpz_read_char a c)"
    "mpz_val (mpz_read_char a c) = (if is_decimal c then mpz_val a * 10 + int (of_char c - 48) else mpz_val a)" by blast+
qed

lemma foldl_read_char:
  assumes "mpz_ok a" "mpz_val a = int n"
  shows "mpz_ok (foldl mpz_read_char a s) \<and> mpz_val (foldl mpz_read_char a s) = int (read_dec n s)"
  using assms
proof (induction s arbitrary: a n)
  case (Cons c s)
  show ?case using mpz_read_char_val [OF Cons.prems(1), of c] Cons.prems(2) by (auto intro!: Cons.IH)
qed simp

lemma mpz_set_string_val:
  fixes val :: string
  defines "str \<equiv> dropWhile (\<lambda>c. c = CHR '' '') val"
  shows "mpz_ok (mpz_set_string val)"
    "mpz_val (mpz_set_string val) = (if str \<noteq> [] \<and> hd str = CHR ''-'' then - int (read_dec 0 str) else int (read_dec 0 str))"
  using foldl_read_char [of "mk_z 0" 0 str] int_limits
  by (simp_all add: mpz_set_string_def Let_def str_def)

lemma is_decimal_not_sign: "is_decimal c \<Longrightarrow> c \<noteq> CHR '' '' \<and> c \<noteq> CHR ''-''"
  by (auto simp: is_decimal_def)

lemma mpz_set_string_show_int: "mpz_val (mpz_set_string (show_int v)) = v"
proof (cases "v < 0")
  case True
  have "\<not> is_decimal (CHR ''-'')" by (simp add: is_decimal_def)
  then show ?thesis
    using True mpz_set_string_val(2) [of "show_int v"] read_show_base [of "nat (- v)"] by (simp add: show_int_def)
next
  case False
  obtain c s where cs: "show_base 10 (nat v) = c # s" using show_base_not_Nil by (meson neq_Nil_conv)
  then have "is_decimal c" using show_base_decimal [of "nat v"] by simp
  note is_decimal_not_sign [OF this]
  then show ?thesis
    using False mpz_set_string_val(2) [of "show_int v"] read_show_base [of "nat v"] cs by (simp add: show_int_def)
qed

section \<open>Binary output\<close>

text \<open>The \<open>n\<close> low bits of a number, most significant first.\<close>

definition bin_digits :: "nat \<Rightarrow> int \<Rightarrow> string" where
  "bin_digits n v = map (\<lambda>i. if bit v i then CHR ''1'' else CHR ''0'') (rev [0..<n])"

lemma length_bin_digits [simp]: "length (bin_digits n v) = n"
  by (simp add: bin_digits_def)

lemma bin_digits_append:
  "bin_digits (m + n) v = bin_digits m (drop_bit n v) @ bin_digits n v"
  by (rule nth_equalityI) (auto simp: bin_digits_def rev_nth nth_append bit_drop_bit_eq add.commute)

lemma bin_digits_0: "bin_digits n 0 = replicate n (CHR ''0'')"
  by (rule nth_equalityI) (auto simp: bin_digits_def rev_nth)

lemma bin_digits_cong: "(\<And>i. i < n \<Longrightarrow> bit v i \<longleftrightarrow> bit w i) \<Longrightarrow> bin_digits n v = bin_digits n w"
  by (simp add: bin_digits_def)

lemma bin_digits_leading:
  assumes "drop_bit m v = 0" "m \<le> n"
  shows "bin_digits n v = replicate (n - m) (CHR ''0'') @ bin_digits m v"
  using bin_digits_append [of "n - m" m v] assms by (simp add: bin_digits_0)

lemma display_binary_data_val: "display_binary_data v n = bin_digits n (uint v)"
proof -
  have b: "v AND push_bit i 1 \<noteq> 0 \<longleftrightarrow> bit v i" for i
  proof (cases "bit v i")
    case True
    then have "bit (push_bit i (1 :: double_digit)) i" using bit_imp_le_length [of v i] by (simp add: bit_simps)
    then have "push_bit i (1 :: double_digit) \<noteq> 0" by (metis bit_0_eq bot_apply bot_bool_def)
    then show ?thesis using True and_one_bit [of i v] by (simp add: and.commute)
  qed (use and_one_bit [of i v] in \<open>simp add: and.commute\<close>)
  have m: "map (\<lambda>i. if v AND push_bit i 1 \<noteq> 0 then CHR ''1'' else CHR ''0'') (rev [0..<k]) = bin_digits k (uint v)" for k
    unfolding b by (simp add: bin_digits_def bit_unsigned_iff)
  show ?thesis
  proof (cases "n \<le> 64")
    case True
    then show ?thesis using m [of n] by (simp add: display_binary_data_def min_def)
  next
    case False
    have "drop_bit 64 (uint v) = 0" using uint_lt2p [of v] by (simp add: drop_bit_eq_div)
    then show ?thesis using m [of 64] False bin_digits_leading [of 64 "uint v" n] by (simp add: display_binary_data_def min_def)
  qed
qed

lemma uint_ucast_digit: "uint (ucast (d :: digit) :: double_digit) = uint d"
  by (simp only: uint_nat unat_ucast_up)

text \<open>Full digits, from the leading one down.\<close>

lemma bin_digits_dval:
  "concat (map (\<lambda>i. bin_digits 32 (uint (ds ! (length ds - i - 1)))) [0..<length ds]) = bin_digits (32 * length ds) (int (dval ds))"
proof (induction ds)
  case (Cons d ds)
  let ?v = "int (dval (d # ds))"
  have "dval (d # ds) div digit_base = dval ds" using unat_digit_lt [of d] by simp
  then have "?v div 4294967296 = int (dval ds)" by (metis of_nat_div of_nat_numeral)
  then have hi: "drop_bit 32 ?v = int (dval ds)" by (simp only: drop_bit_eq_div) simp
  have lo: "bin_digits 32 ?v = bin_digits 32 (uint d)"
  proof (rule bin_digits_cong)
    fix i :: nat assume i: "i < 32"
    have "bit ?v i \<longleftrightarrow> bit (dval (d # ds)) i" by (simp only: bit_of_nat_iff_bit)
    also have "\<dots> \<longleftrightarrow> bit d i" using bit_dval [of "d # ds" i] i by (simp del: dval.simps)
    finally show "bit ?v i \<longleftrightarrow> bit (uint d) i" by (simp only: bit_unsigned_iff) simp
  qed
  have idx: "(d # ds) ! (length ds - i) = ds ! (length ds - Suc i)" if "i < length ds" for i
    using that by (simp add: nth_Cons')
  have "concat (map (\<lambda>i. bin_digits 32 (uint ((d # ds) ! (length (d # ds) - i - 1)))) [0..<length (d # ds)]) =
      concat (map (\<lambda>i. bin_digits 32 (uint (ds ! (length ds - i - 1)))) [0..<length ds]) @ bin_digits 32 (uint d)"
  proof -
    have "map (\<lambda>i. bin_digits 32 (uint ((d # ds) ! (length ds - i)))) [0..<length ds] =
        map (\<lambda>i. bin_digits 32 (uint (ds ! (length ds - Suc i)))) [0..<length ds]"
      by (rule map_cong [OF refl]) (simp add: idx)
    from arg_cong [OF this, of concat] show ?thesis by simp
  qed
  also have "\<dots> = bin_digits (32 * length ds) (drop_bit 32 ?v) @ bin_digits 32 ?v"
    unfolding Cons.IH hi lo ..
  also have "\<dots> = bin_digits (32 * length ds + 32) ?v" by (rule bin_digits_append [symmetric])
  finally show ?case by (simp add: add.commute del: dval.simps)
qed (simp add: bin_digits_def)

text \<open>\<open>display_bin\<close> writes the \<open>num_bits\<close> low bits when the leading digit is among them.\<close>

lemma mpz_display_bin_val:
  assumes "mpz_ok a" "0 \<le> mpz_val a" "is_small a \<or> 32 * (length (m_digits a) - 1) < num_bits"
  shows "mpz_display_bin a num_bits = bin_digits num_bits (mpz_val a)"
proof (cases "is_small a")
  case True
  have "uint (mpz_get_uint64 a) = mpz_val a"
    using True assms small_range [OF assms(1) True] by (intro mpz_get_uint64_val) (simp_all add: mpz_val_small)
  then show ?thesis using True by (simp add: mpz_display_bin_def display_binary_data_val)
next
  case False
  let ?ds = "m_digits a" and ?v = "mpz_val a"
  note c = mpz_large_nonneg [OF assms(1) False assms(2)]
  let ?full = "concat (map (\<lambda>i. bin_digits 32 (uint (?ds ! (length ?ds - i - 1)))) [0..<length ?ds])"
  have full: "?full = bin_digits (32 * length ?ds) ?v" unfolding c(2) by (rule bin_digits_dval)
  show ?thesis
  proof (cases "num_bits mod 32 = 0 \<or> num_bits > length ?ds * 32")
    case True
    then have "32 * length ?ds \<le> num_bits"
    proof
      assume "num_bits mod 32 = 0"
      then obtain q where "num_bits = 32 * q" by auto
      then show ?thesis using assms(3) False by simp
    qed simp
    moreover have "drop_bit (32 * length ?ds) ?v = 0"
      using dval_less [of ?ds] unfolding digit_base_pow c(2) by (simp add: drop_bit_eq_div flip: of_nat_power)
    ultimately have "bin_digits num_bits ?v = replicate (num_bits - length ?ds * 32) (CHR ''0'') @ ?full"
      unfolding full using bin_digits_leading [of "32 * length ?ds" ?v num_bits] by (simp add: mult.commute)
    moreover have "mpz_display_bin a num_bits = replicate (num_bits - length ?ds * 32) (CHR ''0'') @ ?full"
      using False True by (auto simp: mpz_display_bin_def Let_def display_binary_data_val uint_ucast_digit)
    ultimately show ?thesis by simp
  next
    case part: False
    obtain es t where ds: "?ds = es @ [t]" using c(3) by (metis append_butlast_last_id)
    let ?f = "num_bits mod 32"
    have nb: "num_bits = ?f + 32 * length es" and f: "0 < ?f" "num_bits \<le> length ?ds * 32"
    proof -
      have "num_bits \<noteq> 32 * (length es + 1)" using part by (metis mod_mult_self1_is_0)
      then have "32 * length es < num_bits" "num_bits < 32 * length es + 32"
        using assms(3) False part by (auto simp: ds)
      then have "num_bits div 32 = length es" by (intro div_nat_eqI) simp_all
      then show "num_bits = ?f + 32 * length es" using mult_div_mod_eq [of 32 num_bits] by linarith
    qed (use part in auto)
    have top: "drop_bit (32 * length es) ?v = uint t"
    proof -
      have "dval ?ds = dval es + 2 ^ (32 * length es) * unat t" by (simp add: ds dval_append digit_base_pow)
      moreover have "dval es < 2 ^ (32 * length es)" using dval_less [of es] by (simp add: digit_base_pow)
      ultimately have "dval ?ds div 2 ^ (32 * length es) = unat t" by simp
      then have "int (dval ?ds) div 2 ^ (32 * length es) = int (unat t)" by (metis of_nat_div of_nat_numeral of_nat_power)
      then show ?thesis unfolding c(2) drop_bit_eq_div by (simp only: uint_nat)
    qed
    have low: "bin_digits (32 * length es) ?v = bin_digits (32 * length es) (int (dval es))"
    proof (rule bin_digits_cong)
      fix i assume "i < 32 * length es"
      then show "bit ?v i \<longleftrightarrow> bit (int (dval es)) i"
        unfolding c(2) using bit_dval [of ?ds i] bit_dval [of es i]
        by (auto simp: ds bit_of_nat_iff_bit nth_append less_mult_imp_div_less mult.commute simp del: dval.simps)
    qed
    have "[0..<length ?ds] = 0 # map Suc [0..<length es]" by (simp add: ds upt_conv_Cons map_Suc_upt del: upt_Suc)
    moreover have "map (\<lambda>i. bin_digits 32 (uint ((es @ [t]) ! (length es - Suc i)))) [0..<length es] =
        map (\<lambda>i. bin_digits 32 (uint (es ! (length es - Suc i)))) [0..<length es]"
    proof (rule map_cong [OF refl])
      fix i assume "i \<in> set [0..<length es]"
      then have "length es - Suc i < length es" by (cases es) simp_all
      then show "bin_digits 32 (uint ((es @ [t]) ! (length es - Suc i))) = bin_digits 32 (uint (es ! (length es - Suc i)))"
        by (simp add: nth_append)
    qed
    note arg_cong [OF this, of concat]
    ultimately have "mpz_display_bin a num_bits = bin_digits ?f (uint t) @
        concat (map (\<lambda>i. bin_digits 32 (uint (es ! (length es - i - 1)))) [0..<length es])"
      using False f by (simp add: mpz_display_bin_def Let_def display_binary_data_val uint_ucast_digit ds comp_def)
    also have "\<dots> = bin_digits ?f (drop_bit (32 * length es) ?v) @ bin_digits (32 * length es) ?v"
      unfolding bin_digits_dval top low ..
    also have "\<dots> = bin_digits num_bits ?v" using bin_digits_append [of ?f "32 * length es" ?v] nb by metis
    finally show ?thesis .
  qed
qed

end
