(* ===== verification/Mpq.thy ===== *)
theory Mpq
  imports Mpz_Gcd Complex_Main
begin

text \<open>
  \<open>mpq_manager\<close> (util/mpq.h, util/mpq.cpp): rational numbers as a numerator and a positive denominator
  in lowest terms. The source writes the result of an operation through a reference that may be the
  one of an argument, so addition, subtraction, multiplication and division are modelled on a store
  of numbers, at the addresses of their arguments and of their result; the value-level operations
  run them on three distinct cells. Every operation is proved against the rational \<open>mpq_val\<close>.
\<close>

section \<open>Representation\<close>

record mpq =
  m_num :: mpz
  m_den :: mpz

definition mpq_ok :: "mpq \<Rightarrow> bool" where
  "mpq_ok a \<longleftrightarrow> mpz_wf (m_num a) \<and> mpz_wf (m_den a) \<and> 0 < mpz_val (m_den a)
     \<and> coprime (mpz_val (m_num a)) (mpz_val (m_den a))"

definition mpq_val :: "mpq \<Rightarrow> rat" where
  "mpq_val a = of_int (mpz_val (m_num a)) / of_int (mpz_val (m_den a))"

type_synonym mpq_store = "nat \<Rightarrow> mpq"

section \<open>Operations\<close>

subsection \<open>Constants, signs and tests\<close>

definition mk_q :: "int \<Rightarrow> mpq" where
  "mk_q v = \<lparr>m_num = mk_z v, m_den = mk_z 1\<rparr>"

definition reset_denominator :: "mpq \<Rightarrow> mpq" where
  "reset_denominator a = a\<lparr>m_den := mk_z 1\<rparr>"

definition mpq_reset :: "mpq \<Rightarrow> mpq" where
  "mpq_reset a = reset_denominator (a\<lparr>m_num := mk_z 0\<rparr>)"

definition mpq_is_small :: "mpq \<Rightarrow> bool" where
  "mpq_is_small a \<longleftrightarrow> is_small (m_num a) \<and> is_small (m_den a)"

definition mpq_neg :: "mpq \<Rightarrow> mpq" where "mpq_neg a = a\<lparr>m_num := mpz_neg (m_num a)\<rparr>"
definition mpq_abs :: "mpq \<Rightarrow> mpq" where "mpq_abs a = a\<lparr>m_num := mpz_abs (m_num a)\<rparr>"
definition mpq_sign :: "mpq \<Rightarrow> int" where "mpq_sign a = mpz_sign (m_num a)"
definition mpq_is_pos :: "mpq \<Rightarrow> bool" where "mpq_is_pos a \<longleftrightarrow> mpz_is_pos (m_num a)"
definition mpq_is_neg :: "mpq \<Rightarrow> bool" where "mpq_is_neg a \<longleftrightarrow> mpz_is_neg (m_num a)"
definition mpq_is_zero :: "mpq \<Rightarrow> bool" where "mpq_is_zero a \<longleftrightarrow> mpz_is_zero (m_num a)"
definition mpq_is_nonpos :: "mpq \<Rightarrow> bool" where "mpq_is_nonpos a \<longleftrightarrow> mpz_is_nonpos (m_num a)"
definition mpq_is_nonneg :: "mpq \<Rightarrow> bool" where "mpq_is_nonneg a \<longleftrightarrow> mpz_is_nonneg (m_num a)"
definition mpq_is_one :: "mpq \<Rightarrow> bool" where
  "mpq_is_one a \<longleftrightarrow> mpz_is_one (m_num a) \<and> mpz_is_one (m_den a)"
definition mpq_is_minus_one :: "mpq \<Rightarrow> bool" where
  "mpq_is_minus_one a \<longleftrightarrow> mpz_is_minus_one (m_num a) \<and> mpz_is_one (m_den a)"
definition mpq_is_int :: "mpq \<Rightarrow> bool" where "mpq_is_int a \<longleftrightarrow> mpz_is_one (m_den a)"

definition mpq_normalize :: "mpq \<Rightarrow> mpq res" where
  "mpq_normalize a =
     bind_res (mpz_gcd (m_num a) (m_den a)) (\<lambda>tmp.
       if mpz_is_one tmp then Inr a
       else bind_res (mpz_div (m_num a) tmp) (\<lambda>n.
            bind_res (mpz_div (m_den a) tmp) (\<lambda>d. Inr \<lparr>m_num = n, m_den = d\<rparr>)))"

subsection \<open>Addition and subtraction\<close>

text \<open>\<open>lin_arith_op<SUB>(a, b, c, ...)\<close>, on the addresses of its arguments: \<open>c.m_den\<close> is assigned
  before \<open>b.m_den\<close> is read for the last time.\<close>

definition lin_arith_op :: "bool \<Rightarrow> nat \<Rightarrow> nat \<Rightarrow> nat \<Rightarrow> mpq_store \<Rightarrow> mpq_store res" where
  "lin_arith_op SUB a b c \<sigma> =
     (let op = (if SUB then mpz_sub else mpz_add) in
      bind_res (mpz_gcd (m_den (\<sigma> a)) (m_den (\<sigma> b))) (\<lambda>g.
        if mpz_is_one g then
          (let tmp1 = mpz_mul (m_num (\<sigma> a)) (m_den (\<sigma> b));
               tmp2 = mpz_mul (m_num (\<sigma> b)) (m_den (\<sigma> a));
               \<sigma> = \<sigma>(c := (\<sigma> c)\<lparr>m_num := op tmp1 tmp2\<rparr>);
               \<sigma> = \<sigma>(c := (\<sigma> c)\<lparr>m_den := mpz_mul (m_den (\<sigma> a)) (m_den (\<sigma> b))\<rparr>)
           in Inr \<sigma>)
        else
          bind_res (mpz_div (m_den (\<sigma> a)) g) (\<lambda>tmp3.
            let \<sigma> = \<sigma>(c := (\<sigma> c)\<lparr>m_den := mpz_mul tmp3 (m_den (\<sigma> b))\<rparr>);
                tmp2 = mpz_mul tmp3 (m_num (\<sigma> b))
            in bind_res (mpz_div (m_den (\<sigma> b)) g) (\<lambda>tmp3.
                 let tmp1 = mpz_mul tmp3 (m_num (\<sigma> a)); tmp3 = op tmp1 tmp2
                 in bind_res (mpz_gcd tmp3 g) (\<lambda>tmp1.
                      if mpz_is_one tmp1 then Inr (\<sigma>(c := (\<sigma> c)\<lparr>m_num := tmp3\<rparr>))
                      else bind_res (mpz_div tmp3 tmp1) (\<lambda>n.
                           bind_res (mpz_div (m_den (\<sigma> c)) tmp1) (\<lambda>d.
                             Inr (\<sigma>(c := \<lparr>m_num = n, m_den = d\<rparr>)))))))))"

definition add_at :: "nat \<Rightarrow> nat \<Rightarrow> nat \<Rightarrow> mpq_store \<Rightarrow> mpq_store res" where
  "add_at a b c \<sigma> =
     (if mpq_is_zero (\<sigma> b) then Inr (\<sigma>(c := \<sigma> a))
      else if mpq_is_zero (\<sigma> a) then Inr (\<sigma>(c := \<sigma> b))
      else if mpq_is_int (\<sigma> a) \<and> mpq_is_int (\<sigma> b)
      then Inr (\<sigma>(c := reset_denominator ((\<sigma> c)\<lparr>m_num := mpz_add (m_num (\<sigma> a)) (m_num (\<sigma> b))\<rparr>)))
      else lin_arith_op False a b c \<sigma>)"

definition sub_at :: "nat \<Rightarrow> nat \<Rightarrow> nat \<Rightarrow> mpq_store \<Rightarrow> mpq_store res" where
  "sub_at a b c \<sigma> =
     (if mpq_is_int (\<sigma> a) \<and> mpq_is_int (\<sigma> b)
      then Inr (\<sigma>(c := reset_denominator ((\<sigma> c)\<lparr>m_num := mpz_sub (m_num (\<sigma> a)) (m_num (\<sigma> b))\<rparr>)))
      else lin_arith_op True a b c \<sigma>)"

subsection \<open>Multiplication and division\<close>

definition rat_mul :: "nat \<Rightarrow> nat \<Rightarrow> nat \<Rightarrow> mpq_store \<Rightarrow> mpq_store res" where
  "rat_mul a b c \<sigma> =
     bind_res (mpz_gcd (m_den (\<sigma> a)) (m_num (\<sigma> b))) (\<lambda>g1.
     bind_res (mpz_gcd (m_num (\<sigma> a)) (m_den (\<sigma> b))) (\<lambda>g2.
     bind_res (mpz_div (m_num (\<sigma> a)) g2) (\<lambda>tmp1.
     bind_res (mpz_div (m_num (\<sigma> b)) g1) (\<lambda>tmp2.
       let \<sigma> = \<sigma>(c := (\<sigma> c)\<lparr>m_num := mpz_mul tmp1 tmp2\<rparr>) in
       bind_res (mpz_div (m_den (\<sigma> b)) g2) (\<lambda>tmp1.
       bind_res (mpz_div (m_den (\<sigma> a)) g1) (\<lambda>tmp2.
         Inr (\<sigma>(c := (\<sigma> c)\<lparr>m_den := mpz_mul tmp1 tmp2\<rparr>))))))))"

definition mul_at :: "nat \<Rightarrow> nat \<Rightarrow> nat \<Rightarrow> mpq_store \<Rightarrow> mpq_store res" where
  "mul_at a b c \<sigma> =
     (if mpq_is_int (\<sigma> a) \<and> mpq_is_int (\<sigma> b)
      then Inr (\<sigma>(c := reset_denominator ((\<sigma> c)\<lparr>m_num := mpz_mul (m_num (\<sigma> a)) (m_num (\<sigma> b))\<rparr>)))
      else rat_mul a b c \<sigma>)"

text \<open>\<open>div\<close> tests whether its result overwrites the divisor.\<close>

definition div_at :: "nat \<Rightarrow> nat \<Rightarrow> nat \<Rightarrow> mpq_store \<Rightarrow> mpq_store res" where
  "div_at a b c \<sigma> =
     (if mpq_is_zero (\<sigma> a) \<or> mpq_is_one (\<sigma> b) then Inr (\<sigma>(c := \<sigma> a))
      else
        (let \<sigma> = (if b = c then
               (let tmp = mpz_mul (m_num (\<sigma> a)) (m_den (\<sigma> b));
                    \<sigma> = \<sigma>(c := (\<sigma> c)\<lparr>m_den := mpz_mul (m_den (\<sigma> a)) (m_num (\<sigma> b))\<rparr>)
                in \<sigma>(c := (\<sigma> c)\<lparr>m_num := tmp\<rparr>))
             else
               (let \<sigma> = \<sigma>(c := (\<sigma> c)\<lparr>m_num := mpz_mul (m_num (\<sigma> a)) (m_den (\<sigma> b))\<rparr>)
                in \<sigma>(c := (\<sigma> c)\<lparr>m_den := mpz_mul (m_den (\<sigma> a)) (m_num (\<sigma> b))\<rparr>)));
             r = (if mpz_is_neg (m_den (\<sigma> c))
                  then \<lparr>m_num = mpz_neg (m_num (\<sigma> c)), m_den = mpz_neg (m_den (\<sigma> c))\<rparr> else \<sigma> c)
         in bind_res (mpq_normalize r) (\<lambda>r. Inr (\<sigma>(c := r)))))"

text \<open>The operations on values: the result is in a cell of its own.\<close>

definition run3 :: "(nat \<Rightarrow> nat \<Rightarrow> nat \<Rightarrow> mpq_store \<Rightarrow> mpq_store res) \<Rightarrow> mpq \<Rightarrow> mpq \<Rightarrow> mpq res" where
  "run3 f a b = bind_res (f 0 1 2 (\<lambda>i. if i = 0 then a else if i = 1 then b else mk_q 0)) (\<lambda>\<sigma>. Inr (\<sigma> 2))"

definition mpq_add :: "mpq \<Rightarrow> mpq \<Rightarrow> mpq res" where "mpq_add = run3 add_at"
definition mpq_sub :: "mpq \<Rightarrow> mpq \<Rightarrow> mpq res" where "mpq_sub = run3 sub_at"
definition mpq_mul :: "mpq \<Rightarrow> mpq \<Rightarrow> mpq res" where "mpq_mul = run3 mul_at"
definition mpq_div :: "mpq \<Rightarrow> mpq \<Rightarrow> mpq res" where "mpq_div = run3 div_at"

subsection \<open>Comparison\<close>

definition mpq_eq :: "mpq \<Rightarrow> mpq \<Rightarrow> bool" where
  "mpq_eq a b \<longleftrightarrow> mpz_eq (m_num a) (m_num b) \<and> mpz_eq (m_den a) (m_den b)"

text \<open>\<open>rat_lt\<close> compares the cross products as rational numbers with denominator one.\<close>

definition rat_lt :: "mpq \<Rightarrow> mpq \<Rightarrow> bool" where
  "rat_lt a b =
     (let sign_a = mpz_sign (m_num a); sign_b = mpz_sign (m_num b);
          cross = mpz_lt (mpz_mul (m_num a) (m_den b)) (mpz_mul (m_num b) (m_den a))
      in if sign_a < 0 then if sign_b \<ge> 0 then True else cross
         else if sign_a = 0 then sign_b > 0
         else if sign_b \<le> 0 then False else cross)"

definition mpq_lt :: "mpq \<Rightarrow> mpq \<Rightarrow> bool" where
  "mpq_lt a b = (if mpq_is_int a \<and> mpq_is_int b then mpz_lt (m_num a) (m_num b) else rat_lt a b)"

definition mpq_neq :: "mpq \<Rightarrow> mpq \<Rightarrow> bool" where "mpq_neq a b \<longleftrightarrow> \<not> mpq_eq a b"
definition mpq_gt :: "mpq \<Rightarrow> mpq \<Rightarrow> bool" where "mpq_gt a b \<longleftrightarrow> mpq_lt b a"
definition mpq_ge :: "mpq \<Rightarrow> mpq \<Rightarrow> bool" where "mpq_ge a b \<longleftrightarrow> \<not> mpq_lt a b"
definition mpq_le :: "mpq \<Rightarrow> mpq \<Rightarrow> bool" where "mpq_le a b \<longleftrightarrow> \<not> mpq_lt b a"

section \<open>Arithmetic of fractions in lowest terms\<close>

lemma reduced_fraction:
  assumes "0 < (d :: int)"
  shows "0 < d div gcd n d" "coprime (n div gcd n d) (d div gcd n d)"
    "of_int (n div gcd n d) / of_int (d div gcd n d) = (of_int n / of_int d :: rat)"
proof -
  let ?g = "gcd n d"
  have g: "0 < ?g" using assms by simp
  show "0 < d div ?g" using assms g by (simp add: pos_imp_zdiv_pos_iff zdvd_imp_le)
  show "coprime (n div ?g) (d div ?g)" using assms by (intro div_gcd_coprime) simp
  have "n = ?g * (n div ?g)" "d = ?g * (d div ?g)" by simp_all
  then have "(of_int n / of_int d :: rat) = of_int (?g * (n div ?g)) / of_int (?g * (d div ?g))" by simp
  also have "\<dots> = of_int (n div ?g) / of_int (d div ?g)" using g by (simp del: dvd_mult_div_cancel)
  finally show "of_int (n div ?g) / of_int (d div ?g) = (of_int n / of_int d :: rat)" by simp
qed

text \<open>The sum of two fractions over their least common denominator has only factors of the gcd of the
  denominators in common with it.\<close>

lemma sum_gcd:
  fixes na da nb db :: int
  assumes "0 < da" "0 < db" "coprime na da" "coprime nb db"
  defines "g \<equiv> gcd da db"
  defines "t \<equiv> na * (db div g) + nb * (da div g)"
  shows "gcd t (da div g * db) = gcd t g"
proof -
  define a where "a = da div g"
  define b where "b = db div g"
  have da: "da = g * a" and db: "db = g * b" by (simp_all add: a_def b_def g_def)
  have ab: "coprime a b" unfolding a_def b_def g_def using assms(1) by (intro div_gcd_coprime) simp
  have na: "coprime na a" "coprime nb b" using assms(3,4) da db by simp_all
  have t: "t = na * b + nb * a" by (simp add: t_def a_def b_def)
  have "gcd t a = gcd (na * b) a" unfolding t by (metis gcd_add_mult add.commute gcd.commute mult.commute)
  then have ta: "coprime t a" using na(1) ab by (simp add: coprime_iff_gcd_eq_1 [symmetric] coprime_commute)
  have "gcd t b = gcd (nb * a) b" unfolding t by (metis gcd_add_mult gcd.commute mult.commute)
  then have tb: "coprime t b" using na(2) ab by (simp add: coprime_iff_gcd_eq_1 [symmetric] coprime_commute)
  have "coprime t (a * b)" using ta tb by simp
  then have "gcd t (a * b * g) = gcd t g" by (intro gcd_mult_right_left_cancel) (simp add: coprime_commute)
  then show ?thesis by (simp add: a_def [symmetric] db ac_simps)
qed

lemma fraction_sum:
  fixes na da nb db :: int
  assumes "0 < da" "0 < db" "coprime na da" "coprime nb db"
  defines "g \<equiv> gcd da db"
  defines "t \<equiv> na * (db div g) + nb * (da div g)"
  defines "h \<equiv> gcd t g"
  shows "0 < da div g * db div h" "coprime (t div h) (da div g * db div h)"
    "of_int (t div h) / of_int (da div g * db div h) = (of_int na / of_int da + of_int nb / of_int db :: rat)"
proof -
  have h: "h = gcd t (da div g * db)"
    unfolding h_def t_def g_def by (rule sum_gcd [OF assms(1-4), symmetric])
  have g: "0 < g" using assms(1) by (simp add: g_def)
  have dec: "da = g * (da div g)" "db = g * (db div g)" by (simp_all add: g_def)
  have pos: "0 < da div g" "0 < db div g" using dec g assms(1,2) by (metis zero_less_mult_pos)+
  then have d: "0 < da div g * db" using assms(2) by simp
  note red = reduced_fraction [OF d, of t, folded h]
  show "0 < da div g * db div h" "coprime (t div h) (da div g * db div h)" by (fact red)+
  have "of_int (t div h) / of_int (da div g * db div h) = (of_int t / of_int (da div g * db) :: rat)" by (fact red)
  also have "\<dots> = of_int na / of_int da + of_int nb / of_int db"
  proof -
    define a where "a = da div g"
    define b where "b = db div g"
    have "a \<noteq> 0" "b \<noteq> 0" "g \<noteq> 0" using pos g by (simp_all add: a_def b_def)
    moreover have "da = g * a" "db = g * b" using dec by (simp_all add: a_def b_def)
    ultimately show ?thesis by (simp add: t_def a_def [symmetric] b_def [symmetric] field_simps)
  qed
  finally show "of_int (t div h) / of_int (da div g * db div h) = (of_int na / of_int da + of_int nb / of_int db :: rat)" .
qed

lemma fraction_product:
  fixes na da nb db :: int
  assumes "0 < da" "0 < db" "coprime na da" "coprime nb db"
  defines "g1 \<equiv> gcd da nb" and "g2 \<equiv> gcd na db"
  shows "0 < db div g2 * (da div g1)" "coprime (na div g2 * (nb div g1)) (db div g2 * (da div g1))"
    "of_int (na div g2 * (nb div g1)) / of_int (db div g2 * (da div g1)) =
       (of_int na / of_int da * (of_int nb / of_int db) :: rat)"
proof -
  have pos: "0 < g1" "0 < g2" using assms(1,2) by (simp_all add: g1_def g2_def)
  define a b c d where "a = na div g2" and "b = nb div g1" and "c = da div g1" and "d = db div g2"
  have dec: "na = g2 * a" "nb = g1 * b" "da = g1 * c" "db = g2 * d"
    by (simp_all add: a_def b_def c_def d_def g1_def g2_def)
  have cd: "0 < c" "0 < d" using dec(3,4) pos assms(1,2) by (metis zero_less_mult_pos)+
  have "coprime a d" unfolding a_def d_def g2_def using assms(2) by (intro div_gcd_coprime) simp
  moreover have "coprime b c" unfolding b_def c_def g1_def gcd.commute [of da nb] using assms(1) by (intro div_gcd_coprime) simp
  moreover have "coprime a c" "coprime b d" using assms(3,4) dec by simp_all
  ultimately have "coprime (a * b) (d * c)" by simp
  moreover have "of_int (a * b) / of_int (d * c) = (of_int na / of_int da * (of_int nb / of_int db) :: rat)"
    using pos cd by (simp add: dec field_simps)
  ultimately show "0 < db div g2 * (da div g1)" "coprime (na div g2 * (nb div g1)) (db div g2 * (da div g1))"
    "of_int (na div g2 * (nb div g1)) / of_int (db div g2 * (da div g1)) =
       (of_int na / of_int da * (of_int nb / of_int db) :: rat)"
    using cd by (simp_all add: a_def b_def c_def d_def)
qed

section \<open>Signs, tests and normalization\<close>

lemma mpq_okD:
  assumes "mpq_ok a"
  shows "mpz_wf (m_num a)" "mpz_wf (m_den a)" "mpz_ok (m_num a)" "mpz_ok (m_den a)" "0 < mpz_val (m_den a)"
    "coprime (mpz_val (m_num a)) (mpz_val (m_den a))"
  using assms by (simp_all add: mpq_ok_def)

lemma mpq_okI:
  assumes "mpz_wf n" "mpz_wf d" "0 < mpz_val d" "coprime (mpz_val n) (mpz_val d)"
  shows "mpq_ok \<lparr>m_num = n, m_den = d\<rparr>"
  using assms by (simp add: mpq_ok_def)

lemma small_constants [simp]:
  "int_min \<le> 0" "0 \<le> int_max" "int_min \<le> 1" "1 \<le> int_max" "int_min \<le> - 1" "- 1 \<le> int_max"
  by (simp_all add: int_limits)

lemma mk_q_ok [simp]: "mpq_ok (mk_q v) \<longleftrightarrow> int_min \<le> v \<and> v \<le> int_max" "mpq_val (mk_q v) = of_int v"
  by (simp_all add: mk_q_def mpq_ok_def mpq_val_def int_limits)

lemma mpq_int_cell [simp]:
  "mpq_ok (reset_denominator (a\<lparr>m_num := n\<rparr>)) \<longleftrightarrow> mpz_wf n"
  "mpq_val (reset_denominator (a\<lparr>m_num := n\<rparr>)) = of_int (mpz_val n)"
  by (simp_all add: reset_denominator_def mpq_ok_def mpq_val_def int_limits)

lemma mpq_val_sign:
  assumes "mpq_ok a"
  shows "0 < mpq_val a \<longleftrightarrow> 0 < mpz_val (m_num a)" "mpq_val a < 0 \<longleftrightarrow> mpz_val (m_num a) < 0"
    "mpq_val a = 0 \<longleftrightarrow> mpz_val (m_num a) = 0" "0 \<le> mpq_val a \<longleftrightarrow> 0 \<le> mpz_val (m_num a)"
    "mpq_val a \<le> 0 \<longleftrightarrow> mpz_val (m_num a) \<le> 0"
  using mpq_okD(5) [OF assms]
  by (simp_all add: mpq_val_def zero_less_divide_iff divide_less_0_iff zero_le_divide_iff divide_le_0_iff)

lemma mpq_sign_tests [simp]:
  assumes "mpq_ok a"
  shows "mpq_is_pos a \<longleftrightarrow> 0 < mpq_val a" "mpq_is_neg a \<longleftrightarrow> mpq_val a < 0" "mpq_is_zero a \<longleftrightarrow> mpq_val a = 0"
    "mpq_is_nonpos a \<longleftrightarrow> mpq_val a \<le> 0" "mpq_is_nonneg a \<longleftrightarrow> 0 \<le> mpq_val a"
  using mpq_okD(3) [OF assms] mpq_val_sign [OF assms]
  by (simp_all add: mpq_is_pos_def mpq_is_neg_def mpq_is_zero_def mpq_is_nonpos_def mpq_is_nonneg_def)

lemma mpq_is_int_den: "mpq_ok a \<Longrightarrow> mpq_is_int a \<longleftrightarrow> mpz_val (m_den a) = 1"
  by (simp add: mpq_is_int_def mpq_ok_def)

lemma mpq_int_val: "mpq_ok a \<Longrightarrow> mpq_is_int a \<Longrightarrow> mpq_val a = of_int (mpz_val (m_num a))"
  by (simp add: mpq_is_int_den mpq_val_def)

text \<open>Equal rationals in lowest terms have equal numerators and denominators.\<close>

lemma lowest_terms_unique:
  fixes a b c d :: int
  assumes "0 < b" "0 < d" "coprime a b" "coprime c d" "a * d = c * b"
  shows "a = c \<and> b = d"
proof -
  have "b dvd d" using assms(3,5) by (metis coprime_commute coprime_dvd_mult_right_iff dvd_triv_right)
  moreover have "d dvd b" using assms(4,5) by (metis coprime_commute coprime_dvd_mult_right_iff dvd_triv_right)
  ultimately have "b = d" using assms(1,2) by (simp add: zdvd_antisym_nonneg)
  then show ?thesis using assms by simp
qed

lemma mpq_val_eq_iff:
  assumes "mpq_ok a" "mpq_ok b"
  shows "mpq_val a = mpq_val b \<longleftrightarrow> mpz_val (m_num a) = mpz_val (m_num b) \<and> mpz_val (m_den a) = mpz_val (m_den b)"
proof
  assume "mpq_val a = mpq_val b"
  then have "(of_int (mpz_val (m_num a) * mpz_val (m_den b)) :: rat) = of_int (mpz_val (m_num b) * mpz_val (m_den a))"
    using mpq_okD(5) [OF assms(1)] mpq_okD(5) [OF assms(2)] by (simp add: mpq_val_def field_simps)
  then have "mpz_val (m_num a) * mpz_val (m_den b) = mpz_val (m_num b) * mpz_val (m_den a)"
    by (simp only: of_int_eq_iff)
  then show "mpz_val (m_num a) = mpz_val (m_num b) \<and> mpz_val (m_den a) = mpz_val (m_den b)"
    using lowest_terms_unique mpq_okD [OF assms(1)] mpq_okD [OF assms(2)] by blast
qed (simp add: mpq_val_def)

lemma mpq_is_one_val [simp]:
  assumes "mpq_ok a"
  shows "mpq_is_one a \<longleftrightarrow> mpq_val a = 1" "mpq_is_minus_one a \<longleftrightarrow> mpq_val a = - 1"
  using mpq_val_eq_iff [OF assms, of "mk_q 1"] mpq_val_eq_iff [OF assms, of "mk_q (- 1)"] mpq_okD [OF assms]
  by (simp_all add: mpq_is_one_def mpq_is_minus_one_def int_limits) (simp_all add: mk_q_def)

lemma mpq_is_int_val: "mpq_ok a \<Longrightarrow> mpq_is_int a \<longleftrightarrow> mpq_val a \<in> \<int>"
proof
  assume ok: "mpq_ok a" and "mpq_val a \<in> \<int>"
  then obtain v :: int where "mpq_val a = of_int v" by (auto elim: Ints_cases)
  then have "(of_int (mpz_val (m_num a)) :: rat) = of_int (v * mpz_val (m_den a))"
    using mpq_okD(5) [OF ok] by (simp add: mpq_val_def field_simps)
  then have "mpz_val (m_num a) = v * mpz_val (m_den a)" by (simp only: of_int_eq_iff)
  then show "mpq_is_int a" using mpq_okD [OF ok] by (simp add: mpq_is_int_den [OF ok] coprime_iff_gcd_eq_1)
qed (simp add: mpq_int_val)

lemma mpq_neg_abs [simp]:
  assumes "mpq_ok a"
  shows "mpq_ok (mpq_neg a)" "mpq_val (mpq_neg a) = - mpq_val a" "mpq_ok (mpq_abs a)" "mpq_val (mpq_abs a) = \<bar>mpq_val a\<bar>"
  using mpq_okD [OF assms] by (simp_all add: mpq_neg_def mpq_abs_def mpq_ok_def mpq_val_def abs_divide)

text \<open>Division by a positive divisor, and normalization of a fraction with a positive denominator.\<close>

lemma mpz_div_pos_yields:
  assumes "mpz_wf a" "mpz_wf g" "0 < mpz_val g"
  shows "yields (mpz_div a g) (\<lambda>c. mpz_wf c \<and> mpz_val c = mpz_val a div mpz_val g)"
  using mpz_div_yields [OF assms(1,2)] assms(3) by (auto simp: ediv_def elim!: yields_mono)

lemma mpq_normalize_yields:
  assumes "mpz_wf (m_num a)" "mpz_wf (m_den a)" "0 < mpz_val (m_den a)"
  shows "yields (mpq_normalize a) (\<lambda>c. mpq_ok c \<and> mpq_val c = mpq_val a)"
proof -
  note red = reduced_fraction [OF assms(3), of "mpz_val (m_num a)"]
  have pos: "0 < gcd (mpz_val (m_num a)) (mpz_val (m_den a))" using assms(3) by simp
  obtain g where g: "mpz_gcd (m_num a) (m_den a) = Inr g" "mpz_wf g" "mpz_val g = gcd (mpz_val (m_num a)) (mpz_val (m_den a))"
    using mpz_gcd_yields [OF assms(1,2)] by (auto elim: yieldsE)
  obtain n where n: "mpz_div (m_num a) g = Inr n" "mpz_wf n" "mpz_val n = mpz_val (m_num a) div mpz_val g"
    using mpz_div_pos_yields [OF assms(1) g(2)] pos g(3) by (auto elim: yieldsE)
  obtain d where d: "mpz_div (m_den a) g = Inr d" "mpz_wf d" "mpz_val d = mpz_val (m_den a) div mpz_val g"
    using mpz_div_pos_yields [OF assms(2) g(2)] pos g(3) by (auto elim: yieldsE)
  show ?thesis
  proof (cases "mpz_is_one g")
    case True
    then show ?thesis using g assms by (simp add: mpq_normalize_def mpq_ok_def coprime_iff_gcd_eq_1)
  next
    case False
    then show ?thesis using g n d red by (simp add: mpq_normalize_def mpq_ok_def mpq_val_def)
  qed
qed

section \<open>Addition and subtraction\<close>

text \<open>The result may overwrite the first argument, but the second one only when it is also the first.\<close>

lemma lin_arith_op_yields:
  assumes ok: "mpq_ok (\<sigma> a)" "mpq_ok (\<sigma> b)" and dis: "c \<noteq> b \<or> a = b \<or> coprime (mpz_val (m_den (\<sigma> a))) (mpz_val (m_den (\<sigma> b)))"
  shows "yields (lin_arith_op SUB a b c \<sigma>) (\<lambda>\<tau>. mpq_ok (\<tau> c) \<and> (\<forall>i. i \<noteq> c \<longrightarrow> \<tau> i = \<sigma> i)
    \<and> mpq_val (\<tau> c) = (if SUB then mpq_val (\<sigma> a) - mpq_val (\<sigma> b) else mpq_val (\<sigma> a) + mpq_val (\<sigma> b)))"
proof -
  define na da nb db where "na = mpz_val (m_num (\<sigma> a))" and "da = mpz_val (m_den (\<sigma> a))"
    and "nb = (if SUB then - mpz_val (m_num (\<sigma> b)) else mpz_val (m_num (\<sigma> b)))" and "db = mpz_val (m_den (\<sigma> b))"
  note A = mpq_okD [OF ok(1)] and B = mpq_okD [OF ok(2)]
  have pos: "0 < da" "0 < db" and cop: "coprime na da" "coprime nb db"
    using A(5,6) B(5,6) by (simp_all add: na_def da_def nb_def db_def)
  note sum = fraction_sum [OF pos cop]
  have sum_val: "of_int na / of_int da + of_int nb / of_int db =
      (if SUB then mpq_val (\<sigma> a) - mpq_val (\<sigma> b) else mpq_val (\<sigma> a) + mpq_val (\<sigma> b))"
    by (simp add: mpq_val_def na_def da_def nb_def db_def)
  obtain g where g: "mpz_gcd (m_den (\<sigma> a)) (m_den (\<sigma> b)) = Inr g" "mpz_wf g" "mpz_val g = gcd da db"
    using mpz_gcd_yields [OF A(2) B(2)] by (auto elim: yieldsE simp: da_def db_def)
  have g0: "0 < gcd da db" using pos by simp
  let ?op = "if SUB then mpz_sub else mpz_add"
  have op: "mpz_wf (?op x y)" "mpz_val (?op x y) = (if SUB then mpz_val x - mpz_val y else mpz_val x + mpz_val y)"
    if "mpz_wf x" "mpz_wf y" for x y using that by simp_all
  show ?thesis
  proof (cases "mpz_val g = 1")
    case True
    then have "gcd da db = 1" using g(3) by simp
    then show ?thesis
      using sum sum_val g True A B op
      by (auto simp: lin_arith_op_def mpq_ok_def mpq_val_def na_def da_def nb_def db_def algebra_simps)
  next
    case False
    then have al: "c \<noteq> b \<or> a = b" using dis g(3) by (auto simp: da_def db_def coprime_iff_gcd_eq_1)
    obtain u where u: "mpz_div (m_den (\<sigma> a)) g = Inr u" "mpz_wf u" "mpz_val u = da div gcd da db"
      using mpz_div_pos_yields [OF A(2) g(2)] g(3) g0 by (auto elim: yieldsE simp: da_def)
    let ?d = "mpz_mul u (m_den (\<sigma> b))"
    let ?\<sigma> = "\<sigma>(c := (\<sigma> c)\<lparr>m_den := ?d\<rparr>)"
    have d: "mpz_wf ?d" "mpz_val ?d = da div gcd da db * db" using u B by (simp_all add: db_def)
    have same: "a = b \<Longrightarrow> mpz_val ?d = db" using d(2) pos by (simp add: da_def db_def)
    have rd: "mpz_wf (m_den (?\<sigma> b))" "mpz_val (m_den (?\<sigma> b)) = db"
      using al same B(2) d(1) by (auto simp: db_def)
    obtain v where v: "mpz_div (m_den (?\<sigma> b)) g = Inr v" "mpz_wf v" "mpz_val v = db div gcd da db"
      using mpz_div_pos_yields [OF rd(1) g(2)] rd(2) g(3) g0 by (auto elim: yieldsE)
    define t where "t = ?op (mpz_mul v (m_num (?\<sigma> a))) (mpz_mul u (m_num (?\<sigma> b)))"
    have nums: "m_num (?\<sigma> a) = m_num (\<sigma> a)" "m_num (?\<sigma> b) = m_num (\<sigma> b)" by simp_all
    have t: "mpz_wf t" "mpz_val t = na * (db div gcd da db) + nb * (da div gcd da db)"
      unfolding t_def nums using u v A B by (auto simp: op na_def nb_def mult.commute)
    obtain h where h: "mpz_gcd t g = Inr h" "mpz_wf h" "mpz_val h = gcd (mpz_val t) (gcd da db)"
      using mpz_gcd_yields [OF t(1) g(2)] g(3) by (auto elim: yieldsE)
    have h0: "0 < mpz_val h" using g0 h(3) by simp
    obtain n where n: "mpz_div t h = Inr n" "mpz_wf n" "mpz_val n = mpz_val t div mpz_val h"
      using mpz_div_pos_yields [OF t(1) h(2) h0] by (auto elim: yieldsE)
    obtain e where e: "mpz_div ?d h = Inr e" "mpz_wf e" "mpz_val e = mpz_val ?d div mpz_val h"
      using mpz_div_pos_yields [OF d(1) h(2) h0] by (auto elim: yieldsE)
    have res: "lin_arith_op SUB a b c \<sigma> = Inr (?\<sigma>(c := if mpz_is_one h then (?\<sigma> c)\<lparr>m_num := t\<rparr> else \<lparr>m_num = n, m_den = e\<rparr>))"
      using g(1,2) False u(1) v(1) h(1) n(1) e(1) by (simp add: lin_arith_op_def Let_def t_def)
    have cell: "mpq_ok (if mpz_is_one h then (?\<sigma> c)\<lparr>m_num := t\<rparr> else \<lparr>m_num = n, m_den = e\<rparr>)
      \<and> mpq_val (if mpz_is_one h then (?\<sigma> c)\<lparr>m_num := t\<rparr> else \<lparr>m_num = n, m_den = e\<rparr>) =
        of_int na / of_int da + of_int nb / of_int db"
    proof (cases "mpz_is_one h")
      case True
      then have "gcd (mpz_val t) (gcd da db) = 1" using h(2,3) by simp
      then show ?thesis using True sum t d by (simp add: mpq_ok_def mpq_val_def)
    next
      case False
      then show ?thesis using sum n(2,3) e(2,3) by (simp add: h(3) t(2) d(2) mpq_ok_def mpq_val_def)
    qed
    show ?thesis using cell unfolding res by (simp add: sum_val)
  qed
qed

lemma add_at_yields:
  assumes "mpq_ok (\<sigma> a)" "mpq_ok (\<sigma> b)" "c \<noteq> b \<or> a = b \<or> coprime (mpz_val (m_den (\<sigma> a))) (mpz_val (m_den (\<sigma> b)))"
  shows "yields (add_at a b c \<sigma>) (\<lambda>\<tau>. mpq_ok (\<tau> c) \<and> (\<forall>i. i \<noteq> c \<longrightarrow> \<tau> i = \<sigma> i)
    \<and> mpq_val (\<tau> c) = mpq_val (\<sigma> a) + mpq_val (\<sigma> b))"
  using lin_arith_op_yields [OF assms, of False] assms(1,2) mpq_okD [OF assms(1)] mpq_okD [OF assms(2)]
  by (simp add: add_at_def mpq_int_val)

lemma sub_at_yields:
  assumes "mpq_ok (\<sigma> a)" "mpq_ok (\<sigma> b)" "c \<noteq> b \<or> a = b \<or> coprime (mpz_val (m_den (\<sigma> a))) (mpz_val (m_den (\<sigma> b)))"
  shows "yields (sub_at a b c \<sigma>) (\<lambda>\<tau>. mpq_ok (\<tau> c) \<and> (\<forall>i. i \<noteq> c \<longrightarrow> \<tau> i = \<sigma> i)
    \<and> mpq_val (\<tau> c) = mpq_val (\<sigma> a) - mpq_val (\<sigma> b))"
  using lin_arith_op_yields [OF assms, of True] assms(1,2) mpq_okD [OF assms(1)] mpq_okD [OF assms(2)]
  by (simp add: sub_at_def mpq_int_val)

section \<open>Multiplication and division\<close>

lemma mpq_update_both [simp]:
  "(x :: mpq)\<lparr>m_num := n, m_den := d\<rparr> = \<lparr>m_num = n, m_den = d\<rparr>"
  "(x :: mpq)\<lparr>m_den := d, m_num := n\<rparr> = \<lparr>m_num = n, m_den = d\<rparr>"
  by (cases x; simp)+

text \<open>A fraction that need not be in lowest terms. Products and quotients of such fractions have the right
  value, too; products need not be in lowest terms then.\<close>

definition mpq_fraction :: "mpq \<Rightarrow> bool" where
  "mpq_fraction a \<longleftrightarrow> mpz_wf (m_num a) \<and> mpz_wf (m_den a) \<and> 0 < mpz_val (m_den a)"

lemma mpq_fractionI [simp]: "mpq_ok a \<Longrightarrow> mpq_fraction a"
  by (simp add: mpq_fraction_def mpq_okD)

lemma rat_mul_parts:
  assumes ok: "mpq_fraction (\<sigma> a)" "mpq_fraction (\<sigma> b)"
  defines "na \<equiv> mpz_val (m_num (\<sigma> a))" and "da \<equiv> mpz_val (m_den (\<sigma> a))"
    and "nb \<equiv> mpz_val (m_num (\<sigma> b))" and "db \<equiv> mpz_val (m_den (\<sigma> b))"
  shows "yields (rat_mul a b c \<sigma>) (\<lambda>\<tau>. (\<forall>i. i \<noteq> c \<longrightarrow> \<tau> i = \<sigma> i) \<and> mpz_wf (m_num (\<tau> c)) \<and> mpz_wf (m_den (\<tau> c))
    \<and> mpz_val (m_num (\<tau> c)) = na div gcd na db * (nb div gcd da nb)
    \<and> mpz_val (m_den (\<tau> c)) = db div gcd na db * (da div gcd da nb))"
proof -
  note defs = na_def da_def nb_def db_def
  have A: "mpz_wf (m_num (\<sigma> a))" "mpz_wf (m_den (\<sigma> a))" "0 < da" and B: "mpz_wf (m_num (\<sigma> b))" "mpz_wf (m_den (\<sigma> b))" "0 < db"
    using ok by (simp_all add: mpq_fraction_def defs)
  obtain g1 where g1: "mpz_gcd (m_den (\<sigma> a)) (m_num (\<sigma> b)) = Inr g1" "mpz_wf g1" "mpz_val g1 = gcd da nb"
    using mpz_gcd_yields [OF A(2) B(1)] by (auto elim: yieldsE simp: defs)
  obtain g2 where g2: "mpz_gcd (m_num (\<sigma> a)) (m_den (\<sigma> b)) = Inr g2" "mpz_wf g2" "mpz_val g2 = gcd na db"
    using mpz_gcd_yields [OF A(1) B(2)] by (auto elim: yieldsE simp: defs)
  have pos: "0 < mpz_val g1" "0 < mpz_val g2" using g1(3) g2(3) A(3) B(3) by simp_all
  obtain u where u: "mpz_div (m_num (\<sigma> a)) g2 = Inr u" "mpz_wf u" "mpz_val u = na div gcd na db"
    using mpz_div_pos_yields [OF A(1) g2(2) pos(2)] g2(3) by (auto elim: yieldsE simp: defs)
  obtain v where v: "mpz_div (m_num (\<sigma> b)) g1 = Inr v" "mpz_wf v" "mpz_val v = nb div gcd da nb"
    using mpz_div_pos_yields [OF B(1) g1(2) pos(1)] g1(3) by (auto elim: yieldsE simp: defs)
  obtain w where w: "mpz_div (m_den (\<sigma> b)) g2 = Inr w" "mpz_wf w" "mpz_val w = db div gcd na db"
    using mpz_div_pos_yields [OF B(2) g2(2) pos(2)] g2(3) by (auto elim: yieldsE simp: defs)
  obtain x where x: "mpz_div (m_den (\<sigma> a)) g1 = Inr x" "mpz_wf x" "mpz_val x = da div gcd da nb"
    using mpz_div_pos_yields [OF A(2) g1(2) pos(1)] g1(3) by (auto elim: yieldsE simp: defs)
  have dens: "m_den (if i = c then (\<sigma> c)\<lparr>m_num := y\<rparr> else \<sigma> i) = m_den (\<sigma> i)" for i y by simp
  have res: "rat_mul a b c \<sigma> = Inr (\<sigma>(c := \<lparr>m_num = mpz_mul u v, m_den = mpz_mul w x\<rparr>))"
    using g1(1) g2(1) u(1) v(1) w(1) x(1) by (simp add: rat_mul_def Let_def dens)
  show ?thesis
    using u v w x by (simp add: res)
qed

lemma cancelled_product:
  fixes na da nb db :: int
  assumes "0 < da" "0 < db"
  shows "of_int (na div gcd na db * (nb div gcd da nb)) / of_int (db div gcd na db * (da div gcd da nb)) =
      (of_int na / of_int da * (of_int nb / of_int db) :: 'a :: field_char_0)" "0 < db div gcd na db * (da div gcd da nb)"
proof -
  define g1 g2 where "g1 = gcd da nb" and "g2 = gcd na db"
  obtain da' nb' na' db' where eq: "da = g1 * da'" "nb = g1 * nb'" "na = g2 * na'" "db = g2 * db'"
    unfolding g1_def g2_def by (meson dvdE gcd_dvd1 gcd_dvd2)
  have pos: "0 < g1" "0 < g2" using assms by (simp_all add: g1_def g2_def)
  then have pos': "0 < da'" "0 < db'" using assms by (simp_all add: eq zero_less_mult_iff)
  have "na div g2 = na'" "nb div g1 = nb'" "db div g2 = db'" "da div g1 = da'" using pos by (simp_all add: eq)
  then show "of_int (na div gcd na db * (nb div gcd da nb)) / of_int (db div gcd na db * (da div gcd da nb)) =
      (of_int na / of_int da * (of_int nb / of_int db) :: 'a)" "0 < db div gcd na db * (da div gcd da nb)"
    using pos pos' unfolding g1_def [symmetric] g2_def [symmetric] by (simp_all add: eq)
qed

lemma rat_mul_fraction:
  assumes "mpq_fraction (\<sigma> a)" "mpq_fraction (\<sigma> b)"
  shows "yields (rat_mul a b c \<sigma>) (\<lambda>\<tau>. mpq_fraction (\<tau> c) \<and> mpq_val (\<tau> c) = mpq_val (\<sigma> a) * mpq_val (\<sigma> b))"
  using rat_mul_parts [OF assms, of c] cancelled_product [of "mpz_val (m_den (\<sigma> a))" "mpz_val (m_den (\<sigma> b))"
      "mpz_val (m_num (\<sigma> a))" "mpz_val (m_num (\<sigma> b))"] assms
  by (auto simp: mpq_fraction_def mpq_val_def elim!: yields_mono)

lemma rat_mul_yields:
  assumes ok: "mpq_ok (\<sigma> a)" "mpq_ok (\<sigma> b)"
  shows "yields (rat_mul a b c \<sigma>) (\<lambda>\<tau>. mpq_ok (\<tau> c) \<and> (\<forall>i. i \<noteq> c \<longrightarrow> \<tau> i = \<sigma> i)
    \<and> mpq_val (\<tau> c) = mpq_val (\<sigma> a) * mpq_val (\<sigma> b))"
proof -
  note A = mpq_okD [OF ok(1)] and B = mpq_okD [OF ok(2)]
  show ?thesis
    by (rule yields_mono [OF rat_mul_parts [OF mpq_fractionI [OF ok(1)] mpq_fractionI [OF ok(2)]]])
      (use fraction_product [OF A(5) B(5) A(6) B(6)] in \<open>simp add: mpq_ok_def mpq_val_def\<close>)
qed

lemma mul_at_yields:
  assumes "mpq_ok (\<sigma> a)" "mpq_ok (\<sigma> b)"
  shows "yields (mul_at a b c \<sigma>) (\<lambda>\<tau>. mpq_ok (\<tau> c) \<and> (\<forall>i. i \<noteq> c \<longrightarrow> \<tau> i = \<sigma> i)
    \<and> mpq_val (\<tau> c) = mpq_val (\<sigma> a) * mpq_val (\<sigma> b))"
  using rat_mul_yields [of \<sigma> a b c, OF assms] assms mpq_okD [OF assms(1)] mpq_okD [OF assms(2)]
  by (simp add: mul_at_def mpq_int_val)

lemma mul_at_fraction:
  assumes "mpq_fraction (\<sigma> a)" "mpq_fraction (\<sigma> b)"
  shows "yields (mul_at a b c \<sigma>) (\<lambda>\<tau>. mpq_fraction (\<tau> c) \<and> mpq_val (\<tau> c) = mpq_val (\<sigma> a) * mpq_val (\<sigma> b))"
  using rat_mul_fraction [of \<sigma> a b c, OF assms] assms
  by (auto simp: mul_at_def mpq_fraction_def mpq_val_def mpq_is_int_def reset_denominator_def)

text \<open>A fraction with a nonzero denominator of any sign, normalized as \<open>div\<close> does it.\<close>

lemma signed_normalize_yields:
  assumes "mpz_wf n" "mpz_wf d" "mpz_val d \<noteq> 0"
  shows "yields (mpq_normalize (if mpz_is_neg d then \<lparr>m_num = mpz_neg n, m_den = mpz_neg d\<rparr> else \<lparr>m_num = n, m_den = d\<rparr>))
    (\<lambda>c. mpq_ok c \<and> mpq_val c = of_int (mpz_val n) / of_int (mpz_val d))"
proof (cases "mpz_val d < 0")
  case True
  then show ?thesis
    using mpq_normalize_yields [of "\<lparr>m_num = mpz_neg n, m_den = mpz_neg d\<rparr>"] assms by (simp add: mpq_val_def)
next
  case False
  then show ?thesis
    using mpq_normalize_yields [of "\<lparr>m_num = n, m_den = d\<rparr>"] assms by (simp add: mpq_val_def)
qed

text \<open>Division is correct for every aliasing of its arguments.\<close>

lemma div_at_fraction:
  assumes A: "mpq_fraction (\<sigma> a)" and B: "mpq_fraction (\<sigma> b)" and nz: "mpq_val (\<sigma> b) \<noteq> 0"
  shows "yields (div_at a b c \<sigma>) (\<lambda>\<tau>. mpq_fraction (\<tau> c) \<and> (mpq_ok (\<sigma> a) \<longrightarrow> mpq_ok (\<tau> c)) \<and> (\<forall>i. i \<noteq> c \<longrightarrow> \<tau> i = \<sigma> i)
    \<and> mpq_val (\<tau> c) = mpq_val (\<sigma> a) / mpq_val (\<sigma> b))"
proof (cases "mpq_is_zero (\<sigma> a) \<or> mpq_is_one (\<sigma> b)")
  case True
  then show ?thesis using A B
    by (auto simp: div_at_def mpq_fraction_def mpq_val_def mpq_is_zero_def mpq_is_one_def)
next
  case False
  let ?n = "mpz_mul (m_num (\<sigma> a)) (m_den (\<sigma> b))" and ?d = "mpz_mul (m_den (\<sigma> a)) (m_num (\<sigma> b))"
  have d0: "mpz_val ?d \<noteq> 0" using A B nz by (auto simp: mpq_fraction_def mpq_val_def)
  have v: "of_int (mpz_val ?n) / of_int (mpz_val ?d) = mpq_val (\<sigma> a) / mpq_val (\<sigma> b)"
    using A B by (simp add: mpq_fraction_def mpq_val_def)
  have eq: "div_at a b c \<sigma> = bind_res (mpq_normalize (if mpz_is_neg ?d
      then \<lparr>m_num = mpz_neg ?n, m_den = mpz_neg ?d\<rparr> else \<lparr>m_num = ?n, m_den = ?d\<rparr>))
      (\<lambda>r. Inr (\<sigma>(c := r)))"
    using False by (auto simp: div_at_def Let_def)
  have wf: "mpz_wf ?n" "mpz_wf ?d" using A B by (simp_all add: mpq_fraction_def)
  show ?thesis
    using signed_normalize_yields [OF wf d0] unfolding eq v by (auto elim!: yields_mono)
qed

lemma div_at_yields:
  assumes "mpq_ok (\<sigma> a)" "mpq_ok (\<sigma> b)" "mpq_val (\<sigma> b) \<noteq> 0"
  shows "yields (div_at a b c \<sigma>) (\<lambda>\<tau>. mpq_ok (\<tau> c) \<and> (\<forall>i. i \<noteq> c \<longrightarrow> \<tau> i = \<sigma> i)
    \<and> mpq_val (\<tau> c) = mpq_val (\<sigma> a) / mpq_val (\<sigma> b))"
  using div_at_fraction [of \<sigma> a b c] assms by (auto elim!: yields_mono)

section \<open>The operations on values\<close>

lemma run3_yields:
  assumes "yields (f 0 1 2 (\<lambda>i. if i = 0 then a else if i = 1 then b else mk_q 0)) (\<lambda>\<tau>. P (\<tau> 2))"
  shows "yields (run3 f a b) P"
  using assms by (simp add: run3_def)

lemma mpq_add_yields:
  assumes "mpq_ok a" "mpq_ok b"
  shows "yields (mpq_add a b) (\<lambda>c. mpq_ok c \<and> mpq_val c = mpq_val a + mpq_val b)"
  unfolding mpq_add_def
  by (rule run3_yields, rule yields_mono [OF add_at_yields]) (use assms in auto)

lemma mpq_sub_yields:
  assumes "mpq_ok a" "mpq_ok b"
  shows "yields (mpq_sub a b) (\<lambda>c. mpq_ok c \<and> mpq_val c = mpq_val a - mpq_val b)"
  unfolding mpq_sub_def
  by (rule run3_yields, rule yields_mono [OF sub_at_yields]) (use assms in auto)

lemma mpq_mul_yields:
  assumes "mpq_ok a" "mpq_ok b"
  shows "yields (mpq_mul a b) (\<lambda>c. mpq_ok c \<and> mpq_val c = mpq_val a * mpq_val b)"
  unfolding mpq_mul_def
  by (rule run3_yields, rule yields_mono [OF mul_at_yields]) (use assms in auto)

lemma mpq_div_yields:
  assumes "mpq_ok a" "mpq_ok b" "mpq_val b \<noteq> 0"
  shows "yields (mpq_div a b) (\<lambda>c. mpq_ok c \<and> mpq_val c = mpq_val a / mpq_val b)"
  unfolding mpq_div_def
  by (rule run3_yields, rule yields_mono [OF div_at_yields]) (use assms in auto)

text \<open>On fractions that need not be in lowest terms.\<close>

lemma mpq_mul_fraction:
  assumes "mpq_fraction a" "mpq_fraction b"
  shows "yields (mpq_mul a b) (\<lambda>c. mpq_fraction c \<and> mpq_val c = mpq_val a * mpq_val b)"
  unfolding mpq_mul_def
  by (rule run3_yields, rule yields_mono [OF mul_at_fraction]) (use assms in auto)

lemma mpq_div_fraction:
  assumes "mpq_fraction a" "mpq_fraction b" "mpq_val b \<noteq> 0"
  shows "yields (mpq_div a b) (\<lambda>c. mpq_fraction c \<and> mpq_val c = mpq_val a / mpq_val b)"
  unfolding mpq_div_def
  by (rule run3_yields, rule yields_mono [OF div_at_fraction]) (use assms in auto)

section \<open>Comparison\<close>

lemma mpq_val_less_iff:
  assumes "mpq_ok a" "mpq_ok b"
  shows "mpq_val a < mpq_val b \<longleftrightarrow>
    mpz_val (m_num a) * mpz_val (m_den b) < mpz_val (m_num b) * mpz_val (m_den a)"
proof -
  have "mpq_val a < mpq_val b \<longleftrightarrow>
      (of_int (mpz_val (m_num a) * mpz_val (m_den b)) :: rat) < of_int (mpz_val (m_num b) * mpz_val (m_den a))"
    using mpq_okD(5) [OF assms(1)] mpq_okD(5) [OF assms(2)] by (simp add: mpq_val_def field_simps)
  then show ?thesis by (simp only: of_int_less_iff)
qed

lemma rat_lt_val:
  assumes "mpq_ok a" "mpq_ok b"
  shows "rat_lt a b \<longleftrightarrow> mpq_val a < mpq_val b"
proof -
  note A = mpq_okD [OF assms(1)] and B = mpq_okD [OF assms(2)]
  have cross: "mpz_lt (mpz_mul (m_num a) (m_den b)) (mpz_mul (m_num b) (m_den a)) \<longleftrightarrow> mpq_val a < mpq_val b"
    using A(3,4) B(3,4) by (simp add: mpq_val_less_iff [OF assms])
  have sg: "mpz_sign (m_num x) < 0 \<longleftrightarrow> mpq_val x < 0" "mpz_sign (m_num x) = 0 \<longleftrightarrow> mpq_val x = 0"
    "0 \<le> mpz_sign (m_num x) \<longleftrightarrow> 0 \<le> mpq_val x" "mpz_sign (m_num x) \<le> 0 \<longleftrightarrow> mpq_val x \<le> 0"
    "0 < mpz_sign (m_num x) \<longleftrightarrow> 0 < mpq_val x" if "mpq_ok x" for x
    using mpz_sign_val [OF mpq_okD(3) [OF that]] mpq_val_sign [OF that] by linarith+
  show ?thesis
    unfolding rat_lt_def Let_def cross sg [OF assms(1)] sg [OF assms(2)] by (cases "mpq_val a" "0 :: rat" rule: linorder_cases) auto
qed

lemma mpq_compare_val [simp]:
  assumes "mpq_ok a" "mpq_ok b"
  shows "mpq_eq a b \<longleftrightarrow> mpq_val a = mpq_val b" "mpq_lt a b \<longleftrightarrow> mpq_val a < mpq_val b"
    "mpq_neq a b \<longleftrightarrow> mpq_val a \<noteq> mpq_val b" "mpq_gt a b \<longleftrightarrow> mpq_val b < mpq_val a"
    "mpq_ge a b \<longleftrightarrow> mpq_val b \<le> mpq_val a" "mpq_le a b \<longleftrightarrow> mpq_val a \<le> mpq_val b"
proof -
  have lt: "mpq_lt x y \<longleftrightarrow> mpq_val x < mpq_val y" if "mpq_ok x" "mpq_ok y" for x y
    using that rat_lt_val [OF that] mpq_okD(3) [OF that(1)] mpq_okD(3) [OF that(2)]
    by (auto simp: mpq_lt_def mpq_int_val)
  show "mpq_eq a b \<longleftrightarrow> mpq_val a = mpq_val b"
    using mpq_val_eq_iff [OF assms] mpq_okD [OF assms(1)] mpq_okD [OF assms(2)] by (simp add: mpq_eq_def)
  then show "mpq_neq a b \<longleftrightarrow> mpq_val a \<noteq> mpq_val b" by (simp add: mpq_neq_def)
  show "mpq_lt a b \<longleftrightarrow> mpq_val a < mpq_val b" "mpq_gt a b \<longleftrightarrow> mpq_val b < mpq_val a"
    "mpq_ge a b \<longleftrightarrow> mpq_val b \<le> mpq_val a" "mpq_le a b \<longleftrightarrow> mpq_val a \<le> mpq_val b"
    using lt assms by (simp_all add: mpq_gt_def mpq_ge_def mpq_le_def not_less)
qed

interpretation mpq_num: numeral_ordered_ring mpq_ok mpq_val mpq_add mpq_sub mpq_neg mpq_mul mpq_eq mpq_lt
  by unfold_locales (simp_all add: mpq_add_yields mpq_sub_yields mpq_mul_yields)

section \<open>Sums that overwrite the second argument\<close>

text \<open>When the result overwrites the second argument and the denominators have a common divisor, the
  numerator of the first argument ends up over that divisor instead of over its own denominator.\<close>

lemma lin_arith_op_overwrites:
  assumes ok: "mpq_ok (\<sigma> a)" "mpq_ok (\<sigma> b)" and ne: "a \<noteq> b"
    and g1: "gcd (mpz_val (m_den (\<sigma> a))) (mpz_val (m_den (\<sigma> b))) \<noteq> 1"
  defines "x \<equiv> of_int (mpz_val (m_num (\<sigma> a))) / of_int (gcd (mpz_val (m_den (\<sigma> a))) (mpz_val (m_den (\<sigma> b)))) :: rat"
  shows "yields (lin_arith_op SUB a b b \<sigma>) (\<lambda>\<tau>. mpq_val (\<tau> b) = (if SUB then x - mpq_val (\<sigma> b) else x + mpq_val (\<sigma> b)))"
proof -
  define na da nb db where "na = mpz_val (m_num (\<sigma> a))" and "da = mpz_val (m_den (\<sigma> a))"
    and "nb = (if SUB then - mpz_val (m_num (\<sigma> b)) else mpz_val (m_num (\<sigma> b)))" and "db = mpz_val (m_den (\<sigma> b))"
  note A = mpq_okD [OF ok(1)] and B = mpq_okD [OF ok(2)]
  have pos: "0 < da" "0 < db" using A(5) B(5) by (simp_all add: da_def db_def)
  define G where "G = gcd da db"
  have g0: "0 < G" using pos by (simp add: G_def)
  obtain k l where k: "da = G * k" and l: "db = G * l" unfolding G_def using gcd_dvd1 gcd_dvd2 by (meson dvdE)
  obtain g where g: "mpz_gcd (m_den (\<sigma> a)) (m_den (\<sigma> b)) = Inr g" "mpz_wf g" "mpz_val g = G"
    using mpz_gcd_yields [OF A(2) B(2)] by (auto elim: yieldsE simp: G_def da_def db_def)
  let ?op = "if SUB then mpz_sub else mpz_add"
  obtain u where u: "mpz_div (m_den (\<sigma> a)) g = Inr u" "mpz_wf u" "mpz_val u = da div G"
    using mpz_div_pos_yields [OF A(2) g(2)] g(3) g0 by (auto elim: yieldsE simp: da_def)
  have uk: "mpz_val u = k" using k g0 unfolding u(3) by (metis less_irrefl nonzero_mult_div_cancel_left)
  let ?d = "mpz_mul u (m_den (\<sigma> b))"
  have d: "mpz_wf ?d" "mpz_val ?d = k * db" using u uk B by (simp_all add: db_def)
  have kl: "k * db = G * (k * l)" by (simp add: l)
  obtain v where v: "mpz_div ?d g = Inr v" "mpz_wf v" "mpz_val v = k * l"
    using mpz_div_pos_yields [OF d(1) g(2)] d(2) g(3) g0 kl by (auto elim!: yieldsE)
  define t where "t = ?op (mpz_mul v (m_num (\<sigma> a))) (mpz_mul u (m_num (\<sigma> b)))"
  have t: "mpz_wf t" "mpz_val t = na * (k * l) + nb * k"
    unfolding t_def using u uk v A B by (auto simp: na_def nb_def mult.commute)
  obtain h where h: "mpz_gcd t g = Inr h" "mpz_wf h" "mpz_val h = gcd (mpz_val t) (G)"
    using mpz_gcd_yields [OF t(1) g(2)] g(3) by (auto elim: yieldsE)
  have h0: "0 < mpz_val h" using g0 h(3) by simp
  obtain n where n: "mpz_div t h = Inr n" "mpz_val n = mpz_val t div mpz_val h"
    using mpz_div_pos_yields [OF t(1) h(2) h0] by (auto elim: yieldsE)
  obtain e where e: "mpz_div ?d h = Inr e" "mpz_val e = mpz_val ?d div mpz_val h"
    using mpz_div_pos_yields [OF d(1) h(2) h0] by (auto elim: yieldsE)
  have res: "lin_arith_op SUB a b b \<sigma> = Inr (\<sigma>(b := if mpz_is_one h then \<lparr>m_num = t, m_den = ?d\<rparr> else \<lparr>m_num = n, m_den = e\<rparr>))"
    using g(1,2,3) g1 u(1) v(1) h(1) n(1) e(1) ne by (simp add: lin_arith_op_def Let_def t_def G_def da_def db_def)
  have dvd: "mpz_val h dvd mpz_val t" "mpz_val h dvd mpz_val ?d"
    unfolding h(3) d(2) kl by (rule gcd_dvd1, rule dvd_mult2, rule gcd_dvd2)
  have "mpz_val ?d \<noteq> 0" using d(2) kl k l pos by auto
  then have "of_int (mpz_val n) / of_int (mpz_val e) = (of_int (mpz_val t) / of_int (mpz_val ?d) :: rat)"
    unfolding n(2) e(2) using dvd h0 by (auto simp: of_int_div elim!: dvdE)
  moreover have "of_int (mpz_val t) / of_int (mpz_val ?d) = (of_int na / of_int (G) + of_int nb / of_int db :: rat)"
  proof -
    have "k \<noteq> 0" "l \<noteq> 0" using k l pos by auto
    then show ?thesis using g0 unfolding t(2) d(2) by (simp add: l field_simps)
  qed
  ultimately have "mpq_val (if mpz_is_one h then \<lparr>m_num = t, m_den = ?d\<rparr> else \<lparr>m_num = n, m_den = e\<rparr>)
      = of_int na / of_int G + of_int nb / of_int db"
    by (simp add: mpq_val_def)
  then show ?thesis unfolding res by (simp add: x_def G_def na_def nb_def da_def db_def mpq_val_def)
qed

lemma add_sub_at_overwrites:
  assumes "mpq_ok (\<sigma> a)" "mpq_ok (\<sigma> b)" "a \<noteq> b" "mpq_val (\<sigma> a) \<noteq> 0" "mpq_val (\<sigma> b) \<noteq> 0"
    and "gcd (mpz_val (m_den (\<sigma> a))) (mpz_val (m_den (\<sigma> b))) \<noteq> 1"
  defines "x \<equiv> of_int (mpz_val (m_num (\<sigma> a))) / of_int (gcd (mpz_val (m_den (\<sigma> a))) (mpz_val (m_den (\<sigma> b)))) :: rat"
  shows "yields (add_at a b b \<sigma>) (\<lambda>\<tau>. mpq_val (\<tau> b) = x + mpq_val (\<sigma> b))"
    "yields (sub_at a b b \<sigma>) (\<lambda>\<tau>. mpq_val (\<tau> b) = x - mpq_val (\<sigma> b))"
proof -
  have "\<not> (mpq_is_int (\<sigma> a) \<and> mpq_is_int (\<sigma> b))"
    using assms(1,2,6) by (auto simp: mpq_is_int_den)
  then show "yields (add_at a b b \<sigma>) (\<lambda>\<tau>. mpq_val (\<tau> b) = x + mpq_val (\<sigma> b))"
    "yields (sub_at a b b \<sigma>) (\<lambda>\<tau>. mpq_val (\<tau> b) = x - mpq_val (\<sigma> b))"
    using lin_arith_op_overwrites [OF assms(1-3,6), of False, folded x_def]
      lin_arith_op_overwrites [OF assms(1-3,6), of True, folded x_def] mpq_val_sign [OF assms(1)] mpq_val_sign [OF assms(2)] assms(1,2,4,5)
    by (auto simp: add_at_def sub_at_def)
qed

end
