(* ===== verification/Mpq_Ops.thy ===== *)
theory Mpq_Ops
  imports Mpq Mpz_Shift Mpz_Bits Mpz_Root
begin

text \<open>
  The rest of \<open>mpq_manager\<close> (util/mpq.h, util/mpq.cpp): mixed operations with integers, multiply-add,
  inverse and division, rounding, the operations on rationals that are integers, the conversions, and
  power, roots and bit operations. Assertions such as \<open>SASSERT(is_int(a))\<close> are not compiled in a
  release build: the operations read the numerators, whatever the denominators are.
\<close>

unbundle bit_operations_syntax

section \<open>Operations\<close>

subsection \<open>Mixed arithmetic\<close>

definition mpq_of_z :: "mpz \<Rightarrow> mpq" where
  "mpq_of_z n = \<lparr>m_num = n, m_den = mk_z 1\<rparr>"

definition rat_add_z :: "mpq \<Rightarrow> mpz \<Rightarrow> mpq res" where
  "rat_add_z a b =
     (let tmp1 = mpz_mul b (m_den a)
      in mpq_normalize \<lparr>m_num = mpz_add (m_num a) tmp1, m_den = m_den a\<rparr>)"

definition mpq_add_z :: "mpq \<Rightarrow> mpz \<Rightarrow> mpq res" where
  "mpq_add_z a b =
     (if mpz_is_zero b then Inr a
      else if mpq_is_zero a then Inr (mpq_of_z b)
      else if mpq_is_int a then Inr (mpq_of_z (mpz_add (m_num a) b))
      else rat_add_z a b)"

definition mpq_inc :: "mpq \<Rightarrow> mpq res" where "mpq_inc a = mpq_add_z a (mk_z 1)"
definition mpq_dec :: "mpq \<Rightarrow> mpq res" where "mpq_dec a = mpq_add_z a (mk_z (- 1))"

definition mpq_mul_zz :: "mpz \<Rightarrow> mpz \<Rightarrow> mpq" where
  "mpq_mul_zz a b = mpq_of_z (mpz_mul a b)"

definition rat_mul_z :: "mpz \<Rightarrow> mpq \<Rightarrow> mpq res" where
  "rat_mul_z a b = mpq_normalize \<lparr>m_num = mpz_mul a (m_num b), m_den = m_den b\<rparr>"

definition mpq_mul_zq :: "mpz \<Rightarrow> mpq \<Rightarrow> mpq res" where
  "mpq_mul_zq a b = (if mpq_is_int b then Inr (mpq_of_z (mpz_mul a (m_num b))) else rat_mul_z a b)"

definition mpq_addmul :: "mpq \<Rightarrow> mpq \<Rightarrow> mpq \<Rightarrow> mpq res" where
  "mpq_addmul a b c =
     (if mpq_is_one b then mpq_add a c
      else if mpq_is_minus_one b then mpq_sub a c
      else if mpq_is_zero b \<or> mpq_is_zero c then Inr a
      else bind_res (mpq_mul b c) (mpq_add a))"

definition mpq_addmul_z :: "mpq \<Rightarrow> mpz \<Rightarrow> mpq \<Rightarrow> mpq res" where
  "mpq_addmul_z a b c =
     (if mpz_is_one b then mpq_add a c
      else if mpz_is_minus_one b then mpq_sub a c
      else if mpz_is_zero b \<or> mpq_is_zero c then Inr a
      else bind_res (mpq_mul_zq b c) (mpq_add a))"

definition mpq_submul :: "mpq \<Rightarrow> mpq \<Rightarrow> mpq \<Rightarrow> mpq res" where
  "mpq_submul a b c =
     (if mpq_is_one b then mpq_sub a c
      else if mpq_is_minus_one b then mpq_add a c
      else bind_res (mpq_mul b c) (mpq_sub a))"

definition mpq_submul_z :: "mpq \<Rightarrow> mpz \<Rightarrow> mpq \<Rightarrow> mpq res" where
  "mpq_submul_z a b c =
     (if mpz_is_one b then mpq_sub a c
      else if mpz_is_minus_one b then mpq_add a c
      else bind_res (mpq_mul_zq b c) (mpq_sub a))"

text \<open>\<open>inv\<close> has only an assertion that its argument is not zero.\<close>

definition mpq_inv :: "mpq \<Rightarrow> mpq" where
  "mpq_inv a =
     (let a = (if mpq_is_neg a then \<lparr>m_num = mpz_neg (m_num a), m_den = mpz_neg (m_den a)\<rparr> else a)
      in \<lparr>m_num = m_den a, m_den = m_num a\<rparr>)"

definition mpq_acc_div :: "mpq \<Rightarrow> mpz \<Rightarrow> mpq res" where
  "mpq_acc_div a b =
     (let d = mpz_mul (m_den a) b
      in mpq_normalize (if mpz_is_neg b then \<lparr>m_num = mpz_neg (m_num a), m_den = mpz_neg d\<rparr>
           else \<lparr>m_num = m_num a, m_den = d\<rparr>))"

definition mpq_div_z :: "mpq \<Rightarrow> mpz \<Rightarrow> mpq res" where
  "mpq_div_z a b =
     (if mpq_is_zero a \<or> mpz_is_one b then Inr a
      else
        (let d = mpz_mul (m_den a) b
         in mpq_normalize (if mpz_is_neg b then \<lparr>m_num = mpz_neg (m_num a), m_den = mpz_neg d\<rparr>
              else \<lparr>m_num = m_num a, m_den = d\<rparr>)))"

definition rat_div :: "mpz \<Rightarrow> mpz \<Rightarrow> mpq res" where
  "rat_div a b = mpq_normalize \<lparr>m_num = a, m_den = b\<rparr>"

subsection \<open>Rounding\<close>

definition mpq_floor :: "mpq \<Rightarrow> mpz res" where
  "mpq_floor a =
     (if mpq_is_int a then Inr (m_num a)
      else bind_res (machine_div (m_num a) (m_den a)) (\<lambda>f.
        Inr (if mpz_is_neg (m_num a) then mpz_sub f (mk_z 1) else f)))"

definition mpq_ceil :: "mpq \<Rightarrow> mpz res" where
  "mpq_ceil a =
     (if mpq_is_int a then Inr (m_num a)
      else bind_res (machine_div (m_num a) (m_den a)) (\<lambda>c.
        Inr (if mpz_is_pos (m_num a) then mpz_add c (mk_z 1) else c)))"

definition mpq_floor_q :: "mpq \<Rightarrow> mpq res" where
  "mpq_floor_q a = bind_res (mpq_floor a) (\<lambda>n. Inr (mpq_of_z n))"

definition mpq_ceil_q :: "mpq \<Rightarrow> mpq res" where
  "mpq_ceil_q a = bind_res (mpq_ceil a) (\<lambda>n. Inr (mpq_of_z n))"

definition mpq_prev_power_of_two :: "mpq \<Rightarrow> nat res" where
  "mpq_prev_power_of_two a = bind_res (mpq_floor a) (\<lambda>n. Inr (mpz_log2 n))"

subsection \<open>Rationals that are integers\<close>

text \<open>The operations that are applied to the numerators and reset the denominator of the result.\<close>

definition on_nums :: "(mpz \<Rightarrow> mpz \<Rightarrow> mpz res) \<Rightarrow> mpq \<Rightarrow> mpq \<Rightarrow> mpq res" where
  "on_nums f a b = bind_res (f (m_num a) (m_num b)) (\<lambda>c. Inr (mpq_of_z c))"

definition mpq_machine_idiv :: "mpq \<Rightarrow> mpq \<Rightarrow> mpq res" where "mpq_machine_idiv = on_nums machine_div"
definition mpq_idiv :: "mpq \<Rightarrow> mpq \<Rightarrow> mpq res" where "mpq_idiv = on_nums mpz_div"
definition mpq_rem :: "mpq \<Rightarrow> mpq \<Rightarrow> mpq res" where "mpq_rem = on_nums mpz_rem"
definition mpq_mod :: "mpq \<Rightarrow> mpq \<Rightarrow> mpq res" where "mpq_mod = on_nums mpz_mod"
definition mpq_gcd :: "mpq \<Rightarrow> mpq \<Rightarrow> mpq res" where "mpq_gcd = on_nums mpz_gcd"
definition mpq_lcm :: "mpq \<Rightarrow> mpq \<Rightarrow> mpq res" where "mpq_lcm = on_nums mpz_lcm"
definition mpq_bitwise_or :: "mpq \<Rightarrow> mpq \<Rightarrow> mpq res" where "mpq_bitwise_or = on_nums mpz_bitwise_or"
definition mpq_bitwise_and :: "mpq \<Rightarrow> mpq \<Rightarrow> mpq res" where "mpq_bitwise_and = on_nums mpz_bitwise_and"
definition mpq_bitwise_xor :: "mpq \<Rightarrow> mpq \<Rightarrow> mpq res" where "mpq_bitwise_xor = on_nums mpz_bitwise_xor"

definition mpq_bitwise_not :: "nat \<Rightarrow> mpq \<Rightarrow> mpq res" where
  "mpq_bitwise_not sz a = bind_res (mpz_bitwise_not sz (m_num a)) (\<lambda>c. Inr (mpq_of_z c))"

definition mpq_machine_idiv_rem :: "mpq \<Rightarrow> mpq \<Rightarrow> (mpq \<times> mpq) res" where
  "mpq_machine_idiv_rem a b =
     bind_res (machine_div_rem (m_num a) (m_num b)) (\<lambda>(q, r). Inr (mpq_of_z q, mpq_of_z r))"

definition mpq_ext_gcd :: "mpq \<Rightarrow> mpq \<Rightarrow> (mpq \<times> mpq \<times> mpq) res" where
  "mpq_ext_gcd r1 r2 =
     bind_res (mpz_ext_gcd (m_num r1) (m_num r2)) (\<lambda>(a, b, g). Inr (mpq_of_z a, mpq_of_z b, mpq_of_z g))"

definition mpq_divides :: "mpq \<Rightarrow> mpq \<Rightarrow> bool res" where
  "mpq_divides a b = mpz_divides (m_num a) (m_num b)"

fun mpq_gcd_loop :: "mpq \<Rightarrow> mpq list \<Rightarrow> mpq res" where
  "mpq_gcd_loop g [] = Inr g"
| "mpq_gcd_loop g (a # as) = (if mpq_is_one g then Inr g else bind_res (mpq_gcd g a) (\<lambda>g. mpq_gcd_loop g as))"

fun mpq_gcd_array :: "mpq list \<Rightarrow> mpq res" where
  "mpq_gcd_array [] = Inr (mk_q 0)"
| "mpq_gcd_array [a] = Inr (mpq_abs a)"
| "mpq_gcd_array (a # b # as) = bind_res (mpq_gcd a b) (\<lambda>g. mpq_gcd_loop g as)"

subsection \<open>Conversions\<close>

definition mpq_get_numerator :: "mpq \<Rightarrow> mpq" where "mpq_get_numerator a = mpq_of_z (m_num a)"
definition mpq_get_denominator :: "mpq \<Rightarrow> mpq" where "mpq_get_denominator a = mpq_of_z (m_den a)"

text \<open>\<open>set(mpq&, int n, int d)\<close>: negating \<open>INT_MIN\<close> is undefined.\<close>

definition mpq_set_int2 :: "int \<Rightarrow> int \<Rightarrow> mpq res" where
  "mpq_set_int2 n d =
     (if d < 0 then
        if d = int_min \<or> n = int_min then Inl Undefined_behaviour
        else mpq_normalize \<lparr>m_num = mk_z (- n), m_den = mk_z (- d)\<rparr>
      else mpq_normalize \<lparr>m_num = mk_z n, m_den = mk_z d\<rparr>)"

definition mpq_set_i64_u64 :: "int \<Rightarrow> double_digit \<Rightarrow> mpq res" where
  "mpq_set_i64_u64 n d = mpq_normalize \<lparr>m_num = mpz_set_i64 n, m_den = mpz_set_ui64 d\<rparr>"

definition mpq_set_zz :: "mpz \<Rightarrow> mpz \<Rightarrow> mpq res" where
  "mpq_set_zz n d =
     mpq_normalize (if mpz_is_neg d then \<lparr>m_num = mpz_neg n, m_den = mpz_neg d\<rparr> else \<lparr>m_num = n, m_den = d\<rparr>)"

definition mpq_set_unsigned :: "digit \<Rightarrow> mpq" where "mpq_set_unsigned v = mpq_of_z (mpz_set_unsigned v)"
definition mpq_set_i64 :: "int \<Rightarrow> mpq" where "mpq_set_i64 v = mpq_of_z (mpz_set_i64 v)"
definition mpq_set_ui64 :: "double_digit \<Rightarrow> mpq" where "mpq_set_ui64 v = mpq_of_z (mpz_set_ui64 v)"
definition mpq_set_digits :: "nat \<Rightarrow> digit list \<Rightarrow> mpq" where
  "mpq_set_digits sz ds = mpq_of_z (mpz_set_digits sz ds)"

definition mpq_is_uint64 :: "mpq \<Rightarrow> bool" where "mpq_is_uint64 a \<longleftrightarrow> mpq_is_int a \<and> mpz_is_uint64 (m_num a)"
definition mpq_is_int64 :: "mpq \<Rightarrow> bool" where "mpq_is_int64 a \<longleftrightarrow> mpq_is_int a \<and> mpz_is_int64 (m_num a)"
definition mpq_get_uint64 :: "mpq \<Rightarrow> double_digit" where "mpq_get_uint64 a = mpz_get_uint64 (m_num a)"
definition mpq_get_int64 :: "mpq \<Rightarrow> int" where "mpq_get_int64 a = mpz_get_int64 (m_num a)"

subsection \<open>Power, roots and bits\<close>

definition mpq_power :: "mpq \<Rightarrow> digit \<Rightarrow> mpq res" where
  "mpq_power a p =
     bind_res (power_loop mpq_mul p \<lparr>pw_mask = 1, pw_power = a, pw_b = mk_q 1\<rparr>) (\<lambda>s. Inr (pw_b s))"

definition mpq_is_power_of_two :: "mpq \<Rightarrow> nat option" where
  "mpq_is_power_of_two a = (if mpq_is_int a then mpz_is_power_of_two (m_num a) else None)"

definition mpq_bitsize :: "mpq \<Rightarrow> nat" where
  "mpq_bitsize a = (if mpq_is_int a then mpz_bitsize (m_num a) else mpz_bitsize (m_num a) + mpz_bitsize (m_den a))"

definition mpz_size_info :: "mpz \<Rightarrow> nat" where
  "mpz_size_info a = (if is_small a then 1 else length (m_digits a) + 1)"

definition mpq_storage_size :: "mpq \<Rightarrow> nat" where
  "mpq_storage_size a = mpz_size_info (m_num a) + mpz_size_info (m_den a)"

definition mpq_get_bit :: "mpq \<Rightarrow> nat \<Rightarrow> bool" where "mpq_get_bit a i = mpz_get_bit (m_num a) i"
definition mpq_is_even :: "mpq \<Rightarrow> bool" where "mpq_is_even a \<longleftrightarrow> mpq_is_int a \<and> mpz_is_even (m_num a)"

text \<open>The result \<open>r\<close> of \<open>is_perfect_square\<close> and \<open>root\<close> is passed by reference: it is given with its old
  value and returned with the new one.\<close>

definition mpq_is_perfect_square :: "mpq \<Rightarrow> mpq \<Rightarrow> (bool \<times> mpq) res" where
  "mpq_is_perfect_square a r =
     (if mpq_is_int a then
        bind_res (mpz_is_perfect_square (m_num a) (m_num r)) (\<lambda>(ok, n). Inr (ok, mpq_of_z n))
      else
        bind_res (mpz_is_perfect_square (m_num a) (m_num r)) (\<lambda>(ok, n).
          if ok then
            bind_res (mpz_is_perfect_square (m_den a) (m_den r)) (\<lambda>(ok, d).
              if ok then bind_res (mpq_normalize \<lparr>m_num = n, m_den = d\<rparr>) (\<lambda>r. Inr (True, r))
              else Inr (False, \<lparr>m_num = n, m_den = d\<rparr>))
          else Inr (False, r\<lparr>m_num := n\<rparr>)))"

definition mpq_is_int_perfect_square :: "mpq \<Rightarrow> mpq \<Rightarrow> (bool \<times> mpq) res" where
  "mpq_is_int_perfect_square a r =
     bind_res (mpz_is_perfect_square (m_num a) (m_num r)) (\<lambda>(ok, n). Inr (ok, mpq_of_z n))"

definition mpq_root :: "mpq \<Rightarrow> nat \<Rightarrow> mpq \<Rightarrow> (bool \<times> mpq) res" where
  "mpq_root a n r =
     bind_res (mpz_root (m_num a) n) (\<lambda>(ok, x).
       if ok then bind_res (mpz_root (m_den a) n) (\<lambda>(ok, y). Inr (ok, \<lparr>m_num = x, m_den = y\<rparr>))
       else Inr (False, r\<lparr>m_num := x\<rparr>))"

unbundle bit_operations_syntax

section \<open>Mixed arithmetic\<close>

lemma mpq_of_z_ok [simp]:
  "mpq_ok (mpq_of_z n) \<longleftrightarrow> mpz_wf n" "mpq_val (mpq_of_z n) = of_int (mpz_val n)" "m_num (mpq_of_z n) = n"
  by (simp_all add: mpq_of_z_def mpq_ok_def mpq_val_def int_limits)

lemma mpq_add_z_yields:
  assumes "mpq_ok a" "mpz_wf b"
  shows "yields (mpq_add_z a b) (\<lambda>c. mpq_ok c \<and> mpq_val c = mpq_val a + of_int (mpz_val b))"
proof -
  note A = mpq_okD [OF assms(1)]
  have "yields (rat_add_z a b) (\<lambda>c. mpq_ok c \<and> mpq_val c = mpq_val a + of_int (mpz_val b))"
    unfolding rat_add_z_def Let_def
    by (rule yields_mono [OF mpq_normalize_yields]) (use A assms(2) in \<open>auto simp: mpq_val_def field_simps\<close>)
  then show ?thesis
    using assms A by (simp add: mpq_add_z_def mpq_int_val)
qed

lemma mpq_inc_dec_yields:
  assumes "mpq_ok a"
  shows "yields (mpq_inc a) (\<lambda>c. mpq_ok c \<and> mpq_val c = mpq_val a + 1)"
    "yields (mpq_dec a) (\<lambda>c. mpq_ok c \<and> mpq_val c = mpq_val a - 1)"
  using mpq_add_z_yields [OF assms, of "mk_z 1"] mpq_add_z_yields [OF assms, of "mk_z (- 1)"]
  by (simp_all add: mpq_inc_def mpq_dec_def int_limits)

lemma mpq_mul_zq_yields:
  assumes "mpz_wf a" "mpq_ok b"
  shows "yields (mpq_mul_zq a b) (\<lambda>c. mpq_ok c \<and> mpq_val c = of_int (mpz_val a) * mpq_val b)"
proof -
  note B = mpq_okD [OF assms(2)]
  have "yields (rat_mul_z a b) (\<lambda>c. mpq_ok c \<and> mpq_val c = of_int (mpz_val a) * mpq_val b)"
    unfolding rat_mul_z_def
    by (rule yields_mono [OF mpq_normalize_yields]) (use B assms(1) in \<open>auto simp: mpq_val_def\<close>)
  then show ?thesis
    using assms B by (simp add: mpq_mul_zq_def mpq_int_val)
qed

lemma mpq_accumulate:
  assumes a: "mpq_ok a" and m: "yields m (\<lambda>x. mpq_ok x \<and> mpq_val x = p)"
  shows "yields (bind_res m (mpq_add a)) (\<lambda>d. mpq_ok d \<and> mpq_val d = mpq_val a + p)"
    "yields (bind_res m (mpq_sub a)) (\<lambda>d. mpq_ok d \<and> mpq_val d = mpq_val a - p)"
proof -
  obtain x where "m = Inr x" "mpq_ok x" "mpq_val x = p" using m by (auto elim: yieldsE)
  then show "yields (bind_res m (mpq_add a)) (\<lambda>d. mpq_ok d \<and> mpq_val d = mpq_val a + p)"
    "yields (bind_res m (mpq_sub a)) (\<lambda>d. mpq_ok d \<and> mpq_val d = mpq_val a - p)"
    using mpq_add_yields [OF a] mpq_sub_yields [OF a] by auto
qed

lemma mpq_addmul_yields:
  assumes "mpq_ok a" "mpq_ok b" "mpq_ok c"
  shows "yields (mpq_addmul a b c) (\<lambda>d. mpq_ok d \<and> mpq_val d = mpq_val a + mpq_val b * mpq_val c)"
    "yields (mpq_submul a b c) (\<lambda>d. mpq_ok d \<and> mpq_val d = mpq_val a - mpq_val b * mpq_val c)"
  using mpq_accumulate [OF assms(1) mpq_mul_yields [OF assms(2,3)]] assms
    mpq_add_yields [OF assms(1,3)] mpq_sub_yields [OF assms(1,3)]
  by (auto simp: mpq_addmul_def mpq_submul_def)

lemma mpq_addmul_z_yields:
  assumes "mpq_ok a" "mpz_wf b" "mpq_ok c"
  shows "yields (mpq_addmul_z a b c) (\<lambda>d. mpq_ok d \<and> mpq_val d = mpq_val a + of_int (mpz_val b) * mpq_val c)"
    "yields (mpq_submul_z a b c) (\<lambda>d. mpq_ok d \<and> mpq_val d = mpq_val a - of_int (mpz_val b) * mpq_val c)"
  using mpq_accumulate [OF assms(1) mpq_mul_zq_yields [OF assms(2,3)]] assms
    mpq_add_yields [OF assms(1,3)] mpq_sub_yields [OF assms(1,3)]
  by (auto simp: mpq_addmul_z_def mpq_submul_z_def)

lemma mpq_inv_val:
  assumes "mpq_ok a" "mpq_val a \<noteq> 0"
  shows "mpq_ok (mpq_inv a)" "mpq_val (mpq_inv a) = inverse (mpq_val a)"
  using mpq_okD [OF assms(1)] assms mpq_val_sign [OF assms(1)]
  by (auto simp: mpq_inv_def Let_def mpq_ok_def mpq_val_def coprime_commute divide_simps)

lemma mpq_acc_div_yields:
  assumes "mpq_ok a" "mpz_wf b" "mpz_val b \<noteq> 0"
  shows "yields (mpq_acc_div a b) (\<lambda>c. mpq_ok c \<and> mpq_val c = mpq_val a / of_int (mpz_val b))"
    "yields (mpq_div_z a b) (\<lambda>c. mpq_ok c \<and> mpq_val c = mpq_val a / of_int (mpz_val b))"
proof -
  note A = mpq_okD [OF assms(1)]
  let ?d = "mpz_mul (m_den a) b"
  have d: "mpz_wf ?d" "mpz_val ?d \<noteq> 0" "mpz_is_neg ?d \<longleftrightarrow> mpz_is_neg b"
    using A assms by (simp_all add: mult_less_0_iff)
  have "of_int (mpz_val (m_num a)) / of_int (mpz_val ?d) = mpq_val a / of_int (mpz_val b)"
    using A assms by (simp add: mpq_val_def)
  then show acc: "yields (mpq_acc_div a b) (\<lambda>c. mpq_ok c \<and> mpq_val c = mpq_val a / of_int (mpz_val b))"
    using signed_normalize_yields [OF A(1) d(1,2)] by (simp only: mpq_acc_div_def Let_def d(3))
  show "yields (mpq_div_z a b) (\<lambda>c. mpq_ok c \<and> mpq_val c = mpq_val a / of_int (mpz_val b))"
    using acc assms by (auto simp: mpq_div_z_def mpq_acc_div_def Let_def)
qed

lemma rat_div_yields:
  assumes "mpz_wf a" "mpz_wf b" "0 < mpz_val b"
  shows "yields (rat_div a b) (\<lambda>c. mpq_ok c \<and> mpq_val c = of_int (mpz_val a) / of_int (mpz_val b))"
  unfolding rat_div_def
  by (rule yields_mono [OF mpq_normalize_yields]) (use assms in \<open>auto simp: mpq_val_def\<close>)

section \<open>Rounding\<close>

lemma floor_of_int_div: "0 < d \<Longrightarrow> \<lfloor>of_int n / of_int d :: rat\<rfloor> = n div d"
  by (simp add: floor_divide_of_int_eq)

lemma ceiling_of_int_div: "0 < d \<Longrightarrow> \<lceil>of_int n / of_int d :: rat\<rceil> = - ((- n) div d)"
  by (simp add: ceiling_divide_eq_div)

lemma sdiv_round:
  assumes "0 < d" "coprime n d" "d \<noteq> (1 :: int)"
  shows "n div d = (if n < 0 then n sdiv d - 1 else n sdiv d)" "- ((- n) div d) = (if 0 < n then n sdiv d + 1 else n sdiv d)"
proof -
  have nd: "\<not> d dvd n" using assms by (metis coprime_absorb_right zdvd1_eq abs_of_pos)
  have "ediv n d = n div d" using assms(1) by (simp add: ediv_def)
  moreover have "n smod d \<noteq> 0" using nd by (simp add: smod_eq_0_iff)
  ultimately show fl: "n div d = (if n < 0 then n sdiv d - 1 else n sdiv d)"
    using sdiv_ediv(2) [of d n] smod_sign [of d n] assms(1) by (auto split: if_splits)
  have "- ((- n) div d) = n div d + 1" using nd assms(1) by (simp add: zdiv_zminus1_eq_if dvd_eq_mod_eq_0)
  moreover have "n \<noteq> 0" using nd by auto
  ultimately show "- ((- n) div d) = (if 0 < n then n sdiv d + 1 else n sdiv d)" using fl by auto
qed

lemma mpq_floor_ceil_yields:
  assumes "mpq_ok a"
  shows "yields (mpq_floor a) (\<lambda>f. mpz_wf f \<and> mpz_val f = \<lfloor>mpq_val a\<rfloor>)"
    "yields (mpq_ceil a) (\<lambda>f. mpz_wf f \<and> mpz_val f = \<lceil>mpq_val a\<rceil>)"
proof -
  note A = mpq_okD [OF assms]
  obtain q where q: "machine_div (m_num a) (m_den a) = Inr q" "mpz_wf q" "mpz_val q = mpz_val (m_num a) sdiv mpz_val (m_den a)"
    using machine_div_val [OF A(3,4)] A(5) by auto
  have fl: "\<lfloor>mpq_val a\<rfloor> = mpz_val (m_num a) div mpz_val (m_den a)"
    "\<lceil>mpq_val a\<rceil> = - ((- mpz_val (m_num a)) div mpz_val (m_den a))"
    using floor_of_int_div [OF A(5)] ceiling_of_int_div [OF A(5)] by (simp_all add: mpq_val_def)
  show "yields (mpq_floor a) (\<lambda>f. mpz_wf f \<and> mpz_val f = \<lfloor>mpq_val a\<rfloor>)"
    "yields (mpq_ceil a) (\<lambda>f. mpz_wf f \<and> mpz_val f = \<lceil>mpq_val a\<rceil>)"
    using A q fl sdiv_round [OF A(5,6)] mpq_is_int_den [OF assms]
    by (auto simp: mpq_floor_def mpq_ceil_def)
qed

lemma mpq_prev_power_of_two_yields:
  assumes "mpq_ok a" "1 \<le> mpq_val a"
  shows "yields (mpq_prev_power_of_two a) (\<lambda>k. 2 ^ k \<le> mpq_val a \<and> mpq_val a < 2 ^ (k + 1))"
proof -
  obtain f where f: "mpq_floor a = Inr f" "mpz_wf f" "mpz_val f = \<lfloor>mpq_val a\<rfloor>"
    using mpq_floor_ceil_yields(1) [OF assms(1)] by (auto elim: yieldsE)
  have "0 < mpz_val f" using f(3) assms(2) by simp
  then have lg: "2 ^ mpz_log2 f \<le> \<lfloor>mpq_val a\<rfloor>" "\<lfloor>mpq_val a\<rfloor> < 2 ^ (mpz_log2 f + 1)"
    using mpz_log2_val [of f] f(2,3) by auto
  have "of_int (2 ^ mpz_log2 f) \<le> mpq_val a" using lg(1) by (simp only: le_floor_iff)
  moreover have "mpq_val a < of_int (2 ^ (mpz_log2 f + 1))" using lg(2) by (simp only: floor_less_iff)
  ultimately show ?thesis using f(1) by (simp add: mpq_prev_power_of_two_def)
qed

unbundle bit_operations_syntax

section \<open>Rationals that are integers\<close>

lemma mpq_gcd_yields:
  assumes "mpq_ok a" "mpq_ok b"
  shows "yields (mpq_gcd a b) (\<lambda>c. mpq_ok c \<and> mpq_val c = of_int (gcd (mpz_val (m_num a)) (mpz_val (m_num b))))"
  using mpz_gcd_yields mpq_okD(1) assms by (auto simp: mpq_gcd_def on_nums_def elim!: yields_mono)

lemma mpq_idiv_mod_yields:
  assumes "mpq_ok a" "mpq_ok b" "mpq_is_int a" "mpq_is_int b" "mpq_val b \<noteq> 0"
  shows "yields (mpq_idiv a b) (\<lambda>q. yields (mpq_mod a b) (\<lambda>r. mpq_ok q \<and> mpq_ok r
    \<and> mpq_val q \<in> \<int> \<and> mpq_val a = mpq_val b * mpq_val q + mpq_val r \<and> 0 \<le> mpq_val r \<and> mpq_val r < \<bar>mpq_val b\<bar>))"
proof -
  let ?x = "mpz_val (m_num a)" and ?y = "mpz_val (m_num b)"
  note A = mpq_okD [OF assms(1)] and B = mpq_okD [OF assms(2)]
  have v: "mpq_val a = of_int ?x" "mpq_val b = of_int ?y" using assms mpq_int_val by simp_all
  then have nz: "?y \<noteq> 0" using assms(5) by simp
  have eq: "of_int ?x = (of_int (?y * ediv ?x ?y + emod ?x ?y) :: rat)" by (simp only: ediv_emod)
  have bd: "(0 :: rat) \<le> of_int (emod ?x ?y)" "(of_int (emod ?x ?y) :: rat) < of_int \<bar>?y\<bar>"
    using emod_bounds [OF nz, of ?x] by (simp_all only: of_int_0_le_iff of_int_less_iff)
  obtain q where q: "mpz_div (m_num a) (m_num b) = Inr q" "mpz_wf q" "mpz_val q = ediv ?x ?y"
    using mpz_div_val [OF A(3) B(3) nz] A(1) by auto
  obtain r where r: "mpz_mod (m_num a) (m_num b) = Inr r" "mpz_wf r" "mpz_val r = emod ?x ?y"
    using mpz_mod_val [OF A(3) B(3) nz] A(1) by auto
  show ?thesis
    using q r eq bd by (simp add: mpq_idiv_def mpq_mod_def on_nums_def v)
qed

lemma mpq_gcd_loop_yields:
  assumes "mpq_ok g" "list_all (\<lambda>a. mpq_ok a \<and> mpq_is_int a) as" "0 \<le> mpz_val (m_num g)" "mpq_is_int g"
  shows "yields (mpq_gcd_loop g as) (\<lambda>c. mpq_ok c
    \<and> mpq_val c = of_int (gcd (mpz_val (m_num g)) (Gcd ((\<lambda>a. mpz_val (m_num a)) ` set as))))"
  using assms
proof (induction as arbitrary: g)
  case Nil
  then show ?case by (simp add: mpq_int_val)
next
  case (Cons a as)
  obtain n where n: "mpz_gcd (m_num g) (m_num a) = Inr n" "mpz_wf n" "mpz_val n = gcd (mpz_val (m_num g)) (mpz_val (m_num a))"
    using mpz_gcd_yields [of "m_num g" "m_num a"] Cons.prems mpq_okD(1) by (auto elim: yieldsE)
  then have g: "mpq_gcd g a = Inr (mpq_of_z n)" by (simp add: mpq_gcd_def on_nums_def)
  have int: "mpq_is_int (mpq_of_z n)" by (simp add: mpq_is_int_def mpq_of_z_def)
  show ?case
  proof (cases "mpq_is_one g")
    case True
    then have "mpz_val (m_num g) = 1" using Cons.prems mpq_int_val [of g] by simp
    then show ?thesis using True Cons.prems mpq_int_val [of g] by simp
  next
    case False
    then show ?thesis
      using Cons.IH [of "mpq_of_z n"] Cons.prems n g int by (simp add: gcd.assoc)
  qed
qed

section \<open>Conversions\<close>

lemma mpq_set_zz_yields:
  assumes "mpz_wf n" "mpz_wf d" "mpz_val d \<noteq> 0"
  shows "yields (mpq_set_zz n d) (\<lambda>c. mpq_ok c \<and> mpq_val c = of_int (mpz_val n) / of_int (mpz_val d))"
  unfolding mpq_set_zz_def by (rule signed_normalize_yields [OF assms])

lemma mpq_set_int2_yields:
  assumes "int_min < n" "n \<le> int_max" "int_min < d" "d \<le> int_max" "d \<noteq> 0"
  shows "yields (mpq_set_int2 n d) (\<lambda>c. mpq_ok c \<and> mpq_val c = of_int n / of_int d)"
proof (cases "d < 0")
  case True
  then show ?thesis
    using mpq_normalize_yields [of "\<lparr>m_num = mk_z (- n), m_den = mk_z (- d)\<rparr>"] assms
    by (simp add: mpq_set_int2_def mpq_val_def int_limits)
next
  case False
  then show ?thesis
    using mpq_normalize_yields [of "\<lparr>m_num = mk_z n, m_den = mk_z d\<rparr>"] assms
    by (simp add: mpq_set_int2_def mpq_val_def int_limits)
qed

text \<open>\<open>set(mpq&, int64_t, uint64_t)\<close> fails for \<open>INT_MAX\<close> over itself: the denominator is stored large.\<close>

lemma mpq_set_i64_u64_null_cell: "mpq_set_i64_u64 int_max (of_int int_max) = Inl Undefined_behaviour"
proof -
  have u: "uint (of_int int_max :: double_digit) = int_max" by (simp add: int_limits)
  have n: "mpz_set_i64 int_max = mk_z int_max" by (simp add: mpz_set_i64_def int_limits)
  have large: "\<not> is_small (mpz_set_ui64 (of_int int_max))"
    unfolding mpz_set_ui64_def u by (simp add: mpz_set_big_ui64_def big_of_u64_def Let_def)
  have "gcd_null_cell (mk_z int_max) (mpz_set_ui64 (of_int int_max))"
    using large u by (simp add: gcd_null_cell_def int_limits)
  then have "mpz_gcd (mk_z int_max) (mpz_set_ui64 (of_int int_max)) = Inl Undefined_behaviour"
    by (intro mpz_gcd_null_cell) (simp_all add: int_limits)
  then show ?thesis by (simp add: mpq_set_i64_u64_def mpq_normalize_def n)
qed

lemma mpq_uint64_val:
  assumes "mpq_ok a"
  shows "mpq_is_int64 a \<longleftrightarrow> mpq_val a \<in> \<int> \<and> - (2 ^ 63) \<le> mpq_val a \<and> mpq_val a < 2 ^ 63"
    "mpq_is_int64 a \<Longrightarrow> of_int (mpq_get_int64 a) = mpq_val a"
proof -
  note A = mpq_okD [OF assms]
  let ?x = "mpz_val (m_num a)"
  have "- (2 ^ 63) \<le> (of_int ?x :: rat) \<longleftrightarrow> (of_int (- (2 ^ 63)) :: rat) \<le> of_int ?x"
    "(of_int ?x :: rat) < 2 ^ 63 \<longleftrightarrow> (of_int ?x :: rat) < of_int (2 ^ 63)" by simp_all
  then have r: "- (2 ^ 63) \<le> (of_int ?x :: rat) \<longleftrightarrow> - (2 ^ 63) \<le> ?x" "(of_int ?x :: rat) < 2 ^ 63 \<longleftrightarrow> ?x < 2 ^ 63"
    by (simp_all only: of_int_le_iff of_int_less_iff)
  show int: "mpq_is_int64 a \<longleftrightarrow> mpq_val a \<in> \<int> \<and> - (2 ^ 63) \<le> mpq_val a \<and> mpq_val a < 2 ^ 63"
    using mpq_is_int_val [OF assms] mpq_int_val [OF assms] mpz_is_int64_val [OF A(3)] r
    by (auto simp: mpq_is_int64_def)
  show "mpq_is_int64 a \<Longrightarrow> of_int (mpq_get_int64 a) = mpq_val a"
    using mpq_int_val [OF assms] mpz_is_int64_val [OF A(3)] mpz_get_int64_val [OF A(3)]
    by (auto simp: mpq_is_int64_def mpq_get_int64_def)
qed

section \<open>Powers\<close>

lemma mpq_power_yields:
  assumes "mpq_ok a" "unat p < 2 ^ 31"
  shows "yields (mpq_power a p) (\<lambda>b. mpq_ok b \<and> mpq_val b = mpq_val a ^ unat p)"
  using mpq_num.power_loop_val [OF assms(1) _ _ assms(2), of "mk_q 1"] by (auto simp: mpq_power_def)

lemma mpq_power_diverges:
  assumes "mpq_ok a" "2 ^ 31 \<le> unat p"
  shows "mpq_power a p = Inl Nontermination"
  using mpq_num.power_loop_diverges [OF assms(1) _ assms(2), of "mk_q 1"] by (simp add: mpq_power_def)

section \<open>Roots\<close>

text \<open>A rational in lowest terms is an n-th power only when its numerator and its denominator are.\<close>

lemma rat_power_lowest:
  fixes x :: rat
  assumes "0 < d" "coprime n d" "x ^ k = of_int n / of_int d" "0 < k"
  shows "\<exists>p q. 0 < q \<and> coprime p q \<and> n = p ^ k \<and> d = q ^ k \<and> x = of_int p / of_int q"
proof -
  obtain p q where pq: "quotient_of x = (p, q)" by fastforce
  then have q: "0 < q" "coprime p q" "x = of_int p / of_int q"
    using quotient_of_denom_pos quotient_of_coprime quotient_of_div by blast+
  have "(of_int (p ^ k * d) :: rat) = of_int (n * q ^ k)"
    using assms(1,3) q by (simp add: power_divide field_simps)
  then have "p ^ k * d = n * q ^ k" by (simp only: of_int_eq_iff)
  then have "p ^ k = n \<and> q ^ k = d"
    using lowest_terms_unique [of "q ^ k" d "p ^ k" n] assms(1,2) q by (simp add: mult.commute)
  then show ?thesis using q by blast
qed

lemma power_gap:
  fixes b p :: int
  assumes "(b - 1) ^ k < p ^ k" "p ^ k < b ^ k" "0 < k" "odd k \<or> 0 \<le> b"
  shows False
proof (cases "odd k")
  case True
  then have "b - 1 < p" "p < b" using assms(1,2) power_mono_odd [OF True] by (meson not_le)+
  then show False by simp
next
  case False
  then have "\<bar>p\<bar> ^ k = p ^ k" by (simp add: power_even_abs)
  then have "\<bar>p\<bar> < b" using power_less_imp_less_base [of "\<bar>p\<bar>" k b] assms(2,4) False by simp
  moreover have "b - 1 < \<bar>p\<bar>"
    using assms(1) \<open>\<bar>p\<bar> ^ k = p ^ k\<close> power_less_imp_less_base [of "b - 1" k "\<bar>p\<bar>"] by simp
  ultimately show False by simp
qed

text \<open>The square roots of canonical numbers are canonical.\<close>

lemma mpz_is_perfect_square_wf:
  assumes "mpz_wf a" "mpz_wf r0" "mpz_is_perfect_square a r0 = Inr (ok, r)"
  shows "mpz_wf r"
proof -
  let ?s0 = "\<lparr>sq_lower = mk_z 1, sq_upper = a, sq_lower_sq = mk_z 1, sq_upper_sq = mpz_mul a a\<rparr>"
  let ?I = "\<lambda>s. mpz_wf (sq_lower s) \<and> mpz_wf (sq_upper s)"
  have step: "?I t" if "?I s" "square_step a s = Inr t" for s t
  proof -
    have "yields (square_step a s) ?I"
      using mpz_div_yields [of "mpz_add (sq_upper s) (sq_lower s)" "mk_z 2"] that(1)
      by (auto simp: square_step_def Let_def int_limits elim!: yields_mono)
    then show ?thesis using that(2) by simp
  qed
  have "?I s" if "while_res (square_continue a) (square_step a) ?s0 = Inr s" for s
  proof (rule while_res_partial [OF that])
    show "?I ?s0" using assms(1) by simp
  qed (rule step)
  then show ?thesis
    using assms by (auto simp: mpz_is_perfect_square_def bind_res_Inr_iff split: if_splits)
qed

lemma int_square_root:
  assumes "mpz_ok a" "mpz_is_perfect_square a r0 = Inr (ok, r)"
  shows "ok \<longleftrightarrow> (\<exists>p. mpz_val a = p ^ 2)" "ok \<Longrightarrow> mpz_val r ^ 2 = mpz_val a \<and> 0 \<le> mpz_val r"
proof -
  have "(ok \<longleftrightarrow> (\<exists>p. mpz_val a = p ^ 2)) \<and> (ok \<longrightarrow> mpz_val r ^ 2 = mpz_val a \<and> 0 \<le> mpz_val r)"
  proof (cases "mpz_val a < 0")
    case True
    then have "\<not> ok" using assms by (simp add: mpz_is_perfect_square_def)
    moreover have "mpz_val a \<noteq> p ^ 2" for p using True zero_le_power2 [of p] by linarith
    ultimately show ?thesis by blast
  next
    case False
    then have r: "0 \<le> mpz_val r" "if ok then mpz_val r * mpz_val r = mpz_val a
        else (mpz_val r - 1) * (mpz_val r - 1) < mpz_val a \<and> mpz_val a < mpz_val r * mpz_val r"
      using mpz_is_perfect_square_val [OF assms(1), of r0] assms(2) by auto
    have "False" if "\<not> ok" "mpz_val a = p ^ 2" for p
      using power_gap [of "mpz_val r" 2 p] r that by (simp add: power2_eq_square)
    then show ?thesis using r by (auto simp: power2_eq_square intro!: exI [of _ "mpz_val r"])
  qed
  then show "ok \<longleftrightarrow> (\<exists>p. mpz_val a = p ^ 2)" "ok \<Longrightarrow> mpz_val r ^ 2 = mpz_val a \<and> 0 \<le> mpz_val r" by blast+
qed

text \<open>\<open>is_perfect_square\<close> on rationals decides whether there is a rational square root, and finds it.\<close>

lemma perfect_square_split:
  assumes "mpq_ok a"
  shows "(\<exists>x. mpq_val a = x ^ 2) \<longleftrightarrow> (\<exists>p. mpz_val (m_num a) = p ^ 2) \<and> (\<exists>q. mpz_val (m_den a) = q ^ 2)"
proof
  note A = mpq_okD [OF assms]
  assume "\<exists>x. mpq_val a = x ^ 2"
  then obtain x :: rat where "x ^ 2 = of_int (mpz_val (m_num a)) / of_int (mpz_val (m_den a))"
    by (metis mpq_val_def)
  from rat_power_lowest [OF A(5,6) this]
  show "(\<exists>p. mpz_val (m_num a) = p ^ 2) \<and> (\<exists>q. mpz_val (m_den a) = q ^ 2)" by auto
next
  assume "(\<exists>p. mpz_val (m_num a) = p ^ 2) \<and> (\<exists>q. mpz_val (m_den a) = q ^ 2)"
  then show "\<exists>x. mpq_val a = x ^ 2" by (metis mpq_val_def of_int_power power_divide)
qed

lemma mpq_is_perfect_square_yields:
  assumes ok: "mpq_ok a" "mpz_wf (m_num r)" "mpz_wf (m_den r)"
  shows "yields (mpq_is_perfect_square a r) (\<lambda>(b, s). (b \<longleftrightarrow> (\<exists>x. mpq_val a = x ^ 2))
    \<and> (b \<longrightarrow> mpq_ok s \<and> 0 \<le> mpq_val s \<and> mpq_val s ^ 2 = mpq_val a))"
proof -
  note A = mpq_okD [OF ok(1)]
  have total: "\<exists>b n. mpz_is_perfect_square x y = Inr (b, n)" if "mpz_ok x" for x y
    using mpz_is_perfect_square_val [OF that, of y] that
    by (cases "mpz_val x < 0") (auto simp: mpz_is_perfect_square_def)
  obtain b n where n: "mpz_is_perfect_square (m_num a) (m_num r) = Inr (b, n)" using total [OF A(3)] by blast
  obtain c d where d: "mpz_is_perfect_square (m_den a) (m_den r) = Inr (c, d)" using total [OF A(4)] by blast
  note nr = int_square_root [OF A(3) n] and dr = int_square_root [OF A(4) d]
  have wf: "mpz_wf n" "mpz_wf d" using mpz_is_perfect_square_wf A(1,2) ok(2,3) n d by blast+
  note split = perfect_square_split [OF ok(1)]
  show ?thesis
  proof (cases "mpq_is_int a")
    case True
    then have den: "mpz_val (m_den a) = 1 ^ 2" using mpq_is_int_den [OF ok(1)] by simp
    have "b \<longrightarrow> (of_int (mpz_val n) :: rat) ^ 2 = of_int (mpz_val (m_num a)) \<and> 0 \<le> mpz_val n"
      using nr(2) by (metis of_int_power)
    then show ?thesis
      using True n wf nr(1) split den mpq_int_val [OF ok(1) True]
      by (auto simp: mpq_is_perfect_square_def)
  next
    case False
    have "yields (mpq_normalize \<lparr>m_num = n, m_den = d\<rparr>)
        (\<lambda>s. mpq_ok s \<and> 0 \<le> mpq_val s \<and> mpq_val s ^ 2 = mpq_val a)" if "b" "c"
    proof -
      have "mpz_val d \<noteq> 0" using dr(2) that A(5) by auto
      then have d0: "0 < mpz_val d" using dr(2) that by simp
      have "(of_int (mpz_val n) / of_int (mpz_val d) :: rat) ^ 2 = mpq_val a"
        using nr(2) dr(2) that by (metis mpq_val_def of_int_power power_divide)
      moreover have "(0 :: rat) \<le> of_int (mpz_val n) / of_int (mpz_val d)" using nr(2) that d0 by simp
      ultimately show ?thesis
        using mpq_normalize_yields [of "\<lparr>m_num = n, m_den = d\<rparr>"] wf d0
        by (auto simp: mpq_val_def elim!: yields_mono)
    qed
    then show ?thesis
      using False n d nr(1) dr(1) split by (auto simp: mpq_is_perfect_square_def elim!: yields_mono)
  qed
qed

text \<open>\<open>root\<close> decides whether there is a rational n-th root, and finds it.\<close>

lemma int_root:
  assumes "mpz_ok a" "0 < n" "n < 2 ^ 31" "odd n \<or> 0 \<le> mpz_val a" "mpz_bitsize a < 2 ^ 32"
    "mpz_root a n = Inr (ok, r)"
  shows "ok \<longleftrightarrow> (\<exists>p. mpz_val a = p ^ n)" "ok \<Longrightarrow> mpz_val r ^ n = mpz_val a"
proof -
  have r: "if ok then mpz_val r ^ n = mpz_val a else (mpz_val r - 1) ^ n < mpz_val a \<and> mpz_val a < mpz_val r ^ n"
    using mpz_root_val [OF assms(1-5)] assms(6) by auto
  have False if no: "\<not> ok" and p: "mpz_val a = p ^ n" for p
  proof -
    have gap: "(mpz_val r - 1) ^ n < p ^ n" "p ^ n < mpz_val r ^ n" using r that by simp_all
    have "0 \<le> mpz_val r" if "even n"
    proof (rule ccontr)
      assume "\<not> ?thesis"
      then have "\<bar>mpz_val r\<bar> ^ n \<le> \<bar>mpz_val r - 1\<bar> ^ n" by (intro power_mono) simp_all
      then show False using gap that by (simp add: power_even_abs)
    qed
    then show False using power_gap [OF gap assms(2)] by blast
  qed
  then show "ok \<longleftrightarrow> (\<exists>p. mpz_val a = p ^ n)" "ok \<Longrightarrow> mpz_val r ^ n = mpz_val a"
    using r by (auto intro: exI [of _ "mpz_val r"])
qed

lemma mpq_root_yields:
  assumes ok: "mpq_ok a" "0 < n" "n < 2 ^ 31" "odd n \<or> 0 \<le> mpq_val a"
    and size: "mpz_bitsize (m_num a) < 2 ^ 32" "mpz_bitsize (m_den a) < 2 ^ 32"
  shows "yields (mpq_root a n r) (\<lambda>(b, s). (b \<longleftrightarrow> (\<exists>x. mpq_val a = x ^ n)) \<and> (b \<longrightarrow> mpq_val s ^ n = mpq_val a))"
proof -
  note A = mpq_okD [OF ok(1)]
  have sg: "odd n \<or> 0 \<le> mpz_val (m_num a)" "odd n \<or> 0 \<le> mpz_val (m_den a)"
    using ok(4) mpq_val_sign(4) [OF ok(1)] A(5) by auto
  obtain b x where x: "mpz_root (m_num a) n = Inr (b, x)"
    using mpz_root_val [OF A(3) ok(2,3) sg(1) size(1)] by blast
  obtain c y where y: "mpz_root (m_den a) n = Inr (c, y)"
    using mpz_root_val [OF A(4) ok(2,3) sg(2) size(2)] by blast
  note rx = int_root [OF A(3) ok(2,3) sg(1) size(1) x] and ry = int_root [OF A(4) ok(2,3) sg(2) size(2) y]
  have "b \<and> c" if "mpq_val a = z ^ n" for z
    using rat_power_lowest [OF A(5,6), of z n] that ok(2) rx(1) ry(1) by (auto simp: mpq_val_def)
  moreover have "mpq_val \<lparr>m_num = x, m_den = y\<rparr> ^ n = mpq_val a" if "b" "c"
  proof -
    have "mpq_val \<lparr>m_num = x, m_den = y\<rparr> ^ n = of_int (mpz_val x ^ n) / of_int (mpz_val y ^ n)"
      by (simp add: mpq_val_def power_divide)
    then show ?thesis unfolding rx(2) [OF that(1)] ry(2) [OF that(2)] by (simp add: mpq_val_def)
  qed
  ultimately have "b \<and> c \<longleftrightarrow> (\<exists>z. mpq_val a = z ^ n)"
    "b \<and> c \<longrightarrow> mpq_val \<lparr>m_num = x, m_den = y\<rparr> ^ n = mpq_val a" by metis+
  then show ?thesis using x y by (cases b; cases c) (simp_all add: mpq_root_def)
qed

end
