(* ===== verification/Mpq_String.thy ===== *)
theory Mpq_String
  imports Mpq_Ops Mpz_String
begin

text \<open>
  Text of rationals (util/mpq.cpp): \<open>to_string\<close>, \<open>display_smt2\<close>, \<open>display_decimal\<close>, and the parser
  \<open>set(mpq&, char const*)\<close> of fractions, decimal numbers and scientific notation.
\<close>

section \<open>Operations\<close>

definition mpq_to_string :: "mpq \<Rightarrow> string res" where
  "mpq_to_string a =
     (if mpq_is_int a then mpz_to_string (m_num a)
      else bind_res (mpz_to_string (m_num a)) (\<lambda>n.
           bind_res (mpz_to_string (m_den a)) (\<lambda>d. Inr (n @ ''/'' @ d))))"

definition mpq_display_smt2 :: "mpq \<Rightarrow> bool \<Rightarrow> string res" where
  "mpq_display_smt2 a decimal =
     (if mpq_is_int a then mpz_display_smt2 (m_num a) decimal
      else bind_res (mpz_display_smt2 (m_num a) decimal) (\<lambda>n.
           bind_res (mpz_display_smt2 (m_den a) decimal) (\<lambda>d. Inr (''(/ '' @ n @ '' '' @ d @ '')''))))"

text \<open>The loop of \<open>display_decimal\<close>, with \<open>prec - i\<close> digits left.\<close>

fun decimal_loop :: "nat \<Rightarrow> bool \<Rightarrow> mpz \<Rightarrow> mpz \<Rightarrow> string res" where
  "decimal_loop 0 trunc n1 d1 = Inr (if trunc then '''' else ''?'')"
| "decimal_loop (Suc i) trunc n1 d1 =
     (let n1 = mpz_mul n1 (mk_z 10)
      in bind_res (mpz_div n1 d1) (\<lambda>v1.
         bind_res (mpz_to_string v1) (\<lambda>s.
         bind_res (mpz_rem n1 d1) (\<lambda>n1.
           if mpz_is_zero n1 then Inr s
           else bind_res (decimal_loop i trunc n1 d1) (\<lambda>t. Inr (s @ t))))))"

definition mpq_display_decimal :: "mpq \<Rightarrow> nat \<Rightarrow> bool \<Rightarrow> string res" where
  "mpq_display_decimal a prec trunc =
     (let sign = (if mpq_is_neg a then ''-'' else '''');
          n1 = (if mpq_is_neg a then mpz_neg (m_num a) else m_num a); d1 = m_den a
      in bind_res (mpz_div n1 d1) (\<lambda>v1.
         bind_res (mpz_to_string v1) (\<lambda>s.
         bind_res (mpz_rem n1 d1) (\<lambda>n1.
           if mpz_is_zero n1 then Inr (sign @ s)
           else bind_res (decimal_loop prec trunc n1 d1) (\<lambda>t. Inr (sign @ s @ ''.'' @ t))))))"

subsection \<open>The parser\<close>

definition is_exp :: "char \<Rightarrow> bool" where
  "is_exp c \<longleftrightarrow> c = CHR ''e'' \<or> c = CHR ''E''"

definition ends_int_part :: "char \<Rightarrow> bool" where
  "ends_int_part c \<longleftrightarrow> c = CHR ''/'' \<or> c = CHR ''.'' \<or> is_exp c"

text \<open>The exponent, an \<open>unsigned long long\<close>.\<close>

fun read_exp :: "double_digit \<Rightarrow> string \<Rightarrow> double_digit res" where
  "read_exp e [] = Inr e"
| "read_exp e (c # cs) =
     (if is_decimal c then read_exp (10 * e + of_nat (of_char c - 48)) cs
      else if c = CHR ''/'' then Inl Mixing_rational_scientific
      else read_exp e cs)"

definition read_exponent :: "bool \<Rightarrow> string \<Rightarrow> (bool \<times> double_digit) res" where
  "read_exponent is_rat str =
     (case str of
        c # cs \<Rightarrow>
          if is_exp c then
            if is_rat then Inl Mixing_rational_scientific
            else
              (let exp_sign = (cs \<noteq> [] \<and> hd cs = CHR ''-'');
                   cs = (if cs \<noteq> [] \<and> (hd cs = CHR ''-'' \<or> hd cs = CHR ''+'') then tl cs else cs)
               in bind_res (read_exp 0 cs) (\<lambda>e. Inr (exp_sign, e)))
          else Inr (False, 0)
      | [] \<Rightarrow> Inr (False, 0))"

text \<open>The scale \<open>tmp2\<close>, a power of ten for each digit after the point.\<close>

definition frac_scale :: "bool \<Rightarrow> string \<Rightarrow> mpz" where
  "frac_scale is_rat fr =
     foldl (\<lambda>t c. if is_decimal c \<and> \<not> is_rat then mpz_mul t (mk_z 10) else t) (mk_z 1) fr"

definition scale_by_exp :: "mpq \<Rightarrow> bool \<Rightarrow> double_digit \<Rightarrow> mpq res" where
  "scale_by_exp a exp_sign e =
     (if e > 0 then
        bind_res (mpq_power (mk_q 10) (ucast e)) (\<lambda>p. if exp_sign then mpq_div a p else mpq_mul a p)
      else Inr a)"

text \<open>Everything after the integer part, which ended at the first character of \<open>str\<close>; \<open>den0\<close> is the
  denominator that the number had before the call.\<close>

definition set_rest :: "mpz \<Rightarrow> mpz \<Rightarrow> string \<Rightarrow> mpq res" where
  "set_rest num den0 str =
     (let is_rat = (hd str = CHR ''/'');
          has_den = (hd str = CHR ''/'' \<or> hd str = CHR ''.'');
          fr = (if has_den then takeWhile (\<lambda>c. \<not> is_exp c) (tl str) else []);
          str = (if has_den then dropWhile (\<lambda>c. \<not> is_exp c) (tl str) else str);
          den = (if has_den then foldl mpz_read_char (mk_z 0) fr else den0);
          tmp2 = frac_scale is_rat fr
      in bind_res (read_exponent is_rat str) (\<lambda>(exp_sign, e).
         if \<not> is_rat then
           if unat e > 4294967295 then Inl Exponent_too_big
           else
             bind_res (if has_den
               then bind_res (mpq_set_zz den tmp2) (\<lambda>b. mpq_add \<lparr>m_num = num, m_den = mk_z 1\<rparr> b)
               else Inr \<lparr>m_num = num, m_den = den\<rparr>) (\<lambda>a. scale_by_exp a exp_sign e)
         else if mpz_is_zero den then Inl Division_by_zero
         else Inr \<lparr>m_num = num, m_den = den\<rparr>))"

definition mpq_set_string :: "mpq \<Rightarrow> string \<Rightarrow> mpq res" where
  "mpq_set_string a0 val =
     (let str = dropWhile (\<lambda>c. c = CHR '' '') val;
          sign = (str \<noteq> [] \<and> hd str = CHR ''-'');
          num = foldl mpz_read_char (mk_z 0) (takeWhile (\<lambda>c. \<not> ends_int_part c) str);
          str = dropWhile (\<lambda>c. \<not> ends_int_part c) str
      in bind_res (if str \<noteq> [] then set_rest num (m_den a0) str else Inr \<lparr>m_num = num, m_den = mk_z 1\<rparr>) (\<lambda>a.
         mpq_normalize (if sign then a\<lparr>m_num := mpz_neg (m_num a)\<rparr> else a)))"

section \<open>Reading a fraction\<close>

lemma read_char_wf: "mpz_wf a \<Longrightarrow> mpz_wf (mpz_read_char a c)"
proof -
  assume "mpz_wf a"
  then have "mpz_ok a" by simp
  then show ?thesis
    using \<open>mpz_wf a\<close> mpz_read_char_val(1) [of a c]
    by (auto simp: mpz_read_char_def is_decimal_def int_limits intro!: mpz_ring_wf)
qed

lemma foldl_read_char_wf: "mpz_wf (foldl mpz_read_char (mk_z 0) s)"
proof -
  have "mpz_wf a \<Longrightarrow> mpz_wf (foldl mpz_read_char a s)" for a
    by (induction s arbitrary: a) (simp_all add: read_char_wf)
  then show ?thesis by simp
qed

lemma read_digits:
  "mpz_wf (foldl mpz_read_char (mk_z 0) s)" "mpz_val (foldl mpz_read_char (mk_z 0) s) = int (read_dec 0 s)"
  using foldl_read_char_wf foldl_read_char [of "mk_z 0" 0 s] by simp_all

lemma show_int_parts:
  "show_int v = (if v < 0 then ''-'' else '''') @ show_base 10 (nat \<bar>v\<bar>)"
  by (simp add: show_int_def)

lemma decimal_not_end: "is_decimal c \<Longrightarrow> \<not> ends_int_part c \<and> \<not> is_exp c"
  by (auto simp: is_decimal_def ends_int_part_def is_exp_def)

lemma take_int_part:
  assumes "\<forall>c \<in> set s. is_decimal c" "t = [] \<or> ends_int_part (hd t)"
  shows "takeWhile (\<lambda>c. \<not> ends_int_part c) (s @ t) = s" "dropWhile (\<lambda>c. \<not> ends_int_part c) (s @ t) = t"
  using assms decimal_not_end by (cases t; auto simp: takeWhile_append dropWhile_append)+

text \<open>A numeral with an optional sign, followed by nothing or by the rest of a number.\<close>

lemma mpq_set_string_split:
  assumes s: "s \<noteq> []" "\<forall>c \<in> set s. is_decimal c" and t: "t = [] \<or> ends_int_part (hd t)"
  defines "num \<equiv> foldl mpz_read_char (mk_z 0) s"
  shows "mpq_set_string a0 ((if neg then ''-'' else '''') @ s @ t) =
    bind_res (if t \<noteq> [] then set_rest num (m_den a0) t else Inr \<lparr>m_num = num, m_den = mk_z 1\<rparr>)
      (\<lambda>a. mpq_normalize (if neg then a\<lparr>m_num := mpz_neg (m_num a)\<rparr> else a))"
proof -
  have m: "\<not> is_decimal (CHR ''-'')" "\<not> ends_int_part (CHR ''-'')"
    by (simp_all add: is_decimal_def ends_int_part_def is_exp_def)
  have h: "hd s \<noteq> CHR '' ''" "hd s \<noteq> CHR ''-''"
    using s is_decimal_not_sign [of "hd s"] hd_in_set [OF s(1)] by blast+
  have blank: "dropWhile (\<lambda>c. c = CHR '' '') ((if neg then ''-'' else '''') @ s @ t) = (if neg then ''-'' else '''') @ s @ t"
    using h(1) s(1) by (cases s) simp_all
  have rd: "mpz_read_char (mk_z 0) (CHR ''-'') = mk_z 0" using m(1) by (simp add: mpz_read_char_def)
  have tk0: "takeWhile (\<lambda>c. \<not> ends_int_part c) s = s" using take_int_part(1) [OF s(2), of "[]"] by simp
  show ?thesis
    unfolding mpq_set_string_def blank Let_def num_def using m rd h s(1)
    by (cases neg) (simp_all add: take_int_part [OF s(2) t] tk0)
qed

lemma set_rest_fraction:
  assumes "\<forall>c \<in> set s. is_decimal c" "read_dec 0 s \<noteq> 0"
  shows "set_rest num den0 (''/'' @ s) = Inr \<lparr>m_num = num, m_den = foldl mpz_read_char (mk_z 0) s\<rparr>"
proof -
  have tk: "takeWhile (\<lambda>c. \<not> is_exp c) s = s" "dropWhile (\<lambda>c. \<not> is_exp c) s = []"
    using assms(1) decimal_not_end by (auto simp: takeWhile_eq_all_conv)
  have "\<not> mpz_is_zero (foldl mpz_read_char (mk_z 0) s)" using read_digits [of s] assms(2) by simp
  then show ?thesis by (simp add: set_rest_def read_exponent_def tk Let_def)
qed

text \<open>Reading what \<open>to_string\<close> wrote gives the number back, whatever the old value was.\<close>

lemma signed_num_val:
  assumes "mpz_wf n" "mpz_val n = int (nat \<bar>v\<bar>)"
  shows "mpz_wf (if v < 0 then mpz_neg n else n)" "mpz_val (if v < 0 then mpz_neg n else n) = v"
  using assms by auto

lemma mpq_set_string_to_string:
  assumes "mpq_ok a"
  shows "yields (mpq_to_string a) (\<lambda>s. yields (mpq_set_string a0 s) (\<lambda>b. mpq_ok b \<and> mpq_val b = mpq_val a))"
proof -
  note A = mpq_okD [OF assms]
  let ?n = "show_base 10 (nat \<bar>mpz_val (m_num a)\<bar>)" and ?d = "show_base 10 (nat (mpz_val (m_den a)))"
  let ?neg = "mpz_val (m_num a) < 0"
  define num where "num = foldl mpz_read_char (mk_z 0) ?n"
  have num: "mpz_wf num" "mpz_val num = int (nat \<bar>mpz_val (m_num a)\<bar>)"
    unfolding num_def using read_digits [of ?n] by (simp_all add: read_show_base)
  define den where "den = foldl mpz_read_char (mk_z 0) ?d"
  have den: "mpz_wf den" "mpz_val den = mpz_val (m_den a)"
    unfolding den_def using read_digits [of ?d] A(5) by (simp_all add: read_show_base)
  have str: "mpz_to_string (m_num a) = Inr ((if ?neg then ''-'' else '''') @ ?n)" "mpz_to_string (m_den a) = Inr ?d"
    using mpz_to_string_val [OF A(3)] mpz_to_string_val [OF A(4)] A(5) by (simp_all add: show_int_parts)
  have norm: "yields (mpq_normalize (if ?neg then \<lparr>m_num = mpz_neg num, m_den = d\<rparr> else \<lparr>m_num = num, m_den = d\<rparr>))
      (\<lambda>b. mpq_ok b \<and> mpq_val b = of_int (mpz_val (m_num a)) / of_int (mpz_val d))" if "mpz_wf d" "0 < mpz_val d" for d
    using mpq_normalize_yields [of "\<lparr>m_num = if ?neg then mpz_neg num else num, m_den = d\<rparr>"] signed_num_val [OF num] that
    by (auto simp: mpq_val_def split: if_splits)
  note split = mpq_set_string_split [OF show_base_not_Nil show_base_decimal, where n1 = "nat \<bar>mpz_val (m_num a)\<bar>"
      and neg = ?neg and ?a0.0 = a0, folded num_def]
  show ?thesis
  proof (cases "mpq_is_int a")
    case True
    then have s: "mpq_to_string a = Inr ((if ?neg then ''-'' else '''') @ ?n @ [])" using str by (simp add: mpq_to_string_def)
    have "mpq_set_string a0 ((if ?neg then ''-'' else '''') @ ?n @ []) =
        mpq_normalize (if ?neg then \<lparr>m_num = mpz_neg num, m_den = mk_z 1\<rparr> else \<lparr>m_num = num, m_den = mk_z 1\<rparr>)"
      by (subst split) simp_all
    then show ?thesis
      unfolding s using norm [of "mk_z 1"] mpq_int_val [OF assms True] by simp
  next
    case False
    then have s: "mpq_to_string a = Inr ((if ?neg then ''-'' else '''') @ ?n @ (''/'' @ ?d))"
      using str by (simp add: mpq_to_string_def)
    have rest: "set_rest num (m_den a0) (''/'' @ ?d) = Inr \<lparr>m_num = num, m_den = den\<rparr>"
      unfolding den_def using A(5) by (intro set_rest_fraction show_base_decimal) (simp add: read_show_base)
    have "ends_int_part (hd (''/'' @ ?d))" by (simp add: ends_int_part_def)
    then have "mpq_set_string a0 ((if ?neg then ''-'' else '''') @ ?n @ (''/'' @ ?d)) =
        mpq_normalize (if ?neg then \<lparr>m_num = mpz_neg num, m_den = den\<rparr> else \<lparr>m_num = num, m_den = den\<rparr>)"
      by (subst split) (simp_all only: rest, simp_all)
    then show ?thesis
      unfolding s using norm [OF den(1)] den A(5) by (simp add: mpq_val_def)
  qed
qed

section \<open>Reading decimal and scientific notation\<close>

lemma read_exp_decimal:
  assumes "\<forall>c \<in> set x. is_decimal c"
  shows "read_exp (of_nat n) x = Inr (of_nat (read_dec n x))"
  using assms
proof (induction x arbitrary: n)
  case (Cons c x)
  have "10 * of_nat n + of_nat (of_char c - 48) = (of_nat (n * 10 + (of_char c - 48)) :: double_digit)" by simp
  then have "read_exp (10 * of_nat n + of_nat (of_char c - 48)) x = Inr (of_nat (read_dec (n * 10 + (of_char c - 48)) x))"
    using Cons.IH [of "n * 10 + (of_char c - 48)"] Cons.prems by (simp only: list.set ball_simps) simp
  then show ?case using Cons.prems by simp
qed simp

lemma frac_scale_val:
  assumes "\<forall>c \<in> set s. is_decimal c"
  shows "mpz_wf (frac_scale False s)" "mpz_val (frac_scale False s) = 10 ^ length s"
proof -
  let ?f = "\<lambda>t c. if is_decimal c \<and> \<not> False then mpz_mul t (mk_z 10) else t"
  have "mpz_wf a \<Longrightarrow> mpz_wf (foldl ?f a s) \<and> mpz_val (foldl ?f a s) = mpz_val a * 10 ^ length s" for a
    using assms by (induction s arbitrary: a) (simp_all add: int_limits)
  from this [of "mk_z 1"] show "mpz_wf (frac_scale False s)" "mpz_val (frac_scale False s) = 10 ^ length s"
    by (simp_all add: frac_scale_def)
qed

text \<open>An exponent with an optional sign, as its text and its value.\<close>

definition exp_text :: "(string \<times> string) option \<Rightarrow> string" where
  "exp_text x = (case x of None \<Rightarrow> '''' | Some (s, ds) \<Rightarrow> ''e'' @ s @ ds)"

definition exp_ok :: "(string \<times> string) option \<Rightarrow> bool" where
  "exp_ok x \<longleftrightarrow> (case x of None \<Rightarrow> True | Some (s, ds) \<Rightarrow>
     s \<in> {'''', ''-'', ''+''} \<and> (\<forall>c \<in> set ds. is_decimal c) \<and> ds \<noteq> [] \<and> read_dec 0 ds < 2 ^ 31)"

definition exp_factor :: "(string \<times> string) option \<Rightarrow> rat" where
  "exp_factor x = (case x of None \<Rightarrow> 1 | Some (s, ds) \<Rightarrow>
     if s = ''-'' then 1 / 10 ^ read_dec 0 ds else 10 ^ read_dec 0 ds)"

lemma read_exponent_text:
  assumes "exp_ok x"
  shows "read_exponent False (exp_text x) =
    Inr (case x of None \<Rightarrow> (False, 0) | Some (s, ds) \<Rightarrow> (s = ''-'', of_nat (read_dec 0 ds)))"
proof (cases x)
  case None
  then show ?thesis by (simp add: exp_text_def read_exponent_def)
next
  case (Some p)
  obtain s ds where p: "p = (s, ds)" by fastforce
  have ds: "ds \<noteq> []" "\<forall>c \<in> set ds. is_decimal c" and s: "s \<in> {'''', ''-'', ''+''}"
    using assms by (simp_all add: Some p exp_ok_def)
  have "is_decimal (hd ds)" using ds by simp
  then have "hd ds \<noteq> CHR ''-''" "hd ds \<noteq> CHR ''+''" by (auto simp: is_decimal_def)
  moreover have "read_exp 0 ds = Inr (of_nat (read_dec 0 ds))" using read_exp_decimal [OF ds(2), of 0] by simp
  ultimately show ?thesis
    using s ds(1) by (auto simp: Some p exp_text_def read_exponent_def is_exp_def)
qed

lemma scale_by_exp_fraction:
  assumes "mpq_fraction a" "k < 2 ^ 31"
  shows "yields (scale_by_exp a neg (of_nat k)) (\<lambda>b. mpq_fraction b \<and> (mpq_ok a \<longrightarrow> mpq_ok b) \<and>
    mpq_val b = (if neg then mpq_val a / 10 ^ k else mpq_val a * 10 ^ k))"
proof -
  have k64: "unat (of_nat k :: double_digit) = k" using assms(2) by (simp add: unat_of_nat take_bit_eq_mod)
  have k32: "unat (ucast (of_nat k :: double_digit) :: digit) = k"
    using assms(2) by (simp add: unat_ucast_down k64)
  show ?thesis
  proof (cases "k = 0")
    case True
    then show ?thesis using assms(1) by (simp add: scale_by_exp_def)
  next
    case False
    obtain p where p: "mpq_power (mk_q 10) (ucast (of_nat k :: double_digit)) = Inr p" "mpq_ok p" "mpq_val p = 10 ^ k"
      using mpq_power_yields [of "mk_q 10" "ucast (of_nat k :: double_digit)"] assms(2)
      by (auto simp: k32 int_limits elim: yieldsE)
    have pos: "0 < (of_nat k :: double_digit)" using False k64 by (simp add: word_less_nat_alt)
    have "mpq_fraction p" "mpq_val p \<noteq> 0" using p by simp_all
    note op = mpq_div_fraction [OF assms(1) this] mpq_mul_fraction [OF assms(1) this(1)]
    moreover have "mpq_ok a \<Longrightarrow> yields (mpq_div a p) mpq_ok" "mpq_ok a \<Longrightarrow> yields (mpq_mul a p) mpq_ok"
      using mpq_div_yields [of a p] mpq_mul_yields [of a p] p(2,3) by (auto elim!: yields_mono)
    ultimately show ?thesis
      using p pos by (cases "mpq_ok a") (auto simp: scale_by_exp_def elim!: yieldsE)
  qed
qed

lemma scale_by_exp_yields:
  assumes "mpq_ok a" "k < 2 ^ 31"
  shows "yields (scale_by_exp a neg (of_nat k)) (\<lambda>b. mpq_ok b \<and>
    mpq_val b = (if neg then mpq_val a / 10 ^ k else mpq_val a * 10 ^ k))"
  using scale_by_exp_fraction [OF mpq_fractionI [OF assms(1)] assms(2), of neg] assms(1) by (auto elim!: yields_mono)

lemma set_rest_decimal:
  assumes f: "\<forall>c \<in> set f. is_decimal c" and x: "exp_ok x" and num: "mpz_wf num"
  shows "yields (set_rest num den0 (''.'' @ f @ exp_text x)) (\<lambda>a. mpq_ok a \<and>
    mpq_val a = (of_int (mpz_val num) + of_nat (read_dec 0 f) / 10 ^ length f) * exp_factor x)"
proof -
  have ex: "exp_text x = [] \<or> is_exp (hd (exp_text x))"
    by (auto simp: exp_text_def is_exp_def split: option.splits)
  have tk: "takeWhile (\<lambda>c. \<not> is_exp c) (f @ exp_text x) = f" "dropWhile (\<lambda>c. \<not> is_exp c) (f @ exp_text x) = exp_text x"
    using f ex decimal_not_end by (cases "exp_text x"; auto simp: takeWhile_append dropWhile_append)+
  obtain es k where rx: "read_exponent False (exp_text x) = Inr (es, of_nat k)" "k < 2 ^ 31"
    "exp_factor x = (if es then 1 / 10 ^ k else 10 ^ k)"
    using read_exponent_text [OF x] x by (cases x) (auto simp: exp_factor_def exp_ok_def intro: that [of False 0])
  have e: "\<not> 4294967295 < unat (of_nat k :: double_digit)" using rx(2) by (simp add: unat_of_nat take_bit_eq_mod)
  note tmp2 = frac_scale_val [OF f]
  obtain b where b: "mpq_set_zz (foldl mpz_read_char (mk_z 0) f) (frac_scale False f) = Inr b" "mpq_ok b"
    "mpq_val b = of_nat (read_dec 0 f) / 10 ^ length f"
    using mpq_set_zz_yields [OF read_digits(1) tmp2(1), of f] tmp2(2) by (auto simp: read_digits elim: yieldsE)
  have n: "mpq_ok \<lparr>m_num = num, m_den = mk_z 1\<rparr>" "mpq_val \<lparr>m_num = num, m_den = mk_z 1\<rparr> = of_int (mpz_val num)"
    using num by (simp_all add: mpq_ok_def mpq_val_def)
  obtain a where a: "mpq_add \<lparr>m_num = num, m_den = mk_z 1\<rparr> b = Inr a" "mpq_ok a"
    "mpq_val a = of_int (mpz_val num) + of_nat (read_dec 0 f) / 10 ^ length f"
    using mpq_add_yields [OF n(1) b(2)] n(2) b(3) by (auto elim: yieldsE)
  show ?thesis
    using scale_by_exp_yields [OF a(2) rx(2), of es] a rx e b(1)
    by (auto simp: set_rest_def Let_def tk elim!: yields_mono)
qed

lemma mpq_set_string_decimal:
  assumes i: "i \<noteq> []" "\<forall>c \<in> set i. is_decimal c" and f: "\<forall>c \<in> set f. is_decimal c" and x: "exp_ok x"
  shows "yields (mpq_set_string a0 ((if neg then ''-'' else '''') @ i @ ''.'' @ f @ exp_text x)) (\<lambda>a. mpq_ok a \<and>
    mpq_val a = (if neg then - 1 else 1) * (of_nat (read_dec 0 i) + of_nat (read_dec 0 f) / 10 ^ length f) * exp_factor x)"
proof -
  obtain a where a: "set_rest (foldl mpz_read_char (mk_z 0) i) (m_den a0) (''.'' @ f @ exp_text x) = Inr a" "mpq_ok a"
    "mpq_val a = (of_nat (read_dec 0 i) + of_nat (read_dec 0 f) / 10 ^ length f) * exp_factor x"
    using set_rest_decimal [OF f x read_digits(1), of i "m_den a0"] by (auto simp: read_digits elim: yieldsE)
  have "ends_int_part (hd (''.'' @ f @ exp_text x))" by (simp add: ends_int_part_def)
  then have eq: "mpq_set_string a0 ((if neg then ''-'' else '''') @ i @ ''.'' @ f @ exp_text x) =
      mpq_normalize (if neg then mpq_neg a else a)"
    by (subst mpq_set_string_split [OF i]) (simp_all only: a, simp_all add: mpq_neg_def)
  have "mpq_ok (if neg then mpq_neg a else a)" using a(2) by simp
  from mpq_normalize_yields [OF mpq_okD(1,2,5) [OF this]] show ?thesis
    unfolding eq using a(2,3) by (auto simp: algebra_simps elim!: yields_mono)
qed

text \<open>A number in scientific notation without a point keeps the denominator that \<open>a\<close> had before. The fraction
  that is scaled need not be in lowest terms then.\<close>

lemma set_rest_exponent:
  assumes x: "exp_ok x" "x \<noteq> None" and den0: "mpq_fraction \<lparr>m_num = num, m_den = den0\<rparr>"
  shows "yields (set_rest num den0 (exp_text x)) (\<lambda>a. mpq_fraction a \<and>
    mpq_val a = of_int (mpz_val num) / of_int (mpz_val den0) * exp_factor x)"
proof -
  obtain s ds where sx: "x = Some (s, ds)" using x(2) by auto
  have hd: "hd (exp_text x) = CHR ''e''" by (simp add: exp_text_def sx)
  obtain es k where rx: "read_exponent False (exp_text x) = Inr (es, of_nat k)" "k < 2 ^ 31"
    "exp_factor x = (if es then 1 / 10 ^ k else 10 ^ k)"
    using read_exponent_text [OF x(1)] x by (auto simp: exp_factor_def exp_ok_def sx)
  have e: "\<not> 4294967295 < unat (of_nat k :: double_digit)" using rx(2) by (simp add: unat_of_nat take_bit_eq_mod)
  show ?thesis
    using scale_by_exp_fraction [OF den0 rx(2), of es] rx e
    by (auto simp: set_rest_def Let_def hd mpq_val_def elim!: yields_mono)
qed

lemma mpq_set_string_stale:
  assumes a0: "mpq_ok a0" and x: "exp_ok x" "x \<noteq> None" and i: "i \<noteq> []" "\<forall>c \<in> set i. is_decimal c"
  shows "yields (mpq_set_string a0 ((if neg then ''-'' else '''') @ i @ exp_text x)) (\<lambda>a. mpq_ok a \<and>
    mpq_val a = (if neg then - 1 else 1) * of_nat (read_dec 0 i) * exp_factor x / of_int (mpz_val (m_den a0)))"
proof -
  note A = mpq_okD [OF a0]
  have frac: "mpq_fraction \<lparr>m_num = foldl mpz_read_char (mk_z 0) i, m_den = m_den a0\<rparr>"
    using A by (simp add: mpq_fraction_def read_digits)
  obtain a where a: "set_rest (foldl mpz_read_char (mk_z 0) i) (m_den a0) (exp_text x) = Inr a" "mpq_fraction a"
    "mpq_val a = of_nat (read_dec 0 i) * exp_factor x / of_int (mpz_val (m_den a0))"
    using set_rest_exponent [OF x frac] by (auto simp: read_digits elim: yieldsE)
  have ne: "exp_text x \<noteq> []" "ends_int_part (hd (exp_text x))"
    using x(2) by (auto simp: exp_text_def ends_int_part_def is_exp_def)
  have eq: "mpq_set_string a0 ((if neg then ''-'' else '''') @ i @ exp_text x) = mpq_normalize (if neg then mpq_neg a else a)"
    by (subst mpq_set_string_split [OF i]) (simp_all add: ne a(1) mpq_neg_def)
  have "mpq_fraction (if neg then mpq_neg a else a)"
    "mpq_val (if neg then mpq_neg a else a) = (if neg then - 1 else 1) * mpq_val a"
    using a(2) by (auto simp: mpq_fraction_def mpq_neg_def mpq_val_def)
  then show ?thesis
    unfolding eq using mpq_normalize_yields [of "if neg then mpq_neg a else a"] a(3)
    by (auto simp: mpq_fraction_def elim!: yields_mono)
qed

section \<open>Decimal expansion\<close>

text \<open>\<open>decimal_digits prec x t s\<close>: the digits \<open>t\<close> after the point are those of \<open>x\<close>, either all of them or
  \<open>prec\<close> of them, followed by a question mark unless the output is truncated.\<close>

definition decimal_digits :: "nat \<Rightarrow> bool \<Rightarrow> rat \<Rightarrow> string \<Rightarrow> bool" where
  "decimal_digits prec trunc x s \<longleftrightarrow> (\<exists>t. (\<forall>c \<in> set t. is_decimal c) \<and>
     (s = t \<and> length t \<le> prec \<and> x = of_nat (read_dec 0 t) / 10 ^ length t \<or>
      s = t @ (if trunc then '''' else ''?'') \<and> length t = prec \<and>
        of_nat (read_dec 0 t) / 10 ^ length t < x \<and> x < (of_nat (read_dec 0 t) + 1) / 10 ^ length t))"

lemma read_dec_shift:
  assumes "\<forall>c \<in> set t. is_decimal c"
  shows "read_dec n t = n * 10 ^ length t + read_dec 0 t"
  using assms
proof (induction t arbitrary: n)
  case (Cons c t)
  from Cons.IH [of "n * 10 + (of_char c - 48)"] Cons.IH [of "of_char c - 48"] Cons.prems show ?case
    by (simp add: algebra_simps)
qed simp

lemma decimal_digits_Cons:
  assumes "decimal_digits k trunc (10 * x - of_nat d) s" "d < 10"
  shows "decimal_digits (Suc k) trunc x (digit_char d # s)"
proof -
  obtain t where t: "\<forall>c \<in> set t. is_decimal c" and alt: "s = t \<and> length t \<le> k \<and> 10 * x - of_nat d = of_nat (read_dec 0 t) / 10 ^ length t \<or>
      s = t @ (if trunc then '''' else ''?'') \<and> length t = k \<and>
        of_nat (read_dec 0 t) / 10 ^ length t < 10 * x - of_nat d \<and> 10 * x - of_nat d < (of_nat (read_dec 0 t) + 1) / 10 ^ length t"
    using assms(1) by (auto simp: decimal_digits_def)
  have dc: "is_decimal (digit_char d)" "of_char (digit_char d) = (48 + d :: nat)"
    using digit_char_dec [OF assms(2)] by simp_all
  have rd: "read_dec 0 (digit_char d # t) = d * 10 ^ length t + read_dec 0 t"
    using dc read_dec_shift [OF t, of d] by simp
  have eqs: "(of_nat (read_dec 0 (digit_char d # t)) / 10 ^ length (digit_char d # t) :: rat) =
      (of_nat d + of_nat (read_dec 0 t) / 10 ^ length t) / 10"
    "((of_nat (read_dec 0 (digit_char d # t)) + 1) / 10 ^ length (digit_char d # t) :: rat) =
      (of_nat d + (of_nat (read_dec 0 t) + 1) / 10 ^ length t) / 10"
    unfolding rd by (simp_all add: field_simps)
  show ?thesis
    unfolding decimal_digits_def
  proof (intro exI [of _ "digit_char d # t"] conjI)
    show "\<forall>c \<in> set (digit_char d # t). is_decimal c" using t dc(1) by simp
    show "digit_char d # s = digit_char d # t \<and> length (digit_char d # t) \<le> Suc k
        \<and> x = of_nat (read_dec 0 (digit_char d # t)) / 10 ^ length (digit_char d # t) \<or>
      digit_char d # s = (digit_char d # t) @ (if trunc then '''' else ''?'') \<and> length (digit_char d # t) = Suc k \<and>
        of_nat (read_dec 0 (digit_char d # t)) / 10 ^ length (digit_char d # t) < x \<and>
        x < (of_nat (read_dec 0 (digit_char d # t)) + 1) / 10 ^ length (digit_char d # t)"
      unfolding eqs using alt by auto
  qed
qed

lemma show_base_digit: "n < 10 \<Longrightarrow> show_base 10 n = [digit_char n]"
  by (simp add: show_base.simps)

lemma int_div_less: "(x :: int) < b * d \<Longrightarrow> 0 < d \<Longrightarrow> x div d < b"
proof (rule ccontr)
  assume "x < b * d" "0 < d" "\<not> x div d < b"
  then have "b * d \<le> x div d * d" by (intro mult_right_mono) simp_all
  also have "\<dots> \<le> x" using \<open>0 < d\<close> by (metis add_le_cancel_left add.right_neutral div_mult_mod_eq pos_mod_sign)
  finally show False using \<open>x < b * d\<close> by simp
qed

lemma mod_pos_bounds: "0 < (d :: int) \<Longrightarrow> x mod d \<noteq> 0 \<Longrightarrow> 0 < x mod d \<and> x mod d < d"
  using pos_mod_sign [of d x] by (simp add: order_less_le [of 0])

lemma of_int_div_mod: "(of_int x :: rat) = of_int d * of_int (x div d) + of_int (x mod d)"
  by (metis mult_div_mod_eq of_int_add of_int_mult)

lemma decimal_loop_yields:
  assumes "mpz_ok n" "mpz_ok d" "0 < mpz_val n" "mpz_val n < mpz_val d"
  shows "yields (decimal_loop k trunc n d) (decimal_digits k trunc (of_int (mpz_val n) / of_int (mpz_val d)))"
  using assms(1,3,4)
proof (induction k arbitrary: n)
  case 0
  then show ?case by (auto simp: decimal_digits_def intro!: exI [of _ "''''"])
next
  case (Suc k)
  let ?x = "mpz_val n * 10" and ?d = "mpz_val d"
  let ?n = "mpz_mul n (mk_z 10)"
  have n: "mpz_ok ?n" "mpz_val ?n = ?x" using Suc.prems by (simp_all add: int_limits)
  have d0: "?d \<noteq> 0" "0 < ?d" using Suc.prems by simp_all
  obtain v where v: "mpz_div ?n d = Inr v" "mpz_ok v" "mpz_val v = ?x div ?d"
    using mpz_div_val [OF n(1) assms(2) d0(1)] n(2) d0(2) by (auto simp: ediv_def)
  obtain r where r: "mpz_rem ?n d = Inr r" "mpz_ok r" "mpz_val r = ?x mod ?d"
    using mpz_rem_val [OF n(1) assms(2) d0(1)] n(2) Suc.prems d0 by (auto simp: smod_mod_positive)
  have q: "0 \<le> ?x div ?d" "?x div ?d < 10" using Suc.prems d0 by (simp_all add: pos_imp_zdiv_nonneg_iff int_div_less)
  define q where "q = nat (?x div ?d)"
  have s: "mpz_to_string v = Inr [digit_char q]" "q < 10"
    using mpz_to_string_val [OF v(2)] q v(3) by (simp_all add: show_int_def show_base_digit q_def)
  have rest: "10 * (of_int (mpz_val n) / of_int ?d) - of_nat q = (of_int (?x mod ?d) / of_int ?d :: rat)"
  proof -
    have "(of_int ?x :: rat) = of_int ?d * of_nat q + of_int (?x mod ?d)"
      using q of_int_div_mod [of ?x ?d] by (simp add: q_def)
    then show ?thesis using d0 by (simp add: field_simps)
  qed
  show ?case
  proof (cases "?x mod ?d = 0")
    case True
    then have "decimal_digits k trunc (10 * (of_int (mpz_val n) / of_int ?d) - of_nat q) ''''"
      using rest by (auto simp: decimal_digits_def intro!: exI [of _ "''''"])
    then show ?thesis
      using decimal_digits_Cons [OF _ s(2)] True v(1) r s(1) by simp
  next
    case False
    then have "yields (decimal_loop k trunc r d) (decimal_digits k trunc (of_int (mpz_val r) / of_int ?d))"
      using Suc.IH [of r] r d0 mod_pos_bounds [OF d0(2) False] by simp
    then show ?thesis
      using False v(1) r s rest by (auto elim!: yields_mono intro!: decimal_digits_Cons)
  qed
qed

lemma mpq_display_decimal_yields:
  assumes "mpq_ok a"
  shows "yields (mpq_display_decimal a prec trunc) (\<lambda>s. \<exists>t.
    s = (if mpq_val a < 0 then ''-'' else '''') @ show_base 10 (nat \<lfloor>\<bar>mpq_val a\<bar>\<rfloor>) @ t \<and>
    (if \<bar>mpq_val a\<bar> \<in> \<int> then t = '''' else \<exists>u. t = ''.'' @ u \<and> decimal_digits prec trunc (\<bar>mpq_val a\<bar> - of_int \<lfloor>\<bar>mpq_val a\<bar>\<rfloor>) u))"
proof -
  note A = mpq_okD [OF assms]
  let ?n = "if mpq_is_neg a then mpz_neg (m_num a) else m_num a" and ?d = "mpz_val (m_den a)"
  have n: "mpz_ok ?n" "mpz_val ?n = \<bar>mpz_val (m_num a)\<bar>"
    using A(3) mpq_val_sign [OF assms] assms by auto
  define x where "x = mpz_val ?n"
  have x: "0 \<le> x" "\<bar>mpq_val a\<bar> = of_int x / of_int ?d" using n(2) A(5) by (simp_all add: x_def mpq_val_def abs_divide)
  have fl: "\<lfloor>\<bar>mpq_val a\<bar>\<rfloor> = x div ?d" unfolding x(2) by (rule floor_of_int_div [OF A(5)])
  obtain v where v: "mpz_div ?n (m_den a) = Inr v" "mpz_ok v" "mpz_val v = x div ?d"
    using mpz_div_val [OF n(1) A(4)] A(5) by (auto simp: ediv_def x_def)
  obtain r where r: "mpz_rem ?n (m_den a) = Inr r" "mpz_ok r" "mpz_val r = x mod ?d"
    using mpz_rem_val [OF n(1) A(4)] A(5) x(1) by (auto simp: smod_mod_positive x_def)
  have s: "mpz_to_string v = Inr (show_base 10 (nat (x div ?d)))"
    using mpz_to_string_val [OF v(2)] v(3) x(1) A(5) by (simp add: show_int_def div_int_pos_iff not_less)
  have rest: "\<bar>mpq_val a\<bar> - of_int (x div ?d) = of_int (x mod ?d) / of_int ?d"
  proof -
    have "(of_int x / of_int ?d :: rat) - of_int (x div ?d) = (of_int x - of_int ?d * of_int (x div ?d)) / of_int ?d"
      using A(5) by (simp add: diff_divide_distrib)
    then show ?thesis unfolding x(2) using of_int_div_mod [of x ?d] by simp
  qed
  have int: "\<bar>mpq_val a\<bar> \<in> \<int> \<longleftrightarrow> x mod ?d = 0"
  proof
    assume "\<bar>mpq_val a\<bar> \<in> \<int>"
    then have "of_int \<lfloor>\<bar>mpq_val a\<bar>\<rfloor> = \<bar>mpq_val a\<bar>" by (simp add: of_int_floor)
    then show "x mod ?d = 0" using rest fl A(5) by simp
  next
    assume "x mod ?d = 0"
    then have "\<bar>mpq_val a\<bar> = of_int (x div ?d)" using rest by simp
    then show "\<bar>mpq_val a\<bar> \<in> \<int>" by simp
  qed
  show ?thesis
  proof (cases "x mod ?d = 0")
    case True
    then show ?thesis using v(1) r s int fl assms by (simp add: mpq_display_decimal_def Let_def)
  next
    case False
    have "yields (decimal_loop prec trunc r (m_den a)) (decimal_digits prec trunc (of_int (mpz_val r) / of_int ?d))"
      using r A mod_pos_bounds [OF A(5) False] by (intro decimal_loop_yields) simp_all
    then show ?thesis
      using False v(1) r s int fl rest assms
      by (auto simp: mpq_display_decimal_def Let_def elim!: yields_mono)
  qed
qed

end
