(* ===== verification/Mpbq.thy ===== *)
theory Mpbq
  imports Mpq_String
begin

text \<open>
  \<open>mpbq_manager\<close> (util/mpbq.h, util/mpbq.cpp): binary rationals \<open>m_num/2^m_k\<close>, kept with an odd
  numerator unless they are integers. The exponent is an \<open>unsigned\<close>: the sums and products that
  the source computes on it wrap around modulo \<open>2^32\<close>, and the theorems state the bounds under which
  they do not. Values are the rationals of \<open>mpq_manager\<close>.
\<close>

section \<open>Representation\<close>

record mpbq =
  bq_num :: mpz
  bq_k :: nat

definition mpbq_ok :: "mpbq \<Rightarrow> bool" where
  "mpbq_ok a \<longleftrightarrow> mpz_wf (bq_num a) \<and> bq_k a < 2 ^ 32 \<and> (bq_k a = 0 \<or> odd (mpz_val (bq_num a)))"

definition mpbq_val :: "mpbq \<Rightarrow> rat" where
  "mpbq_val a = of_int (mpz_val (bq_num a)) / 2 ^ bq_k a"

abbreviation wrap_u32 :: "nat \<Rightarrow> nat" where
  "wrap_u32 n \<equiv> n mod 2 ^ 32"

section \<open>Operations\<close>

subsection \<open>Normalization and constants\<close>

definition mpbq_normalize :: "mpbq \<Rightarrow> mpbq" where
  "mpbq_normalize a =
     (if bq_k a = 0 then a
      else if mpz_is_zero (bq_num a) then a\<lparr>bq_k := 0\<rparr>
      else
        (let k = mpz_power_of_two_multiple (bq_num a);
             k = (if k > bq_k a then bq_k a else k)
         in \<lparr>bq_num = mpz_machine_div2k (bq_num a) k, bq_k = bq_k a - k\<rparr>))"

definition mpbq_of_z :: "mpz \<Rightarrow> mpbq" where
  "mpbq_of_z n = \<lparr>bq_num = n, bq_k = 0\<rparr>"

definition mpbq_reset :: "mpbq \<Rightarrow> mpbq" where
  "mpbq_reset a = mpbq_of_z (mk_z 0)"

definition mpbq_set_zk :: "mpz \<Rightarrow> nat \<Rightarrow> mpbq" where
  "mpbq_set_zk n k = mpbq_normalize \<lparr>bq_num = n, bq_k = k\<rparr>"

definition mpbq_set_i64 :: "int \<Rightarrow> nat \<Rightarrow> mpbq" where
  "mpbq_set_i64 n k = mpbq_normalize \<lparr>bq_num = mpz_set_i64 n, bq_k = k\<rparr>"

definition mpbq_is_int :: "mpbq \<Rightarrow> bool" where "mpbq_is_int a \<longleftrightarrow> bq_k a = 0"
definition mpbq_is_zero :: "mpbq \<Rightarrow> bool" where "mpbq_is_zero a \<longleftrightarrow> mpz_is_zero (bq_num a)"
definition mpbq_is_one :: "mpbq \<Rightarrow> bool" where "mpbq_is_one a \<longleftrightarrow> bq_k a = 0 \<and> mpz_is_one (bq_num a)"
definition mpbq_is_pos :: "mpbq \<Rightarrow> bool" where "mpbq_is_pos a \<longleftrightarrow> mpz_is_pos (bq_num a)"
definition mpbq_is_neg :: "mpbq \<Rightarrow> bool" where "mpbq_is_neg a \<longleftrightarrow> mpz_is_neg (bq_num a)"
definition mpbq_is_nonpos :: "mpbq \<Rightarrow> bool" where "mpbq_is_nonpos a \<longleftrightarrow> mpz_is_nonpos (bq_num a)"
definition mpbq_is_nonneg :: "mpbq \<Rightarrow> bool" where "mpbq_is_nonneg a \<longleftrightarrow> mpz_is_nonneg (bq_num a)"

subsection \<open>Ring operations\<close>

definition mpbq_add :: "mpbq \<Rightarrow> mpbq \<Rightarrow> mpbq" where
  "mpbq_add a b = mpbq_normalize
     (if bq_k a = bq_k b then \<lparr>bq_num = mpz_add (bq_num a) (bq_num b), bq_k = bq_k a\<rparr>
      else if bq_k a < bq_k b
      then \<lparr>bq_num = mpz_add (bq_num b) (mpz_mul2k (bq_num a) (bq_k b - bq_k a)), bq_k = bq_k b\<rparr>
      else \<lparr>bq_num = mpz_add (bq_num a) (mpz_mul2k (bq_num b) (bq_k a - bq_k b)), bq_k = bq_k a\<rparr>)"

definition mpbq_add_z :: "mpbq \<Rightarrow> mpz \<Rightarrow> mpbq" where
  "mpbq_add_z a b = mpbq_normalize
     (if bq_k a = 0 then \<lparr>bq_num = mpz_add (bq_num a) b, bq_k = bq_k a\<rparr>
      else \<lparr>bq_num = mpz_add (bq_num a) (mpz_mul2k b (bq_k a)), bq_k = bq_k a\<rparr>)"

definition mpbq_sub :: "mpbq \<Rightarrow> mpbq \<Rightarrow> mpbq" where
  "mpbq_sub a b = mpbq_normalize
     (if bq_k a = bq_k b then \<lparr>bq_num = mpz_sub (bq_num a) (bq_num b), bq_k = bq_k a\<rparr>
      else if bq_k a < bq_k b
      then \<lparr>bq_num = mpz_sub (mpz_mul2k (bq_num a) (bq_k b - bq_k a)) (bq_num b), bq_k = bq_k b\<rparr>
      else \<lparr>bq_num = mpz_sub (bq_num a) (mpz_mul2k (bq_num b) (bq_k a - bq_k b)), bq_k = bq_k a\<rparr>)"

definition mpbq_sub_z :: "mpbq \<Rightarrow> mpz \<Rightarrow> mpbq" where
  "mpbq_sub_z a b = mpbq_normalize
     (if bq_k a = 0 then \<lparr>bq_num = mpz_sub (bq_num a) b, bq_k = bq_k a\<rparr>
      else \<lparr>bq_num = mpz_sub (bq_num a) (mpz_mul2k b (bq_k a)), bq_k = bq_k a\<rparr>)"

text \<open>\<open>mul(a, b, r)\<close> looks at the exponents of \<open>a\<close> and \<open>b\<close> after it has written \<open>r\<close>, so what it does
  depends on which of the three are the same object; it is modelled on a store of numbers.\<close>

type_synonym mpbq_store = "nat \<Rightarrow> mpbq"

definition mpbq_mul_at :: "nat \<Rightarrow> nat \<Rightarrow> nat \<Rightarrow> mpbq_store \<Rightarrow> mpbq_store" where
  "mpbq_mul_at a b r \<sigma> =
     (let \<sigma> = \<sigma>(r := (\<sigma> r)\<lparr>bq_num := mpz_mul (bq_num (\<sigma> a)) (bq_num (\<sigma> b))\<rparr>);
          \<sigma> = \<sigma>(r := (\<sigma> r)\<lparr>bq_k := wrap_u32 (bq_k (\<sigma> a) + bq_k (\<sigma> b))\<rparr>)
      in if bq_k (\<sigma> a) = 0 \<or> bq_k (\<sigma> b) = 0 then \<sigma>(r := mpbq_normalize (\<sigma> r)) else \<sigma>)"

definition mpbq_mul :: "mpbq \<Rightarrow> mpbq \<Rightarrow> mpbq" where
  "mpbq_mul a b = mpbq_mul_at 0 1 2 (\<lambda>i. if i = 0 then a else b) 2"

definition mpbq_mul_z :: "mpbq \<Rightarrow> mpz \<Rightarrow> mpbq" where
  "mpbq_mul_z a b = mpbq_normalize \<lparr>bq_num = mpz_mul (bq_num a) b, bq_k = bq_k a\<rparr>"

definition mpbq_addmul :: "mpbq \<Rightarrow> mpbq \<Rightarrow> mpbq \<Rightarrow> mpbq" where
  "mpbq_addmul a b c = mpbq_add a (mpbq_mul b c)"

definition mpbq_addmul_z :: "mpbq \<Rightarrow> mpz \<Rightarrow> mpbq \<Rightarrow> mpbq" where
  "mpbq_addmul_z a b c = mpbq_add a (mpbq_mul_z c b)"

definition mpbq_neg :: "mpbq \<Rightarrow> mpbq" where
  "mpbq_neg a = a\<lparr>bq_num := mpz_neg (bq_num a)\<rparr>"

definition mpbq_div2 :: "mpbq \<Rightarrow> mpbq" where
  "mpbq_div2 a =
     (let b = a\<lparr>bq_k := wrap_u32 (bq_k a + 1)\<rparr> in if bq_k a = 0 then mpbq_normalize b else b)"

definition mpbq_div2k :: "mpbq \<Rightarrow> nat \<Rightarrow> mpbq" where
  "mpbq_div2k a k =
     (let b = a\<lparr>bq_k := wrap_u32 (bq_k a + k)\<rparr> in if bq_k a = 0 then mpbq_normalize b else b)"

definition mpbq_mul2 :: "mpbq \<Rightarrow> mpbq" where
  "mpbq_mul2 a = (if bq_k a = 0 then a\<lparr>bq_num := mpz_mul2k (bq_num a) 1\<rparr> else a\<lparr>bq_k := bq_k a - 1\<rparr>)"

definition mpbq_mul2k :: "mpbq \<Rightarrow> nat \<Rightarrow> mpbq" where
  "mpbq_mul2k a k =
     (if k = 0 then a
      else if bq_k a < k then \<lparr>bq_num = mpz_mul2k (bq_num a) (k - bq_k a), bq_k = 0\<rparr>
      else a\<lparr>bq_k := bq_k a - k\<rparr>)"

definition mpbq_power :: "mpbq \<Rightarrow> digit \<Rightarrow> mpbq res" where
  "mpbq_power a k =
     bind_res (mpz_power (bq_num a) k) (\<lambda>n. Inr \<lparr>bq_num = n, bq_k = wrap_u32 (bq_k a * unat k)\<rparr>)"

subsection \<open>Comparison\<close>

definition mpbq_eq :: "mpbq \<Rightarrow> mpbq \<Rightarrow> bool" where
  "mpbq_eq a b \<longleftrightarrow> bq_k a = bq_k b \<and> mpz_eq (bq_num a) (bq_num b)"

definition mpbq_lt :: "mpbq \<Rightarrow> mpbq \<Rightarrow> bool" where
  "mpbq_lt a b =
     (if bq_k a = bq_k b then mpz_lt (bq_num a) (bq_num b)
      else if bq_k a < bq_k b then mpz_lt (mpz_mul2k (bq_num a) (bq_k b - bq_k a)) (bq_num b)
      else mpz_lt (bq_num a) (mpz_mul2k (bq_num b) (bq_k a - bq_k b)))"

definition mpbq_neq :: "mpbq \<Rightarrow> mpbq \<Rightarrow> bool" where "mpbq_neq a b \<longleftrightarrow> \<not> mpbq_eq a b"
definition mpbq_gt :: "mpbq \<Rightarrow> mpbq \<Rightarrow> bool" where "mpbq_gt a b \<longleftrightarrow> mpbq_lt b a"
definition mpbq_le :: "mpbq \<Rightarrow> mpbq \<Rightarrow> bool" where "mpbq_le a b \<longleftrightarrow> \<not> mpbq_gt a b"
definition mpbq_ge :: "mpbq \<Rightarrow> mpbq \<Rightarrow> bool" where "mpbq_ge a b \<longleftrightarrow> mpbq_le b a"

definition mpbq_eq_q :: "mpbq \<Rightarrow> mpq \<Rightarrow> bool" where
  "mpbq_eq_q a b =
     (if mpbq_is_int a \<and> mpz_is_one (m_den b) then mpz_eq (bq_num a) (m_num b)
      else mpz_eq (mpz_mul2k (m_num b) (bq_k a)) (mpz_mul (bq_num a) (m_den b)))"

definition mpbq_lt_q :: "mpbq \<Rightarrow> mpq \<Rightarrow> bool" where
  "mpbq_lt_q a b =
     (if mpbq_is_int a \<and> mpz_is_one (m_den b) then mpz_lt (bq_num a) (m_num b)
      else mpz_lt (mpz_mul (bq_num a) (m_den b)) (mpz_mul2k (m_num b) (bq_k a)))"

definition mpbq_le_q :: "mpbq \<Rightarrow> mpq \<Rightarrow> bool" where
  "mpbq_le_q a b =
     (if mpbq_is_int a \<and> mpz_is_one (m_den b) then mpz_le (bq_num a) (m_num b)
      else mpz_le (mpz_mul (bq_num a) (m_den b)) (mpz_mul2k (m_num b) (bq_k a)))"

definition mpbq_gt_q :: "mpbq \<Rightarrow> mpq \<Rightarrow> bool" where "mpbq_gt_q a b \<longleftrightarrow> \<not> mpbq_le_q a b"
definition mpbq_ge_q :: "mpbq \<Rightarrow> mpq \<Rightarrow> bool" where "mpbq_ge_q a b \<longleftrightarrow> \<not> mpbq_lt_q a b"

definition mpbq_eq_z :: "mpbq \<Rightarrow> mpz \<Rightarrow> bool" where
  "mpbq_eq_z a b \<longleftrightarrow> mpz_eq (bq_num a) b \<and> bq_k a = 0"

definition mpbq_lt_z :: "mpbq \<Rightarrow> mpz \<Rightarrow> bool" where
  "mpbq_lt_z a b =
     (if mpbq_is_int a then mpz_lt (bq_num a) b else mpz_lt (bq_num a) (mpz_mul2k b (bq_k a)))"

definition mpbq_le_z :: "mpbq \<Rightarrow> mpz \<Rightarrow> bool" where
  "mpbq_le_z a b =
     (if mpbq_is_int a then mpz_le (bq_num a) b else mpz_le (bq_num a) (mpz_mul2k b (bq_k a)))"

definition lt_1div2k :: "mpbq \<Rightarrow> nat \<Rightarrow> bool" where
  "lt_1div2k a k =
     (if mpz_is_nonpos (bq_num a) then True
      else if bq_k a \<le> k then False
      else mpz_lt (bq_num a) (mpz_mul2k (mk_z 1) (bq_k a - k)))"

text \<open>The magnitudes are computed with \<open>unsigned\<close> and returned as \<open>int\<close>.\<close>

definition magnitude_lb :: "mpbq \<Rightarrow> int" where
  "magnitude_lb a =
     (if mpz_is_zero (bq_num a) then 0
      else if mpz_is_pos (bq_num a) then wrap_int (int (mpz_log2 (bq_num a)) - int (bq_k a))
      else wrap_int (int (mpz_mlog2 (bq_num a)) - int (bq_k a) + 1))"

definition magnitude_ub :: "mpbq \<Rightarrow> int" where
  "magnitude_ub a =
     (if mpz_is_zero (bq_num a) then 0
      else if mpz_is_pos (bq_num a) then wrap_int (int (mpz_log2 (bq_num a)) - int (bq_k a) + 1)
      else wrap_int (int (mpz_mlog2 (bq_num a)) - int (bq_k a)))"

subsection \<open>Rounding, roots and conversions\<close>

definition mpbq_floor :: "mpbq \<Rightarrow> mpz" where
  "mpbq_floor a =
     (if mpbq_is_int a then bq_num a
      else
        (let f = mpz_machine_div2k (bq_num a) (bq_k a)
         in if mpbq_is_neg a then mpz_sub f (mk_z 1) else f))"

definition mpbq_ceil :: "mpbq \<Rightarrow> mpz" where
  "mpbq_ceil a =
     (if mpbq_is_int a then bq_num a
      else
        (let c = mpz_machine_div2k (bq_num a) (bq_k a)
         in if mpbq_is_pos a then mpz_add c (mk_z 1) else c))"

definition root_lower :: "mpbq \<Rightarrow> nat \<Rightarrow> (bool \<times> mpbq) res" where
  "root_lower a n =
     bind_res (mpz_root (bq_num a) n) (\<lambda>(r, x).
       let x = (if \<not> r then mpz_dec x else x)
       in if bq_k a mod n = 0 then Inr (r, mpbq_normalize \<lparr>bq_num = x, bq_k = bq_k a div n\<rparr>)
          else if mpz_is_neg x then Inr (False, mpbq_normalize \<lparr>bq_num = x, bq_k = bq_k a div n\<rparr>)
          else Inr (False, mpbq_normalize \<lparr>bq_num = x, bq_k = bq_k a div n + 1\<rparr>))"

definition root_upper :: "mpbq \<Rightarrow> nat \<Rightarrow> (bool \<times> mpbq) res" where
  "root_upper a n =
     bind_res (mpz_root (bq_num a) n) (\<lambda>(r, x).
       if bq_k a mod n = 0 then Inr (r, mpbq_normalize \<lparr>bq_num = x, bq_k = bq_k a div n\<rparr>)
       else if mpz_is_neg x then Inr (False, mpbq_normalize \<lparr>bq_num = x, bq_k = bq_k a div n + 1\<rparr>)
       else Inr (False, mpbq_normalize \<lparr>bq_num = x, bq_k = bq_k a div n\<rparr>))"

definition to_mpbq :: "mpq \<Rightarrow> bool \<times> mpbq" where
  "to_mpbq q =
     (if mpz_is_one (m_den q) then (True, mpbq_of_z (m_num q))
      else
        (case mpz_is_power_of_two (m_den q) of
           Some shift \<Rightarrow> (True, mpbq_set_zk (m_num q) shift)
         | None \<Rightarrow> (False, mpbq_set_zk (m_num q) (wrap_u32 (mpz_log2 (m_den q) + 1)))))"

definition to_mpq :: "mpbq \<Rightarrow> mpq res" where
  "to_mpq source =
     bind_res (mpq_power (mk_q 2) (of_nat (bq_k source))) (\<lambda>t. mpq_mul_zq (bq_num source) (mpq_inv t))"

definition mpbq_to_string :: "mpbq \<Rightarrow> string res" where
  "mpbq_to_string a =
     bind_res (mpz_to_string (bq_num a)) (\<lambda>s.
       Inr (s @ (if bq_k a = 1 then ''/2'' else if bq_k a > 1 then ''/2^'' @ show_base 10 (bq_k a) else '''')))"

definition mpbq_display_smt2 :: "mpbq \<Rightarrow> bool \<Rightarrow> string res" where
  "mpbq_display_smt2 a decimal =
     (let suffix = (if decimal then ''.0'' else '''')
      in if bq_k a = 0 then mpz_display_smt2 (bq_num a) decimal
         else bind_res (mpz_display_smt2 (bq_num a) decimal) (\<lambda>s.
           Inr (''(/ '' @ s @ '' '' @ ''(^ 2'' @ suffix @ '' '' @ show_base 10 (bq_k a) @ suffix @ ''))'')))"

definition mpbq_display_decimal :: "mpbq \<Rightarrow> nat \<Rightarrow> string res" where
  "mpbq_display_decimal a prec =
     (if mpbq_is_int a then mpz_to_string (bq_num a)
      else
        (let sign = (if mpz_is_neg (bq_num a) then ''-'' else ''''); v1 = mpz_abs (bq_num a)
         in bind_res (mpz_power (mk_z 2) (of_nat (bq_k a))) (\<lambda>two_k.
            bind_res (mpz_rem v1 two_k) (\<lambda>n1.
            bind_res (mpz_div v1 two_k) (\<lambda>v1.
            bind_res (mpz_to_string v1) (\<lambda>s.
            bind_res (decimal_loop prec False n1 two_k) (\<lambda>t. Inr (sign @ s @ ''.'' @ t))))))))"

subsection \<open>Approximation\<close>

definition mpbq_approx :: "mpbq \<Rightarrow> nat \<Rightarrow> bool \<Rightarrow> mpbq" where
  "mpbq_approx a k to_plus_inf =
     (if bq_k a \<le> k then a
      else
        (let sgn = mpz_is_neg (bq_num a); inc = (sgn \<noteq> to_plus_inf); shift = bq_k a - k;
             n = mpz_machine_div2k (mpz_abs (bq_num a)) shift;
             n = (if inc then mpz_inc n else n);
             n = (if sgn then mpz_neg n else n)
         in mpbq_normalize \<lparr>bq_num = n, bq_k = k\<rparr>))"

definition approx_div :: "mpbq \<Rightarrow> mpbq \<Rightarrow> nat \<Rightarrow> bool \<Rightarrow> mpbq res" where
  "approx_div a b k to_plus_inf =
     (case mpz_is_power_of_two (bq_num b) of
        Some k' \<Rightarrow>
          bind_res (if bq_k b > 0
            then bind_res (mpz_power (mk_z 2) (of_nat (bq_k b))) (\<lambda>pw2. Inr (mpz_mul (bq_num a) pw2))
            else Inr (bq_num a)) (\<lambda>n.
          Inr (mpbq_normalize \<lparr>bq_num = n, bq_k = wrap_u32 (bq_k a + k')\<rparr>))
      | None \<Rightarrow>
          bind_res (mpz_divides (bq_num b) (bq_num a)) (\<lambda>dv.
          if dv then
            bind_res (mpz_div (bq_num a) (bq_num b)) (\<lambda>n.
              Inr (mpbq_normalize
                (if bq_k a \<ge> bq_k b then \<lparr>bq_num = n, bq_k = bq_k a - bq_k b\<rparr>
                 else \<lparr>bq_num = mpz_mul2k n (bq_k b - bq_k a), bq_k = 0\<rparr>)))
          else
            (let sgn = (mpbq_is_neg a \<noteq> mpbq_is_neg b);
                 abs_a = mpz_abs (bq_num a); abs_b = mpz_abs (bq_num b);
                 norm_a = (if bq_k a > bq_k b then
                     if k \<ge> bq_k a - bq_k b then mpz_mul2k abs_a (k - (bq_k a - bq_k b))
                     else mpz_machine_div2k abs_a (bq_k a - bq_k b - k)
                   else mpz_mul2k abs_a (wrap_u32 (k + bq_k b - bq_k a)))
             in bind_res (mpz_div norm_a abs_b) (\<lambda>n.
                  let n = (if sgn \<noteq> to_plus_inf then mpz_inc n else n);
                      n = (if sgn then mpz_neg n else n)
                  in Inr (mpbq_normalize \<lparr>bq_num = n, bq_k = k\<rparr>)))))"

section \<open>Normalization\<close>

lemma mpbq_okD:
  assumes "mpbq_ok a"
  shows "mpz_wf (bq_num a)" "mpz_ok (bq_num a)" "bq_k a < 2 ^ 32" "bq_k a = 0 \<or> odd (mpz_val (bq_num a))"
  using assms by (simp_all add: mpbq_ok_def)

lemma pow2_diff: "j \<le> k \<Longrightarrow> (2 :: 'a :: comm_semiring_1) ^ k = 2 ^ j * 2 ^ (k - j)"
  by (simp flip: power_add)

text \<open>Two fractions with power-of-two denominators over a common one.\<close>

lemma dyadic_extend: "(of_int x :: rat) / 2 ^ k = of_int (x * 2 ^ j) / 2 ^ (k + j)"
  by (simp add: power_add)

lemma dyadic_less: "(of_int x :: rat) / 2 ^ j < of_int y / 2 ^ k \<longleftrightarrow> x * 2 ^ k < y * 2 ^ j"
proof -
  have "(of_int x :: rat) / 2 ^ j < of_int y / 2 ^ k \<longleftrightarrow> (of_int (x * 2 ^ k) :: rat) < of_int (y * 2 ^ j)"
    by (simp add: divide_simps)
  then show ?thesis by (simp only: of_int_less_iff)
qed

lemma dyadic_le: "(of_int x :: rat) / 2 ^ j \<le> of_int y / 2 ^ k \<longleftrightarrow> x * 2 ^ k \<le> y * 2 ^ j"
  using dyadic_less [of y k x j] by (auto simp flip: not_less)

lemma dyadic_eq: "(of_int x :: rat) / 2 ^ j = of_int y / 2 ^ k \<longleftrightarrow> x * 2 ^ k = y * 2 ^ j"
  by (simp add: order_eq_iff dyadic_le)

lemma dyadic_lowest:
  assumes "x * 2 ^ k = y * 2 ^ j" "j = 0 \<or> odd x" "k = 0 \<or> odd (y :: int)"
  shows "j = k \<and> x = y"
proof -
  have "\<not> j < k" if "x * 2 ^ k = y * 2 ^ j" "k = 0 \<or> odd (y :: int)" for x y and j k :: nat
  proof
    assume "j < k"
    then have "x * 2 ^ (k - j) = y" using that(1) pow2_diff [of j k, where 'a = int] by simp
    moreover have "even (x * 2 ^ (k - j))" using \<open>j < k\<close> by simp
    ultimately show False using that(2) \<open>j < k\<close> by auto
  qed
  from this [of x k y j] this [of y j x k] assms show ?thesis by (auto simp: not_less)
qed

lemma mpbq_normalize_val:
  assumes "mpz_wf (bq_num a)" "bq_k a < 2 ^ 32"
  shows "mpbq_ok (mpbq_normalize a)" "mpbq_val (mpbq_normalize a) = mpbq_val a"
    "bq_k (mpbq_normalize a) \<le> bq_k a"
proof -
  have "mpbq_ok (mpbq_normalize a) \<and> mpbq_val (mpbq_normalize a) = mpbq_val a \<and> bq_k (mpbq_normalize a) \<le> bq_k a"
  proof (cases "bq_k a = 0 \<or> mpz_val (bq_num a) = 0")
    case True
    then show ?thesis using assms by (auto simp: mpbq_normalize_def mpbq_ok_def mpbq_val_def)
  next
    case False
    let ?p = "mpz_power_of_two_multiple (bq_num a)" and ?k = "bq_k a"
    let ?m = "min ?p ?k"
    obtain w where w: "mpz_val (bq_num a) = 2 ^ ?p * w" "odd w"
      using mpz_power_of_two_multiple_val [of "bq_num a"] False assms(1) by auto
    have p: "(2 :: int) ^ ?p = 2 ^ ?m * 2 ^ (?p - ?m)" by (rule pow2_diff) simp
    then have "2 ^ ?m dvd mpz_val (bq_num a)" using w(1) by simp
    then have q: "mpz_val (bq_num a) sdiv 2 ^ ?m = 2 ^ (?p - ?m) * w"
      using w(1) p by (simp add: sdiv_dvd mult.assoc)
    have n: "mpbq_normalize a = \<lparr>bq_num = mpz_machine_div2k (bq_num a) ?m, bq_k = ?k - ?m\<rparr>"
      using False assms(1) by (auto simp: mpbq_normalize_def Let_def min_def)
    have "?k - ?m = 0 \<or> odd (2 ^ (?p - ?m) * w)" using w(2) by (auto simp: min_def)
    moreover have "mpbq_val (mpbq_normalize a) = mpbq_val a"
      using n q assms(1) w(1) p unfolding mpbq_val_def
      by (simp only: mpbq.simps mpz_wf_ok mpz_machine_div2k_val dyadic_eq)
        (simp add: pow2_diff [of ?m ?k, where 'a = int] algebra_simps)
    ultimately show ?thesis using n q assms by (simp add: mpbq_ok_def)
  qed
  then show "mpbq_ok (mpbq_normalize a)" "mpbq_val (mpbq_normalize a) = mpbq_val a"
    "bq_k (mpbq_normalize a) \<le> bq_k a" by blast+
qed

lemma normalize_pair [simp]:
  assumes "mpz_wf n" "k < 2 ^ 32"
  shows "mpbq_ok (mpbq_normalize \<lparr>bq_num = n, bq_k = k\<rparr>)"
    "mpbq_val (mpbq_normalize \<lparr>bq_num = n, bq_k = k\<rparr>) = of_int (mpz_val n) / 2 ^ k"
  using mpbq_normalize_val [of "\<lparr>bq_num = n, bq_k = k\<rparr>"] assms by (simp_all add: mpbq_val_def)

lemma mpbq_set_val [simp]:
  assumes "mpz_wf n" "k < 2 ^ 32"
  shows "mpbq_ok (mpbq_set_zk n k)" "mpbq_val (mpbq_set_zk n k) = of_int (mpz_val n) / 2 ^ k"
  using assms by (simp_all add: mpbq_set_zk_def)

lemma mpbq_of_z_val [simp]: "mpbq_val (mpbq_of_z n) = of_int (mpz_val n)" "mpz_wf n \<Longrightarrow> mpbq_ok (mpbq_of_z n)"
  by (simp_all add: mpbq_of_z_def mpbq_ok_def mpbq_val_def)

section \<open>The group operations\<close>

lemma dyadic_common: "j \<le> k \<Longrightarrow> (of_int x :: rat) / 2 ^ j = of_int (x * 2 ^ (k - j)) / 2 ^ k"
  using dyadic_extend [of x j "k - j"] by simp

lemma mpbq_add_sub_val [simp]:
  assumes "mpbq_ok a" "mpbq_ok b"
  shows "mpbq_ok (mpbq_add a b)" "mpbq_val (mpbq_add a b) = mpbq_val a + mpbq_val b"
    "mpbq_ok (mpbq_sub a b)" "mpbq_val (mpbq_sub a b) = mpbq_val a - mpbq_val b"
proof -
  note A = mpbq_okD [OF assms(1)] and B = mpbq_okD [OF assms(2)]
  show "mpbq_ok (mpbq_add a b)" "mpbq_ok (mpbq_sub a b)"
    using A(1-3) B(1-3) by (simp_all add: mpbq_add_def mpbq_sub_def)
  have "mpbq_val (mpbq_add a b) = mpbq_val a + mpbq_val b \<and> mpbq_val (mpbq_sub a b) = mpbq_val a - mpbq_val b"
  proof (cases "bq_k a" "bq_k b" rule: linorder_cases)
    case less
    then have "mpbq_val a = of_int (mpz_val (bq_num a) * 2 ^ (bq_k b - bq_k a)) / 2 ^ bq_k b"
      unfolding mpbq_val_def by (intro dyadic_common) simp
    then show ?thesis using less A(1-3) B(1-3)
      by (simp add: mpbq_add_def mpbq_sub_def mpbq_val_def [of b] add_divide_distrib diff_divide_distrib)
  next
    case equal
    then show ?thesis using A(1-3) B(1-3)
      by (simp add: mpbq_add_def mpbq_sub_def mpbq_val_def [of a] mpbq_val_def [of b] add_divide_distrib diff_divide_distrib)
  next
    case greater
    then have "mpbq_val b = of_int (mpz_val (bq_num b) * 2 ^ (bq_k a - bq_k b)) / 2 ^ bq_k a"
      unfolding mpbq_val_def by (intro dyadic_common) simp
    then show ?thesis using greater A(1-3) B(1-3)
      by (simp add: mpbq_add_def mpbq_sub_def mpbq_val_def [of a] add_divide_distrib diff_divide_distrib)
  qed
  then show "mpbq_val (mpbq_add a b) = mpbq_val a + mpbq_val b" "mpbq_val (mpbq_sub a b) = mpbq_val a - mpbq_val b"
    by blast+
qed

lemma mpbq_neg_val [simp]:
  assumes "mpbq_ok a"
  shows "mpbq_ok (mpbq_neg a)" "mpbq_val (mpbq_neg a) = - mpbq_val a"
  using mpbq_okD [OF assms] by (simp_all add: mpbq_neg_def mpbq_ok_def mpbq_val_def)

lemma mpbq_z_val [simp]:
  assumes "mpbq_ok a" "mpz_wf b"
  shows "mpbq_ok (mpbq_add_z a b)" "mpbq_val (mpbq_add_z a b) = mpbq_val a + of_int (mpz_val b)"
    "mpbq_ok (mpbq_sub_z a b)" "mpbq_val (mpbq_sub_z a b) = mpbq_val a - of_int (mpz_val b)"
    "mpbq_ok (mpbq_mul_z a b)" "mpbq_val (mpbq_mul_z a b) = mpbq_val a * of_int (mpz_val b)"
  unfolding mpbq_val_def [of a] using mpbq_okD(1-3) [OF assms(1)] assms(2)
  by (simp_all add: mpbq_add_z_def mpbq_sub_z_def mpbq_mul_z_def add_divide_distrib diff_divide_distrib)

section \<open>Products and powers\<close>

lemma mpbq_update: "(x :: mpbq)\<lparr>bq_num := n, bq_k := k\<rparr> = \<lparr>bq_num = n, bq_k = k\<rparr>"
    "bq_k (x\<lparr>bq_num := n\<rparr>) = bq_k x"
  by simp_all

lemma mpbq_mul_at_cell:
  assumes "bq_k (\<sigma> a) + bq_k (\<sigma> b) < 2 ^ 32"
  defines "p \<equiv> \<lparr>bq_num = mpz_mul (bq_num (\<sigma> a)) (bq_num (\<sigma> b)), bq_k = bq_k (\<sigma> a) + bq_k (\<sigma> b)\<rparr>"
  shows "mpbq_mul_at a b r \<sigma> = \<sigma>(r :=
    if (if r = a then bq_k p else bq_k (\<sigma> a)) = 0 \<or> (if r = b then bq_k p else bq_k (\<sigma> b)) = 0
    then mpbq_normalize p else p)"
proof -
  have k: "wrap_u32 (bq_k (\<sigma> a) + bq_k (\<sigma> b)) = bq_k (\<sigma> a) + bq_k (\<sigma> b)" using assms(1) by simp
  have "mpbq_mul_at a b r \<sigma> = (let \<tau> = \<sigma>(r := p) in
      if bq_k (\<tau> a) = 0 \<or> bq_k (\<tau> b) = 0 then \<tau>(r := mpbq_normalize (\<tau> r)) else \<tau>)"
    unfolding mpbq_mul_at_def Let_def p_def
    using k by (cases "a = r"; cases "b = r"; simp only: fun_upd_same fun_upd_other fun_upd_upd mpbq.simps k not_False_eq_True mpbq.update_convs mpbq_update)
  then show ?thesis by (simp add: Let_def)
qed

text \<open>The product of two cells is written with the right value, whatever the aliasing, as long as the
  sum of the exponents does not wrap around.\<close>

lemma mpbq_mul_at_val:
  assumes "mpbq_ok (\<sigma> a)" "mpbq_ok (\<sigma> b)" "bq_k (\<sigma> a) + bq_k (\<sigma> b) < 2 ^ 32"
  shows "mpbq_val (mpbq_mul_at a b r \<sigma> r) = mpbq_val (\<sigma> a) * mpbq_val (\<sigma> b)"
    "mpz_wf (bq_num (mpbq_mul_at a b r \<sigma> r))" "bq_k (mpbq_mul_at a b r \<sigma> r) < 2 ^ 32"
    "i \<noteq> r \<Longrightarrow> mpbq_mul_at a b r \<sigma> i = \<sigma> i"
proof -
  note A = mpbq_okD [OF assms(1)] and B = mpbq_okD [OF assms(2)]
  let ?p = "\<lparr>bq_num = mpz_mul (bq_num (\<sigma> a)) (bq_num (\<sigma> b)), bq_k = bq_k (\<sigma> a) + bq_k (\<sigma> b)\<rparr>"
  have "mpbq_mul_at a b r \<sigma> r = ?p \<or> mpbq_mul_at a b r \<sigma> r = mpbq_normalize ?p"
    using mpbq_mul_at_cell [OF assms(3), of r] by simp
  moreover have "mpbq_ok (mpbq_normalize ?p)" "mpbq_val (mpbq_normalize ?p) = mpbq_val ?p"
    using A B assms(3) mpbq_normalize_val [of ?p] by simp_all
  moreover have "mpbq_val ?p = mpbq_val (\<sigma> a) * mpbq_val (\<sigma> b)"
    using A B by (simp add: mpbq_val_def power_add)
  ultimately show "mpbq_val (mpbq_mul_at a b r \<sigma> r) = mpbq_val (\<sigma> a) * mpbq_val (\<sigma> b)"
    "mpz_wf (bq_num (mpbq_mul_at a b r \<sigma> r))" "bq_k (mpbq_mul_at a b r \<sigma> r) < 2 ^ 32"
    using A B assms(3) mpbq_okD by (auto simp del: normalize_pair)
  show "i \<noteq> r \<Longrightarrow> mpbq_mul_at a b r \<sigma> i = \<sigma> i" by (simp add: mpbq_mul_at_def Let_def)
qed

text \<open>The result is normalized unless it overwrites an even integer that is multiplied by a proper
  fraction.\<close>

lemma mpbq_mul_at_ok:
  assumes "mpbq_ok (\<sigma> a)" "mpbq_ok (\<sigma> b)" "bq_k (\<sigma> a) + bq_k (\<sigma> b) < 2 ^ 32"
  shows "mpbq_ok (mpbq_mul_at a b r \<sigma> r) \<longleftrightarrow>
    \<not> (r = a \<and> bq_k (\<sigma> a) = 0 \<and> 0 < bq_k (\<sigma> b) \<and> even (mpz_val (bq_num (\<sigma> a))))
    \<and> \<not> (r = b \<and> bq_k (\<sigma> b) = 0 \<and> 0 < bq_k (\<sigma> a) \<and> even (mpz_val (bq_num (\<sigma> b))))"
proof -
  note A = mpbq_okD [OF assms(1)] and B = mpbq_okD [OF assms(2)]
  let ?p = "\<lparr>bq_num = mpz_mul (bq_num (\<sigma> a)) (bq_num (\<sigma> b)), bq_k = bq_k (\<sigma> a) + bq_k (\<sigma> b)\<rparr>"
  have n: "mpbq_ok (mpbq_normalize ?p)" using A B assms(3) by simp
  have p: "mpbq_ok ?p \<longleftrightarrow> bq_k ?p = 0 \<or> odd (mpz_val (bq_num (\<sigma> a)) * mpz_val (bq_num (\<sigma> b)))"
    using A B assms(3) by (simp add: mpbq_ok_def)
  have "mpbq_mul_at a b r \<sigma> r =
      (if (if r = a then bq_k ?p else bq_k (\<sigma> a)) = 0 \<or> (if r = b then bq_k ?p else bq_k (\<sigma> b)) = 0
       then mpbq_normalize ?p else ?p)"
    using mpbq_mul_at_cell [OF assms(3), of r] by simp
  then show ?thesis using n p A(4) B(4) by (auto split: if_splits simp del: normalize_pair)
qed

lemma mpbq_mul_val [simp]:
  assumes "mpbq_ok a" "mpbq_ok b" "bq_k a + bq_k b < 2 ^ 32"
  shows "mpbq_ok (mpbq_mul a b)" "mpbq_val (mpbq_mul a b) = mpbq_val a * mpbq_val b"
  using mpbq_mul_at_val(1) [of "\<lambda>i. if i = 0 then a else b" 0 1 2] mpbq_mul_at_ok [of "\<lambda>i. if i = 0 then a else b" 0 1 2] assms
  by (simp_all add: mpbq_mul_def)

lemma mpbq_addmul_val:
  assumes "mpbq_ok a" "mpbq_ok b" "mpbq_ok c" "bq_k b + bq_k c < 2 ^ 32" "mpz_wf z"
  shows "mpbq_ok (mpbq_addmul a b c)" "mpbq_val (mpbq_addmul a b c) = mpbq_val a + mpbq_val b * mpbq_val c"
    "mpbq_ok (mpbq_addmul_z a z c)" "mpbq_val (mpbq_addmul_z a z c) = mpbq_val a + of_int (mpz_val z) * mpbq_val c"
  using assms by (simp_all add: mpbq_addmul_def mpbq_addmul_z_def mult.commute)

lemma mpbq_div2k_val [simp]:
  assumes "mpbq_ok a" "bq_k a + k < 2 ^ 32"
  shows "mpbq_ok (mpbq_div2k a k)" "mpbq_val (mpbq_div2k a k) = mpbq_val a / 2 ^ k"
  using mpbq_okD [OF assms(1)] assms(2) mpbq_normalize_val(1,2) [of "a\<lparr>bq_k := k\<rparr>"]
  by (auto simp: mpbq_div2k_def Let_def mpbq_ok_def mpbq_val_def power_add)

lemma mpbq_div2_div2k: "mpbq_div2 a = mpbq_div2k a 1"
  by (simp add: mpbq_div2_def mpbq_div2k_def)

lemma mpbq_mul2k_val [simp]:
  assumes "mpbq_ok a"
  shows "mpbq_ok (mpbq_mul2k a k)" "mpbq_val (mpbq_mul2k a k) = mpbq_val a * 2 ^ k"
proof -
  note A = mpbq_okD [OF assms]
  have "mpbq_val (mpbq_mul2k a k) = mpbq_val a * 2 ^ k"
  proof (cases "bq_k a < k")
    case True
    then have "(2 :: rat) ^ (k - bq_k a) = 2 ^ k / 2 ^ bq_k a" by (simp add: power_diff)
    then show ?thesis using True A by (simp add: mpbq_mul2k_def mpbq_val_def)
  next
    case False
    then show ?thesis using A by (simp add: mpbq_mul2k_def mpbq_val_def power_diff)
  qed
  then show "mpbq_val (mpbq_mul2k a k) = mpbq_val a * 2 ^ k" .
  show "mpbq_ok (mpbq_mul2k a k)"
    using A assms by (cases "bq_k a < k") (auto simp: mpbq_mul2k_def mpbq_ok_def)
qed

lemma mpbq_mul2_mul2k: "mpbq_mul2 a = mpbq_mul2k a 1"
  by (cases "bq_k a") (auto simp: mpbq_mul2_def mpbq_mul2k_def)

lemma mpbq_power_yields:
  assumes "mpbq_ok a" "unat k < 2 ^ 31" "mpbq_val a \<noteq> 0 \<or> k \<noteq> 0" "bq_k a * unat k < 2 ^ 32"
  shows "yields (mpbq_power a k) (\<lambda>b. mpbq_ok b \<and> mpbq_val b = mpbq_val a ^ unat k)"
proof -
  note A = mpbq_okD [OF assms(1)]
  have "mpz_val (bq_num a) \<noteq> 0 \<or> k \<noteq> 0" using assms(3) by (auto simp: mpbq_val_def)
  then obtain b where b: "mpz_power (bq_num a) k = Inr b" "mpz_wf b" "mpz_val b = mpz_val (bq_num a) ^ unat k"
    using mpz_power_val [OF A(2) assms(2)] A(1) by auto
  then show ?thesis using A(4) assms(4) by (auto simp: mpbq_power_def mpbq_ok_def mpbq_val_def power_divide power_mult)
qed

section \<open>Comparison\<close>

lemma mpbq_sign_tests [simp]:
  assumes "mpbq_ok a"
  shows "mpbq_is_zero a \<longleftrightarrow> mpbq_val a = 0" "mpbq_is_pos a \<longleftrightarrow> 0 < mpbq_val a" "mpbq_is_neg a \<longleftrightarrow> mpbq_val a < 0"
    "mpbq_is_nonpos a \<longleftrightarrow> mpbq_val a \<le> 0" "mpbq_is_nonneg a \<longleftrightarrow> 0 \<le> mpbq_val a"
proof -
  have "\<not> (2 :: rat) ^ bq_k a \<le> 0" by (simp add: not_le)
  then show "mpbq_is_zero a \<longleftrightarrow> mpbq_val a = 0" "mpbq_is_pos a \<longleftrightarrow> 0 < mpbq_val a" "mpbq_is_neg a \<longleftrightarrow> mpbq_val a < 0"
      "mpbq_is_nonpos a \<longleftrightarrow> mpbq_val a \<le> 0" "mpbq_is_nonneg a \<longleftrightarrow> 0 \<le> mpbq_val a"
    using mpbq_okD(1,2) [OF assms]
    by (simp_all add: mpbq_is_zero_def mpbq_is_pos_def mpbq_is_neg_def mpbq_is_nonpos_def mpbq_is_nonneg_def
      mpbq_val_def zero_less_divide_iff divide_less_0_iff zero_le_divide_iff divide_le_0_iff)
qed

lemma mpbq_eq_val:
  assumes "mpbq_ok a" "mpbq_ok b"
  shows "mpbq_eq a b \<longleftrightarrow> mpbq_val a = mpbq_val b"
proof
  assume "mpbq_val a = mpbq_val b"
  then have "mpz_val (bq_num a) * 2 ^ bq_k b = mpz_val (bq_num b) * 2 ^ bq_k a"
    by (simp add: mpbq_val_def dyadic_eq)
  from dyadic_lowest [OF this mpbq_okD(4) [OF assms(1)] mpbq_okD(4) [OF assms(2)]]
  show "mpbq_eq a b" using mpbq_okD(2) [OF assms(1)] mpbq_okD(2) [OF assms(2)] by (simp add: mpbq_eq_def)
qed (use mpbq_okD(2) [OF assms(1)] mpbq_okD(2) [OF assms(2)] in \<open>simp add: mpbq_eq_def mpbq_val_def\<close>)

lemma mpbq_lt_val:
  assumes "mpbq_ok a" "mpbq_ok b"
  shows "mpbq_lt a b \<longleftrightarrow> mpbq_val a < mpbq_val b"
proof -
  note A = mpbq_okD [OF assms(1)] and B = mpbq_okD [OF assms(2)]
  have scale: "x * 2 ^ k < y * 2 ^ j \<longleftrightarrow> x * 2 ^ (k - j) < y" "x * 2 ^ j < y * 2 ^ k \<longleftrightarrow> x < y * 2 ^ (k - j)"
    if "j < k" for x y :: int and j k :: nat
  proof -
    have "(2 :: int) ^ k = 2 ^ (k - j) * 2 ^ j" using that by (simp flip: power_add)
    then show "x * 2 ^ k < y * 2 ^ j \<longleftrightarrow> x * 2 ^ (k - j) < y" "x * 2 ^ j < y * 2 ^ k \<longleftrightarrow> x < y * 2 ^ (k - j)"
      by (simp_all add: mult.assoc [symmetric])
  qed
  show ?thesis
    using A B scale [of "bq_k a" "bq_k b"] scale [of "bq_k b" "bq_k a"]
    by (cases "bq_k a" "bq_k b" rule: linorder_cases) (simp_all add: mpbq_lt_def mpbq_val_def dyadic_less)
qed

lemma mpbq_compare_val [simp]:
  assumes "mpbq_ok a" "mpbq_ok b"
  shows "mpbq_eq a b \<longleftrightarrow> mpbq_val a = mpbq_val b" "mpbq_lt a b \<longleftrightarrow> mpbq_val a < mpbq_val b"
    "mpbq_neq a b \<longleftrightarrow> mpbq_val a \<noteq> mpbq_val b" "mpbq_gt a b \<longleftrightarrow> mpbq_val b < mpbq_val a"
    "mpbq_le a b \<longleftrightarrow> mpbq_val a \<le> mpbq_val b" "mpbq_ge a b \<longleftrightarrow> mpbq_val b \<le> mpbq_val a"
  using assms by (auto simp: mpbq_eq_val mpbq_lt_val mpbq_neq_def mpbq_gt_def mpbq_le_def mpbq_ge_def)

interpretation mpbq_num: numeral_order mpbq_ok mpbq_val "\<lambda>a b. Inr (mpbq_add a b)" "\<lambda>a b. Inr (mpbq_sub a b)"
  mpbq_neg mpbq_eq mpbq_lt
  by unfold_locales simp_all

text \<open>Comparison with rationals: the cross products.\<close>

lemma dyadic_vs_fraction:
  assumes "0 < d"
  shows "(of_int x :: rat) / 2 ^ k < of_int n / of_int d \<longleftrightarrow> x * d < n * 2 ^ k"
    "(of_int x :: rat) / 2 ^ k \<le> of_int n / of_int d \<longleftrightarrow> x * d \<le> n * 2 ^ k"
    "(of_int x :: rat) / 2 ^ k = of_int n / of_int d \<longleftrightarrow> n * 2 ^ k = x * d"
proof -
  have "(of_int x :: rat) / 2 ^ k < of_int n / of_int d \<longleftrightarrow> (of_int (x * d) :: rat) < of_int (n * 2 ^ k)"
    "(of_int x :: rat) / 2 ^ k \<le> of_int n / of_int d \<longleftrightarrow> (of_int (x * d) :: rat) \<le> of_int (n * 2 ^ k)"
    "(of_int x :: rat) / 2 ^ k = of_int n / of_int d \<longleftrightarrow> (of_int (n * 2 ^ k) :: rat) = of_int (x * d)"
    using assms by (auto simp: field_simps)
  then show "(of_int x :: rat) / 2 ^ k < of_int n / of_int d \<longleftrightarrow> x * d < n * 2 ^ k"
    "(of_int x :: rat) / 2 ^ k \<le> of_int n / of_int d \<longleftrightarrow> x * d \<le> n * 2 ^ k"
    "(of_int x :: rat) / 2 ^ k = of_int n / of_int d \<longleftrightarrow> n * 2 ^ k = x * d"
    by (simp_all only: of_int_less_iff of_int_le_iff of_int_eq_iff)
qed

lemma mpbq_compare_q [simp]:
  assumes "mpbq_ok a" "mpq_ok b"
  shows "mpbq_eq_q a b \<longleftrightarrow> mpbq_val a = mpq_val b" "mpbq_lt_q a b \<longleftrightarrow> mpbq_val a < mpq_val b"
    "mpbq_le_q a b \<longleftrightarrow> mpbq_val a \<le> mpq_val b" "mpbq_gt_q a b \<longleftrightarrow> mpq_val b < mpbq_val a"
    "mpbq_ge_q a b \<longleftrightarrow> mpq_val b \<le> mpbq_val a"
proof -
  note A = mpbq_okD [OF assms(1)] and B = mpq_okD [OF assms(2)]
  note cross = dyadic_vs_fraction [OF B(5), of "mpz_val (bq_num a)" "bq_k a" "mpz_val (m_num b)"]
  show eq: "mpbq_eq_q a b \<longleftrightarrow> mpbq_val a = mpq_val b" and lt: "mpbq_lt_q a b \<longleftrightarrow> mpbq_val a < mpq_val b"
    and le: "mpbq_le_q a b \<longleftrightarrow> mpbq_val a \<le> mpq_val b"
    using A B cross
    by (auto simp: mpbq_eq_q_def mpbq_lt_q_def mpbq_le_q_def mpbq_is_int_def mpbq_val_def mpq_val_def)
  show "mpbq_gt_q a b \<longleftrightarrow> mpq_val b < mpbq_val a" "mpbq_ge_q a b \<longleftrightarrow> mpq_val b \<le> mpbq_val a"
    using lt le by (auto simp: mpbq_gt_q_def mpbq_ge_q_def)
qed

lemma mpbq_compare_z [simp]:
  assumes "mpbq_ok a" "mpz_ok b"
  shows "mpbq_eq_z a b \<longleftrightarrow> mpbq_val a = of_int (mpz_val b)" "mpbq_lt_z a b \<longleftrightarrow> mpbq_val a < of_int (mpz_val b)"
    "mpbq_le_z a b \<longleftrightarrow> mpbq_val a \<le> of_int (mpz_val b)"
proof -
  note A = mpbq_okD [OF assms(1)]
  note cross = dyadic_less [of "mpz_val (bq_num a)" "bq_k a" "mpz_val b" 0]
    dyadic_le [of "mpz_val (bq_num a)" "bq_k a" "mpz_val b" 0]
    dyadic_eq [of "mpz_val (bq_num a)" "bq_k a" "mpz_val b" 0]
  show "mpbq_lt_z a b \<longleftrightarrow> mpbq_val a < of_int (mpz_val b)" "mpbq_le_z a b \<longleftrightarrow> mpbq_val a \<le> of_int (mpz_val b)"
    using A assms(2) cross by (simp_all add: mpbq_lt_z_def mpbq_le_z_def mpbq_is_int_def mpbq_val_def)
  have "bq_k a = 0" if "mpz_val (bq_num a) = mpz_val b * 2 ^ bq_k a" using A(4) that by auto
  then show "mpbq_eq_z a b \<longleftrightarrow> mpbq_val a = of_int (mpz_val b)"
    using A assms(2) cross(3) by (auto simp: mpbq_eq_z_def mpbq_val_def)
qed

lemma mpbq_is_int_val:
  assumes "mpbq_ok a"
  shows "mpbq_is_int a \<longleftrightarrow> mpbq_val a \<in> \<int>"
proof
  assume "mpbq_val a \<in> \<int>"
  then obtain z where "mpbq_val a = of_int z" by (auto elim: Ints_cases)
  then have "mpz_val (bq_num a) = z * 2 ^ bq_k a"
    using dyadic_eq [of "mpz_val (bq_num a)" "bq_k a" z 0] by (simp add: mpbq_val_def)
  then show "mpbq_is_int a" using mpbq_okD(4) [OF assms] by (auto simp: mpbq_is_int_def)
qed (simp add: mpbq_is_int_def mpbq_val_def)

lemma lt_1div2k_val:
  assumes "mpbq_ok a"
  shows "lt_1div2k a k \<longleftrightarrow> mpbq_val a < 1 / 2 ^ k"
proof -
  note A = mpbq_okD [OF assms]
  let ?n = "mpz_val (bq_num a)" and ?j = "bq_k a"
  have cross: "mpbq_val a < 1 / 2 ^ k \<longleftrightarrow> ?n * 2 ^ k < 2 ^ ?j"
    using dyadic_less [of ?n ?j 1 k] by (simp add: mpbq_val_def)
  consider "?n \<le> 0" | "0 < ?n" "?j \<le> k" | "0 < ?n" "k < ?j" by linarith
  then show ?thesis
  proof cases
    case 1
    then have "?n * 2 ^ k \<le> 0" by (simp add: mult_nonpos_nonneg)
    moreover have "(0 :: int) < 2 ^ ?j" by simp
    ultimately have "?n * 2 ^ k < 2 ^ ?j" by (rule le_less_trans)
    then show ?thesis using 1 A cross by (simp add: lt_1div2k_def)
  next
    case 2
    then have "(2 :: int) ^ ?j \<le> 2 ^ k" by simp
    also have "\<dots> \<le> ?n * 2 ^ k" using 2(1) by simp
    finally show ?thesis using 2 A cross by (simp add: lt_1div2k_def)
  next
    case 3
    have "?n * 2 ^ k < 2 ^ ?j \<longleftrightarrow> ?n < 2 ^ (?j - k)"
      using pow2_diff [of k ?j, where 'a = int] 3(2) by (simp add: mult.commute [of "2 ^ k"])
    then show ?thesis using 3 A cross by (simp add: lt_1div2k_def int_limits)
  qed
qed

text \<open>\<open>magnitude_lb\<close> and \<open>magnitude_ub\<close>: the powers of two that enclose the number.\<close>

lemma pow2_int_diff: "(2 :: rat) powi (int m - int k) = 2 ^ m / 2 ^ k"
  by (simp add: power_int_diff power_int_of_nat)

lemma magnitude_val:
  assumes "mpbq_ok a" "mpz_bitsize (bq_num a) < 2 ^ 31" "bq_k a < 2 ^ 31"
  shows "0 < mpbq_val a \<Longrightarrow> 2 powi magnitude_lb a \<le> mpbq_val a \<and> mpbq_val a < 2 powi magnitude_ub a"
    "mpbq_val a < 0 \<Longrightarrow> - (2 powi magnitude_lb a) < mpbq_val a \<and> mpbq_val a \<le> - (2 powi magnitude_ub a)"
    "mpbq_val a = 0 \<Longrightarrow> magnitude_lb a = 0 \<and> magnitude_ub a = 0"
proof -
  note A = mpbq_okD [OF assms(1)]
  let ?n = "mpz_val (bq_num a)" and ?k = "bq_k a"
  have sgn: "0 < mpbq_val a \<longleftrightarrow> 0 < ?n" "mpbq_val a < 0 \<longleftrightarrow> ?n < 0" "mpbq_val a = 0 \<longleftrightarrow> ?n = 0"
    by (simp_all add: mpbq_val_def zero_less_divide_iff divide_less_0_iff)
  have wrap: "wrap_int (int l - int ?k) = int l - int ?k" "wrap_int (int l - int ?k + 1) = int (Suc l) - int ?k"
    if "l < 2 ^ 31 - 1" for l
    using that assms(3) wrap_int_id [of "int l - int ?k"] wrap_int_id [of "int l - int ?k + 1"]
    by (simp_all add: int_limits)
  have le: "(2 :: rat) ^ l / 2 ^ ?k \<le> of_int x / 2 ^ ?k" if "2 ^ l \<le> x" for l x
    using that of_int_le_iff [of "2 ^ l" x, where 'a = rat] by (simp add: divide_right_mono)
  have lt: "of_int x / 2 ^ ?k < (2 :: rat) ^ l / 2 ^ ?k" if "x < 2 ^ l" for l x
    using that of_int_less_iff [of x "2 ^ l", where 'a = rat] by (simp add: divide_strict_right_mono)
  show "2 powi magnitude_lb a \<le> mpbq_val a \<and> mpbq_val a < 2 powi magnitude_ub a" if "0 < mpbq_val a"
  proof -
    let ?l = "mpz_log2 (bq_num a)"
    have pos: "0 < ?n" using that sgn by simp
    then have "?l < 2 ^ 31 - 1" using assms(2) A(2) by (simp add: mpz_bitsize_def)
    then have "magnitude_lb a = int ?l - int ?k" "magnitude_ub a = int (Suc ?l) - int ?k"
      using wrap [of ?l] pos A(2) by (simp_all add: magnitude_lb_def magnitude_ub_def)
    then show ?thesis
      using le lt mpz_log2_val [OF A(2) pos] by (simp only: pow2_int_diff mpbq_val_def)
  qed
  show "- (2 powi magnitude_lb a) < mpbq_val a \<and> mpbq_val a \<le> - (2 powi magnitude_ub a)" if "mpbq_val a < 0"
  proof -
    let ?l = "mpz_mlog2 (bq_num a)"
    have neg: "?n < 0" using that sgn by simp
    then have "?l < 2 ^ 31 - 1" using assms(2) A(2) by (simp add: mpz_bitsize_def)
    then have "magnitude_ub a = int ?l - int ?k" "magnitude_lb a = int (Suc ?l) - int ?k"
      using wrap [of ?l] neg A(2) by (simp_all add: magnitude_lb_def magnitude_ub_def)
    moreover have "mpbq_val a = - (of_int (- ?n) / 2 ^ ?k)" by (simp add: mpbq_val_def)
    ultimately show ?thesis
      using le lt mpz_mlog2_val [OF A(2) neg] by (simp only: pow2_int_diff neg_less_iff_less neg_le_iff_le)
  qed
  show "magnitude_lb a = 0 \<and> magnitude_ub a = 0" if "mpbq_val a = 0"
    using that sgn A(2) by (simp add: magnitude_lb_def magnitude_ub_def)
qed

section \<open>Rounding\<close>

lemma mpbq_floor_ceil_val:
  assumes "mpbq_ok a"
  shows "mpz_wf (mpbq_floor a)" "mpz_val (mpbq_floor a) = \<lfloor>mpbq_val a\<rfloor>"
    "mpz_wf (mpbq_ceil a)" "mpz_val (mpbq_ceil a) = \<lceil>mpbq_val a\<rceil>"
proof -
  note A = mpbq_okD [OF assms]
  let ?n = "mpz_val (bq_num a)" and ?d = "2 ^ bq_k a :: int"
  have val: "mpbq_val a = of_int ?n / of_int ?d" by (simp add: mpbq_val_def)
  have sgn: "mpbq_val a < 0 \<longleftrightarrow> ?n < 0" "0 < mpbq_val a \<longleftrightarrow> 0 < ?n"
    by (simp_all add: mpbq_val_def zero_less_divide_iff divide_less_0_iff)
  have round: "?n div ?d = (if ?n < 0 then ?n sdiv ?d - 1 else ?n sdiv ?d)"
    "- ((- ?n) div ?d) = (if 0 < ?n then ?n sdiv ?d + 1 else ?n sdiv ?d)" if "bq_k a \<noteq> 0"
  proof -
    have "1 < ?d" using that by (intro one_less_power) simp_all
    moreover have "coprime ?n ?d" using that A(4) by (simp add: coprime_commute)
    ultimately show "?n div ?d = (if ?n < 0 then ?n sdiv ?d - 1 else ?n sdiv ?d)"
      "- ((- ?n) div ?d) = (if 0 < ?n then ?n sdiv ?d + 1 else ?n sdiv ?d)"
      using sdiv_round [of ?d ?n] by simp_all
  qed
  show "mpz_wf (mpbq_floor a)" "mpz_wf (mpbq_ceil a)"
    using A by (simp_all add: mpbq_floor_def mpbq_ceil_def Let_def)
  have fl: "\<lfloor>mpbq_val a\<rfloor> = ?n div ?d" and ce: "\<lceil>mpbq_val a\<rceil> = - ((- ?n) div ?d)"
    unfolding val by (rule floor_of_int_div ceiling_of_int_div, simp)+
  show "mpz_val (mpbq_floor a) = \<lfloor>mpbq_val a\<rfloor>"
    using A round(1) sgn assms unfolding fl by (simp add: mpbq_floor_def mpbq_is_int_def Let_def int_limits)
  show "mpz_val (mpbq_ceil a) = \<lceil>mpbq_val a\<rceil>"
    using A round(2) sgn assms unfolding ce by (simp add: mpbq_ceil_def mpbq_is_int_def Let_def int_limits)
qed

section \<open>Conversions\<close>

lemma power_of_two_mpz:
  assumes "k < 2 ^ 32"
  shows "\<exists>b. mpz_power (mk_z 2) (of_nat k) = Inr b \<and> mpz_wf b \<and> mpz_val b = 2 ^ k"
  using mpz_power_two [of "mk_z 2" "of_nat k"] assms by (simp add: unat_of_nat take_bit_eq_mod)

text \<open>\<open>to_mpbq\<close> succeeds on the rationals with a power of two as denominator. On the others it leaves
  the numerator over the next power of two, which is between half the number and the number.\<close>

lemma to_mpbq_val:
  assumes "mpq_ok q" "mpz_bitsize (m_den q) < 2 ^ 32" "to_mpbq q = (r, b)"
  shows "mpbq_ok b" "r \<longleftrightarrow> (\<exists>k. mpz_val (m_den q) = 2 ^ k)" "r \<Longrightarrow> mpbq_val b = mpq_val q"
    "\<not> r \<Longrightarrow> mpq_val q \<noteq> 0 \<Longrightarrow> \<bar>mpq_val q\<bar> / 2 < \<bar>mpbq_val b\<bar> \<and> \<bar>mpbq_val b\<bar> < \<bar>mpq_val q\<bar>"
    "sgn (mpbq_val b) = sgn (mpq_val q)"
proof -
  note Q = mpq_okD [OF assms(1)]
  let ?d = "mpz_val (m_den q)" and ?l = "mpz_log2 (m_den q)"
  have log: "2 ^ ?l \<le> ?d" "?d < 2 ^ Suc ?l" using mpz_log2_val [of "m_den q"] Q by auto
  have small: "?l + 1 < 2 ^ 32" using assms(2) Q by (simp add: mpz_bitsize_def)
  have pow: "mpz_is_power_of_two (m_den q) = Some k \<longleftrightarrow> ?d = 2 ^ k" for k
    using mpz_is_power_of_two_val Q by simp
  have kl: "k < 2 ^ 32" if "?d = 2 ^ k" for k using log2_unique [of ?l k] log that small by simp
  consider (one) "?d = 1" "r" "b = mpbq_of_z (m_num q)"
    | (two) k where "?d = 2 ^ k" "r" "b = mpbq_set_zk (m_num q) k"
    | (other) "\<nexists>k. ?d = 2 ^ k" "\<not> r" "b = mpbq_set_zk (m_num q) (?l + 1)"
    using assms(3) Q small pow by (fastforce simp: to_mpbq_def split: if_splits option.splits)
  note cases = this
  have real: "mpbq_ok b \<and> (if r then (\<exists>k. ?d = 2 ^ k) \<and> mpbq_val b = mpq_val q
      else (\<nexists>k. ?d = 2 ^ k) \<and> mpbq_val b = of_int (mpz_val (m_num q)) / 2 ^ Suc ?l)"
    using cases
  proof cases
    case one
    then show ?thesis using Q by (auto simp: mpq_val_def intro: exI [of _ 0])
  next
    case (two k)
    then show ?thesis using Q kl by (auto simp: mpq_val_def)
  next
    case other
    then show ?thesis using Q small by simp
  qed
  then show "mpbq_ok b" "r \<longleftrightarrow> (\<exists>k. ?d = 2 ^ k)" "r \<Longrightarrow> mpbq_val b = mpq_val q" by (auto split: if_splits)
  have d: "(of_int ?d :: rat) < 2 ^ Suc ?l" "0 < (of_int ?d :: rat)" 
    using log(2) Q(5) of_int_less_iff [of ?d "2 ^ Suc ?l", where 'a = rat] by simp_all
  show "sgn (mpbq_val b) = sgn (mpq_val q)"
    using real d(2) by (auto simp: mpq_val_def sgn_divide sgn_pos split: if_splits)
  show "\<bar>mpq_val q\<bar> / 2 < \<bar>mpbq_val b\<bar> \<and> \<bar>mpbq_val b\<bar> < \<bar>mpq_val q\<bar>" if "\<not> r" "mpq_val q \<noteq> 0"
  proof -
    have b: "mpbq_val b = of_int (mpz_val (m_num q)) / 2 ^ Suc ?l" and no: "\<nexists>k. ?d = 2 ^ k" using real that(1) by auto
    then have "2 ^ ?l < ?d" using log(1) by (metis order_le_less)
    then have lo: "(2 :: rat) ^ ?l < of_int ?d" using of_int_less_iff [of "2 ^ ?l" ?d, where 'a = rat] by simp
    have n: "0 < \<bar>of_int (mpz_val (m_num q)) :: rat\<bar>" using that(2) by (auto simp: mpq_val_def)
    have gap: "x / D / 2 < x / P \<and> x / P < x / D" if "0 < x" "D < P" "P < 2 * D" "0 < D" for x D P :: rat
      using that by (auto simp: divide_simps)
    have "\<bar>of_int ?d :: rat\<bar> = of_int ?d" "\<bar>2 ^ Suc ?l :: rat\<bar> = 2 ^ Suc ?l" using d(2) by simp_all
    then show ?thesis
      unfolding b mpq_val_def abs_divide using gap [OF n d(1) _ d(2)] lo by (simp only: power_Suc)
  qed
qed

lemma to_mpq_yields:
  assumes "mpbq_ok a" "bq_k a < 2 ^ 31"
  shows "yields (to_mpq a) (\<lambda>q. mpq_ok q \<and> mpq_val q = mpbq_val a)"
proof -
  note A = mpbq_okD [OF assms(1)]
  have u: "unat (of_nat (bq_k a) :: digit) = bq_k a" using A(3) by (simp add: unat_of_nat take_bit_eq_mod)
  have "yields (mpq_power (mk_q 2) (of_nat (bq_k a))) (\<lambda>t. mpq_ok t \<and> mpq_val t = 2 ^ bq_k a)"
    using mpq_power_yields [of "mk_q 2" "of_nat (bq_k a)"] assms(2) int_limits by (simp add: u)
  then show ?thesis
  proof (rule yieldsE)
    fix t assume t: "mpq_power (mk_q 2) (of_nat (bq_k a)) = Inr t" "mpq_ok t \<and> mpq_val t = 2 ^ bq_k a"
    show ?thesis
      using mpq_mul_zq_yields [OF A(1), of "mpq_inv t"] mpq_inv_val [of t] t
      by (auto simp: to_mpq_def mpbq_val_def divide_inverse elim!: yields_mono)
  qed
qed

section \<open>Approximation\<close>

text \<open>Both approximations truncate the absolute value to a multiple of \<open>1/2^k\<close> and step away from zero
  when the sign asks for it.\<close>

definition directed :: "bool \<Rightarrow> rat \<Rightarrow> rat \<Rightarrow> rat \<Rightarrow> bool" where
  "directed up e x y \<longleftrightarrow> (if up then x \<le> y \<and> y \<le> x + e else x - e \<le> y \<and> y \<le> x)"

lemma directed_round:
  fixes v :: rat and k :: nat and up :: bool
  defines "c \<equiv> \<lfloor>\<bar>v\<bar> * 2 ^ k\<rfloor>"
  defines "n \<equiv> (if (v < 0) \<noteq> up then c + 1 else c)"
  defines "r \<equiv> of_int (if v < 0 then - n else n) / 2 ^ k"
  shows "directed up (1 / 2 ^ k) v r" "\<bar>v\<bar> * 2 ^ k \<notin> \<int> \<Longrightarrow> r \<noteq> v"
proof -
  let ?p = "2 ^ k :: rat"
  have c: "of_int c \<le> \<bar>v\<bar> * ?p" "\<bar>v\<bar> * ?p < of_int c + 1" unfolding c_def by linarith+
  have scaled: "directed up (1 / ?p) v r \<longleftrightarrow> directed up 1 (v * ?p) (r * ?p)"
    by (simp add: directed_def divide_simps algebra_simps)
  have rp: "r * ?p = of_int (if v < 0 then - n else n)" by (simp add: r_def)
  show "directed up (1 / ?p) v r"
    unfolding scaled rp using c by (cases "v < 0"; cases up) (auto simp: directed_def n_def)
  show "r \<noteq> v" if "\<bar>v\<bar> * ?p \<notin> \<int>"
  proof
    assume "r = v"
    then have "\<bar>v\<bar> * ?p = of_int (if v < 0 then n else - n) \<or> \<bar>v\<bar> * ?p = of_int (if v < 0 then - n else n)
        \<or> \<bar>v\<bar> * ?p = of_int n"
      using rp by (auto simp: abs_if)
    then show False using that by auto
  qed
qed

lemma mpbq_approx_val:
  assumes "mpbq_ok a" "k < bq_k a"
  shows "mpbq_ok (mpbq_approx a k up)" "directed up (1 / 2 ^ k) (mpbq_val a) (mpbq_val (mpbq_approx a k up))"
    "mpbq_val (mpbq_approx a k up) \<noteq> mpbq_val a" "bq_k (mpbq_approx a k up) \<le> k"
proof -
  note A = mpbq_okD [OF assms(1)]
  let ?n = "mpz_val (bq_num a)" and ?s = "bq_k a - k"
  define c where "c = \<lfloor>\<bar>mpbq_val a\<bar> * 2 ^ k\<rfloor>"
  have k: "k < 2 ^ 32" using A(3) assms(2) by simp
  have sgn: "mpbq_val a < 0 \<longleftrightarrow> ?n < 0" by (simp add: mpbq_val_def divide_less_0_iff)
  have w: "\<bar>mpbq_val a\<bar> * 2 ^ k = of_int \<bar>?n\<bar> / of_int (2 ^ ?s)"
    using pow2_diff [of k "bq_k a", where 'a = rat] assms(2) by (simp add: mpbq_val_def abs_divide)
  have "\<bar>?n\<bar> div 2 ^ ?s = c" unfolding c_def w by (rule floor_of_int_div [symmetric]) simp
  then have quot: "\<bar>?n\<bar> sdiv 2 ^ ?s = c" by (simp add: sdiv_nonneg)
  have not_int: "\<bar>mpbq_val a\<bar> * 2 ^ k \<notin> \<int>"
  proof
    assume "\<bar>mpbq_val a\<bar> * 2 ^ k \<in> \<int>"
    then obtain z where "of_int \<bar>?n\<bar> / of_int (2 ^ ?s) = (of_int z :: rat)" unfolding w by (auto elim: Ints_cases)
    then have "of_int \<bar>?n\<bar> = (of_int (z * 2 ^ ?s) :: rat)" by (simp add: divide_simps split: if_splits)
    then have "\<bar>?n\<bar> = z * 2 ^ ?s" by (simp only: of_int_eq_iff)
    then have "even \<bar>?n\<bar>" using assms(2) by simp
    then show False using A(4) assms(2) by simp
  qed
  define n where "n = (if (mpbq_val a < 0) \<noteq> up then c + 1 else c)"
  define m where "m = (let q = mpz_machine_div2k (mpz_abs (bq_num a)) ?s; q = (if (?n < 0) \<noteq> up then mpz_inc q else q)
    in if ?n < 0 then mpz_neg q else q)"
  have m: "mpz_wf m" "mpz_val m = (if mpbq_val a < 0 then - n else n)"
    using A(1) quot by (auto simp: m_def n_def Let_def sgn)
  have eq: "mpbq_approx a k up = mpbq_normalize \<lparr>bq_num = m, bq_k = k\<rparr>"
    using A(2) assms(2) by (simp add: mpbq_approx_def m_def Let_def)
  note dr = directed_round [where v = "mpbq_val a" and k = k and up = up, folded c_def, folded n_def]
  show "mpbq_ok (mpbq_approx a k up)" "directed up (1 / 2 ^ k) (mpbq_val a) (mpbq_val (mpbq_approx a k up))"
    "mpbq_val (mpbq_approx a k up) \<noteq> mpbq_val a"
    unfolding eq using m k dr(1) dr(2) [OF not_int] by simp_all
  show "bq_k (mpbq_approx a k up) \<le> k"
    unfolding eq using mpbq_normalize_val(3) [of "\<lparr>bq_num = m, bq_k = k\<rparr>"] m(1) k by simp
qed

text \<open>The third branch of \<open>approx_div\<close>: the quotient of the scaled numerators is the truncated quotient.\<close>

lemma approx_quotient:
  assumes "0 < (y :: int)" "0 \<le> x"
  shows "(x * 2 ^ (k + bk - ak)) div 2 ^ (ak - bk - k) div y = \<lfloor>of_int x / 2 ^ ak / (of_int y / 2 ^ bk) * 2 ^ k :: rat\<rfloor>"
proof -
  let ?p = "k + bk - ak" and ?t = "ak - bk - k"
  have "(2 :: rat) ^ (k + bk) * 2 ^ ?t = 2 ^ ?p * 2 ^ ak" by (simp flip: power_add)
  then have "(of_int x / 2 ^ ak / (of_int y / 2 ^ bk) * 2 ^ k :: rat) = of_int (x * 2 ^ ?p) / of_int (2 ^ ?t * y)"
    using assms(1) by (simp add: divide_simps power_add mult_ac)
  then have "\<lfloor>of_int x / 2 ^ ak / (of_int y / 2 ^ bk) * 2 ^ k :: rat\<rfloor> = (x * 2 ^ ?p) div (2 ^ ?t * y)"
    using assms(1) floor_of_int_div [of "2 ^ ?t * y" "x * 2 ^ ?p"] by simp
  moreover have "(x * 2 ^ ?p) div (2 ^ ?t * y) = (x * 2 ^ ?p) div 2 ^ ?t div y"
    using assms(1) by (intro zdiv_zmult2_eq) simp
  ultimately show ?thesis by (simp only:)
qed

lemma mpz_is_power_of_two_None:
  assumes "mpz_ok a"
  shows "mpz_is_power_of_two a = None \<longleftrightarrow> (\<nexists>k. mpz_val a = 2 ^ k)"
  using mpz_is_power_of_two_val [OF assms] by (cases "mpz_is_power_of_two a") auto

lemma approx_div_exact:
  assumes "mpbq_ok a" "mpbq_ok b" "mpbq_val b \<noteq> 0" "bq_k a + mpz_bitsize (bq_num b) < 2 ^ 32"
    and "mpz_val (bq_num b) dvd mpz_val (bq_num a) \<or> (\<exists>k'. mpz_val (bq_num b) = 2 ^ k')"
  shows "yields (approx_div a b k up) (\<lambda>c. mpbq_ok c \<and> mpbq_val c = mpbq_val a / mpbq_val b)"
proof -
  note A = mpbq_okD [OF assms(1)] and B = mpbq_okD [OF assms(2)]
  let ?na = "mpz_val (bq_num a)" and ?nb = "mpz_val (bq_num b)"
  have nb: "?nb \<noteq> 0" using assms(3) by (auto simp: mpbq_val_def)
  have pow: "mpz_is_power_of_two (bq_num b) = Some k' \<longleftrightarrow> ?nb = 2 ^ k'" for k'
    using mpz_is_power_of_two_val B(2) by simp
  show ?thesis
  proof (cases "\<exists>k'. ?nb = 2 ^ k'")
    case True
    then obtain k' where k': "?nb = 2 ^ k'" by blast
    have "(2 :: int) ^ k' < 2 ^ mpz_bitsize (bq_num b)" using mpz_bitsize_val(2) [OF B(2) nb] k' by simp
    then have "k' < mpz_bitsize (bq_num b)" by simp
    then have w: "bq_k a + k' < 2 ^ 32" using assms(4) by simp
    obtain pw where pw: "mpz_power (mk_z 2) (of_nat (bq_k b)) = Inr pw" "mpz_wf pw" "mpz_val pw = 2 ^ bq_k b"
      using power_of_two_mpz [OF B(3)] by blast
    have "mpbq_val a / mpbq_val b = of_int (?na * 2 ^ bq_k b) / 2 ^ (bq_k a + k')"
      by (simp add: mpbq_val_def k' power_add)
    moreover have "mpz_is_power_of_two (bq_num b) = Some k'" using pow k' by simp
    ultimately show ?thesis using w pw A by (auto simp: approx_div_def)
  next
    case False
    then have none: "mpz_is_power_of_two (bq_num b) = None" and dvd: "?nb dvd ?na"
      using mpz_is_power_of_two_None [OF B(2)] assms(5) by auto
    from dvd obtain q where q: "?na = ?nb * q" by (auto elim: dvdE)
    have div: "yields (mpz_div (bq_num a) (bq_num b)) (\<lambda>n. mpz_wf n \<and> mpz_val n = q)"
      using mpz_div_yields [OF A(1) B(1) nb] nonzero_mult_div_cancel_left [of "- ?nb" "- q"] q nb
      by (auto simp: ediv_def elim!: yields_mono split: if_splits)
    have val: "mpbq_val a / mpbq_val b = of_int q * 2 ^ bq_k b / 2 ^ bq_k a"
      using nb by (simp add: mpbq_val_def q)
    have "mpbq_val a / mpbq_val b = of_int q / 2 ^ (bq_k a - bq_k b)" if "bq_k b \<le> bq_k a"
      using that unfolding val by (simp add: power_diff)
    moreover have "mpbq_val a / mpbq_val b = of_int q * 2 ^ (bq_k b - bq_k a)" if "bq_k a < bq_k b"
      using that unfolding val by (simp add: power_diff)
    ultimately show ?thesis
      using none dvd div A B mpz_divides_val [OF B(2) A(2)]
      by (auto simp: approx_div_def elim!: yields_mono)
  qed
qed

lemma approx_div_inexact:
  assumes "mpbq_ok a" "mpbq_ok b" "mpbq_val b \<noteq> 0" "k + bq_k b < 2 ^ 32"
    and "\<not> mpz_val (bq_num b) dvd mpz_val (bq_num a)" "\<nexists>k'. mpz_val (bq_num b) = 2 ^ k'"
  shows "yields (approx_div a b k up) (\<lambda>c. mpbq_ok c \<and> bq_k c \<le> k \<and> directed up (1 / 2 ^ k) (mpbq_val a / mpbq_val b) (mpbq_val c))"
proof -
  note A = mpbq_okD [OF assms(1)] and B = mpbq_okD [OF assms(2)]
  let ?na = "mpz_val (bq_num a)" and ?nb = "mpz_val (bq_num b)" and ?v = "mpbq_val a / mpbq_val b"
  let ?na' = "mpz_abs (bq_num a)" and ?nb' = "mpz_abs (bq_num b)"
  define norm where "norm = (if bq_k a > bq_k b then
      if k \<ge> bq_k a - bq_k b then mpz_mul2k ?na' (k - (bq_k a - bq_k b)) else mpz_machine_div2k ?na' (bq_k a - bq_k b - k)
    else mpz_mul2k ?na' (wrap_u32 (k + bq_k b - bq_k a)))"
  define c where "c = \<lfloor>\<bar>?v\<bar> * 2 ^ k\<rfloor>"
  have nz: "?nb \<noteq> 0" "?na \<noteq> 0" using assms(3,5) by (auto simp: mpbq_val_def)
  have va: "mpbq_val a \<noteq> 0" using nz(2) by (simp add: mpbq_val_def)
  have none: "mpz_is_power_of_two (bq_num b) = None"
    using mpz_is_power_of_two_None [OF B(2)] assms(6) by simp
  have k: "k < 2 ^ 32" "k + bq_k b - bq_k a < 2 ^ 32" using assms(4) by simp_all
  have sgn: "?v < 0 \<longleftrightarrow> (mpbq_val a < 0) \<noteq> (mpbq_val b < 0)"
    using va assms(3) by (auto simp: divide_less_0_iff)
  have norm: "mpz_wf norm" "mpz_val norm = \<bar>?na\<bar> * 2 ^ (k + bq_k b - bq_k a) div 2 ^ (bq_k a - bq_k b - k)"
    using A k by (auto simp: norm_def sdiv_nonneg)
  have w: "\<bar>?v\<bar> * 2 ^ k = of_int \<bar>?na\<bar> / 2 ^ bq_k a / (of_int \<bar>?nb\<bar> / 2 ^ bq_k b) * 2 ^ k"
    by (simp add: mpbq_val_def abs_divide abs_mult)
  have "mpz_val norm div \<bar>?nb\<bar> = c"
    unfolding c_def w norm(2) using nz(1) by (intro approx_quotient) simp_all
  then have "yields (mpz_div norm ?nb') (\<lambda>n. mpz_wf n \<and> mpz_val n = c)"
    using mpz_div_yields [OF norm(1), of ?nb'] B nz by (simp add: ediv_def)
  moreover have "approx_div a b k up = bind_res (mpz_div norm ?nb') (\<lambda>n.
      let n = (if (?v < 0) \<noteq> up then mpz_inc n else n); n = (if ?v < 0 then mpz_neg n else n)
      in Inr (mpbq_normalize \<lparr>bq_num = n, bq_k = k\<rparr>))"
    using none assms(5) mpz_divides_val [OF B(2) A(2)]
    unfolding approx_div_def Let_def norm_def sgn mpbq_sign_tests(3) [OF assms(1)] mpbq_sign_tests(3) [OF assms(2)]
    by simp
  moreover note directed_round(1) [where v = ?v and k = k and up = up, folded c_def]
  ultimately show ?thesis
    using k(1) mpbq_normalize_val(3) [of "\<lparr>bq_num = n, bq_k = k\<rparr>" for n]
    by (fastforce simp: Let_def elim!: yields_mono)
qed

section \<open>Roots\<close>

lemma factor_of_two_power: "q * r = 2 ^ k \<Longrightarrow> 0 < (q :: int) \<Longrightarrow> \<exists>j. q = 2 ^ j"
proof (induction k arbitrary: q r)
  case 0
  then show ?case by (intro exI [of _ 0]) (simp add: zmult_eq_1_iff)
next
  case (Suc k)
  then have "even (q * r)" by simp
  then consider q' where "q = 2 * q'" | r' where "r = 2 * r'" by auto
  then show ?case
  proof cases
    case (1 q')
    then have "q' * r = 2 ^ k" "0 < q'" using Suc.prems by simp_all
    from Suc.IH [OF this] obtain j where "q' = 2 ^ j" by blast
    then have "q = 2 ^ Suc j" using 1 by simp
    then show ?thesis by blast
  next
    case (2 r')
    then show ?thesis using Suc.IH [of q r'] Suc.prems by simp
  qed
qed

lemma dyadic_root_exists:
  assumes "mpbq_ok a" "0 < n"
  shows "(\<exists>x. mpbq_val a = x ^ n) \<longleftrightarrow> bq_k a mod n = 0 \<and> (\<exists>p. mpz_val (bq_num a) = p ^ n)"
proof
  assume "\<exists>x. mpbq_val a = x ^ n"
  then obtain x :: rat where "x ^ n = of_int (mpz_val (bq_num a)) / of_int (2 ^ bq_k a)" by (metis mpbq_val_def of_int_numeral of_int_power)
  moreover have "coprime (mpz_val (bq_num a)) (2 ^ bq_k a)"
    using mpbq_okD(4) [OF assms(1)] by (auto simp: coprime_commute)
  ultimately obtain p q where pq: "0 < q" "mpz_val (bq_num a) = p ^ n" "(2 :: int) ^ bq_k a = q ^ n"
    using rat_power_lowest [of "2 ^ bq_k a" _ x n] assms(2) by auto
  have "q * q ^ (n - 1) = 2 ^ bq_k a" using assms(2) pq(3) by (simp add: power_eq_if)
  from factor_of_two_power [OF this pq(1)] obtain j where "q = 2 ^ j" by blast
  then have "(2 :: int) ^ bq_k a = 2 ^ (j * n)" using pq(3) by (simp add: power_mult)
  then have "bq_k a = j * n" by simp
  then show "bq_k a mod n = 0 \<and> (\<exists>p. mpz_val (bq_num a) = p ^ n)" using pq(2) by auto
next
  assume "bq_k a mod n = 0 \<and> (\<exists>p. mpz_val (bq_num a) = p ^ n)"
  then obtain p where "bq_k a = bq_k a div n * n" "mpz_val (bq_num a) = p ^ n" by auto
  moreover define j where "j = bq_k a div n"
  ultimately have "bq_k a = j * n" "mpz_val (bq_num a) = p ^ n" by simp_all
  then have "mpbq_val a = (of_int p / 2 ^ j) ^ n" by (simp add: mpbq_val_def power_divide power_mult)
  then show "\<exists>x. mpbq_val a = x ^ n" by blast
qed

lemma dyadic_power: "((of_int y :: rat) / 2 ^ j) ^ n = of_int (y ^ n) / 2 ^ (j * n)"
  by (simp add: power_divide power_mult)

text \<open>Rounding the exponent of the denominator: a positive number shrinks and a negative one grows
  with a larger exponent.\<close>

lemma dyadic_exponent_less:
  assumes "j < k"
  shows "0 < y \<Longrightarrow> (of_int y :: rat) / 2 ^ k < of_int y / 2 ^ j" "y < 0 \<Longrightarrow> (of_int y :: rat) / 2 ^ j < of_int y / 2 ^ k"
proof -
  have "(2 :: int) ^ j < 2 ^ k" using assms by (intro power_strict_increasing) simp_all
  then show "0 < y \<Longrightarrow> (of_int y :: rat) / 2 ^ k < of_int y / 2 ^ j" "y < 0 \<Longrightarrow> (of_int y :: rat) / 2 ^ j < of_int y / 2 ^ k"
    unfolding dyadic_less by simp_all
qed

lemma dyadic_mono: "x \<le> y \<Longrightarrow> (of_int x :: rat) / 2 ^ k \<le> of_int y / 2 ^ k"
  by (simp add: divide_right_mono)

lemma exponent_bounds:
  assumes "k mod n \<noteq> 0" "0 < (n :: nat)"
  shows "k div n * n < k" "k < (k div n + 1) * n"
proof -
  have "k div n * n + k mod n = k" "k mod n < n" using assms by simp_all
  then show "k div n * n < k" "k < (k div n + 1) * n" using assms(1) unfolding distrib_right by linarith+
qed

definition root_result :: "(rat \<Rightarrow> rat \<Rightarrow> bool) \<Rightarrow> rat \<Rightarrow> nat \<Rightarrow> bool \<times> mpbq \<Rightarrow> bool" where
  "root_result bound x n = (\<lambda>(ex, b). mpbq_ok b \<and> (ex \<longleftrightarrow> (\<exists>y. x = y ^ n))
     \<and> (if ex then mpbq_val b ^ n = x else bound (mpbq_val b ^ n) x) \<and> (0 \<le> x \<longrightarrow> 0 \<le> mpbq_val b))"

text \<open>The integer root of the numerator, as both functions use it.\<close>

lemma numerator_root:
  assumes "mpbq_ok a" "0 < n" "n < 2 ^ 31" "odd n \<or> 0 \<le> mpbq_val a" "mpz_bitsize (bq_num a) < 2 ^ 32"
  obtains r x where "mpz_root (bq_num a) n = Inr (r, x)" "mpz_wf x" "r \<longleftrightarrow> (\<exists>p. mpz_val (bq_num a) = p ^ n)"
    "if r then mpz_val x ^ n = mpz_val (bq_num a)
     else (mpz_val x - 1) ^ n < mpz_val (bq_num a) \<and> mpz_val (bq_num a) < mpz_val x ^ n"
    "0 \<le> mpbq_val a \<longrightarrow> 0 \<le> mpz_val x \<and> (\<not> r \<longrightarrow> 1 \<le> mpz_val x)"
proof -
  note A = mpbq_okD [OF assms(1)]
  have sg: "0 \<le> mpbq_val a \<longleftrightarrow> 0 \<le> mpz_val (bq_num a)"
    using mpbq_sign_tests(5) [OF assms(1)] A(2) by (simp add: mpbq_is_nonneg_def)
  have sgn: "odd n \<or> 0 \<le> mpz_val (bq_num a)" using assms(4) sg by simp
  obtain r x where rx: "mpz_root (bq_num a) n = Inr (r, x)" "if r then mpz_val x ^ n = mpz_val (bq_num a)
     else (mpz_val x - 1) ^ n < mpz_val (bq_num a) \<and> mpz_val (bq_num a) < mpz_val x ^ n"
    using mpz_root_val [OF A(2) assms(2,3) sgn assms(5)] by blast
  have "0 \<le> mpz_val x \<and> (\<not> r \<longrightarrow> 1 \<le> mpz_val x)" if "0 \<le> mpz_val (bq_num a)"
  proof -
    have "mpz_val x \<noteq> 0" if "\<not> r" using rx(2) that \<open>0 \<le> mpz_val (bq_num a)\<close> assms(2) by (auto simp: zero_power)
    then show ?thesis using mpz_root_wf(2) [OF A(1) rx(1)] that by fastforce
  qed
  then show ?thesis
    using that [OF rx(1) mpz_root_wf(1) [OF A(1) rx(1)] int_root(1) [OF A(2) assms(2,3) sgn assms(5) rx(1)] rx(2)] sg by blast
qed

lemma root_result_exact:
  assumes "mpbq_ok a" "0 < n" "bq_k a mod n = 0" "mpz_wf y" "mpz_val y ^ n = mpz_val (bq_num a) \<longleftrightarrow> r"
    "r \<longleftrightarrow> (\<exists>p. mpz_val (bq_num a) = p ^ n)" "0 \<le> mpbq_val a \<longrightarrow> 0 \<le> mpz_val y"
    "\<not> r \<longrightarrow> bound (of_int (mpz_val y ^ n) / 2 ^ bq_k a) (mpbq_val a)"
  shows "root_result bound (mpbq_val a) n (r, mpbq_normalize \<lparr>bq_num = y, bq_k = bq_k a div n\<rparr>)"
proof -
  have "bq_k a div n * n = bq_k a" using assms(3) by auto
  then have p: "(of_int (mpz_val y) / 2 ^ (bq_k a div n)) ^ n = of_int (mpz_val y ^ n) / (2 ^ bq_k a :: rat)"
    by (simp only: dyadic_power)
  have "of_int (mpz_val y ^ n) / (2 ^ bq_k a :: rat) = mpbq_val a \<longleftrightarrow> r"
    unfolding mpbq_val_def dyadic_eq using assms(5) by simp
  moreover have "bq_k a div n < 2 ^ 32" using mpbq_okD(3) [OF assms(1)] by (rule le_less_trans [OF div_le_dividend])
  ultimately show ?thesis
    using assms(3,4,6,7,8) dyadic_root_exists [OF assms(1,2)] p
    by (auto simp: root_result_def)
qed

lemma root_result_inexact:
  assumes "mpbq_ok a" "0 < n" "bq_k a mod n \<noteq> 0" "mpz_wf y" "0 \<le> mpbq_val a \<longrightarrow> 0 \<le> mpz_val y"
    "j \<le> bq_k a div n + 1" "bound (of_int (mpz_val y ^ n) / 2 ^ (j * n)) (mpbq_val a)"
  shows "root_result bound (mpbq_val a) n (False, mpbq_normalize \<lparr>bq_num = y, bq_k = j\<rparr>)"
proof -
  have "n \<noteq> 1" using assms(3) by auto
  then have "bq_k a div n < bq_k a" using assms(2,3) by (intro div_less_dividend) (auto intro: gr0I)
  then have "j < 2 ^ 32" using assms(6) mpbq_okD(3) [OF assms(1)] by linarith
  then show ?thesis
    using assms(3-5,7) dyadic_root_exists [OF assms(1,2)] by (simp add: root_result_def dyadic_power)
qed

lemma root_lower_yields:
  assumes "mpbq_ok a" "0 < n" "n < 2 ^ 31" "odd n \<or> 0 \<le> mpbq_val a" "mpz_bitsize (bq_num a) < 2 ^ 32"
  shows "yields (root_lower a n) (root_result (<) (mpbq_val a) n)"
proof -
  note A = mpbq_okD [OF assms(1)]
  let ?N = "mpz_val (bq_num a)" and ?k = "bq_k a"
  obtain r x where rx: "mpz_root (bq_num a) n = Inr (r, x)" "mpz_wf x" "r \<longleftrightarrow> (\<exists>p. ?N = p ^ n)"
    "if r then mpz_val x ^ n = ?N else (mpz_val x - 1) ^ n < ?N \<and> ?N < mpz_val x ^ n"
    "0 \<le> mpbq_val a \<longrightarrow> 0 \<le> mpz_val x \<and> (\<not> r \<longrightarrow> 1 \<le> mpz_val x)"
    using numerator_root [OF assms] .
  define y where "y = (if \<not> r then mpz_dec x else x)"
  let ?y = "mpz_val y"
  have y: "mpz_wf y" "?y ^ n \<le> ?N" "?y ^ n = ?N \<longleftrightarrow> r" "0 \<le> mpbq_val a \<longrightarrow> 0 \<le> ?y"
    using rx(2,4,5) by (auto simp: y_def split: if_splits)
  have val: "mpbq_val a = of_int ?N / 2 ^ ?k" by (simp add: mpbq_val_def)
  have le: "of_int (?y ^ n) / 2 ^ ?k \<le> mpbq_val a" unfolding val by (rule dyadic_mono) (rule y(2))
  have step: "root_lower a n = Inr (if ?k mod n = 0 then (r, mpbq_normalize \<lparr>bq_num = y, bq_k = ?k div n\<rparr>)
      else (False, mpbq_normalize \<lparr>bq_num = y, bq_k = if ?y < 0 then ?k div n else ?k div n + 1\<rparr>))"
    using rx(1) y(1) unfolding root_lower_def y_def by (simp add: Let_def)
  show ?thesis
  proof (cases "?k mod n = 0")
    case True
    have "of_int (?y ^ n) / 2 ^ ?k \<noteq> mpbq_val a" if "\<not> r" using y(3) that by (simp add: val dyadic_eq)
    then show ?thesis
      using root_result_exact [OF assms(1,2) True y(1,3) rx(3) y(4)] le step True by fastforce
  next
    case False
    note e = exponent_bounds [OF False assms(2)]
    have "of_int (?y ^ n) / 2 ^ ((if ?y < 0 then ?k div n else ?k div n + 1) * n) < mpbq_val a"
    proof (cases "?y" "0 :: int" rule: linorder_cases)
      case less
      then have "odd n" using y(4) assms(4) by linarith
      then show ?thesis using less le dyadic_exponent_less(2) [OF e(1), of "?y ^ n"] by simp
    next
      case equal
      then have "0 < ?N" using y(2) A(4) False assms(2) by (cases "?N = 0") (auto simp: zero_power)
      then show ?thesis using equal assms(2) by (simp add: val zero_power)
    next
      case greater
      then show ?thesis using le dyadic_exponent_less(1) [OF e(2), of "?y ^ n"] by simp
    qed
    from root_result_inexact [where bound = "(<)", OF assms(1,2) False y(1,4) _ this] show ?thesis
      unfolding step using False by simp
  qed
qed

lemma root_upper_yields:
  assumes "mpbq_ok a" "0 < n" "n < 2 ^ 31" "odd n \<or> 0 \<le> mpbq_val a" "mpz_bitsize (bq_num a) < 2 ^ 32"
  shows "yields (root_upper a n) (root_result (>) (mpbq_val a) n)"
proof -
  note A = mpbq_okD [OF assms(1)]
  let ?N = "mpz_val (bq_num a)" and ?k = "bq_k a"
  obtain r x where rx: "mpz_root (bq_num a) n = Inr (r, x)" "mpz_wf x" "r \<longleftrightarrow> (\<exists>p. ?N = p ^ n)"
    "if r then mpz_val x ^ n = ?N else (mpz_val x - 1) ^ n < ?N \<and> ?N < mpz_val x ^ n"
    "0 \<le> mpbq_val a \<longrightarrow> 0 \<le> mpz_val x \<and> (\<not> r \<longrightarrow> 1 \<le> mpz_val x)"
    using numerator_root [OF assms] .
  let ?x = "mpz_val x"
  have x: "?N \<le> ?x ^ n" "?x ^ n = ?N \<longleftrightarrow> r" "0 \<le> mpbq_val a \<longrightarrow> 0 \<le> ?x" using rx(4,5) by (auto split: if_splits)
  have val: "mpbq_val a = of_int ?N / 2 ^ ?k" by (simp add: mpbq_val_def)
  have le: "mpbq_val a \<le> of_int (?x ^ n) / 2 ^ ?k" unfolding val by (rule dyadic_mono) (rule x(1))
  have step: "root_upper a n = Inr (if ?k mod n = 0 then (r, mpbq_normalize \<lparr>bq_num = x, bq_k = ?k div n\<rparr>)
      else (False, mpbq_normalize \<lparr>bq_num = x, bq_k = if ?x < 0 then ?k div n + 1 else ?k div n\<rparr>))"
    using rx(1,2) unfolding root_upper_def by simp
  show ?thesis
  proof (cases "?k mod n = 0")
    case True
    have "of_int (?x ^ n) / 2 ^ ?k \<noteq> mpbq_val a" if "\<not> r" using x(2) that by (simp add: val dyadic_eq)
    then show ?thesis
      using root_result_exact [OF assms(1,2) True rx(2) x(2) rx(3) x(3)] le step True by fastforce
  next
    case False
    note e = exponent_bounds [OF False assms(2)]
    have "of_int (?x ^ n) / 2 ^ ((if ?x < 0 then ?k div n + 1 else ?k div n) * n) > mpbq_val a"
    proof (cases "?x" "0 :: int" rule: linorder_cases)
      case less
      then have "odd n" using x(3) assms(4) by linarith
      then show ?thesis using less le dyadic_exponent_less(2) [OF e(2), of "?x ^ n"] by simp
    next
      case equal
      have "?N \<noteq> 0" using A(4) False by auto
      then have N: "(- 1) ^ n < ?N" "?N < 0" using equal rx(4) assms(2) by (auto simp: zero_power split: if_splits)
      then have "mpbq_val a < 0" by (simp add: val divide_less_0_iff)
      then have "odd n" using assms(4) by linarith
      then show ?thesis using N by simp
    next
      case greater
      then show ?thesis using le dyadic_exponent_less(1) [OF e(1), of "?x ^ n"] by simp
    qed
    from root_result_inexact [where bound = "(>)", OF assms(1,2) False rx(2) x(3) _ this] show ?thesis
      unfolding step using False by simp
  qed
qed

end
