(* ===== verification/Mpbq_Select.thy ===== *)
theory Mpbq_Select
  imports Mpbq
begin

text \<open>
  The searches of \<open>mpbq_manager\<close> (util/mpbq.cpp): \<open>refine_upper\<close> and \<open>refine_lower\<close> move one end of an
  interval around a rational that is not a binary rational; \<open>select_integer\<close> and \<open>select_small\<close> find the
  number with the smallest exponent in an interval whose ends are binary rationals (closed) or
  rationals (open). The four variants of the search share their contract, stated as the locale
  \<open>dyadic_search\<close> and interpreted for each of them. The exponents are \<open>unsigned\<close>: the theorems show that
  the counters do not wrap around before the search succeeds.
\<close>

section \<open>Refinement of an interval\<close>

text \<open>\<open>refine_upper\<close> and \<open>refine_lower\<close> are mirror images; \<open>upper\<close> says which end is to be replaced.
  The loop is left after the assignment of that end.\<close>

record refine_state =
  rf_l :: mpbq
  rf_u :: mpbq
  rf_done :: bool

definition refine_step :: "bool \<Rightarrow> mpq \<Rightarrow> refine_state \<Rightarrow> refine_state res" where
  "refine_step upper q s =
     (let mid = mpbq_div2 (mpbq_add (rf_l s) (rf_u s))
      in Inr (if upper then
                (if mpbq_gt_q mid q then s\<lparr>rf_u := mid, rf_done := True\<rparr> else s\<lparr>rf_l := mid\<rparr>)
              else
                (if mpbq_lt_q mid q then s\<lparr>rf_l := mid, rf_done := True\<rparr> else s\<lparr>rf_u := mid\<rparr>)))"

definition refine_loop :: "bool \<Rightarrow> mpq \<Rightarrow> mpbq \<Rightarrow> mpbq \<Rightarrow> (mpbq \<times> mpbq) res" where
  "refine_loop upper q l u =
     bind_res (while_res (\<lambda>s. \<not> rf_done s) (refine_step upper q) \<lparr>rf_l = l, rf_u = u, rf_done = False\<rparr>)
       (\<lambda>s. Inr (rf_l s, rf_u s))"

definition refine_upper :: "mpq \<Rightarrow> mpbq \<Rightarrow> mpbq \<Rightarrow> (mpbq \<times> mpbq) res" where
  "refine_upper = refine_loop True"

definition refine_lower :: "mpq \<Rightarrow> mpbq \<Rightarrow> mpbq \<Rightarrow> (mpbq \<times> mpbq) res" where
  "refine_lower = refine_loop False"

section \<open>Integers in an interval\<close>

text \<open>The variants of \<open>select_integer\<close>, in the order of the source: the suffix says whether the lower
  and the upper end are a binary rational (\<open>b\<close>, included) or a rational (\<open>q\<close>, excluded). The result is
  \<open>None\<close> when the source returns false and leaves \<open>r\<close> alone.\<close>

definition pick_le :: "mpz \<Rightarrow> mpz \<Rightarrow> mpz option" where
  "pick_le ceil_lower floor_upper = (if mpz_le ceil_lower floor_upper then Some ceil_lower else None)"

definition ceil_above :: "mpq \<Rightarrow> mpz res" where
  "ceil_above lower = (if mpq_is_int lower then Inr (mpz_inc (m_num lower)) else mpq_ceil lower)"

definition floor_below :: "mpq \<Rightarrow> mpz res" where
  "floor_below upper = (if mpq_is_int upper then Inr (mpz_dec (m_num upper)) else mpq_floor upper)"

definition select_integer_bb :: "mpbq \<Rightarrow> mpbq \<Rightarrow> mpz option res" where
  "select_integer_bb lower upper =
     (if mpbq_is_int lower then Inr (Some (bq_num lower))
      else if mpbq_is_int upper then Inr (Some (bq_num upper))
      else Inr (pick_le (mpbq_ceil lower) (mpbq_floor upper)))"

definition select_integer_qb :: "mpq \<Rightarrow> mpbq \<Rightarrow> mpz option res" where
  "select_integer_qb lower upper =
     (if mpbq_is_int upper then Inr (Some (bq_num upper))
      else bind_res (ceil_above lower) (\<lambda>c. Inr (pick_le c (mpbq_floor upper))))"

definition select_integer_bq :: "mpbq \<Rightarrow> mpq \<Rightarrow> mpz option res" where
  "select_integer_bq lower upper =
     (if mpbq_is_int lower then Inr (Some (bq_num lower))
      else bind_res (floor_below upper) (\<lambda>f. Inr (pick_le (mpbq_ceil lower) f)))"

definition select_integer_qq :: "mpq \<Rightarrow> mpq \<Rightarrow> mpz option res" where
  "select_integer_qq lower upper =
     bind_res (ceil_above lower) (\<lambda>c. bind_res (floor_below upper) (\<lambda>f. Inr (pick_le c f)))"

section \<open>The smallest number of an interval\<close>

subsection \<open>Linear search\<close>

text \<open>\<open>while (true) { k++; double both ends; if (select_integer(l2k, u2k, aux)) { set(r, aux, k); break; } }\<close>\<close>

record ('l, 'u) search_state =
  sr_k :: nat
  sr_l :: 'l
  sr_u :: 'u
  sr_aux :: "mpz option"

definition search_step ::
    "('l \<Rightarrow> 'l res) \<Rightarrow> ('u \<Rightarrow> 'u res) \<Rightarrow> ('l \<Rightarrow> 'u \<Rightarrow> mpz option res) \<Rightarrow> ('l, 'u) search_state \<Rightarrow> ('l, 'u) search_state res" where
  "search_step dbl_l dbl_u sel s =
     bind_res (dbl_l (sr_l s)) (\<lambda>l. bind_res (dbl_u (sr_u s)) (\<lambda>u. bind_res (sel l u) (\<lambda>aux.
       Inr \<lparr>sr_k = wrap_u32 (sr_k s + 1), sr_l = l, sr_u = u, sr_aux = aux\<rparr>)))"

definition linear_search ::
    "('l \<Rightarrow> 'l res) \<Rightarrow> ('u \<Rightarrow> 'u res) \<Rightarrow> ('l \<Rightarrow> 'u \<Rightarrow> mpz option res) \<Rightarrow> 'l \<Rightarrow> 'u \<Rightarrow> mpbq res" where
  "linear_search dbl_l dbl_u sel lower upper =
     bind_res (while_res (\<lambda>s. sr_aux s = None) (search_step dbl_l dbl_u sel)
       \<lparr>sr_k = 0, sr_l = lower, sr_u = upper, sr_aux = None\<rparr>)
       (\<lambda>s. case sr_aux s of Some aux \<Rightarrow> Inr (mpbq_set_zk aux (sr_k s)) | None \<Rightarrow> Inl Nontermination)"

text \<open>\<open>qm.mul(l2k, two, l2k)\<close>: the product overwrites its first argument.\<close>

definition mpq_double :: "mpq \<Rightarrow> mpq res" where
  "mpq_double a = bind_res (mul_at 0 1 0 (\<lambda>i. if i = 0 then a else mk_q 2)) (\<lambda>\<sigma>. Inr (\<sigma> 0))"

definition mpbq_double :: "mpbq \<Rightarrow> mpbq res" where
  "mpbq_double a = Inr (mpbq_mul2 a)"

subsection \<open>Binary search\<close>

text \<open>The loop of the variant on two binary rationals when the exponents are large: \<open>bs_result\<close> is set
  when the loop is left.\<close>

record bsearch_state =
  bs_min :: nat
  bs_max :: nat
  bs_result :: "mpbq option"

definition select_at :: "mpbq \<Rightarrow> mpbq \<Rightarrow> nat \<Rightarrow> mpz option res" where
  "select_at lower upper k = select_integer_bb (mpbq_mul2k lower k) (mpbq_mul2k upper k)"

definition bsearch_step :: "mpbq \<Rightarrow> mpbq \<Rightarrow> bsearch_state \<Rightarrow> bsearch_state res" where
  "bsearch_step lower upper s =
     (let mid_k = bs_min s + (bs_max s - bs_min s) div 2
      in bind_res (select_at lower upper mid_k) (\<lambda>aux.
         let t = (if aux \<noteq> None then s\<lparr>bs_max := mid_k\<rparr> else s\<lparr>bs_min := mid_k + 1\<rparr>)
         in if bs_min t = bs_max t then
              bind_res (if bs_max t = mid_k then Inr aux else select_at lower upper (bs_max t)) (\<lambda>aux.
                case aux of Some z \<Rightarrow> Inr (t\<lparr>bs_result := Some (mpbq_set_zk z (bs_max t))\<rparr>)
                | None \<Rightarrow> Inl Verify_failed)
            else Inr t))"

definition bsearch :: "mpbq \<Rightarrow> mpbq \<Rightarrow> nat \<Rightarrow> mpbq res" where
  "bsearch lower upper max_k =
     bind_res (while_res (\<lambda>s. bs_result s = None) (bsearch_step lower upper)
       \<lparr>bs_min = 0, bs_max = max_k, bs_result = None\<rparr>)
       (\<lambda>s. case bs_result s of Some r \<Rightarrow> Inr r | None \<Rightarrow> Inl Nontermination)"

subsection \<open>The entry points\<close>

definition select_small_core_bb :: "mpbq \<Rightarrow> mpbq \<Rightarrow> mpbq res" where
  "select_small_core_bb lower upper =
     bind_res (select_integer_bb lower upper) (\<lambda>aux. case aux of
       Some z \<Rightarrow> Inr (mpbq_of_z z)
     | None \<Rightarrow>
         (let max_k = min (bq_k lower) (bq_k upper)
          in if max_k \<le> 8 then linear_search mpbq_double mpbq_double select_integer_bb lower upper
             else bsearch lower upper max_k))"

definition select_small :: "mpbq \<Rightarrow> mpbq \<Rightarrow> mpbq option res" where
  "select_small lower upper =
     (if mpbq_gt lower upper then Inr None
      else bind_res (select_small_core_bb lower upper) (\<lambda>r. Inr (Some r)))"

definition select_small_core_qb :: "mpq \<Rightarrow> mpbq \<Rightarrow> mpbq res" where
  "select_small_core_qb lower upper =
     bind_res (select_integer_qb lower upper) (\<lambda>aux. case aux of
       Some z \<Rightarrow> Inr (mpbq_of_z z)
     | None \<Rightarrow> linear_search mpq_double mpbq_double select_integer_qb lower upper)"

definition select_small_core_bq :: "mpbq \<Rightarrow> mpq \<Rightarrow> mpbq res" where
  "select_small_core_bq lower upper =
     bind_res (select_integer_bq lower upper) (\<lambda>aux. case aux of
       Some z \<Rightarrow> Inr (mpbq_of_z z)
     | None \<Rightarrow> linear_search mpbq_double mpq_double select_integer_bq lower upper)"

definition select_small_core_qq :: "mpq \<Rightarrow> mpq \<Rightarrow> mpbq res" where
  "select_small_core_qq lower upper =
     bind_res (select_integer_qq lower upper) (\<lambda>aux. case aux of
       Some z \<Rightarrow> Inr (mpbq_of_z z)
     | None \<Rightarrow> linear_search mpq_double mpq_double select_integer_qq lower upper)"

section \<open>Refinement\<close>

lemma mpbq_add_k:
  assumes "mpbq_ok a" "mpbq_ok b"
  shows "bq_k (mpbq_add a b) \<le> max (bq_k a) (bq_k b)"
  using mpbq_okD(1-3) [OF assms(1)] mpbq_okD(1-3) [OF assms(2)]
    mpbq_normalize_val(3) [of "\<lparr>bq_num = mpz_add (bq_num a) (bq_num b), bq_k = bq_k a\<rparr>"]
    mpbq_normalize_val(3) [of "\<lparr>bq_num = mpz_add (bq_num b) (mpz_mul2k (bq_num a) (bq_k b - bq_k a)), bq_k = bq_k b\<rparr>"]
    mpbq_normalize_val(3) [of "\<lparr>bq_num = mpz_add (bq_num a) (mpz_mul2k (bq_num b) (bq_k a - bq_k b)), bq_k = bq_k a\<rparr>"]
  by (auto simp: mpbq_add_def)

lemma mpbq_div2k_k:
  assumes "mpbq_ok a" "bq_k a + k < 2 ^ 32"
  shows "bq_k (mpbq_div2k a k) \<le> bq_k a + k"
  using mpbq_okD(1-3) [OF assms(1)] mpbq_normalize_val(3) [of "a\<lparr>bq_k := k\<rparr>"] assms(2)
  by (simp add: mpbq_div2k_def Let_def)

lemma refine_mid:
  assumes "mpbq_ok l" "mpbq_ok u" "max (bq_k l) (bq_k u) + 1 < 2 ^ 32"
  defines "mid \<equiv> mpbq_div2 (mpbq_add l u)"
  shows "mpbq_ok mid" "mpbq_val mid = (mpbq_val l + mpbq_val u) / 2" "bq_k mid \<le> max (bq_k l) (bq_k u) + 1"
proof -
  have b: "bq_k (mpbq_add l u) + 1 < 2 ^ 32" using mpbq_add_k [OF assms(1,2)] assms(3) by linarith
  have ok: "mpbq_ok (mpbq_add l u)" using assms by simp
  show "mpbq_ok mid" "mpbq_val mid = (mpbq_val l + mpbq_val u) / 2"
    unfolding mid_def mpbq_div2_div2k using mpbq_div2k_val [OF ok b] assms by simp_all
  show "bq_k mid \<le> max (bq_k l) (bq_k u) + 1"
    unfolding mid_def mpbq_div2_div2k using mpbq_div2k_k [OF ok b] mpbq_add_k [OF assms(1,2)] by linarith
qed

text \<open>In units of the distance from the end that is replaced to \<open>q\<close>, the interval is longer than one
  and halves in each round that does not end the loop. The invariant counts those rounds.\<close>

definition refine_inv :: "bool \<Rightarrow> mpq \<Rightarrow> mpbq \<Rightarrow> mpbq \<Rightarrow> nat \<Rightarrow> refine_state \<Rightarrow> bool" where
  "refine_inv upper q l u i s \<longleftrightarrow> mpbq_ok (rf_l s) \<and> mpbq_ok (rf_u s)
     \<and> mpbq_val (rf_l s) < mpq_val q \<and> mpq_val q < mpbq_val (rf_u s)
     \<and> mpbq_val l \<le> mpbq_val (rf_l s) \<and> mpbq_val (rf_u s) \<le> mpbq_val u
     \<and> (if rf_done s then (if upper then mpbq_val (rf_u s) < mpbq_val u else mpbq_val l < mpbq_val (rf_l s))
        else (if upper then rf_u s = u else rf_l s = l)
          \<and> mpbq_val (rf_u s) - mpbq_val (rf_l s) = (mpbq_val u - mpbq_val l) / 2 ^ i
          \<and> bq_k (rf_l s) \<le> max (bq_k l) (bq_k u) + i \<and> bq_k (rf_u s) \<le> max (bq_k l) (bq_k u) + i)"

lemma refine_step_inv:
  assumes "mpq_ok q" "\<nexists>k. mpz_val (m_den q) = 2 ^ k" "refine_inv upper q l u i s" "\<not> rf_done s"
    "max (bq_k l) (bq_k u) + i + 1 < 2 ^ 32"
  shows "\<exists>t. refine_step upper q s = Inr t \<and> refine_inv upper q l u (Suc i) t"
proof -
  note I = assms(3) [unfolded refine_inv_def]
  define mid where "mid = mpbq_div2 (mpbq_add (rf_l s) (rf_u s))"
  have mk: "max (bq_k (rf_l s)) (bq_k (rf_u s)) \<le> max (bq_k l) (bq_k u) + i" using I assms(4) by simp
  then have "max (bq_k (rf_l s)) (bq_k (rf_u s)) + 1 < 2 ^ 32" using assms(5) by linarith
  note mid = refine_mid [OF _ _ this, folded mid_def]
  have m: "mpbq_ok mid" "mpbq_val mid = (mpbq_val (rf_l s) + mpbq_val (rf_u s)) / 2"
    and km: "bq_k mid \<le> max (bq_k (rf_l s)) (bq_k (rf_u s)) + 1"
    using mid I by simp_all
  have m3: "bq_k mid \<le> max (bq_k l) (bq_k u) + Suc i" using km mk by linarith
  have "mpbq_val mid \<noteq> mpq_val q"
  proof
    assume "mpbq_val mid = mpq_val q"
    then have "of_int (mpz_val (m_num q)) / of_int (mpz_val (m_den q)) = (of_int (mpz_val (bq_num mid)) / of_int (2 ^ bq_k mid) :: rat)"
      by (simp add: mpbq_val_def mpq_val_def)
    then have "(of_int (mpz_val (m_num q) * 2 ^ bq_k mid) :: rat) = of_int (mpz_val (bq_num mid) * mpz_val (m_den q))"
      using mpq_okD(5) [OF assms(1)] by (simp add: divide_simps)
    then have "mpz_val (m_num q) * 2 ^ bq_k mid = mpz_val (bq_num mid) * mpz_val (m_den q)" by (simp only: of_int_eq_iff)
    from lowest_terms_unique [OF _ _ _ _ this] mpq_okD [OF assms(1)] mpbq_okD(4) [OF m(1)]
    have "mpz_val (m_den q) = 2 ^ bq_k mid" by (auto simp: coprime_commute)
    then show False using assms(2) by blast
  qed
  moreover have "mpbq_val (rf_l s) < mpbq_val mid" "mpbq_val mid < mpbq_val (rf_u s)"
    using I m(2) by simp_all
  moreover have "mpbq_val (rf_u s) - mpbq_val mid = (mpbq_val u - mpbq_val l) / 2 ^ Suc i"
    "mpbq_val mid - mpbq_val (rf_l s) = (mpbq_val u - mpbq_val l) / 2 ^ Suc i"
  proof -
    have "mpbq_val (rf_u s) - mpbq_val mid = (mpbq_val (rf_u s) - mpbq_val (rf_l s)) / 2"
      "mpbq_val mid - mpbq_val (rf_l s) = (mpbq_val (rf_u s) - mpbq_val (rf_l s)) / 2"
      unfolding m(2) by (simp_all add: field_simps)
    moreover have "mpbq_val (rf_u s) - mpbq_val (rf_l s) = (mpbq_val u - mpbq_val l) / 2 ^ i"
      using I assms(4) by simp
    ultimately show "mpbq_val (rf_u s) - mpbq_val mid = (mpbq_val u - mpbq_val l) / 2 ^ Suc i"
      "mpbq_val mid - mpbq_val (rf_l s) = (mpbq_val u - mpbq_val l) / 2 ^ Suc i" by simp_all
  qed
  ultimately show ?thesis
    using I assms(1,4) m(1) m3 mk
    by (auto simp: refine_step_def mid_def [symmetric] Let_def refine_inv_def)
qed

lemma floor_half_less: "1 < (x :: rat) \<Longrightarrow> nat \<lfloor>x / 2\<rfloor> < nat \<lfloor>x\<rfloor>"
proof -
  assume "1 < x"
  then have "1 \<le> \<lfloor>x\<rfloor>" by linarith
  moreover have "\<lfloor>x / 2\<rfloor> < \<lfloor>x\<rfloor>"
  proof -
    have "x < of_int \<lfloor>x\<rfloor> + 1" by linarith
    then have "x / 2 < of_int \<lfloor>x\<rfloor>" using \<open>1 \<le> \<lfloor>x\<rfloor>\<close> by linarith
    then show ?thesis by linarith
  qed
  ultimately show ?thesis by linarith
qed

lemma refine_loop_yields:
  assumes "mpq_ok q" "mpbq_ok l" "mpbq_ok u" "mpbq_val l < mpq_val q" "mpq_val q < mpbq_val u"
    and no: "\<nexists>k. mpz_val (m_den q) = 2 ^ k"
    and e: "e = (if upper then mpbq_val u - mpq_val q else mpq_val q - mpbq_val l)"
    and j: "mpbq_val u - mpbq_val l < e * 2 ^ j" "max (bq_k l) (bq_k u) + j < 2 ^ 32"
  shows "yields (refine_loop upper q l u) (\<lambda>(l', u'). mpbq_ok l' \<and> mpbq_ok u'
    \<and> mpbq_val l \<le> mpbq_val l' \<and> mpbq_val l' < mpq_val q \<and> mpq_val q < mpbq_val u' \<and> mpbq_val u' \<le> mpbq_val u
    \<and> (if upper then mpbq_val u' < mpbq_val u else mpbq_val l < mpbq_val l'))"
proof -
  let ?D = "mpbq_val u - mpbq_val l" and ?d = "\<lambda>s. mpbq_val (rf_u s) - mpbq_val (rf_l s)"
  have e0: "0 < e" using assms(4,5) e by simp
  have "\<exists>s. while_res (\<lambda>s. \<not> rf_done s) (refine_step upper q) \<lparr>rf_l = l, rf_u = u, rf_done = False\<rparr> = Inr s
      \<and> ((\<exists>i. refine_inv upper q l u i s) \<and> rf_done s)"
  proof (rule while_res_total [where I = "\<lambda>s. \<exists>i. refine_inv upper q l u i s"
        and m = "\<lambda>s. if rf_done s then 0 else Suc (nat \<lfloor>?d s / e\<rfloor>)"])
    show "\<exists>i. refine_inv upper q l u i \<lparr>rf_l = l, rf_u = u, rf_done = False\<rparr>"
      using assms(2-5) by (intro exI [of _ 0]) (simp add: refine_inv_def)
  next
    fix s assume "\<exists>i. refine_inv upper q l u i s" and s: "\<not> rf_done s"
    then obtain i where i: "refine_inv upper q l u i s" by blast
    then have d: "?d s = ?D / 2 ^ i" "e < ?d s" using s e by (auto simp: refine_inv_def split: if_splits)
    then have "e * 2 ^ i < ?D" by (simp add: pos_less_divide_eq)
    then have "e * 2 ^ i < e * 2 ^ j" using j(1) by linarith
    then have "i < j" using e0 by simp
    then have "max (bq_k l) (bq_k u) + i + 1 < 2 ^ 32" using j(2) by linarith
    then obtain t where t: "refine_step upper q s = Inr t" "refine_inv upper q l u (Suc i) t"
      using refine_step_inv [OF assms(1) no i s] by blast
    have "?d t / e = ?d s / e / 2" if "\<not> rf_done t"
      using t(2) that d(1) by (simp add: refine_inv_def)
    moreover have "1 < ?d s / e" using d(2) e0 by simp
    ultimately show "\<exists>t. refine_step upper q s = Inr t \<and> (\<exists>i. refine_inv upper q l u i t)
        \<and> (if rf_done t then 0 else Suc (nat \<lfloor>?d t / e\<rfloor>)) < (if rf_done s then 0 else Suc (nat \<lfloor>?d s / e\<rfloor>))"
      using t s floor_half_less [of "?d s / e"] by (intro exI [of _ t]) auto
  qed blast
  then show ?thesis by (auto simp: refine_loop_def refine_inv_def)
qed

section \<open>Intervals with open and closed ends\<close>

definition between :: "bool \<Rightarrow> bool \<Rightarrow> rat \<Rightarrow> rat \<Rightarrow> rat \<Rightarrow> bool" where
  "between lc uc l u x \<longleftrightarrow> (if lc then l \<le> x else l < x) \<and> (if uc then x \<le> u else x < u)"

definition ordered_ends :: "bool \<Rightarrow> bool \<Rightarrow> rat \<Rightarrow> rat \<Rightarrow> bool" where
  "ordered_ends lc uc l u \<longleftrightarrow> (if lc \<and> uc then l \<le> u else l < u)"

definition int_choice :: "bool \<Rightarrow> bool \<Rightarrow> rat \<Rightarrow> rat \<Rightarrow> mpz option \<Rightarrow> bool" where
  "int_choice lc uc l u r \<longleftrightarrow> (case r of
     Some z \<Rightarrow> mpz_wf z \<and> between lc uc l u (of_int (mpz_val z))
   | None \<Rightarrow> \<not> (\<exists>z. between lc uc l u (of_int z)))"

text \<open>Whether the interval holds a multiple of \<open>1/2^k\<close>.\<close>

definition has_dyadic :: "bool \<Rightarrow> bool \<Rightarrow> rat \<Rightarrow> rat \<Rightarrow> nat \<Rightarrow> bool" where
  "has_dyadic lc uc l u k \<longleftrightarrow> (\<exists>z. between lc uc (l * 2 ^ k) (u * 2 ^ k) (of_int z))"

text \<open>The number of the interval with the smallest exponent: what the search is for.\<close>

definition smallest :: "bool \<Rightarrow> bool \<Rightarrow> rat \<Rightarrow> rat \<Rightarrow> mpbq \<Rightarrow> bool" where
  "smallest lc uc l u r \<longleftrightarrow> mpbq_ok r \<and> between lc uc l u (mpbq_val r)
     \<and> (\<forall>b. mpbq_ok b \<and> between lc uc l u (mpbq_val b) \<longrightarrow> bq_k r \<le> bq_k b)"

lemma between_scale: "0 < c \<Longrightarrow> between lc uc (l * c) (u * c) (x * c) \<longleftrightarrow> between lc uc l u x"
  by (simp add: between_def)

lemma ordered_ends_scale: "0 < c \<Longrightarrow> ordered_ends lc uc (l * c) (u * c) \<longleftrightarrow> ordered_ends lc uc l u"
  by (simp add: ordered_ends_def)

lemma between_dyadic: "between lc uc (l * 2 ^ k) (u * 2 ^ k) (of_int z) \<longleftrightarrow> between lc uc l u (of_int z / 2 ^ k)"
  using between_scale [of "2 ^ k" lc uc l u "of_int z / 2 ^ k"] by simp

lemma has_dyadic_mono:
  assumes "has_dyadic lc uc l u i" "i \<le> k"
  shows "has_dyadic lc uc l u k"
proof -
  obtain z where z: "between lc uc l u (of_int z / 2 ^ i)" using assms(1) by (auto simp: has_dyadic_def between_dyadic)
  have "(of_int z / 2 ^ i :: rat) = of_int (z * 2 ^ (k - i)) / 2 ^ k" using assms(2) by (rule dyadic_common)
  then show ?thesis using z unfolding has_dyadic_def between_dyadic by metis
qed

lemma has_dyadic_mpbq: "between lc uc l u (mpbq_val b) \<Longrightarrow> has_dyadic lc uc l u (bq_k b)"
  by (auto simp: has_dyadic_def between_dyadic mpbq_val_def)

lemma smallest_at:
  assumes "int_choice lc uc (l * 2 ^ k) (u * 2 ^ k) (Some z)" "k < 2 ^ 32" "\<And>i. i < k \<Longrightarrow> \<not> has_dyadic lc uc l u i"
  shows "smallest lc uc l u (mpbq_set_zk z k)"
proof -
  have z: "mpz_wf z" "between lc uc l u (of_int (mpz_val z) / 2 ^ k)"
    using assms(1) by (simp_all add: int_choice_def between_dyadic)
  have "bq_k (mpbq_set_zk z k) \<le> k"
    using mpbq_normalize_val(3) [of "\<lparr>bq_num = z, bq_k = k\<rparr>"] z(1) assms(2) by (simp add: mpbq_set_zk_def)
  moreover have "k \<le> bq_k b" if "between lc uc l u (mpbq_val b)" for b
    using assms(3) has_dyadic_mpbq [OF that] by (meson not_le)
  ultimately show ?thesis using z assms(2) by (fastforce simp: smallest_def)
qed

lemma smallest_int: "int_choice lc uc l u (Some z) \<Longrightarrow> smallest lc uc l u (mpbq_of_z z)"
  by (simp add: int_choice_def smallest_def) (simp add: mpbq_of_z_def)

lemma int_choice_None: "int_choice lc uc (l * 2 ^ k) (u * 2 ^ k) None \<longleftrightarrow> \<not> has_dyadic lc uc l u k"
  by (simp add: int_choice_def has_dyadic_def)

subsection \<open>Selecting an integer\<close>

lemma ceil_above_yields:
  assumes "mpq_ok q"
  shows "yields (ceil_above q) (\<lambda>c. mpz_wf c \<and> (\<forall>z. mpq_val q < of_int z \<longleftrightarrow> mpz_val c \<le> z))"
proof (cases "mpq_is_int q")
  case True
  then show ?thesis using mpq_okD [OF assms] by (auto simp: ceil_above_def mpq_int_val [OF assms])
next
  case False
  have "mpq_val q \<noteq> of_int z" for z using False mpq_is_int_val [OF assms] by auto
  then have gap: "mpq_val q < of_int z \<longleftrightarrow> \<lceil>mpq_val q\<rceil> \<le> z" for z unfolding ceiling_le_iff by (simp add: order_less_le)
  show ?thesis
    using False unfolding ceil_above_def gap by simp (rule yields_mono [OF mpq_floor_ceil_yields(2) [OF assms]], simp)
qed

lemma floor_below_yields:
  assumes "mpq_ok q"
  shows "yields (floor_below q) (\<lambda>c. mpz_wf c \<and> (\<forall>z. of_int z < mpq_val q \<longleftrightarrow> z \<le> mpz_val c))"
proof (cases "mpq_is_int q")
  case True
  then show ?thesis using mpq_okD [OF assms] by (auto simp: floor_below_def mpq_int_val [OF assms])
next
  case False
  have "of_int z \<noteq> mpq_val q" for z using False mpq_is_int_val [OF assms] by (metis Ints_of_int)
  then have gap: "of_int z < mpq_val q \<longleftrightarrow> z \<le> \<lfloor>mpq_val q\<rfloor>" for z unfolding le_floor_iff by (simp add: order_less_le)
  show ?thesis
    using False unfolding floor_below_def gap by simp (rule yields_mono [OF mpq_floor_ceil_yields(1) [OF assms]], simp)
qed

lemma pick_le_choice:
  assumes "mpz_wf c" "mpz_wf f" "\<And>z. between lc uc l u (of_int z) \<longleftrightarrow> mpz_val c \<le> z \<and> z \<le> mpz_val f"
  shows "int_choice lc uc l u (pick_le c f)"
proof -
  have "\<not> (mpz_val c \<le> z \<and> z \<le> mpz_val f)" if "\<not> mpz_val c \<le> mpz_val f" for z using that by linarith
  then show ?thesis using assms by (auto simp: int_choice_def pick_le_def)
qed

lemma select_integer_bb_yields:
  assumes "mpbq_ok l" "mpbq_ok u" "ordered_ends True True (mpbq_val l) (mpbq_val u)"
  shows "yields (select_integer_bb l u) (int_choice True True (mpbq_val l) (mpbq_val u))"
  using assms mpbq_okD [OF assms(1)] mpbq_okD [OF assms(2)] mpbq_floor_ceil_val [OF assms(1)] mpbq_floor_ceil_val [OF assms(2)]
  by (auto simp: select_integer_bb_def ordered_ends_def mpbq_is_int_def mpbq_val_def [of l] mpbq_val_def [of u]
      int_choice_def [of _ _ _ _ "Some _"] between_def ceiling_le_iff le_floor_iff intro!: pick_le_choice)

lemma select_integer_qb_yields:
  assumes "mpq_ok l" "mpbq_ok u" "ordered_ends False True (mpq_val l) (mpbq_val u)"
  shows "yields (select_integer_qb l u) (int_choice False True (mpq_val l) (mpbq_val u))"
proof (cases "mpbq_is_int u")
  case True
  then show ?thesis using assms mpbq_okD [OF assms(2)]
    by (simp add: select_integer_qb_def ordered_ends_def mpbq_is_int_def mpbq_val_def int_choice_def between_def)
next
  case False
  have "int_choice False True (mpq_val l) (mpbq_val u) (pick_le c (mpbq_floor u))"
    if "mpz_wf c \<and> (\<forall>z. mpq_val l < of_int z \<longleftrightarrow> mpz_val c \<le> z)" for c
    using that mpbq_floor_ceil_val(1,2) [OF assms(2)] by (intro pick_le_choice) (simp_all add: between_def le_floor_iff)
  then show ?thesis
    using False by (simp add: select_integer_qb_def) (rule yields_mono [OF ceil_above_yields [OF assms(1)]])
qed

lemma select_integer_bq_yields:
  assumes "mpbq_ok l" "mpq_ok u" "ordered_ends True False (mpbq_val l) (mpq_val u)"
  shows "yields (select_integer_bq l u) (int_choice True False (mpbq_val l) (mpq_val u))"
proof (cases "mpbq_is_int l")
  case True
  then show ?thesis using assms mpbq_okD [OF assms(1)]
    by (simp add: select_integer_bq_def ordered_ends_def mpbq_is_int_def mpbq_val_def int_choice_def between_def)
next
  case False
  have "int_choice True False (mpbq_val l) (mpq_val u) (pick_le (mpbq_ceil l) f)"
    if "mpz_wf f \<and> (\<forall>z. of_int z < mpq_val u \<longleftrightarrow> z \<le> mpz_val f)" for f
    using that mpbq_floor_ceil_val(3,4) [OF assms(1)] by (intro pick_le_choice) (simp_all add: between_def ceiling_le_iff)
  then show ?thesis
    using False by (simp add: select_integer_bq_def) (rule yields_mono [OF floor_below_yields [OF assms(2)]])
qed

lemma select_integer_qq_yields:
  assumes "mpq_ok l" "mpq_ok u"
  shows "yields (select_integer_qq l u) (int_choice False False (mpq_val l) (mpq_val u))"
  using ceil_above_yields [OF assms(1)] floor_below_yields [OF assms(2)]
  by (auto simp: select_integer_qq_def between_def elim!: yields_mono intro!: pick_le_choice)

lemma mpq_double_yields:
  assumes "mpq_ok a"
  shows "yields (mpq_double a) (\<lambda>b. mpq_ok b \<and> mpq_val b = mpq_val a * 2)"
  using mul_at_yields [of "\<lambda>i. if i = 0 then a else mk_q 2" 0 1 0] assms int_limits
  by (auto simp: mpq_double_def elim!: yields_mono)

lemma mpbq_double_yields:
  assumes "mpbq_ok a"
  shows "yields (mpbq_double a) (\<lambda>b. mpbq_ok b \<and> mpbq_val b = mpbq_val a * 2)"
  using assms by (simp add: mpbq_double_def mpbq_mul2_mul2k)

section \<open>The contract of the search\<close>

text \<open>The ends of the interval can be doubled, and the selection decides whether there is an integer
  between them.\<close>

locale dyadic_search =
  fixes okl :: "'l \<Rightarrow> bool" and vall :: "'l \<Rightarrow> rat" and dbl_l :: "'l \<Rightarrow> 'l res"
    and oku :: "'u \<Rightarrow> bool" and valu :: "'u \<Rightarrow> rat" and dbl_u :: "'u \<Rightarrow> 'u res"
    and sel :: "'l \<Rightarrow> 'u \<Rightarrow> mpz option res" and lc uc :: bool
  assumes dbl_l_yields: "okl l \<Longrightarrow> yields (dbl_l l) (\<lambda>l'. okl l' \<and> vall l' = vall l * 2)"
    and dbl_u_yields: "oku u \<Longrightarrow> yields (dbl_u u) (\<lambda>u'. oku u' \<and> valu u' = valu u * 2)"
    and sel_yields: "okl l \<Longrightarrow> oku u \<Longrightarrow> ordered_ends lc uc (vall l) (valu u)
      \<Longrightarrow> yields (sel l u) (int_choice lc uc (vall l) (valu u))"
begin

text \<open>After \<open>k\<close> rounds the ends are multiplied by \<open>2^k\<close>, no smaller power of two gives an integer, and
  \<open>sr_aux\<close> is the outcome for \<open>k\<close>.\<close>

definition search_inv :: "rat \<Rightarrow> rat \<Rightarrow> nat \<Rightarrow> ('l, 'u) search_state \<Rightarrow> bool" where
  "search_inv l u j s \<longleftrightarrow> okl (sr_l s) \<and> oku (sr_u s) \<and> sr_k s \<le> j
     \<and> vall (sr_l s) = l * 2 ^ sr_k s \<and> valu (sr_u s) = u * 2 ^ sr_k s
     \<and> (\<forall>i < sr_k s. \<not> has_dyadic lc uc l u i) \<and> int_choice lc uc (l * 2 ^ sr_k s) (u * 2 ^ sr_k s) (sr_aux s)"

lemma search_step_inv:
  assumes "search_inv l u j s" "sr_aux s = None" "has_dyadic lc uc l u j" "j < 2 ^ 32" "ordered_ends lc uc l u"
  shows "sr_k s < j" "yields (search_step dbl_l dbl_u sel s) (\<lambda>t. search_inv l u j t \<and> sr_k t = Suc (sr_k s))"
proof -
  note I = assms(1) [unfolded search_inv_def]
  have no: "\<not> has_dyadic lc uc l u (sr_k s)" using I assms(2) by (simp add: int_choice_None)
  then have "sr_k s \<noteq> j" using assms(3) by blast
  then show k: "sr_k s < j" using I by simp
  then have w: "wrap_u32 (sr_k s + 1) = Suc (sr_k s)" using assms(4) by simp
  obtain l' where l': "dbl_l (sr_l s) = Inr l'" "okl l'" "vall l' = l * 2 ^ Suc (sr_k s)"
    using dbl_l_yields [of "sr_l s"] I by (auto simp: yields_def)
  obtain u' where u': "dbl_u (sr_u s) = Inr u'" "oku u'" "valu u' = u * 2 ^ Suc (sr_k s)"
    using dbl_u_yields [of "sr_u s"] I by (auto simp: yields_def)
  have "ordered_ends lc uc (l * 2 ^ Suc (sr_k s)) (u * 2 ^ Suc (sr_k s))"
    using assms(5) by (subst ordered_ends_scale) simp_all
  then have "yields (sel l' u') (int_choice lc uc (l * 2 ^ Suc (sr_k s)) (u * 2 ^ Suc (sr_k s)))"
    using sel_yields [OF l'(2) u'(2)] l'(3) u'(3) by simp
  moreover have "\<forall>i < Suc (sr_k s). \<not> has_dyadic lc uc l u i" using I no by (simp add: less_Suc_eq)
  ultimately show "yields (search_step dbl_l dbl_u sel s) (\<lambda>t. search_inv l u j t \<and> sr_k t = Suc (sr_k s))"
    unfolding search_step_def using l' u' w k by (auto simp: search_inv_def elim!: yields_mono)
qed

lemma linear_search_yields:
  assumes ok: "okl a" "oku b" and ends: "ordered_ends lc uc (vall a) (valu b)"
    and no: "int_choice lc uc (vall a) (valu b) None" and j: "has_dyadic lc uc (vall a) (valu b) j" "j < 2 ^ 32"
  shows "yields (linear_search dbl_l dbl_u sel a b) (smallest lc uc (vall a) (valu b))"
proof -
  let ?I = "search_inv (vall a) (valu b) j"
  have "\<exists>s. while_res (\<lambda>s. sr_aux s = None) (search_step dbl_l dbl_u sel)
      \<lparr>sr_k = 0, sr_l = a, sr_u = b, sr_aux = None\<rparr> = Inr s \<and> (?I s \<and> sr_aux s \<noteq> None)"
  proof (rule while_res_total [where I = ?I and m = "\<lambda>s. j - sr_k s"])
    show "?I \<lparr>sr_k = 0, sr_l = a, sr_u = b, sr_aux = None\<rparr>" using ok no by (simp add: search_inv_def)
  next
    fix s assume s: "?I s" "sr_aux s = None"
    show "\<exists>t. search_step dbl_l dbl_u sel s = Inr t \<and> ?I t \<and> j - sr_k t < j - sr_k s"
      using search_step_inv [OF s j ends] by (auto simp: yields_def)
  qed simp
  then obtain s z where s: "while_res (\<lambda>s. sr_aux s = None) (search_step dbl_l dbl_u sel)
      \<lparr>sr_k = 0, sr_l = a, sr_u = b, sr_aux = None\<rparr> = Inr s" "?I s" "sr_aux s = Some z" by blast
  have "smallest lc uc (vall a) (valu b) (mpbq_set_zk z (sr_k s))"
    using s(2,3) j(2) by (intro smallest_at) (auto simp: search_inv_def)
  then show ?thesis using s(1,3) by (simp add: linear_search_def)
qed

text \<open>The body of \<open>select_small_core\<close>: an integer if there is one, and the search otherwise.\<close>

lemma select_yields:
  assumes "okl a" "oku b" "ordered_ends lc uc (vall a) (valu b)" "has_dyadic lc uc (vall a) (valu b) j" "j < 2 ^ 32"
    and "int_choice lc uc (vall a) (valu b) None \<Longrightarrow> rest = linear_search dbl_l dbl_u sel a b"
  shows "yields (bind_res (sel a b) (\<lambda>aux. case aux of Some z \<Rightarrow> Inr (mpbq_of_z z) | None \<Rightarrow> rest))
    (smallest lc uc (vall a) (valu b))"
  using sel_yields [OF assms(1-3)] linear_search_yields [OF assms(1-3) _ assms(4,5)] assms(6) smallest_int
  by (auto elim!: yields_mono split: option.splits)

end

interpretation search_bb: dyadic_search mpbq_ok mpbq_val mpbq_double mpbq_ok mpbq_val mpbq_double select_integer_bb True True
  by unfold_locales (rule mpbq_double_yields select_integer_bb_yields; assumption)+

interpretation search_qb: dyadic_search mpq_ok mpq_val mpq_double mpbq_ok mpbq_val mpbq_double select_integer_qb False True
  by unfold_locales (rule mpq_double_yields mpbq_double_yields select_integer_qb_yields; assumption)+

interpretation search_bq: dyadic_search mpbq_ok mpbq_val mpbq_double mpq_ok mpq_val mpq_double select_integer_bq True False
  by unfold_locales (rule mpq_double_yields mpbq_double_yields select_integer_bq_yields; assumption)+

interpretation search_qq: dyadic_search mpq_ok mpq_val mpq_double mpq_ok mpq_val mpq_double select_integer_qq False False
  by unfold_locales (rule mpq_double_yields select_integer_qq_yields; assumption)+

section \<open>Binary search\<close>

lemma select_at_yields:
  assumes "mpbq_ok l" "mpbq_ok u" "mpbq_val l \<le> mpbq_val u"
  shows "yields (select_at l u k) (int_choice True True (mpbq_val l * 2 ^ k) (mpbq_val u * 2 ^ k))"
  using select_integer_bb_yields [of "mpbq_mul2k l k" "mpbq_mul2k u k"] assms
  by (simp add: select_at_def ordered_ends_def)

definition bsearch_inv :: "mpbq \<Rightarrow> mpbq \<Rightarrow> bsearch_state \<Rightarrow> bool" where
  "bsearch_inv l u s \<longleftrightarrow> (case bs_result s of
     Some r \<Rightarrow> smallest True True (mpbq_val l) (mpbq_val u) r
   | None \<Rightarrow> bs_min s < bs_max s \<and> bs_max s < 2 ^ 32 \<and> has_dyadic True True (mpbq_val l) (mpbq_val u) (bs_max s)
       \<and> (\<forall>i < bs_min s. \<not> has_dyadic True True (mpbq_val l) (mpbq_val u) i))"

lemma bsearch_step_inv:
  assumes "mpbq_ok l" "mpbq_ok u" "mpbq_val l \<le> mpbq_val u" "bsearch_inv l u s" "bs_result s = None"
  shows "\<exists>t. bsearch_step l u s = Inr t \<and> bsearch_inv l u t
    \<and> (if bs_result t = None then Suc (bs_max t - bs_min t) else 0) < Suc (bs_max s - bs_min s)"
proof -
  let ?has = "has_dyadic True True (mpbq_val l) (mpbq_val u)"
  define m where "m = bs_min s + (bs_max s - bs_min s) div 2"
  have I: "bs_min s < bs_max s" "bs_max s < 2 ^ 32" "?has (bs_max s)" "\<forall>i < bs_min s. \<not> ?has i"
    using assms(4,5) by (simp_all add: bsearch_inv_def)
  have m: "bs_min s \<le> m" "m < bs_max s" using I(1) by (auto simp: m_def)
  note sel = select_at_yields [OF assms(1-3)]
  obtain aux where aux: "select_at l u m = Inr aux" "int_choice True True (mpbq_val l * 2 ^ m) (mpbq_val u * 2 ^ m) aux"
    using sel [of m] by (auto simp: yields_def)
  show ?thesis
  proof (cases aux)
    case (Some z)
    have "?has m" using aux(2) Some by (auto simp: int_choice_def has_dyadic_def)
    moreover have "smallest True True (mpbq_val l) (mpbq_val u) (mpbq_set_zk z m)" if "bs_min s = m"
      using aux(2) Some I m that by (intro smallest_at) auto
    moreover have "bsearch_step l u s = Inr (if bs_min s = m
        then s\<lparr>bs_max := m, bs_result := Some (mpbq_set_zk z m)\<rparr> else s\<lparr>bs_max := m\<rparr>)"
      using aux(1) Some by (simp add: bsearch_step_def m_def [symmetric] Let_def)
    ultimately show ?thesis
      using I m assms(5) by (auto simp: bsearch_inv_def)
  next
    case None
    then have "\<not> ?has m" using aux(2) by (simp add: int_choice_None)
    then have below: "\<forall>i < Suc m. \<not> ?has i" using has_dyadic_mono less_Suc_eq_le by blast
    show ?thesis
    proof (cases "Suc m = bs_max s")
      case True
      obtain aux' where aux': "select_at l u (bs_max s) = Inr aux'"
        "int_choice True True (mpbq_val l * 2 ^ bs_max s) (mpbq_val u * 2 ^ bs_max s) aux'"
        using sel [of "bs_max s"] by (auto simp: yields_def)
      then obtain z where z: "aux' = Some z" using I(3) int_choice_None by (cases aux') blast+
      have "smallest True True (mpbq_val l) (mpbq_val u) (mpbq_set_zk z (bs_max s))"
        using aux'(2) z I(2) below True by (intro smallest_at) auto
      moreover have "bsearch_step l u s = Inr (s\<lparr>bs_min := bs_max s, bs_result := Some (mpbq_set_zk z (bs_max s))\<rparr>)"
        using aux(1) None aux'(1) z True by (simp add: bsearch_step_def m_def [symmetric] Let_def)
      ultimately show ?thesis by (simp add: bsearch_inv_def)
    next
      case False
      then have "bsearch_step l u s = Inr (s\<lparr>bs_min := Suc m\<rparr>)"
        using aux(1) None by (simp add: bsearch_step_def m_def [symmetric] Let_def)
      then show ?thesis
        using False I m below assms(5) by (auto simp: bsearch_inv_def)
    qed
  qed
qed

lemma bsearch_yields:
  assumes "mpbq_ok l" "mpbq_ok u" "mpbq_val l \<le> mpbq_val u" "0 < k" "k < 2 ^ 32"
    "has_dyadic True True (mpbq_val l) (mpbq_val u) k"
  shows "yields (bsearch l u k) (smallest True True (mpbq_val l) (mpbq_val u))"
proof -
  have "\<exists>s. while_res (\<lambda>s. bs_result s = None) (bsearch_step l u) \<lparr>bs_min = 0, bs_max = k, bs_result = None\<rparr> = Inr s
      \<and> (bsearch_inv l u s \<and> bs_result s \<noteq> None)"
  proof (rule while_res_total [where I = "bsearch_inv l u"
        and m = "\<lambda>s. if bs_result s = None then Suc (bs_max s - bs_min s) else 0"])
    show "bsearch_inv l u \<lparr>bs_min = 0, bs_max = k, bs_result = None\<rparr>" using assms(4-6) by (simp add: bsearch_inv_def)
  next
    fix s assume s: "bsearch_inv l u s" "bs_result s = None"
    show "\<exists>t. bsearch_step l u s = Inr t \<and> bsearch_inv l u t
      \<and> (if bs_result t = None then Suc (bs_max t - bs_min t) else 0) < (if bs_result s = None then Suc (bs_max s - bs_min s) else 0)"
      using bsearch_step_inv [OF assms(1-3) s] s(2) by simp
  qed simp
  then show ?thesis by (auto simp: bsearch_def bsearch_inv_def)
qed

section \<open>The smallest number of an interval\<close>

lemma select_small_bb_yields:
  assumes "mpbq_ok l" "mpbq_ok u" "mpbq_val l \<le> mpbq_val u"
  shows "yields (select_small_core_bb l u) (smallest True True (mpbq_val l) (mpbq_val u))"
proof -
  let ?k = "min (bq_k l) (bq_k u)" and ?has = "has_dyadic True True (mpbq_val l) (mpbq_val u)"
  have ends: "ordered_ends True True (mpbq_val l) (mpbq_val u)" using assms(3) by (simp add: ordered_ends_def)
  have has: "?has ?k"
    using assms(3) has_dyadic_mpbq [of True True "mpbq_val l" "mpbq_val u" l] has_dyadic_mpbq [of True True "mpbq_val l" "mpbq_val u" u]
    by (auto simp: between_def min_def)
  have k: "?k < 2 ^ 32" using mpbq_okD(3) [OF assms(1)] by simp
  have search: "yields (linear_search mpbq_double mpbq_double select_integer_bb l u) (smallest True True (mpbq_val l) (mpbq_val u))"
    if "int_choice True True (mpbq_val l) (mpbq_val u) None"
    using search_bb.linear_search_yields [OF assms(1,2) ends that has k] .
  have bin: "yields (bsearch l u ?k) (smallest True True (mpbq_val l) (mpbq_val u))" if "\<not> ?k \<le> 8"
    by (rule bsearch_yields [OF assms _ k has]) (use that in linarith)
  show ?thesis
    using select_integer_bb_yields [OF assms(1,2) ends] search bin smallest_int
    unfolding select_small_core_bb_def Let_def by (auto elim!: yields_mono split: option.splits)
qed

lemma select_small_qb_yields:
  assumes "mpq_ok l" "mpbq_ok u" "mpq_val l < mpbq_val u"
  shows "yields (select_small_core_qb l u) (smallest False True (mpq_val l) (mpbq_val u))"
  unfolding select_small_core_qb_def
  using assms mpbq_okD(3) [OF assms(2)] has_dyadic_mpbq [of False True "mpq_val l" "mpbq_val u" u]
  by (intro search_qb.select_yields [where j = "bq_k u"]) (simp_all add: ordered_ends_def between_def)

lemma select_small_bq_yields:
  assumes "mpbq_ok l" "mpq_ok u" "mpbq_val l < mpq_val u"
  shows "yields (select_small_core_bq l u) (smallest True False (mpbq_val l) (mpq_val u))"
  unfolding select_small_core_bq_def
  using assms mpbq_okD(3) [OF assms(1)] has_dyadic_mpbq [of True False "mpbq_val l" "mpq_val u" l]
  by (intro search_bq.select_yields [where j = "bq_k l"]) (simp_all add: ordered_ends_def between_def)

text \<open>Between two rationals the search ends when the interval, scaled by a power of two, is longer than
  one.\<close>

lemma select_small_qq_yields:
  assumes "mpq_ok l" "mpq_ok u" "1 < (mpq_val u - mpq_val l) * 2 ^ j" "j < 2 ^ 32"
  shows "yields (select_small_core_qq l u) (smallest False False (mpq_val l) (mpq_val u))"
proof -
  have "0 < (mpq_val u - mpq_val l) * 2 ^ j" using assms(3) by linarith
  then have "mpq_val l < mpq_val u" by (simp add: zero_less_mult_iff)
  moreover have "has_dyadic False False (mpq_val l) (mpq_val u) j"
  proof -
    let ?z = "\<lfloor>mpq_val l * 2 ^ j\<rfloor> + 1"
    have "mpq_val l * 2 ^ j < of_int ?z" "of_int ?z \<le> mpq_val l * 2 ^ j + 1" by linarith+
    moreover from this have "of_int ?z < mpq_val u * 2 ^ j"
      using assms(3) unfolding left_diff_distrib by linarith
    ultimately show ?thesis unfolding has_dyadic_def between_def by (intro exI [of _ ?z]) simp
  qed
  ultimately show ?thesis
    unfolding select_small_core_qq_def using assms
    by (intro search_qq.select_yields [where j = j]) (simp_all add: ordered_ends_def)
qed

lemma select_small_yields:
  assumes "mpbq_ok l" "mpbq_ok u"
  shows "yields (select_small l u) (\<lambda>r. case r of
    None \<Rightarrow> mpbq_val u < mpbq_val l
  | Some b \<Rightarrow> mpbq_val l \<le> mpbq_val u \<and> smallest True True (mpbq_val l) (mpbq_val u) b)"
  using select_small_bb_yields [OF assms] assms by (auto simp: select_small_def elim!: yields_mono)

end
