(* ===== verification/Ext_Numeral.thy ===== *)
theory Ext_Numeral
  imports Mpq_String
begin

text \<open>
  Numerals extended with infinities (util/ext_numeral.h), over \<open>unsynch_mpq_manager\<close>. The sources pass an
  extended numeral as a pair of a numeral and a kind; the numeral of an infinite kind is arbitrary. The
  functions that take an output numeral return the new pair. \<open>add\<close> and \<open>sub\<close> write into the output
  numeral while they still read their arguments, so the addresses of the three numerals are arguments.
\<close>

datatype ext_numeral_kind = EN_MINUS_INFINITY | EN_NUMERAL | EN_PLUS_INFINITY

type_synonym ext_numeral = "mpq \<times> ext_numeral_kind"

section \<open>Operations\<close>

definition ext_is_zero :: "ext_numeral \<Rightarrow> bool" where
  "ext_is_zero = (\<lambda>(a, ak). ak = EN_NUMERAL \<and> mpq_is_zero a)"

definition ext_is_pos :: "ext_numeral \<Rightarrow> bool" where
  "ext_is_pos = (\<lambda>(a, ak). ak = EN_PLUS_INFINITY \<or> (ak = EN_NUMERAL \<and> mpq_is_pos a))"

definition ext_is_neg :: "ext_numeral \<Rightarrow> bool" where
  "ext_is_neg = (\<lambda>(a, ak). ak = EN_MINUS_INFINITY \<or> (ak = EN_NUMERAL \<and> mpq_is_neg a))"

definition is_infinite :: "ext_numeral_kind \<Rightarrow> bool" where
  "is_infinite ak \<longleftrightarrow> ak \<noteq> EN_NUMERAL"

definition ext_set :: "ext_numeral \<Rightarrow> ext_numeral" where
  "ext_set b = b"

definition ext_reset :: "ext_numeral \<Rightarrow> ext_numeral" where
  "ext_reset = (\<lambda>(a, ak). (mpq_reset a, EN_NUMERAL))"

fun ext_neg :: "ext_numeral \<Rightarrow> ext_numeral" where
  "ext_neg (a, EN_MINUS_INFINITY) = (a, EN_PLUS_INFINITY)"
| "ext_neg (a, EN_NUMERAL) = (mpq_neg a, EN_NUMERAL)"
| "ext_neg (a, EN_PLUS_INFINITY) = (a, EN_MINUS_INFINITY)"

text \<open>Where the result is undefined (the inverse of zero, \<open>-oo + +oo\<close>, the quotient of two infinities), the
  sources have assertions, which fail.\<close>

fun ext_inv :: "ext_numeral \<Rightarrow> ext_numeral res" where
  "ext_inv (a, EN_MINUS_INFINITY) = Inr (mpq_reset a, EN_NUMERAL)"
| "ext_inv (a, EN_NUMERAL) = (if mpq_is_zero a then Inl Verify_failed else Inr (mpq_inv a, EN_NUMERAL))"
| "ext_inv (a, EN_PLUS_INFINITY) = Inr (mpq_reset a, EN_NUMERAL)"

text \<open>\<open>at3 f i j k a b\<close>: an operation of \<open>mpq_manager\<close> on the numbers \<open>a\<close> at address \<open>i\<close> and \<open>b\<close> at
  address \<open>j\<close> with its output at address \<open>k\<close>. When \<open>i = j\<close> the numbers are the same.\<close>

definition at3 :: "(nat \<Rightarrow> nat \<Rightarrow> nat \<Rightarrow> mpq_store \<Rightarrow> mpq_store res) \<Rightarrow> nat \<Rightarrow> nat \<Rightarrow> nat \<Rightarrow> mpq \<Rightarrow> mpq \<Rightarrow> mpq res" where
  "at3 f i j k a b = bind_res (f i j k (\<lambda>n. if n = i then a else if n = j then b else mk_q 0)) (\<lambda>\<sigma>. Inr (\<sigma> k))"

definition ext_add :: "nat \<Rightarrow> nat \<Rightarrow> nat \<Rightarrow> ext_numeral \<Rightarrow> ext_numeral \<Rightarrow> ext_numeral res" where
  "ext_add i j k = (\<lambda>(a, ak) (b, bk).
     if ak = EN_MINUS_INFINITY \<and> bk = EN_PLUS_INFINITY then Inl Verify_failed
     else if ak = EN_PLUS_INFINITY \<and> bk = EN_MINUS_INFINITY then Inl Verify_failed
     else if ak \<noteq> EN_NUMERAL then Inr (mk_q 0, ak)
     else if bk \<noteq> EN_NUMERAL then Inr (mk_q 0, bk)
     else bind_res (at3 add_at i j k a b) (\<lambda>c. Inr (c, EN_NUMERAL)))"

definition ext_sub :: "nat \<Rightarrow> nat \<Rightarrow> nat \<Rightarrow> ext_numeral \<Rightarrow> ext_numeral \<Rightarrow> ext_numeral res" where
  "ext_sub i j k = (\<lambda>(a, ak) (b, bk).
     if ak = EN_MINUS_INFINITY \<and> bk = EN_MINUS_INFINITY then Inl Verify_failed
     else if ak = EN_PLUS_INFINITY \<and> bk = EN_PLUS_INFINITY then Inl Verify_failed
     else if ak \<noteq> EN_NUMERAL then Inr (mk_q 0, ak)
     else
       (case bk of
          EN_MINUS_INFINITY \<Rightarrow> Inr (mk_q 0, EN_PLUS_INFINITY)
        | EN_NUMERAL \<Rightarrow> bind_res (at3 sub_at i j k a b) (\<lambda>c. Inr (c, EN_NUMERAL))
        | EN_PLUS_INFINITY \<Rightarrow> Inr (mk_q 0, EN_MINUS_INFINITY)))"

text \<open>The product and the quotient are modelled with an output of their own, as all callers in the
  interval arithmetic have it.\<close>

definition ext_mul :: "ext_numeral \<Rightarrow> ext_numeral \<Rightarrow> ext_numeral res" where
  "ext_mul x y =
     (if ext_is_zero x \<or> ext_is_zero y then Inr (mk_q 0, EN_NUMERAL)
      else if is_infinite (snd x) \<or> is_infinite (snd y)
      then Inr (mk_q 0, if ext_is_pos x = ext_is_pos y then EN_PLUS_INFINITY else EN_MINUS_INFINITY)
      else bind_res (mpq_mul (fst x) (fst y)) (\<lambda>c. Inr (c, EN_NUMERAL)))"

definition ext_div :: "ext_numeral \<Rightarrow> ext_numeral \<Rightarrow> ext_numeral res" where
  "ext_div x y =
     (if ext_is_zero y then Inl Verify_failed
      else if ext_is_zero x then Inr (mk_q 0, EN_NUMERAL)
      else if is_infinite (snd x) then
        if is_infinite (snd y) then Inl Verify_failed
        else Inr (mk_q 0, if ext_is_pos x = ext_is_pos y then EN_PLUS_INFINITY else EN_MINUS_INFINITY)
      else if is_infinite (snd y) then Inr (mk_q 0, EN_NUMERAL)
      else bind_res (mpq_div (fst x) (fst y)) (\<lambda>c. Inr (c, EN_NUMERAL)))"

definition ext_power :: "ext_numeral \<Rightarrow> digit \<Rightarrow> ext_numeral res" where
  "ext_power = (\<lambda>(a, ak) n.
     (case ak of
        EN_MINUS_INFINITY \<Rightarrow> Inr (a, if n mod 2 = 0 then EN_PLUS_INFINITY else ak)
      | EN_NUMERAL \<Rightarrow> bind_res (mpq_power a n) (\<lambda>a. Inr (a, ak))
      | EN_PLUS_INFINITY \<Rightarrow> Inr (a, ak)))"

definition ext_eq :: "ext_numeral \<Rightarrow> ext_numeral \<Rightarrow> bool" where
  "ext_eq = (\<lambda>(a, ak) (b, bk). if ak = EN_NUMERAL then bk = EN_NUMERAL \<and> mpq_eq a b else ak = bk)"

definition ext_neq :: "ext_numeral \<Rightarrow> ext_numeral \<Rightarrow> bool" where
  "ext_neq x y \<longleftrightarrow> \<not> ext_eq x y"

fun ext_lt :: "ext_numeral \<Rightarrow> ext_numeral \<Rightarrow> bool" where
  "ext_lt (a, EN_MINUS_INFINITY) (b, bk) \<longleftrightarrow> bk \<noteq> EN_MINUS_INFINITY"
| "ext_lt (a, EN_NUMERAL) (b, EN_MINUS_INFINITY) \<longleftrightarrow> False"
| "ext_lt (a, EN_NUMERAL) (b, EN_NUMERAL) \<longleftrightarrow> mpq_lt a b"
| "ext_lt (a, EN_NUMERAL) (b, EN_PLUS_INFINITY) \<longleftrightarrow> True"
| "ext_lt (a, EN_PLUS_INFINITY) (b, bk) \<longleftrightarrow> False"

definition ext_gt :: "ext_numeral \<Rightarrow> ext_numeral \<Rightarrow> bool" where "ext_gt x y \<longleftrightarrow> ext_lt y x"
definition ext_le :: "ext_numeral \<Rightarrow> ext_numeral \<Rightarrow> bool" where "ext_le x y \<longleftrightarrow> \<not> ext_gt x y"
definition ext_ge :: "ext_numeral \<Rightarrow> ext_numeral \<Rightarrow> bool" where "ext_ge x y \<longleftrightarrow> \<not> ext_lt x y"

definition ext_display :: "ext_numeral \<Rightarrow> string res" where
  "ext_display = (\<lambda>(a, ak).
     (case ak of
        EN_MINUS_INFINITY \<Rightarrow> Inr ''-oo''
      | EN_NUMERAL \<Rightarrow> mpq_to_string a
      | EN_PLUS_INFINITY \<Rightarrow> Inr ''+oo''))"

section \<open>The extended rational numbers\<close>

text \<open>What an extended numeral stands for. The order puts the infinities at the ends; the product of
  zero and an infinity is zero, and a number divided by an infinity is zero. Sums of opposite infinities and
  quotients of infinities or by zero have no meaning (\<open>opposite\<close>, \<open>no_quotient\<close>); the functions have some value
  there, as HOL functions are total.\<close>

datatype ext_rat = MInf | Fin rat | PInf

instantiation ext_rat :: linorder
begin

fun less_ext_rat :: "ext_rat \<Rightarrow> ext_rat \<Rightarrow> bool" where
  "less_ext_rat MInf y \<longleftrightarrow> y \<noteq> MInf"
| "less_ext_rat (Fin x) y \<longleftrightarrow> (case y of MInf \<Rightarrow> False | Fin y \<Rightarrow> x < y | PInf \<Rightarrow> True)"
| "less_ext_rat PInf y \<longleftrightarrow> False"

definition less_eq_ext_rat :: "ext_rat \<Rightarrow> ext_rat \<Rightarrow> bool" where
  "less_eq_ext_rat x y \<longleftrightarrow> \<not> y < x"

instance
proof
  fix x y z :: ext_rat
  show "x < y \<longleftrightarrow> x \<le> y \<and> \<not> y \<le> x"
    by (cases x; cases y) (auto simp: less_eq_ext_rat_def)
  show "x \<le> x"
    by (cases x) (auto simp: less_eq_ext_rat_def)
  show "x \<le> y \<Longrightarrow> y \<le> z \<Longrightarrow> x \<le> z"
    by (cases x; cases y; cases z) (auto simp: less_eq_ext_rat_def)
  show "x \<le> y \<Longrightarrow> y \<le> x \<Longrightarrow> x = y"
    by (cases x; cases y) (auto simp: less_eq_ext_rat_def)
  show "x \<le> y \<or> y \<le> x"
    by (cases x; cases y) (auto simp: less_eq_ext_rat_def)
qed

end

lemma ext_rat_less [simp]: "Fin u < Fin v \<longleftrightarrow> u < v" "\<not> Fin u < MInf" "Fin u < PInf"
  by simp_all

declare less_ext_rat.simps(2) [simp del]

lemma ext_rat_le [simp]:
  "MInf \<le> y" "y \<le> PInf" "\<not> PInf \<le> Fin v" "\<not> PInf \<le> MInf" "\<not> Fin u \<le> MInf" "Fin u \<le> Fin v \<longleftrightarrow> u \<le> v"
  by (cases y; simp add: less_eq_ext_rat_def not_less)+

fun ext_of :: "ext_numeral \<Rightarrow> ext_rat" where
  "ext_of (a, EN_MINUS_INFINITY) = MInf"
| "ext_of (a, EN_NUMERAL) = Fin (mpq_val a)"
| "ext_of (a, EN_PLUS_INFINITY) = PInf"

abbreviation ext_ok :: "ext_numeral \<Rightarrow> bool" where
  "ext_ok x \<equiv> mpq_ok (fst x)"

fun negate :: "ext_rat \<Rightarrow> ext_rat" where
  "negate MInf = PInf"
| "negate (Fin x) = Fin (- x)"
| "negate PInf = MInf"

definition infinity :: "bool \<Rightarrow> ext_rat" where
  "infinity pos = (if pos then PInf else MInf)"

fun plus_ext :: "ext_rat \<Rightarrow> ext_rat \<Rightarrow> ext_rat" where
  "plus_ext (Fin x) (Fin y) = Fin (x + y)"
| "plus_ext (Fin x) y = y"
| "plus_ext x y = x"

fun times_ext :: "ext_rat \<Rightarrow> ext_rat \<Rightarrow> ext_rat" where
  "times_ext (Fin x) (Fin y) = Fin (x * y)"
| "times_ext x y = (if x = Fin 0 \<or> y = Fin 0 then Fin 0 else infinity ((Fin 0 < x) = (Fin 0 < y)))"

fun divide_ext :: "ext_rat \<Rightarrow> ext_rat \<Rightarrow> ext_rat" where
  "divide_ext (Fin x) (Fin y) = Fin (x / y)"
| "divide_ext (Fin x) y = Fin 0"
| "divide_ext x y = infinity ((Fin 0 < x) = (Fin 0 < y))"

definition opposite :: "ext_rat \<Rightarrow> ext_rat \<Rightarrow> bool" where
  "opposite x y \<longleftrightarrow> (x = MInf \<and> y = PInf) \<or> (x = PInf \<and> y = MInf)"

definition no_quotient :: "ext_rat \<Rightarrow> ext_rat \<Rightarrow> bool" where
  "no_quotient x y \<longleftrightarrow> y = Fin 0 \<or> ((x = MInf \<or> x = PInf) \<and> (y = MInf \<or> y = PInf))"

section \<open>Correctness\<close>

lemma ext_cases:
  obtains "snd x = EN_MINUS_INFINITY" "ext_of x = MInf"
  | "snd x = EN_NUMERAL" "ext_of x = Fin (mpq_val (fst x))"
  | "snd x = EN_PLUS_INFINITY" "ext_of x = PInf"
  by (cases x; cases "snd x") auto

lemma ext_sign [simp]:
  assumes "ext_ok x"
  shows "ext_is_zero x \<longleftrightarrow> ext_of x = Fin 0" "ext_is_pos x \<longleftrightarrow> Fin 0 < ext_of x" "ext_is_neg x \<longleftrightarrow> ext_of x < Fin 0"
  using assms by (cases x; cases "snd x"; force simp: ext_is_zero_def ext_is_pos_def ext_is_neg_def)+

lemma ext_kind_of:
  "is_infinite (snd x) \<longleftrightarrow> (\<forall>v. ext_of x \<noteq> Fin v)" "snd x = EN_MINUS_INFINITY \<longleftrightarrow> ext_of x = MInf"
  "snd x = EN_PLUS_INFINITY \<longleftrightarrow> ext_of x = PInf" "snd x = EN_NUMERAL \<longleftrightarrow> ext_of x = Fin (mpq_val (fst x))"
  by (cases x; cases "snd x"; simp add: is_infinite_def)+

lemma ext_compare [simp]:
  assumes "ext_ok x" "ext_ok y"
  shows "ext_eq x y \<longleftrightarrow> ext_of x = ext_of y" "ext_neq x y \<longleftrightarrow> ext_of x \<noteq> ext_of y" "ext_lt x y \<longleftrightarrow> ext_of x < ext_of y"
    "ext_gt x y \<longleftrightarrow> ext_of y < ext_of x" "ext_le x y \<longleftrightarrow> ext_of x \<le> ext_of y" "ext_ge x y \<longleftrightarrow> ext_of y \<le> ext_of x"
proof -
  have eq: "ext_eq x y \<longleftrightarrow> ext_of x = ext_of y"
    using assms by (cases x; cases y; cases "snd x"; cases "snd y") (auto simp: ext_eq_def)
  have lt: "ext_lt u v \<longleftrightarrow> ext_of u < ext_of v" if "ext_ok u" "ext_ok v" for u v
    using that by (cases u; cases v; cases "snd u"; cases "snd v") auto
  show "ext_eq x y \<longleftrightarrow> ext_of x = ext_of y" "ext_neq x y \<longleftrightarrow> ext_of x \<noteq> ext_of y" "ext_lt x y \<longleftrightarrow> ext_of x < ext_of y"
    "ext_gt x y \<longleftrightarrow> ext_of y < ext_of x" "ext_le x y \<longleftrightarrow> ext_of x \<le> ext_of y" "ext_ge x y \<longleftrightarrow> ext_of y \<le> ext_of x"
    using eq lt assms by (simp_all add: ext_neq_def ext_gt_def ext_le_def ext_ge_def not_less)
qed

lemma mpq_reset_ok [simp]: "mpq_ok (mpq_reset a)" "mpq_val (mpq_reset a) = 0"
  by (simp_all add: mpq_reset_def reset_denominator_def mpq_ok_def mpq_val_def int_limits)

lemma ext_neg_of [simp]:
  assumes "ext_ok x"
  shows "ext_ok (ext_neg x)" "ext_of (ext_neg x) = negate (ext_of x)"
  using assms by (cases x; cases "snd x"; simp)+

lemma ext_inv_of:
  assumes "ext_ok x" "ext_of x \<noteq> Fin 0"
  shows "\<exists>z. ext_inv x = Inr z \<and> ext_ok z \<and> snd z = EN_NUMERAL \<and> ext_of z = divide_ext (Fin 1) (ext_of x)"
  using assms by (cases x; cases "snd x"; simp add: mpq_inv_val inverse_eq_divide)

text \<open>A sum may overwrite its first argument; it may overwrite the second one only when the
  denominators have no common divisor.\<close>

lemma at3_yields:
  assumes "mpq_ok a" "mpq_ok b" "i = j \<Longrightarrow> a = b" "k \<noteq> j \<or> i = j \<or> coprime (mpz_val (m_den a)) (mpz_val (m_den b))"
  shows "yields (at3 add_at i j k a b) (\<lambda>c. mpq_ok c \<and> mpq_val c = mpq_val a + mpq_val b)"
    "yields (at3 sub_at i j k a b) (\<lambda>c. mpq_ok c \<and> mpq_val c = mpq_val a - mpq_val b)"
  unfolding at3_def yields_bind yields_Inr
  by (rule yields_mono [OF add_at_yields] yields_mono [OF sub_at_yields]; use assms in auto)+

lemma ext_add_yields:
  assumes "ext_ok x" "ext_ok y" "k \<noteq> j \<or> i = j" "i = j \<Longrightarrow> x = y"
  shows "\<not> opposite (ext_of x) (ext_of y) \<Longrightarrow> yields (ext_add i j k x y) (\<lambda>z. ext_ok z \<and> ext_of z = plus_ext (ext_of x) (ext_of y))"
    "\<not> opposite (ext_of x) (negate (ext_of y)) \<Longrightarrow>
      yields (ext_sub i j k x y) (\<lambda>z. ext_ok z \<and> ext_of z = plus_ext (ext_of x) (negate (ext_of y)))"
proof -
  obtain a ak b bk where xy: "x = (a, ak)" "y = (b, bk)" by fastforce
  note sum = at3_yields [of a b i j k]
  show "yields (ext_add i j k x y) (\<lambda>z. ext_ok z \<and> ext_of z = plus_ext (ext_of x) (ext_of y))" if "\<not> opposite (ext_of x) (ext_of y)"
    using sum(1) assms that by (cases ak; cases bk) (auto simp: xy ext_add_def opposite_def elim!: yields_mono)
  show "yields (ext_sub i j k x y) (\<lambda>z. ext_ok z \<and> ext_of z = plus_ext (ext_of x) (negate (ext_of y)))"
    if "\<not> opposite (ext_of x) (negate (ext_of y))"
    using sum(2) assms that by (cases ak; cases bk) (auto simp: xy ext_sub_def opposite_def elim!: yields_mono)
qed

lemma ext_add_opposite:
  "opposite (ext_of x) (ext_of y) \<Longrightarrow> ext_add i j k x y = Inl Verify_failed"
  "opposite (ext_of x) (negate (ext_of y)) \<Longrightarrow> ext_sub i j k x y = Inl Verify_failed"
  by (cases x; cases y; cases "snd x"; cases "snd y"; simp add: opposite_def ext_add_def ext_sub_def)+

lemma ext_mul_yields:
  assumes "ext_ok x" "ext_ok y"
  shows "yields (ext_mul x y) (\<lambda>z. ext_ok z \<and> ext_of z = times_ext (ext_of x) (ext_of y))"
  using assms mpq_mul_yields [OF assms]
  by (cases x rule: ext_cases; cases y rule: ext_cases)
    (auto simp: ext_mul_def is_infinite_def infinity_def elim!: yields_mono)

lemma ext_div_yields:
  assumes "ext_ok x" "ext_ok y" "\<not> no_quotient (ext_of x) (ext_of y)"
  shows "yields (ext_div x y) (\<lambda>z. ext_ok z \<and> ext_of z = divide_ext (ext_of x) (ext_of y))"
  using assms mpq_div_yields [OF assms(1,2)]
  by (cases x rule: ext_cases; cases y rule: ext_cases)
    (auto simp: ext_div_def no_quotient_def is_infinite_def infinity_def elim!: yields_mono)

lemma ext_div_undefined:
  assumes "ext_ok x" "ext_ok y" "no_quotient (ext_of x) (ext_of y)"
  shows "ext_div x y = Inl Verify_failed"
  using assms by (cases x rule: ext_cases; cases y rule: ext_cases) (auto simp: ext_div_def no_quotient_def is_infinite_def)

fun power_ext :: "ext_rat \<Rightarrow> nat \<Rightarrow> ext_rat" where
  "power_ext MInf n = infinity (even n)"
| "power_ext (Fin x) n = Fin (x ^ n)"
| "power_ext PInf n = PInf"

lemma digit_even: "(n :: digit) mod 2 = 0 \<longleftrightarrow> even (unat n)"
proof -
  have "n mod 2 = 0 \<longleftrightarrow> unat (n mod 2) = 0" by (simp only: unat_eq_zero)
  then show ?thesis by (simp add: unat_mod_distrib even_iff_mod_2_eq_zero)
qed

lemma ext_power_yields:
  assumes "ext_ok x" "unat n < 2 ^ 31"
  shows "yields (ext_power x n) (\<lambda>z. ext_ok z \<and> ext_of z = power_ext (ext_of x) (unat n))"
  using assms mpq_power_yields [OF assms]
  by (cases x; cases "snd x") (auto simp: ext_power_def digit_even infinity_def elim!: yields_mono)

end
