(* ===== verification/Interval.thy ===== *)
theory Interval
  imports Ext_Numeral
begin

text \<open>
  Interval arithmetic (math/interval/interval.h, interval_def.h) at the default configuration
  \<open>im_default_config\<close>: intervals of rationals, for which \<open>m().precise()\<close> holds and setting the rounding mode
  is a no-op. This theory holds the interval type, its tests, the linear operations (negation, sums,
  products with a number) and what the dependency rules mean. Intervals live in a store, because the
  sources let the result overwrite an argument; the temporaries of the manager are values.
\<close>

unbundle bit_operations_syntax

section \<open>Intervals\<close>

record interval =
  m_lower :: mpq
  m_upper :: mpq
  m_lower_open :: bool
  m_upper_open :: bool
  m_lower_inf :: bool
  m_upper_inf :: bool

type_synonym ivl_store = "nat \<Rightarrow> interval"

definition new_interval :: interval where
  "new_interval = \<lparr>m_lower = mk_q 0, m_upper = mk_q 0, m_lower_open = False, m_upper_open = False,
     m_lower_inf = True, m_upper_inf = True\<rparr>"

definition lower_kind :: "interval \<Rightarrow> ext_numeral_kind" where
  "lower_kind a = (if m_lower_inf a then EN_MINUS_INFINITY else EN_NUMERAL)"

definition upper_kind :: "interval \<Rightarrow> ext_numeral_kind" where
  "upper_kind a = (if m_upper_inf a then EN_PLUS_INFINITY else EN_NUMERAL)"

abbreviation lower_ext :: "interval \<Rightarrow> ext_numeral" where
  "lower_ext a \<equiv> (m_lower a, lower_kind a)"

abbreviation upper_ext :: "interval \<Rightarrow> ext_numeral" where
  "upper_ext a \<equiv> (m_upper a, upper_kind a)"

definition lower_is_neg :: "interval \<Rightarrow> bool" where "lower_is_neg a = ext_is_neg (lower_ext a)"
definition lower_is_pos :: "interval \<Rightarrow> bool" where "lower_is_pos a = ext_is_pos (lower_ext a)"
definition lower_is_zero :: "interval \<Rightarrow> bool" where "lower_is_zero a = ext_is_zero (lower_ext a)"
definition upper_is_neg :: "interval \<Rightarrow> bool" where "upper_is_neg a = ext_is_neg (upper_ext a)"
definition upper_is_pos :: "interval \<Rightarrow> bool" where "upper_is_pos a = ext_is_pos (upper_ext a)"
definition upper_is_zero :: "interval \<Rightarrow> bool" where "upper_is_zero a = ext_is_zero (upper_ext a)"

definition is_P :: "interval \<Rightarrow> bool" where
  "is_P n \<longleftrightarrow> lower_is_pos n \<or> lower_is_zero n"
definition is_P0 :: "interval \<Rightarrow> bool" where
  "is_P0 n \<longleftrightarrow> lower_is_zero n \<and> \<not> m_lower_open n"
definition is_P1 :: "interval \<Rightarrow> bool" where
  "is_P1 n \<longleftrightarrow> lower_is_pos n \<or> (lower_is_zero n \<and> m_lower_open n)"
definition is_N :: "interval \<Rightarrow> bool" where
  "is_N n \<longleftrightarrow> upper_is_neg n \<or> upper_is_zero n"
definition is_N0 :: "interval \<Rightarrow> bool" where
  "is_N0 n \<longleftrightarrow> upper_is_zero n \<and> \<not> m_upper_open n"
definition is_N1 :: "interval \<Rightarrow> bool" where
  "is_N1 n \<longleftrightarrow> upper_is_neg n \<or> (upper_is_zero n \<and> m_upper_open n)"
definition is_M :: "interval \<Rightarrow> bool" where
  "is_M n \<longleftrightarrow> lower_is_neg n \<and> upper_is_pos n"
definition ivl_is_zero :: "interval \<Rightarrow> bool" where
  "ivl_is_zero n \<longleftrightarrow> lower_is_zero n \<and> upper_is_zero n"

definition reset_lower :: "interval \<Rightarrow> interval" where
  "reset_lower a = a\<lparr>m_lower := mpq_reset (m_lower a), m_lower_open := True, m_lower_inf := True\<rparr>"

definition reset_upper :: "interval \<Rightarrow> interval" where
  "reset_upper a = a\<lparr>m_upper := mpq_reset (m_upper a), m_upper_open := True, m_upper_inf := True\<rparr>"

definition ivl_reset :: "interval \<Rightarrow> interval" where
  "ivl_reset a = reset_upper (reset_lower a)"

definition contains_zero :: "interval \<Rightarrow> bool" where
  "contains_zero n \<longleftrightarrow>
     (lower_is_neg n \<or> (lower_is_zero n \<and> \<not> m_lower_open n)) \<and>
     (upper_is_pos n \<or> (upper_is_zero n \<and> \<not> m_upper_open n))"

definition ivl_contains :: "interval \<Rightarrow> mpq \<Rightarrow> bool" where
  "ivl_contains n v =
     (if \<not> m_lower_inf n \<and> mpq_lt v (m_lower n) then False
      else if \<not> m_lower_inf n \<and> mpq_eq v (m_lower n) \<and> m_lower_open n then False
      else if \<not> m_upper_inf n \<and> mpq_gt v (m_upper n) then False
      else if \<not> m_upper_inf n \<and> mpq_eq v (m_upper n) \<and> m_upper_open n then False
      else True)"

definition ivl_display :: "interval \<Rightarrow> string res" where
  "ivl_display n =
     bind_res (ext_display (lower_ext n)) (\<lambda>l.
     bind_res (ext_display (upper_ext n)) (\<lambda>u.
       Inr ((if m_lower_open n then ''('' else ''['') @ l @ '', '' @ u @ (if m_upper_open n then '')'' else '']''))))"

text \<open>The assertions of \<open>check_invariant\<close>, as a test.\<close>

definition check_invariant :: "interval \<Rightarrow> bool" where
  "check_invariant n =
     (if ext_eq (lower_ext n) (upper_ext n) then \<not> m_lower_open n \<and> \<not> m_upper_open n
      else ext_lt (lower_ext n) (upper_ext n))"

definition ivl_eq :: "interval \<Rightarrow> interval \<Rightarrow> bool" where
  "ivl_eq a b \<longleftrightarrow> ext_eq (lower_ext a) (lower_ext b) \<and> ext_eq (upper_ext a) (upper_ext b)
     \<and> m_lower_open a = m_lower_open b \<and> m_upper_open a = m_upper_open b"

definition ivl_before :: "interval \<Rightarrow> interval \<Rightarrow> bool" where
  "ivl_before a b =
     (if m_upper_inf a \<or> m_lower_inf b then False
      else mpq_lt (m_upper a) (m_lower b) \<or> (m_upper_open a \<and> mpq_eq (m_upper a) (m_lower b)))"

section \<open>Linear operations\<close>

text \<open>\<open>set(t, s)\<close> keeps the numeral of a bound that becomes infinite.\<close>

definition ivl_set :: "nat \<Rightarrow> nat \<Rightarrow> ivl_store \<Rightarrow> ivl_store" where
  "ivl_set t s \<sigma> =
     (if t = s then \<sigma>
      else
        let \<sigma> = (if m_lower_inf (\<sigma> s) then \<sigma>(t := (\<sigma> t)\<lparr>m_lower_inf := True\<rparr>)
                 else \<sigma>(t := (\<sigma> t)\<lparr>m_lower := m_lower (\<sigma> s), m_lower_inf := False\<rparr>));
            \<sigma> = (if m_upper_inf (\<sigma> s) then \<sigma>(t := (\<sigma> t)\<lparr>m_upper_inf := True\<rparr>)
                 else \<sigma>(t := (\<sigma> t)\<lparr>m_upper := m_upper (\<sigma> s), m_upper_inf := False\<rparr>))
        in \<sigma>(t := (\<sigma> t)\<lparr>m_lower_open := m_lower_open (\<sigma> s), m_upper_open := m_upper_open (\<sigma> s)\<rparr>))"

definition ivl_set_num :: "nat \<Rightarrow> mpq \<Rightarrow> ivl_store \<Rightarrow> ivl_store" where
  "ivl_set_num t n \<sigma> =
     \<sigma>(t := \<lparr>m_lower = n, m_upper = n, m_lower_open = False, m_upper_open = False,
             m_lower_inf = False, m_upper_inf = False\<rparr>)"

definition ivl_neg :: "nat \<Rightarrow> nat \<Rightarrow> ivl_store \<Rightarrow> ivl_store" where
  "ivl_neg a b \<sigma> =
     (if m_lower_inf (\<sigma> a) then
        if m_upper_inf (\<sigma> a) then \<sigma>(b := ivl_reset (\<sigma> b))
        else
          let \<sigma> = \<sigma>(b := (\<sigma> b)\<lparr>m_lower := m_upper (\<sigma> a)\<rparr>);
              \<sigma> = \<sigma>(b := (\<sigma> b)\<lparr>m_lower := mpq_neg (m_lower (\<sigma> b)), m_lower_inf := False\<rparr>);
              \<sigma> = \<sigma>(b := (\<sigma> b)\<lparr>m_lower_open := m_upper_open (\<sigma> a)\<rparr>)
          in \<sigma>(b := (\<sigma> b)\<lparr>m_upper := mpq_reset (m_upper (\<sigma> b)), m_upper_inf := True, m_upper_open := True\<rparr>)
      else if m_upper_inf (\<sigma> a) then
          let \<sigma> = \<sigma>(b := (\<sigma> b)\<lparr>m_upper := m_lower (\<sigma> a)\<rparr>);
              \<sigma> = \<sigma>(b := (\<sigma> b)\<lparr>m_upper := mpq_neg (m_upper (\<sigma> b)), m_upper_inf := False\<rparr>);
              \<sigma> = \<sigma>(b := (\<sigma> b)\<lparr>m_upper_open := m_lower_open (\<sigma> a)\<rparr>)
          in \<sigma>(b := (\<sigma> b)\<lparr>m_lower := mpq_reset (m_lower (\<sigma> b)), m_lower_inf := True, m_lower_open := True\<rparr>)
      else
          let \<sigma> = (if a = b then \<sigma>(b := (\<sigma> b)\<lparr>m_lower := m_upper (\<sigma> b), m_upper := m_lower (\<sigma> b)\<rparr>)
                   else \<sigma>(b := (\<sigma> b)\<lparr>m_lower := m_upper (\<sigma> a), m_upper := m_lower (\<sigma> a)\<rparr>));
              \<sigma> = \<sigma>(b := (\<sigma> b)\<lparr>m_lower := mpq_neg (m_lower (\<sigma> b)), m_upper := mpq_neg (m_upper (\<sigma> b)),
                               m_lower_inf := False, m_upper_inf := False\<rparr>);
              l_o = m_lower_open (\<sigma> a); u_o = m_upper_open (\<sigma> a)
          in \<sigma>(b := (\<sigma> b)\<lparr>m_lower_open := u_o, m_upper_open := l_o\<rparr>))"

text \<open>The cells of the bounds of the interval at an address.\<close>

definition lower_cell :: "nat \<Rightarrow> nat" where "lower_cell i = 2 * i"
definition upper_cell :: "nat \<Rightarrow> nat" where "upper_cell i = 2 * i + 1"

definition ivl_add :: "nat \<Rightarrow> nat \<Rightarrow> nat \<Rightarrow> ivl_store \<Rightarrow> ivl_store res" where
  "ivl_add a b c \<sigma> =
     bind_res (ext_add (lower_cell a) (lower_cell b) (lower_cell c) (lower_ext (\<sigma> a)) (lower_ext (\<sigma> b))) (\<lambda>(l, new_l_kind).
     let \<sigma> = \<sigma>(c := (\<sigma> c)\<lparr>m_lower := l\<rparr>) in
     bind_res (ext_add (upper_cell a) (upper_cell b) (upper_cell c) (upper_ext (\<sigma> a)) (upper_ext (\<sigma> b))) (\<lambda>(u, new_u_kind).
     let \<sigma> = \<sigma>(c := (\<sigma> c)\<lparr>m_upper := u\<rparr>);
         \<sigma> = \<sigma>(c := (\<sigma> c)\<lparr>m_lower_inf := new_l_kind = EN_MINUS_INFINITY, m_upper_inf := new_u_kind = EN_PLUS_INFINITY\<rparr>);
         \<sigma> = \<sigma>(c := (\<sigma> c)\<lparr>m_lower_open := m_lower_open (\<sigma> a) \<or> m_lower_open (\<sigma> b)\<rparr>)
     in Inr (\<sigma>(c := (\<sigma> c)\<lparr>m_upper_open := m_upper_open (\<sigma> a) \<or> m_upper_open (\<sigma> b)\<rparr>))))"

definition ivl_sub :: "nat \<Rightarrow> nat \<Rightarrow> nat \<Rightarrow> ivl_store \<Rightarrow> ivl_store res" where
  "ivl_sub a b c \<sigma> =
     bind_res (ext_sub (lower_cell a) (upper_cell b) (lower_cell c) (lower_ext (\<sigma> a)) (upper_ext (\<sigma> b))) (\<lambda>(l, new_l_kind).
     let \<sigma> = \<sigma>(c := (\<sigma> c)\<lparr>m_lower := l\<rparr>) in
     bind_res (ext_sub (upper_cell a) (lower_cell b) (upper_cell c) (upper_ext (\<sigma> a)) (lower_ext (\<sigma> b))) (\<lambda>(u, new_u_kind).
     let \<sigma> = \<sigma>(c := (\<sigma> c)\<lparr>m_upper := u\<rparr>);
         \<sigma> = \<sigma>(c := (\<sigma> c)\<lparr>m_lower_inf := new_l_kind = EN_MINUS_INFINITY, m_upper_inf := new_u_kind = EN_PLUS_INFINITY\<rparr>);
         \<sigma> = \<sigma>(c := (\<sigma> c)\<lparr>m_lower_open := m_lower_open (\<sigma> a) \<or> m_upper_open (\<sigma> b)\<rparr>)
     in Inr (\<sigma>(c := (\<sigma> c)\<lparr>m_upper_open := m_upper_open (\<sigma> a) \<or> m_lower_open (\<sigma> b)\<rparr>))))"

text \<open>\<open>b <- k * a\<close>, or \<open>b <- a / k\<close> when \<open>inv_k\<close>; for \<open>k = 0\<close> the result is the whole line.\<close>

definition ivl_div_mul :: "mpq \<Rightarrow> nat \<Rightarrow> nat \<Rightarrow> bool \<Rightarrow> ivl_store \<Rightarrow> ivl_store res" where
  "ivl_div_mul k a b inv_k \<sigma> =
     (if mpq_is_zero k then Inr (\<sigma>(b := ivl_reset (\<sigma> b)))
      else
        let l = lower_ext (\<sigma> a); u = upper_ext (\<sigma> a); l_o = m_lower_open (\<sigma> a); u_o = m_upper_open (\<sigma> a);
            f = (if inv_k then mpq_inv k else k, EN_NUMERAL)
        in
        bind_res
          (if mpq_is_pos k then
             let \<sigma> = \<sigma>(b := (\<sigma> b)\<lparr>m_lower_open := l_o, m_upper_open := u_o\<rparr>) in
             bind_res (ext_mul l f) (\<lambda>new_l. bind_res (ext_mul u f) (\<lambda>new_u. Inr (\<sigma>, new_l, new_u)))
           else
             let \<sigma> = \<sigma>(b := (\<sigma> b)\<lparr>m_lower_open := u_o, m_upper_open := l_o\<rparr>) in
             bind_res (ext_mul u f) (\<lambda>new_l. bind_res (ext_mul l f) (\<lambda>new_u. Inr (\<sigma>, new_l, new_u))))
          (\<lambda>(\<sigma>, (new_l, new_l_kind), (new_u, new_u_kind)).
             Inr (\<sigma>(b := (\<sigma> b)\<lparr>m_lower := new_l, m_upper := new_u,
               m_lower_inf := new_l_kind = EN_MINUS_INFINITY, m_upper_inf := new_u_kind = EN_PLUS_INFINITY\<rparr>))))"

definition ivl_mul_num :: "mpq \<Rightarrow> nat \<Rightarrow> nat \<Rightarrow> ivl_store \<Rightarrow> ivl_store res" where
  "ivl_mul_num k a b = ivl_div_mul k a b False"

definition ivl_div_num :: "nat \<Rightarrow> mpq \<Rightarrow> nat \<Rightarrow> ivl_store \<Rightarrow> ivl_store res" where
  "ivl_div_num a k b = ivl_div_mul k a b True"

definition ivl_mul_frac :: "int \<Rightarrow> int \<Rightarrow> nat \<Rightarrow> nat \<Rightarrow> ivl_store \<Rightarrow> ivl_store res" where
  "ivl_mul_frac n d a b \<sigma> = bind_res (mpq_set_int2 n d) (\<lambda>aux. ivl_mul_num aux a b \<sigma>)"

section \<open>Dependency rules\<close>

text \<open>A rule says which bounds of the arguments a bound of the result depends on.\<close>

type_synonym deps_combine_rule = "16 word"

definition DEP_IN_LOWER1 :: deps_combine_rule where "DEP_IN_LOWER1 = 1"
definition DEP_IN_UPPER1 :: deps_combine_rule where "DEP_IN_UPPER1 = 2"
definition DEP_IN_LOWER2 :: deps_combine_rule where "DEP_IN_LOWER2 = 4"
definition DEP_IN_UPPER2 :: deps_combine_rule where "DEP_IN_UPPER2 = 8"

definition dep_in_lower1 :: "deps_combine_rule \<Rightarrow> bool" where "dep_in_lower1 d \<longleftrightarrow> d AND DEP_IN_LOWER1 \<noteq> 0"
definition dep_in_lower2 :: "deps_combine_rule \<Rightarrow> bool" where "dep_in_lower2 d \<longleftrightarrow> d AND DEP_IN_LOWER2 \<noteq> 0"
definition dep_in_upper1 :: "deps_combine_rule \<Rightarrow> bool" where "dep_in_upper1 d \<longleftrightarrow> d AND DEP_IN_UPPER1 \<noteq> 0"
definition dep_in_upper2 :: "deps_combine_rule \<Rightarrow> bool" where "dep_in_upper2 d \<longleftrightarrow> d AND DEP_IN_UPPER2 \<noteq> 0"

definition dep1_to_dep2 :: "deps_combine_rule \<Rightarrow> deps_combine_rule" where
  "dep1_to_dep2 d = push_bit 2 d"

record interval_deps_combine_rule =
  m_lower_combine :: deps_combine_rule
  m_upper_combine :: deps_combine_rule

definition reset_deps :: interval_deps_combine_rule where
  "reset_deps = \<lparr>m_lower_combine = 0, m_upper_combine = 0\<rparr>"

definition neg_jst :: "interval \<Rightarrow> interval_deps_combine_rule" where
  "neg_jst a =
     (if m_lower_inf a then
        if m_upper_inf a then \<lparr>m_lower_combine = 0, m_upper_combine = 0\<rparr>
        else \<lparr>m_lower_combine = DEP_IN_UPPER1, m_upper_combine = 0\<rparr>
      else
        if m_upper_inf a then \<lparr>m_lower_combine = 0, m_upper_combine = DEP_IN_LOWER1\<rparr>
        else \<lparr>m_lower_combine = DEP_IN_UPPER1, m_upper_combine = DEP_IN_LOWER1\<rparr>)"

definition add_jst :: interval_deps_combine_rule where
  "add_jst = \<lparr>m_lower_combine = DEP_IN_LOWER1 OR DEP_IN_LOWER2, m_upper_combine = DEP_IN_UPPER1 OR DEP_IN_UPPER2\<rparr>"

definition sub_jst :: interval_deps_combine_rule where
  "sub_jst = \<lparr>m_lower_combine = DEP_IN_LOWER1 OR DEP_IN_UPPER2, m_upper_combine = DEP_IN_UPPER1 OR DEP_IN_LOWER2\<rparr>"

definition mul_num_jst :: "mpq \<Rightarrow> interval_deps_combine_rule" where
  "mul_num_jst k =
     (if mpq_is_zero k then \<lparr>m_lower_combine = 0, m_upper_combine = 0\<rparr>
      else if mpq_is_neg k then \<lparr>m_lower_combine = DEP_IN_UPPER1, m_upper_combine = DEP_IN_LOWER1\<rparr>
      else \<lparr>m_lower_combine = DEP_IN_LOWER1, m_upper_combine = DEP_IN_UPPER1\<rparr>)"

definition div_num_jst :: "mpq \<Rightarrow> interval_deps_combine_rule" where
  "div_num_jst k = mul_num_jst k"

text \<open>The operations that also return the rule compute it first.\<close>

definition ivl_neg_deps :: "nat \<Rightarrow> nat \<Rightarrow> ivl_store \<Rightarrow> interval_deps_combine_rule \<times> ivl_store" where
  "ivl_neg_deps a b \<sigma> = (neg_jst (\<sigma> a), ivl_neg a b \<sigma>)"

definition ivl_add_deps :: "nat \<Rightarrow> nat \<Rightarrow> nat \<Rightarrow> ivl_store \<Rightarrow> (interval_deps_combine_rule \<times> ivl_store) res" where
  "ivl_add_deps a b c \<sigma> = bind_res (ivl_add a b c \<sigma>) (\<lambda>\<sigma>. Inr (add_jst, \<sigma>))"

definition ivl_sub_deps :: "nat \<Rightarrow> nat \<Rightarrow> nat \<Rightarrow> ivl_store \<Rightarrow> (interval_deps_combine_rule \<times> ivl_store) res" where
  "ivl_sub_deps a b c \<sigma> = bind_res (ivl_sub a b c \<sigma>) (\<lambda>\<sigma>. Inr (sub_jst, \<sigma>))"

definition ivl_mul_num_deps :: "mpq \<Rightarrow> nat \<Rightarrow> nat \<Rightarrow> ivl_store \<Rightarrow> (interval_deps_combine_rule \<times> ivl_store) res" where
  "ivl_mul_num_deps k a b \<sigma> = bind_res (ivl_mul_num k a b \<sigma>) (\<lambda>\<sigma>. Inr (mul_num_jst k, \<sigma>))"

definition ivl_div_num_deps :: "nat \<Rightarrow> mpq \<Rightarrow> nat \<Rightarrow> ivl_store \<Rightarrow> (interval_deps_combine_rule \<times> ivl_store) res" where
  "ivl_div_num_deps a k b \<sigma> = bind_res (ivl_div_num a k b \<sigma>) (\<lambda>\<sigma>. Inr (div_num_jst k, \<sigma>))"

section \<open>What an interval contains\<close>

abbreviation rv :: "mpq \<Rightarrow> real" where
  "rv q \<equiv> real_of_rat (mpq_val q)"

text \<open>A real number satisfies a bound.\<close>

fun above :: "ext_rat \<Rightarrow> bool \<Rightarrow> real \<Rightarrow> bool" where
  "above MInf s x \<longleftrightarrow> True"
| "above (Fin l) s x \<longleftrightarrow> (if s then real_of_rat l < x else real_of_rat l \<le> x)"
| "above PInf s x \<longleftrightarrow> False"

fun below :: "ext_rat \<Rightarrow> bool \<Rightarrow> real \<Rightarrow> bool" where
  "below MInf s x \<longleftrightarrow> False"
| "below (Fin u) s x \<longleftrightarrow> (if s then x < real_of_rat u else x \<le> real_of_rat u)"
| "below PInf s x \<longleftrightarrow> True"

definition lower_holds :: "interval \<Rightarrow> real \<Rightarrow> bool" where
  "lower_holds a x \<longleftrightarrow> m_lower_inf a \<or> (if m_lower_open a then rv (m_lower a) < x else rv (m_lower a) \<le> x)"

definition upper_holds :: "interval \<Rightarrow> real \<Rightarrow> bool" where
  "upper_holds a x \<longleftrightarrow> m_upper_inf a \<or> (if m_upper_open a then x < rv (m_upper a) else x \<le> rv (m_upper a))"

definition members :: "interval \<Rightarrow> real set" where
  "members a = {x. lower_holds a x \<and> upper_holds a x}"

definition ivl_ok :: "interval \<Rightarrow> bool" where
  [simp]: "ivl_ok a \<longleftrightarrow> mpq_ok (m_lower a) \<and> mpq_ok (m_upper a)"

text \<open>The invariant of the sources, and the numbers are canonical.\<close>

definition ivl_wf :: "interval \<Rightarrow> bool" where
  "ivl_wf a \<longleftrightarrow> ivl_ok a \<and> check_invariant a"

lemma of_rat_dense:
  assumes "real_of_rat p < real_of_rat q"
  shows "\<exists>x. real_of_rat p < x \<and> x < real_of_rat q"
  using dense [OF assms] by blast

lemma ext_of_bounds [simp]:
  "ext_of (lower_ext a) = (if m_lower_inf a then MInf else Fin (mpq_val (m_lower a)))"
  "ext_of (upper_ext a) = (if m_upper_inf a then PInf else Fin (mpq_val (m_upper a)))"
  by (simp_all add: lower_kind_def upper_kind_def)

lemma bounds_not_opposite [simp]:
  "\<not> opposite (ext_of (lower_ext a)) (ext_of (lower_ext b))" "\<not> opposite (ext_of (upper_ext a)) (ext_of (upper_ext b))"
  "\<not> opposite (ext_of (lower_ext a)) (negate (ext_of (upper_ext b)))"
  "\<not> opposite (ext_of (upper_ext a)) (negate (ext_of (lower_ext b)))"
  by (simp_all add: opposite_def)

lemma holds_ext:
  "lower_holds a x \<longleftrightarrow> above (ext_of (lower_ext a)) (m_lower_open a) x"
  "upper_holds a x \<longleftrightarrow> below (ext_of (upper_ext a)) (m_upper_open a) x"
  by (auto simp: lower_holds_def upper_holds_def)

text \<open>The invariant says that the interval is not empty.\<close>

lemma check_invariant_iff:
  assumes "ivl_ok a"
  shows "check_invariant a \<longleftrightarrow> members a \<noteq> {}"
proof -
  let ?l = "rv (m_lower a)" and ?u = "rv (m_upper a)"
  have ok: "mpq_ok (m_lower a)" "mpq_ok (m_upper a)" using assms by (simp_all add: ivl_ok_def)
  have inv: "check_invariant a \<longleftrightarrow>
      m_lower_inf a \<or> m_upper_inf a \<or> ?l < ?u \<or> (?l = ?u \<and> \<not> m_lower_open a \<and> \<not> m_upper_open a)"
    using ok by (auto simp: check_invariant_def of_rat_less)
  have "\<exists>x. x \<in> members a" if "m_lower_inf a"
    by (rule exI [of _ "?u - 1"]) (use that in \<open>simp add: members_def lower_holds_def upper_holds_def\<close>)
  moreover have "\<exists>x. x \<in> members a" if "m_upper_inf a"
    by (rule exI [of _ "?l + 1"]) (use that in \<open>simp add: members_def lower_holds_def upper_holds_def\<close>)
  moreover have "\<exists>x. x \<in> members a" if "?l < ?u"
    by (rule exI [of _ "(?l + ?u) / 2"]) (use that in \<open>simp add: members_def lower_holds_def upper_holds_def\<close>)
  moreover have "\<exists>x. x \<in> members a" if "?l = ?u" "\<not> m_lower_open a" "\<not> m_upper_open a"
    by (rule exI [of _ ?u]) (use that in \<open>simp add: members_def lower_holds_def upper_holds_def\<close>)
  moreover have "m_lower_inf a \<or> m_upper_inf a \<or> ?l < ?u \<or> (?l = ?u \<and> \<not> m_lower_open a \<and> \<not> m_upper_open a)"
    if "x \<in> members a" for x
    using that by (auto simp: members_def lower_holds_def upper_holds_def simp del: of_rat_eq_iff split: if_splits)
  ultimately show ?thesis unfolding inv by blast
qed

lemma ivl_wf_iff: "ivl_wf a \<longleftrightarrow> ivl_ok a \<and> members a \<noteq> {}"
  using check_invariant_iff by (auto simp: ivl_wf_def)

lemma ivl_wf_member:
  assumes "ivl_wf a"
  obtains x where "lower_holds a x" "upper_holds a x" "x \<in> members a"
  using assms by (auto simp: ivl_wf_iff members_def)

text \<open>The sign tests on a valid interval.\<close>

lemma bound_signs:
  assumes "ivl_ok a"
  shows "lower_is_neg a \<longleftrightarrow> m_lower_inf a \<or> rv (m_lower a) < 0"
    "lower_is_pos a \<longleftrightarrow> \<not> m_lower_inf a \<and> 0 < rv (m_lower a)"
    "lower_is_zero a \<longleftrightarrow> \<not> m_lower_inf a \<and> rv (m_lower a) = 0"
    "upper_is_neg a \<longleftrightarrow> \<not> m_upper_inf a \<and> rv (m_upper a) < 0"
    "upper_is_pos a \<longleftrightarrow> m_upper_inf a \<or> 0 < rv (m_upper a)"
    "upper_is_zero a \<longleftrightarrow> \<not> m_upper_inf a \<and> rv (m_upper a) = 0"
  using assms by (auto simp: lower_is_neg_def lower_is_pos_def lower_is_zero_def upper_is_neg_def upper_is_pos_def upper_is_zero_def
      lower_kind_def upper_kind_def ext_is_pos_def ext_is_neg_def ext_is_zero_def)

lemma contains_zero_iff:
  assumes "ivl_ok a"
  shows "contains_zero a \<longleftrightarrow> 0 \<in> members a"
  using assms by (auto simp: contains_zero_def bound_signs members_def lower_holds_def upper_holds_def)

lemma ivl_contains_iff:
  assumes "ivl_ok a" "mpq_ok v"
  shows "ivl_contains a v \<longleftrightarrow> rv v \<in> members a"
  using assms by (auto simp: ivl_contains_def members_def lower_holds_def upper_holds_def of_rat_less of_rat_less_eq)

text \<open>Members near the bounds.\<close>

lemma near_lower:
  assumes "ivl_wf a"
  shows "m_lower_inf a \<Longrightarrow> \<exists>x \<in> members a. x \<le> z"
    "rv (m_lower a) < z \<Longrightarrow> \<exists>x \<in> members a. x \<le> z"
    "\<not> m_lower_inf a \<Longrightarrow> \<not> m_lower_open a \<Longrightarrow> rv (m_lower a) \<in> members a"
proof -
  obtain x where x: "lower_holds a x" "upper_holds a x" using assms by (rule ivl_wf_member)
  have up: "upper_holds a y" if "y \<le> x" for y
    using x(2) that by (auto simp: upper_holds_def split: if_splits)
  show "m_lower_inf a \<Longrightarrow> \<exists>x \<in> members a. x \<le> z"
    by (rule bexI [of _ "min x z"]) (use up in \<open>auto simp: members_def lower_holds_def\<close>)
  show "rv (m_lower a) < z \<Longrightarrow> \<exists>x \<in> members a. x \<le> z"
    by (rule bexI [of _ "min x z"]) (use up x(1) in \<open>auto simp: members_def lower_holds_def min_def split: if_splits\<close>)
  show "rv (m_lower a) \<in> members a" if "\<not> m_lower_inf a" "\<not> m_lower_open a"
    using that up x(1) by (simp add: members_def lower_holds_def)
qed

lemma near_upper:
  assumes "ivl_wf a"
  shows "m_upper_inf a \<Longrightarrow> \<exists>x \<in> members a. z \<le> x"
    "z < rv (m_upper a) \<Longrightarrow> \<exists>x \<in> members a. z \<le> x"
    "\<not> m_upper_inf a \<Longrightarrow> \<not> m_upper_open a \<Longrightarrow> rv (m_upper a) \<in> members a"
proof -
  obtain x where x: "lower_holds a x" "upper_holds a x" using assms by (rule ivl_wf_member)
  have lo: "lower_holds a y" if "x \<le> y" for y
    using x(1) that by (auto simp: lower_holds_def split: if_splits)
  show "m_upper_inf a \<Longrightarrow> \<exists>x \<in> members a. z \<le> x"
    by (rule bexI [of _ "max x z"]) (use lo in \<open>auto simp: members_def upper_holds_def\<close>)
  show "z < rv (m_upper a) \<Longrightarrow> \<exists>x \<in> members a. z \<le> x"
    by (rule bexI [of _ "max x z"]) (use lo x(2) in \<open>auto simp: members_def upper_holds_def max_def split: if_splits\<close>)
  show "rv (m_upper a) \<in> members a" if "\<not> m_upper_inf a" "\<not> m_upper_open a"
    using that lo x(2) by (simp add: members_def upper_holds_def)
qed

text \<open>\<open>before\<close> misses the intervals that touch in a closed upper and an open lower bound.\<close>

lemma ivl_before_iff:
  assumes a: "ivl_wf a" and b: "ivl_wf b"
  shows "ivl_before a b \<longleftrightarrow> (\<forall>x \<in> members a. \<forall>y \<in> members b. x < y)
    \<and> \<not> (mpq_val (m_upper a) = mpq_val (m_lower b) \<and> \<not> m_upper_open a \<and> m_lower_open b)"
proof -
  let ?u = "rv (m_upper a)" and ?l = "rv (m_lower b)"
  have ok: "mpq_ok (m_upper a)" "mpq_ok (m_lower b)" using assms by (simp_all add: ivl_wf_def)
  have bef: "ivl_before a b \<longleftrightarrow> \<not> m_upper_inf a \<and> \<not> m_lower_inf b \<and> (?u < ?l \<or> (m_upper_open a \<and> ?u = ?l))"
    using ok by (auto simp: ivl_before_def of_rat_less)
  have less: "x < y" if "ivl_before a b" "x \<in> members a" "y \<in> members b" for x y
  proof -
    have "x \<le> ?u" "m_upper_open a \<Longrightarrow> x < ?u" "?l \<le> y"
      using that unfolding bef by (auto simp: members_def lower_holds_def upper_holds_def split: if_splits)
    then show ?thesis using that(1) unfolding bef by linarith
  qed
  have inf: "\<not> (\<forall>x \<in> members a. \<forall>y \<in> members b. x < y)" if i: "m_upper_inf a \<or> m_lower_inf b"
  proof -
    obtain x where x: "x \<in> members a" using a by (rule ivl_wf_member)
    obtain y where y: "y \<in> members b" using b by (rule ivl_wf_member)
    from i show ?thesis
    proof
      assume "m_upper_inf a"
      then obtain x' where "x' \<in> members a" "y \<le> x'" using near_upper(1) [OF a] by blast
      then show ?thesis using y by (meson not_less)
    next
      assume "m_lower_inf b"
      then obtain y' where "y' \<in> members b" "y' \<le> x" using near_lower(1) [OF b] by blast
      then show ?thesis using x by (meson not_less)
    qed
  qed
  have touch: "\<not> (\<forall>x \<in> members a. \<forall>y \<in> members b. x < y)" if "?l < ?u"
  proof -
    obtain m where "?l < m" "m < ?u" using dense [OF \<open>?l < ?u\<close>] by blast
    then obtain x y where "x \<in> members a" "m \<le> x" "y \<in> members b" "y \<le> m"
      using near_upper(2) [OF a] near_lower(2) [OF b] by blast
    then show ?thesis by (meson not_less order_trans)
  qed
  have closed: "\<not> (\<forall>x \<in> members a. \<forall>y \<in> members b. x < y)"
    if "?u = ?l" "\<not> m_upper_open a" "\<not> m_lower_open b" "\<not> m_upper_inf a" "\<not> m_lower_inf b"
    using near_upper(3) [OF a] near_lower(3) [OF b] that by force
  have eq: "mpq_val (m_upper a) = mpq_val (m_lower b) \<longleftrightarrow> ?u = ?l" by simp
  show ?thesis
    unfolding eq using less inf touch closed bef by (smt (verit, best))
qed

section \<open>Dependencies\<close>

text \<open>The bounds that a rule names hold for the arguments.\<close>

definition deps_hold :: "deps_combine_rule \<Rightarrow> interval \<Rightarrow> real \<Rightarrow> interval \<Rightarrow> real \<Rightarrow> bool" where
  "deps_hold d a x b y \<longleftrightarrow>
     (dep_in_lower1 d \<longrightarrow> lower_holds a x) \<and> (dep_in_upper1 d \<longrightarrow> upper_holds a x)
     \<and> (dep_in_lower2 d \<longrightarrow> lower_holds b y) \<and> (dep_in_upper2 d \<longrightarrow> upper_holds b y)"

text \<open>\<open>c\<close> encloses \<open>z\<close> as the rule promises: each bound follows from the bounds it names.\<close>

definition justified :: "interval_deps_combine_rule \<Rightarrow> interval \<Rightarrow> real \<Rightarrow> interval \<Rightarrow> real \<Rightarrow> interval \<Rightarrow> real \<Rightarrow> bool" where
  "justified r a x b y c z \<longleftrightarrow>
     (deps_hold (m_lower_combine r) a x b y \<longrightarrow> lower_holds c z)
     \<and> (deps_hold (m_upper_combine r) a x b y \<longrightarrow> upper_holds c z)"

lemma justified_member:
  assumes "justified r a x b y c z" "x \<in> members a" "y \<in> members b"
  shows "z \<in> members c"
  using assms by (auto simp: justified_def deps_hold_def members_def)

lemma dep_bits:
  "dep_in_lower1 d \<longleftrightarrow> bit d 0" "dep_in_upper1 d \<longleftrightarrow> bit d 1" "dep_in_lower2 d \<longleftrightarrow> bit d 2" "dep_in_upper2 d \<longleftrightarrow> bit d 3"
proof -
  have pow: "d AND 2 ^ i \<noteq> 0 \<longleftrightarrow> bit d i" if "i < 16" for i
    using that by (simp add: and_exp_eq_0_iff_not_bit)
  show "dep_in_lower1 d \<longleftrightarrow> bit d 0" "dep_in_upper1 d \<longleftrightarrow> bit d 1" "dep_in_lower2 d \<longleftrightarrow> bit d 2" "dep_in_upper2 d \<longleftrightarrow> bit d 3"
    using pow [of 0] pow [of 1] pow [of 2] pow [of 3]
    by (simp_all add: dep_in_lower1_def dep_in_lower2_def dep_in_upper1_def dep_in_upper2_def
        DEP_IN_LOWER1_def DEP_IN_UPPER1_def DEP_IN_LOWER2_def DEP_IN_UPPER2_def)
qed

lemma dep_or [simp]:
  "dep_in_lower1 (d OR e) \<longleftrightarrow> dep_in_lower1 d \<or> dep_in_lower1 e" "dep_in_upper1 (d OR e) \<longleftrightarrow> dep_in_upper1 d \<or> dep_in_upper1 e"
  "dep_in_lower2 (d OR e) \<longleftrightarrow> dep_in_lower2 d \<or> dep_in_lower2 e" "dep_in_upper2 (d OR e) \<longleftrightarrow> dep_in_upper2 d \<or> dep_in_upper2 e"
  by (simp_all add: dep_bits bit_or_iff)

lemma dep_flags [simp]:
  "dep_in_lower1 DEP_IN_LOWER1" "\<not> dep_in_upper1 DEP_IN_LOWER1" "\<not> dep_in_lower2 DEP_IN_LOWER1" "\<not> dep_in_upper2 DEP_IN_LOWER1"
  "\<not> dep_in_lower1 DEP_IN_UPPER1" "dep_in_upper1 DEP_IN_UPPER1" "\<not> dep_in_lower2 DEP_IN_UPPER1" "\<not> dep_in_upper2 DEP_IN_UPPER1"
  "\<not> dep_in_lower1 DEP_IN_LOWER2" "\<not> dep_in_upper1 DEP_IN_LOWER2" "dep_in_lower2 DEP_IN_LOWER2" "\<not> dep_in_upper2 DEP_IN_LOWER2"
  "\<not> dep_in_lower1 DEP_IN_UPPER2" "\<not> dep_in_upper1 DEP_IN_UPPER2" "\<not> dep_in_lower2 DEP_IN_UPPER2" "dep_in_upper2 DEP_IN_UPPER2"
  "\<not> dep_in_lower1 0" "\<not> dep_in_upper1 0" "\<not> dep_in_lower2 0" "\<not> dep_in_upper2 0"
  by (simp_all add: dep_in_lower1_def dep_in_lower2_def dep_in_upper1_def dep_in_upper2_def
      DEP_IN_LOWER1_def DEP_IN_UPPER1_def DEP_IN_LOWER2_def DEP_IN_UPPER2_def)

lemma dep1_to_dep2_shift:
  assumes "\<not> dep_in_lower2 d" "\<not> dep_in_upper2 d"
  shows "dep_in_lower2 (dep1_to_dep2 d) \<longleftrightarrow> dep_in_lower1 d" "dep_in_upper2 (dep1_to_dep2 d) \<longleftrightarrow> dep_in_upper1 d"
    "\<not> dep_in_lower1 (dep1_to_dep2 d)" "\<not> dep_in_upper1 (dep1_to_dep2 d)"
  by (simp_all add: dep_bits dep1_to_dep2_def bit_push_bit_iff)

section \<open>Negation and sums\<close>

lemma above_plus: "above l s x \<Longrightarrow> above m t y \<Longrightarrow> above (plus_ext l m) (s \<or> t) (x + y)"
  by (cases l; cases m) (auto simp: of_rat_add split: if_splits)

lemma below_plus: "below l s x \<Longrightarrow> below m t y \<Longrightarrow> below (plus_ext l m) (s \<or> t) (x + y)"
  by (cases l; cases m) (auto simp: of_rat_add split: if_splits)

lemma bound_negate [simp]: "above (negate l) s x \<longleftrightarrow> below l s (- x)" "below (negate l) s x \<longleftrightarrow> above l s (- x)"
  by (cases l; auto simp: of_rat_minus)+

text \<open>The result of an operation is determined by its two bounds when the set of exact results has no gaps.\<close>

lemma members_eqI:
  assumes "\<And>z. z \<in> S \<Longrightarrow> z \<in> members c"
    and "\<And>s t z. s \<in> S \<Longrightarrow> t \<in> S \<Longrightarrow> s \<le> z \<Longrightarrow> z \<le> t \<Longrightarrow> z \<in> S"
    and "\<And>z. lower_holds c z \<Longrightarrow> \<exists>s \<in> S. s \<le> z" "\<And>z. upper_holds c z \<Longrightarrow> \<exists>s \<in> S. z \<le> s"
  shows "members c = S"
proof
  show "S \<subseteq> members c" using assms(1) by blast
  show "members c \<subseteq> S"
  proof
    fix z assume "z \<in> members c"
    then obtain s t where "s \<in> S" "s \<le> z" "t \<in> S" "z \<le> t" using assms(3,4) unfolding members_def by blast
    then show "z \<in> S" using assms(2) by blast
  qed
qed

lemma ivl_neg_frame: "j \<noteq> b \<Longrightarrow> ivl_neg a b \<sigma> j = \<sigma> j"
  by (simp add: ivl_neg_def Let_def)

lemma ivl_neg_bounds:
  assumes "ivl_ok (\<sigma> a)"
  shows "lower_holds (ivl_neg a b \<sigma> b) x \<longleftrightarrow> upper_holds (\<sigma> a) (- x)"
    "upper_holds (ivl_neg a b \<sigma> b) x \<longleftrightarrow> lower_holds (\<sigma> a) (- x)"
    "ivl_ok (ivl_neg a b \<sigma> b)"
proof -
  have ok: "mpq_ok (m_lower (\<sigma> a))" "mpq_ok (m_upper (\<sigma> a))" using assms by simp_all
  show "lower_holds (ivl_neg a b \<sigma> b) x \<longleftrightarrow> upper_holds (\<sigma> a) (- x)"
    using ok unfolding lower_holds_def upper_holds_def
    by (cases "a = b") (simp_all add: ivl_neg_def Let_def ivl_reset_def reset_lower_def reset_upper_def of_rat_minus
        minus_le_iff minus_less_iff le_minus_iff less_minus_iff)
  show "upper_holds (ivl_neg a b \<sigma> b) x \<longleftrightarrow> lower_holds (\<sigma> a) (- x)"
    using ok unfolding lower_holds_def upper_holds_def
    by (cases "a = b") (simp_all add: ivl_neg_def Let_def ivl_reset_def reset_lower_def reset_upper_def of_rat_minus
        minus_le_iff minus_less_iff le_minus_iff less_minus_iff)
  show "ivl_ok (ivl_neg a b \<sigma> b)"
    using ok unfolding ivl_ok_def
    by (cases "a = b") (simp_all add: ivl_neg_def Let_def ivl_reset_def reset_lower_def reset_upper_def)
qed

lemma ivl_neg_members:
  assumes "ivl_ok (\<sigma> a)"
  shows "members (ivl_neg a b \<sigma> b) = uminus ` members (\<sigma> a)"
proof -
  note N = ivl_neg_bounds [of \<sigma> a b, OF assms]
  have "x \<in> members (ivl_neg a b \<sigma> b) \<longleftrightarrow> - x \<in> members (\<sigma> a)" for x by (auto simp: members_def N)
  then show ?thesis by (force simp: image_iff)
qed

lemma ivl_neg_justified:
  assumes "ivl_ok (\<sigma> a)"
  shows "justified (neg_jst (\<sigma> a)) (\<sigma> a) x (\<sigma> a) x (ivl_neg a b \<sigma> b) (- x)"
proof -
  note N = ivl_neg_bounds [of \<sigma> a b, OF assms]
  have "m_lower_inf (\<sigma> a) \<Longrightarrow> lower_holds (\<sigma> a) x" "m_upper_inf (\<sigma> a) \<Longrightarrow> upper_holds (\<sigma> a) x"
    by (simp_all add: lower_holds_def upper_holds_def)
  then show ?thesis by (auto simp: justified_def deps_hold_def neg_jst_def N)
qed

text \<open>The sum of two valid intervals is the interval of the sums.\<close>

lemma sum_near:
  assumes a: "ivl_wf a" and b: "ivl_wf b"
  shows "above (plus_ext (ext_of (lower_ext a)) (ext_of (lower_ext b))) (m_lower_open a \<or> m_lower_open b) z
      \<Longrightarrow> \<exists>x \<in> members a. \<exists>y \<in> members b. x + y \<le> z"
    "below (plus_ext (ext_of (upper_ext a)) (ext_of (upper_ext b))) (m_upper_open a \<or> m_upper_open b) z
      \<Longrightarrow> \<exists>x \<in> members a. \<exists>y \<in> members b. z \<le> x + y"
proof -
  obtain x0 where x0: "x0 \<in> members a" using a by (rule ivl_wf_member)
  obtain y0 where y0: "y0 \<in> members b" using b by (rule ivl_wf_member)
  show "\<exists>x \<in> members a. \<exists>y \<in> members b. x + y \<le> z"
    if ab: "above (plus_ext (ext_of (lower_ext a)) (ext_of (lower_ext b))) (m_lower_open a \<or> m_lower_open b) z"
  proof -
    let ?l = "rv (m_lower a)" and ?m = "rv (m_lower b)"
    consider "m_lower_inf a" | "m_lower_inf b" | "\<not> m_lower_inf a" "\<not> m_lower_inf b" "?l + ?m < z"
      | "\<not> m_lower_inf a" "\<not> m_lower_inf b" "\<not> m_lower_open a" "\<not> m_lower_open b" "?l + ?m \<le> z"
      using ab by (fastforce simp: of_rat_add split: if_splits)
    then show ?thesis
    proof cases
      case 1
      obtain x where "x \<in> members a" "x \<le> z - y0" using near_lower(1) [OF a 1] by blast
      then show ?thesis using y0 by force
    next
      case 2
      obtain y where "y \<in> members b" "y \<le> z - x0" using near_lower(1) [OF b 2] by blast
      then show ?thesis using x0 by force
    next
      case 3
      obtain x where x: "x \<in> members a" "x \<le> ?l + (z - ?l - ?m) / 2"
        using near_lower(2) [OF a, of "?l + (z - ?l - ?m) / 2"] 3 by (auto simp: field_simps)
      obtain y where y: "y \<in> members b" "y \<le> ?m + (z - ?l - ?m) / 2"
        using near_lower(2) [OF b, of "?m + (z - ?l - ?m) / 2"] 3 by (auto simp: field_simps)
      have "x + y \<le> z" using x(2) y(2) by (simp add: field_simps)
      then show ?thesis using x y by blast
    next
      case 4
      then show ?thesis using near_lower(3) [OF a] near_lower(3) [OF b] by blast
    qed
  qed
  show "\<exists>x \<in> members a. \<exists>y \<in> members b. z \<le> x + y"
    if ab: "below (plus_ext (ext_of (upper_ext a)) (ext_of (upper_ext b))) (m_upper_open a \<or> m_upper_open b) z"
  proof -
    let ?l = "rv (m_upper a)" and ?m = "rv (m_upper b)"
    consider "m_upper_inf a" | "m_upper_inf b" | "\<not> m_upper_inf a" "\<not> m_upper_inf b" "z < ?l + ?m"
      | "\<not> m_upper_inf a" "\<not> m_upper_inf b" "\<not> m_upper_open a" "\<not> m_upper_open b" "z \<le> ?l + ?m"
      using ab by (fastforce simp: of_rat_add split: if_splits)
    then show ?thesis
    proof cases
      case 1
      obtain x where "x \<in> members a" "z - y0 \<le> x" using near_upper(1) [OF a 1] by blast
      then show ?thesis using y0 by force
    next
      case 2
      obtain y where "y \<in> members b" "z - x0 \<le> y" using near_upper(1) [OF b 2] by blast
      then show ?thesis using x0 by force
    next
      case 3
      obtain x where x: "x \<in> members a" "?l - (?l + ?m - z) / 2 \<le> x"
        using near_upper(2) [OF a, of "?l - (?l + ?m - z) / 2"] 3 by (auto simp: field_simps)
      obtain y where y: "y \<in> members b" "?m - (?l + ?m - z) / 2 \<le> y"
        using near_upper(2) [OF b, of "?m - (?l + ?m - z) / 2"] 3 by (auto simp: field_simps)
      have "z \<le> x + y" using x(2) y(2) by (simp add: field_simps)
      then show ?thesis using x y by blast
    next
      case 4
      then show ?thesis using near_upper(3) [OF a] near_upper(3) [OF b] by blast
    qed
  qed
qed

lemma members_convex: "x \<in> members a \<Longrightarrow> y \<in> members a \<Longrightarrow> x \<le> z \<Longrightarrow> z \<le> y \<Longrightarrow> z \<in> members a"
  by (auto simp: members_def lower_holds_def upper_holds_def split: if_splits)

lemma members_between:
  assumes "x \<in> members a" "y \<in> members a" "min x y \<le> z" "z \<le> max x y"
  shows "z \<in> members a"
  using members_convex [OF assms(1,2)] members_convex [OF assms(2,1)] assms(3,4) by (auto simp: min_def max_def split: if_splits)

lemma sum_convex:
  assumes "s \<in> {x + y |x y. x \<in> members a \<and> y \<in> members b}" "t \<in> {x + y |x y. x \<in> members a \<and> y \<in> members b}" "s \<le> z" "z \<le> t"
  shows "z \<in> {x + y |x y. x \<in> members a \<and> y \<in> members b}"
proof -
  obtain x1 y1 x2 y2 where m: "s = x1 + y1" "t = x2 + y2" "x1 \<in> members a" "x2 \<in> members a" "y1 \<in> members b" "y2 \<in> members b"
    using assms(1,2) by blast
  show ?thesis
  proof (cases "z \<le> x2 + y1")
    case True
    then have "z - y1 \<in> members a" using members_between [OF m(3,4), of "z - y1"] assms(3) m(1) by (auto simp: min_def max_def)
    then show ?thesis using m(5) by force
  next
    case False
    then have "z - x2 \<in> members b" using members_between [OF m(5,6), of "z - x2"] assms(4) m(2) by (auto simp: min_def max_def)
    then show ?thesis using m(4) by force
  qed
qed

text \<open>The state after an operation with result \<open>r\<close>: only the cell of the result has changed.\<close>

definition writes :: "nat \<Rightarrow> ivl_store \<Rightarrow> (interval \<Rightarrow> bool) \<Rightarrow> ivl_store \<Rightarrow> bool" where
  "writes r \<sigma> Q \<tau> \<longleftrightarrow> Q (\<tau> r) \<and> (\<forall>j. j \<noteq> r \<longrightarrow> \<tau> j = \<sigma> j)"

lemma writes_mono: "writes r \<sigma> P \<tau> \<Longrightarrow> (\<And>c. P c \<Longrightarrow> Q c) \<Longrightarrow> writes r \<sigma> Q \<tau>"
  by (simp add: writes_def)

text \<open>The interval with given extended bounds, as the operations build it.\<close>

definition ivl_of :: "ext_numeral \<Rightarrow> ext_numeral \<Rightarrow> bool \<Rightarrow> bool \<Rightarrow> interval" where
  "ivl_of l u l_o u_o = \<lparr>m_lower = fst l, m_upper = fst u, m_lower_open = l_o, m_upper_open = u_o,
     m_lower_inf = (snd l = EN_MINUS_INFINITY), m_upper_inf = (snd u = EN_PLUS_INFINITY)\<rparr>"

lemma ivl_of_bounds:
  assumes "ext_ok l" "ext_ok u" "ext_of l \<noteq> PInf" "ext_of u \<noteq> MInf"
  shows "ext_of (lower_ext (ivl_of l u s t)) = ext_of l" "ext_of (upper_ext (ivl_of l u s t)) = ext_of u"
    "m_lower_open (ivl_of l u s t) = s" "m_upper_open (ivl_of l u s t) = t" "ivl_ok (ivl_of l u s t)"
  using assms unfolding ivl_of_def lower_kind_def upper_kind_def
  by (cases l; cases "snd l"; cases u; cases "snd u"; simp)+

lemma ivl_add_yields:
  assumes ok: "ivl_ok (\<sigma> a)" "ivl_ok (\<sigma> b)" and al: "c \<noteq> b \<or> a = b"
  shows "yields (ivl_add a b c \<sigma>) (writes c \<sigma> (\<lambda>r. ivl_ok r
    \<and> ext_of (lower_ext r) = plus_ext (ext_of (lower_ext (\<sigma> a))) (ext_of (lower_ext (\<sigma> b)))
    \<and> ext_of (upper_ext r) = plus_ext (ext_of (upper_ext (\<sigma> a))) (ext_of (upper_ext (\<sigma> b)))
    \<and> m_lower_open r = (m_lower_open (\<sigma> a) \<or> m_lower_open (\<sigma> b)) \<and> m_upper_open r = (m_upper_open (\<sigma> a) \<or> m_upper_open (\<sigma> b))))"
proof -
  let ?pl = "plus_ext (ext_of (lower_ext (\<sigma> a))) (ext_of (lower_ext (\<sigma> b)))"
  let ?pu = "plus_ext (ext_of (upper_ext (\<sigma> a))) (ext_of (upper_ext (\<sigma> b)))"
  obtain l lk where l: "ext_add (lower_cell a) (lower_cell b) (lower_cell c) (lower_ext (\<sigma> a)) (lower_ext (\<sigma> b)) = Inr (l, lk)"
    "mpq_ok l" "ext_of (l, lk) = ?pl"
    using ext_add_yields(1) [of "lower_ext (\<sigma> a)" "lower_ext (\<sigma> b)" "lower_cell c" "lower_cell b" "lower_cell a"] ok al
    by (auto simp: lower_cell_def simp del: ext_of_bounds elim!: yieldsE)
  obtain u uk where u: "ext_add (upper_cell a) (upper_cell b) (upper_cell c) (upper_ext (\<sigma> a)) (upper_ext (\<sigma> b)) = Inr (u, uk)"
    "mpq_ok u" "ext_of (u, uk) = ?pu"
    using ext_add_yields(1) [of "upper_ext (\<sigma> a)" "upper_ext (\<sigma> b)" "upper_cell c" "upper_cell b" "upper_cell a"] ok al
    by (auto simp: upper_cell_def simp del: ext_of_bounds elim!: yieldsE)
  have k: "ext_of (l, lk) \<noteq> PInf" "ext_of (u, uk) \<noteq> MInf" unfolding l(3) u(3) by simp_all
  have U: "upper_ext ((\<sigma>(c := (\<sigma> c)\<lparr>m_lower := l\<rparr>)) i) = upper_ext (\<sigma> i)" for i by (simp add: upper_kind_def)
  have "ivl_add a b c \<sigma> = Inr (\<sigma>(c := ivl_of (l, lk) (u, uk) (m_lower_open (\<sigma> a) \<or> m_lower_open (\<sigma> b)) (m_upper_open (\<sigma> a) \<or> m_upper_open (\<sigma> b))))"
    unfolding ivl_add_def l(1) bind_res.simps prod.case Let_def U u(1) using al by (cases "\<sigma> c") (simp add: ivl_of_def)
  then show ?thesis
    using ivl_of_bounds [OF _ _ k] l(2) u(2) by (simp add: writes_def l(3) u(3) del: ext_of_bounds)
qed

lemma ivl_sub_yields:
  assumes ok: "ivl_ok (\<sigma> a)" "ivl_ok (\<sigma> b)" and al: "c \<noteq> b"
  shows "yields (ivl_sub a b c \<sigma>) (writes c \<sigma> (\<lambda>r. ivl_ok r
    \<and> ext_of (lower_ext r) = plus_ext (ext_of (lower_ext (\<sigma> a))) (negate (ext_of (upper_ext (\<sigma> b))))
    \<and> ext_of (upper_ext r) = plus_ext (ext_of (upper_ext (\<sigma> a))) (negate (ext_of (lower_ext (\<sigma> b))))
    \<and> m_lower_open r = (m_lower_open (\<sigma> a) \<or> m_upper_open (\<sigma> b)) \<and> m_upper_open r = (m_upper_open (\<sigma> a) \<or> m_lower_open (\<sigma> b))))"
proof -
  let ?pl = "plus_ext (ext_of (lower_ext (\<sigma> a))) (negate (ext_of (upper_ext (\<sigma> b))))"
  let ?pu = "plus_ext (ext_of (upper_ext (\<sigma> a))) (negate (ext_of (lower_ext (\<sigma> b))))"
  have cells: "lower_cell c \<noteq> upper_cell b" "lower_cell a \<noteq> upper_cell b" "upper_cell c \<noteq> lower_cell b" "upper_cell a \<noteq> lower_cell b"
    unfolding lower_cell_def upper_cell_def by presburger+
  obtain l lk where l: "ext_sub (lower_cell a) (upper_cell b) (lower_cell c) (lower_ext (\<sigma> a)) (upper_ext (\<sigma> b)) = Inr (l, lk)"
    "mpq_ok l" "ext_of (l, lk) = ?pl"
    using ext_add_yields(2) [of "lower_ext (\<sigma> a)" "upper_ext (\<sigma> b)" "lower_cell c" "upper_cell b" "lower_cell a"] ok cells
    by (auto simp del: ext_of_bounds elim!: yieldsE)
  obtain u uk where u: "ext_sub (upper_cell a) (lower_cell b) (upper_cell c) (upper_ext (\<sigma> a)) (lower_ext (\<sigma> b)) = Inr (u, uk)"
    "mpq_ok u" "ext_of (u, uk) = ?pu"
    using ext_add_yields(2) [of "upper_ext (\<sigma> a)" "lower_ext (\<sigma> b)" "upper_cell c" "lower_cell b" "upper_cell a"] ok cells
    by (auto simp del: ext_of_bounds elim!: yieldsE)
  have k: "ext_of (l, lk) \<noteq> PInf" "ext_of (u, uk) \<noteq> MInf" unfolding l(3) u(3) by simp_all
  have U: "upper_ext ((\<sigma>(c := (\<sigma> c)\<lparr>m_lower := l\<rparr>)) i) = upper_ext (\<sigma> i)"
    "(\<sigma>(c := (\<sigma> c)\<lparr>m_lower := l\<rparr>)) b = \<sigma> b" for i using al by (simp_all add: upper_kind_def)
  have "ivl_sub a b c \<sigma> = Inr (\<sigma>(c := ivl_of (l, lk) (u, uk) (m_lower_open (\<sigma> a) \<or> m_upper_open (\<sigma> b)) (m_upper_open (\<sigma> a) \<or> m_lower_open (\<sigma> b))))"
    unfolding ivl_sub_def l(1) bind_res.simps prod.case Let_def U u(1) using al by (cases "\<sigma> c") (simp add: ivl_of_def)
  then show ?thesis
    using ivl_of_bounds [OF _ _ k] l(2) u(2) by (simp add: writes_def l(3) u(3) del: ext_of_bounds)
qed

text \<open>The sum and the difference of two valid intervals contain exactly the sums and the differences.\<close>

lemma ivl_sum_members:
  assumes wf: "ivl_wf a" "ivl_wf b"
    and lo: "ext_of (lower_ext c) = plus_ext (ext_of (lower_ext a)) (ext_of (lower_ext b))" "m_lower_open c = (m_lower_open a \<or> m_lower_open b)"
    and up: "ext_of (upper_ext c) = plus_ext (ext_of (upper_ext a)) (ext_of (upper_ext b))" "m_upper_open c = (m_upper_open a \<or> m_upper_open b)"
  shows "members c = {x + y |x y. x \<in> members a \<and> y \<in> members b}"
proof (rule members_eqI [OF _ sum_convex])
  show "z \<in> members c" if "z \<in> {x + y |x y. x \<in> members a \<and> y \<in> members b}" for z
    using that above_plus below_plus unfolding members_def holds_ext lo up by blast
  show "\<exists>s \<in> {x + y |x y. x \<in> members a \<and> y \<in> members b}. s \<le> z" if "lower_holds c z" for z
    using sum_near(1) [OF wf] that unfolding holds_ext lo by blast
  show "\<exists>s \<in> {x + y |x y. x \<in> members a \<and> y \<in> members b}. z \<le> s" if "upper_holds c z" for z
    using sum_near(2) [OF wf] that unfolding holds_ext up by blast
qed

lemma sum_justified:
  assumes "ext_of (lower_ext c) = plus_ext (ext_of (lower_ext a)) (ext_of (lower_ext b))" "m_lower_open c = (m_lower_open a \<or> m_lower_open b)"
    "ext_of (upper_ext c) = plus_ext (ext_of (upper_ext a)) (ext_of (upper_ext b))" "m_upper_open c = (m_upper_open a \<or> m_upper_open b)"
  shows "justified add_jst a x b y c (x + y)"
  using above_plus below_plus by (auto simp: justified_def deps_hold_def add_jst_def holds_ext assms simp del: ext_of_bounds)

text \<open>The negation of an interval, as the difference uses it.\<close>

definition mirror :: "interval \<Rightarrow> interval" where
  "mirror b = \<lparr>m_lower = mpq_neg (m_upper b), m_upper = mpq_neg (m_lower b), m_lower_open = m_upper_open b,
     m_upper_open = m_lower_open b, m_lower_inf = m_upper_inf b, m_upper_inf = m_lower_inf b\<rparr>"

lemma mirror_props:
  assumes "ivl_ok b"
  shows "ext_of (lower_ext (mirror b)) = negate (ext_of (upper_ext b))" "ext_of (upper_ext (mirror b)) = negate (ext_of (lower_ext b))"
    "m_lower_open (mirror b) = m_upper_open b" "m_upper_open (mirror b) = m_lower_open b" "ivl_ok (mirror b)"
  using assms by (simp_all add: mirror_def lower_kind_def upper_kind_def)

lemma mirror_holds:
  assumes "ivl_ok b"
  shows "lower_holds (mirror b) y \<longleftrightarrow> upper_holds b (- y)" "upper_holds (mirror b) y \<longleftrightarrow> lower_holds b (- y)"
  unfolding holds_ext mirror_props [OF assms] by simp_all

lemma mirror_members: "ivl_ok b \<Longrightarrow> y \<in> members (mirror b) \<longleftrightarrow> - y \<in> members b"
  by (auto simp: members_def mirror_holds)

lemma mirror_wf: "ivl_wf b \<Longrightarrow> ivl_wf (mirror b)"
  unfolding ivl_wf_iff by (metis mirror_props(5) mirror_members minus_minus equals0I ex_in_conv)

lemma ivl_diff_members:
  assumes wf: "ivl_wf a" "ivl_wf b"
    and lo: "ext_of (lower_ext c) = plus_ext (ext_of (lower_ext a)) (negate (ext_of (upper_ext b)))" "m_lower_open c = (m_lower_open a \<or> m_upper_open b)"
    and up: "ext_of (upper_ext c) = plus_ext (ext_of (upper_ext a)) (negate (ext_of (lower_ext b)))" "m_upper_open c = (m_upper_open a \<or> m_lower_open b)"
  shows "members c = {x - y |x y. x \<in> members a \<and> y \<in> members b}" "justified sub_jst a x b y c (x - y)"
proof -
  have ok: "ivl_ok b" using wf(2) by (simp add: ivl_wf_def)
  have c: "ext_of (lower_ext c) = plus_ext (ext_of (lower_ext a)) (ext_of (lower_ext (mirror b)))"
    "m_lower_open c = (m_lower_open a \<or> m_lower_open (mirror b))"
    "ext_of (upper_ext c) = plus_ext (ext_of (upper_ext a)) (ext_of (upper_ext (mirror b)))"
    "m_upper_open c = (m_upper_open a \<or> m_upper_open (mirror b))"
    unfolding mirror_props [OF ok] by (rule lo up)+
  have sum: "members c = {x + y |x y. x \<in> members a \<and> y \<in> members (mirror b)}"
    using wf(1) mirror_wf [OF wf(2)] c by (rule ivl_sum_members)
  show "members c = {x - y |x y. x \<in> members a \<and> y \<in> members b}"
  proof (intro equalityI subsetI)
    fix z assume "z \<in> {x - y |x y. x \<in> members a \<and> y \<in> members b}"
    then obtain x y where "z = x + - y" "x \<in> members a" "- y \<in> members (mirror b)" using mirror_members [OF ok] by force
    then show "z \<in> members c" unfolding sum by blast
  next
    fix z assume "z \<in> members c"
    then obtain x y where "z = x - - y" "x \<in> members a" "- y \<in> members b" unfolding sum mirror_members [OF ok] by force
    then show "z \<in> {x - y |x y. x \<in> members a \<and> y \<in> members b}" by blast
  qed
  have "justified add_jst a x (mirror b) (- y) c (x + - y)" using c by (rule sum_justified)
  then show "justified sub_jst a x b y c (x - y)"
    by (simp add: justified_def deps_hold_def add_jst_def sub_jst_def mirror_holds [OF ok])
qed

section \<open>Products with a number\<close>

lemma times_number:
  assumes "f \<noteq> 0"
  shows "0 < f \<Longrightarrow> above (times_ext l (Fin f)) s (real_of_rat f * x) \<longleftrightarrow> above l s x"
    "0 < f \<Longrightarrow> below (times_ext l (Fin f)) s (real_of_rat f * x) \<longleftrightarrow> below l s x"
    "f < 0 \<Longrightarrow> above (times_ext l (Fin f)) s (real_of_rat f * x) \<longleftrightarrow> below l s x"
    "f < 0 \<Longrightarrow> below (times_ext l (Fin f)) s (real_of_rat f * x) \<longleftrightarrow> above l s x"
proof -
  have m: "real_of_rat (v * f) = real_of_rat f * real_of_rat v" for v by (simp add: of_rat_mult)
  show "0 < f \<Longrightarrow> above (times_ext l (Fin f)) s (real_of_rat f * x) \<longleftrightarrow> above l s x"
    "0 < f \<Longrightarrow> below (times_ext l (Fin f)) s (real_of_rat f * x) \<longleftrightarrow> below l s x"
    "f < 0 \<Longrightarrow> above (times_ext l (Fin f)) s (real_of_rat f * x) \<longleftrightarrow> below l s x"
    "f < 0 \<Longrightarrow> below (times_ext l (Fin f)) s (real_of_rat f * x) \<longleftrightarrow> above l s x"
    by (cases l; simp add: infinity_def m mult_less_cancel_left mult_le_cancel_left; auto)+
qed

lemma times_number_inf:
  assumes "f \<noteq> 0"
  shows "times_ext l (Fin f) = PInf \<longleftrightarrow> l = (if 0 < f then PInf else MInf)"
    "times_ext l (Fin f) = MInf \<longleftrightarrow> l = (if 0 < f then MInf else PInf)"
  using assms by (cases l; auto simp: infinity_def)+

definition scaled :: "rat \<Rightarrow> interval_deps_combine_rule \<Rightarrow> interval \<Rightarrow> interval \<Rightarrow> bool" where
  "scaled f r a b \<longleftrightarrow> ivl_ok b \<and> members b = (\<lambda>x. real_of_rat f * x) ` members a
     \<and> (\<forall>x. justified r a x a x b (real_of_rat f * x))"

lemma scaledI:
  assumes "ivl_ok b" "f \<noteq> 0"
    and eq: "\<And>x. x \<in> members b \<longleftrightarrow> x / real_of_rat f \<in> members a"
    and "\<And>x. justified r a x a x b (real_of_rat f * x)"
  shows "scaled f r a b"
proof -
  have "members b = (\<lambda>x. real_of_rat f * x) ` members a"
  proof (intro equalityI subsetI)
    fix x assume "x \<in> members b"
    then have "x = real_of_rat f * (x / real_of_rat f)" "x / real_of_rat f \<in> members a" using assms(2) by (simp_all add: eq)
    then show "x \<in> (\<lambda>x. real_of_rat f * x) ` members a" by (rule image_eqI)
  qed (use assms(2) in \<open>auto simp: eq\<close>)
  then show ?thesis using assms by (simp add: scaled_def)
qed

lemma ivl_div_mul_yields:
  fixes inv_k :: bool
  assumes a: "ivl_ok (\<sigma> a)" and k: "mpq_ok k" "mpq_val k \<noteq> 0"
  defines "f \<equiv> if inv_k then inverse (mpq_val k) else mpq_val k"
  shows "yields (ivl_div_mul k a b inv_k \<sigma>) (writes b \<sigma> (scaled f (mul_num_jst k) (\<sigma> a)))"
proof -
  let ?f = "(if inv_k then mpq_inv k else k, EN_NUMERAL)"
  have f: "ext_ok ?f" "ext_of ?f = Fin f" "f \<noteq> 0" "0 < f \<longleftrightarrow> 0 < mpq_val k" "f < 0 \<longleftrightarrow> mpq_val k < 0"
    using k mpq_inv_val [OF k] by (simp_all add: f_def)
  obtain p where p: "ext_mul (lower_ext (\<sigma> a)) ?f = Inr p" "ext_ok p" "ext_of p = times_ext (ext_of (lower_ext (\<sigma> a))) (Fin f)"
    using ext_mul_yields [of "lower_ext (\<sigma> a)" ?f] a f(1,2) by (auto elim!: yieldsE simp del: ext_of_bounds)
  obtain q where q: "ext_mul (upper_ext (\<sigma> a)) ?f = Inr q" "ext_ok q" "ext_of q = times_ext (ext_of (upper_ext (\<sigma> a))) (Fin f)"
    using ext_mul_yields [of "upper_ext (\<sigma> a)" ?f] a f(1,2) by (auto elim!: yieldsE simp del: ext_of_bounds)
  have div: "real_of_rat f * (x / real_of_rat f) = x" for x using f(3) by simp
  show ?thesis
  proof (cases "0 < f")
    case True
    let ?r = "ivl_of p q (m_lower_open (\<sigma> a)) (m_upper_open (\<sigma> a))"
    have res: "ivl_div_mul k a b inv_k \<sigma> = Inr (\<sigma>(b := ?r))"
      using p(1) q(1) k True f by (cases p; cases q; cases "\<sigma> b") (simp add: ivl_div_mul_def Let_def ivl_of_def)
    have "ext_of p \<noteq> PInf" "ext_of q \<noteq> MInf" unfolding p(3) q(3) using True by (simp_all add: times_number_inf)
    note B = ivl_of_bounds [OF p(2) q(2) this]
    have h: "lower_holds ?r (real_of_rat f * x) \<longleftrightarrow> lower_holds (\<sigma> a) x" "upper_holds ?r (real_of_rat f * x) \<longleftrightarrow> upper_holds (\<sigma> a) x" for x
      unfolding holds_ext B p(3) q(3) using True by (simp_all only: times_number(1,2) f(3) not_False_eq_True)
    have "scaled f (mul_num_jst k) (\<sigma> a) ?r"
    proof (rule scaledI [OF B(5) f(3)])
      show "x \<in> members ?r \<longleftrightarrow> x / real_of_rat f \<in> members (\<sigma> a)" for x
        using h [of "x / real_of_rat f"] unfolding div by (simp add: members_def)
      show "justified (mul_num_jst k) (\<sigma> a) x (\<sigma> a) x ?r (real_of_rat f * x)" for x
        using True k f by (simp add: justified_def deps_hold_def mul_num_jst_def h)
    qed
    then show ?thesis unfolding res by (simp add: writes_def)
  next
    case False
    then have neg: "f < 0" using f(3) by simp
    let ?r = "ivl_of q p (m_upper_open (\<sigma> a)) (m_lower_open (\<sigma> a))"
    have res: "ivl_div_mul k a b inv_k \<sigma> = Inr (\<sigma>(b := ?r))"
      using p(1) q(1) k neg f by (cases p; cases q; cases "\<sigma> b") (simp add: ivl_div_mul_def Let_def ivl_of_def)
    have "ext_of q \<noteq> PInf" "ext_of p \<noteq> MInf" unfolding p(3) q(3) using neg by (simp_all add: times_number_inf)
    note B = ivl_of_bounds [OF q(2) p(2) this]
    have h: "lower_holds ?r (real_of_rat f * x) \<longleftrightarrow> upper_holds (\<sigma> a) x" "upper_holds ?r (real_of_rat f * x) \<longleftrightarrow> lower_holds (\<sigma> a) x" for x
      unfolding holds_ext B p(3) q(3) using neg by (simp_all only: times_number(3,4) f(3) not_False_eq_True)
    have "scaled f (mul_num_jst k) (\<sigma> a) ?r"
    proof (rule scaledI [OF B(5) f(3)])
      show "x \<in> members ?r \<longleftrightarrow> x / real_of_rat f \<in> members (\<sigma> a)" for x
        using h [of "x / real_of_rat f"] unfolding div by (auto simp: members_def)
      show "justified (mul_num_jst k) (\<sigma> a) x (\<sigma> a) x ?r (real_of_rat f * x)" for x
        using neg k f by (simp add: justified_def deps_hold_def mul_num_jst_def h)
    qed
    then show ?thesis unfolding res by (simp add: writes_def)
  qed
qed

text \<open>For a zero factor the result is the whole line, not the interval that holds zero alone.\<close>

lemma ivl_reset_members [simp]: "members (ivl_reset a) = UNIV"
  by (simp add: members_def lower_holds_def upper_holds_def ivl_reset_def reset_lower_def reset_upper_def)

lemma ivl_div_mul_zero:
  assumes "mpq_ok k" "mpq_val k = 0"
  shows "ivl_div_mul k a b inv_k \<sigma> = Inr (\<sigma>(b := ivl_reset (\<sigma> b)))"
  using assms by (simp add: ivl_div_mul_def)

lemma ivl_set_copy:
  assumes "ivl_ok (\<sigma> s)" "ivl_ok (\<sigma> t)"
  shows "writes t \<sigma> (\<lambda>r. ivl_ok r \<and> ivl_eq r (\<sigma> s) \<and> (\<forall>x. lower_holds r x \<longleftrightarrow> lower_holds (\<sigma> s) x)
    \<and> (\<forall>x. upper_holds r x \<longleftrightarrow> upper_holds (\<sigma> s) x)) (ivl_set t s \<sigma>)"
proof (cases "t = s")
  case True
  then show ?thesis using assms by (simp add: writes_def ivl_set_def ivl_eq_def)
next
  case False
  then show ?thesis
    using assms by (simp add: writes_def ivl_set_def Let_def ivl_eq_def lower_holds_def upper_holds_def lower_kind_def upper_kind_def)
qed

lemma ivl_set_num_members: "mpq_ok n \<Longrightarrow> members (ivl_set_num t n \<sigma> t) = {rv n}"
  by (auto simp: ivl_set_num_def members_def lower_holds_def upper_holds_def)

section \<open>Results that overwrite the second argument\<close>

text \<open>\<open>sub(a, b, b)\<close> reads the lower bound of \<open>b\<close> after it has been overwritten: \<open>[0, 1] - [2, 3]\<close> gives
  \<open>[-3, 4]\<close>, and \<open>[9, 9] - [2, 3]\<close> gives \<open>[6, 3]\<close>, which contains nothing.\<close>

lemma ivl_sub_overwrites:
  assumes ok: "ivl_ok (\<sigma> a)" "ivl_ok (\<sigma> b)" and ab: "a \<noteq> b"
    and fin: "\<not> m_lower_inf (\<sigma> a)" "\<not> m_upper_inf (\<sigma> a)" "\<not> m_lower_inf (\<sigma> b)" "\<not> m_upper_inf (\<sigma> b)"
  shows "yields (ivl_sub a b b \<sigma>) (\<lambda>\<tau>. mpq_val (m_lower (\<tau> b)) = mpq_val (m_lower (\<sigma> a)) - mpq_val (m_upper (\<sigma> b))
    \<and> mpq_val (m_upper (\<tau> b)) = mpq_val (m_upper (\<sigma> a)) - (mpq_val (m_lower (\<sigma> a)) - mpq_val (m_upper (\<sigma> b)))
    \<and> \<not> m_lower_inf (\<tau> b) \<and> \<not> m_upper_inf (\<tau> b))"
proof -
  have cells: "lower_cell b \<noteq> upper_cell b" "lower_cell a \<noteq> upper_cell b" "upper_cell b \<noteq> lower_cell b" "upper_cell a \<noteq> lower_cell b"
    unfolding lower_cell_def upper_cell_def by presburger+
  obtain l where l: "at3 sub_at (lower_cell a) (upper_cell b) (lower_cell b) (m_lower (\<sigma> a)) (m_upper (\<sigma> b)) = Inr l"
    "mpq_ok l" "mpq_val l = mpq_val (m_lower (\<sigma> a)) - mpq_val (m_upper (\<sigma> b))"
    using at3_yields(2) [of "m_lower (\<sigma> a)" "m_upper (\<sigma> b)" "lower_cell a" "upper_cell b" "lower_cell b"] ok cells
    by (auto elim!: yieldsE)
  obtain u where u: "at3 sub_at (upper_cell a) (lower_cell b) (upper_cell b) (m_upper (\<sigma> a)) l = Inr u"
    "mpq_ok u" "mpq_val u = mpq_val (m_upper (\<sigma> a)) - mpq_val l"
    using at3_yields(2) [of "m_upper (\<sigma> a)" l "upper_cell a" "lower_cell b" "upper_cell b"] ok cells l(2)
    by (auto elim!: yieldsE)
  show ?thesis
    using ab fin l u by (simp add: ivl_sub_def ext_sub_def lower_kind_def upper_kind_def)
qed

section \<open>The contract of the operations\<close>

text \<open>What an operation on two intervals promises: on valid arguments it returns, writes only its result, and
  the result is the valid interval of exactly the values of the operation on members, each bound of which
  follows from the bounds that the rule names. \<open>fits\<close> is what the operation demands beyond validity.\<close>

lemma writes_valid: "writes r \<sigma> P \<tau> \<Longrightarrow> (\<And>c. P c \<Longrightarrow> ivl_wf c) \<Longrightarrow> \<forall>k. ivl_wf (\<sigma> k) \<Longrightarrow> \<forall>k. ivl_wf (\<tau> k)"
  by (metis writes_def)

lemma yields_writes_mono: "yields m (writes r \<sigma> P) \<Longrightarrow> (\<And>c. P c \<Longrightarrow> Q c) \<Longrightarrow> yields m (writes r \<sigma> Q)"
  by (auto simp: writes_def elim!: yields_mono)

locale interval_operation =
  fixes fits :: "nat \<Rightarrow> nat \<Rightarrow> nat \<Rightarrow> ivl_store \<Rightarrow> bool"
    and op :: "real \<Rightarrow> real \<Rightarrow> real"
    and run :: "nat \<Rightarrow> nat \<Rightarrow> nat \<Rightarrow> ivl_store \<Rightarrow> ivl_store res"
    and jst :: "interval \<Rightarrow> interval \<Rightarrow> interval_deps_combine_rule"
  assumes exact: "ivl_wf (\<sigma> i) \<Longrightarrow> ivl_wf (\<sigma> j) \<Longrightarrow> ivl_ok (\<sigma> r) \<Longrightarrow> fits i j r \<sigma> \<Longrightarrow>
    yields (run i j r \<sigma>) (writes r \<sigma> (\<lambda>c. ivl_wf c
      \<and> members c = {op x y |x y. x \<in> members (\<sigma> i) \<and> y \<in> members (\<sigma> j)}
      \<and> (\<forall>x y. justified (jst (\<sigma> i) (\<sigma> j)) (\<sigma> i) x (\<sigma> j) y c (op x y))))"
begin

lemma keeps_valid:
  assumes "\<forall>k. ivl_wf (\<sigma> k)" "fits i j r \<sigma>"
  shows "yields (run i j r \<sigma>) (\<lambda>\<tau>. \<forall>k. ivl_wf (\<tau> k))"
proof -
  have ok: "ivl_ok (\<sigma> r)" "ivl_wf (\<sigma> i)" "ivl_wf (\<sigma> j)" using assms(1) unfolding ivl_wf_def by blast+
  show ?thesis by (rule yields_mono [OF exact [OF ok(2,3,1) assms(2)]], erule writes_valid [OF _ _ assms(1)], elim conjE)
qed

lemma points:
  assumes "ivl_wf (\<sigma> i)" "ivl_wf (\<sigma> j)" "ivl_ok (\<sigma> r)" "fits i j r \<sigma>" "members (\<sigma> i) = {x}" "members (\<sigma> j) = {y}"
  shows "yields (run i j r \<sigma>) (\<lambda>\<tau>. members (\<tau> r) = {op x y})"
  using exact [OF assms(1-4)] assms(5,6) by (auto simp: writes_def elim!: yields_mono)

lemma isotone:
  assumes "ivl_wf (\<sigma> i)" "ivl_wf (\<sigma> j)" "ivl_ok (\<sigma> r)" "fits i j r \<sigma>"
    and "ivl_wf (\<sigma>' i')" "ivl_wf (\<sigma>' j')" "ivl_ok (\<sigma>' r')" "fits i' j' r' \<sigma>'"
    and "members (\<sigma> i) \<subseteq> members (\<sigma>' i')" "members (\<sigma> j) \<subseteq> members (\<sigma>' j')"
  shows "yields (run i j r \<sigma>) (\<lambda>\<tau>. yields (run i' j' r' \<sigma>') (\<lambda>\<tau>'. members (\<tau> r) \<subseteq> members (\<tau>' r')))"
proof -
  have "{op x y |x y. x \<in> members (\<sigma> i) \<and> y \<in> members (\<sigma> j)} \<subseteq> {op x y |x y. x \<in> members (\<sigma>' i') \<and> y \<in> members (\<sigma>' j')}"
    using assms(9,10) by blast
  then show ?thesis
    using exact [OF assms(1-4)] exact [OF assms(5-8)] by (auto simp: writes_def yields_def)
qed

end

text \<open>The same for operations on one interval.\<close>

locale interval_function =
  fixes fits :: "nat \<Rightarrow> nat \<Rightarrow> ivl_store \<Rightarrow> bool"
    and f :: "real \<Rightarrow> real"
    and run :: "nat \<Rightarrow> nat \<Rightarrow> ivl_store \<Rightarrow> ivl_store res"
    and jst :: "interval \<Rightarrow> interval_deps_combine_rule res"
  assumes exact: "ivl_wf (\<sigma> a) \<Longrightarrow> ivl_ok (\<sigma> b) \<Longrightarrow> fits a b \<sigma> \<Longrightarrow>
    yields (run a b \<sigma>) (writes b \<sigma> (\<lambda>c. ivl_wf c \<and> members c = f ` members (\<sigma> a)
      \<and> yields (jst (\<sigma> a)) (\<lambda>d. \<forall>x. justified d (\<sigma> a) x (\<sigma> a) x c (f x))))"
begin

lemma keeps_valid:
  assumes "\<forall>k. ivl_wf (\<sigma> k)" "fits a b \<sigma>"
  shows "yields (run a b \<sigma>) (\<lambda>\<tau>. \<forall>k. ivl_wf (\<tau> k))"
proof -
  have ok: "ivl_ok (\<sigma> b)" "ivl_wf (\<sigma> a)" using assms(1) unfolding ivl_wf_def by blast+
  show ?thesis by (rule yields_mono [OF exact [OF ok(2,1) assms(2)]], erule writes_valid [OF _ _ assms(1)], elim conjE)
qed

lemma isotone:
  assumes "ivl_wf (\<sigma> a)" "ivl_ok (\<sigma> b)" "fits a b \<sigma>" "ivl_wf (\<sigma>' a')" "ivl_ok (\<sigma>' b')" "fits a' b' \<sigma>'"
    and "members (\<sigma> a) \<subseteq> members (\<sigma>' a')"
  shows "yields (run a b \<sigma>) (\<lambda>\<tau>. yields (run a' b' \<sigma>') (\<lambda>\<tau>'. members (\<tau> b) \<subseteq> members (\<tau>' b')))"
  using exact [OF assms(1-3)] exact [OF assms(4-6)] image_mono [OF assms(7), of f]
  by (auto simp: writes_def yields_def simp del: image_subset_iff)

end

section \<open>Negation, sum, difference and scaling satisfy it\<close>

interpretation add_op: interval_operation "\<lambda>i j r _. r \<noteq> j \<or> i = j" "(+)" ivl_add "\<lambda>_ _. add_jst"
proof unfold_locales
  fix \<sigma> :: ivl_store and i j r
  assume h: "ivl_wf (\<sigma> i)" "ivl_wf (\<sigma> j)" "r \<noteq> j \<or> i = j"
  have ok: "ivl_ok (\<sigma> i)" "ivl_ok (\<sigma> j)" using h unfolding ivl_wf_def by blast+
  obtain x0 y0 where "x0 \<in> members (\<sigma> i)" "y0 \<in> members (\<sigma> j)" using h ivl_wf_member by metis
  then have ne: "{x + y |x y. x \<in> members (\<sigma> i) \<and> y \<in> members (\<sigma> j)} \<noteq> {}" by blast
  show "yields (ivl_add i j r \<sigma>) (writes r \<sigma> (\<lambda>c. ivl_wf c
      \<and> members c = {x + y |x y. x \<in> members (\<sigma> i) \<and> y \<in> members (\<sigma> j)}
      \<and> (\<forall>x y. justified add_jst (\<sigma> i) x (\<sigma> j) y c (x + y))))"
  proof (rule yields_writes_mono [OF ivl_add_yields [of \<sigma> i j r, OF ok h(3)]], elim conjE)
    fix c assume c: "ivl_ok c" "ext_of (lower_ext c) = plus_ext (ext_of (lower_ext (\<sigma> i))) (ext_of (lower_ext (\<sigma> j)))"
      "ext_of (upper_ext c) = plus_ext (ext_of (upper_ext (\<sigma> i))) (ext_of (upper_ext (\<sigma> j)))"
      "m_lower_open c = (m_lower_open (\<sigma> i) \<or> m_lower_open (\<sigma> j))" "m_upper_open c = (m_upper_open (\<sigma> i) \<or> m_upper_open (\<sigma> j))"
    note m = ivl_sum_members [OF h(1,2) c(2,4,3,5)] and j = sum_justified [OF c(2,4,3,5)]
    show "ivl_wf c \<and> members c = {x + y |x y. x \<in> members (\<sigma> i) \<and> y \<in> members (\<sigma> j)}
      \<and> (\<forall>x y. justified add_jst (\<sigma> i) x (\<sigma> j) y c (x + y))"
      unfolding ivl_wf_iff using c(1) m j ne by simp
  qed
qed

interpretation sub_op: interval_operation "\<lambda>_ j r _. r \<noteq> j" "(-)" ivl_sub "\<lambda>_ _. sub_jst"
proof unfold_locales
  fix \<sigma> :: ivl_store and i j r
  assume h: "ivl_wf (\<sigma> i)" "ivl_wf (\<sigma> j)" "r \<noteq> j"
  have ok: "ivl_ok (\<sigma> i)" "ivl_ok (\<sigma> j)" using h unfolding ivl_wf_def by blast+
  obtain x0 y0 where "x0 \<in> members (\<sigma> i)" "y0 \<in> members (\<sigma> j)" using h ivl_wf_member by metis
  then have ne: "{x - y |x y. x \<in> members (\<sigma> i) \<and> y \<in> members (\<sigma> j)} \<noteq> {}" by blast
  show "yields (ivl_sub i j r \<sigma>) (writes r \<sigma> (\<lambda>c. ivl_wf c
      \<and> members c = {x - y |x y. x \<in> members (\<sigma> i) \<and> y \<in> members (\<sigma> j)}
      \<and> (\<forall>x y. justified sub_jst (\<sigma> i) x (\<sigma> j) y c (x - y))))"
  proof (rule yields_writes_mono [OF ivl_sub_yields [of \<sigma> i j r, OF ok h(3)]], elim conjE)
    fix c assume c: "ivl_ok c" "ext_of (lower_ext c) = plus_ext (ext_of (lower_ext (\<sigma> i))) (negate (ext_of (upper_ext (\<sigma> j))))"
      "ext_of (upper_ext c) = plus_ext (ext_of (upper_ext (\<sigma> i))) (negate (ext_of (lower_ext (\<sigma> j))))"
      "m_lower_open c = (m_lower_open (\<sigma> i) \<or> m_upper_open (\<sigma> j))" "m_upper_open c = (m_upper_open (\<sigma> i) \<or> m_lower_open (\<sigma> j))"
    note m = ivl_diff_members [OF h(1,2) c(2,4,3,5)]
    show "ivl_wf c \<and> members c = {x - y |x y. x \<in> members (\<sigma> i) \<and> y \<in> members (\<sigma> j)}
      \<and> (\<forall>x y. justified sub_jst (\<sigma> i) x (\<sigma> j) y c (x - y))"
      unfolding ivl_wf_iff using c(1) m ne by simp
  qed
qed

interpretation neg_op: interval_function "\<lambda>_ _ _. True" uminus "\<lambda>a b \<sigma>. Inr (ivl_neg a b \<sigma>)" "\<lambda>i. Inr (neg_jst i)"
proof unfold_locales
  fix \<sigma> :: ivl_store and a b
  assume "ivl_wf (\<sigma> a)"
  then have ok: "ivl_ok (\<sigma> a)" and ne: "members (\<sigma> a) \<noteq> {}" unfolding ivl_wf_iff by blast+
  show "yields (Inr (ivl_neg a b \<sigma>)) (writes b \<sigma> (\<lambda>c. ivl_wf c \<and> members c = uminus ` members (\<sigma> a)
      \<and> yields (Inr (neg_jst (\<sigma> a))) (\<lambda>d. \<forall>x. justified d (\<sigma> a) x (\<sigma> a) x c (- x))))"
    unfolding yields_Inr writes_def ivl_wf_iff
    using ivl_neg_bounds(3) [of \<sigma> a b, OF ok] ivl_neg_members [of \<sigma> a b, OF ok] ivl_neg_justified [of \<sigma> a _ b, OF ok] ne
    by (simp add: ivl_neg_frame del: ivl_ok_def)
qed

text \<open>Products and quotients with a number that is not zero.\<close>

lemma scaled_contract:
  assumes "ivl_wf a" "f \<noteq> 0" "scaled f d a c"
  shows "ivl_wf c \<and> members c = (\<lambda>x. real_of_rat f * x) ` members a \<and> yields (Inr d) (\<lambda>d. \<forall>x. justified d a x a x c (real_of_rat f * x))"
  using assms by (simp add: scaled_def ivl_wf_iff del: ivl_ok_def)

interpretation mul_num_op: interval_function "\<lambda>_ _ _. mpq_ok k \<and> mpq_val k \<noteq> 0" "\<lambda>x. rv k * x" "ivl_mul_num k" "\<lambda>_. Inr (mul_num_jst k)" for k
proof unfold_locales
  fix \<sigma> :: ivl_store and a b
  assume h: "ivl_wf (\<sigma> a)" "mpq_ok k \<and> mpq_val k \<noteq> 0"
  then have "ivl_ok (\<sigma> a)" unfolding ivl_wf_def by blast
  note Y = ivl_div_mul_yields [of \<sigma> a k b False, OF this conjunct1 [OF h(2)] conjunct2 [OF h(2)], unfolded if_True if_False]
  show "yields (ivl_mul_num k a b \<sigma>) (writes b \<sigma> (\<lambda>c. ivl_wf c \<and> members c = (\<lambda>x. rv k * x) ` members (\<sigma> a)
      \<and> yields (Inr (mul_num_jst k)) (\<lambda>d. \<forall>x. justified d (\<sigma> a) x (\<sigma> a) x c (rv k * x))))"
    unfolding ivl_mul_num_def by (rule yields_writes_mono [OF Y], rule scaled_contract [OF h(1)]) (use h in simp_all)
qed

text \<open>\<open>div(a, k, b)\<close> multiplies with the inverse of \<open>k\<close>.\<close>

interpretation div_num_op: interval_function "\<lambda>_ _ _. mpq_ok k \<and> mpq_val k \<noteq> 0" "\<lambda>x. real_of_rat (inverse (mpq_val k)) * x"
  "\<lambda>a. ivl_div_num a k" "\<lambda>_. Inr (div_num_jst k)" for k
proof unfold_locales
  fix \<sigma> :: ivl_store and a b
  assume h: "ivl_wf (\<sigma> a)" "mpq_ok k \<and> mpq_val k \<noteq> 0"
  then have "ivl_ok (\<sigma> a)" unfolding ivl_wf_def by blast
  note Y = ivl_div_mul_yields [of \<sigma> a k b True, OF this conjunct1 [OF h(2)] conjunct2 [OF h(2)], unfolded if_True if_False]
  show "yields (ivl_div_num a k b \<sigma>) (writes b \<sigma> (\<lambda>c. ivl_wf c \<and> members c = (\<lambda>x. real_of_rat (inverse (mpq_val k)) * x) ` members (\<sigma> a)
      \<and> yields (Inr (div_num_jst k)) (\<lambda>d. \<forall>x. justified d (\<sigma> a) x (\<sigma> a) x c (real_of_rat (inverse (mpq_val k)) * x))))"
    unfolding ivl_div_num_def div_num_jst_def by (rule yields_writes_mono [OF Y], rule scaled_contract [OF h(1)]) (use h in simp_all)
qed

text \<open>Scaling keeps the invariant for every number; zero gives the whole line.\<close>

lemma ivl_reset_wf: "ivl_wf (ivl_reset a)"
  by (simp add: ivl_wf_iff) (simp add: ivl_reset_def reset_lower_def reset_upper_def)

lemma ivl_scale_valid:
  assumes "\<forall>k. ivl_wf (\<sigma> k)" "mpq_ok q"
  shows "yields (ivl_mul_num q a b \<sigma>) (\<lambda>\<tau>. \<forall>k. ivl_wf (\<tau> k))" "yields (ivl_div_num a q b \<sigma>) (\<lambda>\<tau>. \<forall>k. ivl_wf (\<tau> k))"
proof -
  show "yields (ivl_mul_num q a b \<sigma>) (\<lambda>\<tau>. \<forall>k. ivl_wf (\<tau> k))"
  proof (cases "mpq_val q = 0")
    case True
    then show ?thesis using assms ivl_reset_wf by (simp add: ivl_mul_num_def ivl_div_mul_zero)
  qed (use mul_num_op.keeps_valid [OF assms(1)] assms(2) in simp)
  show "yields (ivl_div_num a q b \<sigma>) (\<lambda>\<tau>. \<forall>k. ivl_wf (\<tau> k))"
  proof (cases "mpq_val q = 0")
    case True
    then show ?thesis using assms ivl_reset_wf by (simp add: ivl_div_num_def ivl_div_mul_zero)
  qed (use div_num_op.keeps_valid [OF assms(1)] assms(2) in simp)
qed

lemma ivl_mul_frac_valid:
  assumes "\<forall>k. ivl_wf (\<sigma> k)" "int_min < n" "n \<le> int_max" "int_min < d" "d \<le> int_max" "d \<noteq> 0"
  shows "yields (ivl_mul_frac n d a b \<sigma>) (\<lambda>\<tau>. \<forall>k. ivl_wf (\<tau> k))"
  using mpq_set_int2_yields [OF assms(2-6)] ivl_scale_valid(1) [OF assms(1)]
  by (auto simp: ivl_mul_frac_def elim!: yieldsE)

end
