(* ===== verification/Interval_Mul.thy ===== *)
theory Interval_Mul
  imports Interval
begin

text \<open>
  Products of intervals (\<open>math/interval/interval_def.h\<close>: \<open>mul\<close>, \<open>mul_jst\<close>) with their dependency rules. The bounds \<open>a, b\<close> of \<open>i1\<close> and \<open>c, d\<close> of \<open>i2\<close> are references in the source: the
  numerals are not written before the end, but the open flags of the result are set before the last
  test of the arguments.
\<close>

section \<open>Products\<close>

definition mul_jst :: "interval \<Rightarrow> interval \<Rightarrow> interval_deps_combine_rule" where
  "mul_jst i1 i2 =
     (if ivl_is_zero i1 then
        \<lparr>m_lower_combine = DEP_IN_LOWER1 OR DEP_IN_UPPER1, m_upper_combine = DEP_IN_LOWER1 OR DEP_IN_UPPER1\<rparr>
      else if ivl_is_zero i2 then
        \<lparr>m_lower_combine = DEP_IN_LOWER2 OR DEP_IN_UPPER2, m_upper_combine = DEP_IN_LOWER2 OR DEP_IN_UPPER2\<rparr>
      else if is_N i1 then
        if is_N i2 then
          \<lparr>m_lower_combine = DEP_IN_UPPER1 OR DEP_IN_UPPER2, m_upper_combine = DEP_IN_LOWER1 OR DEP_IN_LOWER2 OR DEP_IN_UPPER1\<rparr>
        else if is_M i2 then
          \<lparr>m_lower_combine = DEP_IN_LOWER1 OR DEP_IN_UPPER2 OR DEP_IN_UPPER1,
           m_upper_combine = DEP_IN_LOWER1 OR DEP_IN_LOWER2 OR DEP_IN_UPPER1\<rparr>
        else
          \<lparr>m_lower_combine = DEP_IN_LOWER1 OR DEP_IN_UPPER2 OR DEP_IN_UPPER1, m_upper_combine = DEP_IN_UPPER1 OR DEP_IN_LOWER2\<rparr>
      else if is_M i1 then
        if is_N i2 then
          \<lparr>m_lower_combine = DEP_IN_UPPER1 OR DEP_IN_LOWER2 OR DEP_IN_UPPER2,
           m_upper_combine = DEP_IN_LOWER1 OR DEP_IN_LOWER2 OR DEP_IN_UPPER2\<rparr>
        else if is_M i2 then
          \<lparr>m_lower_combine = DEP_IN_LOWER1 OR DEP_IN_UPPER1 OR DEP_IN_LOWER2 OR DEP_IN_UPPER2,
           m_upper_combine = DEP_IN_LOWER1 OR DEP_IN_UPPER1 OR DEP_IN_LOWER2 OR DEP_IN_UPPER2\<rparr>
        else
          \<lparr>m_lower_combine = DEP_IN_LOWER1 OR DEP_IN_UPPER2 OR DEP_IN_LOWER2,
           m_upper_combine = DEP_IN_UPPER1 OR DEP_IN_UPPER2 OR DEP_IN_LOWER2\<rparr>
      else
        if is_N i2 then
          \<lparr>m_lower_combine = DEP_IN_UPPER1 OR DEP_IN_LOWER2 OR DEP_IN_LOWER1, m_upper_combine = DEP_IN_LOWER1 OR DEP_IN_UPPER2\<rparr>
        else if is_M i2 then
          \<lparr>m_lower_combine = DEP_IN_UPPER1 OR DEP_IN_LOWER2 OR DEP_IN_LOWER1,
           m_upper_combine = DEP_IN_UPPER1 OR DEP_IN_UPPER2 OR DEP_IN_LOWER1\<rparr>
        else
          \<lparr>m_lower_combine = DEP_IN_LOWER1 OR DEP_IN_LOWER2, m_upper_combine = DEP_IN_UPPER1 OR DEP_IN_UPPER2 OR DEP_IN_LOWER1\<rparr>)"

text \<open>The nine cases of \<open>mul\<close>: the store with the open flags of \<open>r\<close>, and the new bounds.\<close>

definition mul_cases :: "nat \<Rightarrow> nat \<Rightarrow> nat \<Rightarrow> ivl_store \<Rightarrow> (ivl_store \<times> ext_numeral \<times> ext_numeral) res" where
  "mul_cases i1 i2 r \<sigma> =
     (let a = lower_ext (\<sigma> i1); b = upper_ext (\<sigma> i1); c = lower_ext (\<sigma> i2); d = upper_ext (\<sigma> i2);
          a_o = m_lower_open (\<sigma> i1); b_o = m_upper_open (\<sigma> i1); c_o = m_lower_open (\<sigma> i2); d_o = m_upper_open (\<sigma> i2);
          set_lower_is_open = (\<lambda>v \<sigma>. \<sigma>(r := (\<sigma> r)\<lparr>m_lower_open := v\<rparr>));
          set_upper_is_open = (\<lambda>v \<sigma>. \<sigma>(r := (\<sigma> r)\<lparr>m_upper_open := v\<rparr>));
          bounds = (\<lambda>p q u v \<sigma>. bind_res (ext_mul p q) (\<lambda>new_l. bind_res (ext_mul u v) (\<lambda>new_u. Inr (\<sigma>, new_l, new_u))))
      in
      if is_N (\<sigma> i1) then
        if is_N (\<sigma> i2) then
          let \<sigma> = set_lower_is_open (if is_N0 (\<sigma> i1) \<or> is_N0 (\<sigma> i2) then False else b_o \<or> d_o) \<sigma>;
              \<sigma> = set_upper_is_open (a_o \<or> c_o) \<sigma>
          in bounds b d a c \<sigma>
        else if is_M (\<sigma> i2) then
          let \<sigma> = set_lower_is_open (a_o \<or> d_o) \<sigma>; \<sigma> = set_upper_is_open (a_o \<or> c_o) \<sigma>
          in bounds a d a c \<sigma>
        else
          let \<sigma> = set_upper_is_open (if is_N0 (\<sigma> i1) \<or> is_P0 (\<sigma> i2) then False else b_o \<or> c_o) \<sigma>;
              \<sigma> = set_lower_is_open (a_o \<or> d_o) \<sigma>
          in bounds a d b c \<sigma>
      else if is_M (\<sigma> i1) then
        if is_N (\<sigma> i2) then
          let \<sigma> = set_lower_is_open (b_o \<or> c_o) \<sigma>; \<sigma> = set_upper_is_open (a_o \<or> c_o) \<sigma>
          in bounds b c a c \<sigma>
        else if is_M (\<sigma> i2) then
          let ad_o = a_o \<or> d_o; bc_o = b_o \<or> c_o; ac_o = a_o \<or> c_o; bd_o = b_o \<or> d_o in
          bind_res (ext_mul a d) (\<lambda>ad. bind_res (ext_mul b c) (\<lambda>bc. bind_res (ext_mul a c) (\<lambda>ac. bind_res (ext_mul b d) (\<lambda>bd.
            let (new_l, \<sigma>) = (if ext_lt ad bc \<or> (ext_eq ad bc \<and> \<not> ad_o \<and> bc_o) then (ad, set_lower_is_open ad_o \<sigma>)
                              else (bc, set_lower_is_open bc_o \<sigma>));
                (new_u, \<sigma>) = (if ext_gt ac bd \<or> (ext_eq ac bd \<and> \<not> ac_o \<and> bd_o) then (ac, set_upper_is_open ac_o \<sigma>)
                              else (bd, set_upper_is_open bd_o \<sigma>))
            in Inr (\<sigma>, new_l, new_u)))))
        else
          let \<sigma> = set_lower_is_open (a_o \<or> d_o) \<sigma>; \<sigma> = set_upper_is_open (b_o \<or> d_o) \<sigma>
          in bounds a d b d \<sigma>
      else
        if is_N (\<sigma> i2) then
          let \<sigma> = set_upper_is_open (if is_P0 (\<sigma> i1) \<or> is_N0 (\<sigma> i2) then False else a_o \<or> d_o) \<sigma>;
              \<sigma> = set_lower_is_open (b_o \<or> c_o) \<sigma>
          in bounds b c a d \<sigma>
        else if is_M (\<sigma> i2) then
          let \<sigma> = set_lower_is_open (b_o \<or> c_o) \<sigma>; \<sigma> = set_upper_is_open (b_o \<or> d_o) \<sigma>
          in bounds b c b d \<sigma>
        else
          let \<sigma> = set_lower_is_open (if is_P0 (\<sigma> i1) \<or> is_P0 (\<sigma> i2) then False else a_o \<or> c_o) \<sigma>;
              \<sigma> = set_upper_is_open (b_o \<or> d_o) \<sigma>
          in bounds a c b d \<sigma>)"

text \<open>The last four statements of \<open>mul\<close> and \<open>div\<close>.\<close>

definition store_bounds :: "nat \<Rightarrow> ext_numeral \<Rightarrow> ext_numeral \<Rightarrow> ivl_store \<Rightarrow> ivl_store" where
  "store_bounds r new_l new_u \<sigma> =
     \<sigma>(r := (\<sigma> r)\<lparr>m_lower := fst new_l, m_upper := fst new_u,
       m_lower_inf := snd new_l = EN_MINUS_INFINITY, m_upper_inf := snd new_u = EN_PLUS_INFINITY\<rparr>)"

definition ivl_mul :: "nat \<Rightarrow> nat \<Rightarrow> nat \<Rightarrow> ivl_store \<Rightarrow> ivl_store res" where
  "ivl_mul i1 i2 r \<sigma> =
     (if ivl_is_zero (\<sigma> i1) then Inr (ivl_set r i1 \<sigma>)
      else if ivl_is_zero (\<sigma> i2) then Inr (ivl_set r i2 \<sigma>)
      else bind_res (mul_cases i1 i2 r \<sigma>) (\<lambda>(\<sigma>, new_l, new_u). Inr (store_bounds r new_l new_u \<sigma>)))"

definition ivl_mul_deps :: "nat \<Rightarrow> nat \<Rightarrow> nat \<Rightarrow> ivl_store \<Rightarrow> (interval_deps_combine_rule \<times> ivl_store) res" where
  "ivl_mul_deps i1 i2 r \<sigma> = bind_res (ivl_mul i1 i2 r \<sigma>) (\<lambda>\<tau>. Inr (mul_jst (\<sigma> i1) (\<sigma> i2), \<tau>))"

section \<open>Bounds of products\<close>

lemma times_negate [simp]: "times_ext (negate a) b = negate (times_ext a b)" "times_ext a (negate b) = negate (times_ext a b)"
  by (cases a; cases b; auto simp: infinity_def)+

lemma times_ext_commute: "times_ext a b = times_ext b a"
  by (cases a; cases b) (auto simp: infinity_def mult.commute)

lemma negate_negate [simp]: "negate (negate a) = a"
  by (cases a) simp_all

lemma negate_order [simp]: "Fin 0 < negate a \<longleftrightarrow> a < Fin 0" "negate a < Fin 0 \<longleftrightarrow> Fin 0 < a"
  "Fin 0 \<le> negate a \<longleftrightarrow> a \<le> Fin 0" "negate a \<le> Fin 0 \<longleftrightarrow> Fin 0 \<le> a" "negate a = Fin 0 \<longleftrightarrow> a = Fin 0"
  by (cases a; auto simp: less_eq_ext_rat_def)+

text \<open>The two ways in which a product is bounded: from below by the lower bounds of factors that are not
  negative, and from above by the upper bounds when one factor is not negative.\<close>

lemma product_above:
  assumes "above a s x" "above c t y" "Fin 0 \<le> a" "Fin 0 \<le> c"
  shows "above (times_ext a c) (if (a = Fin 0 \<and> \<not> s) \<or> (c = Fin 0 \<and> \<not> t) then False else s \<or> t) (x * y)"
proof (cases a)
  case a: (Fin p)
  show ?thesis
  proof (cases c)
    case c: (Fin q)
    let ?p = "real_of_rat p" and ?q = "real_of_rat q"
    have pq: "0 \<le> ?p" "0 \<le> ?q" using assms(3,4) a c by (simp_all add: less_eq_ext_rat_def not_less)
    have x: "?p \<le> x" "s \<Longrightarrow> ?p < x" "?q \<le> y" "t \<Longrightarrow> ?q < y" using assms(1,2) a c by (auto split: if_splits)
    have x0: "0 \<le> x" using pq(1) x(1) by linarith
    have le: "?p * ?q \<le> x * y" using pq x x0 by (intro mult_mono) auto
    have lt: "?p * ?q < x * y" if "?p = 0 \<Longrightarrow> s" "?q = 0 \<Longrightarrow> t" "s \<or> t"
    proof (cases s)
      case True
      show ?thesis
      proof (cases "?q = 0")
        case True
        then have "0 < x" "0 < y" using that x \<open>s\<close> pq by linarith+
        then show ?thesis using True by simp
      next
        case False
        then show ?thesis using x \<open>s\<close> pq by (intro mult_less_le_imp_less) auto
      qed
    next
      case False
      then have "0 < ?p" using that pq by (metis order_le_less)
      then show ?thesis using False that x pq by (intro mult_le_less_imp_less) auto
    qed
    show ?thesis using le lt by (auto simp: a c of_rat_mult)
  qed (use assms in auto)
qed (use assms in auto)

lemma product_below:
  assumes "below b s x" "below d t y" "Fin 0 < b" "Fin 0 < d" "0 \<le> x"
  shows "below (times_ext b d) (s \<or> t) (x * y)"
proof (cases b)
  case b: (Fin p)
  show ?thesis
  proof (cases d)
    case d: (Fin q)
    let ?p = "real_of_rat p" and ?q = "real_of_rat q"
    have pq: "0 < ?p" "0 < ?q" using assms(3,4) b d by simp_all
    have x: "x \<le> ?p" "s \<Longrightarrow> x < ?p" "y \<le> ?q" "t \<Longrightarrow> y < ?q" using assms(1,2) b d by (auto split: if_splits)
    have xy: "x * y \<le> x * ?q" "x * ?q \<le> ?p * ?q" "0 < x \<Longrightarrow> t \<Longrightarrow> x * y < x * ?q" "s \<Longrightarrow> x * ?q < ?p * ?q"
      using x pq assms(5) by (auto intro: mult_left_mono mult_right_mono)
    moreover have "x = 0 \<Longrightarrow> x * y < ?p * ?q" using pq by simp
    ultimately have "x * y < ?p * ?q" if "s \<or> t"
      using that assms(5) by (metis order_le_less order_le_less_trans order_less_le_trans)
    then show ?thesis using xy by (auto simp: b d of_rat_mult)
  qed (use assms b in \<open>auto simp: infinity_def\<close>)
qed (use assms in \<open>cases d; auto simp: infinity_def\<close>)+

type_synonym ext_bound = "ext_rat \<times> bool"

text \<open>The bounds of the product as a function of the bounds of the factors.\<close>

fun product_bounds :: "ext_bound \<Rightarrow> ext_bound \<Rightarrow> ext_bound \<Rightarrow> ext_bound \<Rightarrow> ext_bound \<times> ext_bound" where
  "product_bounds (a, ao) (b, bo) (c, co) (d, du) =
     (if b \<le> Fin 0 then
        if d \<le> Fin 0 then
          ((times_ext b d, if (b = Fin 0 \<and> \<not> bo) \<or> (d = Fin 0 \<and> \<not> du) then False else bo \<or> du), (times_ext a c, ao \<or> co))
        else if c < Fin 0 then ((times_ext a d, ao \<or> du), (times_ext a c, ao \<or> co))
        else ((times_ext a d, ao \<or> du), (times_ext b c, if (b = Fin 0 \<and> \<not> bo) \<or> (c = Fin 0 \<and> \<not> co) then False else bo \<or> co))
      else if a < Fin 0 then
        if d \<le> Fin 0 then ((times_ext b c, bo \<or> co), (times_ext a c, ao \<or> co))
        else if c < Fin 0 then
          (if times_ext a d < times_ext b c \<or> (times_ext a d = times_ext b c \<and> \<not> (ao \<or> du) \<and> (bo \<or> co))
           then (times_ext a d, ao \<or> du) else (times_ext b c, bo \<or> co),
           if times_ext b d < times_ext a c \<or> (times_ext a c = times_ext b d \<and> \<not> (ao \<or> co) \<and> (bo \<or> du))
           then (times_ext a c, ao \<or> co) else (times_ext b d, bo \<or> du))
        else ((times_ext a d, ao \<or> du), (times_ext b d, bo \<or> du))
      else
        if d \<le> Fin 0 then
          ((times_ext b c, bo \<or> co), (times_ext a d, if (a = Fin 0 \<and> \<not> ao) \<or> (d = Fin 0 \<and> \<not> du) then False else ao \<or> du))
        else if c < Fin 0 then ((times_ext b c, bo \<or> co), (times_ext b d, bo \<or> du))
        else ((times_ext a c, if (a = Fin 0 \<and> \<not> ao) \<or> (c = Fin 0 \<and> \<not> co) then False else ao \<or> co), (times_ext b d, bo \<or> du)))"

abbreviation lower_b :: "interval \<Rightarrow> ext_bound" where
  "lower_b a \<equiv> (ext_of (lower_ext a), m_lower_open a)"

abbreviation upper_b :: "interval \<Rightarrow> ext_bound" where
  "upper_b a \<equiv> (ext_of (upper_ext a), m_upper_open a)"

text \<open>The classes of intervals by their bounds.\<close>

lemma class_bounds:
  assumes "ivl_ok a"
  shows "is_N a \<longleftrightarrow> ext_of (upper_ext a) \<le> Fin 0" "is_N0 a \<longleftrightarrow> ext_of (upper_ext a) = Fin 0 \<and> \<not> m_upper_open a"
    "is_N1 a \<longleftrightarrow> ext_of (upper_ext a) < Fin 0 \<or> (ext_of (upper_ext a) = Fin 0 \<and> m_upper_open a)"
    "is_P a \<longleftrightarrow> Fin 0 \<le> ext_of (lower_ext a)" "is_P0 a \<longleftrightarrow> ext_of (lower_ext a) = Fin 0 \<and> \<not> m_lower_open a"
    "is_P1 a \<longleftrightarrow> Fin 0 < ext_of (lower_ext a) \<or> (ext_of (lower_ext a) = Fin 0 \<and> m_lower_open a)"
    "is_M a \<longleftrightarrow> ext_of (lower_ext a) < Fin 0 \<and> Fin 0 < ext_of (upper_ext a)"
    "ivl_is_zero a \<longleftrightarrow> ext_of (lower_ext a) = Fin 0 \<and> ext_of (upper_ext a) = Fin 0"
  using assms unfolding is_N_def is_N0_def is_N1_def is_P_def is_P0_def is_P1_def is_M_def ivl_is_zero_def
    lower_is_neg_def lower_is_pos_def lower_is_zero_def upper_is_neg_def upper_is_pos_def upper_is_zero_def
  by (simp_all add: le_less del: ext_of_bounds) (auto simp: le_less)

lemma wf_bounds_le: "ivl_wf a \<Longrightarrow> ext_of (lower_ext a) \<le> ext_of (upper_ext a)"
  by (auto simp: ivl_wf_def check_invariant_def less_eq_ext_rat_def lower_kind_def upper_kind_def split: if_splits)

definition set_opens :: "nat \<Rightarrow> bool \<Rightarrow> bool \<Rightarrow> ivl_store \<Rightarrow> ivl_store" where
  "set_opens r s t \<sigma> = \<sigma>(r := (\<sigma> r)\<lparr>m_lower_open := s, m_upper_open := t\<rparr>)"

lemma set_opens_twice:
  "\<sigma>(r := ((\<sigma>(r := (\<sigma> r)\<lparr>m_lower_open := s\<rparr>)) r)\<lparr>m_upper_open := t\<rparr>) = set_opens r s t \<sigma>"
  "\<sigma>(r := ((\<sigma>(r := (\<sigma> r)\<lparr>m_upper_open := t\<rparr>)) r)\<lparr>m_lower_open := s\<rparr>) = set_opens r s t \<sigma>"
  "(\<sigma>(r := (\<sigma> r)\<lparr>m_lower_open := s\<rparr>)) (r := ((\<sigma>(r := (\<sigma> r)\<lparr>m_lower_open := s\<rparr>)) r)\<lparr>m_upper_open := t\<rparr>) = set_opens r s t \<sigma>"
  "(\<sigma>(r := (\<sigma> r)\<lparr>m_upper_open := t\<rparr>)) (r := ((\<sigma>(r := (\<sigma> r)\<lparr>m_upper_open := t\<rparr>)) r)\<lparr>m_lower_open := s\<rparr>) = set_opens r s t \<sigma>"
  by (cases "\<sigma> r"; simp add: set_opens_def)+

lemma ext_mul_obtain:
  assumes "ext_ok x" "ext_ok y"
  obtains z where "ext_mul x y = Inr z" "ext_ok z" "ext_of z = times_ext (ext_of x) (ext_of y)"
  using ext_mul_yields [OF assms] by (auto elim!: yieldsE)

lemma mul_cases_yields:
  assumes wf: "ivl_wf (\<sigma> i)" "ivl_wf (\<sigma> j)" and nz: "\<not> ivl_is_zero (\<sigma> i)" "\<not> ivl_is_zero (\<sigma> j)"
  shows "yields (mul_cases i j r \<sigma>) (\<lambda>(\<tau>, l, u). ext_ok l \<and> ext_ok u \<and> (\<exists>s t. \<tau> = set_opens r s t \<sigma> \<and>
    ((ext_of l, s), (ext_of u, t)) = product_bounds (lower_b (\<sigma> i)) (upper_b (\<sigma> i)) (lower_b (\<sigma> j)) (upper_b (\<sigma> j))))"
proof -
  define a b c d where abcd: "a = lower_ext (\<sigma> i)" "b = upper_ext (\<sigma> i)" "c = lower_ext (\<sigma> j)" "d = upper_ext (\<sigma> j)"
  have oki: "ivl_ok (\<sigma> i)" and okj: "ivl_ok (\<sigma> j)" using wf unfolding ivl_wf_def by blast+
  then have ok: "ext_ok a" "ext_ok b" "ext_ok c" "ext_ok d" by (simp_all add: abcd)
  obtain ac where ac: "ext_mul a c = Inr ac" "ext_ok ac" "ext_of ac = times_ext (ext_of a) (ext_of c)" using ok(1,3) by (rule ext_mul_obtain)
  obtain ad where ad: "ext_mul a d = Inr ad" "ext_ok ad" "ext_of ad = times_ext (ext_of a) (ext_of d)" using ok(1,4) by (rule ext_mul_obtain)
  obtain bc where bc: "ext_mul b c = Inr bc" "ext_ok bc" "ext_of bc = times_ext (ext_of b) (ext_of c)" using ok(2,3) by (rule ext_mul_obtain)
  obtain bd where bd: "ext_mul b d = Inr bd" "ext_ok bd" "ext_of bd = times_ext (ext_of b) (ext_of d)" using ok(2,4) by (rule ext_mul_obtain)
  note cls = class_bounds [OF oki, folded abcd] class_bounds [OF okj, folded abcd]
  show ?thesis
    unfolding mul_cases_def abcd [symmetric] Let_def set_opens_twice ac(1) ad(1) bc(1) bd(1) bind_res.simps
    by (cases "ext_of b \<le> Fin 0"; cases "ext_of a < Fin 0"; cases "ext_of d \<le> Fin 0"; cases "ext_of c < Fin 0";
      simp only: cls product_bounds.simps if_True if_False not_le not_less simp_thms yields_Inr prod.case prod.inject;
      simp add: ac ad bc bd not_le [symmetric] set_opens_def del: ext_of_bounds; auto)
qed

lemma product_above_variants:
  shows "below b s x \<Longrightarrow> below d t y \<Longrightarrow> b \<le> Fin 0 \<Longrightarrow> d \<le> Fin 0 \<Longrightarrow>
      above (times_ext b d) (if (b = Fin 0 \<and> \<not> s) \<or> (d = Fin 0 \<and> \<not> t) then False else s \<or> t) (x * y)"
    "below b s x \<Longrightarrow> above c t y \<Longrightarrow> b \<le> Fin 0 \<Longrightarrow> Fin 0 \<le> c \<Longrightarrow>
      below (times_ext b c) (if (b = Fin 0 \<and> \<not> s) \<or> (c = Fin 0 \<and> \<not> t) then False else s \<or> t) (x * y)"
    "above a s x \<Longrightarrow> below d t y \<Longrightarrow> Fin 0 \<le> a \<Longrightarrow> d \<le> Fin 0 \<Longrightarrow>
      below (times_ext a d) (if (a = Fin 0 \<and> \<not> s) \<or> (d = Fin 0 \<and> \<not> t) then False else s \<or> t) (x * y)"
proof -
  assume h: "below b s x" "below d t y" "b \<le> Fin 0" "d \<le> Fin 0"
  have "above (negate b) s (- x)" "above (negate d) t (- y)" "Fin 0 \<le> negate b" "Fin 0 \<le> negate d" using h by simp_all
  from product_above [OF this]
  show "above (times_ext b d) (if (b = Fin 0 \<and> \<not> s) \<or> (d = Fin 0 \<and> \<not> t) then False else s \<or> t) (x * y)"
    by (simp only: times_negate negate_order negate_negate minus_mult_minus)
next
  assume h: "below b s x" "above c t y" "b \<le> Fin 0" "Fin 0 \<le> c"
  have "above (negate b) s (- x)" "Fin 0 \<le> negate b" using h by simp_all
  from product_above [OF this(1) h(2) this(2) h(4)]
  show "below (times_ext b c) (if (b = Fin 0 \<and> \<not> s) \<or> (c = Fin 0 \<and> \<not> t) then False else s \<or> t) (x * y)"
    by (simp only: times_negate negate_order bound_negate mult_minus_left minus_minus)
next
  assume h: "above a s x" "below d t y" "Fin 0 \<le> a" "d \<le> Fin 0"
  have "above (negate d) t (- y)" "Fin 0 \<le> negate d" using h by simp_all
  from product_above [OF h(1) this(1) h(3) this(2)]
  show "below (times_ext a d) (if (a = Fin 0 \<and> \<not> s) \<or> (d = Fin 0 \<and> \<not> t) then False else s \<or> t) (x * y)"
    by (simp only: times_negate negate_order bound_negate mult_minus_right minus_minus)
qed

lemma product_below_either:
  assumes h: "below b s x" "below d t y" "Fin 0 < b" "Fin 0 < d" "0 \<le> x \<or> 0 \<le> y"
  shows "below (times_ext b d) (s \<or> t) (x * y)"
  using h(5)
proof
  assume "0 \<le> y"
  then have "below (times_ext d b) (t \<or> s) (y * x)" by (rule product_below [OF h(2,1,4,3)])
  then show ?thesis by (simp only: times_ext_commute [of d b] mult.commute [of y x] disj_commute [of t s])
qed (rule product_below [OF h(1-4)])

lemma product_below_variants:
  shows "below b s x \<Longrightarrow> below d t y \<Longrightarrow> Fin 0 < b \<Longrightarrow> Fin 0 < d \<Longrightarrow> 0 \<le> x \<or> 0 \<le> y \<Longrightarrow> below (times_ext b d) (s \<or> t) (x * y)"
    "above a s x \<Longrightarrow> above c t y \<Longrightarrow> a < Fin 0 \<Longrightarrow> c < Fin 0 \<Longrightarrow> x \<le> 0 \<or> y \<le> 0 \<Longrightarrow> below (times_ext a c) (s \<or> t) (x * y)"
    "above a s x \<Longrightarrow> below d t y \<Longrightarrow> a < Fin 0 \<Longrightarrow> Fin 0 < d \<Longrightarrow> x \<le> 0 \<or> 0 \<le> y \<Longrightarrow> above (times_ext a d) (s \<or> t) (x * y)"
    "below b s x \<Longrightarrow> above c t y \<Longrightarrow> Fin 0 < b \<Longrightarrow> c < Fin 0 \<Longrightarrow> 0 \<le> x \<or> y \<le> 0 \<Longrightarrow> above (times_ext b c) (s \<or> t) (x * y)"
proof -
  show "below b s x \<Longrightarrow> below d t y \<Longrightarrow> Fin 0 < b \<Longrightarrow> Fin 0 < d \<Longrightarrow> 0 \<le> x \<or> 0 \<le> y \<Longrightarrow> below (times_ext b d) (s \<or> t) (x * y)"
    by (rule product_below_either)
next
  assume h: "above a s x" "above c t y" "a < Fin 0" "c < Fin 0" "x \<le> 0 \<or> y \<le> 0"
  have "below (negate a) s (- x)" "below (negate c) t (- y)" "Fin 0 < negate a" "Fin 0 < negate c" "0 \<le> - x \<or> 0 \<le> - y"
    using h by (simp_all only: bound_negate negate_order minus_minus neg_0_le_iff_le)
  from product_below_either [OF this] show "below (times_ext a c) (s \<or> t) (x * y)" by (simp only: times_negate negate_negate minus_mult_minus)
next
  assume h: "above a s x" "below d t y" "a < Fin 0" "Fin 0 < d" "x \<le> 0 \<or> 0 \<le> y"
  have "below (negate a) s (- x)" "Fin 0 < negate a" "0 \<le> - x \<or> 0 \<le> y"
    using h by (simp_all only: bound_negate negate_order minus_minus neg_0_le_iff_le)
  from product_below_either [OF this(1) h(2) this(2) h(4) this(3)]
  show "above (times_ext a d) (s \<or> t) (x * y)" by (simp only: times_negate bound_negate mult_minus_left minus_minus)
next
  assume h: "below b s x" "above c t y" "Fin 0 < b" "c < Fin 0" "0 \<le> x \<or> y \<le> 0"
  have "below (negate c) t (- y)" "Fin 0 < negate c" "0 \<le> x \<or> 0 \<le> - y"
    using h by (simp_all only: bound_negate negate_order minus_minus neg_0_le_iff_le)
  from product_below_either [OF h(1) this(1) h(3) this(2,3)]
  show "above (times_ext b c) (s \<or> t) (x * y)" by (simp only: times_negate bound_negate mult_minus_right minus_minus)
qed

lemma bound_sign:
  "below b s x \<Longrightarrow> b \<le> Fin 0 \<Longrightarrow> x \<le> 0" "above a s x \<Longrightarrow> Fin 0 \<le> a \<Longrightarrow> 0 \<le> x"
proof -
  show "below b s x \<Longrightarrow> b \<le> Fin 0 \<Longrightarrow> x \<le> 0"
    by (cases b) (auto split: if_splits intro: order_trans [of _ "real_of_rat r" for r] dest: less_imp_le)
  show "above a s x \<Longrightarrow> Fin 0 \<le> a \<Longrightarrow> 0 \<le> x"
    by (cases a) (auto split: if_splits intro: order_trans [of _ "real_of_rat r" for r] dest: less_imp_le)
qed

text \<open>The smaller of two lower bounds holds when one of them does.\<close>

lemma above_mono: "above p s z \<Longrightarrow> q < p \<or> (q = p \<and> (t \<longrightarrow> s)) \<Longrightarrow> above q t z"
proof (cases p; cases q)
  fix u v assume "p = Fin u" "q = Fin v" and h: "above p s z" "q < p \<or> (q = p \<and> (t \<longrightarrow> s))"
  then show ?thesis
    using of_rat_less [of v u, where ?'a = real] by (auto split: if_splits)
qed auto

lemma above_choice:
  assumes "above p s z \<or> above q t z"
  shows "above (fst (if p < q \<or> (p = q \<and> \<not> s \<and> t) then (p, s) else (q, t))) (snd (if p < q \<or> (p = q \<and> \<not> s \<and> t) then (p, s) else (q, t))) z"
  using assms above_mono [of p s z q t] above_mono [of q t z p s] by (auto simp: not_less le_less)

lemma below_choice:
  assumes "below p s z \<or> below q t z"
  shows "below (fst (if q < p \<or> (p = q \<and> \<not> s \<and> t) then (p, s) else (q, t))) (snd (if q < p \<or> (p = q \<and> \<not> s \<and> t) then (p, s) else (q, t))) z"
proof -
  have n: "negate p < negate q \<longleftrightarrow> q < p" "negate p = negate q \<longleftrightarrow> p = q"
    by (cases p; cases q; simp)+
  show ?thesis
    using above_choice [of "negate p" s "- z" "negate q" t] assms unfolding n by (auto split: if_splits)
qed

abbreviation mul_bounds :: "interval \<Rightarrow> interval \<Rightarrow> ext_bound \<times> ext_bound" where
  "mul_bounds i j \<equiv> product_bounds (lower_b i) (upper_b i) (lower_b j) (upper_b j)"

lemma product_justified:
  assumes wf: "ivl_wf i" "ivl_wf j" and nz: "\<not> ivl_is_zero i" "\<not> ivl_is_zero j"
    and eq: "mul_bounds i j = ((l, s), (u, t))"
  shows "deps_hold (m_lower_combine (mul_jst i j)) i x j y \<Longrightarrow> above l s (x * y)"
    "deps_hold (m_upper_combine (mul_jst i j)) i x j y \<Longrightarrow> below u t (x * y)"
proof -
  define a b c d where abcd: "a = ext_of (lower_ext i)" "b = ext_of (upper_ext i)" "c = ext_of (lower_ext j)" "d = ext_of (upper_ext j)"
  define ao bo co du where opens: "ao = m_lower_open i" "bo = m_upper_open i" "co = m_lower_open j" "du = m_upper_open j"
  have oki: "ivl_ok i" and okj: "ivl_ok j" using wf unfolding ivl_wf_def by blast+
  note cls = class_bounds [OF oki, folded abcd opens] class_bounds [OF okj, folded abcd opens]
  have nz: "ivl_is_zero i \<longleftrightarrow> False" "ivl_is_zero j \<longleftrightarrow> False" using nz by simp_all
  have le: "a \<le> b" "c \<le> d" using wf_bounds_le wf by (simp_all add: abcd)
  have nz': "a = Fin 0 \<Longrightarrow> b \<noteq> Fin 0" "c = Fin 0 \<Longrightarrow> d \<noteq> Fin 0" using nz unfolding cls by blast+
  have sg: "b \<le> Fin 0 \<Longrightarrow> a < Fin 0" "d \<le> Fin 0 \<Longrightarrow> c < Fin 0" by (metis le(1) nz'(1) antisym order_le_less order_trans) (metis le(2) nz'(2) antisym order_le_less order_trans)
  let ?pb = "product_bounds (a, ao) (b, bo) (c, co) (d, du)"
  have L: "l = fst (fst ?pb)" "s = snd (fst ?pb)" "u = fst (snd ?pb)" "t = snd (snd ?pb)"
    using eq by (simp_all only: abcd opens fst_conv snd_conv)
  have H: "lower_holds i x \<longleftrightarrow> above a ao x" "upper_holds i x \<longleftrightarrow> below b bo x" "lower_holds j y \<longleftrightarrow> above c co y" "upper_holds j y \<longleftrightarrow> below d du y"
    by (simp_all only: holds_ext abcd opens)
  note rules = product_above [of a ao x c co y] product_above_variants(1) [of b bo x d du y] product_above_variants(2) [of b bo x c co y]
    product_above_variants(3) [of a ao x d du y] product_below_variants(1) [of b bo x d du y] product_below_variants(2) [of a ao x c co y]
    product_below_variants(3) [of a ao x d du y] product_below_variants(4) [of b bo x c co y]
    bound_sign(1) [of b bo x] bound_sign(1) [of d du y] bound_sign(2) [of a ao x] bound_sign(2) [of c co y]
  have goals: "(deps_hold (m_lower_combine (mul_jst i j)) i x j y \<longrightarrow> above l s (x * y))
    \<and> (deps_hold (m_upper_combine (mul_jst i j)) i x j y \<longrightarrow> below u t (x * y))"
  proof -
    have choice: "above a ao x \<Longrightarrow> below b bo x \<Longrightarrow> above c co y \<Longrightarrow> below d du y \<Longrightarrow> a < Fin 0 \<Longrightarrow> Fin 0 < b \<Longrightarrow> c < Fin 0 \<Longrightarrow> Fin 0 < d \<Longrightarrow>
        above (times_ext a d) (ao \<or> du) (x * y) \<or> above (times_ext b c) (bo \<or> co) (x * y)"
      "above a ao x \<Longrightarrow> below b bo x \<Longrightarrow> above c co y \<Longrightarrow> below d du y \<Longrightarrow> a < Fin 0 \<Longrightarrow> Fin 0 < b \<Longrightarrow> c < Fin 0 \<Longrightarrow> Fin 0 < d \<Longrightarrow>
        below (times_ext a c) (ao \<or> co) (x * y) \<or> below (times_ext b d) (bo \<or> du) (x * y)"
      using rules(5-8) linear [of x 0] by blast+
    note choice = above_choice [OF choice(1)] below_choice [OF choice(2)]
    have ci: "((b \<le> Fin 0) = True)
      \<or> ((b \<le> Fin 0) = False) \<and> ((Fin 0 < b) = True) \<and> ((a < Fin 0) = True)
      \<or> ((b \<le> Fin 0) = False) \<and> ((Fin 0 < b) = True) \<and> ((a < Fin 0) = False) \<and> ((Fin 0 \<le> a) = True)"
      by (metis not_le not_less)
    have cj: "((d \<le> Fin 0) = True)
      \<or> ((d \<le> Fin 0) = False) \<and> ((Fin 0 < d) = True) \<and> ((c < Fin 0) = True)
      \<or> ((d \<le> Fin 0) = False) \<and> ((Fin 0 < d) = True) \<and> ((c < Fin 0) = False) \<and> ((Fin 0 \<le> c) = True)"
      by (metis not_le not_less)
    from ci cj sg show ?thesis
      by (elim disjE conjE; simp only: mul_jst_def nz cls L product_bounds.simps if_True if_False simp_thms fst_conv snd_conv
          interval_deps_combine_rule.simps deps_hold_def dep_or dep_flags H; blast intro: rules choice)
  qed
  show "deps_hold (m_lower_combine (mul_jst i j)) i x j y \<Longrightarrow> above l s (x * y)"
    "deps_hold (m_upper_combine (mul_jst i j)) i x j y \<Longrightarrow> below u t (x * y)"
    using goals by blast+
qed

section \<open>The bounds of products are attained or approached\<close>

lemma scale_between:
  assumes "c \<noteq> 0" "min (x * c) (y * c) \<le> z" "z \<le> max (x * c) (y * c)"
  shows "min x y \<le> z / c" "z / c \<le> (max x y :: real)"
proof -
  have "min x y \<le> z / c \<and> z / c \<le> max x y"
  proof (cases "0 < c")
    case True
    then have "min x y * c = min (x * c) (y * c)" "max x y * c = max (x * c) (y * c)"
      by (simp_all add: min_mult_distrib_right max_mult_distrib_right)
    then show ?thesis using assms(2,3) True by (simp add: pos_le_divide_eq pos_divide_le_eq)
  next
    case False
    then have "c < 0" using assms(1) by simp
    moreover from this have "min x y * c = max (x * c) (y * c)" "max x y * c = min (x * c) (y * c)"
      by (simp_all add: min_mult_distrib_right max_mult_distrib_right)
    ultimately show ?thesis using assms(2,3) by (simp add: neg_le_divide_eq neg_divide_le_eq)
  qed
  then show "min x y \<le> z / c" "z / c \<le> max x y" by blast+
qed

lemma product_convex:
  assumes "p \<in> {x * y |x y. x \<in> members a \<and> y \<in> members b}" "q \<in> {x * y |x y. x \<in> members a \<and> y \<in> members b}" "p \<le> z" "z \<le> q"
  shows "z \<in> {x * y |x y. x \<in> members a \<and> y \<in> members b}"
proof -
  obtain x1 y1 x2 y2 where m: "p = x1 * y1" "q = x2 * y2" "x1 \<in> members a" "x2 \<in> members a" "y1 \<in> members b" "y2 \<in> members b"
    using assms(1,2) by blast
  show ?thesis
  proof (cases "z \<le> x2 * y1")
    case True
    show ?thesis
    proof (cases "y1 = 0")
      case True
      then have "z = x1 * y1" using \<open>z \<le> x2 * y1\<close> assms(3) m(1) by simp
      then show ?thesis using m by blast
    next
      case False
      then have "z / y1 \<in> members a"
        using scale_between [OF False, of x1 x2 z] assms(3) True m(1) by (intro members_between [OF m(3,4)]) (auto simp: min_def max_def)
      then show ?thesis using m(5) False by force
    qed
  next
    case False
    then have "x2 \<noteq> 0" using assms(4) m(2) by auto
    then have "z / x2 \<in> members b"
      using scale_between [of x2 y1 y2 z] assms(4) False m(2) by (intro members_between [OF m(5,6)]) (auto simp: min_def max_def mult.commute)
    then show ?thesis using m(4) \<open>x2 \<noteq> 0\<close> by force
  qed
qed

lemma near_upper_pos:
  assumes "ivl_wf i" "Fin 0 < ext_of (upper_ext i)"
  obtains x where "x \<in> members i" "0 < x"
proof (cases "m_upper_inf i")
  case True
  then show thesis using near_upper(1) [OF assms(1) True, of 1] that by force
next
  case False
  then have "0 < rv (m_upper i)" using assms(2) by simp
  then have "rv (m_upper i) / 2 < rv (m_upper i)" "0 < rv (m_upper i) / 2" by simp_all
  then show thesis using near_upper(2) [OF assms(1)] that by (meson order_less_le_trans)
qed

text \<open>Close to the product of two positive upper bounds.\<close>

lemma near_product_up:
  assumes i: "ivl_wf i" "Fin 0 < ext_of (upper_ext i)" and j: "ivl_wf j" "Fin 0 < ext_of (upper_ext j)"
    and z: "below (times_ext (ext_of (upper_ext i)) (ext_of (upper_ext j))) (m_upper_open i \<or> m_upper_open j) z"
  shows "\<exists>x \<in> members i. \<exists>y \<in> members j. z \<le> x * y"
proof -
  obtain x0 where x0: "x0 \<in> members i" "0 < x0" using i by (rule near_upper_pos)
  obtain y0 where y0: "y0 \<in> members j" "0 < y0" using j by (rule near_upper_pos)
  let ?b = "rv (m_upper i)" and ?d = "rv (m_upper j)"
  consider "m_upper_inf i" | "m_upper_inf j"
    | "\<not> m_upper_inf i" "\<not> m_upper_inf j" "z < ?b * ?d" | "\<not> m_upper_inf i" "\<not> m_upper_inf j" "\<not> m_upper_open i" "\<not> m_upper_open j" "z \<le> ?b * ?d"
    using z by (fastforce simp: of_rat_mult split: if_splits)
  then show ?thesis
  proof cases
    case 1
    obtain x where "x \<in> members i" "z / y0 \<le> x" using near_upper(1) [OF i(1) 1] by blast
    then show ?thesis using y0 by (auto simp: pos_divide_le_eq)
  next
    case 2
    obtain y where "y \<in> members j" "z / x0 \<le> y" using near_upper(1) [OF j(1) 2] by blast
    then have "z \<le> x0 * y" using x0 by (simp add: pos_divide_le_eq mult.commute)
    then show ?thesis using x0 \<open>y \<in> members j\<close> by blast
  next
    case 3
    have pos: "0 < ?b" "0 < ?d" using i(2) j(2) 3 by simp_all
    define e where "e = min (min ?b ?d) ((?b * ?d - z) / (?b + ?d))"
    have e: "0 < e" "e \<le> ?b" "e \<le> ?d" "e * (?b + ?d) \<le> ?b * ?d - z"
    proof -
      have "0 < (?b * ?d - z) / (?b + ?d)" using pos 3 by (intro divide_pos_pos) linarith+
      then show "0 < e" "e \<le> ?b" "e \<le> ?d" using pos by (simp_all add: e_def)
      have "e \<le> (?b * ?d - z) / (?b + ?d)" by (simp add: e_def)
      then show "e * (?b + ?d) \<le> ?b * ?d - z" using pos by (simp add: pos_le_divide_eq)
    qed
    obtain x where x: "x \<in> members i" "?b - e \<le> x" using near_upper(2) [OF i(1), of "?b - e"] e(1) by auto
    obtain y where y: "y \<in> members j" "?d - e \<le> y" using near_upper(2) [OF j(1), of "?d - e"] e(1) by auto
    have "z \<le> (?b - e) * (?d - e)" using e by (simp add: algebra_simps) (smt (verit) mult_nonneg_nonneg)
    also have "\<dots> \<le> x * y" using x y e by (intro mult_mono) auto
    finally show ?thesis using x y by blast
  next
    case 4
    then show ?thesis using near_upper(3) [OF i(1)] near_upper(3) [OF j(1)] by blast
  qed
qed

text \<open>Close to the product of two lower bounds that are not negative.\<close>

lemma near_product_low:
  assumes i: "ivl_wf i" "Fin 0 \<le> ext_of (lower_ext i)" and j: "ivl_wf j" "Fin 0 \<le> ext_of (lower_ext j)"
    and z: "above (times_ext (ext_of (lower_ext i)) (ext_of (lower_ext j)))
      (if (ext_of (lower_ext i) = Fin 0 \<and> \<not> m_lower_open i) \<or> (ext_of (lower_ext j) = Fin 0 \<and> \<not> m_lower_open j) then False
       else m_lower_open i \<or> m_lower_open j) z"
  shows "\<exists>x \<in> members i. \<exists>y \<in> members j. x * y \<le> z"
proof -
  have fin: "\<not> m_lower_inf i" "\<not> m_lower_inf j" using i(2) j(2) by (auto split: if_splits)
  let ?a = "rv (m_lower i)" and ?c = "rv (m_lower j)"
  have pos: "0 \<le> ?a" "0 \<le> ?c" using i(2) j(2) fin by simp_all
  have mem: "0 \<le> x" if "x \<in> members i" for x using that bound_sign(2) i(2) unfolding members_def holds_ext by blast
  have mem': "0 \<le> y" if "y \<in> members j" for y using that bound_sign(2) j(2) unfolding members_def holds_ext by blast
  obtain x0 where x0: "x0 \<in> members i" using i(1) by (rule ivl_wf_member)
  obtain y0 where y0: "y0 \<in> members j" using j(1) by (rule ivl_wf_member)
  consider "?a * ?c < z" | "\<not> m_lower_open i" "\<not> m_lower_open j" "?a * ?c \<le> z"
    | "?a = 0" "\<not> m_lower_open i" "0 \<le> z" | "?c = 0" "\<not> m_lower_open j" "0 \<le> z"
    using z fin by (auto simp: of_rat_mult split: if_splits)
  then show ?thesis
  proof cases
    case 1
    define e where "e = min 1 ((z - ?a * ?c) / (?a + ?c + 1))"
    have e: "0 < e" "e \<le> 1" "e * (?a + ?c + 1) \<le> z - ?a * ?c"
    proof -
      have "0 < (z - ?a * ?c) / (?a + ?c + 1)" using pos 1 by (intro divide_pos_pos) linarith+
      then show "0 < e" "e \<le> 1" by (simp_all add: e_def)
      have "e \<le> (z - ?a * ?c) / (?a + ?c + 1)" by (simp add: e_def)
      then show "e * (?a + ?c + 1) \<le> z - ?a * ?c" using pos by (simp add: pos_le_divide_eq)
    qed
    obtain x where x: "x \<in> members i" "x \<le> ?a + e" using near_lower(2) [OF i(1), of "?a + e"] e(1) by auto
    obtain y where y: "y \<in> members j" "y \<le> ?c + e" using near_lower(2) [OF j(1), of "?c + e"] e(1) by auto
    have "x * y \<le> (?a + e) * (?c + e)" using x y e pos mem mem' by (intro mult_mono) auto
    also have "\<dots> \<le> ?a * ?c + e * (?a + ?c + 1)" using mult_left_mono [OF e(2), of e] e(1) by (simp add: algebra_simps)
    also have "\<dots> \<le> z" using e(3) by simp
    finally show ?thesis using x y by blast
  next
    case 2
    then show ?thesis using near_lower(3) [OF i(1)] near_lower(3) [OF j(1)] fin by blast
  next
    case 3
    then have "0 \<in> members i" using near_lower(3) [OF i(1)] fin by simp
    then show ?thesis using y0 3 by force
  next
    case 4
    then have "0 \<in> members j" using near_lower(3) [OF j(1)] fin by simp
    then show ?thesis using x0 4 by force
  qed
qed

lemma mirror_mirror_product:
  assumes "ivl_ok i" "ivl_ok j"
  shows "(\<exists>x \<in> members (mirror i). \<exists>y \<in> members (mirror j). P (x * y)) \<longleftrightarrow> (\<exists>x \<in> members i. \<exists>y \<in> members j. P (x * y))"
    "(\<exists>x \<in> members (mirror i). \<exists>y \<in> members j. P (x * y)) \<longleftrightarrow> (\<exists>x \<in> members i. \<exists>y \<in> members j. P (- (x * y)))"
    "(\<exists>x \<in> members i. \<exists>y \<in> members (mirror j). P (x * y)) \<longleftrightarrow> (\<exists>x \<in> members i. \<exists>y \<in> members j. P (- (x * y)))"
proof -
  have ex: "(\<exists>x \<in> members (mirror k). Q x) \<longleftrightarrow> (\<exists>x \<in> members k. Q (- x))" if "ivl_ok k" for k Q
    using mirror_members [OF that] by (metis minus_minus)
  show "(\<exists>x \<in> members (mirror i). \<exists>y \<in> members (mirror j). P (x * y)) \<longleftrightarrow> (\<exists>x \<in> members i. \<exists>y \<in> members j. P (x * y))"
    "(\<exists>x \<in> members (mirror i). \<exists>y \<in> members j. P (x * y)) \<longleftrightarrow> (\<exists>x \<in> members i. \<exists>y \<in> members j. P (- (x * y)))"
    "(\<exists>x \<in> members i. \<exists>y \<in> members (mirror j). P (x * y)) \<longleftrightarrow> (\<exists>x \<in> members i. \<exists>y \<in> members j. P (- (x * y)))"
    by (simp_all only: ex [OF assms(1)] ex [OF assms(2)] minus_mult_minus mult_minus_left mult_minus_right minus_minus)
qed

text \<open>Every bound of the table, for each combination of signs.\<close>

lemma near_products:
  assumes wf: "ivl_wf i" "ivl_wf j"
  defines "a \<equiv> ext_of (lower_ext i)" and "b \<equiv> ext_of (upper_ext i)" and "c \<equiv> ext_of (lower_ext j)" and "d \<equiv> ext_of (upper_ext j)"
    and "ao \<equiv> m_lower_open i" and "bo \<equiv> m_upper_open i" and "co \<equiv> m_lower_open j" and "du \<equiv> m_upper_open j"
  shows "Fin 0 \<le> a \<Longrightarrow> Fin 0 \<le> c \<Longrightarrow>
      above (times_ext a c) (if (a = Fin 0 \<and> \<not> ao) \<or> (c = Fin 0 \<and> \<not> co) then False else ao \<or> co) z \<Longrightarrow> \<exists>x \<in> members i. \<exists>y \<in> members j. x * y \<le> z"
    "b \<le> Fin 0 \<Longrightarrow> d \<le> Fin 0 \<Longrightarrow>
      above (times_ext b d) (if (b = Fin 0 \<and> \<not> bo) \<or> (d = Fin 0 \<and> \<not> du) then False else bo \<or> du) z \<Longrightarrow> \<exists>x \<in> members i. \<exists>y \<in> members j. x * y \<le> z"
    "b \<le> Fin 0 \<Longrightarrow> Fin 0 \<le> c \<Longrightarrow>
      below (times_ext b c) (if (b = Fin 0 \<and> \<not> bo) \<or> (c = Fin 0 \<and> \<not> co) then False else bo \<or> co) z \<Longrightarrow> \<exists>x \<in> members i. \<exists>y \<in> members j. z \<le> x * y"
    "Fin 0 \<le> a \<Longrightarrow> d \<le> Fin 0 \<Longrightarrow>
      below (times_ext a d) (if (a = Fin 0 \<and> \<not> ao) \<or> (d = Fin 0 \<and> \<not> du) then False else ao \<or> du) z \<Longrightarrow> \<exists>x \<in> members i. \<exists>y \<in> members j. z \<le> x * y"
    "Fin 0 < b \<Longrightarrow> Fin 0 < d \<Longrightarrow> below (times_ext b d) (bo \<or> du) z \<Longrightarrow> \<exists>x \<in> members i. \<exists>y \<in> members j. z \<le> x * y"
    "a < Fin 0 \<Longrightarrow> c < Fin 0 \<Longrightarrow> below (times_ext a c) (ao \<or> co) z \<Longrightarrow> \<exists>x \<in> members i. \<exists>y \<in> members j. z \<le> x * y"
    "a < Fin 0 \<Longrightarrow> Fin 0 < d \<Longrightarrow> above (times_ext a d) (ao \<or> du) z \<Longrightarrow> \<exists>x \<in> members i. \<exists>y \<in> members j. x * y \<le> z"
    "Fin 0 < b \<Longrightarrow> c < Fin 0 \<Longrightarrow> above (times_ext b c) (bo \<or> co) z \<Longrightarrow> \<exists>x \<in> members i. \<exists>y \<in> members j. x * y \<le> z"
proof -
  have ok: "ivl_ok i" "ivl_ok j" using wf unfolding ivl_wf_def by blast+
  note M = mirror_props [OF ok(1)] mirror_props [OF ok(2)] times_negate negate_negate negate_order bound_negate
    mirror_mirror_product [OF ok, of "\<lambda>w. w \<le> z"] mirror_mirror_product [OF ok, of "\<lambda>w. z \<le> w"]
    mirror_mirror_product [OF ok, of "\<lambda>w. w \<le> - z"] mirror_mirror_product [OF ok, of "\<lambda>w. - z \<le> w"]
  note low = near_product_low and up = near_product_up and wm = mirror_wf [OF wf(1)] mirror_wf [OF wf(2)]
  note defs = a_def b_def c_def d_def ao_def bo_def co_def du_def
  show "Fin 0 \<le> a \<Longrightarrow> Fin 0 \<le> c \<Longrightarrow>
      above (times_ext a c) (if (a = Fin 0 \<and> \<not> ao) \<or> (c = Fin 0 \<and> \<not> co) then False else ao \<or> co) z \<Longrightarrow> \<exists>x \<in> members i. \<exists>y \<in> members j. x * y \<le> z"
    unfolding defs by (rule low [OF wf(1) _ wf(2)])
  show "b \<le> Fin 0 \<Longrightarrow> d \<le> Fin 0 \<Longrightarrow>
      above (times_ext b d) (if (b = Fin 0 \<and> \<not> bo) \<or> (d = Fin 0 \<and> \<not> du) then False else bo \<or> du) z \<Longrightarrow> \<exists>x \<in> members i. \<exists>y \<in> members j. x * y \<le> z"
    unfolding defs using low [OF wm(1) _ wm(2), of z] by (simp only: M)
  show "b \<le> Fin 0 \<Longrightarrow> Fin 0 \<le> c \<Longrightarrow>
      below (times_ext b c) (if (b = Fin 0 \<and> \<not> bo) \<or> (c = Fin 0 \<and> \<not> co) then False else bo \<or> co) z \<Longrightarrow> \<exists>x \<in> members i. \<exists>y \<in> members j. z \<le> x * y"
    unfolding defs using low [OF wm(1) _ wf(2), of "- z"] by (simp only: M minus_minus neg_le_iff_le)
  show "Fin 0 \<le> a \<Longrightarrow> d \<le> Fin 0 \<Longrightarrow>
      below (times_ext a d) (if (a = Fin 0 \<and> \<not> ao) \<or> (d = Fin 0 \<and> \<not> du) then False else ao \<or> du) z \<Longrightarrow> \<exists>x \<in> members i. \<exists>y \<in> members j. z \<le> x * y"
    unfolding defs using low [OF wf(1) _ wm(2), of "- z"] by (simp only: M minus_minus neg_le_iff_le)
  show "Fin 0 < b \<Longrightarrow> Fin 0 < d \<Longrightarrow> below (times_ext b d) (bo \<or> du) z \<Longrightarrow> \<exists>x \<in> members i. \<exists>y \<in> members j. z \<le> x * y"
    unfolding defs by (rule up [OF wf(1) _ wf(2)])
  show "a < Fin 0 \<Longrightarrow> c < Fin 0 \<Longrightarrow> below (times_ext a c) (ao \<or> co) z \<Longrightarrow> \<exists>x \<in> members i. \<exists>y \<in> members j. z \<le> x * y"
    unfolding defs using up [OF wm(1) _ wm(2), of z] by (simp only: M)
  show "a < Fin 0 \<Longrightarrow> Fin 0 < d \<Longrightarrow> above (times_ext a d) (ao \<or> du) z \<Longrightarrow> \<exists>x \<in> members i. \<exists>y \<in> members j. x * y \<le> z"
    unfolding defs using up [OF wm(1) _ wf(2), of "- z"] by (simp only: M minus_minus neg_le_iff_le)
  show "Fin 0 < b \<Longrightarrow> c < Fin 0 \<Longrightarrow> above (times_ext b c) (bo \<or> co) z \<Longrightarrow> \<exists>x \<in> members i. \<exists>y \<in> members j. x * y \<le> z"
    unfolding defs using up [OF wf(1) _ wm(2), of "- z"] by (simp only: M minus_minus neg_le_iff_le)
qed

lemma product_near:
  assumes wf: "ivl_wf i" "ivl_wf j" and nz: "\<not> ivl_is_zero i" "\<not> ivl_is_zero j"
    and eq: "mul_bounds i j = ((l, s), (u, t))"
  shows "above l s z \<Longrightarrow> \<exists>x \<in> members i. \<exists>y \<in> members j. x * y \<le> z"
    "below u t z \<Longrightarrow> \<exists>x \<in> members i. \<exists>y \<in> members j. z \<le> x * y"
proof -
  define a b c d where abcd: "a = ext_of (lower_ext i)" "b = ext_of (upper_ext i)" "c = ext_of (lower_ext j)" "d = ext_of (upper_ext j)"
  define ao bo co du where opens: "ao = m_lower_open i" "bo = m_upper_open i" "co = m_lower_open j" "du = m_upper_open j"
  have ok: "ivl_ok i" "ivl_ok j" using wf unfolding ivl_wf_def by blast+
  note cls = class_bounds [OF ok(1), folded abcd opens] class_bounds [OF ok(2), folded abcd opens]
  have le: "a \<le> b" "c \<le> d" using wf_bounds_le wf by (simp_all add: abcd)
  have nz': "a = Fin 0 \<Longrightarrow> b \<noteq> Fin 0" "c = Fin 0 \<Longrightarrow> d \<noteq> Fin 0" using nz unfolding cls by blast+
  have sg: "b \<le> Fin 0 \<Longrightarrow> a < Fin 0" "d \<le> Fin 0 \<Longrightarrow> c < Fin 0"
    by (metis le(1) nz'(1) antisym order_le_less order_trans) (metis le(2) nz'(2) antisym order_le_less order_trans)
  let ?pb = "product_bounds (a, ao) (b, bo) (c, co) (d, du)"
  have L: "l = fst (fst ?pb)" "s = snd (fst ?pb)" "u = fst (snd ?pb)" "t = snd (snd ?pb)"
    using eq by (simp_all only: abcd opens fst_conv snd_conv)
  note near = near_products [OF wf, folded abcd opens]
  have pick: "above (fst (if p then (x, v) else (y, w))) (snd (if p then (x, v) else (y, w))) z \<Longrightarrow> above x v z \<or> above y w z"
    "below (fst (if p then (x, v) else (y, w))) (snd (if p then (x, v) else (y, w))) z \<Longrightarrow> below x v z \<or> below y w z" for p x v y w z
    by (simp_all split: if_splits)
  have ci: "b \<le> Fin 0 \<or> (\<not> b \<le> Fin 0 \<and> Fin 0 < b \<and> a < Fin 0) \<or> (\<not> b \<le> Fin 0 \<and> Fin 0 < b \<and> \<not> a < Fin 0 \<and> Fin 0 \<le> a)"
    "d \<le> Fin 0 \<or> (\<not> d \<le> Fin 0 \<and> Fin 0 < d \<and> c < Fin 0) \<or> (\<not> d \<le> Fin 0 \<and> Fin 0 < d \<and> \<not> c < Fin 0 \<and> Fin 0 \<le> c)"
    by (metis not_le not_less)+
  show "above l s z \<Longrightarrow> \<exists>x \<in> members i. \<exists>y \<in> members j. x * y \<le> z"
    "below u t z \<Longrightarrow> \<exists>x \<in> members i. \<exists>y \<in> members j. z \<le> x * y"
    using ci sg
    by (elim disjE conjE; simp only: L product_bounds.simps if_True if_False simp_thms fst_conv snd_conv;
        blast intro: near dest: pick)+
qed

lemma ivl_zero_members:
  assumes "ivl_wf i" "ivl_is_zero i"
  shows "members i = {0}" "\<And>x. lower_holds i x \<longleftrightarrow> 0 \<le> x" "\<And>x. upper_holds i x \<longleftrightarrow> x \<le> 0"
proof -
  have ok: "mpq_ok (m_lower i)" "mpq_ok (m_upper i)" using assms(1) by (simp_all add: ivl_wf_def)
  have z: "\<not> m_lower_inf i" "\<not> m_upper_inf i" "mpq_val (m_lower i) = 0" "mpq_val (m_upper i) = 0"
    using assms(2) bound_signs [of i] ok by (simp_all add: ivl_is_zero_def)
  moreover have "\<not> m_lower_open i" "\<not> m_upper_open i"
    using assms(1) z ok by (auto simp: ivl_wf_def check_invariant_def lower_kind_def upper_kind_def)
  ultimately show "members i = {0}" "\<And>x. lower_holds i x \<longleftrightarrow> 0 \<le> x" "\<And>x. upper_holds i x \<longleftrightarrow> x \<le> 0"
    by (auto simp: members_def lower_holds_def upper_holds_def)
qed

text \<open>The interval with the bounds of the table contains exactly the products.\<close>

lemma product_interval:
  assumes wf: "ivl_wf i" "ivl_wf j" and nz: "\<not> ivl_is_zero i" "\<not> ivl_is_zero j"
    and b: "mul_bounds i j = ((ext_of l, s), (ext_of u, t))" and ok: "ext_ok l" "ext_ok u"
  shows "ivl_ok (ivl_of l u s t)" "members (ivl_of l u s t) = {x * y |x y. x \<in> members i \<and> y \<in> members j}"
    "lower_holds (ivl_of l u s t) z \<longleftrightarrow> above (ext_of l) s z" "upper_holds (ivl_of l u s t) z \<longleftrightarrow> below (ext_of u) t z"
    "ext_of l \<noteq> PInf" "ext_of u \<noteq> MInf"
proof -
  obtain x0 where x0: "x0 \<in> members i" using wf(1) by (rule ivl_wf_member)
  obtain y0 where y0: "y0 \<in> members j" using wf(2) by (rule ivl_wf_member)
  note J = product_justified [OF wf nz b] and N = product_near [OF wf nz b]
  have xy: "above (ext_of l) s (x * y)" "below (ext_of u) t (x * y)" if "x \<in> members i" "y \<in> members j" for x y
    using J that by (simp_all add: deps_hold_def members_def)
  show fin: "ext_of l \<noteq> PInf" "ext_of u \<noteq> MInf" using xy [OF x0 y0] by auto
  note B = ivl_of_bounds [OF ok fin]
  have H: "lower_holds (ivl_of l u s t) z \<longleftrightarrow> above (ext_of l) s z" "upper_holds (ivl_of l u s t) z \<longleftrightarrow> below (ext_of u) t z" for z
    unfolding holds_ext B by simp_all
  show "lower_holds (ivl_of l u s t) z \<longleftrightarrow> above (ext_of l) s z" "upper_holds (ivl_of l u s t) z \<longleftrightarrow> below (ext_of u) t z" by (fact H)+
  show "ivl_ok (ivl_of l u s t)" by (fact B(5))
  show "members (ivl_of l u s t) = {x * y |x y. x \<in> members i \<and> y \<in> members j}" (is "_ = ?S")
  proof (rule members_eqI [OF _ product_convex])
    show "z \<in> members (ivl_of l u s t)" if "z \<in> ?S" for z using that xy by (auto simp: members_def H)
    show "\<exists>s \<in> ?S. s \<le> z" if "lower_holds (ivl_of l u s t) z" for z using N(1) [of z] that unfolding H by blast
    show "\<exists>s \<in> ?S. z \<le> s" if "upper_holds (ivl_of l u s t) z" for z using N(2) [of z] that unfolding H by blast
  qed
qed

text \<open>\<open>mul\<close> on valid intervals, whatever the result overwrites: the result contains exactly the products,
  and each of its bounds follows from the bounds that the rule names.\<close>

lemma ivl_mul_yields:
  assumes wf: "ivl_wf (\<sigma> i)" "ivl_wf (\<sigma> j)" and r: "ivl_ok (\<sigma> r)"
  shows "yields (ivl_mul i j r \<sigma>) (writes r \<sigma> (\<lambda>c. ivl_wf c
    \<and> members c = {x * y |x y. x \<in> members (\<sigma> i) \<and> y \<in> members (\<sigma> j)}
    \<and> (\<forall>x y. justified (mul_jst (\<sigma> i) (\<sigma> j)) (\<sigma> i) x (\<sigma> j) y c (x * y))))"
    (is "yields _ (writes r \<sigma> ?Q)")
proof -
  let ?S = "{x * y |x y. x \<in> members (\<sigma> i) \<and> y \<in> members (\<sigma> j)}"
  obtain x0 where x0: "x0 \<in> members (\<sigma> i)" using wf(1) by (rule ivl_wf_member)
  obtain y0 where y0: "y0 \<in> members (\<sigma> j)" using wf(2) by (rule ivl_wf_member)
  have ok: "ivl_ok (\<sigma> i)" "ivl_ok (\<sigma> j)" using wf unfolding ivl_wf_def by blast+
  have ne: "?S \<noteq> {}" using x0 y0 by blast
  have Q: "?Q c" if "ivl_ok c" "members c = ?S" "\<And>x y. justified (mul_jst (\<sigma> i) (\<sigma> j)) (\<sigma> i) x (\<sigma> j) y c (x * y)" for c
    using that ne ivl_wf_iff [of c] by simp
  have copy: "writes r \<sigma> ?Q (ivl_set r k \<sigma>)" if k: "k = i \<or> k = j" "ivl_is_zero (\<sigma> k)" "ivl_is_zero (\<sigma> i) \<or> k = j" for k
  proof (rule writes_mono [OF ivl_set_copy])
    have wk: "ivl_wf (\<sigma> k)" using k wf by blast
    then show "ivl_ok (\<sigma> k)" unfolding ivl_wf_def by blast
    fix c assume c: "ivl_ok c \<and> ivl_eq c (\<sigma> k) \<and> (\<forall>x. lower_holds c x \<longleftrightarrow> lower_holds (\<sigma> k) x) \<and> (\<forall>x. upper_holds c x \<longleftrightarrow> upper_holds (\<sigma> k) x)"
    note Z = ivl_zero_members [OF wk k(2)]
    have C: "lower_holds c x \<longleftrightarrow> 0 \<le> x" "upper_holds c x \<longleftrightarrow> x \<le> 0" for x using c Z(2,3) by simp_all
    show "?Q c"
    proof (rule Q)
      show "members c = ?S" using Z(1) k x0 y0 by (fastforce simp: members_def C)
      show "justified (mul_jst (\<sigma> i) (\<sigma> j)) (\<sigma> i) x (\<sigma> j) y c (x * y)" for x y
        using k ivl_zero_members(2,3) [OF wf(1), of x] ivl_zero_members(2,3) [OF wf(2), of y]
        by (cases "ivl_is_zero (\<sigma> i)") (auto simp: justified_def deps_hold_def mul_jst_def C)
    qed (use c in blast)
  qed (use r in blast)
  consider "ivl_is_zero (\<sigma> i)" | "\<not> ivl_is_zero (\<sigma> i)" "ivl_is_zero (\<sigma> j)" | "\<not> ivl_is_zero (\<sigma> i)" "\<not> ivl_is_zero (\<sigma> j)" by blast
  then show ?thesis
  proof cases
    case 1
    have "ivl_mul i j r \<sigma> = Inr (ivl_set r i \<sigma>)" unfolding ivl_mul_def using 1 by (rule if_P)
    then show ?thesis using copy [of i] 1 by simp
  next
    case 2
    have "ivl_mul i j r \<sigma> = Inr (ivl_set r j \<sigma>)" unfolding ivl_mul_def if_not_P [OF 2(1)] if_P [OF 2(2)] ..
    then show ?thesis using copy [of j] 2(2) by simp
  next
    case 3
    obtain l u s t where m: "mul_cases i j r \<sigma> = Inr (set_opens r s t \<sigma>, l, u)" "ext_ok l" "ext_ok u"
      and b: "mul_bounds (\<sigma> i) (\<sigma> j) = ((ext_of l, s), (ext_of u, t))"
      using mul_cases_yields [OF wf 3, of r] by (auto elim!: yieldsE simp del: ext_of_bounds)
    note PI = product_interval [OF wf 3 b m(2,3)] and J = product_justified [OF wf 3 b]
    let ?c = "ivl_of l u s t"
    have "?Q ?c" using J by (intro Q PI(1,2)) (simp add: justified_def PI(3,4))
    moreover have "ivl_mul i j r \<sigma> = Inr (\<sigma>(r := ?c))"
      using 3 m(1) by (cases "\<sigma> r") (simp add: ivl_mul_def store_bounds_def set_opens_def ivl_of_def)
    ultimately show ?thesis by (simp add: writes_def)
  qed
qed

text \<open>The product satisfies the contract without further demands.\<close>

interpretation mul_op: interval_operation "\<lambda>_ _ _ _. True" "(*)" ivl_mul mul_jst
  by unfold_locales (rule ivl_mul_yields)

end
