(* ===== verification/Interval_Div.thy ===== *)
theory Interval_Div
  imports Interval_Mul
begin

text \<open>
  Reciprocals and quotients of intervals (\<open>math/interval/interval_def.h\<close>: \<open>inv\<close>, \<open>inv_jst\<close>, \<open>div\<close>,
  \<open>div_jst\<close>). The reciprocals of an interval without zero form an
  interval; the quotients of two intervals are the products with the reciprocals of the divisor, so the
  table of products and its lemmas carry over.
\<close>

section \<open>Reciprocals and quotients\<close>

text \<open>\<open>inv\<close> asserts that the interval does not contain zero; otherwise \<open>UNREACHABLE\<close> ends the program, as a
  failed \<open>VERIFY\<close> does.\<close>

definition inv_jst :: "interval \<Rightarrow> interval_deps_combine_rule res" where
  "inv_jst a =
     (if is_P1 a then Inr \<lparr>m_lower_combine = DEP_IN_LOWER1 OR DEP_IN_UPPER1, m_upper_combine = DEP_IN_LOWER1\<rparr>
      else if is_N1 a then Inr \<lparr>m_lower_combine = DEP_IN_UPPER1, m_upper_combine = DEP_IN_LOWER1 OR DEP_IN_UPPER1\<rparr>
      else Inl Verify_failed)"

definition ivl_inv :: "nat \<Rightarrow> nat \<Rightarrow> ivl_store \<Rightarrow> ivl_store res" where
  "ivl_inv a b \<sigma> =
     (if is_P1 (\<sigma> a) then
        bind_res (ext_inv (upper_ext (\<sigma> a))) (\<lambda>new_l.
        let new_l_open = m_upper_open (\<sigma> a);
            \<sigma> = (if lower_is_zero (\<sigma> a)
                 then \<sigma>(b := (\<sigma> b)\<lparr>m_upper := mpq_reset (m_upper (\<sigma> b)), m_upper_inf := True, m_upper_open := True\<rparr>)
                 else
                   let new_u_val = mpq_inv (m_lower (\<sigma> a));
                       \<sigma> = \<sigma>(b := (\<sigma> b)\<lparr>m_upper := new_u_val, m_upper_inf := False\<rparr>)
                   in \<sigma>(b := (\<sigma> b)\<lparr>m_upper_open := m_lower_open (\<sigma> a)\<rparr>))
        in Inr (\<sigma>(b := (\<sigma> b)\<lparr>m_lower := fst new_l, m_lower_inf := False, m_lower_open := new_l_open\<rparr>)))
      else if is_N1 (\<sigma> a) then
        bind_res (ext_inv (lower_ext (\<sigma> a))) (\<lambda>new_u.
        let new_u_open = m_lower_open (\<sigma> a);
            \<sigma> = (if upper_is_zero (\<sigma> a)
                 then \<sigma>(b := (\<sigma> b)\<lparr>m_lower := mpq_reset (m_lower (\<sigma> b)), m_lower_open := True, m_lower_inf := True\<rparr>)
                 else
                   let new_l_val = mpq_inv (m_upper (\<sigma> a));
                       \<sigma> = \<sigma>(b := (\<sigma> b)\<lparr>m_lower := new_l_val, m_lower_inf := False\<rparr>)
                   in \<sigma>(b := (\<sigma> b)\<lparr>m_lower_open := m_upper_open (\<sigma> a)\<rparr>))
        in Inr (\<sigma>(b := (\<sigma> b)\<lparr>m_upper := fst new_u, m_upper_inf := False, m_upper_open := new_u_open\<rparr>)))
      else Inl Verify_failed)"

definition ivl_inv_deps :: "nat \<Rightarrow> nat \<Rightarrow> ivl_store \<Rightarrow> (interval_deps_combine_rule \<times> ivl_store) res" where
  "ivl_inv_deps a b \<sigma> = bind_res (inv_jst (\<sigma> a)) (\<lambda>d. bind_res (ivl_inv a b \<sigma>) (\<lambda>\<tau>. Inr (d, \<tau>)))"

definition div_jst :: "interval \<Rightarrow> interval \<Rightarrow> interval_deps_combine_rule" where
  "div_jst i1 i2 =
     (if ivl_is_zero i1 then
        if is_P1 i2 then \<lparr>m_lower_combine = DEP_IN_LOWER1 OR DEP_IN_LOWER2, m_upper_combine = DEP_IN_UPPER1 OR DEP_IN_LOWER2\<rparr>
        else \<lparr>m_lower_combine = DEP_IN_UPPER1 OR DEP_IN_UPPER2, m_upper_combine = DEP_IN_LOWER1 OR DEP_IN_UPPER2\<rparr>
      else if is_N i1 then
        if is_N1 i2 then
          \<lparr>m_lower_combine = DEP_IN_UPPER1 OR DEP_IN_LOWER2 OR DEP_IN_UPPER2, m_upper_combine = DEP_IN_LOWER1 OR DEP_IN_UPPER2\<rparr>
        else
          \<lparr>m_lower_combine = DEP_IN_LOWER1 OR DEP_IN_LOWER2, m_upper_combine = DEP_IN_UPPER1 OR DEP_IN_LOWER2 OR DEP_IN_UPPER2\<rparr>
      else if is_M i1 then
        if is_N1 i2 then
          \<lparr>m_lower_combine = DEP_IN_UPPER1 OR DEP_IN_UPPER2, m_upper_combine = DEP_IN_LOWER1 OR DEP_IN_UPPER2\<rparr>
        else
          \<lparr>m_lower_combine = DEP_IN_LOWER1 OR DEP_IN_LOWER2, m_upper_combine = DEP_IN_UPPER1 OR DEP_IN_LOWER2\<rparr>
      else
        if is_N1 i2 then
          \<lparr>m_lower_combine = DEP_IN_UPPER1 OR DEP_IN_UPPER2, m_upper_combine = DEP_IN_LOWER1 OR DEP_IN_LOWER2 OR DEP_IN_UPPER2\<rparr>
        else
          \<lparr>m_lower_combine = DEP_IN_LOWER1 OR DEP_IN_LOWER2 OR DEP_IN_UPPER2, m_upper_combine = DEP_IN_UPPER1 OR DEP_IN_LOWER2\<rparr>)"

text \<open>The cases of \<open>div\<close> for a dividend that is not zero. A bound is infinite when the divisor comes
  arbitrarily close to zero.\<close>

definition div_cases :: "nat \<Rightarrow> nat \<Rightarrow> nat \<Rightarrow> ivl_store \<Rightarrow> (ivl_store \<times> ext_numeral \<times> ext_numeral) res" where
  "div_cases i1 i2 r \<sigma> =
     (let a = lower_ext (\<sigma> i1); b = upper_ext (\<sigma> i1); c = lower_ext (\<sigma> i2); d = upper_ext (\<sigma> i2);
          a_o = m_lower_open (\<sigma> i1); b_o = m_upper_open (\<sigma> i1); c_o = m_lower_open (\<sigma> i2); d_o = m_upper_open (\<sigma> i2);
          set_lower_is_open = (\<lambda>v \<sigma>. \<sigma>(r := (\<sigma> r)\<lparr>m_lower_open := v\<rparr>));
          set_upper_is_open = (\<lambda>v \<sigma>. \<sigma>(r := (\<sigma> r)\<lparr>m_upper_open := v\<rparr>));
          minus_oo = Inr (mk_q 0, EN_MINUS_INFINITY); plus_oo = Inr (mk_q 0, EN_PLUS_INFINITY);
          result = (\<lambda>l u \<sigma>. bind_res l (\<lambda>new_l. bind_res u (\<lambda>new_u. Inr (\<sigma>, new_l, new_u))))
      in
      if is_N (\<sigma> i1) then
        if is_N1 (\<sigma> i2) then
          let \<sigma> = set_lower_is_open (if is_N0 (\<sigma> i1) then False else b_o \<or> c_o) \<sigma>;
              \<sigma> = set_upper_is_open (a_o \<or> d_o) \<sigma>
          in result (ext_div b c) (if mpq_is_zero (fst d) then plus_oo else ext_div a d) \<sigma>
        else
          let \<sigma> = set_upper_is_open (if is_N0 (\<sigma> i1) then False else b_o \<or> d_o) \<sigma>;
              \<sigma> = set_lower_is_open (a_o \<or> c_o) \<sigma>
          in result (if mpq_is_zero (fst c) then minus_oo else ext_div a c) (ext_div b d) \<sigma>
      else if is_M (\<sigma> i1) then
        if is_N1 (\<sigma> i2) then
          let \<sigma> = set_lower_is_open (b_o \<or> d_o) \<sigma>; \<sigma> = set_upper_is_open (a_o \<or> d_o) \<sigma>
          in if mpq_is_zero (fst d) then result minus_oo plus_oo \<sigma> else result (ext_div b d) (ext_div a d) \<sigma>
        else
          let \<sigma> = set_lower_is_open (a_o \<or> c_o) \<sigma>; \<sigma> = set_upper_is_open (b_o \<or> c_o) \<sigma>
          in if mpq_is_zero (fst c) then result minus_oo plus_oo \<sigma> else result (ext_div a c) (ext_div b c) \<sigma>
      else
        if is_N1 (\<sigma> i2) then
          let \<sigma> = set_upper_is_open (if is_P0 (\<sigma> i1) then False else a_o \<or> c_o) \<sigma>;
              \<sigma> = set_lower_is_open (b_o \<or> d_o) \<sigma>
          in result (if mpq_is_zero (fst d) then minus_oo else ext_div b d) (ext_div a c) \<sigma>
        else
          let \<sigma> = set_lower_is_open (if is_P0 (\<sigma> i1) then False else a_o \<or> d_o) \<sigma>;
              \<sigma> = set_upper_is_open (b_o \<or> c_o) \<sigma>
          in result (ext_div a d) (if mpq_is_zero (fst c) then plus_oo else ext_div b c) \<sigma>)"

definition ivl_div :: "nat \<Rightarrow> nat \<Rightarrow> nat \<Rightarrow> ivl_store \<Rightarrow> ivl_store res" where
  "ivl_div i1 i2 r \<sigma> =
     (if ivl_is_zero (\<sigma> i1) then
        Inr (\<sigma>(r := \<lparr>m_lower = mpq_reset (m_lower (\<sigma> r)), m_upper = mpq_reset (m_upper (\<sigma> r)),
          m_lower_open = False, m_upper_open = False, m_lower_inf = False, m_upper_inf = False\<rparr>))
      else bind_res (div_cases i1 i2 r \<sigma>) (\<lambda>(\<sigma>, new_l, new_u). Inr (store_bounds r new_l new_u \<sigma>)))"

definition ivl_div_deps :: "nat \<Rightarrow> nat \<Rightarrow> nat \<Rightarrow> ivl_store \<Rightarrow> (interval_deps_combine_rule \<times> ivl_store) res" where
  "ivl_div_deps i1 i2 r \<sigma> = bind_res (ivl_div i1 i2 r \<sigma>) (\<lambda>\<tau>. Inr (div_jst (\<sigma> i1) (\<sigma> i2), \<tau>))"

section \<open>The interval of the reciprocals\<close>

text \<open>An infinite bound is open. \<open>reset_lower\<close> and \<open>reset_upper\<close> establish this and the operations keep
  it; the default constructor does not, its infinite bounds are closed.\<close>

definition inf_open :: "interval \<Rightarrow> bool" where
  "inf_open a \<longleftrightarrow> (m_lower_inf a \<longrightarrow> m_lower_open a) \<and> (m_upper_inf a \<longrightarrow> m_upper_open a)"

definition recip_lower :: "ext_rat \<Rightarrow> ext_rat" where
  "recip_lower d = (if d = Fin 0 then MInf else divide_ext (Fin 1) d)"

definition recip_upper :: "ext_rat \<Rightarrow> ext_rat" where
  "recip_upper c = (if c = Fin 0 then PInf else divide_ext (Fin 1) c)"

text \<open>Bounds of a reciprocal. The sign of \<open>y\<close> comes from the bound that keeps the interval away from
  zero.\<close>

lemma recip_above:
  assumes "below d t y" "0 < y \<or> d < Fin 0 \<or> (d = Fin 0 \<and> t)" "d = PInf \<Longrightarrow> t"
  shows "above (recip_lower d) t (1 / y)"
proof (cases d)
  case (Fin v)
  let ?v = "real_of_rat v"
  have y: "y \<le> ?v" "t \<Longrightarrow> y < ?v" using assms(1) Fin by (auto split: if_splits)
  have "0 < y \<or> ?v < 0 \<or> (?v = 0 \<and> t)" using assms(2) Fin by simp
  then have sg: "(0 < y \<and> 0 < ?v) \<or> (y < 0 \<and> ?v < 0) \<or> ?v = 0" using y by linarith
  have r: "real_of_rat (1 / v) = 1 / ?v" by (simp add: of_rat_divide)
  have "?v \<noteq> 0 \<Longrightarrow> 1 / ?v \<le> 1 / y" "?v \<noteq> 0 \<Longrightarrow> t \<Longrightarrow> 1 / ?v < 1 / y"
    using sg y by (auto simp: divide_simps split: if_splits)
  then show ?thesis using Fin by (auto simp: recip_lower_def r)
qed (use assms in \<open>auto simp: recip_lower_def\<close>)

lemma recip_below:
  assumes "above c s y" "y < 0 \<or> Fin 0 < c \<or> (c = Fin 0 \<and> s)" "c = MInf \<Longrightarrow> s"
  shows "below (recip_upper c) s (1 / y)"
proof -
  have n: "recip_lower (negate c) = negate (recip_upper c)"
    by (cases c) (auto simp: recip_lower_def recip_upper_def)
  have "above (recip_lower (negate c)) s (1 / (- y))"
  proof (rule recip_above)
    show "negate c = PInf \<Longrightarrow> s" using assms(3) by (cases c) auto
    show "0 < - y \<or> negate c < Fin 0 \<or> negate c = Fin 0 \<and> s" using assms(2) by simp
  qed (use assms(1) in simp)
  then show ?thesis unfolding n by simp
qed

lemma bound_sign_strict:
  "above l s z \<Longrightarrow> Fin 0 < l \<or> (l = Fin 0 \<and> s) \<Longrightarrow> 0 < z"
  "below u t z \<Longrightarrow> u < Fin 0 \<or> (u = Fin 0 \<and> t) \<Longrightarrow> z < 0"
proof -
  show "0 < z" if h: "above l s z" "Fin 0 < l \<or> (l = Fin 0 \<and> s)"
  proof (cases l)
    case (Fin v)
    then have "0 < real_of_rat v \<or> (real_of_rat v = 0 \<and> s)" "real_of_rat v \<le> z" "s \<Longrightarrow> real_of_rat v < z"
      using h by (auto split: if_splits)
    then show ?thesis by linarith
  qed (use h in auto)
  show "z < 0" if h: "below u t z" "u < Fin 0 \<or> (u = Fin 0 \<and> t)"
  proof (cases u)
    case (Fin v)
    then have "real_of_rat v < 0 \<or> (real_of_rat v = 0 \<and> t)" "z \<le> real_of_rat v" "t \<Longrightarrow> z < real_of_rat v"
      using h by (auto split: if_splits)
    then show ?thesis by linarith
  qed (use h in auto)
qed

lemma P1_N1_excl:
  assumes "ivl_wf a"
  shows "is_P1 a \<Longrightarrow> x \<in> members a \<Longrightarrow> 0 < x" "is_N1 a \<Longrightarrow> x \<in> members a \<Longrightarrow> x < 0"
    "is_P1 a \<Longrightarrow> Fin 0 < ext_of (upper_ext a)" "is_N1 a \<Longrightarrow> ext_of (lower_ext a) < Fin 0" "\<not> (is_P1 a \<and> is_N1 a)"
    "0 \<notin> members a \<Longrightarrow> is_P1 a \<or> is_N1 a"
proof -
  have ok: "ivl_ok a" using assms unfolding ivl_wf_def by blast
  show P: "0 < x" if "is_P1 a" "x \<in> members a" for x
  proof -
    have "\<not> m_lower_inf a" "0 < rv (m_lower a) \<or> (rv (m_lower a) = 0 \<and> m_lower_open a)"
      using that(1) by (auto simp: is_P1_def bound_signs [OF ok])
    moreover have "lower_holds a x" using that(2) by (simp add: members_def)
    ultimately show ?thesis unfolding lower_holds_def by (smt (verit))
  qed
  show N: "x < 0" if "is_N1 a" "x \<in> members a" for x
  proof -
    have "\<not> m_upper_inf a" "rv (m_upper a) < 0 \<or> (rv (m_upper a) = 0 \<and> m_upper_open a)"
      using that(1) by (auto simp: is_N1_def bound_signs [OF ok])
    moreover have "upper_holds a x" using that(2) by (simp add: members_def)
    ultimately show ?thesis unfolding upper_holds_def by (smt (verit))
  qed
  obtain x where x: "x \<in> members a" using assms by (rule ivl_wf_member)
  then have ul: "upper_holds a x" "lower_holds a x" by (simp_all add: members_def)
  show "Fin 0 < ext_of (upper_ext a)" if "is_P1 a"
    using bound_sign(1) [OF ul(1) [unfolded holds_ext]] P [OF that x] by (meson not_le)
  show "ext_of (lower_ext a) < Fin 0" if "is_N1 a"
    using bound_sign(2) [OF ul(2) [unfolded holds_ext]] N [OF that x] by (meson not_le)
  show "\<not> (is_P1 a \<and> is_N1 a)" using P N x by force
  show "is_P1 a \<or> is_N1 a" if "0 \<notin> members a"
    using that contains_zero_iff [OF ok] by (auto simp: contains_zero_def is_P1_def is_N1_def bound_signs [OF ok])
qed

lemma recip_members:
  assumes wf: "ivl_wf a" and P: "is_P1 a \<or> is_N1 a" and ok: "ivl_ok c" and io: "inf_open a"
    and b: "lower_b c = (recip_lower (ext_of (upper_ext a)), m_upper_open a)" "upper_b c = (recip_upper (ext_of (lower_ext a)), m_lower_open a)"
  shows "members c = (\<lambda>x. 1 / x) ` members a" "ivl_wf c" "inf_open c"
proof -
  have H: "lower_holds c z \<longleftrightarrow> above (recip_lower (ext_of (upper_ext a))) (m_upper_open a) z"
    "upper_holds c z \<longleftrightarrow> below (recip_upper (ext_of (lower_ext a))) (m_lower_open a) z" for z
    unfolding holds_ext using b by simp_all
  have oka: "ivl_ok a" using wf unfolding ivl_wf_def by blast
  have inf: "ext_of (upper_ext a) = PInf \<Longrightarrow> m_upper_open a" "ext_of (lower_ext a) = MInf \<Longrightarrow> m_lower_open a"
    using io by (auto simp: inf_open_def split: if_splits)
  let ?A = "ext_of (lower_ext a)" and ?D = "ext_of (upper_ext a)"
  have c: "is_P1 a \<Longrightarrow> Fin 0 < ?A \<or> (?A = Fin 0 \<and> m_lower_open a)" "is_P1 a \<Longrightarrow> Fin 0 < ?D"
    "is_N1 a \<Longrightarrow> ?D < Fin 0 \<or> (?D = Fin 0 \<and> m_upper_open a)" "is_N1 a \<Longrightarrow> ?A < Fin 0"
    using P1_N1_excl(3,4) [OF wf] class_bounds [OF oka] by blast+
  have inv: "recip_lower (recip_upper ?A) = ?A" "recip_upper (recip_lower ?D) = ?D"
    by (auto simp: recip_lower_def recip_upper_def)
  have sgn: "recip_upper ?A < Fin 0 \<or> (recip_upper ?A = Fin 0 \<and> m_lower_open a)" if "is_N1 a"
    using c(4) [OF that] inf(2) by (cases ?A) (auto simp: recip_upper_def)
  have sgp: "Fin 0 < recip_lower ?D \<or> (recip_lower ?D = Fin 0 \<and> m_upper_open a)" if "is_P1 a"
    using c(2) [OF that] inf(1) by (cases ?D) (auto simp: recip_lower_def)
  show mem: "members c = (\<lambda>x. 1 / x) ` members a"
  proof (intro equalityI subsetI)
    fix z assume z: "z \<in> members c"
    then have zb: "above (recip_lower ?D) (m_upper_open a) z" "below (recip_upper ?A) (m_lower_open a) z"
      by (simp_all add: members_def H del: ext_of_bounds)
    have z0: "is_P1 a \<Longrightarrow> 0 < z" "is_N1 a \<Longrightarrow> z < 0"
      using bound_sign_strict zb sgp sgn by blast+
    have "above (recip_lower (recip_upper ?A)) (m_lower_open a) (1 / z)"
      using zb(2) P z0 sgn c(1) by (intro recip_above) (auto simp: recip_upper_def split: if_splits)
    moreover have "below (recip_upper (recip_lower ?D)) (m_upper_open a) (1 / z)"
      using zb(1) P z0 sgp c(3) by (intro recip_below) (auto simp: recip_lower_def split: if_splits)
    ultimately have "1 / z \<in> members a" unfolding inv by (simp add: members_def holds_ext del: ext_of_bounds)
    moreover have "z = 1 / (1 / z)" by simp
    ultimately show "z \<in> (\<lambda>x. 1 / x) ` members a" by blast
  next
    fix z assume "z \<in> (\<lambda>x. 1 / x) ` members a"
    then obtain x where x: "x \<in> members a" "z = 1 / x" by blast
    then have xb: "above ?A (m_lower_open a) x" "below ?D (m_upper_open a) x" by (simp_all add: members_def holds_ext del: ext_of_bounds)
    have "above (recip_lower ?D) (m_upper_open a) (1 / x)"
      using P P1_N1_excl(1) [OF wf _ x(1)] c(3) inf(1) by (intro recip_above [OF xb(2)]) blast+
    moreover have "below (recip_upper ?A) (m_lower_open a) (1 / x)"
      using P P1_N1_excl(2) [OF wf _ x(1)] c(1) inf(2) by (intro recip_below [OF xb(1)]) blast+
    ultimately show "z \<in> members c" by (simp add: members_def H x(2) del: ext_of_bounds)
  qed
  show "ivl_wf c" using mem wf ok by (simp add: ivl_wf_iff)
  have "m_lower_inf c \<longleftrightarrow> recip_lower ?D = MInf" "m_upper_inf c \<longleftrightarrow> recip_upper ?A = PInf"
    using b by (auto simp del: ext_of_bounds simp: ext_of_bounds [of c] split: if_splits)
  moreover have "recip_lower ?D = MInf \<Longrightarrow> m_upper_open a" "recip_upper ?A = PInf \<Longrightarrow> m_lower_open a"
  proof -
    have "recip_lower d = MInf \<Longrightarrow> d = Fin 0" "recip_upper d = PInf \<Longrightarrow> d = Fin 0" for d
      by (cases d; simp add: recip_lower_def recip_upper_def split: if_splits)+
    then show "recip_lower ?D = MInf \<Longrightarrow> m_upper_open a" "recip_upper ?A = PInf \<Longrightarrow> m_lower_open a"
      using c P by (metis less_irrefl)+
  qed
  ultimately show "inf_open c"
    using b by (simp add: inf_open_def)
qed

lemma recip_ne [simp]: "recip_lower d \<noteq> PInf" "recip_upper d \<noteq> MInf"
  by (cases d; simp add: recip_lower_def recip_upper_def)+

lemma yields_ivl_of:
  assumes "m = Inr (\<sigma>(b := ivl_of l u s t))" "ext_ok l" "ext_ok u" "ext_of l = L" "ext_of u = U" "L \<noteq> PInf" "U \<noteq> MInf"
  shows "yields m (writes b \<sigma> (\<lambda>c. ivl_ok c \<and> lower_b c = (L, s) \<and> upper_b c = (U, t)))"
  unfolding assms(1) yields_Inr writes_def fun_upd_same
  using ivl_of_bounds [of l u s t] assms(2-7) by (simp del: ext_of_bounds ivl_ok_def)

lemma ivl_inv_bounds:
  assumes wf: "ivl_wf (\<sigma> a)" and P: "is_P1 (\<sigma> a) \<or> is_N1 (\<sigma> a)"
  shows "yields (ivl_inv a b \<sigma>) (writes b \<sigma> (\<lambda>c. ivl_ok c
    \<and> lower_b c = (recip_lower (ext_of (upper_ext (\<sigma> a))), m_upper_open (\<sigma> a))
    \<and> upper_b c = (recip_upper (ext_of (lower_ext (\<sigma> a))), m_lower_open (\<sigma> a))))"
proof -
  have ok: "ivl_ok (\<sigma> a)" using wf unfolding ivl_wf_def by blast
  then have okl: "mpq_ok (m_lower (\<sigma> a))" and oku: "mpq_ok (m_upper (\<sigma> a))" by simp_all
  note cls = class_bounds [OF ok] and excl = P1_N1_excl [OF wf]
  show ?thesis
  proof (cases "is_P1 (\<sigma> a)")
    case True
    have D: "ext_of (upper_ext (\<sigma> a)) \<noteq> Fin 0" using excl(3) [OF True] by auto
    note linv = mpq_inv_val [OF okl]
    have lz: "lower_is_zero (\<sigma> a) \<Longrightarrow> m_lower_open (\<sigma> a) \<and> ext_of (lower_ext (\<sigma> a)) = Fin 0"
      "\<not> lower_is_zero (\<sigma> a) \<Longrightarrow> \<not> m_lower_inf (\<sigma> a) \<and> mpq_val (m_lower (\<sigma> a)) \<noteq> 0"
      using True okl unfolding cls by (auto simp: lower_is_zero_def lower_kind_def ext_is_zero_def split: if_splits)
    obtain n where n: "ext_inv (upper_ext (\<sigma> a)) = Inr (n, EN_NUMERAL)" "mpq_ok n"
      "Fin (mpq_val n) = divide_ext (Fin 1) (ext_of (upper_ext (\<sigma> a)))"
      using ext_inv_of [OF _ D] oku by (auto simp del: ext_of_bounds)
    have nv: "mpq_ok n" "Fin (mpq_val n) = recip_lower (ext_of (upper_ext (\<sigma> a)))"
      using n(2,3) D by (simp_all add: recip_lower_def del: ext_of_bounds)
    show ?thesis
    proof (cases "lower_is_zero (\<sigma> a)")
      case z: True
      have res: "ivl_inv a b \<sigma> = Inr (\<sigma>(b := ivl_of (n, EN_NUMERAL) (mpq_reset (m_upper (\<sigma> b)), EN_PLUS_INFINITY) (m_upper_open (\<sigma> a)) (m_lower_open (\<sigma> a))))"
        using True z lz(1) [OF z] by (cases "\<sigma> b") (simp add: ivl_inv_def n(1) ivl_of_def Let_def)
      have rc: "recip_upper (ext_of (lower_ext (\<sigma> a))) = PInf"
        using lz(1) [OF z] by (simp_all add: recip_upper_def del: ext_of_bounds)
      show ?thesis by (rule yields_ivl_of [OF res]) (use nv rc lz(1) [OF z] linv(1) in \<open>simp_all del: ext_of_bounds\<close>)
    next
      case z: False
      have res: "ivl_inv a b \<sigma> = Inr (\<sigma>(b := ivl_of (n, EN_NUMERAL) (mpq_inv (m_lower (\<sigma> a)), EN_NUMERAL) (m_upper_open (\<sigma> a)) (m_lower_open (\<sigma> a))))"
        using True z by (cases "\<sigma> b") (simp add: ivl_inv_def n(1) ivl_of_def Let_def)
      have rc: "recip_upper (ext_of (lower_ext (\<sigma> a))) = Fin (mpq_val (mpq_inv (m_lower (\<sigma> a))))"
        using lz(2) [OF z] linv(2) by (simp add: recip_upper_def inverse_eq_divide)
      show ?thesis by (rule yields_ivl_of [OF res]) (use nv rc lz(2) [OF z] linv(1) in \<open>simp_all del: ext_of_bounds\<close>)
    qed
  next
    case False
    then have N: "is_N1 (\<sigma> a)" using P by blast
    have D: "ext_of (lower_ext (\<sigma> a)) \<noteq> Fin 0" using excl(4) [OF N] by auto
    note linv = mpq_inv_val [OF oku]
    have lz: "upper_is_zero (\<sigma> a) \<Longrightarrow> m_upper_open (\<sigma> a) \<and> ext_of (upper_ext (\<sigma> a)) = Fin 0"
      "\<not> upper_is_zero (\<sigma> a) \<Longrightarrow> \<not> m_upper_inf (\<sigma> a) \<and> mpq_val (m_upper (\<sigma> a)) \<noteq> 0"
      using N oku unfolding cls by (auto simp: upper_is_zero_def upper_kind_def ext_is_zero_def split: if_splits)
    obtain n where n: "ext_inv (lower_ext (\<sigma> a)) = Inr (n, EN_NUMERAL)" "mpq_ok n"
      "Fin (mpq_val n) = divide_ext (Fin 1) (ext_of (lower_ext (\<sigma> a)))"
      using ext_inv_of [OF _ D] okl by (auto simp del: ext_of_bounds)
    have nv: "mpq_ok n" "Fin (mpq_val n) = recip_upper (ext_of (lower_ext (\<sigma> a)))"
      using n(2,3) D by (simp_all add: recip_upper_def del: ext_of_bounds)
    show ?thesis
    proof (cases "upper_is_zero (\<sigma> a)")
      case z: True
      have res: "ivl_inv a b \<sigma> = Inr (\<sigma>(b := ivl_of (mpq_reset (m_lower (\<sigma> b)), EN_MINUS_INFINITY) (n, EN_NUMERAL) (m_upper_open (\<sigma> a)) (m_lower_open (\<sigma> a))))"
        using False N z lz(1) [OF z] by (cases "\<sigma> b") (simp add: ivl_inv_def n(1) ivl_of_def Let_def)
      have rc: "recip_lower (ext_of (upper_ext (\<sigma> a))) = MInf"
        using lz(1) [OF z] by (simp_all add: recip_lower_def del: ext_of_bounds)
      show ?thesis by (rule yields_ivl_of [OF res]) (use nv rc lz(1) [OF z] linv(1) in \<open>simp_all del: ext_of_bounds\<close>)
    next
      case z: False
      have res: "ivl_inv a b \<sigma> = Inr (\<sigma>(b := ivl_of (mpq_inv (m_upper (\<sigma> a)), EN_NUMERAL) (n, EN_NUMERAL) (m_upper_open (\<sigma> a)) (m_lower_open (\<sigma> a))))"
        using False N z by (cases "\<sigma> b") (simp add: ivl_inv_def n(1) ivl_of_def Let_def)
      have rc: "recip_lower (ext_of (upper_ext (\<sigma> a))) = Fin (mpq_val (mpq_inv (m_upper (\<sigma> a))))"
        using lz(2) [OF z] linv(2) by (simp add: recip_lower_def inverse_eq_divide)
      show ?thesis by (rule yields_ivl_of [OF res]) (use nv rc lz(2) [OF z] linv(1) in \<open>simp_all del: ext_of_bounds\<close>)
    qed
  qed
qed

text \<open>\<open>inv\<close> on a valid interval without zero returns the interval of the reciprocals, and its rule is
  right; on an interval that contains zero it ends the program.\<close>

lemma ivl_inv_yields:
  assumes wf: "ivl_wf (\<sigma> a)" and io: "inf_open (\<sigma> a)" and nz: "0 \<notin> members (\<sigma> a)"
  shows "yields (inv_jst (\<sigma> a)) (\<lambda>d. yields (ivl_inv a b \<sigma>) (writes b \<sigma> (\<lambda>c. ivl_wf c \<and> inf_open c
    \<and> members c = (\<lambda>x. 1 / x) ` members (\<sigma> a) \<and> (\<forall>x. justified d (\<sigma> a) x (\<sigma> a) x c (1 / x)))))"
proof -
  have P: "is_P1 (\<sigma> a) \<or> is_N1 (\<sigma> a)" using P1_N1_excl(6) [OF wf nz] .
  have ok: "ivl_ok (\<sigma> a)" using wf unfolding ivl_wf_def by blast
  obtain \<tau> c where t: "ivl_inv a b \<sigma> = Inr \<tau>" "\<tau> b = c" "\<forall>j. j \<noteq> b \<longrightarrow> \<tau> j = \<sigma> j" "ivl_ok c"
    "lower_b c = (recip_lower (ext_of (upper_ext (\<sigma> a))), m_upper_open (\<sigma> a))"
    "upper_b c = (recip_upper (ext_of (lower_ext (\<sigma> a))), m_lower_open (\<sigma> a))"
    using ivl_inv_bounds [of \<sigma> a b, OF wf P] unfolding writes_def by (auto elim!: yieldsE simp del: ext_of_bounds ivl_ok_def)
  note R = recip_members [OF wf P t(4) io t(5,6)]
  obtain d where d: "inv_jst (\<sigma> a) = Inr d" using P unfolding inv_jst_def by (cases "is_P1 (\<sigma> a)") auto
  let ?A = "ext_of (lower_ext (\<sigma> a))" and ?D = "ext_of (upper_ext (\<sigma> a))"
  let ?s = "m_lower_open (\<sigma> a)" and ?t = "m_upper_open (\<sigma> a)"
  have H: "lower_holds c z \<longleftrightarrow> above (recip_lower ?D) ?t z" "upper_holds c z \<longleftrightarrow> below (recip_upper ?A) ?s z" for z
    unfolding holds_ext using t(5,6) by simp_all
  have inf: "?D = PInf \<Longrightarrow> ?t" "?A = MInf \<Longrightarrow> ?s"
    using io by (auto simp: inf_open_def split: if_splits)
  note cls = class_bounds [OF ok]
  have "justified d (\<sigma> a) x (\<sigma> a) x c (1 / x)" for x
  proof (cases "is_P1 (\<sigma> a)")
    case True
    have x: "above ?A ?s x \<Longrightarrow> 0 < x" using bound_sign_strict(1) True unfolding cls by blast
    have "above ?A ?s x \<Longrightarrow> below ?D ?t x \<Longrightarrow> above (recip_lower ?D) ?t (1 / x)"
      "above ?A ?s x \<Longrightarrow> below (recip_upper ?A) ?s (1 / x)"
      using recip_above [of ?D ?t x] recip_below [of ?A ?s x] x inf True unfolding cls by blast+
    then show ?thesis
      using d True t(5,6) by (auto simp: inv_jst_def justified_def deps_hold_def H holds_ext simp del: ext_of_bounds)
  next
    case False
    then have N: "is_N1 (\<sigma> a)" using P by blast
    have x: "below ?D ?t x \<Longrightarrow> x < 0" using bound_sign_strict(2) N unfolding cls by blast
    have "below ?D ?t x \<Longrightarrow> above (recip_lower ?D) ?t (1 / x)"
      "above ?A ?s x \<Longrightarrow> below ?D ?t x \<Longrightarrow> below (recip_upper ?A) ?s (1 / x)"
      using recip_above [of ?D ?t x] recip_below [of ?A ?s x] x inf N unfolding cls by blast+
    then show ?thesis
      using d False N t(5,6) by (auto simp: inv_jst_def justified_def deps_hold_def H holds_ext simp del: ext_of_bounds)
  qed
  then show ?thesis using d t R by (simp add: writes_def)
qed

lemma ivl_inv_zero:
  assumes "ivl_wf (\<sigma> a)" "0 \<in> members (\<sigma> a)"
  shows "ivl_inv a b \<sigma> = Inl Verify_failed"
  using P1_N1_excl(1,2) [OF assms(1) _ assms(2)] by (auto simp: ivl_inv_def)

section \<open>The interval of the quotients\<close>

text \<open>The bounds of a quotient are the bounds of the product with the reciprocals of the divisor.\<close>

abbreviation div_bounds :: "interval \<Rightarrow> interval \<Rightarrow> ext_bound \<times> ext_bound" where
  "div_bounds i j \<equiv> product_bounds (lower_b i) (upper_b i)
     (recip_lower (ext_of (upper_ext j)), m_upper_open j) (recip_upper (ext_of (lower_ext j)), m_lower_open j)"

lemma recip_sign:
  "Fin 0 < d \<Longrightarrow> Fin 0 \<le> recip_lower d" "d \<le> Fin 0 \<Longrightarrow> recip_lower d \<le> Fin 0" "d \<noteq> MInf \<Longrightarrow> d \<le> Fin 0 \<Longrightarrow> recip_lower d < Fin 0"
  "c < Fin 0 \<Longrightarrow> recip_upper c \<le> Fin 0" "Fin 0 \<le> c \<Longrightarrow> Fin 0 \<le> recip_upper c" "c \<noteq> PInf \<Longrightarrow> Fin 0 \<le> c \<Longrightarrow> Fin 0 < recip_upper c"
  "recip_lower d = Fin 0 \<longleftrightarrow> d = MInf \<or> d = PInf" "recip_upper c = Fin 0 \<longleftrightarrow> c = MInf \<or> c = PInf"
  by (cases d; cases c; auto simp: recip_lower_def recip_upper_def le_less divide_less_0_iff)+

lemma divide_recip:
  "y \<noteq> Fin 0 \<Longrightarrow> (y = MInf \<or> y = PInf \<Longrightarrow> x \<noteq> MInf \<and> x \<noteq> PInf) \<Longrightarrow> divide_ext x y = times_ext x (recip_lower y)"
  "y \<noteq> Fin 0 \<Longrightarrow> (y = MInf \<or> y = PInf \<Longrightarrow> x \<noteq> MInf \<and> x \<noteq> PInf) \<Longrightarrow> divide_ext x y = times_ext x (recip_upper y)"
  by (cases x; cases y; auto simp: recip_lower_def recip_upper_def infinity_def)+

lemma ext_div_obtain:
  assumes "ext_ok x" "ext_ok y"
  obtains z where "\<not> no_quotient (ext_of x) (ext_of y) \<Longrightarrow> ext_div x y = Inr z \<and> ext_ok z \<and> ext_of z = divide_ext (ext_of x) (ext_of y)"
proof (cases "no_quotient (ext_of x) (ext_of y)")
  case False
  then obtain z where "ext_div x y = Inr z \<and> ext_ok z \<and> ext_of z = divide_ext (ext_of x) (ext_of y)"
    using ext_div_yields [OF assms] by (auto elim!: yieldsE)
  then show ?thesis using that by blast
qed (use that in blast)

lemma div_cases_yields:
  assumes wf: "ivl_wf (\<sigma> i)" "ivl_wf (\<sigma> j)" and io: "inf_open (\<sigma> j)" and nz: "\<not> ivl_is_zero (\<sigma> i)" and P: "is_P1 (\<sigma> j) \<or> is_N1 (\<sigma> j)"
  shows "yields (div_cases i j r \<sigma>) (\<lambda>(\<tau>, l, u). ext_ok l \<and> ext_ok u \<and> (\<exists>s t. \<tau> = set_opens r s t \<sigma> \<and>
    ((ext_of l, s), (ext_of u, t)) = div_bounds (\<sigma> i) (\<sigma> j)))"
proof -
  define a b c d where abcd: "a = lower_ext (\<sigma> i)" "b = upper_ext (\<sigma> i)" "c = lower_ext (\<sigma> j)" "d = upper_ext (\<sigma> j)"
  define A B C D where ABCD: "A = ext_of a" "B = ext_of b" "C = ext_of c" "D = ext_of d"
  define ao bo co du where opens: "ao = m_lower_open (\<sigma> i)" "bo = m_upper_open (\<sigma> i)" "co = m_lower_open (\<sigma> j)" "du = m_upper_open (\<sigma> j)"
  have oki: "ivl_ok (\<sigma> i)" and okj: "ivl_ok (\<sigma> j)" using wf unfolding ivl_wf_def by blast+
  then have ok: "ext_ok a" "ext_ok b" "ext_ok c" "ext_ok d" by (simp_all add: abcd)
  note cls = class_bounds [OF oki, folded abcd opens, folded ABCD] class_bounds [OF okj, folded abcd opens, folded ABCD]
  have fin: "A \<noteq> PInf" "B \<noteq> MInf" "C \<noteq> PInf" "D \<noteq> MInf" by (simp_all add: ABCD abcd)
  have inf: "C = MInf \<Longrightarrow> co" "D = PInf \<Longrightarrow> du" using io by (auto simp: inf_open_def ABCD abcd opens split: if_splits)
  have le: "A \<le> B" "C \<le> D" using wf_bounds_le wf by (simp_all add: ABCD abcd)
  have nz': "\<not> (A = Fin 0 \<and> B = Fin 0)" using nz unfolding cls by blast
  have sg: "B \<le> Fin 0 \<Longrightarrow> A < Fin 0" by (metis le(1) nz' antisym order_le_less order_trans)
  have key: ?thesis if "div_cases i j r \<sigma> = Inr (set_opens r s t \<sigma>, l, u)" "ext_ok l" "ext_ok u"
    "((ext_of l, s), (ext_of u, t)) = product_bounds (A, ao) (B, bo) (recip_lower D, du) (recip_upper C, co)" for s t l u
    unfolding that(1) yields_Inr prod.case using that(2-4) unfolding ABCD abcd opens by blast
  consider (n) "(B \<le> Fin 0) = True" "A < Fin 0" | (m) "(B \<le> Fin 0) = False" "Fin 0 < B" "(A < Fin 0) = True"
    | (p) "(B \<le> Fin 0) = False" "Fin 0 < B" "(A < Fin 0) = False" "Fin 0 \<le> A"
    using sg by (metis not_le not_less)
  note signs = this
  note prog = div_cases_def abcd [symmetric] opens [symmetric] ABCD [symmetric] Let_def set_opens_twice
  show ?thesis
  proof (cases "is_N1 (\<sigma> j)")
    case N: True
    have C: "C < Fin 0" using P1_N1_excl(4) [OF wf(2) N] by (simp add: ABCD abcd)
    have D: "D \<le> Fin 0" "D = Fin 0 \<Longrightarrow> du" using N unfolding cls by auto
    have Dz: "mpq_is_zero (fst d) \<longleftrightarrow> D = Fin 0" using D ok(4) fin(4) by (cases d; cases "snd d") (auto simp: ABCD)
    have r: "recip_upper C \<le> Fin 0" "recip_upper C = Fin 0 \<longleftrightarrow> C = MInf" "recip_lower D < Fin 0" "recip_lower D \<le> Fin 0"
      using C D recip_sign fin by (auto simp: recip_sign)
    obtain ad where ad': "\<not> no_quotient A D \<Longrightarrow> ext_div a d = Inr ad \<and> ext_ok ad \<and> ext_of ad = divide_ext A D"
      using ext_div_obtain [OF ok(1,4)] unfolding ABCD by blast
    obtain bd where bd': "\<not> no_quotient B D \<Longrightarrow> ext_div b d = Inr bd \<and> ext_ok bd \<and> ext_of bd = divide_ext B D"
      using ext_div_obtain [OF ok(2,4)] unfolding ABCD by blast
    obtain ac where ac': "\<not> no_quotient A C \<Longrightarrow> ext_div a c = Inr ac \<and> ext_ok ac \<and> ext_of ac = divide_ext A C"
      using ext_div_obtain [OF ok(1,3)] unfolding ABCD by blast
    obtain bc where bc': "\<not> no_quotient B C \<Longrightarrow> ext_div b c = Inr bc \<and> ext_ok bc \<and> ext_of bc = divide_ext B C"
      using ext_div_obtain [OF ok(2,3)] unfolding ABCD by blast
    have fd: "D \<noteq> PInf" using D(1) by auto
    have ad: "D \<noteq> Fin 0 \<Longrightarrow> ext_div a d = Inr ad \<and> ext_ok ad \<and> ext_of ad = divide_ext A D"
      and bd: "D \<noteq> Fin 0 \<Longrightarrow> ext_div b d = Inr bd \<and> ext_ok bd \<and> ext_of bd = divide_ext B D"
      using ad' bd' fd fin(4) unfolding no_quotient_def by blast+
    have ac: "ext_div a c = Inr ac" "ext_ok ac" "ext_of ac = divide_ext A C" if "Fin 0 \<le> A"
    proof -
      have "\<not> no_quotient A C" using that C fin by (auto simp: no_quotient_def)
      then show "ext_div a c = Inr ac" "ext_ok ac" "ext_of ac = divide_ext A C" using ac' by blast+
    qed
    have bc: "ext_div b c = Inr bc" "ext_ok bc" "ext_of bc = divide_ext B C" if "B \<le> Fin 0"
    proof -
      have "\<not> no_quotient B C" using that C fin by (auto simp: no_quotient_def)
      then show "ext_div b c = Inr bc" "ext_ok bc" "ext_of bc = divide_ext B C" using bc' by blast+
    qed
    have q: "B \<le> Fin 0 \<Longrightarrow> divide_ext B C = times_ext B (recip_upper C)" "Fin 0 \<le> A \<Longrightarrow> divide_ext A C = times_ext A (recip_upper C)"
      "D \<noteq> Fin 0 \<Longrightarrow> divide_ext A D = times_ext A (recip_lower D)" "D \<noteq> Fin 0 \<Longrightarrow> divide_ext B D = times_ext B (recip_lower D)"
      using C D fin by (auto intro!: divide_recip)
    have z: "D = Fin 0 \<Longrightarrow> A < Fin 0 \<Longrightarrow> times_ext A (recip_lower D) = PInf" "D = Fin 0 \<Longrightarrow> Fin 0 < B \<Longrightarrow> times_ext B (recip_lower D) = MInf"
      by (cases A; auto simp: recip_lower_def infinity_def) (cases B; auto simp: recip_lower_def infinity_def)
    have NT: "is_N1 (\<sigma> j) \<longleftrightarrow> True" using N by simp
    show ?thesis
    proof (cases rule: signs)
      case n
      then have B0: "B \<le> Fin 0" by simp
      show ?thesis
      proof (rule key)
        show "div_cases i j r \<sigma> = Inr (set_opens r (if is_N0 (\<sigma> i) then False else bo \<or> co) (ao \<or> du) \<sigma>,
           bc, if D = Fin 0 then (mk_q 0, EN_PLUS_INFINITY) else ad)"
          unfolding prog cls(1) n(1) NT if_True bc(1) [OF B0] bind_res.simps Dz using ad by (cases "D = Fin 0") simp_all
      qed (use r n bc [OF B0] ad q z C D inf in \<open>auto simp: cls\<close>)
    next
      case m
      show ?thesis
      proof (rule key)
        show "div_cases i j r \<sigma> = Inr (set_opens r (bo \<or> du) (ao \<or> du) \<sigma>,
           if D = Fin 0 then (mk_q 0, EN_MINUS_INFINITY) else bd, if D = Fin 0 then (mk_q 0, EN_PLUS_INFINITY) else ad)"
          unfolding prog cls(1) cls(7) m(1,3) NT if_True if_False Dz using ad bd m(2) by (cases "D = Fin 0") simp_all
      qed (use r m bd ad q z C D inf in \<open>auto simp: cls\<close>)
    next
      case p
      show ?thesis
      proof (rule key)
        show "div_cases i j r \<sigma> = Inr (set_opens r (bo \<or> du) (if is_P0 (\<sigma> i) then False else ao \<or> co) \<sigma>,
           if D = Fin 0 then (mk_q 0, EN_MINUS_INFINITY) else bd, ac)"
          unfolding prog cls(1) cls(7) p(1,3) NT if_True if_False ac(1) [OF p(4)] bind_res.simps Dz using bd by (cases "D = Fin 0") simp_all
      qed (use r p bd ac [OF p(4)] q z C D inf in \<open>auto simp: cls\<close>)
    qed
  next
    case False
    then have Q: "is_P1 (\<sigma> j)" using P by blast
    have D: "Fin 0 < D" using P1_N1_excl(3) [OF wf(2) Q] by (simp add: ABCD abcd)
    have C: "Fin 0 \<le> C" "C = Fin 0 \<Longrightarrow> co" using Q unfolding cls by auto
    have Cz: "mpq_is_zero (fst c) \<longleftrightarrow> C = Fin 0" using C ok(3) fin(3) by (cases c; cases "snd c") (auto simp: ABCD)
    have r: "\<not> recip_upper C \<le> Fin 0" "\<not> recip_lower D < Fin 0" "recip_lower D = Fin 0 \<longleftrightarrow> D = PInf"
      using C D recip_sign fin by (auto simp: recip_sign not_le not_less)
    obtain ac where ac': "\<not> no_quotient A C \<Longrightarrow> ext_div a c = Inr ac \<and> ext_ok ac \<and> ext_of ac = divide_ext A C"
      using ext_div_obtain [OF ok(1,3)] unfolding ABCD by blast
    obtain bc where bc': "\<not> no_quotient B C \<Longrightarrow> ext_div b c = Inr bc \<and> ext_ok bc \<and> ext_of bc = divide_ext B C"
      using ext_div_obtain [OF ok(2,3)] unfolding ABCD by blast
    obtain ad where ad': "\<not> no_quotient A D \<Longrightarrow> ext_div a d = Inr ad \<and> ext_ok ad \<and> ext_of ad = divide_ext A D"
      using ext_div_obtain [OF ok(1,4)] unfolding ABCD by blast
    obtain bd where bd': "\<not> no_quotient B D \<Longrightarrow> ext_div b d = Inr bd \<and> ext_ok bd \<and> ext_of bd = divide_ext B D"
      using ext_div_obtain [OF ok(2,4)] unfolding ABCD by blast
    have fc: "C \<noteq> MInf" using C(1) by auto
    have ac: "C \<noteq> Fin 0 \<Longrightarrow> ext_div a c = Inr ac \<and> ext_ok ac \<and> ext_of ac = divide_ext A C"
      and bc: "C \<noteq> Fin 0 \<Longrightarrow> ext_div b c = Inr bc \<and> ext_ok bc \<and> ext_of bc = divide_ext B C"
      using ac' bc' fc fin(3) unfolding no_quotient_def by blast+
    have ad: "ext_div a d = Inr ad" "ext_ok ad" "ext_of ad = divide_ext A D" if "Fin 0 \<le> A"
    proof -
      have "\<not> no_quotient A D" using that D fin by (auto simp: no_quotient_def)
      then show "ext_div a d = Inr ad" "ext_ok ad" "ext_of ad = divide_ext A D" using ad' by blast+
    qed
    have bd: "ext_div b d = Inr bd" "ext_ok bd" "ext_of bd = divide_ext B D" if "B \<le> Fin 0"
    proof -
      have "\<not> no_quotient B D" using that D fin by (auto simp: no_quotient_def)
      then show "ext_div b d = Inr bd" "ext_ok bd" "ext_of bd = divide_ext B D" using bd' by blast+
    qed
    have q: "B \<le> Fin 0 \<Longrightarrow> divide_ext B D = times_ext B (recip_lower D)" "Fin 0 \<le> A \<Longrightarrow> divide_ext A D = times_ext A (recip_lower D)"
      "C \<noteq> Fin 0 \<Longrightarrow> divide_ext A C = times_ext A (recip_upper C)" "C \<noteq> Fin 0 \<Longrightarrow> divide_ext B C = times_ext B (recip_upper C)"
      using C D fin by (auto intro!: divide_recip)
    have z: "C = Fin 0 \<Longrightarrow> A < Fin 0 \<Longrightarrow> times_ext A (recip_upper C) = MInf" "C = Fin 0 \<Longrightarrow> Fin 0 < B \<Longrightarrow> times_ext B (recip_upper C) = PInf"
      by (cases A; auto simp: recip_upper_def infinity_def) (cases B; auto simp: recip_upper_def infinity_def)
    have NF: "is_N1 (\<sigma> j) \<longleftrightarrow> False" using False by simp
    show ?thesis
    proof (cases rule: signs)
      case n
      then have B0: "B \<le> Fin 0" by simp
      show ?thesis
      proof (rule key)
        show "div_cases i j r \<sigma> = Inr (set_opens r (ao \<or> co) (if is_N0 (\<sigma> i) then False else bo \<or> du) \<sigma>,
           if C = Fin 0 then (mk_q 0, EN_MINUS_INFINITY) else ac, bd)"
          unfolding prog cls(1) n(1) NF if_True if_False bd(1) [OF B0] bind_res.simps Cz using ac by (cases "C = Fin 0") simp_all
      qed (use r n bd [OF B0] ac q z C D inf in \<open>auto simp: cls\<close>)
    next
      case m
      show ?thesis
      proof (rule key)
        show "div_cases i j r \<sigma> = Inr (set_opens r (ao \<or> co) (bo \<or> co) \<sigma>,
           if C = Fin 0 then (mk_q 0, EN_MINUS_INFINITY) else ac, if C = Fin 0 then (mk_q 0, EN_PLUS_INFINITY) else bc)"
          unfolding prog cls(1) cls(7) m(1,3) NF if_True if_False Cz using ac bc m(2) by (cases "C = Fin 0") simp_all
      qed (use r m bc ac q z C D inf in \<open>auto simp: cls\<close>)
    next
      case p
      show ?thesis
      proof (rule key)
        show "div_cases i j r \<sigma> = Inr (set_opens r (if is_P0 (\<sigma> i) then False else ao \<or> du) (bo \<or> co) \<sigma>,
           ad, if C = Fin 0 then (mk_q 0, EN_PLUS_INFINITY) else bc)"
          unfolding prog cls(1) cls(7) p(1,3) NF if_True if_False ad(1) [OF p(4)] bind_res.simps Cz using bc by (cases "C = Fin 0") simp_all
      qed (use r p bc ad [OF p(4)] q z C D inf in \<open>auto simp: cls\<close>)
    qed
  qed
qed

lemma quotient_justified:
  assumes wf: "ivl_wf i" "ivl_wf j" and io: "inf_open j" and nz: "\<not> ivl_is_zero i" and P: "is_P1 j \<or> is_N1 j"
    and eq: "div_bounds i j = ((l, s), (u, t))"
  shows "deps_hold (m_lower_combine (div_jst i j)) i x j y \<Longrightarrow> above l s (x / y)"
    "deps_hold (m_upper_combine (div_jst i j)) i x j y \<Longrightarrow> below u t (x / y)"
proof -
  define a b c d where abcd: "a = ext_of (lower_ext i)" "b = ext_of (upper_ext i)" "c = ext_of (lower_ext j)" "d = ext_of (upper_ext j)"
  define ao bo co du where opens: "ao = m_lower_open i" "bo = m_upper_open i" "co = m_lower_open j" "du = m_upper_open j"
  have oki: "ivl_ok i" and okj: "ivl_ok j" using wf unfolding ivl_wf_def by blast+
  note cls = class_bounds [OF oki, folded abcd opens] class_bounds [OF okj, folded abcd opens]
  have nz: "ivl_is_zero i \<longleftrightarrow> False" using nz by simp
  have le: "a \<le> b" using wf_bounds_le wf by (simp add: abcd)
  have nz': "a = Fin 0 \<Longrightarrow> b \<noteq> Fin 0" using nz unfolding cls by blast
  have sg: "b \<le> Fin 0 \<Longrightarrow> a < Fin 0" by (metis le nz' antisym order_le_less order_trans)
  have fin: "c \<noteq> PInf" "d \<noteq> MInf" by (simp_all add: abcd)
  have inf: "c = MInf \<Longrightarrow> co" "d = PInf \<Longrightarrow> du" using io by (auto simp: inf_open_def abcd opens split: if_splits)
  let ?c = "recip_lower d" and ?d = "recip_upper c" and ?y = "1 / y"
  let ?pb = "product_bounds (a, ao) (b, bo) (?c, du) (?d, co)"
  have L: "l = fst (fst ?pb)" "s = snd (fst ?pb)" "u = fst (snd ?pb)" "t = snd (snd ?pb)"
    using eq by (simp_all only: abcd opens fst_conv snd_conv)
  have H: "lower_holds i x \<longleftrightarrow> above a ao x" "upper_holds i x \<longleftrightarrow> below b bo x" "lower_holds j y \<longleftrightarrow> above c co y" "upper_holds j y \<longleftrightarrow> below d du y"
    by (simp_all only: holds_ext abcd opens)
  note rules = product_above [of a ao x ?c du ?y] product_above_variants(1) [of b bo x ?d co ?y] product_above_variants(2) [of b bo x ?c du ?y]
    product_above_variants(3) [of a ao x ?d co ?y] product_below_variants(1) [of b bo x ?d co ?y] product_below_variants(2) [of a ao x ?c du ?y]
    product_below_variants(3) [of a ao x ?d co ?y] product_below_variants(4) [of b bo x ?c du ?y]
  have ci: "((b \<le> Fin 0) = True) \<and> a < Fin 0
    \<or> ((b \<le> Fin 0) = False) \<and> ((Fin 0 < b) = True) \<and> ((a < Fin 0) = True)
    \<or> ((b \<le> Fin 0) = False) \<and> ((Fin 0 < b) = True) \<and> ((a < Fin 0) = False) \<and> ((Fin 0 \<le> a) = True)"
    using sg by (metis not_le not_less)
  have goals: "(deps_hold (m_lower_combine (div_jst i j)) i x j y \<longrightarrow> above l s (x * ?y))
    \<and> (deps_hold (m_upper_combine (div_jst i j)) i x j y \<longrightarrow> below u t (x * ?y))"
  proof (cases "is_N1 j")
    case N: True
    then have D: "d < Fin 0 \<or> (d = Fin 0 \<and> du)" unfolding cls .
    have C: "c < Fin 0" using P1_N1_excl(4) [OF wf(2) N] by (simp add: abcd)
    have r: "?d \<le> Fin 0" "?c < Fin 0" "?c \<le> Fin 0"
      using C D recip_sign fin by (auto simp: le_less)
    have T: "is_N1 j \<longleftrightarrow> True" "is_P1 j \<longleftrightarrow> False" "?d \<le> Fin 0 \<longleftrightarrow> True" "?c < Fin 0 \<longleftrightarrow> True" using N P1_N1_excl(5) [OF wf(2)] r by blast+
    have y: "below d du y \<Longrightarrow> y < 0" using bound_sign_strict(2) D by blast
    have b: "below d du y \<Longrightarrow> above ?c du ?y" "below d du y \<Longrightarrow> above c co y \<Longrightarrow> below ?d co ?y" "below d du y \<Longrightarrow> ?y \<le> 0"
      using recip_above [of d du y] recip_below [of c co y] D y inf by (blast, blast, simp)
    from ci r show ?thesis
      by (elim disjE conjE; simp only: div_jst_def nz T cls(1-8) L product_bounds.simps if_True if_False simp_thms fst_conv snd_conv
          interval_deps_combine_rule.simps deps_hold_def dep_or dep_flags H; blast intro: rules b less_imp_le)
  next
    case False
    then have Q: "is_P1 j" using P by blast
    then have C: "Fin 0 < c \<or> (c = Fin 0 \<and> co)" unfolding cls .
    have D: "Fin 0 < d" using P1_N1_excl(3) [OF wf(2) Q] by (simp add: abcd)
    have r: "Fin 0 < ?d" "Fin 0 \<le> ?c" using C D recip_sign fin by (auto simp: le_less)
    have T: "is_N1 j \<longleftrightarrow> False" "is_P1 j \<longleftrightarrow> True" "?d \<le> Fin 0 \<longleftrightarrow> False" "?c < Fin 0 \<longleftrightarrow> False" using False Q r by auto
    have y: "above c co y \<Longrightarrow> 0 < y" using bound_sign_strict(1) C by blast
    have b: "above c co y \<Longrightarrow> below d du y \<Longrightarrow> above ?c du ?y" "above c co y \<Longrightarrow> below ?d co ?y" "above c co y \<Longrightarrow> 0 \<le> ?y"
      using recip_above [of d du y] recip_below [of c co y] C y inf by (blast, blast, simp)
    from ci r show ?thesis
      by (elim disjE conjE; simp only: div_jst_def nz T cls(1-8) L product_bounds.simps if_True if_False simp_thms fst_conv snd_conv
          interval_deps_combine_rule.simps deps_hold_def dep_or dep_flags H; blast intro: rules b less_imp_le)
  qed
  then show "deps_hold (m_lower_combine (div_jst i j)) i x j y \<Longrightarrow> above l s (x / y)"
    "deps_hold (m_upper_combine (div_jst i j)) i x j y \<Longrightarrow> below u t (x / y)" by simp_all
qed

text \<open>\<open>div\<close> on valid intervals with a divisor that does not contain zero: the result contains exactly the
  quotients, and each of its bounds follows from the bounds that the rule names.\<close>

lemma ivl_div_yields:
  assumes wf: "ivl_wf (\<sigma> i)" "ivl_wf (\<sigma> j)" and io: "inf_open (\<sigma> j)" and z: "0 \<notin> members (\<sigma> j)" and r: "ivl_ok (\<sigma> r)"
  shows "yields (ivl_div i j r \<sigma>) (writes r \<sigma> (\<lambda>c. ivl_wf c
    \<and> members c = {x / y |x y. x \<in> members (\<sigma> i) \<and> y \<in> members (\<sigma> j)}
    \<and> (\<forall>x y. justified (div_jst (\<sigma> i) (\<sigma> j)) (\<sigma> i) x (\<sigma> j) y c (x / y))))"
proof -
  have P: "is_P1 (\<sigma> j) \<or> is_N1 (\<sigma> j)" using P1_N1_excl(6) [OF wf(2) z] .
  have okj: "ivl_ok (\<sigma> j)" using wf(2) unfolding ivl_wf_def by blast
  obtain x0 where x0: "x0 \<in> members (\<sigma> i)" using wf(1) by (rule ivl_wf_member)
  obtain y0 where y0: "y0 \<in> members (\<sigma> j)" using wf(2) by (rule ivl_wf_member)
  let ?S = "{x / y |x y. x \<in> members (\<sigma> i) \<and> y \<in> members (\<sigma> j)}"
  have ne: "?S \<noteq> {}" using x0 y0 by blast
  show ?thesis
  proof (cases "ivl_is_zero (\<sigma> i)")
    case True
    let ?c = "\<lparr>m_lower = mpq_reset (m_lower (\<sigma> r)), m_upper = mpq_reset (m_upper (\<sigma> r)),
        m_lower_open = False, m_upper_open = False, m_lower_inf = False, m_upper_inf = False\<rparr>"
    have H: "lower_holds ?c z \<longleftrightarrow> 0 \<le> z" "upper_holds ?c z \<longleftrightarrow> z \<le> 0" for z
      by (simp_all add: lower_holds_def upper_holds_def)
    have "members ?c = {0}" unfolding members_def H by (auto intro: antisym)
    moreover have "?S = {0}" unfolding ivl_zero_members(1) [OF wf(1) True] using y0 by force
    ultimately have m: "members ?c = ?S" by (simp only:)
    have "justified (div_jst (\<sigma> i) (\<sigma> j)) (\<sigma> i) x (\<sigma> j) y ?c (x / y)" for x y
    proof (cases "is_P1 (\<sigma> j)")
      case Q: True
      have "lower_holds (\<sigma> j) y \<Longrightarrow> 0 < y"
        using bound_sign_strict(1) Q unfolding class_bounds [OF okj] holds_ext by blast
      then show ?thesis using Q True ivl_zero_members(2,3) [OF wf(1) True, of x]
        by (auto simp: justified_def deps_hold_def div_jst_def H divide_simps)
    next
      case Q: False
      then have "upper_holds (\<sigma> j) y \<Longrightarrow> y < 0"
        using P bound_sign_strict(2) unfolding class_bounds [OF okj] holds_ext by blast
      then show ?thesis using Q True ivl_zero_members(2,3) [OF wf(1) True, of x]
        by (auto simp: justified_def deps_hold_def div_jst_def H divide_simps)
    qed
    moreover have "ivl_ok ?c" by simp
    ultimately show ?thesis using True m ne ivl_wf_iff [of ?c] by (simp add: ivl_div_def writes_def)
  next
    case False
    obtain k where k0: "ivl_ok k"
      "lower_b k = (recip_lower (ext_of (upper_ext (\<sigma> j))), m_upper_open (\<sigma> j))"
      "upper_b k = (recip_upper (ext_of (lower_ext (\<sigma> j))), m_lower_open (\<sigma> j))"
      using ivl_inv_bounds [of \<sigma> j r, OF wf(2) P] unfolding writes_def by (auto elim!: yieldsE simp del: ext_of_bounds ivl_ok_def)
    note k = recip_members(2,1) [OF wf(2) P k0(1) io k0(2,3)] k0(2,3)
    have nz: "\<not> ivl_is_zero k"
    proof
      assume "ivl_is_zero k"
      then have "1 / y0 = 0" using ivl_zero_members(1) [OF k(1)] k(2) y0 by blast
      then show False using z y0 by simp
    qed
    have S: "{x * y |x y. x \<in> members (\<sigma> i) \<and> y \<in> members k} = ?S"
      unfolding k(2) set_eq_iff mem_Collect_eq image_iff Bex_def by (metis times_divide_eq_right mult_1_right)
    obtain l u s t where m: "div_cases i j r \<sigma> = Inr (set_opens r s t \<sigma>, l, u)" "ext_ok l" "ext_ok u"
      and b: "div_bounds (\<sigma> i) (\<sigma> j) = ((ext_of l, s), (ext_of u, t))"
      using div_cases_yields [OF wf io False P, of r] by (auto elim!: yieldsE simp del: ext_of_bounds)
    have kb: "mul_bounds (\<sigma> i) k = ((ext_of l, s), (ext_of u, t))" unfolding k(3,4) by (rule b)
    note PI = product_interval [OF wf(1) k(1) False nz kb m(2,3), unfolded S]
    have "justified (div_jst (\<sigma> i) (\<sigma> j)) (\<sigma> i) x (\<sigma> j) y (ivl_of l u s t) (x / y)" for x y
      using quotient_justified [OF wf io False P b] by (simp add: justified_def PI(3,4))
    moreover have "ivl_wf (ivl_of l u s t)" using PI(1,2) ne ivl_wf_iff by simp
    moreover have "ivl_div i j r \<sigma> = Inr (\<sigma>(r := ivl_of l u s t))"
      using False m(1) by (cases "\<sigma> r") (simp add: ivl_div_def store_bounds_def set_opens_def ivl_of_def)
    ultimately show ?thesis using PI(2) by (simp add: writes_def)
  qed
qed

text \<open>Quotients and reciprocals satisfy the contract for divisors without zero.\<close>

interpretation div_op: interval_operation "\<lambda>i j _ \<sigma>. inf_open (\<sigma> j) \<and> 0 \<notin> members (\<sigma> j)" "(/)" ivl_div div_jst
  by unfold_locales (elim conjE, rule ivl_div_yields)

interpretation inv_op: interval_function "\<lambda>a _ \<sigma>. inf_open (\<sigma> a) \<and> 0 \<notin> members (\<sigma> a)" "\<lambda>x. 1 / x" ivl_inv inv_jst
proof unfold_locales
  fix \<sigma> :: ivl_store and a b
  assume h: "ivl_wf (\<sigma> a)" "inf_open (\<sigma> a) \<and> 0 \<notin> members (\<sigma> a)"
  then show "yields (ivl_inv a b \<sigma>) (writes b \<sigma> (\<lambda>c. ivl_wf c \<and> members c = (\<lambda>x. 1 / x) ` members (\<sigma> a)
      \<and> yields (inv_jst (\<sigma> a)) (\<lambda>d. \<forall>x. justified d (\<sigma> a) x (\<sigma> a) x c (1 / x))))"
    using ivl_inv_yields [of \<sigma> a b] by (auto simp: yields_def writes_def)
qed

end
