(* ===== verification/Interval_Power.thy ===== *)
theory Interval_Power
  imports Interval_Mul
begin

text \<open>
  Powers of intervals with a machine integer exponent (\<open>math/interval/interval_def.h\<close>: \<open>power\<close>,
  \<open>power_jst\<close>). The bounds are compared through the root function of the reals.
\<close>

section \<open>Powers\<close>

definition power_jst :: "interval \<Rightarrow> digit \<Rightarrow> interval_deps_combine_rule" where
  "power_jst a n =
     (if n = 1 then \<lparr>m_lower_combine = DEP_IN_LOWER1, m_upper_combine = DEP_IN_UPPER1\<rparr>
      else if n mod 2 = 0 then
        if lower_is_pos a then
          \<lparr>m_lower_combine = DEP_IN_LOWER1,
           m_upper_combine = if m_upper_inf a then 0 else DEP_IN_LOWER1 OR DEP_IN_UPPER1\<rparr>
        else if upper_is_neg a then
          \<lparr>m_lower_combine = DEP_IN_UPPER1,
           m_upper_combine = if m_lower_inf a then 0 else DEP_IN_LOWER1 OR DEP_IN_UPPER1\<rparr>
        else \<lparr>m_lower_combine = 0, m_upper_combine = DEP_IN_LOWER1 OR DEP_IN_UPPER1\<rparr>
      else
        \<lparr>m_lower_combine = if m_lower_inf a then 0 else DEP_IN_LOWER1,
         m_upper_combine = if m_upper_inf a then 0 else DEP_IN_UPPER1\<rparr>)"

definition ivl_power :: "nat \<Rightarrow> digit \<Rightarrow> nat \<Rightarrow> ivl_store \<Rightarrow> ivl_store res" where
  "ivl_power a n b \<sigma> =
     (if n = 1 then Inr (ivl_set b a \<sigma>)
      else if n mod 2 = 0 then
        if lower_is_pos (\<sigma> a) then
          bind_res (mpq_power (m_lower (\<sigma> a)) n) (\<lambda>l.
          let \<sigma> = \<sigma>(b := (\<sigma> b)\<lparr>m_lower := l, m_lower_inf := False\<rparr>);
              \<sigma> = \<sigma>(b := (\<sigma> b)\<lparr>m_lower_open := m_lower_open (\<sigma> a)\<rparr>)
          in if m_upper_inf (\<sigma> a) then Inr (\<sigma>(b := reset_upper (\<sigma> b)))
             else bind_res (mpq_power (m_upper (\<sigma> a)) n) (\<lambda>u.
               let \<sigma> = \<sigma>(b := (\<sigma> b)\<lparr>m_upper := u, m_upper_inf := False\<rparr>)
               in Inr (\<sigma>(b := (\<sigma> b)\<lparr>m_upper_open := m_upper_open (\<sigma> a)\<rparr>))))
        else if upper_is_neg (\<sigma> a) then
          let lower_a_open = m_lower_open (\<sigma> a); upper_a_open = m_upper_open (\<sigma> a); lower_a_inf = m_lower_inf (\<sigma> a);
              \<sigma> = \<sigma>(b := (\<sigma> b)\<lparr>m_lower := m_lower (\<sigma> a)\<rparr>);
              \<sigma> = \<sigma>(b := (\<sigma> b)\<lparr>m_upper := m_upper (\<sigma> a)\<rparr>);
              \<sigma> = \<sigma>(b := (\<sigma> b)\<lparr>m_lower := m_upper (\<sigma> b), m_upper := m_lower (\<sigma> b)\<rparr>)
          in bind_res (mpq_power (m_lower (\<sigma> b)) n) (\<lambda>l.
             let \<sigma> = \<sigma>(b := (\<sigma> b)\<lparr>m_lower := l, m_lower_open := upper_a_open, m_lower_inf := False\<rparr>)
             in if lower_a_inf then Inr (\<sigma>(b := reset_upper (\<sigma> b)))
                else bind_res (mpq_power (m_upper (\<sigma> b)) n) (\<lambda>u.
                  Inr (\<sigma>(b := (\<sigma> b)\<lparr>m_upper := u, m_upper_inf := False, m_upper_open := lower_a_open\<rparr>))))
        else
          bind_res (ext_power (lower_ext (\<sigma> a)) n) (\<lambda>un1. bind_res (ext_power (upper_ext (\<sigma> a)) n) (\<lambda>un2.
          let \<sigma> = (if ext_gt un1 un2 \<or> (ext_eq un1 un2 \<and> \<not> m_lower_open (\<sigma> a) \<and> m_upper_open (\<sigma> a))
                   then
                     let \<sigma> = \<sigma>(b := (\<sigma> b)\<lparr>m_upper := fst un1, m_upper_inf := snd un1 = EN_PLUS_INFINITY\<rparr>)
                     in \<sigma>(b := (\<sigma> b)\<lparr>m_upper_open := m_lower_open (\<sigma> a)\<rparr>)
                   else
                     let \<sigma> = \<sigma>(b := (\<sigma> b)\<lparr>m_upper := fst un2, m_upper_inf := snd un2 = EN_PLUS_INFINITY\<rparr>)
                     in \<sigma>(b := (\<sigma> b)\<lparr>m_upper_open := m_upper_open (\<sigma> a)\<rparr>))
          in Inr (\<sigma>(b := (\<sigma> b)\<lparr>m_lower := mpq_reset (m_lower (\<sigma> b)), m_lower_inf := False, m_lower_open := False\<rparr>))))
      else
        bind_res (if m_lower_inf (\<sigma> a) then Inr (\<sigma>(b := reset_lower (\<sigma> b)))
                  else bind_res (mpq_power (m_lower (\<sigma> a)) n) (\<lambda>l.
                    let \<sigma> = \<sigma>(b := (\<sigma> b)\<lparr>m_lower := l, m_lower_inf := False\<rparr>)
                    in Inr (\<sigma>(b := (\<sigma> b)\<lparr>m_lower_open := m_lower_open (\<sigma> a)\<rparr>)))) (\<lambda>\<sigma>.
        if m_upper_inf (\<sigma> a) then Inr (\<sigma>(b := reset_upper (\<sigma> b)))
        else bind_res (mpq_power (m_upper (\<sigma> a)) n) (\<lambda>u.
          let \<sigma> = \<sigma>(b := (\<sigma> b)\<lparr>m_upper := u, m_upper_inf := False\<rparr>)
          in Inr (\<sigma>(b := (\<sigma> b)\<lparr>m_upper_open := m_upper_open (\<sigma> a)\<rparr>)))))"

definition ivl_power_deps :: "nat \<Rightarrow> digit \<Rightarrow> nat \<Rightarrow> ivl_store \<Rightarrow> (interval_deps_combine_rule \<times> ivl_store) res" where
  "ivl_power_deps a n b \<sigma> = bind_res (ivl_power a n b \<sigma>) (\<lambda>\<tau>. Inr (power_jst (\<sigma> a) n, \<tau>))"

section \<open>Correctness\<close>

text \<open>The order of powers in terms of roots: everywhere for odd exponents, on one side of zero for even ones.\<close>

lemma power_root_order:
  fixes v z :: real
  assumes n: "0 < n" and v: "odd n \<or> 0 \<le> v"
  shows "v ^ n \<le> z \<longleftrightarrow> v \<le> root n z" "v ^ n < z \<longleftrightarrow> v < root n z" "z \<le> v ^ n \<longleftrightarrow> root n z \<le> v" "z < v ^ n \<longleftrightarrow> root n z < v"
proof -
  have r: "root n (v ^ n) = v" using v n by (auto simp: odd_real_root_power_cancel real_root_power_cancel)
  show "v ^ n \<le> z \<longleftrightarrow> v \<le> root n z" "v ^ n < z \<longleftrightarrow> v < root n z" "z \<le> v ^ n \<longleftrightarrow> root n z \<le> v" "z < v ^ n \<longleftrightarrow> root n z < v"
    using real_root_le_iff [OF n, of "v ^ n" z] real_root_less_iff [OF n, of "v ^ n" z]
      real_root_le_iff [OF n, of z "v ^ n"] real_root_less_iff [OF n, of z "v ^ n"] unfolding r by simp_all
qed

lemma power_root_order_neg:
  fixes v z :: real
  assumes n: "0 < n" "even n" and v: "v \<le> 0"
  shows "v ^ n \<le> z \<longleftrightarrow> - root n z \<le> v" "v ^ n < z \<longleftrightarrow> - root n z < v" "z \<le> v ^ n \<longleftrightarrow> v \<le> - root n z" "z < v ^ n \<longleftrightarrow> v < - root n z"
  using power_root_order [of n "- v" z] n v by auto

lemma root_power:
  fixes z :: real
  assumes "0 < n" "odd n \<or> 0 \<le> z"
  shows "root n z ^ n = z"
  using assms by (auto simp: odd_real_root_pow)

text \<open>An interval whose bounds are those of another one seen through the root contains the powers.\<close>

lemma power_image:
  assumes n: "0 < n" and S: "\<And>z. z \<in> members c \<Longrightarrow> (odd n \<or> 0 \<le> z) \<and> (root n z \<in> S \<or> (even n \<and> - root n z \<in> S))"
    and T: "\<And>x. x \<in> S \<Longrightarrow> x ^ n \<in> members c"
  shows "members c = (\<lambda>x. x ^ n) ` S"
proof (intro equalityI subsetI)
  fix z assume "z \<in> members c"
  note h = S [OF this]
  then have "root n z ^ n = z" using n root_power by blast
  then have "(- root n z) ^ n = z" if "even n" using that by (simp add: power_minus_even)
  with h \<open>root n z ^ n = z\<close> show "z \<in> (\<lambda>x. x ^ n) ` S" by (metis image_eqI)
qed (use T in blast)

lemma odd_power_members:
  assumes n: "0 < n" "odd n" and b: "\<And>z. lower_holds c z \<longleftrightarrow> lower_holds a (root n z)" "\<And>z. upper_holds c z \<longleftrightarrow> upper_holds a (root n z)"
  shows "members c = (\<lambda>x. x ^ n) ` members a"
  using n by (intro power_image) (auto simp: members_def b odd_real_root_power_cancel)

lemma mpq_power_obtain:
  assumes "mpq_ok q" "unat n < 2 ^ 31"
  obtains p where "mpq_power q n = Inr p" "mpq_ok p" "rv p = rv q ^ unat n"
  using mpq_power_yields [OF assms] by (auto simp: of_rat_power elim!: yieldsE)

lemma ivl_power_odd:
  assumes ok: "ivl_ok (\<sigma> a)" "ivl_ok (\<sigma> b)" and n: "odd (unat n)" "n \<noteq> 1" "unat n < 2 ^ 31"
  shows "yields (ivl_power a n b \<sigma>) (writes b \<sigma> (\<lambda>c. ivl_ok c
    \<and> (\<forall>z. lower_holds c z \<longleftrightarrow> lower_holds (\<sigma> a) (root (unat n) z)) \<and> (\<forall>z. upper_holds c z \<longleftrightarrow> upper_holds (\<sigma> a) (root (unat n) z))))"
proof -
  have n0: "0 < unat n" using n(1) by (rule odd_pos)
  note R = power_root_order [OF n0 disjI1, OF n(1)]
  obtain l where l: "mpq_power (m_lower (\<sigma> a)) n = Inr l" "mpq_ok l" "rv l = rv (m_lower (\<sigma> a)) ^ unat n"
    using mpq_power_obtain [of "m_lower (\<sigma> a)" n] ok n(3) by auto
  obtain u where u: "mpq_power (m_upper (\<sigma> a)) n = Inr u" "mpq_ok u" "rv u = rv (m_upper (\<sigma> a)) ^ unat n"
    using mpq_power_obtain [of "m_upper (\<sigma> a)" n] ok n(3) by auto
  show ?thesis
    using ok n l u
    by (cases "a = b"; cases "m_lower_inf (\<sigma> a)"; cases "m_upper_inf (\<sigma> a)")
      (auto simp: ivl_power_def digit_even Let_def writes_def lower_holds_def upper_holds_def reset_lower_def reset_upper_def R)
qed

lemma ivl_power_even_pos:
  assumes ok: "ivl_ok (\<sigma> a)" "ivl_ok (\<sigma> b)" and n: "even (unat n)" "0 < unat n" "unat n < 2 ^ 31" and p: "lower_is_pos (\<sigma> a)" and ne: "members (\<sigma> a) \<noteq> {}"
  shows "yields (ivl_power a n b \<sigma>) (writes b \<sigma> (\<lambda>c. ivl_ok c
    \<and> (\<forall>z. lower_holds c z \<longleftrightarrow> lower_holds (\<sigma> a) (root (unat n) z)) \<and> (\<forall>z. upper_holds c z \<longleftrightarrow> upper_holds (\<sigma> a) (root (unat n) z))))"
proof -
  have n1: "n \<noteq> 1" using n(1) by auto
  obtain l where l: "mpq_power (m_lower (\<sigma> a)) n = Inr l" "mpq_ok l" "rv l = rv (m_lower (\<sigma> a)) ^ unat n"
    using mpq_power_obtain [of "m_lower (\<sigma> a)" n] ok n(3) by auto
  obtain u where u: "mpq_power (m_upper (\<sigma> a)) n = Inr u" "mpq_ok u" "rv u = rv (m_upper (\<sigma> a)) ^ unat n"
    using mpq_power_obtain [of "m_upper (\<sigma> a)" n] ok n(3) by auto
  have pos: "\<not> m_lower_inf (\<sigma> a)" "0 \<le> rv (m_lower (\<sigma> a))" using p unfolding bound_signs [OF ok(1)] by simp_all
  have "0 \<le> rv (m_upper (\<sigma> a))" if "\<not> m_upper_inf (\<sigma> a)"
  proof -
    obtain x where "x \<in> members (\<sigma> a)" using ne by blast
    then have "rv (m_lower (\<sigma> a)) \<le> x" "x \<le> rv (m_upper (\<sigma> a))"
      using pos(1) that by (auto simp: members_def lower_holds_def upper_holds_def split: if_splits)
    then show ?thesis using pos(2) by linarith
  qed
  note R = this power_root_order [OF n(2)]
  show ?thesis
    using ok n n1 l u p pos R(1)
    by (cases "a = b"; cases "m_upper_inf (\<sigma> a)")
      (auto simp: ivl_power_def digit_even Let_def writes_def lower_holds_def upper_holds_def reset_upper_def lower_is_pos_def R(2-5))
qed

lemma ivl_power_even_neg:
  assumes ok: "ivl_ok (\<sigma> a)" "ivl_ok (\<sigma> b)" and n: "even (unat n)" "0 < unat n" "unat n < 2 ^ 31" and p: "upper_is_neg (\<sigma> a)" and ne: "members (\<sigma> a) \<noteq> {}"
  shows "yields (ivl_power a n b \<sigma>) (writes b \<sigma> (\<lambda>c. ivl_ok c
    \<and> (\<forall>z. lower_holds c z \<longleftrightarrow> upper_holds (\<sigma> a) (- root (unat n) z)) \<and> (\<forall>z. upper_holds c z \<longleftrightarrow> lower_holds (\<sigma> a) (- root (unat n) z))))"
proof -
  have n1: "n \<noteq> 1" using n(1) by auto
  obtain l where l: "mpq_power (m_lower (\<sigma> a)) n = Inr l" "mpq_ok l" "rv l = rv (m_lower (\<sigma> a)) ^ unat n"
    using mpq_power_obtain [of "m_lower (\<sigma> a)" n] ok n(3) by auto
  obtain u where u: "mpq_power (m_upper (\<sigma> a)) n = Inr u" "mpq_ok u" "rv u = rv (m_upper (\<sigma> a)) ^ unat n"
    using mpq_power_obtain [of "m_upper (\<sigma> a)" n] ok n(3) by auto
  have neg: "\<not> m_upper_inf (\<sigma> a)" "rv (m_upper (\<sigma> a)) \<le> 0" using p unfolding bound_signs [OF ok(1)] by simp_all
  obtain x where x: "x \<in> members (\<sigma> a)" using ne by blast
  have "rv (m_lower (\<sigma> a)) \<le> 0 \<and> rv (m_lower (\<sigma> a)) \<le> rv (m_upper (\<sigma> a))" if "\<not> m_lower_inf (\<sigma> a)"
  proof -
    have "rv (m_lower (\<sigma> a)) \<le> x" "x \<le> rv (m_upper (\<sigma> a))"
      using x neg(1) that by (auto simp: members_def lower_holds_def upper_holds_def split: if_splits)
    then show ?thesis using neg(2) by linarith
  qed
  then have "rv (m_lower (\<sigma> a)) \<le> 0" if "\<not> m_lower_inf (\<sigma> a)" using that by blast
  note R = this power_root_order_neg [OF n(2,1)]
  have np: "\<not> lower_is_pos (\<sigma> a)"
    using \<open>\<not> m_lower_inf (\<sigma> a) \<Longrightarrow> rv (m_lower (\<sigma> a)) \<le> 0\<close> unfolding bound_signs [OF ok(1)] by fastforce
  show ?thesis
    using ok n n1 l u p np neg R(1)
    by (cases "a = b"; cases "m_lower_inf (\<sigma> a)")
      (auto simp: ivl_power_def digit_even Let_def writes_def lower_holds_def upper_holds_def reset_upper_def R(2-5))
qed

text \<open>On an interval around zero the lower bound is zero and the upper bound the larger one of the powers.\<close>

lemma ivl_power_even_mixed:
  assumes ok: "ivl_ok (\<sigma> a)" "ivl_ok (\<sigma> b)" and n: "even (unat n)" "0 < unat n" "unat n < 2 ^ 31" and p: "\<not> lower_is_pos (\<sigma> a)" "\<not> upper_is_neg (\<sigma> a)"
  shows "yields (ivl_power a n b \<sigma>) (writes b \<sigma> (\<lambda>c. ivl_ok c \<and> (\<forall>z. lower_holds c z \<longleftrightarrow> 0 \<le> z)
    \<and> (\<forall>z \<ge> 0. upper_holds c z \<longleftrightarrow> lower_holds (\<sigma> a) (- root (unat n) z) \<or> upper_holds (\<sigma> a) (root (unat n) z))))"
proof -
  have n1: "n \<noteq> 1" using n(1) by auto
  obtain l where l: "ext_power (lower_ext (\<sigma> a)) n = Inr l" "ext_ok l" "ext_of l = power_ext (ext_of (lower_ext (\<sigma> a))) (unat n)"
    using ext_power_yields [of "lower_ext (\<sigma> a)" n] ok n(3) by (auto elim!: yieldsE)
  obtain u where u: "ext_power (upper_ext (\<sigma> a)) n = Inr u" "ext_ok u" "ext_of u = power_ext (ext_of (upper_ext (\<sigma> a))) (unat n)"
    using ext_power_yields [of "upper_ext (\<sigma> a)" n] ok n(3) by (auto elim!: yieldsE)
  let ?s = "m_lower_open (\<sigma> a)" and ?t = "m_upper_open (\<sigma> a)"
  let ?c = "\<lambda>w s. \<lparr>m_lower = mpq_reset (m_lower (\<sigma> b)), m_upper = fst w, m_lower_open = False, m_upper_open = s, m_lower_inf = False, m_upper_inf = snd w = EN_PLUS_INFINITY\<rparr>"
  let ?r = "if ext_of u < ext_of l \<or> (ext_of l = ext_of u \<and> \<not> ?s \<and> ?t) then ?c l ?s else ?c u ?t"
  have fin: "ext_of l \<noteq> MInf" "ext_of u \<noteq> MInf"
    using n(1) unfolding l(3) u(3) by (cases "ext_of (lower_ext (\<sigma> a))"; cases "ext_of (upper_ext (\<sigma> a))"; simp add: infinity_def del: ext_of_bounds)+
  have sem: "ivl_ok (?c w s)" "upper_holds (?c w s) z \<longleftrightarrow> below (ext_of w) s z" "lower_holds (?c w s) z \<longleftrightarrow> 0 \<le> z" if "ext_ok w" "ext_of w \<noteq> MInf" for w s z
    using that by (cases w; cases "snd w"; simp add: upper_holds_def lower_holds_def)+
  have sgn: "\<not> m_lower_inf (\<sigma> a) \<Longrightarrow> rv (m_lower (\<sigma> a)) \<le> 0" "\<not> m_upper_inf (\<sigma> a) \<Longrightarrow> 0 \<le> rv (m_upper (\<sigma> a))"
    using p unfolding bound_signs [OF ok(1)] by simp_all
  have bl: "below (ext_of l) ?s z \<longleftrightarrow> lower_holds (\<sigma> a) (- root (unat n) z)" for z
    using n power_root_order_neg [OF n(2,1) sgn(1), of z] unfolding l(3) by (cases "m_lower_inf (\<sigma> a)") (auto simp: lower_holds_def infinity_def of_rat_power)
  have bu: "below (ext_of u) ?t z \<longleftrightarrow> upper_holds (\<sigma> a) (root (unat n) z)" for z
    using n power_root_order [OF n(2) disjI2, OF sgn(2), of z] unfolding u(3) by (cases "m_upper_inf (\<sigma> a)") (auto simp: upper_holds_def infinity_def of_rat_power)
  have mx: "upper_holds ?r z \<longleftrightarrow> below (ext_of l) ?s z \<or> below (ext_of u) ?t z" for z
    using below_choice [of "ext_of l" ?s z "ext_of u" ?t] sem(2) [OF l(2) fin(1)] sem(2) [OF u(2) fin(2)] by (auto split: if_splits)
  have "ivl_power a n b \<sigma> = Inr (\<sigma>(b := ?r))"
    using n(1) n1 p l(1) u(1) ext_compare [OF l(2) u(2)] by (cases "\<sigma> b"; cases "a = b") (simp_all add: ivl_power_def digit_even Let_def)
  moreover have "ivl_ok ?r" "lower_holds ?r z \<longleftrightarrow> 0 \<le> z" for z using sem(1,3) [OF l(2) fin(1)] sem(1,3) [OF u(2) fin(2)] by simp_all
  ultimately show ?thesis using mx by (simp add: writes_def bl bu del: ivl_ok_def)
qed

lemma root_of_power:
  fixes x :: real
  assumes "0 < n" "even n"
  shows "0 \<le> x \<Longrightarrow> root n (x ^ n) = x" "x \<le> 0 \<Longrightarrow> root n (x ^ n) = - x"
proof -
  show "0 \<le> x \<Longrightarrow> root n (x ^ n) = x" using assms by (simp add: real_root_power_cancel)
  show "x \<le> 0 \<Longrightarrow> root n (x ^ n) = - x"
    using assms real_root_power_cancel [of n "- x"] by (simp add: power_minus_even)
qed

lemma dep_none [simp]: "\<not> dep_in_lower1 0" "\<not> dep_in_upper1 0" "\<not> dep_in_lower2 0" "\<not> dep_in_upper2 0"
  by (simp_all add: dep_in_lower1_def dep_in_upper1_def dep_in_lower2_def dep_in_upper2_def)

text \<open>From the bounds to the members and the dependencies, case by case.\<close>

lemma inf_holds: "m_lower_inf a \<Longrightarrow> lower_holds a z" "m_upper_inf a \<Longrightarrow> upper_holds a z"
  by (simp_all add: lower_holds_def upper_holds_def)

lemma sign_holds:
  assumes "ivl_ok a"
  shows "lower_is_pos a \<Longrightarrow> lower_holds a z \<Longrightarrow> 0 < z" "upper_is_neg a \<Longrightarrow> upper_holds a z \<Longrightarrow> z < 0"
    "\<not> lower_is_pos a \<Longrightarrow> 0 < z \<Longrightarrow> lower_holds a z" "\<not> upper_is_neg a \<Longrightarrow> z < 0 \<Longrightarrow> upper_holds a z"
  unfolding bound_signs [OF assms] lower_holds_def upper_holds_def
  by (auto split: if_splits simp del: zero_less_of_rat_iff of_rat_less_0_iff)

lemma power_odd_result:
  assumes n: "odd (unat n)" "n \<noteq> 1" and c: "\<And>z. lower_holds c z \<longleftrightarrow> lower_holds a (root (unat n) z)" "\<And>z. upper_holds c z \<longleftrightarrow> upper_holds a (root (unat n) z)"
  shows "members c = (\<lambda>x. x ^ unat n) ` members a" "justified (power_jst a n) a x a x c (x ^ unat n)"
proof -
  show "members c = (\<lambda>x. x ^ unat n) ` members a" using odd_power_members [OF odd_pos [OF n(1)] n(1) c] .
  have "root (unat n) (x ^ unat n) = x" for x using n(1) by (simp add: odd_real_root_power_cancel)
  then show "justified (power_jst a n) a x a x c (x ^ unat n)"
    using n inf_holds by (simp add: justified_def deps_hold_def power_jst_def digit_even c)
qed

lemma power_pos_result:
  assumes ok: "ivl_ok a" and n: "0 < unat n" "even (unat n)" and p: "lower_is_pos a"
    and c: "\<And>z. lower_holds c z \<longleftrightarrow> lower_holds a (root (unat n) z)" "\<And>z. upper_holds c z \<longleftrightarrow> upper_holds a (root (unat n) z)"
  shows "members c = (\<lambda>x. x ^ unat n) ` members a" "justified (power_jst a n) a x a x c (x ^ unat n)"
proof -
  have r: "root (unat n) (x ^ unat n) = x" if "lower_holds a x" for x using sign_holds(1) [OF ok p that] root_of_power(1) [OF n] by simp
  have pz: "0 \<le> z" if "lower_holds a (root (unat n) z)" for z using sign_holds(1) [OF ok p that] n(1) by (simp add: real_root_gt_0_iff)
  have "n \<noteq> 1" using n(2) by auto
  then show "justified (power_jst a n) a x a x c (x ^ unat n)"
    using n p r inf_holds by (auto simp: justified_def deps_hold_def power_jst_def digit_even c)
  show "members c = (\<lambda>x. x ^ unat n) ` members a"
  proof (rule power_image [OF n(1)])
    show "z \<in> members c \<Longrightarrow> (odd (unat n) \<or> 0 \<le> z) \<and> (root (unat n) z \<in> members a \<or> even (unat n) \<and> - root (unat n) z \<in> members a)" for z
      using pz by (simp add: members_def c)
    show "x \<in> members a \<Longrightarrow> x ^ unat n \<in> members c" for x using r by (simp add: members_def c)
  qed
qed

lemma power_neg_result:
  assumes ok: "ivl_ok a" and n: "0 < unat n" "even (unat n)" and p: "\<not> lower_is_pos a" "upper_is_neg a"
    and c: "\<And>z. lower_holds c z \<longleftrightarrow> upper_holds a (- root (unat n) z)" "\<And>z. upper_holds c z \<longleftrightarrow> lower_holds a (- root (unat n) z)"
  shows "members c = (\<lambda>x. x ^ unat n) ` members a" "justified (power_jst a n) a x a x c (x ^ unat n)"
proof -
  have r: "- root (unat n) (x ^ unat n) = x" if "upper_holds a x" for x using sign_holds(2) [OF ok p(2) that] root_of_power(2) [OF n] by simp
  have pz: "0 \<le> z" if "upper_holds a (- root (unat n) z)" for z using sign_holds(2) [OF ok p(2) that] n(1) by (simp add: real_root_gt_0_iff)
  have "n \<noteq> 1" using n(2) by auto
  then show "justified (power_jst a n) a x a x c (x ^ unat n)"
    using n p r inf_holds by (auto simp: justified_def deps_hold_def power_jst_def digit_even c)
  show "members c = (\<lambda>x. x ^ unat n) ` members a"
  proof (rule power_image [OF n(1)])
    show "z \<in> members c \<Longrightarrow> (odd (unat n) \<or> 0 \<le> z) \<and> (root (unat n) z \<in> members a \<or> even (unat n) \<and> - root (unat n) z \<in> members a)" for z
      using pz n(2) by (simp add: members_def c)
    show "x \<in> members a \<Longrightarrow> x ^ unat n \<in> members c" for x using r by (simp add: members_def c)
  qed
qed

lemma power_mixed_result:
  assumes wf: "ivl_wf a" and n: "0 < unat n" "even (unat n)" and p: "\<not> lower_is_pos a" "\<not> upper_is_neg a"
    and c: "\<And>z. lower_holds c z \<longleftrightarrow> 0 \<le> z" "\<And>z. 0 \<le> z \<Longrightarrow> upper_holds c z \<longleftrightarrow> lower_holds a (- root (unat n) z) \<or> upper_holds a (root (unat n) z)"
  shows "members c = insert 0 ((\<lambda>x. x ^ unat n) ` members a)" "justified (power_jst a n) a x a x c (x ^ unat n)"
proof -
  let ?n = "unat n"
  have ok: "ivl_ok a" and ne: "members a \<noteq> {}" using wf unfolding ivl_wf_iff by blast+
  have z0: "0 \<le> x ^ ?n" for x :: real using n(2) by (simp add: zero_le_even_power)
  have up: "upper_holds c (x ^ ?n)" if "lower_holds a x" "upper_holds a x" for x
    using that root_of_power [OF n, of x] z0 [of x] c(2) [of "x ^ ?n"] by (cases "0 \<le> x") auto
  have img: "x ^ ?n \<in> members c" if "x \<in> members a" for x using up that z0 c(1) by (simp add: members_def)
  have zin: "0 \<in> members c"
  proof -
    obtain x where "x \<in> members a" using ne by blast
    then have "upper_holds c (x ^ ?n)" using img by (simp add: members_def)
    then show ?thesis using z0 [of x] c(1)
      by (auto simp: members_def upper_holds_def split: if_splits simp del: zero_less_of_rat_iff zero_le_of_rat_iff)
  qed
  have pre: "z \<in> (\<lambda>x. x ^ ?n) ` members a" if "z \<in> members c" "z \<noteq> 0" for z
  proof -
    have z: "0 < z" "upper_holds c z" using that c(1) by (auto simp: members_def)
    then have "0 < root ?n z" using n(1) by (simp add: real_root_gt_0_iff)
    then have "root ?n z \<in> members a \<or> - root ?n z \<in> members a"
      using z c(2) [of z] sign_holds(3) [OF ok p(1), of "root ?n z"] sign_holds(4) [OF ok p(2), of "- root ?n z"] by (auto simp: members_def)
    moreover have "root ?n z ^ ?n = z" "(- root ?n z) ^ ?n = z"
      using root_power [OF n(1), of z] z(1) n(2) by (auto simp: power_minus_even)
    ultimately show ?thesis by (metis image_eqI)
  qed
  show "members c = insert 0 ((\<lambda>x. x ^ ?n) ` members a)" using img zin pre by blast
  have "n \<noteq> 1" using n(2) by auto
  then show "justified (power_jst a n) a x a x c (x ^ ?n)"
    using n p up z0 [of x] by (auto simp: justified_def deps_hold_def power_jst_def digit_even c(1))
qed

text \<open>\<open>power\<close> on a valid interval returns the interval of the powers. For an even exponent and an interval
  that ends in an open bound at zero it adds zero.\<close>

lemma ivl_power_yields:
  assumes wf: "ivl_wf (\<sigma> a)" and b: "ivl_ok (\<sigma> b)" and n: "0 < unat n" "unat n < 2 ^ 31"
  shows "yields (ivl_power a n b \<sigma>) (writes b \<sigma> (\<lambda>c. ivl_wf c
    \<and> (members c = (\<lambda>x. x ^ unat n) ` members (\<sigma> a)
       \<or> (even (unat n) \<and> 0 \<notin> members (\<sigma> a) \<and> members c = insert 0 ((\<lambda>x. x ^ unat n) ` members (\<sigma> a))))
    \<and> (\<forall>x. justified (power_jst (\<sigma> a) n) (\<sigma> a) x (\<sigma> a) x c (x ^ unat n))))"
    (is "yields _ (writes b \<sigma> ?Q)")
proof -
  let ?n = "unat n" and ?a = "\<sigma> a"
  have ok: "ivl_ok ?a" and ne: "members ?a \<noteq> {}" using wf unfolding ivl_wf_iff by blast+
  have Q: "?Q c" if "ivl_ok c" "members c = (\<lambda>x. x ^ ?n) ` members ?a"
    "\<And>x. justified (power_jst ?a n) ?a x ?a x c (x ^ ?n)" for c
    using that ne by (simp add: ivl_wf_iff)
  note upw = yields_mono [OF _ writes_mono]
  consider (one) "n = 1" | (o) "n \<noteq> 1" "odd ?n" | (p) "even ?n" "lower_is_pos ?a"
    | (u) "even ?n" "\<not> lower_is_pos ?a" "upper_is_neg ?a" | (m) "even ?n" "\<not> lower_is_pos ?a" "\<not> upper_is_neg ?a" by blast
  then show ?thesis
  proof cases
    case one
    have "writes b \<sigma> ?Q (ivl_set b a \<sigma>)"
      by (rule writes_mono [OF ivl_set_copy [OF ok b]], rule Q)
        (use one in \<open>auto simp: members_def justified_def deps_hold_def power_jst_def\<close>)
    then show ?thesis using one by (simp add: ivl_power_def)
  next
    case o
    show ?thesis
    proof (rule upw [OF ivl_power_odd [OF ok b o(2,1) n(2)]])
      fix c assume "ivl_ok c \<and> (\<forall>z. lower_holds c z \<longleftrightarrow> lower_holds ?a (root ?n z)) \<and> (\<forall>z. upper_holds c z \<longleftrightarrow> upper_holds ?a (root ?n z))"
      then have h: "ivl_ok c" "\<And>z. lower_holds c z \<longleftrightarrow> lower_holds ?a (root ?n z)" "\<And>z. upper_holds c z \<longleftrightarrow> upper_holds ?a (root ?n z)" by blast+
      show "?Q c" by (rule Q [OF h(1) power_odd_result(1) [OF o(2,1) h(2,3)] power_odd_result(2) [OF o(2,1) h(2,3)]])
    qed
  next
    case p
    show ?thesis
    proof (rule upw [OF ivl_power_even_pos [OF ok b p(1) n p(2) ne]])
      fix c assume "ivl_ok c \<and> (\<forall>z. lower_holds c z \<longleftrightarrow> lower_holds ?a (root ?n z)) \<and> (\<forall>z. upper_holds c z \<longleftrightarrow> upper_holds ?a (root ?n z))"
      then have h: "ivl_ok c" "\<And>z. lower_holds c z \<longleftrightarrow> lower_holds ?a (root ?n z)" "\<And>z. upper_holds c z \<longleftrightarrow> upper_holds ?a (root ?n z)" by blast+
      show "?Q c" by (rule Q [OF h(1) power_pos_result(1) [OF ok n(1) p h(2,3)] power_pos_result(2) [OF ok n(1) p h(2,3)]])
    qed
  next
    case u
    show ?thesis
    proof (rule upw [OF ivl_power_even_neg [OF ok b u(1) n u(3) ne]])
      fix c assume "ivl_ok c \<and> (\<forall>z. lower_holds c z \<longleftrightarrow> upper_holds ?a (- root ?n z)) \<and> (\<forall>z. upper_holds c z \<longleftrightarrow> lower_holds ?a (- root ?n z))"
      then have h: "ivl_ok c" "\<And>z. lower_holds c z \<longleftrightarrow> upper_holds ?a (- root ?n z)" "\<And>z. upper_holds c z \<longleftrightarrow> lower_holds ?a (- root ?n z)" by blast+
      show "?Q c" by (rule Q [OF h(1) power_neg_result(1) [OF ok n(1) u h(2,3)] power_neg_result(2) [OF ok n(1) u h(2,3)]])
    qed
  next
    case m
    show ?thesis
    proof (rule upw [OF ivl_power_even_mixed [OF ok b m(1) n m(2,3)]])
      fix c assume c: "ivl_ok c \<and> (\<forall>z. lower_holds c z \<longleftrightarrow> 0 \<le> z)
        \<and> (\<forall>z \<ge> 0. upper_holds c z \<longleftrightarrow> lower_holds ?a (- root ?n z) \<or> upper_holds ?a (root ?n z))"
      note R = power_mixed_result [OF wf n(1) m(1) m(2,3), of c]
      have "0 \<in> members ?a \<Longrightarrow> 0 \<in> (\<lambda>x. x ^ ?n) ` members ?a" using n(1) by (simp add: image_iff)
      then show "?Q c" using R c m(1) unfolding ivl_wf_iff by (auto simp: insert_absorb)
    qed
  qed
qed

end
