(* ===== verification/Rlimit.thy ===== *)
theory Rlimit
  imports Numeral_Prelude
begin

text \<open>
  The resource limit (\<open>util/rlimit.h\<close>, \<open>util/rlimit.cpp\<close>): a counter of steps with nested limits and a
  flag by which other threads cancel the computation, and the check of it in the loops of the interval
  arithmetic (\<open>interval_def.h\<close>: \<open>checkpoint\<close>). The children, to which a cancellation is forwarded, and
  the mutex are not modelled.
\<close>

section \<open>The limit\<close>

record reslimit =
  m_cancel :: "32 word"
  m_suspend :: bool
  m_count :: "64 word"
  m_limit :: "64 word"
  m_limits :: "64 word list"

definition max_limit :: "64 word" where "max_limit = - 1"

definition new_reslimit :: reslimit where
  "new_reslimit = \<lparr>m_cancel = 0, m_suspend = False, m_count = 0, m_limit = max_limit, m_limits = []\<rparr>"

definition not_canceled :: "reslimit \<Rightarrow> bool" where
  "not_canceled r \<longleftrightarrow> (m_cancel r = 0 \<and> m_count r \<le> m_limit r) \<or> m_suspend r"

definition is_canceled :: "reslimit \<Rightarrow> bool" where
  "is_canceled r \<longleftrightarrow> \<not> not_canceled r"

text \<open>\<open>inc\<close> returns whether the computation may go on.\<close>

definition rl_inc :: "reslimit \<Rightarrow> bool \<times> reslimit" where
  "rl_inc r = (let r = r\<lparr>m_count := m_count r + 1\<rparr> in (not_canceled r, r))"

definition rl_inc_by :: "32 word \<Rightarrow> reslimit \<Rightarrow> bool \<times> reslimit" where
  "rl_inc_by offset r = (let r = r\<lparr>m_count := m_count r + ucast offset\<rparr> in (not_canceled r, r))"

definition rl_push :: "32 word \<Rightarrow> reslimit \<Rightarrow> reslimit" where
  "rl_push delta_limit r =
     (let new_limit = (if delta_limit \<noteq> 0 then ucast delta_limit + m_count r else max_limit);
          new_limit = (if new_limit \<le> m_count r then max_limit else new_limit)
      in r\<lparr>m_limits := m_limit r # m_limits r, m_limit := min new_limit (m_limit r), m_cancel := 0\<rparr>)"

text \<open>\<open>pop\<close> reads the back of the vector of limits.\<close>

definition rl_pop :: "reslimit \<Rightarrow> reslimit res" where
  "rl_pop r =
     (let r = (if m_count r > m_limit r then r\<lparr>m_count := m_limit r\<rparr> else r)
      in case m_limits r of
           [] \<Rightarrow> Inl Undefined_behaviour
         | l # ls \<Rightarrow> Inr (r\<lparr>m_limit := l, m_limits := ls, m_cancel := 0\<rparr>))"

definition set_cancel :: "32 word \<Rightarrow> reslimit \<Rightarrow> reslimit" where
  "set_cancel f r = r\<lparr>m_cancel := f\<rparr>"

definition rl_cancel :: "reslimit \<Rightarrow> reslimit" where "rl_cancel r = set_cancel (m_cancel r + 1) r"
definition reset_cancel :: "reslimit \<Rightarrow> reslimit" where "reset_cancel r = set_cancel 0 r"
definition inc_cancel :: "reslimit \<Rightarrow> reslimit" where "inc_cancel r = set_cancel (m_cancel r + 1) r"
definition dec_cancel :: "reslimit \<Rightarrow> reslimit" where
  "dec_cancel r = (if m_cancel r > 0 then set_cancel (m_cancel r - 1) r else r)"

definition canceled_msg :: string where "canceled_msg = ''canceled''"
definition max_resource_msg :: string where "max_resource_msg = ''max. resource limit exceeded''"

definition get_cancel_msg :: "reslimit \<Rightarrow> string" where
  "get_cancel_msg r = (if m_cancel r > 0 then canceled_msg else max_resource_msg)"

text \<open>\<open>checkpoint\<close> throws when the limit is reached. Other threads may use the limit between two
  checkpoints; \<open>env\<close> is what they do to it.\<close>

definition checkpoint :: "(reslimit \<Rightarrow> reslimit) \<Rightarrow> reslimit \<Rightarrow> reslimit res" where
  "checkpoint env r = (case rl_inc (env r) of (ok, r) \<Rightarrow> if ok then Inr r else Inl Canceled)"

section \<open>Scopes\<close>

text \<open>A scope never extends the limit around it, and leaving it restores the limit.\<close>

lemma rl_push_limit: "m_limit (rl_push d r) \<le> m_limit r"
  by (simp add: rl_push_def Let_def)

lemma max_limit_top [simp]: "w \<le> max_limit" "max_limit \<le> w \<longleftrightarrow> w = max_limit" "\<not> max_limit < w"
  by (auto simp: max_limit_def not_less word_order.extremum_unique)

text \<open>What may happen inside a scope: steps, changes of the flag by this or another thread, and scopes that
  are opened and left again, with the same inside them.\<close>

inductive rl_inside :: "reslimit \<Rightarrow> reslimit \<Rightarrow> bool" where
  start: "rl_inside r r"
| inc: "rl_inside r s \<Longrightarrow> rl_inside r (snd (rl_inc s))"
| inc_by: "rl_inside r s \<Longrightarrow> rl_inside r (snd (rl_inc_by n s))"
| cancel: "rl_inside r s \<Longrightarrow> rl_inside r (rl_cancel s)"
| set_cancel: "rl_inside r s \<Longrightarrow> rl_inside r (set_cancel f s)"
| dec_cancel: "rl_inside r s \<Longrightarrow> rl_inside r (dec_cancel s)"
| scope: "rl_inside r s \<Longrightarrow> rl_inside (rl_push d s) t \<Longrightarrow> rl_pop t = Inr u \<Longrightarrow> rl_inside r u"

lemma rl_push_fields [simp]:
  "m_limits (rl_push d r) = m_limit r # m_limits r" "m_suspend (rl_push d r) = m_suspend r" "m_count (rl_push d r) = m_count r"
  by (simp_all add: rl_push_def Let_def)

lemma rl_pop_cases:
  "rl_pop t = Inr u \<longleftrightarrow> (\<exists>l ls. m_limits t = l # ls
     \<and> u = t\<lparr>m_count := min (m_count t) (m_limit t), m_limit := l, m_limits := ls, m_cancel := 0\<rparr>)"
  by (auto simp: rl_pop_def Let_def min_def not_le split: list.splits)

lemma rl_inside_fields:
  "rl_inside r s \<Longrightarrow> m_limit s = m_limit r \<and> m_limits s = m_limits r \<and> m_suspend s = m_suspend r"
proof (induction rule: rl_inside.induct)
  case (scope r s d t u)
  then show ?case by (auto simp: rl_pop_cases)
qed (simp_all add: rl_inc_def rl_inc_by_def rl_cancel_def set_cancel_def dec_cancel_def Let_def)

text \<open>Leaving a scope: the steps beyond its limit are not counted, and the limits are those from before.\<close>

lemma rl_pop_inside:
  assumes "rl_inside (rl_push d r) s"
  shows "rl_pop s = Inr (r\<lparr>m_cancel := 0, m_count := min (m_count s) (m_limit (rl_push d r))\<rparr>)"
  using rl_inside_fields [OF assms] by (auto simp: rl_pop_cases)

text \<open>Counting.\<close>

definition rl_step :: "reslimit \<Rightarrow> reslimit" where
  "rl_step r = snd (rl_inc r)"

lemma rl_step_fields [simp]:
  "m_cancel (rl_step r) = m_cancel r" "m_suspend (rl_step r) = m_suspend r" "m_limit (rl_step r) = m_limit r"
  "m_count (rl_step r) = m_count r + 1" "m_limits (rl_step r) = m_limits r"
  by (simp_all add: rl_step_def rl_inc_def Let_def)

lemma rl_steps_fields [simp]:
  "m_cancel ((rl_step ^^ k) r) = m_cancel r" "m_suspend ((rl_step ^^ k) r) = m_suspend r"
  "m_limit ((rl_step ^^ k) r) = m_limit r" "m_count ((rl_step ^^ k) r) = m_count r + of_nat k"
  by (induction k) simp_all

text \<open>A scope of \<open>delta\<close> steps lasts exactly \<open>delta\<close> steps, when the limit around it allows as many.\<close>

lemma rl_scope_budget:
  assumes "d \<noteq> 0" "unat (m_count r) + unat d \<le> unat (m_limit r)" "\<not> m_suspend r" "unat (m_count r) + k < 2 ^ 64"
  shows "not_canceled ((rl_step ^^ k) (rl_push d r)) \<longleftrightarrow> k \<le> unat d"
proof -
  have fit: "unat (m_count r) + unat d < 2 ^ 64" using assms(2) unsigned_less [of "m_limit r", where ?'a = nat] by simp
  have d: "unat (ucast d :: 64 word) = unat d" using unsigned_less [of d, where ?'a = nat] by (simp add: unsigned_ucast_eq take_bit_nat_eq_self)
  have n: "unat (ucast d + m_count r) = unat d + unat (m_count r)"
    using fit by (subst unat_add_lem [THEN iffD1]) (simp_all add: d)
  have d0: "0 < unat d" using assms(1) by (simp add: unat_gt_0)
  have "\<not> ucast d + m_count r \<le> m_count r" using n d0 by (simp add: word_le_nat_alt)
  moreover have "ucast d + m_count r \<le> m_limit r" using n assms(2) by (simp add: word_le_nat_alt)
  ultimately have l: "m_limit (rl_push d r) = ucast d + m_count r" "m_cancel (rl_push d r) = 0"
    "m_count (rl_push d r) = m_count r" "m_suspend (rl_push d r) = m_suspend r"
    using assms(1) by (simp_all add: rl_push_def Let_def min_def)
  have "unat (m_count r + of_nat k) = unat (m_count r) + k"
    using assms(4) by (simp add: unat_word_ariths unat_of_nat)
  then show ?thesis using assms(3) by (simp add: not_canceled_def l word_le_nat_alt n)
qed

section \<open>Computations that may be cancelled\<close>

text \<open>\<open>k\<close> checkpoints in a row. The limit after them, when none of them finds it reached.\<close>

fun checkpoints :: "(reslimit \<Rightarrow> reslimit) \<Rightarrow> nat \<Rightarrow> reslimit \<Rightarrow> reslimit res" where
  "checkpoints env 0 r = Inr r"
| "checkpoints env (Suc k) r = bind_res (checkpoint env r) (checkpoints env k)"

definition limit_after :: "(reslimit \<Rightarrow> reslimit) \<Rightarrow> nat \<Rightarrow> reslimit \<Rightarrow> reslimit" where
  "limit_after env k = (\<lambda>r. rl_step (env r)) ^^ k"

lemma checkpoint_cases:
  "checkpoint env r = (if not_canceled (rl_step (env r)) then Inr (rl_step (env r)) else Inl Canceled)"
  by (simp add: checkpoint_def rl_step_def rl_inc_def Let_def)

lemma checkpoints_add: "checkpoints env (j + k) r = bind_res (checkpoints env j r) (checkpoints env k)"
proof (induction j arbitrary: r)
  case (Suc j)
  then show ?case by (cases "checkpoint env r") simp_all
qed simp

lemma checkpoints_snoc: "checkpoints env (Suc k) r = bind_res (checkpoints env k r) (checkpoint env)"
proof -
  have "checkpoints env 1 s = checkpoint env s" for s by (cases "checkpoint env s") simp_all
  then show ?thesis using checkpoints_add [of env k 1 r] by (metis Suc_eq_plus1 ext)
qed

text \<open>They throw exactly when one of them finds the limit reached.\<close>

lemma checkpoints_cases:
  "checkpoints env k r =
     (if \<forall>i \<in> {1..k}. not_canceled (limit_after env i r) then Inr (limit_after env k r) else Inl Canceled)"
proof (induction k)
  case 0
  then show ?case by (simp add: limit_after_def)
next
  case (Suc k)
  have "{1..Suc k} = insert (Suc k) {1..k}" by auto
  then show ?case unfolding checkpoints_snoc Suc
    by (simp add: checkpoint_cases limit_after_def)
qed

text \<open>Without interference a fresh limit is never reached.\<close>

lemma limit_after_fresh: "not_canceled (limit_after (\<lambda>r. r) i new_reslimit)"
  unfolding limit_after_def not_canceled_def rl_steps_fields by (simp add: new_reslimit_def)

lemma checkpoints_fresh: "checkpoints (\<lambda>r. r) k new_reslimit = Inr (limit_after (\<lambda>r. r) k new_reslimit)"
  by (simp add: checkpoints_cases limit_after_fresh)

text \<open>\<open>outcome m Q\<close>: the computation \<open>m\<close> passes some number of checkpoints, and then returns a value with \<open>Q\<close>.
  The number and the value are the same for all limits and all other threads; so the computation ends, and
  it throws exactly when one of these checkpoints finds the limit reached.\<close>

definition outcome :: "((reslimit \<Rightarrow> reslimit) \<Rightarrow> reslimit \<Rightarrow> ('a \<times> reslimit) res) \<Rightarrow> ('a \<Rightarrow> bool) \<Rightarrow> bool" where
  "outcome m Q \<longleftrightarrow> (\<exists>k x. Q x \<and> (\<forall>env r. m env r = bind_res (checkpoints env k r) (\<lambda>s. Inr (x, s))))"

lemma outcome_cases:
  "outcome m Q \<longleftrightarrow> (\<exists>k x. Q x \<and> (\<forall>env r. m env r =
     (if \<forall>i \<in> {1..k}. not_canceled (limit_after env i r) then Inr (x, limit_after env k r) else Inl Canceled)))"
proof -
  have "bind_res (if P then Inr s else Inl Canceled) (\<lambda>s. Inr (x, s)) = (if P then Inr (x, s) else Inl Canceled)"
    for P and s :: reslimit and x :: 'a by simp
  then show ?thesis by (simp only: outcome_def checkpoints_cases)
qed

lemma outcome_Inr: "Q x \<Longrightarrow> outcome (\<lambda>env r. Inr (x, r)) Q"
  unfolding outcome_def by (intro exI [of _ 0] exI [of _ x]) simp

lemma outcome_mono: "outcome m P \<Longrightarrow> (\<And>x. P x \<Longrightarrow> Q x) \<Longrightarrow> outcome m Q"
  unfolding outcome_def by blast

lemma bind_res_assoc: "bind_res (bind_res m f) g = bind_res m (\<lambda>x. bind_res (f x) g)"
  by (cases m) simp_all

lemma outcome_bind:
  assumes "outcome m P" "\<And>x. P x \<Longrightarrow> outcome (\<lambda>env s. f env (x, s)) Q"
  shows "outcome (\<lambda>env r. bind_res (m env r) (f env)) Q"
proof -
  obtain j x where m: "P x" "\<And>env r. m env r = bind_res (checkpoints env j r) (\<lambda>s. Inr (x, s))"
    using assms(1) unfolding outcome_def by blast
  obtain k y where f: "Q y" "\<And>env r. f env (x, r) = bind_res (checkpoints env k r) (\<lambda>s. Inr (y, s))"
    using assms(2) [OF m(1)] unfolding outcome_def by blast
  have "bind_res (m env r) (f env) = bind_res (checkpoints env (j + k) r) (\<lambda>s. Inr (y, s))" for env r
    by (simp add: m(2) f(2) checkpoints_add bind_res_assoc)
  then show ?thesis unfolding outcome_def using f(1) by blast
qed

lemma outcome_pure:
  assumes "yields m P" "\<And>x. P x \<Longrightarrow> outcome (\<lambda>env r. f env r x) Q"
  shows "outcome (\<lambda>env r. bind_res m (f env r)) Q"
  using assms by (auto simp: yields_def)

lemma outcome_returns: "outcome m Q \<Longrightarrow> yields (m (\<lambda>r. r) new_reslimit) (\<lambda>(x, s). Q x)"
  unfolding outcome_def by (auto simp: checkpoints_fresh)

text \<open>A loop whose body passes one checkpoint: the state is a limit and a value, with an invariant and a measure
  for the value.\<close>

lemma while_outcome:
  fixes m :: "'v \<Rightarrow> nat" and S :: "reslimit \<Rightarrow> 'v \<Rightarrow> 's"
  assumes "I v" and stop: "\<And>r v. b (S r v) \<longleftrightarrow> B v"
    and step: "\<And>v. I v \<Longrightarrow> B v \<Longrightarrow> \<exists>w. I w \<and> m w < m v \<and> (\<forall>env r. c env (S r v) = bind_res (checkpoint env r) (\<lambda>r. Inr (S r w)))"
  shows "\<exists>k w. I w \<and> \<not> B w \<and> (\<forall>env r. while_res b (c env) (S r v) = bind_res (checkpoints env k r) (\<lambda>r. Inr (S r w)))"
  using assms(1)
proof (induction "m v" arbitrary: v rule: less_induct)
  case less
  show ?case
  proof (cases "B v")
    case True
    obtain w where w: "I w" "m w < m v" "\<And>env r. c env (S r v) = bind_res (checkpoint env r) (\<lambda>r. Inr (S r w))"
      using step [OF less.prems True] by blast
    obtain k u where u: "I u" "\<not> B u" "\<And>env r. while_res b (c env) (S r w) = bind_res (checkpoints env k r) (\<lambda>r. Inr (S r u))"
      using less.hyps [OF w(2,1)] by blast
    have "while_res b (c env) (S r v) = bind_res (checkpoints env (Suc k) r) (\<lambda>r. Inr (S r u))" for env r
      by (subst while_res_unfold) (simp add: stop True w(3) bind_res_assoc u(3))
    then show ?thesis using u(1,2) by blast
  next
    case False
    then have "while_res b (c env) (S r v) = bind_res (checkpoints env 0 r) (\<lambda>r. Inr (S r v))" for env r
      by (subst while_res_unfold) (simp add: stop)
    then show ?thesis using less.prems False by blast
  qed
qed

lemma while_outcome_result:
  assumes "\<exists>k w. I w \<and> \<not> B w \<and> (\<forall>env r. while_res b (c env) (S r v) = bind_res (checkpoints env k r) (\<lambda>r. Inr (S r w)))"
    and "\<And>w r. I w \<Longrightarrow> \<not> B w \<Longrightarrow> f (S r w) = Inr (g w, r) \<and> Q (g w)"
  shows "outcome (\<lambda>env r. bind_res (while_res b (c env) (S r v)) f) Q"
proof -
  obtain k w where w: "I w" "\<not> B w" "\<And>env r. while_res b (c env) (S r v) = bind_res (checkpoints env k r) (\<lambda>r. Inr (S r w))"
    using assms(1) by blast
  have "bind_res (while_res b (c env) (S r v)) f = bind_res (checkpoints env k r) (\<lambda>s. Inr (g w, s))" for env r
    using assms(2) [OF w(1,2)] by (simp add: w(3) bind_res_assoc)
  then show ?thesis unfolding outcome_def using assms(2) [OF w(1,2)] by blast
qed

end
