(* ===== verification/Interval_Root.thy ===== *)
theory Interval_Root
  imports Interval_Power Rlimit
begin

text \<open>
  Roots of rationals and of intervals (\<open>math/interval/interval_def.h\<close>): bisection (\<open>nth_root_slow\<close>),
  Newton's method (\<open>approx_nth_root\<close>), the enclosure of a root between an approximation \<open>x\<close> and
  \<open>A / x^(n-1)\<close>, roots of intervals, and the solutions of \<open>x^n = y\<close>. The loops pass a checkpoint of the
  resource limit.
\<close>

section \<open>Roots of numbers\<close>

text \<open>An operation on rationals is at the addresses the source passes: the arguments of an addition and of a
  division here are at times overwritten by the result. The assertions on the arguments of a root are part
  of the functions: one that does not hold is a \<open>Verify_failed\<close>.\<close>

record slow_state =
  sl_lim :: reslimit
  sl_lo :: mpq
  sl_hi :: mpq
  sl_done :: bool

definition slow_step :: "(reslimit \<Rightarrow> reslimit) \<Rightarrow> mpq \<Rightarrow> digit \<Rightarrow> mpq \<Rightarrow> slow_state \<Rightarrow> slow_state res" where
  "slow_step env a n p s =
     bind_res (checkpoint env (sl_lim s)) (\<lambda>rl.
     bind_res (mpq_add (sl_hi s) (sl_lo s)) (\<lambda>c.
     bind_res (at3 div_at 0 1 0 c (mk_q 2)) (\<lambda>c.
     bind_res (mpq_power c n) (\<lambda>cn.
     let s = s\<lparr>sl_lim := rl\<rparr> in
     if mpq_gt cn a then
       let s = s\<lparr>sl_hi := c\<rparr> in bind_res (mpq_sub (sl_hi s) (sl_lo s)) (\<lambda>c. Inr (s\<lparr>sl_done := mpq_le c p\<rparr>))
     else if mpq_eq cn a then Inr (s\<lparr>sl_lo := c, sl_hi := c, sl_done := True\<rparr>)
     else
       let s = s\<lparr>sl_lo := c\<rparr> in bind_res (mpq_sub (sl_hi s) (sl_lo s)) (\<lambda>c. Inr (s\<lparr>sl_done := mpq_le c p\<rparr>))))))"

definition nth_root_slow :: "(reslimit \<Rightarrow> reslimit) \<Rightarrow> mpq \<Rightarrow> digit \<Rightarrow> mpq \<Rightarrow> reslimit \<Rightarrow> ((mpq \<times> mpq) \<times> reslimit) res" where
  "nth_root_slow env a n p rl =
     (let n_is_even = (n mod 2 = 0) in
      if n_is_even \<and> \<not> mpq_is_nonneg a then Inl Verify_failed
      else if mpq_is_zero a \<or> mpq_is_one a \<or> (\<not> n_is_even \<and> mpq_eq a (mk_q (- 1))) then Inr ((a, a), rl)
      else
        let (lo, hi) = (if mpq_lt a (mk_q (- 1)) then (a, mk_q (- 1))
                        else if mpq_is_neg a then (mk_q (- 1), mk_q 0)
                        else if mpq_lt a (mk_q 1) then (mk_q 0, mk_q 1)
                        else (mk_q 1, a))
        in bind_res (while_res (\<lambda>s. \<not> sl_done s) (slow_step env a n p)
             \<lparr>sl_lim = rl, sl_lo = lo, sl_hi = hi, sl_done = False\<rparr>) (\<lambda>s. Inr ((sl_lo s, sl_hi s), sl_lim s)))"

definition rough_approx_nth_root :: "mpq \<Rightarrow> digit \<Rightarrow> mpq res" where
  "rough_approx_nth_root a n =
     (if \<not> (mpq_is_pos a \<and> n > 0) then Inl Verify_failed
      else bind_res (mpq_prev_power_of_two a) (\<lambda>k. mpq_power (mk_q 2) (of_nat k div n)))"

text \<open>\<open>A_div_x_n\<close> writes its result to a number of its own, first the power and then the quotient.\<close>

definition A_div_x_n :: "mpq \<Rightarrow> mpq \<Rightarrow> digit \<Rightarrow> mpq res" where
  "A_div_x_n A x n =
     (if n = 1 then mpq_div A x
      else bind_res (mpq_power x n) (\<lambda>r. at3 div_at 0 1 1 A r))"

record newton_state =
  nw_lim :: reslimit
  nw_x :: mpq
  nw_done :: bool

definition sqrt_step :: "(reslimit \<Rightarrow> reslimit) \<Rightarrow> mpq \<Rightarrow> mpq \<Rightarrow> newton_state \<Rightarrow> newton_state res" where
  "sqrt_step env A p s =
     bind_res (checkpoint env (nw_lim s)) (\<lambda>rl.
     bind_res (mpq_div A (nw_x s)) (\<lambda>x_prime.
     bind_res (at3 add_at 0 1 1 (nw_x s) x_prime) (\<lambda>x_prime.
     bind_res (at3 div_at 0 1 0 x_prime (mk_q 2)) (\<lambda>x_prime.
     bind_res (mpq_sub x_prime (nw_x s)) (\<lambda>d.
     Inr \<lparr>nw_lim = rl, nw_x = x_prime, nw_done = mpq_lt (mpq_abs d) p\<rparr>)))))"

definition newton_step :: "(reslimit \<Rightarrow> reslimit) \<Rightarrow> mpq \<Rightarrow> digit \<Rightarrow> mpq \<Rightarrow> mpq \<Rightarrow> mpq \<Rightarrow> newton_state \<Rightarrow> newton_state res" where
  "newton_step env A n num_n num_n_1 p s =
     bind_res (checkpoint env (nw_lim s)) (\<lambda>rl.
     bind_res (mpq_power (nw_x s) (n - 1)) (\<lambda>x_prime.
     bind_res (at3 div_at 0 1 1 A x_prime) (\<lambda>x_prime.
     bind_res (mpq_mul num_n_1 (nw_x s)) (\<lambda>d.
     bind_res (at3 add_at 0 1 1 d x_prime) (\<lambda>x_prime.
     bind_res (at3 div_at 0 1 0 x_prime num_n) (\<lambda>x_prime.
     bind_res (mpq_sub x_prime (nw_x s)) (\<lambda>d.
     Inr \<lparr>nw_lim = rl, nw_x = x_prime, nw_done = mpq_lt (mpq_abs d) p\<rparr>)))))))"

definition approx_nth_root :: "(reslimit \<Rightarrow> reslimit) \<Rightarrow> mpq \<Rightarrow> digit \<Rightarrow> mpq \<Rightarrow> reslimit \<Rightarrow> (mpq \<times> reslimit) res" where
  "approx_nth_root env A n p rl =
     (if \<not> (mpq_is_pos A \<and> n > 1) then Inl Verify_failed else
     bind_res (if mpq_lt A (mk_q 1) then Inr A else rough_approx_nth_root A n) (\<lambda>x.
     bind_res
       (if n = 2 then
          while_res (\<lambda>s. \<not> nw_done s) (sqrt_step env A p) \<lparr>nw_lim = rl, nw_x = x, nw_done = False\<rparr>
        else
          bind_res (mpq_dec (mpq_set_unsigned n)) (\<lambda>num_n_1.
            while_res (\<lambda>s. \<not> nw_done s) (newton_step env A n (mpq_set_unsigned n) num_n_1 p)
              \<lparr>nw_lim = rl, nw_x = x, nw_done = False\<rparr>)) (\<lambda>s.
     Inr (nw_x s, nw_lim s))))"

text \<open>The root lies between \<open>hi\<close> and \<open>A / hi^(n-1)\<close>, whichever is larger.\<close>

definition nth_root_pos :: "(reslimit \<Rightarrow> reslimit) \<Rightarrow> mpq \<Rightarrow> digit \<Rightarrow> mpq \<Rightarrow> reslimit \<Rightarrow> ((mpq \<times> mpq) \<times> reslimit) res" where
  "nth_root_pos env A n p rl =
     bind_res (approx_nth_root env A n p rl) (\<lambda>(hi, rl).
     bind_res (A_div_x_n A hi (n - 1)) (\<lambda>lo.
     Inr (if mpq_lt hi lo then (hi, lo) else (lo, hi), rl)))"

definition nth_root :: "(reslimit \<Rightarrow> reslimit) \<Rightarrow> mpq \<Rightarrow> digit \<Rightarrow> mpq \<Rightarrow> reslimit \<Rightarrow> ((mpq \<times> mpq) \<times> reslimit) res" where
  "nth_root env a n p rl =
     (if \<not> (n > 0 \<and> (n mod 2 \<noteq> 0 \<or> mpq_is_nonneg a)) then Inl Verify_failed
      else if n = 1 \<or> mpq_is_zero a \<or> mpq_is_one a \<or> mpq_is_minus_one a then Inr ((a, a), rl)
      else
        bind_res (nth_root_pos env (mpq_abs a) n p rl) (\<lambda>((lo, hi), rl).
        if mpq_is_neg a then Inr ((mpq_neg hi, mpq_neg lo), rl) else Inr ((lo, hi), rl)))"

section \<open>Roots of intervals\<close>

definition ivl_nth_root :: "(reslimit \<Rightarrow> reslimit) \<Rightarrow> nat \<Rightarrow> digit \<Rightarrow> mpq \<Rightarrow> nat \<Rightarrow> ivl_store \<Rightarrow> reslimit \<Rightarrow> (ivl_store \<times> reslimit) res" where
  "ivl_nth_root env a n p b \<sigma> rl =
     (if \<not> (n mod 2 \<noteq> 0 \<or> \<not> lower_is_neg (\<sigma> a)) then Inl Verify_failed
      else if n = 1 then Inr (ivl_set b a \<sigma>, rl)
      else
        bind_res
          (if m_lower_inf (\<sigma> a) then
             if \<not> (n mod 2 \<noteq> 0) then Inl Verify_failed else
             Inr (\<sigma>(b := (\<sigma> b)\<lparr>m_lower := mpq_reset (m_lower (\<sigma> b)), m_lower_inf := True, m_lower_open := True\<rparr>), rl)
           else
             bind_res (nth_root env (m_lower (\<sigma> a)) n p rl) (\<lambda>((lo, hi), rl).
             let \<sigma> = \<sigma>(b := (\<sigma> b)\<lparr>m_lower_inf := False\<rparr>);
                 \<sigma> = \<sigma>(b := (\<sigma> b)\<lparr>m_lower_open := m_lower_open (\<sigma> a) \<and> mpq_eq lo hi\<rparr>)
             in Inr (\<sigma>(b := (\<sigma> b)\<lparr>m_lower := lo\<rparr>), rl))) (\<lambda>(\<sigma>, rl).
        if m_upper_inf (\<sigma> a) then
          Inr (\<sigma>(b := (\<sigma> b)\<lparr>m_upper := mpq_reset (m_upper (\<sigma> b)), m_upper_inf := True, m_upper_open := True\<rparr>), rl)
        else
          bind_res (nth_root env (m_upper (\<sigma> a)) n p rl) (\<lambda>((lo, hi), rl).
          let \<sigma> = \<sigma>(b := (\<sigma> b)\<lparr>m_upper_inf := False\<rparr>);
              \<sigma> = \<sigma>(b := (\<sigma> b)\<lparr>m_upper_open := m_upper_open (\<sigma> a) \<and> mpq_eq lo hi\<rparr>)
          in Inr (\<sigma>(b := (\<sigma> b)\<lparr>m_upper := hi\<rparr>), rl))))"

definition nth_root_jst :: "digit \<Rightarrow> interval_deps_combine_rule" where
  "nth_root_jst n =
     \<lparr>m_lower_combine = DEP_IN_LOWER1,
      m_upper_combine = if n mod 2 = 0 then DEP_IN_LOWER1 OR DEP_IN_UPPER1 else DEP_IN_UPPER1\<rparr>"

definition ivl_nth_root_deps :: "(reslimit \<Rightarrow> reslimit) \<Rightarrow> nat \<Rightarrow> digit \<Rightarrow> mpq \<Rightarrow> nat \<Rightarrow> ivl_store \<Rightarrow> reslimit
  \<Rightarrow> ((interval_deps_combine_rule \<times> ivl_store) \<times> reslimit) res" where
  "ivl_nth_root_deps env a n p b \<sigma> rl = bind_res (ivl_nth_root env a n p b \<sigma> rl) (\<lambda>(\<tau>, rl). Inr ((nth_root_jst n, \<tau>), rl))"

text \<open>\<open>xn_eq_y\<close>: an interval of all solutions of \<open>x^n = y\<close>.\<close>

definition xn_eq_y :: "(reslimit \<Rightarrow> reslimit) \<Rightarrow> nat \<Rightarrow> digit \<Rightarrow> mpq \<Rightarrow> nat \<Rightarrow> ivl_store \<Rightarrow> reslimit \<Rightarrow> (ivl_store \<times> reslimit) res" where
  "xn_eq_y env y n p x \<sigma> rl =
     (if \<not> (n mod 2 \<noteq> 0 \<or> \<not> lower_is_neg (\<sigma> y)) then Inl Verify_failed
      else if n mod 2 = 0 then
        if m_lower_inf (\<sigma> y) then Inl Verify_failed
        else if m_upper_inf (\<sigma> y) then Inr (\<sigma>(x := ivl_reset (\<sigma> x)), rl)
        else
          bind_res (nth_root env (m_upper (\<sigma> y)) n p rl) (\<lambda>((lo, hi), rl).
          let open_end = (m_upper_open (\<sigma> y) \<and> mpq_eq lo hi);
              \<sigma> = \<sigma>(x := (\<sigma> x)\<lparr>m_lower_inf := False, m_upper_inf := False, m_lower_open := open_end, m_upper_open := open_end\<rparr>);
              \<sigma> = \<sigma>(x := (\<sigma> x)\<lparr>m_upper := hi\<rparr>);
              \<sigma> = \<sigma>(x := (\<sigma> x)\<lparr>m_lower := hi\<rparr>)
          in Inr (\<sigma>(x := (\<sigma> x)\<lparr>m_lower := mpq_neg (m_lower (\<sigma> x))\<rparr>), rl))
      else ivl_nth_root env y n p x \<sigma> rl)"

definition xn_eq_y_jst :: "digit \<Rightarrow> interval_deps_combine_rule" where
  "xn_eq_y_jst n =
     (if n mod 2 = 0
      then \<lparr>m_lower_combine = DEP_IN_LOWER1 OR DEP_IN_UPPER1, m_upper_combine = DEP_IN_LOWER1 OR DEP_IN_UPPER1\<rparr>
      else \<lparr>m_lower_combine = DEP_IN_LOWER1, m_upper_combine = DEP_IN_UPPER1\<rparr>)"

definition xn_eq_y_deps :: "(reslimit \<Rightarrow> reslimit) \<Rightarrow> nat \<Rightarrow> digit \<Rightarrow> mpq \<Rightarrow> nat \<Rightarrow> ivl_store \<Rightarrow> reslimit
  \<Rightarrow> ((interval_deps_combine_rule \<times> ivl_store) \<times> reslimit) res" where
  "xn_eq_y_deps env y n p x \<sigma> rl = bind_res (xn_eq_y env y n p x \<sigma> rl) (\<lambda>(\<tau>, rl). Inr ((xn_eq_y_jst n, \<tau>), rl))"

section \<open>Denominators along Newton's iteration\<close>

text \<open>The addition in the loop overwrites its second argument, which \<open>mpq_manager\<close> gets right only for
  denominators without a common divisor. They have none when the denominator of \<open>A\<close> has no divisor in
  common with \<open>n - 1\<close>: from the second iterate on the denominator of \<open>A\<close> divides that of \<open>x\<close>, and that of
  \<open>A / x^(n-1)\<close> has only divisors of the numerator of \<open>x\<close>.\<close>

abbreviation dn :: "mpq \<Rightarrow> int" where "dn a \<equiv> mpz_val (m_den a)"
abbreviation nm :: "mpq \<Rightarrow> int" where "nm a \<equiv> mpz_val (m_num a)"

lemma mpq_cross:
  assumes "mpq_ok r" "mpq_val r = of_int N / of_int D" "D \<noteq> 0"
  shows "nm r * D = N * dn r"
proof -
  have "(of_int (nm r * D) :: rat) = of_int (N * dn r)"
    using assms mpq_okD(5) [OF assms(1)] by (simp add: mpq_val_def field_simps)
  then show ?thesis by (simp only: of_int_eq_iff)
qed

lemma den_dvd:
  assumes "mpq_ok r" "mpq_val r = of_int N / of_int D" "D \<noteq> 0"
  shows "dn r dvd D"
  using mpq_cross [OF assms] mpq_okD(6) [OF assms(1)]
  by (metis coprime_commute coprime_dvd_mult_right_iff dvd_triv_right)

lemma dvd_den:
  assumes "mpq_ok r" "mpq_val r = of_int N / of_int D" "D \<noteq> 0" "Q dvd D" "coprime N Q"
  shows "Q dvd dn r"
proof -
  have "Q dvd N * dn r" using assms(4) mpq_cross [OF assms(1-3)] by (metis dvd_mult)
  then show ?thesis using assms(5) by (simp add: coprime_commute coprime_dvd_mult_right_iff)
qed

lemma coprime_add_multiple: "coprime P Q \<Longrightarrow> coprime (m * Q + P) (Q :: int)"
  by (simp add: coprime_iff_gcd_eq_1 gcd.commute [of _ Q] gcd_add_mult)

lemma newton_fractions:
  fixes P Q K :: "'a :: field"
  assumes "u \<noteq> 0" "w \<noteq> 0" "Q \<noteq> 0" "K \<noteq> 0"
  shows "(k * u + P / Q / w) / K = (k * (u * w) * Q + P) / (K * Q * w)"
    "t \<noteq> 0 \<Longrightarrow> z \<noteq> 0 \<Longrightarrow> (k * (u / (Q * t)) + P / Q / (w / (Q * t * z))) / K = (k * (u * w) + P * t * (Q * t * z)) / (K * (Q * t) * w)"
  using assms by (simp_all add: field_simps)

definition newton_den :: "mpq \<Rightarrow> mpq \<Rightarrow> bool" where
  "newton_den A x \<longleftrightarrow> dn x = 1 \<or> dn A dvd dn x"

lemma newton_den_coprime:
  assumes ok: "mpq_ok A" "mpq_ok x" "mpq_ok d" "mpq_ok w" and x: "0 < mpq_val x" and k: "0 < k"
    and J: "newton_den A x"
    and v: "mpq_val d = of_nat k * mpq_val x" "mpq_val w = mpq_val A / mpq_val x ^ k"
  shows "coprime (dn d) (dn w)"
proof -
  note A = mpq_okD [OF ok(1)] and X = mpq_okD [OF ok(2)]
  have u: "0 < nm x" using x mpq_val_sign(1) [OF ok(2)] by simp
  have "mpq_val d = of_int (int k * nm x) / of_int (dn x)" unfolding v by (simp add: mpq_val_def)
  then have dd: "dn d dvd dn x" using den_dvd [OF ok(3), of "int k * nm x" "dn x"] X(5) by simp
  show ?thesis
  proof (cases "dn x = 1")
    case True
    then show ?thesis using dd by (metis coprime_1_left coprime_divisors dvd_refl)
  next
    case False
    then obtain t where t: "dn x = dn A * t" using J unfolding newton_den_def by blast
    obtain j where j: "k = Suc j" using k gr0_conv_Suc by blast
    have "mpq_val w = of_int (nm A * t * dn x ^ j) / of_int (nm x ^ k)"
      unfolding v using A(5) X(5) u by (simp add: mpq_val_def j power_divide t field_simps)
    then have "dn w dvd nm x ^ k" using den_dvd [OF ok(4), of "nm A * t * dn x ^ j" "nm x ^ k"] u by simp
    moreover have "coprime (dn x) (nm x ^ k)" using X(6) by (simp add: coprime_commute)
    ultimately show ?thesis using dd by (metis coprime_divisors)
  qed
qed

lemma newton_den_step:
  assumes ok: "mpq_ok A" "mpq_ok x" "mpq_ok y" and x: "0 < mpq_val x" and k: "0 < k"
    and J: "newton_den A x" and cop: "coprime (dn A) (int k)"
    and v: "mpq_val y = (of_nat k * mpq_val x + mpq_val A / mpq_val x ^ k) / of_nat (Suc k)"
  shows "newton_den A y"
proof -
  note A = mpq_okD [OF ok(1)] and X = mpq_okD [OF ok(2)]
  have u: "0 < nm x" using x mpq_val_sign(1) [OF ok(2)] by simp
  have "dn A dvd dn y"
  proof (cases "dn x = 1")
    case True
    let ?N = "int k * nm x ^ Suc k * dn A + nm A" and ?D = "int (Suc k) * dn A * nm x ^ k"
    have "mpq_val y = of_int ?N / of_int ?D"
      using newton_fractions(1) [of "rat_of_int (nm x)" "of_int (nm x ^ k)" "of_int (dn A)" "of_nat (Suc k)" "of_nat k" "of_int (nm A)"] A(5) u
      unfolding v by (simp add: mpq_val_def True del: of_nat_Suc)
    moreover have "coprime ?N (dn A)"
      using A(6) by (rule coprime_add_multiple)
    ultimately show ?thesis using dvd_den [OF ok(3), of ?N ?D] A(5) u by simp
  next
    case False
    then obtain t where t: "dn x = dn A * t" using J unfolding newton_den_def by blast
    obtain j where j: "k = Suc j" using k gr0_conv_Suc by blast
    let ?N = "int k * nm x ^ Suc k + nm A * t * dn x ^ k" and ?D = "int (Suc k) * dn x * nm x ^ k"
    have t0: "t \<noteq> 0" using t X(5) by auto
    have eq: "mpq_val y = of_int ?N / of_int ?D"
      using newton_fractions(2) [of "rat_of_int (nm x)" "of_int (nm x ^ k)" "of_int (dn A)" "of_nat (Suc k)" "of_int t" "of_int (dn x ^ j)" "of_nat k" "of_int (nm A)"] A(5) X(5) u t0
      unfolding v by (simp add: mpq_val_def j power_divide t del: of_nat_Suc)
    have cpN: "coprime ?N (dn A)"
    proof -
      have "coprime (nm x) (dn A)" using X(6) unfolding t by simp
      then have "coprime (int k * nm x ^ Suc k) (dn A)" using cop by (simp add: coprime_commute)
      moreover have "nm A * t * dn x ^ k = (nm A * t * t * dn x ^ j) * dn A" by (simp add: j t)
      ultimately show ?thesis using coprime_add_multiple [of "int k * nm x ^ Suc k" "dn A" "nm A * t * t * dn x ^ j"] by (simp only: add.commute)
    qed
    have "?D \<noteq> 0" using X(5) u by simp
    moreover have "dn A dvd ?D" by (simp add: t)
    ultimately show ?thesis by (rule dvd_den [OF ok(3) eq _ _ cpN])
  qed
  then show ?thesis by (simp add: newton_den_def)
qed

section \<open>Newton's iteration on rationals\<close>

definition newton :: "nat \<Rightarrow> 'a :: linordered_field \<Rightarrow> 'a \<Rightarrow> 'a" where
  "newton k A x = (of_nat k * x + A / x ^ k) / of_nat (Suc k)"

lemma newton_pos: "0 < A \<Longrightarrow> 0 < x \<Longrightarrow> 0 < newton k A x"
  unfolding newton_def by (intro divide_pos_pos add_nonneg_pos) (simp_all del: of_nat_Suc)

text \<open>One step ends above the root, and from there on the iteration falls.\<close>

lemma newton_above:
  fixes A x :: "'a :: linordered_field"
  assumes "0 < A" "0 < x"
  shows "A \<le> newton k A x ^ Suc k"
proof -
  let ?y = "newton k A x"
  let ?e = "(A / x ^ Suc k - 1) / of_nat (Suc k)"
  have alg: "x * (1 + (q / x - 1) / N) = ((N - 1) * x + q) / N" if "N \<noteq> 0" for q N :: 'a
    using that assms(2) by (simp add: field_simps)
  have y: "?y = x * (1 + ?e)"
    using alg [of "of_nat (Suc k)" "A / x ^ k"] by (simp add: newton_def mult.commute del: of_nat_Suc) simp
  have "0 < A / x ^ Suc k" using assms by simp
  moreover have "(1 :: 'a) \<le> of_nat (Suc k)" by simp
  ultimately have "- of_nat (Suc k) \<le> A / x ^ Suc k - 1" by linarith
  then have "- 1 \<le> ?e" by (simp add: pos_le_divide_eq del: of_nat_Suc power_Suc)
  then have "1 + of_nat (Suc k) * ?e \<le> (1 + ?e) ^ Suc k" by (rule Bernoulli_inequality)
  moreover have "of_nat (Suc k) * ?e = A / x ^ Suc k - 1" by (simp del: of_nat_Suc power_Suc)
  ultimately have "A / x ^ Suc k \<le> (1 + ?e) ^ Suc k" by (simp del: of_nat_Suc power_Suc)
  then have "A \<le> x ^ Suc k * (1 + ?e) ^ Suc k" using assms by (simp add: pos_divide_le_eq mult.commute)
  then show ?thesis unfolding y power_mult_distrib .
qed

lemma newton_falls:
  fixes A x :: "'a :: linordered_field"
  assumes "0 < x" "A \<le> x ^ Suc k"
  shows "newton k A x \<le> x"
proof -
  have "A / x ^ k \<le> x" using assms by (simp add: pos_divide_le_eq)
  then have "of_nat k * x + A / x ^ k \<le> of_nat (Suc k) * x" by (simp add: algebra_simps)
  then show ?thesis by (simp add: newton_def pos_divide_le_eq mult.commute del: of_nat_Suc)
qed

section \<open>The loop\<close>

lemma at3_div_yields:
  assumes "mpq_ok a" "mpq_ok b" "mpq_val b \<noteq> 0"
  shows "yields (at3 div_at 0 1 k a b) (\<lambda>c. mpq_ok c \<and> mpq_val c = mpq_val a / mpq_val b)"
  unfolding at3_def yields_bind yields_Inr by (rule yields_mono [OF div_at_yields]) (use assms in auto)

text \<open>What a step computes when it is not cancelled.\<close>

definition newton_body :: "nat \<Rightarrow> mpq \<Rightarrow> mpq \<Rightarrow> ((reslimit \<Rightarrow> reslimit) \<Rightarrow> newton_state \<Rightarrow> newton_state res) \<Rightarrow> bool" where
  "newton_body k A p step \<longleftrightarrow> (\<forall>x d. mpq_ok x \<longrightarrow> 0 < mpq_val x \<longrightarrow> newton_den A x \<longrightarrow>
     (\<exists>y e. mpq_ok y \<and> mpq_val y = newton k (mpq_val A) (mpq_val x) \<and> (e \<longleftrightarrow> \<bar>mpq_val y - mpq_val x\<bar> < mpq_val p)
       \<and> (\<forall>env r. step env \<lparr>nw_lim = r, nw_x = x, nw_done = d\<rparr>
            = bind_res (checkpoint env r) (\<lambda>r. Inr \<lparr>nw_lim = r, nw_x = y, nw_done = e\<rparr>))))"

lemma sqrt_step_body:
  assumes "mpq_ok A" "0 < mpq_val A" "mpq_ok p"
  shows "newton_body 1 A p (\<lambda>env. sqrt_step env A p)"
  unfolding newton_body_def
proof (intro allI impI)
  fix x d0 assume x: "mpq_ok x" "0 < mpq_val x" "newton_den A x"
  obtain w where w: "mpq_div A x = Inr w" "mpq_ok w" "mpq_val w = mpq_val A / mpq_val x"
    using mpq_div_yields [OF assms(1) x(1)] x(2) by (auto elim!: yieldsE)
  have "coprime (dn x) (dn w)"
    by (rule newton_den_coprime [OF assms(1) x(1,1) w(2) x(2) _ x(3), of 1]) (simp_all add: w(3))
  then obtain u where u: "at3 add_at 0 1 1 x w = Inr u" "mpq_ok u" "mpq_val u = mpq_val x + mpq_val w"
    using at3_yields(1) [OF x(1) w(2), of 0 1 1] by (auto elim!: yieldsE)
  obtain y where y: "at3 div_at 0 1 0 u (mk_q 2) = Inr y" "mpq_ok y" "mpq_val y = mpq_val u / 2"
    using at3_div_yields [OF u(2), of "mk_q 2" 0] by (auto simp: int_limits elim!: yieldsE)
  obtain d where d: "mpq_sub y x = Inr d" "mpq_ok d" "mpq_val d = mpq_val y - mpq_val x"
    using mpq_sub_yields [OF y(2) x(1)] by (auto elim!: yieldsE)
  have "mpq_val y = newton 1 (mpq_val A) (mpq_val x)" by (simp add: newton_def y(3) u(3) w(3))
  then show "\<exists>y e. mpq_ok y \<and> mpq_val y = newton 1 (mpq_val A) (mpq_val x) \<and> (e \<longleftrightarrow> \<bar>mpq_val y - mpq_val x\<bar> < mpq_val p)
       \<and> (\<forall>env r. sqrt_step env A p \<lparr>nw_lim = r, nw_x = x, nw_done = d0\<rparr>
            = bind_res (checkpoint env r) (\<lambda>r. Inr \<lparr>nw_lim = r, nw_x = y, nw_done = e\<rparr>))"
    using y(2) d(2,3) assms(3)
    by (intro exI [of _ y] exI [of _ "mpq_lt (mpq_abs d) p"]) (simp add: sqrt_step_def w(1) u(1) y(1) d(1) del: One_nat_def)
qed

lemma newton_step_body:
  assumes "mpq_ok A" "0 < mpq_val A" "mpq_ok p" and n: "2 \<le> unat n" "unat n \<le> 2 ^ 31"
    and nn: "mpq_ok num_n" "mpq_val num_n = of_nat (unat n)" "mpq_ok num_n_1" "mpq_val num_n_1 = of_nat (unat n - 1)"
  shows "newton_body (unat n - 1) A p (\<lambda>env. newton_step env A n num_n num_n_1 p)"
  unfolding newton_body_def
proof (intro allI impI)
  fix x d0 assume x: "mpq_ok x" "0 < mpq_val x" "newton_den A x"
  have n1: "unat (n - 1) = unat n - 1" using n(1) by (simp add: unat_sub_if' word_le_nat_alt)
  have lt: "unat (n - 1) < 2 ^ 31" using n n1 by linarith
  obtain x1 where x1: "mpq_power x (n - 1) = Inr x1" "mpq_ok x1" "mpq_val x1 = mpq_val x ^ (unat n - 1)"
    using mpq_power_yields [OF x(1), of "n - 1"] lt n1 by (auto elim!: yieldsE)
  obtain w where w: "at3 div_at 0 1 1 A x1 = Inr w" "mpq_ok w" "mpq_val w = mpq_val A / mpq_val x ^ (unat n - 1)"
    using at3_div_yields [OF assms(1) x1(2), of 1] x(2) x1(3) by (auto elim!: yieldsE)
  obtain d where d: "mpq_mul num_n_1 x = Inr d" "mpq_ok d" "mpq_val d = of_nat (unat n - 1) * mpq_val x"
    using mpq_mul_yields [OF nn(3) x(1)] nn(4) by (auto elim!: yieldsE)
  have "coprime (dn d) (dn w)"
    by (rule newton_den_coprime [OF assms(1) x(1) d(2) w(2) x(2) _ x(3) d(3) w(3)]) (use n in simp)
  then obtain u where u: "at3 add_at 0 1 1 d w = Inr u" "mpq_ok u" "mpq_val u = mpq_val d + mpq_val w"
    using at3_yields(1) [OF d(2) w(2), of 0 1 1] by (auto elim!: yieldsE)
  have "(of_nat (unat n) :: rat) \<noteq> 0" using n(1) by (simp only: of_nat_eq_0_iff)
  then obtain y where y: "at3 div_at 0 1 0 u num_n = Inr y" "mpq_ok y" "mpq_val y = mpq_val u / of_nat (unat n)"
    using at3_div_yields [OF u(2) nn(1), of 0] nn(2) n by (auto elim!: yieldsE)
  obtain e where e: "mpq_sub y x = Inr e" "mpq_ok e" "mpq_val e = mpq_val y - mpq_val x"
    using mpq_sub_yields [OF y(2) x(1)] by (auto elim!: yieldsE)
  have "Suc (unat n - 1) = unat n" using n by simp
  then have "mpq_val y = newton (unat n - 1) (mpq_val A) (mpq_val x)"
    by (simp add: newton_def y(3) u(3) w(3) d(3) del: of_nat_Suc)
  then show "\<exists>y e. mpq_ok y \<and> mpq_val y = newton (unat n - 1) (mpq_val A) (mpq_val x) \<and> (e \<longleftrightarrow> \<bar>mpq_val y - mpq_val x\<bar> < mpq_val p)
       \<and> (\<forall>env r. newton_step env A n num_n num_n_1 p \<lparr>nw_lim = r, nw_x = x, nw_done = d0\<rparr>
            = bind_res (checkpoint env r) (\<lambda>r. Inr \<lparr>nw_lim = r, nw_x = y, nw_done = e\<rparr>))"
    using y(2) e(2,3) assms(3)
    by (intro exI [of _ y] exI [of _ "mpq_lt (mpq_abs e) p"]) (simp add: newton_step_def x1(1) w(1) d(1) u(1) y(1) e(1) del: One_nat_def)
qed

text \<open>The distance that is left in steps of at least \<open>p\<close>.\<close>

fun newton_measure :: "nat \<Rightarrow> mpq \<Rightarrow> mpq \<Rightarrow> mpq \<times> bool \<Rightarrow> nat" where
  "newton_measure k A p (x, d) =
     (if d then 0
      else if mpq_val A \<le> mpq_val x ^ Suc k then 1 + nat \<lceil>mpq_val x / mpq_val p\<rceil>
      else 2 + nat \<lceil>newton k (mpq_val A) (mpq_val x) / mpq_val p\<rceil>)"

lemma ceiling_step: "0 < (p :: rat) \<Longrightarrow> 0 < y \<Longrightarrow> y \<le> x - p \<Longrightarrow> nat \<lceil>y / p\<rceil> < nat \<lceil>x / p\<rceil>"
proof -
  assume h: "0 < p" "0 < y" "y \<le> x - p"
  have "y / p \<le> x / p - 1" using h by (simp add: pos_divide_le_eq field_simps)
  then have "\<lceil>y / p\<rceil> \<le> \<lceil>x / p\<rceil> - 1" by (metis ceiling_diff_one ceiling_mono)
  moreover have "0 < \<lceil>y / p\<rceil>" using h by simp
  ultimately show ?thesis by linarith
qed

definition newton_inv :: "nat \<Rightarrow> mpq \<Rightarrow> mpq \<Rightarrow> mpq \<times> bool \<Rightarrow> bool" where
  "newton_inv k A p = (\<lambda>(y, d). mpq_ok y \<and> 0 < mpq_val y \<and> newton_den A y
     \<and> (d \<longrightarrow> (\<exists>x > 0. mpq_val y = newton k (mpq_val A) x \<and> \<bar>mpq_val y - x\<bar> < mpq_val p)))"

lemma newton_step_inv:
  assumes A: "mpq_ok A" "0 < mpq_val A" and p: "0 < mpq_val p" and k: "0 < k" and cop: "coprime (dn A) (int k)"
    and body: "newton_body k A p step" and I: "newton_inv k A p v" and run: "\<not> snd v"
  shows "\<exists>w. newton_inv k A p w \<and> newton_measure k A p w < newton_measure k A p v
    \<and> (\<forall>env r. step env (case v of (x, d) \<Rightarrow> \<lparr>nw_lim = r, nw_x = x, nw_done = d\<rparr>)
         = bind_res (checkpoint env r) (\<lambda>r. Inr (case w of (x, d) \<Rightarrow> \<lparr>nw_lim = r, nw_x = x, nw_done = d\<rparr>)))"
proof -
  obtain x where v: "v = (x, False)" using run by (cases v) simp
  have x: "mpq_ok x" "0 < mpq_val x" "newton_den A x" using I by (simp_all add: v newton_inv_def)
  obtain y e where y: "mpq_ok y" "mpq_val y = newton k (mpq_val A) (mpq_val x)" "e \<longleftrightarrow> \<bar>mpq_val y - mpq_val x\<bar> < mpq_val p"
    "\<And>env r. step env \<lparr>nw_lim = r, nw_x = x, nw_done = False\<rparr> = bind_res (checkpoint env r) (\<lambda>r. Inr \<lparr>nw_lim = r, nw_x = y, nw_done = e\<rparr>)"
    using body x unfolding newton_body_def by blast
  have up: "mpq_val A \<le> mpq_val y ^ Suc k" and y0: "0 < mpq_val y"
    using newton_above [OF A(2) x(2)] newton_pos [OF A(2) x(2)] unfolding y(2) by blast+
  have "newton_den A y"
    by (rule newton_den_step [OF A(1) x(1) y(1) x(2) k x(3) cop]) (simp add: y(2) newton_def)
  then have J: "newton_inv k A p (y, e)" using x(2) y(1,2,3) y0 unfolding newton_inv_def by auto
  have "newton_measure k A p (y, e) < newton_measure k A p v"
  proof (cases e)
    case nd: False
    show ?thesis
    proof (cases "mpq_val A \<le> mpq_val x ^ Suc k")
      case True
      then have "mpq_val y \<le> mpq_val x" using newton_falls x(2) unfolding y(2) by blast
      then have "mpq_val y \<le> mpq_val x - mpq_val p" using nd y(3) by linarith
      then have "nat \<lceil>mpq_val y / mpq_val p\<rceil> < nat \<lceil>mpq_val x / mpq_val p\<rceil>" using ceiling_step p y0 by blast
      then show ?thesis using nd True up by (simp add: v del: power_Suc)
    next
      case False
      then show ?thesis using nd up by (simp add: v y(2) del: power_Suc)
    qed
  qed (simp add: v)
  then show ?thesis using J y(4) by (intro exI [of _ "(y, e)"]) (simp add: v)
qed

lemma newton_loop:
  assumes A: "mpq_ok A" "0 < mpq_val A" and p: "0 < mpq_val p" and k: "0 < k" and cop: "coprime (dn A) (int k)"
    and body: "newton_body k A p step" and x: "mpq_ok x" "0 < mpq_val x" "newton_den A x"
  shows "outcome (\<lambda>env r. bind_res (while_res (\<lambda>s. \<not> nw_done s) (step env) \<lparr>nw_lim = r, nw_x = x, nw_done = False\<rparr>) (\<lambda>s. Inr (nw_x s, nw_lim s)))
    (\<lambda>y. mpq_ok y \<and> (\<exists>x > 0. mpq_val y = newton k (mpq_val A) x \<and> \<bar>mpq_val y - x\<bar> < mpq_val p))"
proof -
  let ?S = "\<lambda>r v. case v of (x, d) \<Rightarrow> \<lparr>nw_lim = r, nw_x = x, nw_done = d\<rparr>"
  have I: "newton_inv k A p (x, False)" using x by (simp add: newton_inv_def)
  have "\<exists>j w. newton_inv k A p w \<and> \<not> \<not> snd w \<and> (\<forall>env r. while_res (\<lambda>s. \<not> nw_done s) (step env) (?S r (x, False))
      = bind_res (checkpoints env j r) (\<lambda>r. Inr (?S r w)))"
    by (rule while_outcome [where B = "\<lambda>v. \<not> snd v" and m = "newton_measure k A p", OF I _ newton_step_inv [OF A p k cop body]])
      (auto split: prod.splits)
  then have "outcome (\<lambda>env r. bind_res (while_res (\<lambda>s. \<not> nw_done s) (step env) (?S r (x, False))) (\<lambda>s. Inr (nw_x s, nw_lim s)))
      (\<lambda>y. mpq_ok y \<and> (\<exists>x > 0. mpq_val y = newton k (mpq_val A) x \<and> \<bar>mpq_val y - x\<bar> < mpq_val p))"
    by (rule while_outcome_result [where g = fst]) (auto simp: newton_inv_def)
  then show ?thesis by simp
qed

section \<open>The enclosure of a root\<close>

text \<open>A step that has moved by less than \<open>p\<close> leaves an interval of width less than \<open>n * p\<close>.\<close>

lemma newton_width:
  fixes A x :: "'a :: linordered_field"
  assumes "0 < A" "0 < x" "\<bar>newton k A x - x\<bar> < p"
  shows "newton k A x - A / newton k A x ^ k < of_nat (Suc k) * p"
proof -
  let ?y = "newton k A x" and ?n = "of_nat (Suc k) :: 'a"
  have y0: "0 < ?y" using newton_pos assms(1,2) .
  have n: "?n * ?y = of_nat k * x + A / x ^ k" by (simp add: newton_def del: of_nat_Suc)
  have w: "?n * \<bar>?y - x\<bar> < ?n * p" using assms(3) by (intro mult_strict_left_mono) (simp_all del: of_nat_Suc)
  show ?thesis
  proof (cases "A \<le> x ^ Suc k")
    case True
    then have le: "?y \<le> x" using newton_falls assms(2) by blast
    then have "A / x ^ k \<le> A / ?y ^ k" using assms(1) y0 by (intro divide_left_mono power_mono) simp_all
    moreover have "x - A / x ^ k = ?n * (x - ?y)" using n by (simp add: algebra_simps)
    ultimately have "?y - A / ?y ^ k \<le> ?n * (x - ?y)" using le by linarith
    moreover have "x - ?y = \<bar>?y - x\<bar>" using le by simp
    ultimately show ?thesis using w by (metis le_less_trans)
  next
    case False
    define e where "e = (x - ?y) / ?y"
    have xy: "x = ?y * (1 + e)" using y0 by (simp add: e_def field_simps)
    have e1: "- 1 \<le> e" using y0 assms(2) by (simp add: e_def pos_le_divide_eq)
    have "1 + ?n * e \<le> (1 + e) ^ Suc k" by (rule Bernoulli_inequality [OF e1])
    then have "?y * (1 + ?n * e) \<le> ?y * (1 + e) ^ Suc k" using y0 by (intro mult_left_mono) simp_all
    moreover have "?y ^ k * (?y * (1 + e) ^ Suc k) = x ^ Suc k" by (subst (2) xy) (simp add: power_mult_distrib)
    then have "?y * (1 + e) ^ Suc k = x ^ Suc k / ?y ^ k" using y0 by (simp add: field_simps)
    moreover have "x ^ Suc k / ?y ^ k \<le> A / ?y ^ k" using False y0 by (intro divide_right_mono) simp_all
    moreover have "?y * (1 + ?n * e) = ?y - ?n * (?y - x)" using y0 by (simp add: e_def field_simps)
    ultimately have "?y - A / ?y ^ k \<le> ?n * (?y - x)" by linarith
    moreover have "?n * (?y - x) \<le> ?n * \<bar>?y - x\<bar>" by (intro mult_left_mono) (simp_all del: of_nat_Suc)
    ultimately show ?thesis using w by linarith
  qed
qed

lemma rough_approx_yields:
  assumes "mpq_ok A" "1 \<le> mpq_val A" "2 \<le> unat n"
  shows "yields (rough_approx_nth_root A n) (\<lambda>x. mpq_ok x \<and> 0 < mpq_val x \<and> dn x = 1)"
proof -
  obtain k where k: "mpq_prev_power_of_two A = Inr k" using mpq_prev_power_of_two_yields [OF assms(1,2)] by (auto elim!: yieldsE)
  have "unat (of_nat k div n) < 2 ^ 31"
  proof -
    have "unat (of_nat k div n) = unat (of_nat k :: digit) div unat n" by (simp add: unat_div_distrib)
    also have "\<dots> \<le> unat (of_nat k :: digit) div 2" using assms(3) by (intro div_le_mono2) simp_all
    also have "\<dots> < 2 ^ 31" using unsigned_less [of "of_nat k :: digit", where ?'a = nat] by simp
    finally show ?thesis .
  qed
  then obtain x where x: "mpq_power (mk_q 2) (of_nat k div n) = Inr x" "mpq_ok x" "mpq_val x = 2 ^ unat (of_nat k div n)"
    using mpq_power_yields [of "mk_q 2" "of_nat k div n"] by (auto simp: int_limits elim!: yieldsE)
  have "dn x dvd 1" by (rule den_dvd [OF x(2), of "2 ^ unat (of_nat k div n)"]) (simp_all add: x(3))
  then have "dn x = 1" using mpq_okD(5) [OF x(2)] by simp
  moreover have "0 < n" using assms(3) by (simp add: word_less_nat_alt)
  ultimately show ?thesis using x k assms(1,2) by (simp add: rough_approx_nth_root_def)
qed

lemma mpq_set_unsigned_val: "mpq_ok (mpq_set_unsigned v)" "mpq_val (mpq_set_unsigned v) = of_nat (unat v)"
proof -
  have "- (2 ^ 63) \<le> uint v" by (rule order_trans [OF _ uint_ge_0]) simp
  moreover have "uint v < 2 ^ 63" using uint_lt2p [of v] by simp
  ultimately have "mpz_wf (mpz_set_unsigned v)" unfolding mpz_set_unsigned_i64 by (rule mpz_set_i64_wf)
  then show "mpq_ok (mpq_set_unsigned v)" "mpq_val (mpq_set_unsigned v) = of_nat (unat v)"
    unfolding mpq_set_unsigned_def mpq_of_z_ok mpz_set_unsigned_val by simp_all
qed

lemma approx_nth_root_outcome:
  assumes A: "mpq_ok A" "0 < mpq_val A" and p: "mpq_ok p" "0 < mpq_val p" and n: "2 \<le> unat n" "unat n \<le> 2 ^ 31"
    and cop: "coprime (dn A) (int (unat n - 1))"
  shows "outcome (\<lambda>env r. approx_nth_root env A n p r)
    (\<lambda>y. mpq_ok y \<and> (\<exists>x > 0. mpq_val y = newton (unat n - 1) (mpq_val A) x \<and> \<bar>mpq_val y - x\<bar> < mpq_val p))"
proof -
  have pre: "\<not> \<not> (mpq_is_pos A \<and> n > 1)" using A n(1) by (simp add: word_less_nat_alt)
  show ?thesis unfolding approx_nth_root_def if_not_P [OF pre]
proof (rule outcome_pure)
  show "yields (if mpq_lt A (mk_q 1) then Inr A else rough_approx_nth_root A n) (\<lambda>x. mpq_ok x \<and> 0 < mpq_val x \<and> newton_den A x)"
    using A rough_approx_yields [OF A(1) _ n(1)] by (auto simp: newton_den_def int_limits elim!: yields_mono)
  fix x assume x: "mpq_ok x \<and> 0 < mpq_val x \<and> newton_den A x"
  note S = mpq_set_unsigned_val [of n]
  obtain m where m: "mpq_dec (mpq_set_unsigned n) = Inr m" "mpq_ok m" "mpq_val m = of_nat (unat n - 1)"
    using mpq_inc_dec_yields(2) [OF S(1)] n by (auto simp: S of_nat_diff elim!: yieldsE)
  have k: "0 < unat n - 1" using n by simp
  note L = newton_loop [OF A p(2) k cop _ conjunct1 [OF x] conjunct1 [OF conjunct2 [OF x]] conjunct2 [OF conjunct2 [OF x]]]
  show "outcome (\<lambda>env r. bind_res (if n = 2 then while_res (\<lambda>s. \<not> nw_done s) (sqrt_step env A p) \<lparr>nw_lim = r, nw_x = x, nw_done = False\<rparr>
      else bind_res (mpq_dec (mpq_set_unsigned n)) (\<lambda>num_n_1. while_res (\<lambda>s. \<not> nw_done s)
        (newton_step env A n (mpq_set_unsigned n) num_n_1 p) \<lparr>nw_lim = r, nw_x = x, nw_done = False\<rparr>))
      (\<lambda>s. Inr (nw_x s, nw_lim s)))
    (\<lambda>y. mpq_ok y \<and> (\<exists>x > 0. mpq_val y = newton (unat n - 1) (mpq_val A) x \<and> \<bar>mpq_val y - x\<bar> < mpq_val p))"
  proof (cases "n = 2")
    case True
    have "unat (2 :: digit) - 1 = 1" by simp
    then show ?thesis using L [OF _ ] sqrt_step_body [OF A p(1)] True by simp
  next
    case False
    then show ?thesis using L [OF newton_step_body [OF A p(1) n S m(2,3)]] by (simp add: m(1))
  qed
qed
qed

lemma A_div_x_n_yields:
  assumes "mpq_ok A" "mpq_ok x" "0 < mpq_val x" "unat n < 2 ^ 31"
  shows "yields (A_div_x_n A x n) (\<lambda>r. mpq_ok r \<and> mpq_val r = mpq_val A / mpq_val x ^ unat n)"
proof (cases "n = 1")
  case True
  then show ?thesis using mpq_div_yields [OF assms(1,2)] assms(3) by (auto simp: A_div_x_n_def)
next
  case False
  obtain y where y: "mpq_power x n = Inr y" "mpq_ok y" "mpq_val y = mpq_val x ^ unat n"
    using mpq_power_yields [OF assms(2,4)] by (auto elim!: yieldsE)
  then show ?thesis using at3_div_yields [OF assms(1) y(2), of 1] assms(3) False by (auto simp: A_div_x_n_def)
qed

text \<open>\<open>lo\<close> and \<open>hi\<close> enclose the \<open>n\<close>-th root of \<open>a\<close>.\<close>

definition root_bounds :: "nat \<Rightarrow> rat \<Rightarrow> mpq \<Rightarrow> mpq \<Rightarrow> bool" where
  "root_bounds n a lo hi \<longleftrightarrow> mpq_ok lo \<and> mpq_ok hi \<and> rv lo \<le> root n (real_of_rat a) \<and> root n (real_of_rat a) \<le> rv hi"

lemma nth_root_pos_outcome:
  assumes A: "mpq_ok A" "0 < mpq_val A" and p: "mpq_ok p" "0 < mpq_val p" and n: "2 \<le> unat n" "unat n \<le> 2 ^ 31"
    and cop: "coprime (dn A) (int (unat n - 1))"
  shows "outcome (\<lambda>env r. nth_root_pos env A n p r)
    (\<lambda>(lo, hi). root_bounds (unat n) (mpq_val A) lo hi \<and> 0 < mpq_val lo \<and> mpq_val hi - mpq_val lo < of_nat (unat n) * mpq_val p)"
  unfolding nth_root_pos_def
proof (rule outcome_bind [OF approx_nth_root_outcome [OF assms]], clarify)
  fix hi :: mpq and x
  assume hi: "mpq_ok hi" and x: "0 < x" "mpq_val hi = newton (unat n - 1) (mpq_val A) x" "\<bar>mpq_val hi - x\<bar> < mpq_val p"
  let ?k = "unat n - 1" and ?n = "unat n"
  have k: "Suc ?k = ?n" "0 < ?n" using n by simp_all
  have n1: "unat (n - 1) = ?k" using n(1) by (simp add: unat_sub_if' word_le_nat_alt)
  have lt: "unat (n - 1) < 2 ^ 31" using n n1 by linarith
  have h0: "0 < mpq_val hi" using newton_pos A(2) x by metis
  have le: "mpq_val A \<le> mpq_val hi ^ ?n" using newton_above [OF A(2) x(1), of ?k] x(2) k(1) by simp
  obtain lo where lo: "A_div_x_n A hi (n - 1) = Inr lo" "mpq_ok lo" "mpq_val lo = mpq_val A / mpq_val hi ^ ?k"
    using A_div_x_n_yields [OF A(1) hi h0, of "n - 1"] lt n1 by (auto elim!: yieldsE)
  have l0: "0 < mpq_val lo" using lo(3) A(2) h0 by simp
  have hk: "mpq_val hi ^ ?n = mpq_val hi * mpq_val hi ^ ?k" using k(1) by (metis power_Suc)
  have lh: "mpq_val lo \<le> mpq_val hi" using le h0 by (simp add: lo(3) pos_divide_le_eq hk)
  have "mpq_val lo ^ ?n \<le> mpq_val A"
  proof -
    have "mpq_val lo ^ ?n = mpq_val lo * mpq_val lo ^ ?k" using k(1) by (metis power_Suc)
    also have "\<dots> \<le> mpq_val lo * mpq_val hi ^ ?k" using lh l0 by (intro mult_left_mono power_mono) simp_all
    also have "\<dots> = mpq_val A" using h0 by (simp add: lo(3))
    finally show ?thesis .
  qed
  then have "real_of_rat (mpq_val lo ^ ?n) \<le> real_of_rat (mpq_val A)" by (simp only: of_rat_less_eq)
  then have "rv lo \<le> root ?n (real_of_rat (mpq_val A))"
    using power_root_order(1) [OF k(2), of "rv lo" "real_of_rat (mpq_val A)"] l0 by (simp add: of_rat_power)
  moreover have "real_of_rat (mpq_val A) \<le> real_of_rat (mpq_val hi ^ ?n)" using le by (simp only: of_rat_less_eq)
  then have "root ?n (real_of_rat (mpq_val A)) \<le> rv hi"
    using power_root_order(3) [OF k(2), of "rv hi" "real_of_rat (mpq_val A)"] h0 by (simp add: of_rat_power)
  moreover have "mpq_val hi - mpq_val lo < of_nat ?n * mpq_val p"
    using newton_width [OF A(2) x(1) x(3) [unfolded x(2)]] by (simp only: x(2) lo(3) k(1))
  ultimately have Q: "root_bounds (unat n) (mpq_val A) lo hi \<and> 0 < mpq_val lo \<and> mpq_val hi - mpq_val lo < of_nat (unat n) * mpq_val p"
    using lo(2) hi l0 by (simp add: root_bounds_def)
  have "\<not> mpq_lt hi lo" using lo(2) hi lh by (simp add: not_less)
  then show "outcome (\<lambda>env s. bind_res (A_div_x_n A hi (n - 1)) (\<lambda>lo. Inr (if mpq_lt hi lo then (hi, lo) else (lo, hi), s)))
    (\<lambda>(lo, hi). root_bounds (unat n) (mpq_val A) lo hi \<and> 0 < mpq_val lo \<and> mpq_val hi - mpq_val lo < of_nat (unat n) * mpq_val p)"
    using Q by (simp add: lo(1) outcome_Inr)
qed

text \<open>When may a root be asked for: the exponent is not zero, and the argument is not negative for an even
  one.\<close>

definition root_arg :: "nat \<Rightarrow> mpq \<Rightarrow> mpq \<Rightarrow> bool" where
  "root_arg n a p \<longleftrightarrow> mpq_ok a \<and> mpq_ok p \<and> 0 < mpq_val p \<and> 0 < n \<and> n \<le> 2 ^ 31 \<and> (odd n \<or> 0 \<le> mpq_val a)
     \<and> coprime (dn a) (int (n - 1))"

lemma nth_root_outcome:
  assumes "root_arg (unat n) a p"
  shows "outcome (\<lambda>env r. nth_root env a n p r)
    (\<lambda>(lo, hi). root_bounds (unat n) (mpq_val a) lo hi \<and> mpq_val hi - mpq_val lo < of_nat (unat n) * mpq_val p)"
proof -
  have a: "mpq_ok a" and p: "mpq_ok p" "0 < mpq_val p" and n: "0 < unat n" "unat n \<le> 2 ^ 31"
    and sg: "odd (unat n) \<or> 0 \<le> mpq_val a" and cop: "coprime (dn a) (int (unat n - 1))"
    using assms unfolding root_arg_def by blast+
  have pre: "n > 0 \<and> (n mod 2 \<noteq> 0 \<or> mpq_is_nonneg a)"
    using n(1) sg a by (auto simp: digit_even word_less_nat_alt)
  show ?thesis
  proof (cases "n = 1 \<or> mpq_val a = 0 \<or> mpq_val a = 1 \<or> mpq_val a = - 1")
    case True
    have "root (unat n) (rv a) = rv a"
      using True n sg by (auto simp: real_root_minus)
    moreover have "nth_root env a n p r = Inr ((a, a), r)" for env r using True a pre unfolding nth_root_def by simp
    moreover have "0 < of_nat (unat n) * mpq_val p" using n(1) p(2) by (intro mult_pos_pos) (simp_all only: of_nat_0_less_iff)
    ultimately show ?thesis using a by (auto simp: root_bounds_def intro!: outcome_Inr)
  next
    case False
    have "unat n \<noteq> 1" using False by (metis unat_1 word_unat_eq_iff)
    then have n2: "2 \<le> unat n" using n(1) by linarith
    have A: "mpq_ok (mpq_abs a)" "mpq_val (mpq_abs a) = \<bar>mpq_val a\<bar>" "0 < mpq_val (mpq_abs a)" using a False by simp_all
    have d: "dn (mpq_abs a) = dn a" by (simp add: mpq_abs_def)
    note P = nth_root_pos_outcome [OF A(1,3) p n2 n(2), unfolded d, OF cop]
    have run: "nth_root env a n p r = bind_res (nth_root_pos env (mpq_abs a) n p r) (\<lambda>((lo, hi), rl).
        if mpq_is_neg a then Inr ((mpq_neg hi, mpq_neg lo), rl) else Inr ((lo, hi), rl))" for env r
      unfolding nth_root_def using False a pre by simp
    show ?thesis unfolding run
    proof (rule outcome_bind [OF P], clarify)
      fix lo hi :: mpq
      assume b: "root_bounds (unat n) (mpq_val (mpq_abs a)) lo hi" "mpq_val hi - mpq_val lo < of_nat (unat n) * mpq_val p"
      show "outcome (\<lambda>env s. if mpq_is_neg a then Inr ((mpq_neg hi, mpq_neg lo), s) else Inr ((lo, hi), s))
        (\<lambda>(lo, hi). root_bounds (unat n) (mpq_val a) lo hi \<and> mpq_val hi - mpq_val lo < of_nat (unat n) * mpq_val p)"
        using b a A(2) n(1)
        by (cases "mpq_is_neg a") (auto simp: root_bounds_def of_rat_minus real_root_minus abs_if intro!: outcome_Inr)
    qed
  qed
qed

section \<open>Bisection\<close>

text \<open>\<open>nth_root_slow\<close> keeps the root between its bounds and halves their distance.\<close>

definition slow_inv :: "nat \<Rightarrow> mpq \<Rightarrow> mpq \<Rightarrow> mpq \<times> mpq \<times> bool \<Rightarrow> bool" where
  "slow_inv n a p = (\<lambda>(lo, hi, d). root_bounds n (mpq_val a) lo hi \<and> (odd n \<or> 0 \<le> mpq_val lo)
     \<and> (d \<longrightarrow> mpq_val hi - mpq_val lo \<le> mpq_val p))"

fun slow_measure :: "mpq \<Rightarrow> mpq \<times> mpq \<times> bool \<Rightarrow> nat" where
  "slow_measure p (lo, hi, d) = (if d then 0 else 1 + nat \<lceil>(mpq_val hi - mpq_val lo) / mpq_val p\<rceil>)"

abbreviation slow_state_of :: "reslimit \<Rightarrow> mpq \<times> mpq \<times> bool \<Rightarrow> slow_state" where
  "slow_state_of r v \<equiv> (case v of (lo, hi, d) \<Rightarrow> \<lparr>sl_lim = r, sl_lo = lo, sl_hi = hi, sl_done = d\<rparr>)"

lemma halving_ceiling:
  assumes "0 < (p :: rat)" "p < v / 2"
  shows "nat \<lceil>v / 2 / p\<rceil> < nat \<lceil>v / p\<rceil>"
proof -
  have "v / 2 \<le> v - p" "0 < v / 2" using assms by linarith+
  then show ?thesis using ceiling_step assms(1) by blast
qed

lemma slow_step_outcome:
  assumes a: "mpq_ok a" and p: "mpq_ok p" "0 < mpq_val p" and n: "0 < unat n" "unat n < 2 ^ 31"
    and I: "slow_inv (unat n) a p v" and run: "\<not> snd (snd v)"
  shows "\<exists>w. slow_inv (unat n) a p w \<and> slow_measure p w < slow_measure p v
    \<and> (\<forall>env r. slow_step env a n p (slow_state_of r v) = bind_res (checkpoint env r) (\<lambda>r. Inr (slow_state_of r w)))"
proof -
  obtain l h where v: "v = (l, h, False)" using run by (cases v) auto
  let ?n = "unat n" and ?lo = "mpq_val l" and ?hi = "mpq_val h" and ?r = "root (unat n) (rv a)"
  have ok: "mpq_ok l" "mpq_ok h" and b: "rv l \<le> ?r" "?r \<le> rv h" and sg: "odd ?n \<or> 0 \<le> ?lo"
    using I by (auto simp: v slow_inv_def root_bounds_def)
  have lh: "?lo \<le> ?hi" using order_trans [OF b] by (simp add: of_rat_less_eq)
  obtain c0 where c0: "mpq_add h l = Inr c0" "mpq_ok c0" "mpq_val c0 = ?hi + ?lo"
    using mpq_add_yields [OF ok(2,1)] by (auto elim!: yieldsE)
  obtain c where c: "at3 div_at 0 1 0 c0 (mk_q 2) = Inr c" "mpq_ok c" "mpq_val c = (?hi + ?lo) / 2"
    using at3_div_yields [OF c0(2), of "mk_q 2" 0] c0(3) by (auto simp: int_limits elim!: yieldsE)
  obtain cn where cn: "mpq_power c n = Inr cn" "mpq_ok cn" "mpq_val cn = mpq_val c ^ ?n"
    using mpq_power_yields [OF c(2) n(2)] by (auto elim!: yieldsE)
  have "odd ?n \<or> 0 \<le> mpq_val c" using sg lh unfolding c(3) by (elim disjE) (simp_all add: field_simps)
  then have sgc: "odd ?n \<or> 0 \<le> mpq_val c" "odd ?n \<or> 0 \<le> rv c" by simp_all
  note ord = power_root_order [OF n(1) sgc(2), of "rv a"]
  have cmp: "mpq_val a < mpq_val cn \<longleftrightarrow> ?r < rv c" "mpq_val cn = mpq_val a \<longleftrightarrow> ?r = rv c"
  proof -
    have "mpq_val a < mpq_val cn \<longleftrightarrow> rv a < rv c ^ ?n" unfolding cn(3) by (simp flip: of_rat_power add: of_rat_less)
    then show "mpq_val a < mpq_val cn \<longleftrightarrow> ?r < rv c" using ord(4) by simp
    have "mpq_val cn = mpq_val a \<longleftrightarrow> rv c ^ ?n = rv a" unfolding cn(3) by (simp flip: of_rat_power)
    also have "\<dots> \<longleftrightarrow> rv c ^ ?n \<le> rv a \<and> rv a \<le> rv c ^ ?n" by (rule order_eq_iff)
    also have "\<dots> \<longleftrightarrow> ?r = rv c" unfolding ord(1,3) by auto
    finally show "mpq_val cn = mpq_val a \<longleftrightarrow> ?r = rv c" .
  qed
  define w where "w = (?hi - ?lo) / 2"
  have half: "mpq_val c - ?lo = w" "?hi - mpq_val c = w" by (simp_all add: c(3) w_def field_simps)
  obtain e where e: "mpq_sub c l = Inr e" "mpq_ok e" "mpq_val e = w"
    using mpq_sub_yields [OF c(2) ok(1)] half by (auto elim!: yieldsE)
  obtain f where f: "mpq_sub h c = Inr f" "mpq_ok f" "mpq_val f = w"
    using mpq_sub_yields [OF ok(2) c(2)] half by (auto elim!: yieldsE)
  have dec: "\<not> w \<le> mpq_val p \<Longrightarrow> nat \<lceil>w / mpq_val p\<rceil> < nat \<lceil>(?hi - ?lo) / mpq_val p\<rceil>"
    using halving_ceiling [OF p(2)] unfolding w_def by simp
  have cn_a: "mpq_gt cn a \<longleftrightarrow> ?r < rv c" "mpq_eq cn a \<longleftrightarrow> ?r = rv c" using cmp cn(2) a by simp_all
  note step = slow_step_def bind_res.simps c0(1) c(1) cn(1) cn_a Let_def slow_state.simps prod.case v
  note spec = slow_inv_def root_bounds_def slow_measure.simps prod.case v
  have ef: "mpq_le e p \<longleftrightarrow> w \<le> mpq_val p" "mpq_le f p \<longleftrightarrow> w \<le> mpq_val p" using e(2,3) f(2,3) p(1) by simp_all
  consider "?r < rv c" | "?r = rv c" | "rv c < ?r" by linarith
  then show ?thesis
  proof cases
    case 1
    then have "slow_step env a n p (slow_state_of r v) = bind_res (checkpoint env r) (\<lambda>r. Inr (slow_state_of r (l, c, mpq_le e p)))" for env r
      unfolding step by (simp add: e(1))
    moreover have "slow_inv ?n a p (l, c, mpq_le e p) \<and> slow_measure p (l, c, mpq_le e p) < slow_measure p v"
      using 1 ok b sg c(2) half(1) dec unfolding spec ef by (simp del: zero_less_ceiling)
    ultimately show ?thesis by blast
  next
    case 2
    then have "slow_step env a n p (slow_state_of r v) = bind_res (checkpoint env r) (\<lambda>r. Inr (slow_state_of r (c, c, True)))" for env r
      unfolding step by simp
    moreover have "slow_inv ?n a p (c, c, True) \<and> slow_measure p (c, c, True) < slow_measure p v"
      using 2 sgc c(2) p unfolding spec by simp
    ultimately show ?thesis by blast
  next
    case 3
    then have "slow_step env a n p (slow_state_of r v) = bind_res (checkpoint env r) (\<lambda>r. Inr (slow_state_of r (c, h, mpq_le f p)))" for env r
      unfolding step by (simp add: f(1))
    moreover have "slow_inv ?n a p (c, h, mpq_le f p) \<and> slow_measure p (c, h, mpq_le f p) < slow_measure p v"
      using 3 ok b sgc c(2) half(2) dec unfolding spec ef by (simp del: zero_less_ceiling)
    ultimately show ?thesis by blast
  qed
qed

text \<open>The bounds from which the bisection starts.\<close>

definition slow_start :: "mpq \<Rightarrow> mpq \<times> mpq" where
  "slow_start a = (if mpq_lt a (mk_q (- 1)) then (a, mk_q (- 1))
     else if mpq_is_neg a then (mk_q (- 1), mk_q 0)
     else if mpq_lt a (mk_q 1) then (mk_q 0, mk_q 1) else (mk_q 1, a))"

lemma power_away_from_one:
  fixes z :: real
  assumes "0 < n"
  shows "1 \<le> z \<Longrightarrow> z \<le> z ^ n" "odd n \<Longrightarrow> z \<le> - 1 \<Longrightarrow> z ^ n \<le> z"
proof -
  show "1 \<le> z \<Longrightarrow> z \<le> z ^ n" using self_le_power assms by blast
  show "z ^ n \<le> z" if "odd n" "z \<le> - 1"
    using self_le_power [of "- z" n] assms that by simp
qed

lemma slow_start_bounds:
  assumes a: "mpq_ok a" and n: "0 < n" and sg: "odd n \<or> 0 \<le> mpq_val a"
  shows "case slow_start a of (lo, hi) \<Rightarrow> root_bounds n (mpq_val a) lo hi \<and> (odd n \<or> 0 \<le> mpq_val lo)"
proof -
  note ord = power_root_order(1,3) [OF n, where z = "rv a", symmetric]
  have neg: "odd n" if "mpq_val a < 0" using sg that by auto
  consider "mpq_val a < - 1" | "- 1 \<le> mpq_val a" "mpq_val a < 0" | "0 \<le> mpq_val a" "mpq_val a < 1" | "1 \<le> mpq_val a"
    by linarith
  then show ?thesis
  proof cases
    case 1
    then have "rv a \<le> - 1" by (metis less_imp_le of_rat_less_eq of_rat_minus of_rat_1)
    moreover have o: "odd n" using 1 neg by simp
    ultimately have "rv a ^ n \<le> rv a" "rv a \<le> (- 1) ^ n" using power_away_from_one(2) [OF n] by simp_all
    then have "rv a \<le> root n (rv a)" "root n (rv a) \<le> - 1" using ord o by simp_all
    then show ?thesis using 1 a o by (simp add: slow_start_def root_bounds_def int_limits of_rat_minus)
  next
    case 2
    have o: "odd n" using 2 neg by simp
    have "- 1 \<le> rv a" "rv a \<le> 0" using 2 by (metis of_rat_less_eq of_rat_minus of_rat_1, simp)
    then have "- 1 \<le> root n (rv a)" "root n (rv a) \<le> 0" using ord(1) [of "- 1"] o n by simp_all
    then show ?thesis using 2 a o by (simp add: slow_start_def root_bounds_def int_limits of_rat_minus)
  next
    case 3
    have "0 \<le> rv a" "rv a \<le> 1" using 3 by simp_all
    then have "0 \<le> root n (rv a)" "root n (rv a) \<le> 1" using n by simp_all
    then show ?thesis using 3 a by (simp add: slow_start_def root_bounds_def int_limits)
  next
    case 4
    have "1 \<le> rv a" using 4 by simp
    then have "1 \<le> root n (rv a)" "root n (rv a) \<le> rv a"
      using ord(2) [of "rv a"] power_away_from_one(1) [OF n, of "rv a"] n by simp_all
    then show ?thesis using 4 a by (simp add: slow_start_def root_bounds_def int_limits)
  qed
qed

lemma nth_root_slow_outcome:
  assumes a: "mpq_ok a" and p: "mpq_ok p" "0 < mpq_val p" and n: "0 < unat n" "unat n < 2 ^ 31"
    and sg: "odd (unat n) \<or> 0 \<le> mpq_val a"
  shows "outcome (\<lambda>env r. nth_root_slow env a n p r)
    (\<lambda>(lo, hi). root_bounds (unat n) (mpq_val a) lo hi \<and> mpq_val hi - mpq_val lo \<le> mpq_val p)"
proof -
  have pre: "\<not> (n mod 2 = 0 \<and> \<not> mpq_is_nonneg a)" using sg a by (auto simp: digit_even)
  show ?thesis
  proof (cases "mpq_val a = 0 \<or> mpq_val a = 1 \<or> (odd (unat n) \<and> mpq_val a = - 1)")
    case True
    have "root (unat n) (rv a) = rv a" using True n by (auto simp: real_root_minus)
    moreover have "nth_root_slow env a n p r = Inr ((a, a), r)" for env r
      using True a unfolding nth_root_slow_def Let_def if_not_P [OF pre] by (simp add: digit_even int_limits)
    ultimately show ?thesis using a p by (auto simp: root_bounds_def intro!: outcome_Inr)
  next
    case False
    obtain lo hi where lh: "slow_start a = (lo, hi)" by fastforce
    have I: "slow_inv (unat n) a p (lo, hi, False)" using slow_start_bounds [OF a n(1) sg] by (simp add: slow_inv_def lh)
    have run: "nth_root_slow env a n p r = bind_res (while_res (\<lambda>s. \<not> sl_done s) (slow_step env a n p) (slow_state_of r (lo, hi, False)))
        (\<lambda>s. Inr ((sl_lo s, sl_hi s), sl_lim s))" for env r
      unfolding nth_root_slow_def slow_start_def [symmetric] lh Let_def if_not_P [OF pre] using False a by (auto simp: digit_even int_limits)
    have "\<exists>k w. slow_inv (unat n) a p w \<and> \<not> \<not> snd (snd w) \<and> (\<forall>env r. while_res (\<lambda>s. \<not> sl_done s) (slow_step env a n p) (slow_state_of r (lo, hi, False))
        = bind_res (checkpoints env k r) (\<lambda>r. Inr (slow_state_of r w)))"
      by (rule while_outcome [where B = "\<lambda>v. \<not> snd (snd v)" and m = "slow_measure p", OF I _ slow_step_outcome [OF a p n]])
        (auto split: prod.splits)
    then show ?thesis unfolding run
      by (rule while_outcome_result [where g = "\<lambda>(lo, hi, d). (lo, hi)"]) (auto simp: slow_inv_def)
  qed
qed

section \<open>Enclosures of the roots of an interval\<close>

text \<open>When may the root of an interval be asked for: the finite bounds are arguments of roots, and for an even
  exponent the lower bound is finite.\<close>

definition root_ivl :: "nat \<Rightarrow> interval \<Rightarrow> mpq \<Rightarrow> bool" where
  "root_ivl n a p \<longleftrightarrow> ivl_ok a \<and> 0 < n \<and> (odd n \<or> \<not> m_lower_inf a)
     \<and> (\<not> m_lower_inf a \<longrightarrow> root_arg n (m_lower a) p) \<and> (\<not> m_upper_inf a \<longrightarrow> root_arg n (m_upper a) p)"

text \<open>How far the bounds of \<open>c\<close> are from the roots of the bounds of \<open>a\<close>.\<close>

definition near_roots :: "nat \<Rightarrow> interval \<Rightarrow> interval \<Rightarrow> mpq \<Rightarrow> bool" where
  "near_roots n a c p \<longleftrightarrow> m_lower_inf c = m_lower_inf a \<and> m_upper_inf c = m_upper_inf a
     \<and> (\<not> m_lower_inf a \<longrightarrow> root n (rv (m_lower a)) < rv (m_lower c) + of_nat n * rv p)
     \<and> (\<not> m_upper_inf a \<longrightarrow> rv (m_upper c) - of_nat n * rv p < root n (rv (m_upper a)))"

lemma root_bounds_lower:
  assumes "root_bounds n (mpq_val (m_lower a)) lo hi" "0 < n" "mpq_val hi - mpq_val lo < of_nat n * mpq_val p"
  shows "lower_holds a x \<Longrightarrow> \<not> m_lower_inf a \<Longrightarrow> if m_lower_open a \<and> mpq_eq lo hi then rv lo < root n x else rv lo \<le> root n x"
    "root n (rv (m_lower a)) < rv lo + of_nat n * rv p"
proof -
  have ok: "mpq_ok lo" "mpq_ok hi" and b: "rv lo \<le> root n (rv (m_lower a))" "root n (rv (m_lower a)) \<le> rv hi"
    using assms(1) by (simp_all add: root_bounds_def)
  show "if m_lower_open a \<and> mpq_eq lo hi then rv lo < root n x else rv lo \<le> root n x"
    if "lower_holds a x" "\<not> m_lower_inf a"
  proof (cases "m_lower_open a \<and> mpq_eq lo hi")
    case True
    then have "rv lo = root n (rv (m_lower a))" using b ok by simp
    moreover have "rv (m_lower a) < x" using that True by (simp add: lower_holds_def)
    ultimately show ?thesis using True assms(2) by simp
  next
    case False
    have "rv (m_lower a) \<le> x" using that by (auto simp: lower_holds_def split: if_splits)
    then have "root n (rv (m_lower a)) \<le> root n x" using assms(2) by simp
    then show ?thesis using False b by auto
  qed
  have "real_of_rat (mpq_val hi - mpq_val lo) < real_of_rat (of_nat n * mpq_val p)" using assms(3) by (simp only: of_rat_less)
  then show "root n (rv (m_lower a)) < rv lo + of_nat n * rv p" using b by (simp add: of_rat_diff of_rat_mult)
qed

lemma root_bounds_upper:
  assumes "root_bounds n (mpq_val (m_upper a)) lo hi" "0 < n" "mpq_val hi - mpq_val lo < of_nat n * mpq_val p"
  shows "upper_holds a x \<Longrightarrow> \<not> m_upper_inf a \<Longrightarrow> if m_upper_open a \<and> mpq_eq lo hi then root n x < rv hi else root n x \<le> rv hi"
    "rv hi - of_nat n * rv p < root n (rv (m_upper a))"
proof -
  have ok: "mpq_ok lo" "mpq_ok hi" and b: "rv lo \<le> root n (rv (m_upper a))" "root n (rv (m_upper a)) \<le> rv hi"
    using assms(1) by (simp_all add: root_bounds_def)
  show "if m_upper_open a \<and> mpq_eq lo hi then root n x < rv hi else root n x \<le> rv hi"
    if "upper_holds a x" "\<not> m_upper_inf a"
  proof (cases "m_upper_open a \<and> mpq_eq lo hi")
    case True
    then have "rv hi = root n (rv (m_upper a))" using b ok by simp
    moreover have "x < rv (m_upper a)" using that True by (simp add: upper_holds_def)
    ultimately show ?thesis using True assms(2) by simp
  next
    case False
    have "x \<le> rv (m_upper a)" using that by (auto simp: upper_holds_def split: if_splits)
    then have "root n x \<le> root n (rv (m_upper a))" using assms(2) by simp
    then show ?thesis using False b by auto
  qed
  have "real_of_rat (mpq_val hi - mpq_val lo) < real_of_rat (of_nat n * mpq_val p)" using assms(3) by (simp only: of_rat_less)
  then show "rv hi - of_nat n * rv p < root n (rv (m_upper a))" using b by (simp add: of_rat_diff of_rat_mult)
qed

lemma lower_holds_upper [simp]:
  "lower_holds (c\<lparr>m_upper := q\<rparr>) x = lower_holds c x" "lower_holds (c\<lparr>m_upper_inf := i\<rparr>) x = lower_holds c x"
  "lower_holds (c\<lparr>m_upper_open := i\<rparr>) x = lower_holds c x"
  by (simp_all add: lower_holds_def)

lemma root_ivl_one:
  assumes "unat n = 1"
  shows "n = (1 :: digit)"
  using assms by (metis unat_1 word_unat_eq_iff)

lemma nth_root_jst_holds:
  assumes "lower_holds a x \<Longrightarrow> lower_holds c z" "upper_holds a x \<Longrightarrow> upper_holds c z"
  shows "justified (nth_root_jst n) a x a x c z"
  using assms by (auto simp: justified_def deps_hold_def nth_root_jst_def)

lemma root_ivl_lower:
  fixes n :: digit
  assumes "root_ivl (unat n) a p"
  shows "n mod 2 \<noteq> 0 \<or> \<not> lower_is_neg a" "n mod 2 = 0 \<Longrightarrow> \<not> m_lower_inf a"
proof -
  have a: "ivl_ok a" "odd (unat n) \<or> \<not> m_lower_inf a \<and> 0 \<le> mpq_val (m_lower a)"
    using assms unfolding root_ivl_def root_arg_def by blast+
  have "lower_is_neg a \<longleftrightarrow> m_lower_inf a \<or> mpq_val (m_lower a) < 0" using a(1) by (simp add: bound_signs)
  then show "n mod 2 \<noteq> 0 \<or> \<not> lower_is_neg a" using a(2) unfolding digit_even by auto
  show "n mod 2 = 0 \<Longrightarrow> \<not> m_lower_inf a" using a(2) unfolding digit_even by auto
qed

lemma ivl_nth_root_outcome:
  assumes a: "root_ivl (unat n) (\<sigma> a) p" and b: "ivl_ok (\<sigma> b)" and n: "n \<noteq> 1"
  shows "outcome (\<lambda>env r. ivl_nth_root env a n p b \<sigma> r) (writes b \<sigma> (\<lambda>c. ivl_ok c \<and> near_roots (unat n) (\<sigma> a) c p
    \<and> (\<forall>x. (lower_holds (\<sigma> a) x \<longrightarrow> lower_holds c (root (unat n) x)) \<and> (upper_holds (\<sigma> a) x \<longrightarrow> upper_holds c (root (unat n) x)))))"
proof -
  let ?a = "\<sigma> a" and ?n = "unat n"
  have ok: "ivl_ok ?a" and n0: "0 < ?n" and la: "\<not> m_lower_inf ?a \<Longrightarrow> root_arg ?n (m_lower ?a) p"
    and ua: "\<not> m_upper_inf ?a \<Longrightarrow> root_arg ?n (m_upper ?a) p"
    using a unfolding root_ivl_def by blast+
  let ?L = "\<lambda>\<tau>. writes b \<sigma> (\<lambda>c. mpq_ok (m_lower c) \<and> mpq_ok (m_upper c) \<and> m_lower_inf c = m_lower_inf ?a
      \<and> (\<not> m_lower_inf ?a \<longrightarrow> root ?n (rv (m_lower ?a)) < rv (m_lower c) + of_nat ?n * rv p)
      \<and> (\<forall>x. lower_holds ?a x \<longrightarrow> lower_holds c (root ?n x))) \<tau>
      \<and> m_upper_inf (\<tau> a) = m_upper_inf ?a \<and> m_upper (\<tau> a) = m_upper ?a \<and> m_upper_open (\<tau> a) = m_upper_open ?a"
  let ?lower = "\<lambda>env r. if m_lower_inf (\<sigma> a) then
         if \<not> (n mod 2 \<noteq> 0) then Inl Verify_failed else
         Inr (\<sigma>(b := (\<sigma> b)\<lparr>m_lower := mpq_reset (m_lower (\<sigma> b)), m_lower_inf := True, m_lower_open := True\<rparr>), r)
       else bind_res (nth_root env (m_lower (\<sigma> a)) n p r) (\<lambda>((lo, hi), rl).
         let \<sigma> = \<sigma>(b := (\<sigma> b)\<lparr>m_lower_inf := False\<rparr>);
             \<sigma> = \<sigma>(b := (\<sigma> b)\<lparr>m_lower_open := m_lower_open (\<sigma> a) \<and> mpq_eq lo hi\<rparr>)
         in Inr (\<sigma>(b := (\<sigma> b)\<lparr>m_lower := lo\<rparr>), rl))"
  have L: "outcome ?lower ?L"
  proof (cases "m_lower_inf ?a")
    case True
    then have odd: "\<not> \<not> (n mod 2 \<noteq> 0)" using root_ivl_lower(2) [OF a] by argo
    show ?thesis unfolding if_P [OF True] if_not_P [OF odd]
      using b True by (intro outcome_Inr) (simp add: writes_def lower_holds_def)
  next
    case False
    show ?thesis unfolding if_not_P [OF False]
    proof (rule outcome_bind [OF nth_root_outcome [OF la [OF False]]], clarify)
      fix lo hi :: mpq
      assume lh: "root_bounds ?n (mpq_val (m_lower ?a)) lo hi" "mpq_val hi - mpq_val lo < of_nat ?n * mpq_val p"
      note B = root_bounds_lower [OF lh(1) n0 lh(2)]
      have "mpq_ok lo" "mpq_ok hi" using lh(1) by (simp_all add: root_bounds_def)
      then show "outcome (\<lambda>env s. let \<sigma> = \<sigma>(b := (\<sigma> b)\<lparr>m_lower_inf := False\<rparr>);
             \<sigma> = \<sigma>(b := (\<sigma> b)\<lparr>m_lower_open := m_lower_open (\<sigma> a) \<and> mpq_eq lo hi\<rparr>)
         in Inr (\<sigma>(b := (\<sigma> b)\<lparr>m_lower := lo\<rparr>), s)) ?L"
        using b False B(1) [OF _ False] B(2) unfolding Let_def by (intro outcome_Inr) (auto simp: writes_def lower_holds_def)
    qed
  qed
  have run: "ivl_nth_root env a n p b \<sigma> r = bind_res (?lower env r) (\<lambda>(\<sigma>, rl).
        if m_upper_inf (\<sigma> a) then
          Inr (\<sigma>(b := (\<sigma> b)\<lparr>m_upper := mpq_reset (m_upper (\<sigma> b)), m_upper_inf := True, m_upper_open := True\<rparr>), rl)
        else
          bind_res (nth_root env (m_upper (\<sigma> a)) n p rl) (\<lambda>((lo, hi), rl).
          let \<sigma> = \<sigma>(b := (\<sigma> b)\<lparr>m_upper_inf := False\<rparr>);
              \<sigma> = \<sigma>(b := (\<sigma> b)\<lparr>m_upper_open := m_upper_open (\<sigma> a) \<and> mpq_eq lo hi\<rparr>)
          in Inr (\<sigma>(b := (\<sigma> b)\<lparr>m_upper := hi\<rparr>), rl)))" for env r
    using root_ivl_lower(1) [OF a] n unfolding ivl_nth_root_def by simp
  show ?thesis unfolding run
  proof (rule outcome_bind [OF L], clarify)
    fix \<tau>
    assume t: "writes b \<sigma> (\<lambda>c. mpq_ok (m_lower c) \<and> mpq_ok (m_upper c) \<and> m_lower_inf c = m_lower_inf ?a
      \<and> (\<not> m_lower_inf ?a \<longrightarrow> root ?n (rv (m_lower ?a)) < rv (m_lower c) + of_nat ?n * rv p)
      \<and> (\<forall>x. lower_holds ?a x \<longrightarrow> lower_holds c (root ?n x))) \<tau>"
      and tu: "m_upper_inf (\<tau> a) = m_upper_inf ?a" "m_upper (\<tau> a) = m_upper ?a" "m_upper_open (\<tau> a) = m_upper_open ?a"
    show "outcome (\<lambda>env s. if m_upper_inf (\<tau> a) then
          Inr (\<tau>(b := (\<tau> b)\<lparr>m_upper := mpq_reset (m_upper (\<tau> b)), m_upper_inf := True, m_upper_open := True\<rparr>), s)
        else
          bind_res (nth_root env (m_upper (\<tau> a)) n p s) (\<lambda>((lo, hi), rl).
          let \<sigma> = \<tau>(b := (\<tau> b)\<lparr>m_upper_inf := False\<rparr>);
              \<sigma> = \<sigma>(b := (\<sigma> b)\<lparr>m_upper_open := m_upper_open (\<sigma> a) \<and> mpq_eq lo hi\<rparr>)
          in Inr (\<sigma>(b := (\<sigma> b)\<lparr>m_upper := hi\<rparr>), rl)))
      (writes b \<sigma> (\<lambda>c. ivl_ok c \<and> near_roots ?n ?a c p
    \<and> (\<forall>x. (lower_holds ?a x \<longrightarrow> lower_holds c (root ?n x)) \<and> (upper_holds ?a x \<longrightarrow> upper_holds c (root ?n x)))))"
    proof (cases "m_upper_inf ?a")
      case True
      then show ?thesis using t by (auto simp: tu writes_def near_roots_def upper_holds_def intro!: outcome_Inr)
    next
      case False
      then have F: "\<not> m_upper_inf (\<tau> a)" by (simp add: tu)
      show ?thesis unfolding if_not_P [OF F] tu(2)
      proof (rule outcome_bind [OF nth_root_outcome [OF ua [OF False]]], clarify)
        fix lo hi :: mpq
        assume lh: "root_bounds ?n (mpq_val (m_upper ?a)) lo hi" "mpq_val hi - mpq_val lo < of_nat ?n * mpq_val p"
        note B = root_bounds_upper [OF lh(1) n0 lh(2)]
        have "mpq_ok lo" "mpq_ok hi" using lh(1) by (simp_all add: root_bounds_def)
        then show "outcome (\<lambda>env s. let \<sigma> = \<tau>(b := (\<tau> b)\<lparr>m_upper_inf := False\<rparr>);
              \<sigma> = \<sigma>(b := (\<sigma> b)\<lparr>m_upper_open := m_upper_open (\<sigma> a) \<and> mpq_eq lo hi\<rparr>)
            in Inr (\<sigma>(b := (\<sigma> b)\<lparr>m_upper := hi\<rparr>), s))
          (writes b \<sigma> (\<lambda>c. ivl_ok c \<and> near_roots ?n ?a c p
            \<and> (\<forall>x. (lower_holds ?a x \<longrightarrow> lower_holds c (root ?n x)) \<and> (upper_holds ?a x \<longrightarrow> upper_holds c (root ?n x)))))"
          using t False B(1) [OF _ False] B(2) tu(3) unfolding Let_def
          by (intro outcome_Inr) (auto simp: writes_def upper_holds_def near_roots_def)
      qed
    qed
  qed
qed

lemma ivl_set_near_roots:
  assumes "root_ivl 1 (\<sigma> a) p" "ivl_ok (\<sigma> b)"
  shows "writes b \<sigma> (\<lambda>c. ivl_ok c \<and> near_roots 1 (\<sigma> a) c p
    \<and> (\<forall>x. (lower_holds (\<sigma> a) x \<longrightarrow> lower_holds c (root 1 x)) \<and> (upper_holds (\<sigma> a) x \<longrightarrow> upper_holds c (root 1 x)))) (ivl_set b a \<sigma>)"
proof (rule writes_mono [OF ivl_set_copy [of \<sigma> a b, OF _ assms(2)]])
  show ok: "ivl_ok (\<sigma> a)" using assms(1) unfolding root_ivl_def by blast
  fix c
  assume c: "ivl_ok c \<and> ivl_eq c (\<sigma> a) \<and> (\<forall>x. lower_holds c x \<longleftrightarrow> lower_holds (\<sigma> a) x) \<and> (\<forall>x. upper_holds c x \<longleftrightarrow> upper_holds (\<sigma> a) x)"
  then have e: "ext_of (lower_ext c) = ext_of (lower_ext (\<sigma> a))" "ext_of (upper_ext c) = ext_of (upper_ext (\<sigma> a))"
    using ok ext_compare(1) [of "lower_ext c" "lower_ext (\<sigma> a)"] ext_compare(1) [of "upper_ext c" "upper_ext (\<sigma> a)"]
    unfolding ivl_eq_def ivl_ok_def by auto
  have p: "\<not> m_lower_inf (\<sigma> a) \<or> \<not> m_upper_inf (\<sigma> a) \<Longrightarrow> 0 < rv p"
    using assms(1) unfolding root_ivl_def root_arg_def by auto
  have "near_roots 1 (\<sigma> a) c p" using e p by (auto simp: near_roots_def split: if_splits)
  then show "ivl_ok c \<and> near_roots 1 (\<sigma> a) c p
    \<and> (\<forall>x. (lower_holds (\<sigma> a) x \<longrightarrow> lower_holds c (root 1 x)) \<and> (upper_holds (\<sigma> a) x \<longrightarrow> upper_holds c (root 1 x)))"
    using c by simp
qed

text \<open>The result is a valid interval that contains the roots of the members, within \<open>n * p\<close> of the bounds.\<close>

lemma ivl_nth_root_encloses:
  assumes a: "root_ivl (unat n) (\<sigma> a) p" and b: "ivl_ok (\<sigma> b)"
  shows "outcome (\<lambda>env r. ivl_nth_root env a n p b \<sigma> r) (writes b \<sigma> (\<lambda>c. ivl_ok c \<and> near_roots (unat n) (\<sigma> a) c p
    \<and> root (unat n) ` members (\<sigma> a) \<subseteq> members c \<and> (\<forall>x. justified (nth_root_jst n) (\<sigma> a) x (\<sigma> a) x c (root (unat n) x))))"
proof -
  have *: "outcome (\<lambda>env r. ivl_nth_root env a n p b \<sigma> r) (writes b \<sigma> (\<lambda>c. ivl_ok c \<and> near_roots (unat n) (\<sigma> a) c p
    \<and> (\<forall>x. (lower_holds (\<sigma> a) x \<longrightarrow> lower_holds c (root (unat n) x)) \<and> (upper_holds (\<sigma> a) x \<longrightarrow> upper_holds c (root (unat n) x)))))"
  proof (cases "n = 1")
    case True
    then show ?thesis using ivl_set_near_roots [of \<sigma> a p b, OF _ b] a by (simp add: ivl_nth_root_def outcome_Inr)
  qed (rule ivl_nth_root_outcome [OF a b])
  show ?thesis
  proof (rule outcome_mono [OF *], erule writes_mono, elim conjE)
    fix c
    assume c: "ivl_ok c" "near_roots (unat n) (\<sigma> a) c p"
      "\<forall>x. (lower_holds (\<sigma> a) x \<longrightarrow> lower_holds c (root (unat n) x)) \<and> (upper_holds (\<sigma> a) x \<longrightarrow> upper_holds c (root (unat n) x))"
    then show "ivl_ok c \<and> near_roots (unat n) (\<sigma> a) c p \<and> root (unat n) ` members (\<sigma> a) \<subseteq> members c
      \<and> (\<forall>x. justified (nth_root_jst n) (\<sigma> a) x (\<sigma> a) x c (root (unat n) x))"
      using nth_root_jst_holds by (auto simp: members_def)
  qed
qed

section \<open>Solutions of \<open>x^n = y\<close>\<close>

lemma power_below_root:
  fixes x :: real
  assumes n: "0 < n" "even n"
  shows "x ^ n \<le> u \<Longrightarrow> \<bar>x\<bar> \<le> root n u" "x ^ n < u \<Longrightarrow> \<bar>x\<bar> < root n u"
  using power_root_order(1,2) [OF n(1), of "\<bar>x\<bar>" u] n(2) by (simp_all add: power_even_abs)

lemma ivl_built:
  "c\<lparr>m_lower_inf := li, m_upper_inf := ui, m_lower_open := l_o, m_upper_open := u_o, m_upper := u, m_lower := l\<rparr>
    = \<lparr>m_lower = l, m_upper = u, m_lower_open = l_o, m_upper_open = u_o, m_lower_inf = li, m_upper_inf = ui\<rparr>"
  by simp

text \<open>How far the bounds of \<open>c\<close> are from the ends of the set of solutions.\<close>

definition near_solutions :: "nat \<Rightarrow> interval \<Rightarrow> interval \<Rightarrow> mpq \<Rightarrow> bool" where
  "near_solutions n y c p \<longleftrightarrow>
     (if odd n then near_roots n y c p
      else if m_upper_inf y then m_lower_inf c \<and> m_upper_inf c
      else \<not> m_lower_inf c \<and> \<not> m_upper_inf c \<and> rv (m_lower c) = - rv (m_upper c)
        \<and> rv (m_upper c) - of_nat n * rv p < root n (rv (m_upper y)))"

lemma xn_eq_y_encloses:
  assumes y: "root_ivl (unat n) (\<sigma> y) p" and x: "ivl_ok (\<sigma> x)"
  shows "outcome (\<lambda>env r. xn_eq_y env y n p x \<sigma> r) (writes x \<sigma> (\<lambda>c. ivl_ok c \<and> near_solutions (unat n) (\<sigma> y) c p
    \<and> {z. z ^ unat n \<in> members (\<sigma> y)} \<subseteq> members c \<and> (\<forall>z. justified (xn_eq_y_jst n) (\<sigma> y) (z ^ unat n) (\<sigma> y) (z ^ unat n) c z)))"
proof -
  let ?n = "unat n" and ?y = "\<sigma> y"
  have ok: "ivl_ok ?y" and n0: "0 < ?n" and uy: "\<not> m_upper_inf ?y \<Longrightarrow> root_arg ?n (m_upper ?y) p"
    using y unfolding root_ivl_def by blast+
  have *: "outcome (\<lambda>env r. xn_eq_y env y n p x \<sigma> r) (writes x \<sigma> (\<lambda>c. ivl_ok c \<and> near_solutions ?n ?y c p \<and> (\<forall>z. justified (xn_eq_y_jst n) ?y (z ^ ?n) ?y (z ^ ?n) c z)))"
  proof (cases "even ?n")
    case False
    have r: "root ?n (z ^ ?n) = z" for z :: real using False n0 by (simp add: odd_real_root_power_cancel)
    have j: "nth_root_jst n = xn_eq_y_jst n" using False by (simp add: nth_root_jst_def xn_eq_y_jst_def digit_even)
    have "outcome (\<lambda>env r. ivl_nth_root env y n p x \<sigma> r) (writes x \<sigma> (\<lambda>c. ivl_ok c \<and> near_solutions ?n ?y c p \<and> (\<forall>z. justified (xn_eq_y_jst n) ?y (z ^ ?n) ?y (z ^ ?n) c z)))"
    proof (rule outcome_mono [OF ivl_nth_root_encloses [of n \<sigma> y p x, OF y x]], erule writes_mono, elim conjE, intro conjI allI)
      show "near_solutions ?n ?y c p" if "near_roots ?n ?y c p" for c using that False by (simp add: near_solutions_def)
      fix c z
      assume "\<forall>x. justified (nth_root_jst n) ?y x ?y x c (root ?n x)"
      from spec [OF this, of "z ^ ?n"] show "justified (xn_eq_y_jst n) ?y (z ^ ?n) ?y (z ^ ?n) c z" unfolding r j .
    qed
    then show ?thesis using False root_ivl_lower(1) [OF y] by (simp add: xn_eq_y_def digit_even)
  next
    case even: True
    have jst: "justified (xn_eq_y_jst n) ?y v ?y v c z" if "upper_holds ?y v \<Longrightarrow> lower_holds c z \<and> upper_holds c z" for v c z
      using that even by (auto simp: justified_def deps_hold_def xn_eq_y_jst_def digit_even)
    show ?thesis
    proof (cases "m_upper_inf ?y")
      case True
      then have "xn_eq_y env y n p x \<sigma> r = Inr (\<sigma>(x := ivl_reset (\<sigma> x)), r)" for env r
        using even root_ivl_lower [OF y] by (simp add: xn_eq_y_def digit_even)
      then show ?thesis using even True
        by (auto simp: near_solutions_def writes_def ivl_reset_def reset_lower_def reset_upper_def justified_def lower_holds_def upper_holds_def intro!: outcome_Inr)
    next
      case False
      have run: "xn_eq_y env y n p x \<sigma> r = bind_res (nth_root env (m_upper ?y) n p r) (\<lambda>((lo, hi), rl).
          let open_end = (m_upper_open (\<sigma> y) \<and> mpq_eq lo hi);
              \<sigma> = \<sigma>(x := (\<sigma> x)\<lparr>m_lower_inf := False, m_upper_inf := False, m_lower_open := open_end, m_upper_open := open_end\<rparr>);
              \<sigma> = \<sigma>(x := (\<sigma> x)\<lparr>m_upper := hi\<rparr>);
              \<sigma> = \<sigma>(x := (\<sigma> x)\<lparr>m_lower := hi\<rparr>)
          in Inr (\<sigma>(x := (\<sigma> x)\<lparr>m_lower := mpq_neg (m_lower (\<sigma> x))\<rparr>), rl))" for env r
        using False even root_ivl_lower [OF y] by (simp add: xn_eq_y_def digit_even)
      show ?thesis unfolding run
      proof (rule outcome_bind [OF nth_root_outcome [OF uy [OF False]]], clarify)
        fix lo hi :: mpq
        assume lh: "root_bounds ?n (mpq_val (m_upper ?y)) lo hi" "mpq_val hi - mpq_val lo < of_nat ?n * mpq_val p"
        note B = root_bounds_upper(2) [OF lh(1) n0 lh(2)]
        have okr: "mpq_ok lo" "mpq_ok hi" and b: "rv lo \<le> root ?n (rv (m_upper ?y))" "root ?n (rv (m_upper ?y)) \<le> rv hi"
          using lh(1) by (simp_all add: root_bounds_def)
        let ?open = "m_upper_open ?y \<and> mpq_eq lo hi"
        let ?c = "\<lparr>m_lower = mpq_neg hi, m_upper = hi, m_lower_open = ?open, m_upper_open = ?open, m_lower_inf = False, m_upper_inf = False\<rparr>"
        have bound: "if ?open then \<bar>z\<bar> < rv hi else \<bar>z\<bar> \<le> rv hi" if "upper_holds ?y (z ^ ?n)" for z
        proof (cases "?open")
          case True
          then have "z ^ ?n < rv (m_upper ?y)" "rv lo = rv hi" using that False okr by (simp_all add: upper_holds_def)
          then show ?thesis using power_below_root(2) [OF n0 even] True b by fastforce
        next
          case nopen: False
          have "z ^ ?n \<le> rv (m_upper ?y)" using that False by (auto simp: upper_holds_def split: if_splits)
          from order_trans [OF power_below_root(1) [OF n0 even this] b(2)] show ?thesis unfolding if_not_P [OF nopen] .
        qed
        have "justified (xn_eq_y_jst n) ?y (z ^ ?n) ?y (z ^ ?n) ?c z" for z
          by (rule jst) (use bound [of z] okr in \<open>auto simp: lower_holds_def upper_holds_def of_rat_minus abs_less_iff abs_le_iff split: if_splits\<close>)
        moreover have "near_solutions ?n ?y ?c p" using False even okr B by (simp add: near_solutions_def of_rat_minus)
        ultimately show "outcome (\<lambda>env s. let open_end = (m_upper_open (\<sigma> y) \<and> mpq_eq lo hi);
              \<sigma> = \<sigma>(x := (\<sigma> x)\<lparr>m_lower_inf := False, m_upper_inf := False, m_lower_open := open_end, m_upper_open := open_end\<rparr>);
              \<sigma> = \<sigma>(x := (\<sigma> x)\<lparr>m_upper := hi\<rparr>);
              \<sigma> = \<sigma>(x := (\<sigma> x)\<lparr>m_lower := hi\<rparr>)
          in Inr (\<sigma>(x := (\<sigma> x)\<lparr>m_lower := mpq_neg (m_lower (\<sigma> x))\<rparr>), s))
          (writes x \<sigma> (\<lambda>c. ivl_ok c \<and> near_solutions ?n ?y c p \<and> (\<forall>z. justified (xn_eq_y_jst n) ?y (z ^ ?n) ?y (z ^ ?n) c z)))"
          using okr x unfolding Let_def by (intro outcome_Inr) (simp add: writes_def ivl_built)
      qed
    qed
  qed
  show ?thesis
    by (rule outcome_mono [OF *], erule writes_mono) (auto dest: justified_member)
qed

text \<open>The results are not empty.\<close>

lemma ivl_nth_root_valid:
  assumes "root_ivl (unat n) (\<sigma> a) p" "\<forall>k. ivl_wf (\<sigma> k)"
  shows "outcome (\<lambda>env r. ivl_nth_root env a n p b \<sigma> r) (\<lambda>\<tau>. \<forall>k. ivl_wf (\<tau> k))"
proof -
  have ok: "ivl_ok (\<sigma> k)" and ne: "members (\<sigma> k) \<noteq> {}" for k using assms(2) by (auto simp: ivl_wf_iff)
  show ?thesis
    by (rule outcome_mono [OF ivl_nth_root_encloses [of n \<sigma> a p b, OF assms(1) ok]], erule writes_valid [OF _ _ assms(2)])
      (use ne [of a] in \<open>auto simp: ivl_wf_iff\<close>)
qed

lemma xn_eq_y_valid:
  assumes y: "root_ivl (unat n) (\<sigma> y) p" and wf: "\<forall>k. ivl_wf (\<sigma> k)"
  shows "outcome (\<lambda>env r. xn_eq_y env y n p x \<sigma> r) (\<lambda>\<tau>. \<forall>k. ivl_wf (\<tau> k))"
proof -
  have ok: "ivl_ok (\<sigma> k)" for k using wf by (auto simp: ivl_wf_iff)
  obtain v where v: "lower_holds (\<sigma> y) v" "v \<in> members (\<sigma> y)" using ivl_wf_member [OF spec [OF wf]] .
  have n: "0 < unat n" using y unfolding root_ivl_def by blast
  have "root (unat n) v ^ unat n = v"
  proof (cases "odd (unat n)")
    case False
    then have "\<not> m_lower_inf (\<sigma> y)" "0 \<le> mpq_val (m_lower (\<sigma> y))"
      using y unfolding root_ivl_def root_arg_def by blast+
    moreover have "rv (m_lower (\<sigma> y)) \<le> v" using v(1) calculation(1) by (auto simp: lower_holds_def split: if_splits)
    moreover have "0 \<le> rv (m_lower (\<sigma> y))" using calculation(2) by simp
    ultimately have "0 \<le> v" by linarith
    then show ?thesis using n by (rule real_root_pow_pos2 [rotated])
  qed (rule odd_real_root_pow)
  then have "{z. z ^ unat n \<in> members (\<sigma> y)} \<noteq> {}" using v(2) by (auto intro!: exI [of _ "root (unat n) v"])
  then show ?thesis
    by (intro outcome_mono [OF xn_eq_y_encloses [of n \<sigma> y p x, OF y ok]], elim writes_valid [OF _ _ wf])
      (auto simp: ivl_wf_iff)
qed

end
