(* ===== verification/Interval_Series.thy ===== *)
theory Interval_Series
  imports Interval_Root
begin

text \<open>
  Series (\<open>math/interval/interval_def.h\<close>): factorials, Taylor polynomials of sine and cosine with their
  error, Euler's number, and the series of Bailey, Borwein and Plouffe for pi, with the intervals that the
  manager caches (\<open>m_pi\<close>, \<open>m_pi_div_2\<close>, \<open>m_3_pi_div_2\<close>, \<open>m_2_pi\<close>). The loops are counted with an
  \<open>unsigned\<close> and convert the counter to \<open>int\<close>; none of them passes a checkpoint.
\<close>

section \<open>Operations\<close>

record fact_state =
  fc_i :: digit
  fc_o :: mpq

definition fact_step :: "fact_state \<Rightarrow> fact_state res" where
  "fact_step s =
     bind_res (at3 mul_at 0 1 1 (mk_q (sint (fc_i s))) (fc_o s)) (\<lambda>o'.
     Inr \<lparr>fc_i = fc_i s + 1, fc_o = o'\<rparr>)"

definition fact_num :: "digit \<Rightarrow> mpq res" where
  "fact_num n = bind_res (while_res (\<lambda>s. fc_i s \<le> n) fact_step \<lparr>fc_i = 2, fc_o = mk_q 1\<rparr>) (\<lambda>s. Inr (fc_o s))"

record series_state =
  se_i :: digit
  se_o :: mpq
  se_sign :: bool

text \<open>The loops of \<open>sine_series\<close> and \<open>cosine_series\<close> have the same body.\<close>

definition series_step :: "mpq \<Rightarrow> series_state \<Rightarrow> series_state res" where
  "series_step a s =
     bind_res (mpq_power a (se_i s)) (\<lambda>f.
     bind_res (fact_num (se_i s)) (\<lambda>aux.
     bind_res (at3 div_at 0 1 0 f aux) (\<lambda>f.
     bind_res (if se_sign s then at3 sub_at 0 1 0 (se_o s) f else at3 add_at 0 1 0 (se_o s) f) (\<lambda>o'.
     Inr \<lparr>se_i = se_i s + 2, se_o = o', se_sign = \<not> se_sign s\<rparr>))))"

definition sine_series :: "mpq \<Rightarrow> digit \<Rightarrow> mpq res" where
  "sine_series a k =
     bind_res (while_res (\<lambda>s. se_i s \<le> k) (series_step a) \<lparr>se_i = 3, se_o = a, se_sign = True\<rparr>) (\<lambda>s. Inr (se_o s))"

definition cosine_series :: "mpq \<Rightarrow> digit \<Rightarrow> mpq res" where
  "cosine_series a k =
     bind_res (while_res (\<lambda>s. se_i s \<le> k) (series_step a) \<lparr>se_i = 2, se_o = mk_q 1, se_sign = True\<rparr>) (\<lambda>s. Inr (se_o s))"

text \<open>The bounds from a Taylor polynomial and its error, which \<open>sine\<close> and \<open>cosine\<close> share.\<close>

definition taylor_bounds :: "(mpq \<Rightarrow> digit \<Rightarrow> mpq res) \<Rightarrow> mpq \<Rightarrow> digit \<Rightarrow> (mpq \<times> mpq) res" where
  "taylor_bounds series a k =
     (let error = (if mpq_is_neg a then mpq_neg a else a) in
      bind_res (mpq_power error (k + 1)) (\<lambda>error.
      bind_res (fact_num (k + 1)) (\<lambda>aux.
      bind_res (at3 div_at 0 1 0 error aux) (\<lambda>error.
      bind_res (series a k) (\<lambda>lo.
      let hi = lo in
      bind_res (at3 sub_at 0 1 0 lo error) (\<lambda>lo.
      if mpq_lt lo (mk_q (- 1)) then Inr (mk_q (- 1), mk_q 1)
      else bind_res (at3 add_at 0 1 0 hi error) (\<lambda>hi. Inr (lo, hi))))))))"

definition sine :: "mpq \<Rightarrow> digit \<Rightarrow> (mpq \<times> mpq) res" where
  "sine a k =
     (if mpq_is_zero a then Inr (mk_q 0, mk_q 0)
      else let k = (if k mod 2 = 0 then k + 1 else k) in taylor_bounds sine_series a k)"

definition cosine :: "mpq \<Rightarrow> digit \<Rightarrow> (mpq \<times> mpq) res" where
  "cosine a k =
     (if mpq_is_zero a then Inr (mk_q 1, mk_q 1)
      else let k = (if k mod 2 = 1 then k + 1 else k) in taylor_bounds cosine_series a k)"

record e_state =
  es_i :: digit
  es_d :: mpq
  es_o :: mpq

definition e_step :: "e_state \<Rightarrow> e_state res" where
  "e_step s =
     bind_res (at3 mul_at 0 1 0 (es_d s) (mk_q (sint (es_i s)))) (\<lambda>d.
     bind_res (at3 add_at 0 1 0 (es_o s) (mpq_inv d)) (\<lambda>o'.
     Inr \<lparr>es_i = es_i s + 1, es_d = d, es_o = o'\<rparr>))"

definition e_series :: "digit \<Rightarrow> mpq res" where
  "e_series k = bind_res (while_res (\<lambda>s. es_i s \<le> k) e_step \<lparr>es_i = 2, es_d = mk_q 1, es_o = mk_q 2\<rparr>) (\<lambda>s. Inr (es_o s))"

definition closed_ivl :: "mpq \<Rightarrow> mpq \<Rightarrow> interval" where
  "closed_ivl l u = \<lparr>m_lower = l, m_upper = u, m_lower_open = False, m_upper_open = False, m_lower_inf = False, m_upper_inf = False\<rparr>"

definition ivl_e :: "digit \<Rightarrow> nat \<Rightarrow> ivl_store \<Rightarrow> ivl_store res" where
  "ivl_e k r \<sigma> =
     bind_res (e_series k) (\<lambda>lo.
     bind_res (fact_num (k + 1)) (\<lambda>error.
     bind_res (at3 mul_at 0 1 1 (mk_q 4) (mpq_inv error)) (\<lambda>error.
     let hi = lo in
     bind_res (at3 add_at 0 1 0 hi error) (\<lambda>hi.
     Inr (\<sigma>(r := closed_ivl lo hi))))))"

text \<open>An expression of type \<open>int\<close> that overflows has no defined value.\<close>

definition int_expr :: "int \<Rightarrow> int res" where
  "int_expr v = (if int_min \<le> v \<and> v \<le> int_max then Inr v else Inl Undefined_behaviour)"

definition pi_series :: "int \<Rightarrow> mpq res" where
  "pi_series x =
     bind_res (int_expr (8 * x + 1)) (\<lambda>d. bind_res (mpq_set_int2 4 d) (\<lambda>r.
     bind_res (int_expr (8 * x + 4)) (\<lambda>d. bind_res (mpq_set_int2 2 d) (\<lambda>f. bind_res (at3 sub_at 0 1 0 r f) (\<lambda>r.
     bind_res (int_expr (8 * x + 5)) (\<lambda>d. bind_res (mpq_set_int2 1 d) (\<lambda>f. bind_res (at3 sub_at 0 1 0 r f) (\<lambda>r.
     bind_res (int_expr (8 * x + 6)) (\<lambda>d. bind_res (mpq_set_int2 1 d) (\<lambda>f. bind_res (at3 sub_at 0 1 0 r f) (\<lambda>r.
     bind_res (mpq_set_int2 1 16) (\<lambda>f. bind_res (mpq_power f (of_int x)) (\<lambda>f. at3 mul_at 0 1 0 r f)))))))))))))"

record pi_state =
  ps_i :: digit
  ps_l :: mpq

definition pi_step :: "pi_state \<Rightarrow> pi_state res" where
  "pi_step s =
     bind_res (pi_series (sint (ps_i s))) (\<lambda>p.
     bind_res (at3 add_at 0 1 0 (ps_l s) p) (\<lambda>l.
     Inr \<lparr>ps_i = ps_i s + 1, ps_l = l\<rparr>))"

definition ivl_pi :: "digit \<Rightarrow> nat \<Rightarrow> ivl_store \<Rightarrow> ivl_store res" where
  "ivl_pi n r \<sigma> =
     bind_res (mpq_set_int2 1 16) (\<lambda>len.
     bind_res (mpq_power len n) (\<lambda>len.
     bind_res (mpq_set_int2 1 15) (\<lambda>p.
     bind_res (at3 mul_at 0 1 1 p len) (\<lambda>len.
     bind_res (while_res (\<lambda>s. ps_i s \<le> n) pi_step \<lparr>ps_i = 0, ps_l = mk_q 0\<rparr>) (\<lambda>s.
     let l_val = ps_l s in
     bind_res (at3 add_at 0 1 2 l_val len) (\<lambda>u_val.
     Inr (\<sigma>(r := closed_ivl l_val u_val))))))))"

text \<open>The manager caches the intervals; their addresses in the store are fixed.\<close>

definition m_pi :: nat where "m_pi = 0"
definition m_pi_div_2 :: nat where "m_pi_div_2 = 1"
definition m_3_pi_div_2 :: nat where "m_3_pi_div_2 = 2"
definition m_2_pi :: nat where "m_2_pi = 3"

record pi_cache =
  m_pi_n :: digit
  m_ivls :: ivl_store

definition set_pi_prec :: "digit \<Rightarrow> pi_cache \<Rightarrow> pi_cache res" where
  "set_pi_prec n c =
     bind_res (ivl_pi n m_pi (m_ivls c)) (\<lambda>\<sigma>.
     bind_res (ivl_mul_frac 1 2 m_pi m_pi_div_2 \<sigma>) (\<lambda>\<sigma>.
     bind_res (ivl_mul_frac 3 2 m_pi m_3_pi_div_2 \<sigma>) (\<lambda>\<sigma>.
     bind_res (ivl_mul_frac 2 1 m_pi m_2_pi \<sigma>) (\<lambda>\<sigma>.
     Inr \<lparr>m_pi_n = n, m_ivls = \<sigma>\<rparr>))))"

definition set_pi_at_least_prec :: "digit \<Rightarrow> pi_cache \<Rightarrow> pi_cache res" where
  "set_pi_at_least_prec n c = (if n > m_pi_n c then set_pi_prec n c else Inr c)"

section \<open>Counted loops\<close>

lemma for_loop:
  fixes i :: "'s \<Rightarrow> digit"
  assumes "P s" and step: "\<And>t. P t \<Longrightarrow> i t \<le> n \<Longrightarrow> yields (c t) (\<lambda>u. P u \<and> unat (i t) < unat (i u))"
  shows "yields (while_res (\<lambda>t. i t \<le> n) c s) (\<lambda>t. P t \<and> unat n < unat (i t))"
proof -
  have "\<exists>t. while_res (\<lambda>t. i t \<le> n) c s = Inr t \<and> P t \<and> unat n < unat (i t)"
  proof (rule while_res_total [where I = P and m = "\<lambda>t. 2 ^ 32 - unat (i t)"])
    fix t assume t: "P t" "i t \<le> n"
    obtain u where u: "c t = Inr u" "P u" "unat (i t) < unat (i u)" using step [OF t] by (auto elim!: yieldsE)
    have "unat (i u) < 2 ^ 32" using unsigned_less [of "i u", where ?'a = nat] by simp
    then have "2 ^ 32 - unat (i u) < 2 ^ 32 - unat (i t)" using u(3) by linarith
    then show "\<exists>u. c t = Inr u \<and> P u \<and> 2 ^ 32 - unat (i u) < 2 ^ 32 - unat (i t)" using u by blast
  qed (use assms(1) in \<open>simp_all add: word_le_nat_alt\<close>)
  then show ?thesis by (simp add: yields_def)
qed

text \<open>Small counters.\<close>

lemma small_digit:
  assumes "unat (w :: digit) < 2 ^ 31"
  shows "sint w = int (unat w)" "mpq_ok (mk_q (sint w))" "mpq_val (mk_q (sint w)) = of_nat (unat w)"
proof -
  have u: "uint w = int (unat w)" by simp
  have r: "- (2 ^ 31) \<le> int (unat w)" by (rule order_trans [of _ 0]) simp_all
  have "int (unat w) < int (2 ^ 31)" using assms by (simp only: of_nat_less_iff)
  then have "int (unat w) < 2 ^ 31" by (simp only: of_nat_power of_nat_numeral)
  from signed_take_bit_int_eq_self [OF r this] show s: "sint w = int (unat w)" unfolding sint_uint u by simp
  have lim: "- 2147483648 \<le> uint w" "uint w \<le> 2147483647" using r \<open>int (unat w) < 2 ^ 31\<close> by simp_all
  show "mpq_ok (mk_q (sint w))" using lim by (simp add: s int_limits)
  show "mpq_val (mk_q (sint w)) = of_nat (unat w)" by (simp add: s)
qed

lemma digit_plus:
  assumes "unat (w :: digit) + unat (d :: digit) < 2 ^ 32"
  shows "unat (w + d) = unat w + unat d"
  using assms by (simp add: unat_word_ariths)

lemma at3_mul_yields:
  assumes "mpq_ok a" "mpq_ok b"
  shows "yields (at3 mul_at 0 1 k a b) (\<lambda>c. mpq_ok c \<and> mpq_val c = mpq_val a * mpq_val b)"
  unfolding at3_def yields_bind yields_Inr by (rule yields_mono [OF mul_at_yields]) (use assms in auto)

lemma add_or_sub_yields:
  assumes "mpq_ok a" "mpq_ok b"
  shows "yields (if s then at3 sub_at 0 1 0 a b else at3 add_at 0 1 0 a b)
    (\<lambda>c. mpq_ok c \<and> mpq_val c = (if s then mpq_val a - mpq_val b else mpq_val a + mpq_val b))"
  using at3_yields [OF assms, of 0 1 0] by (simp del: One_nat_def)

lemma of_rat_fact: "real_of_rat (fact n) = fact n"
  by (metis of_nat_fact of_rat_of_nat_eq)

section \<open>Factorials\<close>

lemma fact_num_yields:
  assumes "unat n < 2 ^ 31"
  shows "yields (fact_num n) (\<lambda>q. mpq_ok q \<and> mpq_val q = fact (unat n))"
  unfolding fact_num_def yields_bind yields_Inr
proof (rule yields_mono [OF for_loop [where P = "\<lambda>s. mpq_ok (fc_o s) \<and> 2 \<le> unat (fc_i s) \<and> unat (fc_i s) \<le> max 2 (unat n + 1)
    \<and> mpq_val (fc_o s) = fact (unat (fc_i s) - 1)"]])
  fix s :: fact_state
  assume s: "mpq_ok (fc_o s) \<and> 2 \<le> unat (fc_i s) \<and> unat (fc_i s) \<le> max 2 (unat n + 1) \<and> mpq_val (fc_o s) = fact (unat (fc_i s) - 1)"
    and le: "fc_i s \<le> n"
  let ?i = "unat (fc_i s)"
  have i: "?i \<le> unat n" using le by (simp add: word_le_nat_alt)
  have lt: "?i < 2 ^ 31" using i assms by linarith
  have suc: "unat (fc_i s + 1) = ?i + 1" using digit_plus [of "fc_i s" 1] lt by simp
  have f: "of_nat ?i * fact (?i - 1) = (fact ?i :: rat)" using s by (simp add: fact_reduce [of ?i])
  show "yields (fact_step s) (\<lambda>t. (mpq_ok (fc_o t) \<and> 2 \<le> unat (fc_i t) \<and> unat (fc_i t) \<le> max 2 (unat n + 1)
      \<and> mpq_val (fc_o t) = fact (unat (fc_i t) - 1)) \<and> unat (fc_i s) < unat (fc_i t))"
    unfolding fact_step_def yields_bind yields_Inr
    by (rule yields_mono [OF at3_mul_yields [OF small_digit(2) [OF lt]]]) (use s i suc f small_digit(3) [OF lt] in auto)
next
  fix s :: fact_state
  assume s: "(mpq_ok (fc_o s) \<and> 2 \<le> unat (fc_i s) \<and> unat (fc_i s) \<le> max 2 (unat n + 1) \<and> mpq_val (fc_o s) = fact (unat (fc_i s) - 1))
    \<and> unat n < unat (fc_i s)"
  show "mpq_ok (fc_o s) \<and> mpq_val (fc_o s) = fact (unat n)"
  proof (cases "unat n = 0")
    case True
    then have "unat (fc_i s) = 2" using s by simp
    then show ?thesis using s True by simp
  next
    case False
    then have "unat (fc_i s) = unat n + 1" using s by (auto simp: max_def split: if_splits)
    then show ?thesis using s by simp
  qed
qed (simp add: int_limits)

section \<open>Taylor polynomials\<close>

text \<open>Coefficients of one parity that alternate in sign.\<close>

definition alternating :: "bool \<Rightarrow> (nat \<Rightarrow> real) \<Rightarrow> bool" where
  "alternating ev c \<longleftrightarrow> (\<forall>i. even i = ev \<longrightarrow> c (Suc i) = 0 \<and> c (i + 2) * fact (i + 2) = - (c i * fact i))"

lemma alternating_sin: "alternating False sin_coeff"
  unfolding alternating_def sin_coeff_def by (auto elim!: oddE simp del: fact_Suc)

lemma alternating_cos: "alternating True cos_coeff"
  unfolding alternating_def cos_coeff_def by (auto elim!: evenE simp del: fact_Suc)

definition series_inv :: "bool \<Rightarrow> (nat \<Rightarrow> real) \<Rightarrow> mpq \<Rightarrow> nat \<Rightarrow> series_state \<Rightarrow> bool" where
  "series_inv ev c a k s \<longleftrightarrow> mpq_ok (se_o s) \<and> even (unat (se_i s)) = ev \<and> unat (se_i s) \<le> k + 2
     \<and> c (unat (se_i s)) * fact (unat (se_i s)) = (if se_sign s then - 1 else 1)
     \<and> rv (se_o s) = (\<Sum>m < unat (se_i s). c m * rv a ^ m)"

lemma series_loop:
  assumes alt: "alternating ev c" and a: "mpq_ok a" and k: "unat k < 2 ^ 31" "even (unat k) = ev" and s: "series_inv ev c a (unat k) s"
  shows "yields (while_res (\<lambda>s. se_i s \<le> k) (series_step a) s)
    (\<lambda>s. mpq_ok (se_o s) \<and> rv (se_o s) = (\<Sum>m < unat k + 1. c m * rv a ^ m))"
proof (rule yields_mono [OF for_loop [where P = "series_inv ev c a (unat k)", OF s]])
  fix t
  assume I: "series_inv ev c a (unat k) t" and le: "se_i t \<le> k"
  let ?i = "unat (se_i t)"
  have ik: "?i \<le> unat k" using le by (simp add: word_le_nat_alt)
  then have lt: "?i < 2 ^ 31" using k(1) by linarith
  have suc: "unat (se_i t + 2) = ?i + 2" using digit_plus [of "se_i t" 2] lt by simp
  obtain f where f: "mpq_power a (se_i t) = Inr f" "mpq_ok f" "mpq_val f = mpq_val a ^ ?i"
    using mpq_power_yields [OF a lt] by (auto elim!: yieldsE)
  obtain g where g: "fact_num (se_i t) = Inr g" "mpq_ok g" "mpq_val g = fact ?i"
    using fact_num_yields [OF lt] by (auto elim!: yieldsE)
  obtain q where q: "at3 div_at 0 1 0 f g = Inr q" "mpq_ok q" "mpq_val q = mpq_val a ^ ?i / fact ?i"
    using at3_div_yields [OF f(2) g(2), of 0] f(3) g(3) by (auto elim!: yieldsE)
  have ok: "mpq_ok (se_o t)" and par: "even ?i = ev" and sg: "c ?i * fact ?i = (if se_sign t then - 1 else 1)"
    and sum: "rv (se_o t) = (\<Sum>m < ?i. c m * rv a ^ m)"
    using I by (simp_all add: series_inv_def)
  have nxt: "c (Suc ?i) = 0" "c (?i + 2) * fact (?i + 2) = - (c ?i * fact ?i)"
    using alt par unfolding alternating_def by blast+
  obtain o' where o': "(if se_sign t then at3 sub_at 0 1 0 (se_o t) q else at3 add_at 0 1 0 (se_o t) q) = Inr o'" "mpq_ok o'"
    "mpq_val o' = (if se_sign t then mpq_val (se_o t) - mpq_val q else mpq_val (se_o t) + mpq_val q)"
    using add_or_sub_yields [OF ok q(2), of "se_sign t"] by (rule yieldsE) blast
  have ci: "c ?i = (if se_sign t then - 1 else 1) / fact ?i" unfolding sg [symmetric] by simp
  have "rv o' = rv (se_o t) + c ?i * rv a ^ ?i"
    unfolding o'(3) q(3) ci by (simp add: of_rat_add of_rat_diff of_rat_divide of_rat_power of_rat_fact)
  then have "rv o' = (\<Sum>m < ?i + 2. c m * rv a ^ m)"
    by (simp add: sum numeral_2_eq_2 nxt(1))
  then have "series_inv ev c a (unat k) \<lparr>se_i = se_i t + 2, se_o = o', se_sign = \<not> se_sign t\<rparr>"
    using o'(2) par ik sg nxt(2) by (simp add: series_inv_def suc)
  moreover have "series_step a t = Inr \<lparr>se_i = se_i t + 2, se_o = o', se_sign = \<not> se_sign t\<rparr>"
    unfolding series_step_def f(1) g(1) bind_res.simps q(1) o'(1) ..
  ultimately show "yields (series_step a t) (\<lambda>u. series_inv ev c a (unat k) u \<and> unat (se_i t) < unat (se_i u))"
    by (simp add: suc)
next
  fix t
  assume t: "series_inv ev c a (unat k) t \<and> unat k < unat (se_i t)"
  then have ge: "unat (se_i t) = unat k + 1 \<or> unat (se_i t) = unat k + 2" by (auto simp: series_inv_def)
  have "even (unat (se_i t)) = even (unat k)" using t k(2) by (simp add: series_inv_def)
  then have i: "unat (se_i t) = Suc (Suc (unat k))" using ge by auto
  have "c (Suc (unat k)) = 0" using alt k(2) unfolding alternating_def by blast
  then show "mpq_ok (se_o t) \<and> rv (se_o t) = (\<Sum>m < unat k + 1. c m * rv a ^ m)"
    using t by (simp add: series_inv_def i)
qed

lemma sine_series_yields:
  assumes "mpq_ok a" "unat k < 2 ^ 31" "odd (unat k)"
  shows "yields (sine_series a k) (\<lambda>q. mpq_ok q \<and> rv q = (\<Sum>m < unat k + 1. sin_coeff m * rv a ^ m))"
proof -
  have "(\<Sum>m < 3. sin_coeff m * rv a ^ m) = rv a" by (simp add: sin_coeff_def numeral_3_eq_3)
  then have "series_inv False sin_coeff a (unat k) \<lparr>se_i = 3, se_o = a, se_sign = True\<rparr>"
    using assms by (auto simp: series_inv_def sin_coeff_def elim!: oddE)
  from series_loop [OF alternating_sin assms(1,2) _ this] assms(3) show ?thesis by (simp add: sine_series_def)
qed

lemma cosine_series_yields:
  assumes "mpq_ok a" "unat k < 2 ^ 31" "even (unat k)"
  shows "yields (cosine_series a k) (\<lambda>q. mpq_ok q \<and> rv q = (\<Sum>m < unat k + 1. cos_coeff m * rv a ^ m))"
proof -
  have "(\<Sum>m < 2. cos_coeff m * rv a ^ m) = 1" by (simp add: cos_coeff_def numeral_2_eq_2)
  then have "series_inv True cos_coeff a (unat k) \<lparr>se_i = 2, se_o = mk_q 1, se_sign = True\<rparr>"
    by (auto simp: series_inv_def cos_coeff_def int_limits)
  from series_loop [OF alternating_cos assms(1,2) _ this] assms(3) show ?thesis by (simp add: cosine_series_def)
qed

section \<open>Sine and cosine\<close>

text \<open>The result is the Taylor polynomial widened by the error, unless its lower end falls below \<open>-1\<close>.\<close>

definition taylor_result :: "real \<Rightarrow> real \<Rightarrow> mpq \<times> mpq \<Rightarrow> bool" where
  "taylor_result S E = (\<lambda>(lo, hi). mpq_ok lo \<and> mpq_ok hi
     \<and> (if S - E < - 1 then rv lo = - 1 \<and> rv hi = 1 else rv lo = S - E \<and> rv hi = S + E))"

lemma taylor_bounds_yields:
  assumes a: "mpq_ok a" and k: "unat k + 1 < 2 ^ 31"
    and series: "yields (series a k) (\<lambda>q. mpq_ok q \<and> rv q = S)"
  shows "yields (taylor_bounds series a k) (taylor_result S (\<bar>rv a\<bar> ^ (unat k + 1) / fact (unat k + 1)))"
proof -
  let ?n = "unat k + 1"
  have n: "unat (k + 1) = ?n" using digit_plus [of k 1] k by simp
  let ?e = "if mpq_is_neg a then mpq_neg a else a"
  have e: "mpq_ok ?e" "mpq_val ?e = \<bar>mpq_val a\<bar>" using a by auto
  obtain u where u: "mpq_power ?e (k + 1) = Inr u" "mpq_ok u" "mpq_val u = \<bar>mpq_val a\<bar> ^ ?n"
    using mpq_power_yields [OF e(1), of "k + 1"] k n e(2) by (auto elim!: yieldsE)
  obtain w where w: "fact_num (k + 1) = Inr w" "mpq_ok w" "mpq_val w = fact ?n"
    using fact_num_yields [of "k + 1"] k n by (auto elim!: yieldsE)
  obtain q where q: "at3 div_at 0 1 0 u w = Inr q" "mpq_ok q" "mpq_val q = \<bar>mpq_val a\<bar> ^ ?n / fact ?n"
    using at3_div_yields [OF u(2) w(2), of 0] u(3) w(3) by (auto simp del: fact_Suc power_Suc elim!: yieldsE)
  have E: "rv q = \<bar>rv a\<bar> ^ ?n / fact ?n"
    unfolding q(3) by (simp add: of_rat_divide of_rat_power of_rat_fact del: fact_Suc power_Suc)
  obtain s where s: "series a k = Inr s" "mpq_ok s" "rv s = S" using series by (auto elim!: yieldsE)
  obtain lo where lo: "at3 sub_at 0 1 0 s q = Inr lo" "mpq_ok lo" "mpq_val lo = mpq_val s - mpq_val q"
    using at3_yields(2) [OF s(2) q(2), of 0 1 0] by (auto simp del: One_nat_def elim!: yieldsE)
  obtain hi where hi: "at3 add_at 0 1 0 s q = Inr hi" "mpq_ok hi" "mpq_val hi = mpq_val s + mpq_val q"
    using at3_yields(1) [OF s(2) q(2), of 0 1 0] by (auto simp del: One_nat_def elim!: yieldsE)
  have rlo: "rv lo = S - rv q" and rhi: "rv hi = S + rv q" unfolding lo(3) hi(3) s(3) [symmetric] by (simp_all add: of_rat_diff of_rat_add)
  have "mpq_lt lo (mk_q (- 1)) \<longleftrightarrow> rv lo < - 1"
  proof -
    have "mpq_lt lo (mk_q (- 1)) \<longleftrightarrow> mpq_val lo < - 1" using lo(2) by (simp add: int_limits)
    also have "\<dots> \<longleftrightarrow> rv lo < real_of_rat (- 1)" by (simp only: of_rat_less)
    finally show ?thesis by simp
  qed
  then show ?thesis
    unfolding taylor_bounds_def Let_def taylor_result_def E [symmetric] bind_res.simps u(1) w(1) q(1) s(1) lo(1) hi(1)
    using lo(2) hi(2) by (simp add: rlo rhi int_limits of_rat_minus)
qed

lemma taylor_pinned:
  assumes "taylor_result S E lh" "\<bar>v - S\<bar> \<le> E" "\<bar>v\<bar> \<le> 1"
  shows "case lh of (lo, hi) \<Rightarrow> mpq_ok lo \<and> mpq_ok hi \<and> rv lo \<le> v \<and> v \<le> rv hi
    \<and> (if S - E < - 1 then rv lo = - 1 \<and> rv hi = 1 else rv lo = S - E \<and> rv hi = S + E)"
  using assms by (auto simp: taylor_result_def abs_le_iff split: if_splits)

lemma cos_taylor_bound: "\<bar>cos x - (\<Sum>m<n. cos_coeff m * x ^ m)\<bar> \<le> \<bar>x\<bar> ^ n / fact n"
proof -
  obtain t where t: "cos x = (\<Sum>m<n. cos_coeff m * x ^ m) + (cos (t + 1/2 * real n * pi) / fact n) * x ^ n"
    using Maclaurin_cos_expansion [of x n] by blast
  have "\<bar>cos (t + 1/2 * real n * pi)\<bar> * \<bar>x\<bar> ^ n \<le> 1 * \<bar>x\<bar> ^ n" by (rule mult_right_mono) simp_all
  then have "\<bar>cos (t + 1/2 * real n * pi)\<bar> * \<bar>x\<bar> ^ n / fact n \<le> \<bar>x\<bar> ^ n / fact n" by (simp add: divide_right_mono)
  then show ?thesis by (subst t) (simp add: abs_mult power_abs)
qed

text \<open>The number of terms is made odd for the sine and even for the cosine.\<close>

definition odd_above :: "nat \<Rightarrow> nat" where "odd_above k = (if even k then k + 1 else k)"
definition even_above :: "nat \<Rightarrow> nat" where "even_above k = (if odd k then k + 1 else k)"

lemma sine_yields:
  assumes a: "mpq_ok a" and k: "unat k + 2 < 2 ^ 31"
  shows "yields (sine a k) (taylor_result (\<Sum>m < odd_above (unat k) + 1. sin_coeff m * rv a ^ m) (\<bar>rv a\<bar> ^ (odd_above (unat k) + 1) / fact (odd_above (unat k) + 1)))"
proof -
  define k1 where "k1 = (if k mod 2 = 0 then k + 1 else k)"
  have u: "unat k1 = odd_above (unat k)" using digit_plus [of k 1] k by (simp add: k1_def odd_above_def digit_even)
  have b: "unat k1 + 1 < 2 ^ 31" "odd (unat k1)" using k unfolding u by (auto simp: odd_above_def)
  have "yields (taylor_bounds sine_series a k1) (taylor_result (\<Sum>m < unat k1 + 1. sin_coeff m * rv a ^ m) (\<bar>rv a\<bar> ^ (unat k1 + 1) / fact (unat k1 + 1)))"
    by (rule taylor_bounds_yields [where series = sine_series, OF a b(1) sine_series_yields [OF a _ b(2)]]) (use b(1) in simp)
  moreover have "taylor_result (\<Sum>m < odd_above (unat k) + 1. sin_coeff m * 0 ^ m) (\<bar>0\<bar> ^ (odd_above (unat k) + 1) / fact (odd_above (unat k) + 1)) (mk_q 0, mk_q 0)"
    by (simp add: taylor_result_def int_limits sin_coeff_def del: fact_Suc sum.lessThan_Suc)
  ultimately show ?thesis using a unfolding sine_def Let_def k1_def [symmetric] u
    by (cases "mpq_val a = 0") (simp_all del: fact_Suc power_Suc sum.lessThan_Suc)
qed

lemma cosine_yields:
  assumes a: "mpq_ok a" and k: "unat k + 2 < 2 ^ 31"
  shows "yields (cosine a k) (taylor_result (\<Sum>m < even_above (unat k) + 1. cos_coeff m * rv a ^ m) (\<bar>rv a\<bar> ^ (even_above (unat k) + 1) / fact (even_above (unat k) + 1)))"
proof -
  define k1 where "k1 = (if k mod 2 = 1 then k + 1 else k)"
  have m: "k mod 2 = 1 \<longleftrightarrow> odd (unat k)" by (simp add: odd_iff_mod_2_eq_one flip: unat_arith_simps(3)) (simp add: unat_mod_distrib word_unat_eq_iff odd_iff_mod_2_eq_one)
  have u: "unat k1 = even_above (unat k)" using digit_plus [of k 1] k by (simp add: k1_def even_above_def m)
  have b: "unat k1 + 1 < 2 ^ 31" "even (unat k1)" using k unfolding u by (auto simp: even_above_def)
  have "yields (taylor_bounds cosine_series a k1) (taylor_result (\<Sum>m < unat k1 + 1. cos_coeff m * rv a ^ m) (\<bar>rv a\<bar> ^ (unat k1 + 1) / fact (unat k1 + 1)))"
    by (rule taylor_bounds_yields [where series = cosine_series, OF a b(1) cosine_series_yields [OF a _ b(2)]]) (use b(1) in simp)
  moreover have "taylor_result (\<Sum>m < even_above (unat k) + 1. cos_coeff m * 0 ^ m) (\<bar>0\<bar> ^ (even_above (unat k) + 1) / fact (even_above (unat k) + 1)) (mk_q 1, mk_q 1)"
    by (simp add: taylor_result_def int_limits cos_coeff_def del: fact_Suc sum.lessThan_Suc)
  ultimately show ?thesis using a unfolding cosine_def Let_def k1_def [symmetric] u
    by (cases "mpq_val a = 0") (simp_all del: fact_Suc power_Suc sum.lessThan_Suc)
qed

section \<open>The series for pi\<close>

definition bbp :: "nat \<Rightarrow> 'a :: field_char_0" where
  "bbp k = (1 / 16) ^ k * (4 / of_nat (8 * k + 1) - 2 / of_nat (8 * k + 4) - 1 / of_nat (8 * k + 5) - 1 / of_nat (8 * k + 6))"

text \<open>The series as a function whose value at one is the partial sum.\<close>

definition bbp_poly :: "nat \<Rightarrow> real \<Rightarrow> real" where
  "bbp_poly n y = (\<Sum>k\<le>n. (1 / 16) ^ k * (4 * y ^ (8 * k + 1) / of_nat (8 * k + 1) - 2 * y ^ (8 * k + 4) / of_nat (8 * k + 4)
     - y ^ (8 * k + 5) / of_nat (8 * k + 5) - y ^ (8 * k + 6) / of_nat (8 * k + 6)))"

lemma bbp_poly_ends: "bbp_poly n 0 = 0" "bbp_poly n 1 = (\<Sum>k\<le>n. bbp k)"
  by (simp_all add: bbp_poly_def bbp_def power_0_left)

lemma power_over_deriv: "((\<lambda>y :: real. y ^ Suc m / of_nat (Suc m)) has_real_derivative y ^ m) (at y)"
  by (rule DERIV_cong [OF DERIV_cdivide [OF DERIV_pow]]) simp

lemma bbp_poly_deriv:
  "(bbp_poly n has_real_derivative (\<Sum>k\<le>n. (y ^ 8 / 16) ^ k) * (4 - 2 * y ^ 3 - y ^ 4 - y ^ 5)) (at y)"
proof -
  have "((\<lambda>y. \<Sum>k\<le>n. (1 / 16) ^ k * (4 * (y ^ Suc (8 * k) / of_nat (Suc (8 * k))) - 2 * (y ^ Suc (8 * k + 3) / of_nat (Suc (8 * k + 3)))
      - y ^ Suc (8 * k + 4) / of_nat (Suc (8 * k + 4)) - y ^ Suc (8 * k + 5) / of_nat (Suc (8 * k + 5)))) has_real_derivative
      (\<Sum>k\<le>n. (1 / 16) ^ k * (4 * y ^ (8 * k) - 2 * y ^ (8 * k + 3) - y ^ (8 * k + 4) - y ^ (8 * k + 5)))) (at y)"
    by (intro DERIV_sum DERIV_cmult DERIV_diff power_over_deriv)
  moreover have "(\<lambda>y. \<Sum>k\<le>n. (1 / 16) ^ k * (4 * (y ^ Suc (8 * k) / of_nat (Suc (8 * k))) - 2 * (y ^ Suc (8 * k + 3) / of_nat (Suc (8 * k + 3)))
      - y ^ Suc (8 * k + 4) / of_nat (Suc (8 * k + 4)) - y ^ Suc (8 * k + 5) / of_nat (Suc (8 * k + 5)))) = bbp_poly n"
    unfolding bbp_poly_def by (intro ext sum.cong refl) (simp add: eval_nat_numeral)
  moreover have "(\<Sum>k\<le>n. (1 / 16) ^ k * (4 * y ^ (8 * k) - 2 * y ^ (8 * k + 3) - y ^ (8 * k + 4) - y ^ (8 * k + 5)))
      = (\<Sum>k\<le>n. (y ^ 8 / 16) ^ k) * (4 - 2 * y ^ 3 - y ^ 4 - y ^ 5)"
    unfolding sum_distrib_right
    by (intro sum.cong refl) (simp add: power_divide power_mult [symmetric] power_add algebra_simps add_divide_distrib diff_divide_distrib)
  ultimately show ?thesis by simp
qed

text \<open>A primitive of the limit of the derivatives.\<close>

definition bbp_limit :: "real \<Rightarrow> real" where
  "bbp_limit y = 4 * arctan (y - 1) + 2 * ln (2 - y\<^sup>2) - 2 * ln (y\<^sup>2 - 2 * y + 2)"

lemma bbp_limit_ends: "bbp_limit 1 - bbp_limit 0 = pi"
  by (simp add: bbp_limit_def arctan_minus arctan_one)

lemma bbp_limit_deriv:
  assumes "0 \<le> y" "y \<le> 1"
  shows "(bbp_limit has_real_derivative (4 - 2 * y ^ 3 - y ^ 4 - y ^ 5) / (1 - y ^ 8 / 16)) (at y)"
proof -
  have y2: "y\<^sup>2 \<le> 1" using assms by (simp add: power_le_one)
  have p: "0 < 2 - y\<^sup>2" "0 < y\<^sup>2 - 2 * y + 2" using y2 zero_le_power2 [of "y - 1"] by (simp_all add: power2_diff)
  have q: "0 < 2 + y\<^sup>2" "0 < y\<^sup>2 + 2 * y + 2" using assms zero_le_power2 [of y] by (linarith, linarith)
  have d: "(bbp_limit has_real_derivative 4 * (inverse (1 + (y - 1)\<^sup>2)) + 2 * ((- 2 * y) / (2 - y\<^sup>2)) - 2 * ((2 * y - 2) / (y\<^sup>2 - 2 * y + 2))) (at y)"
    unfolding bbp_limit_def using p by (auto intro!: derivative_eq_intros simp: field_simps)
  have sq: "1 + (y - 1)\<^sup>2 = y\<^sup>2 - 2 * y + 2" by (simp add: power2_diff)
  have "4 * (inverse (1 + (y - 1)\<^sup>2)) + 2 * ((- 2 * y) / (2 - y\<^sup>2)) - 2 * ((2 * y - 2) / (y\<^sup>2 - 2 * y + 2))
      = (8 - 4 * y) / (y\<^sup>2 - 2 * y + 2) - 4 * y / (2 - y\<^sup>2)"
    unfolding sq using p by (simp add: divide_simps) (simp add: algebra_simps)
  also have "\<dots> = 16 * (1 - y) / ((2 - y\<^sup>2) * (y\<^sup>2 - 2 * y + 2))"
    using p by (simp add: divide_simps) (simp add: algebra_simps power2_eq_square)
  also have "\<dots> = (16 * (1 - y) * ((2 + y\<^sup>2) * (y\<^sup>2 + 2 * y + 2))) / (((2 - y\<^sup>2) * (y\<^sup>2 - 2 * y + 2)) * ((2 + y\<^sup>2) * (y\<^sup>2 + 2 * y + 2)))"
    using q by (intro mult_divide_mult_cancel_right [symmetric]) auto
  also have "((2 - y\<^sup>2) * (y\<^sup>2 - 2 * y + 2)) * ((2 + y\<^sup>2) * (y\<^sup>2 + 2 * y + 2)) = 16 - y ^ 8"
    by (simp add: algebra_simps eval_nat_numeral)
  also have "16 * (1 - y) * ((2 + y\<^sup>2) * (y\<^sup>2 + 2 * y + 2)) = 16 * (4 - 2 * y ^ 3 - y ^ 4 - y ^ 5)"
    by (simp add: algebra_simps eval_nat_numeral)
  also have "16 * (4 - 2 * y ^ 3 - y ^ 4 - y ^ 5) / (16 - y ^ 8) = (4 - 2 * y ^ 3 - y ^ 4 - y ^ 5) / (1 - y ^ 8 / 16)"
  proof -
    have "16 - y ^ 8 = 16 * (1 - y ^ 8 / 16)" by simp
    then show ?thesis by (metis mult_divide_mult_cancel_left zero_neq_numeral)
  qed
  finally show ?thesis using d by simp
qed

text \<open>The rest of the derivative.\<close>

lemma bbp_rest_bounds:
  fixes y :: real
  assumes "0 \<le> y" "y \<le> 1"
  defines "q \<equiv> y ^ 8 / 16" and "w \<equiv> 4 - 2 * y ^ 3 - y ^ 4 - y ^ 5"
  shows "0 \<le> w / (1 - q) - (\<Sum>k\<le>n. q ^ k) * w" "w / (1 - q) - (\<Sum>k\<le>n. q ^ k) * w \<le> 4 / 15 / 16 ^ n * y ^ (8 * n + 8)"
proof -
  have pw: "0 \<le> y ^ m" "y ^ m \<le> 1" for m using assms(1,2) by (simp_all add: power_le_one)
  have q: "0 \<le> q" "q \<le> 1 / 16" using pw [of 8] by (simp_all add: q_def)
  have w: "0 \<le> w" "w \<le> 4" unfolding w_def using pw [of 3] pw [of 4] pw [of 5] by (linarith, linarith)
  have s: "(\<Sum>k\<le>n. q ^ k) = (1 - q ^ Suc n) / (1 - q)" using q by (simp add: sum_gp0)
  have e: "w / (1 - q) - (\<Sum>k\<le>n. q ^ k) * w = w * (q ^ Suc n / (1 - q))"
    unfolding s by (simp add: diff_divide_distrib left_diff_distrib del: power_Suc)
  show "0 \<le> w / (1 - q) - (\<Sum>k\<le>n. q ^ k) * w" unfolding e using w q by (intro mult_nonneg_nonneg divide_nonneg_nonneg) simp_all
  have "q ^ Suc n / (1 - q) \<le> q ^ Suc n * (16 / 15)"
  proof -
    have "1 / (1 - q) \<le> 16 / 15" using q by (simp add: divide_simps)
    then have "q ^ Suc n * (1 / (1 - q)) \<le> q ^ Suc n * (16 / 15)" using q by (intro mult_left_mono zero_le_power)
    then show ?thesis by simp
  qed
  then have "w * (q ^ Suc n / (1 - q)) \<le> 4 * (q ^ Suc n * (16 / 15))"
    using w q by (intro mult_mono) (simp_all add: zero_le_mult_iff)
  also have "\<dots> = 4 / 15 / 16 ^ n * y ^ (8 * n + 8)"
    by (simp add: q_def power_divide power_mult [symmetric] power_add field_simps)
  finally show "w / (1 - q) - (\<Sum>k\<le>n. q ^ k) * w \<le> 4 / 15 / 16 ^ n * y ^ (8 * n + 8)" unfolding e .
qed

text \<open>The partial sums are below pi, and the error is at most \<open>1/15 * 1/16^n\<close>.\<close>

lemma bbp_error:
  "0 \<le> pi - (\<Sum>k\<le>n. bbp k)" "pi - (\<Sum>k\<le>n. bbp k) \<le> 1 / 15 * (1 / 16) ^ n"
proof -
  let ?D = "\<lambda>y. bbp_limit y - bbp_poly n y"
  let ?d = "\<lambda>y. (4 - 2 * y ^ 3 - y ^ 4 - y ^ 5) / (1 - y ^ 8 / 16) - (\<Sum>k\<le>n. (y ^ 8 / 16) ^ k) * (4 - 2 * y ^ 3 - y ^ 4 - y ^ 5) :: real"
  have D: "(?D has_real_derivative ?d y) (at y)" if "0 \<le> y" "y \<le> 1" for y
    by (intro DERIV_diff bbp_limit_deriv bbp_poly_deriv that)
  have ends: "?D 1 - ?D 0 = pi - (\<Sum>k\<le>n. bbp k)" using bbp_limit_ends by (simp add: bbp_poly_ends)
  have "?D 0 \<le> ?D 1"
  proof (rule DERIV_nonneg_imp_nondecreasing [where f = ?D and a = 0 and b = 1])
    fix y :: real assume y: "0 \<le> y" "y \<le> 1"
    show "\<exists>v. (?D has_real_derivative v) (at y) \<and> 0 \<le> v" using D [OF y] bbp_rest_bounds(1) [OF y, of n] by blast
  qed simp
  then show "0 \<le> pi - (\<Sum>k\<le>n. bbp k)" using ends by linarith
  let ?c = "4 / 15 / 16 ^ n :: real"
  let ?U = "\<lambda>y. ?c * (y ^ Suc (8 * n + 8) / of_nat (Suc (8 * n + 8))) - ?D y"
  have U: "(?U has_real_derivative ?c * y ^ (8 * n + 8) - ?d y) (at y)" if "0 \<le> y" "y \<le> 1" for y
    by (intro DERIV_diff [OF DERIV_cmult [OF power_over_deriv] D] that)
  have "?U 0 \<le> ?U 1"
  proof (rule DERIV_nonneg_imp_nondecreasing [where f = ?U and a = 0 and b = 1])
    fix y :: real assume y: "0 \<le> y" "y \<le> 1"
    show "\<exists>v. (?U has_real_derivative v) (at y) \<and> 0 \<le> v"
      using U [OF y] bbp_rest_bounds(2) [OF y, of n] by (intro exI [of _ "?c * y ^ (8 * n + 8) - ?d y"]) simp
  qed simp
  then have "?D 1 - ?D 0 \<le> ?c / of_nat (Suc (8 * n + 8))" by (simp add: power_0_left)
  also have "\<dots> \<le> 1 / 15 * (1 / 16) ^ n"
    by (simp add: divide_simps power_one_over)
  finally show "pi - (\<Sum>k\<le>n. bbp k) \<le> 1 / 15 * (1 / 16) ^ n" unfolding ends .
qed

section \<open>Euler's number\<close>

lemma sum_two: "(\<Sum>m < 2. f m) = f 0 + f (1 :: nat)"
  by (simp add: numeral_2_eq_2)

lemma e_series_yields:
  assumes "unat k < 2 ^ 31"
  shows "yields (e_series k) (\<lambda>q. mpq_ok q \<and> mpq_val q = (\<Sum>m < max (unat k) 1 + 1. 1 / fact m))"
  unfolding e_series_def yields_bind yields_Inr
proof (rule yields_mono [OF for_loop [where P = "\<lambda>s. mpq_ok (es_d s) \<and> mpq_ok (es_o s) \<and> 2 \<le> unat (es_i s) \<and> unat (es_i s) \<le> max (unat k) 1 + 1
    \<and> mpq_val (es_d s) = fact (unat (es_i s) - 1) \<and> mpq_val (es_o s) = (\<Sum>m < unat (es_i s). 1 / fact m)"]])
  fix s :: e_state
  assume s: "mpq_ok (es_d s) \<and> mpq_ok (es_o s) \<and> 2 \<le> unat (es_i s) \<and> unat (es_i s) \<le> max (unat k) 1 + 1
    \<and> mpq_val (es_d s) = fact (unat (es_i s) - 1) \<and> mpq_val (es_o s) = (\<Sum>m < unat (es_i s). 1 / fact m)"
    and le: "es_i s \<le> k"
  let ?i = "unat (es_i s)"
  have i: "?i \<le> unat k" using le by (simp add: word_le_nat_alt)
  have lt: "?i < 2 ^ 31" using i assms by linarith
  have suc: "unat (es_i s + 1) = ?i + 1" using digit_plus [of "es_i s" 1] lt by simp
  have f: "fact (?i - 1) * of_nat ?i = (fact ?i :: rat)" using s by (simp add: fact_reduce [of ?i] mult.commute)
  obtain d where d: "at3 mul_at 0 1 0 (es_d s) (mk_q (sint (es_i s))) = Inr d" "mpq_ok d" "mpq_val d = fact ?i"
    using at3_mul_yields [OF conjunct1 [OF s] small_digit(2) [OF lt], of 0] s f small_digit(3) [OF lt] by (auto elim!: yieldsE)
  have inv: "mpq_ok (mpq_inv d)" "mpq_val (mpq_inv d) = 1 / fact ?i"
    using mpq_inv_val [OF d(2)] d(3) by (simp_all add: divide_inverse)
  obtain o' where o': "at3 add_at 0 1 0 (es_o s) (mpq_inv d) = Inr o'" "mpq_ok o'" "mpq_val o' = mpq_val (es_o s) + 1 / fact ?i"
    using add_or_sub_yields [of "es_o s" "mpq_inv d" False] s inv by (auto elim!: yieldsE simp del: One_nat_def)
  have "e_step s = Inr \<lparr>es_i = es_i s + 1, es_d = d, es_o = o'\<rparr>" by (simp add: e_step_def d(1) o'(1) del: One_nat_def)
  then show "yields (e_step s) (\<lambda>t. (mpq_ok (es_d t) \<and> mpq_ok (es_o t) \<and> 2 \<le> unat (es_i t) \<and> unat (es_i t) \<le> max (unat k) 1 + 1
    \<and> mpq_val (es_d t) = fact (unat (es_i t) - 1) \<and> mpq_val (es_o t) = (\<Sum>m < unat (es_i t). 1 / fact m)) \<and> unat (es_i s) < unat (es_i t))"
    using s d(2,3) o'(2,3) i suc by (simp add: max_def)
next
  fix s :: e_state
  assume s: "(mpq_ok (es_d s) \<and> mpq_ok (es_o s) \<and> 2 \<le> unat (es_i s) \<and> unat (es_i s) \<le> max (unat k) 1 + 1
    \<and> mpq_val (es_d s) = fact (unat (es_i s) - 1) \<and> mpq_val (es_o s) = (\<Sum>m < unat (es_i s). 1 / fact m)) \<and> unat k < unat (es_i s)"
  then have "unat (es_i s) = max (unat k) 1 + 1" by (auto simp: max_def split: if_splits)
  then show "mpq_ok (es_o s) \<and> mpq_val (es_o s) = (\<Sum>m < max (unat k) 1 + 1. 1 / fact m)" using s by metis
qed (simp add: int_limits sum_two)

lemma e_error:
  assumes "0 < n"
  shows "0 \<le> exp 1 - (\<Sum>m < n. 1 / fact m :: real)" "exp 1 - (\<Sum>m < n. 1 / fact m :: real) \<le> 3 / fact n"
proof -
  obtain t :: real where t: "\<bar>t\<bar> \<le> 1" "exp 1 = (\<Sum>m < n. 1 / fact m) + exp t / fact n"
    using Maclaurin_exp_le [of 1 n] by auto
  have "exp t \<le> 3" using t(1) exp_le order_trans [of "exp t" "exp 1" 3] by simp
  then show "0 \<le> exp 1 - (\<Sum>m < n. 1 / fact m :: real)" "exp 1 - (\<Sum>m < n. 1 / fact m :: real) \<le> 3 / fact n"
    unfolding t(2) by (simp_all add: divide_right_mono)
qed

lemma closed_ivl_members: "mpq_ok l \<Longrightarrow> mpq_ok u \<Longrightarrow> ivl_ok (closed_ivl l u)" "members (closed_ivl l u) = {rv l..rv u}"
  by (auto simp: closed_ivl_def members_def lower_holds_def upper_holds_def)

lemma ivl_e_yields:
  assumes k: "unat k + 1 < 2 ^ 31"
  shows "yields (ivl_e k r \<sigma>) (writes r \<sigma> (\<lambda>c. ivl_wf c \<and> exp 1 \<in> members c
    \<and> rv (m_upper c) - rv (m_lower c) = 4 / fact (unat k + 1)))"
proof -
  have n: "unat (k + 1) = unat k + 1" using digit_plus [of k 1] k by simp
  let ?K = "max (unat k) 1 + 1"
  obtain lo where lo: "e_series k = Inr lo" "mpq_ok lo" "mpq_val lo = (\<Sum>m < ?K. 1 / fact m)"
    using e_series_yields [of k] k by (auto elim!: yieldsE)
  obtain w where w: "fact_num (k + 1) = Inr w" "mpq_ok w" "mpq_val w = fact (unat k + 1)"
    using fact_num_yields [of "k + 1"] k n by (auto elim!: yieldsE)
  have inv: "mpq_ok (mpq_inv w)" "mpq_val (mpq_inv w) = inverse (fact (unat k + 1))"
    using mpq_inv_val [OF w(2)] by (simp_all add: w(3) del: fact_Suc)
  obtain e where e: "at3 mul_at 0 1 1 (mk_q 4) (mpq_inv w) = Inr e" "mpq_ok e" "mpq_val e = 4 / fact (unat k + 1)"
    using at3_mul_yields [of "mk_q 4" "mpq_inv w" 1] inv by (auto simp: int_limits divide_inverse simp del: fact_Suc One_nat_def elim!: yieldsE)
  obtain hi where hi: "at3 add_at 0 1 0 lo e = Inr hi" "mpq_ok hi" "mpq_val hi = mpq_val lo + mpq_val e"
    using at3_yields(1) [OF lo(2) e(2), of 0 1 0] by (auto simp del: One_nat_def elim!: yieldsE)
  have "rv lo = (\<Sum>m < ?K. 1 / fact m)" unfolding lo(3) by (simp add: of_rat_sum of_rat_divide of_rat_fact of_rat_add)
  moreover have w': "rv hi = rv lo + 4 / fact (unat k + 1)"
    unfolding hi(3) e(3) by (simp add: of_rat_add of_rat_divide of_rat_fact del: fact_Suc)
  moreover have "3 / fact ?K \<le> (4 / fact (unat k + 1) :: real)"
  proof (cases "unat k = 0")
    case False
    then have "max (unat k) 1 = unat k" by simp
    then show ?thesis by (simp add: divide_right_mono del: fact_Suc)
  qed (simp add: numeral_2_eq_2)
  ultimately have "exp 1 \<in> members (closed_ivl lo hi)"
    using e_error [of ?K] unfolding closed_ivl_members(2) by auto
  then show ?thesis
    using closed_ivl_members(1) [OF lo(2) hi(2)] w'
    by (auto simp: ivl_e_def lo(1) w(1) e(1) hi(1) writes_def ivl_wf_iff closed_ivl_def simp del: fact_Suc One_nat_def)
qed

section \<open>Pi\<close>

lemma int_expr_yields: "int_min \<le> v \<Longrightarrow> v \<le> int_max \<Longrightarrow> int_expr v = Inr v"
  by (simp add: int_expr_def)

lemma of_rat_bbp: "real_of_rat (bbp k) = bbp k"
  by (simp add: bbp_def of_rat_mult of_rat_diff of_rat_divide of_rat_power of_rat_add)

lemma pi_series_yields:
  assumes "unat (i :: digit) < 2 ^ 28"
  shows "yields (pi_series (int (unat i))) (\<lambda>q. mpq_ok q \<and> mpq_val q = bbp (unat i))"
proof -
  let ?x = "int (unat i)"
  have "?x < int (2 ^ 28)" using assms by (simp only: of_nat_less_iff)
  then have x: "?x < 2 ^ 28" by (simp only: of_nat_power of_nat_numeral)
  define y where "y = ?x"
  have y: "0 \<le> y" "y < 268435456" using x unfolding y_def by (simp_all del: of_nat_unat int_nat_eq)
  have e: "int_expr (8 * y + c) = Inr (8 * y + c)" if "0 \<le> c" "c \<le> 6" for c
    using y that by (intro int_expr_yields) (simp_all add: int_limits)
  have s: "yields (mpq_set_int2 n (8 * y + c)) (\<lambda>q. mpq_ok q \<and> mpq_val q = of_int n / of_int (8 * y + c))"
    if "1 \<le> c" "c \<le> 6" "n \<in> {1, 2, 4}" for c n
    using y that by (intro mpq_set_int2_yields) (auto simp: int_limits)
  obtain a where a: "mpq_set_int2 4 (8 * y + 1) = Inr a" "mpq_ok a" "mpq_val a = 4 / of_int (8 * y + 1)" using s [of 1 4] by (auto elim!: yieldsE)
  obtain b where b: "mpq_set_int2 2 (8 * y + 4) = Inr b" "mpq_ok b" "mpq_val b = 2 / of_int (8 * y + 4)" using s [of 4 2] by (auto elim!: yieldsE)
  obtain c where c: "mpq_set_int2 1 (8 * y + 5) = Inr c" "mpq_ok c" "mpq_val c = 1 / of_int (8 * y + 5)" using s [of 5 1] by (auto elim!: yieldsE)
  obtain d where d: "mpq_set_int2 1 (8 * y + 6) = Inr d" "mpq_ok d" "mpq_val d = 1 / of_int (8 * y + 6)" using s [of 6 1] by (auto elim!: yieldsE)
  obtain ab where ab: "at3 sub_at 0 1 0 a b = Inr ab" "mpq_ok ab" "mpq_val ab = mpq_val a - mpq_val b"
    using add_or_sub_yields [OF a(2) b(2), of True, unfolded if_True] by (rule yieldsE) blast
  obtain ac where ac: "at3 sub_at 0 1 0 ab c = Inr ac" "mpq_ok ac" "mpq_val ac = mpq_val ab - mpq_val c"
    using add_or_sub_yields [OF ab(2) c(2), of True, unfolded if_True] by (rule yieldsE) blast
  obtain ad where ad: "at3 sub_at 0 1 0 ac d = Inr ad" "mpq_ok ad" "mpq_val ad = mpq_val ac - mpq_val d"
    using add_or_sub_yields [OF ac(2) d(2), of True, unfolded if_True] by (rule yieldsE) blast
  obtain f where f: "mpq_set_int2 1 16 = Inr f" "mpq_ok f" "mpq_val f = 1 / 16"
    using mpq_set_int2_yields [of 1 16] by (auto simp: int_limits elim!: yieldsE)
  have p: "(of_int y :: digit) = i" unfolding y_def by simp
  obtain g where g: "mpq_power f i = Inr g" "mpq_ok g" "mpq_val g = (1 / 16) ^ unat i"
    using mpq_power_yields [OF f(2), of i] assms f(3) by (auto elim!: yieldsE)
  obtain h where h: "at3 mul_at 0 1 0 ad g = Inr h" "mpq_ok h" "mpq_val h = mpq_val ad * mpq_val g"
    using at3_mul_yields [OF ad(2) g(2), of 0] by (rule yieldsE) blast
  have "pi_series y = Inr h"
    unfolding pi_series_def using e [of 1] e [of 4] e [of 5] e [of 6]
    by (simp only: bind_res.simps a(1) b(1) c(1) d(1) ab(1) ac(1) ad(1) f(1) g(1) h(1) p)
  moreover have "mpq_val h = bbp (unat i)"
    by (simp add: h(3) ad(3) ac(3) ab(3) a(3) b(3) c(3) d(3) g(3) bbp_def y_def)
  ultimately show ?thesis using h(2) by (simp add: y_def)
qed

lemma ivl_pi_yields:
  assumes n: "unat n < 2 ^ 28"
  shows "yields (ivl_pi n r \<sigma>) (writes r \<sigma> (\<lambda>c. ivl_wf c \<and> pi \<in> members c
    \<and> rv (m_upper c) - rv (m_lower c) = 1 / (15 * 16 ^ unat n)))"
proof -
  obtain f where f: "mpq_set_int2 1 16 = Inr f" "mpq_ok f" "mpq_val f = 1 / 16"
    using mpq_set_int2_yields [of 1 16] by (auto simp: int_limits elim!: yieldsE)
  obtain g where g: "mpq_power f n = Inr g" "mpq_ok g" "mpq_val g = (1 / 16) ^ unat n"
    using mpq_power_yields [OF f(2), of n] n f(3) by (auto elim!: yieldsE)
  obtain p where p: "mpq_set_int2 1 15 = Inr p" "mpq_ok p" "mpq_val p = 1 / 15"
    using mpq_set_int2_yields [of 1 15] by (auto simp: int_limits elim!: yieldsE)
  obtain len where len: "at3 mul_at 0 1 1 p g = Inr len" "mpq_ok len" "mpq_val len = mpq_val p * mpq_val g"
    using at3_mul_yields [OF p(2) g(2), of 1] by (rule yieldsE) blast
  have loop: "yields (while_res (\<lambda>s. ps_i s \<le> n) pi_step \<lparr>ps_i = 0, ps_l = mk_q 0\<rparr>)
      (\<lambda>s. (mpq_ok (ps_l s) \<and> unat (ps_i s) \<le> unat n + 1 \<and> mpq_val (ps_l s) = (\<Sum>k < unat (ps_i s). bbp k)) \<and> unat n < unat (ps_i s))"
  proof (rule for_loop)
    fix s :: pi_state
    assume s: "mpq_ok (ps_l s) \<and> unat (ps_i s) \<le> unat n + 1 \<and> mpq_val (ps_l s) = (\<Sum>k < unat (ps_i s). bbp k)" and le: "ps_i s \<le> n"
    have i: "unat (ps_i s) \<le> unat n" using le by (simp add: word_le_nat_alt)
    have lt: "unat (ps_i s) < 2 ^ 28" using i n by linarith
    then have lt31: "unat (ps_i s) < 2 ^ 31" by simp
    have suc: "unat (ps_i s + 1) = unat (ps_i s) + 1" using digit_plus [of "ps_i s" 1] lt by simp
    obtain q where q: "pi_series (sint (ps_i s)) = Inr q" "mpq_ok q" "mpq_val q = bbp (unat (ps_i s))"
      using pi_series_yields [OF lt] unfolding small_digit(1) [OF lt31] by (rule yieldsE) blast
    obtain l where l: "at3 add_at 0 1 0 (ps_l s) q = Inr l" "mpq_ok l" "mpq_val l = mpq_val (ps_l s) + mpq_val q"
      using add_or_sub_yields [OF conjunct1 [OF s] q(2), of False, unfolded if_False] by (rule yieldsE) blast
    show "yields (pi_step s) (\<lambda>t. (mpq_ok (ps_l t) \<and> unat (ps_i t) \<le> unat n + 1 \<and> mpq_val (ps_l t) = (\<Sum>k < unat (ps_i t). bbp k)) \<and> unat (ps_i s) < unat (ps_i t))"
      unfolding pi_step_def q(1) bind_res.simps l(1) using s l(2,3) q(3) i by (simp add: suc)
  qed (simp add: int_limits)
  obtain s where s: "while_res (\<lambda>s. ps_i s \<le> n) pi_step \<lparr>ps_i = 0, ps_l = mk_q 0\<rparr> = Inr s" "mpq_ok (ps_l s)"
    "mpq_val (ps_l s) = (\<Sum>k < unat n + 1. bbp k)"
  proof -
    from loop obtain s where r: "while_res (\<lambda>s. ps_i s \<le> n) pi_step \<lparr>ps_i = 0, ps_l = mk_q 0\<rparr> = Inr s"
      "(mpq_ok (ps_l s) \<and> unat (ps_i s) \<le> unat n + 1 \<and> mpq_val (ps_l s) = (\<Sum>k < unat (ps_i s). bbp k)) \<and> unat n < unat (ps_i s)"
      by (rule yieldsE)
    then have "unat (ps_i s) = unat n + 1" by linarith
    with r(2) have "mpq_ok (ps_l s)" "mpq_val (ps_l s) = (\<Sum>k < unat n + 1. bbp k)" by metis+
    then show thesis using that r(1) by blast
  qed
  obtain u where u: "at3 add_at 0 1 2 (ps_l s) len = Inr u" "mpq_ok u" "mpq_val u = mpq_val (ps_l s) + mpq_val len"
    using at3_yields(1) [of "ps_l s" len 0 1 2, OF s(2) len(2)] by (auto simp del: One_nat_def elim!: yieldsE)
  have l: "rv (ps_l s) = (\<Sum>k\<le>unat n. bbp k)" unfolding s(3) by (simp add: of_rat_sum of_rat_bbp lessThan_Suc_atMost del: sum.lessThan_Suc)
  have w: "rv u = rv (ps_l s) + 1 / 15 * (1 / 16) ^ unat n"
    unfolding u(3) len(3) p(3) g(3) by (simp add: of_rat_add of_rat_mult of_rat_divide of_rat_power)
  have "pi \<in> members (closed_ivl (ps_l s) u)"
    using bbp_error [of "unat n"] unfolding closed_ivl_members(2) l [symmetric] by (simp add: w)
  then show ?thesis
    using closed_ivl_members(1) [OF s(2) u(2)] w
    unfolding ivl_pi_def f(1) bind_res.simps g(1) p(1) len(1) s(1) Let_def u(1)
    by (auto simp: writes_def ivl_wf_iff closed_ivl_def power_one_over)
qed

section \<open>The cached intervals\<close>

lemma ivl_mul_frac_yields:
  assumes "int_min < n" "n \<le> int_max" "0 < n" "0 < d" "d \<le> int_max" "ivl_wf (\<sigma> a)" "ivl_ok (\<sigma> b)"
  shows "yields (ivl_mul_frac n d a b \<sigma>) (writes b \<sigma> (\<lambda>c. ivl_wf c \<and> members c = (\<lambda>x. of_int n / of_int d * x) ` members (\<sigma> a)))"
proof -
  obtain q where q: "mpq_set_int2 n d = Inr q" "mpq_ok q" "mpq_val q = of_int n / of_int d"
    using mpq_set_int2_yields [of n d] assms(1-5) by (auto simp: int_limits elim!: yieldsE)
  then have q0: "mpq_val q \<noteq> 0" "rv q = of_int n / of_int d" using assms(3,4) by (simp_all add: of_rat_divide)
  show ?thesis unfolding ivl_mul_frac_def q(1) bind_res.simps
    by (rule yields_writes_mono [OF mul_num_op.exact [of \<sigma> a b q, OF assms(6,7) conjI [OF q(2) q0(1)]]])
      (simp add: q0(2))
qed

text \<open>The cached intervals contain the multiples of pi, and that of pi has the width of its precision.\<close>

definition pi_cache_ok :: "pi_cache \<Rightarrow> bool" where
  "pi_cache_ok c \<longleftrightarrow> (\<forall>k. ivl_wf (m_ivls c k)) \<and> pi \<in> members (m_ivls c m_pi) \<and> pi / 2 \<in> members (m_ivls c m_pi_div_2)
     \<and> 3 * pi / 2 \<in> members (m_ivls c m_3_pi_div_2) \<and> 2 * pi \<in> members (m_ivls c m_2_pi)
     \<and> (m_pi_n c \<noteq> 0 \<longrightarrow> rv (m_upper (m_ivls c m_pi)) - rv (m_lower (m_ivls c m_pi)) = 1 / (15 * 16 ^ unat (m_pi_n c)))"

definition new_pi_cache :: pi_cache where
  "new_pi_cache = \<lparr>m_pi_n = 0, m_ivls = (\<lambda>_. new_interval)\<rparr>"

lemma new_pi_cache_ok: "pi_cache_ok new_pi_cache"
proof -
  have "members new_interval = UNIV" "ivl_ok new_interval"
    by (simp_all add: new_interval_def members_def lower_holds_def upper_holds_def int_limits)
  then show ?thesis by (simp add: pi_cache_ok_def new_pi_cache_def ivl_wf_iff)
qed

lemma set_pi_prec_yields:
  assumes n: "unat n < 2 ^ 28" and wf: "\<forall>k. ivl_wf (m_ivls c k)"
  shows "yields (set_pi_prec n c) (\<lambda>d. m_pi_n d = n \<and> pi_cache_ok d)"
proof -
  have ok: "\<forall>k. ivl_ok (m_ivls c k)" using wf unfolding ivl_wf_def by blast
  obtain \<sigma>1 where s1: "ivl_pi n m_pi (m_ivls c) = Inr \<sigma>1" "writes m_pi (m_ivls c) (\<lambda>c. ivl_wf c \<and> pi \<in> members c
      \<and> rv (m_upper c) - rv (m_lower c) = 1 / (15 * 16 ^ unat n)) \<sigma>1"
    using ivl_pi_yields [OF n] by (rule yieldsE)
  have wf1: "\<forall>k. ivl_wf (\<sigma>1 k)" by (rule writes_valid [OF s1(2) _ wf], elim conjE)
  have step: "\<exists>\<tau>. ivl_mul_frac a b m_pi r \<sigma> = Inr \<tau> \<and> (\<forall>k. ivl_wf (\<tau> k)) \<and> (\<forall>k. k \<noteq> r \<longrightarrow> \<tau> k = \<sigma> k)
      \<and> of_int a / of_int b * pi \<in> members (\<tau> r)"
    if "\<forall>k. ivl_wf (\<sigma> k)" "pi \<in> members (\<sigma> m_pi)" "a \<in> {1, 2, 3}" "b \<in> {1, 2}" for a b r \<sigma>
  proof -
    have lim: "int_min < a" "a \<le> int_max" "0 < a" "0 < b" "b \<le> int_max" using that(3,4) by (auto simp: int_limits)
    have o: "ivl_ok (\<sigma> r)" "ivl_wf (\<sigma> m_pi)" using that(1) unfolding ivl_wf_def by blast+
    obtain \<tau> where t: "ivl_mul_frac a b m_pi r \<sigma> = Inr \<tau>" "writes r \<sigma> (\<lambda>c. ivl_wf c \<and> members c = (\<lambda>x. of_int a / of_int b * x) ` members (\<sigma> m_pi)) \<tau>"
      using ivl_mul_frac_yields [of a b \<sigma> m_pi r, OF lim o(2,1)] by (rule yieldsE)
    have w: "\<forall>k. ivl_wf (\<tau> k)" by (rule writes_valid [OF t(2) _ that(1)], elim conjE)
    have m: "members (\<tau> r) = (\<lambda>x. of_int a / of_int b * x) ` members (\<sigma> m_pi)" and f: "\<forall>k. k \<noteq> r \<longrightarrow> \<tau> k = \<sigma> k"
      using t(2) unfolding writes_def by blast+
    have "of_int a / of_int b * pi \<in> members (\<tau> r)" unfolding m using that(2) by (rule imageI)
    then show ?thesis using t(1) w f by blast
  qed
  note addr = m_pi_def m_pi_div_2_def m_3_pi_div_2_def m_2_pi_def
  have p1: "pi \<in> members (\<sigma>1 m_pi)" "rv (m_upper (\<sigma>1 m_pi)) - rv (m_lower (\<sigma>1 m_pi)) = 1 / (15 * 16 ^ unat n)"
    using s1(2) unfolding writes_def by blast+
  obtain \<sigma>2 where s2: "ivl_mul_frac 1 2 m_pi m_pi_div_2 \<sigma>1 = Inr \<sigma>2" "\<forall>k. ivl_wf (\<sigma>2 k)" "\<forall>k. k \<noteq> m_pi_div_2 \<longrightarrow> \<sigma>2 k = \<sigma>1 k"
    "pi / 2 \<in> members (\<sigma>2 m_pi_div_2)"
    using step [OF wf1 p1(1), of 1 2 m_pi_div_2] by auto
  have p2: "\<sigma>2 m_pi = \<sigma>1 m_pi" using s2(3) by (simp add: addr)
  obtain \<sigma>3 where s3: "ivl_mul_frac 3 2 m_pi m_3_pi_div_2 \<sigma>2 = Inr \<sigma>3" "\<forall>k. ivl_wf (\<sigma>3 k)" "\<forall>k. k \<noteq> m_3_pi_div_2 \<longrightarrow> \<sigma>3 k = \<sigma>2 k"
    "3 * pi / 2 \<in> members (\<sigma>3 m_3_pi_div_2)"
    using step [OF s2(2) p1(1) [folded p2], of 3 2 m_3_pi_div_2] by auto
  have p3: "\<sigma>3 m_pi = \<sigma>1 m_pi" using s3(3) p2 by (simp add: addr)
  obtain \<sigma>4 where s4: "ivl_mul_frac 2 1 m_pi m_2_pi \<sigma>3 = Inr \<sigma>4" "\<forall>k. ivl_wf (\<sigma>4 k)" "\<forall>k. k \<noteq> m_2_pi \<longrightarrow> \<sigma>4 k = \<sigma>3 k"
    "2 * pi \<in> members (\<sigma>4 m_2_pi)"
    using step [OF s3(2) p1(1) [folded p3], of 2 1 m_2_pi] by auto
  have f: "\<sigma>4 m_pi = \<sigma>1 m_pi" "\<sigma>4 m_pi_div_2 = \<sigma>2 m_pi_div_2" "\<sigma>4 m_3_pi_div_2 = \<sigma>3 m_3_pi_div_2"
    using s4(3) s3(3) p3 by (simp_all add: addr)
  have "set_pi_prec n c = Inr \<lparr>m_pi_n = n, m_ivls = \<sigma>4\<rparr>"
    by (simp add: set_pi_prec_def s1(1) s2(1) s3(1) s4(1))
  then show ?thesis using s4(2,4) s3(4) s2(4) p1 by (simp add: pi_cache_ok_def f)
qed

lemma set_pi_at_least_prec_yields:
  assumes "unat n < 2 ^ 28" "pi_cache_ok c"
  shows "yields (set_pi_at_least_prec n c) (\<lambda>d. m_pi_n d = max n (m_pi_n c) \<and> pi_cache_ok d)"
proof -
  have "\<forall>k. ivl_wf (m_ivls c k)" using assms(2) unfolding pi_cache_ok_def by blast
  from set_pi_prec_yields [OF assms(1) this] show ?thesis
    using assms(2) by (auto simp: set_pi_at_least_prec_def max_def not_less elim!: yields_mono)
qed

end
