(* ===== verification/Rational.thy ===== *)
theory Rational
  imports Ext_Numeral
begin

text \<open>
  The class \<open>rational\<close> (\<open>util/rational.h\<close>, \<open>util/rational.cpp\<close>): a number of the global \<open>mpq_manager\<close> with
  operators. The arithmetic operators copy the first argument and overwrite the copy. The algorithms of
  the class: residues around zero, sums of products, the cached powers of two, inverses modulo a power of
  two, digits, and the continued fraction of \<open>limit_denominator\<close>. The lock around the cache is not modelled.
\<close>

section \<open>Operators\<close>

definition rational_add :: "mpq \<Rightarrow> mpq \<Rightarrow> mpq res" where "rational_add = at3 add_at 0 1 0"
definition rational_sub :: "mpq \<Rightarrow> mpq \<Rightarrow> mpq res" where "rational_sub = at3 sub_at 0 1 0"
definition rational_mul :: "mpq \<Rightarrow> mpq \<Rightarrow> mpq res" where "rational_mul = at3 mul_at 0 1 0"
definition rational_div :: "mpq \<Rightarrow> mpq \<Rightarrow> mpq res" where "rational_div = at3 div_at 0 1 0"
definition rational_inc :: "mpq \<Rightarrow> mpq res" where "rational_inc a = at3 add_at 0 1 0 a (mk_q 1)"
definition rational_dec :: "mpq \<Rightarrow> mpq res" where "rational_dec a = at3 sub_at 0 1 0 a (mk_q 1)"

definition is_unsigned :: "mpq \<Rightarrow> bool" where
  "is_unsigned a \<longleftrightarrow> mpq_is_uint64 a \<and> mpq_get_uint64 a < 2 ^ 32"

definition get_unsigned :: "mpq \<Rightarrow> digit" where "get_unsigned a = ucast (mpq_get_uint64 a)"

definition is_int32 :: "mpq \<Rightarrow> bool" where
  "is_int32 a =
     (if mpq_is_small a \<and> mpq_is_int a then True
      else if \<not> mpq_is_int64 a then False
      else let v = mpq_get_int64 a in int_min \<le> v \<and> v \<le> int_max)"

definition get_int32 :: "mpq \<Rightarrow> int" where "get_int32 a = wrap_int (mpq_get_int64 a)"

definition mod_hat :: "mpq \<Rightarrow> mpq \<Rightarrow> mpq res" where
  "mod_hat a b =
     bind_res (mpq_mod a b) (\<lambda>r.
     bind_res (rational_mul r (mk_q 2)) (\<lambda>r2.
     if mpq_lt b r2 then rational_sub r b else Inr r))"

definition rational_addmul :: "mpq \<Rightarrow> mpq \<Rightarrow> mpq \<Rightarrow> mpq res" where
  "rational_addmul this c k =
     (if mpq_is_one c then rational_add this k
      else if mpq_is_minus_one c then rational_sub this k
      else if mpq_is_one k then rational_add this c
      else if mpq_is_minus_one k then rational_sub this c
      else bind_res (rational_mul k c) (\<lambda>tmp. rational_add this tmp))"

definition rational_submul :: "mpq \<Rightarrow> mpq \<Rightarrow> mpq \<Rightarrow> mpq res" where
  "rational_submul this c k =
     (if mpq_is_one c then rational_sub this k
      else if mpq_is_minus_one c then rational_add this k
      else bind_res (rational_mul k c) (\<lambda>tmp. rational_sub this tmp))"

section \<open>Powers of two and inverses\<close>

record pow_state =
  pw_i :: digit
  pw_curr :: mpq
  pw_pws :: "mpq list"

definition pow_step :: "pow_state \<Rightarrow> pow_state res" where
  "pow_step s =
     bind_res (rational_mul (pw_curr s) (mk_q 2)) (\<lambda>c.
     Inr \<lparr>pw_i = pw_i s + 1, pw_curr = c, pw_pws = pw_pws s @ [c]\<rparr>)"

definition mk_power_up_to :: "mpq list \<Rightarrow> digit \<Rightarrow> mpq list res" where
  "mk_power_up_to pws n =
     (let pws = (if pws = [] then pws @ [mk_q 1] else pws);
          sz = length pws;
          curr = pws ! (sz - 1)
      in bind_res (while_res (\<lambda>s. pw_i s \<le> n) pow_step \<lparr>pw_i = of_nat sz, pw_curr = curr, pw_pws = pws\<rparr>)
           (\<lambda>s. Inr (pw_pws s)))"

text \<open>The cached powers are an argument and a result.\<close>

definition power_of_two :: "digit \<Rightarrow> mpq list \<Rightarrow> (mpq \<times> mpq list) res" where
  "power_of_two k pws =
     bind_res (if of_nat (length pws) \<le> k then mk_power_up_to pws (k + 1) else Inr pws) (\<lambda>pws.
     if unat k < length pws then Inr (pws ! unat k, pws) else Inl Undefined_behaviour)"

definition mult_inverse :: "mpq \<Rightarrow> digit \<Rightarrow> mpq list \<Rightarrow> (mpq option \<times> mpq list) res" where
  "mult_inverse n num_bits pws =
     (if mpq_is_one n then Inr (Some n, pws)
      else if mpq_is_even n then Inr (None, pws)
      else
        bind_res (power_of_two num_bits pws) (\<lambda>(p, pws).
        bind_res (mpq_ext_gcd n p) (\<lambda>(x, y, g).
        if mpq_is_neg x then
          bind_res (power_of_two num_bits pws) (\<lambda>(p, pws).
          bind_res (mpq_mod x p) (\<lambda>x. Inr (Some x, pws)))
        else Inr (Some x, pws))))"

section \<open>Digits\<close>

record digits_state =
  dg_n :: mpq
  dg_num :: nat

definition digits_step :: "mpq \<Rightarrow> digits_state \<Rightarrow> digits_state res" where
  "digits_step base s = bind_res (mpq_idiv (dg_n s) base) (\<lambda>n. Inr \<lparr>dg_n = n, dg_num = dg_num s + 1\<rparr>)"

definition get_num_digits :: "mpq \<Rightarrow> mpq \<Rightarrow> nat res" where
  "get_num_digits this base =
     bind_res (mpq_idiv this base) (\<lambda>n.
     bind_res (while_res (\<lambda>s. mpq_is_pos (dg_n s)) (digits_step base) \<lparr>dg_n = n, dg_num = 1\<rparr>) (\<lambda>s. Inr (dg_num s)))"

definition get_num_bits :: "mpq \<Rightarrow> nat res" where "get_num_bits this = get_num_digits this (mk_q 2)"
definition get_num_decimal :: "mpq \<Rightarrow> nat res" where "get_num_decimal this = get_num_digits this (mk_q 10)"

definition rational_trailing_zeros :: "mpq \<Rightarrow> nat res" where
  "rational_trailing_zeros this =
     (if mpq_is_zero this then Inr 0 else while_res (\<lambda>k. \<not> mpq_get_bit this k) (\<lambda>k. Inr (k + 1)) 0)"

section \<open>Continued fractions\<close>

record limit_state =
  ld_n :: mpq
  ld_d :: mpq
  ld_p0 :: mpq
  ld_p1 :: mpq
  ld_q0 :: mpq
  ld_q1 :: mpq
  ld_found :: "mpq option"

definition limit_step :: "mpq \<Rightarrow> limit_state \<Rightarrow> limit_state res" where
  "limit_step limit s =
     bind_res (mpq_idiv (ld_n s) (ld_d s)) (\<lambda>tj.
     bind_res (rational_mul tj (ld_q1 s)) (\<lambda>q2. bind_res (rational_add q2 (ld_q0 s)) (\<lambda>q2.
     bind_res (rational_mul tj (ld_p1 s)) (\<lambda>p2. bind_res (rational_add p2 (ld_p0 s)) (\<lambda>p2.
     if mpq_ge q2 limit then
       bind_res (rational_div p2 q2) (\<lambda>num. Inr (s\<lparr>ld_found := Some num\<rparr>))
     else
       bind_res (rational_mul tj (ld_d s)) (\<lambda>rem. bind_res (rational_sub (ld_n s) rem) (\<lambda>rem.
       Inr (s\<lparr>ld_p0 := ld_p1 s, ld_p1 := p2, ld_q0 := ld_q1 s, ld_q1 := q2, ld_n := ld_d s, ld_d := rem\<rparr>))))))))"

text \<open>The number is replaced when the result is \<open>Some\<close>.\<close>

definition limit_denominator :: "mpq \<Rightarrow> mpq \<Rightarrow> mpq option res" where
  "limit_denominator num limit =
     (let n = mpq_get_numerator num; d = mpq_get_denominator num
      in if mpq_lt d limit then Inr None
         else bind_res (while_res (\<lambda>s. ld_found s = None \<and> \<not> mpq_is_zero (ld_d s)) (limit_step limit)
                \<lparr>ld_n = n, ld_d = d, ld_p0 = mk_q 0, ld_p1 = mk_q 1, ld_q0 = mk_q 1, ld_q1 = mk_q 0, ld_found = None\<rparr>)
                (\<lambda>s. Inr (ld_found s)))"

section \<open>The operators compute in the rationals\<close>

lemma rational_yields:
  assumes "mpq_ok a" "mpq_ok b"
  shows "yields (rational_add a b) (\<lambda>c. mpq_ok c \<and> mpq_val c = mpq_val a + mpq_val b)"
    "yields (rational_sub a b) (\<lambda>c. mpq_ok c \<and> mpq_val c = mpq_val a - mpq_val b)"
    "yields (rational_mul a b) (\<lambda>c. mpq_ok c \<and> mpq_val c = mpq_val a * mpq_val b)"
    "mpq_val b \<noteq> 0 \<Longrightarrow> yields (rational_div a b) (\<lambda>c. mpq_ok c \<and> mpq_val c = mpq_val a / mpq_val b)"
    "yields (rational_inc a) (\<lambda>c. mpq_ok c \<and> mpq_val c = mpq_val a + 1)"
    "yields (rational_dec a) (\<lambda>c. mpq_ok c \<and> mpq_val c = mpq_val a - 1)"
proof -
  have one: "mpq_ok (mk_q 1)" "mpq_val (mk_q 1) = 1" by (simp_all add: int_limits)
  show "yields (rational_add a b) (\<lambda>c. mpq_ok c \<and> mpq_val c = mpq_val a + mpq_val b)"
    "yields (rational_sub a b) (\<lambda>c. mpq_ok c \<and> mpq_val c = mpq_val a - mpq_val b)"
    unfolding rational_add_def rational_sub_def using at3_yields [OF assms, of 0 1 0] by simp_all
  show "yields (rational_mul a b) (\<lambda>c. mpq_ok c \<and> mpq_val c = mpq_val a * mpq_val b)"
    unfolding rational_mul_def at3_def yields_bind yields_Inr by (rule yields_mono [OF mul_at_yields]) (use assms in auto)
  show "yields (rational_div a b) (\<lambda>c. mpq_ok c \<and> mpq_val c = mpq_val a / mpq_val b)" if "mpq_val b \<noteq> 0"
    unfolding rational_div_def at3_def yields_bind yields_Inr by (rule yields_mono [OF div_at_yields]) (use assms that in auto)
  show "yields (rational_inc a) (\<lambda>c. mpq_ok c \<and> mpq_val c = mpq_val a + 1)"
    "yields (rational_dec a) (\<lambda>c. mpq_ok c \<and> mpq_val c = mpq_val a - 1)"
    unfolding rational_inc_def rational_dec_def using at3_yields [OF assms(1) one(1), of 0 1 0] by (simp_all add: one(2))
qed

text \<open>Rationals that are given integers.\<close>

definition is_z :: "mpq \<Rightarrow> int \<Rightarrow> bool" where
  "is_z a v \<longleftrightarrow> mpq_ok a \<and> mpq_val a = of_int v"

lemma is_z_mk: "int_min \<le> v \<Longrightarrow> v \<le> int_max \<Longrightarrow> is_z (mk_q v) v"
  by (simp add: is_z_def)

lemma is_z_num:
  assumes "is_z a v"
  shows "mpq_is_int a" "mpz_val (m_num a) = v" "mpq_ok a"
proof -
  show "mpq_is_int a" "mpq_ok a" using assms mpq_is_int_val by (auto simp: is_z_def)
  then show "mpz_val (m_num a) = v" using assms mpq_int_val by (auto simp: is_z_def)
qed

lemma is_z_yields:
  assumes "is_z a u" "is_z b v"
  shows "yields (rational_add a b) (\<lambda>c. is_z c (u + v))" "yields (rational_sub a b) (\<lambda>c. is_z c (u - v))"
    "yields (rational_mul a b) (\<lambda>c. is_z c (u * v))"
  using rational_yields(1-3) [of a b] assms by (auto simp: is_z_def elim!: yields_mono)

lemma is_z_div_mod:
  assumes "is_z a u" "is_z b v" "0 < v"
  shows "yields (mpq_idiv a b) (\<lambda>c. is_z c (u div v))" "yields (mpq_mod a b) (\<lambda>c. is_z c (u mod v))"
proof -
  note A = is_z_num [OF assms(1)] and B = is_z_num [OF assms(2)]
  note ok = mpq_okD [OF A(3)] mpq_okD [OF B(3)]
  obtain q where "mpz_div (m_num a) (m_num b) = Inr q" "mpz_wf q" "mpz_val q = u div v"
    using mpz_div_val [of "m_num a" "m_num b"] ok A(2) B(2) assms(3) by (auto simp: ediv_def)
  then show "yields (mpq_idiv a b) (\<lambda>c. is_z c (u div v))" by (simp add: mpq_idiv_def on_nums_def is_z_def)
  obtain r where "mpz_mod (m_num a) (m_num b) = Inr r" "mpz_wf r" "mpz_val r = u mod v"
    using mpz_mod_val [of "m_num a" "m_num b"] ok A(2) B(2) assms(3) by (auto simp: emod_def)
  then show "yields (mpq_mod a b) (\<lambda>c. is_z c (u mod v))" by (simp add: mpq_mod_def on_nums_def is_z_def)
qed

lemma is_z_compare:
  assumes "is_z a u" "is_z b v"
  shows "mpq_lt a b \<longleftrightarrow> u < v" "mpq_ge a b \<longleftrightarrow> v \<le> u" "mpq_is_zero a \<longleftrightarrow> u = 0" "mpq_is_pos a \<longleftrightarrow> 0 < u" "mpq_is_neg a \<longleftrightarrow> u < 0"
  using assms by (simp_all add: is_z_def)

section \<open>Sums of products and residues\<close>

lemma rational_addmul_yields:
  assumes "mpq_ok a" "mpq_ok c" "mpq_ok k"
  shows "yields (rational_addmul a c k) (\<lambda>r. mpq_ok r \<and> mpq_val r = mpq_val a + mpq_val c * mpq_val k)"
    "yields (rational_submul a c k) (\<lambda>r. mpq_ok r \<and> mpq_val r = mpq_val a - mpq_val c * mpq_val k)"
proof -
  obtain t where t: "rational_mul k c = Inr t" "mpq_ok t" "mpq_val t = mpq_val c * mpq_val k"
    using rational_yields(3) [OF assms(3,2)] by (auto simp: mult.commute elim!: yieldsE)
  note y = rational_yields(1,2) [OF assms(1,3)] rational_yields(1,2) [OF assms(1,2)] rational_yields(1,2) [OF assms(1) t(2)]
  show "yields (rational_addmul a c k) (\<lambda>r. mpq_ok r \<and> mpq_val r = mpq_val a + mpq_val c * mpq_val k)"
    "yields (rational_submul a c k) (\<lambda>r. mpq_ok r \<and> mpq_val r = mpq_val a - mpq_val c * mpq_val k)"
    unfolding rational_addmul_def rational_submul_def t(1) bind_res.simps using y t(3) assms by simp_all
qed

lemma mod_hat_yields:
  assumes "is_z a u" "is_z b v" "0 < v"
  shows "yields (mod_hat a b) (\<lambda>r. \<exists>w. is_z r w \<and> w mod v = u mod v \<and> - v < 2 * w \<and> 2 * w \<le> v)"
proof -
  obtain r where r: "mpq_mod a b = Inr r" "is_z r (u mod v)" using is_z_div_mod(2) [OF assms] by (rule yieldsE)
  obtain r2 where r2: "rational_mul r (mk_q 2) = Inr r2" "is_z r2 (u mod v * 2)"
    using is_z_yields(3) [OF r(2) is_z_mk [of 2]] by (auto simp: int_limits elim!: yieldsE)
  have b: "0 \<le> u mod v" "u mod v < v" using assms(3) by simp_all
  show ?thesis
  proof (cases "v < u mod v * 2")
    case True
    obtain s where s: "rational_sub r b = Inr s" "is_z s (u mod v - v)" using is_z_yields(2) [OF r(2) assms(2)] by (rule yieldsE)
    have "(u mod v - v) mod v = u mod v" by (simp add: mod_diff_left_eq)
    then show ?thesis
      unfolding mod_hat_def r(1) r2(1) bind_res.simps is_z_compare(1) [OF assms(2) r2(2)] if_P [OF True] s(1) yields_Inr
      using s(2) True b by (intro exI [of _ "u mod v - v"]) auto
  next
    case False
    then show ?thesis
      unfolding mod_hat_def r(1) r2(1) bind_res.simps is_z_compare(1) [OF assms(2) r2(2)] if_not_P [OF False] yields_Inr
      using r(2) b by (intro exI [of _ "u mod v"]) auto
  qed
qed

section \<open>\<open>limit_denominator\<close>\<close>

text \<open>The convergents of a number, as the truncations of its expansion \<open>t1 + 1/(t2 + 1/(t3 + ...))\<close> with integer
  parts \<open>t1, t2, ...\<close>, and the denominator of a rational in lowest terms.\<close>

fun cf_convergent :: "nat \<Rightarrow> rat \<Rightarrow> rat" where
  "cf_convergent 0 x = of_int \<lfloor>x\<rfloor>"
| "cf_convergent (Suc j) x =
     (if x = of_int \<lfloor>x\<rfloor> then x else of_int \<lfloor>x\<rfloor> + 1 / cf_convergent j (1 / (x - of_int \<lfloor>x\<rfloor>)))"

definition rat_den :: "rat \<Rightarrow> int" where "rat_den x = snd (quotient_of x)"

lemma rat_den_fraction: "coprime p q \<Longrightarrow> 0 < q \<Longrightarrow> rat_den (of_int p / of_int q) = q"
  by (simp add: rat_den_def flip: Fract_of_int_quotient) (simp add: quotient_of_Fract normalize_stable)

lemma rat_den_mpq: "mpq_ok a \<Longrightarrow> rat_den (mpq_val a) = mpz_val (m_den a)"
  unfolding mpq_val_def by (rule rat_den_fraction) (simp_all add: mpq_okD)

lemma cf_convergent_ge1: "1 \<le> x \<Longrightarrow> 1 \<le> cf_convergent j x"
proof (induction j arbitrary: x)
  case (Suc j)
  show ?case
  proof (cases "x = of_int \<lfloor>x\<rfloor>")
    case False
    then have "0 < x - of_int \<lfloor>x\<rfloor>" "x - of_int \<lfloor>x\<rfloor> < 1" using of_int_floor_le [of x] by linarith+
    then have "1 \<le> cf_convergent j (1 / (x - of_int \<lfloor>x\<rfloor>))" by (intro Suc.IH) simp
    moreover have "(1 :: rat) \<le> of_int \<lfloor>x\<rfloor>" using Suc.prems by simp
    ultimately show ?thesis using False by (simp add: add_increasing2)
  qed (use Suc.prems in simp)
qed simp

text \<open>One division step of \<open>n\<close> by \<open>d\<close>, with quotient \<open>t\<close> and remainder \<open>m\<close>.\<close>

lemma cf_convergent_division:
  fixes t d m :: int
  assumes "0 < d" "0 \<le> m" "m < d"
  shows "cf_convergent 0 (of_int (t * d + m) / of_int d) = of_int t"
    "0 < m \<Longrightarrow> cf_convergent (Suc i) (of_int (t * d + m) / of_int d) = of_int t + 1 / cf_convergent i (of_int d / of_int m)"
proof -
  have y: "(of_int (t * d + m) / of_int d :: rat) = of_int t + of_int m / of_int d" using assms(1) by (simp add: field_simps)
  have "0 \<le> (of_int m / of_int d :: rat)" "(of_int m / of_int d :: rat) < 1" using assms by simp_all
  then have f: "\<lfloor>of_int (t * d + m) / of_int d :: rat\<rfloor> = t" unfolding y by linarith
  show "cf_convergent 0 (of_int (t * d + m) / of_int d) = of_int t" using f by simp
  assume "0 < m"
  then have "of_int t + of_int m / of_int d \<noteq> (of_int t :: rat)" using assms(1) by simp
  then show "cf_convergent (Suc i) (of_int (t * d + m) / of_int d) = of_int t + 1 / cf_convergent i (of_int d / of_int m)"
    unfolding cf_convergent.simps f unfolding y by simp
qed

text \<open>\<open>at_tail x k p1 p0 q1 q0 y\<close>: after \<open>k\<close> steps the later convergents of \<open>x\<close> are those of \<open>y\<close>, transformed by the
  numbers of the recurrence.\<close>

definition at_tail :: "rat \<Rightarrow> nat \<Rightarrow> int \<Rightarrow> int \<Rightarrow> int \<Rightarrow> int \<Rightarrow> rat \<Rightarrow> bool" where
  "at_tail x k p1 p0 q1 q0 y \<longleftrightarrow> (\<forall>i. cf_convergent (k + i) x =
     (of_int p1 * cf_convergent i y + of_int p0) / (of_int q1 * cf_convergent i y + of_int q0))"

lemma at_tail_start: "at_tail x 0 1 0 0 1 x"
  by (simp add: at_tail_def)

lemma at_tail_division:
  assumes "at_tail x k p1 p0 q1 q0 (of_int (t * d + m) / of_int d)" "0 < d" "0 \<le> m" "m < d"
  shows "cf_convergent k x = of_int (t * p1 + p0) / of_int (t * q1 + q0)"
    "0 < m \<Longrightarrow> at_tail x (Suc k) (t * p1 + p0) p1 (t * q1 + q0) q1 (of_int d / of_int m)"
proof -
  note A = assms(1) [unfolded at_tail_def, rule_format]
  show "cf_convergent k x = of_int (t * p1 + p0) / of_int (t * q1 + q0)"
    using A [of 0] cf_convergent_division(1) [OF assms(2-4), of t] by (simp add: mult.commute)
  assume m: "0 < m"
  have "cf_convergent (Suc k + i) x =
      (of_int (t * p1 + p0) * c + of_int p1) / (of_int (t * q1 + q0) * c + of_int q1)" if "c = cf_convergent i (of_int d / of_int m)" for i c
  proof -
    have "1 \<le> c" unfolding that by (rule cf_convergent_ge1) (use m assms(4) in simp)
    then have c: "c \<noteq> 0" by auto
    have "cf_convergent (Suc k + i) x = (of_int p1 * (of_int t + 1 / c) + of_int p0) / (of_int q1 * (of_int t + 1 / c) + of_int q0)"
      using A [of "Suc i"] cf_convergent_division(2) [OF assms(2-4) m, of i t] by (simp only: add_Suc add_Suc_right that)
    also have "\<dots> = (c * (of_int p1 * (of_int t + 1 / c) + of_int p0)) / (c * (of_int q1 * (of_int t + 1 / c) + of_int q0))"
      using c by simp
    also have "c * (of_int p1 * (of_int t + 1 / c) + of_int p0) = of_int (t * p1 + p0) * c + of_int p1" using c by (simp add: algebra_simps)
    also have "c * (of_int q1 * (of_int t + 1 / c) + of_int q0) = of_int (t * q1 + q0) * c + of_int q1" using c by (simp add: algebra_simps)
    finally show ?thesis .
  qed
  then show "at_tail x (Suc k) (t * p1 + p0) p1 (t * q1 + q0) q1 (of_int d / of_int m)" by (simp add: at_tail_def)
qed

text \<open>\<open>a\<close> is the first convergent of \<open>x\<close> whose denominator is at least \<open>L\<close>.\<close>

definition first_convergent :: "int \<Rightarrow> rat \<Rightarrow> rat \<Rightarrow> bool" where
  "first_convergent L x a \<longleftrightarrow> (\<exists>j. a = cf_convergent j x \<and> L \<le> rat_den (cf_convergent j x) \<and> (\<forall>i < j. rat_den (cf_convergent i x) < L))"

definition tail_below :: "int \<Rightarrow> rat \<Rightarrow> int \<Rightarrow> int \<Rightarrow> int \<Rightarrow> int \<Rightarrow> int \<Rightarrow> int \<Rightarrow> bool" where
  "tail_below L x p1 p0 q1 q0 n d \<longleftrightarrow> (\<exists>k. (\<forall>i < k. rat_den (cf_convergent i x) < L)
     \<and> (0 < d \<longrightarrow> at_tail x k p1 p0 q1 q0 (of_int n / of_int d)))"

text \<open>The recurrence of the convergents.\<close>

definition limit_inv :: "int \<Rightarrow> int \<Rightarrow> int \<Rightarrow> limit_state \<Rightarrow> bool" where
  "limit_inv N D L s \<longleftrightarrow> (case ld_found s of
     Some r \<Rightarrow> (\<exists>p q. L \<le> q \<and> 0 < q \<and> coprime p q \<and> \<bar>N * q - p * D\<bar> * q < D \<and> mpq_ok r \<and> mpq_val r = of_int p / of_int q
       \<and> first_convergent L (of_int N / of_int D) (mpq_val r))
   | None \<Rightarrow> (\<exists>n d p0 p1 q0 q1. is_z (ld_n s) n \<and> is_z (ld_d s) d \<and> is_z (ld_p0 s) p0 \<and> is_z (ld_p1 s) p1 \<and> is_z (ld_q0 s) q0 \<and> is_z (ld_q1 s) q1
       \<and> 0 \<le> d \<and> 0 \<le> q0 \<and> 0 \<le> q1 \<and> q1 < L \<and> \<bar>p1 * q0 - p0 * q1\<bar> = 1 \<and> N = p1 * n + p0 * d \<and> D = q1 * n + q0 * d
       \<and> (0 < q1 \<longrightarrow> d < n)
       \<and> tail_below L (of_int N / of_int D) p1 p0 q1 q0 n d))"

lemma det_coprime:
  fixes p q r s :: int
  assumes "\<bar>p * s - q * r\<bar> = 1"
  shows "coprime p q"
proof (rule coprimeI)
  fix c assume "c dvd p" "c dvd q"
  then have "c dvd p * s - q * r" by simp
  then show "is_unit c" using assms by (metis dvd_abs_iff)
qed

lemma limit_step_inv:
  assumes I: "limit_inv N D L s" and L: "is_z limit L" "0 < L" and run: "ld_found s = None" "\<not> mpq_is_zero (ld_d s)" and D: "0 < D"
  shows "\<exists>t. limit_step limit s = Inr t \<and> limit_inv N D L t
    \<and> (ld_found t = None \<longrightarrow> (\<exists>u v. is_z (ld_d t) u \<and> is_z (ld_d s) v \<and> 0 \<le> u \<and> u < v))"
proof -
  obtain n d p0 p1 q0 q1 where z: "is_z (ld_n s) n" "is_z (ld_d s) d" "is_z (ld_p0 s) p0" "is_z (ld_p1 s) p1" "is_z (ld_q0 s) q0" "is_z (ld_q1 s) q1"
    and pos: "0 \<le> d" "0 \<le> q0" "0 \<le> q1" and qL: "q1 < L" and det: "\<bar>p1 * q0 - p0 * q1\<bar> = 1" and ND: "N = p1 * n + p0 * d" "D = q1 * n + q0 * d"
    and dn: "0 < q1 \<longrightarrow> d < n"
    and tail: "tail_below L (of_int N / of_int D) p1 p0 q1 q0 n d"
    using I run(1) by (auto simp: limit_inv_def)
  have d: "0 < d" using run(2) pos(1) is_z_compare(3) [OF z(2,2)] by simp
  define t where "t = n div d"
  define m where "m = n mod d"
  have m: "0 \<le> m" "m < d" "n = t * d + m" using d by (simp_all add: t_def m_def)
  obtain tj where tj: "mpq_idiv (ld_n s) (ld_d s) = Inr tj" "is_z tj t" using is_z_div_mod(1) [OF z(1,2) d] unfolding t_def by (rule yieldsE)
  obtain a where a: "rational_mul tj (ld_q1 s) = Inr a" "is_z a (t * q1)" using is_z_yields(3) [OF tj(2) z(6)] by (rule yieldsE)
  obtain q2 where q2: "rational_add a (ld_q0 s) = Inr q2" "is_z q2 (t * q1 + q0)" using is_z_yields(1) [OF a(2) z(5)] by (rule yieldsE)
  obtain b where b: "rational_mul tj (ld_p1 s) = Inr b" "is_z b (t * p1)" using is_z_yields(3) [OF tj(2) z(4)] by (rule yieldsE)
  obtain p2 where p2: "rational_add b (ld_p0 s) = Inr p2" "is_z p2 (t * p1 + p0)" using is_z_yields(1) [OF b(2) z(3)] by (rule yieldsE)
  obtain c where c: "rational_mul tj (ld_d s) = Inr c" "is_z c (t * d)" using is_z_yields(3) [OF tj(2) z(2)] by (rule yieldsE)
  obtain r where r: "rational_sub (ld_n s) c = Inr r" "is_z r m" using is_z_yields(2) [OF z(1) c(2)] m(3) by (auto elim!: yieldsE)
  let ?p = "t * p1 + p0" and ?q = "t * q1 + q0"
  have det2: "\<bar>?p * q1 - p1 * ?q\<bar> = 1"
  proof -
    have "?p * q1 - p1 * ?q = - (p1 * q0 - p0 * q1)" by (simp add: algebra_simps)
    then show ?thesis using det by simp
  qed
  have ND2: "N = ?p * d + p1 * m" "D = ?q * d + q1 * m" using ND m(3) by (simp_all add: algebra_simps)
  obtain k where k: "\<forall>i < k. rat_den (cf_convergent i (of_int N / of_int D)) < L"
    "at_tail (of_int N / of_int D) k p1 p0 q1 q0 (of_int (t * d + m) / of_int d)"
    using tail d m(3) by (auto simp: tail_below_def)
  note conv = at_tail_division [OF k(2) d m(1,2)]
  have t0: "0 < q1 \<Longrightarrow> 0 < t" using dn d unfolding t_def by (simp add: pos_imp_zdiv_pos_iff)
  have q0: "0 < ?q"
  proof (cases "q1 = 0")
    case True
    then have "q0 \<noteq> 0" using det by auto
    then show ?thesis using True pos by simp
  next
    case False
    then have "0 < t * q1" using t0 pos by simp
    then show ?thesis using pos by simp
  qed
  have cop: "coprime ?p ?q" using det_coprime [of ?p q1 ?q p1] det2 by (simp add: mult.commute)
  have den: "rat_den (cf_convergent k (of_int N / of_int D)) = ?q" unfolding conv(1) by (rule rat_den_fraction [OF cop q0])
  show ?thesis
  proof (cases "L \<le> ?q")
    case True
    have "mpq_val q2 \<noteq> 0" using q2(2) q0 by (simp add: is_z_def del: of_int_add of_int_mult)
    then obtain num where num: "rational_div p2 q2 = Inr num" "mpq_ok num" "mpq_val num = of_int ?p / of_int ?q"
      using rational_yields(4) [of p2 q2] p2(2) q2(2) unfolding is_z_def by (auto elim!: yieldsE simp del: of_int_add of_int_mult)
    have e: "\<bar>N * ?q - ?p * D\<bar> = m"
    proof -
      have "N * ?q - ?p * D = - (m * (?p * q1 - p1 * ?q))" unfolding ND2 by (simp add: algebra_simps)
      then show ?thesis using det2 m(1) by (simp add: abs_mult)
    qed
    have "m * ?q < d * ?q" using m(2) q0 by simp
    also have "\<dots> \<le> D" using ND2(2) pos(3) m(1) by (simp add: mult.commute)
    finally have "\<bar>N * ?q - ?p * D\<bar> * ?q < D" unfolding e .
    moreover have "first_convergent L (of_int N / of_int D) (mpq_val num)"
      unfolding first_convergent_def num(3) using conv(1) den True k(1) by metis
    ultimately have "\<exists>p q. L \<le> q \<and> 0 < q \<and> coprime p q \<and> \<bar>N * q - p * D\<bar> * q < D \<and> mpq_ok num \<and> mpq_val num = of_int p / of_int q
        \<and> first_convergent L (of_int N / of_int D) (mpq_val num)"
      using True q0 cop num(2,3) by blast
    then have "limit_inv N D L (s\<lparr>ld_found := Some num\<rparr>)" by (simp add: limit_inv_def)
    moreover have "limit_step limit s = Inr (s\<lparr>ld_found := Some num\<rparr>)"
      unfolding limit_step_def tj(1) a(1) q2(1) b(1) p2(1) bind_res.simps is_z_compare(2) [OF q2(2) L(1)] if_P [OF True] num(1) ..
    ultimately show ?thesis by simp
  next
    case False
    let ?t = "s\<lparr>ld_p0 := ld_p1 s, ld_p1 := p2, ld_q0 := ld_q1 s, ld_q1 := q2, ld_n := ld_d s, ld_d := r\<rparr>"
    have step: "limit_step limit s = Inr ?t"
      unfolding limit_step_def tj(1) a(1) q2(1) b(1) p2(1) bind_res.simps is_z_compare(2) [OF q2(2) L(1)] if_not_P [OF False] c(1) r(1) ..
    have "\<forall>i < Suc k. rat_den (cf_convergent i (of_int N / of_int D)) < L" using k(1) den False by (simp add: less_Suc_eq_le le_less)
    then have tail': "tail_below L (of_int N / of_int D) ?p p1 ?q q1 d m"
      using conv(2) unfolding tail_below_def by blast
    have t: "ld_found ?t = None" "ld_n ?t = ld_d s" "ld_d ?t = r" "ld_p0 ?t = ld_p1 s" "ld_p1 ?t = p2" "ld_q0 ?t = ld_q1 s" "ld_q1 ?t = q2"
      using run(1) by simp_all
    have "?q < L" "0 \<le> ?q" "0 < ?q \<longrightarrow> m < d" using False q0 m(2) by simp_all
    then have "limit_inv N D L ?t"
      unfolding limit_inv_def t option.case using z(2) r(2) z(4) p2(2) z(6) q2(2) m(1) pos(3) det2 ND2 tail'
      by (intro exI conjI)
    then show ?thesis using step r(2) z(2) m by auto
  qed
qed

text \<open>The loop always finds a convergent whose denominator is not smaller than the limit.\<close>

lemma limit_denominator_yields:
  assumes num: "mpq_ok num" and L: "is_z limit L" "0 < L"
  shows "yields (limit_denominator num limit) (\<lambda>r.
    if mpz_val (m_den num) < L then r = None
    else \<exists>a. r = Some a \<and> mpq_ok a \<and> first_convergent L (mpq_val num) (mpq_val a)
      \<and> L \<le> mpz_val (m_den a) \<and> \<bar>mpq_val num - mpq_val a\<bar> * (of_int (mpz_val (m_den a)))\<^sup>2 < 1)"
proof -
  let ?N = "mpz_val (m_num num)" and ?D = "mpz_val (m_den num)"
  note ok = mpq_okD [OF num]
  have D: "0 < ?D" "coprime ?N ?D" using ok by simp_all
  have z: "is_z (mpq_get_numerator num) ?N" "is_z (mpq_get_denominator num) ?D"
    using ok by (simp_all add: is_z_def mpq_get_numerator_def mpq_get_denominator_def)
  show ?thesis
  proof (cases "?D < L")
    case True
    then show ?thesis using is_z_compare(1) [OF z(2) L(1)] by (simp add: limit_denominator_def)
  next
    case False
    let ?s = "\<lparr>ld_n = mpq_get_numerator num, ld_d = mpq_get_denominator num, ld_p0 = mk_q 0, ld_p1 = mk_q 1, ld_q0 = mk_q 1, ld_q1 = mk_q 0, ld_found = None\<rparr>"
    let ?m = "\<lambda>s. if ld_found s = None then 1 + nat \<lfloor>mpq_val (ld_d s)\<rfloor> else 0"
    have "\<exists>s. while_res (\<lambda>s. ld_found s = None \<and> \<not> mpq_is_zero (ld_d s)) (limit_step limit) ?s = Inr s \<and> limit_inv ?N ?D L s
        \<and> \<not> (ld_found s = None \<and> \<not> mpq_is_zero (ld_d s))"
    proof (rule while_res_total [where I = "limit_inv ?N ?D L" and m = ?m])
      have "is_z (mk_q 0) 0" "is_z (mk_q 1) 1" by (simp_all add: is_z_mk int_limits)
      then show "limit_inv ?N ?D L ?s" using z D L(2) unfolding limit_inv_def limit_state.simps option.case
        by (intro exI [of _ ?N] exI [of _ ?D] exI [of _ 0] exI [of _ 1] exI [of _ 1] exI [of _ 0])
          (simp add: tail_below_def; use at_tail_start in blast)
    next
      fix s assume s: "limit_inv ?N ?D L s" "ld_found s = None \<and> \<not> mpq_is_zero (ld_d s)"
      obtain t where t: "limit_step limit s = Inr t" "limit_inv ?N ?D L t"
        "ld_found t = None \<longrightarrow> (\<exists>u v. is_z (ld_d t) u \<and> is_z (ld_d s) v \<and> 0 \<le> u \<and> u < v)"
        using limit_step_inv [OF s(1) L conjunct1 [OF s(2)] conjunct2 [OF s(2)] D(1)] by (elim exE conjE) (rule that)
      have "?m t < ?m s" using t(3) s(2) by (auto simp: is_z_def)
      then show "\<exists>t. limit_step limit s = Inr t \<and> limit_inv ?N ?D L t \<and> ?m t < ?m s" using t by blast
    qed simp
    then obtain s where s: "while_res (\<lambda>s. ld_found s = None \<and> \<not> mpq_is_zero (ld_d s)) (limit_step limit) ?s = Inr s" "limit_inv ?N ?D L s"
      "ld_found s \<noteq> None \<or> mpq_is_zero (ld_d s)" by blast
    have "ld_found s \<noteq> None"
    proof
      assume none: "ld_found s = None"
      then obtain n d p0 p1 q0 q1 where i: "is_z (ld_d s) d" "0 \<le> q1" "q1 < L" "?N = p1 * n + p0 * d" "?D = q1 * n + q0 * d"
        using s(2) unfolding limit_inv_def none option.case by (elim exE conjE) (rule that)
      have "d = 0" using s(3) none is_z_compare(3) [OF i(1) i(1)] by simp
      then have nd: "n dvd ?N" "n dvd ?D" "?D = q1 * n" using i by simp_all
      then have "is_unit n" using D(2) by (metis coprime_common_divisor)
      then have "?D \<le> q1" using nd(3) i(2) D(1) by (auto simp: zdvd1_eq abs_if split: if_splits)
      then show False using i(3) False by linarith
    qed
    then obtain a where a: "ld_found s = Some a" by blast
    obtain p q where pq: "L \<le> q" "0 < q" "coprime p q" "\<bar>?N * q - p * ?D\<bar> * q < ?D" "mpq_ok a" "mpq_val a = of_int p / of_int q"
      and first: "first_convergent L (of_int ?N / of_int ?D) (mpq_val a)"
      using s(2) a unfolding limit_inv_def by auto
    have A: "coprime (mpz_val (m_num a)) (mpz_val (m_den a))" "0 < mpz_val (m_den a)" using mpq_okD [OF pq(5)] by simp_all
    have "rat_of_int (mpz_val (m_num a) * q) = rat_of_int (p * mpz_val (m_den a))"
      using pq(2,6) A(2) by (simp add: mpq_val_def field_simps)
    then have "mpz_val (m_num a) * q = p * mpz_val (m_den a)" by (simp only: of_int_eq_iff)
    then have q: "mpz_val (m_den a) = q"
      using A pq(2,3) by (metis coprime_commute coprime_dvd_mult_right_iff dvd_triv_left dvd_triv_right mult.commute zdvd_antisym_nonneg order_less_imp_le)
    have "mpq_val num - mpq_val a = of_int (?N * q - p * ?D) / of_int (?D * q)"
      unfolding pq(6) using D(1) pq(2) by (simp add: mpq_val_def field_simps)
    then have "\<bar>mpq_val num - mpq_val a\<bar> = of_int \<bar>?N * q - p * ?D\<bar> / of_int (?D * q)"
      using D(1) pq(2) by (simp add: abs_mult)
    then have "\<bar>mpq_val num - mpq_val a\<bar> * (of_int q)\<^sup>2 = of_int (\<bar>?N * q - p * ?D\<bar> * q) / of_int ?D"
      using D(1) pq(2) by (simp add: power2_eq_square)
    also have "\<dots> < 1"
    proof -
      have "rat_of_int (\<bar>?N * q - p * ?D\<bar> * q) < of_int ?D" using pq(4) by (simp only: of_int_less_iff)
      then show ?thesis using D(1) by simp
    qed
    finally show ?thesis
      using False s(1) a pq(1,5) first [folded mpq_val_def] is_z_compare(1) [OF z(2) L(1)] by (simp add: limit_denominator_def q)
  qed
qed

section \<open>Powers of two\<close>

text \<open>The table of cached powers.\<close>

definition pow_table :: "mpq list \<Rightarrow> bool" where
  "pow_table pws \<longleftrightarrow> (\<forall>i < length pws. is_z (pws ! i) (2 ^ i))"

lemma pow_table_snoc: "pow_table pws \<Longrightarrow> is_z c (2 ^ length pws) \<Longrightarrow> pow_table (pws @ [c])"
  by (auto simp: pow_table_def nth_append less_Suc_eq)

definition pow_inv :: "nat \<Rightarrow> pow_state \<Rightarrow> bool" where
  "pow_inv m s \<longleftrightarrow> pow_table (pw_pws s) \<and> pw_i s = of_nat (length (pw_pws s)) \<and> 0 < length (pw_pws s)
     \<and> length (pw_pws s) \<le> m \<and> is_z (pw_curr s) (2 ^ (length (pw_pws s) - 1))"

lemma pow_step_inv:
  assumes "pow_inv m s" "length (pw_pws s) < m"
  shows "\<exists>t. pow_step s = Inr t \<and> pow_inv m t \<and> length (pw_pws t) = length (pw_pws s) + 1"
proof -
  have i: "pow_table (pw_pws s)" "pw_i s = of_nat (length (pw_pws s))" "0 < length (pw_pws s)" "is_z (pw_curr s) (2 ^ (length (pw_pws s) - 1))"
    using assms(1) by (simp_all add: pow_inv_def)
  have "(2 :: int) ^ (length (pw_pws s) - 1) * 2 = 2 ^ length (pw_pws s)" using i(3) by (cases "length (pw_pws s)") simp_all
  then obtain c where c: "rational_mul (pw_curr s) (mk_q 2) = Inr c" "is_z c (2 ^ length (pw_pws s))"
    using is_z_yields(3) [OF i(4) is_z_mk [of 2]] by (auto simp: int_limits elim!: yieldsE)
  show ?thesis using i assms(2) c pow_table_snoc [OF i(1) c(2)] by (simp add: pow_step_def pow_inv_def)
qed

lemma mk_power_up_to_yields:
  assumes "pow_table pws" "length pws \<le> unat n" "unat n + 1 < 2 ^ 32"
  shows "yields (mk_power_up_to pws n) (\<lambda>p. pow_table p \<and> length p = unat n + 1)"
proof -
  let ?pws = "if pws = [] then pws @ [mk_q 1] else pws"
  let ?m = "unat n + 1"
  let ?s = "\<lparr>pw_i = of_nat (length ?pws), pw_curr = ?pws ! (length ?pws - 1), pw_pws = ?pws\<rparr>"
  have t: "pow_table ?pws" using assms(1) is_z_mk [of 1] by (simp add: pow_table_def int_limits)
  have le: "pw_i s \<le> n \<longleftrightarrow> length (pw_pws s) \<le> unat n" if "pow_inv ?m s" for s
  proof -
    have "unat (pw_i s) = length (pw_pws s)" using that assms(3) by (simp add: pow_inv_def unat_of_nat take_bit_eq_mod)
    then show ?thesis by (simp add: word_le_nat_alt)
  qed
  have "\<exists>s. while_res (\<lambda>s. pw_i s \<le> n) pow_step ?s = Inr s \<and> pow_table (pw_pws s) \<and> length (pw_pws s) = ?m"
  proof (rule while_res_total [where I = "pow_inv ?m" and m = "\<lambda>s. ?m - length (pw_pws s)"])
    show "pow_inv ?m ?s" using t assms(2) by (simp add: pow_inv_def pow_table_def)
  next
    fix s assume s: "pow_inv ?m s" "pw_i s \<le> n"
    then have "length (pw_pws s) < ?m" using le [OF s(1)] by simp
    then show "\<exists>t. pow_step s = Inr t \<and> pow_inv ?m t \<and> ?m - length (pw_pws t) < ?m - length (pw_pws s)"
      using pow_step_inv [OF s(1)] by auto
  next
    fix s assume "pow_inv ?m s" "\<not> pw_i s \<le> n"
    then show "pow_table (pw_pws s) \<and> length (pw_pws s) = ?m" using le [of s] by (auto simp: pow_inv_def)
  qed
  then show ?thesis unfolding mk_power_up_to_def Let_def by (auto simp del: while_res_unfold)
qed

lemma power_of_two_yields:
  assumes t: "pow_table pws" "length pws < 2 ^ 32" and k: "unat k + 2 < 2 ^ 32"
  shows "yields (power_of_two k pws) (\<lambda>(r, p). is_z r (2 ^ unat k) \<and> pow_table p \<and> length p < 2 ^ 32)"
proof -
  have u: "of_nat (length pws) \<le> k \<longleftrightarrow> length pws \<le> unat k" using t(2) by (simp add: word_le_nat_alt unat_of_nat take_bit_eq_mod)
  have k1: "unat (k + 1) = unat k + 1" using k by (simp add: unat_plus_if_size word_size)
  obtain p where p: "(if of_nat (length pws) \<le> k then mk_power_up_to pws (k + 1) else Inr pws) = Inr p"
    "pow_table p" "length p < 2 ^ 32" "unat k < length p"
  proof (cases "length pws \<le> unat k")
    case True
    obtain p where "mk_power_up_to pws (k + 1) = Inr p" "pow_table p" "length p = unat (k + 1) + 1"
      using mk_power_up_to_yields [OF t(1), of "k + 1"] True k unfolding k1 by (auto elim!: yieldsE)
    then show ?thesis using that True k u k1 by simp
  next
    case False
    then show ?thesis using that t u by simp
  qed
  show ?thesis unfolding power_of_two_def p(1) bind_res.simps using p(2-) by (simp add: pow_table_def)
qed

section \<open>Inverses\<close>

lemma mpz_ext_gcd_wf:
  assumes e: "mpz_ext_gcd r1 r2 = Inr (a, b, r)" and wf: "mpz_wf r1" "mpz_wf r2"
  shows "mpz_wf a" "mpz_wf b" "mpz_wf r"
proof -
  let ?I = "\<lambda>s. list_all mpz_wf [eg_tmp1 s, eg_tmp2 s, eg_a s, eg_b s, eg_nexta s, eg_nextb s]"
  obtain s where s: "while_res (\<lambda>s. mpz_is_pos (eg_tmp2 s)) ext_gcd_step (ext_gcd_init r1 r2) = Inr s"
    "a = (if mpz_is_neg r1 then mpz_neg (eg_a s) else eg_a s)" "b = (if mpz_is_neg r2 then mpz_neg (eg_b s) else eg_b s)" "r = eg_tmp1 s"
    using e unfolding mpz_ext_gcd_def
    by (cases "while_res (\<lambda>s. mpz_is_pos (eg_tmp2 s)) ext_gcd_step (ext_gcd_init r1 r2)") auto
  have "?I s"
  proof (rule while_res_partial [OF s(1)])
    show "?I (ext_gcd_init r1 r2)" using wf by (simp add: ext_gcd_init_def Let_def int_limits)
  next
    fix u v assume u: "?I u" "mpz_is_pos (eg_tmp2 u)" "ext_gcd_step u = Inr v"
    then have ok: "mpz_wf (eg_tmp1 u)" "mpz_wf (eg_tmp2 u)" "mpz_wf (eg_a u)" "mpz_wf (eg_b u)" "mpz_wf (eg_nexta u)" "mpz_wf (eg_nextb u)" by simp_all
    have nz: "mpz_val (eg_tmp2 u) \<noteq> 0" using u(2) ok by simp
    obtain q where q: "machine_div (eg_tmp1 u) (eg_tmp2 u) = Inr q" "mpz_wf q" using machine_div_val [of "eg_tmp1 u" "eg_tmp2 u"] ok nz by auto
    obtain m where m: "mpz_rem (eg_tmp1 u) (eg_tmp2 u) = Inr m" "mpz_wf m" using mpz_rem_val [of "eg_tmp1 u" "eg_tmp2 u"] ok nz by auto
    show "?I v" using u(3) ok q m by (auto simp: ext_gcd_step_def)
  qed
  then show "mpz_wf a" "mpz_wf b" "mpz_wf r" using s(2-) by simp_all
qed

lemma is_z_ext_gcd:
  assumes "is_z a u" "is_z b v"
  shows "yields (mpq_ext_gcd a b) (\<lambda>(x, y, g). \<exists>i j. is_z x i \<and> is_z y j \<and> is_z g (gcd u v) \<and> u * i + v * j = gcd u v)"
proof -
  note A = is_z_num [OF assms(1)] and B = is_z_num [OF assms(2)]
  note ok = mpq_okD [OF A(3)] mpq_okD [OF B(3)]
  obtain x y g where e: "mpz_ext_gcd (m_num a) (m_num b) = Inr (x, y, g)" "mpz_val g = gcd u v" "u * mpz_val x + v * mpz_val y = mpz_val g"
    using mpz_ext_gcd_val [of "m_num a" "m_num b"] ok A(2) B(2) by auto
  note wf = mpz_ext_gcd_wf [OF e(1)]
  show ?thesis using e wf ok by (auto simp: mpq_ext_gcd_def is_z_def)
qed

lemma mult_inverse_yields:
  assumes n: "is_z n v" and t: "pow_table pws" "length pws < 2 ^ 32" and k: "unat k + 2 < 2 ^ 32"
  shows "yields (mult_inverse n k pws) (\<lambda>(r, p). pow_table p \<and> length p < 2 ^ 32
    \<and> (case r of None \<Rightarrow> even v | Some x \<Rightarrow> odd v \<and> (\<exists>w. is_z x w \<and> 0 \<le> w \<and> v * w mod 2 ^ unat k = 1 mod 2 ^ unat k)))"
proof -
  note N = is_z_num [OF n]
  have one: "mpq_is_one n \<longleftrightarrow> v = 1" using n by (simp add: is_z_def)
  have even: "mpq_is_even n \<longleftrightarrow> even v" using mpq_okD(1) [OF N(3)] N(1,2) by (simp add: mpq_is_even_def)
  consider "v = 1" | "v \<noteq> 1" "even v" | "v \<noteq> 1" "odd v" by blast
  then show ?thesis
  proof cases
    case 1
    then show ?thesis using n t one by (simp add: mult_inverse_def) (auto intro!: exI [of _ 1])
  next
    case 2
    then show ?thesis using t one even by (simp add: mult_inverse_def)
  next
    case 3
    let ?M = "(2 :: int) ^ unat k"
    obtain p pws1 where p: "power_of_two k pws = Inr (p, pws1)" "is_z p ?M" "pow_table pws1" "length pws1 < 2 ^ 32"
      using power_of_two_yields [OF t k] by (auto elim!: yieldsE)
    obtain x y g i j where g: "mpq_ext_gcd n p = Inr (x, y, g)" "is_z x i" "v * i + ?M * j = gcd v ?M"
      using is_z_ext_gcd [OF n p(2)] by (auto elim!: yieldsE)
    have "gcd v ?M = 1" using 3(2) by (simp add: coprime_iff_gcd_eq_1 [symmetric])
    then have inv: "v * i mod ?M = 1 mod ?M" using g(3) by (metis mod_mult_self2)
    show ?thesis
    proof (cases "i < 0")
      case True
      obtain p2 pws2 where p2: "power_of_two k pws1 = Inr (p2, pws2)" "is_z p2 ?M" "pow_table pws2" "length pws2 < 2 ^ 32"
        using power_of_two_yields [OF p(3,4) k] by (auto elim!: yieldsE)
      obtain r where r: "mpq_mod x p2 = Inr r" "is_z r (i mod ?M)" using is_z_div_mod(2) [OF g(2) p2(2)] by (auto elim!: yieldsE)
      have "v * (i mod ?M) mod ?M = 1 mod ?M" using inv by (simp add: mod_mult_right_eq)
      then show ?thesis
        using 3 one even p p2 g(1) r is_z_compare(5) [OF g(2) g(2)] True by (simp add: mult_inverse_def) (auto intro!: exI [of _ "i mod ?M"])
    next
      case False
      then show ?thesis using 3 one even p g(1,2) inv is_z_compare(5) [OF g(2) g(2)] by (simp add: mult_inverse_def) (auto intro!: exI [of _ i])
    qed
  qed
qed

section \<open>Digits and trailing zeros\<close>

lemma get_num_digits_yields:
  assumes n: "is_z n v" "0 \<le> v" and b: "is_z base b" "1 < b"
  shows "yields (get_num_digits n base) (\<lambda>d. 0 < d \<and> v < b ^ d \<and> (d = 1 \<or> b ^ (d - 1) \<le> v))"
proof -
  have b0: "0 < b" using b(2) by simp
  let ?I = "\<lambda>s :: digits_state. 0 < dg_num s \<and> is_z (dg_n s) (v div b ^ dg_num s) \<and> (dg_num s = 1 \<or> b ^ (dg_num s - 1) \<le> v)"
  obtain q where q: "mpq_idiv n base = Inr q" "is_z q (v div b)" using is_z_div_mod(1) [OF n(1) b(1) b0] by (rule yieldsE)
  have "\<exists>s. while_res (\<lambda>s. mpq_is_pos (dg_n s)) (digits_step base) \<lparr>dg_n = q, dg_num = 1\<rparr> = Inr s
      \<and> 0 < dg_num s \<and> v < b ^ dg_num s \<and> (dg_num s = 1 \<or> b ^ (dg_num s - 1) \<le> v)"
  proof (rule while_res_total [where I = ?I and m = "\<lambda>s. nat (v div b ^ dg_num s)"])
    show "?I \<lparr>dg_n = q, dg_num = 1\<rparr>" using q(2) by simp
  next
    fix s :: digits_state assume s: "?I s" "mpq_is_pos (dg_n s)"
    let ?w = "v div b ^ dg_num s"
    have w: "0 < ?w" using s is_z_compare(4) [of "dg_n s" ?w "dg_n s" ?w] by simp
    then have le: "b ^ dg_num s \<le> v" using b0 n(2) by (simp add: pos_imp_zdiv_pos_iff)
    obtain r where r: "mpq_idiv (dg_n s) base = Inr r" "is_z r (?w div b)" using is_z_div_mod(1) [OF _ b(1) b0, of "dg_n s" ?w] s(1) by (auto elim!: yieldsE)
    have d: "?w div b = v div b ^ (dg_num s + 1)" using b0 by (simp add: zdiv_zmult2_eq [symmetric] mult.commute [of b])
    have "?w div b < ?w" using w b(2) by (simp add: int_div_less_self)
    then have "nat (v div b ^ (dg_num s + 1)) < nat ?w" using w d by simp
    then show "\<exists>t. digits_step base s = Inr t \<and> ?I t \<and> nat (v div b ^ dg_num t) < nat ?w"
      using r d le by (simp add: digits_step_def)
  next
    fix s :: digits_state assume s: "?I s" "\<not> mpq_is_pos (dg_n s)"
    have "v div b ^ dg_num s \<le> 0" using s is_z_compare(4) [of "dg_n s" "v div b ^ dg_num s" "dg_n s"] by (auto simp: not_less [symmetric])
    then have "v < b ^ dg_num s" using b0 by (metis pos_imp_zdiv_pos_iff linorder_not_le zero_less_power)
    then show "0 < dg_num s \<and> v < b ^ dg_num s \<and> (dg_num s = 1 \<or> b ^ (dg_num s - 1) \<le> v)" using s by simp
  qed
  then show ?thesis unfolding get_num_digits_def q(1) bind_res.simps by (auto simp del: while_res_unfold)
qed

lemma rational_trailing_zeros_yields:
  assumes n: "is_z n v" "0 < v"
  shows "yields (rational_trailing_zeros n) (\<lambda>k. 2 ^ k dvd v \<and> \<not> 2 ^ (k + 1) dvd v)"
proof -
  note N = is_z_num [OF n(1)]
  have bit: "mpq_get_bit n i \<longleftrightarrow> bit v i" for i using mpz_get_bit_val [of "m_num n" i] mpq_okD(1) [OF N(3)] N(2) n(2) by (simp add: mpq_get_bit_def)
  have nz: "\<not> mpq_is_zero n" using is_z_compare(3) [OF n(1) n(1)] n(2) by simp
  obtain m where m: "bit v m" using n(2) by (metis bit_eq_iff bit_0_eq bot_apply bot_bool_def less_irrefl)
  have "\<exists>k. while_res (\<lambda>k. \<not> mpq_get_bit n k) (\<lambda>k. Inr (k + 1)) 0 = Inr k \<and> 2 ^ k dvd v \<and> \<not> 2 ^ (k + 1) dvd v"
  proof (rule while_res_total [where I = "\<lambda>k. k \<le> m \<and> 2 ^ k dvd v" and m = "\<lambda>k. m - k"])
    fix k assume k: "k \<le> m \<and> 2 ^ k dvd v" "\<not> mpq_get_bit n k"
    then have "k \<noteq> m" "even (v div 2 ^ k)" using m bit by (auto simp: bit_iff_odd)
    then show "\<exists>t. Inr (k + 1) = Inr t \<and> (t \<le> m \<and> 2 ^ t dvd v) \<and> m - t < m - k"
      using k by (auto elim!: dvdE)
  next
    fix k assume k: "k \<le> m \<and> 2 ^ k dvd v" "\<not> \<not> mpq_get_bit n k"
    then have "odd (v div 2 ^ k)" using bit by (simp add: bit_iff_odd)
    then show "2 ^ k dvd v \<and> \<not> 2 ^ (k + 1) dvd v" using k by (auto elim!: dvdE)
  qed simp
  then show ?thesis using nz by (auto simp: rational_trailing_zeros_def simp del: while_res_unfold)
qed

section \<open>Machine integers\<close>

lemma rational_unsigned:
  assumes "mpq_ok a"
  shows "is_unsigned a \<longleftrightarrow> (\<exists>v. is_z a v \<and> 0 \<le> v \<and> v < 2 ^ 32)" "is_unsigned a \<Longrightarrow> is_z a (uint (get_unsigned a))"
proof -
  let ?x = "mpz_val (m_num a)"
  note A = mpq_okD [OF assms]
  have u: "uint (mpz_get_uint64 (m_num a)) = ?x" if "0 \<le> ?x" "?x < 2 ^ 64" using mpz_get_uint64_val [OF A(3)] that by simp
  have eq: "is_unsigned a \<longleftrightarrow> mpq_is_int a \<and> 0 \<le> ?x \<and> ?x < 2 ^ 32"
    using A(3) u by (auto simp: is_unsigned_def mpq_is_uint64_def mpq_get_uint64_def word_less_def)
  have z: "mpq_is_int a \<Longrightarrow> is_z a ?x" using mpq_int_val assms by (simp add: is_z_def)
  show "is_unsigned a \<longleftrightarrow> (\<exists>v. is_z a v \<and> 0 \<le> v \<and> v < 2 ^ 32)"
    using eq z by (auto dest: is_z_num)
  assume "is_unsigned a"
  then have i: "mpq_is_int a" "0 \<le> ?x" "?x < 2 ^ 32" using eq by simp_all
  have "uint (get_unsigned a) = ?x" unfolding get_unsigned_def mpq_get_uint64_def
    using u i by (simp add: unsigned_ucast_eq take_bit_int_eq_self)
  then show "is_z a (uint (get_unsigned a))" using z i by simp
qed

lemma rational_int32:
  assumes "mpq_ok a"
  shows "is_int32 a \<longleftrightarrow> (\<exists>v. is_z a v \<and> int_min \<le> v \<and> v \<le> int_max)" "is_int32 a \<Longrightarrow> is_z a (get_int32 a)"
proof -
  let ?x = "mpz_val (m_num a)"
  note A = mpq_okD [OF assms]
  have i64: "mpz_is_int64 (m_num a) \<longleftrightarrow> - (2 ^ 63) \<le> ?x \<and> ?x < 2 ^ 63" by (rule mpz_is_int64_val [OF A(3)])
  have v: "mpz_get_int64 (m_num a) = ?x" if "- (2 ^ 63) \<le> ?x" "?x < 2 ^ 63" using mpz_get_int64_val [OF A(3)] that by simp
  have small: "is_small (m_num a) \<Longrightarrow> int_min \<le> ?x \<and> ?x \<le> int_max" using mpz_ok_small [OF _ A(3)] by (auto simp: mpz_val_small)
  have eq: "is_int32 a \<longleftrightarrow> mpq_is_int a \<and> int_min \<le> ?x \<and> ?x \<le> int_max"
    using i64 v small by (auto simp: is_int32_def mpq_is_small_def mpq_is_int64_def mpq_get_int64_def int_limits Let_def)
  have z: "mpq_is_int a \<Longrightarrow> is_z a ?x" using mpq_int_val assms by (simp add: is_z_def)
  show "is_int32 a \<longleftrightarrow> (\<exists>v. is_z a v \<and> int_min \<le> v \<and> v \<le> int_max)"
    using eq z by (auto dest: is_z_num)
  assume "is_int32 a"
  then have i: "mpq_is_int a" "int_min \<le> ?x" "?x \<le> int_max" using eq by simp_all
  have "get_int32 a = ?x" unfolding get_int32_def mpq_get_int64_def
    using v i by (simp add: int_limits wrap_int_id)
  then show "is_z a (get_int32 a)" using z i by simp
qed

end
