(* ===== verification/Inf_Rational.thy ===== *)
theory Inf_Rational
  imports Rational
begin

text \<open>
  Rational numbers with infinitesimals (\<open>util/inf_rational.h\<close>, \<open>util/inf_rational.cpp\<close>): the pair of
  \<open>m_first\<close> and \<open>m_second\<close> stands for \<open>m_first + epsilon * m_second\<close>, where \<open>epsilon\<close> is positive and smaller
  than every positive rational. A statement about the numbers is read at all sufficiently small positive
  reals in the place of \<open>epsilon\<close>, the filter \<open>at_right 0\<close>. Products, quotients, powers and roots are not
  of this form; the functions \<open>inf_...\<close> and \<open>sup_...\<close> bound them from below and above.
\<close>

section \<open>Definitions\<close>

record inf_rational =
  m_first :: mpq
  m_second :: mpq

definition inf_of_int :: "int \<Rightarrow> inf_rational" where "inf_of_int n = \<lparr>m_first = mk_q n, m_second = mk_q 0\<rparr>"
definition inf_of_sign :: "mpq \<Rightarrow> bool \<Rightarrow> inf_rational" where
  "inf_of_sign r pos_inf = \<lparr>m_first = r, m_second = (if pos_inf then mk_q 1 else mk_q (- 1))\<rparr>"
definition inf_of_q :: "mpq \<Rightarrow> inf_rational" where "inf_of_q r = \<lparr>m_first = r, m_second = mk_q 0\<rparr>"
definition inf_pair :: "mpq \<Rightarrow> mpq \<Rightarrow> inf_rational" where "inf_pair r i = \<lparr>m_first = r, m_second = i\<rparr>"
definition inf_null :: inf_rational where "inf_null = \<lparr>m_first = mk_q 0, m_second = mk_q 0\<rparr>"

definition inf_assign_q :: "inf_rational \<Rightarrow> mpq \<Rightarrow> inf_rational" where
  "inf_assign_q a r = a\<lparr>m_first := r, m_second := mk_q 0\<rparr>"

definition inf_to_string :: "inf_rational \<Rightarrow> string res" where
  "inf_to_string a =
     (if mpq_is_zero (m_second a) then mpq_to_string (m_first a)
      else bind_res (mpq_to_string (m_first a)) (\<lambda>f.
           bind_res (mpq_to_string (mpq_abs (m_second a))) (\<lambda>i.
           Inr (''('' @ f @ (if mpq_is_neg (m_second a) then '' -e*'' else '' +e*'') @ i @ '')''))))"

definition inf_is_int :: "inf_rational \<Rightarrow> bool" where "inf_is_int a \<longleftrightarrow> mpq_is_int (m_first a) \<and> mpq_is_zero (m_second a)"
definition inf_is_int64 :: "inf_rational \<Rightarrow> bool" where "inf_is_int64 a \<longleftrightarrow> mpq_is_int64 (m_first a) \<and> mpq_is_zero (m_second a)"
definition inf_is_uint64 :: "inf_rational \<Rightarrow> bool" where "inf_is_uint64 a \<longleftrightarrow> mpq_is_uint64 (m_first a) \<and> mpq_is_zero (m_second a)"
definition inf_is_rational :: "inf_rational \<Rightarrow> bool" where "inf_is_rational a \<longleftrightarrow> mpq_is_zero (m_second a)"

subsection \<open>Linear operations\<close>

definition inf_lift2 :: "(mpq \<Rightarrow> mpq \<Rightarrow> mpq res) \<Rightarrow> inf_rational \<Rightarrow> inf_rational \<Rightarrow> inf_rational res" where
  "inf_lift2 f a b =
     bind_res (f (m_first a) (m_first b)) (\<lambda>x. bind_res (f (m_second a) (m_second b)) (\<lambda>y. Inr (inf_pair x y)))"

definition inf_add :: "inf_rational \<Rightarrow> inf_rational \<Rightarrow> inf_rational res" where "inf_add = inf_lift2 rational_add"
definition inf_sub :: "inf_rational \<Rightarrow> inf_rational \<Rightarrow> inf_rational res" where "inf_sub = inf_lift2 rational_sub"

definition inf_add_q :: "inf_rational \<Rightarrow> mpq \<Rightarrow> inf_rational res" where
  "inf_add_q a r = bind_res (rational_add (m_first a) r) (\<lambda>x. Inr (a\<lparr>m_first := x\<rparr>))"
definition inf_sub_q :: "inf_rational \<Rightarrow> mpq \<Rightarrow> inf_rational res" where
  "inf_sub_q a r = bind_res (rational_sub (m_first a) r) (\<lambda>x. Inr (a\<lparr>m_first := x\<rparr>))"

definition inf_mul_q :: "inf_rational \<Rightarrow> mpq \<Rightarrow> inf_rational res" where
  "inf_mul_q a r = bind_res (rational_mul (m_first a) r) (\<lambda>x. bind_res (rational_mul (m_second a) r) (\<lambda>y. Inr (inf_pair x y)))"
definition inf_div_q :: "inf_rational \<Rightarrow> mpq \<Rightarrow> inf_rational res" where
  "inf_div_q a r = bind_res (rational_div (m_first a) r) (\<lambda>x. bind_res (rational_div (m_second a) r) (\<lambda>y. Inr (inf_pair x y)))"

definition inf_inc :: "inf_rational \<Rightarrow> inf_rational res" where
  "inf_inc a = bind_res (rational_inc (m_first a)) (\<lambda>x. Inr (a\<lparr>m_first := x\<rparr>))"
definition inf_dec :: "inf_rational \<Rightarrow> inf_rational res" where
  "inf_dec a = bind_res (rational_dec (m_first a)) (\<lambda>x. Inr (a\<lparr>m_first := x\<rparr>))"

definition inf_neg :: "inf_rational \<Rightarrow> inf_rational" where
  "inf_neg a = inf_pair (mpq_neg (m_first a)) (mpq_neg (m_second a))"

definition inf_addmul :: "inf_rational \<Rightarrow> mpq \<Rightarrow> inf_rational \<Rightarrow> inf_rational res" where
  "inf_addmul a c k =
     bind_res (rational_addmul (m_first a) c (m_first k)) (\<lambda>x.
     bind_res (rational_addmul (m_second a) c (m_second k)) (\<lambda>y. Inr (inf_pair x y)))"
definition inf_submul :: "inf_rational \<Rightarrow> mpq \<Rightarrow> inf_rational \<Rightarrow> inf_rational res" where
  "inf_submul a c k =
     bind_res (rational_submul (m_first a) c (m_first k)) (\<lambda>x.
     bind_res (rational_submul (m_second a) c (m_second k)) (\<lambda>y. Inr (inf_pair x y)))"

subsection \<open>Comparisons\<close>

definition inf_eq :: "inf_rational \<Rightarrow> inf_rational \<Rightarrow> bool" where
  "inf_eq a b \<longleftrightarrow> mpq_eq (m_first a) (m_first b) \<and> mpq_eq (m_second a) (m_second b)"
definition inf_eq_q :: "inf_rational \<Rightarrow> mpq \<Rightarrow> bool" where
  "inf_eq_q a r \<longleftrightarrow> mpq_eq (m_first a) r \<and> mpq_is_zero (m_second a)"
definition inf_lt :: "inf_rational \<Rightarrow> inf_rational \<Rightarrow> bool" where
  "inf_lt a b \<longleftrightarrow> mpq_lt (m_first a) (m_first b) \<or> mpq_eq (m_first a) (m_first b) \<and> mpq_lt (m_second a) (m_second b)"
definition q_lt_inf :: "mpq \<Rightarrow> inf_rational \<Rightarrow> bool" where
  "q_lt_inf r b \<longleftrightarrow> mpq_lt r (m_first b) \<or> mpq_eq r (m_first b) \<and> mpq_is_pos (m_second b)"
definition inf_lt_q :: "inf_rational \<Rightarrow> mpq \<Rightarrow> bool" where
  "inf_lt_q a r \<longleftrightarrow> mpq_lt (m_first a) r \<or> mpq_eq (m_first a) r \<and> mpq_is_neg (m_second a)"
definition inf_gt :: "inf_rational \<Rightarrow> inf_rational \<Rightarrow> bool" where "inf_gt a b \<longleftrightarrow> inf_lt b a"
definition inf_le :: "inf_rational \<Rightarrow> inf_rational \<Rightarrow> bool" where "inf_le a b \<longleftrightarrow> \<not> inf_gt a b"
definition inf_ge :: "inf_rational \<Rightarrow> inf_rational \<Rightarrow> bool" where "inf_ge a b \<longleftrightarrow> \<not> inf_lt a b"

definition inf_is_zero :: "inf_rational \<Rightarrow> bool" where "inf_is_zero a \<longleftrightarrow> mpq_is_zero (m_first a) \<and> mpq_is_zero (m_second a)"
definition inf_is_one :: "inf_rational \<Rightarrow> bool" where "inf_is_one a \<longleftrightarrow> mpq_is_one (m_first a) \<and> mpq_is_zero (m_second a)"
definition inf_is_minus_one :: "inf_rational \<Rightarrow> bool" where "inf_is_minus_one a \<longleftrightarrow> mpq_is_minus_one (m_first a) \<and> mpq_is_zero (m_second a)"
definition inf_is_neg :: "inf_rational \<Rightarrow> bool" where
  "inf_is_neg a \<longleftrightarrow> mpq_is_neg (m_first a) \<or> mpq_is_zero (m_first a) \<and> mpq_is_neg (m_second a)"
definition inf_is_pos :: "inf_rational \<Rightarrow> bool" where
  "inf_is_pos a \<longleftrightarrow> mpq_is_pos (m_first a) \<or> mpq_is_zero (m_first a) \<and> mpq_is_pos (m_second a)"
definition inf_is_nonneg :: "inf_rational \<Rightarrow> bool" where
  "inf_is_nonneg a \<longleftrightarrow> mpq_is_pos (m_first a) \<or> mpq_is_zero (m_first a) \<and> mpq_is_nonneg (m_second a)"
definition inf_is_nonpos :: "inf_rational \<Rightarrow> bool" where
  "inf_is_nonpos a \<longleftrightarrow> mpq_is_neg (m_first a) \<or> mpq_is_zero (m_first a) \<and> mpq_is_nonpos (m_second a)"

definition inf_floor :: "inf_rational \<Rightarrow> mpq res" where
  "inf_floor a =
     (if mpq_is_int (m_first a) then
        if mpq_is_nonneg (m_second a) then Inr (m_first a) else rational_sub (m_first a) (mk_q 1)
      else mpq_floor_q (m_first a))"
definition inf_ceil :: "inf_rational \<Rightarrow> mpq res" where
  "inf_ceil a =
     (if mpq_is_int (m_first a) then
        if mpq_is_nonpos (m_second a) then Inr (m_first a) else rational_add (m_first a) (mk_q 1)
      else mpq_ceil_q (m_first a))"
definition inf_abs :: "inf_rational \<Rightarrow> inf_rational" where "inf_abs a = (if inf_is_neg a then inf_neg a else a)"

subsection \<open>Bounds of products, quotients, powers and roots\<close>

definition inf_cross :: "inf_rational \<Rightarrow> inf_rational \<Rightarrow> inf_rational res" where
  "inf_cross r1 r2 =
     bind_res (rational_mul (m_first r1) (m_first r2)) (\<lambda>f.
     bind_res (rational_mul (m_first r1) (m_second r2)) (\<lambda>x.
     bind_res (rational_mul (m_second r1) (m_first r2)) (\<lambda>y.
     bind_res (rational_add x y) (\<lambda>i. Inr (inf_pair f i)))))"

definition inf_mult :: "inf_rational \<Rightarrow> inf_rational \<Rightarrow> inf_rational res" where
  "inf_mult r1 r2 =
     bind_res (inf_cross r1 r2) (\<lambda>r.
     if mpq_is_pos (m_second r1) \<and> mpq_is_neg (m_second r2) then
       bind_res (rational_dec (m_second r)) (\<lambda>i. Inr (r\<lparr>m_second := i\<rparr>))
     else if mpq_is_neg (m_second r1) \<and> mpq_is_pos (m_second r2) then
       bind_res (rational_dec (m_second r)) (\<lambda>i. Inr (r\<lparr>m_second := i\<rparr>))
     else Inr r)"

definition sup_mult :: "inf_rational \<Rightarrow> inf_rational \<Rightarrow> inf_rational res" where
  "sup_mult r1 r2 =
     bind_res (inf_cross r1 r2) (\<lambda>r.
     if mpq_is_pos (m_second r1) \<and> mpq_is_pos (m_second r2) then
       bind_res (rational_inc (m_second r)) (\<lambda>i. Inr (r\<lparr>m_second := i\<rparr>))
     else if mpq_is_neg (m_second r1) \<and> mpq_is_neg (m_second r2) then
       bind_res (rational_inc (m_second r)) (\<lambda>i. Inr (r\<lparr>m_second := i\<rparr>))
     else Inr r)"

definition inf_div :: "inf_rational \<Rightarrow> inf_rational \<Rightarrow> inf_rational res" where
  "inf_div r1 r2 =
     (if mpq_is_neg (m_second r2) \<and> inf_is_neg r1 then
        bind_res (rational_div (mpq_abs (m_first r2)) (mk_q 2)) (\<lambda>h.
        bind_res (rational_sub (m_first r2) h) (\<lambda>d. inf_div_q r1 d))
      else if mpq_is_pos (m_second r2) \<and> inf_is_pos r1 then
        bind_res (rational_div (mpq_abs (m_first r2)) (mk_q 2)) (\<lambda>h.
        bind_res (rational_add (m_first r2) h) (\<lambda>d. inf_div_q r1 d))
      else inf_div_q r1 (m_first r2))"

definition sup_div :: "inf_rational \<Rightarrow> inf_rational \<Rightarrow> inf_rational res" where
  "sup_div r1 r2 =
     (if mpq_is_pos (m_second r2) \<and> inf_is_neg r1 then
        bind_res (rational_div (mpq_abs (m_first r2)) (mk_q 2)) (\<lambda>h.
        bind_res (rational_add (m_first r2) h) (\<lambda>d. inf_div_q r1 d))
      else if mpq_is_neg (m_second r2) \<and> inf_is_pos r1 then
        bind_res (rational_div (mpq_abs (m_first r2)) (mk_q 2)) (\<lambda>h.
        bind_res (rational_sub (m_first r2) h) (\<lambda>d. inf_div_q r1 d))
      else inf_div_q r1 (m_first r2))"

text \<open>\<open>result.m_first = q.expt(n)\<close> on a fresh result.\<close>

definition inf_expt :: "mpq \<Rightarrow> digit \<Rightarrow> inf_rational res" where
  "inf_expt q n = bind_res (mpq_power q n) (\<lambda>p. Inr (inf_null\<lparr>m_first := p\<rparr>))"

definition inf_power :: "inf_rational \<Rightarrow> digit \<Rightarrow> inf_rational res" where
  "inf_power r n =
     (let f = m_first r; i = m_second r; is_even = (0 = n AND 1) in
      if n = 1 then Inr r
      else if mpq_is_zero i \<or> mpq_is_pos f \<and> mpq_is_pos i \<or> mpq_is_neg f \<and> mpq_is_neg i \<and> is_even then inf_expt f n
      else if is_even then Inr inf_null
      else if mpq_is_zero f then Inr (inf_null\<lparr>m_first := mk_q (- 1)\<rparr>)
      else if mpq_is_pos f then
        bind_res (rational_div f (mk_q 2)) (\<lambda>h. bind_res (rational_sub f h) (\<lambda>q. inf_expt q n))
      else bind_res (rational_div f (mk_q 2)) (\<lambda>h. bind_res (rational_add f h) (\<lambda>q. inf_expt q n)))"

definition sup_power :: "inf_rational \<Rightarrow> digit \<Rightarrow> inf_rational res" where
  "sup_power r n =
     (let f = m_first r; i = m_second r; is_even = (0 = n AND 1) in
      if n = 1 then Inr r
      else if mpq_is_zero i \<or> mpq_is_pos f \<and> mpq_is_neg i \<or> mpq_is_neg f \<and> mpq_is_pos i \<and> is_even then inf_expt f n
      else if mpq_is_zero f \<or> n = 0 then Inr (inf_null\<lparr>m_first := mk_q 1\<rparr>)
      else if mpq_is_pos f \<or> is_even then
        bind_res (rational_div f (mk_q 2)) (\<lambda>h. bind_res (rational_add f h) (\<lambda>q. inf_expt q n))
      else bind_res (rational_div f (mk_q 2)) (\<lambda>h. bind_res (rational_sub f h) (\<lambda>q. inf_expt q n)))"

definition inf_root :: "inf_rational \<Rightarrow> digit \<Rightarrow> inf_rational" where "inf_root r n = inf_null"
definition sup_root :: "inf_rational \<Rightarrow> digit \<Rightarrow> inf_rational" where "sup_root r n = r"

section \<open>The values\<close>

definition inf_ok :: "inf_rational \<Rightarrow> bool" where "inf_ok a \<longleftrightarrow> mpq_ok (m_first a) \<and> mpq_ok (m_second a)"

abbreviation fv :: "inf_rational \<Rightarrow> real" where "fv a \<equiv> real_of_rat (mpq_val (m_first a))"
abbreviation sv :: "inf_rational \<Rightarrow> real" where "sv a \<equiv> real_of_rat (mpq_val (m_second a))"

definition inf_at :: "inf_rational \<Rightarrow> real \<Rightarrow> real" where "inf_at a e = fv a + sv a * e"

section \<open>Sufficiently small positive reals\<close>

lemma near0_less:
  assumes "(f \<longlongrightarrow> l) (at_right 0)" "(g \<longlongrightarrow> m) (at_right 0)" "l < (m :: real)"
  shows "\<forall>\<^sub>F e in at_right (0 :: real). f e < g e"
proof -
  have "((\<lambda>e. g e - f e) \<longlongrightarrow> m - l) (at_right 0)" by (intro tendsto_diff assms)
  then have "\<forall>\<^sub>F e in at_right 0. 0 < g e - f e" by (rule order_tendstoD) (use assms(3) in simp)
  then show ?thesis by eventually_elim simp
qed

lemma near0_line: "((\<lambda>e. a + b * e) \<longlongrightarrow> (a :: real)) (at_right 0)"
proof -
  have "((\<lambda>e. a + b * e) \<longlongrightarrow> a + b * 0) (at_right 0)" by (intro tendsto_intros)
  then show ?thesis by simp
qed

lemma near0_pos: "\<forall>\<^sub>F e in at_right (0 :: real). 0 < e"
  by (simp add: eventually_at_filter)

lemma near0_line_less: "a < c \<Longrightarrow> \<forall>\<^sub>F e in at_right (0 :: real). a + b * e < c + d * e"
  by (rule near0_less [OF near0_line near0_line])

lemma near0_lex: "a < c \<or> a = c \<and> b < d \<Longrightarrow> \<forall>\<^sub>F e in at_right (0 :: real). a + b * e < c + d * e"
  by (elim disjE conjE, erule near0_line_less) (use near0_pos in eventually_elim, simp)

lemma near0_line_less_iff: "(\<forall>\<^sub>F e in at_right (0 :: real). a + b * e < c + d * e) \<longleftrightarrow> a < c \<or> a = c \<and> b < d"
proof
  assume l: "\<forall>\<^sub>F e in at_right (0 :: real). a + b * e < c + d * e"
  show "a < c \<or> a = c \<and> b < d"
  proof (rule ccontr)
    assume "\<not> ?thesis"
    then consider "c < a \<or> c = a \<and> d < b" | "c = a" "d = b" by linarith
    then have "\<forall>\<^sub>F e in at_right (0 :: real). c + d * e \<le> a + b * e"
      by cases (drule near0_lex, auto elim: eventually_mono)
    with l have "\<forall>\<^sub>F e in at_right (0 :: real). False" by eventually_elim simp
    then show False by simp
  qed
qed (rule near0_lex)

lemma near0_line_eq_iff: "(\<forall>\<^sub>F e in at_right (0 :: real). a + b * e = c + d * e) \<longleftrightarrow> a = c \<and> b = d"
proof
  assume l: "\<forall>\<^sub>F e in at_right (0 :: real). a + b * e = c + d * e"
  have F: "\<not> (\<forall>\<^sub>F e in at_right (0 :: real). \<not> a + b * e = c + d * e)"
  proof
    assume "\<forall>\<^sub>F e in at_right (0 :: real). \<not> a + b * e = c + d * e"
    with l have "\<forall>\<^sub>F e in at_right (0 :: real). False" by eventually_elim simp
    then show False by simp
  qed
  have "\<not> (\<forall>\<^sub>F e in at_right (0 :: real). a + b * e < c + d * e)" "\<not> (\<forall>\<^sub>F e in at_right (0 :: real). c + d * e < a + b * e)"
    by (rule notI, rule notE [OF F], erule eventually_mono, simp)+
  then show "a = c \<and> b = d" unfolding near0_line_less_iff by auto
qed simp

lemma near0_weak: "\<forall>\<^sub>F e in at_right (0 :: real). f e < (g e :: real) \<Longrightarrow> \<forall>\<^sub>F e in at_right 0. f e \<le> g e"
  by (erule eventually_mono) simp

section \<open>Order\<close>

lemma inf_okD: "inf_ok a \<Longrightarrow> mpq_ok (m_first a)" "inf_ok a \<Longrightarrow> mpq_ok (m_second a)"
  by (simp_all add: inf_ok_def)

lemma inf_lt_iff:
  assumes "inf_ok a" "inf_ok b"
  shows "inf_lt a b \<longleftrightarrow> (\<forall>\<^sub>F e in at_right 0. inf_at a e < inf_at b e)"
    "inf_eq a b \<longleftrightarrow> (\<forall>\<^sub>F e in at_right 0. inf_at a e = inf_at b e)"
  using inf_okD [OF assms(1)] inf_okD [OF assms(2)]
  unfolding inf_at_def near0_line_less_iff near0_line_eq_iff by (simp_all add: inf_lt_def inf_eq_def of_rat_less of_rat_eq_iff)

text \<open>Comparisons with a rational are those with the rational as a number without infinitesimal part.\<close>

lemma inf_of_q [simp]: "mpq_ok r \<Longrightarrow> inf_ok (inf_of_q r)" "inf_at (inf_of_q r) e = real_of_rat (mpq_val r)"
  by (simp_all add: inf_of_q_def inf_ok_def inf_at_def)

lemma inf_lt_of_q:
  assumes "inf_ok a" "mpq_ok r"
  shows "inf_lt_q a r \<longleftrightarrow> inf_lt a (inf_of_q r)" "q_lt_inf r a \<longleftrightarrow> inf_lt (inf_of_q r) a" "inf_eq_q a r \<longleftrightarrow> inf_eq a (inf_of_q r)"
  using inf_okD [OF assms(1)] assms(2) by (simp_all add: inf_lt_q_def q_lt_inf_def inf_eq_q_def inf_lt_def inf_eq_def inf_of_q_def)

lemma inf_sign:
  assumes "inf_ok a"
  shows "inf_is_pos a \<longleftrightarrow> (\<forall>\<^sub>F e in at_right 0. 0 < inf_at a e)" "inf_is_neg a \<longleftrightarrow> (\<forall>\<^sub>F e in at_right 0. inf_at a e < 0)"
    "inf_is_zero a \<longleftrightarrow> (\<forall>\<^sub>F e in at_right 0. inf_at a e = 0)"
    "inf_is_nonneg a \<longleftrightarrow> \<not> inf_is_neg a" "inf_is_nonpos a \<longleftrightarrow> \<not> inf_is_pos a"
proof -
  note ok = inf_okD [OF assms]
  show "inf_is_pos a \<longleftrightarrow> (\<forall>\<^sub>F e in at_right 0. 0 < inf_at a e)"
    using near0_line_less_iff [of 0 0 "fv a" "sv a"] ok by (auto simp: inf_is_pos_def inf_at_def)
  show "inf_is_neg a \<longleftrightarrow> (\<forall>\<^sub>F e in at_right 0. inf_at a e < 0)"
    using near0_line_less_iff [of "fv a" "sv a" 0 0] ok by (auto simp: inf_is_neg_def inf_at_def)
  show "inf_is_zero a \<longleftrightarrow> (\<forall>\<^sub>F e in at_right 0. inf_at a e = 0)"
    using near0_line_eq_iff [of "fv a" "sv a" 0 0] ok by (auto simp: inf_is_zero_def inf_at_def)
  show "inf_is_nonneg a \<longleftrightarrow> \<not> inf_is_neg a" "inf_is_nonpos a \<longleftrightarrow> \<not> inf_is_pos a"
    using ok by (auto simp: inf_is_nonneg_def inf_is_neg_def inf_is_nonpos_def inf_is_pos_def)
qed

section \<open>Linear operations\<close>

lemma inf_pair_yields: "inf_ok (inf_pair x y) \<longleftrightarrow> mpq_ok x \<and> mpq_ok y"
  "inf_at (inf_pair x y) e = real_of_rat (mpq_val x) + real_of_rat (mpq_val y) * e"
  by (simp_all add: inf_pair_def inf_ok_def inf_at_def)

lemma inf_linear_yields:
  assumes "inf_ok a" "inf_ok b"
  shows "yields (inf_add a b) (\<lambda>c. inf_ok c \<and> (\<forall>e. inf_at c e = inf_at a e + inf_at b e))"
    "yields (inf_sub a b) (\<lambda>c. inf_ok c \<and> (\<forall>e. inf_at c e = inf_at a e - inf_at b e))"
proof -
  note A = inf_okD [OF assms(1)] and B = inf_okD [OF assms(2)]
  obtain x y where "rational_add (m_first a) (m_first b) = Inr x" "mpq_ok x" "mpq_val x = mpq_val (m_first a) + mpq_val (m_first b)"
    "rational_add (m_second a) (m_second b) = Inr y" "mpq_ok y" "mpq_val y = mpq_val (m_second a) + mpq_val (m_second b)"
    using rational_yields(1) [OF A(1) B(1)] rational_yields(1) [OF A(2) B(2)] by (auto elim!: yieldsE)
  then show "yields (inf_add a b) (\<lambda>c. inf_ok c \<and> (\<forall>e. inf_at c e = inf_at a e + inf_at b e))"
    by (simp add: inf_add_def inf_lift2_def inf_pair_yields) (simp add: inf_at_def of_rat_add algebra_simps)
  obtain x y where "rational_sub (m_first a) (m_first b) = Inr x" "mpq_ok x" "mpq_val x = mpq_val (m_first a) - mpq_val (m_first b)"
    "rational_sub (m_second a) (m_second b) = Inr y" "mpq_ok y" "mpq_val y = mpq_val (m_second a) - mpq_val (m_second b)"
    using rational_yields(2) [OF A(1) B(1)] rational_yields(2) [OF A(2) B(2)] by (auto elim!: yieldsE)
  then show "yields (inf_sub a b) (\<lambda>c. inf_ok c \<and> (\<forall>e. inf_at c e = inf_at a e - inf_at b e))"
    by (simp add: inf_sub_def inf_lift2_def inf_pair_yields) (simp add: inf_at_def of_rat_diff algebra_simps)
qed

lemma inf_scale_yields:
  assumes "inf_ok a" "mpq_ok r"
  shows "yields (inf_mul_q a r) (\<lambda>c. inf_ok c \<and> (\<forall>e. inf_at c e = inf_at a e * real_of_rat (mpq_val r)))"
    "mpq_val r \<noteq> 0 \<Longrightarrow> yields (inf_div_q a r) (\<lambda>c. inf_ok c \<and> (\<forall>e. inf_at c e = inf_at a e / real_of_rat (mpq_val r)))"
proof -
  note A = inf_okD [OF assms(1)]
  obtain x y where "rational_mul (m_first a) r = Inr x" "mpq_ok x" "mpq_val x = mpq_val (m_first a) * mpq_val r"
    "rational_mul (m_second a) r = Inr y" "mpq_ok y" "mpq_val y = mpq_val (m_second a) * mpq_val r"
    using rational_yields(3) [OF A(1) assms(2)] rational_yields(3) [OF A(2) assms(2)] by (auto elim!: yieldsE)
  then show "yields (inf_mul_q a r) (\<lambda>c. inf_ok c \<and> (\<forall>e. inf_at c e = inf_at a e * real_of_rat (mpq_val r)))"
    by (simp add: inf_mul_q_def inf_pair_yields) (simp add: inf_at_def of_rat_mult algebra_simps)
  assume r: "mpq_val r \<noteq> 0"
  obtain x y where "rational_div (m_first a) r = Inr x" "mpq_ok x" "mpq_val x = mpq_val (m_first a) / mpq_val r"
    "rational_div (m_second a) r = Inr y" "mpq_ok y" "mpq_val y = mpq_val (m_second a) / mpq_val r"
    using rational_yields(4) [OF A(1) assms(2) r] rational_yields(4) [OF A(2) assms(2) r] by (auto elim!: yieldsE)
  then show "yields (inf_div_q a r) (\<lambda>c. inf_ok c \<and> (\<forall>e. inf_at c e = inf_at a e / real_of_rat (mpq_val r)))"
    by (simp add: inf_div_q_def inf_pair_yields) (simp add: inf_at_def of_rat_divide add_divide_distrib)
qed

lemma inf_neg_at [simp]: "inf_ok a \<Longrightarrow> inf_ok (inf_neg a)" "inf_ok a \<Longrightarrow> inf_at (inf_neg a) e = - inf_at a e"
  using inf_okD [of a] by (simp_all add: inf_neg_def inf_pair_yields) (simp add: inf_at_def of_rat_minus)

lemma inf_abs_at:
  assumes "inf_ok a"
  shows "inf_ok (inf_abs a)" "\<forall>\<^sub>F e in at_right 0. inf_at (inf_abs a) e = \<bar>inf_at a e\<bar>"
proof -
  show "inf_ok (inf_abs a)" using assms by (simp add: inf_abs_def)
  show "\<forall>\<^sub>F e in at_right 0. inf_at (inf_abs a) e = \<bar>inf_at a e\<bar>"
  proof (cases "inf_is_neg a")
    case True
    then show ?thesis using inf_sign(2) [OF assms] assms by (auto simp: inf_abs_def elim: eventually_mono)
  next
    case False
    have "inf_is_zero a \<or> inf_is_pos a" using False inf_okD [OF assms] by (auto simp: inf_is_neg_def inf_is_zero_def inf_is_pos_def)
    then have "\<forall>\<^sub>F e in at_right 0. 0 \<le> inf_at a e"
      using inf_sign(1,3) [OF assms] by (auto elim: eventually_mono)
    then show ?thesis using False by (simp add: inf_abs_def) (auto elim: eventually_mono)
  qed
qed

lemma inf_addmul_yields:
  assumes "inf_ok a" "mpq_ok c" "inf_ok k"
  shows "yields (inf_addmul a c k) (\<lambda>r. inf_ok r \<and> (\<forall>e. inf_at r e = inf_at a e + real_of_rat (mpq_val c) * inf_at k e))"
    "yields (inf_submul a c k) (\<lambda>r. inf_ok r \<and> (\<forall>e. inf_at r e = inf_at a e - real_of_rat (mpq_val c) * inf_at k e))"
proof -
  note A = inf_okD [OF assms(1)] and K = inf_okD [OF assms(3)]
  obtain x y where "rational_addmul (m_first a) c (m_first k) = Inr x" "mpq_ok x" "mpq_val x = mpq_val (m_first a) + mpq_val c * mpq_val (m_first k)"
    "rational_addmul (m_second a) c (m_second k) = Inr y" "mpq_ok y" "mpq_val y = mpq_val (m_second a) + mpq_val c * mpq_val (m_second k)"
    using rational_addmul_yields(1) [OF A(1) assms(2) K(1)] rational_addmul_yields(1) [OF A(2) assms(2) K(2)] by (auto elim!: yieldsE)
  then show "yields (inf_addmul a c k) (\<lambda>r. inf_ok r \<and> (\<forall>e. inf_at r e = inf_at a e + real_of_rat (mpq_val c) * inf_at k e))"
    by (simp add: inf_addmul_def inf_pair_yields) (simp add: inf_at_def of_rat_add of_rat_mult algebra_simps)
  obtain x y where "rational_submul (m_first a) c (m_first k) = Inr x" "mpq_ok x" "mpq_val x = mpq_val (m_first a) - mpq_val c * mpq_val (m_first k)"
    "rational_submul (m_second a) c (m_second k) = Inr y" "mpq_ok y" "mpq_val y = mpq_val (m_second a) - mpq_val c * mpq_val (m_second k)"
    using rational_addmul_yields(2) [OF A(1) assms(2) K(1)] rational_addmul_yields(2) [OF A(2) assms(2) K(2)] by (auto elim!: yieldsE)
  then show "yields (inf_submul a c k) (\<lambda>r. inf_ok r \<and> (\<forall>e. inf_at r e = inf_at a e - real_of_rat (mpq_val c) * inf_at k e))"
    by (simp add: inf_submul_def inf_pair_yields) (simp add: inf_at_def of_rat_diff of_rat_mult algebra_simps)
qed

section \<open>Rounding\<close>

lemma is_z_floor_ceil_q:
  assumes "mpq_ok a"
  shows "yields (mpq_floor_q a) (\<lambda>q. is_z q \<lfloor>mpq_val a\<rfloor>)" "yields (mpq_ceil_q a) (\<lambda>q. is_z q \<lceil>mpq_val a\<rceil>)"
  using mpq_floor_ceil_yields [OF assms] by (auto simp: mpq_floor_q_def mpq_ceil_q_def is_z_def elim!: yieldsE)

lemma is_z_not_int:
  assumes "mpq_ok a" "\<not> mpq_is_int a"
  shows "of_int \<lfloor>mpq_val a\<rfloor> < mpq_val a" "mpq_val a < of_int \<lceil>mpq_val a\<rceil>"
proof -
  have ni: "mpq_val a \<notin> \<int>" using mpq_is_int_val [OF assms(1)] assms(2) by simp
  then have "of_int \<lfloor>mpq_val a\<rfloor> \<noteq> mpq_val a" "of_int \<lceil>mpq_val a\<rceil> \<noteq> mpq_val a" by (metis Ints_of_int)+
  then show "of_int \<lfloor>mpq_val a\<rfloor> < mpq_val a" "mpq_val a < of_int \<lceil>mpq_val a\<rceil>"
    using of_int_floor_le [of "mpq_val a"] le_of_int_ceiling [of "mpq_val a"] by linarith+
qed

lemma near0_floor:
  assumes "of_int z < x \<or> of_int z = x \<and> 0 \<le> y" "x < of_int z + 1 \<or> x = of_int z + 1 \<and> y < (0 :: real)"
  shows "\<forall>\<^sub>F e in at_right 0. \<lfloor>x + y * e\<rfloor> = z"
proof -
  have "\<forall>\<^sub>F e in at_right 0. x + y * e < of_int z + 1 + 0 * e" using assms(2) by (intro near0_lex) auto
  moreover have "\<forall>\<^sub>F e in at_right (0 :: real). of_int z + 0 * e \<le> x + y * e"
  proof (cases "of_int z = x \<and> y = 0")
    case False
    then show ?thesis using assms(1) by (intro near0_weak near0_lex) auto
  qed simp
  ultimately show ?thesis by eventually_elim (simp add: floor_unique)
qed

lemma near0_ceiling:
  assumes "x < of_int z \<or> x = of_int z \<and> y \<le> 0" "of_int z - 1 < x \<or> of_int z - 1 = x \<and> (0 :: real) < y"
  shows "\<forall>\<^sub>F e in at_right 0. \<lceil>x + y * e\<rceil> = z"
proof -
  have "\<forall>\<^sub>F e in at_right 0. \<lfloor>- x + - y * e\<rfloor> = - z" using assms by (intro near0_floor) auto
  then show ?thesis by eventually_elim (simp add: ceiling_def)
qed

lemma of_rat_is_z: "is_z q z \<Longrightarrow> real_of_rat (mpq_val q) = of_int z"
  by (simp add: is_z_def)

lemma inf_floor_yields:
  assumes "inf_ok a"
  shows "yields (inf_floor a) (\<lambda>q. \<exists>z. is_z q z \<and> (\<forall>\<^sub>F e in at_right 0. \<lfloor>inf_at a e\<rfloor> = z))"
proof (cases "mpq_is_int (m_first a)")
  case True
  note A = inf_okD [OF assms]
  obtain v where v: "is_z (m_first a) v" "fv a = of_int v"
    using mpq_int_val [OF A(1) True] A(1) by (auto simp: is_z_def)
  show ?thesis
  proof (cases "mpq_is_nonneg (m_second a)")
    case nonneg: True
    then have "\<forall>\<^sub>F e in at_right 0. \<lfloor>inf_at a e\<rfloor> = v" unfolding inf_at_def using A v(2) by (intro near0_floor) simp_all
    then show ?thesis using True nonneg v(1) by (auto simp: inf_floor_def)
  next
    case False
    then have "\<forall>\<^sub>F e in at_right 0. \<lfloor>inf_at a e\<rfloor> = v - 1" unfolding inf_at_def using A v(2) by (intro near0_floor) simp_all
    moreover have "yields (rational_sub (m_first a) (mk_q 1)) (\<lambda>q. is_z q (v - 1))"
      using is_z_yields(2) [OF v(1) is_z_mk [of 1]] by simp
    ultimately show ?thesis using True False by (auto simp: inf_floor_def elim!: yieldsE)
  qed
next
  case False
  note A = inf_okD [OF assms]
  let ?z = "\<lfloor>mpq_val (m_first a)\<rfloor>"
  have "real_of_rat (of_int ?z) < fv a" "fv a < real_of_rat (of_int ?z + 1)"
    using is_z_not_int(1) [OF A(1) False] floor_correct [of "mpq_val (m_first a)"] unfolding of_rat_less by simp_all
  then have "\<forall>\<^sub>F e in at_right 0. \<lfloor>inf_at a e\<rfloor> = ?z" unfolding inf_at_def by (intro near0_floor) (simp_all add: of_rat_add)
  then show ?thesis using False is_z_floor_ceil_q(1) [OF A(1)] by (auto simp: inf_floor_def elim!: yieldsE)
qed

lemma inf_ceil_yields:
  assumes "inf_ok a"
  shows "yields (inf_ceil a) (\<lambda>q. \<exists>z. is_z q z \<and> (\<forall>\<^sub>F e in at_right 0. \<lceil>inf_at a e\<rceil> = z))"
proof (cases "mpq_is_int (m_first a)")
  case True
  note A = inf_okD [OF assms]
  obtain v where v: "is_z (m_first a) v" "fv a = of_int v"
    using mpq_int_val [OF A(1) True] A(1) by (auto simp: is_z_def)
  show ?thesis
  proof (cases "mpq_is_nonpos (m_second a)")
    case nonpos: True
    then have "\<forall>\<^sub>F e in at_right 0. \<lceil>inf_at a e\<rceil> = v" unfolding inf_at_def using A v(2) by (intro near0_ceiling) simp_all
    then show ?thesis using True nonpos v(1) by (auto simp: inf_ceil_def)
  next
    case False
    then have "\<forall>\<^sub>F e in at_right 0. \<lceil>inf_at a e\<rceil> = v + 1" unfolding inf_at_def using A v(2) by (intro near0_ceiling) simp_all
    moreover have "yields (rational_add (m_first a) (mk_q 1)) (\<lambda>q. is_z q (v + 1))"
      using is_z_yields(1) [OF v(1) is_z_mk [of 1]] by simp
    ultimately show ?thesis using True False by (auto simp: inf_ceil_def elim!: yieldsE)
  qed
next
  case False
  note A = inf_okD [OF assms]
  let ?z = "\<lceil>mpq_val (m_first a)\<rceil>"
  have "fv a < real_of_rat (of_int ?z)" "real_of_rat (of_int ?z - 1) < fv a"
    using is_z_not_int(2) [OF A(1) False] ceiling_correct [of "mpq_val (m_first a)"] unfolding of_rat_less by simp_all
  then have "\<forall>\<^sub>F e in at_right 0. \<lceil>inf_at a e\<rceil> = ?z" unfolding inf_at_def by (intro near0_ceiling) (simp_all add: of_rat_diff)
  then show ?thesis using False is_z_floor_ceil_q(2) [OF A(1)] by (auto simp: inf_ceil_def elim!: yieldsE)
qed

section \<open>Products\<close>

lemma near0_square: "\<forall>\<^sub>F e in at_right (0 :: real). - e \<le> p * e * e \<and> p * e * e \<le> e"
proof -
  have "\<forall>\<^sub>F e in at_right 0. 0 + \<bar>p\<bar> * e < 1 + 0 * e" by (rule near0_line_less) simp
  with near0_pos show ?thesis
  proof eventually_elim
    case (elim e)
    have "\<bar>p * e * e\<bar> = \<bar>p\<bar> * e * e" using elim by (simp add: abs_mult)
    also have "\<dots> \<le> 1 * e" using elim by (intro mult_right_mono) simp_all
    finally show ?case by (simp add: abs_le_iff)
  qed
qed

lemma inf_cross_yields:
  assumes "inf_ok a" "inf_ok b"
  shows "yields (inf_cross a b) (\<lambda>c. inf_ok c \<and> fv c = fv a * fv b \<and> (\<forall>e. inf_at a e * inf_at b e = inf_at c e + sv a * sv b * e * e))"
proof -
  note A = inf_okD [OF assms(1)] and B = inf_okD [OF assms(2)]
  obtain f where f: "rational_mul (m_first a) (m_first b) = Inr f" "mpq_ok f" "mpq_val f = mpq_val (m_first a) * mpq_val (m_first b)"
    using rational_yields(3) [OF A(1) B(1)] by (auto elim!: yieldsE)
  obtain x where x: "rational_mul (m_first a) (m_second b) = Inr x" "mpq_ok x" "mpq_val x = mpq_val (m_first a) * mpq_val (m_second b)"
    using rational_yields(3) [OF A(1) B(2)] by (auto elim!: yieldsE)
  obtain y where y: "rational_mul (m_second a) (m_first b) = Inr y" "mpq_ok y" "mpq_val y = mpq_val (m_second a) * mpq_val (m_first b)"
    using rational_yields(3) [OF A(2) B(1)] by (auto elim!: yieldsE)
  obtain i where i: "rational_add x y = Inr i" "mpq_ok i" "mpq_val i = mpq_val x + mpq_val y"
    using rational_yields(1) [OF x(2) y(2)] by (auto elim!: yieldsE)
  show ?thesis
    unfolding inf_cross_def f(1) x(1) y(1) i(1) bind_res.simps yields_Inr
    using f i x y by (simp add: inf_pair_yields) (simp add: inf_pair_def inf_at_def of_rat_mult of_rat_add algebra_simps)
qed

lemma inf_second_yields:
  assumes "inf_ok c"
  shows "yields (rational_dec (m_second c)) (\<lambda>i. inf_ok (c\<lparr>m_second := i\<rparr>) \<and> fv (c\<lparr>m_second := i\<rparr>) = fv c \<and> (\<forall>e. inf_at (c\<lparr>m_second := i\<rparr>) e = inf_at c e - e))"
    "yields (rational_inc (m_second c)) (\<lambda>i. inf_ok (c\<lparr>m_second := i\<rparr>) \<and> fv (c\<lparr>m_second := i\<rparr>) = fv c \<and> (\<forall>e. inf_at (c\<lparr>m_second := i\<rparr>) e = inf_at c e + e))"
  using rational_yields(5,6) [OF inf_okD(2) [OF assms] inf_okD(2) [OF assms]] inf_okD [OF assms]
  by (auto simp: inf_ok_def inf_at_def of_rat_diff of_rat_add left_diff_distrib distrib_right elim!: yieldsE)

lemma inf_mult_yields:
  assumes "inf_ok a" "inf_ok b"
  shows "yields (inf_mult a b) (\<lambda>c. inf_ok c \<and> fv c = fv a * fv b \<and> (\<forall>\<^sub>F e in at_right 0. inf_at c e \<le> inf_at a e * inf_at b e))"
proof -
  note A = inf_okD [OF assms(1)] and B = inf_okD [OF assms(2)]
  obtain c where c: "inf_cross a b = Inr c" "inf_ok c" "fv c = fv a * fv b" "\<And>e. inf_at a e * inf_at b e = inf_at c e + sv a * sv b * e * e"
    using inf_cross_yields [OF assms] by (auto elim!: yieldsE)
  show ?thesis
  proof (cases "sv a * sv b < 0")
    case True
    then have t: "mpq_is_pos (m_second a) \<and> mpq_is_neg (m_second b) \<or> mpq_is_neg (m_second a) \<and> mpq_is_pos (m_second b)"
      using A B by (simp add: mult_less_0_iff)
    obtain i where i: "rational_dec (m_second c) = Inr i" "inf_ok (c\<lparr>m_second := i\<rparr>)" "fv (c\<lparr>m_second := i\<rparr>) = fv c" "\<And>e. inf_at (c\<lparr>m_second := i\<rparr>) e = inf_at c e - e"
      using inf_second_yields(1) [OF c(2)] by (auto elim!: yieldsE)
    have "\<forall>\<^sub>F e in at_right 0. inf_at (c\<lparr>m_second := i\<rparr>) e \<le> inf_at a e * inf_at b e"
      using near0_square [of "sv a * sv b"] by eventually_elim (simp add: i(4) c(4))
    then show ?thesis using t i c(1,3) unfolding inf_mult_def by auto
  next
    case False
    then have "\<not> (mpq_is_pos (m_second a) \<and> mpq_is_neg (m_second b))" "\<not> (mpq_is_neg (m_second a) \<and> mpq_is_pos (m_second b))"
      using A B by (auto simp: mult_less_0_iff)
    moreover have "\<forall>\<^sub>F e in at_right 0. inf_at c e \<le> inf_at a e * inf_at b e"
      using near0_pos by eventually_elim (use False in \<open>simp add: c(4)\<close>)
    ultimately show ?thesis using c(1-3) unfolding inf_mult_def by auto
  qed
qed

lemma sup_mult_yields:
  assumes "inf_ok a" "inf_ok b"
  shows "yields (sup_mult a b) (\<lambda>c. inf_ok c \<and> fv c = fv a * fv b \<and> (\<forall>\<^sub>F e in at_right 0. inf_at a e * inf_at b e \<le> inf_at c e))"
proof -
  note A = inf_okD [OF assms(1)] and B = inf_okD [OF assms(2)]
  obtain c where c: "inf_cross a b = Inr c" "inf_ok c" "fv c = fv a * fv b" "\<And>e. inf_at a e * inf_at b e = inf_at c e + sv a * sv b * e * e"
    using inf_cross_yields [OF assms] by (auto elim!: yieldsE)
  show ?thesis
  proof (cases "0 < sv a * sv b")
    case True
    then have t: "mpq_is_pos (m_second a) \<and> mpq_is_pos (m_second b) \<or> mpq_is_neg (m_second a) \<and> mpq_is_neg (m_second b)"
      using A B by (simp add: zero_less_mult_iff)
    obtain i where i: "rational_inc (m_second c) = Inr i" "inf_ok (c\<lparr>m_second := i\<rparr>)" "fv (c\<lparr>m_second := i\<rparr>) = fv c" "\<And>e. inf_at (c\<lparr>m_second := i\<rparr>) e = inf_at c e + e"
      using inf_second_yields(2) [OF c(2)] by (auto elim!: yieldsE)
    have "\<forall>\<^sub>F e in at_right 0. inf_at a e * inf_at b e \<le> inf_at (c\<lparr>m_second := i\<rparr>) e"
      using near0_square [of "sv a * sv b"] by eventually_elim (simp add: i(4) c(4))
    then show ?thesis using t i c(1,3) unfolding sup_mult_def by auto
  next
    case False
    then have "\<not> (mpq_is_pos (m_second a) \<and> mpq_is_pos (m_second b))" "\<not> (mpq_is_neg (m_second a) \<and> mpq_is_neg (m_second b))"
      using A B by (auto simp: zero_less_mult_iff)
    moreover have "\<forall>\<^sub>F e in at_right 0. inf_at a e * inf_at b e \<le> inf_at c e"
      using near0_pos
    proof eventually_elim
      case (elim e)
      have "sv a * sv b \<le> 0" using False by linarith
      then have "sv a * sv b * e * e \<le> 0" by (rule mult_nonpos_nonneg [OF mult_nonpos_nonneg]) (use elim in simp_all)
      then show ?case using c(4) [of e] by linarith
    qed
    ultimately show ?thesis using c(1-3) unfolding sup_mult_def by auto
  qed
qed

section \<open>Quotients\<close>

lemma quotient_le:
  fixes n d c :: real
  assumes "0 < d * c" "n * (c - d) \<le> 0"
  shows "n / d \<le> n / c"
proof -
  have "d \<noteq> 0" "c \<noteq> 0" using assms(1) by auto
  then have "n / d - n / c = n * (c - d) / (d * c)" by (simp add: field_simps)
  also have "\<dots> \<le> 0" using assms by (simp add: divide_nonpos_pos)
  finally show ?thesis by simp
qed

lemma quotient_mono:
  fixes n d c :: real
  assumes "0 < d * c"
  shows "n \<le> 0 \<Longrightarrow> d \<le> c \<Longrightarrow> n / d \<le> n / c" "0 \<le> n \<Longrightarrow> c \<le> d \<Longrightarrow> n / d \<le> n / c"
  using quotient_le [OF assms] by (simp_all add: mult_nonpos_nonneg mult_nonneg_nonpos)

lemma near0_divisor:
  assumes "b \<noteq> (0 :: real)"
  shows "\<forall>\<^sub>F e in at_right 0. 0 < e \<and> \<bar>d * e\<bar> < \<bar>b\<bar> / 2 \<and> 0 < b * (b + d * e)
    \<and> 0 < (b - \<bar>b\<bar> / 2) * (b + d * e) \<and> 0 < (b + \<bar>b\<bar> / 2) * (b + d * e)"
proof -
  have "\<forall>\<^sub>F e in at_right 0. 0 + \<bar>d\<bar> * e < \<bar>b\<bar> / 2 + 0 * e" using assms by (intro near0_line_less) simp
  with near0_pos show ?thesis
  proof eventually_elim
    case (elim e)
    then have d: "\<bar>d * e\<bar> < \<bar>b\<bar> / 2" by (simp add: abs_mult)
    show ?case
    proof (cases "0 < b")
      case True
      then have "0 < b + d * e" using d by (simp add: abs_if split: if_splits)
      then show ?thesis using True d elim by simp
    next
      case False
      then have b: "b < 0" "b + d * e < 0" using assms d by (simp_all add: abs_if split: if_splits)
      then show ?thesis using d elim by (simp add: mult_neg_neg)
    qed
  qed
qed

lemma half_abs_yields:
  assumes "mpq_ok b" "mpq_val b \<noteq> 0"
  shows "yields (rational_div (mpq_abs b) (mk_q 2)) (\<lambda>h.
    yields (rational_sub b h) (\<lambda>d. mpq_ok d \<and> mpq_val d \<noteq> 0 \<and> real_of_rat (mpq_val d) = real_of_rat (mpq_val b) - \<bar>real_of_rat (mpq_val b)\<bar> / 2)
    \<and> yields (rational_add b h) (\<lambda>d. mpq_ok d \<and> mpq_val d \<noteq> 0 \<and> real_of_rat (mpq_val d) = real_of_rat (mpq_val b) + \<bar>real_of_rat (mpq_val b)\<bar> / 2))"
proof -
  let ?b = "mpq_val b"
  have two: "mpq_ok (mk_q 2)" "mpq_val (mk_q 2) = 2" by (simp_all add: int_limits)
  obtain h where h: "rational_div (mpq_abs b) (mk_q 2) = Inr h" "mpq_ok h" "mpq_val h = \<bar>?b\<bar> / 2"
    using rational_yields(4) [of "mpq_abs b" "mk_q 2"] assms(1) two by (auto elim!: yieldsE)
  have nz: "?b - \<bar>?b\<bar> / 2 \<noteq> 0" "?b + \<bar>?b\<bar> / 2 \<noteq> 0" using assms(2) by (auto simp: abs_if)
  have r: "real_of_rat (?b - \<bar>?b\<bar> / 2) = real_of_rat ?b - \<bar>real_of_rat ?b\<bar> / 2" "real_of_rat (?b + \<bar>?b\<bar> / 2) = real_of_rat ?b + \<bar>real_of_rat ?b\<bar> / 2"
    by (simp_all add: of_rat_add of_rat_diff of_rat_divide abs_if of_rat_minus)
  obtain d d' where d: "rational_sub b h = Inr d" "mpq_ok d" "mpq_val d = ?b - \<bar>?b\<bar> / 2"
    "rational_add b h = Inr d'" "mpq_ok d'" "mpq_val d' = ?b + \<bar>?b\<bar> / 2"
    using rational_yields(1,2) [OF assms(1) h(2)] unfolding h(3) by (blast elim: yieldsE)
  show ?thesis unfolding h(1) d(1) d(4) yields_Inr d(3) d(6) using d(2,5) nz r by blast
qed

lemma inf_div_sign:
  assumes "inf_ok a" "\<not> inf_is_neg a" "\<not> inf_is_pos a"
  shows "inf_at a e = 0"
  using assms inf_okD [OF assms(1)] by (auto simp: inf_is_neg_def inf_is_pos_def inf_at_def not_less)

lemma inf_div_yields:
  assumes "inf_ok a" "inf_ok b" "mpq_val (m_first b) \<noteq> 0"
  shows "yields (inf_div a b) (\<lambda>c. inf_ok c \<and> (\<forall>\<^sub>F e in at_right 0. inf_at c e \<le> inf_at a e / inf_at b e))"
proof -
  note B = inf_okD [OF assms(2)]
  have b0: "fv b \<noteq> 0" using assms(3) by simp
  note nd = near0_divisor [OF b0, of "sv b"]
  have sub: "\<forall>\<^sub>F e in at_right 0. inf_at a e / (fv b - \<bar>fv b\<bar> / 2) \<le> inf_at a e / inf_at b e" if "inf_is_neg a"
    using nd that unfolding inf_sign(2) [OF assms(1)]
    by eventually_elim (auto intro!: quotient_mono(1) simp: inf_at_def)
  have add: "\<forall>\<^sub>F e in at_right 0. inf_at a e / (fv b + \<bar>fv b\<bar> / 2) \<le> inf_at a e / inf_at b e" if "inf_is_pos a"
    using nd that unfolding inf_sign(1) [OF assms(1)]
    by eventually_elim (auto intro!: quotient_mono(2) simp: inf_at_def)
  have keep: "\<forall>\<^sub>F e in at_right 0. inf_at a e / fv b \<le> inf_at a e / inf_at b e"
    if u: "\<not> (sv b < 0 \<and> inf_is_neg a)" "\<not> (0 < sv b \<and> inf_is_pos a)"
  proof -
    consider "inf_is_neg a" "0 \<le> sv b" | "inf_is_pos a" "sv b \<le> 0" | "\<not> inf_is_neg a" "\<not> inf_is_pos a"
      using u by linarith
    then show ?thesis
    proof cases
      case 1
      show ?thesis using nd 1(1) unfolding inf_sign(2) [OF assms(1)]
        by eventually_elim (use 1(2) in \<open>auto intro!: quotient_mono(1) simp: inf_at_def\<close>)
    next
      case 2
      show ?thesis using nd 2(1) unfolding inf_sign(1) [OF assms(1)]
        by eventually_elim (use 2(2) in \<open>auto intro!: quotient_mono(2) simp: inf_at_def mult_nonneg_nonpos mult_nonpos_nonneg\<close>)
    qed (simp add: inf_div_sign [OF assms(1)])
  qed
  obtain h d d' where h: "rational_div (mpq_abs (m_first b)) (mk_q 2) = Inr h"
    "rational_sub (m_first b) h = Inr d" "mpq_ok d" "mpq_val d \<noteq> 0" "real_of_rat (mpq_val d) = fv b - \<bar>fv b\<bar> / 2"
    "rational_add (m_first b) h = Inr d'" "mpq_ok d'" "mpq_val d' \<noteq> 0" "real_of_rat (mpq_val d') = fv b + \<bar>fv b\<bar> / 2"
    using half_abs_yields [OF B(1) assms(3)] by (auto elim!: yieldsE)
  note y = inf_scale_yields(2) [OF assms(1) h(3,4), unfolded h(5)] inf_scale_yields(2) [OF assms(1) h(7,8), unfolded h(9)] inf_scale_yields(2) [OF assms(1) B(1) assms(3)]
  show ?thesis unfolding inf_div_def h(1) h(2) h(6) bind_res.simps
    using sub add keep B y by (auto elim!: yieldsE)
qed

lemma sup_div_yields:
  assumes "inf_ok a" "inf_ok b" "mpq_val (m_first b) \<noteq> 0"
  shows "yields (sup_div a b) (\<lambda>c. inf_ok c \<and> (\<forall>\<^sub>F e in at_right 0. inf_at a e / inf_at b e \<le> inf_at c e))"
proof -
  note B = inf_okD [OF assms(2)]
  have b0: "fv b \<noteq> 0" using assms(3) by simp
  note nd = near0_divisor [OF b0, of "sv b"]
  have add: "\<forall>\<^sub>F e in at_right 0. inf_at a e / inf_at b e \<le> inf_at a e / (fv b + \<bar>fv b\<bar> / 2)" if "inf_is_neg a"
    using nd that unfolding inf_sign(2) [OF assms(1)]
    by eventually_elim (auto intro!: quotient_mono(1) simp: inf_at_def mult.commute)
  have sub: "\<forall>\<^sub>F e in at_right 0. inf_at a e / inf_at b e \<le> inf_at a e / (fv b - \<bar>fv b\<bar> / 2)" if "inf_is_pos a"
    using nd that unfolding inf_sign(1) [OF assms(1)]
    by eventually_elim (auto intro!: quotient_mono(2) simp: inf_at_def mult.commute)
  have keep: "\<forall>\<^sub>F e in at_right 0. inf_at a e / inf_at b e \<le> inf_at a e / fv b"
    if u: "\<not> (0 < sv b \<and> inf_is_neg a)" "\<not> (sv b < 0 \<and> inf_is_pos a)"
  proof -
    consider "inf_is_neg a" "sv b \<le> 0" | "inf_is_pos a" "0 \<le> sv b" | "\<not> inf_is_neg a" "\<not> inf_is_pos a"
      using u by linarith
    then show ?thesis
    proof cases
      case 1
      show ?thesis using nd 1(1) unfolding inf_sign(2) [OF assms(1)]
        by eventually_elim (use 1(2) in \<open>auto intro!: quotient_mono(1) simp: inf_at_def mult.commute mult_nonneg_nonpos mult_nonpos_nonneg\<close>)
    next
      case 2
      show ?thesis using nd 2(1) unfolding inf_sign(1) [OF assms(1)]
        by eventually_elim (use 2(2) in \<open>auto intro!: quotient_mono(2) simp: inf_at_def mult.commute\<close>)
    qed (simp add: inf_div_sign [OF assms(1)])
  qed
  obtain h d d' where h: "rational_div (mpq_abs (m_first b)) (mk_q 2) = Inr h"
    "rational_sub (m_first b) h = Inr d" "mpq_ok d" "mpq_val d \<noteq> 0" "real_of_rat (mpq_val d) = fv b - \<bar>fv b\<bar> / 2"
    "rational_add (m_first b) h = Inr d'" "mpq_ok d'" "mpq_val d' \<noteq> 0" "real_of_rat (mpq_val d') = fv b + \<bar>fv b\<bar> / 2"
    using half_abs_yields [OF B(1) assms(3)] by (auto elim!: yieldsE)
  note y = inf_scale_yields(2) [OF assms(1) h(3,4), unfolded h(5)] inf_scale_yields(2) [OF assms(1) h(7,8), unfolded h(9)] inf_scale_yields(2) [OF assms(1) B(1) assms(3)]
  show ?thesis unfolding sup_div_def h(1) h(2) h(6) bind_res.simps
    using sub add keep B y by (auto elim!: yieldsE)
qed

section \<open>Powers\<close>

lemma digit_and_one: "0 = (n :: digit) AND 1 \<longleftrightarrow> even (unat n)"
  using digit_even [of n] by (simp add: and_one_eq eq_commute [of 0])

lemma near0_value:
  assumes "x \<noteq> (0 :: real)"
  shows "\<forall>\<^sub>F e in at_right 0. \<bar>x\<bar> / 2 < \<bar>x + y * e\<bar> \<and> \<bar>x + y * e\<bar> < \<bar>x\<bar> + \<bar>x\<bar> / 2 \<and> sgn (x + y * e) = sgn x"
proof -
  have "\<forall>\<^sub>F e in at_right 0. 0 + \<bar>y\<bar> * e < \<bar>x\<bar> / 2 + 0 * e" using assms by (intro near0_line_less) simp
  with near0_pos show ?thesis
  proof eventually_elim
    case (elim e)
    then have d: "\<bar>y * e\<bar> < \<bar>x\<bar> / 2" by (simp add: abs_mult)
    then show ?case using assms by (cases "0 < x") (auto simp: abs_if sgn_if split: if_splits)
  qed
qed

lemma inf_expt_yields:
  assumes "mpq_ok q" "unat n < 2 ^ 31"
  shows "yields (inf_expt q n) (\<lambda>c. inf_ok c \<and> (\<forall>e. inf_at c e = real_of_rat (mpq_val q) ^ unat n))"
  using mpq_power_yields [OF assms]
  by (auto simp: inf_expt_def inf_null_def inf_ok_def inf_at_def of_rat_power elim!: yieldsE)

lemma inf_const [simp]:
  assumes "int_min \<le> v" "v \<le> int_max"
  shows "inf_ok (inf_null\<lparr>m_first := mk_q v\<rparr>)" "inf_at (inf_null\<lparr>m_first := mk_q v\<rparr>) e = of_int v"
  using assms by (simp_all add: inf_null_def inf_ok_def inf_at_def int_limits)

lemma inf_null_at [simp]: "inf_ok inf_null" "inf_at inf_null e = 0"
  by (simp_all add: inf_null_def inf_ok_def inf_at_def int_limits)

text \<open>Half of the rational part away from and towards zero.\<close>

lemma half_yields:
  assumes "mpq_ok f"
  shows "yields (rational_div f (mk_q 2)) (\<lambda>h.
    yields (rational_sub f h) (\<lambda>q. mpq_ok q \<and> real_of_rat (mpq_val q) = real_of_rat (mpq_val f) - real_of_rat (mpq_val f) / 2)
    \<and> yields (rational_add f h) (\<lambda>q. mpq_ok q \<and> real_of_rat (mpq_val q) = real_of_rat (mpq_val f) + real_of_rat (mpq_val f) / 2))"
proof -
  have two: "mpq_ok (mk_q 2)" "mpq_val (mk_q 2) = 2" by (simp_all add: int_limits)
  obtain h where h: "rational_div f (mk_q 2) = Inr h" "mpq_ok h" "mpq_val h = mpq_val f / 2"
    using rational_yields(4) [OF assms two(1)] two by (auto elim!: yieldsE)
  let ?f = "mpq_val f"
  have r: "real_of_rat (?f - ?f / 2) = real_of_rat ?f - real_of_rat ?f / 2" "real_of_rat (?f + ?f / 2) = real_of_rat ?f + real_of_rat ?f / 2"
    unfolding of_rat_add of_rat_diff of_rat_divide by simp_all
  obtain d d' where d: "rational_sub f h = Inr d" "mpq_ok d" "mpq_val d = ?f - ?f / 2"
    "rational_add f h = Inr d'" "mpq_ok d'" "mpq_val d' = ?f + ?f / 2"
    using rational_yields(1,2) [OF assms h(2)] unfolding h(3) by (blast elim: yieldsE)
  show ?thesis unfolding h(1) d(1) d(4) yields_Inr d(3) d(6) using d(2,5) r by blast
qed

lemma near0_between:
  "0 < (x :: real) \<Longrightarrow> \<forall>\<^sub>F e in at_right 0. x - x / 2 \<le> x + y * e \<and> x + y * e \<le> x + x / 2"
  "x < (0 :: real) \<Longrightarrow> \<forall>\<^sub>F e in at_right 0. x + x / 2 \<le> x + y * e \<and> x + y * e \<le> x - x / 2"
  using near0_value [of x y] by (auto elim!: eventually_mono simp: sgn_if abs_if split: if_splits)

lemma near0_power_shift:
  assumes "y = 0 \<or> 0 < x \<and> 0 < y \<or> x < 0 \<and> y < 0 \<and> even k"
  shows "\<forall>\<^sub>F e in at_right (0 :: real). x ^ k \<le> (x + y * e) ^ k"
  using near0_pos
proof eventually_elim
  case (elim e)
  consider "y = 0" | "0 < x" "0 < y" | "x < 0" "y < 0" "even k" using assms by blast
  then show ?case
  proof cases
    case 2
    then show ?thesis using elim by (intro power_mono) simp_all
  next
    case 3
    have "y * e < 0" using 3 elim by (simp add: mult_neg_pos)
    then show ?thesis using 3 by (intro power_mono_even) simp_all
  qed simp
qed

lemma near0_power_shift_up:
  assumes "y = 0 \<or> 0 < x \<and> y < 0 \<or> x < 0 \<and> 0 < y \<and> even k"
  shows "\<forall>\<^sub>F e in at_right (0 :: real). (x + y * e) ^ k \<le> x ^ k"
proof (cases "x = 0")
  case True
  then show ?thesis using assms by simp
next
  case False
  show ?thesis using near0_pos near0_value [OF False, of y]
  proof eventually_elim
    case (elim e)
    consider "y = 0" | "0 < x" "y < 0" | "x < 0" "0 < y" "even k" using assms by blast
    then show ?case
    proof cases
      case 2
      have "y * e < 0" using 2 elim by (simp add: mult_neg_pos)
      then show ?thesis using 2 elim by (intro power_mono) (auto simp: sgn_if split: if_splits)
    next
      case 3
      have "0 < y * e" using 3 elim by simp
      then show ?thesis using 3 elim by (intro power_mono_even) (auto simp: sgn_if split: if_splits)
    qed simp
  qed
qed

lemma inf_power_yields:
  assumes "inf_ok r" "unat n < 2 ^ 31"
  shows "yields (inf_power r n) (\<lambda>c. inf_ok c \<and> (\<forall>\<^sub>F e in at_right 0. inf_at c e \<le> inf_at r e ^ unat n))"
proof -
  note R = inf_okD [OF assms(1)]
  let ?f = "m_first r" and ?x = "fv r" and ?y = "sv r" and ?k = "unat n"
  let ?A = "mpq_is_zero (m_second r) \<or> mpq_is_pos ?f \<and> mpq_is_pos (m_second r) \<or> mpq_is_neg ?f \<and> mpq_is_neg (m_second r) \<and> 0 = n AND 1"
  obtain h d d' where h: "rational_div ?f (mk_q 2) = Inr h" "rational_sub ?f h = Inr d" "mpq_ok d" "real_of_rat (mpq_val d) = ?x - ?x / 2"
    "rational_add ?f h = Inr d'" "mpq_ok d'" "real_of_rat (mpq_val d') = ?x + ?x / 2"
    using half_yields [OF R(1)] by (auto elim!: yieldsE)
  note y = inf_expt_yields [OF R(1) assms(2)] inf_expt_yields [OF h(3) assms(2), unfolded h(4)] inf_expt_yields [OF h(6) assms(2), unfolded h(7)]
  note D = inf_power_def Let_def h(1) h(2) h(5) bind_res.simps
  consider "n = 1" | "n \<noteq> 1" ?A | "n \<noteq> 1" "\<not> ?A" "even ?k" | "n \<noteq> 1" "\<not> ?A" "odd ?k" "?x = 0" | "n \<noteq> 1" "\<not> ?A" "odd ?k" "0 < ?x" | "n \<noteq> 1" "\<not> ?A" "odd ?k" "?x < 0"
    by linarith
  then show ?thesis
  proof cases
    case 1
    then show ?thesis using assms(1) by (simp add: D)
  next
    case 2
    have "?y = 0 \<or> 0 < ?x \<and> 0 < ?y \<or> ?x < 0 \<and> ?y < 0 \<and> even ?k" using 2(2) R by (simp add: digit_and_one)
    note b = near0_power_shift [OF this]
    show ?thesis unfolding D if_not_P [OF 2(1)] if_P [OF 2(2)] using y(1) b by (auto simp: inf_at_def elim!: yieldsE)
  next
    case 3
    then show ?thesis unfolding D if_not_P [OF 3(1)] if_not_P [OF 3(2)] by (simp add: digit_and_one zero_le_even_power)
  next
    case 4
    have "\<forall>\<^sub>F e in at_right 0. - 1 + 0 * e < 0 + ?y * e" by (rule near0_line_less) simp
    then have "\<forall>\<^sub>F e in at_right 0. - 1 \<le> inf_at r e ^ ?k"
    proof eventually_elim
      case (elim e)
      then have "(- 1) ^ ?k \<le> inf_at r e ^ ?k" using 4(3,4) by (intro power_mono_odd) (simp_all add: inf_at_def)
      then show ?case using 4(3) by simp
    qed
    then show ?thesis unfolding D if_not_P [OF 4(1)] if_not_P [OF 4(2)] using 4(3,4) R by (simp add: digit_and_one int_limits)
  next
    case 5
    have "\<forall>\<^sub>F e in at_right 0. (?x - ?x / 2) ^ ?k \<le> inf_at r e ^ ?k" unfolding inf_at_def
      using near0_between(1) [OF 5(4), of ?y] by eventually_elim (use 5(3) in \<open>simp add: power_mono_odd\<close>)
    then show ?thesis unfolding D if_not_P [OF 5(1)] if_not_P [OF 5(2)] using 5(3,4) R y(2) by (auto simp: digit_and_one elim!: yieldsE)
  next
    case 6
    have "\<forall>\<^sub>F e in at_right 0. (?x + ?x / 2) ^ ?k \<le> inf_at r e ^ ?k" unfolding inf_at_def
      using near0_between(2) [OF 6(4), of ?y] by eventually_elim (use 6(3) in \<open>simp add: power_mono_odd\<close>)
    then show ?thesis unfolding D if_not_P [OF 6(1)] if_not_P [OF 6(2)] using 6(3,4) R y(3) by (auto simp: digit_and_one elim!: yieldsE)
  qed
qed

lemma sup_power_yields:
  assumes "inf_ok r" "unat n < 2 ^ 31"
  shows "yields (sup_power r n) (\<lambda>c. inf_ok c \<and> (\<forall>\<^sub>F e in at_right 0. inf_at r e ^ unat n \<le> inf_at c e))"
proof -
  note R = inf_okD [OF assms(1)]
  let ?f = "m_first r" and ?x = "fv r" and ?y = "sv r" and ?k = "unat n"
  let ?A = "mpq_is_zero (m_second r) \<or> mpq_is_pos ?f \<and> mpq_is_neg (m_second r) \<or> mpq_is_neg ?f \<and> mpq_is_pos (m_second r) \<and> 0 = n AND 1"
  obtain h d d' where h: "rational_div ?f (mk_q 2) = Inr h" "rational_sub ?f h = Inr d" "mpq_ok d" "real_of_rat (mpq_val d) = ?x - ?x / 2"
    "rational_add ?f h = Inr d'" "mpq_ok d'" "real_of_rat (mpq_val d') = ?x + ?x / 2"
    using half_yields [OF R(1)] by (auto elim!: yieldsE)
  note y = inf_expt_yields [OF R(1) assms(2)] inf_expt_yields [OF h(3) assms(2), unfolded h(4)] inf_expt_yields [OF h(6) assms(2), unfolded h(7)]
  note D = sup_power_def Let_def h(1) h(2) h(5) bind_res.simps
  consider "n = 1" | "n \<noteq> 1" ?A | "n \<noteq> 1" "\<not> ?A" "?x = 0 \<or> n = 0" | "n \<noteq> 1" "\<not> ?A" "n \<noteq> 0" "0 < ?x"
    | "n \<noteq> 1" "\<not> ?A" "n \<noteq> 0" "?x < 0" "even ?k" | "n \<noteq> 1" "\<not> ?A" "n \<noteq> 0" "?x < 0" "odd ?k"
    by linarith
  then show ?thesis
  proof cases
    case 1
    then show ?thesis using assms(1) by (simp add: D)
  next
    case 2
    have "?y = 0 \<or> 0 < ?x \<and> ?y < 0 \<or> ?x < 0 \<and> 0 < ?y \<and> even ?k" using 2(2) R by (simp add: digit_and_one)
    note b = near0_power_shift_up [OF this]
    show ?thesis unfolding D if_not_P [OF 2(1)] if_P [OF 2(2)] using y(1) b by (auto simp: inf_at_def elim!: yieldsE)
  next
    case 3
    have "\<forall>\<^sub>F e in at_right 0. inf_at r e ^ ?k \<le> 1"
    proof (cases "n = 0")
      case False
      then have x: "?x = 0" using 3(3) by simp
      have "\<forall>\<^sub>F e in at_right 0. 0 + \<bar>?y\<bar> * e < 1 + 0 * e" by (rule near0_line_less) simp
      with near0_pos show ?thesis
      proof eventually_elim
        case (elim e)
        then have "\<bar>?y * e\<bar> \<le> 1" by (simp add: abs_mult)
        then have "\<bar>(?y * e) ^ ?k\<bar> \<le> 1" unfolding power_abs by (intro power_le_one) simp_all
        then show ?case unfolding inf_at_def x by simp
      qed
    qed simp
    moreover have "mpq_is_zero ?f \<or> n = 0" using 3(3) R by simp
    ultimately show ?thesis unfolding D if_not_P [OF 3(1)] if_not_P [OF 3(2)] by (simp add: int_limits)
  next
    case 4
    have "\<forall>\<^sub>F e in at_right 0. inf_at r e ^ ?k \<le> (?x + ?x / 2) ^ ?k" unfolding inf_at_def
      using near0_between(1) [OF 4(4), of ?y] by eventually_elim (use 4(4) in \<open>simp add: power_mono\<close>)
    then show ?thesis unfolding D if_not_P [OF 4(1)] if_not_P [OF 4(2)] using 4(3,4) R y(3) by (auto simp: digit_and_one elim!: yieldsE)
  next
    case 5
    have "\<forall>\<^sub>F e in at_right 0. inf_at r e ^ ?k \<le> (?x + ?x / 2) ^ ?k" unfolding inf_at_def
      using near0_between(2) [OF 5(4), of ?y] by eventually_elim (rule power_mono_even [OF 5(5)], use 5(4) in simp)
    then show ?thesis unfolding D if_not_P [OF 5(1)] if_not_P [OF 5(2)] using 5(3,4,5) R y(3) by (auto simp: digit_and_one elim!: yieldsE)
  next
    case 6
    have "\<forall>\<^sub>F e in at_right 0. inf_at r e ^ ?k \<le> (?x - ?x / 2) ^ ?k" unfolding inf_at_def
      using near0_between(2) [OF 6(4), of ?y] by eventually_elim (use 6(5) in \<open>simp add: power_mono_odd\<close>)
    then show ?thesis unfolding D if_not_P [OF 6(1)] if_not_P [OF 6(2)] using 6(3,4,5) R y(2) by (auto simp: digit_and_one elim!: yieldsE)
  qed
qed

section \<open>Roots\<close>

lemma inf_root_bound:
  assumes "inf_ok r" "inf_is_nonneg r" "0 < unat n"
  shows "\<forall>\<^sub>F e in at_right 0. inf_at (inf_root r n) e ^ unat n \<le> inf_at r e"
proof -
  have "\<not> inf_is_neg r" using assms(2) inf_sign(4) [OF assms(1)] by simp
  then have "inf_is_zero r \<or> inf_is_pos r" using inf_okD [OF assms(1)] by (auto simp: inf_is_neg_def inf_is_zero_def inf_is_pos_def)
  then have "\<forall>\<^sub>F e in at_right 0. 0 \<le> inf_at r e" using inf_sign(1,3) [OF assms(1)] by (auto elim: eventually_mono)
  then show ?thesis using assms(3) by (simp add: inf_root_def power_0_left)
qed

text \<open>\<open>sup_root\<close> answers the number itself, an upper bound of its root when it is at least one, and smaller than the root below one.\<close>

lemma sup_root_bound:
  assumes "inf_ok r" "1 \<le> fv r" "0 \<le> sv r" "0 < unat n"
  shows "\<forall>\<^sub>F e in at_right 0. inf_at r e \<le> inf_at (sup_root r n) e ^ unat n"
  using near0_pos
proof eventually_elim
  case (elim e)
  then have "1 \<le> inf_at r e" using assms(2,3) by (simp add: inf_at_def add_increasing2)
  then show ?case using assms(4) self_le_power [of "inf_at r e" "unat n"] by (simp add: sup_root_def)
qed

lemma sup_root_too_small:
  assumes "inf_ok r" "0 < fv r" "fv r < 1" "1 < unat n"
  shows "\<forall>\<^sub>F e in at_right 0. inf_at (sup_root r n) e ^ unat n < inf_at r e"
proof -
  have "\<forall>\<^sub>F e in at_right 0. 0 + 0 * e < fv r + sv r * e" "\<forall>\<^sub>F e in at_right 0. fv r + sv r * e < 1 + 0 * e"
    using assms(2,3) by (intro near0_line_less; simp)+
  then show ?thesis
  proof eventually_elim
    case (elim e)
    then show ?case using power_strict_decreasing [of 1 "unat n" "inf_at r e"] assms(4) by (simp add: sup_root_def inf_at_def)
  qed
qed

end
