(* ===== verification/Trail.thy ===== *)
theory Trail
  imports Numeral_Prelude
begin

text \<open>
  Backtracking by a trail (\<open>util/trail.h\<close>): every change of a data structure pushes an object whose \<open>undo\<close>
  reverts it; \<open>push_scope\<close> marks a position of the trail and \<open>pop_scope\<close> undoes everything after it. The
  trail is generic in the objects, whose \<open>undo\<close> is an argument. Vectors are lists, with undefined
  behaviour outside of the bounds.
\<close>

section \<open>Vectors\<close>

definition vec_get :: "'a list \<Rightarrow> nat \<Rightarrow> 'a res" where
  "vec_get v i = (if i < length v then Inr (v ! i) else Inl Undefined_behaviour)"

definition vec_set :: "'a list \<Rightarrow> nat \<Rightarrow> 'a \<Rightarrow> 'a list res" where
  "vec_set v i x = (if i < length v then Inr (v[i := x]) else Inl Undefined_behaviour)"

definition vec_pop :: "'a list \<Rightarrow> 'a list res" where
  "vec_pop v = (if v = [] then Inl Undefined_behaviour else Inr (butlast v))"

definition vec_shrink :: "'a list \<Rightarrow> nat \<Rightarrow> 'a list res" where
  "vec_shrink v n = (if n \<le> length v then Inr (take n v) else Inl Undefined_behaviour)"

lemma vec_in_bounds [simp]:
  "i < length v \<Longrightarrow> vec_get v i = Inr (v ! i)"
  "i < length v \<Longrightarrow> vec_set v i x = Inr (v[i := x])"
  "n \<le> length v \<Longrightarrow> vec_shrink v n = Inr (take n v)"
  "vec_pop (v @ [x]) = Inr v"
  by (simp_all add: vec_get_def vec_set_def vec_shrink_def vec_pop_def)

section \<open>The trail stack\<close>

record 'e trail_stack =
  ts_trail :: "'e list"
  ts_scopes :: "nat list"

definition new_trail_stack :: "'e trail_stack" where "new_trail_stack = \<lparr>ts_trail = [], ts_scopes = []\<rparr>"

fun undo_all :: "('e \<Rightarrow> 'c \<Rightarrow> 'c res) \<Rightarrow> 'e list \<Rightarrow> 'c \<Rightarrow> 'c res" where
  "undo_all undo [] c = Inr c"
| "undo_all undo (e # es) c = bind_res (undo e c) (undo_all undo es)"

definition undo_trail_stack :: "('e \<Rightarrow> 'c \<Rightarrow> 'c res) \<Rightarrow> 'e list \<Rightarrow> nat \<Rightarrow> 'c \<Rightarrow> ('e list \<times> 'c) res" where
  "undo_trail_stack undo s old_size c =
     bind_res (undo_all undo (rev (drop old_size s)) c) (\<lambda>c.
     bind_res (vec_shrink s old_size) (\<lambda>s. Inr (s, c)))"

definition ts_push :: "'e \<Rightarrow> 'e trail_stack \<Rightarrow> 'e trail_stack" where
  "ts_push e t = t\<lparr>ts_trail := ts_trail t @ [e]\<rparr>"

definition get_num_scopes :: "'e trail_stack \<Rightarrow> nat" where "get_num_scopes t = length (ts_scopes t)"

definition ts_push_scope :: "'e trail_stack \<Rightarrow> 'e trail_stack" where
  "ts_push_scope t = t\<lparr>ts_scopes := ts_scopes t @ [length (ts_trail t)]\<rparr>"

definition ts_pop_scope :: "('e \<Rightarrow> 'c \<Rightarrow> 'c res) \<Rightarrow> nat \<Rightarrow> 'e trail_stack \<Rightarrow> 'c \<Rightarrow> ('e trail_stack \<times> 'c) res" where
  "ts_pop_scope undo num_scopes t c =
     (if num_scopes = 0 then Inr (t, c)
      else let lvl = length (ts_scopes t)
           in if lvl < num_scopes then Inl Undefined_behaviour
              else let new_lvl = lvl - num_scopes; old_size = ts_scopes t ! new_lvl
                   in bind_res (undo_trail_stack undo (ts_trail t) old_size c) (\<lambda>(s, c).
                      Inr (t\<lparr>ts_trail := s, ts_scopes := take new_lvl (ts_scopes t)\<rparr>, c)))"

definition ts_reset :: "('e \<Rightarrow> 'c \<Rightarrow> 'c res) \<Rightarrow> 'e trail_stack \<Rightarrow> 'c \<Rightarrow> ('e trail_stack \<times> 'c) res" where
  "ts_reset undo t c =
     bind_res (ts_pop_scope undo (length (ts_scopes t)) t c) (\<lambda>(t, c).
     bind_res (undo_trail_stack undo (ts_trail t) 0 c) (\<lambda>(s, c). Inr (t\<lparr>ts_trail := s\<rparr>, c)))"

subsection \<open>Trail objects of vectors\<close>

datatype 'a vec_trail =
    restore_size_trail nat
  | vector_value_trail nat 'a
  | push_back_vector
  | pop_back_trail 'a

fun vec_undo :: "'a vec_trail \<Rightarrow> 'a list \<Rightarrow> 'a list res" where
  "vec_undo (restore_size_trail old_size) v = vec_shrink v old_size"
| "vec_undo (vector_value_trail idx old_value) v = vec_set v idx old_value"
| "vec_undo push_back_vector v = vec_pop v"
| "vec_undo (pop_back_trail x) v = Inr (v @ [x])"

section \<open>Undoing restores\<close>

text \<open>\<open>history step c es c'\<close>: the changes recorded as \<open>es\<close> lead from \<open>c\<close> to \<open>c'\<close>.\<close>

fun history :: "('c \<Rightarrow> 'e \<Rightarrow> 'c \<Rightarrow> bool) \<Rightarrow> 'c \<Rightarrow> 'e list \<Rightarrow> 'c \<Rightarrow> bool" where
  "history step c [] c' \<longleftrightarrow> c' = c"
| "history step c (e # es) c' \<longleftrightarrow> (\<exists>d. step c e d \<and> history step d es c')"

lemma history_append: "history step c (es @ fs) c' \<longleftrightarrow> (\<exists>d. history step c es d \<and> history step d fs c')"
  by (induction es arbitrary: c) auto

lemma undo_all_append: "undo_all undo (es @ fs) c = bind_res (undo_all undo es c) (undo_all undo fs)"
proof (induction es arbitrary: c)
  case (Cons e es)
  then show ?case by (cases "undo e c") simp_all
qed simp

text \<open>The states at the scopes: the trail after the mark of a scope leads from the state that was current
  when it was opened to the present one.\<close>

definition scoped :: "('c \<Rightarrow> 'e \<Rightarrow> 'c \<Rightarrow> bool) \<Rightarrow> 'e trail_stack \<Rightarrow> 'c list \<Rightarrow> 'c \<Rightarrow> bool" where
  "scoped step t cs c \<longleftrightarrow> length cs = length (ts_scopes t) \<and> sorted (ts_scopes t)
     \<and> (\<forall>i < length cs. ts_scopes t ! i \<le> length (ts_trail t) \<and> history step (cs ! i) (drop (ts_scopes t ! i) (ts_trail t)) c)"

lemma scoped_new: "scoped step new_trail_stack [] c"
  by (simp add: scoped_def new_trail_stack_def)

lemma scoped_change: "scoped step t cs c \<Longrightarrow> step c e c' \<Longrightarrow> scoped step (ts_push e t) cs c'"
  by (auto simp: scoped_def ts_push_def history_append)

lemma scoped_push: "scoped step t cs c \<Longrightarrow> scoped step (ts_push_scope t) (cs @ [c]) c"
  by (auto simp: scoped_def ts_push_scope_def nth_append sorted_append less_Suc_eq in_set_conv_nth)

text \<open>The contract of trail objects: \<open>undo\<close> reverts the change it was pushed for.\<close>

locale trailed =
  fixes undo :: "'e \<Rightarrow> 'c \<Rightarrow> 'c res" and step :: "'c \<Rightarrow> 'e \<Rightarrow> 'c \<Rightarrow> bool"
  assumes undo_step: "step c e c' \<Longrightarrow> undo e c' = Inr c"
begin

lemma undo_history: "history step c es c' \<Longrightarrow> undo_all undo (rev es) c' = Inr c"
  by (induction es arbitrary: c) (auto simp: undo_all_append undo_step)

lemma undo_trail_stack_history:
  assumes "n \<le> length es" "history step c (drop n es) c'"
  shows "undo_trail_stack undo es n c' = Inr (take n es, c)"
  using undo_history [OF assms(2)] assms(1) by (simp add: undo_trail_stack_def)

lemma scoped_pop:
  assumes s: "scoped step t cs c" and k: "0 < k" "k \<le> length cs"
  shows "\<exists>u. ts_pop_scope undo k t c = Inr (u, cs ! (length cs - k)) \<and> scoped step u (take (length cs - k) cs) (cs ! (length cs - k))"
proof -
  let ?n = "length cs - k"
  let ?z = "ts_scopes t ! ?n"
  let ?u = "t\<lparr>ts_trail := take ?z (ts_trail t), ts_scopes := take ?n (ts_scopes t)\<rparr>"
  have n: "?n < length cs" using k by simp
  have l: "length cs = length (ts_scopes t)" "sorted (ts_scopes t)"
    and h: "\<And>i. i < length cs \<Longrightarrow> ts_scopes t ! i \<le> length (ts_trail t)"
      "\<And>i. i < length cs \<Longrightarrow> history step (cs ! i) (drop (ts_scopes t ! i) (ts_trail t)) c"
    using s by (simp_all add: scoped_def)
  have "ts_pop_scope undo k t c = Inr (?u, cs ! ?n)"
    using undo_trail_stack_history [OF h [OF n]] k l(1) by (simp add: ts_pop_scope_def Let_def)
  moreover have "history step (cs ! i) (drop (ts_scopes t ! i) (take ?z (ts_trail t))) (cs ! ?n)" if i: "i < ?n" for i
  proof -
    let ?y = "ts_scopes t ! i"
    have yz: "?y \<le> ?z" using sorted_nth_mono [OF l(2), of i ?n] i n l(1) by simp
    then have "drop ?y (ts_trail t) = drop ?y (take ?z (ts_trail t)) @ drop ?z (ts_trail t)"
      using h(1) [OF n] by (metis append_take_drop_id drop_append diff_is_0_eq' drop_0 length_take min.absorb2)
    then obtain d where d: "history step (cs ! i) (drop ?y (take ?z (ts_trail t))) d" "history step d (drop ?z (ts_trail t)) c"
      using h(2) [of i] i n by (auto simp: history_append)
    have "d = cs ! ?n" using undo_history [OF d(2)] undo_history [OF h(2) [OF n]] by simp
    then show ?thesis using d(1) by simp
  qed
  moreover have "ts_scopes t ! i \<le> ?z" if "i < ?n" for i using sorted_nth_mono [OF l(2), of i ?n] that n l(1) by simp
  ultimately have "scoped step ?u (take ?n cs) (cs ! ?n)"
    using l h(1) n by (auto simp: scoped_def sorted_wrt_take)
  with \<open>ts_pop_scope undo k t c = Inr (?u, cs ! ?n)\<close> show ?thesis by blast
qed

end

text \<open>The changes of a vector that its trail objects record.\<close>

inductive vec_step :: "'a list \<Rightarrow> 'a vec_trail \<Rightarrow> 'a list \<Rightarrow> bool" where
  "i < length v \<Longrightarrow> vec_step v (vector_value_trail i (v ! i)) (v[i := x])"
| "vec_step v push_back_vector (v @ [x])"
| "vec_step v (restore_size_trail (length v)) (v @ w)"
| "v \<noteq> [] \<Longrightarrow> vec_step v (pop_back_trail (last v)) (butlast v)"

interpretation vec: trailed vec_undo vec_step
proof
  show "vec_step c e c' \<Longrightarrow> vec_undo e c' = Inr c" for c :: "'a list" and e c'
    by (induction rule: vec_step.induct) simp_all
qed

end
