(* ===== verification/Union_Find.thy ===== *)
theory Union_Find
  imports Trail
begin

text \<open>
  Disjoint sets with backtracking (\<open>util/union_find.h\<close>): parents in \<open>m_find\<close>, sizes of the classes in
  \<open>m_size\<close> at the roots, and the elements of each class in a ring through \<open>m_next\<close>, so that two classes are
  joined, and separated again, by exchanging two links. There is no path compression: undoing a merge would
  not find it. \<open>union_find\<close> is at \<open>union_find_default_ctx\<close>, whose handlers are empty.
\<close>

section \<open>Definitions\<close>

text \<open>The three vectors, which \<open>union_find\<close> and \<open>basic_union_find\<close> have in common.\<close>

record uf_core =
  m_find :: "nat list"
  m_size :: "nat list"
  m_next :: "nat list"

datatype uf_trail = mk_var_trail | merge_trail nat

record union_find =
  m_core :: uf_core
  m_trail_stack :: "uf_trail trail_stack"

definition new_core :: uf_core where "new_core = \<lparr>m_find = [], m_size = [], m_next = []\<rparr>"

definition new_union_find :: union_find where
  "new_union_find = \<lparr>m_core = new_core, m_trail_stack = new_trail_stack\<rparr>"

definition get_num_vars :: "uf_core \<Rightarrow> nat" where "get_num_vars c = length (m_find c)"

text \<open>The loop of \<open>find\<close>; the flag says that the last parent was the node itself.\<close>

definition find_step :: "nat list \<Rightarrow> nat \<times> bool \<Rightarrow> (nat \<times> bool) res" where
  "find_step f = (\<lambda>(v, _). bind_res (vec_get f v) (\<lambda>new_v. if new_v = v then Inr (v, True) else Inr (new_v, False)))"

definition uf_find :: "uf_core \<Rightarrow> nat \<Rightarrow> nat res" where
  "uf_find c v = bind_res (while_res (\<lambda>(_, found). \<not> found) (find_step (m_find c)) (v, False)) (\<lambda>(v, _). Inr v)"

definition uf_next :: "uf_core \<Rightarrow> nat \<Rightarrow> nat res" where "uf_next c v = vec_get (m_next c) v"
definition uf_size :: "uf_core \<Rightarrow> nat \<Rightarrow> nat res" where
  "uf_size c v = bind_res (uf_find c v) (\<lambda>r. vec_get (m_size c) r)"
definition uf_is_root :: "uf_core \<Rightarrow> nat \<Rightarrow> bool res" where
  "uf_is_root c v = bind_res (vec_get (m_find c) v) (\<lambda>w. Inr (w = v))"

definition swap_next :: "nat \<Rightarrow> nat \<Rightarrow> nat list \<Rightarrow> nat list res" where
  "swap_next r1 r2 n =
     bind_res (vec_get n r1) (\<lambda>n1. bind_res (vec_get n r2) (\<lambda>n2.
     bind_res (vec_set n r1 n2) (\<lambda>n. vec_set n r2 n1)))"

text \<open>\<open>m_find[r1] = r2; m_size[r2] += m_size[r1]; std::swap(m_next[r1], m_next[r2])\<close>\<close>

definition uf_link :: "nat \<Rightarrow> nat \<Rightarrow> uf_core \<Rightarrow> uf_core res" where
  "uf_link r1 r2 c =
     bind_res (vec_set (m_find c) r1 r2) (\<lambda>f.
     bind_res (vec_get (m_size c) r2) (\<lambda>s2. bind_res (vec_get (m_size c) r1) (\<lambda>s1.
     bind_res (vec_set (m_size c) r2 (s2 + s1)) (\<lambda>s.
     bind_res (swap_next r1 r2 (m_next c)) (\<lambda>n.
     Inr (c\<lparr>m_find := f, m_size := s, m_next := n\<rparr>))))))"

definition uf_unmerge :: "nat \<Rightarrow> uf_core \<Rightarrow> uf_core res" where
  "uf_unmerge r1 c =
     bind_res (vec_get (m_find c) r1) (\<lambda>r2.
     bind_res (vec_get (m_size c) r2) (\<lambda>s2. bind_res (vec_get (m_size c) r1) (\<lambda>s1.
     bind_res (vec_set (m_size c) r2 (s2 - s1)) (\<lambda>s.
     bind_res (vec_set (m_find c) r1 r1) (\<lambda>f.
     bind_res (swap_next r1 r2 (m_next c)) (\<lambda>n.
     Inr (c\<lparr>m_find := f, m_size := s, m_next := n\<rparr>)))))))"

fun uf_undo :: "uf_trail \<Rightarrow> uf_core \<Rightarrow> uf_core res" where
  "uf_undo mk_var_trail c =
     bind_res (vec_pop (m_find c)) (\<lambda>f. bind_res (vec_pop (m_size c)) (\<lambda>s. bind_res (vec_pop (m_next c)) (\<lambda>n.
     Inr (c\<lparr>m_find := f, m_size := s, m_next := n\<rparr>))))"
| "uf_undo (merge_trail r1) c = uf_unmerge r1 c"

definition core_mk_var :: "uf_core \<Rightarrow> uf_core" where
  "core_mk_var c =
     (let r = length (m_find c)
      in c\<lparr>m_find := m_find c @ [r], m_size := m_size c @ [1], m_next := m_next c @ [r]\<rparr>)"

definition uf_mk_var :: "union_find \<Rightarrow> nat \<times> union_find" where
  "uf_mk_var u =
     (length (m_find (m_core u)),
      u\<lparr>m_core := core_mk_var (m_core u), m_trail_stack := ts_push mk_var_trail (m_trail_stack u)\<rparr>)"

text \<open>The roots in the order in which they are linked: the smaller class below the larger one.\<close>

definition uf_merge :: "nat \<Rightarrow> nat \<Rightarrow> union_find \<Rightarrow> union_find res" where
  "uf_merge v1 v2 u =
     bind_res (uf_find (m_core u) v1) (\<lambda>r1. bind_res (uf_find (m_core u) v2) (\<lambda>r2.
     if r1 = r2 then Inr u
     else bind_res (vec_get (m_size (m_core u)) r1) (\<lambda>s1. bind_res (vec_get (m_size (m_core u)) r2) (\<lambda>s2.
       let (r1, r2) = (if s1 > s2 then (r2, r1) else (r1, r2))
       in bind_res (uf_link r1 r2 (m_core u)) (\<lambda>c.
          Inr (u\<lparr>m_core := c, m_trail_stack := ts_push (merge_trail r1) (m_trail_stack u)\<rparr>))))))"

definition uf_set_root :: "nat \<Rightarrow> nat \<Rightarrow> uf_core \<Rightarrow> uf_core res" where
  "uf_set_root v rt c =
     bind_res (vec_set (m_find c) v rt) (\<lambda>f.
     bind_res (vec_get (m_size c) rt) (\<lambda>s2. bind_res (vec_get (m_size c) v) (\<lambda>s1.
     bind_res (vec_set (m_size c) rt (s2 + s1)) (\<lambda>s.
     bind_res (swap_next rt v (m_next c)) (\<lambda>n.
     Inr (c\<lparr>m_find := f, m_size := s, m_next := n\<rparr>))))))"

definition dissolve_body :: "nat \<Rightarrow> uf_core \<Rightarrow> (nat \<times> uf_core) res" where
  "dissolve_body v c =
     bind_res (uf_next c v) (\<lambda>w.
     bind_res (vec_set (m_size c) v 1) (\<lambda>s. bind_res (vec_set (m_find c) v v) (\<lambda>f.
     bind_res (vec_set (m_next c) v v) (\<lambda>n.
     Inr (w, c\<lparr>m_find := f, m_size := s, m_next := n\<rparr>)))))"

definition uf_dissolve :: "nat \<Rightarrow> uf_core \<Rightarrow> uf_core res" where
  "uf_dissolve v c =
     bind_res (dissolve_body v c) (\<lambda>wc.
     bind_res (while_res (\<lambda>(w, _). w \<noteq> v) (\<lambda>(_, c). dissolve_body v c) wc) (\<lambda>(_, c). Inr c))"

definition uf_push_scope :: "union_find \<Rightarrow> union_find" where
  "uf_push_scope u = u\<lparr>m_trail_stack := ts_push_scope (m_trail_stack u)\<rparr>"

definition uf_pop_scope :: "nat \<Rightarrow> union_find \<Rightarrow> union_find res" where
  "uf_pop_scope k u =
     bind_res (ts_pop_scope uf_undo k (m_trail_stack u) (m_core u)) (\<lambda>(t, c). Inr \<lparr>m_core = c, m_trail_stack = t\<rparr>)"

text \<open>The walk of \<open>check_invariant\<close> along the ring of a root; it returns the number of elements, and fails when
  one of them has another root.\<close>

definition ring_step :: "uf_core \<Rightarrow> nat \<Rightarrow> nat \<times> nat \<Rightarrow> (nat \<times> nat) res" where
  "ring_step c v = (\<lambda>(curr, sz).
     bind_res (uf_find c curr) (\<lambda>r.
     if r \<noteq> v then Inl Verify_failed
     else bind_res (uf_next c curr) (\<lambda>w. Inr (w, sz + 1))))"

definition check_ring :: "uf_core \<Rightarrow> nat \<Rightarrow> bool res" where
  "check_ring c v =
     bind_res (uf_is_root c v) (\<lambda>is_root.
     if is_root then
       bind_res (ring_step c v (v, 0)) (\<lambda>st.
       bind_res (while_res (\<lambda>(curr, _). curr \<noteq> v) (ring_step c v) st) (\<lambda>(_, sz).
       bind_res (vec_get (m_size c) v) (\<lambda>s. if s = sz then Inr True else Inl Verify_failed)))
     else Inr True)"

fun check_rings :: "uf_core \<Rightarrow> nat list \<Rightarrow> bool res" where
  "check_rings c [] = Inr True"
| "check_rings c (v # vs) = bind_res (check_ring c v) (\<lambda>_. check_rings c vs)"

definition uf_check_invariant :: "uf_core \<Rightarrow> bool res" where
  "uf_check_invariant c = check_rings c [0..<length (m_find c)]"

subsection \<open>Without backtracking\<close>

text \<open>\<open>basic_union_find\<close> adds variables on demand.\<close>

definition basic_find :: "uf_core \<Rightarrow> nat \<Rightarrow> nat res" where
  "basic_find c v = (if length (m_find c) \<le> v then Inr v else uf_find c v)"

definition basic_next :: "uf_core \<Rightarrow> nat \<Rightarrow> nat res" where
  "basic_next c v = (if length (m_find c) \<le> v then Inr v else uf_next c v)"

definition basic_is_root :: "uf_core \<Rightarrow> nat \<Rightarrow> bool res" where
  "basic_is_root c v = (if length (m_find c) \<le> v then Inr True else uf_is_root c v)"

definition ensure_size :: "nat \<Rightarrow> uf_core \<Rightarrow> uf_core res" where
  "ensure_size v c = while_res (\<lambda>c. length (m_find c) \<le> v) (\<lambda>c. Inr (core_mk_var c)) c"

definition basic_merge :: "nat \<Rightarrow> nat \<Rightarrow> uf_core \<Rightarrow> uf_core res" where
  "basic_merge v1 v2 c =
     bind_res (basic_find c v1) (\<lambda>r1. bind_res (basic_find c v2) (\<lambda>r2.
     if r1 = r2 then Inr c
     else bind_res (ensure_size v1 c) (\<lambda>c. bind_res (ensure_size v2 c) (\<lambda>c.
       bind_res (vec_get (m_size c) r1) (\<lambda>s1. bind_res (vec_get (m_size c) r2) (\<lambda>s2.
       let (r1, r2) = (if s1 > s2 then (r2, r1) else (r1, r2))
       in uf_link r1 r2 c))))))"

definition basic_reset :: "uf_core \<Rightarrow> uf_core" where
  "basic_reset c = c\<lparr>m_find := [], m_next := [], m_size := []\<rparr>"

section \<open>Paths to the roots\<close>

text \<open>\<open>root_path f k v r\<close>: from \<open>v\<close> the root \<open>r\<close> is reached in \<open>k\<close> steps.\<close>

inductive root_path :: "nat list \<Rightarrow> nat \<Rightarrow> nat \<Rightarrow> nat \<Rightarrow> bool" for f where
  root: "r < length f \<Longrightarrow> f ! r = r \<Longrightarrow> root_path f 0 r r"
| step: "v < length f \<Longrightarrow> f ! v \<noteq> v \<Longrightarrow> root_path f k (f ! v) r \<Longrightarrow> root_path f (Suc k) v r"

inductive_cases root_path_0: "root_path f 0 v r"
inductive_cases root_path_Suc: "root_path f (Suc k) v r"

lemma root_path_at_root: "root_path f k v r \<Longrightarrow> f ! v = v \<Longrightarrow> k = 0 \<and> r = v"
  by (auto elim: root_path.cases)

lemma root_path_det: "root_path f k v r \<Longrightarrow> root_path f l v s \<Longrightarrow> l = k \<and> s = r"
proof (induction arbitrary: l s rule: root_path.induct)
  case (root r)
  then show ?case using root_path_at_root by metis
next
  case (step v k r)
  show ?case using step.prems step.hyps(2) step.IH by (cases rule: root_path.cases) auto
qed

lemma root_path_bounds: "root_path f k v r \<Longrightarrow> v < length f \<and> r < length f \<and> f ! r = r"
  by (induction rule: root_path.induct) auto

definition rooted :: "nat list \<Rightarrow> nat \<Rightarrow> nat \<Rightarrow> bool" where "rooted f v r \<longleftrightarrow> (\<exists>k. root_path f k v r)"

lemma rooted_det: "rooted f v r \<Longrightarrow> rooted f v s \<Longrightarrow> s = r"
  using root_path_det by (auto simp: rooted_def)

lemma rooted_bounds: "rooted f v r \<Longrightarrow> v < length f \<and> r < length f \<and> f ! r = r"
  using root_path_bounds by (auto simp: rooted_def)

lemma rooted_root: "r < length f \<Longrightarrow> f ! r = r \<Longrightarrow> rooted f r r"
  by (auto simp: rooted_def intro: root_path.root)

lemma find_loop: "root_path f k v r \<Longrightarrow> while_res (\<lambda>(_, found). \<not> found) (find_step f) (v, False) = Inr (r, True)"
proof (induction rule: root_path.induct)
  case (root r)
  then show ?case by (simp add: while_res_unfold [of _ _ "(r, False)"] while_res_unfold [of _ _ "(r, True)"] find_step_def)
next
  case (step v k r)
  then show ?case by (simp add: while_res_unfold [of _ _ "(v, False)"] find_step_def)
qed

lemma uf_find_rooted: "rooted (m_find c) v r \<Longrightarrow> uf_find c v = Inr r"
  by (auto simp: rooted_def uf_find_def find_loop)

subsection \<open>Linking and adding roots\<close>

lemma root_path_link:
  assumes "root_path f k v r" "r2 < length f" "f ! r2 = r2" "r1 \<noteq> r2" "f ! r1 = r1"
  shows "root_path (f[r1 := r2]) (if r = r1 then Suc k else k) v (if r = r1 then r2 else r)"
  using assms
proof (induction rule: root_path.induct)
  case (root r)
  have r2: "root_path (f[r1 := r2]) 0 r2 r2" using root by (intro root_path.root) simp_all
  then show ?case using root by (auto intro: root_path.root root_path.step)
next
  case (step v k r)
  have "v \<noteq> r1" using step.hyps(2) step.prems(4) by blast
  then have "(f[r1 := r2]) ! v = f ! v" by simp
  then show ?case using step by (auto intro: root_path.step)
qed

lemma root_path_snoc: "root_path f k v r \<Longrightarrow> root_path (f @ [length f]) k v r"
proof (induction rule: root_path.induct)
  case (root r)
  then show ?case by (intro root_path.root) (simp_all add: nth_append)
next
  case (step v k r)
  then show ?case by (intro root_path.step) (simp_all add: nth_append)
qed

lemma rooted_link:
  assumes "\<And>v. v < length f \<Longrightarrow> \<exists>r. rooted f v r" "r2 < length f" "f ! r2 = r2" "r1 \<noteq> r2" "f ! r1 = r1"
  shows "rooted (f[r1 := r2]) v r \<longleftrightarrow> (\<exists>s. rooted f v s \<and> r = (if s = r1 then r2 else s))"
proof -
  have link: "rooted (f[r1 := r2]) v (if s = r1 then r2 else s)" if s: "rooted f v s" for v s
  proof -
    obtain k where "root_path f k v s" using s by (auto simp: rooted_def)
    then show ?thesis unfolding rooted_def by (intro exI) (rule root_path_link [OF _ assms(2-5)])
  qed
  show ?thesis
proof
  assume "\<exists>s. rooted f v s \<and> r = (if s = r1 then r2 else s)"
  then show "rooted (f[r1 := r2]) v r" using link by blast
next
  assume r: "rooted (f[r1 := r2]) v r"
  then obtain s where s: "rooted f v s" using assms(1) [of v] rooted_bounds [OF r] by auto
  then have "rooted (f[r1 := r2]) v (if s = r1 then r2 else s)" by (rule link)
  then have "r = (if s = r1 then r2 else s)" using rooted_det r by blast
  then show "\<exists>s. rooted f v s \<and> r = (if s = r1 then r2 else s)" using s by blast
qed
qed

lemma rooted_snoc:
  assumes "\<And>v. v < length f \<Longrightarrow> \<exists>r. rooted f v r"
  shows "rooted (f @ [length f]) v r \<longleftrightarrow> rooted f v r \<or> v = length f \<and> r = length f"
proof
  assume "rooted f v r \<or> v = length f \<and> r = length f"
  then show "rooted (f @ [length f]) v r" using rooted_root [of "length f" "f @ [length f]"]
    by (auto simp: rooted_def intro: root_path_snoc)
next
  assume r: "rooted (f @ [length f]) v r"
  show "rooted f v r \<or> v = length f \<and> r = length f"
  proof (cases "v = length f")
    case True
    have "rooted (f @ [length f]) v v" using True by (intro rooted_root) simp_all
    then show ?thesis using True rooted_det r by blast
  next
    case False
    then obtain s where s: "rooted f v s" using assms [of v] rooted_bounds [OF r] by auto
    then have "rooted (f @ [length f]) v s" by (auto simp: rooted_def intro: root_path_snoc)
    then show ?thesis using s rooted_det r by metis
  qed
qed

section \<open>Rings\<close>

text \<open>\<open>ring_chain n x xs y\<close>: following the links from \<open>x\<close> one meets \<open>xs\<close> and then \<open>y\<close>.\<close>

fun ring_chain :: "nat list \<Rightarrow> nat \<Rightarrow> nat list \<Rightarrow> nat \<Rightarrow> bool" where
  "ring_chain n x [] y \<longleftrightarrow> n ! x = y"
| "ring_chain n x (z # zs) y \<longleftrightarrow> n ! x = z \<and> ring_chain n z zs y"

lemma ring_chain_append: "ring_chain n x (xs @ y # ys) z \<longleftrightarrow> ring_chain n x xs y \<and> ring_chain n y ys z"
  by (induction xs arbitrary: x) auto

lemma ring_chain_move:
  assumes "ring_chain n x xs y" "m ! x' = n ! x" "\<And>z. z \<in> set xs \<Longrightarrow> m ! z = n ! z"
  shows "ring_chain m x' xs y"
  using assms
proof (induction xs arbitrary: x x')
  case (Cons z zs)
  have "ring_chain m z zs y" using Cons.prems by (intro Cons.IH [of z z]) auto
  then show ?case using Cons.prems by simp
qed simp

lemma ring_chain_rotate:
  assumes "ring_chain n r xs r" "v \<in> set (r # xs)"
  obtains ys where "ring_chain n v ys v" "set (v # ys) = set (r # xs)" "length ys = length xs"
proof (cases "v = r")
  case False
  then have "v \<in> set xs" using assms(2) by simp
  then obtain as bs where xs: "xs = as @ v # bs" by (meson split_list)
  then have "ring_chain n v (bs @ r # as) v" using assms(1) by (simp add: ring_chain_append)
  then show ?thesis by (rule that) (auto simp: xs)
qed (use assms that in blast)

text \<open>Exchanging a link of each of two rings joins them.\<close>

lemma ring_chain_join:
  assumes "ring_chain n r1 xs r1" "ring_chain n r2 ys r2" "distinct (r1 # xs)" "distinct (r2 # ys)" "set (r1 # xs) \<inter> set (r2 # ys) = {}"
    and "r1 < length n" "r2 < length n"
  shows "ring_chain (n[r1 := n ! r2, r2 := n ! r1]) r2 (xs @ r1 # ys) r2"
  unfolding ring_chain_append
proof
  let ?m = "n[r1 := n ! r2, r2 := n ! r1]"
  have r: "r1 \<noteq> r2" using assms(5) by auto
  show "ring_chain ?m r2 xs r1"
    by (rule ring_chain_move [OF assms(1)]) (use assms in \<open>auto simp: nth_list_update\<close>)
  show "ring_chain ?m r1 ys r2"
    by (rule ring_chain_move [OF assms(2)]) (use assms r in \<open>auto simp: nth_list_update\<close>)
qed

section \<open>The invariant\<close>

text \<open>\<open>class_ring c r xs\<close>: the class of the root \<open>r\<close> is \<open>r # xs\<close>, in the order of the ring, and has the recorded size.\<close>

definition class_ring :: "uf_core \<Rightarrow> nat \<Rightarrow> nat list \<Rightarrow> bool" where
  "class_ring c r xs \<longleftrightarrow> ring_chain (m_next c) r xs r \<and> distinct (r # xs) \<and> set (r # xs) = {v. rooted (m_find c) v r}
     \<and> m_size c ! r = length (r # xs)"

text \<open>Every node has a root, at a distance that is at most logarithmic in the size of the class.\<close>

definition uf_ok :: "uf_core \<Rightarrow> bool" where
  "uf_ok c \<longleftrightarrow> length (m_size c) = length (m_find c) \<and> length (m_next c) = length (m_find c)
     \<and> (\<forall>v < length (m_find c). \<exists>k r. root_path (m_find c) k v r \<and> 2 ^ k \<le> m_size c ! r)
     \<and> (\<forall>r < length (m_find c). m_find c ! r = r \<longrightarrow> (\<exists>xs. class_ring c r xs))"

definition same_class :: "uf_core \<Rightarrow> nat \<Rightarrow> nat \<Rightarrow> bool" where
  "same_class c u v \<longleftrightarrow> (\<exists>r. rooted (m_find c) u r \<and> rooted (m_find c) v r)"

lemma uf_okD:
  assumes "uf_ok c"
  shows "length (m_size c) = length (m_find c)" "length (m_next c) = length (m_find c)"
    "v < length (m_find c) \<Longrightarrow> \<exists>r. rooted (m_find c) v r"
    "r < length (m_find c) \<Longrightarrow> m_find c ! r = r \<Longrightarrow> \<exists>xs. class_ring c r xs"
  using assms unfolding uf_ok_def rooted_def by blast+

lemma uf_ok_path:
  assumes "uf_ok c" "v < length (m_find c)"
  obtains k r where "root_path (m_find c) k v r" "2 ^ k \<le> m_size c ! r"
  using assms by (auto simp: uf_ok_def)

lemma class_ring_disjoint:
  assumes "class_ring c r xs" "class_ring c s ys" "r \<noteq> s"
  shows "set (r # xs) \<inter> set (s # ys) = {}"
  using assms rooted_det by (auto simp: class_ring_def)

lemma uf_ok_new: "uf_ok new_core"
  by (simp add: uf_ok_def new_core_def)

lemma class_ring_keep:
  assumes "class_ring c r xs" "\<And>v. v \<in> set (r # xs) \<Longrightarrow> m_next d ! v = m_next c ! v"
    and "m_size d ! r = m_size c ! r" "\<And>v. rooted (m_find d) v r \<longleftrightarrow> rooted (m_find c) v r"
  shows "class_ring d r xs"
  using assms ring_chain_move [of "m_next c" r xs r "m_next d" r] by (auto simp: class_ring_def)

lemma core_mk_var_ok:
  assumes ok: "uf_ok c"
  shows "uf_ok (core_mk_var c)"
proof -
  let ?f = "m_find c" and ?d = "core_mk_var c" and ?n = "length (m_find c)"
  note len = uf_okD(1,2) [OF ok]
  have d: "m_find ?d = ?f @ [?n]" "m_size ?d = m_size c @ [1]" "m_next ?d = m_next c @ [?n]" by (simp_all add: core_mk_var_def Let_def)
  have rt: "rooted (m_find ?d) v r \<longleftrightarrow> rooted ?f v r \<or> v = ?n \<and> r = ?n" for v r
    unfolding d by (rule rooted_snoc [OF uf_okD(3) [OF ok]])
  have "\<exists>k r. root_path (m_find ?d) k v r \<and> 2 ^ k \<le> m_size ?d ! r" if "v < length (m_find ?d)" for v
  proof (cases "v < ?n")
    case True
    then obtain k r where k: "root_path ?f k v r" "2 ^ k \<le> m_size c ! r" by (rule uf_ok_path [OF ok])
    then show ?thesis using root_path_snoc [OF k(1)] root_path_bounds [OF k(1)] len by (auto simp: d nth_append)
  next
    case False
    then have "v = ?n" using that by (simp add: d)
    then have "root_path (m_find ?d) 0 v v" by (intro root_path.root) (simp_all add: d nth_append)
    then show ?thesis using \<open>v = ?n\<close> len by (intro exI [of _ 0] exI [of _ v]) (simp add: d nth_append)
  qed
  moreover have "\<exists>xs. class_ring ?d r xs" if r: "r < length (m_find ?d)" "m_find ?d ! r = r" for r
  proof (cases "r < ?n")
    case True
    then have "?f ! r = r" using r by (simp add: d nth_append)
    then obtain xs where xs: "class_ring c r xs" using uf_okD(4) [OF ok True] by blast
    have "class_ring ?d r xs"
    proof (rule class_ring_keep [OF xs])
      fix v assume "v \<in> set (r # xs)"
      then have "v < ?n" using xs rooted_bounds by (auto simp: class_ring_def)
      then show "m_next ?d ! v = m_next c ! v" using len by (simp add: d nth_append)
    qed (use True len rt in \<open>auto simp: d nth_append\<close>)
    then show ?thesis ..
  next
    case False
    then have rn: "r = ?n" using r by (simp add: d)
    have "{v. rooted (m_find ?d) v r} = {r}" using rt rn rooted_bounds by blast
    then have "class_ring ?d r []" using rn len by (simp add: class_ring_def d nth_append)
    then show ?thesis ..
  qed
  ultimately show ?thesis using len by (simp add: uf_ok_def d)
qed

lemma same_class_mk_var:
  assumes "uf_ok c"
  shows "same_class (core_mk_var c) u v \<longleftrightarrow> same_class c u v \<or> u = length (m_find c) \<and> v = length (m_find c)"
proof -
  have "m_find (core_mk_var c) = m_find c @ [length (m_find c)]" by (simp add: core_mk_var_def Let_def)
  then show ?thesis
    using rooted_snoc [OF uf_okD(3) [OF assms]] by (auto simp: same_class_def dest: rooted_bounds)
qed

lemma same_class_rooted:
  assumes "rooted (m_find c) v r"
  shows "same_class c x v \<longleftrightarrow> rooted (m_find c) x r"
proof
  assume "same_class c x v"
  then obtain s where s: "rooted (m_find c) x s" "rooted (m_find c) v s" by (auto simp: same_class_def)
  then show "rooted (m_find c) x r" using rooted_det [OF assms s(2)] by simp
qed (use assms in \<open>auto simp: same_class_def\<close>)

lemma same_class_link:
  assumes "\<And>v s. rooted (m_find d) v s \<longleftrightarrow> (\<exists>t. rooted (m_find c) v t \<and> s = (if t = a then b else t))" "a \<noteq> b"
  shows "same_class d x y \<longleftrightarrow> same_class c x y \<or> rooted (m_find c) x a \<and> rooted (m_find c) y b \<or> rooted (m_find c) x b \<and> rooted (m_find c) y a"
proof -
  have eq: "(if t = a then b else t) = (if t' = a then b else t') \<longleftrightarrow> t = t' \<or> t = a \<and> t' = b \<or> t = b \<and> t' = a" for t t'
    using assms(2) by auto
  have "same_class d x y \<longleftrightarrow> (\<exists>t t'. rooted (m_find c) x t \<and> rooted (m_find c) y t' \<and> (if t = a then b else t) = (if t' = a then b else t'))"
    unfolding same_class_def assms(1) by blast
  then show ?thesis unfolding eq same_class_def by blast
qed

subsection \<open>Linking two roots and separating them\<close>

lemma uf_link_value:
  assumes "uf_ok c" "r1 < length (m_find c)" "r2 < length (m_find c)"
  shows "uf_link r1 r2 c = Inr \<lparr>m_find = (m_find c)[r1 := r2], m_size = (m_size c)[r2 := m_size c ! r2 + m_size c ! r1],
    m_next = (m_next c)[r1 := m_next c ! r2, r2 := m_next c ! r1]\<rparr>"
  using assms uf_okD(1,2) [OF assms(1)] by (simp add: uf_link_def swap_next_def)

lemma uf_link_ok:
  assumes ok: "uf_ok c" and r: "r1 < length (m_find c)" "r2 < length (m_find c)" "m_find c ! r1 = r1" "m_find c ! r2 = r2" "r1 \<noteq> r2"
    and le: "m_size c ! r1 \<le> m_size c ! r2"
  shows "\<exists>d. uf_link r1 r2 c = Inr d \<and> uf_ok d \<and> length (m_find d) = length (m_find c)
    \<and> (\<forall>v s. rooted (m_find d) v s \<longleftrightarrow> (\<exists>t. rooted (m_find c) v t \<and> s = (if t = r1 then r2 else t)))"
proof -
  let ?f = "m_find c" and ?s = "m_size c" and ?n = "m_next c"
  let ?d = "\<lparr>m_find = ?f[r1 := r2], m_size = ?s[r2 := ?s ! r2 + ?s ! r1], m_next = ?n[r1 := ?n ! r2, r2 := ?n ! r1]\<rparr>"
  note len = uf_okD(1,2) [OF ok]
  have rt: "rooted (m_find ?d) v s \<longleftrightarrow> (\<exists>t. rooted ?f v t \<and> s = (if t = r1 then r2 else t))" for v s
    using rooted_link [OF uf_okD(3) [OF ok] r(2,4,5,3)] by simp
  obtain xs ys where xs: "class_ring c r1 xs" and ys: "class_ring c r2 ys" using uf_okD(4) [OF ok] r by blast
  have "\<exists>k s. root_path (m_find ?d) k v s \<and> 2 ^ k \<le> m_size ?d ! s" if "v < length (m_find ?d)" for v
  proof -
    have "v < length ?f" using that by simp
    then obtain k s where k: "root_path ?f k v s" "2 ^ k \<le> ?s ! s" by (rule uf_ok_path [OF ok])
    have p: "root_path (m_find ?d) (if s = r1 then Suc k else k) v (if s = r1 then r2 else s)"
      using root_path_link [OF k(1) r(2,4,5,3)] by simp
    have "2 ^ (if s = r1 then Suc k else k) \<le> m_size ?d ! (if s = r1 then r2 else s)"
      using k(2) le r(2) len by (cases "s = r2") (auto simp: nth_list_update)
    then show ?thesis using p by blast
  qed
  moreover have "\<exists>zs. class_ring ?d s zs" if s: "s < length (m_find ?d)" "m_find ?d ! s = s" for s
  proof -
    have sr: "s \<noteq> r1" "?f ! s = s" "s < length ?f" using s r(1,5) by (auto simp: nth_list_update split: if_splits)
    show ?thesis
    proof (cases "s = r2")
      case True
      have X: "ring_chain ?n r1 xs r1" "distinct (r1 # xs)" and Y: "ring_chain ?n r2 ys r2" "distinct (r2 # ys)"
        using xs ys unfolding class_ring_def by blast+
      have "ring_chain (m_next ?d) r2 (xs @ r1 # ys) r2"
        using ring_chain_join [OF X(1) Y(1) X(2) Y(2) class_ring_disjoint [OF xs ys r(5)]] r(1,2) len by simp
      moreover have "set (r2 # xs @ r1 # ys) = {v. rooted (m_find ?d) v r2}"
        using xs ys unfolding rt class_ring_def by (auto split: if_splits)
      moreover have "distinct (r2 # xs @ r1 # ys)"
        using xs ys class_ring_disjoint [OF xs ys r(5)] by (auto simp: class_ring_def)
      ultimately have "class_ring ?d r2 (xs @ r1 # ys)"
        using xs ys r len by (simp add: class_ring_def)
      then show ?thesis using True by blast
    next
      case False
      obtain zs where zs: "class_ring c s zs" using uf_okD(4) [OF ok sr(3,2)] by blast
      have "class_ring ?d s zs"
      proof (rule class_ring_keep [OF zs])
        fix v assume "v \<in> set (s # zs)"
        then have "v \<noteq> r1" "v \<noteq> r2" using class_ring_disjoint [OF zs xs sr(1)] class_ring_disjoint [OF zs ys False] by auto
        then show "m_next ?d ! v = ?n ! v" by simp
      next
        show "rooted (m_find ?d) v s \<longleftrightarrow> rooted ?f v s" for v using sr(1) False unfolding rt by auto
      qed (use False in simp)
      then show ?thesis ..
    qed
  qed
  ultimately have "uf_ok ?d" using len by (simp add: uf_ok_def)
  then show ?thesis using uf_link_value [OF ok r(1,2)] rt by auto
qed

lemma uf_unmerge_link:
  assumes ok: "uf_ok c" and r: "m_find c ! r1 = r1" "r1 \<noteq> r2" "r1 < length (m_find c)" "r2 < length (m_find c)" and d: "uf_link r1 r2 c = Inr d"
  shows "uf_unmerge r1 d = Inr c"
proof -
  let ?f = "m_find c" and ?s = "m_size c" and ?n = "m_next c"
  note len = uf_okD(1,2) [OF ok]
  have d: "d = \<lparr>m_find = ?f[r1 := r2], m_size = ?s[r2 := ?s ! r2 + ?s ! r1], m_next = ?n[r1 := ?n ! r2, r2 := ?n ! r1]\<rparr>"
    using d uf_link_value [OF ok r(3,4)] by simp
  have f: "?f[r1 := r1] = ?f" using list_update_id [of ?f r1] r(1) by simp
  have n: "?n[r1 := ?n ! r2, r2 := ?n ! r1, r1 := ?n ! r1, r2 := ?n ! r2] = ?n"
    using r(2) by (simp add: list_update_swap [of r2 r1])
  show ?thesis unfolding d uf_unmerge_def swap_next_def using r len by (simp add: f n)
qed

section \<open>Operations with backtracking\<close>

text \<open>The changes that the trail objects record.\<close>

inductive uf_step :: "uf_core \<Rightarrow> uf_trail \<Rightarrow> uf_core \<Rightarrow> bool" where
  mk_var: "uf_ok c \<Longrightarrow> uf_step c mk_var_trail (core_mk_var c)"
| merge: "uf_ok c \<Longrightarrow> m_find c ! r1 = r1 \<Longrightarrow> r1 \<noteq> r2 \<Longrightarrow> r1 < length (m_find c) \<Longrightarrow> r2 < length (m_find c)
    \<Longrightarrow> uf_link r1 r2 c = Inr d \<Longrightarrow> uf_step c (merge_trail r1) d"

interpretation uf: trailed uf_undo uf_step
proof
  show "uf_undo e d = Inr c" if "uf_step c e d" for c e d
    using that by (induction rule: uf_step.induct) (simp_all add: core_mk_var_def Let_def uf_unmerge_link)
qed

lemma uf_merge_ok:
  assumes ok: "uf_ok (m_core u)" and v: "v1 < length (m_find (m_core u))" "v2 < length (m_find (m_core u))"
  shows "yields (uf_merge v1 v2 u) (\<lambda>w. uf_ok (m_core w) \<and> length (m_find (m_core w)) = length (m_find (m_core u))
    \<and> (w = u \<or> (\<exists>e. m_trail_stack w = ts_push e (m_trail_stack u) \<and> uf_step (m_core u) e (m_core w)))
    \<and> (\<forall>x y. same_class (m_core w) x y \<longleftrightarrow> same_class (m_core u) x y
        \<or> same_class (m_core u) x v1 \<and> same_class (m_core u) y v2 \<or> same_class (m_core u) x v2 \<and> same_class (m_core u) y v1))"
proof -
  let ?c = "m_core u"
  obtain r1 r2 where r: "rooted (m_find ?c) v1 r1" "rooted (m_find ?c) v2 r2" using uf_okD(3) [OF ok] v by blast
  note b = rooted_bounds [OF r(1)] rooted_bounds [OF r(2)]
  note len = uf_okD(1,2) [OF ok]
  show ?thesis
  proof (cases "r1 = r2")
    case True
    have "same_class ?c x y" if "same_class ?c x v1 \<and> same_class ?c y v2 \<or> same_class ?c x v2 \<and> same_class ?c y v1" for x y
      using that unfolding same_class_rooted [OF r(1)] same_class_rooted [OF r(2)] unfolding True same_class_def by blast
    then have eq: "same_class ?c x y \<longleftrightarrow> same_class ?c x y \<or> same_class ?c x v1 \<and> same_class ?c y v2
      \<or> same_class ?c x v2 \<and> same_class ?c y v1" for x y by blast
    have "uf_merge v1 v2 u = Inr u" using uf_find_rooted [OF r(1)] uf_find_rooted [OF r(2)] True by (simp add: uf_merge_def)
    then show ?thesis using ok eq by simp
  next
    case False
    obtain a b' where ab: "(if m_size ?c ! r1 > m_size ?c ! r2 then (r2, r1) else (r1, r2)) = (a, b')" by fastforce
    have a: "a < length (m_find ?c)" "b' < length (m_find ?c)" "m_find ?c ! a = a" "m_find ?c ! b' = b'" "a \<noteq> b'"
      "m_size ?c ! a \<le> m_size ?c ! b'" and s: "a = r1 \<and> b' = r2 \<or> a = r2 \<and> b' = r1"
      using ab b False by (auto split: if_splits)
    obtain d where d: "uf_link a b' ?c = Inr d" "uf_ok d" "length (m_find d) = length (m_find ?c)"
      "\<And>v s. rooted (m_find d) v s \<longleftrightarrow> (\<exists>t. rooted (m_find ?c) v t \<and> s = (if t = a then b' else t))"
      using uf_link_ok [OF ok a] by blast
    note same = same_class_rooted [OF r(1)] same_class_rooted [OF r(2)]
    have "same_class d x y \<longleftrightarrow> same_class ?c x y
        \<or> same_class ?c x v1 \<and> same_class ?c y v2 \<or> same_class ?c x v2 \<and> same_class ?c y v1" for x y
      unfolding same using same_class_link [OF d(4) a(5)] s by blast
    moreover have "uf_merge v1 v2 u = Inr (u\<lparr>m_core := d, m_trail_stack := ts_push (merge_trail a) (m_trail_stack u)\<rparr>)"
      using uf_find_rooted [OF r(1)] uf_find_rooted [OF r(2)] False ab d(1) b len by (simp add: uf_merge_def)
    moreover have "uf_step ?c (merge_trail a) d" using ok a d(1) by (intro uf_step.merge)
    ultimately show ?thesis using d(2,3) by auto
  qed
qed

text \<open>The states that the operations reach, with the contents of the vectors at the open scopes.\<close>

inductive uf_reach :: "union_find \<Rightarrow> uf_core list \<Rightarrow> bool" where
  new: "uf_reach new_union_find []"
| var: "uf_reach u cs \<Longrightarrow> uf_reach (snd (uf_mk_var u)) cs"
| merge: "uf_reach u cs \<Longrightarrow> v1 < get_num_vars (m_core u) \<Longrightarrow> v2 < get_num_vars (m_core u) \<Longrightarrow> uf_merge v1 v2 u = Inr w \<Longrightarrow> uf_reach w cs"
| push: "uf_reach u cs \<Longrightarrow> uf_reach (uf_push_scope u) (cs @ [m_core u])"
| pop: "uf_reach u cs \<Longrightarrow> k \<le> length cs \<Longrightarrow> uf_pop_scope k u = Inr w \<Longrightarrow> uf_reach w (take (length cs - k) cs)"

text \<open>Popping \<open>k\<close> scopes restores the vectors to what they were when the first of them was opened.\<close>

lemma uf_pop_scoped:
  assumes s: "scoped uf_step (m_trail_stack u) cs (m_core u)" and k: "k \<le> length cs"
  shows "\<exists>w. uf_pop_scope k u = Inr w \<and> m_core w = (cs @ [m_core u]) ! (length cs - k)
    \<and> scoped uf_step (m_trail_stack w) (take (length cs - k) cs) (m_core w)"
proof (cases "k = 0")
  case True
  then show ?thesis using s by (simp add: uf_pop_scope_def ts_pop_scope_def)
next
  case False
  then obtain t where "ts_pop_scope uf_undo k (m_trail_stack u) (m_core u) = Inr (t, cs ! (length cs - k))"
    "scoped uf_step t (take (length cs - k) cs) (cs ! (length cs - k))"
    using uf.scoped_pop [OF s _ k] by auto
  then show ?thesis using False k by (simp add: uf_pop_scope_def nth_append)
qed

lemma uf_reach_inv:
  assumes "uf_reach u cs"
  shows "uf_ok (m_core u) \<and> (\<forall>c \<in> set cs. uf_ok c) \<and> scoped uf_step (m_trail_stack u) cs (m_core u)"
  using assms
proof (induction rule: uf_reach.induct)
  case new
  then show ?case by (simp add: new_union_find_def uf_ok_new scoped_new)
next
  case (var u cs)
  then show ?case using uf_step.mk_var [of "m_core u"]
    by (auto simp: uf_mk_var_def core_mk_var_ok intro: scoped_change)
next
  case (merge u cs v1 v2 w)
  have "yields (uf_merge v1 v2 u) (\<lambda>w. uf_ok (m_core w)
    \<and> (w = u \<or> (\<exists>e. m_trail_stack w = ts_push e (m_trail_stack u) \<and> uf_step (m_core u) e (m_core w))))"
    using uf_merge_ok [of u v1 v2] merge by (auto simp: get_num_vars_def elim!: yields_mono)
  then show ?case using merge by (auto intro: scoped_change)
next
  case (push u cs)
  then show ?case by (auto simp: uf_push_scope_def scoped_push)
next
  case (pop u cs k w)
  then obtain w' where w: "uf_pop_scope k u = Inr w'" "m_core w' = (cs @ [m_core u]) ! (length cs - k)"
    "scoped uf_step (m_trail_stack w') (take (length cs - k) cs) (m_core w')"
    using uf_pop_scoped by blast
  have "w' = w" using w(1) pop by simp
  have "(cs @ [m_core u]) ! (length cs - k) \<in> set (cs @ [m_core u])" by (rule nth_mem) simp
  then have "uf_ok (m_core w)" using w(2) pop.IH unfolding \<open>w' = w\<close> by auto
  then show ?case using w(3) pop.IH unfolding \<open>w' = w\<close> by (auto dest: in_set_takeD)
qed

section \<open>The invariant of the source\<close>

text \<open>On states that satisfy the invariant, \<open>check_invariant\<close> walks along every ring and finds what it checks.\<close>

lemma ring_walk:
  assumes "ring_chain (m_next c) x xs r" "r \<notin> set xs" "\<And>v. v \<in> set xs \<Longrightarrow> rooted (m_find c) v r" "length (m_next c) = length (m_find c)"
  shows "while_res (\<lambda>(curr, _). curr \<noteq> r) (ring_step c r) (m_next c ! x, n) = Inr (r, n + length xs)"
  using assms
proof (induction xs arbitrary: x n)
  case Nil
  then show ?case by (simp add: while_res_unfold [of _ _ "(r, n)"])
next
  case (Cons z zs)
  have z: "rooted (m_find c) z r" using Cons.prems(3) by simp
  have "ring_step c r (z, n) = Inr (m_next c ! z, n + 1)"
    using uf_find_rooted [OF z] rooted_bounds [OF z] Cons.prems(4) by (simp add: ring_step_def uf_next_def)
  moreover have "while_res (\<lambda>(curr, _). curr \<noteq> r) (ring_step c r) (m_next c ! z, n + 1) = Inr (r, n + 1 + length zs)"
    using Cons.prems by (intro Cons.IH) simp_all
  ultimately show ?case using Cons.prems by (simp add: while_res_unfold [of _ _ "(z, n)"])
qed

lemma check_ring_ok:
  assumes ok: "uf_ok c" and v: "v < length (m_find c)"
  shows "check_ring c v = Inr True"
proof (cases "m_find c ! v = v")
  case True
  obtain xs where xs: "class_ring c v xs" using uf_okD(4) [OF ok v True] by blast
  have r: "rooted (m_find c) u v" if "u \<in> set (v # xs)" for u using xs that unfolding class_ring_def by blast
  have v0: "rooted (m_find c) v v" by (rule r) simp
  note len = uf_okD(1,2) [OF ok]
  have "ring_step c v (v, 0) = Inr (m_next c ! v, 1)"
    using uf_find_rooted [OF v0] v len by (simp add: ring_step_def uf_next_def)
  moreover have "while_res (\<lambda>(curr, _). curr \<noteq> v) (ring_step c v) (m_next c ! v, 1) = Inr (v, 1 + length xs)"
    using xs r len by (intro ring_walk) (auto simp: class_ring_def)
  ultimately show ?thesis using True v len xs by (simp add: check_ring_def uf_is_root_def class_ring_def)
next
  case False
  then show ?thesis using v by (simp add: check_ring_def uf_is_root_def)
qed

lemma uf_check_invariant_ok: "uf_ok c \<Longrightarrow> uf_check_invariant c = Inr True"
proof -
  assume ok: "uf_ok c"
  have "check_rings c vs = Inr True" if "\<forall>v \<in> set vs. v < length (m_find c)" for vs
    using that by (induction vs) (simp_all add: check_ring_ok [OF ok])
  then show ?thesis by (simp add: uf_check_invariant_def)
qed

text \<open>\<open>find\<close> takes at most \<open>log2\<close> of the number of variables many steps.\<close>

lemma root_path_log:
  assumes ok: "uf_ok c" and p: "root_path (m_find c) k v r"
  shows "2 ^ k \<le> length (m_find c)"
proof -
  have b: "v < length (m_find c)" "r < length (m_find c)" "m_find c ! r = r" using root_path_bounds [OF p] by simp_all
  obtain l s where l: "root_path (m_find c) l v s" "2 ^ l \<le> m_size c ! s" using uf_ok_path [OF ok b(1)] by blast
  have "l = k" "s = r" using root_path_det [OF p l(1)] by simp_all
  obtain xs where xs: "class_ring c r xs" using uf_okD(4) [OF ok b(2,3)] by blast
  have "set (r # xs) \<subseteq> {..<length (m_find c)}" using xs rooted_bounds by (auto simp: class_ring_def)
  then have "card (set (r # xs)) \<le> card {..<length (m_find c)}" by (intro card_mono) simp_all
  moreover have "card (set (r # xs)) = m_size c ! r" using xs unfolding class_ring_def by (metis distinct_card)
  ultimately show ?thesis using l(2) \<open>l = k\<close> \<open>s = r\<close> by simp
qed

section \<open>\<open>dissolve\<close>\<close>

text \<open>The loop never moves to the next element: whatever the class of \<open>v\<close> is, only the entries of \<open>v\<close> itself are
  reset.\<close>

lemma uf_dissolve_value:
  assumes v: "v < length (m_find c)" and len: "length (m_size c) = length (m_find c)" "length (m_next c) = length (m_find c)"
  shows "uf_dissolve v c = Inr \<lparr>m_find = (m_find c)[v := v], m_size = (m_size c)[v := 1], m_next = (m_next c)[v := v]\<rparr>"
proof -
  let ?d = "\<lparr>m_find = (m_find c)[v := v], m_size = (m_size c)[v := 1], m_next = (m_next c)[v := v]\<rparr>"
  have b1: "dissolve_body v c = Inr (m_next c ! v, ?d)" using assms by (simp add: dissolve_body_def uf_next_def)
  have b2: "dissolve_body v ?d = Inr (v, ?d)" using assms by (simp add: dissolve_body_def uf_next_def)
  let ?w = "while_res (\<lambda>(w, _). w \<noteq> v) (\<lambda>(_, c). dissolve_body v c)"
  have v0: "?w (v, ?d) = Inr (v, ?d)" by (subst while_res_unfold) simp
  have "?w (m_next c ! v, ?d) = Inr (v, ?d)"
    by (subst while_res_unfold) (simp add: b2 v0 del: One_nat_def)
  then show ?thesis unfolding uf_dissolve_def b1 bind_res.simps by simp
qed

section \<open>\<open>set_root\<close> and the structure without backtracking\<close>

lemma uf_set_root_link:
  assumes "uf_ok c" "v < length (m_find c)" "rt < length (m_find c)" "v \<noteq> rt"
  shows "uf_set_root v rt c = uf_link v rt c"
  using assms uf_okD(1,2) [OF assms(1)] by (simp add: uf_set_root_def uf_link_def swap_next_def list_update_swap)

lemma core_mk_var_find [simp]: "m_find (core_mk_var c) = m_find c @ [length (m_find c)]"
  by (simp add: core_mk_var_def Let_def)

lemma ensure_size_ok:
  assumes "uf_ok c"
  shows "yields (ensure_size v c) (\<lambda>d. uf_ok d \<and> length (m_find d) = max (length (m_find c)) (v + 1)
    \<and> (\<forall>x y. same_class d x y \<longleftrightarrow> same_class c x y \<or> x = y \<and> length (m_find c) \<le> x \<and> x \<le> v)
    \<and> (\<forall>x r. rooted (m_find d) x r \<longleftrightarrow> rooted (m_find c) x r \<or> r = x \<and> length (m_find c) \<le> x \<and> x \<le> v))"
proof -
  let ?n = "length (m_find c)"
  let ?I = "\<lambda>d. uf_ok d \<and> ?n \<le> length (m_find d) \<and> length (m_find d) \<le> max ?n (v + 1)
    \<and> (\<forall>x r. rooted (m_find d) x r \<longleftrightarrow> rooted (m_find c) x r \<or> r = x \<and> ?n \<le> x \<and> x < length (m_find d))"
  have "\<exists>d. while_res (\<lambda>c. length (m_find c) \<le> v) (\<lambda>c. Inr (core_mk_var c)) c = Inr d \<and> (?I d \<and> v < length (m_find d))"
  proof (rule while_res_total [where I = ?I and m = "\<lambda>d. v + 1 - length (m_find d)"])
    show "?I c" using assms by auto
  next
    fix d assume d: "?I d" "length (m_find d) \<le> v"
    have "?I (core_mk_var d)" using d core_mk_var_ok [of d] rooted_snoc [OF uf_okD(3), of d] by auto
    then show "\<exists>t. Inr (core_mk_var d) = Inr t \<and> ?I t \<and> v + 1 - length (m_find t) < v + 1 - length (m_find d)"
      using d(2) by simp
  qed simp
  then obtain d where d: "ensure_size v c = Inr d" "?I d" "v < length (m_find d)" unfolding ensure_size_def by blast
  have "?n \<le> length (m_find d)" "length (m_find d) \<le> max ?n (v + 1)" using d(2) by blast+
  then have l: "length (m_find d) = max ?n (v + 1)" using d(3) by linarith
  have rt: "rooted (m_find d) x r \<longleftrightarrow> rooted (m_find c) x r \<or> r = x \<and> ?n \<le> x \<and> x \<le> v" for x r
    using d(2) unfolding l by (auto dest: rooted_bounds)
  have "same_class d x y \<longleftrightarrow> same_class c x y \<or> x = y \<and> ?n \<le> x \<and> x \<le> v" for x y
    unfolding same_class_def rt by (auto dest: rooted_bounds)
  then show ?thesis using d(1,2) l rt by simp
qed

text \<open>Variables that have not been added are alone in their class.\<close>

definition basic_same :: "uf_core \<Rightarrow> nat \<Rightarrow> nat \<Rightarrow> bool" where "basic_same c x y \<longleftrightarrow> x = y \<or> same_class c x y"

lemma same_class_refl: "uf_ok c \<Longrightarrow> v < length (m_find c) \<Longrightarrow> same_class c v v"
  using uf_okD(3) by (auto simp: same_class_def)

lemma basic_find_root:
  assumes "uf_ok c"
  obtains r where "basic_find c v = Inr r" "v < length (m_find c) \<longrightarrow> rooted (m_find c) v r" "length (m_find c) \<le> v \<longrightarrow> r = v"
proof (cases "v < length (m_find c)")
  case True
  then obtain r where r: "rooted (m_find c) v r" using uf_okD(3) [OF assms] by blast
  then have "basic_find c v = Inr r" using True uf_find_rooted by (simp add: basic_find_def)
  then show ?thesis by (rule that) (use True r in simp_all)
next
  case False
  then have "basic_find c v = Inr v" by (simp add: basic_find_def)
  then show ?thesis by (rule that) (use False in simp_all)
qed

lemma same_class_trans:
  assumes "same_class c x y" "same_class c y z"
  shows "same_class c x z"
proof -
  obtain r s where r: "rooted (m_find c) x r" "rooted (m_find c) y r" and s: "rooted (m_find c) y s" "rooted (m_find c) z s"
    using assms unfolding same_class_def by blast
  have "s = r" by (rule rooted_det [OF r(2) s(1)])
  then show ?thesis using r(1) s(2) unfolding same_class_def by blast
qed

lemma same_class_sym: "same_class c x y \<Longrightarrow> same_class c y x"
  by (auto simp: same_class_def)

lemma basic_same_equiv:
  "basic_same c x y \<Longrightarrow> basic_same c y z \<Longrightarrow> basic_same c x z" "basic_same c x y \<Longrightarrow> basic_same c y x"
  using same_class_trans same_class_sym unfolding basic_same_def by blast+

lemma basic_merge_ok:
  assumes ok: "uf_ok c"
  shows "yields (basic_merge v1 v2 c) (\<lambda>d. uf_ok d
    \<and> (\<forall>x y. basic_same d x y \<longleftrightarrow> basic_same c x y \<or> basic_same c x v1 \<and> basic_same c y v2 \<or> basic_same c x v2 \<and> basic_same c y v1))"
proof -
  let ?n = "length (m_find c)"
  obtain r1 where r1: "basic_find c v1 = Inr r1" "v1 < ?n \<longrightarrow> rooted (m_find c) v1 r1" "?n \<le> v1 \<longrightarrow> r1 = v1" by (rule basic_find_root [OF ok])
  obtain r2 where r2: "basic_find c v2 = Inr r2" "v2 < ?n \<longrightarrow> rooted (m_find c) v2 r2" "?n \<le> v2 \<longrightarrow> r2 = v2" by (rule basic_find_root [OF ok])
  show ?thesis
  proof (cases "r1 = r2")
    case True
    have v: "basic_same c v1 v2"
    proof (cases "v1 < ?n \<and> v2 < ?n")
      case False
      have "v1 < ?n \<Longrightarrow> r1 < ?n" "v2 < ?n \<Longrightarrow> r2 < ?n" using r1(2) r2(2) by (auto dest: rooted_bounds)
      then show ?thesis using False r1(3) r2(3) True by (cases "v1 < ?n"; cases "v2 < ?n") (auto simp: basic_same_def)
    qed (use r1 r2 True in \<open>auto simp: basic_same_def same_class_def\<close>)
    have "basic_same c x y" if "basic_same c x v1 \<and> basic_same c y v2 \<or> basic_same c x v2 \<and> basic_same c y v1" for x y
      using that
    proof (elim disjE conjE)
      assume "basic_same c x v1" "basic_same c y v2"
      then show ?thesis using basic_same_equiv(1) [OF _ v] basic_same_equiv [of c] by blast
    next
      assume "basic_same c x v2" "basic_same c y v1"
      then show ?thesis using basic_same_equiv(1) [OF _ v] basic_same_equiv [of c] by blast
    qed
    then have eq: "basic_same c x y \<longleftrightarrow> basic_same c x y \<or> basic_same c x v1 \<and> basic_same c y v2 \<or> basic_same c x v2 \<and> basic_same c y v1" for x y
      by blast
    have "basic_merge v1 v2 c = Inr c" using r1(1) r2(1) True by (simp add: basic_merge_def)
    then show ?thesis using ok eq by simp
  next
    case False
    obtain c1 where c1: "ensure_size v1 c = Inr c1" "uf_ok c1" "length (m_find c1) = max ?n (v1 + 1)"
      "\<And>x y. same_class c1 x y \<longleftrightarrow> same_class c x y \<or> x = y \<and> ?n \<le> x \<and> x \<le> v1"
      "\<And>x r. rooted (m_find c1) x r \<longleftrightarrow> rooted (m_find c) x r \<or> r = x \<and> ?n \<le> x \<and> x \<le> v1"
      using ensure_size_ok [OF ok, of v1] by (auto elim!: yieldsE)
    obtain c2 where c2: "ensure_size v2 c1 = Inr c2" "uf_ok c2" "length (m_find c2) = max (length (m_find c1)) (v2 + 1)"
      "\<And>x y. same_class c2 x y \<longleftrightarrow> same_class c1 x y \<or> x = y \<and> length (m_find c1) \<le> x \<and> x \<le> v2"
      "\<And>x r. rooted (m_find c2) x r \<longleftrightarrow> rooted (m_find c1) x r \<or> r = x \<and> length (m_find c1) \<le> x \<and> x \<le> v2"
      using ensure_size_ok [OF c1(2), of v2] by (auto elim!: yieldsE)
    have l: "v1 < length (m_find c2)" "v2 < length (m_find c2)" unfolding c2(3) c1(3) by simp_all
    have r: "rooted (m_find c2) v1 r1" "rooted (m_find c2) v2 r2"
      unfolding c2(5) c1(5) using r1(2,3) r2(2,3) c1(3) by (auto simp: not_le max_def split: if_splits)
    note b = rooted_bounds [OF r(1)] rooted_bounds [OF r(2)]
    note len = uf_okD(1,2) [OF c2(2)]
    obtain p q where pq: "(if m_size c2 ! r1 > m_size c2 ! r2 then (r2, r1) else (r1, r2)) = (p, q)" by fastforce
    have p: "p < length (m_find c2)" "q < length (m_find c2)" "m_find c2 ! p = p" "m_find c2 ! q = q" "p \<noteq> q"
      "m_size c2 ! p \<le> m_size c2 ! q" and s: "p = r1 \<and> q = r2 \<or> p = r2 \<and> q = r1"
      using pq b False by (auto split: if_splits)
    obtain d where d: "uf_link p q c2 = Inr d" "uf_ok d"
      "\<And>v s. rooted (m_find d) v s \<longleftrightarrow> (\<exists>t. rooted (m_find c2) v t \<and> s = (if t = p then q else t))"
      using uf_link_ok [OF c2(2) p] by blast
    have "basic_merge v1 v2 c = Inr d"
      using r1(1) r2(1) False c1(1) c2(1) pq d(1) b len by (simp add: basic_merge_def)
    moreover have "basic_same d x y \<longleftrightarrow> basic_same c x y \<or> basic_same c x v1 \<and> basic_same c y v2 \<or> basic_same c x v2 \<and> basic_same c y v1" for x y
    proof -
      have "same_class d x y \<longleftrightarrow> same_class c2 x y \<or> same_class c2 x v1 \<and> same_class c2 y v2 \<or> same_class c2 x v2 \<and> same_class c2 y v1"
        using same_class_link [OF d(3) p(5)] s unfolding same_class_rooted [OF r(1)] same_class_rooted [OF r(2)] by blast
      moreover have "basic_same c2 u w \<longleftrightarrow> basic_same c u w" for u w using c1(4) c2(4) by (auto simp: basic_same_def)
      moreover have "basic_same c2 u w \<longleftrightarrow> same_class c2 u w" if "w = v1 \<or> w = v2" for u w
        using same_class_refl [OF c2(2) l(1)] same_class_refl [OF c2(2) l(2)] that by (auto simp: basic_same_def)
      ultimately show ?thesis unfolding basic_same_def [of d] by (metis basic_same_def)
    qed
    ultimately show ?thesis using d(2) by simp
  qed
qed

section \<open>What \<open>find\<close> and \<open>size\<close> return\<close>

lemma same_class_find:
  assumes ok: "uf_ok c" and x: "x < length (m_find c)" and y: "y < length (m_find c)"
  shows "same_class c x y \<longleftrightarrow> uf_find c x = uf_find c y"
proof -
  obtain r s where r: "rooted (m_find c) x r" and s: "rooted (m_find c) y s" using uf_okD(3) [OF ok] x y by blast
  have "same_class c x y \<longleftrightarrow> rooted (m_find c) x s" by (rule same_class_rooted [OF s])
  also have "\<dots> \<longleftrightarrow> s = r" using r rooted_det [OF r, of s] by blast
  finally show ?thesis using uf_find_rooted [OF r] uf_find_rooted [OF s] by auto
qed

lemma uf_size_card:
  assumes ok: "uf_ok c" and r: "rooted (m_find c) v r"
  shows "uf_size c v = Inr (card {w. same_class c w v})"
proof -
  have b: "r < length (m_find c)" "m_find c ! r = r" using rooted_bounds [OF r] by simp_all
  obtain xs where xs: "class_ring c r xs" using uf_okD(4) [OF ok b] by blast
  have "{w. same_class c w v} = set (r # xs)" using xs same_class_rooted [OF r] by (auto simp: class_ring_def)
  then have "card {w. same_class c w v} = m_size c ! r" using xs unfolding class_ring_def by (metis distinct_card)
  then show ?thesis using uf_find_rooted [OF r] uf_okD(1) [OF ok] b(1) by (simp add: uf_size_def)
qed

lemma uf_find_log:
  assumes ok: "uf_ok c" and v: "v < length (m_find c)"
  shows "\<exists>k r. root_path (m_find c) k v r \<and> 2 ^ k \<le> length (m_find c) \<and> uf_find c v = Inr r \<and> uf_is_root c r = Inr True
    \<and> uf_size c v = Inr (card {w. same_class c w v})"
proof -
  obtain k r where p: "root_path (m_find c) k v r" using uf_ok_path [OF ok v] by blast
  then have r: "rooted (m_find c) v r" by (auto simp: rooted_def)
  show ?thesis using p root_path_log [OF ok p] uf_find_rooted [OF r] rooted_bounds [OF r] uf_size_card [OF ok r]
    by (intro exI [of _ k] exI [of _ r]) (simp add: uf_is_root_def)
qed

end
