(* ===== verification/Heap.thy ===== *)
theory Heap
  imports Trail
begin

text \<open>
  Binary heaps of small numbers (\<open>util/heap.h\<close>): \<open>m_values\<close> has the heap at the positions from 1, after a
  sentinel, and \<open>m_value2indices\<close> the position of every value, 0 for those that are not in the heap. The order
  is a template argument, here the argument \<open>lt\<close>. On top of it the priority queue of variables by
  activity (\<open>util/var_queue.h\<close>), which is told when an activity has changed.
\<close>

section \<open>Definitions\<close>

record heap =
  m_values :: "int list"
  m_value2indices :: "nat list"

definition heap_left :: "nat \<Rightarrow> nat" where "heap_left i = 2 * i"
definition heap_right :: "nat \<Rightarrow> nat" where "heap_right i = 2 * i + 1"
definition heap_parent :: "nat \<Rightarrow> nat" where "heap_parent i = i div 2"

text \<open>Reading and writing \<open>m_value2indices[v]\<close>.\<close>

definition get_index :: "heap \<Rightarrow> int \<Rightarrow> nat res" where
  "get_index h v = (if 0 \<le> v then vec_get (m_value2indices h) (nat v) else Inl Undefined_behaviour)"

definition set_index :: "int \<Rightarrow> nat \<Rightarrow> heap \<Rightarrow> heap res" where
  "set_index v i h =
     (if 0 \<le> v then bind_res (vec_set (m_value2indices h) (nat v) i) (\<lambda>w. Inr (h\<lparr>m_value2indices := w\<rparr>))
      else Inl Undefined_behaviour)"

text \<open>\<open>m_values[idx] = v; m_value2indices[v] = idx\<close>\<close>

definition place :: "nat \<Rightarrow> int \<Rightarrow> heap \<Rightarrow> heap res" where
  "place idx v h =
     bind_res (vec_set (m_values h) idx v) (\<lambda>vs. set_index v idx (h\<lparr>m_values := vs\<rparr>))"

text \<open>The loops: a hole moves up or down until the value fits; the flag is the \<open>break\<close>.\<close>

definition move_up_step :: "(int \<Rightarrow> int \<Rightarrow> bool) \<Rightarrow> int \<Rightarrow> nat \<times> heap \<times> bool \<Rightarrow> (nat \<times> heap \<times> bool) res" where
  "move_up_step lt val = (\<lambda>(idx, h, _).
     let parent_idx = heap_parent idx
     in if parent_idx = 0 then Inr (idx, h, True)
        else bind_res (vec_get (m_values h) parent_idx) (\<lambda>p.
          if \<not> lt val p then Inr (idx, h, True)
          else bind_res (place idx p h) (\<lambda>h. Inr (parent_idx, h, False))))"

definition move_up :: "(int \<Rightarrow> int \<Rightarrow> bool) \<Rightarrow> nat \<Rightarrow> heap \<Rightarrow> heap res" where
  "move_up lt idx h =
     bind_res (vec_get (m_values h) idx) (\<lambda>val.
     bind_res (while_res (\<lambda>(_, _, stop). \<not> stop) (move_up_step lt val) (idx, h, False)) (\<lambda>(idx, h, _).
     place idx val h))"

definition move_down_step :: "(int \<Rightarrow> int \<Rightarrow> bool) \<Rightarrow> nat \<Rightarrow> int \<Rightarrow> nat \<times> heap \<times> bool \<Rightarrow> (nat \<times> heap \<times> bool) res" where
  "move_down_step lt sz val = (\<lambda>(idx, h, _).
     let left_idx = heap_left idx; right_idx = heap_right idx
     in if left_idx \<ge> sz then Inr (idx, h, True)
        else bind_res (vec_get (m_values h) left_idx) (\<lambda>lv.
          bind_res (if right_idx < sz then bind_res (vec_get (m_values h) right_idx) (\<lambda>rv. Inr (if lt rv lv then right_idx else left_idx))
                    else Inr left_idx) (\<lambda>min_idx.
          bind_res (vec_get (m_values h) min_idx) (\<lambda>min_value.
          if \<not> lt min_value val then Inr (idx, h, True)
          else bind_res (place idx min_value h) (\<lambda>h. Inr (min_idx, h, False))))))"

definition move_down :: "(int \<Rightarrow> int \<Rightarrow> bool) \<Rightarrow> nat \<Rightarrow> heap \<Rightarrow> heap res" where
  "move_down lt idx h =
     bind_res (vec_get (m_values h) idx) (\<lambda>val.
     bind_res (while_res (\<lambda>(_, _, stop). \<not> stop) (move_down_step lt (length (m_values h)) val) (idx, h, False)) (\<lambda>(idx, h, _).
     place idx val h))"

definition set_bounds :: "nat \<Rightarrow> heap \<Rightarrow> heap" where
  "set_bounds s h = h\<lparr>m_value2indices := take s (m_value2indices h) @ replicate (s - length (m_value2indices h)) 0\<rparr>"

definition new_heap :: "nat \<Rightarrow> heap" where
  "new_heap s = set_bounds s \<lparr>m_values = [- 1], m_value2indices = []\<rparr>"

definition heap_empty :: "heap \<Rightarrow> bool" where "heap_empty h \<longleftrightarrow> length (m_values h) = 1"

definition heap_contains :: "heap \<Rightarrow> int \<Rightarrow> bool res" where
  "heap_contains h val =
     (if val < int (length (m_value2indices h)) then bind_res (get_index h val) (\<lambda>i. Inr (i \<noteq> 0)) else Inr False)"

definition heap_reset :: "heap \<Rightarrow> heap" where
  "heap_reset h =
     (if heap_empty h then h
      else h\<lparr>m_value2indices := replicate (length (m_value2indices h)) 0, m_values := [- 1]\<rparr>)"

definition heap_get_bounds :: "heap \<Rightarrow> nat" where "heap_get_bounds h = length (m_value2indices h)"
definition heap_size :: "heap \<Rightarrow> nat" where "heap_size h = length (m_value2indices h)"

definition heap_reserve :: "nat \<Rightarrow> heap \<Rightarrow> heap" where
  "heap_reserve s h = (if s > length (m_value2indices h) then set_bounds s h else h)"

definition heap_min_value :: "heap \<Rightarrow> int res" where "heap_min_value h = vec_get (m_values h) 1"

definition pop_value :: "heap \<Rightarrow> heap res" where
  "pop_value h = bind_res (vec_pop (m_values h)) (\<lambda>vs. Inr (h\<lparr>m_values := vs\<rparr>))"

definition heap_erase_min :: "(int \<Rightarrow> int \<Rightarrow> bool) \<Rightarrow> heap \<Rightarrow> (int \<times> heap) res" where
  "heap_erase_min lt h =
     bind_res (vec_get (m_values h) 1) (\<lambda>result.
     if length (m_values h) = 2 then
       bind_res (set_index result 0 h) (\<lambda>h. bind_res (pop_value h) (\<lambda>h. Inr (result, h)))
     else
       bind_res (vec_get (m_values h) (length (m_values h) - 1)) (\<lambda>last_val.
       bind_res (place 1 last_val h) (\<lambda>h.
       bind_res (set_index result 0 h) (\<lambda>h.
       bind_res (pop_value h) (\<lambda>h.
       bind_res (move_down lt 1 h) (\<lambda>h. Inr (result, h)))))))"

definition heap_erase :: "(int \<Rightarrow> int \<Rightarrow> bool) \<Rightarrow> int \<Rightarrow> heap \<Rightarrow> heap res" where
  "heap_erase lt val h =
     bind_res (get_index h val) (\<lambda>idx.
     if idx = length (m_values h) - 1 then
       bind_res (set_index val 0 h) pop_value
     else
       bind_res (vec_get (m_values h) (length (m_values h) - 1)) (\<lambda>last_val.
       bind_res (place idx last_val h) (\<lambda>h.
       bind_res (set_index val 0 h) (\<lambda>h.
       bind_res (pop_value h) (\<lambda>h.
       let parent_idx = heap_parent idx
       in if parent_idx \<noteq> 0 then
            bind_res (vec_get (m_values h) parent_idx) (\<lambda>p.
            if lt last_val p then move_up lt idx h else move_down lt idx h)
          else move_down lt idx h)))))"

definition heap_decreased :: "(int \<Rightarrow> int \<Rightarrow> bool) \<Rightarrow> int \<Rightarrow> heap \<Rightarrow> heap res" where
  "heap_decreased lt val h = bind_res (get_index h val) (\<lambda>idx. move_up lt idx h)"

definition heap_increased :: "(int \<Rightarrow> int \<Rightarrow> bool) \<Rightarrow> int \<Rightarrow> heap \<Rightarrow> heap res" where
  "heap_increased lt val h = bind_res (get_index h val) (\<lambda>idx. move_down lt idx h)"

definition heap_insert :: "(int \<Rightarrow> int \<Rightarrow> bool) \<Rightarrow> int \<Rightarrow> heap \<Rightarrow> heap res" where
  "heap_insert lt val h =
     (let idx = length (m_values h)
      in bind_res (set_index val idx h) (\<lambda>h.
         move_up lt idx (h\<lparr>m_values := m_values h @ [val]\<rparr>)))"

text \<open>\<open>find_le\<close>: the state is the result and the stack of positions.\<close>

definition find_le_step :: "(int \<Rightarrow> int \<Rightarrow> bool) \<Rightarrow> int \<Rightarrow> heap \<Rightarrow> int list \<times> nat list \<Rightarrow> (int list \<times> nat list) res" where
  "find_le_step lt val h = (\<lambda>(result, todo).
     let index = last todo; todo = butlast todo
     in if index < length (m_values h) \<and> \<not> lt val (m_values h ! index)
        then Inr (result @ [m_values h ! index], todo @ [heap_left index, heap_right index])
        else Inr (result, todo))"

definition heap_find_le :: "(int \<Rightarrow> int \<Rightarrow> bool) \<Rightarrow> int \<Rightarrow> heap \<Rightarrow> int list \<Rightarrow> int list res" where
  "heap_find_le lt val h result =
     bind_res (while_res (\<lambda>(_, todo). todo \<noteq> []) (find_le_step lt val h) (result, [1])) (\<lambda>(result, _). Inr result)"

subsection \<open>Queues of variables\<close>

text \<open>\<open>lt\<close>: variables of larger activity come first.\<close>

definition var_lt :: "digit list \<Rightarrow> int \<Rightarrow> int \<Rightarrow> bool" where
  "var_lt act v1 v2 \<longleftrightarrow> act ! nat v1 > act ! nat v2"

definition new_var_queue :: heap where "new_var_queue = new_heap 128"

definition activity_increased_eh :: "digit list \<Rightarrow> int \<Rightarrow> heap \<Rightarrow> heap res" where
  "activity_increased_eh act v q =
     bind_res (heap_contains q v) (\<lambda>c. if c then heap_decreased (var_lt act) v q else Inr q)"

definition activity_changed_eh :: "digit list \<Rightarrow> int \<Rightarrow> bool \<Rightarrow> heap \<Rightarrow> heap res" where
  "activity_changed_eh act v up q =
     bind_res (heap_contains q v) (\<lambda>c.
     if c then if up then heap_decreased (var_lt act) v q else heap_increased (var_lt act) v q else Inr q)"

definition mk_var_eh :: "digit list \<Rightarrow> int \<Rightarrow> heap \<Rightarrow> heap res" where
  "mk_var_eh act v q = heap_insert (var_lt act) v (heap_reserve (nat (v + 1)) q)"

definition del_var_eh :: "digit list \<Rightarrow> int \<Rightarrow> heap \<Rightarrow> heap res" where
  "del_var_eh act v q = bind_res (heap_contains q v) (\<lambda>c. if c then heap_erase (var_lt act) v q else Inr q)"

definition unassign_var_eh :: "digit list \<Rightarrow> int \<Rightarrow> heap \<Rightarrow> heap res" where
  "unassign_var_eh act v q = bind_res (heap_contains q v) (\<lambda>c. if \<not> c then heap_insert (var_lt act) v q else Inr q)"

definition next_var :: "digit list \<Rightarrow> heap \<Rightarrow> (int \<times> heap) res" where "next_var act q = heap_erase_min (var_lt act) q"
definition min_var :: "heap \<Rightarrow> int res" where "min_var q = heap_min_value q"
definition more_active :: "digit list \<Rightarrow> int \<Rightarrow> int \<Rightarrow> bool" where "more_active act v1 v2 = var_lt act v1 v2"

section \<open>Positions\<close>

text \<open>The values at the positions and the positions of the values are inverse to each other.\<close>

definition heap_index :: "heap \<Rightarrow> bool" where
  "heap_index h \<longleftrightarrow> 0 < length (m_values h)
     \<and> (\<forall>i. 1 \<le> i \<and> i < length (m_values h) \<longrightarrow>
          0 \<le> m_values h ! i \<and> nat (m_values h ! i) < length (m_value2indices h) \<and> m_value2indices h ! nat (m_values h ! i) = i)
     \<and> (\<forall>v < length (m_value2indices h). m_value2indices h ! v \<noteq> 0 \<longrightarrow>
          m_value2indices h ! v < length (m_values h) \<and> m_values h ! (m_value2indices h ! v) = int v)"

definition heap_set :: "heap \<Rightarrow> int set" where
  "heap_set h = (\<lambda>i. m_values h ! i) ` {1..<length (m_values h)}"

definition same_shape :: "heap \<Rightarrow> heap \<Rightarrow> bool" where
  "same_shape g h \<longleftrightarrow> length (m_values g) = length (m_values h) \<and> length (m_value2indices g) = length (m_value2indices h) \<and> heap_set g = heap_set h"

lemma heap_indexD:
  assumes "heap_index h" "1 \<le> i" "i < length (m_values h)"
  shows "0 \<le> m_values h ! i" "nat (m_values h ! i) < length (m_value2indices h)" "m_value2indices h ! nat (m_values h ! i) = i"
  using assms by (simp_all add: heap_index_def)

lemma heap_index_inj:
  assumes "heap_index h" "1 \<le> i" "i < length (m_values h)" "1 \<le> j" "j < length (m_values h)" "m_values h ! i = m_values h ! j"
  shows "i = j"
  using heap_indexD(3) [OF assms(1-3)] heap_indexD(3) [OF assms(1,4,5)] unfolding assms(6) by simp

lemma heap_index_nat_inj:
  assumes "heap_index h" "1 \<le> i" "i < length (m_values h)" "1 \<le> j" "j < length (m_values h)" "i \<noteq> j"
  shows "nat (m_values h ! i) \<noteq> nat (m_values h ! j)"
  using heap_indexD(3) [OF assms(1-3)] heap_indexD(3) [OF assms(1,4,5)] assms(6) by auto

text \<open>The heap in which \<open>v\<close> is at the position \<open>i\<close>, and the heap in which two values have changed their places.\<close>

definition fill :: "nat \<Rightarrow> int \<Rightarrow> heap \<Rightarrow> heap" where
  "fill i v h = h\<lparr>m_values := (m_values h)[i := v], m_value2indices := (m_value2indices h)[nat v := i]\<rparr>"

definition swap_pos :: "nat \<Rightarrow> nat \<Rightarrow> heap \<Rightarrow> heap" where
  "swap_pos i j h = fill j (m_values h ! i) (fill i (m_values h ! j) h)"

lemma fill_simps [simp]:
  "m_values (fill i v h) = (m_values h)[i := v]" "m_value2indices (fill i v h) = (m_value2indices h)[nat v := i]"
  by (simp_all add: fill_def)

lemma place_fill: "i < length (m_values h) \<Longrightarrow> 0 \<le> v \<Longrightarrow> nat v < length (m_value2indices h) \<Longrightarrow> place i v h = Inr (fill i v h)"
  by (simp add: place_def set_index_def fill_def)

lemma fill_same:
  assumes "heap_index h" "1 \<le> i" "i < length (m_values h)"
  shows "fill i (m_values h ! i) h = h"
  using heap_indexD [OF assms] list_update_id [of "m_value2indices h" "nat (m_values h ! i)"] by (simp add: fill_def)

lemma fill_swap:
  assumes "i \<noteq> j" "i < length (m_values h)" "j < length (m_values h)"
  shows "fill j v (fill i (m_values h ! j) h) = swap_pos i j (fill i v h)"
  using assms by (cases "nat v = nat (m_values h ! j)") (simp_all add: swap_pos_def fill_def list_update_swap [of "nat v"])

lemma swap_pos_nth:
  assumes "i < length (m_values h)" "j < length (m_values h)"
  shows "m_values (swap_pos i j h) ! k = (if k = j then m_values h ! i else if k = i then m_values h ! j else m_values h ! k)"
  using assms by (simp add: swap_pos_def nth_list_update)

lemma swap_pos_length [simp]:
  "length (m_values (swap_pos i j h)) = length (m_values h)" "length (m_value2indices (swap_pos i j h)) = length (m_value2indices h)"
  by (simp_all add: swap_pos_def)

lemma swap_pos_index:
  assumes h: "heap_index h" and i: "1 \<le> i" "i < length (m_values h)" and j: "1 \<le> j" "j < length (m_values h)" and ne: "i \<noteq> j"
  shows "heap_index (swap_pos i j h)"
proof -
  let ?v = "m_values h" and ?p = "m_value2indices h" and ?g = "swap_pos i j h"
  note I = heap_indexD [OF h i] and J = heap_indexD [OF h j]
  have ne': "nat (?v ! i) \<noteq> nat (?v ! j)" using heap_index_nat_inj [OF h i j ne] .
  have p: "m_value2indices ?g ! w = (if w = nat (?v ! i) then j else if w = nat (?v ! j) then i else ?p ! w)" for w
    using I J by (simp add: swap_pos_def nth_list_update)
  have v: "m_values ?g ! k = (if k = j then ?v ! i else if k = i then ?v ! j else ?v ! k)" for k
    by (rule swap_pos_nth [OF i(2) j(2)])
  show ?thesis unfolding heap_index_def
  proof (intro conjI allI impI)
    show "0 < length (m_values ?g)" using i(2) by (metis swap_pos_length(1) gr_zeroI not_less0)
  next
    fix k assume "1 \<le> k \<and> k < length (m_values ?g)"
    then have k: "1 \<le> k" "k < length ?v" by simp_all
    note K = heap_indexD [OF h k]
    show "0 \<le> m_values ?g ! k" "nat (m_values ?g ! k) < length (m_value2indices ?g)" using I J K v by simp_all
    show "m_value2indices ?g ! nat (m_values ?g ! k) = k"
    proof (cases "k = i \<or> k = j")
      case True
      then show ?thesis using ne ne' unfolding v p by auto
    next
      case False
      then have "nat (?v ! k) \<noteq> nat (?v ! i)" "nat (?v ! k) \<noteq> nat (?v ! j)" using heap_index_nat_inj [OF h k] i j by simp_all
      then show ?thesis using False K unfolding v p by simp
    qed
  next
    fix w assume w: "w < length (m_value2indices ?g)" "m_value2indices ?g ! w \<noteq> 0"
    show "m_value2indices ?g ! w < length (m_values ?g)" using h w i j unfolding p by (auto simp: heap_index_def split: if_splits)
    show "m_values ?g ! (m_value2indices ?g ! w) = int w"
    proof (cases "w = nat (?v ! i) \<or> w = nat (?v ! j)")
      case True
      then show ?thesis using I J ne ne' unfolding v p by auto
    next
      case False
      then have w': "?p ! w \<noteq> 0" "w < length ?p" using w unfolding p by (auto split: if_splits)
      then have q: "?p ! w < length ?v" "?v ! (?p ! w) = int w" using h by (simp_all add: heap_index_def)
      then have "?p ! w \<noteq> i" "?p ! w \<noteq> j" using False by auto
      then show ?thesis using False q unfolding v p by simp
    qed
  qed
qed

lemma swap_pos_set:
  assumes "1 \<le> i" "i < length (m_values h)" "1 \<le> j" "j < length (m_values h)"
  shows "heap_set (swap_pos i j h) = heap_set h"
proof
  note v = swap_pos_nth [OF assms(2,4)]
  show "heap_set (swap_pos i j h) \<subseteq> heap_set h" using assms by (auto simp: heap_set_def v)
  show "heap_set h \<subseteq> heap_set (swap_pos i j h)"
  proof
    fix x assume "x \<in> heap_set h"
    then obtain k where k: "1 \<le> k" "k < length (m_values h)" "x = m_values h ! k" by (auto simp: heap_set_def)
    let ?k = "if k = i then j else if k = j then i else k"
    have "m_values (swap_pos i j h) ! ?k = x" using k by (simp add: v)
    moreover have "1 \<le> ?k" "?k < length (m_values (swap_pos i j h))" using assms k by auto
    ultimately show "x \<in> heap_set (swap_pos i j h)" unfolding heap_set_def
      by (intro image_eqI [of _ _ ?k]) simp_all
  qed
qed

lemma swap_pos_shape:
  assumes "same_shape h h0" "1 \<le> i" "i < length (m_values h)" "1 \<le> j" "j < length (m_values h)"
  shows "same_shape (swap_pos i j h) h0"
  using assms swap_pos_set [OF assms(2-5)] by (simp add: same_shape_def)

section \<open>The order\<close>

text \<open>What the heap requires of its order: \<open>\<not> lt b a\<close> is a total preorder.\<close>

locale weak_order =
  fixes lt :: "int \<Rightarrow> int \<Rightarrow> bool"
  assumes lt_asym: "lt a b \<Longrightarrow> \<not> lt b a"
    and not_lt_trans: "\<not> lt b a \<Longrightarrow> \<not> lt c b \<Longrightarrow> \<not> lt c a"
begin

lemma lt_irrefl: "\<not> lt a a"
  using lt_asym by blast

lemma lt_not_lt_trans: "lt a b \<Longrightarrow> \<not> lt c b \<Longrightarrow> lt a c"
  using not_lt_trans by blast

end

definition heap_order :: "(int \<Rightarrow> int \<Rightarrow> bool) \<Rightarrow> int list \<Rightarrow> bool" where
  "heap_order lt v \<longleftrightarrow> (\<forall>i. 2 \<le> i \<and> i < length v \<longrightarrow> \<not> lt (v ! i) (v ! (i div 2)))"

text \<open>The order may fail between a position and its parent, or between a position and its children; the children
  are not below the parent.\<close>

definition grand_order :: "(int \<Rightarrow> int \<Rightarrow> bool) \<Rightarrow> nat \<Rightarrow> int list \<Rightarrow> bool" where
  "grand_order lt idx v \<longleftrightarrow> (\<forall>c. 2 \<le> idx \<and> c < length v \<and> c div 2 = idx \<longrightarrow> \<not> lt (v ! c) (v ! (idx div 2)))"

definition order_but_up :: "(int \<Rightarrow> int \<Rightarrow> bool) \<Rightarrow> nat \<Rightarrow> int list \<Rightarrow> bool" where
  "order_but_up lt idx v \<longleftrightarrow> grand_order lt idx v
     \<and> (\<forall>i. 2 \<le> i \<and> i < length v \<and> i \<noteq> idx \<longrightarrow> \<not> lt (v ! i) (v ! (i div 2)))"

definition order_but_down :: "(int \<Rightarrow> int \<Rightarrow> bool) \<Rightarrow> nat \<Rightarrow> int list \<Rightarrow> bool" where
  "order_but_down lt idx v \<longleftrightarrow> grand_order lt idx v
     \<and> (\<forall>i. 2 \<le> i \<and> i < length v \<and> i div 2 \<noteq> idx \<longrightarrow> \<not> lt (v ! i) (v ! (i div 2)))"

definition heap_ok :: "(int \<Rightarrow> int \<Rightarrow> bool) \<Rightarrow> heap \<Rightarrow> bool" where
  "heap_ok lt h \<longleftrightarrow> heap_index h \<and> heap_order lt (m_values h)"

section \<open>Moving a value\<close>

context weak_order begin

lemma swap_up_order:
  assumes o: "order_but_up lt i v" and i: "2 \<le> i" "i < length v" and l: "lt (v ! i) (v ! (i div 2))"
    and w: "length w = length v" "\<And>k. w ! k = (if k = i div 2 then v ! i else if k = i then v ! (i div 2) else v ! k)"
  shows "order_but_up lt (i div 2) w"
proof -
  let ?p = "i div 2"
  have g: "\<And>c. c < length v \<Longrightarrow> c div 2 = i \<Longrightarrow> \<not> lt (v ! c) (v ! ?p)" and ord: "\<And>j. 2 \<le> j \<Longrightarrow> j < length v \<Longrightarrow> j \<noteq> i \<Longrightarrow> \<not> lt (v ! j) (v ! (j div 2))"
    using o i by (simp_all add: order_but_up_def grand_order_def)
  have p: "?p \<noteq> i" "?p < length v" using i by simp_all
  have "\<not> lt (w ! j) (w ! (j div 2))" if j: "2 \<le> j" "j < length v" "j \<noteq> ?p" for j
  proof -
    consider "j = i" | "j div 2 = i" | "j \<noteq> i" "j div 2 = ?p" | "j \<noteq> i" "j div 2 \<noteq> i" "j div 2 \<noteq> ?p" by blast
    then show ?thesis
    proof cases
      case 1
      then show ?thesis using p lt_asym [OF l] by (simp add: w)
    next
      case 2
      then have "j \<noteq> i" using j by auto
      then show ?thesis using 2 j p g [of j] by (simp add: w)
    next
      case 3
      have "\<not> lt (v ! j) (v ! ?p)" using ord [OF j(1,2) 3(1)] 3(2) by simp
      then show ?thesis using 3 j p not_lt_trans [OF lt_asym [OF l]] by (simp add: w)
    next
      case 4
      then show ?thesis using j ord [OF j(1,2)] by (simp add: w)
    qed
  qed
  moreover have "\<not> lt (w ! c) (w ! (?p div 2))" if c: "2 \<le> ?p" "c < length v" "c div 2 = ?p" for c
  proof -
    have q: "?p div 2 \<noteq> ?p" "?p div 2 \<noteq> i" "c \<noteq> ?p" "2 \<le> c" using c i by auto
    have gp: "\<not> lt (v ! ?p) (v ! (?p div 2))" using ord [OF c(1) p(2,1)] .
    show ?thesis
    proof (cases "c = i")
      case True
      then show ?thesis using q gp by (simp add: w)
    next
      case False
      then have "\<not> lt (v ! c) (v ! ?p)" using ord [OF q(4) c(2)] c(3) by simp
      then show ?thesis using False q not_lt_trans [OF gp] by (simp add: w)
    qed
  qed
  ultimately show ?thesis by (auto simp: order_but_up_def grand_order_def w(1))
qed

lemma swap_down_order:
  assumes o: "order_but_down lt i v" and i: "1 \<le> i" and m: "m < length v" "m div 2 = i"
    and min: "\<And>c. c < length v \<Longrightarrow> c div 2 = i \<Longrightarrow> \<not> lt (v ! c) (v ! m)" and l: "lt (v ! m) (v ! i)"
    and w: "length w = length v" "\<And>k. w ! k = (if k = m then v ! i else if k = i then v ! m else v ! k)"
  shows "order_but_down lt m w"
proof -
  have g: "\<And>c. 2 \<le> i \<Longrightarrow> c < length v \<Longrightarrow> c div 2 = i \<Longrightarrow> \<not> lt (v ! c) (v ! (i div 2))"
    and ord: "\<And>j. 2 \<le> j \<Longrightarrow> j < length v \<Longrightarrow> j div 2 \<noteq> i \<Longrightarrow> \<not> lt (v ! j) (v ! (j div 2))"
    using o by (simp_all add: order_but_down_def grand_order_def)
  have mi: "m \<noteq> i" "2 \<le> m" using m i by auto
  have "\<not> lt (w ! j) (w ! (j div 2))" if j: "2 \<le> j" "j < length v" "j div 2 \<noteq> m" for j
  proof -
    consider "j = m" | "j \<noteq> m" "j div 2 = i" | "j = i" | "j \<noteq> m" "j \<noteq> i" "j div 2 \<noteq> i" by blast
    then show ?thesis
    proof cases
      case 1
      then show ?thesis using m mi lt_asym [OF l] by (simp add: w)
    next
      case 2
      then have "j \<noteq> i" using j by auto
      then show ?thesis using 2 j mi min [of j] by (simp add: w)
    next
      case 3
      then have "i div 2 \<noteq> i" using j by auto
      then show ?thesis using 3 j mi g [of m] m by (simp add: w)
    next
      case 4
      then show ?thesis using j ord [OF j(1,2)] by (simp add: w)
    qed
  qed
  moreover have "\<not> lt (w ! c) (w ! (m div 2))" if c: "c < length v" "c div 2 = m" for c
  proof -
    have "c \<noteq> m" "c \<noteq> i" "2 \<le> c" using c m mi by auto
    then show ?thesis using c m mi ord [of c] by (simp add: w)
  qed
  ultimately show ?thesis by (auto simp: order_but_down_def grand_order_def w(1))
qed

lemma move_up_ok:
  assumes h: "heap_index h" and i: "1 \<le> idx" "idx < length (m_values h)" and o: "order_but_up lt idx (m_values h)"
  shows "yields (move_up lt idx h) (\<lambda>g. heap_ok lt g \<and> same_shape g h)"
proof -
  let ?val = "m_values h ! idx"
  let ?I = "\<lambda>(i, k, stop). let g = fill i ?val k in 1 \<le> i \<and> i < length (m_values k) \<and> heap_index g \<and> same_shape g h
    \<and> (if stop then heap_order lt (m_values g) else order_but_up lt i (m_values g))"
  let ?w = "while_res (\<lambda>(_, _, stop). \<not> stop) (move_up_step lt ?val) (idx, h, False)"
  have "\<exists>s. ?w = Inr s \<and> (\<exists>i g. s = (i, g, True) \<and> ?I s)"
  proof (rule while_res_total [where I = ?I and m = "\<lambda>(i, _, stop). 2 * i + (if stop then 0 else 1)"])
    show "?I (idx, h, False)" using h i o fill_same [OF h i] by (simp add: same_shape_def Let_def)
  next
    fix s assume s: "?I s" "case s of (_, _, stop) \<Rightarrow> \<not> stop"
    obtain i k stop where sk: "s = (i, k, stop)" by (cases s)
    let ?g = "fill i ?val k" and ?p = "i div 2"
    have I: "1 \<le> i" "i < length (m_values k)" "heap_index ?g" "same_shape ?g h" "order_but_up lt i (m_values ?g)"
      using s by (simp_all add: sk Let_def)
    show "\<exists>t. move_up_step lt ?val s = Inr t \<and> ?I t \<and> (case t of (i, _, stop) \<Rightarrow> 2 * i + (if stop then 0 else 1)) < (case s of (i, _, stop) \<Rightarrow> 2 * i + (if stop then 0 else 1))"
    proof (cases "?p = 0 \<or> \<not> lt ?val (m_values k ! ?p)")
      case True
      have p: "?p < length (m_values k)" using I by simp
      have "heap_order lt (m_values ?g)"
        unfolding heap_order_def
      proof (intro allI impI)
        fix j assume j: "2 \<le> j \<and> j < length (m_values ?g)"
        show "\<not> lt (m_values ?g ! j) (m_values ?g ! (j div 2))"
        proof (cases "j = i")
          case eq: True
          have "i div 2 \<noteq> i" using j eq by auto
          then show ?thesis using True I(2) j unfolding eq by auto
        next
          case False
          then show ?thesis using I(5) j by (auto simp: order_but_up_def)
        qed
      qed
      moreover have "move_up_step lt ?val s = Inr (i, k, True)"
        using True s(2) p by (auto simp: sk move_up_step_def heap_parent_def Let_def)
      ultimately show ?thesis using I s(2) by (auto simp: sk Let_def)
    next
      case False
      then have p: "1 \<le> ?p" "?p < length (m_values k)" "?p \<noteq> i" "2 \<le> i" "lt ?val (m_values k ! ?p)" using I(1,2) by auto
      let ?k = "fill i (m_values k ! ?p) k"
      have gp: "m_values ?g ! ?p = m_values k ! ?p" "m_values ?g ! i = ?val" using p I(2) by simp_all
      have P: "0 \<le> m_values k ! ?p" "nat (m_values k ! ?p) < length (m_value2indices k)"
        using heap_indexD [OF I(3) p(1)] p(2) gp(1) by simp_all
      have sw: "fill ?p ?val ?k = swap_pos i ?p ?g" by (rule fill_swap) (use p I in simp_all)
      have step: "move_up_step lt ?val s = Inr (?p, ?k, False)"
        using False P I(2) s(2) p(2) by (simp add: sk move_up_step_def heap_parent_def Let_def place_fill)
      have l: "i < length (m_values ?g)" "?p < length (m_values ?g)" using I(2) p(2) by simp_all
      have "heap_index (swap_pos i ?p ?g)" by (rule swap_pos_index [OF I(3,1) l(1) p(1) l(2)]) (use p in simp)
      moreover have "same_shape (swap_pos i ?p ?g) h" by (rule swap_pos_shape [OF I(4,1) l(1) p(1) l(2)])
      moreover have "order_but_up lt ?p (m_values (swap_pos i ?p ?g))"
      proof (rule swap_up_order [OF I(5) p(4) l(1)])
        show "lt (m_values ?g ! i) (m_values ?g ! ?p)" unfolding gp by (rule p(5))
        show "m_values (swap_pos i ?p ?g) ! k = (if k = ?p then m_values ?g ! i else if k = i then m_values ?g ! ?p else m_values ?g ! k)" for k
          by (rule swap_pos_nth [OF l])
      qed simp
      ultimately have "?I (?p, ?k, False)" using p(1,2) unfolding prod.case Let_def sw by simp
      then show ?thesis using step p s(2) by (simp add: sk)
    qed
  next
    fix s assume "?I s" "\<not> (case s of (_, _, stop) \<Rightarrow> \<not> stop)"
    then show "\<exists>i g. s = (i, g, True) \<and> ?I s" by (cases s) simp
  qed
  then obtain i g where w: "?w = Inr (i, g, True)" and I: "1 \<le> i" "i < length (m_values g)" "heap_index (fill i ?val g)"
    "same_shape (fill i ?val g) h" "heap_order lt (m_values (fill i ?val g))"
    by (auto simp: Let_def)
  have v: "0 \<le> ?val" "nat ?val < length (m_value2indices g)" using heap_indexD [OF h i] I(4) by (simp_all add: same_shape_def)
  show ?thesis using w I i(2) place_fill [OF I(2) v] by (simp add: move_up_def heap_ok_def)
qed

end

context weak_order begin

lemma children:
  assumes "j div 2 = i" "1 \<le> i"
  shows "j = heap_left i \<or> j = heap_right i"
  using assms by (auto simp: heap_left_def heap_right_def)

lemma move_down_step_cases:
  assumes g: "heap_index g" and i: "1 \<le> i" "i < length (m_values k)" and gk: "g = fill i val k"
  shows "(\<exists>m. m < length (m_values k) \<and> m div 2 = i \<and> (\<forall>c. c < length (m_values k) \<and> c div 2 = i \<longrightarrow> \<not> lt (m_values k ! c) (m_values k ! m))
      \<and> move_down_step lt (length (m_values k)) val (i, k, b) =
        (if \<not> lt (m_values k ! m) val then Inr (i, k, True) else Inr (m, fill i (m_values k ! m) k, False)))
    \<or> (\<forall>c. c div 2 = i \<longrightarrow> \<not> c < length (m_values k)) \<and> move_down_step lt (length (m_values k)) val (i, k, b) = Inr (i, k, True)"
proof (cases "heap_left i < length (m_values k)")
  case False
  have "\<not> c < length (m_values k)" if "c div 2 = i" for c
    using children [OF that i(1)] False by (auto simp: heap_left_def heap_right_def)
  then show ?thesis using False by (simp add: move_down_step_def Let_def)
next
  case True
  let ?n = "length (m_values k)" and ?v = "m_values k" and ?l = "heap_left i" and ?r = "heap_right i"
  let ?m = "if ?r < ?n \<and> lt (?v ! ?r) (?v ! ?l) then ?r else ?l"
  have m: "?m < ?n" "?m div 2 = i" "1 \<le> ?m" "?m \<noteq> i" using True i(1) by (auto simp: heap_left_def heap_right_def)
  have min: "\<not> lt (?v ! c) (?v ! ?m)" if c: "c < ?n" "c div 2 = i" for c
  proof -
    consider "c = ?l" | "c = ?r" using children [OF c(2) i(1)] by blast
    then show ?thesis
    proof cases
      case 1
      then show ?thesis using lt_asym lt_irrefl by auto
    next
      case 2
      then show ?thesis using c(1) lt_irrefl by auto
    qed
  qed
  have P: "0 \<le> ?v ! ?m" "nat (?v ! ?m) < length (m_value2indices k)"
    using heap_indexD [OF g m(3)] m(1,4) unfolding gk by simp_all
  have min_idx: "(if ?r < ?n then bind_res (vec_get ?v ?r) (\<lambda>rv. Inr (if lt rv (?v ! ?l) then ?r else ?l)) else Inr ?l) = Inr ?m"
    by simp
  have "move_down_step lt ?n val (i, k, b) = (if \<not> lt (?v ! ?m) val then Inr (i, k, True) else Inr (?m, fill i (?v ! ?m) k, False))"
    unfolding move_down_step_def Let_def prod.case vec_in_bounds(1) [OF True] bind_res.simps min_idx vec_in_bounds(1) [OF m(1)] place_fill [OF i(2) P]
    using True by simp
  then show ?thesis using m(1,2) min by blast
qed

lemma move_down_ok:
  assumes h: "heap_index h" and i: "1 \<le> idx" "idx < length (m_values h)" and o: "order_but_down lt idx (m_values h)"
  shows "yields (move_down lt idx h) (\<lambda>g. heap_ok lt g \<and> same_shape g h)"
proof -
  let ?val = "m_values h ! idx"
  let ?n = "length (m_values h)"
  let ?I = "\<lambda>(i, k, stop). let g = fill i ?val k in 1 \<le> i \<and> i < length (m_values k) \<and> heap_index g \<and> same_shape g h
    \<and> (if stop then heap_order lt (m_values g) else order_but_down lt i (m_values g))"
  let ?m = "\<lambda>(i, k, stop). 2 * (?n - i) + (if stop then 0 else 1)"
  let ?w = "while_res (\<lambda>(_, _, stop). \<not> stop) (move_down_step lt ?n ?val) (idx, h, False)"
  have "\<exists>s. ?w = Inr s \<and> (\<exists>i g. s = (i, g, True) \<and> ?I s)"
  proof (rule while_res_total [where I = ?I and m = ?m])
    show "?I (idx, h, False)" using h i o fill_same [OF h i] by (simp add: same_shape_def Let_def)
  next
    fix s :: "nat \<times> heap \<times> bool" assume s: "?I s" "case s of (_, _, stop) \<Rightarrow> \<not> stop"
    obtain i k stop where sk: "s = (i, k, stop)" by (cases s)
    let ?g = "fill i ?val k"
    have I: "1 \<le> i" "i < length (m_values k)" "heap_index ?g" "same_shape ?g h" "order_but_down lt i (m_values ?g)"
      using s by (simp_all add: sk Let_def)
    have n: "length (m_values k) = ?n" using I(4) by (simp add: same_shape_def)
    have old: "m_values ?g ! c = m_values k ! c" if "c div 2 = i" for c using that I(1) by simp
    have new: "m_values ?g ! i = ?val" using I(2) by simp
    have stop: "heap_order lt (m_values ?g)" if c: "\<And>c. c < ?n \<Longrightarrow> c div 2 = i \<Longrightarrow> \<not> lt (m_values k ! c) ?val"
      unfolding heap_order_def
    proof (intro allI impI)
      fix j assume j: "2 \<le> j \<and> j < length (m_values ?g)"
      show "\<not> lt (m_values ?g ! j) (m_values ?g ! (j div 2))"
      proof (cases "j div 2 = i")
        case True
        then show ?thesis using c [of j] j n unfolding old [OF True] True new by simp
      next
        case False
        then show ?thesis using I(5) j by (auto simp: order_but_down_def)
      qed
    qed
    from move_down_step_cases [OF I(3,1,2) refl, of stop]
    consider m where "m < ?n" "m div 2 = i" "\<And>c. c < ?n \<Longrightarrow> c div 2 = i \<Longrightarrow> \<not> lt (m_values k ! c) (m_values k ! m)" "\<not> lt (m_values k ! m) ?val"
        "move_down_step lt ?n ?val s = Inr (i, k, True)"
      | m where "m < ?n" "m div 2 = i" "\<And>c. c < ?n \<Longrightarrow> c div 2 = i \<Longrightarrow> \<not> lt (m_values k ! c) (m_values k ! m)" "lt (m_values k ! m) ?val"
        "move_down_step lt ?n ?val s = Inr (m, fill i (m_values k ! m) k, False)"
      | "\<And>c. c div 2 = i \<Longrightarrow> \<not> c < ?n" "move_down_step lt ?n ?val s = Inr (i, k, True)"
      unfolding n sk by (auto split: if_splits)
    then show "\<exists>t. move_down_step lt ?n ?val s = Inr t \<and> ?I t \<and> ?m t < ?m s"
    proof cases
      case (1 m)
      have "heap_order lt (m_values ?g)" using not_lt_trans [OF 1(4)] 1(3) by (intro stop) blast
      then show ?thesis using 1(5) I s(2) by (auto simp: sk Let_def)
    next
      case (2 m)
      have m: "1 \<le> m" "m \<noteq> i" "m < length (m_values k)" "i < m" using 2(1,2) I(1) n by auto
      let ?k = "fill i (m_values k ! m) k"
      have sw: "fill m ?val ?k = swap_pos i m ?g" by (rule fill_swap) (use m I in simp_all)
      have l: "i < length (m_values ?g)" "m < length (m_values ?g)" using I(2) m(3) by simp_all
      have "heap_index (swap_pos i m ?g)" by (rule swap_pos_index [OF I(3,1) l(1) m(1) l(2)]) (use m in simp)
      moreover have "same_shape (swap_pos i m ?g) h" by (rule swap_pos_shape [OF I(4,1) l(1) m(1) l(2)])
      moreover have "order_but_down lt m (m_values (swap_pos i m ?g))"
      proof (rule swap_down_order [OF I(5,1) l(2) 2(2)])
        show "\<not> lt (m_values ?g ! c) (m_values ?g ! m)" if "c < length (m_values ?g)" "c div 2 = i" for c
          using 2(3) [of c] that n unfolding old [OF that(2)] old [OF 2(2)] by simp
        show "lt (m_values ?g ! m) (m_values ?g ! i)" unfolding old [OF 2(2)] new by (rule 2(4))
        show "m_values (swap_pos i m ?g) ! c = (if c = m then m_values ?g ! i else if c = i then m_values ?g ! m else m_values ?g ! c)" for c
          by (rule swap_pos_nth [OF l])
      qed simp
      ultimately have "?I (m, ?k, False)" using m unfolding prod.case Let_def sw by simp
      then show ?thesis using 2(5) m n s(2) by (simp add: sk)
    next
      case 3
      have "heap_order lt (m_values ?g)" using 3(1) by (intro stop) blast
      then show ?thesis using 3(2) I s(2) by (auto simp: sk Let_def)
    qed
  next
    fix s assume "?I s" "\<not> (case s of (_, _, stop) \<Rightarrow> \<not> stop)"
    then show "\<exists>i g. s = (i, g, True) \<and> ?I s" by (cases s) simp
  qed
  then obtain i g where w: "?w = Inr (i, g, True)" and I: "1 \<le> i" "i < length (m_values g)" "heap_index (fill i ?val g)"
    "same_shape (fill i ?val g) h" "heap_order lt (m_values (fill i ?val g))"
    by (auto simp: Let_def)
  have v: "0 \<le> ?val" "nat ?val < length (m_value2indices g)" using heap_indexD [OF h i] I(4) by (simp_all add: same_shape_def)
  show ?thesis using w I i(2) place_fill [OF I(2) v] by (simp add: move_down_def heap_ok_def)
qed

end

section \<open>Removing a value\<close>

definition remove_pos :: "nat \<Rightarrow> heap \<Rightarrow> heap" where
  "remove_pos i h =
     (let vs = m_values h; l = last vs
      in \<lparr>m_values = butlast (vs[i := l]), m_value2indices = (m_value2indices h)[nat l := i, nat (vs ! i) := 0]\<rparr>)"

lemma remove_pos_length [simp]:
  "length (m_values (remove_pos i h)) = length (m_values h) - 1" "length (m_value2indices (remove_pos i h)) = length (m_value2indices h)"
  by (simp_all add: remove_pos_def Let_def)

lemma remove_pos_nth:
  assumes "j < length (m_values h) - 1" "i < length (m_values h)"
  shows "m_values (remove_pos i h) ! j = (if j = i then last (m_values h) else m_values h ! j)"
  using assms by (simp add: remove_pos_def Let_def nth_butlast nth_list_update)

lemma remove_pos_index:
  assumes h: "heap_index h" and i: "1 \<le> i" "i < length (m_values h)"
  shows "heap_index (remove_pos i h)" "heap_set (remove_pos i h) = heap_set h - {m_values h ! i}"
proof -
  let ?v = "m_values h" and ?p = "m_value2indices h" and ?g = "remove_pos i h"
  let ?e = "length ?v - 1"
  have "?v \<noteq> []" using i by auto
  then have e: "1 \<le> ?e" "?e < length ?v" "last ?v = ?v ! ?e" using i by (auto simp: last_conv_nth)
  note I = heap_indexD [OF h i] and E = heap_indexD [OF h e(1,2)]
  have v: "m_values ?g ! j = (if j = i then ?v ! ?e else ?v ! j)" if "j < ?e" for j
    using remove_pos_nth [OF that i(2)] e(3) by simp
  have p: "m_value2indices ?g ! w = (if w = nat (?v ! i) then 0 else if w = nat (?v ! ?e) then i else ?p ! w)" for w
    using I E e(3) by (simp add: remove_pos_def Let_def nth_list_update)
  have ne: "nat (?v ! j) \<noteq> nat (?v ! k)" if "1 \<le> j" "j < length ?v" "1 \<le> k" "k < length ?v" "j \<noteq> k" for j k
    using heap_index_nat_inj [OF h that] .
  show "heap_index ?g" unfolding heap_index_def
  proof (intro conjI allI impI)
    show "0 < length (m_values ?g)" using e(1) by simp
  next
    fix j assume "1 \<le> j \<and> j < length (m_values ?g)"
    then have j: "1 \<le> j" "j < ?e" "j < length ?v" by auto
    note J = heap_indexD [OF h j(1,3)]
    show "0 \<le> m_values ?g ! j" "nat (m_values ?g ! j) < length (m_value2indices ?g)" using E J v [OF j(2)] by simp_all
    show "m_value2indices ?g ! nat (m_values ?g ! j) = j"
    proof (cases "j = i")
      case True
      then show ?thesis using ne [OF e(1,2) i] j v [OF j(2)] p by simp
    next
      case False
      then show ?thesis using ne [OF j(1,3) i] ne [OF j(1,3) e(1,2)] j(2) J v [OF j(2)] p by simp
    qed
  next
    fix w assume w: "w < length (m_value2indices ?g)" "m_value2indices ?g ! w \<noteq> 0"
    have wi: "w \<noteq> nat (?v ! i)" using w(2) p by auto
    have "m_value2indices ?g ! w < ?e \<and> m_values ?g ! (m_value2indices ?g ! w) = int w"
    proof (cases "w = nat (?v ! ?e)")
      case True
      then have "i \<noteq> ?e" using wi by auto
      then have "i < ?e" using i(2) by simp
      then show ?thesis using True wi E(1) v [of i] p by simp
    next
      case False
      then have "?p ! w \<noteq> 0" "w < length ?p" using w wi p by simp_all
      then have q: "?p ! w < length ?v" "?v ! (?p ! w) = int w" using h by (simp_all add: heap_index_def)
      have "?p ! w \<noteq> ?e" "?p ! w \<noteq> i" using q(2) False wi by auto
      then show ?thesis using q wi False v [of "?p ! w"] p by simp
    qed
    then show "m_value2indices ?g ! w < length (m_values ?g)" "m_values ?g ! (m_value2indices ?g ! w) = int w" by simp_all
  qed
  show "heap_set ?g = heap_set h - {?v ! i}"
  proof
    show "heap_set ?g \<subseteq> heap_set h - {?v ! i}"
    proof
      fix x assume "x \<in> heap_set ?g"
      then obtain j where j: "1 \<le> j" "j < ?e" "x = m_values ?g ! j" by (auto simp: heap_set_def)
      let ?j = "if j = i then ?e else j"
      have "x = ?v ! ?j" "1 \<le> ?j" "?j < length ?v" "?j \<noteq> i" using j v [OF j(2)] e by auto
      then show "x \<in> heap_set h - {?v ! i}" using heap_index_inj [OF h _ _ i] by (auto simp: heap_set_def simp del: if_split)
    qed
    show "heap_set h - {?v ! i} \<subseteq> heap_set ?g"
    proof
      fix x assume x: "x \<in> heap_set h - {?v ! i}"
      then obtain k where k: "1 \<le> k" "k < length ?v" "x = ?v ! k" by (auto simp: heap_set_def)
      have ki: "k \<noteq> i" using x k(3) by auto
      let ?k = "if k = ?e then i else k"
      have k': "1 \<le> ?k" "?k < ?e" using k ki i by auto
      have "m_values ?g ! ?k = x" using v [OF k'(2)] k ki by auto
      then show "x \<in> heap_set ?g" using k' unfolding heap_set_def by (intro image_eqI [of _ _ ?k]) simp_all
    qed
  qed
qed

lemma remove_pos_code:
  assumes h: "heap_index h" and i: "1 \<le> i" "i < length (m_values h)"
  shows "bind_res (place i (m_values h ! (length (m_values h) - 1)) h) (\<lambda>k. bind_res (set_index (m_values h ! i) 0 k) pop_value) = Inr (remove_pos i h)"
    "i = length (m_values h) - 1 \<Longrightarrow> bind_res (set_index (m_values h ! i) 0 h) pop_value = Inr (remove_pos i h)"
proof -
  let ?e = "length (m_values h) - 1"
  have "m_values h \<noteq> []" using i by auto
  then have e: "1 \<le> ?e" "?e < length (m_values h)" "last (m_values h) = m_values h ! ?e" "m_values h \<noteq> []" using i by (auto simp: last_conv_nth)
  note I = heap_indexD [OF h i] and E = heap_indexD [OF h e(1,2)]
  show "bind_res (place i (m_values h ! ?e) h) (\<lambda>k. bind_res (set_index (m_values h ! i) 0 k) pop_value) = Inr (remove_pos i h)"
    using I E i e by (simp add: place_fill set_index_def pop_value_def vec_pop_def remove_pos_def fill_def Let_def)
  assume l: "i = ?e"
  have "(m_values h)[i := last (m_values h)] = m_values h" "(m_value2indices h)[nat (last (m_values h)) := i] = m_value2indices h"
    using l e(3) I list_update_id [of "m_values h" i] list_update_id [of "m_value2indices h" "nat (m_values h ! i)"] by simp_all
  then show "bind_res (set_index (m_values h ! i) 0 h) pop_value = Inr (remove_pos i h)"
    using I e(4) by (simp add: set_index_def pop_value_def vec_pop_def remove_pos_def Let_def)
qed

context weak_order begin

lemma remove_pos_grand:
  assumes o: "heap_order lt (m_values h)" and i: "1 \<le> i" "i < length (m_values h) - 1"
  shows "grand_order lt i (m_values (remove_pos i h))"
  unfolding grand_order_def
proof (intro allI impI)
  fix c assume "2 \<le> i \<and> c < length (m_values (remove_pos i h)) \<and> c div 2 = i"
  then have c: "2 \<le> i" "c < length (m_values h) - 1" "c div 2 = i" by simp_all
  then have n: "c \<noteq> i" "2 \<le> c" "i div 2 \<noteq> i" "i div 2 < length (m_values h) - 1" "i < length (m_values h)" using i by auto
  have "\<not> lt (m_values h ! i) (m_values h ! (i div 2))" "\<not> lt (m_values h ! c) (m_values h ! (c div 2))"
    using o c(1,2) n unfolding heap_order_def by (metis less_diff_conv add_lessD1)+
  then show "\<not> lt (m_values (remove_pos i h) ! c) (m_values (remove_pos i h) ! (i div 2))"
    using not_lt_trans c n by (simp add: remove_pos_nth)
qed

lemma remove_pos_order:
  assumes o: "heap_order lt (m_values h)" and i: "1 \<le> i" "i < length (m_values h) - 1"
  shows "2 \<le> i \<Longrightarrow> lt (last (m_values h)) (m_values h ! (i div 2)) \<Longrightarrow> order_but_up lt i (m_values (remove_pos i h))"
    "(2 \<le> i \<Longrightarrow> \<not> lt (last (m_values h)) (m_values h ! (i div 2))) \<Longrightarrow> order_but_down lt i (m_values (remove_pos i h))"
proof -
  let ?v = "m_values h" and ?w = "m_values (remove_pos i h)"
  note g = remove_pos_grand [OF o i]
  have w: "?w ! j = (if j = i then last ?v else ?v ! j)" if "j < length ?w" for j using remove_pos_nth [of j h i] that i by simp
  have i2: "i div 2 < length ?w" using i(2) by (simp add: le_less_trans [OF div_le_dividend])
  have ord: "\<not> lt (?w ! j) (?w ! (j div 2))" if j: "2 \<le> j" "j < length ?w" "j \<noteq> i" "j div 2 \<noteq> i" for j
    using o j w [of j] w [of "j div 2"] by (simp add: heap_order_def)
  show "order_but_up lt i ?w" if p: "2 \<le> i" "lt (last ?v) (?v ! (i div 2))"
    unfolding order_but_up_def
  proof (intro conjI g allI impI)
    fix j assume j: "2 \<le> j \<and> j < length ?w \<and> j \<noteq> i"
    show "\<not> lt (?w ! j) (?w ! (j div 2))"
    proof (cases "j div 2 = i")
      case True
      have "\<not> lt (?w ! j) (?w ! (i div 2))" using g p(1) j True by (simp add: grand_order_def)
      moreover have "?w ! (i div 2) = ?v ! (i div 2)" "?w ! i = last ?v" using w [OF i2] w [of i] p(1) i by auto
      ultimately show ?thesis using not_lt_trans [OF lt_asym [OF p(2)]] True by simp
    qed (use ord j in blast)
  qed
  show "order_but_down lt i ?w" if p: "2 \<le> i \<Longrightarrow> \<not> lt (last ?v) (?v ! (i div 2))"
    unfolding order_but_down_def
  proof (intro conjI g allI impI)
    fix j assume j: "2 \<le> j \<and> j < length ?w \<and> j div 2 \<noteq> i"
    show "\<not> lt (?w ! j) (?w ! (j div 2))"
    proof (cases "j = i")
      case True
      have "i div 2 \<noteq> i" using j True by auto
      then show ?thesis using p j True w [of i] w [OF i2] i by simp
    qed (use ord j in blast)
  qed
qed

lemma remove_last_order:
  assumes "heap_order lt (m_values h)" "i = length (m_values h) - 1" "1 \<le> i"
  shows "heap_order lt (m_values (remove_pos i h))"
  unfolding heap_order_def
proof (intro allI impI)
  fix j assume "2 \<le> j \<and> j < length (m_values (remove_pos i h))"
  then have j: "2 \<le> j" "j < length (m_values h) - 1" "j div 2 < length (m_values h) - 1" "i < length (m_values h)" using assms(2,3) by auto
  then show "\<not> lt (m_values (remove_pos i h) ! j) (m_values (remove_pos i h) ! (j div 2))"
    using assms(1,2) remove_pos_nth [OF j(2,4)] remove_pos_nth [OF j(3,4)] by (simp add: heap_order_def)
qed

end

section \<open>Membership and insertion\<close>

lemma new_heap_ok: "heap_ok lt (new_heap s)" "heap_set (new_heap s) = {}" "heap_get_bounds (new_heap s) = s"
  by (simp_all add: new_heap_def set_bounds_def heap_ok_def heap_index_def heap_order_def heap_set_def heap_get_bounds_def)

lemma heap_set_range: "heap_index h \<Longrightarrow> v \<in> heap_set h \<Longrightarrow> 0 \<le> v \<and> nat v < length (m_value2indices h)"
  by (auto simp: heap_set_def heap_index_def)

lemma heap_index_member:
  assumes h: "heap_index h" and v: "0 \<le> v" "nat v < length (m_value2indices h)"
  shows "m_value2indices h ! nat v \<noteq> 0 \<longleftrightarrow> v \<in> heap_set h"
proof
  assume n: "m_value2indices h ! nat v \<noteq> 0"
  then have "m_value2indices h ! nat v < length (m_values h)" "m_values h ! (m_value2indices h ! nat v) = v"
    using h v by (simp_all add: heap_index_def)
  then show "v \<in> heap_set h" using n unfolding heap_set_def by (intro image_eqI [of _ _ "m_value2indices h ! nat v"]) simp_all
next
  assume "v \<in> heap_set h"
  then show "m_value2indices h ! nat v \<noteq> 0" using heap_indexD(3) [OF h] by (auto simp: heap_set_def)
qed

lemma heap_contains_ok:
  assumes h: "heap_index h" and v: "0 \<le> v"
  shows "heap_contains h v = Inr (v \<in> heap_set h)"
proof (cases "nat v < length (m_value2indices h)")
  case True
  then have "v < int (length (m_value2indices h))" using v by linarith
  then show ?thesis using heap_index_member [OF h v True] v True by (simp add: heap_contains_def get_index_def)
next
  case False
  then have "v \<notin> heap_set h" using heap_set_range [OF h] by blast
  moreover have "\<not> v < int (length (m_value2indices h))" using False v by linarith
  ultimately show ?thesis by (simp add: heap_contains_def)
qed

lemma heap_member_pos:
  assumes h: "heap_index h" and v: "v \<in> heap_set h"
  obtains i where "get_index h v = Inr i" "1 \<le> i" "i < length (m_values h)" "m_values h ! i = v"
proof -
  obtain i where i: "1 \<le> i" "i < length (m_values h)" "m_values h ! i = v" using v by (auto simp: heap_set_def)
  have "get_index h v = Inr i" using heap_indexD [OF h i(1,2)] i(3) by (simp add: get_index_def)
  then show ?thesis using that i by blast
qed

lemma heap_empty_iff: "heap_index h \<Longrightarrow> heap_empty h \<longleftrightarrow> heap_set h = {}"
  by (cases "length (m_values h)") (auto simp: heap_empty_def heap_set_def heap_index_def)

lemma snoc_index:
  assumes h: "heap_index h" and v: "0 \<le> v" "nat v < length (m_value2indices h)" "v \<notin> heap_set h"
  defines "k \<equiv> \<lparr>m_values = m_values h @ [v], m_value2indices = (m_value2indices h)[nat v := length (m_values h)]\<rparr>"
  shows "heap_index k" "heap_set k = insert v (heap_set h)"
proof -
  let ?n = "length (m_values h)"
  have n: "0 < ?n" using h by (simp add: heap_index_def)
  have val: "m_values k ! j = (if j = ?n then v else m_values h ! j)" if "j < ?n + 1" for j using that by (simp add: k_def nth_append)
  have pos: "m_value2indices k ! w = (if w = nat v then ?n else m_value2indices h ! w)" for w using v by (simp add: k_def nth_list_update)
  have len: "length (m_values k) = ?n + 1" "length (m_value2indices k) = length (m_value2indices h)" by (simp_all add: k_def)
  have fresh: "nat (m_values h ! j) \<noteq> nat v" if j: "1 \<le> j" "j < ?n" for j
  proof
    assume "nat (m_values h ! j) = nat v"
    then have "m_values h ! j = v" using heap_indexD(1) [OF h j] v(1) by simp
    then show False using v(3) j by (auto simp: heap_set_def)
  qed
  show "heap_index k" unfolding heap_index_def
  proof (intro conjI allI impI)
    show "0 < length (m_values k)" by (simp add: len)
  next
    fix j assume "1 \<le> j \<and> j < length (m_values k)"
    then have j: "1 \<le> j" "j < ?n + 1" by (simp_all add: len)
    have J: "j \<noteq> ?n \<Longrightarrow> j < ?n" using j by simp
    show "0 \<le> m_values k ! j" "nat (m_values k ! j) < length (m_value2indices k)" "m_value2indices k ! nat (m_values k ! j) = j"
      using heap_indexD [OF h j(1) J] fresh [OF j(1) J] v val [OF j(2)] pos len by (cases "j = ?n"; simp)+
  next
    fix w assume w: "w < length (m_value2indices k)" "m_value2indices k ! w \<noteq> 0"
    have "m_value2indices k ! w < ?n + 1 \<and> m_values k ! (m_value2indices k ! w) = int w"
    proof (cases "w = nat v")
      case True
      then show ?thesis using v val [of ?n] pos by simp
    next
      case False
      then have "m_value2indices h ! w < ?n \<and> m_values h ! (m_value2indices h ! w) = int w" using h w pos len by (simp add: heap_index_def)
      then show ?thesis using False val [of "m_value2indices h ! w"] pos by simp
    qed
    then show "m_value2indices k ! w < length (m_values k)" "m_values k ! (m_value2indices k ! w) = int w" by (simp_all add: len)
  qed
  have "1 \<le> ?n" using n by linarith
  then have "{1..<?n + 1} = insert ?n {1..<?n}" by auto
  then have "heap_set k = insert (m_values k ! ?n) ((\<lambda>i. m_values k ! i) ` {1..<?n})" by (simp add: heap_set_def len)
  also have "(\<lambda>i. m_values k ! i) ` {1..<?n} = heap_set h" unfolding heap_set_def by (rule image_cong) (simp_all add: val)
  finally show "heap_set k = insert v (heap_set h)" by (simp add: val)
qed

context weak_order begin

lemma heap_insert_ok:
  assumes h: "heap_ok lt h" and v: "0 \<le> v" "nat v < heap_get_bounds h" "v \<notin> heap_set h"
  shows "yields (heap_insert lt v h) (\<lambda>g. heap_ok lt g \<and> heap_set g = insert v (heap_set h) \<and> heap_get_bounds g = heap_get_bounds h)"
proof -
  let ?n = "length (m_values h)"
  let ?k = "\<lparr>m_values = m_values h @ [v], m_value2indices = (m_value2indices h)[nat v := ?n]\<rparr>"
  have I: "heap_index h" "heap_order lt (m_values h)" using h by (simp_all add: heap_ok_def)
  have b: "nat v < length (m_value2indices h)" using v(2) by (simp add: heap_get_bounds_def)
  note k = snoc_index [OF I(1) v(1) b v(3)]
  have "0 < ?n" using I(1) unfolding heap_index_def by blast
  then have n: "1 \<le> ?n" "?n < length (m_values ?k)" by (linarith, simp)
  have "order_but_up lt ?n (m_values ?k)"
    unfolding order_but_up_def grand_order_def
  proof (intro conjI allI impI)
    fix c assume "2 \<le> ?n \<and> c < length (m_values ?k) \<and> c div 2 = ?n"
    then have "2 \<le> c div 2" "c < c div 2 + 1" by simp_all
    then have False by presburger
    then show "\<not> lt (m_values ?k ! c) (m_values ?k ! (?n div 2))" ..
  next
    fix i assume i: "2 \<le> i \<and> i < length (m_values ?k) \<and> i \<noteq> ?n"
    then have "i < ?n" "i div 2 < ?n" by auto
    then show "\<not> lt (m_values ?k ! i) (m_values ?k ! (i div 2))" using I(2) i by (simp add: heap_order_def nth_append)
  qed
  then have "yields (move_up lt ?n ?k) (\<lambda>g. heap_ok lt g \<and> same_shape g ?k)" by (rule move_up_ok [OF k(1) n])
  moreover have "heap_insert lt v h = move_up lt ?n ?k" using v(1) b by (cases h) (simp add: heap_insert_def set_index_def Let_def)
  ultimately show ?thesis using k(2) by (auto simp: same_shape_def heap_get_bounds_def elim!: yields_mono)
qed

section \<open>Removal\<close>

lemma heap_erase_ok:
  assumes h: "heap_ok lt h" and v: "v \<in> heap_set h"
  shows "yields (heap_erase lt v h) (\<lambda>g. heap_ok lt g \<and> heap_set g = heap_set h - {v} \<and> heap_get_bounds g = heap_get_bounds h)"
proof -
  have I: "heap_index h" "heap_order lt (m_values h)" using h by (simp_all add: heap_ok_def)
  obtain i where i: "get_index h v = Inr i" "1 \<le> i" "i < length (m_values h)" "m_values h ! i = v" by (rule heap_member_pos [OF I(1) v])
  let ?e = "length (m_values h) - 1" and ?k = "remove_pos i h"
  have "m_values h \<noteq> []" using i(3) by auto
  then have e: "?e < length (m_values h)" "m_values h ! ?e = last (m_values h)" by (simp_all add: last_conv_nth)
  note k = remove_pos_index [OF I(1) i(2,3)]
  note code = remove_pos_code [OF I(1) i(2,3), unfolded i(4)]
  show ?thesis
  proof (cases "i = ?e")
    case True
    have "heap_erase lt v h = Inr ?k" using code(2) [OF True] True by (simp add: heap_erase_def i(1))
    then show ?thesis using k remove_last_order [OF I(2) True i(2)] i(4) by (simp add: heap_ok_def heap_get_bounds_def)
  next
    case False
    then have ie: "i < ?e" "i < length (m_values ?k)" using i(3) by simp_all
    let ?up = "2 \<le> i \<and> lt (last (m_values h)) (m_values h ! (i div 2))"
    have p: "m_values ?k ! (i div 2) = m_values h ! (i div 2)" "i div 2 < length (m_values ?k)" if "2 \<le> i"
      using remove_pos_nth [of "i div 2" h i] that ie i(3) by auto
    obtain a where a: "place i (m_values h ! ?e) h = Inr a" "bind_res (set_index v 0 a) pop_value = Inr ?k"
      using code(1) by (cases "place i (m_values h ! ?e) h") simp_all
    obtain b where b: "set_index v 0 a = Inr b" "pop_value b = Inr ?k" using a(2) by (cases "set_index v 0 a") simp_all
    have "heap_erase lt v h = (if ?up then move_up lt i ?k else move_down lt i ?k)"
    proof (cases "2 \<le> i")
      case True
      then have "heap_parent i \<noteq> 0" by (simp add: heap_parent_def)
      then show ?thesis
        using False e a(1) b p [OF True] True by (simp add: heap_erase_def i(1) heap_parent_def Let_def)
    next
      case i1: False
      then have "heap_parent i = 0" using i(2) by (simp add: heap_parent_def)
      then show ?thesis using False e a(1) b i1 by (simp add: heap_erase_def i(1) Let_def)
    qed
    moreover have "yields (if ?up then move_up lt i ?k else move_down lt i ?k) (\<lambda>g. heap_ok lt g \<and> same_shape g ?k)"
    proof (cases ?up)
      case True
      then have "order_but_up lt i (m_values ?k)" using remove_pos_order(1) [OF I(2) i(2) ie(1)] by blast
      then show ?thesis using move_up_ok [OF k(1) i(2) ie(2)] True by simp
    next
      case up: False
      then have "order_but_down lt i (m_values ?k)" using remove_pos_order(2) [OF I(2) i(2) ie(1)] by blast
      then show ?thesis using move_down_ok [OF k(1) i(2) ie(2)] up by (simp add: if_not_P [OF up])
    qed
    ultimately have "yields (heap_erase lt v h) (\<lambda>g. heap_ok lt g \<and> same_shape g ?k)" by (simp only:)
    then show ?thesis by (rule yields_mono) (use k(2) i(4) in \<open>simp add: same_shape_def heap_get_bounds_def\<close>)
  qed
qed

lemma heap_min_first:
  assumes o: "heap_order lt (m_values h)" and i: "1 \<le> i" "i < length (m_values h)"
  shows "\<not> lt (m_values h ! i) (m_values h ! 1)"
  using i
proof (induction i rule: less_induct)
  case (less i)
  show ?case
  proof (cases "i = 1")
    case True
    then show ?thesis using lt_irrefl by simp
  next
    case False
    then have i: "2 \<le> i" "1 \<le> i div 2" "i div 2 < i" "i div 2 < length (m_values h)" using less.prems by auto
    have "\<not> lt (m_values h ! i) (m_values h ! (i div 2))" using o i(1) less.prems by (simp add: heap_order_def)
    then show ?thesis using not_lt_trans [OF less.IH [OF i(3,2,4)]] by blast
  qed
qed

lemma heap_min_value_ok:
  assumes h: "heap_ok lt h" and ne: "heap_set h \<noteq> {}"
  shows "yields (heap_min_value h) (\<lambda>m. m \<in> heap_set h \<and> (\<forall>w \<in> heap_set h. \<not> lt w m))"
proof -
  have n: "1 < length (m_values h)" using ne by (auto simp: heap_set_def)
  have "m_values h ! 1 \<in> heap_set h" using n by (auto simp: heap_set_def)
  moreover have "\<forall>w \<in> heap_set h. \<not> lt w (m_values h ! 1)" using heap_min_first [of h] h by (auto simp: heap_set_def heap_ok_def)
  ultimately show ?thesis using n by (simp add: heap_min_value_def)
qed

lemma heap_erase_min_ok:
  assumes h: "heap_ok lt h" and ne: "heap_set h \<noteq> {}"
  shows "yields (heap_erase_min lt h) (\<lambda>(m, g). heap_ok lt g \<and> m \<in> heap_set h \<and> (\<forall>w \<in> heap_set h. \<not> lt w m)
    \<and> heap_set g = heap_set h - {m} \<and> heap_get_bounds g = heap_get_bounds h)"
proof -
  have I: "heap_index h" "heap_order lt (m_values h)" using h by (simp_all add: heap_ok_def)
  have n: "1 < length (m_values h)" using ne by (auto simp: heap_set_def)
  let ?v = "m_values h ! 1" and ?k = "remove_pos 1 h" and ?e = "length (m_values h) - 1"
  have m: "?v \<in> heap_set h" "\<forall>w \<in> heap_set h. \<not> lt w ?v"
    using heap_min_value_ok [OF h ne] n by (simp_all add: heap_min_value_def)
  note k = remove_pos_index [OF I(1) order_refl n]
  note code = remove_pos_code [OF I(1) order_refl n]
  have "yields (heap_erase_min lt h) (\<lambda>(m, g). m = ?v \<and> heap_ok lt g \<and> same_shape g ?k)"
  proof (cases "length (m_values h) = 2")
    case True
    obtain a where a: "set_index ?v 0 h = Inr a" "pop_value a = Inr ?k" using code(2) True by (cases "set_index ?v 0 h") simp_all
    have "heap_order lt (m_values ?k)" using remove_last_order [OF I(2), of 1] True by simp
    then show ?thesis using a True n k(1) by (simp add: heap_erase_min_def heap_ok_def same_shape_def)
  next
    case False
    then have e: "1 < ?e" "1 < length (m_values ?k)" "?e < length (m_values h)" using n by simp_all
    obtain a where a: "place 1 (m_values h ! ?e) h = Inr a" "bind_res (set_index ?v 0 a) pop_value = Inr ?k"
      using code(1) by (cases "place 1 (m_values h ! ?e) h") simp_all
    obtain b where b: "set_index ?v 0 a = Inr b" "pop_value b = Inr ?k" using a(2) by (cases "set_index ?v 0 a") simp_all
    have "order_but_down lt 1 (m_values ?k)" using remove_pos_order(2) [OF I(2) order_refl e(1)] by simp
    then obtain g where "move_down lt 1 ?k = Inr g" "heap_ok lt g" "same_shape g ?k"
      using move_down_ok [OF k(1) order_refl e(2)] by (auto elim!: yieldsE)
    then show ?thesis using False n e(3) a(1) b by (simp add: heap_erase_min_def)
  qed
  then show ?thesis using m k(2) by (auto simp: same_shape_def heap_get_bounds_def elim!: yields_mono)
qed

end

section \<open>Changes of the order\<close>

text \<open>The order is that of values that live outside of the heap; after the value of \<open>v\<close> has changed, the heap is
  told in which direction.\<close>

definition order_changed :: "int set \<Rightarrow> (int \<Rightarrow> int \<Rightarrow> bool) \<Rightarrow> (int \<Rightarrow> int \<Rightarrow> bool) \<Rightarrow> int \<Rightarrow> bool" where
  "order_changed A lt lt' v \<longleftrightarrow> (\<forall>a \<in> A - {v}. \<forall>b \<in> A - {v}. lt' a b = lt a b)"

context weak_order begin

lemma heap_decreased_ok:
  assumes h: "heap_ok lt0 h" "weak_order lt0" and v: "v \<in> heap_set h" and c: "order_changed (heap_set h) lt0 lt v" "\<And>a. a \<in> heap_set h - {v} \<Longrightarrow> lt a v \<Longrightarrow> lt0 a v"
  shows "yields (heap_decreased lt v h) (\<lambda>g. heap_ok lt g \<and> heap_set g = heap_set h \<and> heap_get_bounds g = heap_get_bounds h)"
proof -
  have I: "heap_index h" "heap_order lt0 (m_values h)" using h(1) by (simp_all add: heap_ok_def)
  obtain i where i: "get_index h v = Inr i" "1 \<le> i" "i < length (m_values h)" "m_values h ! i = v" by (rule heap_member_pos [OF I(1) v])
  have ne: "m_values h ! j \<in> heap_set h - {v}" if "1 \<le> j" "j < length (m_values h)" "j \<noteq> i" for j
    using heap_index_inj [OF I(1) that(1,2) i(2,3)] that i(4) by (auto simp: heap_set_def)
  have ord: "\<not> lt0 (m_values h ! j) (m_values h ! (j div 2))" if "2 \<le> j" "j < length (m_values h)" for j
    using I(2) that by (simp add: heap_order_def)
  have "order_but_up lt i (m_values h)"
    unfolding order_but_up_def grand_order_def
  proof (intro conjI allI impI)
    fix j assume "2 \<le> i \<and> j < length (m_values h) \<and> j div 2 = i"
    then have j: "2 \<le> i" "2 \<le> j" "j < length (m_values h)" "j div 2 = i" "j \<noteq> i" "1 \<le> i div 2" "i div 2 < length (m_values h)" "i div 2 \<noteq> i" using i(2,3) by auto
    have "\<not> lt0 (m_values h ! j) (m_values h ! (i div 2))"
      using weak_order.not_lt_trans [OF h(2) ord [OF j(1) i(3)]] ord [OF j(2,3)] j(4) by simp
    then show "\<not> lt (m_values h ! j) (m_values h ! (i div 2))"
      using c(1) ne [OF _ j(3,5)] ne [OF j(6,7,8)] j(2) by (simp add: order_changed_def)
  next
    fix j assume "2 \<le> j \<and> j < length (m_values h) \<and> j \<noteq> i"
    then have j: "2 \<le> j" "1 \<le> j" "j < length (m_values h)" "j \<noteq> i" "1 \<le> j div 2" "j div 2 < length (m_values h)" by auto
    note n = ne [OF j(2-4)]
    show "\<not> lt (m_values h ! j) (m_values h ! (j div 2))"
    proof (cases "j div 2 = i")
      case True
      then show ?thesis using ord [OF j(1,3)] c(2) [OF n] i(4) by auto
    next
      case False
      then show ?thesis using ord [OF j(1,3)] c(1) n ne [OF j(5,6)] by (simp add: order_changed_def)
    qed
  qed
  then have "yields (move_up lt i h) (\<lambda>g. heap_ok lt g \<and> same_shape g h)" by (rule move_up_ok [OF I(1) i(2,3)])
  then show ?thesis unfolding heap_decreased_def i(1) bind_res.simps by (rule yields_mono) (simp add: same_shape_def heap_get_bounds_def)
qed

lemma heap_increased_ok:
  assumes h: "heap_ok lt0 h" "weak_order lt0" and v: "v \<in> heap_set h" and c: "order_changed (heap_set h) lt0 lt v" "\<And>a. a \<in> heap_set h - {v} \<Longrightarrow> lt v a \<Longrightarrow> lt0 v a"
  shows "yields (heap_increased lt v h) (\<lambda>g. heap_ok lt g \<and> heap_set g = heap_set h \<and> heap_get_bounds g = heap_get_bounds h)"
proof -
  have I: "heap_index h" "heap_order lt0 (m_values h)" using h(1) by (simp_all add: heap_ok_def)
  obtain i where i: "get_index h v = Inr i" "1 \<le> i" "i < length (m_values h)" "m_values h ! i = v" by (rule heap_member_pos [OF I(1) v])
  have ne: "m_values h ! j \<in> heap_set h - {v}" if "1 \<le> j" "j < length (m_values h)" "j \<noteq> i" for j
    using heap_index_inj [OF I(1) that(1,2) i(2,3)] that i(4) by (auto simp: heap_set_def)
  have ord: "\<not> lt0 (m_values h ! j) (m_values h ! (j div 2))" if "2 \<le> j" "j < length (m_values h)" for j
    using I(2) that by (simp add: heap_order_def)
  have "order_but_down lt i (m_values h)"
    unfolding order_but_down_def grand_order_def
  proof (intro conjI allI impI)
    fix j assume "2 \<le> i \<and> j < length (m_values h) \<and> j div 2 = i"
    then have j: "2 \<le> i" "2 \<le> j" "j < length (m_values h)" "j div 2 = i" "j \<noteq> i" "1 \<le> i div 2" "i div 2 < length (m_values h)" "i div 2 \<noteq> i" using i(2,3) by auto
    have "\<not> lt0 (m_values h ! j) (m_values h ! (i div 2))"
      using weak_order.not_lt_trans [OF h(2) ord [OF j(1) i(3)]] ord [OF j(2,3)] j(4) by simp
    then show "\<not> lt (m_values h ! j) (m_values h ! (i div 2))"
      using c(1) ne [OF _ j(3,5)] ne [OF j(6,7,8)] j(2) by (simp add: order_changed_def)
  next
    fix j assume "2 \<le> j \<and> j < length (m_values h) \<and> j div 2 \<noteq> i"
    then have j: "2 \<le> j" "1 \<le> j" "j < length (m_values h)" "1 \<le> j div 2" "j div 2 < length (m_values h)" "j div 2 \<noteq> i" by auto
    note n = ne [OF j(4,5,6)]
    show "\<not> lt (m_values h ! j) (m_values h ! (j div 2))"
    proof (cases "j = i")
      case True
      then show ?thesis using ord [OF j(1,3)] c(2) [OF n] i(4) by auto
    next
      case False
      then show ?thesis using ord [OF j(1,3)] c(1) n ne [OF j(2,3)] by (simp add: order_changed_def)
    qed
  qed
  then have "yields (move_down lt i h) (\<lambda>g. heap_ok lt g \<and> same_shape g h)" by (rule move_down_ok [OF I(1) i(2,3)])
  then show ?thesis unfolding heap_increased_def i(1) bind_res.simps by (rule yields_mono) (simp add: same_shape_def heap_get_bounds_def)
qed

section \<open>\<open>find_le\<close>\<close>

text \<open>\<open>below t p\<close>: the position \<open>p\<close> is in the subtree of \<open>t\<close>.\<close>

definition below :: "nat \<Rightarrow> nat \<Rightarrow> bool" where "below t p \<longleftrightarrow> (\<exists>k. p div 2 ^ k = t)"

lemma below_cases:
  assumes "below t p" "1 \<le> t"
  shows "p = t \<or> below (heap_left t) p \<or> below (heap_right t) p" "t \<le> p"
proof -
  obtain k where k: "p div 2 ^ k = t" using assms(1) by (auto simp: below_def)
  show "t \<le> p" using k by (metis div_le_dividend)
  show "p = t \<or> below (heap_left t) p \<or> below (heap_right t) p"
  proof (cases k)
    case (Suc l)
    then have "(p div 2 ^ l) div 2 = t" using k by (simp add: div_mult2_eq [symmetric] mult.commute)
    then have "p div 2 ^ l = heap_left t \<or> p div 2 ^ l = heap_right t" by (auto simp: heap_left_def heap_right_def)
    then show ?thesis by (auto simp: below_def)
  qed (use k in simp)
qed

lemma below_root: "1 \<le> p \<Longrightarrow> below 1 p"
proof (induction p rule: less_induct)
  case (less p)
  show ?case
  proof (cases "p = 1")
    case True
    then show ?thesis unfolding below_def by (intro exI [of _ 0]) simp
  next
    case False
    then have "1 \<le> p div 2" "p div 2 < p" using less.prems by auto
    then obtain k where "(p div 2) div 2 ^ k = 1" using less.IH [of "p div 2"] by (auto simp: below_def)
    then show ?thesis unfolding below_def by (intro exI [of _ "Suc k"]) (simp add: div_mult2_eq)
  qed
qed

text \<open>A value that is not larger than \<open>val\<close> has no larger ancestor.\<close>

lemma below_le:
  assumes o: "heap_order lt (m_values h)" and b: "p div 2 ^ k = t" "1 \<le> t" "p < length (m_values h)" "\<not> lt val (m_values h ! p)"
  shows "\<not> lt val (m_values h ! t)"
  using b
proof (induction k arbitrary: p)
  case (Suc k)
  have p: "p div 2 div 2 ^ k = t" using Suc.prems(1) by (simp add: div_mult2_eq)
  then have "1 \<le> p div 2" using Suc.prems(2) by (cases "p div 2 = 0") auto
  then have "2 \<le> p" by linarith
  then have "\<not> lt (m_values h ! p) (m_values h ! (p div 2))" using o Suc.prems(3) by (simp add: heap_order_def)
  then have "\<not> lt val (m_values h ! (p div 2))" using not_lt_trans Suc.prems(4) by blast
  then show ?case using Suc.IH [OF p Suc.prems(2)] Suc.prems(3) by simp
qed simp

definition subtree_bound :: "nat \<Rightarrow> nat \<Rightarrow> nat" where "subtree_bound n i = 3 ^ (n - i)"

lemma subtree_bound_children: "1 \<le> i \<Longrightarrow> i < n \<Longrightarrow> subtree_bound n (heap_left i) + subtree_bound n (heap_right i) < subtree_bound n i"
proof -
  assume i: "1 \<le> i" "i < n"
  have "subtree_bound n (heap_left i) \<le> 3 ^ (n - i - 1)" "subtree_bound n (heap_right i) \<le> 3 ^ (n - i - 1)"
    using i unfolding subtree_bound_def heap_left_def heap_right_def by (intro power_increasing; simp)+
  moreover have "subtree_bound n i = 3 * 3 ^ (n - i - 1)" using i unfolding subtree_bound_def by (metis power_eq_if diff_is_0_eq not_less)
  moreover have "(0 :: nat) < 3 ^ (n - i - 1)" by simp
  ultimately show ?thesis by linarith
qed

lemma heap_find_le_ok:
  assumes h: "heap_ok lt h"
  shows "yields (heap_find_le lt val h r) (\<lambda>s. \<exists>t. s = r @ t \<and> set t = {v \<in> heap_set h. \<not> lt val v})"
proof -
  let ?v = "m_values h" and ?n = "length (m_values h)"
  have o: "heap_order lt ?v" using h by (simp add: heap_ok_def)
  let ?good = "\<lambda>p. 1 \<le> p \<and> p < ?n \<and> \<not> lt val (?v ! p)"
  let ?I = "\<lambda>(s, todo). (\<exists>t. s = r @ t \<and> set t \<subseteq> {v \<in> heap_set h. \<not> lt val v}
      \<and> (\<forall>p. ?good p \<longrightarrow> ?v ! p \<in> set t \<or> (\<exists>i \<in> set todo. below i p))) \<and> (\<forall>i \<in> set todo. 1 \<le> i)"
  have "\<exists>st. while_res (\<lambda>(_, todo). todo \<noteq> []) (find_le_step lt val h) (r, [1]) = Inr st \<and> (?I st \<and> snd st = [])"
  proof (rule while_res_total [where I = ?I and m = "\<lambda>(_, todo). sum_list (map (subtree_bound ?n) todo)"])
    show "?I (r, [1])" using below_root by auto
  next
    fix st :: "int list \<times> nat list" assume st: "?I st" "case st of (_, todo) \<Rightarrow> todo \<noteq> []"
    obtain s todo where s: "st = (s, todo)" by (cases st)
    obtain rest i where td: "todo = rest @ [i]" using st(2) s by (cases todo rule: rev_cases) auto
    obtain t where t0: "s = r @ t" "set t \<subseteq> {v \<in> heap_set h. \<not> lt val v}"
      "\<forall>p. ?good p \<longrightarrow> ?v ! p \<in> set t \<or> (\<exists>j \<in> set todo. below j p)" "\<forall>j \<in> set todo. 1 \<le> j"
      using st(1) unfolding s prod.case by blast
    have t: "s = r @ t" "set t \<subseteq> {v \<in> heap_set h. \<not> lt val v}"
      "\<And>p. ?good p \<Longrightarrow> ?v ! p \<in> set t \<or> (\<exists>j \<in> set rest. below j p) \<or> below i p" and pos: "\<And>j. j \<in> set rest \<Longrightarrow> 1 \<le> j" "1 \<le> i"
      using t0 unfolding td by auto
    show "\<exists>u. find_le_step lt val h st = Inr u \<and> ?I u \<and> (case u of (_, todo) \<Rightarrow> sum_list (map (subtree_bound ?n) todo)) < (case st of (_, todo) \<Rightarrow> sum_list (map (subtree_bound ?n) todo))"
    proof (cases "i < ?n \<and> \<not> lt val (?v ! i)")
      case True
      let ?u = "(s @ [?v ! i], rest @ [heap_left i, heap_right i])"
      have "?v ! i \<in> heap_set h" using True pos(2) by (auto simp: heap_set_def)
      then have "set (t @ [?v ! i]) \<subseteq> {v \<in> heap_set h. \<not> lt val v}" using t(2) True by simp
      moreover have "?v ! p \<in> set (t @ [?v ! i]) \<or> (\<exists>j \<in> set (rest @ [heap_left i, heap_right i]). below j p)" if p: "?good p" for p
        using t(3) [OF p] below_cases(1) [of i p] pos(2) by auto
      ultimately have "?I ?u" using t(1) pos unfolding prod.case
        by (intro conjI exI [of _ "t @ [?v ! i]"]) (auto simp: heap_left_def heap_right_def)
      then show ?thesis using True subtree_bound_children [OF pos(2), of ?n] by (simp add: s td find_le_step_def)
    next
      case False
      have nb: "\<not> below i p" if p: "?good p" for p
      proof
        assume b: "below i p"
        then have "i < ?n" using below_cases(2) [OF b pos(2)] p by simp
        moreover obtain k where "p div 2 ^ k = i" using b by (auto simp: below_def)
        then have "\<not> lt val (?v ! i)" using below_le [OF o _ pos(2)] p by blast
        ultimately show False using False by blast
      qed
      have "?I (s, rest)" using t(1,2) t(3) nb pos unfolding prod.case by blast
      moreover have "find_le_step lt val h st = Inr (s, rest)" using False by (auto simp: s td find_le_step_def)
      moreover have "0 < subtree_bound ?n i" by (simp add: subtree_bound_def)
      ultimately show ?thesis by (simp add: s td)
    qed
  next
    fix st :: "int list \<times> nat list" assume "?I st" "\<not> (case st of (_, todo) \<Rightarrow> todo \<noteq> [])"
    then show "?I st \<and> snd st = []" by (cases st) simp
  qed
  then obtain t where w: "while_res (\<lambda>(_, todo). todo \<noteq> []) (find_le_step lt val h) (r, [1]) = Inr (r @ t, [])"
    and t: "set t \<subseteq> {v \<in> heap_set h. \<not> lt val v}" "\<And>p. ?good p \<Longrightarrow> ?v ! p \<in> set t"
    by auto
  have "{v \<in> heap_set h. \<not> lt val v} \<subseteq> set t" using t(2) by (auto simp: heap_set_def)
  then show ?thesis using w t(1) by (simp add: heap_find_le_def subset_antisym)
qed

end

section \<open>Bounds\<close>

lemma heap_reset_ok:
  assumes "heap_ok lt h"
  shows "heap_ok lt (heap_reset h) \<and> heap_set (heap_reset h) = {} \<and> heap_get_bounds (heap_reset h) = heap_get_bounds h"
proof (cases "heap_empty h")
  case True
  then show ?thesis using assms heap_empty_iff [of h] by (simp add: heap_reset_def heap_ok_def)
next
  case False
  then show ?thesis by (simp add: heap_reset_def heap_ok_def heap_index_def heap_order_def heap_set_def heap_get_bounds_def)
qed

lemma heap_reserve_ok:
  assumes "heap_ok lt h"
  shows "heap_ok lt (heap_reserve s h) \<and> heap_set (heap_reserve s h) = heap_set h \<and> heap_get_bounds (heap_reserve s h) = max s (heap_get_bounds h)"
proof (cases "length (m_value2indices h) < s")
  case True
  let ?g = "set_bounds s h" and ?b = "length (m_value2indices h)"
  have g: "m_values ?g = m_values h" "length (m_value2indices ?g) = s"
    "m_value2indices ?g ! w = (if w < ?b then m_value2indices h ! w else 0)" if "w < s" for w
    using True that by (simp_all add: set_bounds_def nth_append)
  have "heap_index ?g" unfolding heap_index_def
  proof (intro conjI allI impI)
    show "0 < length (m_values ?g)" using assms True g(1) [of ?b] by (simp add: heap_ok_def heap_index_def)
  next
    fix i assume "1 \<le> i \<and> i < length (m_values ?g)"
    then have i: "1 \<le> i" "i < length (m_values h)" using g(1) [OF True] by simp_all
    have h: "heap_index h" using assms by (simp add: heap_ok_def)
    note I = heap_indexD [OF h i]
    show "0 \<le> m_values ?g ! i" "nat (m_values ?g ! i) < length (m_value2indices ?g)" "m_value2indices ?g ! nat (m_values ?g ! i) = i"
      using I True g(1,2) [OF True] g(3) [of "nat (m_values h ! i)"] by simp_all
  next
    fix v assume v: "v < length (m_value2indices ?g)" "m_value2indices ?g ! v \<noteq> 0"
    then have "v < ?b" "m_value2indices h ! v \<noteq> 0" "m_value2indices ?g ! v = m_value2indices h ! v" using g(2,3) True by (auto split: if_splits)
    then show "m_value2indices ?g ! v < length (m_values ?g)" "m_values ?g ! (m_value2indices ?g ! v) = int v"
      using assms g(1) [OF True] by (simp_all add: heap_ok_def heap_index_def)
  qed
  then show ?thesis using True assms g(1,2) [OF True] by (simp add: heap_reserve_def heap_ok_def heap_set_def heap_get_bounds_def)
next
  case False
  then show ?thesis using assms by (simp add: heap_reserve_def heap_get_bounds_def)
qed

section \<open>Queues of variables\<close>

text \<open>Two of the orders of the solvers: variables by number, and by activity.\<close>

definition theory_var_lt :: "int \<Rightarrow> int \<Rightarrow> bool" where "theory_var_lt v1 v2 \<longleftrightarrow> v1 < v2"

interpretation by_number: weak_order theory_var_lt
  by unfold_locales (auto simp: theory_var_lt_def)

interpretation by_activity: weak_order "var_lt act" for act
  by unfold_locales (auto simp: var_lt_def)

text \<open>The invariant of a queue: a heap for the present activities.\<close>

definition var_queue_ok :: "digit list \<Rightarrow> heap \<Rightarrow> bool" where
  "var_queue_ok act q \<longleftrightarrow> heap_ok (var_lt act) q \<and> (\<forall>v \<in> heap_set q. nat v < length act)"

lemma heap_order_cong:
  assumes o: "heap_order lt (m_values q)" and eq: "\<And>a b. a \<in> heap_set q \<Longrightarrow> b \<in> heap_set q \<Longrightarrow> le a b = lt a b"
  shows "heap_order le (m_values q)"
  unfolding heap_order_def
proof (intro allI impI)
  fix i assume i: "2 \<le> i \<and> i < length (m_values q)"
  have "1 \<le> i div 2" "i div 2 < length (m_values q)" using i by auto
  then have m: "m_values q ! i \<in> heap_set q" "m_values q ! (i div 2) \<in> heap_set q"
    using i unfolding heap_set_def by (force, force)
  show "\<not> le (m_values q ! i) (m_values q ! (i div 2))" using eq [OF m] o i by (simp add: heap_order_def)
qed

lemma var_queue_index: "var_queue_ok act q \<Longrightarrow> heap_index q"
  by (simp add: var_queue_ok_def heap_ok_def)

lemma unassign_var_eh_ok:
  assumes q: "var_queue_ok act q" and v: "0 \<le> v" "nat v < heap_get_bounds q" "nat v < length act"
  shows "yields (unassign_var_eh act v q) (\<lambda>p. var_queue_ok act p \<and> heap_set p = insert v (heap_set q) \<and> heap_get_bounds p = heap_get_bounds q)"
proof (cases "v \<in> heap_set q")
  case True
  then show ?thesis using q heap_contains_ok [OF var_queue_index [OF q] v(1)] by (simp add: unassign_var_eh_def insert_absorb)
next
  case False
  have "yields (heap_insert (var_lt act) v q) (\<lambda>p. var_queue_ok act p \<and> heap_set p = insert v (heap_set q) \<and> heap_get_bounds p = heap_get_bounds q)"
    by (rule yields_mono [OF by_activity.heap_insert_ok]) (use q v False in \<open>auto simp: var_queue_ok_def\<close>)
  then show ?thesis using heap_contains_ok [OF var_queue_index [OF q] v(1)] False by (simp add: unassign_var_eh_def)
qed

lemma mk_var_eh_ok:
  assumes q: "var_queue_ok act q" and v: "0 \<le> v" "nat v < length act" "v \<notin> heap_set q"
  shows "yields (mk_var_eh act v q) (\<lambda>p. var_queue_ok act p \<and> heap_set p = insert v (heap_set q) \<and> heap_get_bounds p = max (nat v + 1) (heap_get_bounds q))"
proof -
  have r: "heap_ok (var_lt act) (heap_reserve (nat (v + 1)) q)" "heap_set (heap_reserve (nat (v + 1)) q) = heap_set q"
    "heap_get_bounds (heap_reserve (nat (v + 1)) q) = max (nat v + 1) (heap_get_bounds q)"
    using heap_reserve_ok [of "var_lt act" q "nat (v + 1)"] q v(1) by (simp_all add: var_queue_ok_def nat_add_distrib)
  show ?thesis unfolding mk_var_eh_def
    by (rule yields_mono [OF by_activity.heap_insert_ok [OF r(1) v(1)]]) (use q v r in \<open>auto simp: var_queue_ok_def\<close>)
qed

lemma del_var_eh_ok:
  assumes q: "var_queue_ok act q" and v: "0 \<le> v"
  shows "yields (del_var_eh act v q) (\<lambda>p. var_queue_ok act p \<and> heap_set p = heap_set q - {v} \<and> heap_get_bounds p = heap_get_bounds q)"
proof (cases "v \<in> heap_set q")
  case True
  have "yields (heap_erase (var_lt act) v q) (\<lambda>p. var_queue_ok act p \<and> heap_set p = heap_set q - {v} \<and> heap_get_bounds p = heap_get_bounds q)"
    by (rule yields_mono [OF by_activity.heap_erase_ok]) (use q True in \<open>auto simp: var_queue_ok_def\<close>)
  then show ?thesis using heap_contains_ok [OF var_queue_index [OF q] v] True by (simp add: del_var_eh_def)
next
  case False
  then show ?thesis using q heap_contains_ok [OF var_queue_index [OF q] v] by (simp add: del_var_eh_def)
qed

lemma next_var_ok:
  assumes q: "var_queue_ok act q" and ne: "heap_set q \<noteq> {}"
  shows "yields (next_var act q) (\<lambda>(m, p). var_queue_ok act p \<and> m \<in> heap_set q \<and> (\<forall>w \<in> heap_set q. act ! nat w \<le> act ! nat m)
    \<and> heap_set p = heap_set q - {m} \<and> heap_get_bounds p = heap_get_bounds q)"
  unfolding next_var_def
  by (rule yields_mono [OF by_activity.heap_erase_min_ok]) (use q ne in \<open>auto simp: var_queue_ok_def var_lt_def not_less\<close>)

text \<open>The queue is told after the activity of a variable has changed.\<close>

lemma activity_changed_eh_ok:
  assumes q: "var_queue_ok act q" and v: "0 \<le> v" "nat v < length act" and x: "if up then act ! nat v \<le> x else x \<le> act ! nat v"
  shows "yields (activity_changed_eh (act[nat v := x]) v up q) (\<lambda>p. var_queue_ok (act[nat v := x]) p \<and> heap_set p = heap_set q \<and> heap_get_bounds p = heap_get_bounds q)"
proof -
  let ?act = "act[nat v := x]"
  have h: "heap_ok (var_lt act) q" "heap_index q" using q by (simp_all add: var_queue_ok_def heap_ok_def)
  have pos: "0 \<le> a" if "a \<in> heap_set q" for a using heap_set_range [OF h(2) that] by simp
  have ne: "nat v \<noteq> nat a" if "a \<in> heap_set q - {v}" for a using pos [of a] that v(1) by auto
  have same: "order_changed (heap_set q) (var_lt act) (var_lt ?act) v"
    unfolding order_changed_def var_lt_def using ne by simp
  have ok: "heap_ok (var_lt ?act) p \<and> heap_set p = heap_set q \<and> heap_get_bounds p = heap_get_bounds q
      \<Longrightarrow> var_queue_ok ?act p \<and> heap_set p = heap_set q \<and> heap_get_bounds p = heap_get_bounds q" for p
    using q by (simp add: var_queue_ok_def)
  show ?thesis
  proof (cases "v \<in> heap_set q")
    case True
    show ?thesis
    proof (cases up)
      case up: True
      have c: "var_lt ?act a v \<Longrightarrow> var_lt act a v" if "a \<in> heap_set q - {v}" for a
        using ne [OF that] v(2) x up by (auto simp: var_lt_def)
      have "yields (heap_decreased (var_lt ?act) v q) (\<lambda>p. var_queue_ok ?act p \<and> heap_set p = heap_set q \<and> heap_get_bounds p = heap_get_bounds q)"
        by (rule yields_mono [OF by_activity.heap_decreased_ok [OF h(1) by_activity.weak_order_axioms True same c] ok])
      then show ?thesis using heap_contains_ok [OF h(2) v(1)] True up by (simp add: activity_changed_eh_def)
    next
      case down: False
      have c: "var_lt ?act v a \<Longrightarrow> var_lt act v a" if "a \<in> heap_set q - {v}" for a
        using ne [OF that] v(2) x down by (auto simp: var_lt_def)
      have "yields (heap_increased (var_lt ?act) v q) (\<lambda>p. var_queue_ok ?act p \<and> heap_set p = heap_set q \<and> heap_get_bounds p = heap_get_bounds q)"
        by (rule yields_mono [OF by_activity.heap_increased_ok [OF h(1) by_activity.weak_order_axioms True same c] ok])
      then show ?thesis using heap_contains_ok [OF h(2) v(1)] True down by (simp add: activity_changed_eh_def)
    qed
  next
    case False
    have "nat v \<noteq> nat a" if "a \<in> heap_set q" for a using ne that False by blast
    then have "var_lt ?act a b = var_lt act a b" if "a \<in> heap_set q" "b \<in> heap_set q" for a b using that by (simp add: var_lt_def)
    then have "heap_order (var_lt ?act) (m_values q)"
      using h(1) heap_order_cong [of "var_lt act" q "var_lt ?act"] by (simp add: heap_ok_def)
    then have "heap_ok (var_lt ?act) q" using h(2) by (simp add: heap_ok_def)
    then show ?thesis using ok [of q] heap_contains_ok [OF h(2) v(1)] False by (simp add: activity_changed_eh_def)
  qed
qed

section \<open>The invariant of the source\<close>

text \<open>The recursion of \<open>check_invariant_core\<close> starts at position 1. At position 0 is the sentinel, which is no
  index of \<open>m_value2indices\<close>.\<close>

function check_invariant_core :: "(int \<Rightarrow> int \<Rightarrow> bool) \<Rightarrow> heap \<Rightarrow> nat \<Rightarrow> bool res" where
  "check_invariant_core lt h idx =
     (if idx = 0 then Inl Undefined_behaviour
      else if idx < length (m_values h) then
        bind_res (get_index h (m_values h ! idx)) (\<lambda>i.
        if i \<noteq> idx then Inl Verify_failed
        else if heap_parent idx \<noteq> 0 \<and> lt (m_values h ! idx) (m_values h ! heap_parent idx) then Inl Verify_failed
        else bind_res (check_invariant_core lt h (heap_left idx)) (\<lambda>_. check_invariant_core lt h (heap_right idx)))
      else Inr True)"
  by pat_completeness auto
termination by (relation "measure (\<lambda>(_, h, i). length (m_values h) - i)") (auto simp: heap_left_def heap_right_def)

declare check_invariant_core.simps [simp del]

definition heap_check_invariant :: "(int \<Rightarrow> int \<Rightarrow> bool) \<Rightarrow> heap \<Rightarrow> bool res" where
  "heap_check_invariant lt h = check_invariant_core lt h 1"

lemma check_invariant_core_ok:
  assumes ok: "heap_ok lt h" and i: "1 \<le> i"
  shows "check_invariant_core lt h i = Inr True"
  using i
proof (induction "length (m_values h) - i" arbitrary: i rule: less_induct)
  case less
  show ?case
  proof (cases "i < length (m_values h)")
    case True
    have ix: "heap_index h" and o: "heap_order lt (m_values h)" using ok by (simp_all add: heap_ok_def)
    have c: "check_invariant_core lt h (heap_left i) = Inr True" "check_invariant_core lt h (heap_right i) = Inr True"
      using less.prems True by (auto intro!: less.hyps simp: heap_left_def heap_right_def)
    have p: "\<not> (heap_parent i \<noteq> 0 \<and> lt (m_values h ! i) (m_values h ! heap_parent i))"
      using o True by (auto simp: heap_order_def heap_parent_def)
    have g: "get_index h (m_values h ! i) = Inr i" using heap_indexD [OF ix less.prems True] by (simp add: get_index_def)
    show ?thesis by (subst check_invariant_core.simps) (use less.prems True c p g in simp)
  next
    case False
    then show ?thesis by (subst check_invariant_core.simps) (use less.prems in simp)
  qed
qed

lemma heap_check_invariant_ok: "heap_ok lt h \<Longrightarrow> heap_check_invariant lt h = Inr True"
  by (simp add: heap_check_invariant_def check_invariant_core_ok)

section \<open>The states of a queue\<close>

text \<open>The events that a solver reports, with the activities at the time and the set of variables that are queued.\<close>

inductive var_queue_reach :: "digit list \<Rightarrow> heap \<Rightarrow> int set \<Rightarrow> bool" where
  new: "var_queue_reach act new_var_queue {}"
| grow: "var_queue_reach act q S \<Longrightarrow> var_queue_reach (act @ [x]) q S"
| mk_var: "var_queue_reach act q S \<Longrightarrow> 0 \<le> v \<Longrightarrow> nat v < length act \<Longrightarrow> v \<notin> S \<Longrightarrow> mk_var_eh act v q = Inr p
    \<Longrightarrow> var_queue_reach act p (insert v S)"
| del_var: "var_queue_reach act q S \<Longrightarrow> 0 \<le> v \<Longrightarrow> del_var_eh act v q = Inr p \<Longrightarrow> var_queue_reach act p (S - {v})"
| unassign: "var_queue_reach act q S \<Longrightarrow> 0 \<le> v \<Longrightarrow> nat v < length act \<Longrightarrow> nat v < heap_get_bounds q
    \<Longrightarrow> unassign_var_eh act v q = Inr p \<Longrightarrow> var_queue_reach act p (insert v S)"
| activity: "var_queue_reach act q S \<Longrightarrow> 0 \<le> v \<Longrightarrow> nat v < length act \<Longrightarrow> (if up then act ! nat v \<le> x else x \<le> act ! nat v)
    \<Longrightarrow> activity_changed_eh (act[nat v := x]) v up q = Inr p \<Longrightarrow> var_queue_reach (act[nat v := x]) p S"
| increased: "var_queue_reach act q S \<Longrightarrow> 0 \<le> v \<Longrightarrow> nat v < length act \<Longrightarrow> act ! nat v \<le> x
    \<Longrightarrow> activity_increased_eh (act[nat v := x]) v q = Inr p \<Longrightarrow> var_queue_reach (act[nat v := x]) p S"
| next_var: "var_queue_reach act q S \<Longrightarrow> S \<noteq> {} \<Longrightarrow> next_var act q = Inr (m, p) \<Longrightarrow> var_queue_reach act p (S - {m})"
| reset: "var_queue_reach act q S \<Longrightarrow> var_queue_reach act (heap_reset q) {}"

lemma activity_increased_changed: "activity_increased_eh act v q = activity_changed_eh act v True q"
  by (simp add: activity_increased_eh_def activity_changed_eh_def)

lemma var_queue_ok_grow:
  assumes q: "var_queue_ok act q"
  shows "var_queue_ok (act @ [x]) q"
proof -
  have eq: "var_lt (act @ [x]) a b = var_lt act a b" if "a \<in> heap_set q" "b \<in> heap_set q" for a b
    using q that by (simp add: var_queue_ok_def var_lt_def nth_append)
  have "heap_order (var_lt (act @ [x])) (m_values q)"
    using q heap_order_cong [of "var_lt act" q "var_lt (act @ [x])"] eq by (simp add: var_queue_ok_def heap_ok_def)
  then show ?thesis using q by (auto simp: var_queue_ok_def heap_ok_def)
qed

lemma var_queue_reach_inv: "var_queue_reach act q S \<Longrightarrow> var_queue_ok act q \<and> heap_set q = S"
proof (induction rule: var_queue_reach.induct)
  case (new act)
  then show ?case using new_heap_ok(1) [of "var_lt act" 128] new_heap_ok(2) [of 128] by (simp add: var_queue_ok_def new_var_queue_def)
next
  case (grow act q S x)
  then show ?case using var_queue_ok_grow by blast
next
  case (mk_var act q S v p)
  then show ?case using mk_var_eh_ok [of act q v] by (auto elim: yieldsE)
next
  case (del_var act q S v p)
  then show ?case using del_var_eh_ok [of act q v] by (auto elim: yieldsE)
next
  case (unassign act q S v p)
  then show ?case using unassign_var_eh_ok [of act q v] by (auto elim: yieldsE)
next
  case (activity act q S v up x p)
  then show ?case using activity_changed_eh_ok [of act q v up x] by (auto elim: yieldsE)
next
  case (increased act q S v x p)
  then show ?case using activity_changed_eh_ok [of act q v True x] by (auto simp: activity_increased_changed elim: yieldsE)
next
  case (next_var act q S m p)
  then show ?case using next_var_ok [of act q] by (auto elim: yieldsE)
next
  case (reset act q S)
  then show ?case using heap_reset_ok [of "var_lt act" q] by (simp add: var_queue_ok_def)
qed

lemma heap_erase_min_first: "heap_erase_min lt h = Inr (m, g) \<Longrightarrow> heap_min_value h = Inr m"
  unfolding heap_erase_min_def heap_min_value_def
  by (auto simp: bind_res_Inr_iff split: if_splits)

end
