(* ===== verification/Spec2Isabelle.thy ===== *)
theory Spec2Isabelle
  imports Mpn_Div Mpz_Gcd Mpz_Bits Mpz_Root Mpz_String Mpq_String Mpbq_Select Interval_Div Interval_Series Inf_Rational Union_Find Heap
begin

text \<open>
  The exact numbers of Z3 and the interval arithmetic on them (\<open>src/src/dfa/z3-master/src/util\<close> and
  \<open>math/interval\<close>), on which the arithmetic solvers of the prover vendored in this repository compute, and
  the backtracking disjoint sets and the heaps on which its search runs. Java
  and OCaml code of the repository drives the prover as an external process and is not part of the
  development.

  \<^bold>\<open>The program and its parts\<close>

  \<^item> \<open>mpn_manager\<close> (mpn.h, mpn.cpp): natural numbers as arrays of 32-bit digits; addition, subtraction,
    schoolbook multiplication, Knuth's division, decimal output.
  \<^item> \<open>mpz_manager\<close> (mpz.h, mpz.cpp, the \<open>_MP_INTERNAL\<close> build with 32-bit digits and \<open>LEHMER_GCD\<close>): integers
    that are an \<open>int\<close> in the object when they fit, and a sign with an array of digits otherwise. It
    calls \<open>mpn_manager\<close> on the digits and \<open>u_gcd\<close>, \<open>u64_gcd\<close> on machine integers.
  \<^item> \<open>mpq_manager\<close> (mpq.h, mpq.cpp): rationals in lowest terms over two \<open>mpz\<close>.
  \<^item> \<open>mpbq_manager\<close> (mpbq.h, mpbq.cpp): binary rationals, an \<open>mpz\<close> over a power of two with an \<open>unsigned\<close>
    exponent; its searches take ends that are \<open>mpq\<close>.
  \<^item> extended numerals (ext_numeral.h): a numeral with a tag for the two infinities; here over \<open>mpq\<close>.
  \<^item> \<open>reslimit\<close> (rlimit.h, rlimit.cpp): the step counter with nested scopes and the flag by which other threads
    cancel a computation.
  \<^item> \<open>rational\<close> (rational.h, rational.cpp): a number of the global \<open>mpq_manager\<close> with operators, a table of powers
    of two, and continued fractions; \<open>inf_rational\<close> (inf_rational.h, inf_rational.cpp): numbers
    \<open>first + epsilon * second\<close> with an infinitesimal \<open>epsilon\<close>, the values of strict bounds in the solvers.
  \<^item> \<open>interval_manager\<close> (interval.h, interval_def.h) at \<open>im_default_config\<close>: intervals of rationals with open,
    closed and infinite bounds. It computes bounds with the extended numerals, passes a checkpoint of the
    resource limit in its loops, and returns for each operation a dependency rule that names the bounds
    of the arguments from which a bound of the result follows; the solvers build explanations from it.
  \<^item> \<open>trail_stack\<close> (trail.h): the scopes of the search; objects on the stack undo changes. \<open>union_find\<close>
    (union_find.h) pushes such objects for new variables and for merges.
  \<^item> \<open>heap\<close> (heap.h): a binary heap with the position of every value; \<open>var_queue\<close> (var_queue.h) orders the
    variables of a solver by activity with it, and is told about changes of activities.

  \<^bold>\<open>Theories and the code they model\<close>

  \<^item> \<open>Numeral_Prelude\<close>: results with faults (\<open>'a res\<close>: an exception, a failed \<open>VERIFY\<close> or assertion, undefined
    behaviour, a loop that does not end), the rule calculus \<open>yields\<close> for them, \<open>while_res\<close> for loops with
    its rules for total and partial correctness, machine integers and their wrap-around (\<open>wrap_int\<close>,
    \<open>wrap_i64\<close>), and the values \<open>dval\<close> of digit lists.
  \<^item> \<open>Numeral_Iface\<close>: the contract of a numeral manager as locales (\<open>numeral_group\<close>, \<open>numeral_ring\<close>,
    \<open>numeral_order\<close>, \<open>numeral_ordered_ring\<close>) and the loop of \<open>power\<close>, which the managers repeat, with its
    correctness and its divergence proved once inside the contract. Interpreted by \<open>mpz\<close> (twice, for
    valid and for canonical numbers), \<open>mpq\<close> and \<open>mpbq\<close> (without the product, whose exponent wraps).
  \<^item> \<open>Mpn\<close>, \<open>Mpn_Div\<close>: \<open>mpn_manager\<close>. A digit array is a \<open>digit list\<close>, least significant first; the output
    arrays that the source gets as pointers are arguments with their contents, and results.
  \<^item> \<open>Mpz\<close> (representation, ring, comparison, division), \<open>Mpz_Gcd\<close> (gcd of machine integers, Lehmer's
    gcd, extended gcd, lcm), \<open>Mpz_Shift\<close> (shifts, logarithms, powers), \<open>Mpz_Bits\<close> (bitwise operations,
    \<open>decompose\<close>, bits), \<open>Mpz_Root\<close> (square and n-th roots), \<open>Mpz_String\<close> (decimal, hexadecimal and binary
    text). The record \<open>mpz\<close> has the fields of the class; \<open>mpz_ok\<close> is what every operation accepts,
    \<open>mpz_wf\<close> the canonical form that the results have.
  \<^item> \<open>Mpq\<close> (arithmetic on a store of numbers, because the source lets results overwrite arguments, and on
    values), \<open>Mpq_Ops\<close> (mixed arithmetic, rounding, conversions, powers, roots), \<open>Mpq_String\<close>.
  \<^item> \<open>Mpbq\<close> (arithmetic, comparison, rounding, roots, conversions, approximation), \<open>Mpbq_Select\<close>
    (refinement and selection; the four variants of the search share the locale \<open>dyadic_search\<close>).
  \<^item> \<open>Ext_Numeral\<close>: the extended numerals, and the rationals with two infinities (\<open>ext_rat\<close>, a \<open>linorder\<close>)
    that they denote (\<open>ext_of\<close>).
  \<^item> \<open>Rational\<close>: the operators and algorithms of \<open>rational\<close>; \<open>is_z\<close> relates a number to the integer it is,
    \<open>pow_table\<close> is the invariant of the cached powers of two, \<open>limit_inv\<close> that of the recurrence in \<open>limit_denominator\<close>,
    and \<open>cf_convergent\<close> are the convergents of a number by its expansion into a continued fraction.
  \<^item> \<open>Inf_Rational\<close>: \<open>inf_at r e\<close> is the value of a pair when \<open>epsilon\<close> is the real \<open>e\<close>; statements hold for all
    sufficiently small positive \<open>e\<close> (the filter \<open>at_right 0\<close>), for which \<open>near0_line_less_iff\<close> is the lexicographic
    order.
  \<^item> \<open>Rlimit\<close>: the resource limit; the predicate \<open>outcome\<close> and the rule \<open>while_outcome\<close> for computations that
    may be cancelled: they pass a number of checkpoints that is the same for all limits, and throw exactly
    when one of these finds the limit reached (\<open>outcome_cases\<close>). \<open>rl_inside\<close> relates the limit at the start of a
    scope to those inside it, after steps, cancellations and nested scopes. What other threads do to the limit between two checkpoints is the
    parameter \<open>env\<close>.
  \<^item> \<open>Interval\<close>: the interval type, its tests, negation, sum, difference, products with numbers, and the
    dependency rules. Operations work on a store of intervals, since the result may be an argument; the
    real numbers in an interval are \<open>members\<close>, the invariant of the source is \<open>check_invariant\<close>, and
    \<open>justified\<close> says what a dependency rule promises. The contracts of the operations are the locales
    \<open>interval_operation\<close> and \<open>interval_function\<close>, each interpreted by the operations of the code.
  \<^item> \<open>Interval_Mul\<close>, \<open>Interval_Div\<close> (also \<open>inv\<close>), \<open>Interval_Power\<close>: the operations with their cases.
  \<^item> \<open>Interval_Root\<close>: roots of numbers by bisection and by Newton's method, roots of intervals and \<open>xn_eq_y\<close>.
  \<^item> \<open>Interval_Series\<close>: factorials, the Taylor polynomials of sine and cosine, the series for \<open>e\<close> and pi, and the
    cached intervals of multiples of pi. The error of the series for pi is proved from a primitive of
    its limit (\<open>bbp_limit\<close>).
  \<^item> \<open>Trail\<close>: the stack, generic in its objects. The locale \<open>trailed\<close> is the contract of objects (\<open>undo\<close> reverts
    the step that pushed them) and proves that \<open>pop_scope\<close> restores; \<open>scoped\<close> relates a stack to the states at
    its open scopes. Interpreted by vectors here and by \<open>Union_Find\<close>.
  \<^item> \<open>Union_Find\<close>: the three vectors are \<open>uf_core\<close>; \<open>uf_ok\<close> is the invariant (paths to roots no longer than the
    logarithm of the size, rings with exactly the elements of a class), \<open>same_class\<close> the partition it
    represents, \<open>uf_reach\<close> the states that the operations reach with the snapshots at the scopes.
  \<^item> \<open>Heap\<close>: \<open>heap_ok\<close> is the invariant, \<open>heap_set\<close> the set of values. The order is the locale \<open>weak_order\<close>,
    interpreted by two orders of the solvers; \<open>var_queue_reach\<close> are the states of a queue under the events.
  \<^item> This theory: the properties of the components and their interplay.

  \<^bold>\<open>What the lemmas show\<close>

  For each operation its value in the abstract domain (\<open>dval\<close>: natural numbers, \<open>mpz_val\<close>: integers,
  \<open>mpq_val\<close> and \<open>mpbq_val\<close>: rationals) and the preservation of the invariant, that is, that the
  managers refine the integers and the field of rationals; termination of every loop (Knuth's division,
  Lehmer's and the binary gcd, roots, powers below \<open>2^31\<close>, digit loops, the searches) by measures in
  \<open>while_res_total\<close>, so that a claim about a result includes that there is one; absence of overflow in the
  machine arithmetic of Lehmer's loop; round trips through text; completeness of the root functions; the
  direction and the size of the error of approximations; minimality of the exponent that the searches
  find. Operations on intervals give exactly the set of results on members (\<open>power\<close> up to one point),
  keep the invariant, are isotone for inclusion, and each bound follows from the bounds that the
  dependency rule names. Roots are enclosed with a width in terms of the precision; their loops end,
  and are cancelled exactly when a checkpoint that they pass finds the limit reached. Sine, cosine, \<open>e\<close> and pi are enclosed with the widths that the sources give. Leaving scopes
  restores the disjoint sets exactly; merging joins two classes and nothing else; heaps return minima and
  keep their index. The faults that the source does have are theorems too: the gcd that reads a
  missing cell, the mask of \<open>bitwise_not\<close> that overflows, \<open>power\<close> that does not end, sums, products and differences that go wrong when the result
  overwrites an argument, the denominator that survives a conversion from text, the denominators that
  \<open>limit_denominator\<close> does not limit, the root that \<open>sup_root\<close> does not bound, the class that
  \<open>dissolve\<close> does not dissolve.

  \<^bold>\<open>Bounds\<close>

  There is no fuel: loops are \<open>while_option\<close> through \<open>while_res\<close>, and \<open>Nontermination\<close> is a fault.
  \<open>unsigned\<close> quantities that the source adds or multiplies are reduced modulo \<open>2^32\<close> where they can wrap
  (exponents of binary rationals, the mask of \<open>power\<close>, magnitudes as \<open>int\<close>, loop counters); theorems state
  the bounds: exponents and numbers of terms below \<open>2^31\<close>, the precision of pi below \<open>2^28\<close>, where
  \<open>8 * x + 6\<close> is an \<open>int\<close>.
  Sizes of digit arrays and of vectors, variables and positions in heaps are natural numbers: memory is
  taken to be large enough, and small enough for \<open>int\<close> indices.

  \<^bold>\<open>Assertions\<close>

  An assertion that decides whether a result has a meaning is a failure of the model (\<open>Verify_failed\<close>): in the
  extended numerals, in the roots of numbers and intervals, in the division and the inverse of intervals and in
  the functions that check the invariants of heaps and disjoint sets. Assertions that only restate a
  precondition, on which no result of the model depends, are hypotheses of the theorems or are left out
  where the theorem holds without them (\<open>div\<close> of intervals whose result is the first argument,
  \<open>mult_inverse\<close> for zero bits).

  \<^bold>\<open>Not modelled\<close>

  The GMP branches, 16-bit digits and the gcd variants that are compiled out; allocation, capacity and
  ownership of cells, locks, hashing, conversions to \<open>double\<close>, pretty printers; traces; the branches of the
  interval arithmetic for imprecise numerals, which \<open>im_default_config\<close> over \<open>mpq\<close> does not take; the
  children of a resource limit; contexts of \<open>union_find\<close> other than the default one, trail objects for
  containers other than vectors; the other directories of Z3; the Java and OCaml sources.
\<close>

section \<open>Digit arrays (mpn)\<close>

text \<open>C2: \<open>mpn_manager::div\<close> (Knuth's algorithm D on 32-bit digits): for a denominator whose leading digit
  is not zero and output arrays of the sizes its callers pass, the quotient array holds the integer
  quotient and the remainder array the remainder.\<close>

theorem mpn_div_correct:
  assumes "denom \<noteq> []" "last denom \<noteq> 0" "length denom \<le> length numer"
    "length quot = length numer - length denom + 1" "length rem = length denom"
  shows "case mpn_div numer denom quot rem of (q, r) \<Rightarrow>
    dval numer = dval q * dval denom + dval r \<and> dval r < dval denom
    \<and> length q = length quot \<and> length r = length rem"
proof -
  obtain q r where qr: "mpn_div numer denom quot rem = (q, r)" by fastforce
  moreover have "0 < dval denom" using assms(1,2) by (rule dval_pos)
  ultimately show ?thesis
    using mpn_div_spec [OF assms qr] by simp
qed

theorem mpn_div_correct_witness:
  "case mpn_div [0, 0, 1] [3, 1] [0, 0] [0, 0] of (q, r) \<Rightarrow>
    dval [0, 0, 1] = dval q * dval [3, 1] + dval r \<and> dval r < dval [3, 1]
    \<and> length q = length [0 :: digit, 0] \<and> length r = length [0 :: digit, 0]"
  by (rule mpn_div_correct) simp_all


section \<open>Integers (mpz)\<close>

text \<open>C8: \<open>mpz_manager\<close> implements the ring of integers: addition, subtraction, multiplication, negation,
  absolute value, increment, decrement and sums and differences with a product are exact on small and large
  numbers, including at the limits of \<open>int\<close>; all but negations and absolute values are in canonical form.\<close>

theorem mpz_ring_correct:
  assumes "mpz_ok a" "mpz_ok b"
  shows "mpz_val (mpz_add a b) = mpz_val a + mpz_val b \<and> mpz_wf (mpz_add a b)
    \<and> mpz_val (mpz_sub a b) = mpz_val a - mpz_val b \<and> mpz_wf (mpz_sub a b)
    \<and> mpz_val (mpz_mul a b) = mpz_val a * mpz_val b \<and> mpz_wf (mpz_mul a b)
    \<and> mpz_val (mpz_neg a) = - mpz_val a \<and> mpz_ok (mpz_neg a)
    \<and> mpz_val (mpz_abs a) = \<bar>mpz_val a\<bar> \<and> mpz_ok (mpz_abs a)
    \<and> mpz_val (mpz_inc a) = mpz_val a + 1 \<and> mpz_wf (mpz_inc a) \<and> mpz_val (mpz_dec a) = mpz_val a - 1 \<and> mpz_wf (mpz_dec a)
    \<and> (mpz_ok c \<longrightarrow> mpz_val (mpz_addmul a b c) = mpz_val a + mpz_val b * mpz_val c \<and> mpz_wf (mpz_addmul a b c)
        \<and> mpz_val (mpz_submul a b c) = mpz_val a - mpz_val b * mpz_val c \<and> mpz_wf (mpz_submul a b c))"
  using assms by simp

theorem mpz_ring_correct_witness:
  "mpz_val (mpz_add (mk_z (- 2147483648)) (mk_large 1 [0, 0, 5])) = - 2147483648 + 5 * 2 ^ 64
   \<and> mpz_val (mpz_mul (mk_z (- 2147483648)) (mk_large 1 [0, 0, 5])) = - 2147483648 * (5 * 2 ^ 64)
   \<and> mpz_val (mpz_neg (mk_z (- 2147483648))) = 2147483648"
  using mpz_ring_correct [of "mk_z (- 2147483648)" "mk_large 1 [0, 0, 5]" "mk_z 0"] by (simp add: int_limits)

text \<open>\<open>mpz_manager::div\<close> and \<open>mod\<close> are division with remainder for every combination of signs: the
  remainder is nonnegative and smaller than the absolute value of the divisor.\<close>

theorem mpz_euclid_correct:
  assumes "mpz_ok a" "mpz_ok b" "mpz_val b \<noteq> 0"
  shows "\<exists>q r. mpz_div a b = Inr q \<and> mpz_mod a b = Inr r \<and> mpz_ok q \<and> mpz_ok r
    \<and> mpz_val a = mpz_val b * mpz_val q + mpz_val r \<and> 0 \<le> mpz_val r \<and> mpz_val r < \<bar>mpz_val b\<bar>"
  using mpz_div_val [OF assms] mpz_mod_val [OF assms] ediv_emod [of "mpz_val b" "mpz_val a"]
    emod_bounds [OF assms(3), of "mpz_val a"] by auto

theorem mpz_euclid_correct_witness:
  "\<exists>q r. mpz_div (mk_large (- 1) [1, 0, 7]) (mk_large (- 1) [5, 3]) = Inr q
    \<and> mpz_mod (mk_large (- 1) [1, 0, 7]) (mk_large (- 1) [5, 3]) = Inr r
    \<and> - (1 + 7 * 2 ^ 64) = - (5 + 3 * 2 ^ 32) * mpz_val q + mpz_val r \<and> 0 \<le> mpz_val r \<and> mpz_val r < 5 + 3 * 2 ^ 32"
  using mpz_euclid_correct [of "mk_large (- 1) [1, 0, 7]" "mk_large (- 1) [5, 3]"] by (auto simp: int_limits)

text \<open>\<open>machine_div\<close> and \<open>rem\<close> truncate towards zero, and of the operations that divide, on a zero
  divisor only \<open>machine_div\<close> (and \<open>div\<close> of a nonnegative number) raises the exception; the others run
  into the undefined division of machine integers or the unreachable case of \<open>mpn_manager::div\<close>.\<close>

theorem mpz_machine_div_cases:
  assumes "mpz_ok a" "mpz_ok b"
  shows "(if mpz_val b = 0
     then machine_div a b = Inl Division_by_zero \<and> mpz_rem a b = Inl Undefined_behaviour
       \<and> machine_div_rem a b = Inl Undefined_behaviour
     else \<exists>q r. machine_div a b = Inr q \<and> mpz_rem a b = Inr r \<and> mpz_ok q \<and> mpz_ok r
       \<and> mpz_val q = mpz_val a sdiv mpz_val b \<and> mpz_val r = mpz_val a smod mpz_val b)"
  using division_by_zero [OF assms] machine_div_val [OF assms] mpz_rem_val [OF assms] by auto

theorem mpz_machine_div_cases_witness:
  "machine_div (mk_large 1 [0, 0, 5]) (mk_z 0) = Inl Division_by_zero"
  using mpz_machine_div_cases [of "mk_large 1 [0, 0, 5]" "mk_z 0"] by (simp add: int_limits)

text \<open>The comparison operators of \<open>mpz_manager\<close> agree with the order of the integers, also between a
  small and a large number and for the two values that have both representations.\<close>

theorem mpz_compare_correct:
  assumes "mpz_ok a" "mpz_ok b"
  shows "(mpz_eq a b \<longleftrightarrow> mpz_val a = mpz_val b) \<and> (mpz_neq a b \<longleftrightarrow> mpz_val a \<noteq> mpz_val b)
    \<and> (mpz_lt a b \<longleftrightarrow> mpz_val a < mpz_val b) \<and> (mpz_le a b \<longleftrightarrow> mpz_val a \<le> mpz_val b)
    \<and> (mpz_gt a b \<longleftrightarrow> mpz_val a > mpz_val b) \<and> (mpz_ge a b \<longleftrightarrow> mpz_val a \<ge> mpz_val b)
    \<and> big_compare a b = (if mpz_val a < mpz_val b then - 1 else if mpz_val a = mpz_val b then 0 else 1)"
  using assms by (simp add: big_compare_val)

theorem mpz_compare_correct_witness:
  "mpz_eq (mk_z 2147483647) (mk_large 1 [2147483647]) \<and> mpz_lt (mk_large (- 1) [0, 0, 1]) (mk_z (- 5))"
  using mpz_compare_correct [of "mk_z 2147483647" "mk_large 1 [2147483647]"]
    mpz_compare_correct [of "mk_large (- 1) [0, 0, 1]" "mk_z (- 5)"] by (simp add: int_limits)

text \<open>C4: \<open>mpz_manager::gcd\<close> (binary gcd on small numbers, Lehmer's algorithm on large ones) terminates and
  returns the greatest common divisor, except on the one pair of representations that is
  shown next.\<close>

theorem mpz_gcd_correct:
  assumes "mpz_ok a" "mpz_ok b" "\<not> gcd_null_cell a b"
  shows "\<exists>c. mpz_gcd a b = Inr c \<and> mpz_ok c \<and> mpz_val c = gcd (mpz_val a) (mpz_val b)"
  using assms by (rule mpz_gcd_val)

theorem mpz_gcd_correct_witness:
  "\<exists>c. mpz_gcd (mk_large 1 [6, 0, 0, 3]) (mk_large (- 1) [12, 9]) = Inr c \<and> mpz_ok c
    \<and> mpz_val c = gcd (6 + 3 * 2 ^ 96) (- (12 + 9 * 2 ^ 32))"
  using mpz_gcd_correct [of "mk_large 1 [6, 0, 0, 3]" "mk_large (- 1) [12, 9]"]
  by (simp add: int_limits gcd_null_cell_def)

text \<open>C24: \<open>set(mpz&, uint64_t)\<close> stores \<open>INT_MAX\<close> as a large number, and the gcd of the small \<open>INT_MAX\<close> and
  this number then reads the digits of the small one, which has no cell.\<close>

theorem mpz_gcd_reads_null_cell:
  "mpz_gcd (mk_z 2147483647) (mpz_set_ui64 2147483647) = Inl Undefined_behaviour"
proof (rule mpz_gcd_null_cell)
  have "\<not> is_small (mpz_set_ui64 2147483647)"
    by (simp add: mpz_set_ui64_def mpz_set_big_ui64_def big_of_u64_def int_limits)
  then show "gcd_null_cell (mk_z 2147483647) (mpz_set_ui64 2147483647)"
    by (simp add: gcd_null_cell_def int_limits)
qed (simp_all add: int_limits)

text \<open>The binary gcd of machine integers: \<open>u64_gcd\<close> on all arguments, \<open>u_gcd\<close> below \<open>2^31\<close>, where the
  sign bit of the difference tells the smaller argument. Both loops end.\<close>

theorem machine_gcd_correct:
  "(\<exists>r. u64_gcd x y = Inr r \<and> unat r = gcd (unat x) (unat y))
   \<and> (unat u < 2 ^ 31 \<and> unat v < 2 ^ 31 \<longrightarrow> (\<exists>r. u_gcd u v = Inr r \<and> unat r = gcd (unat u) (unat v)))"
  using u64_gcd_val [of x y] u_gcd_val [of u v] by blast

theorem machine_gcd_correct_witness:
  "(\<exists>r. u64_gcd 18446744073709551615 4294967295 = Inr r \<and> unat r = gcd 18446744073709551615 4294967295)
   \<and> (\<exists>r. u_gcd 2147483646 72 = Inr r \<and> unat r = gcd 2147483646 72)"
  using machine_gcd_correct [of 18446744073709551615 4294967295 2147483646 72] by simp

text \<open>C25: the inner loop of Lehmer's algorithm terminates without overflow of an \<open>int64_t\<close>. The matrix of its
  cofactors is unimodular; the pair that it gives has the same gcd as the pair at the start, is ordered,
  and is smaller when the cofactor \<open>B\<close> is not zero.\<close>

theorem lehmer_loop_correct:
  assumes "lehmer_top a b W h k"
  shows "\<exists>s. while_res lehmer_continue lehmer_step \<lparr>a_hat = h, b_hat = k, lA = 1, lB = 0, lC = 0, lD = 1\<rparr> = Inr s
    \<and> \<bar>lA s * lD s - lB s * lC s\<bar> = 1
    \<and> (let u = lA s * a + lB s * b; v = lC s * a + lD s * b in
        gcd u v = gcd a b \<and> 0 \<le> v \<and> v \<le> u \<and> v \<le> b \<and> (lB s \<noteq> 0 \<longrightarrow> v < b))
    \<and> list_all i64_ok [a_hat s, b_hat s, lA s, lB s, lC s, lD s]"
proof -
  obtain s where s: "while_res lehmer_continue lehmer_step
      \<lparr>a_hat = h, b_hat = k, lA = 1, lB = 0, lC = 0, lD = 1\<rparr> = Inr s" "lehmer_inv a b h k s"
    using lehmer_loop [OF assms] by blast
  have "list_all i64_ok [a_hat s, b_hat s, lA s, lB s, lC s, lD s]"
    using lehmer_range [OF s(2)] by (simp add: i64_ok_def abs_le_iff)
  with s show ?thesis by (auto simp: lehmer_inv_def Let_def)
qed

theorem lehmer_loop_correct_witness:
  "\<exists>s. while_res lehmer_continue lehmer_step
      \<lparr>a_hat = 2768, b_hat = 1768, lA = 1, lB = 0, lC = 0, lD = 1\<rparr> = Inr s
    \<and> gcd (lA s * 27682 + lB s * 17689) (lC s * 27682 + lD s * 17689) = gcd 27682 17689"
  using lehmer_loop_correct [of 27682 17689 10 2768 1768] by (auto simp: lehmer_top_def Let_def)

text \<open>The extended Euclidean algorithm returns the gcd and the coefficients of a linear combination,
  with the signs of the arguments accounted for.\<close>

theorem mpz_ext_gcd_correct:
  assumes "mpz_ok r1" "mpz_ok r2"
  shows "\<exists>a b r. mpz_ext_gcd r1 r2 = Inr (a, b, r) \<and> mpz_val r = gcd (mpz_val r1) (mpz_val r2)
    \<and> mpz_val r1 * mpz_val a + mpz_val r2 * mpz_val b = mpz_val r"
  using mpz_ext_gcd_val [OF assms] by blast

theorem mpz_ext_gcd_correct_witness:
  "\<exists>a b r. mpz_ext_gcd (mk_z (- 12)) (mk_large 1 [0, 0, 9]) = Inr (a, b, r) \<and> mpz_val r = gcd (- 12) (9 * 2 ^ 64)
    \<and> - 12 * mpz_val a + 9 * 2 ^ 64 * mpz_val b = mpz_val r"
  using mpz_ext_gcd_correct [of "mk_z (- 12)" "mk_large 1 [0, 0, 9]"] by (simp add: int_limits)

text \<open>The gcd of an array of canonical numbers is their greatest common divisor, and \<open>lcm\<close> is, up to
  sign, the least common multiple.\<close>

theorem mpz_gcd_array_lcm_correct:
  assumes "list_all mpz_wf as" "mpz_ok a" "mpz_wf b"
  shows "\<exists>g c. mpz_gcd_array as = Inr g \<and> mpz_val g = Gcd (mpz_val ` set as)
    \<and> mpz_lcm a b = Inr c \<and> \<bar>mpz_val c\<bar> = lcm (mpz_val a) (mpz_val b)"
  using mpz_gcd_array_val [OF assms(1)] mpz_lcm_val [OF assms(2,3)] by blast

theorem mpz_gcd_array_lcm_correct_witness:
  "\<exists>g c. mpz_gcd_array [mk_z 30, mk_z (- 42), mk_large 1 [0, 0, 7]] = Inr g
    \<and> mpz_val g = Gcd {30, - 42, 7 * 2 ^ 64}
    \<and> mpz_lcm (mk_z (- 6)) (mk_z 4) = Inr c \<and> \<bar>mpz_val c\<bar> = lcm (- 6) 4"
  using mpz_gcd_array_lcm_correct [of "[mk_z 30, mk_z (- 42), mk_large 1 [0, 0, 7]]" "mk_z (- 6)" "mk_z 4"]
  by (auto simp: int_limits mpz_wf_def)

text \<open>\<open>mul2k\<close> multiplies by a power of two and \<open>machine_div2k\<close> divides by it, truncating towards zero,
  by shifts of the digits.\<close>

theorem mpz_shift_correct:
  assumes "mpz_ok a"
  shows "mpz_val (mpz_mul2k a k) = mpz_val a * 2 ^ k \<and> mpz_ok (mpz_mul2k a k)
    \<and> mpz_val (mpz_machine_div2k a k) = mpz_val a sdiv 2 ^ k \<and> mpz_ok (mpz_machine_div2k a k)
    \<and> mpz_val (mpz_machine_div2k (mpz_mul2k a k) k) = mpz_val a"
  using assms by (simp add: sdiv_dvd)

theorem mpz_shift_correct_witness:
  "mpz_val (mpz_mul2k (mk_z (- 2147483648)) 70) = - 2147483648 * 2 ^ 70
   \<and> mpz_val (mpz_machine_div2k (mk_large (- 1) [1, 1, 1]) 40) = - (1 + 2 ^ 32 + 2 ^ 64) sdiv 2 ^ 40"
  using mpz_shift_correct [of "mk_z (- 2147483648)" 70] mpz_shift_correct [of "mk_large (- 1) [1, 1, 1]" 40]
  by (simp add: int_limits)

text \<open>\<open>power\<close> by repeated squaring computes the power, for every exponent below \<open>2^31\<close>.\<close>

theorem mpz_power_correct:
  assumes "mpz_ok a" "unat p < 2 ^ 31" "mpz_val a \<noteq> 0 \<or> p \<noteq> 0"
  shows "\<exists>b. mpz_power a p = Inr b \<and> mpz_ok b \<and> mpz_val b = mpz_val a ^ unat p"
  using mpz_power_val [OF assms] by blast

theorem mpz_power_correct_witness:
  "\<exists>b. mpz_power (mk_z (- 3)) 100 = Inr b \<and> mpz_ok b \<and> mpz_val b = (- 3) ^ 100"
  using mpz_power_correct [of "mk_z (- 3)" 100] by (simp add: int_limits)

text \<open>C26: for an exponent of \<open>2^31\<close> or more the 32-bit mask of the squaring loop wraps around to zero, and
  \<open>power\<close> does not return.\<close>

theorem mpz_power_nonterminating:
  assumes "mpz_ok a" "2 ^ 31 \<le> unat p" "mpz_val a \<notin> {0, 1, 2}"
  shows "mpz_power a p = Inl Nontermination"
proof (rule mpz_power_diverges [OF assms(1,2)])
  show "\<not> (is_small a \<and> (m_val a = 2 \<or> m_val a = 0 \<or> m_val a = 1))"
    using assms(3) mpz_val_small [of a] by auto
qed

theorem mpz_power_nonterminating_witness:
  "mpz_power (mk_z (- 1)) 2147483648 = Inl Nontermination"
  using mpz_power_nonterminating [of "mk_z (- 1)" 2147483648] by (simp add: int_limits)

text \<open>Positions of bits: \<open>log2\<close> of a positive and \<open>mlog2\<close> of a negative number is the position of the
  highest bit, \<open>bitsize\<close> the length, and \<open>power_of_two_multiple\<close> the position of the lowest bit.\<close>

theorem mpz_bit_positions:
  assumes "mpz_ok a" "mpz_val a \<noteq> 0"
  shows "(0 < mpz_val a \<longrightarrow> 2 ^ mpz_log2 a \<le> mpz_val a \<and> mpz_val a < 2 ^ (mpz_log2 a + 1))
    \<and> (mpz_val a < 0 \<longrightarrow> 2 ^ mpz_mlog2 a \<le> - mpz_val a \<and> - mpz_val a < 2 ^ (mpz_mlog2 a + 1))
    \<and> 2 ^ (mpz_bitsize a - 1) \<le> \<bar>mpz_val a\<bar> \<and> \<bar>mpz_val a\<bar> < 2 ^ mpz_bitsize a
    \<and> 2 ^ mpz_power_of_two_multiple a dvd mpz_val a
    \<and> \<not> 2 ^ (mpz_power_of_two_multiple a + 1) dvd mpz_val a"
proof -
  obtain w where "mpz_val a = 2 ^ mpz_power_of_two_multiple a * w" "odd w"
    using mpz_power_of_two_multiple_val [OF assms] by blast
  then have "2 ^ mpz_power_of_two_multiple a dvd mpz_val a \<and> \<not> 2 ^ (mpz_power_of_two_multiple a + 1) dvd mpz_val a"
    by (simp add: mult.commute [of 2])
  then show ?thesis
    using mpz_log2_val [OF assms(1)] mpz_mlog2_val [OF assms(1)] mpz_bitsize_val [OF assms] by simp
qed

theorem mpz_bit_positions_witness:
  "2 ^ mpz_mlog2 (mk_large (- 1) [0, 0, 12]) \<le> (12 :: int) * 2 ^ 64
   \<and> 2 ^ mpz_power_of_two_multiple (mk_large (- 1) [0, 0, 12]) dvd - (12 * 2 ^ 64 :: int)"
  using mpz_bit_positions [of "mk_large (- 1) [0, 0, 12]"] by (simp add: int_limits)

text \<open>The tests \<open>is_uint64\<close> and \<open>is_int64\<close> are exact and the accessors then return the value; setting
  a number from a machine integer and reading it back gives the integer.\<close>

theorem mpz_machine_integers:
  assumes "mpz_ok a" "- (2 ^ 63) \<le> v" "v < 2 ^ 63"
  shows "(mpz_is_uint64 a \<longleftrightarrow> 0 \<le> mpz_val a \<and> mpz_val a < 2 ^ 64)
    \<and> (mpz_is_int64 a \<longleftrightarrow> - (2 ^ 63) \<le> mpz_val a \<and> mpz_val a < 2 ^ 63)
    \<and> (mpz_is_uint64 a \<longrightarrow> uint (mpz_get_uint64 a) = mpz_val a)
    \<and> (mpz_is_int64 a \<longrightarrow> mpz_get_int64 a = mpz_val a)
    \<and> mpz_get_int64 (mpz_set_i64 v) = v \<and> mpz_get_uint64 (mpz_set_ui64 w) = w"
proof -
  have "mpz_get_int64 (mpz_set_i64 v) = v"
    using mpz_get_int64_val [of "mpz_set_i64 v"] mpz_set_i64_val [OF assms(2,3)] assms(2,3) by simp
  moreover have "uint (mpz_get_uint64 (mpz_set_ui64 w)) = uint w"
    using uint_lt2p [of w] by (subst mpz_get_uint64_val) simp_all
  then have "mpz_get_uint64 (mpz_set_ui64 w) = w" by (simp add: word_uint_eq_iff)
  ultimately show ?thesis
    using assms(1) mpz_get_uint64_val mpz_get_int64_val by simp
qed

theorem mpz_machine_integers_witness:
  "mpz_is_int64 (mk_large (- 1) [0, 2147483648]) \<and> mpz_get_int64 (mk_large (- 1) [0, 2147483648]) = - (2 ^ 63)
   \<and> mpz_get_int64 (mpz_set_i64 (- 9223372036854775808)) = - 9223372036854775808"
  using mpz_machine_integers [of "mk_large (- 1) [0, 2147483648]" "- 9223372036854775808" 0] by (simp add: int_limits)

text \<open>C27: the bitwise operations on nonnegative numbers, 64 bits at a time, are those of the integers, and
  \<open>bitwise_not\<close> is the complement within \<open>sz\<close> bits, except for 63 bits of a small number, where the
  computation of the mask overflows.\<close>

theorem mpz_bitwise_correct:
  assumes "mpz_ok a" "mpz_ok b" "0 \<le> mpz_val a" "0 \<le> mpz_val b"
  shows "(\<exists>c d e. mpz_bitwise_or a b = Inr c \<and> mpz_val c = (or) (mpz_val a) (mpz_val b)
      \<and> mpz_bitwise_and a b = Inr d \<and> mpz_val d = (and) (mpz_val a) (mpz_val b)
      \<and> mpz_bitwise_xor a b = Inr e \<and> mpz_val e = (xor) (mpz_val a) (mpz_val b))
    \<and> (if is_small a \<and> sz = 63 then mpz_bitwise_not sz a = Inl Undefined_behaviour
       else \<exists>f. mpz_bitwise_not sz a = Inr f \<and> mpz_val f = 2 ^ sz - 1 - mpz_val a mod 2 ^ sz)"
proof (rule conjI)
  show "if is_small a \<and> sz = 63 then mpz_bitwise_not sz a = Inl Undefined_behaviour
       else \<exists>f. mpz_bitwise_not sz a = Inr f \<and> mpz_val f = 2 ^ sz - 1 - mpz_val a mod 2 ^ sz"
    using mpz_bitwise_not_val [OF assms(1,3), of sz] mpz_bitwise_not_undefined [of a] by auto
qed (use mpz_bitwise_or_val [OF assms] mpz_bitwise_and_val [OF assms] mpz_bitwise_xor_val [OF assms] in blast)

theorem mpz_bitwise_correct_witness:
  "(\<exists>c d e. mpz_bitwise_or (mk_large 1 [1, 0, 6]) (mk_z 3) = Inr c \<and> mpz_val c = (or) (1 + 6 * 2 ^ 64) 3
    \<and> mpz_bitwise_and (mk_large 1 [1, 0, 6]) (mk_z 3) = Inr d \<and> mpz_val d = (and) (1 + 6 * 2 ^ 64) 3
    \<and> mpz_bitwise_xor (mk_large 1 [1, 0, 6]) (mk_z 3) = Inr e \<and> mpz_val e = (xor) (1 + 6 * 2 ^ 64) 3)
    \<and> (\<exists>f. mpz_bitwise_not 70 (mk_large 1 [1, 0, 6]) = Inr f)"
  using mpz_bitwise_correct [of "mk_large 1 [1, 0, 6]" "mk_z 3" 70] by (auto simp: int_limits)

text \<open>\<open>is_perfect_square\<close> terminates, and returns the square root of a perfect square and otherwise the
  smallest integer whose square is larger.\<close>

theorem mpz_is_perfect_square_correct:
  assumes "mpz_ok a" "0 \<le> mpz_val a"
  shows "\<exists>r b. mpz_is_perfect_square a b0 = Inr (r, b) \<and> 0 \<le> mpz_val b
    \<and> (if r then mpz_val b * mpz_val b = mpz_val a
       else (mpz_val b - 1) * (mpz_val b - 1) < mpz_val a \<and> mpz_val a < mpz_val b * mpz_val b)"
  using mpz_is_perfect_square_val [OF assms, of b0] by blast

theorem mpz_is_perfect_square_correct_witness:
  "\<exists>r b. mpz_is_perfect_square (mk_large 1 [0, 0, 2]) (mk_z 0) = Inr (r, b)
    \<and> (if r then mpz_val b * mpz_val b = 2 * 2 ^ 64
       else (mpz_val b - 1) * (mpz_val b - 1) < 2 * 2 ^ 64 \<and> 2 * 2 ^ 64 < mpz_val b * mpz_val b)"
proof -
  have ok: "mpz_ok (mk_large 1 [0, 0, 2])" by (simp add: int_limits)
  have v: "mpz_val (mk_large 1 [0, 0, 2]) = 2 * 2 ^ 64" by simp
  have nn: "0 \<le> mpz_val (mk_large 1 [0, 0, 2])" by simp
  show ?thesis using mpz_is_perfect_square_correct [OF ok nn, of "mk_z 0", unfolded v] by blast
qed

text \<open>\<open>root\<close> terminates, and returns an exact n-th root when there is one and otherwise the smallest
  integer whose n-th power is larger, for negative numbers and odd \<open>n\<close> too.\<close>

theorem mpz_root_correct:
  assumes "mpz_ok a" "0 < n" "n < 2 ^ 31" "odd n \<or> 0 \<le> mpz_val a" "mpz_bitsize a < 2 ^ 32"
  shows "\<exists>r b. mpz_root a n = Inr (r, b)
    \<and> (if r then mpz_val b ^ n = mpz_val a else (mpz_val b - 1) ^ n < mpz_val a \<and> mpz_val a < mpz_val b ^ n)"
  using mpz_root_val [OF assms] by blast

theorem mpz_root_correct_witness:
  "\<exists>r b. mpz_root (mk_z (- 30)) 3 = Inr (r, b)
    \<and> (if r then mpz_val b ^ 3 = - 30 else (mpz_val b - 1) ^ 3 < - 30 \<and> - 30 < mpz_val b ^ 3)"
proof -
  have sz: "mpz_bitsize (mk_z (- 30)) < 2 ^ 32"
    by (simp add: mpz_bitsize_def mpz_mlog2_def u_log2_def log2_stage_def int_limits drop_bit_numeral_bit0)
  have ok: "mpz_ok (mk_z (- 30))" and v: "mpz_val (mk_z (- 30)) = - 30" by (simp_all add: int_limits)
  show ?thesis by (rule mpz_root_correct [OF ok _ _ _ sz, of 3, unfolded v]) simp_all
qed

text \<open>Writing a number in decimal and reading the text back gives the number.\<close>

theorem mpz_string_roundtrip:
  assumes "mpz_ok a"
  shows "\<exists>s. mpz_to_string a = Inr s \<and> mpz_ok (mpz_set_string s) \<and> mpz_val (mpz_set_string s) = mpz_val a"
  using mpz_to_string_val [OF assms] mpz_set_string_show_int mpz_set_string_val(1) by simp

theorem mpz_string_roundtrip_witness:
  "\<exists>s. mpz_to_string (mk_large (- 1) [0, 0, 1]) = Inr s \<and> mpz_val (mpz_set_string s) = - (2 ^ 64)"
  using mpz_string_roundtrip [of "mk_large (- 1) [0, 0, 1]"] by (auto simp: int_limits)

text \<open>\<open>display_hex\<close> pads only the leading two digits: the 96 low bits of \<open>2^64\<close> are written with 17
  instead of 24 hexadecimal digits.\<close>

theorem mpz_display_hex_padding:
  "mpz_display_hex (mk_large 1 [0, 0, 1]) 96 = ''00000001'' @ ''00000000'' @ ''0''"
proof -
  have s: "show_base 16 0 = ''0''" "show_base 16 (Suc 0) = ''1''" by code_simp+
  have u: "[1..<3] = [1, 2::nat]" by (simp add: upt_rec)
  have r: "replicate 7 (CHR ''0'') = ''0000000''" by code_simp
  show ?thesis by (simp add: mpz_display_hex_def pad0_def s u r)
qed

section \<open>Rationals (mpq)\<close>

text \<open>C9: \<open>mpq_manager\<close> implements the field of rationals on numbers in lowest terms: sums, differences,
  products and quotients are computed without a fault and are in lowest terms again.\<close>

theorem mpq_field_correct:
  assumes "mpq_ok a" "mpq_ok b"
  shows "yields (mpq_add a b) (\<lambda>c. mpq_ok c \<and> mpq_val c = mpq_val a + mpq_val b)
    \<and> yields (mpq_sub a b) (\<lambda>c. mpq_ok c \<and> mpq_val c = mpq_val a - mpq_val b)
    \<and> yields (mpq_mul a b) (\<lambda>c. mpq_ok c \<and> mpq_val c = mpq_val a * mpq_val b)
    \<and> (mpq_val b \<noteq> 0 \<longrightarrow> yields (mpq_div a b) (\<lambda>c. mpq_ok c \<and> mpq_val c = mpq_val a / mpq_val b)
        \<and> mpq_ok (mpq_inv b) \<and> mpq_val (mpq_inv b) = inverse (mpq_val b))"
  using mpq_add_yields [OF assms] mpq_sub_yields [OF assms] mpq_mul_yields [OF assms] mpq_div_yields [OF assms]
    mpq_inv_val [OF assms(2)] by blast

theorem mpq_field_correct_witness:
  "yields (mpq_add \<lparr>m_num = mk_z 1, m_den = mk_z 6\<rparr> \<lparr>m_num = mk_z (- 3), m_den = mk_z 4\<rparr>) (\<lambda>c. mpq_val c = - 7 / 12)
   \<and> yields (mpq_div \<lparr>m_num = mk_z 1, m_den = mk_z 6\<rparr> \<lparr>m_num = mk_z (- 3), m_den = mk_z 4\<rparr>) (\<lambda>c. mpq_val c = - 2 / 9)"
proof -
  have cop: "coprime (3 :: int) 4" unfolding coprime_iff_gcd_eq_1 by code_simp
  show ?thesis
    using mpq_field_correct [of "\<lparr>m_num = mk_z 1, m_den = mk_z 6\<rparr>" "\<lparr>m_num = mk_z (- 3), m_den = mk_z 4\<rparr>"] cop
    by (simp add: mpq_ok_def mpz_wf_def mpq_val_def int_limits) (auto elim!: yields_mono)
qed

text \<open>C28: with any of the arguments overwritten by the result the product and the quotient are right, and
  the sum and the difference too, except when the result overwrites the second argument (and not the
  first) and the denominators have a common divisor. No other number of the store changes.\<close>

theorem mpq_store_correct:
  assumes "mpq_ok (\<sigma> a)" "mpq_ok (\<sigma> b)"
    "c \<noteq> b \<or> a = b \<or> coprime (mpz_val (m_den (\<sigma> a))) (mpz_val (m_den (\<sigma> b)))"
  shows "yields (add_at a b c \<sigma>) (\<lambda>\<tau>. mpq_ok (\<tau> c) \<and> mpq_val (\<tau> c) = mpq_val (\<sigma> a) + mpq_val (\<sigma> b) \<and> (\<forall>i. i \<noteq> c \<longrightarrow> \<tau> i = \<sigma> i))
    \<and> yields (sub_at a b c \<sigma>) (\<lambda>\<tau>. mpq_ok (\<tau> c) \<and> mpq_val (\<tau> c) = mpq_val (\<sigma> a) - mpq_val (\<sigma> b) \<and> (\<forall>i. i \<noteq> c \<longrightarrow> \<tau> i = \<sigma> i))
    \<and> yields (mul_at a b d \<sigma>) (\<lambda>\<tau>. mpq_ok (\<tau> d) \<and> mpq_val (\<tau> d) = mpq_val (\<sigma> a) * mpq_val (\<sigma> b) \<and> (\<forall>i. i \<noteq> d \<longrightarrow> \<tau> i = \<sigma> i))
    \<and> (mpq_val (\<sigma> b) \<noteq> 0 \<longrightarrow> yields (div_at a b d \<sigma>)
        (\<lambda>\<tau>. mpq_ok (\<tau> d) \<and> mpq_val (\<tau> d) = mpq_val (\<sigma> a) / mpq_val (\<sigma> b) \<and> (\<forall>i. i \<noteq> d \<longrightarrow> \<tau> i = \<sigma> i)))"
  using add_at_yields [OF assms] sub_at_yields [OF assms] mul_at_yields [OF assms(1,2), of d] div_at_yields [OF assms(1,2), of d]
  by (auto elim!: yields_mono)

theorem mpq_store_correct_witness:
  "yields (sub_at 0 1 0 (\<lambda>i. if i = 0 then \<lparr>m_num = mk_z 1, m_den = mk_z 4\<rparr> else \<lparr>m_num = mk_z 1, m_den = mk_z 6\<rparr>))
     (\<lambda>\<tau>. mpq_val (\<tau> 0) = 1 / 12)
   \<and> yields (div_at 0 1 1 (\<lambda>i. if i = 0 then \<lparr>m_num = mk_z 1, m_den = mk_z 4\<rparr> else \<lparr>m_num = mk_z 1, m_den = mk_z 6\<rparr>))
     (\<lambda>\<tau>. mpq_val (\<tau> 1) = 3 / 2)"
  using mpq_store_correct [of "\<lambda>i. if i = 0 then \<lparr>m_num = mk_z 1, m_den = mk_z 4\<rparr> else \<lparr>m_num = mk_z 1, m_den = mk_z 6\<rparr>" 0 1 0 1]
  by (simp add: mpq_ok_def mpz_wf_def mpq_val_def int_limits) (auto elim!: yields_mono)

text \<open>C29: \<open>add(a, b, b)\<close> and \<open>sub(a, b, b)\<close> on denominators with a common divisor \<open>g > 1\<close>: the denominator of
  the result is written before that of \<open>b\<close> is read for the last time, so \<open>b\<close> receives the sum or the
  difference of \<open>num(a)/g\<close>, not of \<open>a\<close>, and \<open>b\<close>.\<close>

theorem mpq_add_overwrites_second:
  assumes "mpq_ok (\<sigma> a)" "mpq_ok (\<sigma> b)" "a \<noteq> b" "mpq_val (\<sigma> a) \<noteq> 0" "mpq_val (\<sigma> b) \<noteq> 0"
    and "g = gcd (mpz_val (m_den (\<sigma> a))) (mpz_val (m_den (\<sigma> b)))" "g \<noteq> 1"
  shows "yields (add_at a b b \<sigma>) (\<lambda>\<tau>. mpq_val (\<tau> b) = of_int (mpz_val (m_num (\<sigma> a))) / of_int g + mpq_val (\<sigma> b))
    \<and> yields (sub_at a b b \<sigma>) (\<lambda>\<tau>. mpq_val (\<tau> b) = of_int (mpz_val (m_num (\<sigma> a))) / of_int g - mpq_val (\<sigma> b))"
  using add_sub_at_overwrites [OF assms(1-5)] assms(6,7) by simp

theorem mpq_add_overwrites_second_witness:
  "yields (add_at 0 1 1 (\<lambda>i. if i = 0 then \<lparr>m_num = mk_z 1, m_den = mk_z 4\<rparr> else \<lparr>m_num = mk_z 1, m_den = mk_z 6\<rparr>))
     (\<lambda>\<tau>. mpq_val (\<tau> 1) = 2 / 3) \<and> (1 / 4 + 1 / 6 :: rat) = 5 / 12"
proof -
  have "gcd (4 :: int) 6 = 2" by code_simp
  then show ?thesis
    using mpq_add_overwrites_second [of "\<lambda>i. if i = 0 then \<lparr>m_num = mk_z 1, m_den = mk_z 4\<rparr> else \<lparr>m_num = mk_z 1, m_den = mk_z 6\<rparr>" 0 1 2]
    by (simp add: mpq_ok_def mpz_wf_def mpq_val_def int_limits)
qed

text \<open>The comparisons of rationals, which compare the representations of numbers in lowest terms or
  cross products, decide equality and order.\<close>

theorem mpq_compare_correct:
  assumes "mpq_ok a" "mpq_ok b"
  shows "(mpq_eq a b \<longleftrightarrow> mpq_val a = mpq_val b) \<and> (mpq_lt a b \<longleftrightarrow> mpq_val a < mpq_val b)
    \<and> (mpq_le a b \<longleftrightarrow> mpq_val a \<le> mpq_val b) \<and> (mpq_gt a b \<longleftrightarrow> mpq_val a > mpq_val b)
    \<and> (mpq_is_int a \<longleftrightarrow> mpq_val a \<in> \<int>)"
  using assms by (simp add: mpq_is_int_val)

theorem mpq_compare_correct_witness:
  "mpq_lt \<lparr>m_num = mk_z (- 3), m_den = mk_z 4\<rparr> \<lparr>m_num = mk_z (- 5), m_den = mk_z 7\<rparr>"
proof -
  have cop: "coprime (3 :: int) 4" "coprime (5 :: int) 7" unfolding coprime_iff_gcd_eq_1 by code_simp+
  show ?thesis
    using mpq_compare_correct [of "\<lparr>m_num = mk_z (- 3), m_den = mk_z 4\<rparr>" "\<lparr>m_num = mk_z (- 5), m_den = mk_z 7\<rparr>"] cop
    by (simp add: mpq_ok_def mpz_wf_def mpq_val_def int_limits)
qed

text \<open>\<open>floor\<close> and \<open>ceil\<close> of a rational, computed with the truncating division, round down and up for
  both signs, and those of a binary rational, computed with shifts, too.\<close>

theorem rounding_correct:
  assumes "mpq_ok a" "mpbq_ok b"
  shows "yields (mpq_floor a) (\<lambda>f. mpz_val f = \<lfloor>mpq_val a\<rfloor>) \<and> yields (mpq_ceil a) (\<lambda>c. mpz_val c = \<lceil>mpq_val a\<rceil>)
    \<and> mpz_val (mpbq_floor b) = \<lfloor>mpbq_val b\<rfloor> \<and> mpz_val (mpbq_ceil b) = \<lceil>mpbq_val b\<rceil>"
  using mpq_floor_ceil_yields [OF assms(1)] mpbq_floor_ceil_val [OF assms(2)] by (auto elim!: yields_mono)

theorem rounding_correct_witness:
  "yields (mpq_floor \<lparr>m_num = mk_z (- 7), m_den = mk_z 2\<rparr>) (\<lambda>f. mpz_val f = - 4)
   \<and> mpz_val (mpbq_floor \<lparr>bq_num = mk_z (- 7), bq_k = 1\<rparr>) = - 4"
proof -
  have "\<lfloor>- 7 / 2 :: rat\<rfloor> = - 4" "coprime (7 :: int) 2" by (simp_all add: floor_eq_iff)
  then show ?thesis
    using rounding_correct [of "\<lparr>m_num = mk_z (- 7), m_den = mk_z 2\<rparr>" "\<lparr>bq_num = mk_z (- 7), bq_k = 1\<rparr>"]
    by (simp add: mpq_ok_def mpbq_ok_def mpz_wf_def mpq_val_def mpbq_val_def int_limits)
qed

text \<open>C30: \<open>root(a, n, r)\<close> terminates, answers whether the rational has a rational n-th root, and then
  returns it.\<close>

theorem mpq_root_complete:
  assumes "mpq_ok a" "0 < n" "n < 2 ^ 31" "odd n \<or> 0 \<le> mpq_val a"
    and "mpz_bitsize (m_num a) < 2 ^ 32" "mpz_bitsize (m_den a) < 2 ^ 32"
  shows "yields (mpq_root a n r) (\<lambda>(b, s). (b \<longleftrightarrow> (\<exists>x. mpq_val a = x ^ n)) \<and> (b \<longrightarrow> mpq_val s ^ n = mpq_val a))"
  using assms by (rule mpq_root_yields)

theorem mpq_root_complete_witness:
  "yields (mpq_root \<lparr>m_num = mk_z (- 8), m_den = mk_z 27\<rparr> 3 (mk_q 0)) (\<lambda>(b, s). b \<and> mpq_val s ^ 3 = - 8 / 27)"
proof -
  let ?a = "\<lparr>m_num = mk_z (- 8), m_den = mk_z 27\<rparr>"
  have cop: "coprime (8 :: int) 27" unfolding coprime_iff_gcd_eq_1 by code_simp
  have ok: "mpq_ok ?a" and v: "mpq_val ?a = - 8 / 27" using cop by (simp_all add: mpq_ok_def mpz_wf_def mpq_val_def int_limits)
  have sz: "mpz_bitsize (m_num ?a) < 2 ^ 32" "mpz_bitsize (m_den ?a) < 2 ^ 32"
    by (simp_all add: mpz_bitsize_def mpz_mlog2_def mpz_log2_def u_log2_def log2_stage_def int_limits drop_bit_numeral_bit0)
  have "mpq_val ?a = (- 2 / 3) ^ 3" unfolding v by (simp add: power3_eq_cube)
  then have "\<exists>x. mpq_val ?a = x ^ 3" by blast
  then show ?thesis
    using mpq_root_complete [OF ok _ _ _ sz, of 3 "mk_q 0"] v by (auto elim!: yields_mono)
qed

text \<open>C31: writing a rational and reading the text back gives the rational, whatever number the result
  overwrites.\<close>

theorem mpq_string_roundtrip:
  assumes "mpq_ok a"
  shows "yields (mpq_to_string a) (\<lambda>s. yields (mpq_set_string a0 s) (\<lambda>b. mpq_ok b \<and> mpq_eq b a))"
  using mpq_set_string_to_string [OF assms, of a0] assms by (auto elim!: yields_mono)

theorem mpq_string_roundtrip_witness:
  "yields (mpq_to_string \<lparr>m_num = mk_z (- 5), m_den = mk_z 7\<rparr>) (\<lambda>s. yields (mpq_set_string (mk_q 5) s) (\<lambda>b. mpq_ok b \<and>
    mpq_eq b \<lparr>m_num = mk_z (- 5), m_den = mk_z 7\<rparr>))"
proof -
  have "coprime (5 :: int) 7" unfolding coprime_iff_gcd_eq_1 by code_simp
  then show ?thesis
    using mpq_string_roundtrip [of "\<lparr>m_num = mk_z (- 5), m_den = mk_z 7\<rparr>" "mk_q 5"]
    by (simp add: mpq_ok_def mpz_wf_def int_limits)
qed

text \<open>A decimal fraction with a point, with or without an exponent, is read as the number it denotes.\<close>

theorem mpq_decimal_parse:
  assumes "i \<noteq> []" "\<forall>c \<in> set i. is_decimal c" "\<forall>c \<in> set f. is_decimal c" "exp_ok x"
  shows "yields (mpq_set_string a0 ((if neg then ''-'' else '''') @ i @ ''.'' @ f @ exp_text x)) (\<lambda>a. mpq_ok a \<and>
    mpq_val a = (if neg then - 1 else 1) * (of_nat (read_dec 0 i) + of_nat (read_dec 0 f) / 10 ^ length f) * exp_factor x)"
  using assms by (rule mpq_set_string_decimal)

theorem mpq_decimal_parse_witness:
  "yields (mpq_set_string (mk_q 0) ''-12.5e3'') (\<lambda>a. mpq_val a = - 12500)"
proof -
  have d: "read_dec 0 ''12'' = 12" "read_dec 0 ''5'' = 5" "read_dec 0 ''3'' = 3" "is_decimal (CHR ''1'')"
    "is_decimal (CHR ''2'')" "is_decimal (CHR ''5'')" "is_decimal (CHR ''3'')" by code_simp+
  show ?thesis
    using mpq_decimal_parse [of "''12''" "''5''" "Some ('''', ''3'')" "mk_q 0" True] d
    by (auto simp: exp_ok_def exp_text_def exp_factor_def elim!: yields_mono)
qed

text \<open>C32: a number with an exponent but without a point or a slash keeps the denominator of the number it
  overwrites: reading the digits \<open>i\<close> with an optional minus sign and an exponent below \<open>2^31\<close> (\<open>exp_ok\<close>) into a
  rational with denominator \<open>d\<close> gives the \<open>d\<close>-th part of the number that is written.\<close>

theorem mpq_stale_denominator:
  assumes "mpq_ok a0" "exp_ok x" "x \<noteq> None" "i \<noteq> []" "\<forall>c \<in> set i. is_decimal c"
  shows "yields (mpq_set_string a0 ((if neg then ''-'' else '''') @ i @ exp_text x)) (\<lambda>a.
    mpq_val a = (if neg then - 1 else 1) * of_nat (read_dec 0 i) * exp_factor x / of_int (mpz_val (m_den a0)))"
  using mpq_set_string_stale [OF assms, of neg] by (auto elim!: yields_mono)

theorem mpq_stale_denominator_witness:
  "yields (mpq_set_string \<lparr>m_num = mk_z 1, m_den = mk_z 3\<rparr> ''-12e5'') (\<lambda>a. mpq_val a = - 400000)"
proof -
  have d: "read_dec 0 ''5'' = 5" "is_decimal (CHR ''5'')" "read_dec 0 ''12'' = 12" "is_decimal (CHR ''1'')" "is_decimal (CHR ''2'')"
    by code_simp+
  show ?thesis
    using mpq_stale_denominator [of "\<lparr>m_num = mk_z 1, m_den = mk_z 3\<rparr>" "Some ('''', ''5'')" "''12''" True] d
    by (auto simp: exp_ok_def exp_text_def exp_factor_def mpq_ok_def mpz_wf_def int_limits elim!: yields_mono)
qed

text \<open>\<open>display_decimal\<close> writes the sign, the integer part and a point followed by at most \<open>prec\<close> digits
  of the expansion: all of them, or the first \<open>prec\<close> with a question mark unless it truncates.\<close>

theorem mpq_display_decimal_correct:
  assumes "mpq_ok a"
  shows "yields (mpq_display_decimal a prec trunc) (\<lambda>s. \<exists>t.
    s = (if mpq_val a < 0 then ''-'' else '''') @ show_base 10 (nat \<lfloor>\<bar>mpq_val a\<bar>\<rfloor>) @ t \<and>
    (if \<bar>mpq_val a\<bar> \<in> \<int> then t = '''' else \<exists>u. t = ''.'' @ u \<and> decimal_digits prec trunc (\<bar>mpq_val a\<bar> - of_int \<lfloor>\<bar>mpq_val a\<bar>\<rfloor>) u))"
  using assms by (rule mpq_display_decimal_yields)

theorem mpq_display_decimal_correct_witness:
  "yields (mpq_display_decimal \<lparr>m_num = mk_z (- 7), m_den = mk_z 2\<rparr> 3 False) (\<lambda>s. \<exists>t. s = ''-'' @ show_base 10 3 @ t)"
proof -
  have "\<lfloor>7 / 2 :: rat\<rfloor> = 3" "coprime (7 :: int) 2" by (simp_all add: floor_eq_iff)
  then show ?thesis
    using mpq_display_decimal_correct [of "\<lparr>m_num = mk_z (- 7), m_den = mk_z 2\<rparr>" 3 False]
    by (auto simp: mpq_ok_def mpz_wf_def mpq_val_def int_limits elim!: yields_mono)
qed

section \<open>Binary rationals (mpbq)\<close>

text \<open>C33: \<open>mpbq_manager\<close> keeps its numbers normalized (an odd numerator unless the exponent is zero) and
  computes in the ring of binary rationals, as long as the exponent of a product fits in 32 bits.\<close>

theorem mpbq_ring_correct:
  assumes "mpbq_ok a" "mpbq_ok b"
  shows "mpbq_ok (mpbq_add a b) \<and> mpbq_val (mpbq_add a b) = mpbq_val a + mpbq_val b
    \<and> mpbq_ok (mpbq_sub a b) \<and> mpbq_val (mpbq_sub a b) = mpbq_val a - mpbq_val b
    \<and> (bq_k a + bq_k b < 2 ^ 32 \<longrightarrow> mpbq_ok (mpbq_mul a b) \<and> mpbq_val (mpbq_mul a b) = mpbq_val a * mpbq_val b)
    \<and> mpbq_ok (mpbq_mul2k a k) \<and> mpbq_val (mpbq_mul2k a k) = mpbq_val a * 2 ^ k
    \<and> (bq_k a + k < 2 ^ 32 \<longrightarrow> mpbq_ok (mpbq_div2k a k) \<and> mpbq_val (mpbq_div2k a k) = mpbq_val a / 2 ^ k)
    \<and> (mpbq_eq a b \<longleftrightarrow> mpbq_val a = mpbq_val b) \<and> (mpbq_lt a b \<longleftrightarrow> mpbq_val a < mpbq_val b)"
  using assms by simp

theorem mpbq_ring_correct_witness:
  "mpbq_val (mpbq_add \<lparr>bq_num = mk_z 3, bq_k = 2\<rparr> \<lparr>bq_num = mk_z 5, bq_k = 1\<rparr>) = 13 / 4
   \<and> mpbq_val (mpbq_mul \<lparr>bq_num = mk_z 3, bq_k = 2\<rparr> \<lparr>bq_num = mk_z 5, bq_k = 1\<rparr>) = 15 / 8"
  using mpbq_ring_correct [of "\<lparr>bq_num = mk_z 3, bq_k = 2\<rparr>" "\<lparr>bq_num = mk_z 5, bq_k = 1\<rparr>" 0]
  by (simp add: mpbq_ok_def mpz_wf_def mpbq_val_def int_limits)

text \<open>C34: \<open>mul(a, b, r)\<close> always writes the value of the product, but leaves it unnormalized exactly when
  \<open>r\<close> is the one of the two arguments that is an even integer and the other one is a proper fraction.\<close>

theorem mpbq_mul_overwrites:
  assumes "mpbq_ok (\<sigma> a)" "mpbq_ok (\<sigma> b)" "bq_k (\<sigma> a) + bq_k (\<sigma> b) < 2 ^ 32"
  shows "mpbq_val (mpbq_mul_at a b r \<sigma> r) = mpbq_val (\<sigma> a) * mpbq_val (\<sigma> b)
    \<and> (mpbq_ok (mpbq_mul_at a b r \<sigma> r) \<longleftrightarrow>
        \<not> (r = a \<and> bq_k (\<sigma> a) = 0 \<and> 0 < bq_k (\<sigma> b) \<and> even (mpz_val (bq_num (\<sigma> a))))
        \<and> \<not> (r = b \<and> bq_k (\<sigma> b) = 0 \<and> 0 < bq_k (\<sigma> a) \<and> even (mpz_val (bq_num (\<sigma> b)))))"
  using mpbq_mul_at_val(1) [OF assms] mpbq_mul_at_ok [OF assms] by blast

theorem mpbq_mul_overwrites_witness:
  "\<not> mpbq_ok (mpbq_mul_at 0 1 0 (\<lambda>i. if i = 0 then \<lparr>bq_num = mk_z 2, bq_k = 0\<rparr> else \<lparr>bq_num = mk_z 1, bq_k = 1\<rparr>) 0)"
  using mpbq_mul_overwrites [of "\<lambda>i. if i = 0 then \<lparr>bq_num = mk_z 2, bq_k = 0\<rparr> else \<lparr>bq_num = mk_z 1, bq_k = 1\<rparr>" 0 1 0]
  by (simp add: mpbq_ok_def mpz_wf_def int_limits)

text \<open>C35: \<open>root_lower\<close> and \<open>root_upper\<close> terminate; they answer whether the number has a rational n-th root
  and return it, and otherwise return a number whose n-th power is smaller or larger.\<close>

theorem mpbq_roots_correct:
  assumes "mpbq_ok a" "0 < n" "n < 2 ^ 31" "odd n \<or> 0 \<le> mpbq_val a" "mpz_bitsize (bq_num a) < 2 ^ 32"
  shows "yields (root_lower a n) (\<lambda>(ex, b). mpbq_ok b \<and> (ex \<longleftrightarrow> (\<exists>y. mpbq_val a = y ^ n))
      \<and> (if ex then mpbq_val b ^ n = mpbq_val a else mpbq_val b ^ n < mpbq_val a))
    \<and> yields (root_upper a n) (\<lambda>(ex, b). mpbq_ok b \<and> (ex \<longleftrightarrow> (\<exists>y. mpbq_val a = y ^ n))
      \<and> (if ex then mpbq_val b ^ n = mpbq_val a else mpbq_val b ^ n > mpbq_val a))"
  by (intro conjI yields_mono [OF root_lower_yields [OF assms]] yields_mono [OF root_upper_yields [OF assms]])
    (simp_all add: root_result_def split: prod.splits)

theorem mpbq_roots_correct_witness:
  "yields (root_lower \<lparr>bq_num = mk_z (- 27), bq_k = 3\<rparr> 3) (\<lambda>(ex, b). ex \<and> mpbq_val b ^ 3 = - 27 / 8)"
proof -
  let ?a = "\<lparr>bq_num = mk_z (- 27), bq_k = 3\<rparr>"
  have ok: "mpbq_ok ?a" and v: "mpbq_val ?a = - 27 / 8" by (simp_all add: mpbq_ok_def mpz_wf_def mpbq_val_def int_limits)
  have sz: "mpz_bitsize (bq_num ?a) < 2 ^ 32"
    by (simp add: mpz_bitsize_def mpz_mlog2_def u_log2_def log2_stage_def int_limits drop_bit_numeral_bit0)
  have "mpbq_val ?a = (- 3 / 2) ^ 3" unfolding v by (simp add: power3_eq_cube)
  then have "\<exists>y. mpbq_val ?a = y ^ 3" by blast
  then show ?thesis using mpbq_roots_correct [OF ok _ _ _ sz, of 3] v by (auto elim!: yields_mono)
qed

text \<open>C36: \<open>approx\<close> moves a number with a larger exponent than \<open>k\<close> strictly in the given direction, by at
  most \<open>1/2^k\<close>, to a number with exponent at most \<open>k\<close>; \<open>approx_div\<close> does the same with the quotient (it
  may leave it alone) unless the quotient is exact.\<close>

theorem mpbq_approx_correct:
  assumes "mpbq_ok a" "mpbq_ok b" "mpbq_val b \<noteq> 0" "k + bq_k b < 2 ^ 32" "bq_k a + mpz_bitsize (bq_num b) < 2 ^ 32"
  defines "exact \<equiv> mpz_val (bq_num b) dvd mpz_val (bq_num a) \<or> (\<exists>j. mpz_val (bq_num b) = 2 ^ j)"
  shows "(k < bq_k a \<longrightarrow> mpbq_ok (mpbq_approx a k up) \<and> bq_k (mpbq_approx a k up) \<le> k
      \<and> (if up then mpbq_val a < mpbq_val (mpbq_approx a k up) \<and> mpbq_val (mpbq_approx a k up) \<le> mpbq_val a + 1 / 2 ^ k
         else mpbq_val a - 1 / 2 ^ k \<le> mpbq_val (mpbq_approx a k up) \<and> mpbq_val (mpbq_approx a k up) < mpbq_val a))
    \<and> yields (approx_div a b k up) (\<lambda>c. mpbq_ok c \<and> (if exact then mpbq_val c = mpbq_val a / mpbq_val b
        else if up then mpbq_val a / mpbq_val b \<le> mpbq_val c \<and> mpbq_val c \<le> mpbq_val a / mpbq_val b + 1 / 2 ^ k
        else mpbq_val a / mpbq_val b - 1 / 2 ^ k \<le> mpbq_val c \<and> mpbq_val c \<le> mpbq_val a / mpbq_val b))"
  using mpbq_approx_val [OF assms(1), of k up] approx_div_exact [OF assms(1-3,5), of k up]
    approx_div_inexact [OF assms(1-4), of up]
  by (cases exact) (auto simp: exact_def directed_def elim!: yields_mono split: if_splits)

theorem mpbq_approx_correct_witness:
  "yields (approx_div \<lparr>bq_num = mk_z 1, bq_k = 1\<rparr> \<lparr>bq_num = mk_z (- 3), bq_k = 0\<rparr> 10 True)
    (\<lambda>c. - 1 / 6 \<le> mpbq_val c \<and> mpbq_val c \<le> - 1 / 6 + 1 / 2 ^ 10)"
proof -
  have sz: "mpz_bitsize (mk_z (- 3)) < 2 ^ 31"
    by (simp add: mpz_bitsize_def mpz_mlog2_def u_log2_def log2_stage_def int_limits drop_bit_numeral_bit0)
  have no: "\<not> (- 3 :: int) dvd 1" "(- 3 :: int) \<noteq> 2 ^ j" for j :: nat
    using zero_less_power [of "2 :: int" j] by (simp_all add: not_less [symmetric] del: zero_less_power)
  show ?thesis
    using mpbq_approx_correct [of "\<lparr>bq_num = mk_z 1, bq_k = 1\<rparr>" "\<lparr>bq_num = mk_z (- 3), bq_k = 0\<rparr>" 10 True] sz no
    by (auto simp: mpbq_ok_def mpz_wf_def mpbq_val_def int_limits elim!: yields_mono)
qed

text \<open>C3: \<open>select_small\<close> fails exactly on an empty interval, and otherwise terminates with a number of the
  interval that has the smallest exponent of all: an integer if there is one. The linear and the
  binary search and the variants with open ends agree on this.\<close>

theorem select_small_correct:
  assumes "mpbq_ok l" "mpbq_ok u" "mpq_ok p" "mpq_ok q"
  shows "yields (select_small l u) (\<lambda>r. case r of None \<Rightarrow> mpbq_val u < mpbq_val l
      | Some b \<Rightarrow> mpbq_val l \<le> mpbq_val u \<and> smallest True True (mpbq_val l) (mpbq_val u) b)
    \<and> (mpq_val p < mpbq_val u \<longrightarrow> yields (select_small_core_qb p u) (smallest False True (mpq_val p) (mpbq_val u)))
    \<and> (mpbq_val l < mpq_val q \<longrightarrow> yields (select_small_core_bq l q) (smallest True False (mpbq_val l) (mpq_val q)))
    \<and> (1 < (mpq_val q - mpq_val p) * 2 ^ j \<and> j < 2 ^ 32
        \<longrightarrow> yields (select_small_core_qq p q) (smallest False False (mpq_val p) (mpq_val q)))"
  using select_small_yields [OF assms(1,2)] select_small_qb_yields [OF assms(3,2)]
    select_small_bq_yields [OF assms(1,4)] select_small_qq_yields [OF assms(3,4), of j] by blast

theorem select_small_correct_witness:
  "yields (select_small \<lparr>bq_num = mk_z 5, bq_k = 3\<rparr> \<lparr>bq_num = mk_z 7, bq_k = 3\<rparr>)
    (\<lambda>r. \<exists>b. r = Some b \<and> 5 / 8 \<le> mpbq_val b \<and> mpbq_val b \<le> 7 / 8 \<and> bq_k b \<le> 2)"
proof -
  let ?l = "\<lparr>bq_num = mk_z 5, bq_k = 3\<rparr>" and ?u = "\<lparr>bq_num = mk_z 7, bq_k = 3\<rparr>" and ?m = "\<lparr>bq_num = mk_z 3, bq_k = 2\<rparr>"
  have ok: "mpbq_ok ?l" "mpbq_ok ?u" "mpbq_ok ?m" "mpbq_val ?l = 5 / 8" "mpbq_val ?u = 7 / 8" "mpbq_val ?m = 3 / 4"
    by (simp_all add: mpbq_ok_def mpz_wf_def mpbq_val_def int_limits)
  have "\<exists>b. r = Some b \<and> 5 / 8 \<le> mpbq_val b \<and> mpbq_val b \<le> 7 / 8 \<and> bq_k b \<le> 2"
    if r: "case r of None \<Rightarrow> mpbq_val ?u < mpbq_val ?l
      | Some b \<Rightarrow> mpbq_val ?l \<le> mpbq_val ?u \<and> smallest True True (mpbq_val ?l) (mpbq_val ?u) b" for r
  proof -
    obtain b where b: "r = Some b" "smallest True True (5 / 8) (7 / 8) b" using r unfolding ok(4,5) by (cases r) auto
    have "between True True (5 / 8) (7 / 8) (mpbq_val ?m)" unfolding ok(6) by (simp add: between_def)
    then have "bq_k b \<le> bq_k ?m" using b(2) ok(3) unfolding smallest_def by blast
    then show ?thesis using b by (simp add: smallest_def between_def)
  qed
  from yields_mono [OF conjunct1 [OF select_small_correct [OF ok(1,2), of "mk_q 0" "mk_q 1" 0]] this]
  show ?thesis by simp
qed

text \<open>\<open>refine_upper\<close> and \<open>refine_lower\<close> terminate on an interval around a rational that is not binary,
  keep the rational inside, and move the end they are named after: after \<open>j\<close> halvings at most, where
  \<open>2^j\<close> is the ratio of the interval to the distance of that end.\<close>

theorem mpbq_refine_correct:
  assumes "mpq_ok q" "mpbq_ok l" "mpbq_ok u" "mpbq_val l < mpq_val q" "mpq_val q < mpbq_val u"
    "\<nexists>k. mpz_val (m_den q) = 2 ^ k" "max (bq_k l) (bq_k u) + j < 2 ^ 32"
  shows "(mpbq_val u - mpbq_val l < (mpbq_val u - mpq_val q) * 2 ^ j \<longrightarrow>
      yields (refine_upper q l u) (\<lambda>(l', u'). mpbq_ok l' \<and> mpbq_ok u' \<and> mpbq_val l \<le> mpbq_val l'
        \<and> mpbq_val l' < mpq_val q \<and> mpq_val q < mpbq_val u' \<and> mpbq_val u' < mpbq_val u))
    \<and> (mpbq_val u - mpbq_val l < (mpq_val q - mpbq_val l) * 2 ^ j \<longrightarrow>
      yields (refine_lower q l u) (\<lambda>(l', u'). mpbq_ok l' \<and> mpbq_ok u' \<and> mpbq_val l < mpbq_val l'
        \<and> mpbq_val l' < mpq_val q \<and> mpq_val q < mpbq_val u' \<and> mpbq_val u' \<le> mpbq_val u))"
  using refine_loop_yields [OF assms(1-6) refl, of True j] refine_loop_yields [OF assms(1-6) refl, of False j] assms(7)
  by (auto simp: refine_upper_def refine_lower_def elim!: yields_mono)

theorem mpbq_refine_correct_witness:
  "yields (refine_upper \<lparr>m_num = mk_z 1, m_den = mk_z 3\<rparr> (mpbq_of_z (mk_z 0)) (mpbq_of_z (mk_z 1)))
    (\<lambda>(l', u'). 0 \<le> mpbq_val l' \<and> mpbq_val l' < 1 / 3 \<and> 1 / 3 < mpbq_val u' \<and> mpbq_val u' < 1)"
proof -
  have no: "\<nexists>k. (3 :: int) = 2 ^ k"
  proof
    assume "\<exists>k. (3 :: int) = 2 ^ k"
    then obtain k where "(3 :: int) = 2 ^ k" by blast
    then show False by (cases k) (auto simp: dest: arg_cong [of _ _ even])
  qed
  show ?thesis
    using mpbq_refine_correct [of "\<lparr>m_num = mk_z 1, m_den = mk_z 3\<rparr>" "mpbq_of_z (mk_z 0)" "mpbq_of_z (mk_z 1)" 1] no
    by (auto simp: mpq_ok_def mpz_wf_def mpq_val_def mpbq_of_z_def int_limits mpbq_ok_def mpbq_val_def elim!: yields_mono)
qed

section \<open>Extended numerals\<close>

text \<open>C37: the operations of \<open>ext_numeral.h\<close> compute in the rationals with two infinities: comparison,
  negation, sums, differences, products, quotients and powers below \<open>2^31\<close>. Where the sources assert that the result is
  undefined (the sum of opposite infinities, the difference of equal ones, division by zero and of an
  infinity by an infinity) the model fails, and nowhere else.\<close>

theorem ext_numeral_correct:
  assumes "ext_ok x" "ext_ok y"
  shows "(ext_lt x y \<longleftrightarrow> ext_of x < ext_of y) \<and> (ext_le x y \<longleftrightarrow> ext_of x \<le> ext_of y) \<and> (ext_eq x y \<longleftrightarrow> ext_of x = ext_of y)
    \<and> ext_of (ext_neg x) = negate (ext_of x)
    \<and> (if opposite (ext_of x) (ext_of y) then ext_add 0 1 2 x y = Inl Verify_failed
       else yields (ext_add 0 1 2 x y) (\<lambda>z. ext_ok z \<and> ext_of z = plus_ext (ext_of x) (ext_of y)))
    \<and> (if opposite (ext_of x) (negate (ext_of y)) then ext_sub 0 1 2 x y = Inl Verify_failed
       else yields (ext_sub 0 1 2 x y) (\<lambda>z. ext_ok z \<and> ext_of z = plus_ext (ext_of x) (negate (ext_of y))))
    \<and> yields (ext_mul x y) (\<lambda>z. ext_ok z \<and> ext_of z = times_ext (ext_of x) (ext_of y))
    \<and> (if no_quotient (ext_of x) (ext_of y) then ext_div x y = Inl Verify_failed
       else yields (ext_div x y) (\<lambda>z. ext_ok z \<and> ext_of z = divide_ext (ext_of x) (ext_of y)))
    \<and> (unat n < 2 ^ 31 \<longrightarrow> yields (ext_power x n) (\<lambda>z. ext_ok z \<and> ext_of z = power_ext (ext_of x) (unat n)))"
  using ext_compare [OF assms] ext_neg_of(2) [OF assms(1)] ext_add_yields [of x y 2 1 0, OF assms] ext_add_opposite [of x y 0 1 2]
    ext_mul_yields [OF assms] ext_div_yields [OF assms] ext_div_undefined [OF assms] ext_power_yields [OF assms(1), of n] by simp

theorem ext_numeral_correct_witness:
  "yields (ext_mul (mk_q (- 2), EN_NUMERAL) (mk_q 0, EN_MINUS_INFINITY)) (\<lambda>z. ext_of z = PInf)"
  using ext_numeral_correct [of "(mk_q (- 2), EN_NUMERAL)" "(mk_q 0, EN_MINUS_INFINITY)" 2]
  by (auto simp: int_limits infinity_def elim!: yields_mono)

section \<open>Intervals\<close>

text \<open>Closed intervals with integer bounds, for the examples.\<close>

definition int_ivl :: "int \<Rightarrow> int \<Rightarrow> interval" where
  "int_ivl l u = \<lparr>m_lower = mk_q l, m_upper = mk_q u, m_lower_open = False, m_upper_open = False,
     m_lower_inf = False, m_upper_inf = False\<rparr>"

lemma int_ivl_facts [simp]:
  assumes "int_min \<le> l" "l \<le> int_max" "int_min \<le> u" "u \<le> int_max"
  shows "mpq_ok (m_lower (int_ivl l u))" "mpq_ok (m_upper (int_ivl l u))"
    "members (int_ivl l u) = {of_int l..of_int u}" "l \<le> u \<Longrightarrow> ivl_wf (int_ivl l u)" "inf_open (int_ivl l u)"
proof -
  show ok: "mpq_ok (m_lower (int_ivl l u))" "mpq_ok (m_upper (int_ivl l u))" and m: "members (int_ivl l u) = {of_int l..of_int u}"
    and "inf_open (int_ivl l u)"
    using assms by (auto simp: int_ivl_def members_def lower_holds_def upper_holds_def inf_open_def)
  show "l \<le> u \<Longrightarrow> ivl_wf (int_ivl l u)" using ok m by (simp add: ivl_wf_iff)
qed

lemma yields_written: "yields m (writes r \<sigma> Q) \<Longrightarrow> (\<And>c. Q c \<Longrightarrow> P c) \<Longrightarrow> yields m (\<lambda>\<tau>. P (\<tau> r))"
  by (auto simp: writes_def yields_def)

text \<open>C7: the invariant of intervals says that they are not empty. When all intervals of the store satisfy it,
  they all do after each operation, under its conditions: \<open>mul\<close>, \<open>neg\<close>, \<open>set\<close>, \<open>reset\<close>, and products
  and quotients with a number without any; \<open>add\<close> when the result does not overwrite the second argument
  (unless it is also the first) and \<open>sub\<close> when it does not overwrite the second argument; products with
  a fraction of two \<open>int\<close> other than \<open>INT_MIN\<close>, the second not zero; \<open>div\<close> and \<open>inv\<close> for a divisor without zero whose infinite
  bounds are open; \<open>power\<close> for positive exponents below \<open>2^31\<close>; \<open>nth_root\<close> and \<open>xn_eq_y\<close>, unless they are
  cancelled, for the arguments of \<open>root_ivl\<close>; \<open>e\<close> and \<open>pi\<close> below the precisions where an \<open>int\<close> overflows.\<close>

theorem interval_invariant:
  assumes "\<forall>k. ivl_wf (\<sigma> k)"
  shows "yields (ivl_mul i j r \<sigma>) (\<lambda>\<tau>. \<forall>k. ivl_wf (\<tau> k))
    \<and> (r \<noteq> j \<or> i = j \<longrightarrow> yields (ivl_add i j r \<sigma>) (\<lambda>\<tau>. \<forall>k. ivl_wf (\<tau> k)))
    \<and> (r \<noteq> j \<longrightarrow> yields (ivl_sub i j r \<sigma>) (\<lambda>\<tau>. \<forall>k. ivl_wf (\<tau> k)))
    \<and> (\<forall>k. ivl_wf (ivl_neg i r \<sigma> k)) \<and> (\<forall>k. ivl_wf (ivl_set r i \<sigma> k)) \<and> ivl_wf (ivl_reset (\<sigma> r))
    \<and> (mpq_ok q \<longrightarrow> yields (ivl_mul_num q i r \<sigma>) (\<lambda>\<tau>. \<forall>k. ivl_wf (\<tau> k))
        \<and> yields (ivl_div_num i q r \<sigma>) (\<lambda>\<tau>. \<forall>k. ivl_wf (\<tau> k)) \<and> (\<forall>k. ivl_wf (ivl_set_num r q \<sigma> k)))
    \<and> (int_min < u \<and> u \<le> int_max \<and> int_min < v \<and> v \<le> int_max \<and> v \<noteq> 0 \<longrightarrow>
        yields (ivl_mul_frac u v i r \<sigma>) (\<lambda>\<tau>. \<forall>k. ivl_wf (\<tau> k)))
    \<and> (inf_open (\<sigma> j) \<and> 0 \<notin> members (\<sigma> j) \<longrightarrow> yields (ivl_div i j r \<sigma>) (\<lambda>\<tau>. \<forall>k. ivl_wf (\<tau> k))
        \<and> yields (ivl_inv j r \<sigma>) (\<lambda>\<tau>. \<forall>k. ivl_wf (\<tau> k)))
    \<and> (0 < unat n \<and> unat n < 2 ^ 31 \<longrightarrow> yields (ivl_power i n r \<sigma>) (\<lambda>\<tau>. \<forall>k. ivl_wf (\<tau> k)))
    \<and> (root_ivl (unat n) (\<sigma> i) p \<longrightarrow> outcome (\<lambda>env l. ivl_nth_root env i n p r \<sigma> l) (\<lambda>\<tau>. \<forall>k. ivl_wf (\<tau> k))
        \<and> outcome (\<lambda>env l. xn_eq_y env i n p r \<sigma> l) (\<lambda>\<tau>. \<forall>k. ivl_wf (\<tau> k)))
    \<and> (unat n + 1 < 2 ^ 31 \<longrightarrow> yields (ivl_e n r \<sigma>) (\<lambda>\<tau>. \<forall>k. ivl_wf (\<tau> k)))
    \<and> (unat n < 2 ^ 28 \<longrightarrow> yields (ivl_pi n r \<sigma>) (\<lambda>\<tau>. \<forall>k. ivl_wf (\<tau> k)))
    \<and> (\<forall>k. check_invariant (\<sigma> k) \<longleftrightarrow> members (\<sigma> k) \<noteq> {})"
proof (intro conjI impI)
  have ok: "ivl_ok (\<sigma> k)" for k using assms unfolding ivl_wf_def by blast
  show "\<forall>k. ivl_wf (ivl_neg i r \<sigma> k)" using neg_op.keeps_valid [OF assms, of i r] by simp
  have "ivl_wf (ivl_set r i \<sigma> k)" for k
  proof -
    have "writes r \<sigma> ivl_wf (ivl_set r i \<sigma>)"
      using writes_mono [OF ivl_set_copy [of \<sigma> i r, OF ok ok]] assms by (auto simp: ivl_wf_iff members_def simp del: ivl_ok_def)
    then show ?thesis using assms by (metis writes_def)
  qed
  then show "\<forall>k. ivl_wf (ivl_set r i \<sigma> k)" by blast
  show "\<forall>k. ivl_wf (ivl_set_num r q \<sigma> k)" if "mpq_ok q"
    using assms ivl_set_num_members [OF that, of r \<sigma>] that by (simp add: ivl_wf_iff) (simp add: ivl_set_num_def)
  show "yields (ivl_mul_frac u v i r \<sigma>) (\<lambda>\<tau>. \<forall>k. ivl_wf (\<tau> k))"
    if "int_min < u \<and> u \<le> int_max \<and> int_min < v \<and> v \<le> int_max \<and> v \<noteq> 0"
    by (rule ivl_mul_frac_valid [OF assms]) (use that in blast)+
  show "yields (ivl_power i n r \<sigma>) (\<lambda>\<tau>. \<forall>k. ivl_wf (\<tau> k))" if "0 < unat n \<and> unat n < 2 ^ 31"
    by (rule yields_mono [OF ivl_power_yields [OF spec [OF assms] ok conjunct1 [OF that] conjunct2 [OF that]]],
        erule writes_valid [OF _ _ assms], elim conjE)
  show "yields (ivl_e n r \<sigma>) (\<lambda>\<tau>. \<forall>k. ivl_wf (\<tau> k))" if "unat n + 1 < 2 ^ 31"
    by (rule yields_mono [OF ivl_e_yields [OF that]], erule writes_valid [OF _ _ assms], elim conjE)
  show "yields (ivl_pi n r \<sigma>) (\<lambda>\<tau>. \<forall>k. ivl_wf (\<tau> k))" if "unat n < 2 ^ 28"
    by (rule yields_mono [OF ivl_pi_yields [OF that]], erule writes_valid [OF _ _ assms], elim conjE)
  show "\<forall>k. check_invariant (\<sigma> k) \<longleftrightarrow> members (\<sigma> k) \<noteq> {}" using check_invariant_iff [OF ok] by blast
  show "yields (ivl_mul i j r \<sigma>) (\<lambda>\<tau>. \<forall>k. ivl_wf (\<tau> k))" by (rule mul_op.keeps_valid [OF assms TrueI])
qed (rule add_op.keeps_valid [OF assms] sub_op.keeps_valid [OF assms] div_op.keeps_valid [OF assms] inv_op.keeps_valid [OF assms]
    ivl_reset_wf ivl_scale_valid [OF assms] ivl_nth_root_valid [OF _ assms] xn_eq_y_valid [OF _ assms]; assumption)+

theorem interval_invariant_witness:
  "yields (ivl_sub 0 0 1 (\<lambda>k. int_ivl (- 2) 3)) (\<lambda>\<tau>. \<forall>k. ivl_wf (\<tau> k))"
  using interval_invariant [of "\<lambda>k. int_ivl (- 2) 3" 0 0 1] by (simp add: int_limits)

text \<open>C10: \<open>add\<close>, \<open>sub\<close> and \<open>neg\<close> write the interval of exactly the sums, differences and opposites of the
  members of their arguments and nothing else, and each bound of the result follows from the bounds of the
  arguments that the dependency rule names. For \<open>add\<close> the result must not overwrite the second argument,
  unless the arguments are the same; for \<open>sub\<close> it must not overwrite the second argument at all.\<close>

theorem interval_linear_exact:
  assumes "ivl_wf (\<sigma> i)" "ivl_wf (\<sigma> j)" "ivl_ok (\<sigma> r)"
  shows "(r \<noteq> j \<or> i = j \<longrightarrow> yields (ivl_add i j r \<sigma>) (writes r \<sigma> (\<lambda>c. ivl_wf c
      \<and> members c = {x + y |x y. x \<in> members (\<sigma> i) \<and> y \<in> members (\<sigma> j)}
      \<and> (\<forall>x y. justified add_jst (\<sigma> i) x (\<sigma> j) y c (x + y)))))
    \<and> (r \<noteq> j \<longrightarrow> yields (ivl_sub i j r \<sigma>) (writes r \<sigma> (\<lambda>c. ivl_wf c
      \<and> members c = {x - y |x y. x \<in> members (\<sigma> i) \<and> y \<in> members (\<sigma> j)}
      \<and> (\<forall>x y. justified sub_jst (\<sigma> i) x (\<sigma> j) y c (x - y)))))
    \<and> writes r \<sigma> (\<lambda>c. ivl_wf c \<and> members c = uminus ` members (\<sigma> i)
      \<and> (\<forall>x. justified (neg_jst (\<sigma> i)) (\<sigma> i) x (\<sigma> i) x c (- x))) (ivl_neg i r \<sigma>)"
proof (intro conjI impI)
  show "writes r \<sigma> (\<lambda>c. ivl_wf c \<and> members c = uminus ` members (\<sigma> i)
      \<and> (\<forall>x. justified (neg_jst (\<sigma> i)) (\<sigma> i) x (\<sigma> i) x c (- x))) (ivl_neg i r \<sigma>)"
    using neg_op.exact [of \<sigma> i r, OF assms(1,3)] by simp
qed (use add_op.exact [of \<sigma> i j r, OF assms] sub_op.exact [of \<sigma> i j r, OF assms] in blast)+

theorem interval_linear_exact_witness:
  "yields (ivl_add 0 1 0 (\<lambda>k. int_ivl (int k) 3)) (\<lambda>\<tau>. 1 \<in> members (\<tau> 0))"
proof (rule yields_written)
  show "yields (ivl_add 0 1 0 (\<lambda>k. int_ivl (int k) 3)) (writes 0 (\<lambda>k. int_ivl (int k) 3) (\<lambda>c. ivl_wf c
    \<and> members c = {x + y |x y. x \<in> members (int_ivl 0 3) \<and> y \<in> members (int_ivl 1 3)}
    \<and> (\<forall>x y. justified add_jst (int_ivl 0 3) x (int_ivl 1 3) y c (x + y))))"
    using interval_linear_exact [of "\<lambda>k. int_ivl (int k) 3" 0 1 0] by (simp add: int_limits)
  fix c
  assume c: "ivl_wf c \<and> members c = {x + y |x y. x \<in> members (int_ivl 0 3) \<and> y \<in> members (int_ivl 1 3)}
    \<and> (\<forall>x y. justified add_jst (int_ivl 0 3) x (int_ivl 1 3) y c (x + y))"
  have "x \<in> members (int_ivl 0 3) \<Longrightarrow> y \<in> members (int_ivl 1 3) \<Longrightarrow> x + y \<in> members c" for x y using c by blast
  from this [of 0 1] show "1 \<in> members c" by (simp add: int_limits)
qed

text \<open>C1: \<open>mul\<close> writes the interval of exactly the products of members, for bounded, half-bounded and
  unbounded, open and closed arguments, and whatever the result overwrites; each of its bounds follows
  from the bounds that \<open>mul_jst\<close> names.\<close>

theorem interval_product_exact:
  assumes "ivl_wf (\<sigma> i)" "ivl_wf (\<sigma> j)" "ivl_ok (\<sigma> r)"
  shows "yields (ivl_mul i j r \<sigma>) (writes r \<sigma> (\<lambda>c. ivl_wf c
    \<and> members c = {x * y |x y. x \<in> members (\<sigma> i) \<and> y \<in> members (\<sigma> j)}
    \<and> (\<forall>x y. justified (mul_jst (\<sigma> i) (\<sigma> j)) (\<sigma> i) x (\<sigma> j) y c (x * y))))"
  using mul_op.exact [of \<sigma> i j r, OF assms] by blast

theorem interval_product_exact_witness:
  "yields (ivl_mul 0 0 0 (\<lambda>k. int_ivl (- 2) 3)) (\<lambda>\<tau>. - 6 \<in> members (\<tau> 0))"
proof (rule yields_written)
  show "yields (ivl_mul 0 0 0 (\<lambda>k. int_ivl (- 2) 3)) (writes 0 (\<lambda>k. int_ivl (- 2) 3) (\<lambda>c. ivl_wf c
    \<and> members c = {x * y |x y. x \<in> members (int_ivl (- 2) 3) \<and> y \<in> members (int_ivl (- 2) 3)}
    \<and> (\<forall>x y. justified (mul_jst (int_ivl (- 2) 3) (int_ivl (- 2) 3)) (int_ivl (- 2) 3) x (int_ivl (- 2) 3) y c (x * y))))"
    using interval_product_exact [of "\<lambda>k. int_ivl (- 2) 3" 0 0 0] by (simp add: int_limits)
  fix c
  assume c: "ivl_wf c \<and> members c = {x * y |x y. x \<in> members (int_ivl (- 2) 3) \<and> y \<in> members (int_ivl (- 2) 3)}
    \<and> (\<forall>x y. justified (mul_jst (int_ivl (- 2) 3) (int_ivl (- 2) 3)) (int_ivl (- 2) 3) x (int_ivl (- 2) 3) y c (x * y))"
  have "x \<in> members (int_ivl (- 2) 3) \<Longrightarrow> y \<in> members (int_ivl (- 2) 3) \<Longrightarrow> x * y \<in> members c" for x y using c by blast
  from this [of "- 2" 3] show "- 6 \<in> members c" by (simp add: int_limits)
qed

text \<open>C5: \<open>div\<close> by an interval without zero, and \<open>inv\<close> of one, write the interval of exactly the quotients
  of members, when the infinite bounds of the divisor are open as the operations leave them; each bound
  follows from the bounds that the dependency rule names. The inverse of an interval with zero is a
  failed assertion.\<close>

theorem interval_quotient_exact:
  assumes "ivl_wf (\<sigma> i)" "ivl_wf (\<sigma> j)" "ivl_ok (\<sigma> r)" "inf_open (\<sigma> j)"
  shows "(0 \<notin> members (\<sigma> j) \<longrightarrow> yields (ivl_div i j r \<sigma>) (writes r \<sigma> (\<lambda>c. ivl_wf c
      \<and> members c = {x / y |x y. x \<in> members (\<sigma> i) \<and> y \<in> members (\<sigma> j)}
      \<and> (\<forall>x y. justified (div_jst (\<sigma> i) (\<sigma> j)) (\<sigma> i) x (\<sigma> j) y c (x / y)))))
    \<and> (0 \<notin> members (\<sigma> j) \<longrightarrow> yields (ivl_inv j r \<sigma>) (writes r \<sigma> (\<lambda>c. ivl_wf c
      \<and> members c = (\<lambda>y. 1 / y) ` members (\<sigma> j)
      \<and> yields (inv_jst (\<sigma> j)) (\<lambda>d. \<forall>y. justified d (\<sigma> j) y (\<sigma> j) y c (1 / y)))))
    \<and> (0 \<in> members (\<sigma> j) \<longrightarrow> ivl_inv j r \<sigma> = Inl Verify_failed)"
  using div_op.exact [of \<sigma> i j r, OF assms(1-3)] inv_op.exact [of \<sigma> j r, OF assms(2,3)] ivl_inv_zero [of \<sigma> j r, OF assms(2)] assms(4) by blast

theorem interval_quotient_exact_witness:
  "yields (ivl_div 0 1 1 (\<lambda>k. int_ivl (int k) 3)) (\<lambda>\<tau>. 3 / 2 \<in> members (\<tau> 1))"
proof (rule yields_written)
  show "yields (ivl_div 0 1 1 (\<lambda>k. int_ivl (int k) 3)) (writes 1 (\<lambda>k. int_ivl (int k) 3) (\<lambda>c. ivl_wf c
    \<and> members c = {x / y |x y. x \<in> members (int_ivl 0 3) \<and> y \<in> members (int_ivl 1 3)}
    \<and> (\<forall>x y. justified (div_jst (int_ivl 0 3) (int_ivl 1 3)) (int_ivl 0 3) x (int_ivl 1 3) y c (x / y))))"
    using interval_quotient_exact [of "\<lambda>k. int_ivl (int k) 3" 0 1 1] by (simp add: int_limits)
  fix c
  assume c: "ivl_wf c \<and> members c = {x / y |x y. x \<in> members (int_ivl 0 3) \<and> y \<in> members (int_ivl 1 3)}
    \<and> (\<forall>x y. justified (div_jst (int_ivl 0 3) (int_ivl 1 3)) (int_ivl 0 3) x (int_ivl 1 3) y c (x / y))"
  have "x \<in> members (int_ivl 0 3) \<Longrightarrow> y \<in> members (int_ivl 1 3) \<Longrightarrow> x / y \<in> members c" for x y using c by blast
  from this [of 3 2] show "3 / 2 \<in> members c" by (simp add: int_limits)
qed

text \<open>Inclusion isotonicity, on which the propagation of bounds by the solvers rests: sums, products and
  quotients of intervals that lie in larger ones lie in the sums, products and quotients of the larger
  ones, whatever the addresses.\<close>

theorem interval_isotone:
  assumes "ivl_wf (\<sigma> i)" "ivl_wf (\<sigma> j)" "ivl_ok (\<sigma> r)" "ivl_wf (\<sigma>' i')" "ivl_wf (\<sigma>' j')" "ivl_ok (\<sigma>' r')"
    and "members (\<sigma> i) \<subseteq> members (\<sigma>' i')" "members (\<sigma> j) \<subseteq> members (\<sigma>' j')"
    and "r \<noteq> j" "r' \<noteq> j'" "inf_open (\<sigma> j)" "inf_open (\<sigma>' j')"
  shows "yields (ivl_add i j r \<sigma>) (\<lambda>\<tau>. yields (ivl_add i' j' r' \<sigma>') (\<lambda>\<tau>'. members (\<tau> r) \<subseteq> members (\<tau>' r')))
    \<and> yields (ivl_mul i j r \<sigma>) (\<lambda>\<tau>. yields (ivl_mul i' j' r' \<sigma>') (\<lambda>\<tau>'. members (\<tau> r) \<subseteq> members (\<tau>' r')))
    \<and> (0 \<notin> members (\<sigma>' j') \<longrightarrow>
        yields (ivl_div i j r \<sigma>) (\<lambda>\<tau>. yields (ivl_div i' j' r' \<sigma>') (\<lambda>\<tau>'. members (\<tau> r) \<subseteq> members (\<tau>' r'))))"
  using add_op.isotone [of \<sigma> i j r \<sigma>' i' j' r'] mul_op.isotone [of \<sigma> i j r \<sigma>' i' j' r'] div_op.isotone [of \<sigma> i j r \<sigma>' i' j' r'] assms
  by blast

theorem interval_isotone_witness:
  "yields (ivl_mul 0 1 2 (\<lambda>k. int_ivl (- 1) 2)) (\<lambda>\<tau>. yields (ivl_mul 0 1 2 (\<lambda>k. int_ivl (- 2) 3)) (\<lambda>\<tau>'. members (\<tau> 2) \<subseteq> members (\<tau>' 2)))"
  using interval_isotone [of "\<lambda>k. int_ivl (- 1) 2" 0 1 2 "\<lambda>k. int_ivl (- 2) 3" 0 1 2] by (simp add: int_limits)

text \<open>\<open>power\<close> with a positive exponent below \<open>2^31\<close> writes the interval of the powers of the members;
  for an even exponent and an interval without zero that is open at zero it adds zero. The bounds
  follow from the bounds that \<open>power_jst\<close> names.\<close>

theorem interval_power_exact:
  assumes "ivl_wf (\<sigma> a)" "ivl_ok (\<sigma> b)" "0 < unat n" "unat n < 2 ^ 31"
  shows "yields (ivl_power a n b \<sigma>) (writes b \<sigma> (\<lambda>c. ivl_wf c
    \<and> (members c = (\<lambda>x. x ^ unat n) ` members (\<sigma> a)
       \<or> (even (unat n) \<and> 0 \<notin> members (\<sigma> a) \<and> members c = insert 0 ((\<lambda>x. x ^ unat n) ` members (\<sigma> a))))
    \<and> (\<forall>x. justified (power_jst (\<sigma> a) n) (\<sigma> a) x (\<sigma> a) x c (x ^ unat n))))"
  by (rule ivl_power_yields [OF assms])

theorem interval_power_exact_witness:
  "yields (ivl_power 0 2 0 (\<lambda>k. int_ivl (- 3) 2)) (\<lambda>\<tau>. members (\<tau> 0) = (\<lambda>x. x ^ 2) ` {- 3..2})"
proof (rule yields_written)
  show "yields (ivl_power 0 2 0 (\<lambda>k. int_ivl (- 3) 2)) (writes 0 (\<lambda>k. int_ivl (- 3) 2) (\<lambda>c. ivl_wf c
    \<and> (members c = (\<lambda>x. x ^ unat (2 :: digit)) ` members (int_ivl (- 3) 2)
       \<or> (even (unat (2 :: digit)) \<and> 0 \<notin> members (int_ivl (- 3) 2)
          \<and> members c = insert 0 ((\<lambda>x. x ^ unat (2 :: digit)) ` members (int_ivl (- 3) 2))))
    \<and> (\<forall>x. justified (power_jst (int_ivl (- 3) 2) 2) (int_ivl (- 3) 2) x (int_ivl (- 3) 2) x c (x ^ unat (2 :: digit)))))"
    using interval_power_exact [of "\<lambda>k. int_ivl (- 3) 2" 0 0 2] by (simp add: int_limits)
qed (simp add: int_limits)

text \<open>Multiplication and division by a number scale the members when the number is not zero, and give the
  whole line when it is zero (also for the product, of which the sources say \<open>b <- k*a\<close>).\<close>

theorem interval_scaling:
  assumes "ivl_wf (\<sigma> a)" "ivl_ok (\<sigma> b)" "mpq_ok k"
  shows "yields (ivl_mul_num k a b \<sigma>) (writes b \<sigma> (\<lambda>c. ivl_wf c
      \<and> members c = (if mpq_val k = 0 then UNIV else (\<lambda>x. rv k * x) ` members (\<sigma> a))))
    \<and> yields (ivl_div_num a k b \<sigma>) (writes b \<sigma> (\<lambda>c. ivl_wf c
      \<and> members c = (if mpq_val k = 0 then UNIV else (\<lambda>x. x / rv k) ` members (\<sigma> a))))"
proof (cases "mpq_val k = 0")
  case True
  have "ivl_wf (ivl_reset (\<sigma> b))"
    by (simp add: ivl_wf_iff ivl_reset_members) (simp add: ivl_reset_def reset_lower_def reset_upper_def)
  with True assms(3) show ?thesis
    by (simp add: ivl_mul_num_def ivl_div_num_def ivl_div_mul_zero writes_def ivl_reset_members)
next
  case False
  have k: "(\<lambda>x. real_of_rat (inverse (mpq_val k)) * x) = (\<lambda>x. x / rv k)" by (simp add: of_rat_inverse divide_inverse mult.commute)
  have "yields (ivl_mul_num k a b \<sigma>) (writes b \<sigma> (\<lambda>c. ivl_wf c \<and> members c = (\<lambda>x. rv k * x) ` members (\<sigma> a)))"
    by (rule yields_writes_mono [OF mul_num_op.exact [of \<sigma> a b k, OF assms(1,2) conjI [OF assms(3) False]]], simp)
  moreover have "yields (ivl_div_num a k b \<sigma>) (writes b \<sigma> (\<lambda>c. ivl_wf c \<and> members c = (\<lambda>x. x / rv k) ` members (\<sigma> a)))"
    by (rule yields_writes_mono [OF div_num_op.exact [of \<sigma> a b k, OF assms(1,2) conjI [OF assms(3) False], unfolded k]], simp)
  ultimately show ?thesis unfolding if_not_P [OF False] by blast
qed

theorem interval_scaling_witness:
  "yields (ivl_mul_num (mk_q (- 2)) 0 0 (\<lambda>k. int_ivl 1 3)) (\<lambda>\<tau>. members (\<tau> 0) = (\<lambda>x. - 2 * x) ` {1..3})"
proof (rule yields_written)
  show "yields (ivl_mul_num (mk_q (- 2)) 0 0 (\<lambda>k. int_ivl 1 3)) (writes 0 (\<lambda>k. int_ivl 1 3) (\<lambda>c. ivl_wf c
      \<and> members c = (if mpq_val (mk_q (- 2)) = 0 then UNIV else (\<lambda>x. rv (mk_q (- 2)) * x) ` members (int_ivl 1 3))))"
    using interval_scaling [of "\<lambda>k. int_ivl 1 3" 0 0 "mk_q (- 2)"] by (simp add: int_limits)
qed (simp add: int_limits of_rat_minus)

text \<open>The tests decide what they say of the members of intervals, except that \<open>before\<close> misses an interval
  that ends with a number at which the next one is open.\<close>

theorem interval_decisions:
  assumes "ivl_wf a" "ivl_wf b" "mpq_ok v"
  shows "(contains_zero a \<longleftrightarrow> 0 \<in> members a) \<and> (ivl_contains a v \<longleftrightarrow> rv v \<in> members a)
    \<and> (ivl_before a b \<longleftrightarrow> (\<forall>x \<in> members a. \<forall>y \<in> members b. x < y)
       \<and> \<not> (mpq_val (m_upper a) = mpq_val (m_lower b) \<and> \<not> m_upper_open a \<and> m_lower_open b))"
proof -
  have "ivl_ok a" using assms(1) unfolding ivl_wf_def by blast
  then show ?thesis
    using contains_zero_iff ivl_contains_iff [OF _ assms(3)] ivl_before_iff [OF assms(1,2)] by blast
qed

theorem interval_decisions_witness:
  "ivl_contains (int_ivl 1 3) (mk_q 2) \<and> \<not> contains_zero (int_ivl 1 3)
   \<and> \<not> ivl_before (int_ivl 1 3) (int_ivl 3 4 \<lparr>m_lower_open := True\<rparr>)"
proof -
  have "members (int_ivl 3 4 \<lparr>m_lower_open := True\<rparr>) = {3<..4}"
    by (auto simp: int_ivl_def members_def lower_holds_def upper_holds_def int_limits)
  moreover have "ivl_wf (int_ivl 3 4 \<lparr>m_lower_open := True\<rparr>)"
    unfolding ivl_wf_iff calculation by (simp add: int_ivl_def int_limits)
  ultimately show ?thesis
    using interval_decisions [of "int_ivl 1 3" "int_ivl 3 4 \<lparr>m_lower_open := True\<rparr>" "mk_q 2"]
    by (simp add: int_limits) (simp add: int_ivl_def int_limits)
qed

text \<open>C38: \<open>sub(a, b, b)\<close>, a difference that overwrites its second argument, subtracts the new lower bound of
  \<open>b\<close> from the upper bound of \<open>a\<close> instead of the old one.\<close>

theorem interval_sub_overwrites_second:
  assumes "ivl_ok (\<sigma> a)" "ivl_ok (\<sigma> b)" "a \<noteq> b"
    and "\<not> m_lower_inf (\<sigma> a)" "\<not> m_upper_inf (\<sigma> a)" "\<not> m_lower_inf (\<sigma> b)" "\<not> m_upper_inf (\<sigma> b)"
  shows "yields (ivl_sub a b b \<sigma>) (\<lambda>\<tau>. mpq_val (m_lower (\<tau> b)) = mpq_val (m_lower (\<sigma> a)) - mpq_val (m_upper (\<sigma> b))
    \<and> mpq_val (m_upper (\<tau> b)) = mpq_val (m_upper (\<sigma> a)) - (mpq_val (m_lower (\<sigma> a)) - mpq_val (m_upper (\<sigma> b)))
    \<and> \<not> m_lower_inf (\<tau> b) \<and> \<not> m_upper_inf (\<tau> b))"
  by (rule ivl_sub_overwrites [OF assms])

theorem interval_sub_overwrites_second_witness:
  "yields (ivl_sub 0 1 1 (\<lambda>k. if k = 0 then int_ivl 9 9 else int_ivl 2 3))
    (\<lambda>\<tau>. mpq_val (m_lower (\<tau> 1)) = 6 \<and> mpq_val (m_upper (\<tau> 1)) = 3 \<and> members (\<tau> 1) = {})"
proof -
  have "yields (ivl_sub 0 1 1 (\<lambda>k. if k = 0 then int_ivl 9 9 else int_ivl 2 3))
    (\<lambda>\<tau>. mpq_val (m_lower (\<tau> 1)) = 6 \<and> mpq_val (m_upper (\<tau> 1)) = 3 \<and> \<not> m_lower_inf (\<tau> 1) \<and> \<not> m_upper_inf (\<tau> 1))"
    using interval_sub_overwrites_second [of "\<lambda>k. if k = 0 then int_ivl 9 9 else int_ivl 2 3" 0 1]
    by (simp add: int_limits) (simp add: int_ivl_def int_limits)
  then show ?thesis
    by (rule yields_mono) (auto simp: members_def lower_holds_def upper_holds_def split: if_splits)
qed

section \<open>Roots and the resource limit\<close>

text \<open>C39: a scope of \<open>d\<close> steps that \<open>push\<close> opens inside a limit that allows as many lasts exactly \<open>d\<close> steps, and a
  scope never extends the limit around it. After any steps, cancellations and scopes that were opened and
  left inside it, \<open>pop\<close> restores the limit and the stack of limits; of the steps inside it counts those within
  the limit of the scope, and it forgets a cancellation.\<close>

theorem reslimit_scopes:
  "(d \<noteq> 0 \<and> unat (m_count r) + unat d \<le> unat (m_limit r) \<and> \<not> m_suspend r \<and> unat (m_count r) + k < 2 ^ 64 \<longrightarrow>
     (not_canceled (((\<lambda>r. snd (rl_inc r)) ^^ k) (rl_push d r)) \<longleftrightarrow> k \<le> unat d))
   \<and> m_limit (rl_push d r) \<le> m_limit r
   \<and> (rl_inside (rl_push d r) s \<longrightarrow>
        rl_pop s = Inr (r\<lparr>m_cancel := 0, m_count := min (m_count s) (m_limit (rl_push d r))\<rparr>))"
  using rl_scope_budget [of d r k, unfolded rl_step_def] rl_push_limit [of d r] rl_pop_inside [of d r s] by blast

theorem reslimit_scopes_witness:
  "\<not> not_canceled (((\<lambda>r. snd (rl_inc r)) ^^ 6) (rl_push 5 new_reslimit))
   \<and> rl_pop (snd (rl_inc_by 9 (rl_push 5 new_reslimit))) = Inr (new_reslimit\<lparr>m_count := 5\<rparr>)"
proof -
  have "unat max_limit = 2 ^ 64 - 1" by (simp add: max_limit_def unsigned_minus_1_eq_mask mask_eq_exp_minus_1)
  moreover have "rl_inside (rl_push 5 new_reslimit) (snd (rl_inc_by 9 (rl_push 5 new_reslimit)))"
    by (rule rl_inside.inc_by [OF rl_inside.start])
  ultimately show ?thesis
    using reslimit_scopes [of 5 new_reslimit 6 "snd (rl_inc_by 9 (rl_push 5 new_reslimit))"]
    by (simp add: new_reslimit_def rl_inc_by_def rl_push_def Let_def)
qed

text \<open>C6: \<open>nth_root\<close> by Newton's method, under a limit that other threads may use and cancel: it passes a
  number of checkpoints that depends on the arguments alone, throws exactly when one of them finds the limit
  reached, and otherwise ends with an enclosure of the root that is narrower than \<open>n * p\<close>. The precision must be
  positive, \<open>n\<close> at least 1 and at most \<open>2^31\<close>, and the argument not negative for even \<open>n\<close>; the denominator of
  the argument must not share a divisor with \<open>n - 1\<close>, since the sum in the loop overwrites its second
  argument.\<close>

theorem nth_root_enclosure:
  assumes "mpq_ok a" "mpq_ok p" "0 < mpq_val p" "0 < unat n" "unat n \<le> 2 ^ 31" "odd (unat n) \<or> 0 \<le> mpq_val a"
    "coprime (mpz_val (m_den a)) (int (unat n - 1))"
  shows "\<exists>k lo hi. mpq_ok lo \<and> mpq_ok hi \<and> rv lo \<le> root (unat n) (rv a) \<and> root (unat n) (rv a) \<le> rv hi
    \<and> mpq_val hi - mpq_val lo < of_nat (unat n) * mpq_val p
    \<and> (\<forall>env r. nth_root env a n p r =
         (if \<forall>i \<in> {1..k}. not_canceled (limit_after env i r) then Inr ((lo, hi), limit_after env k r) else Inl Canceled))"
proof -
  have "root_arg (unat n) a p" using assms unfolding root_arg_def by blast
  from nth_root_outcome [OF this] show ?thesis
    unfolding outcome_cases root_bounds_def by force
qed

theorem nth_root_enclosure_witness:
  "\<exists>lo hi s. nth_root (\<lambda>r. r) (mk_q 2) 3 (mk_q 1) new_reslimit = Inr ((lo, hi), s) \<and> rv lo \<le> root 3 2 \<and> root 3 2 \<le> rv hi"
proof -
  have den: "mpz_val (m_den (mk_q 2)) = 1" by (simp add: mk_q_def)
  obtain k lo hi where r: "rv lo \<le> root 3 2" "root 3 2 \<le> rv hi"
    "\<forall>env r. nth_root env (mk_q 2) 3 (mk_q 1) r =
       (if \<forall>i \<in> {1..k}. not_canceled (limit_after env i r) then Inr ((lo, hi), limit_after env k r) else Inl Canceled)"
    using nth_root_enclosure [of "mk_q 2" "mk_q 1" 3] by (auto simp: int_limits den)
  have "nth_root (\<lambda>r. r) (mk_q 2) 3 (mk_q 1) new_reslimit = Inr ((lo, hi), limit_after (\<lambda>r. r) k new_reslimit)"
    using r(3) by (simp add: limit_after_fresh)
  then show ?thesis using r(1,2) by blast
qed

text \<open>C13: bisection (\<open>nth_root_slow\<close>) and roots of intervals, under a limit that other threads may use: they pass
  a number of checkpoints that depends on the arguments alone, throw exactly when one of them finds the limit
  reached, and otherwise end. Bisection encloses the root with a width of at most \<open>p\<close>. \<open>nth_root\<close> of an interval
  contains the roots of the members, and its bounds are closer than \<open>n * p\<close> to the roots of the bounds
  (\<open>near_roots\<close>); \<open>xn_eq_y\<close> contains all numbers whose power is a member, for even \<open>n\<close> with bounds that are
  closer than \<open>n * p\<close> to the root of the upper bound and its opposite, or with none when there is no upper bound,
  and for odd \<open>n\<close> with those of \<open>nth_root\<close> (\<open>near_solutions\<close>); both are justified by the bounds that the dependency rules name. For even \<open>n\<close> the
  interval must have a lower bound that is not negative, as the sources assert; the denominators of its
  bounds must not share a divisor with \<open>n - 1\<close> (\<open>root_ivl\<close>).\<close>

theorem interval_roots_enclose:
  assumes "root_ivl (unat n) (\<sigma> a) p" "ivl_ok (\<sigma> b)"
    and "mpq_ok q" "mpq_ok p" "0 < mpq_val p" "unat n < 2 ^ 31" "odd (unat n) \<or> 0 \<le> mpq_val q"
  shows "outcome (\<lambda>env r. nth_root_slow env q n p r)
      (\<lambda>(lo, hi). rv lo \<le> root (unat n) (rv q) \<and> root (unat n) (rv q) \<le> rv hi \<and> mpq_val hi - mpq_val lo \<le> mpq_val p)
    \<and> outcome (\<lambda>env r. ivl_nth_root env a n p b \<sigma> r) (writes b \<sigma> (\<lambda>c. ivl_ok c \<and> near_roots (unat n) (\<sigma> a) c p
      \<and> root (unat n) ` members (\<sigma> a) \<subseteq> members c \<and> (\<forall>x. justified (nth_root_jst n) (\<sigma> a) x (\<sigma> a) x c (root (unat n) x))))
    \<and> outcome (\<lambda>env r. xn_eq_y env a n p b \<sigma> r) (writes b \<sigma> (\<lambda>c. ivl_ok c \<and> near_solutions (unat n) (\<sigma> a) c p
      \<and> {z. z ^ unat n \<in> members (\<sigma> a)} \<subseteq> members c
      \<and> (\<forall>z. justified (xn_eq_y_jst n) (\<sigma> a) (z ^ unat n) (\<sigma> a) (z ^ unat n) c z)))"
proof (intro conjI)
  have n: "0 < unat n" using assms(1) unfolding root_ivl_def by blast
  show "outcome (\<lambda>env r. nth_root_slow env q n p r)
      (\<lambda>(lo, hi). rv lo \<le> root (unat n) (rv q) \<and> root (unat n) (rv q) \<le> rv hi \<and> mpq_val hi - mpq_val lo \<le> mpq_val p)"
    by (rule outcome_mono [OF nth_root_slow_outcome [OF assms(3-5) n assms(6,7)]]) (auto simp: root_bounds_def)
qed (rule ivl_nth_root_encloses [of n \<sigma> a p b, OF assms(1,2)], rule xn_eq_y_encloses [of n \<sigma> a p b, OF assms(1,2)])

theorem interval_roots_enclose_witness:
  "yields (xn_eq_y (\<lambda>r. r) 0 2 (mk_q 1) 1 (\<lambda>k. int_ivl 2 7) new_reslimit) (\<lambda>(\<tau>, s). {z. z ^ 2 \<in> {2..7}} \<subseteq> members (\<tau> 1))"
proof -
  have "unat (2 :: digit) = 2" by simp
  moreover have "root_ivl (unat (2 :: digit)) (int_ivl 2 7) (mk_q 1)"
    by (simp add: root_ivl_def root_arg_def int_limits) (simp add: int_ivl_def int_limits mk_q_def mpq_val_def)
  ultimately have "outcome (\<lambda>env r. xn_eq_y env 0 2 (mk_q 1) 1 (\<lambda>k. int_ivl 2 7) r)
      (writes 1 (\<lambda>k. int_ivl 2 7) (\<lambda>c. ivl_ok c \<and> near_solutions 2 (int_ivl 2 7) c (mk_q 1)
        \<and> {z. z ^ 2 \<in> members (int_ivl 2 7)} \<subseteq> members c
        \<and> (\<forall>z. justified (xn_eq_y_jst 2) (int_ivl 2 7) (z ^ 2) (int_ivl 2 7) (z ^ 2) c z)))"
    using interval_roots_enclose [of 2 "\<lambda>k. int_ivl 2 7" 0 "mk_q 1" 1 "mk_q 2"] by (simp add: int_limits)
  from outcome_returns [OF this] show ?thesis
    by (rule yields_mono) (auto simp: writes_def int_limits)
qed

section \<open>Series\<close>

text \<open>C12: \<open>sine\<close> and \<open>cosine\<close> enclose the values. Their bounds are the Taylor polynomial of the argument, with
  an odd degree for the sine and an even one for the cosine, minus and plus the error \<open>|a|^m / m!\<close>, where
  \<open>m\<close> is the degree plus one and less than \<open>2^31\<close>; exactly when the lower bound is below \<open>-1\<close>, both are replaced by \<open>-1\<close> and \<open>1\<close>.\<close>

theorem sine_cosine_enclosure:
  assumes "mpq_ok a" "unat k + 2 < 2 ^ 31"
  shows "yields (sine a k) (\<lambda>(lo, hi). mpq_ok lo \<and> mpq_ok hi \<and> rv lo \<le> sin (rv a) \<and> sin (rv a) \<le> rv hi
      \<and> (let m = odd_above (unat k) + 1; S = (\<Sum>i < m. sin_coeff i * rv a ^ i); E = \<bar>rv a\<bar> ^ m / fact m
         in if S - E < - 1 then rv lo = - 1 \<and> rv hi = 1 else rv lo = S - E \<and> rv hi = S + E))
    \<and> yields (cosine a k) (\<lambda>(lo, hi). mpq_ok lo \<and> mpq_ok hi \<and> rv lo \<le> cos (rv a) \<and> cos (rv a) \<le> rv hi
      \<and> (let m = even_above (unat k) + 1; S = (\<Sum>i < m. cos_coeff i * rv a ^ i); E = \<bar>rv a\<bar> ^ m / fact m
         in if S - E < - 1 then rv lo = - 1 \<and> rv hi = 1 else rv lo = S - E \<and> rv hi = S + E))"
proof (rule conjI)
  let ?m = "odd_above (unat k) + 1" and ?n = "even_above (unat k) + 1"
  have s: "\<bar>sin (rv a) - (\<Sum>m < ?m. sin_coeff m * rv a ^ m)\<bar> \<le> \<bar>rv a\<bar> ^ ?m / fact ?m" "\<bar>sin (rv a)\<bar> \<le> 1"
    using Maclaurin_sin_bound [of "rv a" ?m] by (simp_all only: divide_inverse mult.commute abs_sin_le_one)
  show "yields (sine a k) (\<lambda>(lo, hi). mpq_ok lo \<and> mpq_ok hi \<and> rv lo \<le> sin (rv a) \<and> sin (rv a) \<le> rv hi
      \<and> (let m = ?m; S = (\<Sum>i < m. sin_coeff i * rv a ^ i); E = \<bar>rv a\<bar> ^ m / fact m
         in if S - E < - 1 then rv lo = - 1 \<and> rv hi = 1 else rv lo = S - E \<and> rv hi = S + E))"
    using yields_mono [OF sine_yields [OF assms] taylor_pinned [OF _ s]] unfolding Let_def .
  have c: "\<bar>cos (rv a) - (\<Sum>m < ?n. cos_coeff m * rv a ^ m)\<bar> \<le> \<bar>rv a\<bar> ^ ?n / fact ?n" "\<bar>cos (rv a)\<bar> \<le> 1"
    by (rule cos_taylor_bound, rule abs_cos_le_one)
  show "yields (cosine a k) (\<lambda>(lo, hi). mpq_ok lo \<and> mpq_ok hi \<and> rv lo \<le> cos (rv a) \<and> cos (rv a) \<le> rv hi
      \<and> (let m = ?n; S = (\<Sum>i < m. cos_coeff i * rv a ^ i); E = \<bar>rv a\<bar> ^ m / fact m
         in if S - E < - 1 then rv lo = - 1 \<and> rv hi = 1 else rv lo = S - E \<and> rv hi = S + E))"
    using yields_mono [OF cosine_yields [OF assms] taylor_pinned [OF _ c]] unfolding Let_def .
qed

theorem sine_cosine_enclosure_witness:
  "yields (sine (mk_q 1) 5) (\<lambda>(lo, hi). rv lo \<le> sin 1 \<and> sin 1 \<le> rv hi)"
  using sine_cosine_enclosure [of "mk_q 1" 5] by (auto simp: int_limits elim!: yields_mono)

text \<open>C11: \<open>e(k)\<close> and \<open>pi(n)\<close> write closed intervals of width \<open>4 / (k + 1)!\<close> and \<open>1 / (15 * 16^n)\<close> that contain
  Euler's number and pi; the loops end and no \<open>int\<close> overflows for \<open>n < 2^28\<close>.\<close>

theorem e_pi_enclosure:
  assumes "unat k + 1 < 2 ^ 31" "unat n < 2 ^ 28"
  shows "yields (ivl_e k r \<sigma>) (writes r \<sigma> (\<lambda>c. ivl_wf c \<and> exp 1 \<in> members c \<and> rv (m_upper c) - rv (m_lower c) = 4 / fact (unat k + 1)))
    \<and> yields (ivl_pi n r \<sigma>) (writes r \<sigma> (\<lambda>c. ivl_wf c \<and> pi \<in> members c \<and> rv (m_upper c) - rv (m_lower c) = 1 / (15 * 16 ^ unat n)))"
  using ivl_e_yields [OF assms(1)] ivl_pi_yields [OF assms(2)] by blast

theorem e_pi_enclosure_witness:
  "yields (ivl_pi 10 0 (\<lambda>_. new_interval)) (\<lambda>\<tau>. pi \<in> members (\<tau> 0))"
proof (rule yields_written)
  show "yields (ivl_pi 10 0 (\<lambda>_. new_interval)) (writes 0 (\<lambda>_. new_interval) (\<lambda>c. ivl_wf c \<and> pi \<in> members c
      \<and> rv (m_upper c) - rv (m_lower c) = 1 / (15 * 16 ^ unat (10 :: digit))))"
    using e_pi_enclosure [of 0 10 0 "\<lambda>_. new_interval"] by simp
qed blast

text \<open>The invariant of the cached intervals: they contain pi, its half, three halves and double, and that of
  pi has the width of the precision it was computed with. It holds of a new manager, and
  \<open>set_pi_at_least_prec\<close> keeps it and never lowers the precision.\<close>

theorem pi_cache_invariant:
  assumes "pi_cache_ok c" "unat n < 2 ^ 28"
  shows "pi_cache_ok new_pi_cache \<and> yields (set_pi_at_least_prec n c) (\<lambda>d. m_pi_n d = max n (m_pi_n c) \<and> pi_cache_ok d)"
  using set_pi_at_least_prec_yields [OF assms(2,1)] new_pi_cache_ok by blast

theorem pi_cache_invariant_witness:
  "yields (set_pi_at_least_prec 3 new_pi_cache) (\<lambda>d. m_pi_n d = 3 \<and> pi / 2 \<in> members (m_ivls d m_pi_div_2))"
proof (rule yields_mono)
  show "yields (set_pi_at_least_prec 3 new_pi_cache) (\<lambda>d. m_pi_n d = max 3 (m_pi_n new_pi_cache) \<and> pi_cache_ok d)"
    using pi_cache_invariant [of new_pi_cache 3] new_pi_cache_ok by simp
qed (simp add: pi_cache_ok_def new_pi_cache_def)

section \<open>Rational numbers and infinitesimals\<close>

text \<open>C16: \<open>rational::limit_denominator\<close> for a positive integer as the limit: the loop over the convergents ends.
  A number whose denominator is below the limit is kept; every other one is replaced by the first convergent
  of its continued fraction (\<open>cf_convergent\<close>) whose denominator \<open>q\<close> is \<^emph>\<open>not\<close> below the limit; it is closer to
  the number than \<open>1/q^2\<close>.\<close>

theorem limit_denominator_correct:
  assumes "mpq_ok num" "is_z limit L" "0 < L"
  shows "yields (limit_denominator num limit) (\<lambda>r.
    if mpz_val (m_den num) < L then r = None
    else \<exists>a j. r = Some a \<and> mpq_ok a \<and> mpq_val a = cf_convergent j (mpq_val num) \<and> L \<le> mpz_val (m_den a)
      \<and> (\<forall>i < j. rat_den (cf_convergent i (mpq_val num)) < L)
      \<and> \<bar>mpq_val num - mpq_val a\<bar> * (of_int (mpz_val (m_den a)))\<^sup>2 < 1)"
  by (rule yields_mono [OF limit_denominator_yields [OF assms]]) (auto simp: first_convergent_def split: if_splits)

theorem limit_denominator_correct_witness:
  "yields (limit_denominator \<lparr>m_num = mk_z 3927, m_den = mk_z 1250\<rparr> (mk_q 100)) (\<lambda>r. \<exists>a. r = Some a \<and> mpq_val a = 355 / 113)"
proof (rule yields_mono [OF limit_denominator_correct [of _ _ 100]])
  have "gcd (3927 :: int) 1250 = 1" by code_simp
  then have "coprime (3927 :: int) 1250" by (simp add: coprime_iff_gcd_eq_1)
  then show ok: "mpq_ok \<lparr>m_num = mk_z 3927, m_den = mk_z 1250\<rparr>" by (simp add: mpq_ok_def int_limits)
  show "is_z (mk_q 100) 100" by (rule is_z_mk) (simp_all add: int_limits)
  fix r
  let ?x = "mpq_val \<lparr>m_num = mk_z 3927, m_den = mk_z 1250\<rparr>"
  have x: "?x = 3927 / 1250" by (simp add: mpq_val_def int_limits)
  have c: "cf_convergent 0 (3927 / 1250) = 3" "cf_convergent 1 (3927 / 1250) = 22 / 7" "cf_convergent 2 (3927 / 1250) = 355 / 113"
    "rat_den 3 = 1" "rat_den (22 / 7) = 7" "rat_den (355 / 113) = 113" by code_simp+
  assume "if mpz_val (m_den \<lparr>m_num = mk_z 3927, m_den = mk_z 1250\<rparr>) < 100 then r = None
    else \<exists>a j. r = Some a \<and> mpq_ok a \<and> mpq_val a = cf_convergent j ?x \<and> 100 \<le> mpz_val (m_den a)
      \<and> (\<forall>i < j. rat_den (cf_convergent i ?x) < 100)
      \<and> \<bar>?x - mpq_val a\<bar> * (of_int (mpz_val (m_den a)))\<^sup>2 < 1"
  then obtain a j where a: "r = Some a" "mpq_ok a" "mpq_val a = cf_convergent j (3927 / 1250)" "100 \<le> mpz_val (m_den a)"
    and low: "\<And>i. i < j \<Longrightarrow> rat_den (cf_convergent i (3927 / 1250)) < 100"
    unfolding x by (auto simp: int_limits)
  have "rat_den (mpq_val a) = mpz_val (m_den a)" using a(2) by (rule rat_den_mpq)
  then have "100 \<le> rat_den (cf_convergent j (3927 / 1250))" using a(3,4) by simp
  then have "j \<noteq> 0" "j \<noteq> 1" using c by (metis not_less numeral_le_iff one_le_numeral rel_simps)+
  moreover have "\<not> 2 < j" using low [of 2] unfolding c by auto
  ultimately have "j = 2" by linarith
  then show "\<exists>a. r = Some a \<and> mpq_val a = 355 / 113" using a(1,3) c by simp
qed simp

text \<open>C17: \<open>power_of_two\<close> answers from the cached table and extends it, and \<open>mult_inverse\<close> finds an inverse modulo
  \<open>2^k\<close> for exactly the odd numbers; both keep the invariant of the table, the \<open>i\<close>-th entry is \<open>2^i\<close>.\<close>

theorem mult_inverse_correct:
  assumes "is_z n v" "pow_table pws" "length pws < 2 ^ 32" "unat k + 2 < 2 ^ 32"
  shows "yields (power_of_two k pws) (\<lambda>(r, p). is_z r (2 ^ unat k) \<and> pow_table p \<and> length p < 2 ^ 32)
    \<and> yields (mult_inverse n k pws) (\<lambda>(r, p). pow_table p \<and> length p < 2 ^ 32
      \<and> (case r of None \<Rightarrow> even v | Some x \<Rightarrow> odd v \<and> (\<exists>w. is_z x w \<and> 0 \<le> w \<and> v * w mod 2 ^ unat k = 1 mod 2 ^ unat k)))"
proof
  show "yields (power_of_two k pws) (\<lambda>(r, p). is_z r (2 ^ unat k) \<and> pow_table p \<and> length p < 2 ^ 32)"
    by (rule power_of_two_yields [OF assms(2-4)])
  show "yields (mult_inverse n k pws) (\<lambda>(r, p). pow_table p \<and> length p < 2 ^ 32
      \<and> (case r of None \<Rightarrow> even v | Some x \<Rightarrow> odd v \<and> (\<exists>w. is_z x w \<and> 0 \<le> w \<and> v * w mod 2 ^ unat k = 1 mod 2 ^ unat k)))"
    by (rule mult_inverse_yields [OF assms])
qed

theorem mult_inverse_correct_witness:
  "yields (mult_inverse (mk_q 3) 8 []) (\<lambda>(r, p). \<exists>x w. r = Some x \<and> is_z x w \<and> 3 * w mod 256 = 1)"
proof -
  have z: "is_z (mk_q 3) 3" by (rule is_z_mk) (simp_all add: int_limits)
  have "yields (mult_inverse (mk_q 3) 8 []) (\<lambda>(r, p). pow_table p \<and> length p < 2 ^ 32
      \<and> (case r of None \<Rightarrow> even (3 :: int) | Some x \<Rightarrow> odd (3 :: int) \<and> (\<exists>w. is_z x w \<and> 0 \<le> w \<and> 3 * w mod 2 ^ unat (8 :: digit) = 1 mod 2 ^ unat (8 :: digit))))"
    using mult_inverse_correct [OF z, of "[]" 8] by (simp add: pow_table_def)
  then show ?thesis by (rule yields_mono) (auto split: option.splits)
qed

text \<open>C15: numbers \<open>first + epsilon * second\<close> with an infinitesimal \<open>epsilon\<close>: the comparisons are those at all sufficiently
  small positive values of \<open>epsilon\<close>, and sums, differences, \<open>addmul\<close>, scaling, \<open>floor\<close> and \<open>ceil\<close> agree with
  the operations at these values.\<close>

theorem inf_rational_correct:
  assumes "inf_ok a" "inf_ok b" "mpq_ok c"
  shows "(inf_lt a b \<longleftrightarrow> (\<forall>\<^sub>F e in at_right 0. inf_at a e < inf_at b e))
    \<and> (inf_eq a b \<longleftrightarrow> (\<forall>\<^sub>F e in at_right 0. inf_at a e = inf_at b e))
    \<and> (inf_is_neg a \<longleftrightarrow> (\<forall>\<^sub>F e in at_right 0. inf_at a e < 0))
    \<and> yields (inf_add a b) (\<lambda>r. inf_ok r \<and> (\<forall>e. inf_at r e = inf_at a e + inf_at b e))
    \<and> yields (inf_sub a b) (\<lambda>r. inf_ok r \<and> (\<forall>e. inf_at r e = inf_at a e - inf_at b e))
    \<and> yields (inf_addmul a c b) (\<lambda>r. inf_ok r \<and> (\<forall>e. inf_at r e = inf_at a e + real_of_rat (mpq_val c) * inf_at b e))
    \<and> (mpq_val c \<noteq> 0 \<longrightarrow> yields (inf_div_q a c) (\<lambda>r. inf_ok r \<and> (\<forall>e. inf_at r e = inf_at a e / real_of_rat (mpq_val c))))
    \<and> yields (inf_floor a) (\<lambda>q. \<exists>z. is_z q z \<and> (\<forall>\<^sub>F e in at_right 0. \<lfloor>inf_at a e\<rfloor> = z))
    \<and> yields (inf_ceil a) (\<lambda>q. \<exists>z. is_z q z \<and> (\<forall>\<^sub>F e in at_right 0. \<lceil>inf_at a e\<rceil> = z))"
  using inf_lt_iff [OF assms(1,2)] inf_sign(2) [OF assms(1)] inf_linear_yields [OF assms(1,2)] inf_addmul_yields(1) [OF assms(1,3,2)]
    inf_scale_yields(2) [OF assms(1,3)] inf_floor_yields [OF assms(1)] inf_ceil_yields [OF assms(1)]
  by (intro conjI impI) simp_all

theorem inf_rational_correct_witness:
  "inf_ok (inf_of_sign (mk_q 1) False)
   \<and> yields (inf_floor (inf_of_sign (mk_q 1) False)) (\<lambda>q. \<exists>z. is_z q z \<and> (\<forall>\<^sub>F e in at_right 0. \<lfloor>1 - (e :: real)\<rfloor> = z))"
proof -
  have ok: "inf_ok (inf_of_sign (mk_q 1) False)" "inf_at (inf_of_sign (mk_q 1) False) e = 1 - e" for e
    by (simp_all add: inf_of_sign_def inf_ok_def inf_at_def int_limits of_rat_minus)
  then show ?thesis using inf_rational_correct [OF ok(1) ok(1), of "mk_q 1"] by (simp add: int_limits)
qed

text \<open>C14: \<open>inf_mult\<close>, \<open>inf_div\<close>, \<open>inf_power\<close> and \<open>sup_mult\<close>, \<open>sup_div\<close>, \<open>sup_power\<close> bound products, quotients
  and powers from below and above for all sufficiently small values of \<open>epsilon\<close>, divisors with a rational part
  other than zero and exponents below \<open>2^31\<close>.\<close>

theorem inf_rational_bounds:
  assumes "inf_ok a" "inf_ok b" "mpq_val (m_first b) \<noteq> 0" "unat n < 2 ^ 31"
  shows "yields (inf_mult a b) (\<lambda>c. inf_ok c \<and> (\<forall>\<^sub>F e in at_right 0. inf_at c e \<le> inf_at a e * inf_at b e))
    \<and> yields (sup_mult a b) (\<lambda>c. inf_ok c \<and> (\<forall>\<^sub>F e in at_right 0. inf_at a e * inf_at b e \<le> inf_at c e))
    \<and> yields (inf_div a b) (\<lambda>c. inf_ok c \<and> (\<forall>\<^sub>F e in at_right 0. inf_at c e \<le> inf_at a e / inf_at b e))
    \<and> yields (sup_div a b) (\<lambda>c. inf_ok c \<and> (\<forall>\<^sub>F e in at_right 0. inf_at a e / inf_at b e \<le> inf_at c e))
    \<and> yields (inf_power a n) (\<lambda>c. inf_ok c \<and> (\<forall>\<^sub>F e in at_right 0. inf_at c e \<le> inf_at a e ^ unat n))
    \<and> yields (sup_power a n) (\<lambda>c. inf_ok c \<and> (\<forall>\<^sub>F e in at_right 0. inf_at a e ^ unat n \<le> inf_at c e))"
  by (intro conjI inf_div_yields sup_div_yields inf_power_yields sup_power_yields assms
      yields_mono [OF inf_mult_yields] yields_mono [OF sup_mult_yields]) auto

theorem inf_rational_bounds_witness:
  "yields (inf_div (inf_of_sign (mk_q 1) True) (inf_of_sign (mk_q 2) False)) (\<lambda>c. \<forall>\<^sub>F e in at_right 0. inf_at c e \<le> (1 + e) / (2 - e))"
proof -
  have ok: "inf_ok (inf_of_sign (mk_q 1) True)" "inf_ok (inf_of_sign (mk_q 2) False)" "mpq_val (m_first (inf_of_sign (mk_q 2) False)) \<noteq> 0"
    and at: "inf_at (inf_of_sign (mk_q 1) True) e = 1 + e" "inf_at (inf_of_sign (mk_q 2) False) e = 2 - e" for e
    by (simp_all add: inf_of_sign_def inf_ok_def inf_at_def int_limits of_rat_minus)
  show ?thesis using inf_rational_bounds [OF ok, of 2] unfolding at by (auto elim!: yieldsE)
qed

text \<open>\<open>sup_root\<close> answers its argument, which is below the root for numbers between zero and one.\<close>

theorem sup_root_below_root:
  assumes "inf_ok r" "0 < fv r" "fv r < 1" "1 < unat n"
  shows "\<forall>\<^sub>F e in at_right 0. inf_at (sup_root r n) e ^ unat n < inf_at r e"
  by (rule sup_root_too_small [OF assms])

section \<open>Disjoint sets\<close>

text \<open>C19: In every state that the operations reach, the invariant of the class holds and \<open>check_invariant\<close> runs
  without a failed check; \<open>find\<close> returns a root after a number of steps that is at most the binary logarithm
  of the number of variables, and \<open>size\<close> the number of variables of the class.\<close>

theorem union_find_invariant:
  assumes "uf_reach u cs"
  shows "uf_ok (m_core u) \<and> uf_check_invariant (m_core u) = Inr True
    \<and> (\<forall>v < get_num_vars (m_core u). \<exists>k r. root_path (m_find (m_core u)) k v r \<and> 2 ^ k \<le> get_num_vars (m_core u)
         \<and> uf_find (m_core u) v = Inr r \<and> uf_is_root (m_core u) r = Inr True
         \<and> uf_size (m_core u) v = Inr (card {w. same_class (m_core u) w v}))"
proof -
  have ok: "uf_ok (m_core u)" using uf_reach_inv [OF assms] by simp
  show ?thesis using ok uf_check_invariant_ok [OF ok] uf_find_log [OF ok] by (simp add: get_num_vars_def)
qed

theorem union_find_invariant_witness:
  "(let u = snd (uf_mk_var (snd (uf_mk_var new_union_find)))
    in uf_check_invariant (m_core u) = Inr True \<and> (\<exists>r. uf_find (m_core u) 1 = Inr r))"
proof -
  let ?u = "snd (uf_mk_var (snd (uf_mk_var new_union_find)))"
  have r: "uf_reach ?u []" by (intro uf_reach.intros)
  have "1 < get_num_vars (m_core ?u)" by (simp add: get_num_vars_def uf_mk_var_def core_mk_var_def new_union_find_def new_core_def Let_def)
  then show ?thesis using union_find_invariant [OF r] unfolding Let_def by blast
qed

text \<open>C18: Popping scopes never fails for scopes that are open, and takes the three vectors back to what they were
  when the outermost of the popped scopes was opened, whatever variables were made, classes merged and scopes
  opened and closed since.\<close>

theorem union_find_backtrack:
  assumes "uf_reach u cs" "k \<le> length cs"
  shows "\<exists>w. uf_pop_scope k u = Inr w \<and> m_core w = (cs @ [m_core u]) ! (length cs - k) \<and> uf_reach w (take (length cs - k) cs)"
proof -
  have "scoped uf_step (m_trail_stack u) cs (m_core u)" using uf_reach_inv [OF assms(1)] by simp
  then obtain w where w: "uf_pop_scope k u = Inr w" "m_core w = (cs @ [m_core u]) ! (length cs - k)"
    using uf_pop_scoped assms(2) by blast
  then show ?thesis using uf_reach.pop [OF assms w(1)] by blast
qed

theorem union_find_backtrack_witness:
  "\<exists>u w. uf_merge 0 1 (uf_push_scope (snd (uf_mk_var (snd (uf_mk_var new_union_find))))) = Inr u
     \<and> m_find (m_core u) = [1, 1] \<and> uf_pop_scope 1 u = Inr w \<and> m_find (m_core w) = [0, 1]"
proof -
  let ?n = "snd (uf_mk_var (snd (uf_mk_var new_union_find)))"
  have n: "uf_reach ?n []" by (intro uf_reach.intros)
  have p: "uf_reach (uf_push_scope ?n) [m_core ?n]" using uf_reach.push [OF n] by simp
  have "uf_find (m_core ?n) 0 = Inr 0" "uf_find (m_core ?n) 1 = Inr 1"
    by (rule uf_find_rooted, rule rooted_root; simp add: uf_mk_var_def core_mk_var_def new_union_find_def new_core_def Let_def)+
  then obtain u where u: "uf_merge 0 1 (uf_push_scope ?n) = Inr u" "m_find (m_core u) = [1, 1]"
    by (simp add: uf_merge_def uf_push_scope_def uf_link_def swap_next_def uf_mk_var_def core_mk_var_def new_union_find_def new_core_def Let_def)
  have "uf_reach u [m_core ?n]"
    by (rule uf_reach.merge [OF p _ _ u(1)]) (simp_all add: get_num_vars_def uf_push_scope_def uf_mk_var_def core_mk_var_def new_union_find_def new_core_def Let_def)
  then obtain w where "uf_pop_scope 1 u = Inr w" "m_core w = m_core ?n"
    using union_find_backtrack [of u "[m_core ?n]" 1] by auto
  moreover have "m_find (m_core ?n) = [0, 1]"
    by (simp add: uf_mk_var_def core_mk_var_def new_union_find_def new_core_def Let_def)
  ultimately show ?thesis using u by auto
qed

text \<open>C20: \<open>merge\<close> implements the union of the partition: afterwards two variables have the same root exactly
  when they had before, or when one was in the class of the first and the other in the class of the second
  argument.\<close>

theorem union_find_merge_correct:
  assumes "uf_reach u cs" "v1 < get_num_vars (m_core u)" "v2 < get_num_vars (m_core u)"
  shows "\<exists>w. uf_merge v1 v2 u = Inr w \<and> uf_reach w cs \<and> get_num_vars (m_core w) = get_num_vars (m_core u)
    \<and> (\<forall>x y. x < get_num_vars (m_core u) \<and> y < get_num_vars (m_core u) \<longrightarrow>
         (uf_find (m_core w) x = uf_find (m_core w) y \<longleftrightarrow>
            uf_find (m_core u) x = uf_find (m_core u) y
            \<or> uf_find (m_core u) x = uf_find (m_core u) v1 \<and> uf_find (m_core u) y = uf_find (m_core u) v2
            \<or> uf_find (m_core u) x = uf_find (m_core u) v2 \<and> uf_find (m_core u) y = uf_find (m_core u) v1))"
proof -
  have ok: "uf_ok (m_core u)" using uf_reach_inv [OF assms(1)] by simp
  obtain w where w: "uf_merge v1 v2 u = Inr w" "uf_ok (m_core w)" "length (m_find (m_core w)) = length (m_find (m_core u))"
    "\<And>x y. same_class (m_core w) x y \<longleftrightarrow> same_class (m_core u) x y
        \<or> same_class (m_core u) x v1 \<and> same_class (m_core u) y v2 \<or> same_class (m_core u) x v2 \<and> same_class (m_core u) y v1"
    using uf_merge_ok [OF ok assms(2,3) [unfolded get_num_vars_def]] by (auto elim!: yieldsE)
  have "uf_find (m_core w) x = uf_find (m_core w) y \<longleftrightarrow>
            uf_find (m_core u) x = uf_find (m_core u) y
            \<or> uf_find (m_core u) x = uf_find (m_core u) v1 \<and> uf_find (m_core u) y = uf_find (m_core u) v2
            \<or> uf_find (m_core u) x = uf_find (m_core u) v2 \<and> uf_find (m_core u) y = uf_find (m_core u) v1"
    if "x < get_num_vars (m_core u) \<and> y < get_num_vars (m_core u)" for x y
    using w(4) [of x y] that assms(2,3) w(3) by (simp add: get_num_vars_def same_class_find [OF ok] same_class_find [OF w(2)])
  then show ?thesis using uf_reach.merge [OF assms w(1)] w(1,3) by (simp add: get_num_vars_def)
qed

theorem union_find_merge_correct_witness:
  "\<exists>w. uf_merge 0 1 (snd (uf_mk_var (snd (uf_mk_var new_union_find)))) = Inr w \<and> uf_find (m_core w) 0 = uf_find (m_core w) 1"
proof -
  let ?n = "snd (uf_mk_var (snd (uf_mk_var new_union_find)))"
  have n: "uf_reach ?n []" by (intro uf_reach.intros)
  have "get_num_vars (m_core ?n) = 2" by (simp add: get_num_vars_def uf_mk_var_def core_mk_var_def new_union_find_def new_core_def Let_def)
  then show ?thesis using union_find_merge_correct [OF n, of 0 1] by fastforce
qed

text \<open>C40: \<open>dissolve\<close> resets the entries of its argument and nothing else: the variable of the loop is never
  advanced, so the other variables of the class keep their links to it.\<close>

theorem union_find_dissolve:
  assumes "uf_ok c" "v < get_num_vars c"
  shows "uf_dissolve v c = Inr \<lparr>m_find = (m_find c)[v := v], m_size = (m_size c)[v := 1], m_next = (m_next c)[v := v]\<rparr>"
  using uf_dissolve_value assms uf_okD [OF assms(1)] by (simp add: get_num_vars_def)

theorem union_find_dissolve_witness:
  "\<exists>c d. uf_link 0 1 (core_mk_var (core_mk_var new_core)) = Inr c \<and> uf_dissolve 1 c = Inr d
     \<and> m_find d = [1, 1] \<and> m_size d = [1, 1] \<and> m_next d = [1, 1]"
proof -
  let ?c = "core_mk_var (core_mk_var new_core)"
  have "uf_ok ?c" by (intro core_mk_var_ok uf_ok_new)
  then obtain c where c: "uf_link 0 1 ?c = Inr c" "uf_ok c"
    using uf_link_ok [of ?c 0 1] by (auto simp: core_mk_var_def new_core_def Let_def)
  have v: "c = \<lparr>m_find = [1, 1], m_size = [1, 2], m_next = [1, 0]\<rparr>"
    using c(1) by (simp add: uf_link_def swap_next_def core_mk_var_def new_core_def Let_def eval_nat_numeral)
  have "uf_dissolve 1 c = Inr \<lparr>m_find = (m_find c)[1 := 1], m_size = (m_size c)[1 := 1], m_next = (m_next c)[1 := 1]\<rparr>"
    by (rule union_find_dissolve [OF c(2)]) (simp add: v get_num_vars_def)
  then show ?thesis using c(1) v by simp
qed

section \<open>Heaps\<close>

text \<open>C21: For every weak order, the operations keep the invariant of the heap (positions and indices agree, no value
  is below its parent; the check of the source passes), act on its set of values as they say, and never leave the
  vectors: \<open>insert\<close> adds, \<open>erase\<close> removes, \<open>erase_min\<close> removes and returns a value below which there is
  none, \<open>find_le\<close> lists the values not above its bound.\<close>

theorem heap_correct:
  assumes "weak_order lt" "heap_ok lt h"
  shows "heap_check_invariant lt h = Inr True
    \<and> (\<forall>v. 0 \<le> v \<and> nat v < heap_get_bounds h \<and> v \<notin> heap_set h \<longrightarrow>
         yields (heap_insert lt v h) (\<lambda>g. heap_ok lt g \<and> heap_set g = insert v (heap_set h)))
    \<and> (\<forall>v \<in> heap_set h. yields (heap_erase lt v h) (\<lambda>g. heap_ok lt g \<and> heap_set g = heap_set h - {v}))
    \<and> (\<not> heap_empty h \<longrightarrow> yields (heap_erase_min lt h) (\<lambda>(m, g). heap_min_value h = Inr m \<and> heap_ok lt g \<and> m \<in> heap_set h
         \<and> (\<forall>w \<in> heap_set h. \<not> lt w m) \<and> heap_set g = heap_set h - {m}))
    \<and> (\<forall>val. yields (heap_find_le lt val h []) (\<lambda>r. set r = {w \<in> heap_set h. \<not> lt val w}))"
proof (intro conjI allI ballI impI)
  note l = assms(1)
  show "heap_check_invariant lt h = Inr True" by (rule heap_check_invariant_ok [OF assms(2)])
  show "yields (heap_insert lt v h) (\<lambda>g. heap_ok lt g \<and> heap_set g = insert v (heap_set h))"
    if "0 \<le> v \<and> nat v < heap_get_bounds h \<and> v \<notin> heap_set h" for v
    by (rule yields_mono [OF weak_order.heap_insert_ok [OF l assms(2), of v]]) (use that in auto)
  show "yields (heap_erase lt v h) (\<lambda>g. heap_ok lt g \<and> heap_set g = heap_set h - {v})" if "v \<in> heap_set h" for v
    by (rule yields_mono [OF weak_order.heap_erase_ok [OF l assms(2) that]]) auto
  show "yields (heap_erase_min lt h) (\<lambda>(m, g). heap_min_value h = Inr m \<and> heap_ok lt g \<and> m \<in> heap_set h
         \<and> (\<forall>w \<in> heap_set h. \<not> lt w m) \<and> heap_set g = heap_set h - {m})" if "\<not> heap_empty h"
  proof -
    have ne: "heap_set h \<noteq> {}" using that assms(2) heap_empty_iff [of h] by (simp add: heap_ok_def)
    show ?thesis
      using weak_order.heap_erase_min_ok [OF l assms(2) ne] heap_erase_min_first [of lt h] by (auto elim!: yieldsE)
  qed
  show "yields (heap_find_le lt val h []) (\<lambda>r. set r = {w \<in> heap_set h. \<not> lt val w})" for val
    by (rule yields_mono [OF weak_order.heap_find_le_ok [OF l assms(2), of val "[]"]]) auto
qed

theorem heap_correct_witness:
  "\<exists>g m k. heap_insert theory_var_lt 3 (new_heap 8) = Inr g \<and> heap_erase_min theory_var_lt g = Inr (m, k) \<and> m = 3 \<and> heap_set k = {}"
proof -
  have w: "weak_order theory_var_lt" by (rule by_number.weak_order_axioms)
  note n = new_heap_ok(1) [of theory_var_lt 8] new_heap_ok(2,3) [of 8]
  have "yields (heap_insert theory_var_lt 3 (new_heap 8)) (\<lambda>g. heap_ok theory_var_lt g \<and> heap_set g = insert 3 (heap_set (new_heap 8)))"
    using heap_correct [OF w n(1)] n(2,3) by (auto simp del: insert_iff)
  then obtain g where g: "heap_insert theory_var_lt 3 (new_heap 8) = Inr g" "heap_ok theory_var_lt g" "heap_set g = {3}"
    using n(2) by (auto elim!: yieldsE)
  have "\<not> heap_empty g" using g(2,3) heap_empty_iff [of g] by (simp add: heap_ok_def)
  then have "yields (heap_erase_min theory_var_lt g) (\<lambda>(m, k). m \<in> heap_set g \<and> heap_set k = heap_set g - {m})"
    using heap_correct [OF w g(2)] by (auto elim!: yieldsE)
  then show ?thesis using g by (auto elim!: yieldsE)
qed

text \<open>C22: The queue of variables implements a set from which a variable of largest activity is taken: in every state
  that the events reach, activities having gone up and down with the queue told, the queue holds the set and the
  next event succeeds; \<open>min_var\<close> and \<open>next_var\<close> return a variable of largest activity.\<close>

theorem var_queue_correct:
  assumes "var_queue_reach act q S"
  shows "heap_check_invariant (var_lt act) q = Inr True \<and> (heap_empty q \<longleftrightarrow> S = {})
    \<and> (\<forall>v \<ge> 0. heap_contains q v = Inr (v \<in> S) \<and> yields (del_var_eh act v q) (\<lambda>p. var_queue_reach act p (S - {v})))
    \<and> (\<forall>v \<ge> 0. nat v < length act \<longrightarrow>
         (v \<notin> S \<longrightarrow> yields (mk_var_eh act v q) (\<lambda>p. var_queue_reach act p (insert v S) \<and> nat v < heap_get_bounds p))
         \<and> (nat v < heap_get_bounds q \<longrightarrow> yields (unassign_var_eh act v q) (\<lambda>p. var_queue_reach act p (insert v S)))
         \<and> (\<forall>x up. (if up then act ! nat v \<le> x else x \<le> act ! nat v) \<longrightarrow>
              yields (activity_changed_eh (act[nat v := x]) v up q) (\<lambda>p. var_queue_reach (act[nat v := x]) p S)))
    \<and> (S \<noteq> {} \<longrightarrow> yields (next_var act q) (\<lambda>(m, p). min_var q = Inr m \<and> m \<in> S \<and> (\<forall>w \<in> S. act ! nat w \<le> act ! nat m)
         \<and> var_queue_reach act p (S - {m})))"
proof -
  have q: "var_queue_ok act q" and S: "heap_set q = S" using var_queue_reach_inv [OF assms] by simp_all
  have h: "heap_ok (var_lt act) q" "heap_index q" using q by (simp_all add: var_queue_ok_def heap_ok_def)
  show ?thesis
  proof (intro conjI allI impI)
    show "heap_check_invariant (var_lt act) q = Inr True" by (rule heap_check_invariant_ok [OF h(1)])
    show "heap_empty q \<longleftrightarrow> S = {}" using heap_empty_iff [OF h(2)] S by simp
    show "heap_contains q v = Inr (v \<in> S)" if "0 \<le> v" for v using heap_contains_ok [OF h(2) that] S by simp
    show "yields (del_var_eh act v q) (\<lambda>p. var_queue_reach act p (S - {v}))" if v: "0 \<le> v" for v
      using del_var_eh_ok [OF q v] var_queue_reach.del_var [OF assms v] by (auto elim!: yieldsE)
    show "yields (mk_var_eh act v q) (\<lambda>p. var_queue_reach act p (insert v S) \<and> nat v < heap_get_bounds p)"
      if v: "0 \<le> v" "nat v < length act" "v \<notin> S" for v
      using mk_var_eh_ok [OF q v(1,2)] v(3) S var_queue_reach.mk_var [OF assms v] by (auto elim!: yieldsE)
    show "yields (unassign_var_eh act v q) (\<lambda>p. var_queue_reach act p (insert v S))"
      if v: "0 \<le> v" "nat v < length act" "nat v < heap_get_bounds q" for v
      using unassign_var_eh_ok [OF q v(1,3,2)] var_queue_reach.unassign [OF assms v] by (auto elim!: yieldsE)
    show "yields (activity_changed_eh (act[nat v := x]) v up q) (\<lambda>p. var_queue_reach (act[nat v := x]) p S)"
      if v: "0 \<le> v" "nat v < length act" "if up then act ! nat v \<le> x else x \<le> act ! nat v" for v x up
      using activity_changed_eh_ok [OF q v] var_queue_reach.activity [OF assms v] by (elim yieldsE) simp
    show "yields (next_var act q) (\<lambda>(m, p). min_var q = Inr m \<and> m \<in> S \<and> (\<forall>w \<in> S. act ! nat w \<le> act ! nat m)
         \<and> var_queue_reach act p (S - {m}))" if ne: "S \<noteq> {}"
      using next_var_ok [OF q] ne S var_queue_reach.next_var [OF assms ne] heap_erase_min_first [of "var_lt act" q]
      by (auto simp: next_var_def min_var_def elim!: yieldsE)
  qed
qed

theorem var_queue_correct_witness:
  "\<exists>p. mk_var_eh [7] 0 new_var_queue = Inr p \<and> heap_contains p 0 = Inr True"
proof -
  note r = var_queue_correct [OF var_queue_reach.new [of "[7]"]]
  have "yields (mk_var_eh [7] 0 new_var_queue) (\<lambda>p. var_queue_reach [7] p {0})" using r by (auto elim!: yieldsE)
  then show ?thesis using var_queue_correct [of "[7]"] by (auto elim!: yieldsE)
qed

end
